(* ===== verification/Prelude.thy ===== *)
theory Prelude
  imports Main "HOL-Library.Word"
begin

text \<open>
  What every component shares: bytes as 8-bit words, C's \<open>int\<close> as a mathematical integer with
  a range predicate, the wrap-around of a conversion to \<open>int\<close>, and the rules that turn
  masks, shifts and disjoint ORs into arithmetic (collection \<open>bit_arith\<close>).
  A failing \<open>dbg_assert\<close> (which ends the process), a negative return code and an access outside
  an object (undefined behaviour) are values of \<open>c_error\<close>; a C string is the list of its bytes before the terminating zero.
\<close>

unbundle bit_operations_syntax

type_synonym byte = "8 word"
type_synonym bytes = "8 word list"

datatype c_error = AssertFailed | ErrCode int | OutOfBounds

type_synonym 'a result = "c_error + 'a"

named_theorems bit_arith "masks, shifts and disjoint ORs as arithmetic"

definition in_i32 :: "int \<Rightarrow> bool" where
  "in_i32 i \<longleftrightarrow> - 2147483648 \<le> i \<and> i < 2147483648"

definition to_i32 :: "int \<Rightarrow> int" where
  "to_i32 i = (i + 2147483648) mod 4294967296 - 2147483648"

definition cstring :: "bytes \<Rightarrow> bool" where
  "cstring s \<longleftrightarrow> 0 \<notin> set s"

text \<open>C's integer division and remainder truncate towards zero.\<close>

definition c_div :: "int \<Rightarrow> int \<Rightarrow> int" where
  "c_div a b = sgn a * sgn b * (\<bar>a\<bar> div \<bar>b\<bar>)"

definition c_mod :: "int \<Rightarrow> int \<Rightarrow> int" where
  "c_mod a b = a - b * c_div a b"

subsection \<open>Ranges\<close>

lemma in_i32_to_i32 [simp]: "in_i32 (to_i32 i)"
proof -
  have "0 \<le> (i + 2147483648) mod 4294967296 \<and> (i + 2147483648) mod 4294967296 < 4294967296"
    by simp
  then show ?thesis by (simp add: in_i32_def to_i32_def)
qed

lemma to_i32_id [simp]: "in_i32 i \<Longrightarrow> to_i32 i = i"
  by (simp add: in_i32_def to_i32_def)

lemma to_i32_eq_iff: "to_i32 a = to_i32 b \<longleftrightarrow> a mod 4294967296 = b mod 4294967296"
proof -
  have "(a + 2147483648) mod 4294967296 = (b + 2147483648) mod 4294967296
      \<longleftrightarrow> a mod 4294967296 = b mod (4294967296 :: int)"
    by (simp add: mod_eq_dvd_iff)
  then show ?thesis by (simp add: to_i32_def)
qed

lemma to_i32_add_left [simp]: "to_i32 (to_i32 a + b) = to_i32 (a + b)"
proof -
  have "(to_i32 a) mod 4294967296 = a mod 4294967296"
    by (metis in_i32_to_i32 to_i32_eq_iff to_i32_id)
  then show ?thesis
    by (metis mod_add_left_eq to_i32_eq_iff)
qed

lemma to_i32_add_right [simp]: "to_i32 (a + to_i32 b) = to_i32 (a + b)"
  by (metis add.commute to_i32_add_left)

lemma c_div_nonneg: "0 \<le> a \<Longrightarrow> 0 < b \<Longrightarrow> c_div a b = a div b"
  by (cases "a = 0") (auto simp: c_div_def sgn_if)

lemma c_mod_nonneg: "0 \<le> a \<Longrightarrow> 0 < b \<Longrightarrow> c_mod a b = a mod b"
  by (simp add: c_mod_def c_div_nonneg minus_mult_div_eq_mod)

subsection \<open>Bits\<close>

lemma and_mask_7F [bit_arith]: "(i :: int) AND 127 = i mod 128"
  using take_bit_eq_mask [of 7 i] by (simp add: take_bit_eq_mod mask_eq_exp_minus_1)

lemma and_mask_3F [bit_arith]: "(i :: int) AND 63 = i mod 64"
  using take_bit_eq_mask [of 6 i] by (simp add: take_bit_eq_mod mask_eq_exp_minus_1)

lemma and_mask_0F [bit_arith]: "(i :: int) AND 15 = i mod 16"
  using take_bit_eq_mask [of 4 i] by (simp add: take_bit_eq_mod mask_eq_exp_minus_1)

lemma and_mask_FF [bit_arith]: "(i :: int) AND 255 = i mod 256"
  using take_bit_eq_mask [of 8 i] by (simp add: take_bit_eq_mod mask_eq_exp_minus_1)

lemma and_mask_3 [bit_arith]: "(i :: int) AND 3 = i mod 4"
  using take_bit_eq_mask [of 2 i] by (simp add: take_bit_eq_mod mask_eq_exp_minus_1)

lemma and_mask_1 [bit_arith]: "(i :: int) AND 1 = i mod 2"
  using take_bit_eq_mask [of 1 i] by (simp add: take_bit_eq_mod mask_eq_exp_minus_1)

lemma or_push_bit: "0 \<le> a \<Longrightarrow> a < 2 ^ n \<Longrightarrow> (a :: int) OR push_bit n b = a + push_bit n b"
proof -
  assume "0 \<le> a" "a < 2 ^ n"
  then have a: "take_bit n a = a" by (simp add: take_bit_int_eq_self_iff)
  have "a AND push_bit n b = 0"
  proof (rule bit_eqI)
    fix k
    show "bit (a AND push_bit n b) k \<longleftrightarrow> bit (0::int) k"
      by (subst a [symmetric]) (simp add: bit_simps)
  qed
  then show ?thesis by (simp add: disjunctive_add_eq_or)
qed

lemma push_bit_or: "0 \<le> a \<Longrightarrow> a < 2 ^ n \<Longrightarrow> push_bit n b OR (a :: int) = push_bit n b + a"
  using or_push_bit [of a n b] by (simp add: or.commute add.commute)

lemma push_bit_mult: "push_bit n (i :: int) = i * 2 ^ n"
  by (simp add: push_bit_eq_mult)

lemma drop_bit_div: "drop_bit n (i :: int) = i div 2 ^ n"
  by (simp add: drop_bit_eq_div)

lemma uint_byte_bounds [simp]: "0 \<le> uint (b :: byte)" "uint (b :: byte) < 256"
  using uint_lt2p [of b] by auto

lemma uint_byte_of_int: "uint (of_int i :: byte) = i mod 256"
  by (simp add: uint_word_of_int)

lemma byte_of_int_uint [simp]: "(of_int (uint (b :: byte)) :: byte) = b"
  by simp

lemma byte_eq_iff: "(a :: byte) = b \<longleftrightarrow> uint a = uint b"
  by (simp add: word_uint_eq_iff)

subsection \<open>Lists and options\<close>

lemma take_append_exact [simp]: "length xs = n \<Longrightarrow> take n (xs @ ys) = xs"
  by simp

lemma drop_append_exact [simp]: "length xs = n \<Longrightarrow> drop n (xs @ ys) = ys"
  by simp

lemma cstring_simps [simp]:
  "cstring []"
  "cstring (c # s) \<longleftrightarrow> c \<noteq> 0 \<and> cstring s"
  "cstring (s @ t) \<longleftrightarrow> cstring s \<and> cstring t"
  by (auto simp: cstring_def)

end
