(* ===== verification/VarInt.thy ===== *)
theory VarInt
  imports Prelude
begin

text \<open>
  The variable-length integers of the network and snapshot formats
  (\<open>CVariableInt\<close>, src/src/engine/shared/compression.h and compression.cpp).
  A destination pointer with its remaining size is the size alone; the bytes written up to the
  returned pointer are the result and \<open>nullptr\<close> is \<open>None\<close>.
  A source pointer with its size is the list of the remaining bytes.
\<close>

subsection \<open>The code\<close>

definition MAX_BYTES_PACKED :: nat where
  "MAX_BYTES_PACKED = 5"

text \<open>
  The loop \<open>while(i)\<close> of \<open>Pack\<close>: \<open>cur\<close> is the byte at \<open>*pDst\<close>, \<open>sz\<close> is \<open>DstSize\<close>.
\<close>

function pack_loop :: "byte \<Rightarrow> int \<Rightarrow> int \<Rightarrow> bytes option" where
  "pack_loop cur i sz =
     (if i = 0 then Some [cur]
      else if sz \<le> 0 then None
      else map_option (\<lambda>bs. (cur OR 0x80) # bs)
             (pack_loop (of_int (i AND 0x7F)) (drop_bit 7 i) (sz - 1)))"
  by pat_completeness auto
termination
  by (relation "measure (\<lambda>(cur, i, sz). nat sz)") auto

declare pack_loop.simps [simp del]

lemma pack_loop_0 [simp]: "pack_loop cur 0 sz = Some [cur]"
  by (simp add: pack_loop.simps)

definition Pack :: "int \<Rightarrow> int \<Rightarrow> bytes option" where
  "Pack i DstSize =
     (if DstSize \<le> 0 then None
      else let sign = (if i < 0 then 0x40 else 0);
               i' = (if i < 0 then NOT i else i)
           in pack_loop (sign OR of_int (i' AND 0x3F)) (drop_bit 6 i') (DstSize - 1))"

definition unpack_steps :: "(int \<times> nat) list" where
  "unpack_steps = [(0x7F, 6), (0x7F, 6 + 7), (0x7F, 6 + 7 + 7), (0x0F, 6 + 7 + 7 + 7)]"

text \<open>The \<open>for\<close> loop of \<open>Unpack\<close>: \<open>c\<close> is \<open>*pSrc\<close>, \<open>rest\<close> the bytes after it.\<close>

fun unpack_loop :: "(int \<times> nat) list \<Rightarrow> byte \<Rightarrow> bytes \<Rightarrow> int \<Rightarrow> (int \<times> bytes) option" where
  "unpack_loop [] c rest acc = Some (acc, rest)"
| "unpack_loop ((msk, shift) # steps) c rest acc =
     (if c AND 0x80 = 0 then Some (acc, rest)
      else case rest of [] \<Rightarrow> None
           | d # rest' \<Rightarrow> unpack_loop steps d rest' (acc OR push_bit shift (uint d AND msk)))"

definition Unpack :: "bytes \<Rightarrow> (int \<times> bytes) option" where
  "Unpack src =
     (case src of [] \<Rightarrow> None
      | c # rest \<Rightarrow>
          let Sign = drop_bit 6 (uint c) AND 1
          in map_option (\<lambda>(v, r). (v XOR (- Sign), r))
               (unpack_loop unpack_steps c rest (uint c AND 0x3F)))"

text \<open>
  \<open>Compress\<close> and \<open>Decompress\<close> run them over an array of ints; a size in bytes that is no
  multiple of \<open>sizeof(int)\<close> stops the process. The value returned is the number of bytes
  written, which is the length of the result (times four for the ints of \<open>Decompress\<close>).
\<close>

fun compress_loop :: "int list \<Rightarrow> int \<Rightarrow> bytes option" where
  "compress_loop [] dst = Some []"
| "compress_loop (i # is) dst =
     (case Pack i dst of None \<Rightarrow> None
      | Some bs \<Rightarrow> map_option ((@) bs) (compress_loop is (dst - int (length bs))))"

definition Compress :: "int list \<Rightarrow> int \<Rightarrow> bytes result" where
  "Compress src DstSize =
     (case compress_loop src DstSize of None \<Rightarrow> Inl (ErrCode (-1)) | Some bs \<Rightarrow> Inr bs)"

fun decompress_loop :: "nat \<Rightarrow> bytes \<Rightarrow> int list option" where
  "decompress_loop 0 src = (if src = [] then Some [] else None)"
| "decompress_loop (Suc n) src =
     (if src = [] then Some []
      else case Unpack src of None \<Rightarrow> None
           | Some (i, rest) \<Rightarrow> map_option ((#) i) (decompress_loop n rest))"

definition Decompress :: "bytes \<Rightarrow> nat \<Rightarrow> int list result" where
  "Decompress src DstSize =
     (if DstSize mod 4 \<noteq> 0 then Inl AssertFailed
      else case decompress_loop (DstSize div 4) src of
             None \<Rightarrow> Inl (ErrCode (-1)) | Some is \<Rightarrow> Inr is)"

subsection \<open>One byte of the encoding\<close>

lemma uint_or_80: "uint x < 128 \<Longrightarrow> uint ((x :: byte) OR 0x80) = uint x + 128"
proof -
  assume "uint x < 128"
  then have "uint x OR push_bit 7 1 = uint x + push_bit 7 1"
    by (intro or_push_bit) auto
  then show ?thesis by (simp add: uint_or push_bit_mult)
qed

lemma and_80_eq_0_iff: "(c :: byte) AND 0x80 = 0 \<longleftrightarrow> uint c < 128"
proof -
  have "(c AND 0x80 = 0) \<longleftrightarrow> uint c AND 128 = 0"
    by (simp add: word_uint_eq_iff uint_and)
  also have "\<dots> \<longleftrightarrow> \<not> bit (uint c) 7"
    using and_exp_eq_0_iff_not_bit [of "uint c" 7] by simp
  also have "\<dots> \<longleftrightarrow> uint c div 128 mod 2 = 0"
    by (simp add: bit_iff_odd even_iff_mod_2_eq_zero)
  also have "\<dots> \<longleftrightarrow> uint c < 128"
    using uint_byte_bounds [of c] by presburger
  finally show ?thesis .
qed

text \<open>
  \<open>aligned s steps\<close>: the shifts go up by seven from \<open>s\<close>, each mask is that of at most seven
  bits and of exactly seven before the last; \<open>capacity\<close> is the number of values the steps hold.
\<close>

fun aligned :: "nat \<Rightarrow> (int \<times> nat) list \<Rightarrow> bool" where
  "aligned s [] \<longleftrightarrow> True"
| "aligned s ((m, sh) # st) \<longleftrightarrow>
     sh = s \<and> (m = 127 \<or> m = 15 \<and> st = []) \<and> aligned (s + 7) st"

fun capacity :: "(int \<times> nat) list \<Rightarrow> int" where
  "capacity [] = 1"
| "capacity ((m, sh) # st) = (m + 1) * capacity st"

lemma aligned_unpack_steps: "aligned 6 unpack_steps"
  by (simp add: unpack_steps_def)

lemma capacity_unpack_steps: "capacity unpack_steps = 33554432"
  by (simp add: unpack_steps_def)

lemma step_mask: "m = 127 \<or> m = (15 :: int) \<Longrightarrow> x AND m = x mod (m + 1)"
  by (auto simp: bit_arith)

lemma step_acc:
  assumes "0 \<le> acc" "acc < 2 ^ s" "m = 127 \<or> m = (15 :: int)"
  shows "acc OR push_bit s (x AND m) = acc + (x mod (m + 1)) * 2 ^ s"
    and "0 \<le> acc OR push_bit s (x AND m)"
    and "acc OR push_bit s (x AND m) < 2 ^ s * (m + 1)"
proof -
  show eq: "acc OR push_bit s (x AND m) = acc + (x mod (m + 1)) * 2 ^ s"
    using assms by (simp only: step_mask or_push_bit) (simp add: push_bit_mult)
  have x: "0 \<le> x mod (m + 1)" "x mod (m + 1) \<le> m" using assms(3) by auto
  show "0 \<le> acc OR push_bit s (x AND m)" using assms x by (simp only: eq) simp
  have "(x mod (m + 1)) * 2 ^ s \<le> m * 2 ^ s" using x by (intro mult_right_mono) auto
  then have "acc + (x mod (m + 1)) * 2 ^ s < 2 ^ s + m * 2 ^ s" using assms by linarith
  also have "\<dots> = 2 ^ s * (m + 1)" by (simp add: algebra_simps)
  finally show "acc OR push_bit s (x AND m) < 2 ^ s * (m + 1)" by (simp only: eq)
qed

lemma unpack_loop_pack_loop:
  assumes "aligned s steps" "0 \<le> i" "i < capacity steps" "uint cur < 128"
    and "pack_loop cur i sz = Some bs"
  shows "\<exists>c rs. bs = c # rs \<and> uint c mod 128 = uint cur \<and>
    (\<forall>acc. 0 \<le> acc \<longrightarrow> acc < 2 ^ s \<longrightarrow> unpack_loop steps c (rs @ rest) acc = Some (acc + i * 2 ^ s, rest))"
  using assms
proof (induction steps arbitrary: s i cur sz bs)
  case Nil
  then have "i = 0" by simp
  with Nil show ?case by auto
next
  case (Cons st steps)
  obtain m sh where st: "st = (m, sh)" by (cases st)
  have m: "m = 127 \<or> m = 15 \<and> steps = []" and sh: "sh = s" and al: "aligned (s + 7) steps"
    using Cons.prems(1) st by auto
  show ?case
  proof (cases "i = 0")
    case True
    with Cons.prems show ?thesis
      by (auto simp: st and_80_eq_0_iff)
  next
    case False
    let ?cur = "of_int (i AND 0x7F) :: byte"
    from False Cons.prems(5) obtain bs' where bs: "bs = (cur OR 0x80) # bs'"
      and rec: "pack_loop ?cur (drop_bit 7 i) (sz - 1) = Some bs'"
      by (auto simp: pack_loop.simps [of cur i sz] split: if_splits)
    have cur: "uint ?cur = i mod 128" by (simp add: uint_byte_of_int bit_arith mod_mod_cancel)
    have i7: "drop_bit 7 i = i div 128" by (simp add: drop_bit_div)
    have cap: "i div 128 < capacity steps"
      using m Cons.prems(2,3) st by auto
    have "\<exists>c rs. bs' = c # rs \<and> uint c mod 128 = uint ?cur \<and>
      (\<forall>acc. 0 \<le> acc \<longrightarrow> acc < 2 ^ (s + 7) \<longrightarrow>
         unpack_loop steps c (rs @ rest) acc = Some (acc + i div 128 * 2 ^ (s + 7), rest))"
      using Cons.IH [OF al _ _ _ rec] cap Cons.prems(2) cur i7 by (simp add: pos_imp_zdiv_nonneg_iff)
    then obtain d rs where bs': "bs' = d # rs" and d: "uint d mod 128 = i mod 128"
      and go: "\<And>acc. 0 \<le> acc \<Longrightarrow> acc < 2 ^ (s + 7) \<Longrightarrow>
         unpack_loop steps d (rs @ rest) acc = Some (acc + i div 128 * 2 ^ (s + 7), rest)"
      using cur by auto
    have "unpack_loop (st # steps) (cur OR 0x80) (d # rs @ rest) acc = Some (acc + i * 2 ^ s, rest)"
      if acc: "0 \<le> acc" "acc < 2 ^ s" for acc
    proof -
      have mm: "m = 127 \<or> m = 15" using m by auto
      have dm: "uint d mod (m + 1) = i mod (m + 1)"
      proof -
        have "(m + 1) dvd 128" using mm by auto
        then show ?thesis using d by (metis mod_mod_cancel)
      qed
      let ?acc = "acc OR push_bit s (uint d AND m)"
      have step: "?acc = acc + (i mod (m + 1)) * 2 ^ s" "0 \<le> ?acc" "?acc < 2 ^ s * (m + 1)"
        using step_acc [OF acc mm, of "uint d"] dm by auto
      have "2 ^ s * (m + 1) \<le> (2 :: int) ^ (s + 7)"
        using mm by (auto simp: power_add)
      then have "unpack_loop steps d (rs @ rest) ?acc = Some (?acc + i div 128 * 2 ^ (s + 7), rest)"
        using go step by auto
      moreover have "?acc + i div 128 * 2 ^ (s + 7) = acc + i * 2 ^ s"
      proof -
        have "i mod (m + 1) + i div 128 * 128 = i"
          using m Cons.prems(2,3) st by auto
        then have "(i mod (m + 1) + i div 128 * 128) * 2 ^ s = i * 2 ^ s" by simp
        then show ?thesis using step(1) by (simp add: power_add algebra_simps)
      qed
      ultimately show ?thesis
        using Cons.prems(4) by (simp add: st sh and_80_eq_0_iff uint_or_80)
    qed
    moreover have "uint (cur OR 0x80) mod 128 = uint cur"
      using Cons.prems(4) uint_byte_bounds(1) [of cur] by (simp add: uint_or_80 mod_pos_pos_trivial)
    ultimately show ?thesis by (auto simp: bs bs')
  qed
qed


lemma unpack_loop_bounds:
  assumes "aligned s steps" "0 \<le> acc" "acc < 2 ^ s" "unpack_loop steps c rest acc = Some (v, r)"
  shows "0 \<le> v \<and> v < 2 ^ s * capacity steps \<and> (\<exists>u. rest = u @ r \<and> length u \<le> length steps)"
  using assms
proof (induction steps c rest acc arbitrary: s rule: unpack_loop.induct)
  case (1 c rest acc)
  then show ?case by auto
next
  case (2 m sh steps c rest acc)
  have mm: "m = 127 \<or> m = 15" and m: "m = 127 \<or> steps = []" and sh: "sh = s"
    and al: "aligned (s + 7) steps"
    using "2.prems"(1) by auto
  have pos: "0 < capacity steps" if "aligned k steps" for k
    using that by (induction steps arbitrary: k rule: capacity.induct) auto
  show ?case
  proof (cases "c AND 0x80 = 0")
    case True
    have "2 ^ s * 1 \<le> (2::int) ^ s * capacity ((m, sh) # steps)"
      using pos [OF al] mm by (intro mult_left_mono) auto
    then have "acc < 2 ^ s * capacity ((m, sh) # steps)" using "2.prems"(3) by linarith
    moreover have "v = acc" "rest = r" using True "2.prems"(4) by auto
    ultimately show ?thesis using "2.prems"(2) by auto
  next
    case False
    with "2.prems"(4) obtain d rest' where rest: "rest = d # rest'"
      and rec: "unpack_loop steps d rest' (acc OR push_bit s (uint d AND m)) = Some (v, r)"
      by (auto simp: sh split: list.splits)
    let ?acc = "acc OR push_bit s (uint d AND m)"
    have step: "0 \<le> ?acc" "?acc < 2 ^ s * (m + 1)"
      using step_acc [OF "2.prems"(2,3) mm, of "uint d"] by blast+
    have "2 ^ s * (m + 1) \<le> (2 :: int) ^ (s + 7)"
      using mm by (auto simp: power_add)
    then have "0 \<le> v \<and> v < 2 ^ (s + 7) * capacity steps \<and> (\<exists>u. rest' = u @ r \<and> length u \<le> length steps)"
      using "2.IH" [OF False rest, of "s + 7"] al step rec sh by simp
    moreover have "v < 2 ^ s * ((m + 1) * capacity steps)"
      using m
    proof
      assume "m = 127"
      with calculation show ?thesis by (simp add: power_add)
    next
      assume "steps = []"
      with rec step show ?thesis by simp
    qed
    ultimately show ?thesis by (auto simp: rest intro: exI [of _ "d # u" for u])
  qed
qed

subsection \<open>Packing and unpacking one integer\<close>

lemma xor_minus_1: "(i :: int) XOR - 1 = NOT i"
  by simp

lemma Unpack_Pack:
  assumes "in_i32 i" "Pack i sz = Some bs"
  shows "Unpack (bs @ rest) = Some (i, rest)"
proof -
  define i' where "i' = (if i < 0 then NOT i else i)"
  define sign where "sign = (if i < 0 then 0x40 else 0 :: byte)"
  have i': "0 \<le> i'" "i' < 2147483648"
    using assms(1) by (auto simp: i'_def in_i32_def not_int_def)
  have "uint sign = (if i < 0 then 64 else 0)" by (simp add: sign_def)
  moreover have m: "uint (of_int (i' AND 0x3F) :: byte) = i' mod 64"
    using i' by (simp add: uint_byte_of_int bit_arith mod_pos_pos_trivial)
  ultimately have cur: "uint (sign OR of_int (i' AND 0x3F)) = (if i < 0 then 64 else 0) + i' mod 64"
    using or_push_bit [of "i' mod 64" 6 1] by (auto simp: uint_or push_bit_mult or.commute)
  have "pack_loop (sign OR of_int (i' AND 0x3F)) (drop_bit 6 i') (sz - 1) = Some bs"
    using assms(2) by (simp add: Pack_def i'_def sign_def Let_def split: if_splits)
  moreover have "drop_bit 6 i' = i' div 64" by (simp add: drop_bit_div)
  moreover have "i' div 64 < capacity unpack_steps" "0 \<le> i' div 64"
    using i' by (simp_all add: capacity_unpack_steps pos_imp_zdiv_nonneg_iff)
  moreover have lt: "uint (sign OR of_int (i' AND 0x3F)) < 128"
    unfolding cur by (auto simp: mod_less_divisor)
  ultimately obtain c rs where bs: "bs = c # rs"
    and c: "uint c mod 128 = (if i < 0 then 64 else 0) + i' mod 64"
    and go: "\<And>acc. 0 \<le> acc \<Longrightarrow> acc < 2 ^ 6 \<Longrightarrow>
       unpack_loop unpack_steps c (rs @ rest) acc = Some (acc + i' div 64 * 2 ^ 6, rest)"
    using unpack_loop_pack_loop [OF aligned_unpack_steps, of "i' div 64"] cur by metis
  have c64: "uint c mod 64 = i' mod 64"
  proof -
    have "uint c mod 64 = (uint c mod 128) mod 64" by (simp add: mod_mod_cancel)
    then show ?thesis by (simp add: c)
  qed
  have "uint c mod (64 * 2) = 64 * (uint c div 64 mod 2) + uint c mod 64"
    by (rule zmod_zmult2_eq) simp
  then have "uint c div 64 mod 2 = (if i < 0 then 1 else 0)"
    using c c64 by (cases "i < 0") simp_all
  then have "drop_bit 6 (uint c) AND 1 = (if i < 0 then 1 else 0)"
    by (simp add: drop_bit_div bit_arith)
  moreover have "unpack_loop unpack_steps c (rs @ rest) (uint c AND 0x3F) = Some (i', rest)"
    using go [of "i' mod 64"] c64 i' by (simp add: bit_arith)
  ultimately show ?thesis
    by (auto simp: Unpack_def bs i'_def)
qed


lemma Unpack_bounds:
  assumes "Unpack src = Some (v, r)"
  shows "in_i32 v" and "\<exists>u. src = u @ r \<and> 1 \<le> length u \<and> length u \<le> MAX_BYTES_PACKED"
proof -
  from assms obtain c rest w where src: "src = c # rest"
    and go: "unpack_loop unpack_steps c rest (uint c AND 0x3F) = Some (w, r)"
    and v: "v = w XOR (- (drop_bit 6 (uint c) AND 1))"
    by (auto simp: Unpack_def split: list.splits)
  have b: "0 \<le> w \<and> w < 2 ^ 6 * capacity unpack_steps \<and>
      (\<exists>u. rest = u @ r \<and> length u \<le> length unpack_steps)"
    using unpack_loop_bounds [OF aligned_unpack_steps _ _ go] by (simp add: bit_arith)
  have "drop_bit 6 (uint c) AND 1 = 0 \<or> drop_bit 6 (uint c) AND 1 = 1"
    unfolding bit_arith by presburger
  then have "v = w \<or> v = - w - 1"
    using v by (auto simp: not_int_def)
  with b show "in_i32 v"
    by (auto simp: in_i32_def capacity_unpack_steps)
  from b obtain u where "rest = u @ r" "length u \<le> 4" by (auto simp: unpack_steps_def)
  then have "src = (c # u) @ r \<and> 1 \<le> length (c # u) \<and> length (c # u) \<le> MAX_BYTES_PACKED"
    by (simp add: src MAX_BYTES_PACKED_def)
  then show "\<exists>u. src = u @ r \<and> 1 \<le> length u \<and> length u \<le> MAX_BYTES_PACKED" by blast
qed

lemma pack_loop_nonempty: "pack_loop cur i sz = Some bs \<Longrightarrow> bs \<noteq> []"
  by (subst (asm) pack_loop.simps) (auto split: if_splits)

text \<open>The bytes do not depend on the room, as long as there is room for them.\<close>

lemma pack_loop_size:
  assumes "pack_loop cur i sz = Some bs" "0 \<le> sz'"
  shows "pack_loop cur i sz' = (if int (length bs) \<le> sz' + 1 then Some bs else None)"
  using assms
proof (induction cur i sz arbitrary: bs sz' rule: pack_loop.induct)
  case (1 cur i sz)
  show ?case
  proof (cases "i = 0")
    case True
    with "1.prems" show ?thesis by auto
  next
    case False
    with "1.prems"(1) obtain bs' where bs: "bs = (cur OR 0x80) # bs'" and sz: "\<not> sz \<le> 0"
      and rec: "pack_loop (of_int (i AND 0x7F)) (drop_bit 7 i) (sz - 1) = Some bs'"
      by (auto simp: pack_loop.simps [of cur i sz] split: if_splits)
    show ?thesis
    proof (cases "sz' \<le> 0")
      case True
      have "bs' \<noteq> []" using rec by (rule pack_loop_nonempty)
      with True False bs show ?thesis
        by (cases bs') (auto simp: pack_loop.simps [of cur i sz'])
    next
      case sz': False
      then have "pack_loop (of_int (i AND 0x7F)) (drop_bit 7 i) (sz' - 1) =
          (if int (length bs') \<le> sz' then Some bs' else None)"
        using "1.IH" [OF False sz rec, of "sz' - 1"] by simp
      with False sz' bs show ?thesis
        by (simp add: pack_loop.simps [of cur i sz'])
    qed
  qed
qed

lemma pack_loop_total:
  assumes "0 \<le> i" "i < 128 ^ n" "int n \<le> sz"
  shows "\<exists>bs. pack_loop cur i sz = Some bs \<and> length bs \<le> n + 1"
  using assms
proof (induction n arbitrary: cur i sz)
  case 0
  then have "i = 0" by simp
  then show ?case by simp
next
  case (Suc n)
  show ?case
  proof (cases "i = 0")
    case True
    then show ?thesis by simp
  next
    case False
    have "drop_bit 7 i < 128 ^ n" "0 \<le> drop_bit 7 i"
      using Suc.prems by (auto simp: drop_bit_div pos_imp_zdiv_nonneg_iff)
    then obtain bs where "pack_loop (of_int (i AND 0x7F)) (drop_bit 7 i) (sz - 1) = Some bs"
      "length bs \<le> n + 1"
      using Suc.IH [of "drop_bit 7 i" "sz - 1"] Suc.prems by auto
    with False Suc.prems show ?thesis by (simp add: pack_loop.simps [of cur i sz])
  qed
qed

lemma Pack_total:
  assumes "in_i32 i"
  shows "\<exists>bs. length bs \<le> MAX_BYTES_PACKED \<and> bs \<noteq> [] \<and>
    (\<forall>sz. Pack i sz = (if int (length bs) \<le> sz then Some bs else None))"
proof -
  define i' where "i' = (if i < 0 then NOT i else i)"
  have i': "0 \<le> i'" "i' < 2147483648"
    using assms by (auto simp: i'_def in_i32_def not_int_def)
  define cur where "cur = (if i < 0 then 0x40 else 0 :: byte) OR of_int (i' AND 0x3F)"
  have P: "Pack i sz = (if sz \<le> 0 then None else pack_loop cur (drop_bit 6 i') (sz - 1))" for sz
    by (simp add: Pack_def i'_def cur_def Let_def)
  have "0 \<le> drop_bit 6 i'" "drop_bit 6 i' < 128 ^ 4"
    using i' by (auto simp: drop_bit_div pos_imp_zdiv_nonneg_iff)
  from pack_loop_total [OF this, of 4 cur]
  obtain bs where bs: "pack_loop cur (drop_bit 6 i') 4 = Some bs" "length bs \<le> 5" by auto
  have ne: "bs \<noteq> []" using bs(1) by (rule pack_loop_nonempty)
  have "Pack i sz = (if int (length bs) \<le> sz then Some bs else None)" for sz
  proof (cases "sz \<le> 0")
    case True
    with ne show ?thesis by (cases bs) (auto simp: P)
  next
    case False
    then show ?thesis using pack_loop_size [OF bs(1), of "sz - 1"] by (simp add: P)
  qed
  with bs ne show ?thesis by (auto simp: MAX_BYTES_PACKED_def)
qed

lemma Pack_length: "Pack i sz = Some bs \<Longrightarrow> in_i32 i \<Longrightarrow> 1 \<le> length bs \<and> int (length bs) \<le> sz"
proof -
  assume P: "Pack i sz = Some bs" and "in_i32 i"
  then obtain cs where "cs \<noteq> []" "Pack i sz = (if int (length cs) \<le> sz then Some cs else None)"
    using Pack_total [of i] by blast
  with P show ?thesis by (cases cs) (auto split: if_splits)
qed

subsection \<open>Arrays of integers\<close>

lemma decompress_compress_loop:
  assumes "compress_loop is sz = Some bs" "\<forall>i \<in> set is. in_i32 i" "length is \<le> n"
  shows "decompress_loop n bs = Some is"
  using assms
proof (induction "is" arbitrary: sz bs n)
  case Nil
  then show ?case by (cases n) auto
next
  case (Cons i "is")
  then obtain b cs where b: "Pack i sz = Some b" and cs: "compress_loop is (sz - int (length b)) = Some cs"
    and bs: "bs = b @ cs"
    by (auto split: option.splits)
  from Cons.prems(3) obtain m where m: "n = Suc m" "length is \<le> m" by (cases n) auto
  have "b \<noteq> []" using Pack_length [OF b] Cons.prems(2) by auto
  moreover have "Unpack (b @ cs) = Some (i, cs)" using Unpack_Pack [OF _ b] Cons.prems(2) by simp
  moreover have "decompress_loop m cs = Some is" using Cons.IH [OF cs] Cons.prems(2) m by simp
  ultimately show ?case by (simp add: m bs)
qed

lemma decompress_loop_bounds:
  "decompress_loop n src = Some is \<Longrightarrow>
     length is \<le> n \<and> (\<forall>i \<in> set is. in_i32 i) \<and> length is \<le> length src \<and> length src \<le> 5 * length is"
proof (induction n src arbitrary: "is" rule: decompress_loop.induct)
  case (1 src)
  then show ?case by (auto split: if_splits)
next
  case (2 n src)
  show ?case
  proof (cases "src = []")
    case True
    with 2 show ?thesis by auto
  next
    case False
    with "2.prems" obtain i rest js where u: "Unpack src = Some (i, rest)"
      and rec: "decompress_loop n rest = Some js" and "is": "is = i # js"
      by (auto split: option.splits)
    obtain w where "src = w @ rest" "1 \<le> length w" "length w \<le> 5"
      using Unpack_bounds(2) [OF u] by (auto simp: MAX_BYTES_PACKED_def)
    with "2.IH" [OF False u refl rec] Unpack_bounds(1) [OF u] "is" show ?thesis
      by auto
  qed
qed

lemma compress_loop_total:
  assumes "\<forall>i \<in> set is. in_i32 i"
  shows "\<exists>bs. length bs \<le> MAX_BYTES_PACKED * length is \<and>
    (\<forall>sz. 0 \<le> sz \<longrightarrow> compress_loop is sz = (if int (length bs) \<le> sz then Some bs else None))"
  using assms
proof (induction "is")
  case Nil
  then show ?case by (intro exI [of _ "[]"]) simp
next
  case (Cons i "is")
  from Cons obtain bs where bs: "length bs \<le> MAX_BYTES_PACKED * length is"
    "\<And>sz. 0 \<le> sz \<Longrightarrow> compress_loop is sz = (if int (length bs) \<le> sz then Some bs else None)"
    by auto
  from Cons.prems Pack_total [of i] obtain p where p: "length p \<le> MAX_BYTES_PACKED"
    "\<And>sz. Pack i sz = (if int (length p) \<le> sz then Some p else None)" by auto
  have "compress_loop (i # is) sz = (if int (length (p @ bs)) \<le> sz then Some (p @ bs) else None)"
    if "0 \<le> sz" for sz
    using bs(2) [of "sz - int (length p)"] p(2) [of sz] by auto
  moreover have "length (p @ bs) \<le> MAX_BYTES_PACKED * length (i # is)"
    using bs(1) p(1) by simp
  ultimately show ?case by blast
qed

subsection \<open>Properties\<close>

text \<open>Every C \<open>int\<close> has one packed form of one to five bytes; \<open>Pack\<close> gives it exactly when
  it fits into the destination and \<open>nullptr\<close> otherwise, and \<open>Unpack\<close> reads the value back from
  it and returns the pointer behind it, whatever follows.\<close>

theorem varint_roundtrip:
  assumes "in_i32 i"
  shows "\<exists>bs. bs \<noteq> [] \<and> length bs \<le> MAX_BYTES_PACKED \<and>
    (\<forall>DstSize. Pack i DstSize = (if int (length bs) \<le> DstSize then Some bs else None)) \<and>
    (\<forall>rest. Unpack (bs @ rest) = Some (i, rest))"
proof -
  from Pack_total [OF assms] obtain bs where bs: "length bs \<le> MAX_BYTES_PACKED" "bs \<noteq> []"
    "\<forall>sz. Pack i sz = (if int (length bs) \<le> sz then Some bs else None)" by blast
  then have "Pack i (int (length bs)) = Some bs" by simp
  then have "Unpack (bs @ rest) = Some (i, rest)" for rest by (rule Unpack_Pack [OF assms])
  with bs show ?thesis by blast
qed

theorem varint_roundtrip_witness:
  "\<exists>bs. Pack (- 2147483648) 5 = Some bs \<and> Unpack (bs @ [7]) = Some (- 2147483648, [7])"
proof -
  have "in_i32 (- 2147483648)" by (simp add: in_i32_def)
  from varint_roundtrip [OF this] obtain bs where
    "length bs \<le> MAX_BYTES_PACKED"
    "\<forall>sz. Pack (- 2147483648) sz = (if int (length bs) \<le> sz then Some bs else None)"
    "\<forall>rest. Unpack (bs @ rest) = Some (- 2147483648, rest)" by blast
  then show ?thesis by (auto simp: MAX_BYTES_PACKED_def)
qed

text \<open>on arbitrary bytes \<open>Unpack\<close> yields a value in the range of \<open>int\<close>, reads between one
  and five bytes and never past the end of the source.\<close>

theorem varint_unpack_safe:
  "case Unpack src of None \<Rightarrow> True
   | Some (v, rest) \<Rightarrow> in_i32 v \<and>
       (\<exists>u. src = u @ rest \<and> 1 \<le> length u \<and> length u \<le> MAX_BYTES_PACKED)"
  using Unpack_bounds [of src] by (auto split: option.splits prod.splits)

text \<open>\<open>Compress\<close> turns an array of ints into at most five bytes each, failing exactly when they
  do not fit, and \<open>Decompress\<close> restores the array from them into any large enough buffer.\<close>

theorem compress_decompress_roundtrip:
  assumes "\<forall>i \<in> set is. in_i32 i"
  shows "\<exists>bs. length bs \<le> MAX_BYTES_PACKED * length is \<and>
    (\<forall>sz \<ge> 0. Compress is sz = (if int (length bs) \<le> sz then Inr bs else Inl (ErrCode (-1)))) \<and>
    (\<forall>n \<ge> length is. Decompress bs (4 * n) = Inr is)"
proof -
  from compress_loop_total [OF assms] obtain bs where
    bs: "length bs \<le> MAX_BYTES_PACKED * length is"
    "\<forall>sz. 0 \<le> sz \<longrightarrow> compress_loop is sz = (if int (length bs) \<le> sz then Some bs else None)" by blast
  then have "compress_loop is (int (length bs)) = Some bs" by simp
  then have "decompress_loop n bs = Some is" if "length is \<le> n" for n
    using decompress_compress_loop assms that by blast
  with bs show ?thesis by (auto simp: Compress_def Decompress_def intro!: exI [of _ bs])
qed

theorem compress_decompress_roundtrip_witness:
  "\<exists>bs. Compress [0, -1, 300, 2147483647] 20 = Inr bs \<and>
    Decompress bs (4 * 4) = Inr [0, -1, 300, 2147483647]"
proof -
  have "\<forall>i \<in> set [0, -1, 300, 2147483647]. in_i32 i" by (simp add: in_i32_def)
  from compress_decompress_roundtrip [OF this] obtain bs where
    "length bs \<le> 20"
    "\<forall>sz \<ge> 0. Compress [0, -1, 300, 2147483647] sz =
       (if int (length bs) \<le> sz then Inr bs else Inl (ErrCode (-1)))"
    "\<forall>n \<ge> 4. Decompress bs (4 * n) = Inr [0, -1, 300, 2147483647]"
    by (auto simp: MAX_BYTES_PACKED_def)
  then show ?thesis by (intro exI [of _ bs]) auto
qed

end
