(* ===== verification/Utf8.thy ===== *)
theory Utf8
  imports Prelude
begin

text \<open>
  UTF-8 encoding, decoding, validation and truncation (src/src/base/str.cpp). A C string is the
  list of its bytes up to the terminating zero; a \<open>const char *\<close> into it is the list of the
  bytes from there on, so reading at \<open>[]\<close> reads the zero byte. \<open>str_utf8_decode\<close> returns the
  code point and the advanced pointer; on reading the terminating zero it returns 0 and its
  callers do not use the pointer again.
\<close>

subsection \<open>The code\<close>

definition str_utf8_encode :: "int \<Rightarrow> bytes" where
  "str_utf8_encode chr =
     (if chr \<le> 0x7F then [of_int chr]
      else if chr \<le> 0x7FF then
        [of_int (0xC0 OR (drop_bit 6 chr AND 0x1F)),
         of_int (0x80 OR (chr AND 0x3F))]
      else if chr \<le> 0xFFFF then
        [of_int (0xE0 OR (drop_bit 12 chr AND 0x0F)),
         of_int (0x80 OR (drop_bit 6 chr AND 0x3F)),
         of_int (0x80 OR (chr AND 0x3F))]
      else if chr \<le> 0x10FFFF then
        [of_int (0xF0 OR (drop_bit 18 chr AND 0x07)),
         of_int (0x80 OR (drop_bit 12 chr AND 0x3F)),
         of_int (0x80 OR (drop_bit 6 chr AND 0x3F)),
         of_int (0x80 OR (chr AND 0x3F))]
      else [])"

text \<open>\<open>str_byte_next\<close>: the byte read and the pointer after it.\<close>

definition str_byte_next :: "bytes \<Rightarrow> int \<times> bytes" where
  "str_byte_next s = (case s of [] \<Rightarrow> (0, []) | b # r \<Rightarrow> (uint b, r))"

text \<open>
  The loop of the decoder once the first byte is read: \<open>lower\<close> and \<open>upper\<close> are the bounds for
  the next byte, \<open>cp\<close> the code point so far. The terminating zero is below every lower bound
  in use (at least 0x80), so it takes the error branch with the pointer rewound onto it.
\<close>

fun utf8_decode_loop :: "int \<Rightarrow> int \<Rightarrow> int \<Rightarrow> nat \<Rightarrow> nat \<Rightarrow> bytes \<Rightarrow> int \<times> bytes" where
  "utf8_decode_loop lower upper cp seen needed [] = (- 1, [])"
| "utf8_decode_loop lower upper cp seen needed (b # r) =
     (let byte_value = uint b in
      if \<not> (lower \<le> byte_value \<and> byte_value \<le> upper) then (- 1, b # r)
      else let seen' = seen + 1;
               cp' = cp + push_bit (6 * (needed - seen')) (byte_value - 0x80)
           in if seen' \<noteq> needed then utf8_decode_loop 0x80 0xBF cp' seen' needed r
              else (cp', r))"

definition str_utf8_decode :: "bytes \<Rightarrow> int \<times> bytes" where
  "str_utf8_decode s =
     (let (byte_value, r) = str_byte_next s in
      if byte_value \<le> 0x7F then (byte_value, r)
      else if 0xC2 \<le> byte_value \<and> byte_value \<le> 0xDF then
        utf8_decode_loop 0x80 0xBF (push_bit (6 * 1) (byte_value - 0xC0)) 0 1 r
      else if 0xE0 \<le> byte_value \<and> byte_value \<le> 0xEF then
        utf8_decode_loop (if byte_value = 0xE0 then 0xA0 else 0x80)
          (if byte_value = 0xED then 0x9F else 0xBF)
          (push_bit (6 * 2) (byte_value - 0xE0)) 0 2 r
      else if 0xF0 \<le> byte_value \<and> byte_value \<le> 0xF4 then
        utf8_decode_loop (if byte_value = 0xF0 then 0x90 else 0x80)
          (if byte_value = 0xF4 then 0x8F else 0xBF)
          (push_bit (6 * 3) (byte_value - 0xF0)) 0 3 r
      else (- 1, r))"

lemma utf8_decode_loop_length: "length (snd (utf8_decode_loop l u cp n k s)) \<le> length s"
  by (induction l u cp n k s rule: utf8_decode_loop.induct) (auto simp: Let_def le_Suc_eq)

lemma str_utf8_decode_length: "s \<noteq> [] \<Longrightarrow> length (snd (str_utf8_decode s)) < length s"
proof (cases s)
  case (Cons b r)
  have "length (snd (utf8_decode_loop l u cp n k r)) < length s" for l u cp n k
    using utf8_decode_loop_length [of l u cp n k r] Cons by simp
  with Cons show ?thesis by (auto simp: str_utf8_decode_def str_byte_next_def Let_def)
qed simp

text \<open>\<open>str_utf8_check\<close> stops at the zero the decoder returns or at an error.\<close>

function str_utf8_check :: "bytes \<Rightarrow> bool" where
  "str_utf8_check s =
     (let (codepoint, r) = str_utf8_decode s in
      if codepoint = 0 \<or> s = [] then True
      else if codepoint = - 1 then False
      else str_utf8_check r)"
  by pat_completeness auto
termination
  by (relation "measure length") (auto, metis snd_conv str_utf8_decode_length)

declare str_utf8_check.simps [simp del]

definition str_utf8_isstart :: "byte \<Rightarrow> bool" where
  "str_utf8_isstart c \<longleftrightarrow> \<not> (c AND 0xC0 = 0x80)"

fun str_utf8_rewind :: "bytes \<Rightarrow> nat \<Rightarrow> nat" where
  "str_utf8_rewind s 0 = 0"
| "str_utf8_rewind s (Suc cursor) =
     (if str_utf8_isstart (s ! cursor) then cursor else str_utf8_rewind s cursor)"

text \<open>The string after \<open>str_utf8_fix_truncation\<close>; the value returned is its length.\<close>

definition str_utf8_fix_truncation :: "bytes \<Rightarrow> bytes" where
  "str_utf8_fix_truncation s =
     (if length s > 0 then
        let last_char_index = str_utf8_rewind s (length s)
        in if fst (str_utf8_decode (drop last_char_index s)) = - 1
           then take last_char_index s else s
      else s)"

text \<open>
  \<open>str_copy\<close> into a buffer of \<open>dst_size\<close> bytes: \<open>strncat\<close> is told to append at most
  \<open>dst_size - 1\<close> bytes to the empty string, and for \<open>dst_size = 0\<close> the \<open>-1\<close> becomes the largest
  \<open>size_t\<close>, so nothing is cut off.
\<close>

definition str_copy :: "bytes \<Rightarrow> nat \<Rightarrow> bytes" where
  "str_copy src dst_size =
     str_utf8_fix_truncation (if dst_size = 0 then src else take (dst_size - 1) src)"

subsection \<open>Arithmetic of lead and continuation bytes\<close>

lemma or_C0: "0 \<le> x \<Longrightarrow> x < 64 \<Longrightarrow> 192 OR (x :: int) = 192 + x"
  using push_bit_or [of x 6 3] by (simp add: push_bit_mult)

lemma or_80: "0 \<le> x \<Longrightarrow> x < 64 \<Longrightarrow> 128 OR (x :: int) = 128 + x"
  using push_bit_or [of x 6 2] by (simp add: push_bit_mult)

lemma or_E0: "0 \<le> x \<Longrightarrow> x < 32 \<Longrightarrow> 224 OR (x :: int) = 224 + x"
  using push_bit_or [of x 5 7] by (simp add: push_bit_mult)

lemma or_F0: "0 \<le> x \<Longrightarrow> x < 16 \<Longrightarrow> 240 OR (x :: int) = 240 + x"
  using push_bit_or [of x 4 15] by (simp add: push_bit_mult)

lemma and_mask_1F [bit_arith]: "(i :: int) AND 31 = i mod 32"
  using take_bit_eq_mask [of 5 i] by (simp add: take_bit_eq_mod mask_eq_exp_minus_1)

lemma and_mask_7 [bit_arith]: "(i :: int) AND 7 = i mod 8"
  using take_bit_eq_mask [of 3 i] by (simp add: take_bit_eq_mod mask_eq_exp_minus_1)

lemmas utf8_or = or_C0 or_80 or_E0 or_F0

lemma isstart_iff: "str_utf8_isstart c \<longleftrightarrow> \<not> (128 \<le> uint c \<and> uint c < 192)"
proof -
  have "c AND 0xC0 = 0x80 \<longleftrightarrow> uint c AND 192 = 128"
    by (simp add: word_uint_eq_iff uint_and)
  also have "uint c AND 192 = push_bit 6 (drop_bit 6 (uint c) AND 3)"
  proof -
    have "uint c AND push_bit 6 3 = push_bit 6 (drop_bit 6 (uint c) AND 3)"
      by (rule bit_eqI) (auto simp only: bit_and_iff bit_push_bit_iff bit_drop_bit_eq o_apply
          possible_bit_int le_add_diff_inverse)
    then show ?thesis by (simp add: push_bit_mult)
  qed
  finally have "c AND 0xC0 = 0x80 \<longleftrightarrow> (uint c div 64 mod 4) * 64 = 128"
    by (simp add: push_bit_mult drop_bit_div bit_arith)
  moreover have "(x div 64 mod 4) * 64 = 128 \<longleftrightarrow> 128 \<le> x \<and> x < 192"
    if "0 \<le> x" "x < 256" for x :: int
  proof -
    have "x div 64 mod 4 = x div 64" using that by simp
    then have "(x div 64 mod 4) * 64 = 128 \<longleftrightarrow> x div 64 = 2" by auto
    also have "\<dots> \<longleftrightarrow> 128 \<le> x \<and> x < 192" by auto
    finally show ?thesis .
  qed
  ultimately show ?thesis by (simp add: str_utf8_isstart_def)
qed


lemma uint_numeral_add:
  "0 \<le> x \<Longrightarrow> numeral n + x < 256 \<Longrightarrow> uint (numeral n + word_of_int x :: byte) = numeral n + x"
proof -
  assume x: "0 \<le> x" "numeral n + x < 256"
  have "(numeral n + word_of_int x :: byte) = word_of_int (numeral n + x)" by simp
  then show ?thesis using x by (simp only: uint_byte_of_int) simp
qed

subsection \<open>Decoding what was encoded\<close>

definition scalar_value :: "int \<Rightarrow> bool" where
  "scalar_value c \<longleftrightarrow> 0 < c \<and> c \<le> 0x10FFFF \<and> \<not> (0xD800 \<le> c \<and> c \<le> 0xDFFF)"

lemma encode_1: "0 \<le> c \<Longrightarrow> c \<le> 127 \<Longrightarrow> map uint (str_utf8_encode c) = [c]"
  by (simp add: str_utf8_encode_def uint_byte_of_int)

lemma encode_2:
  assumes "0 \<le> d" "d < 64" "2 \<le> b" "b < 32"
  shows "map uint (str_utf8_encode (64 * b + d)) = [192 + b, 128 + d]"
  using assms by (simp add: str_utf8_encode_def drop_bit_div bit_arith utf8_or uint_numeral_add)

lemma digit_64: "0 \<le> e \<Longrightarrow> e < 64 \<Longrightarrow> (64 * q + e) div 64 = q \<and> (64 * q + e) mod 64 = (e :: int)"
  by auto

lemma encode_3:
  assumes "0 \<le> e" "e < 64" "0 \<le> d" "d < 64" "0 \<le> b" "b < 16" "b = 0 \<longrightarrow> 32 \<le> d"
  shows "map uint (str_utf8_encode (64 * (64 * b + d) + e)) = [224 + b, 128 + d, 128 + e]"
proof -
  define q c where q: "q = 64 * b + d" and c: "c = 64 * q + e"
  have dm: "q div 64 = b" "q mod 64 = d" "c div 64 = q" "c mod 64 = e"
    using digit_64 [of d b] digit_64 [of e q] assms by (simp_all add: q c)
  then have "c div 4096 = b" using zdiv_zmult2_eq [of 64 c 64] by simp
  moreover have "2047 < c" "c \<le> 65535"
    using assms by (auto simp: q c)
  ultimately have "map uint (str_utf8_encode c) = [224 + b, 128 + d, 128 + e]"
    using assms(1-6) dm by (simp add: str_utf8_encode_def drop_bit_div bit_arith utf8_or uint_numeral_add)
  then show ?thesis by (simp only: c q)
qed

lemma encode_4:
  assumes "0 \<le> f" "f < 64" "0 \<le> e" "e < 64" "0 \<le> d" "d < 64" "0 \<le> b" "b \<le> 4"
    "b = 0 \<longrightarrow> 16 \<le> d" "b = 4 \<longrightarrow> d < 16"
  shows "map uint (str_utf8_encode (64 * (64 * (64 * b + d) + e) + f)) =
    [240 + b, 128 + d, 128 + e, 128 + f]"
proof -
  define p q c where p: "p = 64 * b + d" and q: "q = 64 * p + e" and c: "c = 64 * q + f"
  have dm: "p div 64 = b" "p mod 64 = d" "q div 64 = p" "q mod 64 = e" "c div 64 = q" "c mod 64 = f"
    using digit_64 [of d b] digit_64 [of e p] digit_64 [of f q] assms by (simp_all add: p q c)
  then have p': "c div 4096 = p" using zdiv_zmult2_eq [of 64 c 64] by simp
  then have "c div 262144 = b" using zdiv_zmult2_eq [of 64 c 4096] dm by simp
  then have "drop_bit 18 c AND 7 = b"
    using assms(7,8) by (simp add: drop_bit_div bit_arith)
  moreover have "drop_bit 12 c AND 63 = d" "drop_bit 6 c AND 63 = e" "c AND 63 = f"
    using p' dm by (simp_all add: drop_bit_div bit_arith)
  moreover have "65535 < c" "c \<le> 1114111"
    using assms by (auto simp: p q c)
  ultimately have "map uint (str_utf8_encode c) = [240 + b, 128 + d, 128 + e, 128 + f]"
    using assms(1-8) by (simp add: str_utf8_encode_def utf8_or uint_numeral_add)
  then show ?thesis by (simp only: c q p)
qed

text \<open>Every scalar value has one of four shapes.\<close>

lemma scalar_shape:
  assumes "scalar_value c"
  obtains (one) "c \<le> 127"
  | (two) b d where "c = 64 * b + d" "0 \<le> d" "d < 64" "2 \<le> b" "b < 32"
  | (three) b d e where "c = 64 * (64 * b + d) + e" "0 \<le> e" "e < 64" "0 \<le> d" "d < 64"
      "0 \<le> b" "b < 16" "b = 0 \<longrightarrow> 32 \<le> d" "b = 13 \<longrightarrow> d < 32"
  | (four) b d e f where "c = 64 * (64 * (64 * b + d) + e) + f" "0 \<le> f" "f < 64" "0 \<le> e" "e < 64"
      "0 \<le> d" "d < 64" "0 \<le> b" "b \<le> 4" "b = 0 \<longrightarrow> 16 \<le> d" "b = 4 \<longrightarrow> d < 16"
proof -
  have c: "0 < c" "c \<le> 1114111" "\<not> (55296 \<le> c \<and> c \<le> 57343)"
    using assms by (simp_all add: scalar_value_def)
  consider "c \<le> 127" | "127 < c" "c \<le> 2047" | "2047 < c" "c \<le> 65535" | "65535 < c" by linarith
  then show thesis
  proof cases
    case 1 then show ?thesis by (rule one)
  next
    case 2
    then show ?thesis by (intro two [of "c div 64" "c mod 64"]) auto
  next
    case 3
    define b d e where bde: "b = c div 64 div 64" "d = c div 64 mod 64" "e = c mod 64"
    have eq: "c = 64 * (64 * b + d) + e" by (simp add: bde)
    have r: "0 \<le> e" "e < 64" "0 \<le> d" "d < 64" by (simp_all add: bde)
    have "0 \<le> b" "b < 16" using eq r 3 by auto
    moreover have "b = 0 \<longrightarrow> 32 \<le> d" "b = 13 \<longrightarrow> d < 32" using eq r 3 c by auto
    ultimately show ?thesis using eq r by (intro three)
  next
    case 4
    define b d e f where bdef: "b = c div 64 div 64 div 64" "d = c div 64 div 64 mod 64"
      "e = c div 64 mod 64" "f = c mod 64"
    have eq: "c = 64 * (64 * (64 * b + d) + e) + f" by (simp add: bdef)
    have r: "0 \<le> f" "f < 64" "0 \<le> e" "e < 64" "0 \<le> d" "d < 64" by (simp_all add: bdef)
    have "0 \<le> b" "b \<le> 4" using eq r 4 c by auto
    moreover have "b = 0 \<longrightarrow> 16 \<le> d" "b = 4 \<longrightarrow> d < 16" using eq r 4 c by auto
    ultimately show ?thesis using eq r by (intro four)
  qed
qed


text \<open>An encoded scalar value is a start byte and continuation bytes, without a zero.\<close>

lemma map_uint_eq_Cons: "map uint (bs :: bytes) = x # xs \<longleftrightarrow> (\<exists>b r. bs = b # r \<and> uint b = x \<and> map uint r = xs)"
  by (cases bs) auto

lemma encode_cases:
  assumes "scalar_value c"
  obtains (one) b0 where "str_utf8_encode c = [b0]" "uint b0 = c" "c \<le> 127"
  | (two) b d b0 b1 where "str_utf8_encode c = [b0, b1]" "uint b0 = 192 + b" "uint b1 = 128 + d"
      "c = 64 * b + d" "0 \<le> d" "d < 64" "2 \<le> b" "b < 32"
  | (three) b d e b0 b1 b2 where "str_utf8_encode c = [b0, b1, b2]" "uint b0 = 224 + b"
      "uint b1 = 128 + d" "uint b2 = 128 + e" "c = 64 * (64 * b + d) + e" "0 \<le> e" "e < 64"
      "0 \<le> d" "d < 64" "0 \<le> b" "b < 16" "b = 0 \<longrightarrow> 32 \<le> d" "b = 13 \<longrightarrow> d < 32"
  | (four) b d e f b0 b1 b2 b3 where "str_utf8_encode c = [b0, b1, b2, b3]" "uint b0 = 240 + b"
      "uint b1 = 128 + d" "uint b2 = 128 + e" "uint b3 = 128 + f"
      "c = 64 * (64 * (64 * b + d) + e) + f" "0 \<le> f" "f < 64" "0 \<le> e" "e < 64"
      "0 \<le> d" "d < 64" "0 \<le> b" "b \<le> 4" "b = 0 \<longrightarrow> 16 \<le> d" "b = 4 \<longrightarrow> d < 16"
  using assms
proof (cases rule: scalar_shape)
  case one
  then have "map uint (str_utf8_encode c) = [c]"
    using assms by (intro encode_1) (auto simp: scalar_value_def)
  then show ?thesis using one that(1) by (auto simp: map_uint_eq_Cons)
next
  case (two b d)
  then have "map uint (str_utf8_encode c) = [192 + b, 128 + d]" by (simp add: encode_2)
  then show ?thesis using two that(2) by (auto simp: map_uint_eq_Cons)
next
  case (three b d e)
  then have "map uint (str_utf8_encode c) = [224 + b, 128 + d, 128 + e]" by (simp only: encode_3)
  then show ?thesis using three that(3) by (fastforce simp: map_uint_eq_Cons)
next
  case (four b d e f)
  then have "map uint (str_utf8_encode c) = [240 + b, 128 + d, 128 + e, 128 + f]" by (simp only: encode_4)
  then show ?thesis using four that(4) by (fastforce simp: map_uint_eq_Cons)
qed

lemma str_utf8_decode_encode:
  assumes "scalar_value c"
  shows "str_utf8_decode (str_utf8_encode c @ r) = (c, r)"
  using assms
proof (cases rule: encode_cases)
  case one
  then show ?thesis by (simp add: str_utf8_decode_def str_byte_next_def)
next
  case two
  then show ?thesis by (simp add: str_utf8_decode_def str_byte_next_def push_bit_mult)
next
  case three
  then show ?thesis
    by (auto simp: str_utf8_decode_def str_byte_next_def push_bit_mult Let_def)
next
  case four
  then show ?thesis
    by (auto simp: str_utf8_decode_def str_byte_next_def push_bit_mult Let_def eval_nat_numeral)
qed

text \<open>Cut off anywhere inside, it no longer decodes.\<close>

lemma str_utf8_decode_cut:
  assumes "scalar_value c" "0 < j" "j < length (str_utf8_encode c)"
  shows "fst (str_utf8_decode (take j (str_utf8_encode c))) = - 1"
  using assms
proof (cases rule: encode_cases)
  case two
  then show ?thesis using assms(2,3)
    by (simp add: str_utf8_decode_def str_byte_next_def take_Cons' push_bit_mult)
next
  case three
  then have "j = 1 \<or> j = 2" using assms(2,3) by auto
  then show ?thesis using three
    by (auto simp: str_utf8_decode_def str_byte_next_def push_bit_mult Let_def)
next
  case four
  then have "j = 1 \<or> j = 2 \<or> j = 3" using assms(2,3) by auto
  then show ?thesis using four
    by (auto simp: str_utf8_decode_def str_byte_next_def push_bit_mult Let_def)
qed (use assms in auto)

lemma encode_start:
  assumes "scalar_value c"
  obtains b bs where "str_utf8_encode c = b # bs" "str_utf8_isstart b"
    "\<forall>x \<in> set bs. \<not> str_utf8_isstart x" "b \<noteq> 0" "0 \<notin> set bs" "length bs \<le> 3"
  using assms
proof (cases rule: encode_cases)
  case (one b0)
  then have "b0 \<noteq> 0" using assms by (auto simp: scalar_value_def)
  then show ?thesis using one that [of b0 "[]"] by (auto simp: isstart_iff)
next
  case (two b d b0 b1)
  then have "b0 \<noteq> 0" "b1 \<noteq> 0" by auto
  then show ?thesis using two that [of b0 "[b1]"] by (auto simp: isstart_iff)
next
  case (three b d e b0 b1 b2)
  then have "b0 \<noteq> 0" "b1 \<noteq> 0" "b2 \<noteq> 0" by auto
  then show ?thesis using three that [of b0 "[b1, b2]"] by (auto simp: isstart_iff)
next
  case (four b d e f b0 b1 b2 b3)
  then have "b0 \<noteq> 0" "b1 \<noteq> 0" "b2 \<noteq> 0" "b3 \<noteq> 0" by auto
  then show ?thesis using four that [of b0 "[b1, b2, b3]"] by (auto simp: isstart_iff)
qed


subsection \<open>What the decoder accepts\<close>

lemma map_uint_inj: "map uint (xs :: bytes) = map uint ys \<longleftrightarrow> xs = ys"
  by (rule inj_map_eq_map) (simp add: inj_def word_uint_eq_iff)

lemma decode_loop_step:
  assumes "utf8_decode_loop l u cp n k s = (c, r)" "c \<noteq> - 1"
  obtains b s' where "s = b # s'" "l \<le> uint b" "uint b \<le> u"
    "if Suc n \<noteq> k then utf8_decode_loop 0x80 0xBF (cp + push_bit (6 * (k - Suc n)) (uint b - 0x80)) (Suc n) k s' = (c, r)
     else c = cp + (uint b - 0x80) \<and> s' = r"
  using assms by (cases s) (auto simp: Let_def split: if_splits)

lemma str_utf8_decode_sound:
  assumes "str_utf8_decode s = (c, r)" "s \<noteq> []" "hd s \<noteq> 0" "c \<noteq> - 1"
  shows "scalar_value c \<and> s = str_utf8_encode c @ r"
proof (cases s)
  case Nil
  with assms show ?thesis by simp
next
  case (Cons b0 s1)
  consider "uint b0 \<le> 0x7F" | "0xC2 \<le> uint b0" "uint b0 \<le> 0xDF"
    | "0xE0 \<le> uint b0" "uint b0 \<le> 0xEF" | "0xF0 \<le> uint b0" "uint b0 \<le> 0xF4"
    | "127 < uint b0" "uint b0 < 0xC2" | "0xF4 < uint b0" by linarith
  then show ?thesis
  proof cases
    case 1
    with assms Cons have c: "c = uint b0" "r = s1" by (auto simp: str_utf8_decode_def str_byte_next_def)
    then have "map uint (str_utf8_encode c) = map uint [b0]"
      using 1 by (simp only: list.map) (rule encode_1, auto)
    then have "str_utf8_encode c = [b0]" by (simp only: map_uint_inj)
    moreover have "0 < c"
      using c assms(3) Cons uint_byte_bounds(1) [of b0] by (auto simp: word_uint_eq_iff order_less_le)
    ultimately show ?thesis using 1 c Cons by (simp add: scalar_value_def)
  next
    case 2
    with assms Cons have "utf8_decode_loop 0x80 0xBF (64 * (uint b0 - 192)) 0 1 s1 = (c, r)"
      by (simp add: str_utf8_decode_def str_byte_next_def push_bit_mult mult.commute)
    then obtain b1 where b1: "s1 = b1 # r" "128 \<le> uint b1" "uint b1 \<le> 191"
      "c = 64 * (uint b0 - 192) + (uint b1 - 128)"
      using assms(4) by (elim decode_loop_step) auto
    then have "map uint (str_utf8_encode c) = map uint [b0, b1]"
      using 2 encode_2 [of "uint b1 - 128" "uint b0 - 192"] by simp
    then have "str_utf8_encode c = [b0, b1]" by (simp only: map_uint_inj)
    then show ?thesis using b1 2 Cons by (simp add: scalar_value_def)
  next
    case 3
    define l u :: int where lu: "l = (if uint b0 = 0xE0 then 0xA0 else 0x80)"
      "u = (if uint b0 = 0xED then 0x9F else 0xBF)"
    from 3 assms Cons have "utf8_decode_loop l u (4096 * (uint b0 - 224)) 0 2 s1 = (c, r)"
      by (simp add: str_utf8_decode_def str_byte_next_def push_bit_mult mult.commute lu)
    then obtain b1 s2 where b1: "s1 = b1 # s2" "l \<le> uint b1" "uint b1 \<le> u"
      and "utf8_decode_loop 0x80 0xBF (4096 * (uint b0 - 224) + 64 * (uint b1 - 128)) 1 2 s2 = (c, r)"
      using assms(4) by (elim decode_loop_step) (auto simp: push_bit_mult mult.commute)
    then obtain b2 where b2: "s2 = b2 # r" "128 \<le> uint b2" "uint b2 \<le> 191"
      "c = 4096 * (uint b0 - 224) + 64 * (uint b1 - 128) + (uint b2 - 128)"
      using assms(4) by (elim decode_loop_step) auto
    have r: "128 \<le> uint b1" "uint b1 < 192" "uint b0 = 224 \<longrightarrow> 160 \<le> uint b1"
      "uint b0 = 237 \<longrightarrow> uint b1 < 160"
      using b1 by (auto simp: lu split: if_splits)
    then have "map uint (str_utf8_encode (64 * (64 * (uint b0 - 224) + (uint b1 - 128)) + (uint b2 - 128)))
        = map uint [b0, b1, b2]"
      using 3 b2 by (subst encode_3) auto
    moreover have "64 * (64 * (uint b0 - 224) + (uint b1 - 128)) + (uint b2 - 128) = c"
      by (simp add: b2(4))
    ultimately have "str_utf8_encode c = [b0, b1, b2]" by (simp only: map_uint_inj)
    moreover have "uint b0 < 237 \<or> uint b0 = 237 \<or> 237 < uint b0" by linarith
    then have "scalar_value c"
      unfolding scalar_value_def b2(4) using r b2(2,3) 3 by (elim disjE) auto
    ultimately show ?thesis using b1 b2 Cons by simp
  next
    case 4
    define l u :: int where lu: "l = (if uint b0 = 0xF0 then 0x90 else 0x80)"
      "u = (if uint b0 = 0xF4 then 0x8F else 0xBF)"
    from 4 assms Cons have "utf8_decode_loop l u (262144 * (uint b0 - 240)) 0 3 s1 = (c, r)"
      by (simp add: str_utf8_decode_def str_byte_next_def push_bit_mult mult.commute lu)
    then obtain b1 s2 where b1: "s1 = b1 # s2" "l \<le> uint b1" "uint b1 \<le> u"
      and "utf8_decode_loop 0x80 0xBF (262144 * (uint b0 - 240) + 4096 * (uint b1 - 128)) 1 3 s2 = (c, r)"
      using assms(4) by (elim decode_loop_step) (auto simp: push_bit_mult mult.commute)
    then obtain b2 s3 where b2: "s2 = b2 # s3" "128 \<le> uint b2" "uint b2 \<le> 191"
      and "utf8_decode_loop 0x80 0xBF (262144 * (uint b0 - 240) + 4096 * (uint b1 - 128)
             + 64 * (uint b2 - 128)) 2 3 s3 = (c, r)"
      using assms(4) by (elim decode_loop_step) (auto simp: push_bit_mult mult.commute numeral_2_eq_2)
    then obtain b3 where b3: "s3 = b3 # r" "128 \<le> uint b3" "uint b3 \<le> 191"
      "c = 262144 * (uint b0 - 240) + 4096 * (uint b1 - 128) + 64 * (uint b2 - 128) + (uint b3 - 128)"
      using assms(4) by (elim decode_loop_step) auto
    have r: "128 \<le> uint b1" "uint b1 < 192" "uint b0 = 240 \<longrightarrow> 144 \<le> uint b1"
      "uint b0 = 244 \<longrightarrow> uint b1 < 144"
      using b1 by (auto simp: lu split: if_splits)
    then have "map uint (str_utf8_encode (64 * (64 * (64 * (uint b0 - 240) + (uint b1 - 128))
        + (uint b2 - 128)) + (uint b3 - 128))) = map uint [b0, b1, b2, b3]"
      using 4 b2 b3 by (subst encode_4) auto
    moreover have "64 * (64 * (64 * (uint b0 - 240) + (uint b1 - 128)) + (uint b2 - 128))
        + (uint b3 - 128) = c"
      by (simp add: b3(4))
    ultimately have "str_utf8_encode c = [b0, b1, b2, b3]" by (simp only: map_uint_inj)
    then show ?thesis using b1 b2 b3 r 4 Cons by (auto simp: scalar_value_def)
  qed (use assms Cons in \<open>simp_all add: str_utf8_decode_def str_byte_next_def\<close>)
qed


subsection \<open>Valid strings are concatenations of encoded scalar values\<close>

definition encode_all :: "int list \<Rightarrow> bytes" where
  "encode_all cs = concat (map str_utf8_encode cs)"

lemma encode_all_simps [simp]:
  "encode_all [] = []"
  "encode_all (c # cs) = str_utf8_encode c @ encode_all cs"
  "encode_all (cs @ ds) = encode_all cs @ encode_all ds"
  by (simp_all add: encode_all_def)

lemma check_Nil [simp]: "str_utf8_check []"
  by (simp add: str_utf8_check.simps str_utf8_decode_def str_byte_next_def)

lemma check_encode: "scalar_value c \<Longrightarrow> str_utf8_check (str_utf8_encode c @ s) \<longleftrightarrow> str_utf8_check s"
proof -
  assume c: "scalar_value c"
  then have "str_utf8_encode c @ s \<noteq> []" by (auto elim: encode_start)
  then show ?thesis
    using c str_utf8_decode_encode [OF c, of s]
    by (subst str_utf8_check.simps) (auto simp: scalar_value_def)
qed

lemma check_encode_all: "\<forall>c \<in> set cs. scalar_value c \<Longrightarrow> str_utf8_check (encode_all cs)"
  by (induction cs) (simp_all add: check_encode)

lemma decode_eq_0: "str_utf8_decode s = (0, r) \<Longrightarrow> cstring s \<Longrightarrow> s = []"
  using str_utf8_decode_sound [of s 0 r] by (cases s) (auto simp: scalar_value_def)

lemma check_sound:
  "str_utf8_check s \<Longrightarrow> cstring s \<Longrightarrow> \<exists>cs. (\<forall>c \<in> set cs. scalar_value c) \<and> s = encode_all cs"
proof (induction s rule: str_utf8_check.induct)
  case (1 s)
  obtain c r where d: "str_utf8_decode s = (c, r)" by (cases "str_utf8_decode s")
  show ?case
  proof (cases "s = []")
    case True
    then have "(\<forall>c \<in> set []. scalar_value c) \<and> s = encode_all []" by simp
    then show ?thesis by blast
  next
    case False
    have c0: "c \<noteq> 0" using decode_eq_0 d "1.prems"(2) False by auto
    have c1: "c \<noteq> - 1"
      using "1.prems"(1) c0 d False by (subst (asm) str_utf8_check.simps) auto
    have "hd s \<noteq> 0" using "1.prems"(2) False by (cases s) auto
    from str_utf8_decode_sound [OF d False this c1]
    have c: "scalar_value c" and s: "s = str_utf8_encode c @ r" by auto
    have "str_utf8_check r" using "1.prems"(1) by (simp add: s check_encode [OF c])
    moreover have "cstring r" using "1.prems"(2) by (simp add: s)
    ultimately obtain cs where "\<forall>c \<in> set cs. scalar_value c" "r = encode_all cs"
      using "1.IH" [OF d [symmetric] refl] c0 c1 False by auto
    then have "(\<forall>c \<in> set (c # cs). scalar_value c) \<and> s = encode_all (c # cs)" by (simp add: c s)
    then show ?thesis by blast
  qed
qed

subsection \<open>Truncation\<close>

lemma rewind_char:
  assumes "str_utf8_isstart b" "\<forall>x \<in> set bs. \<not> str_utf8_isstart x"
  shows "str_utf8_rewind (u @ b # bs) (length (u @ b # bs)) = length u"
proof -
  have "str_utf8_rewind (u @ b # bs) (length u + Suc k) = length u" if "k \<le> length bs" for k
    using that
  proof (induction k)
    case 0
    then show ?case using assms(1) by (simp add: nth_append)
  next
    case (Suc k)
    then have "\<not> str_utf8_isstart ((u @ b # bs) ! (length u + Suc k))"
      using assms(2) by (simp add: nth_append)
    with Suc show ?case by simp
  qed
  from this [of "length bs"] show ?thesis by simp
qed

lemma fix_truncation_complete:
  assumes "scalar_value c"
  shows "str_utf8_fix_truncation (u @ str_utf8_encode c) = u @ str_utf8_encode c"
proof -
  obtain b bs where e: "str_utf8_encode c = b # bs" "str_utf8_isstart b" "\<forall>x \<in> set bs. \<not> str_utf8_isstart x"
    using encode_start [OF assms] by metis
  have "fst (str_utf8_decode (str_utf8_encode c)) = c"
    using str_utf8_decode_encode [OF assms, of "[]"] by simp
  moreover have "c \<noteq> - 1" using assms by (simp add: scalar_value_def)
  ultimately show ?thesis
    using rewind_char [OF e(2,3), of u] by (simp add: str_utf8_fix_truncation_def Let_def e(1))
qed

lemma fix_truncation_cut:
  assumes "scalar_value c" "0 < j" "j < length (str_utf8_encode c)"
  shows "str_utf8_fix_truncation (u @ take j (str_utf8_encode c)) = u"
proof -
  obtain b bs where e: "str_utf8_encode c = b # bs" "str_utf8_isstart b" "\<forall>x \<in> set bs. \<not> str_utf8_isstart x"
    using encode_start [OF assms(1)] by metis
  have t: "take j (str_utf8_encode c) = b # take (j - 1) bs"
    using assms(2) by (cases j) (simp_all add: e(1))
  have "\<forall>x \<in> set (take (j - 1) bs). \<not> str_utf8_isstart x" using e(3) by (meson in_set_takeD)
  from rewind_char [OF e(2) this, of u] str_utf8_decode_cut [OF assms] show ?thesis
    by (simp add: str_utf8_fix_truncation_def Let_def t)
qed

text \<open>Cutting an encoded string after \<open>m\<close> bytes splits it in whole characters and part of one.\<close>

lemma take_encode_all:
  assumes "m \<le> length (encode_all cs)"
  shows "\<exists>k j. k \<le> length cs \<and> (j = 0 \<or> k < length cs \<and> j < length (str_utf8_encode (cs ! k))) \<and>
    take m (encode_all cs) = encode_all (take k cs) @ (if j = 0 then [] else take j (str_utf8_encode (cs ! k)))"
  using assms
proof (induction cs arbitrary: m)
  case Nil
  then show ?case by auto
next
  case (Cons c cs)
  let ?e = "str_utf8_encode c"
  show ?case
  proof (cases "m < length ?e")
    case True
    then show ?thesis by (intro exI [of _ 0] exI [of _ m]) auto
  next
    case False
    have "m - length ?e \<le> length (encode_all cs)" using Cons.prems by simp
    from Cons.IH [OF this] obtain k j where "k \<le> length cs" "j = 0 \<or> k < length cs \<and> j < length (str_utf8_encode (cs ! k))"
      "take (m - length ?e) (encode_all cs) =
         encode_all (take k cs) @ (if j = 0 then [] else take j (str_utf8_encode (cs ! k)))"
      by metis
    with False show ?thesis by (intro exI [of _ "Suc k"] exI [of _ j]) auto
  qed
qed

lemma fix_truncation_encode_all:
  assumes "\<forall>c \<in> set cs. scalar_value c"
  obtains k where "k \<le> length cs" "str_utf8_fix_truncation (take m (encode_all cs)) = encode_all (take k cs)"
    "m < length (encode_all cs) \<Longrightarrow> m < length (encode_all (take k cs)) + 4"
proof (cases "m \<le> length (encode_all cs)")
  case False
  have "str_utf8_fix_truncation (encode_all cs) = encode_all cs"
    using assms fix_truncation_complete [of "last cs" "encode_all (butlast cs)"]
    by (cases cs rule: rev_cases) (auto simp: str_utf8_fix_truncation_def)
  with False that [of "length cs"] show ?thesis by simp
next
  case True
  from take_encode_all [OF True] obtain k j where k: "k \<le> length cs"
    and j: "j = 0 \<or> k < length cs \<and> j < length (str_utf8_encode (cs ! k))"
    and t: "take m (encode_all cs) = encode_all (take k cs) @ (if j = 0 then [] else take j (str_utf8_encode (cs ! k)))"
    by metis
  have val: "\<forall>c \<in> set (take k cs). scalar_value c" using assms by (meson in_set_takeD)
  have "str_utf8_fix_truncation (take m (encode_all cs)) = encode_all (take k cs)"
  proof (cases "j = 0")
    case True
    then show ?thesis
      using val fix_truncation_complete [of "last (take k cs)" "encode_all (butlast (take k cs))"]
      by (cases "take k cs" rule: rev_cases) (auto simp: t str_utf8_fix_truncation_def)
  next
    case False
    with j have "scalar_value (cs ! k)" using assms by simp
    with False j show ?thesis by (simp add: t fix_truncation_cut)
  qed
  moreover have "m < length (encode_all (take k cs)) + 4"
  proof -
    have "m = length (take m (encode_all cs))" using True by simp
    also have "\<dots> \<le> length (encode_all (take k cs)) + j" by (subst t) auto
    finally have "m \<le> length (encode_all (take k cs)) + j" .
    moreover have "j < 4"
    proof (cases "j = 0")
      case False
      with j have "k < length cs" "j < length (str_utf8_encode (cs ! k))" by auto
      moreover obtain b bs where "str_utf8_encode (cs ! k) = b # bs" "length bs \<le> 3"
        using encode_start [of "cs ! k"] assms \<open>k < length cs\<close> by (metis nth_mem)
      ultimately show ?thesis by simp
    qed simp
    ultimately show ?thesis by linarith
  qed
  ultimately show ?thesis using k that by blast
qed


lemma str_copy_facts:
  assumes "cstring src" "str_utf8_check src" "0 < n"
  shows "str_utf8_check (str_copy src n)"
    and "\<exists>t. src = str_copy src n @ t"
    and "length (str_copy src n) < n"
    and "length src < n \<Longrightarrow> str_copy src n = src"
    and "n \<le> length src \<Longrightarrow> n \<le> length (str_copy src n) + 4"
proof -
  from check_sound [OF assms(2,1)] obtain cs where cs: "\<forall>c \<in> set cs. scalar_value c"
    and src: "src = encode_all cs" by blast
  from fix_truncation_encode_all [OF cs, of "n - 1"] obtain k where k: "k \<le> length cs"
    "str_copy src n = encode_all (take k cs)"
    "n - 1 < length (encode_all cs) \<Longrightarrow> n - 1 < length (encode_all (take k cs)) + 4"
    using assms(3) by (auto simp: str_copy_def src)
  have val: "\<forall>c \<in> set (take k cs). scalar_value c" using cs by (meson in_set_takeD)
  then show "str_utf8_check (str_copy src n)" using check_encode_all k by simp
  show "\<exists>t. src = str_copy src n @ t"
    using k(2) src by (metis append_take_drop_id encode_all_simps(3))
  show "length (str_copy src n) < n"
  proof -
    have "length (str_utf8_fix_truncation t) \<le> length t" for t
      by (auto simp: str_utf8_fix_truncation_def Let_def)
    from this [of "take (n - 1) src"] show ?thesis using assms(3) by (auto simp: str_copy_def)
  qed
  show "str_copy src n = src" if "length src < n"
  proof (cases cs rule: rev_cases)
    case (snoc ds d)
    then show ?thesis using that fix_truncation_complete [of d "encode_all ds"] cs
      by (simp add: str_copy_def src)
  qed (use that in \<open>simp add: str_copy_def src str_utf8_fix_truncation_def\<close>)
  show "n \<le> length (str_copy src n) + 4" if "n \<le> length src"
  proof -
    have "n - 1 < length (encode_all cs)" using that assms(3) unfolding src by linarith
    then show ?thesis using k(2,3) assms(3) by simp
  qed
qed

subsection \<open>Properties\<close>

text \<open>C38: a C string passes \<open>str_utf8_check\<close> exactly when it is the concatenation of the UTF-8
  encodings of Unicode scalar values other than zero (no surrogates, no overlong forms, nothing
  above U+10FFFF).\<close>

theorem utf8_check_iff:
  assumes "cstring s"
  shows "str_utf8_check s \<longleftrightarrow> (\<exists>cs. (\<forall>c \<in> set cs. scalar_value c) \<and> s = encode_all cs)"
  using check_sound [OF _ assms] check_encode_all by auto

theorem utf8_check_iff_witness:
  "cstring [0x61, 0xC3, 0xA4] \<and> str_utf8_check [0x61, 0xC3, 0xA4] \<and>
   (\<exists>cs. (\<forall>c \<in> set cs. scalar_value c) \<and> [0x61, 0xC3, 0xA4] = encode_all cs)"
proof -
  have s: "cstring [0x61, 0xC3, 0xA4]" by simp
  have c: "str_utf8_check [0x61, 0xC3, 0xA4]" by code_simp
  show ?thesis using utf8_check_iff [OF s] s c by blast
qed

text \<open>For every byte string, \<open>str_utf8_decode\<close> on a non-empty C string either reports an
  error (-1) and still advances, or returns a scalar value whose encoding is exactly the bytes
  consumed; so decoding and encoding are inverse to each other.\<close>

theorem utf8_decode_encode_inverse:
  assumes "cstring s" "s \<noteq> []" "str_utf8_decode s = (c, r)"
  shows "length r < length s \<and>
    (c = - 1 \<or> scalar_value c \<and> s = str_utf8_encode c @ r \<and>
       str_utf8_decode (str_utf8_encode c @ t) = (c, t))"
proof -
  have "hd s \<noteq> 0" using assms(1,2) by (cases s) auto
  then show ?thesis
    using str_utf8_decode_sound [OF assms(3,2)] str_utf8_decode_encode
      str_utf8_decode_length [OF assms(2)] assms(3) by auto
qed

theorem utf8_decode_encode_inverse_witness:
  "cstring [0xE2, 0x82, 0xAC, 0x21] \<and> scalar_value 0x20AC \<and>
   str_utf8_decode (str_utf8_encode 0x20AC @ [0x41]) = (0x20AC, [0x41])"
proof -
  have s: "cstring [0xE2, 0x82, 0xAC, 0x21]" by simp
  have d: "str_utf8_decode [0xE2, 0x82, 0xAC, 0x21] = (0x20AC, [0x21])" by code_simp
  show ?thesis using utf8_decode_encode_inverse [OF s _ d, of "[0x41]"] s by simp
qed

text \<open>\<open>str_copy\<close> of a valid UTF-8 string into a buffer of \<open>n\<close> bytes gives a valid UTF-8
  prefix that fits with its terminating zero; a string that fits is copied whole, and a
  truncated copy loses less than one character (fewer than four bytes of room stay unused).\<close>

theorem str_copy_valid_prefix:
  assumes "cstring src" "str_utf8_check src" "0 < n"
  shows "str_utf8_check (str_copy src n) \<and> (\<exists>t. src = str_copy src n @ t) \<and>
    length (str_copy src n) < n \<and>
    (if length src < n then str_copy src n = src else n \<le> length (str_copy src n) + 4)"
  using str_copy_facts [OF assms] by auto

theorem str_copy_valid_prefix_witness:
  "cstring [0x61, 0xC3, 0xA4] \<and> str_utf8_check (str_copy [0x61, 0xC3, 0xA4] 3) \<and>
   str_copy [0x61, 0xC3, 0xA4] 3 = [0x61]"
proof -
  have s: "cstring [0x61, 0xC3, 0xA4]" by simp
  have c: "str_utf8_check [0x61, 0xC3, 0xA4]" by code_simp
  have "str_copy [0x61, 0xC3, 0xA4] 3 = [0x61]" by code_simp
  then show ?thesis using str_copy_valid_prefix [OF s c, of 3] s by simp
qed

end
