(* ===== verification/Str.thy ===== *)
theory Str
  imports Prelude Utf8
begin

text \<open>
  The byte-string functions of src/src/base/str.cpp: copying and appending into bounded buffers,
  character classes, sanitising, comparison, searching and tokens. A function that returns a
  pointer into its argument returns the string from there on, \<open>nullptr\<close> is \<open>None\<close>; a function
  that rewrites its argument returns the new string. \<open>char\<close> is signed, as on the platforms the
  server is built for, where the value of a byte matters (\<open>str_comp_filenames\<close>,
  \<open>str_quickhash\<close>).
\<close>

subsection \<open>The C library's part\<close>

text \<open>The byte a pointer points to: the terminating zero at the end of the string.\<close>

definition c_at :: "bytes \<Rightarrow> byte" where
  "c_at s = (case s of [] \<Rightarrow> 0 | c # _ \<Rightarrow> c)"

definition c_tolower :: "int \<Rightarrow> int" where
  "c_tolower c = (if 65 \<le> c \<and> c \<le> 90 then c + 32 else c)"

text \<open>\<open>strcmp\<close>, \<open>strncmp\<close>, \<open>strcasecmp\<close>, \<open>strncasecmp\<close> over a key of the characters.\<close>

fun c_compare :: "(byte \<Rightarrow> int) \<Rightarrow> nat \<Rightarrow> bytes \<Rightarrow> bytes \<Rightarrow> int" where
  "c_compare key 0 a b = 0"
| "c_compare key (Suc n) [] [] = 0"
| "c_compare key (Suc n) (x # a) [] = key x"
| "c_compare key (Suc n) [] (y # b) = - key y"
| "c_compare key (Suc n) (x # a) (y # b) =
     (if key x \<noteq> key y then key x - key y else c_compare key n a b)"

definition fold_key :: "byte \<Rightarrow> int" where
  "fold_key c = c_tolower (uint c)"

subsection \<open>Bounded copies\<close>

fun str_append_loop :: "bytes \<Rightarrow> bytes \<Rightarrow> nat \<Rightarrow> bytes" where
  "str_append_loop dst [] dst_size = dst"
| "str_append_loop dst (c # src) dst_size =
     (if length dst < dst_size then str_append_loop (dst @ [c]) src dst_size else dst)"

definition str_append :: "bytes \<Rightarrow> bytes \<Rightarrow> nat \<Rightarrow> bytes" where
  "str_append dst src dst_size =
     str_utf8_fix_truncation (take (dst_size - 1) (str_append_loop dst src dst_size))"

definition str_truncate :: "nat \<Rightarrow> bytes \<Rightarrow> nat \<Rightarrow> bytes" where
  "str_truncate dst_size src truncation_len =
     str_copy src (if truncation_len < dst_size then truncation_len + 1 else dst_size)"

definition str_length :: "bytes \<Rightarrow> nat" where
  "str_length s = length s"

subsection \<open>Character classes\<close>

definition str_uppercase :: "byte \<Rightarrow> byte" where
  "str_uppercase c = (if 0x61 \<le> c \<and> c \<le> 0x7A then 0x41 + (c - 0x61) else c)"

definition str_isnum :: "byte \<Rightarrow> bool" where
  "str_isnum c \<longleftrightarrow> 0x30 \<le> c \<and> c \<le> 0x39"

fun str_isallnum :: "bytes \<Rightarrow> bool" where
  "str_isallnum [] = True"
| "str_isallnum (c # s) = (if \<not> str_isnum c then False else str_isallnum s)"

fun str_isallnum_hex :: "bytes \<Rightarrow> bool" where
  "str_isallnum_hex [] = True"
| "str_isallnum_hex (c # s) =
     (if \<not> str_isnum c \<and> \<not> (0x61 \<le> c \<and> c \<le> 0x66) \<and> \<not> (0x41 \<le> c \<and> c \<le> 0x46) then False
      else str_isallnum_hex s)"

definition str_isspace :: "byte \<Rightarrow> bool" where
  "str_isspace c \<longleftrightarrow> c = 0x20 \<or> c = 0x0A \<or> c = 0x0D \<or> c = 0x09"

fun str_skip_whitespaces :: "bytes \<Rightarrow> bytes" where
  "str_skip_whitespaces [] = []"
| "str_skip_whitespaces (c # s) = (if str_isspace c then str_skip_whitespaces s else c # s)"

fun str_skip_to_whitespace :: "bytes \<Rightarrow> bytes" where
  "str_skip_to_whitespace [] = []"
| "str_skip_to_whitespace (c # s) = (if \<not> str_isspace c then str_skip_to_whitespace s else c # s)"

fun trim_words_loop :: "bytes \<Rightarrow> nat \<Rightarrow> bytes" where
  "trim_words_loop [] n = []"
| "trim_words_loop (c # s) n =
     (if n = 0 then c # s
      else trim_words_loop s (if str_isspace c \<and> \<not> str_isspace (c_at s) then n - 1 else n))"

definition str_trim_words :: "bytes \<Rightarrow> nat \<Rightarrow> bytes" where
  "str_trim_words s n = trim_words_loop (str_skip_whitespaces s) n"

fun str_has_cc :: "bytes \<Rightarrow> bool" where
  "str_has_cc [] = False"
| "str_has_cc (c # s) = (if c < 32 then True else str_has_cc s)"

fun str_sanitize_cc :: "bytes \<Rightarrow> bytes" where
  "str_sanitize_cc [] = []"
| "str_sanitize_cc (c # s) = (if c < 32 then 0x20 else c) # str_sanitize_cc s"

fun str_sanitize :: "bytes \<Rightarrow> bytes" where
  "str_sanitize [] = []"
| "str_sanitize (c # s) =
     (if c < 32 \<and> \<not> c = 0x0D \<and> \<not> c = 0x0A \<and> \<not> c = 0x09 then 0x20 else c) # str_sanitize s"

definition filename_char_bad :: "int \<Rightarrow> bool" where
  "filename_char_bad c \<longleftrightarrow> c \<le> 0x1F \<or> c = 0x7F \<or> c = 0x5C \<or> c = 0x2F \<or> c = 0x7C \<or> c = 0x3A \<or>
     c = 0x2A \<or> c = 0x3F \<or> c = 0x3C \<or> c = 0x3E \<or> c = 0x22"

fun str_sanitize_filename :: "bytes \<Rightarrow> bytes" where
  "str_sanitize_filename [] = []"
| "str_sanitize_filename (c # s) =
     (if filename_char_bad (uint c) then 0x20 else c) # str_sanitize_filename s"

text \<open>
  \<open>str_clean_whitespaces\<close>: leading spaces are skipped, then every round skips spaces and copies
  one other character, preceded by one space if any was skipped.
\<close>

fun skip_spaces :: "bytes \<Rightarrow> bytes" where
  "skip_spaces [] = []"
| "skip_spaces (c # s) = (if c = 0x20 then skip_spaces s else c # s)"

lemma skip_spaces_length: "length (skip_spaces s) \<le> length s"
  by (induction s) auto

function clean_whitespaces_loop :: "bytes \<Rightarrow> bytes" where
  "clean_whitespaces_loop s =
     (case skip_spaces s of [] \<Rightarrow> []
      | c # r \<Rightarrow> (if c_at s = 0x20 then [0x20] else []) @ [c] @ clean_whitespaces_loop r)"
  by pat_completeness auto
termination
  by (relation "measure length") (auto, metis Suc_le_lessD length_Cons skip_spaces_length)

declare clean_whitespaces_loop.simps [simp del]

definition str_clean_whitespaces :: "bytes \<Rightarrow> bytes" where
  "str_clean_whitespaces s = clean_whitespaces_loop (skip_spaces s)"

subsection \<open>Comparison and searching\<close>

definition str_comp :: "bytes \<Rightarrow> bytes \<Rightarrow> int" where
  "str_comp a b = c_compare uint (Suc (length a + length b)) a b"

definition str_comp_num :: "bytes \<Rightarrow> bytes \<Rightarrow> nat \<Rightarrow> int" where
  "str_comp_num a b n = c_compare uint n a b"

definition str_comp_nocase :: "bytes \<Rightarrow> bytes \<Rightarrow> int" where
  "str_comp_nocase a b = c_compare fold_key (Suc (length a + length b)) a b"

definition str_comp_nocase_num :: "bytes \<Rightarrow> bytes \<Rightarrow> nat \<Rightarrow> int" where
  "str_comp_nocase_num a b n = c_compare fold_key n a b"

definition str_startswith_nocase :: "bytes \<Rightarrow> bytes \<Rightarrow> bytes option" where
  "str_startswith_nocase s pre =
     (if str_comp_nocase_num s pre (str_length pre) = 0 then Some (drop (str_length pre) s) else None)"

definition str_startswith :: "bytes \<Rightarrow> bytes \<Rightarrow> bytes option" where
  "str_startswith s pre =
     (if str_comp_num s pre (str_length pre) = 0 then Some (drop (str_length pre) s) else None)"

definition str_endswith_nocase :: "bytes \<Rightarrow> bytes \<Rightarrow> bytes option" where
  "str_endswith_nocase s suf =
     (if str_length s < str_length suf then None
      else let strsuffix = drop (str_length s - str_length suf) s
           in if str_comp_nocase strsuffix suf = 0 then Some strsuffix else None)"

definition str_endswith :: "bytes \<Rightarrow> bytes \<Rightarrow> bytes option" where
  "str_endswith s suf =
     (if str_length s < str_length suf then None
      else let strsuffix = drop (str_length s - str_length suf) s
           in if str_comp strsuffix suf = 0 then Some strsuffix else None)"

text \<open>The inner loop of the two searches: what is left of the needle when it stops.\<close>

fun find_match :: "(byte \<Rightarrow> int) \<Rightarrow> bytes \<Rightarrow> bytes \<Rightarrow> bytes" where
  "find_match key (x # a) (y # b) = (if key x = key y then find_match key a b else y # b)"
| "find_match key a b = b"

fun str_find_nocase :: "bytes \<Rightarrow> bytes \<Rightarrow> bytes option" where
  "str_find_nocase [] needle = None"
| "str_find_nocase (c # s) needle =
     (if find_match fold_key (c # s) needle = [] then Some (c # s) else str_find_nocase s needle)"

fun str_find :: "bytes \<Rightarrow> bytes \<Rightarrow> bytes option" where
  "str_find [] needle = None"
| "str_find (c # s) needle =
     (if find_match uint (c # s) needle = [] then Some (c # s) else str_find s needle)"

text \<open>\<open>str_comp_filenames\<close>: the \<open>do\<close> loop over two runs of digits, then the outer loop.\<close>

fun comp_digits :: "bytes \<Rightarrow> bytes \<Rightarrow> int \<Rightarrow> int \<times> bytes \<times> bytes" where
  "comp_digits (x # a) (y # b) res =
     (if str_isnum x \<and> str_isnum y
      then comp_digits a b (if res = 0 then sint x - sint y else res)
      else (res, x # a, y # b))"
| "comp_digits a b res = (res, a, b)"

lemma comp_digits_length: "comp_digits a b res = (res', a', b') \<Longrightarrow> length a' \<le> length a \<and> length b' \<le> length b"
  by (induction a b res rule: comp_digits.induct) (auto split: if_splits)

function str_comp_filenames :: "bytes \<Rightarrow> bytes \<Rightarrow> int" where
  "str_comp_filenames a b =
     (if a = [] \<or> b = [] then sint (c_at a) - sint (c_at b)
      else let both = str_isnum (c_at a) \<and> str_isnum (c_at b);
               (res, a', b') = (if both then comp_digits a b 0 else (0, a, b))
           in if both \<and> str_isnum (c_at a') then 1
              else if both \<and> str_isnum (c_at b') then - 1
              else if both \<and> res \<noteq> 0 then res
              else if both \<and> (a' = [] \<or> b' = []) then sint (c_at a') - sint (c_at b')
              else let result = c_tolower (sint (c_at a')) - c_tolower (sint (c_at b'))
                   in if result \<noteq> 0 then result else str_comp_filenames (tl a') (tl b'))"
  by pat_completeness auto
termination
proof (relation "measure (\<lambda>(a, b). length a)", goal_cases)
  case (2 a b both x res y a' b')
  then show ?case
    using comp_digits_length [of a b 0 res a' b'] by (cases a'; cases a) (auto split: if_splits)
qed auto

declare str_comp_filenames.simps [simp del]

subsection \<open>Tokens\<close>

definition str_token_get :: "bytes \<Rightarrow> bytes \<Rightarrow> (bytes \<times> nat) option" where
  "str_token_get s delim =
     (let len = length (takeWhile (\<lambda>c. c \<in> set delim) s);
          s' = (if len > 1 then tl s else drop len s)
      in if s' = [] then None
         else Some (s', length (takeWhile (\<lambda>c. c \<notin> set delim) s')))"

text \<open>\<open>str_next_token\<close> returns the pointer after the token and the text in the buffer.\<close>

definition str_next_token :: "bytes \<Rightarrow> bytes \<Rightarrow> nat \<Rightarrow> (bytes option \<times> bytes) result" where
  "str_next_token s delim buffer_size =
     (if \<not> buffer_size > 0 then Inl AssertFailed
      else case str_token_get s delim of
             None \<Rightarrow> Inr (None, [])
           | Some (tok, len) \<Rightarrow>
               let len' = (if buffer_size > len then len else buffer_size - 1)
               in Inr (Some (drop len' tok), take len' tok))"

lemma str_token_get_less: "str_token_get s delim = Some (tok, len) \<Longrightarrow> length (drop len tok) < length s"
proof -
  assume h: "str_token_get s delim = Some (tok, len)"
  then obtain c r where s: "s = c # r" by (cases s) (auto simp: str_token_get_def)
  show ?thesis
  proof (cases "c \<in> set delim")
    case True
    with h s have "length tok \<le> length r" by (auto simp: str_token_get_def Let_def split: if_splits)
    then show ?thesis using s by simp
  next
    case False
    with h s show ?thesis by (auto simp: str_token_get_def Let_def)
  qed
qed

function str_in_list :: "bytes \<Rightarrow> bytes \<Rightarrow> bytes \<Rightarrow> bool" where
  "str_in_list tok delim needle =
     (case str_token_get tok delim of None \<Rightarrow> False
      | Some (tok', len) \<Rightarrow>
          if \<not> (str_length needle \<noteq> len \<or> str_comp_num tok' needle len \<noteq> 0) then True
          else str_in_list (drop len tok') delim needle)"
  by pat_completeness auto
termination
  by (relation "measure (\<lambda>(tok, delim, needle). length tok)") (auto dest: str_token_get_less)

declare str_in_list.simps [simp del]

definition str_rchr :: "bytes \<Rightarrow> byte \<Rightarrow> bytes option" where
  "str_rchr haystack needle =
     (if needle = 0 then Some []
      else case filter (\<lambda>i. haystack ! i = needle) (rev [0 ..< length haystack]) of
             [] \<Rightarrow> None | i # _ \<Rightarrow> Some (drop i haystack))"

fun str_countchr :: "bytes \<Rightarrow> byte \<Rightarrow> nat" where
  "str_countchr [] needle = 0"
| "str_countchr (c # s) needle = (if c = needle then 1 else 0) + str_countchr s needle"

text \<open>\<open>str_quickhash\<close>: unsigned arithmetic modulo \<open>2 ^ 32\<close> over signed characters.\<close>

fun quickhash_loop :: "32 word \<Rightarrow> bytes \<Rightarrow> 32 word" where
  "quickhash_loop hash [] = hash"
| "quickhash_loop hash (c # s) = quickhash_loop ((push_bit 5 hash + hash) + scast c) s"

definition str_quickhash :: "bytes \<Rightarrow> 32 word" where
  "str_quickhash s = quickhash_loop 5381 s"


text \<open>
  \<open>str_delimiters_around_offset\<close>: \<open>search\<close> is the rest of the haystack, \<open>start\<close> what \<open>*start\<close>
  holds. With an empty delimiter \<open>search\<close> never advances and the loop does not end, which is
  \<open>None\<close>; otherwise the result is \<open>*start\<close>, \<open>*end\<close> and the value returned.
\<close>

partial_function (option) delimiters_loop ::
  "bytes \<Rightarrow> bytes \<Rightarrow> int \<Rightarrow> bytes \<Rightarrow> int \<Rightarrow> (int \<times> bytes) option" where
  "delimiters_loop haystack delim offset search start =
     (case str_find search delim of None \<Rightarrow> Some (start, search)
      | Some found \<Rightarrow>
          let test = drop (length delim) found;
              distance = int (length haystack) - int (length test)
          in if distance > offset then Some (start, search)
             else delimiters_loop haystack delim offset test distance)"

definition str_delimiters_around_offset ::
  "bytes \<Rightarrow> bytes \<Rightarrow> int \<Rightarrow> (int \<times> int \<times> bool) option" where
  "str_delimiters_around_offset haystack delim offset =
     (case delimiters_loop haystack delim offset haystack 0 of None \<Rightarrow> None
      | Some (start, search) \<Rightarrow>
          let found = (length search \<noteq> length haystack)
          in Some (case str_find search delim of
               None \<Rightarrow> (start, int (length haystack), False)
             | Some r \<Rightarrow> (start, int (length haystack) - int (length r), found)))"

subsection \<open>Specifications: splitting and joining\<close>

fun split_on :: "(byte \<Rightarrow> bool) \<Rightarrow> bytes \<Rightarrow> bytes list" where
  "split_on P [] = [[]]"
| "split_on P (c # s) =
     (if P c then [] # split_on P s
      else case split_on P s of [] \<Rightarrow> [[c]] | w # ws \<Rightarrow> (c # w) # ws)"

fun join_with :: "bytes \<Rightarrow> bytes list \<Rightarrow> bytes" where
  "join_with sep [] = []"
| "join_with sep [w] = w"
| "join_with sep (w # ws) = w @ sep @ join_with sep ws"

definition words_of :: "bytes \<Rightarrow> bytes list" where
  "words_of s = filter (\<lambda>w. w \<noteq> []) (split_on (\<lambda>c. c = 0x20) s)"

lemma split_on_nonempty [simp]: "split_on P s \<noteq> []"
  by (induction s) (auto split: list.splits)

lemma split_on_token:
  "split_on P s = takeWhile (\<lambda>c. \<not> P c) s #
     (case dropWhile (\<lambda>c. \<not> P c) s of [] \<Rightarrow> [] | _ # r \<Rightarrow> split_on P r)"
  by (induction s) (auto split: list.splits)

subsection \<open>Membership in a list of tokens\<close>

lemma uint_byte_inj: "uint (x :: byte) = uint y \<longleftrightarrow> x = y"
  by (simp add: word_uint_eq_iff)

lemma uint_byte_eq_0: "uint (x :: byte) = 0 \<longleftrightarrow> x = 0"
  by (simp add: word_uint_eq_iff)

lemma c_compare_eq_0:
  "cstring a \<Longrightarrow> cstring b \<Longrightarrow> c_compare uint n a b = 0 \<longleftrightarrow> take n a = take n b"
proof (induction n arbitrary: a b)
  case (Suc n)
  then show ?case by (cases a; cases b) (simp_all add: uint_byte_inj uint_byte_eq_0)
qed simp

lemma str_comp_num_eq_0: "cstring a \<Longrightarrow> cstring b \<Longrightarrow> str_comp_num a b n = 0 \<longleftrightarrow> take n a = take n b"
  by (simp add: str_comp_num_def c_compare_eq_0)

lemma str_comp_eq_0: "cstring a \<Longrightarrow> cstring b \<Longrightarrow> str_comp a b = 0 \<longleftrightarrow> a = b"
  by (simp add: str_comp_def c_compare_eq_0)

lemma str_in_list_split:
  assumes "cstring s" "cstring needle" "needle \<noteq> []"
  shows "str_in_list s delim needle \<longleftrightarrow> needle \<in> set (split_on (\<lambda>c. c \<in> set delim) s)"
  using assms
proof (induction s delim needle rule: str_in_list.induct)
  case (1 s delim needle)
  let ?P = "\<lambda>c. c \<in> set delim"
  show ?case
  proof (cases "str_token_get s delim")
    case None
    then consider "s = []" | c where "s = [c]" "?P c"
      by (cases s; cases "tl s") (auto simp: str_token_get_def Let_def split: if_splits)
    then show ?thesis using None "1.prems" by cases (simp_all add: str_in_list.simps)
  next
    case (Some x)
    then obtain tok len where x: "str_token_get s delim = Some (tok, len)" by (cases x) auto
    have tok: "tok \<noteq> []" "len = length (takeWhile (\<lambda>c. \<not> ?P c) tok)"
      and s: "(s = tok \<and> \<not> ?P (hd tok)) \<or> (\<exists>c. s = c # tok \<and> ?P c)"
      using x by (cases s; auto simp: str_token_get_def Let_def split: if_splits)+
    have w: "take len tok = takeWhile (\<lambda>c. \<not> ?P c) tok" and d: "drop len tok = dropWhile (\<lambda>c. \<not> ?P c) tok"
      unfolding tok(2) by (rule takeWhile_eq_take [symmetric], rule dropWhile_eq_drop [symmetric])
    have cs: "cstring tok" "cstring (drop len tok)"
      using s "1.prems"(1) by (auto simp: cstring_def dest: in_set_dropD)
    have hit: "\<not> (str_length needle \<noteq> len \<or> str_comp_num tok needle len \<noteq> 0) \<longleftrightarrow>
        needle = takeWhile (\<lambda>c. \<not> ?P c) tok"
      using w tok(2) str_comp_num_eq_0 [OF cs(1) "1.prems"(2)] by (auto simp: str_length_def)
    have IH: "needle \<noteq> takeWhile (\<lambda>c. \<not> ?P c) tok \<Longrightarrow>
       str_in_list (drop len tok) delim needle \<longleftrightarrow> needle \<in> set (split_on ?P (drop len tok))"
      using "1.IH" [OF x refl] hit cs(2) "1.prems" by blast
    have tail: "needle \<in> set (split_on ?P (drop len tok)) \<longleftrightarrow>
        needle \<in> set (case drop len tok of [] \<Rightarrow> [] | _ # r \<Rightarrow> split_on ?P r)"
    proof (cases "drop len tok")
      case (Cons e r)
      then have "?P e" using d hd_dropWhile [of "\<lambda>c. \<not> ?P c" tok] by auto
      with Cons "1.prems"(3) show ?thesis by simp
    qed (use "1.prems"(3) in simp)
    have "needle \<in> set (split_on ?P s) \<longleftrightarrow> needle \<in> set (split_on ?P tok)"
      using s "1.prems"(3) by auto
    also have "\<dots> \<longleftrightarrow> needle = takeWhile (\<lambda>c. \<not> ?P c) tok \<or> needle \<in> set (split_on ?P (drop len tok))"
      unfolding tail by (subst split_on_token) (simp add: d)
    finally show ?thesis
      using hit IH by (subst str_in_list.simps) (auto simp: x)
  qed
qed

subsection \<open>Searching\<close>

lemma find_match_uint: "find_match uint a b = [] \<longleftrightarrow> (\<exists>v. a = b @ v)"
  by (induction "uint :: byte \<Rightarrow> int" a b rule: find_match.induct) (auto simp: uint_byte_inj)

lemma str_find_spec:
  "case str_find h n of
     None \<Rightarrow> \<not> (\<exists>u v. h = u @ n @ v \<and> n @ v \<noteq> [])
   | Some r \<Rightarrow> \<exists>u v. h = u @ r \<and> r = n @ v \<and> (\<forall>u' v'. h = u' @ n @ v' \<longrightarrow> length u \<le> length u')"
proof (induction h n rule: str_find.induct)
  case (1 n)
  then show ?case by auto
next
  case (2 c s n)
  show ?case
  proof (cases "\<exists>v. c # s = n @ v")
    case True
    then show ?thesis by (auto simp: find_match_uint intro: exI [of _ "[]"])
  next
    case False
    have cons: "c # s = u @ n @ v \<Longrightarrow> \<exists>u'. u = c # u' \<and> s = u' @ n @ v" for u v
      using False by (cases u) auto
    show ?thesis
    proof (cases "str_find s n")
      case None
      then show ?thesis using 2 False by (auto simp: find_match_uint dest!: cons)
    next
      case (Some r)
      with 2 False obtain u v where "s = u @ r" "r = n @ v"
        "\<forall>u' v'. s = u' @ n @ v' \<longrightarrow> length u \<le> length u'"
        by (auto simp: find_match_uint)
      moreover from this(3) have "length (c # u) \<le> length u'" if "c # s = u' @ n @ v'" for u' v'
        using cons [OF that] by auto
      ultimately have "\<exists>u v. c # s = u @ r \<and> r = n @ v \<and>
          (\<forall>u' v'. c # s = u' @ n @ v' \<longrightarrow> length u \<le> length u')"
        by (intro exI [of _ "c # u"] exI [of _ v]) auto
      then show ?thesis using Some False by (simp add: find_match_uint)
    qed
  qed
qed

lemma str_find_length:
  "str_find h n = Some r \<Longrightarrow> \<exists>u v. h = u @ n @ v \<and> r = n @ v"
  using str_find_spec [of h n] by auto

lemma delimiters_loop_spec:
  assumes "delim \<noteq> []" "haystack = w @ search" "int (length w) = start"
    "start = 0 \<or> (\<exists>x. w = x @ delim) \<and> start \<le> offset"
  shows "\<exists>st se w'. delimiters_loop haystack delim offset search start = Some (st, se) \<and>
    haystack = w' @ se \<and> int (length w') = st \<and> (st = 0 \<or> (\<exists>x. w' = x @ delim) \<and> st \<le> offset) \<and>
    (\<forall>u v. se = u @ delim @ v \<longrightarrow> offset < int (length w' + length u + length delim))"
  using assms(2-)
proof (induction "length search" arbitrary: search start w rule: less_induct)
  case less
  show ?case
  proof (cases "str_find search delim")
    case None
    then have "\<not> (\<exists>u v. search = u @ delim @ v)"
      using str_find_spec [of search delim] assms(1) by auto
    with None less.prems show ?thesis
      by (subst delimiters_loop.simps) auto
  next
    case (Some r)
    from str_find_spec [of search delim] Some obtain u v where uv: "search = u @ r" "r = delim @ v"
      and first: "\<And>u' v'. search = u' @ delim @ v' \<Longrightarrow> length u \<le> length u'"
      by auto
    let ?d = "int (length haystack) - int (length v)"
    have d: "?d = int (length w + length u + length delim)" by (simp add: less.prems(1) uv)
    have step: "delimiters_loop haystack delim offset search start =
      (if ?d > offset then Some (start, search) else delimiters_loop haystack delim offset v ?d)"
      by (subst delimiters_loop.simps) (simp add: Some uv(2) Let_def)
    show ?thesis
    proof (cases "?d > offset")
      case True
      have "offset < int (length w + length u' + length delim)" if "search = u' @ delim @ v'" for u' v'
        using first [OF that] True d by linarith
      with True step less.prems show ?thesis by auto
    next
      case False
      have "length v < length search" using uv assms(1) by simp
      moreover have "haystack = (w @ u @ delim) @ v" by (simp add: less.prems(1) uv)
      moreover have "int (length (w @ u @ delim)) = ?d" using d by simp
      moreover have "\<exists>x. w @ u @ delim = x @ delim" by (metis append.assoc)
      ultimately show ?thesis using less.hyps [of v "w @ u @ delim" ?d] False step by auto
    qed
  qed
qed

subsection \<open>Cleaning white space\<close>

lemma words_of_skip: "words_of (skip_spaces s) = words_of s"
  by (induction s) (auto simp: words_of_def)

lemma words_of_space [simp]: "words_of (0x20 # s) = words_of s"
  by (simp add: words_of_def)

lemma words_of_char:
  "c \<noteq> 0x20 \<Longrightarrow> words_of (c # s) =
     (if s = [] \<or> hd s = 0x20 then [c] # words_of s
      else case words_of s of [] \<Rightarrow> [[c]] | w # ws \<Rightarrow> (c # w) # ws)"
  by (cases s) (auto simp: words_of_def split: list.splits)

lemma words_of_nonempty: "s \<noteq> [] \<Longrightarrow> hd s \<noteq> 0x20 \<Longrightarrow> words_of s \<noteq> []"
  by (cases s) (auto simp: words_of_char split: list.splits)

lemma skip_spaces_hd: "skip_spaces s = c # r \<Longrightarrow> c \<noteq> 0x20"
  by (induction s) (auto split: if_splits)

lemma skip_spaces_other: "s = [] \<or> hd s \<noteq> 0x20 \<Longrightarrow> skip_spaces s = s"
  by (cases s) auto

lemma clean_loop_words:
  "clean_whitespaces_loop s =
     (if words_of s \<noteq> [] \<and> c_at s = 0x20 then [0x20] else []) @ join_with [0x20] (words_of s)"
proof (induction s rule: clean_whitespaces_loop.induct)
  case (1 s)
  show ?case
  proof (cases "skip_spaces s")
    case Nil
    then have "words_of s = []" using words_of_skip [of s] by (simp add: words_of_def)
    with Nil show ?thesis by (simp add: clean_whitespaces_loop.simps [of s])
  next
    case (Cons c r)
    have c: "c \<noteq> 0x20" using Cons by (rule skip_spaces_hd)
    have ws: "words_of s = words_of (c # r)" using words_of_skip [of s] Cons by simp
    then have ne: "words_of s \<noteq> []" using words_of_nonempty [of "c # r"] c by simp
    have "join_with [0x20] (words_of (c # r)) = c # clean_whitespaces_loop r"
    proof (cases "r = [] \<or> hd r = 0x20")
      case True
      then show ?thesis using "1.IH" [OF Cons] c
        by (cases "words_of r"; cases r) (auto simp: words_of_char words_of_def c_at_def)
    next
      case False
      then have "words_of r \<noteq> []" using words_of_nonempty by blast
      then obtain w ws' where "words_of r = w # ws'" by (cases "words_of r") auto
      then show ?thesis using "1.IH" [OF Cons] c False
        by (cases ws'; cases r) (auto simp: words_of_char c_at_def)
    qed
    then show ?thesis using Cons ne by (simp add: clean_whitespaces_loop.simps [of s] ws)
  qed
qed

lemma clean_whitespaces_words: "str_clean_whitespaces s = join_with [0x20] (words_of s)"
proof -
  have "c_at (skip_spaces s) \<noteq> 0x20"
    using skip_spaces_hd by (cases "skip_spaces s") (auto simp: c_at_def)
  then show ?thesis by (simp add: str_clean_whitespaces_def clean_loop_words words_of_skip)
qed


subsection \<open>Properties\<close>

text \<open>\<open>str_in_list\<close> says exactly whether the needle is one of the fields of the list, where
  every delimiter character ends a field; skipping of single delimiters at the front and the
  empty tokens it reports between adjacent ones never lose or invent a non-empty field.\<close>

theorem str_in_list_is_split_membership:
  assumes "cstring s" "cstring needle" "needle \<noteq> []"
  shows "str_in_list s delim needle \<longleftrightarrow> needle \<in> set (split_on (\<lambda>c. c \<in> set delim) s)"
  using assms by (rule str_in_list_split)

theorem str_in_list_is_split_membership_witness:
  "str_in_list [0x61, 0x2C, 0x2C, 0x62] [0x2C] [0x62] \<and>
   [0x62] \<in> set (split_on (\<lambda>c. c \<in> set [0x2C]) [0x61, 0x2C, 0x2C, 0x62])"
proof -
  have "[0x62] \<in> set (split_on (\<lambda>c. c \<in> set [0x2C]) [0x61, 0x2C, 0x2C, 0x62])" by simp
  then show ?thesis
    using str_in_list_is_split_membership [of "[0x61, 0x2C, 0x2C, 0x62]" "[0x62]" "[0x2C]"] by simp
qed

text \<open>\<open>str_clean_whitespaces\<close> is joining, with one space each, the maximal runs of other
  characters; so it drops leading, trailing and repeated spaces, keeps every word, and cleaning
  twice is cleaning once.\<close>

theorem str_clean_whitespaces_joins_words:
  "str_clean_whitespaces s = join_with [0x20] (words_of s) \<and>
   words_of (str_clean_whitespaces s) = words_of s \<and>
   str_clean_whitespaces (str_clean_whitespaces s) = str_clean_whitespaces s"
proof -
  have "\<forall>w \<in> set (split_on (\<lambda>c. c = 0x20) s). 0x20 \<notin> set w"
    by (induction s) (auto split: list.splits)
  then have w: "\<forall>w \<in> set (words_of s). w \<noteq> [] \<and> 0x20 \<notin> set w" by (auto simp: words_of_def)
  have word: "words_of w = [w]" "words_of (w @ 0x20 # s) = w # words_of s"
    if "w \<noteq> []" "0x20 \<notin> set w" for w s
  proof -
    have "split_on (\<lambda>c. c = 0x20) w = [w]" "split_on (\<lambda>c. c = 0x20) (w @ 0x20 # s) = w # split_on (\<lambda>c. c = 0x20) s"
      using that(2) by (induction w) auto
    then show "words_of w = [w]" "words_of (w @ 0x20 # s) = w # words_of s"
      using that(1) by (simp_all add: words_of_def)
  qed
  have "words_of (join_with [0x20] ws) = ws" if "\<forall>w \<in> set ws. w \<noteq> [] \<and> 0x20 \<notin> set w" for ws
    using that
  proof (induction "[0x20] :: bytes" ws rule: join_with.induct)
    case 1
    then show ?case by (simp add: words_of_def)
  next
    case (2 w)
    then show ?case using word by simp
  next
    case (3 w v ws)
    then show ?case using word(2) [of w] by simp
  qed
  with w show ?thesis by (simp add: clean_whitespaces_words)
qed

text \<open>\<open>str_find\<close> returns \<open>nullptr\<close> only when the needle occurs nowhere in the haystack, and
  otherwise the suffix that starts at its first occurrence.\<close>

theorem str_find_first_occurrence:
  "case str_find h n of
     None \<Rightarrow> \<not> (\<exists>u v. h = u @ n @ v \<and> n @ v \<noteq> [])
   | Some r \<Rightarrow> \<exists>u v. h = u @ r \<and> r = n @ v \<and> (\<forall>u' v'. h = u' @ n @ v' \<longrightarrow> length u \<le> length u')"
  by (rule str_find_spec)

theorem str_find_first_occurrence_witness:
  "str_find [0x61, 0x62, 0x61, 0x62] [0x62] = Some [0x62, 0x61, 0x62] \<and>
   (\<exists>u v. [0x61, 0x62, 0x61, 0x62] = u @ [0x62, 0x61, 0x62 :: byte] \<and> [0x62, 0x61, 0x62] = [0x62 :: byte] @ v)"
proof -
  have f: "str_find [0x61, 0x62, 0x61, 0x62] [0x62] = Some [0x62, 0x61, 0x62]" by simp
  show ?thesis
    using str_find_first_occurrence [of "[0x61, 0x62, 0x61, 0x62]" "[0x62]"]
    unfolding f by (simp only: option.case) blast
qed

text \<open>For a non-empty delimiter \<open>str_delimiters_around_offset\<close> returns; \<open>*start\<close> is 0 or just
  behind a delimiter that ends at or before the offset, \<open>*end\<close> is the end of the haystack or the
  start of a delimiter, and no delimiter between \<open>*start\<close> and the end of the haystack ends at
  or before the offset.\<close>

theorem delimiters_around_offset_correct:
  assumes "delim \<noteq> []"
  shows "\<exists>st en found w rest. str_delimiters_around_offset haystack delim offset = Some (st, en, found) \<and>
    haystack = w @ rest \<and> int (length w) = st \<and>
    (st = 0 \<or> (\<exists>x. w = x @ delim) \<and> st \<le> offset) \<and>
    (\<forall>u v. rest = u @ delim @ v \<longrightarrow> offset < int (length w + length u + length delim)) \<and>
    (if \<exists>u v. rest = u @ delim @ v
     then \<exists>u v. rest = u @ delim @ v \<and> en = st + int (length u) \<and> (found \<longleftrightarrow> st \<noteq> 0)
     else en = int (length haystack) \<and> \<not> found)"
proof -
  from delimiters_loop_spec [OF assms, of haystack "[]" haystack 0 offset]
  obtain st se w where go: "delimiters_loop haystack delim offset haystack 0 = Some (st, se)"
    and w: "haystack = w @ se" "int (length w) = st" "st = 0 \<or> (\<exists>x. w = x @ delim) \<and> st \<le> offset"
    and no: "\<forall>u v. se = u @ delim @ v \<longrightarrow> offset < int (length w + length u + length delim)"
    by auto
  have len: "(length se \<noteq> length haystack) = (st \<noteq> 0)" using w(1,2) by auto
  show ?thesis
  proof (cases "str_find se delim")
    case None
    then have "\<not> (\<exists>u v. se = u @ delim @ v)"
      using str_find_spec [of se delim] assms by auto
    moreover have "str_delimiters_around_offset haystack delim offset =
        Some (st, int (length haystack), False)"
      using None go by (simp add: str_delimiters_around_offset_def Let_def)
    ultimately show ?thesis
      by (intro exI [of _ st] exI [of _ "int (length haystack)"] exI [of _ False] exI [of _ w] exI [of _ se]
          conjI w no) (simp_all only: if_False simp_thms)
  next
    case (Some r)
    then obtain u v where uv: "se = u @ delim @ v" "r = delim @ v"
      using str_find_length by blast
    have "int (length haystack) - int (length r) = st + int (length u)"
      using w(1,2) uv by simp
    with Some go len have res: "str_delimiters_around_offset haystack delim offset =
        Some (st, st + int (length u), st \<noteq> 0)"
      by (simp add: str_delimiters_around_offset_def Let_def)
    show ?thesis
      by (rule exI [of _ st], rule exI [of _ "st + int (length u)"], rule exI [of _ "st \<noteq> 0"],
          rule exI [of _ w], rule exI [of _ se]) (use res w no uv(1) in auto)
  qed
qed

theorem delimiters_around_offset_correct_witness:
  "\<exists>st en found. str_delimiters_around_offset [0x61, 0x3B, 0x62, 0x3B, 0x63] [0x3B] 2 = Some (st, en, found)"
proof -
  have "[0x3B :: byte] \<noteq> []" by simp
  from delimiters_around_offset_correct [OF this, of "[0x61, 0x3B, 0x62, 0x3B, 0x63]" 2]
  show ?thesis by (elim exE conjE) (intro exI, assumption)
qed

end
