(* ===== verification/StrCodec.thy ===== *)
theory StrCodec
  imports Prelude Str
begin

text \<open>
  The hexadecimal, base64 and escaping functions of src/src/base/str.cpp. An output buffer is its
  size; the string in it is the result. \<open>str_hex_decode\<close> returns its code with the bytes written
  so far, \<open>str_base64_decode\<close> a negative code or the bytes.
\<close>

subsection \<open>Hexadecimal\<close>

definition hex_digits :: bytes where
  "hex_digits = [0x30, 0x31, 0x32, 0x33, 0x34, 0x35, 0x36, 0x37, 0x38, 0x39,
     0x41, 0x42, 0x43, 0x44, 0x45, 0x46]"

definition hex_hi :: "byte \<Rightarrow> byte" where
  "hex_hi b = hex_digits ! nat (drop_bit 4 (uint b))"

definition hex_lo :: "byte \<Rightarrow> byte" where
  "hex_lo b = hex_digits ! nat (uint b AND 0xF)"

fun hex_loop :: "int \<Rightarrow> nat \<Rightarrow> bytes \<Rightarrow> bytes" where
  "hex_loop dst_size dst_index [] = []"
| "hex_loop dst_size dst_index (b # data) =
     (if int dst_index < dst_size - 3
      then hex_hi b # hex_lo b # 0x20 # hex_loop dst_size (dst_index + 3) data
      else [])"

definition str_hex :: "int \<Rightarrow> bytes \<Rightarrow> bytes" where
  "str_hex dst_size data = hex_loop dst_size 0 data"

fun hex_cstyle_loop :: "int \<Rightarrow> int \<Rightarrow> int \<Rightarrow> nat \<Rightarrow> bytes \<Rightarrow> bytes" where
  "hex_cstyle_loop dst_size bytes_per_line remaining dst_index [] = []"
| "hex_cstyle_loop dst_size bytes_per_line remaining dst_index (b # data) =
     (if int dst_index < dst_size - 6
      then let remaining' = remaining - 1 in
           [0x30, 0x78, hex_hi b, hex_lo b, 0x2C, if remaining' = 0 then 0x0A else 0x20] @
           hex_cstyle_loop dst_size bytes_per_line
             (if remaining' = 0 then bytes_per_line else remaining') (dst_index + 6) data
      else [])"

definition str_hex_cstyle :: "int \<Rightarrow> bytes \<Rightarrow> int \<Rightarrow> bytes" where
  "str_hex_cstyle dst_size data bytes_per_line =
     (let out = hex_cstyle_loop dst_size bytes_per_line bytes_per_line 0 data;
          out1 = (if length out \<ge> 1 then take (length out - 1) out else out)
      in if length out \<ge> 2 then take (length out - 2) out1 else out1)"

definition hexval :: "byte \<Rightarrow> int" where
  "hexval x =
     (if 0x30 \<le> x \<and> x \<le> 0x39 then uint x - 0x30
      else if 0x61 \<le> x \<and> x \<le> 0x66 then uint x - 0x61 + 10
      else if 0x41 \<le> x \<and> x \<le> 0x46 then uint x - 0x41 + 10
      else - 1)"

definition byteval :: "byte \<Rightarrow> byte \<Rightarrow> byte option" where
  "byteval h0 h1 =
     (let v1 = hexval h0; v2 = hexval h1
      in if v1 < 0 \<or> v2 < 0 then None else Some (of_int (v1 * 16 + v2)))"

fun hex_decode_loop :: "bytes \<Rightarrow> bytes \<Rightarrow> int \<times> bytes" where
  "hex_decode_loop (h0 # h1 # src) dst =
     (case byteval h0 h1 of None \<Rightarrow> (1, dst) | Some b \<Rightarrow> hex_decode_loop src (dst @ [b]))"
| "hex_decode_loop src dst = (0, dst)"

definition str_hex_decode :: "nat \<Rightarrow> bytes \<Rightarrow> int \<times> bytes" where
  "str_hex_decode dst_size src =
     (if str_length src \<noteq> dst_size * 2 then (2, []) else hex_decode_loop src [])"

subsection \<open>Base64\<close>

definition base64_digits :: bytes where
  "base64_digits = map of_nat ([65 ..< 91] @ [97 ..< 123] @ [48 ..< 58] @ [43, 47])"

text \<open>
  The loop of \<open>str_base64\<close> with \<open>room = dst_size - o\<close>; \<open>unsigned value\<close> wraps at 32 bits.
\<close>

fun base64_loop :: "nat \<Rightarrow> nat \<Rightarrow> int \<Rightarrow> int \<Rightarrow> bytes \<Rightarrow> bytes" where
  "base64_loop 0 pos val num_bits data = []"
| "base64_loop (Suc room) pos val num_bits data =
     (let load = num_bits < 6 \<and> data \<noteq> [];
          val' = (if load then take_bit 32 (push_bit 8 val) OR uint (hd data) else val);
          num_bits' = (if load then num_bits + 8 else num_bits);
          data' = (if load then tl data else data)
      in if num_bits' > 0 then
           let padded = (if num_bits' \<ge> 6 then drop_bit (nat (num_bits' - 6)) val'
                         else take_bit 32 (push_bit (nat (6 - num_bits')) val')) AND 0x3F
           in base64_digits ! nat padded # base64_loop room (pos + 1) val' (num_bits' - 6) data'
         else if pos mod 4 \<noteq> 0 then 0x3D # base64_loop room (pos + 1) val' num_bits' data'
         else [])"

definition str_base64 :: "nat \<Rightarrow> bytes \<Rightarrow> bytes" where
  "str_base64 dst_size data = base64_loop (dst_size - 1) 0 0 0 data"

definition base64_digit_value :: "byte \<Rightarrow> int" where
  "base64_digit_value digit =
     (if 0x41 \<le> digit \<and> digit \<le> 0x5A then uint digit - 0x41
      else if 0x61 \<le> digit \<and> digit \<le> 0x7A then uint digit - 0x61 + 26
      else if 0x30 \<le> digit \<and> digit \<le> 0x39 then uint digit - 0x30 + 52
      else if digit = 0x2B then 62
      else if digit = 0x2F then 63
      else - 1)"

text \<open>One group of four digits; \<open>final\<close> when it is the last of the string.\<close>

definition base64_decode_group :: "bool \<Rightarrow> byte \<Rightarrow> byte \<Rightarrow> byte \<Rightarrow> byte \<Rightarrow> bytes result" where
  "base64_decode_group final c0 c1 c2 c3 =
     (let pad1 = final \<and> c3 = 0x3D;
          pad2 = pad1 \<and> c2 = 0x3D;
          num_output_bytes = (if pad2 then 1 else if pad1 then 2 else 3 :: nat);
          d0 = base64_digit_value c0;
          d1 = base64_digit_value c1;
          d2 = base64_digit_value (if pad2 then 0x41 else c2);
          d3 = base64_digit_value (if pad1 then 0x41 else c3)
      in if d0 = - 1 \<or> d1 = - 1 \<or> d2 = - 1 \<or> d3 = - 1 then Inl (ErrCode (- 1))
         else let val = push_bit 18 d0 OR push_bit 12 d1 OR push_bit 6 d2 OR d3;
                  bs = map (\<lambda>b. drop_bit (16 - 8 * b) val AND 0xFF) [0, 1, 2]
              in if \<exists>v \<in> set (drop num_output_bytes bs). v \<noteq> 0 then Inl (ErrCode (- 2))
                 else Inr (map of_int (take num_output_bytes bs)))"

fun base64_decode_loop :: "bytes \<Rightarrow> bytes result" where
  "base64_decode_loop (c0 # c1 # c2 # c3 # data) =
     (case base64_decode_group (data = []) c0 c1 c2 c3 of Inl e \<Rightarrow> Inl e
      | Inr bs \<Rightarrow> (case base64_decode_loop data of Inl e \<Rightarrow> Inl e | Inr cs \<Rightarrow> Inr (bs @ cs)))"
| "base64_decode_loop data = Inr []"

definition str_base64_decode :: "int \<Rightarrow> bytes \<Rightarrow> bytes result" where
  "str_base64_decode dst_size data =
     (if length data mod 4 \<noteq> 0 then Inl (ErrCode (- 3))
      else if int (length data div 4 * 3) > dst_size then Inl (ErrCode (- 2))
      else base64_decode_loop data)"

subsection \<open>Escaping\<close>

text \<open>\<open>room\<close> is \<open>end - *dst\<close>.\<close>

fun str_escape :: "int \<Rightarrow> bytes \<Rightarrow> bytes" where
  "str_escape room [] = []"
| "str_escape room (c # src) =
     (if room > 1 then
        (if c = 0x22 \<or> c = 0x5C then
           (if room > 2 then 0x5C # c # str_escape (room - 2) src else [])
         else c # str_escape (room - 1) src)
      else [])"

fun str_unescape_newlines :: "bytes \<Rightarrow> bytes" where
  "str_unescape_newlines [] = []"
| "str_unescape_newlines (c # s) =
     (case s of [] \<Rightarrow> [c]
      | d # s' \<Rightarrow> if c = 0x5C \<and> d = 0x6E then 0x0A # str_unescape_newlines s'
                   else c # str_unescape_newlines (d # s'))"


subsection \<open>Base64: the bit buffer computes the standard encoding\<close>

definition b64_digit :: "int \<Rightarrow> byte" where
  "b64_digit v = base64_digits ! nat v"

fun base64_spec :: "bytes \<Rightarrow> bytes" where
  "base64_spec [] = []"
| "base64_spec [a] = [b64_digit (uint a div 4), b64_digit (uint a mod 4 * 16), 0x3D, 0x3D]"
| "base64_spec [a, b] =
     [b64_digit (uint a div 4), b64_digit (uint a mod 4 * 16 + uint b div 16),
      b64_digit (uint b mod 16 * 4), 0x3D]"
| "base64_spec (a # b # c # r) =
     b64_digit (uint a div 4) # b64_digit (uint a mod 4 * 16 + uint b div 16) #
     b64_digit (uint b mod 16 * 4 + uint c div 64) # b64_digit (uint c mod 64) # base64_spec r"

definition load8 :: "int \<Rightarrow> byte \<Rightarrow> int" where
  "load8 v d = take_bit 32 (push_bit 8 v) OR uint d"

lemma load8_mod:
  assumes "n \<le> 24"
  shows "load8 v d mod 2 ^ (n + 8) = v mod 2 ^ n * 256 + uint d"
proof -
  have "take_bit 32 (push_bit 8 v) = push_bit 8 (take_bit 24 v)"
    by (simp add: push_bit_take_bit)
  then have "load8 v d = push_bit 8 (take_bit 24 v) + uint d"
    unfolding load8_def by (simp only: push_bit_or uint_byte_bounds) (simp add: push_bit_or)
  then have eq: "load8 v d = uint d + 256 * (v mod 2 ^ 24)"
    by (simp add: push_bit_mult take_bit_eq_mod)
  have "load8 v d mod (2 ^ 8 * 2 ^ n) = 2 ^ 8 * (load8 v d div 2 ^ 8 mod 2 ^ n) + load8 v d mod 2 ^ 8"
    by (rule zmod_zmult2_eq) simp
  moreover have "load8 v d mod 256 = uint d" "load8 v d div 256 = v mod 2 ^ 24"
    by (simp_all add: eq)
  moreover have "v mod 2 ^ 24 mod 2 ^ n = v mod 2 ^ n"
    using assms by (intro mod_mod_cancel le_imp_power_dvd)
  ultimately show ?thesis by (simp add: power_add mult.commute)
qed

lemma digit_hi: "drop_bit m v AND 63 = v mod 2 ^ (m + 6) div (2 :: int) ^ m"
proof -
  have "drop_bit m v AND 63 = take_bit 6 (drop_bit m v)"
    by (simp add: take_bit_eq_mask mask_eq_exp_minus_1)
  also have "\<dots> = drop_bit m (take_bit (m + 6) v)"
    by (simp add: take_bit_drop_bit add.commute)
  finally show ?thesis by (simp add: take_bit_eq_mod drop_bit_div)
qed

lemma digit_hi_mod: "drop_bit m v mod 64 = v mod 2 ^ (m + 6) div (2 :: int) ^ m"
  using digit_hi [of m v] by (simp add: and_mask_3F)

lemma digit_lo: "m \<le> 6 \<Longrightarrow> take_bit 32 (push_bit m v) AND 63 = v mod 2 ^ (6 - m) * (2 :: int) ^ m"
proof -
  assume m: "m \<le> 6"
  have "take_bit 32 (push_bit m v) AND 63 = take_bit 6 (take_bit 32 (push_bit m v))"
    by (simp add: take_bit_eq_mask mask_eq_exp_minus_1)
  also have "\<dots> = take_bit 6 (push_bit m v)" by simp
  also have "\<dots> = push_bit m (take_bit (6 - m) v)" using m by (simp add: push_bit_take_bit)
  finally show ?thesis by (simp add: take_bit_eq_mod push_bit_mult)
qed

lemma load8_facts:
  "load8 v a mod 256 = uint a"
  "load8 v a mod 4 = uint a mod 4" "load8 v a mod 16 = uint a mod 16" "load8 v a mod 64 = uint a mod 64"
  "load8 v a mod 1024 = v mod 4 * 256 + uint a"
  "load8 v a mod 4096 = v mod 16 * 256 + uint a"
proof -
  show e: "load8 v a mod 256 = uint a" using load8_mod [of 0 v a] by simp
  have "load8 v a mod 256 mod 4 = load8 v a mod 4" "load8 v a mod 256 mod 16 = load8 v a mod 16"
    "load8 v a mod 256 mod 64 = load8 v a mod 64"
    by (simp_all add: mod_mod_cancel)
  then show "load8 v a mod 4 = uint a mod 4" "load8 v a mod 16 = uint a mod 16"
    "load8 v a mod 64 = uint a mod 64"
    by (simp_all add: e)
  show "load8 v a mod 1024 = v mod 4 * 256 + uint a" using load8_mod [of 2 v a] by simp
  show "load8 v a mod 4096 = v mod 16 * 256 + uint a" using load8_mod [of 4 v a] by simp
qed

lemma split_digit:
  "(p * 256 + q) div 16 = p * 16 + q div (16 :: int)"
  "(p * 256 + q) div 64 = p * 4 + q div (64 :: int)"
  by auto

lemma room_4: "n + 4 \<le> room \<Longrightarrow> \<exists>k. room = Suc (Suc (Suc (Suc k)))"
  by (intro exI [of _ "room - 4"]) simp

lemma base64_loop_spec:
  assumes "length (base64_spec data) \<le> room" "pos mod 4 = 0"
  shows "base64_loop room pos v 0 data = base64_spec data"
  using assms
proof (induction data arbitrary: room pos v rule: base64_spec.induct)
  case 1
  then show ?case by (cases room) simp_all
next
  case (2 a)
  then obtain k where "room = Suc (Suc (Suc (Suc k)))" using room_4 [of 0 room] by auto
  then show ?case using 2
    by (cases k) (simp_all add: load8_def [symmetric] digit_hi digit_lo load8_facts b64_digit_def
        mod_Suc mult.commute)
next
  case (3 a b)
  then obtain k where "room = Suc (Suc (Suc (Suc k)))" using room_4 [of 0 room] by auto
  then show ?case using 3
    by (cases k) (simp_all add: split_digit load8_def [symmetric] digit_hi digit_lo load8_facts b64_digit_def
        mod_Suc mult.commute)
next
  case (4 a b c r)
  then obtain k where k: "room = Suc (Suc (Suc (Suc k)))" using room_4 [of 0 room] by auto
  moreover have "base64_loop k (Suc (Suc (Suc (Suc pos)))) w 0 r = base64_spec r" for w
    using 4 k by (intro "4.IH") (auto simp: mod_Suc)
  ultimately show ?case
    by (simp add: split_digit load8_def [symmetric] digit_hi_mod bit_arith load8_facts b64_digit_def Let_def)
qed


subsection \<open>Base64: decoding\<close>

lemma base64_digit_value_digit: "0 \<le> v \<Longrightarrow> v < 64 \<Longrightarrow> base64_digit_value (b64_digit v) = v"
proof -
  assume v: "0 \<le> v" "v < 64"
  have "\<forall>k \<in> set [0 ..< 64]. base64_digit_value (base64_digits ! k) = int k" by code_simp
  moreover have "nat v \<in> set [0 ..< 64]" using v by auto
  ultimately show ?thesis using v by (simp add: b64_digit_def)
qed

lemma base64_digit_value_A: "base64_digit_value 0x41 = 0"
  by (simp add: base64_digit_value_def)

lemma b64_digit_not_pad: "0 \<le> v \<Longrightarrow> v < 64 \<Longrightarrow> b64_digit v \<noteq> 0x3D"
  using base64_digit_value_digit [of v] by (auto simp: base64_digit_value_def)

lemma base64_group_value:
  assumes "0 \<le> d0" "d0 < 64" "0 \<le> d1" "d1 < 64" "0 \<le> d2" "d2 < 64" "0 \<le> d3" "d3 < 64"
  shows "push_bit 18 d0 OR push_bit 12 d1 OR push_bit 6 d2 OR d3
    = d0 * 262144 + d1 * 4096 + d2 * 64 + (d3 :: int)"
proof -
  have "push_bit 6 d2 OR d3 = push_bit 6 d2 + d3" using assms by (intro push_bit_or) auto
  moreover have "push_bit 12 d1 OR (push_bit 6 d2 + d3) = push_bit 12 d1 + (push_bit 6 d2 + d3)"
    using assms by (intro push_bit_or) (auto simp: push_bit_mult)
  moreover have "push_bit 18 d0 OR (push_bit 12 d1 + (push_bit 6 d2 + d3)) =
      push_bit 18 d0 + (push_bit 12 d1 + (push_bit 6 d2 + d3))"
    using assms by (intro push_bit_or) (auto simp: push_bit_mult)
  ultimately show ?thesis by (simp add: push_bit_mult or.assoc)
qed

lemma three_bytes:
  fixes a b c v :: int
  assumes "0 \<le> a" "a < 256" "0 \<le> b" "b < 256" "0 \<le> c" "c < 256" "v = a * 65536 + b * 256 + c"
  shows "drop_bit 16 v AND 255 = a" "drop_bit 8 v AND 255 = b" "v AND 255 = c"
proof -
  have "v div 65536 = a" "v div 256 = a * 256 + b" using assms by auto
  then show "drop_bit 16 v AND 255 = a" "drop_bit 8 v AND 255 = b"
    using assms(1-4) by (simp_all add: drop_bit_div bit_arith)
  have "v = (a * 256 + b) * 256 + c" using assms(7) by simp
  then have "v mod 256 = c mod 256" by (simp only: mod_mult_self3)
  then show "v AND 255 = c" using assms(5,6) by (simp add: bit_arith)
qed

lemma digits_to_bytes:
  fixes a b c :: int
  shows "a div 4 * 262144 + (a mod 4 * 16 + b div 16) * 4096 + (b mod 16 * 4 + c div 64) * 64 + c mod 64
    = a * 65536 + b * 256 + c"
proof -
  have "a = 4 * q + r \<Longrightarrow> b = 16 * s + t \<Longrightarrow> c = 64 * u + w \<Longrightarrow>
      q * 262144 + (r * 16 + s) * 4096 + (t * 4 + u) * 64 + w = a * 65536 + b * 256 + c" for q r s t u w
    by simp
  then show ?thesis by (simp only: mult_div_mod_eq)
qed

lemma digit_ranges_int:
  fixes a b c :: int
  assumes "0 \<le> a" "a < 256" "0 \<le> b" "b < 256" "0 \<le> c" "c < 256"
  shows "0 \<le> a div 4" "a div 4 < 64"
    "0 \<le> a mod 4 * 16 + b div 16" "a mod 4 * 16 + b div 16 < 64"
    "0 \<le> b mod 16 * 4 + c div 64" "b mod 16 * 4 + c div 64 < 64"
    "0 \<le> c mod 64" "c mod 64 < 64"
proof -
  have "b div 16 < 16" "c div 64 < 4" "0 \<le> b div 16" "0 \<le> c div 64" using assms by auto
  then show "0 \<le> a mod 4 * 16 + b div 16" "a mod 4 * 16 + b div 16 < 64"
    "0 \<le> b mod 16 * 4 + c div 64" "b mod 16 * 4 + c div 64 < 64"
    using pos_mod_sign [of 4 a] pos_mod_bound [of 4 a] pos_mod_sign [of 16 b] pos_mod_bound [of 16 b]
    by linarith+
qed (use assms in auto)

lemma base64_decode_group_eval:
  fixes a b c :: byte
  assumes "n = (if f \<and> c3 = 0x3D then if c2 = 0x3D then 1 else 2 else 3)"
    and "base64_digit_value c0 = d0" "base64_digit_value c1 = d1"
    and "base64_digit_value (if n = 1 then 0x41 else c2) = d2"
    and "base64_digit_value (if n < 3 then 0x41 else c3) = d3"
    and d: "0 \<le> d0" "d0 < 64" "0 \<le> d1" "d1 < 64" "0 \<le> d2" "d2 < 64" "0 \<le> d3" "d3 < 64"
    and val: "d0 * 262144 + d1 * 4096 + d2 * 64 + d3 = uint a * 65536 + uint b * 256 + uint c"
  shows "base64_decode_group f c0 c1 c2 c3 =
    (if \<exists>v \<in> set (drop n [a, b, c]). v \<noteq> 0 then Inl (ErrCode (- 2)) else Inr (take n [a, b, c]))"
proof -
  define v where "v = push_bit 18 d0 OR push_bit 12 d1 OR push_bit 6 d2 OR d3"
  have "v = uint a * 65536 + uint b * 256 + uint c"
    using base64_group_value [OF d] val by (simp add: v_def)
  then have bs: "map (\<lambda>b. drop_bit (16 - 8 * b) v AND 0xFF) [0, 1, 2] = map uint [a, b, c]"
    using three_bytes [of "uint a" "uint b" "uint c" v] by simp
  have n: "(if f \<and> c3 = 0x3D \<and> c2 = 0x3D then 1 else if f \<and> c3 = 0x3D then 2 else 3) = n"
    "(f \<and> c3 = 0x3D \<and> c2 = 0x3D) \<longleftrightarrow> n = 1" "(f \<and> c3 = 0x3D) \<longleftrightarrow> n < 3"
    using assms(1) by auto
  have nz: "(\<exists>x \<in> set (drop n (map uint [a, b, c])). x \<noteq> 0) \<longleftrightarrow> (\<exists>x \<in> set (drop n [a, b, c]). x \<noteq> 0)"
    by (simp only: drop_map set_map) (auto simp: uint_byte_eq_0)
  have "base64_decode_group f c0 c1 c2 c3 =
    (if \<exists>x \<in> set (drop n (map uint [a, b, c])). x \<noteq> 0 then Inl (ErrCode (- 2))
     else Inr (map of_int (take n (map uint [a, b, c]))))"
    unfolding base64_decode_group_def Let_def bs [symmetric] v_def
    using assms(2-5) d n by (simp only: conj_assoc) auto
  also have "map of_int (take n (map uint [a, b, c])) = take n [a, b, c]"
    unfolding take_map map_map by (simp add: o_def)
  finally show ?thesis by (simp only: nz)
qed

lemma base64_decode_group_full:
  "base64_decode_group f (b64_digit (uint a div 4)) (b64_digit (uint a mod 4 * 16 + uint b div 16))
     (b64_digit (uint b mod 16 * 4 + uint c div 64)) (b64_digit (uint c mod 64)) = Inr [a, b, c]"
proof -
  note r = digit_ranges_int [OF uint_byte_bounds [of a] uint_byte_bounds [of b] uint_byte_bounds [of c]]
  show ?thesis
    using base64_decode_group_eval [OF _ _ _ _ _ r digits_to_bytes, of 3]
      b64_digit_not_pad [OF r(7,8)] base64_digit_value_digit r
    by simp
qed

lemma base64_decode_group_two:
  "base64_decode_group True (b64_digit (uint a div 4)) (b64_digit (uint a mod 4 * 16 + uint b div 16))
     (b64_digit (uint b mod 16 * 4)) 0x3D = Inr [a, b]"
proof -
  note r = digit_ranges_int [OF uint_byte_bounds [of a] uint_byte_bounds [of b] uint_byte_bounds [of 0]]
  have p2: "b64_digit (uint b mod 16 * 4) \<noteq> 0x3D" using r(5,6) by (intro b64_digit_not_pad) auto
  show ?thesis
    using base64_decode_group_eval [where n = 2 and f = True and ?c0.0 = "b64_digit (uint a div 4)"
        and ?c1.0 = "b64_digit (uint a mod 4 * 16 + uint b div 16)"
        and ?c2.0 = "b64_digit (uint b mod 16 * 4)" and ?c3.0 = "0x3D", OF _ _ _ _ _ r digits_to_bytes]
      p2 base64_digit_value_digit r base64_digit_value_A
    by simp
qed

lemma base64_decode_group_one:
  "base64_decode_group True (b64_digit (uint a div 4)) (b64_digit (uint a mod 4 * 16)) 0x3D 0x3D = Inr [a]"
proof -
  note r = digit_ranges_int [OF uint_byte_bounds [of a] uint_byte_bounds [of 0] uint_byte_bounds [of 0]]
  show ?thesis
    using base64_decode_group_eval [where n = 1 and f = True and ?c0.0 = "b64_digit (uint a div 4)"
        and ?c1.0 = "b64_digit (uint a mod 4 * 16)" and ?c2.0 = "0x3D" and ?c3.0 = "0x3D",
        OF _ _ _ _ _ r digits_to_bytes]
      base64_digit_value_digit r base64_digit_value_A
    by simp
qed

lemma base64_decode_spec: "base64_decode_loop (base64_spec data) = Inr data"
proof (induction data rule: base64_spec.induct)
  case (4 a b c r)
  have "base64_decode_group f (b64_digit (uint a div 4)) (b64_digit (uint a mod 4 * 16 + uint b div 16))
     (b64_digit (uint b mod 16 * 4 + uint c div 64)) (b64_digit (uint c mod 64)) = Inr [a, b, c]" for f
    by (rule base64_decode_group_full)
  with 4 show ?case by simp
qed (simp_all add: base64_decode_group_one base64_decode_group_two)

lemma length_base64_spec: "length (base64_spec data) = 4 * ((length data + 2) div 3)"
  by (induction data rule: base64_spec.induct) (simp_all, arith)

subsection \<open>Properties\<close>

text \<open>With room for the whole output \<open>str_base64\<close> writes the standard padded base64 encoding
  (four digits for every three bytes or part of them), and \<open>str_base64_decode\<close> gives back exactly
  the bytes that were encoded.\<close>

theorem base64_roundtrip:
  assumes "4 * ((length data + 2) div 3) < dst_size" "3 * int ((length data + 2) div 3) \<le> n"
  shows "str_base64 dst_size data = base64_spec data \<and>
    str_base64_decode n (str_base64 dst_size data) = Inr data"
proof -
  have "str_base64 dst_size data = base64_spec data"
    unfolding str_base64_def using assms(1) by (intro base64_loop_spec) (auto simp: length_base64_spec)
  then show ?thesis
    using assms(2) by (simp add: str_base64_decode_def length_base64_spec base64_decode_spec)
qed

theorem base64_roundtrip_witness:
  "str_base64 9 [0x66, 0x6F, 0x6F, 0x62] = base64_spec [0x66, 0x6F, 0x6F, 0x62] \<and>
   str_base64_decode 6 (str_base64 9 [0x66, 0x6F, 0x6F, 0x62]) = Inr [0x66, 0x6F, 0x6F, 0x62]"
  by (rule base64_roundtrip) simp_all

end
