(* ===== verification/Utf8Text.thy ===== *)
theory Utf8Text
  imports Prelude Utf8 Str
begin

text \<open>
  Operations on UTF-8 text built on the decoder (src/src/base/str.cpp): white space, truncation
  and cursor arithmetic by characters, case-insensitive comparison, file names and the edit
  distance. The table of src/src/base/unicode/tolower_data.cpp, which a script generates from
  the Unicode data, is the parameter \<open>lower\<close>.
\<close>

subsection \<open>White space\<close>

definition str_utf8_isspace :: "int \<Rightarrow> bool" where
  "str_utf8_isspace code \<longleftrightarrow>
     code \<le> 0x0020 \<or> code = 0x0085 \<or> code = 0x00A0 \<or> code = 0x034F \<or>
     code = 0x115F \<or> code = 0x1160 \<or> code = 0x1680 \<or> code = 0x180E \<or>
     (code \<ge> 0x2000 \<and> code \<le> 0x200F) \<or> (code \<ge> 0x2028 \<and> code \<le> 0x202F) \<or>
     (code \<ge> 0x205F \<and> code \<le> 0x2064) \<or> (code \<ge> 0x206A \<and> code \<le> 0x206F) \<or>
     code = 0x2800 \<or> code = 0x3000 \<or> code = 0x3164 \<or>
     (code \<ge> 0xFE00 \<and> code \<le> 0xFE0F) \<or> code = 0xFEFF \<or> code = 0xFFA0 \<or>
     (code \<ge> 0xFFF9 \<and> code \<le> 0xFFFC)"

lemma decode_rest_less [termination_simp]:
  "s \<noteq> [] \<Longrightarrow> (c, r) = str_utf8_decode s \<Longrightarrow> length r < length s"
  using str_utf8_decode_length [of s] by (metis snd_conv)

function str_utf8_skip_whitespaces :: "bytes \<Rightarrow> bytes" where
  "str_utf8_skip_whitespaces s =
     (if s = [] then s
      else let (code, r) = str_utf8_decode s
           in if \<not> str_utf8_isspace code then s else str_utf8_skip_whitespaces r)"
  by pat_completeness auto
termination
  by (relation "measure length") (auto simp: decode_rest_less)

text \<open>\<open>str_utf8_trim_right\<close>: \<open>end\<close> is where the current run of white space began.\<close>

function trim_right_end :: "nat \<Rightarrow> bytes \<Rightarrow> nat option \<Rightarrow> nat option" where
  "trim_right_end pos s run =
     (if s = [] then run
      else let (code, r) = str_utf8_decode s;
               run' = (if \<not> str_utf8_isspace code then None
                        else if run = None then Some pos else run)
           in trim_right_end (pos + (length s - length r)) r run')"
  by pat_completeness auto
termination
  by (relation "measure (\<lambda>(pos, s, run). length s)") (auto simp: decode_rest_less)

definition str_utf8_trim_right :: "bytes \<Rightarrow> bytes" where
  "str_utf8_trim_right param =
     (case trim_right_end 0 param None of None \<Rightarrow> param | Some e \<Rightarrow> take e param)"

declare str_utf8_skip_whitespaces.simps [simp del] trim_right_end.simps [simp del]

subsection \<open>Case-insensitive comparison\<close>

type_synonym lower_table = "int \<Rightarrow> int option"

definition str_utf8_tolower_codepoint :: "lower_table \<Rightarrow> int \<Rightarrow> int" where
  "str_utf8_tolower_codepoint lower code = (case lower code of None \<Rightarrow> code | Some l \<Rightarrow> l)"

function utf8_tolower_loop :: "lower_table \<Rightarrow> bytes \<Rightarrow> bytes \<Rightarrow> nat \<Rightarrow> bytes" where
  "utf8_tolower_loop lower s output sz =
     (if s = [] then output
      else let (c, r) = str_utf8_decode s;
               encoded_code = str_utf8_encode (str_utf8_tolower_codepoint lower c)
           in if length output + length encoded_code + 1 > sz then output
              else utf8_tolower_loop lower r (output @ encoded_code) sz)"
  by pat_completeness auto
termination
  by (relation "measure (\<lambda>(lower, s, output, sz). length s)") (auto simp: decode_rest_less)

definition str_utf8_tolower :: "lower_table \<Rightarrow> bytes \<Rightarrow> nat \<Rightarrow> bytes" where
  "str_utf8_tolower lower input sz = utf8_tolower_loop lower input [] sz"

function str_utf8_comp_nocase :: "lower_table \<Rightarrow> bytes \<Rightarrow> bytes \<Rightarrow> int" where
  "str_utf8_comp_nocase lower a b =
     (if a = [] \<or> b = [] then uint (c_at a) - uint (c_at b)
      else let (ca, a') = str_utf8_decode a;
               (cb, b') = str_utf8_decode b;
               code_a = str_utf8_tolower_codepoint lower ca;
               code_b = str_utf8_tolower_codepoint lower cb
           in if code_a \<noteq> code_b then code_a - code_b
              else str_utf8_comp_nocase lower a' b')"
  by pat_completeness auto
termination
  by (relation "measure (\<lambda>(lower, a, b). length a)") (auto simp: decode_rest_less)

text \<open>\<open>used\<close> is \<open>a - old_a\<close> at the start of a round.\<close>

function utf8_comp_num_loop :: "lower_table \<Rightarrow> bytes \<Rightarrow> bytes \<Rightarrow> nat \<Rightarrow> int \<Rightarrow> int" where
  "utf8_comp_num_loop lower a b used num =
     (if a = [] \<or> b = [] then uint (c_at a) - uint (c_at b)
      else let (ca, a') = str_utf8_decode a;
               (cb, b') = str_utf8_decode b;
               code_a = str_utf8_tolower_codepoint lower ca;
               code_b = str_utf8_tolower_codepoint lower cb;
               used' = used + (length a - length a')
           in if code_a \<noteq> code_b then code_a - code_b
              else if int used' \<ge> num then 0
              else utf8_comp_num_loop lower a' b' used' num)"
  by pat_completeness auto
termination
  by (relation "measure (\<lambda>(lower, a, b, used, num). length a)") (auto simp: decode_rest_less)

definition str_utf8_comp_nocase_num :: "lower_table \<Rightarrow> bytes \<Rightarrow> bytes \<Rightarrow> int \<Rightarrow> int" where
  "str_utf8_comp_nocase_num lower a b num =
     (if num \<le> 0 then 0 else utf8_comp_num_loop lower a b 0 num)"

text \<open>
  The inner loop of \<open>str_utf8_find_nocase\<close>: the code compares with \<open>a_next\<close> and \<open>b_next\<close>,
  which are ahead of \<open>a\<close> and \<open>b\<close> after the comparison that failed. The result is the needle
  left over and \<open>a_next\<close>.
\<close>

function utf8_find_match :: "lower_table \<Rightarrow> bytes \<Rightarrow> bytes \<Rightarrow> bytes \<times> bytes" where
  "utf8_find_match lower a b =
     (if a = [] \<or> b = [] then (b, a)
      else let (ca, a_next) = str_utf8_decode a;
               (cb, b_next) = str_utf8_decode b
           in if str_utf8_tolower_codepoint lower ca = str_utf8_tolower_codepoint lower cb
              then utf8_find_match lower a_next b_next
              else (b, a_next))"
  by pat_completeness auto
termination
  by (relation "measure (\<lambda>(lower, a, b). length a)") (auto simp: decode_rest_less)

function str_utf8_find_nocase :: "lower_table \<Rightarrow> bytes \<Rightarrow> bytes \<Rightarrow> (bytes \<times> bytes) option" where
  "str_utf8_find_nocase lower haystack needle =
     (if haystack = [] then None
      else let (b, a_next) = utf8_find_match lower haystack needle
           in if b = [] then Some (haystack, a_next)
              else str_utf8_find_nocase lower (snd (str_utf8_decode haystack)) needle)"
  by pat_completeness auto
termination
  by (relation "measure (\<lambda>(lower, haystack, needle). length haystack)") (auto simp: str_utf8_decode_length)

declare utf8_tolower_loop.simps [simp del] str_utf8_comp_nocase.simps [simp del]
  utf8_comp_num_loop.simps [simp del] utf8_find_match.simps [simp del] str_utf8_find_nocase.simps [simp del]

subsection \<open>Cursors\<close>

definition str_utf8_forward :: "bytes \<Rightarrow> nat \<Rightarrow> nat" where
  "str_utf8_forward s cursor =
     (let (c, r) = str_utf8_decode (drop cursor s)
      in if c = 0 then cursor else length s - length r)"

lemma forward_greater:
  assumes "cstring s" "cursor < length s"
  shows "cursor < str_utf8_forward s cursor \<and> str_utf8_forward s cursor \<le> length s"
proof -
  obtain c r where d: "str_utf8_decode (drop cursor s) = (c, r)" by fastforce
  have "length r < length (drop cursor s)"
    using str_utf8_decode_length [of "drop cursor s"] assms(2) d by simp
  moreover have "cstring (drop cursor s)" using assms(1) by (auto simp: cstring_def dest: in_set_dropD)
  then have "c \<noteq> 0" using decode_eq_0 [of "drop cursor s" r] d assms(2) by auto
  ultimately show ?thesis using d by (simp add: str_utf8_forward_def)
qed

fun utf8_copy_num_loop :: "bytes \<Rightarrow> nat \<Rightarrow> nat \<Rightarrow> nat \<Rightarrow> nat" where
  "utf8_copy_num_loop src dst_size cursor 0 = cursor"
| "utf8_copy_num_loop src dst_size cursor (Suc num) =
     (if cursor < length src then
        let new_cursor = str_utf8_forward src cursor
        in if new_cursor \<ge> dst_size then cursor
           else utf8_copy_num_loop src dst_size new_cursor num
      else cursor)"

definition str_utf8_copy_num :: "bytes \<Rightarrow> nat \<Rightarrow> int \<Rightarrow> bytes" where
  "str_utf8_copy_num src dst_size num =
     (let cursor = utf8_copy_num_loop src dst_size 0 (nat num)
      in str_copy src (if cursor < dst_size then cursor + 1 else dst_size))"

text \<open>\<open>str_utf8_truncate\<close>: \<open>size\<close> starts at -1; \<open>rest\<close> is what \<open>cursor\<close> points to.\<close>

function utf8_truncate_loop :: "nat \<Rightarrow> int \<Rightarrow> int \<Rightarrow> int \<Rightarrow> int \<Rightarrow> bytes \<Rightarrow> int" where
  "utf8_truncate_loop src_len dst_size truncation_len sz pos rest =
     (let offset = int src_len - int (length rest) in
      if pos \<le> truncation_len \<and> offset < dst_size \<and> sz \<noteq> offset then
        (if rest = [] then offset
         else let (c, r) = str_utf8_decode rest
              in if c = 0 then offset
                 else utf8_truncate_loop src_len dst_size truncation_len offset (pos + 1) r)
      else sz)"
  by pat_completeness auto
termination
  by (relation "measure (\<lambda>(n, d, t, sz, pos, rest). length rest)") (auto simp: decode_rest_less)

declare utf8_truncate_loop.simps [simp del]

definition str_utf8_truncate :: "int \<Rightarrow> bytes \<Rightarrow> int \<Rightarrow> bytes" where
  "str_utf8_truncate dst_size src truncation_len =
     str_copy src (nat (utf8_truncate_loop (length src) dst_size truncation_len (- 1) 0 src + 1))"

function utf8_stats_loop :: "bytes \<Rightarrow> nat \<Rightarrow> nat \<Rightarrow> nat \<Rightarrow> nat \<Rightarrow> bytes \<Rightarrow> nat \<times> nat" where
  "utf8_stats_loop str max_size max_count sz count cursor =
     (if sz < max_size \<and> count < max_count then
        (if cursor = [] then (sz, count)
         else let (c, r) = str_utf8_decode cursor
              in if c = 0 then (sz, count)
                 else if length str - length r \<ge> max_size then (sz, count)
                 else utf8_stats_loop str max_size max_count (length str - length r) (count + 1) r)
      else (sz, count))"
  by pat_completeness auto
termination
  by (relation "measure (\<lambda>(str, ms, mc, sz, count, cursor). length cursor)") (auto simp: decode_rest_less)

declare utf8_stats_loop.simps [simp del]

definition str_utf8_stats :: "bytes \<Rightarrow> nat \<Rightarrow> nat \<Rightarrow> nat \<times> nat" where
  "str_utf8_stats str max_size max_count = utf8_stats_loop str max_size max_count 0 0 str"

fun utf8_chars_to_bytes_loop :: "bytes \<Rightarrow> nat \<Rightarrow> nat \<Rightarrow> nat" where
  "utf8_chars_to_bytes_loop str byte_offset 0 = byte_offset"
| "utf8_chars_to_bytes_loop str byte_offset (Suc n) =
     (let nxt = str_utf8_forward str byte_offset
      in if nxt = byte_offset then nxt else utf8_chars_to_bytes_loop str nxt n)"

definition str_utf8_offset_chars_to_bytes :: "bytes \<Rightarrow> nat \<Rightarrow> nat" where
  "str_utf8_offset_chars_to_bytes str char_offset = utf8_chars_to_bytes_loop str 0 char_offset"

text \<open>The loop advances to a larger offset or stops; an offset below \<open>byte_offset\<close> remains.\<close>

function utf8_bytes_to_chars_loop :: "bytes \<Rightarrow> nat \<Rightarrow> nat \<Rightarrow> nat \<Rightarrow> nat" where
  "utf8_bytes_to_chars_loop str byte_offset char_offset current =
     (if current < byte_offset then
        let nxt = str_utf8_forward str current
        in if nxt \<le> current then char_offset
           else utf8_bytes_to_chars_loop str byte_offset (char_offset + 1) nxt
      else char_offset)"
  by pat_completeness auto
termination
  by (relation "measure (\<lambda>(str, bo, co, cur). bo - cur)") auto

declare utf8_bytes_to_chars_loop.simps [simp del]

definition str_utf8_offset_bytes_to_chars :: "bytes \<Rightarrow> nat \<Rightarrow> nat" where
  "str_utf8_offset_bytes_to_chars str byte_offset = utf8_bytes_to_chars_loop str byte_offset 0 0"

subsection \<open>File names\<close>

function valid_filename_loop :: "bytes \<Rightarrow> bool \<Rightarrow> bool \<Rightarrow> bool \<Rightarrow> bool" where
  "valid_filename_loop s prev_space prev_period first_space_checked =
     (if s = [] then \<not> (prev_space \<or> prev_period)
      else let (code, r) = str_utf8_decode s in
           if filename_char_bad code then False
           else if str_utf8_isspace code \<and> code \<noteq> 0x20 then False
           else if code = 0x20 then
             (if \<not> first_space_checked then False
              else if prev_space then False
              else valid_filename_loop r True False first_space_checked)
           else valid_filename_loop r False (code = 0x2E) True)"
  by pat_completeness auto
termination
  by (relation "measure (\<lambda>(s, a, b, c). length s)") (auto simp: decode_rest_less)

declare valid_filename_loop.simps [simp del]

text \<open>CON, PRN, AUX, NUL, and COM and LPT followed by a digit or a superscript 1, 2 or 3.\<close>

definition reserved_names :: "bytes list" where
  "reserved_names =
     [[0x43, 0x4F, 0x4E], [0x50, 0x52, 0x4E], [0x41, 0x55, 0x58], [0x4E, 0x55, 0x4C]] @
     concat (map (\<lambda>p. map (\<lambda>d. p @ d)
       ([[0x30], [0x31], [0x32], [0x33], [0x34], [0x35], [0x36], [0x37], [0x38], [0x39],
         [0xC2, 0xB9], [0xC2, 0xB2], [0xC2, 0xB3]]))
       [[0x43, 0x4F, 0x4D], [0x4C, 0x50, 0x54]])"

definition str_valid_filename :: "bytes \<Rightarrow> bool" where
  "str_valid_filename s =
     (if s = [] then False
      else if \<not> valid_filename_loop s False False False then False
      else \<not> (\<exists>n \<in> set reserved_names.
             case str_startswith_nocase s n of None \<Rightarrow> False
             | Some r \<Rightarrow> r = [] \<or> hd r = 0x2E))"

subsection \<open>Cursors on valid text\<close>

lemma encode_all_split:
  assumes "k < length cs"
  shows "encode_all cs = encode_all (take k cs) @ str_utf8_encode (cs ! k) @ encode_all (drop (Suc k) cs)"
  using id_take_nth_drop [OF assms] by (metis encode_all_simps(2,3))

lemma take_Suc_encode:
  "k < length cs \<Longrightarrow> encode_all (take (Suc k) cs) = encode_all (take k cs) @ str_utf8_encode (cs ! k)"
  by (simp add: take_Suc_conv_app_nth)

lemma forward_char:
  assumes "\<forall>c \<in> set cs. scalar_value c" "k < length cs"
  shows "str_utf8_forward (encode_all cs) (length (encode_all (take k cs))) =
    length (encode_all (take (Suc k) cs))"
proof -
  have c: "scalar_value (cs ! k)" using assms by simp
  then have "cs ! k \<noteq> 0" by (simp add: scalar_value_def)
  moreover have "drop (length (encode_all (take k cs))) (encode_all cs) =
      str_utf8_encode (cs ! k) @ encode_all (drop (Suc k) cs)"
    by (subst encode_all_split [OF assms(2)]) simp
  moreover have "length (encode_all cs) = length (encode_all (take k cs)) +
      length (str_utf8_encode (cs ! k)) + length (encode_all (drop (Suc k) cs))"
    by (subst encode_all_split [OF assms(2)]) simp
  ultimately show ?thesis
    using str_utf8_decode_encode [OF c] by (simp add: str_utf8_forward_def take_Suc_encode assms(2))
qed

lemma forward_end: "str_utf8_forward s (length s) = length s"
  by (simp add: str_utf8_forward_def str_utf8_decode_def str_byte_next_def)

lemma encode_pos: "scalar_value c \<Longrightarrow> 0 < length (str_utf8_encode c)"
  using encode_start [of c] by (metis length_greater_0_conv list.distinct(1))

lemma chars_to_bytes_loop_encode:
  assumes "\<forall>c \<in> set cs. scalar_value c" "k \<le> length cs"
  shows "utf8_chars_to_bytes_loop (encode_all cs) (length (encode_all (take k cs))) n =
    length (encode_all (take (k + n) cs))"
  using assms(2)
proof (induction n arbitrary: k)
  case 0
  then show ?case by simp
next
  case (Suc n)
  show ?case
  proof (cases "k < length cs")
    case True
    have "length (encode_all (take k cs)) < length (encode_all (take (Suc k) cs))"
      using True assms encode_pos [of "cs ! k"] by (simp add: take_Suc_encode)
    then show ?thesis using Suc.IH [of "Suc k"] True
      by (simp add: forward_char [OF assms(1)] Let_def)
  next
    case False
    with Suc.prems show ?thesis by (simp add: Let_def forward_end)
  qed
qed

lemma bytes_to_chars_loop_encode:
  assumes "\<forall>c \<in> set cs. scalar_value c" "m + k \<le> length cs"
  shows "utf8_bytes_to_chars_loop (encode_all cs) (length (encode_all (take (m + k) cs))) co
    (length (encode_all (take m cs))) = co + k"
  using assms(2)
proof (induction k arbitrary: m co)
  case 0
  then show ?case by (simp add: utf8_bytes_to_chars_loop.simps)
next
  case (Suc k)
  have m: "m < length cs" using Suc.prems by simp
  have lt: "length (encode_all (take m cs)) < length (encode_all (take (Suc m) cs))"
    using m assms encode_pos [of "cs ! m"] by (simp add: take_Suc_encode)
  have "take (m + Suc k) cs = take (Suc m) cs @ take k (drop (Suc m) cs)"
    by (metis add_Suc_shift take_add)
  then have "length (encode_all (take (Suc m) cs)) \<le> length (encode_all (take (m + Suc k) cs))"
    by simp
  with lt Suc.IH [of "Suc m" "co + 1"] Suc.prems show ?case
    by (subst utf8_bytes_to_chars_loop.simps)
       (simp add: forward_char [OF assms(1) m] Let_def del: take_Suc)
qed

lemma copy_num_loop_encode:
  assumes "\<forall>c \<in> set cs. scalar_value c" "k \<le> length cs" "length (encode_all (take k cs)) < sz"
  obtains j where "k \<le> j" "j \<le> length cs" "j \<le> k + n"
    "utf8_copy_num_loop (encode_all cs) sz (length (encode_all (take k cs))) n = length (encode_all (take j cs))"
    "length (encode_all (take j cs)) < sz"
    "j < length cs \<Longrightarrow> j < k + n \<Longrightarrow> sz \<le> length (encode_all (take (Suc j) cs))"
  using assms(2,3)
proof (induction n arbitrary: k thesis)
  case 0
  show ?case by (rule 0(1) [of k]) (use 0 in auto)
next
  case (Suc n)
  show ?case
  proof (cases "k < length cs")
    case True
    have "length (encode_all (take k cs)) < length (encode_all (take (Suc k) cs))"
      using True assms encode_pos [of "cs ! k"] by (simp add: take_Suc_encode)
    moreover have "encode_all cs = encode_all (take (Suc k) cs) @ encode_all (drop (Suc k) cs)"
      by (metis append_take_drop_id encode_all_simps(3))
    then have "length (encode_all (take (Suc k) cs)) \<le> length (encode_all cs)"
      by (metis le_add1 length_append)
    ultimately have lt: "length (encode_all (take k cs)) < length (encode_all cs)" by linarith
    show ?thesis
    proof (cases "sz \<le> length (encode_all (take (Suc k) cs))")
      case True
      show ?thesis
        by (rule Suc.prems(1) [of k]) (use True lt Suc.prems(2,3) \<open>k < length cs\<close> in
          \<open>auto simp: forward_char [OF assms(1)] Let_def\<close>)
    next
      case False
      have k1: "Suc k \<le> length cs" "length (encode_all (take (Suc k) cs)) < sz"
        using False True by auto
      from Suc.IH [OF _ k1] obtain j where j: "Suc k \<le> j" "j \<le> length cs" "j \<le> Suc k + n"
        "utf8_copy_num_loop (encode_all cs) sz (length (encode_all (take (Suc k) cs))) n = length (encode_all (take j cs))"
        "length (encode_all (take j cs)) < sz"
        "j < length cs \<Longrightarrow> j < Suc k + n \<Longrightarrow> sz \<le> length (encode_all (take (Suc j) cs))"
        by blast
      show ?thesis
        by (rule Suc.prems(1) [of j]) (use j False lt True in
          \<open>auto simp: forward_char [OF assms(1)] Let_def\<close>)
    qed
  next
    case False
    show ?thesis
      by (rule Suc.prems(1) [of k]) (use False Suc.prems(2,3) in auto)
  qed
qed

lemma copy_num_encode:
  assumes "\<forall>c \<in> set cs. scalar_value c" "0 < sz"
  shows "\<exists>j. str_utf8_copy_num (encode_all cs) sz n = encode_all (take j cs) \<and>
    j \<le> length cs \<and> int j \<le> max 0 n \<and> length (encode_all (take j cs)) < sz \<and>
    (j < length cs \<and> int j < n \<longrightarrow> sz \<le> length (encode_all (take (Suc j) cs)))"
proof -
  from copy_num_loop_encode [OF assms(1), of 0 sz "nat n"] assms(2)
  obtain j where j: "j \<le> length cs" "j \<le> nat n"
    "utf8_copy_num_loop (encode_all cs) sz 0 (nat n) = length (encode_all (take j cs))"
    "length (encode_all (take j cs)) < sz"
    "j < length cs \<Longrightarrow> j < nat n \<Longrightarrow> sz \<le> length (encode_all (take (Suc j) cs))"
    by auto
  have "encode_all cs = encode_all (take j cs) @ encode_all (drop j cs)"
    by (metis append_take_drop_id encode_all_simps(3))
  then have "take (length (encode_all (take j cs))) (encode_all cs) = encode_all (take j cs)"
    by (metis append_eq_conv_conj)
  moreover have "str_utf8_fix_truncation (encode_all (take j cs)) = encode_all (take j cs)"
  proof (cases "take j cs" rule: rev_cases)
    case Nil
    then have "encode_all (take j cs) = []" by (simp only: encode_all_simps)
    then show ?thesis by (simp add: str_utf8_fix_truncation_def)
  next
    case (snoc ds d)
    moreover have "\<forall>c \<in> set (take j cs). scalar_value c" using assms(1) by (meson in_set_takeD)
    ultimately show ?thesis using fix_truncation_complete [of d "encode_all ds"] by simp
  qed
  ultimately have "str_utf8_copy_num (encode_all cs) sz n = encode_all (take j cs)"
    using j by (simp add: str_utf8_copy_num_def str_copy_def)
  moreover have "int j < n \<Longrightarrow> j < nat n" by linarith
  moreover have "int j \<le> max 0 n" using j(2) by linarith
  ultimately show ?thesis using j by blast
qed

subsection \<open>Properties\<close>

text \<open>on valid UTF-8, \<open>str_utf8_offset_chars_to_bytes\<close> gives the bytes of the first \<open>n\<close>
  characters (all of them when there are fewer) and \<open>str_utf8_offset_bytes_to_chars\<close> maps that
  offset back.\<close>

theorem utf8_offsets_inverse:
  assumes "\<forall>c \<in> set cs. scalar_value c"
  shows "str_utf8_offset_chars_to_bytes (encode_all cs) n = length (encode_all (take n cs)) \<and>
    str_utf8_offset_bytes_to_chars (encode_all cs) (str_utf8_offset_chars_to_bytes (encode_all cs) n)
      = min n (length cs)"
  using chars_to_bytes_loop_encode [OF assms, of 0 n]
    bytes_to_chars_loop_encode [OF assms, of 0 "min n (length cs)" 0]
  by (simp add: str_utf8_offset_chars_to_bytes_def str_utf8_offset_bytes_to_chars_def)
     (cases "n \<le> length cs"; simp add: min_def)

theorem utf8_offsets_inverse_witness:
  "str_utf8_offset_chars_to_bytes (encode_all [0x61, 0x20AC, 0x62]) 2 = 4 \<and>
   str_utf8_offset_bytes_to_chars (encode_all [0x61, 0x20AC, 0x62]) 4 = 2"
proof -
  have v: "\<forall>c \<in> set [0x61, 0x20AC, 0x62]. scalar_value c" by (simp add: scalar_value_def)
  have "length (encode_all (take 2 [0x61, 0x20AC, 0x62])) = 4" by code_simp
  moreover have "min 2 (length [0x61, 0x20AC, 0x62 :: int]) = 2" by simp
  ultimately show ?thesis using utf8_offsets_inverse [OF v, of 2] by metis
qed

text \<open>\<open>str_utf8_copy_num\<close> copies whole characters only, at most \<open>num\<close> of them and never past
  the buffer; it stops early only at the end of the string or when the next character would leave
  no room for the terminating zero.\<close>

theorem utf8_copy_num_whole_characters:
  assumes "\<forall>c \<in> set cs. scalar_value c" "0 < dst_size"
  shows "\<exists>j. str_utf8_copy_num (encode_all cs) dst_size num = encode_all (take j cs) \<and>
    j \<le> length cs \<and> int j \<le> max 0 num \<and> length (encode_all (take j cs)) < dst_size \<and>
    (j < length cs \<and> int j < num \<longrightarrow> dst_size \<le> length (encode_all (take (Suc j) cs)))"
  by (rule copy_num_encode [OF assms])

theorem utf8_copy_num_whole_characters_witness:
  "\<exists>j. str_utf8_copy_num (encode_all [0x61, 0x20AC, 0x62]) 4 3 = encode_all (take j [0x61, 0x20AC, 0x62])"
proof -
  have v: "\<forall>c \<in> set [0x61, 0x20AC, 0x62]. scalar_value c" by (simp add: scalar_value_def)
  show ?thesis using utf8_copy_num_whole_characters [OF v, of 4 3] by auto
qed

end
