(* ===== verification/EditDist.thy ===== *)
theory EditDist
  imports Prelude Utf8
begin

text \<open>
  \<open>str_utf8_dist\<close>, \<open>str_utf8_dist_buffer\<close> and \<open>str_utf32_dist_buffer\<close> (src/src/base/str.cpp): the
  edit distance computed with two rows of the table kept in one buffer. \<open>buf\<close> is the list of its
  ints, indexed as the macro \<open>B(i, j)\<close> does.
\<close>

subsection \<open>The code\<close>

definition B_index :: "nat \<Rightarrow> nat \<Rightarrow> nat \<Rightarrow> nat" where
  "B_index a_len i j = (j mod 2) * (a_len + 1) + i"

text \<open>The first loop: \<open>i\<close> from 0 to \<open>a_len\<close>; \<open>n\<close> rounds are left.\<close>

primrec dist_init :: "nat \<Rightarrow> nat \<Rightarrow> nat \<Rightarrow> int list \<Rightarrow> int list" where
  "dist_init a_len 0 i buf = buf"
| "dist_init a_len (Suc n) i buf = dist_init a_len n (i + 1) (buf[B_index a_len i 0 := int i])"

definition dist_cell :: "int list \<Rightarrow> int list \<Rightarrow> nat \<Rightarrow> nat \<Rightarrow> int list \<Rightarrow> int" where
  "dist_cell a b j i buf =
     (let al = length a;
          subst = (if a ! (i - 1) \<noteq> b ! (j - 1) then 1 else 0)
      in min (buf ! B_index al (i - 1) j + 1)
           (min (buf ! B_index al i (j - 1) + 1) (buf ! B_index al (i - 1) (j - 1) + subst)))"

primrec dist_inner :: "int list \<Rightarrow> int list \<Rightarrow> nat \<Rightarrow> nat \<Rightarrow> nat \<Rightarrow> int list \<Rightarrow> int list" where
  "dist_inner a b j 0 i buf = buf"
| "dist_inner a b j (Suc n) i buf =
     dist_inner a b j n (i + 1) (buf[B_index (length a) i j := dist_cell a b j i buf])"

primrec dist_outer :: "int list \<Rightarrow> int list \<Rightarrow> nat \<Rightarrow> nat \<Rightarrow> int list \<Rightarrow> int list" where
  "dist_outer a b 0 j buf = buf"
| "dist_outer a b (Suc n) j buf =
     dist_outer a b n (j + 1)
       (dist_inner a b j (length a) 1 (buf[B_index (length a) 0 j := int j]))"

definition str_utf32_dist_buffer :: "int list \<Rightarrow> int list \<Rightarrow> int list \<Rightarrow> int result" where
  "str_utf32_dist_buffer a0 b0 buf =
     (if \<not> length buf \<ge> (length a0 + 1) + (length b0 + 1) then Inl AssertFailed
      else let (a, b) = (if length a0 > length b0 then (b0, a0) else (a0, b0));
               buf1 = dist_init (length a) (length a + 1) 0 buf;
               buf2 = dist_outer a b (length b) 1 buf1
           in Inr (buf2 ! B_index (length a) (length a) (length b)))"

function str_to_utf32_unchecked :: "bytes \<Rightarrow> int list" where
  "str_to_utf32_unchecked str =
     (if str = [] then []
      else let (c, r) = str_utf8_decode str in c # str_to_utf32_unchecked r)"
  by pat_completeness auto
termination
proof (relation "measure length")
  fix str :: bytes and x c r
  assume "str \<noteq> []" "x = str_utf8_decode str" "(c, r) = x"
  then show "(r, str) \<in> measure length"
    using str_utf8_decode_length [of str] by (metis in_measure snd_conv)
qed simp

declare str_to_utf32_unchecked.simps [simp del]

text \<open>
  The code points of both strings are written to the front of the buffer (the zero that ends the
  first is overwritten by the second); the rest of it is the buffer of the table.
\<close>

definition str_utf8_dist_buffer :: "bytes \<Rightarrow> bytes \<Rightarrow> int list \<Rightarrow> int result" where
  "str_utf8_dist_buffer a_utf8 b_utf8 buf =
     (if \<not> length buf \<ge> 2 * (length a_utf8 + 1 + length b_utf8 + 1) then Inl AssertFailed
      else let (x, y) = (if length a_utf8 > length b_utf8 then (b_utf8, a_utf8) else (a_utf8, b_utf8));
               a = str_to_utf32_unchecked x;
               b = str_to_utf32_unchecked y;
               rest = (drop (length a + length b) buf)[0 := 0]
           in str_utf32_dist_buffer a b rest)"

definition str_utf8_dist :: "bytes \<Rightarrow> bytes \<Rightarrow> int result" where
  "str_utf8_dist a b =
     str_utf8_dist_buffer a b (replicate (2 * (length a + 1 + length b + 1)) 0)"

subsection \<open>The edit distance\<close>

text \<open>\<open>edits n a b\<close>: \<open>n\<close> insertions, deletions and substitutions turn \<open>a\<close> into \<open>b\<close>.\<close>

inductive edits :: "nat \<Rightarrow> int list \<Rightarrow> int list \<Rightarrow> bool" where
  none: "edits 0 [] []"
| delete: "edits n a b \<Longrightarrow> edits (Suc n) (a @ [x]) b"
| insert: "edits n a b \<Longrightarrow> edits (Suc n) a (b @ [y])"
| keep: "edits n a b \<Longrightarrow> edits n (a @ [x]) (b @ [x])"
| replace: "edits n a b \<Longrightarrow> edits (Suc n) (a @ [x]) (b @ [y])"

definition distance :: "int \<Rightarrow> int list \<Rightarrow> int list \<Rightarrow> bool" where
  "distance d a b \<longleftrightarrow> (\<exists>n. int n = d \<and> edits n a b \<and> (\<forall>m. edits m a b \<longrightarrow> n \<le> m))"

lemma edits_swap: "edits n a b \<Longrightarrow> edits n b a"
  by (induction rule: edits.induct) (auto intro: edits.intros)

lemma distance_swap: "distance d a b \<Longrightarrow> distance d b a"
  by (auto simp: distance_def dest: edits_swap)

lemma edits_delete_all: "edits (length a) a []"
  by (induction a rule: rev_induct) (auto intro: edits.intros)

lemma edits_length: "edits n a b \<Longrightarrow> length a \<le> n + length b \<and> length b \<le> n + length a"
  by (induction rule: edits.induct) auto

lemma distance_Nil: "distance (int (length a)) a []"
  using edits_delete_all [of a] edits_length [of _ a "[]"] by (auto simp: distance_def)

lemma distance_snoc:
  assumes "distance d1 a (b @ [y])" "distance d2 (a @ [x]) b" "distance d3 a b"
  shows "distance (min (d1 + 1) (min (d2 + 1) (d3 + (if x \<noteq> y then 1 else 0)))) (a @ [x]) (b @ [y])"
proof -
  obtain n1 n2 n3 where n: "d1 = int n1" "d2 = int n2" "d3 = int n3"
    and e: "edits n1 a (b @ [y])" "edits n2 (a @ [x]) b" "edits n3 a b"
    and least: "\<And>m. edits m a (b @ [y]) \<Longrightarrow> n1 \<le> m" "\<And>m. edits m (a @ [x]) b \<Longrightarrow> n2 \<le> m"
      "\<And>m. edits m a b \<Longrightarrow> n3 \<le> m"
    using assms by (auto simp: distance_def)
  let ?s = "if x \<noteq> y then 1 else 0 :: nat"
  let ?n = "min (n1 + 1) (min (n2 + 1) (n3 + ?s))"
  have "edits (n1 + 1) (a @ [x]) (b @ [y])" "edits (n2 + 1) (a @ [x]) (b @ [y])"
    "edits (n3 + ?s) (a @ [x]) (b @ [y])"
    using e edits.intros by auto
  then have "edits ?n (a @ [x]) (b @ [y])" by (simp add: min_def)
  moreover have "?n \<le> m" if "edits m (a @ [x]) (b @ [y])" for m
    using that
  proof (cases rule: edits.cases)
    case (delete n a' x')
    then show ?thesis using least(1) by force
  next
    case (insert n b' y')
    then show ?thesis using least(2) by force
  next
    case (keep a' b' x')
    then show ?thesis using least(3) by force
  next
    case (replace n a' b' x' y')
    then have "n3 \<le> n" using least(3) by simp
    with replace show ?thesis by auto
  qed auto
  ultimately show ?thesis
    by (auto simp: distance_def n intro!: exI [of _ ?n])
qed

subsection \<open>The two rows hold the distances of the prefixes\<close>

definition dist_at :: "int list \<Rightarrow> int list \<Rightarrow> int list \<Rightarrow> nat \<Rightarrow> nat \<Rightarrow> bool" where
  "dist_at a b buf i j \<longleftrightarrow> distance (buf ! B_index (length a) i j) (take i a) (take j b)"

lemma pred_mod_2: "1 \<le> j \<Longrightarrow> (j - 1) mod 2 \<noteq> j mod (2 :: nat)"
  by (cases j) (auto simp: mod_Suc)

lemma B_index_less: "i \<le> n \<Longrightarrow> B_index n i j < 2 * (n + 1)"
  by (cases "j mod 2 = 0") (auto simp: B_index_def)

lemma B_index_inj: "i \<le> n \<Longrightarrow> i' \<le> n \<Longrightarrow> B_index n i j = B_index n i' j' \<longleftrightarrow> i = i' \<and> j mod 2 = j' mod 2"
  by (cases "j mod 2 = 0"; cases "j' mod 2 = 0") (auto simp: B_index_def mod_2_eq_odd)

lemma length_dist_init [simp]: "length (dist_init n k i buf) = length buf"
  by (induction k arbitrary: i buf) auto

lemma length_dist_inner [simp]: "length (dist_inner a b j n i buf) = length buf"
  by (induction n arbitrary: i buf) auto

lemma dist_init_rows:
  "2 * (n + 1) \<le> length buf \<Longrightarrow> i + k \<le> n + 1 \<Longrightarrow>
   \<forall>i' \<le> n. dist_init n k i buf ! B_index n i' 0 =
     (if i \<le> i' \<and> i' < i + k then int i' else buf ! B_index n i' 0)"
proof (induction k arbitrary: i buf)
  case (Suc k)
  have "B_index n i 0 < length buf" using B_index_less [of i n 0] Suc.prems by linarith
  with Suc show ?case by (auto simp: nth_list_update B_index_inj)
qed auto

lemma dist_inner_rows:
  assumes "2 * (length a + 1) \<le> length buf" "1 \<le> i" "i + n = length a + 1" "1 \<le> j" "j \<le> length b"
    and "\<forall>i' \<le> length a. dist_at a b buf i' (j - 1)" "\<forall>i' < i. dist_at a b buf i' j"
  shows "\<forall>i' \<le> length a. dist_at a b (dist_inner a b j n i buf) i' j"
  using assms
proof (induction n arbitrary: i buf)
  case 0
  then show ?case by auto
next
  case (Suc n)
  let ?al = "length a"
  let ?v = "dist_cell a b j i buf"
  let ?buf = "buf[B_index ?al i j := ?v]"
  have i: "i \<le> ?al" "i - 1 < ?al" using Suc.prems(2,3) by auto
  have par: "(j - 1) mod 2 \<noteq> j mod 2" using \<open>1 \<le> j\<close> by (rule pred_mod_2)
  have ti: "take i a = take (i - 1) a @ [a ! (i - 1)]"
    using i Suc.prems(2) by (metis Suc_diff_1 less_eq_Suc_le One_nat_def take_Suc_conv_app_nth)
  have tj: "take j b = take (j - 1) b @ [b ! (j - 1)]"
    using Suc.prems(4,5) by (metis Suc_diff_1 less_eq_Suc_le One_nat_def take_Suc_conv_app_nth)
  have idx: "B_index ?al i j < length buf" using B_index_less [of i ?al j] i Suc.prems(1) by linarith
  have "distance (buf ! B_index ?al (i - 1) j) (take (i - 1) a) (take j b)"
    "distance (buf ! B_index ?al i (j - 1)) (take i a) (take (j - 1) b)"
    "distance (buf ! B_index ?al (i - 1) (j - 1)) (take (i - 1) a) (take (j - 1) b)"
    using Suc.prems(2,6,7) i by (auto simp: dist_at_def)
  from distance_snoc [OF this(1)[unfolded tj] this(2)[unfolded ti] this(3)]
  have v: "distance ?v (take i a) (take j b)" by (simp only: ti tj dist_cell_def Let_def)
  have prev: "\<forall>i' \<le> ?al. dist_at a b ?buf i' (j - 1)"
    using Suc.prems(6) i par idx by (auto simp: dist_at_def nth_list_update B_index_inj)
  have cur: "\<forall>i' < i + 1. dist_at a b ?buf i' j"
  proof (intro allI impI)
    fix i' assume "i' < i + 1"
    show "dist_at a b ?buf i' j"
    proof (cases "i' = i")
      case True
      then show ?thesis using v idx by (simp add: dist_at_def)
    next
      case False
      then show ?thesis using Suc.prems(7) i idx \<open>i' < i + 1\<close>
        by (auto simp: dist_at_def nth_list_update B_index_inj)
    qed
  qed
  have "\<forall>i' \<le> ?al. dist_at a b (dist_inner a b j n (i + 1) ?buf) i' j"
    by (rule Suc.IH [OF _ _ _ Suc.prems(4,5) prev cur])
      (use Suc.prems(1,2,3) in auto)
  then show ?case by simp
qed

lemma dist_outer_rows:
  assumes "2 * (length a + 1) \<le> length buf" "1 \<le> j" "j + n = length b + 1"
    and "\<forall>i \<le> length a. dist_at a b buf i (j - 1)"
  shows "\<forall>i \<le> length a. dist_at a b (dist_outer a b n j buf) i (length b)"
  using assms
proof (induction n arbitrary: j buf)
  case 0
  then show ?case by auto
next
  case (Suc n)
  let ?al = "length a"
  let ?buf = "buf[B_index ?al 0 j := int j]"
  have par: "(j - 1) mod 2 \<noteq> j mod 2" using \<open>1 \<le> j\<close> by (rule pred_mod_2)
  have idx: "B_index ?al 0 j < length buf" using B_index_less [of 0 ?al j] Suc.prems(1) by linarith
  have "j \<le> length b" using Suc.prems(3) by simp
  then have "dist_at a b ?buf 0 j"
    using idx distance_swap [OF distance_Nil [of "take j b"]] by (simp add: dist_at_def min_absorb2)
  moreover have "\<forall>i \<le> ?al. dist_at a b ?buf i (j - 1)"
    using Suc.prems(4) par idx by (auto simp: dist_at_def nth_list_update B_index_inj)
  ultimately have "\<forall>i \<le> ?al. dist_at a b (dist_inner a b j ?al 1 ?buf) i j"
    using Suc.prems(1-3) \<open>j \<le> length b\<close> by (intro dist_inner_rows) auto
  then show ?case using Suc.IH Suc.prems by simp
qed

lemma dist_table:
  assumes "length a \<le> length b" "2 * (length a + 1) \<le> length buf"
  shows "distance (dist_outer a b (length b) 1 (dist_init (length a) (length a + 1) 0 buf)
           ! B_index (length a) (length a) (length b)) a b"
proof -
  let ?buf = "dist_init (length a) (length a + 1) 0 buf"
  have "\<forall>i \<le> length a. dist_at a b ?buf i 0"
    using dist_init_rows [of "length a" buf 0 "length a + 1"] assms(2) distance_Nil
    by (auto simp: dist_at_def simp del: dist_init.simps) (metis length_take min_absorb2)
  from dist_outer_rows [OF _ _ _ , of a ?buf 1 "length b" b] this assms
  have "dist_at a b (dist_outer a b (length b) 1 ?buf) (length a) (length b)"
    by (simp del: dist_init.simps)
  then show ?thesis by (simp add: dist_at_def del: dist_init.simps)
qed

lemma utf32_dist:
  "if length a + length b + 2 \<le> length buf
   then \<exists>d. str_utf32_dist_buffer a b buf = Inr d \<and> distance d a b
   else str_utf32_dist_buffer a b buf = Inl AssertFailed"
proof (cases "length a + length b + 2 \<le> length buf")
  case True
  show ?thesis
  proof (cases "length a > length b")
    case True
    with \<open>length a + length b + 2 \<le> length buf\<close> show ?thesis
      using distance_swap [OF dist_table [of b a buf]]
      by (simp add: str_utf32_dist_buffer_def del: dist_init.simps)
  next
    case False
    with \<open>length a + length b + 2 \<le> length buf\<close> show ?thesis
      using dist_table [of a b buf] by (simp add: str_utf32_dist_buffer_def del: dist_init.simps)
  qed
qed (simp add: str_utf32_dist_buffer_def)

lemma length_utf32: "length (str_to_utf32_unchecked s) \<le> length s"
proof (induction s rule: str_to_utf32_unchecked.induct)
  case (1 str)
  show ?case
  proof (cases "str = []")
    case False
    obtain c r where d: "str_utf8_decode str = (c, r)" by fastforce
    with 1 False have "length (str_to_utf32_unchecked r) \<le> length r" by simp
    with d False show ?thesis
      using str_utf8_decode_length [of str] by (simp add: str_to_utf32_unchecked.simps [of str])
  qed (simp add: str_to_utf32_unchecked.simps)
qed

subsection \<open>Properties\<close>

text \<open>C39: in a large enough buffer, whatever it held before, \<open>str_utf32_dist_buffer\<close> returns the
  edit distance: some sequence of that many insertions, deletions and substitutions turns one
  string into the other and no shorter one does; a buffer that is too small stops the process.\<close>

theorem utf32_dist_is_edit_distance:
  "if length a + length b + 2 \<le> length buf
   then \<exists>d. str_utf32_dist_buffer a b buf = Inr d \<and> distance d a b
   else str_utf32_dist_buffer a b buf = Inl AssertFailed"
  by (rule utf32_dist)

text \<open>\<open>str_utf8_dist\<close> always allocates enough room and returns the edit distance of the code
  points of its arguments.\<close>

theorem utf8_dist_is_edit_distance:
  "\<exists>d. str_utf8_dist a b = Inr d \<and> distance d (str_to_utf32_unchecked a) (str_to_utf32_unchecked b)"
proof -
  have *: "\<exists>d. str_utf32_dist_buffer u v buf = Inr d \<and> distance d u v"
    if "length u + length v + 2 \<le> length buf" for u v buf
    using utf32_dist [of u v buf] that by simp
  let ?a = "str_to_utf32_unchecked a" and ?b = "str_to_utf32_unchecked b"
  have l: "length ?a \<le> length a" "length ?b \<le> length b" by (rule length_utf32)+
  define x y where "x = (if length a > length b then b else a)" and "y = (if length a > length b then a else b)"
  define rest where "rest = (drop (length (str_to_utf32_unchecked x) + length (str_to_utf32_unchecked y))
    (replicate (2 * (length a + 1 + length b + 1)) (0 :: int)))[0 := 0]"
  have "str_utf8_dist a b = str_utf32_dist_buffer (str_to_utf32_unchecked x) (str_to_utf32_unchecked y) rest"
    by (simp add: str_utf8_dist_def str_utf8_dist_buffer_def x_def y_def rest_def Let_def)
  moreover have "length (str_to_utf32_unchecked x) + length (str_to_utf32_unchecked y) + 2 \<le> length rest"
    using l by (auto simp: rest_def x_def y_def)
  ultimately obtain d where "str_utf8_dist a b = Inr d"
    "distance d (str_to_utf32_unchecked x) (str_to_utf32_unchecked y)"
    using * by metis
  then show ?thesis by (auto simp: x_def y_def split: if_splits intro: distance_swap)
qed

end
