(* ===== verification/Packer.thy ===== *)
theory Packer
  imports Prelude VarInt Utf8 Str Utf8Text
begin

text \<open>
  \<open>CAbstractPacker\<close> and \<open>CUnpacker\<close> (src/src/engine/shared/packer.h and packer.cpp), with the
  big-endian helpers and \<open>swap_endian\<close> of src/src/base/bytes.cpp. A packer is its buffer size, the
  bytes between \<open>m_pBuffer\<close> and \<open>m_pCurrent\<close> and the error flag; writing a byte is appending it,
  so a write behind the buffer is a list longer than \<open>m_BufferSize\<close>. An unpacker is the whole
  buffer (\<open>GetString\<close> sanitizes in place), the offset of \<open>m_pCurrent\<close> and the error flag.
\<close>

subsection \<open>Bytes\<close>

fun swap_loop :: "bytes \<Rightarrow> nat \<Rightarrow> nat \<Rightarrow> nat \<Rightarrow> bytes" where
  "swap_loop mem src dst 0 = mem"
| "swap_loop mem src dst (Suc n) =
     swap_loop (mem[src := mem ! dst, dst := mem ! src]) (src + 1) (dst - 1) n"

fun swap_endian_loop :: "bytes \<Rightarrow> nat \<Rightarrow> nat \<Rightarrow> nat \<Rightarrow> nat \<Rightarrow> bytes" where
  "swap_endian_loop mem src dst elem_size 0 = mem"
| "swap_endian_loop mem src dst elem_size (Suc num) =
     (let n = elem_size div 2;
          mem' = swap_loop mem src dst n;
          src' = src + n + elem_size div 2
      in swap_endian_loop mem' src' (src' + (elem_size - 1)) elem_size num)"

definition swap_endian :: "bytes \<Rightarrow> nat \<Rightarrow> nat \<Rightarrow> bytes" where
  "swap_endian data elem_size num = swap_endian_loop data 0 (elem_size - 1) elem_size num"

definition bytes_be_to_uint :: "bytes \<Rightarrow> 32 word" where
  "bytes_be_to_uint bs =
     push_bit 24 (ucast (bs ! 0)) OR push_bit 16 (ucast (bs ! 1)) OR
     push_bit 8 (ucast (bs ! 2)) OR ucast (bs ! 3)"

definition uint_to_bytes_be :: "32 word \<Rightarrow> bytes" where
  "uint_to_bytes_be v =
     [ucast (drop_bit 24 v), ucast (drop_bit 16 v), ucast (drop_bit 8 v), ucast v]"

subsection \<open>The packer\<close>

record packer =
  m_BufferSize :: nat
  m_Packed :: bytes
  m_PackError :: bool

definition PACKER_BUFFER_SIZE :: nat where
  "PACKER_BUFFER_SIZE = 1024 * 2"

definition packer_Reset :: "packer \<Rightarrow> packer" where
  "packer_Reset p = p\<lparr>m_PackError := False, m_Packed := []\<rparr>"

definition packer_Size :: "packer \<Rightarrow> nat" where
  "packer_Size p = length (m_Packed p)"

definition AddInt :: "packer \<Rightarrow> int \<Rightarrow> packer" where
  "AddInt p i =
     (if m_PackError p then p
      else case Pack i (int (m_BufferSize p) - int (length (m_Packed p))) of
             None \<Rightarrow> p\<lparr>m_PackError := True\<rparr>
           | Some bs \<Rightarrow> p\<lparr>m_Packed := m_Packed p @ bs\<rparr>)"

function add_string_loop :: "nat \<Rightarrow> bool \<Rightarrow> bytes \<Rightarrow> int \<Rightarrow> bytes \<Rightarrow> bytes option" where
  "add_string_loop bsize allow_truncation str limit out =
     (if str = [] then Some out
      else let (cp, r) = str_utf8_decode str;
               Codepoint = (if cp = - 1 then 0xFFFD else cp);
               aEncoded = str_utf8_encode Codepoint
           in if limit < int (length aEncoded) then (if allow_truncation then Some out else None)
              else if length out + length aEncoded + 1 > bsize then None
              else add_string_loop bsize allow_truncation r (limit - int (length aEncoded)) (out @ aEncoded))"
  by pat_completeness auto
termination
  by (relation "measure (\<lambda>(n, a, s, l, out). length s)") (auto simp: decode_rest_less)

declare add_string_loop.simps [simp del]

definition AddString :: "packer \<Rightarrow> bytes \<Rightarrow> int \<Rightarrow> bool \<Rightarrow> packer" where
  "AddString p pStr Limit AllowTruncation =
     (if m_PackError p then p
      else let limit = (if Limit \<le> 0 then int (m_BufferSize p) else Limit)
           in case add_string_loop (m_BufferSize p) AllowTruncation pStr limit (m_Packed p) of
                None \<Rightarrow> p\<lparr>m_PackError := True\<rparr>
              | Some out \<Rightarrow> p\<lparr>m_Packed := out @ [0]\<rparr>)"

definition AddRaw :: "packer \<Rightarrow> bytes \<Rightarrow> packer" where
  "AddRaw p raw =
     (if m_PackError p then p
      else if length (m_Packed p) + length raw > m_BufferSize p then p\<lparr>m_PackError := True\<rparr>
      else p\<lparr>m_Packed := m_Packed p @ raw\<rparr>)"

subsection \<open>The unpacker\<close>

record unpacker =
  m_Buf :: bytes
  m_Pos :: nat
  m_UnpackError :: bool

definition unpacker_Reset :: "bytes \<Rightarrow> unpacker" where
  "unpacker_Reset raw = \<lparr>m_Buf = raw, m_Pos = 0, m_UnpackError = False\<rparr>"

definition set_error :: "unpacker \<Rightarrow> unpacker" where
  "set_error u = u\<lparr>m_UnpackError := True\<rparr>"

definition GetInt :: "unpacker \<Rightarrow> int \<times> unpacker" where
  "GetInt u =
     (if m_UnpackError u then (0, u)
      else if m_Pos u \<ge> length (m_Buf u) then (0, set_error u)
      else case Unpack (drop (m_Pos u) (m_Buf u)) of
             None \<Rightarrow> (0, set_error u)
           | Some (i, rest) \<Rightarrow> (i, u\<lparr>m_Pos := length (m_Buf u) - length rest\<rparr>))"

definition GetIntOrDefault :: "unpacker \<Rightarrow> int \<Rightarrow> int \<times> unpacker" where
  "GetIntOrDefault u Default =
     (if m_UnpackError u then (0, u)
      else if m_Pos u = length (m_Buf u) then (Default, u)
      else GetInt u)"

text \<open>The bytes of an \<open>int\<close> in memory, least significant first.\<close>

definition int_of_bytes_le :: "bytes \<Rightarrow> int" where
  "int_of_bytes_le bs = to_i32 (uint (bs ! 0) + uint (bs ! 1) * 256 + uint (bs ! 2) * 65536 + uint (bs ! 3) * 16777216)"

definition GetUncompressedInt :: "unpacker \<Rightarrow> int \<times> unpacker" where
  "GetUncompressedInt u =
     (if m_UnpackError u then (0, u)
      else if m_Pos u + 4 > length (m_Buf u) then (0, set_error u)
      else (int_of_bytes_le (drop (m_Pos u) (m_Buf u)), u\<lparr>m_Pos := m_Pos u + 4\<rparr>))"

definition GetUncompressedIntOrDefault :: "unpacker \<Rightarrow> int \<Rightarrow> int \<times> unpacker" where
  "GetUncompressedIntOrDefault u Default =
     (if m_UnpackError u then (0, u)
      else if m_Pos u = length (m_Buf u) then (Default, u)
      else GetUncompressedInt u)"

text \<open>
  The loop of \<open>GetString\<close> that looks for the terminating zero; reaching \<open>m_pEnd\<close> is \<open>None\<close>.
\<close>

fun scan_string :: "bytes \<Rightarrow> bytes option" where
  "scan_string [] = None"
| "scan_string (c # r) = (if c = 0 then Some [] else map_option ((#) c) (scan_string r))"

definition SANITIZE :: int where "SANITIZE = 1"
definition SANITIZE_CC :: int where "SANITIZE_CC = 2"
definition SKIP_START_WHITESPACES :: int where "SKIP_START_WHITESPACES = 4"

definition apply_sanitize :: "int \<Rightarrow> bytes \<Rightarrow> bytes" where
  "apply_sanitize SanitizeType s =
     (if SanitizeType AND SANITIZE \<noteq> 0 then str_sanitize s
      else if SanitizeType AND SANITIZE_CC \<noteq> 0 then str_sanitize_cc s
      else s)"

definition GetString :: "unpacker \<Rightarrow> int \<Rightarrow> bytes \<times> unpacker" where
  "GetString u SanitizeType =
     (if m_UnpackError u then ([], u)
      else if m_Pos u \<ge> length (m_Buf u) then ([], set_error u)
      else case scan_string (drop (m_Pos u) (m_Buf u)) of
             None \<Rightarrow> ([], set_error (u\<lparr>m_Pos := length (m_Buf u)\<rparr>))
           | Some s \<Rightarrow>
               let u' = u\<lparr>m_Pos := m_Pos u + length s + 1\<rparr> in
               if \<not> str_utf8_check s then ([], set_error u')
               else let s' = apply_sanitize SanitizeType s;
                        buf' = take (m_Pos u) (m_Buf u) @ s' @ drop (m_Pos u + length s) (m_Buf u)
                    in (if SanitizeType AND SKIP_START_WHITESPACES \<noteq> 0
                        then str_utf8_skip_whitespaces s' else s', u'\<lparr>m_Buf := buf'\<rparr>))"

definition GetRaw :: "unpacker \<Rightarrow> int \<Rightarrow> bytes option \<times> unpacker" where
  "GetRaw u Size =
     (if m_UnpackError u then (None, u)
      else if Size < 0 \<or> int (m_Pos u) + Size > int (length (m_Buf u)) then (None, set_error u)
      else (Some (take (nat Size) (drop (m_Pos u) (m_Buf u))), u\<lparr>m_Pos := m_Pos u + nat Size\<rparr>))"

definition CompleteSize :: "unpacker \<Rightarrow> nat" where
  "CompleteSize u = length (m_Buf u)"

subsection \<open>Sanitizing keeps UTF-8 valid\<close>

lemma encode_high:
  assumes "scalar_value c"
  obtains "str_utf8_encode c = [of_int c]" "c < 128" "0 < c"
  | "128 \<le> c" "\<forall>b \<in> set (str_utf8_encode c). 128 \<le> uint b" "str_utf8_encode c \<noteq> []"
  using assms
proof (cases rule: encode_cases)
  case (one b0)
  then have "str_utf8_encode c = [of_int c]" by auto
  with one assms that(1) show ?thesis by (auto simp: scalar_value_def)
next
  case two
  with that(2) show ?thesis by auto
next
  case three
  then have "128 \<le> c" by auto
  with three that(2) show ?thesis by auto
next
  case (four b d e f)
  then have "128 \<le> c" by auto
  with four that(2) show ?thesis by auto
qed

lemma str_sanitize_map:
  "str_sanitize s = map (\<lambda>c. if c < 32 \<and> \<not> c = 0x0D \<and> \<not> c = 0x0A \<and> \<not> c = 0x09 then 0x20 else c) s"
  by (induction s) auto

lemma str_sanitize_cc_map: "str_sanitize_cc s = map (\<lambda>c. if c < 32 then 0x20 else c) s"
  by (induction s) auto

lemma length_sanitize [simp]: "length (apply_sanitize t s) = length s"
  by (auto simp: apply_sanitize_def str_sanitize_map str_sanitize_cc_map)

text \<open>Replacing bytes below 32 by spaces replaces characters below 32 by spaces.\<close>

lemma map_low_encode_all:
  assumes "\<forall>c \<in> set cs. scalar_value c" "\<And>b. 32 \<le> uint b \<Longrightarrow> g b = b"
    "\<And>b. uint b < 32 \<Longrightarrow> g b = b \<or> g b = (0x20 :: byte)"
  shows "\<exists>ds. (\<forall>c \<in> set ds. scalar_value c) \<and> map g (encode_all cs) = encode_all ds"
  using assms(1)
proof (induction cs)
  case Nil
  then show ?case by (intro exI [of _ "[]"]) simp
next
  case (Cons c cs)
  then obtain ds where ds: "\<forall>c \<in> set ds. scalar_value c" "map g (encode_all cs) = encode_all ds" by auto
  have c: "scalar_value c" using Cons.prems by simp
  show ?case
    using c
  proof (cases rule: encode_high)
    case 1
    then have u: "uint (of_int c :: byte) = c" by (simp add: uint_byte_of_int)
    have sp: "scalar_value 0x20" "str_utf8_encode 0x20 = [0x20]"
      by (simp_all add: scalar_value_def str_utf8_encode_def)
    show ?thesis
    proof (cases "g (of_int c) = of_int c")
      case True
      with 1 ds c show ?thesis by (intro exI [of _ "c # ds"]) simp
    next
      case False
      then have "g (of_int c) = 0x20" using assms(2,3) [of "of_int c"] by (cases "c < 32") (auto simp: u)
      with 1 ds sp show ?thesis by (intro exI [of _ "0x20 # ds"]) simp
    qed
  next
    case 2
    then have "map g (str_utf8_encode c) = str_utf8_encode c"
      using assms(2) by (intro map_idI) fastforce
    with ds c show ?thesis by (intro exI [of _ "c # ds"]) simp
  qed
qed

lemma sanitize_valid:
  assumes "cstring s" "str_utf8_check s"
  shows "str_utf8_check (apply_sanitize t s) \<and> cstring (apply_sanitize t s)"
proof -
  from check_sound [OF assms(2,1)] obtain cs where cs: "\<forall>c \<in> set cs. scalar_value c"
    and s: "s = encode_all cs" by blast
  have lt: "c < 32 \<longleftrightarrow> uint c < 32" for c :: byte by (simp add: word_less_def)
  have "\<exists>ds. (\<forall>c \<in> set ds. scalar_value c) \<and> str_sanitize s = encode_all ds"
    unfolding s str_sanitize_map by (rule map_low_encode_all [OF cs]) (auto simp: lt)
  moreover have "\<exists>ds. (\<forall>c \<in> set ds. scalar_value c) \<and> str_sanitize_cc s = encode_all ds"
    unfolding s str_sanitize_cc_map by (rule map_low_encode_all [OF cs]) (auto simp: lt)
  moreover have "cstring (str_sanitize s)" "cstring (str_sanitize_cc s)"
    using assms(1) by (auto simp: cstring_def str_sanitize_map str_sanitize_cc_map)
  ultimately show ?thesis using assms by (auto simp: apply_sanitize_def intro!: check_encode_all)
qed

lemma skip_whitespaces_encode:
  "\<forall>c \<in> set cs. scalar_value c \<Longrightarrow>
   str_utf8_skip_whitespaces (encode_all cs) = encode_all (dropWhile str_utf8_isspace cs)"
proof (induction cs)
  case Nil
  then show ?case by (simp add: str_utf8_skip_whitespaces.simps)
next
  case (Cons c cs)
  then have "scalar_value c" by simp
  then have "str_utf8_decode (encode_all (c # cs)) = (c, encode_all cs)" "encode_all (c # cs) \<noteq> []"
    using str_utf8_decode_encode encode_pos by force+
  then have "str_utf8_skip_whitespaces (encode_all (c # cs)) =
      (if str_utf8_isspace c then str_utf8_skip_whitespaces (encode_all cs) else encode_all (c # cs))"
    by (subst str_utf8_skip_whitespaces.simps)
       (simp only: Let_def prod.case if_False if_True not_not split: if_splits, simp)
  with Cons show ?case by simp
qed

lemma skip_whitespaces_valid:
  assumes "cstring s" "str_utf8_check s"
  shows "str_utf8_check (str_utf8_skip_whitespaces s) \<and> cstring (str_utf8_skip_whitespaces s) \<and>
    set (str_utf8_skip_whitespaces s) \<subseteq> set s"
proof -
  from check_sound [OF assms(2,1)] obtain cs where cs: "\<forall>c \<in> set cs. scalar_value c"
    and s: "s = encode_all cs" by blast
  let ?ds = "dropWhile str_utf8_isspace cs"
  have "\<forall>c \<in> set ?ds. scalar_value c" using cs by (meson set_dropWhileD)
  moreover have "set (encode_all ?ds) \<subseteq> set s"
    unfolding s by (auto simp: encode_all_def dest: set_dropWhileD)
  ultimately show ?thesis
    using assms(1) skip_whitespaces_encode [OF cs] check_encode_all
    by (auto simp: s cstring_def)
qed

lemma sanitize_clean:
  "odd t \<Longrightarrow> \<forall>c \<in> set (apply_sanitize t s). 32 \<le> c \<or> c = 0x0D \<or> c = 0x0A \<or> c = 0x09"
  by (auto simp: apply_sanitize_def SANITIZE_def str_sanitize_map bit_arith even_iff_mod_2_eq_zero
      word_le_def word_less_def)

subsection \<open>The unpacker on arbitrary bytes\<close>

lemma scan_string_Some: "scan_string r = Some s \<longleftrightarrow> (\<exists>t. r = s @ 0 # t \<and> cstring s)"
proof (induction r arbitrary: s)
  case (Cons c r)
  show ?case
  proof (cases "c = 0")
    case True
    then show ?thesis by (cases s) auto
  next
    case False
    with Cons show ?thesis by (cases s) auto
  qed
qed auto

definition unpacker_ok :: "unpacker \<Rightarrow> bool" where
  "unpacker_ok u \<longleftrightarrow> m_Pos u \<le> length (m_Buf u)"

datatype get_op = OInt | OIntDef int | OUInt | OUIntDef int | OString int | ORaw int

datatype got = GInt int | GString bytes | GRaw "bytes option"

fun get :: "get_op \<Rightarrow> unpacker \<Rightarrow> got \<times> unpacker" where
  "get OInt u = map_prod GInt id (GetInt u)"
| "get (OIntDef d) u = map_prod GInt id (GetIntOrDefault u d)"
| "get OUInt u = map_prod GInt id (GetUncompressedInt u)"
| "get (OUIntDef d) u = map_prod GInt id (GetUncompressedIntOrDefault u d)"
| "get (OString t) u = map_prod GString id (GetString u t)"
| "get (ORaw n) u = map_prod GRaw id (GetRaw u n)"

fun get_all :: "get_op list \<Rightarrow> unpacker \<Rightarrow> got list \<times> unpacker" where
  "get_all [] u = ([], u)"
| "get_all (op # ops) u = (let (g, u') = get op u; (gs, u'') = get_all ops u' in (g # gs, u''))"

text \<open>What may be relied on for a value read: its type's range, and for a string the checks.\<close>

fun got_ok :: "get_op \<Rightarrow> got \<Rightarrow> bool" where
  "got_ok OInt (GInt i) = in_i32 i"
| "got_ok (OIntDef d) (GInt i) = (in_i32 i \<or> i = d)"
| "got_ok OUInt (GInt i) = in_i32 i"
| "got_ok (OUIntDef d) (GInt i) = (in_i32 i \<or> i = d)"
| "got_ok (OString t) (GString s) =
     (cstring s \<and> str_utf8_check s \<and>
      (odd t \<longrightarrow> (\<forall>c \<in> set s. 32 \<le> c \<or> c = 0x0D \<or> c = 0x0A \<or> c = 0x09)))"
| "got_ok (ORaw n) (GRaw r) = (case r of None \<Rightarrow> True | Some bs \<Rightarrow> int (length bs) = n)"
| "got_ok _ _ = False"

text \<open>A step of the unpacker: it goes forward inside the same buffer and errors stay.\<close>

definition unpacker_step :: "unpacker \<Rightarrow> unpacker \<Rightarrow> bool" where
  "unpacker_step u u' \<longleftrightarrow>
     unpacker_ok u' \<and> length (m_Buf u') = length (m_Buf u) \<and> m_Pos u \<le> m_Pos u' \<and>
     drop (m_Pos u') (m_Buf u') = drop (m_Pos u') (m_Buf u) \<and>
     (m_UnpackError u \<longrightarrow> u' = u)"

lemma unpacker_step_refl: "unpacker_ok u \<Longrightarrow> unpacker_step u u"
  by (simp add: unpacker_step_def)

lemma unpacker_step_error: "unpacker_ok u \<Longrightarrow> \<not> m_UnpackError u \<Longrightarrow> unpacker_step u (set_error u)"
  by (simp add: unpacker_step_def unpacker_ok_def set_error_def)

lemma in_i32_0 [simp]: "in_i32 0"
  by (simp add: in_i32_def)

lemma GetInt_step:
  assumes "unpacker_ok u" "GetInt u = (i, u')"
  shows "in_i32 i \<and> unpacker_step u u'"
proof (cases "m_UnpackError u \<or> m_Pos u \<ge> length (m_Buf u)")
  case True
  with assms show ?thesis
    by (auto simp: GetInt_def unpacker_step_refl unpacker_step_error split: if_splits)
next
  case False
  show ?thesis
  proof (cases "Unpack (drop (m_Pos u) (m_Buf u))")
    case None
    with assms False show ?thesis by (auto simp: GetInt_def unpacker_step_error)
  next
    case (Some r)
    then obtain v rest where r: "Unpack (drop (m_Pos u) (m_Buf u)) = Some (v, rest)" by (cases r) auto
    from Unpack_bounds [OF this] obtain w where w: "drop (m_Pos u) (m_Buf u) = w @ rest" "in_i32 v" by auto
    have "length (m_Buf u) - m_Pos u = length w + length rest"
      using arg_cong [OF w(1), of length] by simp
    then have "unpacker_step u (u\<lparr>m_Pos := length (m_Buf u) - length rest\<rparr>)"
      using False by (auto simp: unpacker_step_def unpacker_ok_def)
    with assms False r w(2) show ?thesis by (auto simp: GetInt_def)
  qed
qed

lemma GetUncompressedInt_step:
  assumes "unpacker_ok u" "GetUncompressedInt u = (i, u')"
  shows "in_i32 i \<and> unpacker_step u u'"
  using assms
  by (auto simp: GetUncompressedInt_def int_of_bytes_le_def unpacker_step_refl unpacker_step_error
      unpacker_step_def [of u "u\<lparr>m_Pos := x\<rparr>" for x] unpacker_ok_def split: if_splits)

lemma GetString_step:
  assumes "unpacker_ok u" "GetString u t = (s, u')"
  shows "got_ok (OString t) (GString s) \<and> unpacker_step u u'"
proof (cases "m_UnpackError u \<or> m_Pos u \<ge> length (m_Buf u)")
  case True
  with assms show ?thesis
    by (auto simp: GetString_def unpacker_step_refl unpacker_step_error split: if_splits)
next
  case False
  show ?thesis
  proof (cases "scan_string (drop (m_Pos u) (m_Buf u))")
    case None
    with assms False show ?thesis
      by (auto simp: GetString_def unpacker_step_def unpacker_ok_def set_error_def)
  next
    case (Some r)
    then obtain rest where r: "drop (m_Pos u) (m_Buf u) = r @ 0 # rest" "cstring r"
      by (auto simp: scan_string_Some)
    have len: "length (m_Buf u) = m_Pos u + length r + 1 + length rest"
      using arg_cong [OF r(1), of length] False by simp
    show ?thesis
    proof (cases "str_utf8_check r")
      case False
      with assms Some \<open>\<not> (m_UnpackError u \<or> m_Pos u \<ge> length (m_Buf u))\<close> len show ?thesis
        by (auto simp: GetString_def unpacker_step_def unpacker_ok_def set_error_def)
    next
      case True
      let ?s = "apply_sanitize t r"
      have s: "str_utf8_check ?s" "cstring ?s" using sanitize_valid [OF r(2) True] by auto
      have "got_ok (OString t) (GString ?s)" using s sanitize_clean by auto
      moreover have "got_ok (OString t) (GString (str_utf8_skip_whitespaces ?s))"
        using s sanitize_clean [of t r] skip_whitespaces_valid [of ?s] by fastforce
      moreover have "unpacker_step u (u\<lparr>m_Pos := m_Pos u + length r + 1,
          m_Buf := take (m_Pos u) (m_Buf u) @ ?s @ drop (m_Pos u + length r) (m_Buf u)\<rparr>)"
        using len False \<open>\<not> (m_UnpackError u \<or> m_Pos u \<ge> length (m_Buf u))\<close>
        by (simp add: unpacker_step_def unpacker_ok_def)
      ultimately show ?thesis
        using assms(2) Some True \<open>\<not> (m_UnpackError u \<or> m_Pos u \<ge> length (m_Buf u))\<close>
        by (auto simp: GetString_def Let_def split: if_splits)
    qed
  qed
qed

lemma GetRaw_step:
  assumes "unpacker_ok u" "GetRaw u n = (r, u')"
  shows "got_ok (ORaw n) (GRaw r) \<and> unpacker_step u u'"
  using assms
  by (auto simp: GetRaw_def unpacker_step_refl unpacker_step_error
      unpacker_step_def [of u "u\<lparr>m_Pos := x\<rparr>" for x] unpacker_ok_def split: if_splits)

lemma get_step: "unpacker_ok u \<Longrightarrow> get op u = (g, u') \<Longrightarrow> got_ok op g \<and> unpacker_step u u'"
proof (cases op)
  case OInt
  moreover assume "unpacker_ok u" "get op u = (g, u')"
  ultimately show ?thesis using GetInt_step [of u] by (cases "GetInt u") auto
next
  case (OIntDef d)
  moreover assume "unpacker_ok u" "get op u = (g, u')"
  ultimately show ?thesis using GetInt_step [of u] unpacker_step_refl [of u]
    by (cases "GetInt u") (auto simp: GetIntOrDefault_def split: if_splits)
next
  case OUInt
  moreover assume "unpacker_ok u" "get op u = (g, u')"
  ultimately show ?thesis using GetUncompressedInt_step [of u] by (cases "GetUncompressedInt u") auto
next
  case (OUIntDef d)
  moreover assume "unpacker_ok u" "get op u = (g, u')"
  ultimately show ?thesis using GetUncompressedInt_step [of u] unpacker_step_refl [of u]
    by (cases "GetUncompressedInt u") (auto simp: GetUncompressedIntOrDefault_def split: if_splits)
next
  case (OString t)
  moreover assume "unpacker_ok u" "get op u = (g, u')"
  ultimately show ?thesis using GetString_step [of u t] by (cases "GetString u t") auto
next
  case (ORaw n)
  moreover assume "unpacker_ok u" "get op u = (g, u')"
  ultimately show ?thesis using GetRaw_step [of u n] by (cases "GetRaw u n") auto
qed

lemma unpacker_step_trans: "unpacker_step u v \<Longrightarrow> unpacker_step v w \<Longrightarrow> unpacker_step u w"
proof -
  assume a: "unpacker_step u v" "unpacker_step v w"
  then have le: "m_Pos v \<le> m_Pos w" and eq: "drop (m_Pos v) (m_Buf v) = drop (m_Pos v) (m_Buf u)"
    by (simp_all add: unpacker_step_def)
  have "drop (m_Pos w) xs = drop (m_Pos w - m_Pos v) (drop (m_Pos v) xs)" for xs :: bytes
    using le by simp
  then have "drop (m_Pos w) (m_Buf v) = drop (m_Pos w) (m_Buf u)"
    by (simp only: eq)
  with a show ?thesis by (auto simp: unpacker_step_def)
qed

lemma get_all_steps:
  "unpacker_ok u \<Longrightarrow> get_all ops u = (gs, u') \<Longrightarrow> list_all2 got_ok ops gs \<and> unpacker_step u u'"
proof (induction ops u arbitrary: gs rule: get_all.induct)
  case (1 u)
  then show ?case by (auto simp: unpacker_step_refl)
next
  case (2 op ops u)
  obtain g v where g: "get op u = (g, v)" by fastforce
  obtain hs w where h: "get_all ops v = (hs, w)" by fastforce
  have "got_ok op g \<and> unpacker_step u v" by (rule get_step [OF "2.prems"(1) g])
  moreover from this have "unpacker_ok v" by (simp add: unpacker_step_def)
  ultimately show ?case
    using "2.IH" [OF g [symmetric] refl, of hs] h "2.prems"(2) g h unpacker_step_trans by auto
qed

subsection \<open>The packer\<close>

lemma decode_loop_set: "set (snd (utf8_decode_loop l u cp n k s)) \<subseteq> set s"
  by (induction l u cp n k s rule: utf8_decode_loop.induct) (auto simp: Let_def)

lemma decode_set: "str_utf8_decode s = (c, r) \<Longrightarrow> set r \<subseteq> set s"
proof (cases s)
  case (Cons b t)
  have "set y \<subseteq> set s" if "utf8_decode_loop l u cp n k t = (x, y)" for l u cp n k x y
    using decode_loop_set [of l u cp n k t] Cons that by auto
  moreover have "set t \<subseteq> set s" using Cons by auto
  moreover assume "str_utf8_decode s = (c, r)"
  ultimately show ?thesis using Cons
    unfolding str_utf8_decode_def str_byte_next_def Let_def list.case prod.case
    by (simp only: list.case prod.case split: if_splits) (metis prod.inject)+
qed (auto simp: str_utf8_decode_def str_byte_next_def)

lemma decode_scalar:
  assumes "cstring s" "s \<noteq> []" "str_utf8_decode s = (c, r)"
  shows "scalar_value (if c = - 1 then 0xFFFD else c) \<and> cstring r \<and> length r < length s"
proof -
  have "hd s \<noteq> 0" using assms(1,2) by (cases s) auto
  then have "c = - 1 \<or> scalar_value c" using str_utf8_decode_sound [OF assms(3,2)] by auto
  moreover have "set r \<subseteq> set s" by (rule decode_set [OF assms(3)])
  ultimately show ?thesis
    using assms(1) str_utf8_decode_length [OF assms(2)] assms(3)
    by (auto simp: scalar_value_def cstring_def)
qed

text \<open>What the loop appends, whatever the bytes of the string.\<close>

lemma add_string_loop_valid:
  assumes "cstring str" "add_string_loop bsize a str limit out = Some out'" "0 \<le> limit"
  shows "\<exists>cs. out' = out @ encode_all cs \<and> (\<forall>c \<in> set cs. scalar_value c) \<and>
    int (length (encode_all cs)) \<le> limit \<and> (cs \<noteq> [] \<longrightarrow> length out' + 1 \<le> bsize)"
  using assms
proof (induction bsize a str limit out rule: add_string_loop.induct)
  case (1 bsize a str limit out)
  show ?case
  proof (cases "str = []")
    case True
    with "1.prems" show ?thesis by (auto simp: add_string_loop.simps intro: exI [of _ "[]"])
  next
    case False
    obtain c r where d: "str_utf8_decode str = (c, r)" by fastforce
    let ?c = "if c = - 1 then 0xFFFD else c"
    let ?e = "str_utf8_encode ?c"
    have sc: "scalar_value ?c" "cstring r" using decode_scalar [OF "1.prems"(1) False d] by auto
    consider "limit < int (length ?e)" "out' = out"
      | "\<not> limit < int (length ?e)" "\<not> length out + length ?e + 1 > bsize"
        "add_string_loop bsize a r (limit - int (length ?e)) (out @ ?e) = Some out'"
      using "1.prems"(2) False d by (subst (asm) add_string_loop.simps) (auto simp: Let_def split: if_splits)
    then show ?thesis
    proof cases
      case 1
      then show ?thesis using \<open>0 \<le> limit\<close> by (intro exI [of _ "[]"]) simp
    next
      case 2
      obtain cs where cs: "out' = (out @ ?e) @ encode_all cs" "\<forall>c \<in> set cs. scalar_value c"
        "int (length (encode_all cs)) \<le> limit - int (length ?e)" "cs \<noteq> [] \<longrightarrow> length out' + 1 \<le> bsize"
        using "1.IH" [OF False d [symmetric] refl refl refl 2(1,2) sc(2) 2(3)] 2(1) by auto
      have "length out' + 1 \<le> bsize" using cs 2(2) by (cases cs) auto
      with cs sc(1) show ?thesis by (intro exI [of _ "?c # cs"]) simp
    qed
  qed
qed

text \<open>A valid string that fits is appended as it is.\<close>

lemma add_string_loop_fits:
  assumes "\<forall>c \<in> set cs. scalar_value c" "length out + length (encode_all cs) + 1 \<le> bsize"
    "int (length (encode_all cs)) \<le> limit"
  shows "add_string_loop bsize a (encode_all cs) limit out = Some (out @ encode_all cs)"
  using assms
proof (induction cs arbitrary: out limit)
  case Nil
  then show ?case by (simp add: add_string_loop.simps)
next
  case (Cons c cs)
  have c: "scalar_value c" using Cons.prems by simp
  have "c \<noteq> - 1" "encode_all (c # cs) \<noteq> []" using c encode_pos [OF c] by (auto simp: scalar_value_def)
  moreover have "str_utf8_decode (encode_all (c # cs)) = (c, encode_all cs)"
    using str_utf8_decode_encode [OF c] by simp
  ultimately have "add_string_loop bsize a (encode_all (c # cs)) limit out =
      add_string_loop bsize a (encode_all cs) (limit - int (length (str_utf8_encode c))) (out @ str_utf8_encode c)"
    using Cons.prems(2,3)
    by (subst add_string_loop.simps) (simp only: Let_def prod.case if_False, simp)
  also have "\<dots> = Some ((out @ str_utf8_encode c) @ encode_all cs)"
    using Cons.prems by (intro Cons.IH) auto
  finally show ?case by simp
qed

datatype field = FInt int | FString bytes | FRaw bytes

fun put :: "packer \<Rightarrow> field \<Rightarrow> packer" where
  "put p (FInt i) = AddInt p i"
| "put p (FString s) = AddString p s 0 True"
| "put p (FRaw r) = AddRaw p r"

fun field_bytes :: "field \<Rightarrow> bytes" where
  "field_bytes (FInt i) = (case Pack i 5 of None \<Rightarrow> [] | Some bs \<Rightarrow> bs)"
| "field_bytes (FString s) = s @ [0]"
| "field_bytes (FRaw r) = r"

text \<open>A text field is a C string of valid UTF-8 without control characters.\<close>

fun field_ok :: "field \<Rightarrow> bool" where
  "field_ok (FInt i) = in_i32 i"
| "field_ok (FString s) = (cstring s \<and> str_utf8_check s \<and>
     (\<forall>c \<in> set s. 32 \<le> c \<or> c = 0x0D \<or> c = 0x0A \<or> c = 0x09))"
| "field_ok (FRaw r) = True"

fun field_op :: "field \<Rightarrow> get_op" where
  "field_op (FInt i) = OInt"
| "field_op (FString s) = OString SANITIZE"
| "field_op (FRaw r) = ORaw (int (length r))"

fun field_got :: "field \<Rightarrow> got" where
  "field_got (FInt i) = GInt i"
| "field_got (FString s) = GString s"
| "field_got (FRaw r) = GRaw (Some r)"

lemma field_int_bytes:
  assumes "in_i32 i"
  shows "Pack i sz = (if int (length (field_bytes (FInt i))) \<le> sz then Some (field_bytes (FInt i)) else None)"
    and "field_bytes (FInt i) \<noteq> []"
    and "Unpack (field_bytes (FInt i) @ rest) = Some (i, rest)"
proof -
  from Pack_total [OF assms] obtain bs where bs: "length bs \<le> MAX_BYTES_PACKED" "bs \<noteq> []"
    "\<And>sz. Pack i sz = (if int (length bs) \<le> sz then Some bs else None)" by blast
  then have p: "Pack i 5 = Some bs" by (simp add: MAX_BYTES_PACKED_def)
  with bs show "Pack i sz = (if int (length (field_bytes (FInt i))) \<le> sz then Some (field_bytes (FInt i)) else None)"
    and "field_bytes (FInt i) \<noteq> []" by auto
  show "Unpack (field_bytes (FInt i) @ rest) = Some (i, rest)"
    using Unpack_Pack [OF assms p] p by simp
qed

lemma put_fits:
  assumes "field_ok f" "\<not> m_PackError p" "length (m_Packed p) + length (field_bytes f) \<le> m_BufferSize p"
  shows "put p f = p\<lparr>m_Packed := m_Packed p @ field_bytes f\<rparr>"
proof (cases f)
  case (FInt i)
  with assms field_int_bytes(1) [of i] show ?thesis
    by (simp add: AddInt_def del: field_bytes.simps)
next
  case (FString s)
  with assms(1) have "cstring s" "str_utf8_check s" by auto
  from check_sound [OF this(2,1)] obtain cs where "\<forall>c \<in> set cs. scalar_value c" "s = encode_all cs" by blast
  then have "add_string_loop (m_BufferSize p) True s (int (m_BufferSize p)) (m_Packed p) = Some (m_Packed p @ s)"
    using assms(3) FString by (auto intro: add_string_loop_fits)
  with assms(2) FString show ?thesis by (simp add: AddString_def)
next
  case (FRaw r)
  with assms show ?thesis by (simp add: AddRaw_def)
qed

lemma put_all_fits:
  assumes "\<forall>f \<in> set fs. field_ok f" "\<not> m_PackError p"
    "length (m_Packed p) + length (concat (map field_bytes fs)) \<le> m_BufferSize p"
  shows "foldl put p fs = p\<lparr>m_Packed := m_Packed p @ concat (map field_bytes fs)\<rparr>"
  using assms
proof (induction fs arbitrary: p)
  case (Cons f fs)
  then have "put p f = p\<lparr>m_Packed := m_Packed p @ field_bytes f\<rparr>" by (intro put_fits) auto
  with Cons show ?case by simp
qed simp

lemma sanitize_id: "\<forall>c \<in> set s. 32 \<le> c \<or> c = 0x0D \<or> c = 0x0A \<or> c = 0x09 \<Longrightarrow> apply_sanitize SANITIZE s = s"
  by (auto simp: apply_sanitize_def SANITIZE_def str_sanitize_map linorder_not_less [symmetric] intro!: map_idI)

lemma get_field:
  assumes "field_ok f"
  shows "get (field_op f) \<lparr>m_Buf = pre @ field_bytes f @ rest, m_Pos = length pre, m_UnpackError = False\<rparr> =
    (field_got f, \<lparr>m_Buf = pre @ field_bytes f @ rest, m_Pos = length (pre @ field_bytes f), m_UnpackError = False\<rparr>)"
proof (cases f)
  case (FInt i)
  with assms have i: "in_i32 i" by simp
  show ?thesis
    using FInt field_int_bytes(2,3) [OF i] by (simp add: GetInt_def del: field_bytes.simps)
next
  case (FString s)
  with assms have "scan_string (s @ 0 # rest) = Some s" by (auto simp: scan_string_Some)
  moreover have "apply_sanitize SANITIZE s = s" using assms FString by (intro sanitize_id) auto
  moreover have "SANITIZE AND SKIP_START_WHITESPACES = 0"
    by (simp add: SANITIZE_def SKIP_START_WHITESPACES_def)
  ultimately show ?thesis using FString assms by (simp add: GetString_def)
next
  case (FRaw r)
  then show ?thesis by (simp add: GetRaw_def)
qed

lemma get_all_fields:
  "\<forall>f \<in> set fs. field_ok f \<Longrightarrow>
   get_all (map field_op fs) \<lparr>m_Buf = pre @ concat (map field_bytes fs) @ rest, m_Pos = length pre, m_UnpackError = False\<rparr> =
   (map field_got fs, \<lparr>m_Buf = pre @ concat (map field_bytes fs) @ rest,
      m_Pos = length (pre @ concat (map field_bytes fs)), m_UnpackError = False\<rparr>)"
proof (induction fs arbitrary: pre)
  case (Cons f fs)
  have "get (field_op f) \<lparr>m_Buf = pre @ field_bytes f @ (concat (map field_bytes fs) @ rest), m_Pos = length pre, m_UnpackError = False\<rparr> =
    (field_got f, \<lparr>m_Buf = pre @ field_bytes f @ (concat (map field_bytes fs) @ rest),
       m_Pos = length (pre @ field_bytes f), m_UnpackError = False\<rparr>)"
    using Cons.prems by (intro get_field) simp
  with Cons.IH [of "pre @ field_bytes f"] Cons.prems show ?case by simp
qed simp

lemma AddString_grows:
  assumes "cstring s" "\<not> m_PackError p" "AddString p s Limit AllowTruncation = p'" "\<not> m_PackError p'"
  shows "\<exists>cs. m_Packed p' = m_Packed p @ encode_all cs @ [0] \<and> (\<forall>c \<in> set cs. scalar_value c) \<and>
    (0 < Limit \<longrightarrow> int (length (encode_all cs)) \<le> Limit) \<and>
    (cs \<noteq> [] \<longrightarrow> length (m_Packed p') \<le> m_BufferSize p)"
proof -
  let ?l = "if Limit \<le> 0 then int (m_BufferSize p) else Limit"
  obtain out where out: "add_string_loop (m_BufferSize p) AllowTruncation s ?l (m_Packed p) = Some out"
    "p' = p\<lparr>m_Packed := out @ [0]\<rparr>"
    using assms(2-4) by (auto simp: AddString_def Let_def split: option.splits)
  have "0 \<le> ?l" by simp
  from add_string_loop_valid [OF assms(1) out(1) this] obtain cs where "out = m_Packed p @ encode_all cs"
    "\<forall>c \<in> set cs. scalar_value c" "int (length (encode_all cs)) \<le> ?l"
    "cs \<noteq> [] \<longrightarrow> length out + 1 \<le> m_BufferSize p" by blast
  with out(2) show ?thesis by (intro exI [of _ cs]) auto
qed

subsection \<open>Properties\<close>

text \<open>C35: any sequence of fields (ints, sanitized texts, raw data) whose encodings together fit the
  buffer is packed without an error into exactly those encodings, and reading the same sequence
  from the packed bytes with \<open>CUnpacker\<close> gives the fields back, uses up all bytes and reports no
  error.\<close>

theorem pack_unpack_message:
  assumes "\<forall>f \<in> set fs. field_ok f" "length (concat (map field_bytes fs)) \<le> m_BufferSize p"
  shows "let p' = foldl put (packer_Reset p) fs;
             (gs, u) = get_all (map field_op fs) (unpacker_Reset (m_Packed p'))
         in \<not> m_PackError p' \<and> m_Packed p' = concat (map field_bytes fs) \<and>
            gs = map field_got fs \<and> m_Pos u = packer_Size p' \<and> \<not> m_UnpackError u"
  using put_all_fits [of fs "packer_Reset p"] get_all_fields [of fs "[]" "[]"] assms
  by (simp add: packer_Reset_def unpacker_Reset_def packer_Size_def)

theorem pack_unpack_message_witness:
  "get_all [OInt, OString SANITIZE, ORaw 2]
     (unpacker_Reset (m_Packed (foldl put (packer_Reset \<lparr>m_BufferSize = 16, m_Packed = [], m_PackError = False\<rparr>)
        [FInt (- 70), FString [0x68, 0xC3, 0xA4], FRaw [0, 9]]))) =
   ([GInt (- 70), GString [0x68, 0xC3, 0xA4], GRaw (Some [0, 9])],
    \<lparr>m_Buf = [0xC5, 0x01, 0x68, 0xC3, 0xA4, 0, 0, 9], m_Pos = 8, m_UnpackError = False\<rparr>)"
proof -
  let ?fs = "[FInt (- 70), FString [0x68, 0xC3, 0xA4], FRaw [0, 9]]"
  let ?p = "\<lparr>m_BufferSize = 16, m_Packed = [], m_PackError = False\<rparr> :: packer"
  have chk: "str_utf8_check [0x68, 0xC3, 0xA4]" by code_simp
  have ok: "\<forall>f \<in> set ?fs. field_ok f" using chk by (simp add: in_i32_def)
  have bs: "concat (map field_bytes ?fs) = [0xC5, 0x01, 0x68, 0xC3, 0xA4, 0, 0, 9]" by code_simp
  have "length (concat (map field_bytes ?fs)) \<le> m_BufferSize ?p" unfolding bs by simp
  from pack_unpack_message [OF ok this] have
    "fst (get_all (map field_op ?fs) (unpacker_Reset (m_Packed (foldl put (packer_Reset ?p) ?fs)))) = map field_got ?fs"
    "m_Packed (foldl put (packer_Reset ?p) ?fs) = [0xC5, 0x01, 0x68, 0xC3, 0xA4, 0, 0, 9]"
    unfolding bs by (auto simp: Let_def split: prod.splits)
  then show ?thesis by (simp del: foldl.simps) code_simp
qed

text \<open>C37: on arbitrary bytes every sequence of \<open>CUnpacker\<close> reads stays inside the buffer, only goes
  forward, leaves the unread bytes alone, keeps its error flag, and returns ints in range and
  strings that are valid UTF-8 (and free of control characters when sanitized).\<close>

theorem unpacker_safe:
  assumes "get_all ops (unpacker_Reset raw) = (gs, u)"
  shows "list_all2 got_ok ops gs \<and> unpacker_step (unpacker_Reset raw) u"
  using get_all_steps [OF _ assms] by (simp add: unpacker_ok_def unpacker_Reset_def)

theorem unpacker_safe_witness:
  "list_all2 got_ok [OString 1, OInt] [GString [0x61, 0x20], GInt 0]"
proof -
  have "get_all [OString 1, OInt] (unpacker_Reset [0x61, 0x01, 0x00, 0x80]) =
      ([GString [0x61, 0x20], GInt 0], \<lparr>m_Buf = [0x61, 0x20, 0x00, 0x80], m_Pos = 3, m_UnpackError = True\<rparr>)"
    by code_simp
  from unpacker_safe [OF this] show ?thesis by blast
qed

text \<open>Whatever bytes a C string holds, \<open>AddString\<close> without an error appends valid UTF-8 of at
  most \<open>Limit\<close> bytes and a zero, and stays inside the buffer if there was room for one more byte.\<close>

theorem AddString_valid_and_bounded:
  assumes "cstring s" "\<not> m_PackError p" "\<not> m_PackError (AddString p s Limit AllowTruncation)"
  shows "\<exists>t. m_Packed (AddString p s Limit AllowTruncation) = m_Packed p @ t @ [0] \<and> str_utf8_check t \<and>
    (0 < Limit \<longrightarrow> int (length t) \<le> Limit) \<and>
    (length (m_Packed p) < m_BufferSize p \<longrightarrow>
     length (m_Packed (AddString p s Limit AllowTruncation)) \<le> m_BufferSize p)"
proof -
  from AddString_grows [OF assms(1,2) refl assms(3)] obtain cs where
    cs: "m_Packed (AddString p s Limit AllowTruncation) = m_Packed p @ encode_all cs @ [0]"
      "\<forall>c \<in> set cs. scalar_value c" "0 < Limit \<longrightarrow> int (length (encode_all cs)) \<le> Limit"
      "cs \<noteq> [] \<longrightarrow> length (m_Packed (AddString p s Limit AllowTruncation)) \<le> m_BufferSize p" by blast
  show ?thesis
    by (rule exI [of _ "encode_all cs"]) (use cs check_encode_all in \<open>cases "cs = []"; auto\<close>)
qed

theorem AddString_valid_and_bounded_witness:
  "\<exists>t. m_Packed (AddString \<lparr>m_BufferSize = 8, m_Packed = [1], m_PackError = False\<rparr> [0x61, 0xFF] 3 True) = [1] @ t @ [0]
     \<and> str_utf8_check t"
proof -
  let ?p = "\<lparr>m_BufferSize = 8, m_Packed = [1], m_PackError = False\<rparr> :: packer"
  have "cstring [0x61, 0xFF]" by simp
  moreover have "\<not> m_PackError (AddString ?p [0x61, 0xFF] 3 True)" by code_simp
  ultimately show ?thesis using AddString_valid_and_bounded [of "[0x61, 0xFF]" ?p 3 True] by auto
qed

text \<open>C40: \<open>AddString\<close> checks for room only when it appends a character: into a full buffer an empty
  string is written without an error and its terminating zero goes one byte behind \<open>m_pEnd\<close>.\<close>

theorem AddString_overflows_full_buffer:
  assumes "\<not> m_PackError p" "length (m_Packed p) = m_BufferSize p"
  shows "\<not> m_PackError (AddString p [] Limit AllowTruncation) \<and>
    length (m_Packed (AddString p [] Limit AllowTruncation)) = m_BufferSize p + 1"
  using assms by (simp add: AddString_def add_string_loop.simps)

theorem AddString_overflows_full_buffer_witness:
  "length (m_Packed (AddString (AddRaw (packer_Reset \<lparr>m_BufferSize = 3, m_Packed = [], m_PackError = False\<rparr>)
     [1, 2, 3]) [] 0 True)) = 4"
proof -
  let ?p = "AddRaw (packer_Reset \<lparr>m_BufferSize = 3, m_Packed = [], m_PackError = False\<rparr>) [1, 2, 3]"
  have p: "\<not> m_PackError ?p" "length (m_Packed ?p) = m_BufferSize ?p" "m_BufferSize ?p = 3"
    by (simp_all add: AddRaw_def packer_Reset_def)
  show ?thesis using AddString_overflows_full_buffer [OF p(1,2), of 0 True] p(3) by simp
qed

end
