(* ===== verification/Fifo.thy ===== *)
theory Fifo
  imports Prelude "HOL-Library.Monad_Syntax"
begin

text \<open>
  The interface of a store that hands out blocks in the order of a queue, as the network code
  uses \<open>CTypedRingBuffer\<close>: \<open>holds s q\<close> says that the live blocks of \<open>s\<close> are \<open>q\<close>, oldest first, and
  \<open>addr\<close> gives the pointer the client sees. The laws are those the clients rely on; what follows
  from them for a client that walks through the store or empties it is proved here once.
\<close>

text \<open>The loop \<open>for(p = First(); p; p = Next(p))\<close>, and the loop \<open>while(PopFirst())\<close>.\<close>

partial_function (option) walk ::
  "('s \<Rightarrow> 'p \<Rightarrow> 'p option option) \<Rightarrow> 's \<Rightarrow> 'p option \<Rightarrow> 'p list option" where
  "walk nxt s p =
     (case p of None \<Rightarrow> Some []
      | Some x \<Rightarrow> do { p' \<leftarrow> nxt s x; xs \<leftarrow> walk nxt s p'; Some (x # xs) })"

partial_function (option) drain :: "('s \<Rightarrow> (bool \<times> 's) option) \<Rightarrow> 's \<Rightarrow> 's option" where
  "drain pop s =
     do { (ok, s') \<leftarrow> pop s; if ok then drain pop s' else Some s' }"

locale fifo_store =
  fixes holds :: "'s \<Rightarrow> 'x list \<Rightarrow> bool"
    and addr :: "'x \<Rightarrow> 'p"
    and alloc :: "'s \<Rightarrow> nat \<Rightarrow> ('p option \<times> 's) option"
    and pop :: "'s \<Rightarrow> (bool \<times> 's) option"
    and first :: "'s \<Rightarrow> 'p option"
    and nxt :: "'s \<Rightarrow> 'p \<Rightarrow> 'p option option"
  assumes distinct_law: "holds s q \<Longrightarrow> distinct (map addr q)"
    and alloc_law: "holds s q \<Longrightarrow> \<exists>res s'. alloc s n = Some (res, s') \<and>
      (case res of None \<Rightarrow> s' = s | Some p \<Rightarrow> \<exists>k x. k \<le> length q \<and> addr x = p \<and> holds s' (drop k q @ [x]))"
    and pop_law: "holds s q \<Longrightarrow>
      (if q = [] then pop s = Some (False, s) else \<exists>s'. pop s = Some (True, s') \<and> holds s' (tl q))"
    and first_law: "holds s q \<Longrightarrow> first s = (case q of [] \<Rightarrow> None | x # _ \<Rightarrow> Some (addr x))"
    and next_law: "holds s (q @ x # q') \<Longrightarrow>
      nxt s (addr x) = Some (case q' of [] \<Rightarrow> None | y # _ \<Rightarrow> Some (addr y))"
begin

lemma walk_suffix:
  "holds s (q @ q') \<Longrightarrow>
   walk nxt s (case q' of [] \<Rightarrow> None | x # _ \<Rightarrow> Some (addr x)) = Some (map addr q')"
proof (induction q' arbitrary: q)
  case Nil
  then show ?case by (simp add: walk.simps)
next
  case (Cons x q')
  have "walk nxt s (case q' of [] \<Rightarrow> None | x # _ \<Rightarrow> Some (addr x)) = Some (map addr q')"
    using Cons.IH [of "q @ [x]"] Cons.prems by simp
  with next_law [OF Cons.prems] show ?case by (subst walk.simps) simp
qed

text \<open>The walk ends and visits the live blocks once each, oldest first.\<close>

lemma walk_all: "holds s q \<Longrightarrow> walk nxt s (first s) = Some (map addr q)"
  using walk_suffix [of s "[]" q] first_law [of s q] by simp

lemma drain_empties: "holds s q \<Longrightarrow> \<exists>s'. drain pop s = Some s' \<and> holds s' []"
proof (induction q arbitrary: s)
  case Nil
  with pop_law [OF Nil] show ?case by (subst drain.simps) simp
next
  case (Cons x q)
  with pop_law [OF Cons.prems] obtain s' where "pop s = Some (True, s')" "holds s' q" by auto
  with Cons.IH [of s'] show ?case by (subst drain.simps) simp
qed

lemma alloc_fresh:
  assumes "holds s q" "alloc s n = Some (Some p, s')"
  shows "\<exists>k x. k \<le> length q \<and> addr x = p \<and> holds s' (drop k q @ [x]) \<and> p \<notin> set (map addr (drop k q))"
proof -
  from alloc_law [OF assms(1), of n] assms(2) obtain k x where
    "k \<le> length q" "addr x = p" "holds s' (drop k q @ [x])" by auto
  with distinct_law [of s' "drop k q @ [x]"] show ?thesis by auto
qed

end

end
