(* ===== verification/RingBuffer.thy ===== *)
theory RingBuffer
  imports Prelude Fifo "HOL-Library.Monad_Syntax"
begin

text \<open>
  \<open>CRingBufferBase\<close> (src/src/engine/shared/ringbuffer.h and ringbuffer.cpp). A pointer to a
  \<open>CItem\<close> is its byte offset in \<open>m_pBuffer\<close>; the headers live in the map \<open>r_mem\<close> from offsets to
  items, with \<open>nullptr\<close> as \<open>None\<close>. The loops that follow the list are \<open>partial_function\<close>s, so a
  loop that does not end is \<open>None\<close>. \<open>r_Popped\<close> logs the arguments the pop callback gets.
\<close>

subsection \<open>The code\<close>

definition ITEM_SIZE :: nat where
  "ITEM_SIZE = 24"

record item =
  it_prev :: "nat option"
  it_next :: "nat option"
  it_free :: bool
  it_size :: nat

record ring =
  r_mem :: "nat \<Rightarrow> item"
  r_Produce :: nat
  r_Consume :: nat
  r_First :: nat
  r_Last :: nat
  r_Size :: nat
  r_Recycle :: bool
  r_Popped :: "nat list"

definition NextBlock :: "ring \<Rightarrow> nat \<Rightarrow> nat" where
  "NextBlock r pItem = (case it_next (r_mem r pItem) of Some n \<Rightarrow> n | None \<Rightarrow> r_First r)"

definition PrevBlock :: "ring \<Rightarrow> nat \<Rightarrow> nat" where
  "PrevBlock r pItem = (case it_prev (r_mem r pItem) of Some n \<Rightarrow> n | None \<Rightarrow> r_Last r)"

definition MergeBack :: "ring \<Rightarrow> nat \<Rightarrow> ring \<times> nat" where
  "MergeBack r pItem =
     (let it = r_mem r pItem in
      if \<not> it_free it then (r, pItem)
      else case it_prev it of None \<Rightarrow> (r, pItem)
      | Some q \<Rightarrow>
          if \<not> it_free (r_mem r q) then (r, pItem)
          else
            let mem1 = (r_mem r)(q := (r_mem r q)\<lparr>it_size := it_size (r_mem r q) + it_size it,
                                                     it_next := it_next it\<rparr>);
                r1 = (case it_next it of
                        Some n \<Rightarrow> r\<lparr>r_mem := mem1(n := (mem1 n)\<lparr>it_prev := Some q\<rparr>)\<rparr>
                      | None \<Rightarrow> r\<lparr>r_mem := mem1, r_Last := q\<rparr>);
                r2 = (if pItem = r_Produce r1 then r1\<lparr>r_Produce := q\<rparr> else r1);
                r3 = (if pItem = r_Consume r2 then r2\<lparr>r_Consume := q\<rparr> else r2)
            in (r3, q))"

definition ring_Clear :: "ring \<Rightarrow> ring" where
  "ring_Clear r =
     r\<lparr>r_mem := (r_mem r)(0 := \<lparr>it_prev = None, it_next = None, it_free = True, it_size = r_Size r\<rparr>),
       r_First := 0, r_Last := 0, r_Produce := 0, r_Consume := 0\<rparr>"

definition ring_Init :: "ring \<Rightarrow> nat \<Rightarrow> bool \<Rightarrow> ring" where
  "ring_Init r Size Recycle =
     ring_Clear (r\<lparr>r_Size := Size div ITEM_SIZE * ITEM_SIZE, r_Recycle := Recycle\<rparr>)"

partial_function (option) pop_advance :: "ring \<Rightarrow> ring option" where
  "pop_advance r =
     (if it_free (r_mem r (r_Consume r)) \<and> r_Consume r \<noteq> r_Produce r
      then let (r1, q) = MergeBack r (r_Consume r)
           in pop_advance (r1\<lparr>r_Consume := NextBlock r1 q\<rparr>)
      else Some r)"

text \<open>\<open>PopFirst\<close>: the value returned and the new state.\<close>

definition ring_PopFirst :: "ring \<Rightarrow> (bool \<times> ring) option" where
  "ring_PopFirst r =
     (let c = r_Consume r in
      if it_free (r_mem r c) then Some (False, r)
      else
        let r0 = r\<lparr>r_Popped := r_Popped r @ [c + ITEM_SIZE],
                   r_mem := (r_mem r)(c := (r_mem r c)\<lparr>it_free := True\<rparr>)\<rparr>;
            (r1, q) = MergeBack r0 c
        in do {
             r2 \<leftarrow> pop_advance (r1\<lparr>r_Consume := NextBlock r1 q\<rparr>);
             Some (True, fst (MergeBack r2 (r_Consume r2)))
           })"

definition find_block :: "ring \<Rightarrow> nat \<Rightarrow> nat option" where
  "find_block r WantedSize =
     (if it_free (r_mem r (r_Produce r)) then
        (if it_size (r_mem r (r_Produce r)) \<ge> WantedSize then Some (r_Produce r)
         else if it_free (r_mem r (r_First r)) \<and> it_size (r_mem r (r_First r)) \<ge> WantedSize
              then Some (r_First r) else None)
      else None)"

partial_function (option) alloc_loop :: "nat \<Rightarrow> ring \<Rightarrow> (nat option \<times> ring) option" where
  "alloc_loop WantedSize r =
     (case find_block r WantedSize of
        Some b \<Rightarrow> Some (Some b, r)
      | None \<Rightarrow>
          if r_Recycle r then
            do { (ok, r') \<leftarrow> ring_PopFirst r;
                 if ok then alloc_loop WantedSize r' else Some (None, r') }
          else Some (None, r))"

definition split_block :: "ring \<Rightarrow> nat \<Rightarrow> nat \<Rightarrow> ring" where
  "split_block r b WantedSize =
     (let it = r_mem r b in
      if it_size it > WantedSize + ITEM_SIZE then
        let n = b + WantedSize;
            mem1 = (case it_next it of
                      Some nx \<Rightarrow> (r_mem r)(nx := (r_mem r nx)\<lparr>it_prev := Some n\<rparr>)
                    | None \<Rightarrow> r_mem r);
            mem2 = mem1(n := \<lparr>it_prev = Some b, it_next = it_next it, it_free = True,
                              it_size = it_size it - WantedSize\<rparr>,
                        b := (mem1 b)\<lparr>it_next := Some n, it_size := WantedSize\<rparr>)
        in if it_next it = None then r\<lparr>r_mem := mem2, r_Last := n\<rparr> else r\<lparr>r_mem := mem2\<rparr>
      else r)"

definition wanted_size :: "nat \<Rightarrow> nat" where
  "wanted_size Size = (Size + ITEM_SIZE + ITEM_SIZE - 1) div ITEM_SIZE * ITEM_SIZE"

text \<open>\<open>Allocate\<close>: the address behind the header of the block, or \<open>nullptr\<close>.\<close>

definition ring_Allocate :: "ring \<Rightarrow> nat \<Rightarrow> (nat option \<times> ring) option" where
  "ring_Allocate r Size =
     (let WantedSize = wanted_size Size in
      if WantedSize > r_Size r then Some (None, r)
      else do {
        (pBlock, r1) \<leftarrow> alloc_loop WantedSize r;
        case pBlock of None \<Rightarrow> Some (None, r1)
        | Some b \<Rightarrow>
            let r2 = split_block r1 b WantedSize;
                r3 = r2\<lparr>r_Produce := NextBlock r2 b\<rparr>;
                r4 = r3\<lparr>r_mem := (r_mem r3)(b := (r_mem r3 b)\<lparr>it_free := False\<rparr>)\<rparr>
            in Some (Some (b + ITEM_SIZE), r4)
      })"

partial_function (option) prev_loop :: "ring \<Rightarrow> nat \<Rightarrow> nat option option" where
  "prev_loop r pItem =
     (let p = PrevBlock r pItem in
      if p = r_Produce r then Some None
      else if \<not> it_free (r_mem r p) then Some (Some (p + ITEM_SIZE))
      else prev_loop r p)"

partial_function (option) next_loop :: "ring \<Rightarrow> nat \<Rightarrow> nat option option" where
  "next_loop r pItem =
     (let p = NextBlock r pItem in
      if p = r_Produce r then Some None
      else if \<not> it_free (r_mem r p) then Some (Some (p + ITEM_SIZE))
      else next_loop r p)"

definition ring_Prev :: "ring \<Rightarrow> nat \<Rightarrow> nat option option" where
  "ring_Prev r pCurrent = prev_loop r (pCurrent - ITEM_SIZE)"

definition ring_Next :: "ring \<Rightarrow> nat \<Rightarrow> nat option option" where
  "ring_Next r pCurrent = next_loop r (pCurrent - ITEM_SIZE)"

definition ring_First :: "ring \<Rightarrow> nat option" where
  "ring_First r =
     (if it_free (r_mem r (r_Consume r)) then None else Some (r_Consume r + ITEM_SIZE))"

definition ring_Last :: "ring \<Rightarrow> nat option option" where
  "ring_Last r = ring_Prev r (r_Produce r + ITEM_SIZE)"

subsection \<open>Blocks in address order\<close>

type_synonym blk = "nat \<times> bool"

definition tot :: "blk list \<Rightarrow> nat" where
  "tot bs = sum_list (map fst bs)"

lemma tot_simps [simp]: "tot [] = 0" "tot (b # bs) = fst b + tot bs" "tot (xs @ ys) = tot xs + tot ys"
  by (simp_all add: tot_def)

text \<open>\<open>chain h p a bs nx\<close>: from offset \<open>a\<close> the headers of the blocks \<open>bs\<close> follow each other, linked
  in both directions, between the previous block \<open>p\<close> and the next block \<open>nx\<close>.\<close>

fun chain :: "(nat \<Rightarrow> item) \<Rightarrow> nat option \<Rightarrow> nat \<Rightarrow> blk list \<Rightarrow> nat option \<Rightarrow> bool" where
  "chain h p a [] nx \<longleftrightarrow> True"
| "chain h p a ((s, f) # bs) nx \<longleftrightarrow>
     0 < s \<and> h a = \<lparr>it_prev = p, it_next = (if bs = [] then nx else Some (a + s)), it_free = f, it_size = s\<rparr> \<and>
     chain h (Some a) (a + s) bs nx"

definition prev_of :: "nat option \<Rightarrow> nat \<Rightarrow> blk list \<Rightarrow> nat option" where
  "prev_of p a xs = (if xs = [] then p else Some (a + tot (butlast xs)))"

lemma prev_of_Cons: "prev_of (Some a) (a + s) xs = prev_of p a ((s, f) # xs)"
  by (simp add: prev_of_def)

lemma chain_append:
  "chain h p a (xs @ ys) nx \<longleftrightarrow>
     chain h p a xs (if ys = [] then nx else Some (a + tot xs)) \<and>
     chain h (prev_of p a xs) (a + tot xs) ys nx"
proof (induction xs arbitrary: p a)
  case Nil
  then show ?case by (simp add: prev_of_def)
next
  case (Cons b xs)
  obtain s f where "b = (s, f)" by (cases b)
  with Cons [of "Some a" "a + s"] show ?case
    by (auto simp: prev_of_Cons [where p = p and f = f] add.assoc)
qed

lemma chain_frame:
  "chain h p a bs nx \<Longrightarrow> x < a \<or> a + tot bs \<le> x \<Longrightarrow> chain (h(x := it)) p a bs nx"
proof (induction h p a bs nx rule: chain.induct)
  case (2 h p a s f bs nx)
  then have "chain (h(x := it)) (Some a) (a + s) bs nx" by (intro "2.IH") auto
  with 2 show ?case by auto
qed simp

definition rep :: "ring \<Rightarrow> blk list \<Rightarrow> nat \<Rightarrow> nat \<Rightarrow> bool" where
  "rep r bs pr co \<longleftrightarrow> chain (r_mem r) None 0 bs None \<and> bs \<noteq> [] \<and> r_First r = 0 \<and>
     r_Last r = tot (butlast bs) \<and> r_Produce r = pr \<and> r_Consume r = co \<and> r_Size r = tot bs"

lemma rep_block:
  assumes "rep r (xs @ (s, f) # ys) pr co"
  shows "r_mem r (tot xs) = \<lparr>it_prev = prev_of None 0 xs,
      it_next = (if ys = [] then None else Some (tot xs + s)), it_free = f, it_size = s\<rparr>"
    and "0 < s"
    and "NextBlock r (tot xs) = (if ys = [] then 0 else tot xs + s)"
    and "PrevBlock r (tot xs) = (if xs = [] then tot (butlast (xs @ (s, f) # ys)) else tot (butlast xs))"
  using assms by (auto simp: rep_def chain_append NextBlock_def PrevBlock_def prev_of_def)

lemma rep_set_free:
  assumes "rep r (xs @ (s, f) # ys) pr co"
  shows "rep (r\<lparr>r_mem := (r_mem r)(tot xs := (r_mem r (tot xs))\<lparr>it_free := g\<rparr>)\<rparr>) (xs @ (s, g) # ys) pr co"
  using assms by (auto simp: rep_def chain_append butlast_append intro!: chain_frame)

lemma rep_update_simps [simp]:
  "rep (r\<lparr>r_Popped := l\<rparr>) bs pr co = rep r bs pr co"
  "rep (r\<lparr>r_Consume := c\<rparr>) bs pr co \<longleftrightarrow> c = co \<and> rep r bs pr (r_Consume r)"
  "rep (r\<lparr>r_Produce := q\<rparr>) bs pr co \<longleftrightarrow> q = pr \<and> rep r bs (r_Produce r) co"
  by (auto simp: rep_def)

lemma rep_pointers: "rep r bs pr co \<Longrightarrow> r_Produce r = pr \<and> r_Consume r = co \<and> r_First r = 0 \<and> r_Size r = tot bs"
  by (simp add: rep_def)

lemma MergeBack_merge:
  assumes "rep r (xs @ (s1, True) # (s2, True) # ys) pr co"
  shows "\<exists>r'. MergeBack r (tot xs + s1) = (r', tot xs) \<and>
    rep r' (xs @ (s1 + s2, True) # ys)
      (if pr = tot xs + s1 then tot xs else pr) (if co = tot xs + s1 then tot xs else co) \<and>
    r_Recycle r' = r_Recycle r \<and> r_Popped r' = r_Popped r"
proof (cases ys)
  case Nil
  have b2: "r_mem r (tot xs + s1) = \<lparr>it_prev = Some (tot xs), it_next = None, it_free = True, it_size = s2\<rparr>"
    and b1: "r_mem r (tot xs) = \<lparr>it_prev = prev_of None 0 xs, it_next = Some (tot xs + s1), it_free = True, it_size = s1\<rparr>"
    and pos: "0 < s1" "0 < s2"
    using assms by (auto simp: rep_def chain_append Nil)
  show ?thesis
    using assms pos
    by (auto simp: MergeBack_def b1 b2 Let_def rep_def chain_append Nil butlast_append intro!: chain_frame)
next
  case (Cons y zs)
  obtain s f where y: "y = (s, f)" by (cases y)
  have b2: "r_mem r (tot xs + s1) = \<lparr>it_prev = Some (tot xs), it_next = Some (tot xs + s1 + s2), it_free = True, it_size = s2\<rparr>"
    and b1: "r_mem r (tot xs) = \<lparr>it_prev = prev_of None 0 xs, it_next = Some (tot xs + s1), it_free = True, it_size = s1\<rparr>"
    and pos: "0 < s1" "0 < s2" "0 < s"
    using assms by (auto simp: rep_def chain_append Cons y)
  show ?thesis
    using assms pos
    by (auto simp: MergeBack_def b1 b2 Let_def rep_def chain_append Cons y butlast_append
        add.assoc intro!: chain_frame)
qed

lemma MergeBack_noop:
  assumes "rep r (xs @ (s, f) # ys) pr co" "\<not> f \<or> xs = [] \<or> \<not> snd (last xs)"
  shows "MergeBack r (tot xs) = (r, tot xs)"
proof (cases xs rule: rev_cases)
  case Nil
  with rep_block(1) [OF assms(1)] show ?thesis by (simp add: MergeBack_def prev_of_def Let_def)
next
  case (snoc zs b)
  obtain s' f' where b: "b = (s', f')" by (cases b)
  have "r_mem r (tot zs) = \<lparr>it_prev = prev_of None 0 zs, it_next = Some (tot zs + s'), it_free = f', it_size = s'\<rparr>"
    using rep_block(1) [of r zs s' f' "(s, f) # ys"] assms(1) snoc b by simp
  with rep_block(1) [OF assms(1)] assms(2) snoc b show ?thesis
    by (auto simp: MergeBack_def prev_of_def Let_def)
qed

lemma rep_split:
  assumes "rep r (xs @ (s, f) # ys) pr co" "WantedSize + ITEM_SIZE < s" "0 < WantedSize"
  shows "rep (split_block r (tot xs) WantedSize) (xs @ (WantedSize, f) # (s - WantedSize, True) # ys) pr co"
proof -
  note b = rep_block(1) [OF assms(1)]
  show ?thesis
  proof (cases ys)
    case Nil
    then show ?thesis using assms
      by (auto simp: split_block_def b Let_def rep_def chain_append butlast_append intro!: chain_frame)
  next
    case (Cons y zs)
    obtain s' f' where y: "y = (s', f')" by (cases y)
    show ?thesis using assms Cons y
      by (auto simp: split_block_def b Let_def rep_def chain_append butlast_append intro!: chain_frame)
  qed
qed

subsection \<open>The shapes of the block list\<close>

text \<open>
  Empty; the used blocks in one run, with an optional free gap before and an optional free tail
  behind; or wrapped around, with the newest blocks in front, an optional gap, the oldest
  blocks, and an optional tail that was too small.
\<close>

datatype shape =
    Empty nat
  | Lin "nat option" "nat list" "nat option"
  | Wrap "nat list" "nat option" "nat list" "nat option"

definition used :: "nat list \<Rightarrow> blk list" where
  "used us = map (\<lambda>s. (s, False)) us"

definition gap :: "nat option \<Rightarrow> blk list" where
  "gap g = (case g of None \<Rightarrow> [] | Some s \<Rightarrow> [(s, True)])"

lemma used_simps [simp]: "used [] = []" "used (u # us) = (u, False) # used us" "used (us @ vs) = used us @ used vs"
  by (simp_all add: used_def)

lemma used_Nil_iff [simp]: "used us = [] \<longleftrightarrow> us = []" "[] = used us \<longleftrightarrow> us = []"
  by (auto simp: used_def)

lemma gap_simps [simp]: "gap None = []" "gap (Some s) = [(s, True)]"
  by (simp_all add: gap_def)

lemma tot_used [simp]: "tot (used us) = sum_list us"
  by (induction us) auto

definition gsize :: "nat option \<Rightarrow> nat" where
  "gsize g = (case g of None \<Rightarrow> 0 | Some s \<Rightarrow> s)"

lemma gsize_simps [simp]: "gsize None = 0" "gsize (Some s) = s" "tot (gap g) = gsize g"
  by (auto simp: gsize_def gap_def split: option.splits)

fun layout :: "shape \<Rightarrow> blk list" where
  "layout (Empty n) = [(n, True)]"
| "layout (Lin g us t) = gap g @ used us @ gap t"
| "layout (Wrap vs g us t) = used vs @ gap g @ used us @ gap t"

fun produce_at :: "shape \<Rightarrow> nat" where
  "produce_at (Empty n) = 0"
| "produce_at (Lin g us t) = (if t = None then 0 else gsize g + sum_list us)"
| "produce_at (Wrap vs g us t) = sum_list vs"

fun consume_at :: "shape \<Rightarrow> nat" where
  "consume_at (Empty n) = 0"
| "consume_at (Lin g us t) = gsize g"
| "consume_at (Wrap vs g us t) = sum_list vs + gsize g"

fun shape_ok :: "shape \<Rightarrow> bool" where
  "shape_ok (Empty n) \<longleftrightarrow> True"
| "shape_ok (Lin g us t) \<longleftrightarrow> us \<noteq> []"
| "shape_ok (Wrap vs g us t) \<longleftrightarrow> vs \<noteq> [] \<and> us \<noteq> []"

definition ring_shape :: "ring \<Rightarrow> shape \<Rightarrow> bool" where
  "ring_shape r sh \<longleftrightarrow> shape_ok sh \<and> rep r (layout sh) (produce_at sh) (consume_at sh)"

definition ring_inv :: "ring \<Rightarrow> bool" where
  "ring_inv r \<longleftrightarrow> (\<exists>sh. ring_shape r sh)"

text \<open>The used blocks, oldest first, as pairs of an offset and a size.\<close>

fun blocks_from :: "nat \<Rightarrow> nat list \<Rightarrow> (nat \<times> nat) list" where
  "blocks_from a [] = []"
| "blocks_from a (s # ss) = (a, s) # blocks_from (a + s) ss"

fun contents :: "shape \<Rightarrow> (nat \<times> nat) list" where
  "contents (Empty n) = []"
| "contents (Lin g us t) = blocks_from (gsize g) us"
| "contents (Wrap vs g us t) = blocks_from (sum_list vs + gsize g) us @ blocks_from 0 vs"

lemma blocks_from_Nil [simp]: "blocks_from a us = [] \<longleftrightarrow> us = []" "[] = blocks_from a us \<longleftrightarrow> us = []"
  by (cases us; auto)+

lemma blocks_from_append:
  "blocks_from a (us @ vs) = blocks_from a us @ blocks_from (a + sum_list us) vs"
  by (induction us arbitrary: a) (auto simp: add.assoc)

subsection \<open>Popping\<close>

text \<open>The shape after the oldest block was popped.\<close>

fun pop_shape :: "shape \<Rightarrow> shape" where
  "pop_shape (Lin g (u # u' # us) t) = Lin (Some (gsize g + u)) (u' # us) t"
| "pop_shape (Lin g [u] t) = Empty (gsize g + u + gsize t)"
| "pop_shape (Wrap vs g (u # u' # us) t) = Wrap vs (Some (gsize g + u)) (u' # us) t"
| "pop_shape (Wrap vs g [u] t) = Lin None vs (Some (gsize g + u + gsize t))"
| "pop_shape sh = sh"

text \<open>Freeing a used block behind an optional gap and merging it with the gap.\<close>

lemma free_and_merge:
  assumes "rep r (xs @ gap g @ (u, False) # ys) pr co" "co = tot xs + gsize g" "xs = [] \<or> \<not> snd (last xs)"
    and "r0 = r\<lparr>r_Popped := r_Popped r @ [co + ITEM_SIZE],
                r_mem := (r_mem r)(co := (r_mem r co)\<lparr>it_free := True\<rparr>)\<rparr>"
  shows "\<exists>r'. MergeBack r0 co = (r', tot xs) \<and>
    rep r' (xs @ (gsize g + u, True) # ys) (if pr = co then tot xs else pr) (tot xs) \<and>
    r_Recycle r' = r_Recycle r \<and> r_Popped r' = r_Popped r @ [co + ITEM_SIZE]"
proof -
  have r0: "rep r0 (xs @ gap g @ (u, True) # ys) pr co"
    using rep_set_free [of r "xs @ gap g" u False ys pr co True] assms by (auto simp: rep_def)
  have rp: "r_Recycle r0 = r_Recycle r \<and> r_Popped r0 = r_Popped r @ [co + ITEM_SIZE]" by (simp add: assms(4))
  show ?thesis
  proof (cases g)
    case None
    with r0 MergeBack_noop [of r0 xs u True ys pr co] assms(2,3) rp show ?thesis by auto
  next
    case (Some s)
    with r0 MergeBack_merge [of r0 xs s u ys pr co] assms(2) rp show ?thesis by auto
  qed
qed

text \<open>Standing on a used block or on the produce pointer, \<open>pop_advance\<close> stops.\<close>

lemma pop_advance_stop:
  assumes "\<not> it_free (r_mem r (r_Consume r)) \<or> r_Consume r = r_Produce r"
  shows "pop_advance r = Some r"
  using assms by (subst pop_advance.simps) auto

lemma MergeBack_used:
  "\<not> it_free (r_mem r a) \<Longrightarrow> MergeBack r a = (r, a)"
  by (simp add: MergeBack_def Let_def)

lemma last_used: "vs \<noteq> [] \<Longrightarrow> \<not> snd (last (used vs))"
  by (simp add: used_def last_map)

lemma PopFirst_unfold:
  assumes "\<not> it_free (r_mem r (r_Consume r))"
    and "MergeBack (r\<lparr>r_Popped := r_Popped r @ [r_Consume r + ITEM_SIZE],
          r_mem := (r_mem r)(r_Consume r := (r_mem r (r_Consume r))\<lparr>it_free := True\<rparr>)\<rparr>) (r_Consume r) = (r1, q)"
    and "pop_advance (r1\<lparr>r_Consume := NextBlock r1 q\<rparr>) = Some r2"
  shows "ring_PopFirst r = Some (True, fst (MergeBack r2 (r_Consume r2)))"
  using assms by (simp add: ring_PopFirst_def Let_def)

lemma sum_pos: "rep r (xs @ used us @ ys) pr co \<Longrightarrow> us \<noteq> [] \<Longrightarrow> 0 < sum_list us"
proof (cases us)
  case (Cons u vs)
  moreover assume "rep r (xs @ used us @ ys) pr co"
  ultimately have "0 < u" by (auto simp: rep_def chain_append)
  with Cons show ?thesis by simp
qed simp

lemma PopFirst_shape:
  assumes "ring_shape r sh" "contents sh \<noteq> []"
  shows "\<exists>r'. ring_PopFirst r = Some (True, r') \<and> ring_shape r' (pop_shape sh) \<and>
    r_Recycle r' = r_Recycle r \<and> r_Popped r' = r_Popped r @ [consume_at sh + ITEM_SIZE]"
proof (cases sh)
  case (Empty n)
  with assms show ?thesis by simp
next
  case (Lin g us t)
  with assms obtain u vs where us: "us = u # vs" by (cases us) (auto simp: ring_shape_def)
  have rp: "rep r ([] @ gap g @ (u, False) # (used vs @ gap t)) (produce_at sh) (consume_at sh)"
    using assms(1) Lin us by (simp add: ring_shape_def)
  have c: "consume_at sh = gsize g" using Lin by simp
  note ptr = rep_pointers [OF rp]
  have nf: "\<not> it_free (r_mem r (r_Consume r))"
    using rep_block(1) [of r "gap g" u False "used vs @ gap t"] rp ptr c by simp
  from free_and_merge [OF rp _ _ refl] obtain r1 where
    m1: "MergeBack (r\<lparr>r_Popped := r_Popped r @ [r_Consume r + ITEM_SIZE],
          r_mem := (r_mem r)(r_Consume r := (r_mem r (r_Consume r))\<lparr>it_free := True\<rparr>)\<rparr>) (r_Consume r) = (r1, 0)"
    and r1: "rep r1 ((gsize g + u, True) # (used vs @ gap t)) (if produce_at sh = gsize g then 0 else produce_at sh) 0"
    and k: "r_Recycle r1 = r_Recycle r" "r_Popped r1 = r_Popped r @ [consume_at sh + ITEM_SIZE]"
    using ptr c by (cases "produce_at sh = gsize g") auto
  have nx: "NextBlock r1 0 = (if used vs @ gap t = [] then 0 else gsize g + u)"
    using rep_block(3) [of r1 "[]" "gsize g + u" True "used vs @ gap t"] r1 by simp
  show ?thesis
  proof (cases vs)
    case (Cons v ws)
    let ?r2 = "r1\<lparr>r_Consume := NextBlock r1 0\<rparr>"
    have nf1: "\<not> it_free (r_mem r1 (gsize g + u))"
      using rep_block(1) [of r1 "[(gsize g + u, True)]" v False "used ws @ gap t"] r1 Cons by simp
    have adv: "pop_advance ?r2 = Some ?r2"
      using nf1 nx Cons by (intro pop_advance_stop) simp
    have "ring_PopFirst r = Some (True, ?r2)"
      using PopFirst_unfold [OF nf m1 adv] nf1 nx Cons by (simp add: MergeBack_used)
    moreover have "ring_shape ?r2 (pop_shape sh)"
      using r1 Lin us Cons nx by (auto simp: ring_shape_def rep_def split: if_splits option.splits)
    ultimately show ?thesis using k by auto
  next
    case Nil
    let ?r2 = "r1\<lparr>r_Consume := NextBlock r1 0\<rparr>"
    have u: "0 < u" using rep_block(2) [of r "gap g" u False "used vs @ gap t"] rp by simp
    show ?thesis
    proof (cases t)
      case None
      have adv: "pop_advance ?r2 = Some ?r2"
        using nx Nil None r1 Lin us by (intro pop_advance_stop) (auto simp: rep_def)
      have "MergeBack ?r2 0 = (?r2, 0)"
        using MergeBack_noop [of ?r2 "[]" "gsize g + u" True "[]"] r1 Nil None nx by (auto simp: rep_def)
      then have "ring_PopFirst r = Some (True, ?r2)"
        using PopFirst_unfold [OF nf m1 adv] nx Nil None by simp
      moreover have "ring_shape ?r2 (pop_shape sh)"
        using r1 Lin us Nil nx None u by (auto simp: ring_shape_def rep_def split: if_splits)
      ultimately show ?thesis using k by auto
    next
      case (Some ts)
      have adv: "pop_advance ?r2 = Some ?r2"
        using nx Nil Some r1 Lin us u by (intro pop_advance_stop) (auto simp: rep_def)
      have "rep ?r2 ([] @ (gsize g + u, True) # (ts, True) # []) (gsize g + u) (gsize g + u)"
        using r1 nx Nil Some Lin us u by (simp add: rep_def)
      from MergeBack_merge [OF this] obtain r3 where
        r3: "MergeBack ?r2 (gsize g + u) = (r3, 0)" "rep r3 [(gsize g + u + ts, True)] 0 0"
          "r_Recycle r3 = r_Recycle r1" "r_Popped r3 = r_Popped r1"
        using u by auto
      have "ring_PopFirst r = Some (True, r3)"
        using PopFirst_unfold [OF nf m1 adv] nx Nil Some r3(1) by simp
      moreover have "ring_shape r3 (pop_shape sh)"
        using r3(2) Lin us Nil Some by (simp add: ring_shape_def)
      ultimately show ?thesis using k r3 by auto
    qed
  qed
next
  case (Wrap vs0 g us t)
  with assms obtain u vs where us: "us = u # vs" by (cases us) (auto simp: ring_shape_def)
  have ne: "vs0 \<noteq> []" using assms(1) Wrap by (simp add: ring_shape_def)
  obtain v0 ws0 where vs0: "vs0 = v0 # ws0" using ne by (cases vs0) auto
  have rp: "rep r (used vs0 @ gap g @ (u, False) # (used vs @ gap t)) (produce_at sh) (consume_at sh)"
    using assms(1) Wrap us by (simp add: ring_shape_def)
  have c: "consume_at sh = sum_list vs0 + gsize g" using Wrap by simp
  have p: "produce_at sh = sum_list vs0" using Wrap by simp
  note ptr = rep_pointers [OF rp]
  have nf: "\<not> it_free (r_mem r (r_Consume r))"
    using rep_block(1) [of r "used vs0 @ gap g" u False "used vs @ gap t"] rp ptr c by simp
  have vpos: "0 < sum_list vs0" using sum_pos [of r "[]" vs0] rp ne by simp
  from free_and_merge [OF rp _ _ refl] obtain r1 where
    m1: "MergeBack (r\<lparr>r_Popped := r_Popped r @ [r_Consume r + ITEM_SIZE],
          r_mem := (r_mem r)(r_Consume r := (r_mem r (r_Consume r))\<lparr>it_free := True\<rparr>)\<rparr>) (r_Consume r) = (r1, sum_list vs0)"
    and r1: "rep r1 (used vs0 @ (gsize g + u, True) # (used vs @ gap t)) (sum_list vs0) (sum_list vs0)"
    and k: "r_Recycle r1 = r_Recycle r" "r_Popped r1 = r_Popped r @ [consume_at sh + ITEM_SIZE]"
    using ptr c p last_used [OF ne] by (auto split: if_splits)
  have u: "0 < u" using rep_block(2) [of r "used vs0 @ gap g" u False "used vs @ gap t"] rp by simp
  have nx: "NextBlock r1 (sum_list vs0) = (if used vs @ gap t = [] then 0 else sum_list vs0 + (gsize g + u))"
    using rep_block(3) [of r1 "used vs0" "gsize g + u" True "used vs @ gap t"] r1 by simp
  have first: "\<not> it_free (r_mem r1 0)"
    using rep_block(1) [of r1 "[]" v0 False] r1 vs0 by simp
  let ?r2 = "r1\<lparr>r_Consume := NextBlock r1 (sum_list vs0)\<rparr>"
  show ?thesis
  proof (cases vs)
    case (Cons v ws)
    have nf1: "\<not> it_free (r_mem r1 (sum_list vs0 + (gsize g + u)))"
      using rep_block(1) [of r1 "used vs0 @ [(gsize g + u, True)]" v False "used ws @ gap t"] r1 Cons by simp
    have adv: "pop_advance ?r2 = Some ?r2"
      using nf1 nx Cons by (intro pop_advance_stop) simp
    have "ring_PopFirst r = Some (True, ?r2)"
      using PopFirst_unfold [OF nf m1 adv] nf1 nx Cons by (simp add: MergeBack_used)
    moreover have "ring_shape ?r2 (pop_shape sh)"
      using r1 Wrap us Cons nx ne by (auto simp: ring_shape_def rep_def)
    ultimately show ?thesis using k by auto
  next
    case Nil
    show ?thesis
    proof (cases t)
      case None
      have adv: "pop_advance ?r2 = Some ?r2"
        using nx Nil None first by (intro pop_advance_stop) simp
      have "ring_PopFirst r = Some (True, ?r2)"
        using PopFirst_unfold [OF nf m1 adv] nx Nil None first by (simp add: MergeBack_used)
      moreover have "ring_shape ?r2 (pop_shape sh)"
        using r1 Wrap us Nil nx None ne by (auto simp: ring_shape_def rep_def)
      ultimately show ?thesis using k by auto
    next
      case (Some ts)
      have "rep ?r2 (used vs0 @ (gsize g + u, True) # (ts, True) # []) (sum_list vs0) (sum_list vs0 + (gsize g + u))"
        using r1 nx Nil Some by (simp add: rep_def)
      from MergeBack_merge [OF this] obtain r3 where
        r3: "MergeBack ?r2 (sum_list vs0 + (gsize g + u)) = (r3, sum_list vs0)"
          "rep r3 (used vs0 @ [(gsize g + u + ts, True)]) (sum_list vs0) (sum_list vs0)"
          "r_Recycle r3 = r_Recycle r1" "r_Popped r3 = r_Popped r1"
        using u by auto
      have nx3: "NextBlock r3 (sum_list vs0) = 0"
        using rep_block(3) [of r3 "used vs0" "gsize g + u + ts" True "[]"] r3(2) by simp
      have first3: "\<not> it_free (r_mem r3 0)"
        using rep_block(1) [of r3 "[]" v0 False] r3(2) vs0 by simp
      let ?r4 = "r3\<lparr>r_Consume := 0\<rparr>"
      have free: "it_free (r_mem r1 (sum_list vs0 + (gsize g + u)))"
        using rep_block(1) [of r1 "used vs0 @ [(gsize g + u, True)]" ts True "[]"] r1 Nil Some by simp
      have "pop_advance ?r2 = pop_advance ?r4"
        using nx Nil Some free u r3(1) r1 nx3
        by (subst pop_advance.simps) (auto simp: rep_def)
      also have "\<dots> = Some ?r4" using first3 by (intro pop_advance_stop) simp
      finally have adv: "pop_advance ?r2 = Some ?r4" .
      have "ring_PopFirst r = Some (True, ?r4)"
        using PopFirst_unfold [OF nf m1 adv] first3 by (simp add: MergeBack_used)
      moreover have "ring_shape ?r4 (pop_shape sh)"
        using r3(2) Wrap us Nil Some ne by (auto simp: ring_shape_def rep_def)
      ultimately show ?thesis using k r3 by auto
    qed
  qed
qed

subsection \<open>Allocating\<close>

text \<open>How a free block of size \<open>s\<close> is divided: the block taken and what stays free.\<close>

definition place :: "nat \<Rightarrow> nat \<Rightarrow> nat \<times> nat option" where
  "place W s = (if W + ITEM_SIZE < s then (W, Some (s - W)) else (s, None))"

fun alloc_shape :: "nat \<Rightarrow> shape \<Rightarrow> (nat \<times> shape) option" where
  "alloc_shape W (Empty n) =
     (if W \<le> n then Some (0, Lin None [fst (place W n)] (snd (place W n))) else None)"
| "alloc_shape W (Lin g us t) =
     (if t \<noteq> None \<and> W \<le> gsize t
      then Some (gsize g + sum_list us, Lin g (us @ [fst (place W (gsize t))]) (snd (place W (gsize t))))
      else if g \<noteq> None \<and> W \<le> gsize g
      then Some (0, Wrap [fst (place W (gsize g))] (snd (place W (gsize g))) us t)
      else None)"
| "alloc_shape W (Wrap vs g us t) =
     (if g \<noteq> None \<and> W \<le> gsize g
      then Some (sum_list vs, Wrap (vs @ [fst (place W (gsize g))]) (snd (place W (gsize g))) us t)
      else None)"

lemma place_size: "W \<le> s \<Longrightarrow> W \<le> fst (place W s) \<and> fst (place W s) + gsize (snd (place W s)) = s"
  by (auto simp: place_def)

lemma find_block_shape:
  assumes "ring_shape r sh"
  shows "find_block r W = map_option fst (alloc_shape W sh)"
proof -
  have rp: "rep r (layout sh) (produce_at sh) (consume_at sh)" and ok: "shape_ok sh"
    using assms by (auto simp: ring_shape_def)
  note ptr = rep_pointers [OF rp]
  show ?thesis
  proof (cases sh)
    case (Empty n)
    with rep_block(1) [of r "[]" n True "[]"] rp ptr show ?thesis by (simp add: find_block_def)
  next
    case (Lin g us t)
    obtain u vs where us: "us = u # vs" using ok Lin by (cases us) auto
    have first: "it_free (r_mem r 0) = (g \<noteq> None) \<and> (g \<noteq> None \<longrightarrow> it_size (r_mem r 0) = gsize g)"
      using rep_block(1) [of r "[]" _ _ "used us @ gap t"] rep_block(1) [of r "[]" u False "used vs @ gap t"] rp Lin us
      by (cases g) auto
    show ?thesis
    proof (cases t)
      case None
      with Lin first ptr show ?thesis by (auto simp: find_block_def)
    next
      case (Some ts)
      have "r_mem r (gsize g + sum_list us) =
          \<lparr>it_prev = prev_of None 0 (gap g @ used us), it_next = None, it_free = True, it_size = ts\<rparr>"
        using rep_block(1) [of r "gap g @ used us" ts True "[]"] rp Lin Some by simp
      with Lin Some first ptr show ?thesis by (auto simp: find_block_def)
    qed
  next
    case (Wrap vs g us t)
    obtain u ws where us: "us = u # ws" using ok Wrap by (cases us) auto
    obtain v xs where vs: "vs = v # xs" using ok Wrap by (cases vs) auto
    have first: "\<not> it_free (r_mem r 0)"
      using rep_block(1) [of r "[]" v False] rp Wrap vs by simp
    have "it_free (r_mem r (sum_list vs)) = (g \<noteq> None) \<and> (g \<noteq> None \<longrightarrow> it_size (r_mem r (sum_list vs)) = gsize g)"
      using rep_block(1) [of r "used vs" _ _ "used us @ gap t"] rep_block(1) [of r "used vs" u False "used ws @ gap t"] rp Wrap us
      by (cases g) auto
    with Wrap first ptr show ?thesis by (auto simp: find_block_def)
  qed
qed

lemma take_block:
  assumes "rep r (xs @ (s, True) # ys) pr co" "0 < W" "W \<le> s"
    and "r2 = split_block r (tot xs) W" "r3 = r2\<lparr>r_Produce := NextBlock r2 (tot xs)\<rparr>"
    and "r4 = r3\<lparr>r_mem := (r_mem r3)(tot xs := (r_mem r3 (tot xs))\<lparr>it_free := False\<rparr>)\<rparr>"
  shows "rep r4 (xs @ (fst (place W s), False) # gap (snd (place W s)) @ ys)
    (if gap (snd (place W s)) @ ys = [] then 0 else tot xs + fst (place W s)) co \<and>
    r_Recycle r4 = r_Recycle r \<and> r_Popped r4 = r_Popped r"
proof -
  have r2: "rep r2 (xs @ (fst (place W s), True) # gap (snd (place W s)) @ ys) pr co"
  proof (cases "W + ITEM_SIZE < s")
    case True
    with rep_split [OF assms(1) True assms(2)] assms(4) show ?thesis by (simp add: place_def)
  next
    case False
    have "split_block r (tot xs) W = r"
      using False rep_block(1) [OF assms(1)] by (simp add: split_block_def Let_def)
    with False assms show ?thesis by (simp add: place_def)
  qed
  have k: "r_Recycle r2 = r_Recycle r \<and> r_Popped r2 = r_Popped r"
    by (auto simp: assms(4) split_block_def Let_def)
  have "rep r3 (xs @ (fst (place W s), True) # gap (snd (place W s)) @ ys)
    (if gap (snd (place W s)) @ ys = [] then 0 else tot xs + fst (place W s)) co"
    using r2 rep_block(3) [OF r2] assms(5) by (simp add: rep_def)
  from rep_set_free [OF this, of False] k show ?thesis by (simp add: assms(5,6))
qed

definition take_steps :: "ring \<Rightarrow> nat \<Rightarrow> nat \<Rightarrow> ring" where
  "take_steps r b W =
     (let r2 = split_block r b W; r3 = r2\<lparr>r_Produce := NextBlock r2 b\<rparr>
      in r3\<lparr>r_mem := (r_mem r3)(b := (r_mem r3 b)\<lparr>it_free := False\<rparr>)\<rparr>)"

lemma take_steps_shape:
  assumes "ring_shape r sh" "alloc_shape W sh = Some (b, sh')" "0 < W"
  shows "ring_shape (take_steps r b W) sh' \<and> r_Recycle (take_steps r b W) = r_Recycle r \<and>
    r_Popped (take_steps r b W) = r_Popped r"
proof -
  have rp: "rep r (layout sh) (produce_at sh) (consume_at sh)" and ok: "shape_ok sh"
    using assms by (auto simp: ring_shape_def)
  show ?thesis
  proof (cases sh)
    case (Empty n)
    with assms(2) have W: "W \<le> n" and b: "b = 0" and sh': "sh' = Lin None [fst (place W n)] (snd (place W n))"
      by (auto split: if_splits)
    from take_block [of r "[]" n "[]" _ _ W, OF _ assms(3) W refl refl refl] rp Empty
    have "rep (take_steps r 0 W) ((fst (place W n), False) # gap (snd (place W n)))
      (if gap (snd (place W n)) = [] then 0 else fst (place W n)) 0 \<and>
      r_Recycle (take_steps r 0 W) = r_Recycle r \<and> r_Popped (take_steps r 0 W) = r_Popped r"
      by (simp add: take_steps_def Let_def cong: if_cong)
    with b sh' show ?thesis by (cases "snd (place W n)") (auto simp: ring_shape_def)
  next
    case (Lin g us t)
    show ?thesis
    proof (cases "t \<noteq> None \<and> W \<le> gsize t")
      case True
      then obtain ts where t: "t = Some ts" and W: "W \<le> ts" by auto
      with assms(2) Lin have b: "b = gsize g + sum_list us"
        and sh': "sh' = Lin g (us @ [fst (place W ts)]) (snd (place W ts))" by auto
      have "rep r ((gap g @ used us) @ (ts, True) # []) (produce_at sh) (consume_at sh)"
        using rp Lin t by simp
      from take_block [OF this assms(3) W refl refl refl]
      have "rep (take_steps r b W) ((gap g @ used us) @ (fst (place W ts), False) # gap (snd (place W ts)))
        (if gap (snd (place W ts)) = [] then 0 else gsize g + sum_list us + fst (place W ts)) (gsize g) \<and>
        r_Recycle (take_steps r b W) = r_Recycle r \<and> r_Popped (take_steps r b W) = r_Popped r"
        using b Lin by (simp add: take_steps_def Let_def cong: if_cong)
      with sh' ok Lin show ?thesis by (cases "snd (place W ts)") (auto simp: ring_shape_def add.assoc)
    next
      case False
      with assms(2) Lin obtain gs where g: "g = Some gs" and W: "W \<le> gs" and b: "b = 0"
        and sh': "sh' = Wrap [fst (place W gs)] (snd (place W gs)) us t"
        by (auto split: if_splits)
      have "rep r ([] @ (gs, True) # (used us @ gap t)) (produce_at sh) (consume_at sh)"
        using rp Lin g by simp
      from take_block [OF this assms(3) W refl refl refl]
      have "rep (take_steps r 0 W) ((fst (place W gs), False) # gap (snd (place W gs)) @ used us @ gap t)
        (if gap (snd (place W gs)) @ used us @ gap t = [] then 0 else fst (place W gs)) gs \<and>
        r_Recycle (take_steps r 0 W) = r_Recycle r \<and> r_Popped (take_steps r 0 W) = r_Popped r"
        using Lin g by (simp add: take_steps_def Let_def cong: if_cong)
      with sh' ok Lin b place_size [OF W] show ?thesis
        by (auto simp: ring_shape_def)
    qed
  next
    case (Wrap vs g us t)
    with assms(2) obtain gs where g: "g = Some gs" and W: "W \<le> gs" and b: "b = sum_list vs"
      and sh': "sh' = Wrap (vs @ [fst (place W gs)]) (snd (place W gs)) us t"
      by (auto split: if_splits)
    have "rep r (used vs @ (gs, True) # (used us @ gap t)) (produce_at sh) (consume_at sh)"
      using rp Wrap g by simp
    from take_block [OF this assms(3) W refl refl refl]
    have "rep (take_steps r b W) (used vs @ (fst (place W gs), False) # gap (snd (place W gs)) @ used us @ gap t)
      (if gap (snd (place W gs)) @ used us @ gap t = [] then 0 else sum_list vs + fst (place W gs)) (sum_list vs + gs) \<and>
      r_Recycle (take_steps r b W) = r_Recycle r \<and> r_Popped (take_steps r b W) = r_Popped r"
      using Wrap g b by (simp add: take_steps_def Let_def cong: if_cong)
    with sh' ok Wrap place_size [OF W] show ?thesis
      by (auto simp: ring_shape_def add.assoc)
  qed
qed

lemma alloc_shape_contents:
  "alloc_shape W sh = Some (b, sh') \<Longrightarrow>
     \<exists>w. W \<le> w \<and> contents sh' = contents sh @ [(b, w)] \<and> tot (layout sh') = tot (layout sh)"
proof (cases sh)
  case (Empty n)
  moreover assume "alloc_shape W sh = Some (b, sh')"
  ultimately show ?thesis using place_size [of W n] by (auto split: if_splits)
next
  case (Lin g us t)
  moreover assume "alloc_shape W sh = Some (b, sh')"
  ultimately show ?thesis using place_size [of W "gsize t"] place_size [of W "gsize g"]
    by (auto simp: blocks_from_append add.assoc split: if_splits)
next
  case (Wrap vs g us t)
  moreover assume "alloc_shape W sh = Some (b, sh')"
  ultimately show ?thesis using place_size [of W "gsize g"]
    by (auto simp: blocks_from_append add.assoc split: if_splits)
qed

lemma pop_shape_facts:
  assumes "shape_ok sh"
  shows "contents (pop_shape sh) = tl (contents sh)" "tot (layout (pop_shape sh)) = tot (layout sh)"
    "contents sh \<noteq> [] \<Longrightarrow> fst (hd (contents sh)) = consume_at sh"
  using assms by (cases sh rule: pop_shape.cases; auto simp: add.assoc)+

lemma contents_Nil: "shape_ok sh \<Longrightarrow> contents sh = [] \<longleftrightarrow> (\<exists>n. sh = Empty n)"
  by (cases sh) auto

subsection \<open>The ring as a queue\<close>

definition ring_holds :: "ring \<Rightarrow> (nat \<times> nat) list \<Rightarrow> bool" where
  "ring_holds r q \<longleftrightarrow> (\<exists>sh. ring_shape r sh \<and> contents sh = q)"

lemma ring_shape_size: "ring_shape r sh \<Longrightarrow> tot (layout sh) = r_Size r"
  by (auto simp: ring_shape_def dest: rep_pointers)

lemma PopFirst_holds:
  assumes "ring_holds r q"
  shows "case q of
      [] \<Rightarrow> ring_PopFirst r = Some (False, r)
    | (a, s) # q' \<Rightarrow> \<exists>r'. ring_PopFirst r = Some (True, r') \<and> ring_holds r' q' \<and>
        r_Popped r' = r_Popped r @ [a + ITEM_SIZE] \<and> r_Recycle r' = r_Recycle r \<and> r_Size r' = r_Size r"
proof -
  from assms obtain sh where sh: "ring_shape r sh" "contents sh = q" by (auto simp: ring_holds_def)
  then have ok: "shape_ok sh" by (simp add: ring_shape_def)
  show ?thesis
  proof (cases q)
    case Nil
    with sh ok obtain n where "sh = Empty n" using contents_Nil by auto
    with sh rep_block(1) [of r "[]" n True "[]"] rep_pointers [of r "[(n, True)]" 0 0]
    have "it_free (r_mem r (r_Consume r))" by (simp add: ring_shape_def)
    with Nil show ?thesis by (simp add: ring_PopFirst_def)
  next
    case (Cons x q')
    with sh have ne: "contents sh \<noteq> []" by simp
    from PopFirst_shape [OF sh(1) ne] obtain r' where r': "ring_PopFirst r = Some (True, r')"
      "ring_shape r' (pop_shape sh)" "r_Recycle r' = r_Recycle r"
      "r_Popped r' = r_Popped r @ [consume_at sh + ITEM_SIZE]" by blast
    have "ring_holds r' q'" using r'(2) pop_shape_facts(1) [OF ok] sh Cons by (auto simp: ring_holds_def)
    moreover have "r_Size r' = r_Size r"
      using ring_shape_size [OF r'(2)] ring_shape_size [OF sh(1)] pop_shape_facts(2) [OF ok] by simp
    moreover have "fst x = consume_at sh" using pop_shape_facts(3) [OF ok ne] sh Cons by simp
    ultimately show ?thesis using r' Cons by (cases x) auto
  qed
qed

text \<open>The effect of taking block \<open>b\<close> after \<open>k\<close> of the oldest blocks were recycled.\<close>

definition alloc_post :: "ring \<Rightarrow> (nat \<times> nat) list \<Rightarrow> nat \<Rightarrow> nat \<Rightarrow> ring \<Rightarrow> nat \<Rightarrow> nat \<Rightarrow> bool" where
  "alloc_post r q W b r' k w \<longleftrightarrow>
     (0 < k \<longrightarrow> r_Recycle r) \<and> k \<le> length q \<and> W \<le> w \<and> ring_holds r' (drop k q @ [(b, w)]) \<and>
     r_Popped r' = r_Popped r @ map (\<lambda>(a, s). a + ITEM_SIZE) (take k q) \<and>
     r_Recycle r' = r_Recycle r \<and> r_Size r' = r_Size r"

lemma alloc_loop_holds:
  assumes "ring_holds r q" "0 < W" "W \<le> r_Size r"
  shows "\<exists>res r'. alloc_loop W r = Some (res, r') \<and> r_Recycle r' = r_Recycle r \<and> r_Size r' = r_Size r \<and>
    (case res of
       None \<Rightarrow> r' = r \<and> \<not> r_Recycle r
     | Some b \<Rightarrow> \<exists>k w. alloc_post r q W b (take_steps r' b W) k w)"
  using assms
proof (induction q arbitrary: r)
  case Nil
  then obtain sh where sh: "ring_shape r sh" "contents sh = []" by (auto simp: ring_holds_def)
  then obtain n where n: "sh = Empty n" using contents_Nil [of sh] by (auto simp: ring_shape_def)
  then have "n = r_Size r" using ring_shape_size [OF sh(1)] by simp
  with Nil(3) n obtain sh' where a: "alloc_shape W sh = Some (0, sh')" by simp
  then have "alloc_loop W r = Some (Some 0, r)"
    using find_block_shape [OF sh(1), of W] by (subst alloc_loop.simps) simp
  moreover from alloc_shape_contents [OF a] obtain w where
    w: "W \<le> w" "contents sh' = [(0, w)]" "tot (layout sh') = tot (layout sh)" using sh by auto
  moreover from take_steps_shape [OF sh(1) a Nil(2)] w sh
  have "alloc_post r [] W 0 (take_steps r 0 W) 0 w"
    using ring_shape_size [of "take_steps r 0 W" sh'] ring_shape_size [OF sh(1)]
    by (auto simp: ring_holds_def alloc_post_def)
  ultimately show ?case by fastforce
next
  case (Cons x q)
  then obtain sh where sh: "ring_shape r sh" "contents sh = x # q" by (auto simp: ring_holds_def)
  show ?case
  proof (cases "alloc_shape W sh")
    case (Some bs)
    obtain b sh' where b: "bs = (b, sh')" by (cases bs)
    have a: "alloc_shape W sh = Some (b, sh')" using Some b by simp
    then have "alloc_loop W r = Some (Some b, r)"
      using find_block_shape [OF sh(1), of W] by (subst alloc_loop.simps) simp
    moreover from alloc_shape_contents [OF a] obtain w where
      w: "W \<le> w" "contents sh' = x # q @ [(b, w)]" "tot (layout sh') = tot (layout sh)" using sh by auto
    moreover from take_steps_shape [OF sh(1) a Cons.prems(2)] w sh
    have "alloc_post r (x # q) W b (take_steps r b W) 0 w"
      using ring_shape_size [of "take_steps r b W" sh'] ring_shape_size [OF sh(1)]
      by (auto simp: ring_holds_def alloc_post_def)
    ultimately show ?thesis by fastforce
  next
    case None
    then have f: "find_block r W = None" using find_block_shape [OF sh(1), of W] by simp
    show ?thesis
    proof (cases "r_Recycle r")
      case False
      with f show ?thesis by (subst alloc_loop.simps) simp
    next
      case True
      obtain a s where x: "x = (a, s)" by (cases x)
      from PopFirst_holds [OF Cons.prems(1)] x obtain r1 where r1: "ring_PopFirst r = Some (True, r1)"
        "ring_holds r1 q" "r_Popped r1 = r_Popped r @ [a + ITEM_SIZE]" "r_Recycle r1 = r_Recycle r"
        "r_Size r1 = r_Size r" by auto
      have step: "alloc_loop W r = alloc_loop W r1"
        using f True r1(1) by (subst alloc_loop.simps) simp
      from Cons.IH [OF r1(2) Cons.prems(2)] Cons.prems(3) r1(5) obtain res r' where
        go: "alloc_loop W r1 = Some (res, r')" "r_Recycle r' = r_Recycle r1" "r_Size r' = r_Size r1"
        and res: "case res of None \<Rightarrow> r' = r1 \<and> \<not> r_Recycle r1
          | Some b \<Rightarrow> \<exists>k w. alloc_post r1 q W b (take_steps r' b W) k w"
        by auto
      from True r1(4) res obtain b where b: "res = Some b" by (cases res) auto
      with res obtain k w where "alloc_post r1 q W b (take_steps r' b W) k w" by auto
      then have "alloc_post r (x # q) W b (take_steps r' b W) (Suc k) w"
        using r1 True x by (simp add: alloc_post_def)
      with step go r1 b show ?thesis by fastforce
    qed
  qed
qed

lemma Allocate_holds:
  assumes "ring_holds r q"
  shows "\<exists>res r'. ring_Allocate r Size = Some (res, r') \<and> r_Recycle r' = r_Recycle r \<and> r_Size r' = r_Size r \<and>
    (case res of
       None \<Rightarrow> r' = r \<and> (r_Size r < wanted_size Size \<or> \<not> r_Recycle r)
     | Some p \<Rightarrow> \<exists>a k w. p = a + ITEM_SIZE \<and> alloc_post r q (wanted_size Size) a r' k w)"
proof (cases "wanted_size Size \<le> r_Size r")
  case False
  then show ?thesis by (simp add: ring_Allocate_def)
next
  case True
  have pos: "0 < wanted_size Size" by (simp add: wanted_size_def ITEM_SIZE_def div_greater_zero_iff)
  from alloc_loop_holds [OF assms pos True] obtain res r1 where
    go: "alloc_loop (wanted_size Size) r = Some (res, r1)" "r_Recycle r1 = r_Recycle r" "r_Size r1 = r_Size r"
    and res: "case res of None \<Rightarrow> r1 = r \<and> \<not> r_Recycle r
      | Some b \<Rightarrow> \<exists>k w. alloc_post r q (wanted_size Size) b (take_steps r1 b (wanted_size Size)) k w" by blast
  have "ring_Allocate r Size = Some (case res of None \<Rightarrow> (None, r1)
      | Some b \<Rightarrow> (Some (b + ITEM_SIZE), take_steps r1 b (wanted_size Size)))"
    using True go(1) by (auto simp: ring_Allocate_def Let_def take_steps_def split: option.splits)
  note alloc = this
  show ?thesis
  proof (cases res)
    case None
    with alloc go res show ?thesis by simp
  next
    case (Some b)
    with res obtain k w where kw: "alloc_post r q (wanted_size Size) b (take_steps r1 b (wanted_size Size)) k w" by auto
    then have "r_Recycle (take_steps r1 b (wanted_size Size)) = r_Recycle r"
      "r_Size (take_steps r1 b (wanted_size Size)) = r_Size r" by (simp_all add: alloc_post_def)
    with alloc Some kw show ?thesis by simp blast
  qed
qed

subsection \<open>Walking through the queue\<close>

lemma blocks_from_split:
  "blocks_from a us = qs @ (b, s) # qs' \<Longrightarrow>
     \<exists>xs ys. us = xs @ s # ys \<and> b = a + sum_list xs \<and> qs = blocks_from a xs \<and> qs' = blocks_from (b + s) ys"
proof (induction us arbitrary: a qs)
  case (Cons u us)
  show ?case
  proof (cases qs)
    case Nil
    with Cons.prems show ?thesis by (intro exI [of _ "[]"] exI [of _ us]) auto
  next
    case (Cons x qs1)
    with Cons.prems have "blocks_from (a + u) us = qs1 @ (b, s) # qs'" "x = (a, u)" by auto
    with Cons.IH [OF this(1)] Cons obtain xs ys where "us = xs @ s # ys" "b = a + u + sum_list xs"
      "qs1 = blocks_from (a + u) xs" "qs' = blocks_from (b + s) ys" by auto
    with \<open>x = (a, u)\<close> Cons show ?thesis by (intro exI [of _ "u # xs"] exI [of _ ys]) auto
  qed
qed simp

definition next_answer :: "(nat \<times> nat) list \<Rightarrow> nat option" where
  "next_answer q = (case q of [] \<Rightarrow> None | (b, s) # _ \<Rightarrow> Some (b + ITEM_SIZE))"

lemma next_answer_blocks [simp]:
  "next_answer [] = None" "next_answer (blocks_from a (u # us)) = Some (a + ITEM_SIZE)"
  "next_answer (blocks_from a (u # us) @ z) = Some (a + ITEM_SIZE)"
  "next_answer ((a, u) # z) = Some (a + ITEM_SIZE)"
  by (simp_all add: next_answer_def)

lemma next_loop_produce: "NextBlock r p = r_Produce r \<Longrightarrow> next_loop r p = Some None"
  by (subst next_loop.simps) (simp add: Let_def)

lemma next_loop_used:
  "NextBlock r p = n \<Longrightarrow> n \<noteq> r_Produce r \<Longrightarrow> \<not> it_free (r_mem r n) \<Longrightarrow> next_loop r p = Some (Some (n + ITEM_SIZE))"
  by (subst next_loop.simps) (simp add: Let_def)

lemma next_loop_free:
  "NextBlock r p = n \<Longrightarrow> n \<noteq> r_Produce r \<Longrightarrow> it_free (r_mem r n) \<Longrightarrow> next_loop r p = next_loop r n"
  by (subst next_loop.simps) (simp add: Let_def)

lemma Next_holds:
  assumes "ring_holds r (qs @ (b, s) # qs')"
  shows "ring_Next r (b + ITEM_SIZE) = Some (next_answer qs')"
proof -
  from assms obtain sh where sh: "ring_shape r sh" "contents sh = qs @ (b, s) # qs'"
    by (auto simp: ring_holds_def)
  then have rp: "rep r (layout sh) (produce_at sh) (consume_at sh)" and ok: "shape_ok sh"
    by (auto simp: ring_shape_def)
  note ptr = rep_pointers [OF rp]
  have "next_loop r b = Some (next_answer qs')"
  proof (cases sh)
    case (Empty n)
    with sh show ?thesis by simp
  next
    case (Lin g us t)
    with sh blocks_from_split [of "gsize g" us qs b s qs'] obtain xs ys where
      us: "us = xs @ s # ys" "b = gsize g + sum_list xs" "qs' = blocks_from (b + s) ys" by auto
    have rp': "rep r ((gap g @ used xs) @ (s, False) # (used ys @ gap t)) (produce_at sh) (consume_at sh)"
      using rp Lin us by simp
    have nx: "NextBlock r b = (if used ys @ gap t = [] then 0 else b + s)"
      using rep_block(3) [OF rp'] us by simp
    have spos: "0 < s" by (rule rep_block(2) [OF rp'])
    show ?thesis
    proof (cases ys)
      case Nil
      with nx ptr Lin us have "NextBlock r b = r_Produce r" by (cases t) auto
      with Nil us show ?thesis by (simp add: next_loop_produce)
    next
      case (Cons y zs)
      have rp2: "rep r ((gap g @ used xs @ [(s, False)]) @ (y, False) # (used zs @ gap t)) (produce_at sh) (consume_at sh)"
        using rp' Cons by simp
      have "\<not> it_free (r_mem r (b + s))" "0 < y"
        using rep_block(1,2) [OF rp2] us by (simp_all add: add.assoc)
      moreover have "b + s \<noteq> r_Produce r" using ptr Lin us Cons spos \<open>0 < y\<close> by auto
      ultimately show ?thesis using nx Cons us next_loop_used [of r b "b + s"] by simp
    qed
  next
    case (Wrap vs g us t)
    obtain v0 vs0 where vs0: "vs = v0 # vs0" using ok Wrap by (cases vs) auto
    have first: "\<not> it_free (r_mem r 0)" and v0: "0 < v0"
      using rep_block(1,2) [of r "[]" v0 False] rp Wrap vs0 by simp_all
    consider (old) qs2 where "blocks_from (sum_list vs + gsize g) us = qs @ (b, s) # qs2" "qs' = qs2 @ blocks_from 0 vs"
      | (new) qs1 where "blocks_from 0 vs = qs1 @ (b, s) # qs'"
    proof -
      have "blocks_from (sum_list vs + gsize g) us @ blocks_from 0 vs = qs @ (b, s) # qs'"
        using sh Wrap by simp
      then show thesis
        using old new by (auto simp: append_eq_append_conv2 append_eq_Cons_conv Cons_eq_append_conv)
    qed
    then show ?thesis
    proof cases
      case old
      from blocks_from_split [OF old(1)] obtain xs ys where
        us: "us = xs @ s # ys" "b = sum_list vs + gsize g + sum_list xs" "qs2 = blocks_from (b + s) ys" by auto
      have rp': "rep r ((used vs @ gap g @ used xs) @ (s, False) # (used ys @ gap t)) (produce_at sh) (consume_at sh)"
        using rp Wrap us by simp
      have nx: "NextBlock r b = (if used ys @ gap t = [] then 0 else b + s)"
        using rep_block(3) [OF rp'] us by (simp add: add.assoc)
      have spos: "0 < s" by (rule rep_block(2) [OF rp'])
      have p0: "0 \<noteq> r_Produce r" using ptr Wrap vs0 v0 by simp
      have ans: "next_answer (blocks_from 0 vs) = Some (0 + ITEM_SIZE)" using vs0 by simp
      show ?thesis
      proof (cases ys)
        case Nil
        show ?thesis
        proof (cases t)
          case None
          with nx Nil have "NextBlock r b = 0" by simp
          with next_loop_used [OF this p0 first] ans old(2) us(3) Nil show ?thesis by simp
        next
          case (Some ts)
          have rp2: "rep r ((used vs @ gap g @ used xs @ [(s, False)]) @ (ts, True) # []) (produce_at sh) (consume_at sh)"
            using rp' Nil Some by simp
          have "it_free (r_mem r (b + s))" "NextBlock r (b + s) = 0"
            using rep_block(1,3) [OF rp2] us by (simp_all add: add.assoc)
          moreover have "b + s \<noteq> r_Produce r" using ptr Wrap us spos by simp
          moreover have "NextBlock r b = b + s" using nx Some by simp
          ultimately have "next_loop r b = next_loop r (b + s)" "next_loop r (b + s) = Some (Some (0 + ITEM_SIZE))"
            using next_loop_free [of r b] next_loop_used [OF _ p0 first] by auto
          with ans old(2) us(3) Nil show ?thesis by simp
        qed
      next
        case (Cons y zs)
        have rp2: "rep r ((used vs @ gap g @ used xs @ [(s, False)]) @ (y, False) # (used zs @ gap t)) (produce_at sh) (consume_at sh)"
          using rp' Cons by simp
        have "\<not> it_free (r_mem r (b + s))" using rep_block(1) [OF rp2] us by (simp add: add.assoc)
        moreover have "b + s \<noteq> r_Produce r" using ptr Wrap us spos by simp
        ultimately show ?thesis using nx Cons us old(2) next_loop_used [of r b "b + s"] by simp
      qed
    next
      case new
      from blocks_from_split [OF new] obtain xs ys where
        vs: "vs = xs @ s # ys" "b = sum_list xs" "qs' = blocks_from (b + s) ys" by auto
      have rp': "rep r (used xs @ (s, False) # (used ys @ gap g @ used us @ gap t)) (produce_at sh) (consume_at sh)"
        using rp Wrap vs by simp
      have "us \<noteq> []" using ok Wrap by simp
      then have nx: "NextBlock r b = b + s"
        using rep_block(3) [OF rp'] vs by simp
      show ?thesis
      proof (cases ys)
        case Nil
        with nx ptr Wrap vs have "NextBlock r b = r_Produce r" by simp
        with Nil vs show ?thesis by (simp add: next_loop_produce)
      next
        case (Cons y zs)
        have rp2: "rep r ((used xs @ [(s, False)]) @ (y, False) # (used zs @ gap g @ used us @ gap t)) (produce_at sh) (consume_at sh)"
          using rp' Cons by simp
        have "\<not> it_free (r_mem r (b + s))" "0 < y" using rep_block(1,2) [OF rp2] vs by simp_all
        moreover have "b + s \<noteq> r_Produce r" using ptr Wrap vs Cons \<open>0 < y\<close> by simp
        ultimately show ?thesis using nx Cons vs next_loop_used [of r b "b + s"] by simp
      qed
    qed
  qed
  then show ?thesis by (simp add: ring_Next_def)
qed

lemma First_holds: "ring_holds r q \<Longrightarrow> ring_First r = next_answer q"
proof -
  assume "ring_holds r q"
  then obtain sh where sh: "ring_shape r sh" "contents sh = q" by (auto simp: ring_holds_def)
  then have rp: "rep r (layout sh) (produce_at sh) (consume_at sh)" and ok: "shape_ok sh"
    by (auto simp: ring_shape_def)
  note ptr = rep_pointers [OF rp]
  show "ring_First r = next_answer q"
  proof (cases sh)
    case (Empty n)
    with rep_block(1) [of r "[]" n True "[]"] rp ptr sh show ?thesis by (auto simp: ring_First_def)
  next
    case (Lin g us t)
    then obtain u vs where us: "us = u # vs" using ok by (cases us) auto
    from rep_block(1) [of r "gap g" u False "used vs @ gap t"] rp ptr Lin us
    have "\<not> it_free (r_mem r (r_Consume r))" by simp
    with sh Lin us ptr show ?thesis by (auto simp: ring_First_def next_answer_def)
  next
    case (Wrap ws g us t)
    then obtain u vs where us: "us = u # vs" using ok by (cases us) auto
    from rep_block(1) [of r "used ws @ gap g" u False "used vs @ gap t"] rp ptr Wrap us
    have "\<not> it_free (r_mem r (r_Consume r))" by simp
    with sh Wrap us ptr show ?thesis by (auto simp: ring_First_def next_answer_def)
  qed
qed

subsection \<open>Bounds\<close>

definition apart :: "nat \<times> nat \<Rightarrow> nat \<times> nat \<Rightarrow> bool" where
  "apart x y \<longleftrightarrow> fst x + snd x \<le> fst y \<or> fst y + snd y \<le> fst x"

lemma blocks_from_bounds: "x \<in> set (blocks_from a us) \<Longrightarrow> a \<le> fst x \<and> fst x + snd x \<le> a + sum_list us"
  by (induction us arbitrary: a) fastforce+

lemma blocks_from_apart: "sorted_wrt apart (blocks_from a us)"
proof (induction us arbitrary: a)
  case (Cons u us)
  have "apart (a, u) x" if "x \<in> set (blocks_from (a + u) us)" for x
    using blocks_from_bounds [OF that] by (simp add: apart_def)
  with Cons show ?case by simp
qed simp

lemma holds_bounds:
  assumes "ring_holds r q"
  shows "\<forall>x \<in> set q. fst x + snd x \<le> r_Size r" "sorted_wrt apart q" "\<forall>x \<in> set q. 0 < snd x"
proof -
  from assms obtain sh where sh: "ring_shape r sh" "contents sh = q" by (auto simp: ring_holds_def)
  then have size: "r_Size r = tot (layout sh)" using ring_shape_size by simp
  have pos: "0 < s" if "(s, f) \<in> set (layout sh)" for s f
  proof -
    from that obtain xs ys where "layout sh = xs @ (s, f) # ys" by (meson split_list)
    with sh(1) rep_block(2) [of r xs s f ys "produce_at sh" "consume_at sh"] show ?thesis
      by (simp add: ring_shape_def)
  qed
  have snd: "snd x \<in> set us" if "x \<in> set (blocks_from a us)" for x a us
    using that by (induction us arbitrary: a) fastforce+
  show "\<forall>x \<in> set q. fst x + snd x \<le> r_Size r"
  proof
    fix x assume "x \<in> set q"
    then show "fst x + snd x \<le> r_Size r"
      using sh(2) size blocks_from_bounds [of x] by (cases sh) force+
  qed
  show "\<forall>x \<in> set q. 0 < snd x"
  proof
    fix x assume "x \<in> set q"
    then have "(snd x, False) \<in> set (layout sh)"
      using sh(2) snd [of x] by (cases sh) (auto simp: used_def)
    then show "0 < snd x" by (rule pos)
  qed
  show "sorted_wrt apart q"
  proof (cases sh)
    case (Wrap vs g us t)
    have "apart x y" if "x \<in> set (blocks_from (sum_list vs + gsize g) us)" "y \<in> set (blocks_from 0 vs)" for x y
      using blocks_from_bounds [OF that(1)] blocks_from_bounds [OF that(2)] by (simp add: apart_def)
    with Wrap sh(2) show ?thesis by (auto simp: sorted_wrt_append blocks_from_apart)
  qed (use sh(2) in \<open>auto simp: blocks_from_apart\<close>)
qed

lemma apart_distinct: "sorted_wrt apart q \<Longrightarrow> \<forall>x \<in> set q. 0 < snd x \<Longrightarrow> distinct (map fst q)"
  by (induction q) (fastforce simp: apart_def)+

lemma wanted_size_ge: "Size + ITEM_SIZE \<le> wanted_size Size"
proof -
  have "(Size + 24 + 23) div 24 * 24 + (Size + 24 + 23) mod 24 = Size + 24 + 23" by (rule div_mult_mod_eq)
  moreover have "(Size + 24 + 23) mod 24 \<le> 23" by (simp add: less_Suc_eq_le [symmetric])
  ultimately show ?thesis by (simp add: wanted_size_def ITEM_SIZE_def)
qed

lemma Init_holds:
  assumes "ITEM_SIZE \<le> Size"
  shows "ring_holds (ring_Init r Size rec) []"
proof -
  have "0 < Size div ITEM_SIZE * ITEM_SIZE" using assms by (simp add: ITEM_SIZE_def div_greater_zero_iff)
  then have "ring_shape (ring_Init r Size rec) (Empty (Size div ITEM_SIZE * ITEM_SIZE))"
    by (simp add: ring_shape_def rep_def ring_Init_def ring_Clear_def)
  then show ?thesis by (auto simp: ring_holds_def)
qed

text \<open>A ring before \<open>Init\<close>, for examples.\<close>

definition blank_ring :: ring where
  "blank_ring = \<lparr>r_mem = (\<lambda>_. \<lparr>it_prev = None, it_next = None, it_free = True, it_size = 0\<rparr>),
     r_Produce = 0, r_Consume = 0, r_First = 0, r_Last = 0, r_Size = 0, r_Recycle = False, r_Popped = []\<rparr>"

lemma blank_holds: "ring_holds (ring_Init blank_ring 96 rec) []"
  by (rule Init_holds) (simp add: ITEM_SIZE_def)

definition block_addr :: "nat \<times> nat \<Rightarrow> nat" where
  "block_addr x = fst x + ITEM_SIZE"

interpretation rb: fifo_store ring_holds block_addr ring_Allocate ring_PopFirst ring_First ring_Next
proof unfold_locales
  fix s q assume h: "ring_holds s q"
  show "distinct (map block_addr q)"
    using apart_distinct [OF holds_bounds(2,3) [OF h]] by (simp add: distinct_map block_addr_def inj_on_def)
  show "if q = [] then ring_PopFirst s = Some (False, s)
     else \<exists>s'. ring_PopFirst s = Some (True, s') \<and> ring_holds s' (tl q)"
    using PopFirst_holds [OF h] by (cases q) auto
  show "ring_First s = (case q of [] \<Rightarrow> None | x # _ \<Rightarrow> Some (block_addr x))"
    using First_holds [OF h] by (cases q) (auto simp: next_answer_def block_addr_def split: prod.splits)
  show "\<exists>res s'. ring_Allocate s n = Some (res, s') \<and>
     (case res of None \<Rightarrow> s' = s
      | Some p \<Rightarrow> \<exists>k x. k \<le> length q \<and> block_addr x = p \<and> ring_holds s' (drop k q @ [x]))" for n
  proof -
    from Allocate_holds [OF h, of n] obtain res s' where a: "ring_Allocate s n = Some (res, s')"
      and res: "case res of None \<Rightarrow> s' = s \<and> (r_Size s < wanted_size n \<or> \<not> r_Recycle s)
        | Some p \<Rightarrow> \<exists>a k w. p = a + ITEM_SIZE \<and> alloc_post s q (wanted_size n) a s' k w" by blast
    show ?thesis
    proof (cases res)
      case (Some p)
      with res obtain a k w where "p = a + ITEM_SIZE" "alloc_post s q (wanted_size n) a s' k w" by auto
      then have "k \<le> length q \<and> block_addr (a, w) = p \<and> ring_holds s' (drop k q @ [(a, w)])"
        by (simp add: alloc_post_def block_addr_def)
      with a Some show ?thesis by fastforce
    qed (use a res in simp)
  qed
next
  fix s q x q'
  assume "ring_holds s (q @ x # q')"
  then show "ring_Next s (block_addr x) = Some (case q' of [] \<Rightarrow> None | y # _ \<Rightarrow> Some (block_addr y))"
    using Next_holds [of s q "fst x" "snd x" q']
    by (cases q') (auto simp: next_answer_def block_addr_def split: prod.splits)
qed

subsection \<open>The iteration backwards\<close>

text \<open>When the only block fills the whole buffer, \<open>m_pProduce\<close> stands on it.\<close>

lemma single_full_block:
  assumes "ring_holds r [(a, s)]" "s = r_Size r"
  shows "rep r [(s, False)] 0 0"
proof -
  from assms(1) obtain sh where sh: "ring_shape r sh" "contents sh = [(a, s)]" by (auto simp: ring_holds_def)
  then have rp: "rep r (layout sh) (produce_at sh) (consume_at sh)" and size: "r_Size r = tot (layout sh)"
    using ring_shape_size by (auto simp: ring_shape_def)
  have pos: "0 < u" if "(u, f) \<in> set (layout sh)" for u f
  proof -
    from that obtain xs ys where "layout sh = xs @ (u, f) # ys" by (meson split_list)
    with rp rep_block(2) [of r xs u f ys "produce_at sh" "consume_at sh"] show ?thesis by simp
  qed
  have one: "blocks_from x us = [(a, s)] \<Longrightarrow> us = [s] \<and> x = a" for x us
    by (cases us) auto
  show ?thesis
  proof (cases sh)
    case (Empty n)
    with sh show ?thesis by simp
  next
    case (Lin g us t)
    with sh one [of "gsize g" us] have us: "us = [s]" by simp
    have "tot (layout sh) = s" using size assms(2) by simp
    then have z: "gsize g = 0" "gsize t = 0" using Lin us by simp_all
    have "g = None" using z(1) pos Lin by (cases g) force+
    moreover have "t = None" using z(2) pos Lin by (cases t) force+
    ultimately show ?thesis using Lin us rp by simp
  next
    case (Wrap vs g us t)
    with sh have "length (blocks_from (sum_list vs + gsize g) us) + length (blocks_from 0 vs) = 1" "vs \<noteq> []" "us \<noteq> []"
      by (auto simp: ring_shape_def dest: arg_cong [of _ _ length])
    then show ?thesis by (cases us; cases vs) auto
  qed
qed

subsection \<open>Properties\<close>

text \<open>C36: an \<open>Allocate\<close> in a ring that holds the blocks \<open>q\<close> always returns. If it gives a block, the
  ring holds afterwards what remains of \<open>q\<close> (the oldest \<open>k\<close> blocks were recycled, each reported
  to the pop callback, and \<open>k = 0\<close> without \<open>FLAG_RECYCLE\<close>) followed by the new block, which has room
  for the header and \<open>Size\<close> bytes; if it gives none, nothing changed and the request was larger
  than the buffer or recycling is off.\<close>

theorem ring_allocate_correct:
  assumes "ring_holds r q"
  shows "\<exists>res r'. ring_Allocate r Size = Some (res, r') \<and>
    (case res of
       None \<Rightarrow> r' = r \<and> (r_Size r < wanted_size Size \<or> \<not> r_Recycle r)
     | Some p \<Rightarrow> \<exists>a k w. p = a + ITEM_SIZE \<and> k \<le> length q \<and> (k = 0 \<or> r_Recycle r) \<and>
         ring_holds r' (drop k q @ [(a, w)]) \<and> Size + ITEM_SIZE \<le> w \<and>
         r_Popped r' = r_Popped r @ map block_addr (take k q))"
proof -
  have m: "map block_addr xs = map (\<lambda>(a, s). a + ITEM_SIZE) xs" for xs
    by (auto simp: block_addr_def)
  from Allocate_holds [OF assms, of Size] obtain res r' where a: "ring_Allocate r Size = Some (res, r')"
    and res: "case res of None \<Rightarrow> r' = r \<and> (r_Size r < wanted_size Size \<or> \<not> r_Recycle r)
      | Some p \<Rightarrow> \<exists>a k w. p = a + ITEM_SIZE \<and> alloc_post r q (wanted_size Size) a r' k w" by blast
  show ?thesis
  proof (cases res)
    case None
    with a res show ?thesis by simp
  next
    case (Some p)
    with res obtain b k w where p: "p = b + ITEM_SIZE" "alloc_post r q (wanted_size Size) b r' k w" by auto
    then have "k \<le> length q \<and> (k = 0 \<or> r_Recycle r) \<and> ring_holds r' (drop k q @ [(b, w)]) \<and>
        Size + ITEM_SIZE \<le> w \<and> r_Popped r' = r_Popped r @ map block_addr (take k q)"
      using wanted_size_ge [of Size] by (auto simp: alloc_post_def m)
    with a Some p(1) show ?thesis by (intro exI [of _ res] exI [of _ r']) auto
  qed
qed

theorem ring_allocate_correct_witness:
  "\<exists>res r'. ring_Allocate (ring_Init blank_ring 96 True) 10 = Some (res, r')"
  using ring_allocate_correct [OF blank_holds [of True], of 10] by blast

text \<open>The live blocks of a ring lie inside its buffer and do not overlap.\<close>

theorem ring_blocks_disjoint:
  assumes "ring_holds r q"
  shows "(\<forall>x \<in> set q. 0 < snd x \<and> fst x + snd x \<le> r_Size r) \<and> sorted_wrt apart q"
  using holds_bounds [OF assms] by blast

theorem ring_blocks_disjoint_witness:
  "sorted_wrt apart [] \<and> ring_holds (ring_Init blank_ring 96 False) []"
  using ring_blocks_disjoint [OF blank_holds [of False]] blank_holds by blast

text \<open>\<open>PopFirst\<close> returns; it frees exactly the oldest block, tells the callback about it, and
  does nothing in an empty ring.\<close>

theorem ring_pop_correct:
  assumes "ring_holds r q"
  shows "if q = [] then ring_PopFirst r = Some (False, r)
    else \<exists>r'. ring_PopFirst r = Some (True, r') \<and> ring_holds r' (tl q) \<and>
      r_Popped r' = r_Popped r @ [block_addr (hd q)]"
  using PopFirst_holds [OF assms] by (cases q) (auto simp: block_addr_def)

theorem ring_pop_correct_witness:
  "ring_PopFirst (ring_Init blank_ring 96 False) = Some (False, ring_Init blank_ring 96 False)"
  using ring_pop_correct [OF blank_holds [of False]] by simp

text \<open>Walking from \<open>First\<close> with \<open>Next\<close> ends and visits every live block once, oldest first.\<close>

theorem ring_walk_fifo:
  assumes "ring_holds r q"
  shows "walk ring_Next r (ring_First r) = Some (map block_addr q)"
  by (rule rb.walk_all [OF assms])

theorem ring_walk_fifo_witness:
  "walk ring_Next (ring_Init blank_ring 96 False) (ring_First (ring_Init blank_ring 96 False)) = Some []"
  using ring_walk_fifo [OF blank_holds [of False]] by simp

text \<open>When a single block fills the whole buffer, \<open>Last\<close> returns \<open>nullptr\<close> although \<open>First\<close>
  returns the block.\<close>

theorem ring_last_misses_full_block:
  assumes "ring_holds r [(a, s)]" "s = r_Size r"
  shows "ring_Last r = Some None \<and> ring_First r = Some (a + ITEM_SIZE)"
proof -
  have rp: "rep r ([] @ (s, False) # []) 0 0" using single_full_block [OF assms] by simp
  from rep_block(4) [OF rp] have "PrevBlock r 0 = 0" by simp
  moreover have "r_Produce r = 0" using rep_pointers [OF rp] by simp
  ultimately have "ring_Last r = Some None"
    by (simp add: ring_Last_def ring_Prev_def) (subst prev_loop.simps, simp add: Let_def)
  with First_holds [OF assms(1)] show ?thesis by simp
qed

text \<open>The ring of 96 bytes after one \<open>Allocate(72)\<close>: the block of 96 bytes takes all of it.\<close>

theorem ring_last_misses_full_block_witness:
  "\<exists>r. ring_Allocate (ring_Init blank_ring 96 False) 72 = Some (Some ITEM_SIZE, r) \<and>
     ring_Last r = Some None \<and> ring_First r = Some ITEM_SIZE"
proof -
  from ring_allocate_correct [OF blank_holds [of False], of 72] obtain res r where
    a: "ring_Allocate (ring_Init blank_ring 96 False) 72 = Some (res, r)" by blast
  have shape: "ring_shape (ring_Init blank_ring 96 False) (Empty 96)"
    by (simp add: ring_shape_def rep_def ring_Init_def ring_Clear_def ITEM_SIZE_def)
  have W: "wanted_size 72 = 96" by (simp add: wanted_size_def ITEM_SIZE_def)
  have al: "alloc_shape 96 (Empty 96) = Some (0, Lin None [96] None)"
    by (simp add: place_def ITEM_SIZE_def)
  let ?r = "take_steps (ring_Init blank_ring 96 False) 0 96"
  have "alloc_loop 96 (ring_Init blank_ring 96 False) = Some (Some 0, ring_Init blank_ring 96 False)"
    using find_block_shape [OF shape, of 96] al by (subst alloc_loop.simps) simp
  then have "ring_Allocate (ring_Init blank_ring 96 False) 72 = Some (Some ITEM_SIZE, ?r)"
    by (simp add: ring_Allocate_def W Let_def take_steps_def ring_Init_def ring_Clear_def ITEM_SIZE_def)
  moreover have sh: "ring_shape ?r (Lin None [96] None)"
    using take_steps_shape [OF shape al] by simp
  then have "ring_holds ?r [(0, 96)]" "r_Size ?r = 96"
    using ring_shape_size [OF sh] by (auto simp: ring_holds_def intro!: exI [of _ "Lin None [96] None"])
  then have "ring_Last ?r = Some None \<and> ring_First ?r = Some ITEM_SIZE"
    using ring_last_misses_full_block [of ?r 0 96] by simp
  ultimately show ?thesis by blast
qed

end
