(* ===== verification/HuffmanCode.thy ===== *)
theory HuffmanCode
  imports Prelude "HOL-Library.Monad_Syntax"
begin

text \<open>
  \<open>CHuffman\<close> (src/src/engine/shared/huffman.h and huffman.cpp): the construction of the code tree
  from the frequency table, the look-up table of the decoder, and the bit buffers of
  \<open>Compress\<close> and \<open>Decompress\<close> (64 and 32 bits). A pointer to a node is its index in \<open>m_aNodes\<close>.
\<close>

subsection \<open>The code\<close>

definition HUFFMAN_EOF_SYMBOL :: nat where "HUFFMAN_EOF_SYMBOL = 256"
definition HUFFMAN_MAX_SYMBOLS :: nat where "HUFFMAN_MAX_SYMBOLS = HUFFMAN_EOF_SYMBOL + 1"
definition HUFFMAN_MAX_NODES :: nat where "HUFFMAN_MAX_NODES = HUFFMAN_MAX_SYMBOLS * 2 - 1"
definition HUFFMAN_LUTBITS :: nat where "HUFFMAN_LUTBITS = 10"
definition HUFFMAN_LUTSIZE :: nat where "HUFFMAN_LUTSIZE = 2 ^ HUFFMAN_LUTBITS"
definition HUFFMAN_LUTMASK :: "32 word" where "HUFFMAN_LUTMASK = of_nat (HUFFMAN_LUTSIZE - 1)"

lemmas huffman_consts = HUFFMAN_EOF_SYMBOL_def HUFFMAN_MAX_SYMBOLS_def HUFFMAN_MAX_NODES_def
  HUFFMAN_LUTBITS_def HUFFMAN_LUTSIZE_def HUFFMAN_LUTMASK_def

definition ms_aFreqTable :: "int list" where
  "ms_aFreqTable = [
    2 ^ 30, 4545, 2657, 431, 1950, 919, 444, 482, 2244, 617, 838, 542, 715, 1814, 304, 240, 754, 212, 647, 186,
    283, 131, 146, 166, 543, 164, 167, 136, 179, 859, 363, 113, 157, 154, 204, 108, 137, 180, 202, 176,
    872, 404, 168, 134, 151, 111, 113, 109, 120, 126, 129, 100, 41, 20, 16, 22, 18, 18, 17, 19,
    16, 37, 13, 21, 362, 166, 99, 78, 95, 88, 81, 70, 83, 284, 91, 187, 77, 68, 52, 68,
    59, 66, 61, 638, 71, 157, 50, 46, 69, 43, 11, 24, 13, 19, 10, 12, 12, 20, 14, 9,
    20, 20, 10, 10, 15, 15, 12, 12, 7, 19, 15, 14, 13, 18, 35, 19, 17, 14, 8, 5,
    15, 17, 9, 15, 14, 18, 8, 10, 2173, 134, 157, 68, 188, 60, 170, 60, 194, 62, 175, 71,
    148, 67, 167, 78, 211, 67, 156, 69, 1674, 90, 174, 53, 147, 89, 181, 51, 174, 63, 163, 80,
    167, 94, 128, 122, 223, 153, 218, 77, 200, 110, 190, 73, 174, 69, 145, 66, 277, 143, 141, 60,
    136, 53, 180, 57, 142, 57, 158, 61, 166, 112, 152, 92, 26, 22, 21, 28, 20, 26, 30, 21,
    32, 27, 20, 17, 23, 21, 30, 22, 22, 21, 27, 25, 17, 27, 23, 18, 39, 26, 15, 21,
    12, 18, 18, 27, 20, 18, 15, 19, 11, 17, 33, 12, 18, 15, 19, 18, 16, 26, 17, 18,
    9, 10, 25, 22, 22, 17, 20, 16, 6, 16, 15, 20, 14, 18, 24, 335, 1]"

record hnode =
  n_Bits :: "32 word"
  n_NumBits :: nat
  n_Leaf0 :: nat
  n_Leaf1 :: nat
  n_Symbol :: byte

record huffman =
  h_Nodes :: "hnode list"
  h_DecodeLut :: "nat option list"
  h_StartNode :: nat
  h_NumNodes :: nat

definition NO_LEAF :: nat where "NO_LEAF = 0xffff"

definition zero_node :: hnode where
  "zero_node = \<lparr>n_Bits = 0, n_NumBits = 0, n_Leaf0 = 0, n_Leaf1 = 0, n_Symbol = 0\<rparr>"

partial_function (option) SetBitsRecursive ::
  "hnode list \<Rightarrow> nat \<Rightarrow> 32 word \<Rightarrow> nat \<Rightarrow> hnode list option" where
  "SetBitsRecursive ns pNode Bits Depth =
     do { ns1 \<leftarrow> (if n_Leaf1 (ns ! pNode) \<noteq> NO_LEAF
                then SetBitsRecursive ns (n_Leaf1 (ns ! pNode)) (Bits OR push_bit Depth 1) (Depth + 1)
                else Some ns);
          ns2 \<leftarrow> (if n_Leaf0 (ns1 ! pNode) \<noteq> NO_LEAF
                then SetBitsRecursive ns1 (n_Leaf0 (ns1 ! pNode)) Bits (Depth + 1)
                else Some ns1);
          Some (if n_NumBits (ns2 ! pNode) \<noteq> 0
                then ns2[pNode := (ns2 ! pNode)\<lparr>n_Bits := Bits, n_NumBits := Depth\<rparr>]
                else ns2) }"

text \<open>\<open>apNodesLeft\<close>: the node ids with their frequencies; one round of the construction.\<close>

definition sort_desc :: "('a \<times> int) list \<Rightarrow> ('a \<times> int) list" where
  "sort_desc xs = sort_key (\<lambda>x. - snd x) xs"

definition construct_round ::
  "hnode list \<Rightarrow> nat \<Rightarrow> (nat \<times> int) list \<Rightarrow> hnode list \<times> (nat \<times> int) list" where
  "construct_round ns num left =
     (let srt = sort_desc left; n = length srt;
          a = srt ! (n - 1); b = srt ! (n - 2)
      in (ns[num := (ns ! num)\<lparr>n_NumBits := 0, n_Leaf0 := fst a, n_Leaf1 := fst b\<rparr>],
          take (n - 2) srt @ [(num, snd a + snd b)]))"

fun construct_loop :: "nat \<Rightarrow> hnode list \<Rightarrow> nat \<Rightarrow> (nat \<times> int) list \<Rightarrow> hnode list \<times> nat" where
  "construct_loop 0 ns num left = (ns, num)"
| "construct_loop (Suc k) ns num left =
     (let (ns', left') = construct_round ns num left in construct_loop k ns' (num + 1) left')"

definition ConstructTree :: "huffman \<Rightarrow> int list \<Rightarrow> huffman option" where
  "ConstructTree h freqs =
     (let ns0 = map (\<lambda>i. (h_Nodes h ! i)\<lparr>n_NumBits := 0xFFFFFFFF, n_Symbol := of_nat i,
                        n_Leaf0 := NO_LEAF, n_Leaf1 := NO_LEAF\<rparr>) [0..<HUFFMAN_MAX_SYMBOLS] @
                drop HUFFMAN_MAX_SYMBOLS (h_Nodes h);
          left = map (\<lambda>i. (i, freqs ! i)) [0..<HUFFMAN_MAX_SYMBOLS];
          (ns1, num) = construct_loop (HUFFMAN_MAX_SYMBOLS - 1) ns0 HUFFMAN_MAX_SYMBOLS left
      in do { ns2 \<leftarrow> SetBitsRecursive ns1 (num - 1) 0 0;
              Some (h\<lparr>h_Nodes := ns2, h_NumNodes := num, h_StartNode := num - 1\<rparr>) })"

text \<open>The walk that fills one entry of the look-up table: \<open>k\<close> bits are left.\<close>

fun lut_walk :: "hnode list \<Rightarrow> nat \<Rightarrow> 32 word \<Rightarrow> nat \<Rightarrow> nat" where
  "lut_walk ns pNode Bits 0 = pNode"
| "lut_walk ns pNode Bits (Suc k) =
     (let p = (if Bits AND 1 = 1 then n_Leaf1 (ns ! pNode) else n_Leaf0 (ns ! pNode))
      in if n_NumBits (ns ! p) \<noteq> 0 then p else lut_walk ns p (drop_bit 1 Bits) k)"

definition huffman_Init :: "huffman option" where
  "huffman_Init =
     do { h \<leftarrow> ConstructTree \<lparr>h_Nodes = replicate HUFFMAN_MAX_NODES zero_node,
              h_DecodeLut = replicate HUFFMAN_LUTSIZE None, h_StartNode = 0, h_NumNodes = 0\<rparr> ms_aFreqTable;
          Some (h\<lparr>h_DecodeLut := map (\<lambda>i. Some (lut_walk (h_Nodes h) (h_StartNode h) (of_nat i) HUFFMAN_LUTBITS))
                   [0..<HUFFMAN_LUTSIZE]\<rparr>) }"

subsection \<open>Compressing\<close>

text \<open>The bit buffer, its bit count, and the bytes written.\<close>

record bitbuf =
  b_Bits :: "64 word"
  b_Count :: nat
  b_Out :: bytes

definition load_symbol :: "huffman \<Rightarrow> nat \<Rightarrow> bitbuf \<Rightarrow> bitbuf" where
  "load_symbol h Sym b =
     b\<lparr>b_Bits := b_Bits b OR push_bit (b_Count b) (ucast (n_Bits (h_Nodes h ! Sym))),
       b_Count := b_Count b + n_NumBits (h_Nodes h ! Sym)\<rparr>"

function write_bytes :: "nat \<Rightarrow> 64 word \<Rightarrow> nat \<Rightarrow> bytes \<Rightarrow> bitbuf option" where
  "write_bytes OutputSize Bits Bitcount out =
     (if Bitcount \<ge> 8 then
        (if length out = OutputSize then None
         else write_bytes OutputSize (drop_bit 8 Bits) (Bitcount - 8) (out @ [ucast (Bits AND 0xff)]))
      else Some \<lparr>b_Bits = Bits, b_Count = Bitcount, b_Out = out\<rparr>)"
  by pat_completeness auto
termination
  by (relation "measure (\<lambda>(n, w, k, out). k)") auto

declare write_bytes.simps [simp del]

text \<open>
  \<open>HUFFMAN_MACRO_WRITE\<close>: with eight bytes of room the whole buffer is stored and the full bytes are
  kept (the bytes stored behind them are written over later or not part of the result).
\<close>

definition write_symbol :: "nat \<Rightarrow> bitbuf \<Rightarrow> bitbuf option" where
  "write_symbol OutputSize b =
     (if int OutputSize - int (length (b_Out b)) \<ge> 8 then
        Some (b\<lparr>b_Out := b_Out b @ take (b_Count b div 8) (map (\<lambda>i. ucast (drop_bit (i * 8) (b_Bits b))) [0..<8]),
                b_Bits := drop_bit (b_Count b div 8 * 8) (b_Bits b), b_Count := b_Count b mod 8\<rparr>)
      else write_bytes OutputSize (b_Bits b) (b_Count b) (b_Out b))"

fun compress_symbols :: "huffman \<Rightarrow> nat \<Rightarrow> nat list \<Rightarrow> bitbuf \<Rightarrow> bitbuf option" where
  "compress_symbols h OutputSize [] b = Some b"
| "compress_symbols h OutputSize (s # ss) b =
     do { b' \<leftarrow> write_symbol OutputSize (load_symbol h s b); compress_symbols h OutputSize ss b' }"

definition huffman_Compress :: "huffman \<Rightarrow> bytes \<Rightarrow> nat \<Rightarrow> bytes result" where
  "huffman_Compress h pInput OutputSize =
     (if \<not> OutputSize > 0 then Inl AssertFailed
      else case compress_symbols h OutputSize (map unat pInput @ [HUFFMAN_EOF_SYMBOL])
                  \<lparr>b_Bits = 0, b_Count = 0, b_Out = []\<rparr> of
             None \<Rightarrow> Inl (ErrCode (-1))
           | Some b \<Rightarrow>
               if b_Count b \<noteq> 0 then
                 (if length (b_Out b) = OutputSize then Inl (ErrCode (-1))
                  else Inr (b_Out b @ [ucast (b_Bits b)]))
               else Inr (b_Out b))"

subsection \<open>Decompressing\<close>

fun fill_bits :: "bytes \<Rightarrow> 32 word \<Rightarrow> 32 word \<Rightarrow> bytes \<times> 32 word \<times> 32 word" where
  "fill_bits [] Bits Bitcount = ([], Bits, Bitcount)"
| "fill_bits (c # src) Bits Bitcount =
     (if Bitcount < 24 then fill_bits src (Bits OR push_bit (unat Bitcount) (ucast c)) (Bitcount + 8)
      else (c # src, Bits, Bitcount))"

text \<open>The bit-by-bit walk; \<open>Bitcount\<close> is unsigned, so it wraps around when it was zero before.\<close>

function tree_walk :: "hnode list \<Rightarrow> nat \<Rightarrow> 32 word \<Rightarrow> 32 word \<Rightarrow> (nat \<times> 32 word \<times> 32 word) option" where
  "tree_walk ns pNode Bits Bitcount =
     (let p = (if Bits AND 1 = 1 then n_Leaf1 (ns ! pNode) else n_Leaf0 (ns ! pNode));
          Bitcount' = Bitcount - 1;
          Bits' = drop_bit 1 Bits
      in if n_NumBits (ns ! p) \<noteq> 0 then Some (p, Bits', Bitcount')
         else if Bitcount' = 0 then None
         else tree_walk ns p Bits' Bitcount')"
  by pat_completeness auto
termination
proof (relation "measure (\<lambda>(ns, p, bits, cnt). unat (cnt - 1))")
  fix cnt c' :: "32 word"
  assume c: "c' = cnt - 1" "c' \<noteq> 0"
  have "unat (c' - 1) < unat c'" using c(2) by (simp add: unat_minus_one unat_gt_0)
  then show "((ns, p, bits, c'), ns, q, bits', cnt) \<in> measure (\<lambda>(ns, p, bits, cnt). unat (cnt - 1))"
    for ns :: "hnode list" and p q :: nat and bits bits' :: "32 word"
    by (simp only: in_measure prod.case c(1) [symmetric])
qed auto

declare tree_walk.simps [simp del]

definition decode_node ::
  "huffman \<Rightarrow> bytes \<Rightarrow> 32 word \<Rightarrow> 32 word \<Rightarrow> (nat \<times> bytes \<times> 32 word \<times> 32 word) option" where
  "decode_node h src Bits Bitcount =
     (let early = (if Bitcount \<ge> of_nat HUFFMAN_LUTBITS
                   then h_DecodeLut h ! unat (Bits AND HUFFMAN_LUTMASK) else None);
          (src', Bits', Bitcount') = fill_bits src Bits Bitcount
      in case (case early of Some p \<Rightarrow> Some p
               | None \<Rightarrow> h_DecodeLut h ! unat (Bits' AND HUFFMAN_LUTMASK)) of
           None \<Rightarrow> None
         | Some p \<Rightarrow>
             let nb = n_NumBits (h_Nodes h ! p) in
             if nb \<noteq> 0 then
               (if unat Bitcount' < nb then None
                else Some (p, src', drop_bit nb Bits', Bitcount' - of_nat nb))
             else if Bitcount' < of_nat HUFFMAN_LUTBITS then None
             else map_option (\<lambda>(q, w, c). (q, src', w, c))
                    (tree_walk (h_Nodes h) p (drop_bit HUFFMAN_LUTBITS Bits')
                       (Bitcount' - of_nat HUFFMAN_LUTBITS)))"

text \<open>The outer loop: every round that goes on uses up one byte of the output buffer (\<open>room\<close>).\<close>

fun decompress_symbols :: "huffman \<Rightarrow> nat \<Rightarrow> bytes \<Rightarrow> 32 word \<Rightarrow> 32 word \<Rightarrow> bytes option" where
  "decompress_symbols h room src Bits Bitcount =
     (case decode_node h src Bits Bitcount of None \<Rightarrow> None
      | Some (p, src', Bits', Bitcount') \<Rightarrow>
          if p = HUFFMAN_EOF_SYMBOL then Some []
          else case room of 0 \<Rightarrow> None
            | Suc r \<Rightarrow> map_option ((#) (n_Symbol (h_Nodes h ! p))) (decompress_symbols h r src' Bits' Bitcount'))"

declare decompress_symbols.simps [simp del]

definition huffman_Decompress :: "huffman \<Rightarrow> bytes \<Rightarrow> nat \<Rightarrow> bytes result" where
  "huffman_Decompress h pInput OutputSize =
     (if \<not> OutputSize > 0 then Inl AssertFailed
      else case decompress_symbols h OutputSize pInput 0 0 of
             None \<Rightarrow> Inl (ErrCode (-1)) | Some out \<Rightarrow> Inr out)"

subsection \<open>The heights of the forest\<close>

fun height_loop :: "nat \<Rightarrow> (nat \<times> int) list \<Rightarrow> (nat \<times> int) list" where
  "height_loop 0 xs = xs"
| "height_loop (Suc k) xs =
     (let srt = sort_desc xs; n = length srt; a = srt ! (n - 1); b = srt ! (n - 2)
      in height_loop k (take (n - 2) srt @ [(Suc (max (fst a) (fst b)), snd a + snd b)]))"

fun ins_asc :: "nat \<times> int \<Rightarrow> (nat \<times> int) list \<Rightarrow> (nat \<times> int) list" where
  "ins_asc x [] = [x]"
| "ins_asc x (y # ys) = (if snd x \<le> snd y then x # y # ys else y # ins_asc x ys)"

fun height_fast :: "nat \<Rightarrow> (nat \<times> int) list \<Rightarrow> (nat \<times> int) list" where
  "height_fast 0 xs = xs"
| "height_fast (Suc k) (a # b # xs) = height_fast k (ins_asc (Suc (max (fst a) (fst b)), snd a + snd b) xs)"
| "height_fast (Suc k) xs = xs"

lemma fast_heights: "map fst (height_fast 256 (rev (sort_desc (map (\<lambda>f. (0, f)) ms_aFreqTable)))) = [15]"
  by code_simp

end
