(* ===== verification/Huffman.thy ===== *)
theory Huffman
  imports Prelude HuffmanCode "HOL-Library.Multiset"
begin

text \<open>
  Properties of \<open>CHuffman\<close>: the construction gives a code tree with every symbol at one leaf, the bit
  patterns are the paths of the tree, and decompressing undoes compressing.
\<close>

subsection \<open>The code tree\<close>

datatype htree = HLeaf nat | HNode htree htree

fun leaves :: "htree \<Rightarrow> nat list" where
  "leaves (HLeaf s) = [s]"
| "leaves (HNode a b) = leaves a @ leaves b"

fun hheight :: "htree \<Rightarrow> nat" where
  "hheight (HLeaf s) = 0"
| "hheight (HNode a b) = Suc (max (hheight a) (hheight b))"

fun codes :: "htree \<Rightarrow> (nat \<times> bool list) list" where
  "codes (HLeaf s) = [(s, [])]"
| "codes (HNode a b) = map (\<lambda>(s, p). (s, False # p)) (codes a) @ map (\<lambda>(s, p). (s, True # p)) (codes b)"

lemma map_fst_codes: "map fst (codes t) = leaves t"
  by (induction t) (auto simp: case_prod_unfold comp_def)

lemma codes_leaves: "(s, p) \<in> set (codes t) \<Longrightarrow> s \<in> set (leaves t)"
  by (metis fst_conv image_eqI list.set_map map_fst_codes)

lemma codes_height: "(s, p) \<in> set (codes t) \<Longrightarrow> length p \<le> hheight t"
  by (induction t arbitrary: p) fastforce+

text \<open>\<open>tree_at ns i t\<close>: the node with index \<open>i\<close> is the root of the tree \<open>t\<close>.\<close>

fun tree_at :: "hnode list \<Rightarrow> nat \<Rightarrow> htree \<Rightarrow> bool" where
  "tree_at ns i (HLeaf s) \<longleftrightarrow> i = s \<and> s < HUFFMAN_MAX_SYMBOLS \<and> s < length ns \<and>
     n_Leaf0 (ns ! s) = NO_LEAF \<and> n_Leaf1 (ns ! s) = NO_LEAF \<and> n_NumBits (ns ! s) \<noteq> 0 \<and>
     n_Symbol (ns ! s) = of_nat s"
| "tree_at ns i (HNode a b) \<longleftrightarrow> HUFFMAN_MAX_SYMBOLS \<le> i \<and> i < length ns \<and> n_NumBits (ns ! i) = 0 \<and>
     n_Leaf0 (ns ! i) < i \<and> n_Leaf1 (ns ! i) < i \<and>
     tree_at ns (n_Leaf0 (ns ! i)) a \<and> tree_at ns (n_Leaf1 (ns ! i)) b"

lemma tree_at_cong:
  "tree_at ns i t \<Longrightarrow> length ns' = length ns \<Longrightarrow> (\<And>j. j \<le> i \<Longrightarrow> ns' ! j = ns ! j) \<Longrightarrow> tree_at ns' i t"
proof (induction t arbitrary: i)
  case (HNode a b)
  then have "tree_at ns' (n_Leaf0 (ns ! i)) a" "tree_at ns' (n_Leaf1 (ns ! i)) b" by auto
  with HNode.prems show ?case by simp
qed simp

lemma tree_at_leaves: "tree_at ns i t \<Longrightarrow> x \<in> set (leaves t) \<Longrightarrow> x < HUFFMAN_MAX_SYMBOLS"
  by (induction t arbitrary: i) auto

lemma tree_at_length: "tree_at ns i t \<Longrightarrow> i < length ns"
  by (cases t) auto

subsection \<open>Sorting by frequency\<close>

lemma sort_desc_mset: "mset (sort_desc xs) = mset xs"
  by (simp add: sort_desc_def)

lemma insort_key_map: "(\<And>x. g' (f x) = g x) \<Longrightarrow> insort_key g' (f x) (map f xs) = map f (insort_key g x xs)"
  by (induction xs) auto

lemma sort_key_map: "(\<And>x. k' (h x) = k x) \<Longrightarrow> sort_key k' (map h xs) = map h (sort_key k xs)"
  by (induction xs) (auto simp: insort_key_map)

lemma sort_desc_map: "sort_desc (map (\<lambda>(i, f). (g i, f)) xs) = map (\<lambda>(i, f). (g i, f)) (sort_desc xs)"
  unfolding sort_desc_def by (rule sort_key_map) (simp add: case_prod_unfold)

lemma insort_append_le:
  "\<forall>y \<in> set xs. k y < k x \<Longrightarrow> insort_key k x (xs @ ys) = xs @ insort_key k x ys"
  by (induction xs) auto

text \<open>Sorting a sorted list with one more element behind it is one insertion.\<close>

lemma ins_asc_append_le:
  "\<forall>y \<in> set xs. snd y < snd x \<Longrightarrow> ins_asc x (xs @ ys) = xs @ ins_asc x ys"
  by (induction xs) auto

lemma set_ins_asc: "set (ins_asc x xs) = insert x (set xs)"
  by (induction xs) auto

lemma ins_asc_snoc:
  "snd x \<le> snd a \<Longrightarrow> ins_asc x (xs @ [a]) = ins_asc x xs @ [a]"
  by (induction xs) auto

lemma ins_asc_all: "\<forall>y \<in> set xs. snd y < snd x \<Longrightarrow> ins_asc x xs = xs @ [x]"
  by (induction xs) auto

lemma sort_desc_snoc:
  assumes "sorted_wrt (\<lambda>x y. snd y \<le> snd x) xs"
  shows "sort_desc (xs @ [x]) = rev (ins_asc x (rev xs))"
  using assms
proof (induction xs)
  case Nil
  then show ?case by (simp add: sort_desc_def)
next
  case (Cons a xs)
  have IH: "sort_desc (xs @ [x]) = rev (ins_asc x (rev xs))" using Cons by simp
  have le: "\<forall>y \<in> set xs. snd y \<le> snd a" using Cons.prems by simp
  have step: "sort_desc ((a # xs) @ [x]) = insort_key (\<lambda>x. - snd x) a (rev (ins_asc x (rev xs)))"
    using IH by (simp add: sort_desc_def)
  have front: "insort_key (\<lambda>x. - snd x) a L = a # L" if "\<forall>y \<in> set L. snd y \<le> snd a" for L
    using that by (cases L) auto
  show ?case
  proof (cases "snd x \<le> snd a")
    case True
    have "insort_key (\<lambda>x. - snd x) a (rev (ins_asc x (rev xs))) = a # rev (ins_asc x (rev xs))"
      using True le by (intro front) (simp add: set_ins_asc)
    then show ?thesis unfolding step using True by (simp add: ins_asc_snoc)
  next
    case False
    then have "\<forall>y \<in> set (rev xs). snd y < snd x" using le by fastforce
    then show ?thesis unfolding step using False front [OF le] by (simp add: ins_asc_all ins_asc_append_le)
  qed
qed

lemma length_sort_desc [simp]: "length (sort_desc xs) = length xs"
  by (simp add: sort_desc_def)

lemma sort_desc_sorted: "sorted_wrt (\<lambda>x y. snd y \<le> snd x) (sort_desc xs)"
proof -
  have "sorted (map (\<lambda>x. - snd x) (sort_desc xs))" by (simp add: sort_desc_def)
  then show ?thesis by (simp add: sorted_map)
qed

lemma last_two:
  assumes "2 \<le> length xs"
  shows "xs = take (length xs - 2) xs @ [xs ! (length xs - 2), xs ! (length xs - 1)]"
proof -
  have "drop (length xs - 2) xs = [xs ! (length xs - 2), xs ! (length xs - 1)]"
    using assms by (intro nth_equalityI) (auto simp: nth_Cons' less_2_cases_iff)
  then show ?thesis by (metis append_take_drop_id)
qed

lemma height_loop_fast:
  "k < length xs \<Longrightarrow> rev (sort_desc (height_loop k xs)) = height_fast k (rev (sort_desc xs)) \<and>
     length (height_loop k xs) = length xs - k"
proof (induction k arbitrary: xs)
  case 0
  then show ?case by simp
next
  case (Suc k)
  let ?s = "sort_desc xs"
  define ys a b where "ys = take (length ?s - 2) ?s" and "a = ?s ! (length ?s - 1)" and "b = ?s ! (length ?s - 2)"
  have s: "?s = ys @ [b, a]" using last_two [of ?s] Suc.prems by (simp add: ys_def a_def b_def)
  define x where "x = (Suc (max (fst a) (fst b)), snd a + snd b)"
  have step: "height_loop (Suc k) xs = height_loop k (ys @ [x])"
    by (simp add: Let_def ys_def a_def b_def x_def)
  have "length ys = length xs - 2" by (simp add: ys_def)
  then have len: "length (ys @ [x]) = length xs - 1" using Suc.prems by simp
  have "sorted_wrt (\<lambda>x y. snd y \<le> snd x) ys"
    using sort_desc_sorted [of xs] unfolding s by (simp add: sorted_wrt_append)
  then have "rev (sort_desc (ys @ [x])) = ins_asc x (rev ys)" by (simp add: sort_desc_snoc)
  then have "height_fast k (rev (sort_desc (ys @ [x]))) = height_fast (Suc k) (rev ?s)"
    unfolding s by (simp add: x_def)
  then show ?case using Suc.IH [of "ys @ [x]"] Suc.prems len step by simp
qed

lemma height_loop_freqs:
  "map fst (height_loop 256 (map (\<lambda>f. (0, f)) ms_aFreqTable)) = [15]"
proof -
  have n: "length (map (\<lambda>f. (0 :: nat, f)) ms_aFreqTable) = 257" by (simp add: ms_aFreqTable_def)
  let ?h = "height_loop 256 (map (\<lambda>f. (0, f)) ms_aFreqTable)"
  have "length ?h = 1" and r: "rev (sort_desc ?h) = height_fast 256 (rev (sort_desc (map (\<lambda>f. (0, f)) ms_aFreqTable)))"
    using height_loop_fast [of 256 "map (\<lambda>f. (0 :: nat, f)) ms_aFreqTable"] n by auto
  then obtain z where z: "?h = [z]" by (metis length_0_conv length_Suc_conv One_nat_def)
  then have "[z] = height_fast 256 (rev (sort_desc (map (\<lambda>f. (0, f)) ms_aFreqTable)))"
    using r by (simp add: sort_desc_def)
  with fast_heights z show ?thesis by (metis)
qed

subsection \<open>The construction builds a code tree\<close>

text \<open>
  The invariant of the loop: every node id on the list is the root of a tree, together the trees
  have every symbol exactly once at a leaf, and the list with heights in place of the ids is \<open>hs\<close>.
\<close>

definition forest_inv ::
  "hnode list \<Rightarrow> nat \<Rightarrow> (nat \<times> int) list \<Rightarrow> (nat \<Rightarrow> htree) \<Rightarrow> (nat \<times> int) list \<Rightarrow> bool" where
  "forest_inv ns num left T hs \<longleftrightarrow>
     length ns = HUFFMAN_MAX_NODES \<and> HUFFMAN_MAX_SYMBOLS \<le> num \<and>
     (\<forall>x \<in> set left. fst x < num \<and> tree_at ns (fst x) (T (fst x))) \<and>
     (\<Sum>x \<in># mset left. mset (leaves (T (fst x)))) = mset [0..<HUFFMAN_MAX_SYMBOLS] \<and>
     distinct (map fst left) \<and>
     hs = map (\<lambda>(i, f). (hheight (T i), f)) left"

lemma forest_inv_sort: "forest_inv ns num left T hs \<Longrightarrow> forest_inv ns num (sort_desc left) T (sort_desc hs)"
proof -
  assume a: "forest_inv ns num left T hs"
  have m: "mset (sort_desc left) = mset left" by (rule sort_desc_mset)
  then have s: "set (sort_desc left) = set left" by (metis set_mset_mset)
  have "mset (map fst (sort_desc left)) = mset (map fst left)" using m by simp
  then have "distinct (map fst (sort_desc left)) = distinct (map fst left)" by (rule mset_eq_imp_distinct_iff)
  moreover have "sort_desc hs = map (\<lambda>(i, f). (hheight (T i), f)) (sort_desc left)"
    using a by (simp add: forest_inv_def sort_desc_map)
  ultimately show ?thesis using a m s by (simp add: forest_inv_def)
qed

lemma forest_round:
  assumes "forest_inv ns num left T hs" "2 \<le> length left" "num < HUFFMAN_MAX_NODES"
    and "construct_round ns num left = (ns', left')"
  shows "\<exists>T'. forest_inv ns' (num + 1) left' T'
      (let srt = sort_desc hs; n = length srt; a = srt ! (n - 1); b = srt ! (n - 2)
       in take (n - 2) srt @ [(Suc (max (fst a) (fst b)), snd a + snd b)]) \<and>
    length left' = length left - 1"
proof -
  let ?s = "sort_desc left"
  define ys a b where "ys = take (length ?s - 2) ?s" and "a = ?s ! (length ?s - 1)" and "b = ?s ! (length ?s - 2)"
  have s: "?s = ys @ [b, a]" using last_two [of ?s] assms(2) by (simp add: ys_def a_def b_def)
  have inv: "forest_inv ns num (ys @ [b, a]) T (sort_desc hs)"
    using forest_inv_sort [OF assms(1)] by (simp add: s)
  have ns': "ns' = ns[num := (ns ! num)\<lparr>n_NumBits := 0, n_Leaf0 := fst a, n_Leaf1 := fst b\<rparr>]"
    and left': "left' = ys @ [(num, snd a + snd b)]"
    using assms(4) by (auto simp: construct_round_def Let_def ys_def a_def b_def)
  have len: "length ns = HUFFMAN_MAX_NODES" and lo: "HUFFMAN_MAX_SYMBOLS \<le> num"
    and at: "\<And>x. x \<in> set (ys @ [b, a]) \<Longrightarrow> fst x < num \<and> tree_at ns (fst x) (T (fst x))"
    using inv by (auto simp: forest_inv_def)
  define T' where "T' = T(num := HNode (T (fst a)) (T (fst b)))"
  have keep: "tree_at ns' (fst x) (T (fst x))" if "x \<in> set (ys @ [b, a])" for x
  proof (rule tree_at_cong)
    show "tree_at ns (fst x) (T (fst x))" "length ns' = length ns" using at [OF that] ns' by simp_all
    show "ns' ! j = ns ! j" if "j \<le> fst x" for j
      using at [OF \<open>x \<in> set (ys @ [b, a])\<close>] that ns' by simp
  qed
  have "NO_LEAF > num" using assms(3) by (simp add: NO_LEAF_def huffman_consts)
  then have root: "tree_at ns' num (T' num)"
    using keep [of a] keep [of b] at [of a] at [of b] assms(3) len lo
    by (simp add: T'_def ns')
  have T'o: "T' (fst x) = T (fst x)" if "x \<in> set (ys @ [b, a])" for x
    using at [OF that] by (simp add: T'_def)
  have hs: "sort_desc hs = map (\<lambda>(i, f). (hheight (T i), f)) (ys @ [b, a])"
    using inv by (simp add: forest_inv_def)
  let ?h = "map (\<lambda>(i, f). (hheight (T i), f)) ys"
  have hs': "(let srt = sort_desc hs; n = length srt; a = srt ! (n - 1); b = srt ! (n - 2)
       in take (n - 2) srt @ [(Suc (max (fst a) (fst b)), snd a + snd b)]) =
    ?h @ [(Suc (max (hheight (T (fst a))) (hheight (T (fst b)))), snd a + snd b)]"
    unfolding hs by (simp add: Let_def nth_append case_prod_unfold)
  have ysmap: "map (\<lambda>(i, f). (hheight (T' i), f)) ys = ?h"
    using T'o by (auto simp: case_prod_unfold)
  have msum: "(\<Sum>x \<in># mset ys. mset (leaves (T' (fst x)))) = (\<Sum>x \<in># mset ys. mset (leaves (T (fst x))))"
    using T'o by (intro arg_cong [where f = sum_mset] image_mset_cong) auto
  have "forest_inv ns' (num + 1) left' T'
      (?h @ [(Suc (max (hheight (T (fst a))) (hheight (T (fst b)))), snd a + snd b)])"
    unfolding forest_inv_def
  proof (intro conjI ballI)
    show "length ns' = HUFFMAN_MAX_NODES" using len ns' by simp
    show "HUFFMAN_MAX_SYMBOLS \<le> num + 1" using lo by simp
    show "fst x < num + 1" "tree_at ns' (fst x) (T' (fst x))" if "x \<in> set left'" for x
      using that root keep [of x] T'o [of x] at [of x] by (auto simp: left')
    show "(\<Sum>x \<in># mset left'. mset (leaves (T' (fst x)))) = mset [0..<HUFFMAN_MAX_SYMBOLS]"
      using inv msum by (simp add: left' T'_def forest_inv_def ac_simps)
    show "distinct (map fst left')"
      using inv at by (fastforce simp: left' forest_inv_def)
    show "?h @ [(Suc (max (hheight (T (fst a))) (hheight (T (fst b)))), snd a + snd b)] =
        map (\<lambda>(i, f). (hheight (T' i), f)) left'"
      using ysmap by (simp add: left' T'_def)
  qed
  moreover have "length left' = length left - 1"
  proof -
    have "length ?s = length ys + 2" unfolding s by simp
    then show ?thesis by (simp add: left')
  qed
  ultimately show ?thesis using hs' by auto
qed

lemma forest_loop:
  assumes "forest_inv ns num left T hs" "k < length left" "num + k \<le> HUFFMAN_MAX_NODES"
    and "construct_loop k ns num left = (ns', num')"
  shows "\<exists>T' left'. forest_inv ns' (num + k) left' T' (height_loop k hs) \<and>
    length left' = length left - k \<and> num' = num + k \<and>
    (if k = 0 then left' = left else fst (last left') = num + k - 1)"
  using assms
proof (induction k arbitrary: ns num left T hs)
  case 0
  then show ?case by auto
next
  case (Suc k)
  obtain ns1 left1 where r: "construct_round ns num left = (ns1, left1)" by fastforce
  define hs1 where "hs1 = (let srt = sort_desc hs; n = length srt; a = srt ! (n - 1); b = srt ! (n - 2)
       in take (n - 2) srt @ [(Suc (max (fst a) (fst b)), snd a + snd b)])"
  have "2 \<le> length left" "num < HUFFMAN_MAX_NODES" using Suc.prems(2,3) by auto
  from forest_round [OF Suc.prems(1) this r] obtain T1 where
    inv1: "forest_inv ns1 (num + 1) left1 T1 hs1" and l1: "length left1 = length left - 1"
    unfolding hs1_def by blast
  have hs1: "height_loop k hs1 = height_loop (Suc k) hs" by (simp add: hs1_def Let_def)
  have c: "construct_loop k ns1 (num + 1) left1 = (ns', num')"
    using Suc.prems(4) r by simp
  have "k < length left1" "num + 1 + k \<le> HUFFMAN_MAX_NODES" using Suc.prems(2,3) l1 by auto
  from Suc.IH [OF inv1 this c] obtain T' left' where
    i: "forest_inv ns' (num + 1 + k) left' T' (height_loop k hs1)" "length left' = length left1 - k"
      "num' = num + 1 + k" "if k = 0 then left' = left1 else fst (last left') = num + 1 + k - 1"
    by blast
  have "fst (last left1) = num" using r by (auto simp: construct_round_def Let_def)
  then have "fst (last left') = num + Suc k - 1" using i(4) by (cases "k = 0") simp_all
  moreover have "forest_inv ns' (num + Suc k) left' T' (height_loop (Suc k) hs)"
    using i(1) by (simp only: hs1 add.assoc plus_1_eq_Suc)
  moreover have "length left' = length left - Suc k" "num' = num + Suc k" using i(2,3) l1 by simp_all
  ultimately show ?case by (intro exI [of _ T'] exI [of _ left']) simp
qed

text \<open>The tree of the construction, before the bits are assigned.\<close>

lemma construct_tree:
  assumes "construct_loop (HUFFMAN_MAX_SYMBOLS - 1)
      (map (\<lambda>i. (zs ! i)\<lparr>n_NumBits := 0xFFFFFFFF, n_Symbol := of_nat i, n_Leaf0 := NO_LEAF, n_Leaf1 := NO_LEAF\<rparr>)
         [0..<HUFFMAN_MAX_SYMBOLS] @ drop HUFFMAN_MAX_SYMBOLS zs)
      HUFFMAN_MAX_SYMBOLS (map (\<lambda>i. (i, freqs ! i)) [0..<HUFFMAN_MAX_SYMBOLS]) = (ns, num)"
    and "length zs = HUFFMAN_MAX_NODES" "length freqs = HUFFMAN_MAX_SYMBOLS"
  shows "\<exists>t. tree_at ns (num - 1) t \<and> mset (leaves t) = mset [0..<HUFFMAN_MAX_SYMBOLS] \<and>
    map fst (height_loop (HUFFMAN_MAX_SYMBOLS - 1) (map (\<lambda>f. (0, f)) freqs)) = [hheight t] \<and>
    length ns = HUFFMAN_MAX_NODES"
proof -
  let ?ns0 = "map (\<lambda>i. (zs ! i)\<lparr>n_NumBits := 0xFFFFFFFF, n_Symbol := of_nat i, n_Leaf0 := NO_LEAF, n_Leaf1 := NO_LEAF\<rparr>)
         [0..<HUFFMAN_MAX_SYMBOLS] @ drop HUFFMAN_MAX_SYMBOLS zs"
  let ?left = "map (\<lambda>i. (i, freqs ! i)) [0..<HUFFMAN_MAX_SYMBOLS]"
  have n: "HUFFMAN_MAX_SYMBOLS = 257" "HUFFMAN_MAX_NODES = 513" by (simp_all add: huffman_consts)
  have len0: "length ?ns0 = HUFFMAN_MAX_NODES" using assms(2) n by simp
  have at: "tree_at ?ns0 i (HLeaf i)" if "i < HUFFMAN_MAX_SYMBOLS" for i
    using that len0 n by (simp add: nth_append)
  have sum1: "(\<Sum>x \<in># mset (map (\<lambda>i. (i, freqs ! i)) is). mset (leaves (HLeaf (fst x)))) = mset is" for "is"
    by (induction "is") auto
  have hs: "map (\<lambda>f. (0 :: nat, f)) freqs = map (\<lambda>(i, f). (hheight (HLeaf i), f)) ?left"
    using assms(3) by (intro nth_equalityI) auto
  have "forest_inv ?ns0 HUFFMAN_MAX_SYMBOLS ?left HLeaf (map (\<lambda>f. (0, f)) freqs)"
    unfolding forest_inv_def
  proof (intro conjI ballI)
    show "length ?ns0 = HUFFMAN_MAX_NODES" by (rule len0)
    show "fst x < HUFFMAN_MAX_SYMBOLS" "tree_at ?ns0 (fst x) (HLeaf (fst x))" if "x \<in> set ?left" for x
      using that at by auto
    show "(\<Sum>x \<in># mset ?left. mset (leaves (HLeaf (fst x)))) = mset [0..<HUFFMAN_MAX_SYMBOLS]"
      by (rule sum1)
    show "distinct (map fst ?left)" by (simp add: comp_def)
  qed (use hs in auto)
  note inv0 = this
  have c: "HUFFMAN_MAX_SYMBOLS - 1 < length ?left"
    "HUFFMAN_MAX_SYMBOLS + (HUFFMAN_MAX_SYMBOLS - 1) \<le> HUFFMAN_MAX_NODES" by (simp_all add: n)
  from forest_loop [OF inv0 c assms(1)] obtain T left' where
    i: "forest_inv ns (HUFFMAN_MAX_SYMBOLS + (HUFFMAN_MAX_SYMBOLS - 1)) left' T
          (height_loop (HUFFMAN_MAX_SYMBOLS - 1) (map (\<lambda>f. (0, f)) freqs))"
      "length left' = length ?left - (HUFFMAN_MAX_SYMBOLS - 1)" "num = HUFFMAN_MAX_SYMBOLS + (HUFFMAN_MAX_SYMBOLS - 1)"
      "if HUFFMAN_MAX_SYMBOLS - 1 = 0 then left' = ?left
       else fst (last left') = HUFFMAN_MAX_SYMBOLS + (HUFFMAN_MAX_SYMBOLS - 1) - 1"
    by blast
  have K: "HUFFMAN_MAX_SYMBOLS - (HUFFMAN_MAX_SYMBOLS - 1) = 1" "HUFFMAN_MAX_SYMBOLS - 1 \<noteq> 0"
    by (simp_all add: n)
  have "length left' = 1" using i(2) K(1) by simp
  moreover have "fst (last left') = num - 1" using i(3,4) K(2) by simp
  ultimately obtain x where x: "left' = [x]" "fst x = num - 1"
    by (cases left') auto
  let ?t = "T (num - 1)"
  define H where "H = height_loop (HUFFMAN_MAX_SYMBOLS - 1) (map (\<lambda>f. (0 :: nat, f)) freqs)"
  have f: "forest_inv ns (HUFFMAN_MAX_SYMBOLS + (HUFFMAN_MAX_SYMBOLS - 1)) [x] T H"
    using i(1) by (simp only: x(1) H_def)
  have "tree_at ns (num - 1) ?t" using f unfolding forest_inv_def by (simp only: x(2) list.set ball_simps)
  moreover have "mset (leaves ?t) = mset [0..<HUFFMAN_MAX_SYMBOLS]"
    using f unfolding forest_inv_def by (simp only: mset.simps image_mset_add_mset image_mset_empty sum_mset.singleton x(2))
  moreover have "length ns = HUFFMAN_MAX_NODES" using f by (simp only: forest_inv_def)
  moreover have h: "H = map (\<lambda>(i, f). (hheight (T i), f)) [x]" using f by (simp only: forest_inv_def)
  moreover have "map fst (height_loop (HUFFMAN_MAX_SYMBOLS - 1) (map (\<lambda>f. (0, f)) freqs)) = [hheight ?t]"
    unfolding H_def [symmetric] h by (simp only: list.map case_prod_unfold fst_conv x(2))
  ultimately show ?thesis by (intro exI [of _ ?t] conjI)
qed

subsection \<open>The bit patterns are the paths\<close>

definition bits_of :: "'a::len word \<Rightarrow> nat \<Rightarrow> bool list" where
  "bits_of w n = map (bit w) [0..<n]"

lemma length_bits_of [simp]: "length (bits_of w n) = n"
  by (simp add: bits_of_def)

lemma bits_of_add: "bits_of w (m + n) = bits_of w m @ map (\<lambda>k. bit w (m + k)) [0..<n]"
  by (rule nth_equalityI) (auto simp: bits_of_def nth_append)

definition clean :: "'a::len word \<Rightarrow> nat \<Rightarrow> bool" where
  "clean w n \<longleftrightarrow> (\<forall>k \<ge> n. \<not> bit w k)"

lemma clean_mono: "clean w n \<Longrightarrow> n \<le> m \<Longrightarrow> clean w m"
  by (simp add: clean_def)

text \<open>Putting the bits of \<open>v\<close> behind the first \<open>n\<close> bits of \<open>w\<close>.\<close>

lemma bits_of_or_push:
  fixes w v :: "'a::len word"
  assumes "clean w n" "n + m \<le> LENGTH('a)" "clean v m"
  shows "bits_of (w OR push_bit n v) (n + m) = bits_of w n @ bits_of v m"
    and "clean (w OR push_bit n v) (n + m)"
proof -
  have b: "bit (w OR push_bit n v) k \<longleftrightarrow> (if k < n then bit w k else bit v (k - n))" if "k < n + m" for k
    using assms(1,2) that by (auto simp: bit_simps clean_def)
  show "bits_of (w OR push_bit n v) (n + m) = bits_of w n @ bits_of v m"
    using b by (intro nth_equalityI) (auto simp: bits_of_def nth_append)
  show "clean (w OR push_bit n v) (n + m)"
    using assms by (auto simp: clean_def bit_simps)
qed

definition code_of :: "hnode list \<Rightarrow> nat \<Rightarrow> bool list" where
  "code_of ns s = bits_of (n_Bits (ns ! s)) (n_NumBits (ns ! s))"

lemma tree_at_frame:
  assumes "tree_at ns i t" "length ns' = length ns" "\<And>j. j \<notin> X \<Longrightarrow> ns' ! j = ns ! j"
    and "X \<inter> set (leaves t) = {}" "\<And>x. x \<in> X \<Longrightarrow> x < HUFFMAN_MAX_SYMBOLS"
  shows "tree_at ns' i t"
  using assms(1,4)
proof (induction t arbitrary: i)
  case (HLeaf s)
  with assms(2) assms(3) [of s] show ?case by simp
next
  case (HNode a b)
  have "i \<notin> X" using HNode.prems(1) assms(5) [of i] by auto
  then have "ns' ! i = ns ! i" by (rule assms(3))
  moreover have "tree_at ns' (n_Leaf0 (ns ! i)) a" "tree_at ns' (n_Leaf1 (ns ! i)) b"
    using HNode by auto
  ultimately show ?case using HNode.prems(1) assms(2) by simp
qed

lemma SetBits_tree:
  assumes "tree_at ns i t" "distinct (leaves t)" "length pre = d" "d + hheight t \<le> 32"
    and "bits_of w d = pre" "clean w d" "0 < d + hheight t" "length ns \<le> NO_LEAF"
  shows "\<exists>ns'. SetBitsRecursive ns i w d = Some ns' \<and> length ns' = length ns \<and>
    (\<forall>j. j \<notin> set (leaves t) \<longrightarrow> ns' ! j = ns ! j) \<and> tree_at ns' i t \<and>
    (\<forall>(s, p) \<in> set (codes t). code_of ns' s = pre @ p \<and> n_NumBits (ns' ! s) = d + length p \<and>
       clean (n_Bits (ns' ! s)) (d + length p))"
  using assms
proof (induction t arbitrary: ns i w d pre)
  case (HLeaf s)
  then show ?case
    by (subst SetBitsRecursive.simps) (simp add: code_of_def)
next
  case (HNode a b)
  let ?l = "n_Leaf0 (ns ! i)" and ?r = "n_Leaf1 (ns ! i)"
  have i: "HUFFMAN_MAX_SYMBOLS \<le> i" "i < length ns" "n_NumBits (ns ! i) = 0"
    and ta: "tree_at ns ?l a" and tb: "tree_at ns ?r b" and li: "?l < i" "?r < i"
    using HNode.prems(1) by auto
  have sym: "x < HUFFMAN_MAX_SYMBOLS" if "x \<in> set (leaves a) \<or> x \<in> set (leaves b)" for x
    using that tree_at_leaves [OF ta] tree_at_leaves [OF tb] by auto
  have d: "d < 32" using HNode.prems(4) by simp
  have no: "?l \<noteq> NO_LEAF" "?r \<noteq> NO_LEAF" using HNode.prems(8) i li by auto
  have dis: "set (leaves a) \<inter> set (leaves b) = {}" "distinct (leaves a)" "distinct (leaves b)"
    using HNode.prems(2) by auto
  have one: "clean (1 :: 32 word) 1" "bits_of (1 :: 32 word) 1 = [True]"
    by (auto simp: clean_def bits_of_def bit_simps)
  let ?w = "w OR push_bit d 1"
  have w1: "bits_of ?w (d + 1) = pre @ [True]" "clean ?w (d + 1)"
    using bits_of_or_push [of w d 1 "1 :: 32 word"] HNode.prems(5,6) d one by auto
  have w0: "bits_of w (d + 1) = pre @ [False]" "clean w (d + 1)"
    using HNode.prems(5,6) by (auto simp: bits_of_def clean_def)
  have hb: "length (pre @ [True]) = d + 1" "d + 1 + hheight b \<le> 32" "0 < d + 1 + hheight b"
    and ha: "length (pre @ [False]) = d + 1" "d + 1 + hheight a \<le> 32" "0 < d + 1 + hheight a"
    using HNode.prems(3,4) by auto
  from HNode.IH(2) [OF tb dis(3) hb(1,2) w1 hb(3) HNode.prems(8)] obtain ns1 where
    ns1: "SetBitsRecursive ns ?r ?w (d + 1) = Some ns1" "length ns1 = length ns"
      "\<forall>j. j \<notin> set (leaves b) \<longrightarrow> ns1 ! j = ns ! j" "tree_at ns1 ?r b"
      "\<forall>(s, p) \<in> set (codes b). code_of ns1 s = (pre @ [True]) @ p \<and> n_NumBits (ns1 ! s) = d + 1 + length p \<and>
         clean (n_Bits (ns1 ! s)) (d + 1 + length p)"
    by blast
  have len1: "length ns1 \<le> NO_LEAF" using ns1(2) HNode.prems(8) by simp
  have ta1: "tree_at ns1 ?l a"
    by (rule tree_at_frame [OF ta ns1(2), of "set (leaves b)"]) (use ns1(3) dis sym in auto)
  from HNode.IH(1) [OF ta1 dis(2) ha(1,2) w0 ha(3) len1] obtain ns2 where
    ns2: "SetBitsRecursive ns1 ?l w (d + 1) = Some ns2" "length ns2 = length ns1"
      "\<forall>j. j \<notin> set (leaves a) \<longrightarrow> ns2 ! j = ns1 ! j" "tree_at ns2 ?l a"
      "\<forall>(s, p) \<in> set (codes a). code_of ns2 s = (pre @ [False]) @ p \<and> n_NumBits (ns2 ! s) = d + 1 + length p \<and>
         clean (n_Bits (ns2 ! s)) (d + 1 + length p)"
    by blast
  have tb2: "tree_at ns2 ?r b"
    by (rule tree_at_frame [OF ns1(4) ns2(2), of "set (leaves a)"]) (use ns2(3) dis sym in auto)
  have iN: "i \<notin> set (leaves a)" "i \<notin> set (leaves b)" using i(1) sym by fastforce+
  then have i1: "ns1 ! i = ns ! i" "ns2 ! i = ns ! i" using ns1(3) ns2(3) by simp_all
  have run: "SetBitsRecursive ns i w d = Some ns2"
    using no ns1(1) ns2(1) i i1 by (subst SetBitsRecursive.simps) simp
  have cb: "code_of ns2 s = (pre @ [True]) @ p \<and> n_NumBits (ns2 ! s) = d + 1 + length p \<and>
         clean (n_Bits (ns2 ! s)) (d + 1 + length p)" if "(s, p) \<in> set (codes b)" for s p
  proof -
    have "s \<in> set (leaves b)" by (rule codes_leaves [OF that])
    then have "ns2 ! s = ns1 ! s" using ns2(3) dis(1) by auto
    with ns1(5) that show ?thesis by (auto simp: code_of_def)
  qed
  have "\<forall>(s, p) \<in> set (codes (HNode a b)). code_of ns2 s = pre @ p \<and>
      n_NumBits (ns2 ! s) = d + length p \<and> clean (n_Bits (ns2 ! s)) (d + length p)"
    using cb ns2(5) by auto
  moreover have "tree_at ns2 i (HNode a b)"
    using HNode.prems(1) ns1(2) ns2(2,4) i1(2) tb2 by simp
  moreover have "\<forall>j. j \<notin> set (leaves (HNode a b)) \<longrightarrow> ns2 ! j = ns ! j"
    using ns1(3) ns2(3) by simp
  moreover have "length ns2 = length ns" using ns1(2) ns2(2) by simp
  ultimately show ?case using run by blast
qed

subsection \<open>The initialised object\<close>

definition huffman_tree :: "huffman \<Rightarrow> htree \<Rightarrow> bool" where
  "huffman_tree h t \<longleftrightarrow>
     tree_at (h_Nodes h) (h_StartNode h) t \<and> mset (leaves t) = mset [0..<HUFFMAN_MAX_SYMBOLS] \<and>
     0 < hheight t \<and> hheight t \<le> 24 \<and>
     (\<forall>(s, p) \<in> set (codes t). code_of (h_Nodes h) s = p \<and> n_NumBits (h_Nodes h ! s) = length p \<and>
        clean (n_Bits (h_Nodes h ! s)) (length p)) \<and>
     h_DecodeLut h = map (\<lambda>i. Some (lut_walk (h_Nodes h) (h_StartNode h) (of_nat i) HUFFMAN_LUTBITS)) [0..<HUFFMAN_LUTSIZE]"

lemma huffman_Init_tree: "\<exists>h t. huffman_Init = Some h \<and> huffman_tree h t \<and> hheight t = 15"
proof -
  let ?zs = "replicate HUFFMAN_MAX_NODES zero_node"
  let ?h0 = "\<lparr>h_Nodes = ?zs, h_DecodeLut = replicate HUFFMAN_LUTSIZE None, h_StartNode = 0, h_NumNodes = 0\<rparr>"
  let ?ns0 = "map (\<lambda>i. (?zs ! i)\<lparr>n_NumBits := 0xFFFFFFFF, n_Symbol := of_nat i, n_Leaf0 := NO_LEAF, n_Leaf1 := NO_LEAF\<rparr>)
         [0..<HUFFMAN_MAX_SYMBOLS] @ drop HUFFMAN_MAX_SYMBOLS ?zs"
  let ?left = "map (\<lambda>i. (i, ms_aFreqTable ! i)) [0..<HUFFMAN_MAX_SYMBOLS]"
  obtain ns num where c: "construct_loop (HUFFMAN_MAX_SYMBOLS - 1) ?ns0 HUFFMAN_MAX_SYMBOLS ?left = (ns, num)" by fastforce
  have lens: "length ?zs = HUFFMAN_MAX_NODES" by simp
  have lenf: "length ms_aFreqTable = HUFFMAN_MAX_SYMBOLS" by (simp add: ms_aFreqTable_def huffman_consts)
  obtain t where
    t: "tree_at ns (num - 1) t" "mset (leaves t) = mset [0..<HUFFMAN_MAX_SYMBOLS]"
      "map fst (height_loop (HUFFMAN_MAX_SYMBOLS - 1) (map (\<lambda>f. (0, f)) ms_aFreqTable)) = [hheight t]"
      "length ns = HUFFMAN_MAX_NODES"
    using construct_tree [OF c lens lenf] by (elim exE conjE) (rule that)
  have "HUFFMAN_MAX_SYMBOLS - 1 = 256" by (simp add: huffman_consts)
  then have h15: "hheight t = 15" using t(3) height_loop_freqs by simp
  have "distinct [0..<HUFFMAN_MAX_SYMBOLS]" by (rule distinct_upt)
  then have d: "distinct (leaves t)" using t(2) mset_eq_imp_distinct_iff by blast
  have "length ns \<le> NO_LEAF" using t(4) by (simp add: NO_LEAF_def huffman_consts)
  moreover have "0 + hheight t \<le> 32" "0 < 0 + hheight t" "bits_of (0 :: 32 word) 0 = []" "clean (0 :: 32 word) 0"
    using h15 by (simp_all add: bits_of_def clean_def)
  ultimately obtain ns' where
    n: "SetBitsRecursive ns (num - 1) 0 0 = Some ns'" "tree_at ns' (num - 1) t"
      "\<forall>(s, p) \<in> set (codes t). code_of ns' s = [] @ p \<and> n_NumBits (ns' ! s) = 0 + length p \<and>
         clean (n_Bits (ns' ! s)) (0 + length p)"
    using SetBits_tree [OF t(1) d, of "[]" 0 0] by auto
  have "ConstructTree ?h0 ms_aFreqTable =
      Some (?h0\<lparr>h_Nodes := ns', h_NumNodes := num, h_StartNode := num - 1\<rparr>)"
    unfolding ConstructTree_def Let_def huffman.simps c prod.case n(1) bind.bind_lunit by simp
  then obtain h where h: "huffman_Init = Some h" "h_Nodes h = ns'" "h_StartNode h = num - 1"
      "h_DecodeLut h = map (\<lambda>i. Some (lut_walk ns' (num - 1) (of_nat i) HUFFMAN_LUTBITS)) [0..<HUFFMAN_LUTSIZE]"
    unfolding huffman_Init_def by (simp only: bind.bind_lunit) simp
  have "huffman_tree h t"
    unfolding huffman_tree_def h(2,3,4) using n(2,3) t(2) h15 by simp
  with h(1) h15 show ?thesis by blast
qed

lemma codes_of_symbol:
  assumes "huffman_tree h t" "s < HUFFMAN_MAX_SYMBOLS"
  shows "\<exists>p. (s, p) \<in> set (codes t) \<and> p \<noteq> [] \<and> length p \<le> 24"
proof -
  have "set (leaves t) = {0..<HUFFMAN_MAX_SYMBOLS}"
    using assms(1) by (metis huffman_tree_def set_mset_mset set_upt)
  then have "s \<in> set (map fst (codes t))" using assms(2) by (simp add: map_fst_codes)
  then obtain p where p: "(s, p) \<in> set (codes t)" by auto
  moreover have "length p \<le> 24" using codes_height [OF p] assms(1) by (simp add: huffman_tree_def)
  moreover have "p \<noteq> []"
    using p assms(1) by (cases t) (auto simp: huffman_tree_def)
  ultimately show ?thesis by blast
qed

text \<open>The code of a symbol, and of a sequence of bytes with the end mark.\<close>

definition hcode :: "huffman \<Rightarrow> nat \<Rightarrow> bool list" where
  "hcode h s = code_of (h_Nodes h) s"

lemma hcode_facts:
  assumes "huffman_tree h t" "s < HUFFMAN_MAX_SYMBOLS"
  shows "(s, hcode h s) \<in> set (codes t)" "hcode h s \<noteq> []" "length (hcode h s) \<le> 24"
    "n_NumBits (h_Nodes h ! s) = length (hcode h s)"
    "clean (n_Bits (h_Nodes h ! s)) (length (hcode h s))"
    "bits_of (n_Bits (h_Nodes h ! s)) (length (hcode h s)) = hcode h s"
proof -
  obtain p where p: "(s, p) \<in> set (codes t)" "p \<noteq> []" "length p \<le> 24"
    using codes_of_symbol [OF assms] by blast
  with assms(1) have c: "hcode h s = p" "n_NumBits (h_Nodes h ! s) = length p"
    "clean (n_Bits (h_Nodes h ! s)) (length p)"
    by (auto simp: huffman_tree_def hcode_def)
  with p show "(s, hcode h s) \<in> set (codes t)" "hcode h s \<noteq> []" "length (hcode h s) \<le> 24"
    "n_NumBits (h_Nodes h ! s) = length (hcode h s)"
    "clean (n_Bits (h_Nodes h ! s)) (length (hcode h s))" by auto
  show "bits_of (n_Bits (h_Nodes h ! s)) (length (hcode h s)) = hcode h s"
    using c by (simp add: hcode_def code_of_def)
qed

definition symbols :: "bytes \<Rightarrow> nat list" where
  "symbols bs = map unat bs @ [HUFFMAN_EOF_SYMBOL]"

lemma symbols_bound: "s \<in> set (symbols bs) \<Longrightarrow> s < HUFFMAN_MAX_SYMBOLS"
proof -
  have "unat (b :: byte) < 257" for b 
  proof -
    have "int (unat b) = uint b" by simp
    with uint_byte_bounds(2) [of b] show ?thesis by linarith
  qed
  then show "s \<in> set (symbols bs) \<Longrightarrow> ?thesis" by (auto simp: symbols_def huffman_consts)
qed

definition hstream :: "huffman \<Rightarrow> bytes \<Rightarrow> bool list" where
  "hstream h bs = concat (map (hcode h) (symbols bs))"

subsection \<open>The bits of bytes\<close>

definition byte_bits :: "bytes \<Rightarrow> bool list" where
  "byte_bits bs = concat (map (\<lambda>b. bits_of b 8) bs)"

lemma byte_bits_simps [simp]:
  "byte_bits [] = []" "byte_bits (b # bs) = bits_of b 8 @ byte_bits bs"
  "byte_bits (xs @ ys) = byte_bits xs @ byte_bits ys"
  by (simp_all add: byte_bits_def)

lemma length_byte_bits [simp]: "length (byte_bits bs) = 8 * length bs"
  by (induction bs) auto

lemma bits_of_ucast_drop:
  fixes w :: "'a::len word"
  assumes "k + n \<le> LENGTH('a)"
  shows "bits_of (drop_bit k w) n = map (\<lambda>i. bit w (k + i)) [0..<n]"
  by (auto simp: bits_of_def bit_simps)

lemma bits_of_byte: "bits_of (ucast (w :: 64 word) :: byte) 8 = bits_of w 8"
  by (auto simp: bits_of_def bit_simps)

lemma bits_split8:
  fixes w :: "64 word"
  shows "bits_of w (8 + n) = bits_of (ucast w :: byte) 8 @ bits_of (drop_bit 8 w) n"
  by (rule nth_equalityI) (auto simp: bits_of_def nth_append bit_simps)

lemma clean_drop: "clean w n \<Longrightarrow> clean (drop_bit k (w :: 'a::len word)) (n - k)"
  by (auto simp: clean_def bit_simps)

definition buf_stream :: "bitbuf \<Rightarrow> bool list" where
  "buf_stream b = byte_bits (b_Out b) @ bits_of (b_Bits b) (b_Count b)"

lemma and_FF_byte: "ucast ((w :: 64 word) AND 0xff) = (ucast w :: byte)"
proof (rule bit_word_eqI)
  fix k assume "k < LENGTH(8)"
  have m: "(0xff :: 64 word) = mask 8" by (simp add: mask_eq_exp_minus_1)
  show "bit (ucast (w AND 0xff) :: byte) k = bit (ucast w :: byte) k"
    unfolding m using \<open>k < LENGTH(8)\<close> by (simp add: bit_simps)
qed

lemma write_bytes_spec:
  assumes "clean w c" "length out \<le> n"
  shows "if length out + c div 8 \<le> n
    then \<exists>b. write_bytes n w c out = Some b \<and> length (b_Out b) = length out + c div 8 \<and>
      b_Count b = c mod 8 \<and> clean (b_Bits b) (c mod 8) \<and> buf_stream b = byte_bits out @ bits_of w c
    else write_bytes n w c out = None"
  using assms
proof (induction n w c out rule: write_bytes.induct)
  case (1 n w c out)
  show ?case
  proof (cases "8 \<le> c")
    case False
    with "1.prems" show ?thesis by (subst (1 2) write_bytes.simps) (simp add: buf_stream_def)
  next
    case True
    show ?thesis
    proof (cases "length out = n")
      case full: True
      with True show ?thesis by (subst (1 2) write_bytes.simps) (simp add: div_le_dividend div_greater_zero_iff)
    next
      case False
      let ?out = "out @ [ucast (w AND 0xff)]"
      have step: "write_bytes n w c out = write_bytes n (drop_bit 8 w) (c - 8) ?out"
        using True False by (subst write_bytes.simps) simp
      have cl: "clean (drop_bit 8 w) (c - 8)" using "1.prems"(1) by (rule clean_drop)
      have d: "c div 8 = Suc ((c - 8) div 8)" "c mod 8 = (c - 8) mod 8"
        using True by (simp_all add: le_div_geq le_mod_geq)
      have s: "byte_bits ?out @ bits_of (drop_bit 8 w) (c - 8) = byte_bits out @ bits_of w c"
        using bits_split8 [of w "c - 8"] True by (simp add: and_FF_byte)
      have "length ?out \<le> n" using "1.prems"(2) False by simp
      note IH = "1.IH" [OF True False cl this]
      have l: "length ?out + (c - 8) div 8 = length out + c div 8" using d(1) by simp
      show ?thesis
        using IH unfolding l s step [symmetric] d(2) [symmetric] by (simp only: split: if_splits)
    qed
  qed
qed

lemma fast_bytes:
  "q \<le> 8 \<Longrightarrow> byte_bits (map (\<lambda>i. ucast (drop_bit (i * 8) w)) [0..<q]) = bits_of (w :: 64 word) (8 * q)"
proof (induction q)
  case (Suc q)
  have "bits_of (ucast (drop_bit (q * 8) w) :: byte) 8 = map (\<lambda>k. bit w (8 * q + k)) [0..<8]"
    using Suc.prems by (auto simp: bits_of_def bit_simps ac_simps)
  with Suc show ?case
    using bits_of_add [of w "8 * q" 8] by (simp add: ac_simps)
qed (simp add: bits_of_def)

lemma write_symbol_spec:
  assumes "clean (b_Bits b) (b_Count b)" "length (b_Out b) \<le> n" "b_Count b < 64"
  shows "if length (b_Out b) + b_Count b div 8 \<le> n
    then \<exists>b'. write_symbol n b = Some b' \<and> length (b_Out b') = length (b_Out b) + b_Count b div 8 \<and>
      b_Count b' = b_Count b mod 8 \<and> clean (b_Bits b') (b_Count b mod 8) \<and> buf_stream b' = buf_stream b
    else write_symbol n b = None"
proof (cases "int n - int (length (b_Out b)) \<ge> 8")
  case False
  then have ws: "write_symbol n b = write_bytes n (b_Bits b) (b_Count b) (b_Out b)"
    by (simp add: write_symbol_def)
  show ?thesis using write_bytes_spec [OF assms(1,2)] unfolding ws by (simp only: buf_stream_def [of b])
next
  case True
  let ?q = "b_Count b div 8"
  have q: "?q \<le> 8" using assms(3) by simp
  have c: "b_Count b = 8 * ?q + b_Count b mod 8" by simp
  let ?b = "b\<lparr>b_Out := b_Out b @ take ?q (map (\<lambda>i. ucast (drop_bit (i * 8) (b_Bits b))) [0..<8]),
                b_Bits := drop_bit (?q * 8) (b_Bits b), b_Count := b_Count b mod 8\<rparr>"
  have t: "take ?q (map (\<lambda>i. ucast (drop_bit (i * 8) (b_Bits b)) :: byte) [0..<8]) =
      map (\<lambda>i. ucast (drop_bit (i * 8) (b_Bits b))) [0..<?q]"
    using q by (simp add: take_map take_upt)
  have "clean (drop_bit (?q * 8) (b_Bits b)) (b_Count b mod 8)"
    using clean_drop [OF assms(1), of "?q * 8"] by (simp add: minus_div_mult_eq_mod)
  moreover have "buf_stream ?b = buf_stream b"
  proof -
    have "bits_of (b_Bits b) (b_Count b) = bits_of (b_Bits b) (8 * ?q) @ map (\<lambda>k. bit (b_Bits b) (8 * ?q + k)) [0..<b_Count b mod 8]"
      using bits_of_add [of "b_Bits b" "8 * ?q" "b_Count b mod 8"] c by simp
    moreover have "bits_of (drop_bit (?q * 8) (b_Bits b)) (b_Count b mod 8) = map (\<lambda>k. bit (b_Bits b) (8 * ?q + k)) [0..<b_Count b mod 8]"
      by (auto simp: bits_of_def bit_simps ac_simps)
    ultimately show ?thesis using fast_bytes [OF q, of "b_Bits b"] t by (simp add: buf_stream_def)
  qed
  moreover have "write_symbol n b = Some ?b" using True by (simp add: write_symbol_def)
  ultimately show ?thesis using True q t by simp
qed

lemma load_symbol_spec:
  assumes "huffman_tree h t" "s < HUFFMAN_MAX_SYMBOLS" "clean (b_Bits b) (b_Count b)" "b_Count b < 8"
  shows "buf_stream (load_symbol h s b) = buf_stream b @ hcode h s"
    "clean (b_Bits (load_symbol h s b)) (b_Count (load_symbol h s b))"
    "b_Count (load_symbol h s b) < 64" "b_Out (load_symbol h s b) = b_Out b"
    "b_Count (load_symbol h s b) = b_Count b + length (hcode h s)"
proof -
  note f = hcode_facts [OF assms(1,2)]
  let ?v = "ucast (n_Bits (h_Nodes h ! s)) :: 64 word"
  have v: "clean ?v (length (hcode h s))" "bits_of ?v (length (hcode h s)) = hcode h s"
  proof -
    show "clean ?v (length (hcode h s))" using f(5) by (auto simp: clean_def bit_simps)
    have "bits_of ?v (length (hcode h s)) = bits_of (n_Bits (h_Nodes h ! s)) (length (hcode h s))"
      using f(3) by (auto simp: bits_of_def bit_simps)
    then show "bits_of ?v (length (hcode h s)) = hcode h s" using f(6) by simp
  qed
  have le: "b_Count b + length (hcode h s) \<le> LENGTH(64)" using f(3) assms(4) by simp
  note o = bits_of_or_push [OF assms(3) le v(1)]
  show "buf_stream (load_symbol h s b) = buf_stream b @ hcode h s"
    using o(1) v(2) f(4) by (simp add: load_symbol_def buf_stream_def)
  show "clean (b_Bits (load_symbol h s b)) (b_Count (load_symbol h s b))"
    using o(2) f(4) by (simp add: load_symbol_def)
  show "b_Count (load_symbol h s b) < 64" "b_Out (load_symbol h s b) = b_Out b"
    "b_Count (load_symbol h s b) = b_Count b + length (hcode h s)"
    using f(3,4) assms(4) by (simp_all add: load_symbol_def)
qed

lemma length_buf_stream: "length (buf_stream b) = 8 * length (b_Out b) + b_Count b"
  by (simp add: buf_stream_def)

lemma compress_symbols_spec:
  assumes "huffman_tree h t" "\<forall>s \<in> set ss. s < HUFFMAN_MAX_SYMBOLS" "clean (b_Bits b) (b_Count b)" "b_Count b < 8"
    "length (b_Out b) \<le> n"
  shows "if length (buf_stream b @ concat (map (hcode h) ss)) div 8 \<le> n
    then \<exists>b'. compress_symbols h n ss b = Some b' \<and> buf_stream b' = buf_stream b @ concat (map (hcode h) ss) \<and>
      b_Count b' < 8 \<and> clean (b_Bits b') (b_Count b')
    else compress_symbols h n ss b = None"
  using assms(2-)
proof (induction ss arbitrary: b)
  case Nil
  then show ?case by (auto simp: length_buf_stream)
next
  case (Cons s ss)
  let ?b = "load_symbol h s b"
  note l = load_symbol_spec [OF assms(1) _ Cons.prems(2,3), of s]
  have s: "s < HUFFMAN_MAX_SYMBOLS" using Cons.prems(1) by simp
  have L: "length (buf_stream ?b) div 8 = length (b_Out ?b) + b_Count ?b div 8"
    by (simp add: length_buf_stream)
  have mono: "length (buf_stream ?b) div 8 \<le> length (buf_stream b @ concat (map (hcode h) (s # ss))) div 8"
    using l(1) [OF s] by (intro div_le_mono) simp
  note w = write_symbol_spec [OF l(2) [OF s] _ l(3) [OF s], of n]
  have ol: "length (b_Out ?b) \<le> n" using l(4) [OF s] Cons.prems(4) by simp
  show ?case
  proof (cases "length (buf_stream ?b) div 8 \<le> n")
    case False
    then have "write_symbol n ?b = None" using w [OF ol] L by (simp split: if_splits)
    moreover have "\<not> length (buf_stream b @ concat (map (hcode h) (s # ss))) div 8 \<le> n" using False mono by linarith
    ultimately show ?thesis by simp
  next
    case True
    with w [OF ol] L obtain b' where b': "write_symbol n ?b = Some b'" "length (b_Out b') = length (b_Out ?b) + b_Count ?b div 8"
      "b_Count b' = b_Count ?b mod 8" "clean (b_Bits b') (b_Count ?b mod 8)" "buf_stream b' = buf_stream ?b"
      by (auto split: if_splits)
    have "length (b_Out b') \<le> n" using b'(2) True L by simp
    with Cons.IH [of b'] Cons.prems(1) b'(3,4)
    have "if length (buf_stream b' @ concat (map (hcode h) ss)) div 8 \<le> n
      then \<exists>b''. compress_symbols h n ss b' = Some b'' \<and> buf_stream b'' = buf_stream b' @ concat (map (hcode h) ss) \<and>
        b_Count b'' < 8 \<and> clean (b_Bits b'') (b_Count b'')
      else compress_symbols h n ss b' = None" by simp
    moreover have "buf_stream b' @ concat (map (hcode h) ss) = buf_stream b @ concat (map (hcode h) (s # ss))"
      using b'(5) l(1) [OF s] by simp
    ultimately show ?thesis using b'(1) by (simp only: compress_symbols.simps bind.bind_lunit)
  qed
qed

text \<open>The size of the compressed form, and the bytes themselves: the code bits padded with zeros.\<close>

definition compressed_size :: "huffman \<Rightarrow> bytes \<Rightarrow> nat" where
  "compressed_size h bs = (length (hstream h bs) + 7) div 8"

lemma huffman_Compress_spec:
  assumes "huffman_tree h t" "0 < n"
  shows "if compressed_size h bs \<le> n
    then \<exists>out pad. huffman_Compress h bs n = Inr out \<and> length out = compressed_size h bs \<and>
      byte_bits out = hstream h bs @ replicate pad False \<and> pad < 8
    else huffman_Compress h bs n = Inl (ErrCode (-1))"
proof -
  let ?b0 = "\<lparr>b_Bits = 0, b_Count = 0, b_Out = []\<rparr>"
  have b0: "buf_stream ?b0 = []" by (simp add: buf_stream_def bits_of_def)
  have st: "concat (map (hcode h) (map unat bs @ [HUFFMAN_EOF_SYMBOL])) = hstream h bs"
    by (simp add: hstream_def symbols_def)
  note c = compress_symbols_spec [OF assms(1), of "map unat bs @ [HUFFMAN_EOF_SYMBOL]" ?b0 n]
  have sb: "\<forall>s \<in> set (map unat bs @ [HUFFMAN_EOF_SYMBOL]). s < HUFFMAN_MAX_SYMBOLS"
    using symbols_bound [of _ bs] unfolding symbols_def by blast
  have c': "if length (hstream h bs) div 8 \<le> n
    then \<exists>b'. compress_symbols h n (map unat bs @ [HUFFMAN_EOF_SYMBOL]) ?b0 = Some b' \<and> buf_stream b' = hstream h bs \<and>
      b_Count b' < 8 \<and> clean (b_Bits b') (b_Count b')
    else compress_symbols h n (map unat bs @ [HUFFMAN_EOF_SYMBOL]) ?b0 = None"
  proof -
    have z: "clean (b_Bits ?b0) (b_Count ?b0)" "b_Count ?b0 < 8" "length (b_Out ?b0) \<le> n"
      by (simp_all add: clean_def)
    show ?thesis using c [OF sb z] unfolding st b0 append_Nil .
  qed
  show ?thesis
  proof (cases "length (hstream h bs) div 8 \<le> n")
    case False
    have "length (hstream h bs) div 8 \<le> compressed_size h bs"
      unfolding compressed_size_def by (intro div_le_mono) simp
    with False have "\<not> compressed_size h bs \<le> n" by linarith
    with False c' assms(2) show ?thesis by (simp add: huffman_Compress_def)
  next
    case True
    with c' obtain b where b: "compress_symbols h n (map unat bs @ [HUFFMAN_EOF_SYMBOL]) ?b0 = Some b"
      "buf_stream b = hstream h bs" "b_Count b < 8" "clean (b_Bits b) (b_Count b)" by auto
    have len: "length (hstream h bs) = 8 * length (b_Out b) + b_Count b"
      using b(2) length_buf_stream by metis
    show ?thesis
    proof (cases "b_Count b = 0")
      case True
      then have "huffman_Compress h bs n = Inr (b_Out b)" using b assms(2) by (simp add: huffman_Compress_def)
      moreover have "compressed_size h bs = length (b_Out b)" using len True by (simp add: compressed_size_def)
      moreover have "byte_bits (b_Out b) = hstream h bs @ replicate 0 False"
        using b(2) True by (simp add: buf_stream_def bits_of_def)
      ultimately show ?thesis using \<open>length (hstream h bs) div 8 \<le> n\<close> len True by auto
    next
      case False
      have size: "compressed_size h bs = length (b_Out b) + 1"
        using len False b(3) by (simp add: compressed_size_def)
      have run: "huffman_Compress h bs n =
          (if length (b_Out b) = n then Inl (ErrCode (-1)) else Inr (b_Out b @ [ucast (b_Bits b)]))"
        using b False assms(2) by (simp add: huffman_Compress_def)
      have "length (b_Out b) \<le> n" using True len b(3) by simp
      have "bits_of (ucast (b_Bits b) :: byte) 8 = bits_of (b_Bits b) (b_Count b) @ replicate (8 - b_Count b) False"
        using b(3,4) by (intro nth_equalityI) (auto simp: bits_of_def nth_append bit_simps clean_def)
      then have "byte_bits (b_Out b @ [ucast (b_Bits b)]) = hstream h bs @ replicate (8 - b_Count b) False"
        using b(2) by (simp add: buf_stream_def)
      moreover have "8 - b_Count b < 8" using False by simp
      ultimately show ?thesis using run size \<open>length (b_Out b) \<le> n\<close> by auto
    qed
  qed
qed

subsection \<open>Decoding\<close>

lemma and_1_bit: "(w :: 32 word) AND 1 = 1 \<longleftrightarrow> bit w 0"
proof -
  have "w AND 1 = 1 \<longleftrightarrow> odd w" by (simp add: and_one_eq odd_iff_mod_2_eq_one)
  then show ?thesis by (simp add: bit_0)
qed

lemma codes_child:
  assumes "tree_at ns i t" "(s, x # p) \<in> set (codes t)"
  shows "\<exists>t'. tree_at ns (if x then n_Leaf1 (ns ! i) else n_Leaf0 (ns ! i)) t' \<and> (s, p) \<in> set (codes t')"
  using assms by (cases t) auto

lemma codes_nil: "tree_at ns i t \<Longrightarrow> (s, []) \<in> set (codes t) \<Longrightarrow> i = s \<and> n_NumBits (ns ! s) \<noteq> 0"
  by (cases t) auto

lemma leaf_symbol: "tree_at ns i t \<Longrightarrow> s \<in> set (leaves t) \<Longrightarrow> n_Symbol (ns ! s) = of_nat s"
  by (induction t arbitrary: i) auto

lemma codes_cons_inner: "tree_at ns i t \<Longrightarrow> (s, x # p) \<in> set (codes t) \<Longrightarrow> n_NumBits (ns ! i) = 0"
  by (cases t) auto

lemma bits_of_Suc: "bits_of (w :: 'a::len word) (Suc n) = bit w 0 # bits_of (drop_bit 1 w) n"
proof -
  have u: "[0..<Suc n] = 0 # map Suc [0..<n]" by (simp add: upt_conv_Cons map_Suc_upt del: upt_Suc)
  show ?thesis unfolding bits_of_def u by (simp add: comp_def bit_simps)
qed

lemma lut_walk_spec:
  assumes "tree_at ns i t" "(s, p) \<in> set (codes t)" "p \<noteq> []" "bits_of w (min k (length p)) = take k p"
  shows "if length p \<le> k then lut_walk ns i w k = s
    else \<exists>t'. tree_at ns (lut_walk ns i w k) t' \<and> (s, drop k p) \<in> set (codes t')"
  using assms
proof (induction ns i w k arbitrary: t p rule: lut_walk.induct)
  case (1 ns i w)
  then show ?case by auto
next
  case (2 ns i w k)
  obtain x p' where p: "p = x # p'" using "2.prems"(3) by (cases p) auto
  define q where "q = (if w AND 1 = 1 then n_Leaf1 (ns ! i) else n_Leaf0 (ns ! i))"
  have bits: "bit w 0 = x" "bits_of (drop_bit 1 w) (min k (length p')) = take k p'"
    using "2.prems"(4) unfolding p by (simp_all add: bits_of_Suc)
  obtain t' where t': "tree_at ns q t'" "(s, p') \<in> set (codes t')"
    using codes_child [OF "2.prems"(1)] "2.prems"(2) unfolding p q_def and_1_bit bits(1) by metis
  show ?case
  proof (cases p')
    case Nil
    with codes_nil [OF t'(1)] t'(2) have "q = s" "n_NumBits (ns ! s) \<noteq> 0" by auto
    then show ?thesis using p Nil by (simp add: Let_def q_def [symmetric])
  next
    case (Cons y p'')
    with codes_cons_inner [OF t'(1)] t'(2) have z: "n_NumBits (ns ! q) = 0" by simp
    then have "lut_walk ns i w (Suc k) = lut_walk ns q (drop_bit 1 w) k" by (simp add: Let_def q_def [symmetric])
    moreover have "if length p' \<le> k then lut_walk ns q (drop_bit 1 w) k = s
      else \<exists>t'. tree_at ns (lut_walk ns q (drop_bit 1 w) k) t' \<and> (s, drop k p') \<in> set (codes t')"
      by (rule "2.IH" [OF q_def _ t' _ bits(2)]) (use z Cons in auto)
    ultimately show ?thesis using p by (simp del: lut_walk.simps One_nat_def)
  qed
qed

lemma tree_walk_spec:
  assumes "tree_at ns i t" "(s, p) \<in> set (codes t)" "p \<noteq> []" "bits_of w (length p) = p" "length p \<le> unat c"
  shows "tree_walk ns i w c = Some (s, drop_bit (length p) w, c - of_nat (length p))"
  using assms
proof (induction p arbitrary: i t w c)
  case Nil
  then show ?case by simp
next
  case (Cons x p)
  let ?q = "if w AND 1 = 1 then n_Leaf1 (ns ! i) else n_Leaf0 (ns ! i)"
  have bits: "bit w 0 = x" "bits_of (drop_bit 1 w) (length p) = p"
    using Cons.prems(4) by (simp_all add: bits_of_Suc)
  obtain t' where t': "tree_at ns ?q t'" "(s, p) \<in> set (codes t')"
    using codes_child [OF Cons.prems(1,2)] unfolding and_1_bit bits(1) by metis
  have c: "c \<noteq> 0" using Cons.prems(5) by auto
  show ?case
  proof (cases p)
    case Nil
    with codes_nil [OF t'(1)] t'(2) have "?q = s" "n_NumBits (ns ! s) \<noteq> 0" by auto
    then show ?thesis using Nil by (subst tree_walk.simps) (simp add: Let_def)
  next
    case (Cons y p')
    with codes_cons_inner [OF t'(1)] t'(2) have z: "n_NumBits (ns ! ?q) = 0" by simp
    have u: "unat (c - 1) = unat c - 1" using c by (simp add: unat_minus_one)
    then have "c - 1 \<noteq> 0" using Cons.prems(5) Cons by (metis One_nat_def Suc_le_mono add_leD1 diff_is_0_eq length_Cons list.size(4) not_one_le_zero plus_1_eq_Suc unat_0 le_add1 le_trans numeral_nat(7) Suc_leI zero_less_Suc not_less_eq_eq diff_Suc_1)
    then have "tree_walk ns i w c = tree_walk ns ?q (drop_bit 1 w) (c - 1)"
      using z by (subst tree_walk.simps) (simp add: Let_def)
    also have "\<dots> = Some (s, drop_bit (length p) (drop_bit 1 w), c - 1 - of_nat (length p))"
      by (rule Cons.IH [OF t' _ bits(2)]) (use Cons u Cons.prems(5) in auto)
    finally show ?thesis by (simp add: algebra_simps)
  qed
qed

text \<open>The bits the decoder has not used yet: those in the buffer and those of the remaining bytes.\<close>

definition in_stream :: "bytes \<Rightarrow> 32 word \<Rightarrow> 32 word \<Rightarrow> bool list" where
  "in_stream src w c = bits_of w (unat c) @ byte_bits src"

lemma fill_bits_spec:
  assumes "fill_bits src w c = (src', w', c')" "clean w (unat c)" "unat c < 32"
  shows "in_stream src' w' c' = in_stream src w c \<and> clean w' (unat c') \<and> unat c' < 32 \<and>
    (24 \<le> unat c' \<or> src' = []) \<and> (\<forall>k < unat c. bit w' k = bit w k) \<and> unat c \<le> unat c'"
  using assms
proof (induction src w c rule: fill_bits.induct)
  case (1 w c)
  then show ?case by simp
next
  case (2 b src w c)
  show ?case
  proof (cases "c < 24")
    case False
    then have "24 \<le> unat c" by (simp add: word_less_nat_alt)
    with 2 False show ?thesis by simp
  next
    case True
    then have c: "unat c < 24" by (simp add: word_less_nat_alt)
    have c8: "unat (c + 8) = unat c + 8"
      using c by (subst unat_add_lem [THEN iffD1]) simp_all
    let ?v = "ucast b :: 32 word"
    have v: "clean ?v 8" "bits_of ?v 8 = bits_of b 8"
      using bit_imp_le_length [of b] by (auto simp: clean_def bits_of_def bit_simps dest: leD)
    have "unat c + 8 \<le> LENGTH(32)" using c by simp
    note o = bits_of_or_push [OF "2.prems"(2) this v(1)]
    have st: "in_stream src (w OR push_bit (unat c) ?v) (c + 8) = in_stream (b # src) w c"
      using o(1) v(2) by (simp add: in_stream_def c8)
    have low: "\<forall>k < unat c. bit (w OR push_bit (unat c) ?v) k = bit w k"
      by (auto simp: bit_simps)
    have "in_stream src' w' c' = in_stream src (w OR push_bit (unat c) ?v) (c + 8) \<and> clean w' (unat c') \<and> unat c' < 32 \<and>
      (24 \<le> unat c' \<or> src' = []) \<and> (\<forall>k < unat (c + 8). bit w' k = bit (w OR push_bit (unat c) ?v) k) \<and> unat (c + 8) \<le> unat c'"
      by (rule "2.IH" [OF True]) (use 2 True o(2) c8 c in auto)
    with st low c8 show ?thesis by auto
  qed
qed

lemma lut_index:
  fixes w :: "32 word"
  shows "unat (w AND HUFFMAN_LUTMASK) < HUFFMAN_LUTSIZE"
    and "k < 10 \<Longrightarrow> bit (w AND HUFFMAN_LUTMASK) k = bit w k"
proof -
  have m: "HUFFMAN_LUTMASK = mask 10" by (simp add: huffman_consts mask_eq_exp_minus_1)
  then have t: "w AND HUFFMAN_LUTMASK = take_bit 10 w" by (simp add: take_bit_eq_mask)
  then have "unat (w AND HUFFMAN_LUTMASK) = take_bit 10 (unat w)" by (simp add: unsigned_take_bit_eq)
  then show "unat (w AND HUFFMAN_LUTMASK) < HUFFMAN_LUTSIZE"
    by (simp add: huffman_consts take_bit_eq_mod)
  show "k < 10 \<Longrightarrow> bit (w AND HUFFMAN_LUTMASK) k = bit w k"
    unfolding t by (simp add: bit_simps)
qed

lemma take_bits_of: "take n (bits_of w k) = bits_of w (min n k)"
  by (rule nth_equalityI) (auto simp: bits_of_def)

lemma lut_lookup:
  assumes "huffman_tree h t"
  shows "h_DecodeLut h ! unat (w AND HUFFMAN_LUTMASK) =
    Some (lut_walk (h_Nodes h) (h_StartNode h) (w AND HUFFMAN_LUTMASK) HUFFMAN_LUTBITS)"
  using assms lut_index(1) [of w] by (simp add: huffman_tree_def)

lemma lut_walk_mask:
  assumes "\<forall>j < k. bit w j = bit v j"
  shows "lut_walk ns i w k = lut_walk ns i v k"
  using assms
proof (induction k arbitrary: w v i)
  case (Suc k)
  have "bit w 0 = bit v 0" using Suc.prems by simp
  moreover have "\<forall>j < k. bit (drop_bit 1 w) j = bit (drop_bit 1 v) j"
    using Suc.prems by (simp add: bit_simps)
  ultimately show ?case using Suc.IH [of "drop_bit 1 w" "drop_bit 1 v"]
    by (simp add: Let_def and_1_bit del: One_nat_def)
qed simp

lemma bits_of_drop: "bits_of (drop_bit k w) n = drop k (bits_of w (k + n))"
  by (rule nth_equalityI) (auto simp: bits_of_def bit_simps)

lemma unat_minus_of_nat: "n \<le> unat (c :: 32 word) \<Longrightarrow> unat (c - of_nat n) = unat c - n"
  by (metis le_unat_uoi unat_sub word_le_nat_alt)

text \<open>If the unused bits start with the code of a symbol, one round decodes that symbol.\<close>

lemma decode_node_spec:
  assumes "huffman_tree h t" "s < HUFFMAN_MAX_SYMBOLS" "in_stream src w c = hcode h s @ rest"
    and "clean w (unat c)" "unat c < 32"
  shows "\<exists>src' w' c'. decode_node h src w c = Some (s, src', w', c') \<and>
    in_stream src' w' c' = rest \<and> clean w' (unat c') \<and> unat c' < 32"
proof -
  note f = hcode_facts [OF assms(1,2)]
  let ?p = "hcode h s" and ?ns = "h_Nodes h" and ?root = "h_StartNode h"
  obtain src' w' c' where fill: "fill_bits src w c = (src', w', c')" by (cases "fill_bits src w c")
  have F: "in_stream src' w' c' = in_stream src w c" "clean w' (unat c')" "unat c' < 32"
    "24 \<le> unat c' \<or> src' = []" "\<forall>k < unat c. bit w' k = bit w k" "unat c \<le> unat c'"
    using fill_bits_spec [OF fill assms(4,5)] by auto
  have stream: "bits_of w' (unat c') @ byte_bits src' = ?p @ rest"
    using F(1) assms(3) by (simp add: in_stream_def)
  have enough: "length ?p \<le> unat c'"
    using F(4) f(3) arg_cong [OF stream, of length] by auto
  have pbits: "bits_of w' (length ?p) = ?p"
  proof -
    have "take (length ?p) (bits_of w' (unat c') @ byte_bits src') = ?p" unfolding stream by simp
    then have "take (length ?p) (bits_of w' (unat c')) = ?p" using enough by simp
    moreover have "take (length ?p) (bits_of w' (unat c')) = bits_of w' (length ?p)"
      using enough by (simp add: bits_of_def take_map take_upt)
    ultimately show ?thesis by simp
  qed
  define v where "v = w' AND HUFFMAN_LUTMASK"
  define q where "q = lut_walk ?ns ?root v 10"
  have at: "tree_at ?ns ?root t" using assms(1) by (simp add: huffman_tree_def)
  have "bits_of v (min 10 (length ?p)) = bits_of w' (min 10 (length ?p))"
    unfolding v_def by (auto simp: bits_of_def lut_index(2))
  also have "\<dots> = take 10 ?p"
    using arg_cong [OF pbits, of "take 10"] by (simp only: take_bits_of)
  finally have vbits: "bits_of v (min 10 (length ?p)) = take 10 ?p" .
  have walk: "if length ?p \<le> 10 then q = s
    else \<exists>t'. tree_at ?ns q t' \<and> (s, drop 10 ?p) \<in> set (codes t')"
    using lut_walk_spec [OF at f(1,2) vbits] by (simp only: q_def)
  have late: "h_DecodeLut h ! unat (w' AND HUFFMAN_LUTMASK) = Some q"
    using lut_lookup [OF assms(1), of w'] by (simp add: q_def v_def HUFFMAN_LUTBITS_def)
  have early: "h_DecodeLut h ! unat (w AND HUFFMAN_LUTMASK) = Some q" if "10 \<le> unat c"
  proof -
    have "\<forall>j < 10. bit (w AND HUFFMAN_LUTMASK) j = bit v j"
      using that F(5) by (simp add: v_def lut_index(2))
    then show ?thesis using lut_lookup [OF assms(1), of w] lut_walk_mask [of 10 "w AND HUFFMAN_LUTMASK" v]
      by (simp add: q_def HUFFMAN_LUTBITS_def)
  qed
  have ten: "of_nat HUFFMAN_LUTBITS \<le> (c :: 32 word) \<longleftrightarrow> 10 \<le> unat c" for c
    by (simp add: HUFFMAN_LUTBITS_def word_le_nat_alt)
  have pick: "(case (if c \<ge> of_nat HUFFMAN_LUTBITS then h_DecodeLut h ! unat (w AND HUFFMAN_LUTMASK) else None) of
      Some p \<Rightarrow> Some p | None \<Rightarrow> h_DecodeLut h ! unat (w' AND HUFFMAN_LUTMASK)) = Some q"
    using early late by (simp add: ten)
  have result: "in_stream src' (drop_bit n w') (c' - of_nat n) = drop n (?p @ rest) \<and>
      clean (drop_bit n w') (unat (c' - of_nat n)) \<and> unat (c' - of_nat n) < 32" if "n \<le> unat c'" for n
  proof -
    have u: "unat (c' - of_nat n) = unat c' - n" using that by (rule unat_minus_of_nat)
    have "bits_of (drop_bit n w') (unat c' - n) = drop n (bits_of w' (unat c'))"
      using that by (simp add: bits_of_drop)
    then have "in_stream src' (drop_bit n w') (c' - of_nat n) = drop n (?p @ rest)"
      using that unfolding stream [symmetric] by (simp add: in_stream_def u)
    moreover have "clean (drop_bit n w') (unat c' - n)" using F(2) by (rule clean_drop)
    ultimately show ?thesis using u F(3) by simp
  qed
  show ?thesis
  proof (cases "length ?p \<le> 10")
    case True
    with walk have q: "q = s" by simp
    have nb: "n_NumBits (?ns ! q) = length ?p" using f(4) q by simp
    have "decode_node h src w c = Some (s, src', drop_bit (length ?p) w', c' - of_nat (length ?p))"
      unfolding decode_node_def Let_def fill prod.case pick option.case nb using f(2) enough q by simp
    with result [OF enough] show ?thesis by simp
  next
    case False
    with walk obtain t' where t': "tree_at ?ns q t'" "(s, drop 10 ?p) \<in> set (codes t')" by auto
    from False have "drop 10 ?p \<noteq> []" by simp
    then obtain x p' where xp: "drop 10 ?p = x # p'" by (cases "drop 10 ?p") auto
    have nb: "n_NumBits (?ns ! q) = 0" using codes_cons_inner [OF t'(1)] t'(2) xp by metis
    have u10: "unat (c' - of_nat 10) = unat c' - 10" using False enough by (intro unat_minus_of_nat) simp
    have "bits_of (drop_bit 10 w') (length (drop 10 ?p)) = drop 10 ?p"
      using pbits False by (simp add: bits_of_drop)
    then have tw: "tree_walk ?ns q (drop_bit 10 w') (c' - of_nat 10) =
        Some (s, drop_bit (length ?p - 10) (drop_bit 10 w'), c' - of_nat 10 - of_nat (length ?p - 10))"
      using tree_walk_spec [OF t' \<open>drop 10 ?p \<noteq> []\<close>, of "drop_bit 10 w'" "c' - of_nat 10"] enough u10 by simp
    have "\<not> c' < of_nat HUFFMAN_LUTBITS"
      using False enough by (simp add: ten not_less)
    then have "decode_node h src w c = Some (s, src', drop_bit (length ?p - 10) (drop_bit 10 w'),
        c' - of_nat 10 - of_nat (length ?p - 10))"
      unfolding decode_node_def Let_def fill prod.case pick option.case nb
      using tw by (simp add: HUFFMAN_LUTBITS_def)
    moreover have "drop_bit (length ?p - 10) (drop_bit 10 w') = drop_bit (length ?p) w'"
      using False by (simp add: drop_bit_drop_bit)
    moreover have "c' - of_nat 10 - of_nat (length ?p - 10) = c' - of_nat (length ?p)"
      using False by (simp add: of_nat_diff)
    ultimately have "decode_node h src w c =
        Some (s, src', drop_bit (length ?p) w', c' - of_nat (length ?p))" by (simp only:)
    with result [OF enough] show ?thesis by simp
  qed
qed

lemma decompress_symbols_spec:
  assumes "huffman_tree h t" "in_stream src w c = hstream h bs @ rest"
    and "clean w (unat c)" "unat c < 32"
  shows "decompress_symbols h room src w c = (if length bs \<le> room then Some bs else None)"
  using assms(2-)
proof (induction bs arbitrary: src w c room)
  case Nil
  have e: "HUFFMAN_EOF_SYMBOL < HUFFMAN_MAX_SYMBOLS" by (simp add: huffman_consts)
  have "in_stream src w c = hcode h HUFFMAN_EOF_SYMBOL @ rest"
    using Nil(1) by (simp add: hstream_def symbols_def)
  from decode_node_spec [OF assms(1) e this Nil(2,3)] show ?case
    by (subst decompress_symbols.simps) auto
next
  case (Cons b bs)
  have b: "unat b < HUFFMAN_MAX_SYMBOLS"
    using symbols_bound [of "unat b" "b # bs"] by (simp add: symbols_def)
  have "unat b < 256"
  proof -
    have "int (unat b) = uint b" by simp
    with uint_byte_bounds(2) [of b] show ?thesis by linarith
  qed
  then have ne: "unat b \<noteq> HUFFMAN_EOF_SYMBOL" by (simp add: huffman_consts)
  have "in_stream src w c = hcode h (unat b) @ (hstream h bs @ rest)"
    using Cons.prems(1) by (simp add: hstream_def symbols_def)
  from decode_node_spec [OF assms(1) b this Cons.prems(2,3)] obtain src' w' c' where
    d: "decode_node h src w c = Some (unat b, src', w', c')"
      "in_stream src' w' c' = hstream h bs @ rest" "clean w' (unat c')" "unat c' < 32" by blast
  have "tree_at (h_Nodes h) (h_StartNode h) t" using assms(1) by (simp add: huffman_tree_def)
  have sym: "n_Symbol (h_Nodes h ! unat b) = b"
    using leaf_symbol [OF \<open>tree_at (h_Nodes h) (h_StartNode h) t\<close> codes_leaves [OF hcode_facts(1) [OF assms(1) b]]]
    by simp
  show ?case
  proof (cases room)
    case 0
    then show ?thesis using d(1) ne by (subst decompress_symbols.simps) simp
  next
    case (Suc r)
    then show ?thesis using d(1) ne sym Cons.IH [OF d(2-4), of r]
      by (subst decompress_symbols.simps) simp
  qed
qed

lemma decompress_symbols_length: "decompress_symbols h room src w c = Some out \<Longrightarrow> length out \<le> room"
proof (induction room arbitrary: src w c out)
  case 0
  then show ?case
    by (subst (asm) decompress_symbols.simps) (auto split: option.splits if_splits)
next
  case (Suc r)
  then show ?case
    by (subst (asm) decompress_symbols.simps) (auto split: option.splits if_splits)
qed

lemma huffman_Decompress_length: "huffman_Decompress h src n = Inr out \<Longrightarrow> length out \<le> n"
  by (auto simp: huffman_Decompress_def dest: decompress_symbols_length split: if_splits option.splits)

lemma huffman_inverse:
  assumes "huffman_tree h t" "huffman_Compress h bs n = Inr out" "length bs \<le> m" "0 < m"
  shows "huffman_Decompress h out m = Inr bs"
proof -
  have n: "0 < n" using assms(2) by (auto simp: huffman_Compress_def split: if_splits)
  have "compressed_size h bs \<le> n"
    using huffman_Compress_spec [OF assms(1) n, of bs] assms(2) by (auto split: if_splits)
  with huffman_Compress_spec [OF assms(1) n, of bs] assms(2) obtain pad where
    "byte_bits out = hstream h bs @ replicate pad False" by auto
  then have "in_stream out 0 0 = hstream h bs @ replicate pad False"
    by (simp add: in_stream_def bits_of_def)
  from decompress_symbols_spec [OF assms(1) this, of m] assms(3,4) show ?thesis
    by (simp add: clean_def huffman_Decompress_def)
qed

subsection \<open>Properties\<close>

text \<open>\<open>CHuffman::Init\<close> returns; it builds a code tree of height 15 with each of the 257 symbols
  at exactly one leaf, every symbol's bit pattern is its path in the tree, and the look-up table
  holds for each index the node that its low ten bits lead to.\<close>

theorem huffman_init_builds_code_tree:
  "\<exists>h t. huffman_Init = Some h \<and> huffman_tree h t \<and> hheight t = 15"
  by (rule huffman_Init_tree)

text \<open>C33: with the program's own frequency table, \<open>Compress\<close> succeeds exactly when the code bits fit
  the output buffer, and \<open>Decompress\<close> of its output into a large enough buffer gives the input
  back (and reports an error when the buffer is too small).\<close>

theorem huffman_roundtrip:
  assumes "huffman_Init = Some h" "0 < n" "0 < m"
  shows "if compressed_size h bs \<le> n
    then \<exists>out. huffman_Compress h bs n = Inr out \<and> length out = compressed_size h bs \<and>
      huffman_Decompress h out m = (if length bs \<le> m then Inr bs else Inl (ErrCode (-1)))
    else huffman_Compress h bs n = Inl (ErrCode (-1))"
proof -
  from huffman_Init_tree obtain h' t where i: "huffman_Init = Some h'" and t': "huffman_tree h' t" by blast
  have "h' = h" using trans [OF sym [OF i] assms(1)] by simp
  with t' have t: "huffman_tree h t" by simp
  show ?thesis
  proof (cases "compressed_size h bs \<le> n")
    case True
    with huffman_Compress_spec [OF t assms(2), of bs] obtain out pad where
      o: "huffman_Compress h bs n = Inr out" "length out = compressed_size h bs"
        "byte_bits out = hstream h bs @ replicate pad False" by auto
    have "in_stream out 0 0 = hstream h bs @ replicate pad False"
      using o(3) by (simp add: in_stream_def bits_of_def)
    from decompress_symbols_spec [OF t this, of m]
    have "decompress_symbols h m out 0 0 = (if length bs \<le> m then Some bs else None)"
      by (simp add: clean_def)
    with o assms(3) True show ?thesis by (simp add: huffman_Decompress_def)
  next
    case False
    with huffman_Compress_spec [OF t assms(2), of bs] show ?thesis by simp
  qed
qed

theorem huffman_roundtrip_witness:
  "\<exists>h out. huffman_Init = Some h \<and> huffman_Compress h [0, 1, 0xFF] 16 = Inr out \<and>
     huffman_Decompress h out 3 = Inr [0, 1, 0xFF]"
proof -
  from huffman_Init_tree obtain h t where h: "huffman_Init = Some h" and t: "huffman_tree h t" by blast
  have l: "length (hcode h s) \<le> 24" if "s < HUFFMAN_MAX_SYMBOLS" for s
    by (rule hcode_facts(3) [OF t that])
  have "length (hstream h [0, 1, 0xFF]) \<le> 96"
    using l [of 0] l [of 1] l [of 255] l [of 256]
    by (simp add: hstream_def symbols_def huffman_consts)
  then have "compressed_size h [0, 1, 0xFF] \<le> 16" by (simp add: compressed_size_def)
  then show ?thesis using huffman_roundtrip [OF h, of 16 3 "[0, 1, 0xFF]"] h by auto
qed

text \<open>C34: on arbitrary input \<open>Decompress\<close> returns, never writes more than \<open>OutputSize\<close> bytes and
  otherwise reports an error.\<close>

theorem huffman_decompress_bounded:
  "case huffman_Decompress h src n of
     Inl e \<Rightarrow> e = (if 0 < n then ErrCode (-1) else AssertFailed)
   | Inr out \<Rightarrow> length out \<le> n"
  using huffman_Decompress_length [of h src n] by (auto simp: huffman_Decompress_def split: option.splits)

end
