(* ===== verification/NetAddr.thy ===== *)
theory NetAddr
  imports Prelude Utf8 Str
begin

text \<open>
  Network addresses (src/src/base/net.cpp, src/src/base/types.h): comparison, the textual form of
  an address, the parsers for addresses, server links and host names, and the look-up with its
  fallback. The C library's \<open>inet_pton\<close> and \<open>getaddrinfo\<close> are parameters. An \<open>unsigned int\<close> type and
  an \<open>unsigned short\<close> port are words; the sixteen bytes of the address are a list. A parser's
  position in the text is the text that is left.
\<close>

subsection \<open>The address\<close>

record netaddr =
  na_type :: "32 word"
  na_ip :: bytes
  na_port :: "16 word"

definition NETTYPE_IPV4 :: "32 word" where "NETTYPE_IPV4 = 1"
definition NETTYPE_IPV6 :: "32 word" where "NETTYPE_IPV6 = 2"
definition NETTYPE_WEBSOCKET_IPV4 :: "32 word" where "NETTYPE_WEBSOCKET_IPV4 = 4"
definition NETTYPE_WEBSOCKET_IPV6 :: "32 word" where "NETTYPE_WEBSOCKET_IPV6 = 8"
definition NETTYPE_LINK_BROADCAST :: "32 word" where "NETTYPE_LINK_BROADCAST = 16"
definition NETTYPE_TW7 :: "32 word" where "NETTYPE_TW7 = 32"

lemmas nettypes = NETTYPE_IPV4_def NETTYPE_IPV6_def NETTYPE_WEBSOCKET_IPV4_def
  NETTYPE_WEBSOCKET_IPV6_def NETTYPE_LINK_BROADCAST_def NETTYPE_TW7_def

definition NETADDR_MAXSTRSIZE :: nat where "NETADDR_MAXSTRSIZE = 1 + (8 * 4 + 7) + 1 + 1 + 5 + 1"

definition NETADDR_ZEROED :: netaddr where
  "NETADDR_ZEROED = \<lparr>na_type = 0, na_ip = replicate 16 0, na_port = 0\<rparr>"

definition LOOPBACKADDR_IPV4 :: bytes where "LOOPBACKADDR_IPV4 = [127, 0, 0, 1] @ replicate 12 0"
definition LOOPBACKADDR_IPV6 :: bytes where "LOOPBACKADDR_IPV6 = replicate 15 0 @ [1]"

text \<open>\<open>mem_comp\<close> over the sixteen bytes; the difference of the unsigned types is stored in an \<open>int\<close>.\<close>

definition net_addr_comp_noport :: "netaddr \<Rightarrow> netaddr \<Rightarrow> int" where
  "net_addr_comp_noport a b =
     (let diff = sint (na_type a - na_type b) in
      if diff \<noteq> 0 then diff else c_compare uint 16 (na_ip a) (na_ip b))"

definition net_addr_comp :: "netaddr \<Rightarrow> netaddr \<Rightarrow> int" where
  "net_addr_comp a b =
     (let diff = sint (na_type a - na_type b) in
      if diff \<noteq> 0 then diff
      else let diff = c_compare uint 16 (na_ip a) (na_ip b) in
      if diff \<noteq> 0 then diff
      else uint (na_port a) - uint (na_port b))"

definition netaddr_eq :: "netaddr \<Rightarrow> netaddr \<Rightarrow> bool" where
  "netaddr_eq a b \<longleftrightarrow> net_addr_comp a b = 0"

definition netaddr_less :: "netaddr \<Rightarrow> netaddr \<Rightarrow> bool" where
  "netaddr_less a b \<longleftrightarrow> net_addr_comp a b < 0"

definition net_addr_is_local :: "netaddr \<Rightarrow> bool result" where
  "net_addr_is_local a =
     (let ip = na_ip a in
      if na_type a AND (NETTYPE_IPV4 OR NETTYPE_WEBSOCKET_IPV4) \<noteq> 0 then
        Inr (ip ! 0 = 127 \<or> ip ! 0 = 10 \<or> (ip ! 0 = 192 \<and> ip ! 1 = 168) \<or>
             (ip ! 0 = 172 \<and> ip ! 1 \<ge> 16 \<and> ip ! 1 \<le> 31))
      else if na_type a AND (NETTYPE_IPV6 OR NETTYPE_WEBSOCKET_IPV6) \<noteq> 0 then
        Inr ((ip ! 0 = 0xfe \<and> ip ! 1 \<ge> 0x80 \<and> ip ! 1 \<le> 0xbf) \<or>
             (ip ! 0 \<ge> 0xfc \<and> ip ! 0 \<le> 0xfd) \<or>
             c_compare uint 16 ip LOOPBACKADDR_IPV6 = 0)
      else Inl AssertFailed)"

subsection \<open>Printing\<close>

text \<open>What \<open>%d\<close> and \<open>%x\<close> of \<open>vsnprintf\<close> print for a number that is not negative, and string literals.\<close>

fun dec :: "nat \<Rightarrow> bytes" where
  "dec n = (if n < 10 then [0x30 + of_nat n] else dec (n div 10) @ [0x30 + of_nat (n mod 10)])"

declare dec.simps [simp del]

definition hexdigit :: "nat \<Rightarrow> byte" where
  "hexdigit n = (if n < 10 then 0x30 + of_nat n else 0x61 + of_nat (n - 10))"

fun hex :: "nat \<Rightarrow> bytes" where
  "hex n = (if n < 16 then [hexdigit n] else hex (n div 16) @ [hexdigit (n mod 16)])"

declare hex.simps [simp del]

definition lit :: "string \<Rightarrow> bytes" where
  "lit s = map of_char s"

text \<open>One round of the search for the longest sequence of zeros: \<open>(seq_start, seq_len,
  longest_seq_start, longest_seq_len)\<close>.\<close>

definition zero_step :: "nat list \<Rightarrow> int \<times> nat \<times> int \<times> nat \<Rightarrow> nat \<Rightarrow> int \<times> nat \<times> int \<times> nat" where
  "zero_step ip = (\<lambda>(seq_start, seq_len, longest_seq_start, longest_seq_len) i.
     if seq_start \<noteq> - 1 then
       (if i = 8 \<or> ip ! i \<noteq> 0 then
          (if longest_seq_len < seq_len then (- 1, 0, seq_start, seq_len)
           else (- 1, 0, longest_seq_start, longest_seq_len))
        else (seq_start, seq_len + 1, longest_seq_start, longest_seq_len))
     else
       (if i \<noteq> 8 \<and> ip ! i = 0 then (int i, 1, longest_seq_start, longest_seq_len)
        else (seq_start, seq_len, longest_seq_start, longest_seq_len)))"

definition longest_zeros :: "nat list \<Rightarrow> int \<times> nat" where
  "longest_zeros ip =
     (let (_, _, longest_seq_start, longest_seq_len) = foldl (zero_step ip) (- 1, 0, - 1, 0) [0..<9]
      in if longest_seq_len \<le> 1 then (- 1, 0) else (longest_seq_start, longest_seq_len))"

text \<open>The text written behind \<open>buffer + w\<close>, with the room that is left.\<close>

definition put_text :: "nat \<Rightarrow> bytes \<Rightarrow> bytes \<Rightarrow> bytes" where
  "put_text buffer_size out text = out @ str_copy text (buffer_size - length out)"

definition v6_group :: "nat \<Rightarrow> nat list \<Rightarrow> int \<Rightarrow> nat \<Rightarrow> bytes \<Rightarrow> nat \<Rightarrow> bytes" where
  "v6_group buffer_size ip ls ll out i =
     (if ls \<le> int i \<and> int i < ls + int ll then
        (if int i = ls then put_text buffer_size out (lit ''::'') else out)
      else
        let colon = (if i = 0 \<or> int i = ls + int ll then [] else lit '':'')
        in put_text buffer_size out (colon @ hex (ip ! i)))"

definition net_addr_str_v6 :: "nat list \<Rightarrow> int \<Rightarrow> nat \<Rightarrow> bytes" where
  "net_addr_str_v6 ip port buffer_size =
     (let (ls, ll) = longest_zeros ip;
          w0 = put_text buffer_size [] (lit ''['');
          w1 = foldl (v6_group buffer_size ip ls ll) w0 [0..<8];
          w2 = put_text buffer_size w1 (lit '']'')
      in if port \<ge> 0 then put_text buffer_size w2 (lit '':'' @ dec (nat port)) else w2)"

definition v6_groups :: "netaddr \<Rightarrow> nat list" where
  "v6_groups a = map (\<lambda>i. unat (push_bit 8 (ucast (na_ip a ! (i * 2))) OR ucast (na_ip a ! (i * 2 + 1)) :: 16 word)) [0..<8]"

definition net_addr_str :: "netaddr \<Rightarrow> nat \<Rightarrow> bool \<Rightarrow> bytes result" where
  "net_addr_str a max_length add_port =
     (let ip = na_ip a;
          quad = dec (unat (ip ! 0)) @ lit ''.'' @ dec (unat (ip ! 1)) @ lit ''.'' @
                 dec (unat (ip ! 2)) @ lit ''.'' @ dec (unat (ip ! 3)) in
      if na_type a AND (NETTYPE_IPV4 OR NETTYPE_WEBSOCKET_IPV4) \<noteq> 0 then
        (if add_port then Inr (str_copy (quad @ lit '':'' @ dec (unat (na_port a))) max_length)
         else Inr (str_copy quad max_length))
      else if na_type a AND (NETTYPE_IPV6 OR NETTYPE_WEBSOCKET_IPV6) \<noteq> 0 then
        Inr (net_addr_str_v6 (v6_groups a) (if add_port then uint (na_port a) else - 1) max_length)
      else Inl AssertFailed)"

subsection \<open>Parsing\<close>

text \<open>
  \<open>parse_int\<close> multiplies and adds in \<open>int\<close> without a check; the sum wraps around here as the
  compiled code does, though C leaves the overflow undefined.
\<close>

fun parse_int_loop :: "int \<Rightarrow> bytes \<Rightarrow> int \<times> bytes" where
  "parse_int_loop i [] = (i, [])"
| "parse_int_loop i (c # s) =
     (if \<not> str_isnum c then (i, c # s)
      else parse_int_loop (to_i32 (i * 10 + (uint c - 0x30))) s)"

definition parse_int :: "bytes \<Rightarrow> (int \<times> bytes) option" where
  "parse_int s =
     (if \<not> str_isnum (c_at s) then None
      else Some (parse_int_loop (uint (c_at s) - 0x30) (tl s)))"

definition parse_char :: "byte \<Rightarrow> bytes \<Rightarrow> bytes option" where
  "parse_char c s = (if c_at s \<noteq> c then None else Some (tl s))"

definition parse_uint8 :: "bytes \<Rightarrow> (byte \<times> bytes) option" where
  "parse_uint8 s =
     (case parse_int s of None \<Rightarrow> None
      | Some (i, s') \<Rightarrow> if i < 0 \<or> i > 0xff then None else Some (of_int i, s'))"

definition parse_uint16 :: "bytes \<Rightarrow> (16 word \<times> bytes) option" where
  "parse_uint16 s =
     (case parse_int s of None \<Rightarrow> None
      | Some (i, s') \<Rightarrow> if i < 0 \<or> i > 0xffff then None else Some (of_int i, s'))"

text \<open>\<open>inet_pton s\<close>: the sixteen bytes of an IPv6 address, if \<open>s\<close> is one.\<close>

definition parse_v6 :: "(bytes \<Rightarrow> bytes option) \<Rightarrow> bytes \<Rightarrow> netaddr option" where
  "parse_v6 inet_pton s =
     (let buf = takeWhile (\<lambda>c. c \<noteq> 0x5D) (take 127 s);
          s1 = drop (length buf) s in
      case inet_pton buf of None \<Rightarrow> None
      | Some ip \<Rightarrow>
          let a = NETADDR_ZEROED\<lparr>na_type := NETTYPE_IPV6, na_ip := ip\<rparr> in
          if c_at s1 = 0x5D then
            (let s2 = tl s1 in
             if c_at s2 = 0x3A then
               (case parse_uint16 (tl s2) of None \<Rightarrow> None | Some (p, _) \<Rightarrow> Some (a\<lparr>na_port := p\<rparr>))
             else Some (a\<lparr>na_port := 0\<rparr>))
          else None)"

definition parse_port :: "bytes \<Rightarrow> (16 word \<times> bytes) option" where
  "parse_port s = (if c_at s = 0x3A then parse_uint16 (tl s) else Some (0, s))"

definition parse_quad :: "bytes \<Rightarrow> (bytes \<times> bytes) option" where
  "parse_quad s =
     (case parse_uint8 s of None \<Rightarrow> None | Some (a, s) \<Rightarrow>
      case parse_char 0x2E s of None \<Rightarrow> None | Some s \<Rightarrow>
      case parse_uint8 s of None \<Rightarrow> None | Some (b, s) \<Rightarrow>
      case parse_char 0x2E s of None \<Rightarrow> None | Some s \<Rightarrow>
      case parse_uint8 s of None \<Rightarrow> None | Some (c, s) \<Rightarrow>
      case parse_char 0x2E s of None \<Rightarrow> None | Some s \<Rightarrow>
      case parse_uint8 s of None \<Rightarrow> None | Some (d, s) \<Rightarrow> Some ([a, b, c, d], s))"

definition net_addr_from_str :: "(bytes \<Rightarrow> bytes option) \<Rightarrow> bytes \<Rightarrow> netaddr result" where
  "net_addr_from_str inet_pton str =
     (if c_at str = 0x5B then
        (case parse_v6 inet_pton (tl str) of None \<Rightarrow> Inl (ErrCode (-1)) | Some a \<Rightarrow> Inr a)
      else
        case parse_quad str of None \<Rightarrow> Inl (ErrCode (-1))
        | Some (q, s) \<Rightarrow>
            (case parse_port s of None \<Rightarrow> Inl (ErrCode (-1))
             | Some (p, s) \<Rightarrow>
                 if s \<noteq> [] then Inl (ErrCode (-1))
                 else Inr \<lparr>na_type = NETTYPE_IPV4, na_ip = q @ replicate 12 0, na_port = p\<rparr>))"

text \<open>The loop of \<open>net_addr_from_url\<close>: \<open>None\<close> for a second at sign, else \<open>(start, end)\<close>.\<close>

fun url_scan :: "bytes \<Rightarrow> nat \<Rightarrow> nat \<Rightarrow> (nat \<times> nat) option" where
  "url_scan [] i start = Some (start, i)"
| "url_scan (c # s) i start =
     (if c = 0x40 then (if start \<noteq> 0 then None else url_scan s (i + 1) (i + 1))
      else if c = 0x2F \<or> c = 0x3F \<or> c = 0x23 then Some (start, i)
      else url_scan s (i + 1) start)"

text \<open>The text copied to \<open>host_buf\<close>, when the code gets there, and the result.\<close>

definition net_addr_from_url ::
  "(bytes \<Rightarrow> bytes option) \<Rightarrow> bytes \<Rightarrow> nat option \<Rightarrow> bytes option \<times> netaddr result" where
  "net_addr_from_url inet_pton string host_buf_size =
     (let (str, sixup) =
        (case str_startswith string (lit ''tw-0.6+udp://'') of Some s \<Rightarrow> (Some s, False)
         | None \<Rightarrow>
            (case str_startswith string (lit ''tw-0.7+udp://'') of Some s \<Rightarrow> (Some s, True)
             | None \<Rightarrow> (None, False))) in
      case str of None \<Rightarrow> (None, Inl (ErrCode 1))
      | Some s \<Rightarrow>
         (case url_scan s 0 0 of None \<Rightarrow> (None, Inl (ErrCode 1))
          | Some (start, end_) \<Rightarrow>
             let host = str_truncate 128 (drop start s) (end_ - start) in
             (map_option (str_copy host) host_buf_size,
              (case net_addr_from_str inet_pton host of Inl e \<Rightarrow> Inl e
               | Inr a \<Rightarrow> Inr (if sixup then a\<lparr>na_type := na_type a OR NETTYPE_TW7\<rparr> else a)))))"

subsection \<open>Host names\<close>

text \<open>\<open>str_toint\<close>: the C library's \<open>strtol\<close> in base ten (white space, sign, digits, clamped to a
  64-bit \<open>long\<close>), converted to \<open>int\<close>.\<close>

definition c_isspace :: "byte \<Rightarrow> bool" where
  "c_isspace c \<longleftrightarrow> c = 0x20 \<or> (0x09 \<le> c \<and> c \<le> 0x0D)"

definition digits_value :: "bytes \<Rightarrow> int" where
  "digits_value ds = foldl (\<lambda>n c. n * 10 + (uint c - 0x30)) 0 ds"

definition str_toint :: "bytes \<Rightarrow> int" where
  "str_toint s =
     (let t = dropWhile c_isspace s;
          neg = (c_at t = 0x2D);
          u = (if c_at t = 0x2D \<or> c_at t = 0x2B then tl t else t);
          v = digits_value (takeWhile str_isnum u)
      in to_i32 (if neg then max (- v) (- 9223372036854775808) else min v 9223372036854775807))"

text \<open>The host and the port, or an error.\<close>

definition priv_net_extract :: "bytes \<Rightarrow> nat \<Rightarrow> (bytes \<times> int) option" where
  "priv_net_extract hostname max_host =
     (if c_at hostname = 0x5B then
        let host = takeWhile (\<lambda>c. c \<noteq> 0x5D) (take (max_host - 1) (tl hostname));
            s = drop (length host) (tl hostname) in
        if c_at s \<noteq> 0x5D then None
        else Some (host, if c_at (tl s) = 0x3A then str_toint (tl (tl s)) else 0)
      else
        let host = takeWhile (\<lambda>c. c \<noteq> 0x3A) (take (max_host - 1) hostname);
            s = drop (length host) hostname in
        Some (host, if c_at s = 0x3A then str_toint (tl s) else 0))"

definition net_host_lookup_fallback :: "bytes \<Rightarrow> netaddr \<Rightarrow> 32 word \<Rightarrow> int \<Rightarrow> netaddr option" where
  "net_host_lookup_fallback hostname a types port =
     (if str_comp_nocase hostname (lit ''localhost'') = 0 then
        (if types = NETTYPE_IPV4 then
           Some (a\<lparr>na_type := NETTYPE_IPV4, na_ip := LOOPBACKADDR_IPV4, na_port := of_int port\<rparr>)
         else if types = NETTYPE_IPV6 then
           Some (a\<lparr>na_type := NETTYPE_IPV6, na_ip := LOOPBACKADDR_IPV6, na_port := of_int port\<rparr>)
         else
           Some (a\<lparr>na_type := NETTYPE_IPV4, na_ip := LOOPBACKADDR_IPV4, na_port := of_int port\<rparr>))
      else None)"

text \<open>
  \<open>getaddrinfo host family\<close>: the first result (the family is \<open>Some True\<close> for \<open>AF_INET\<close>,
  \<open>Some False\<close> for \<open>AF_INET6\<close>), an IPv4 or IPv6 address; \<open>None\<close> when it fails.
\<close>

datatype sockaddr = SockaddrIn bytes | SockaddrIn6 bytes

definition sockaddr_to_netaddr :: "sockaddr \<Rightarrow> netaddr" where
  "sockaddr_to_netaddr sa =
     (case sa of
        SockaddrIn q \<Rightarrow> NETADDR_ZEROED\<lparr>na_type := NETTYPE_IPV4, na_ip := q @ replicate 12 0\<rparr>
      | SockaddrIn6 ip \<Rightarrow> NETADDR_ZEROED\<lparr>na_type := NETTYPE_IPV6, na_ip := ip\<rparr>)"

definition net_host_lookup_impl ::
  "(bytes \<Rightarrow> bool option \<Rightarrow> sockaddr option) \<Rightarrow> bytes \<Rightarrow> netaddr \<Rightarrow> 32 word \<Rightarrow> netaddr option" where
  "net_host_lookup_impl getaddrinfo hostname a types =
     (case priv_net_extract hostname 256 of None \<Rightarrow> None
      | Some (host, port) \<Rightarrow>
         (case getaddrinfo host (if types = NETTYPE_IPV4 then Some True
                                 else if types = NETTYPE_IPV6 then Some False else None) of
            None \<Rightarrow> net_host_lookup_fallback host a types port
          | Some sa \<Rightarrow> Some ((sockaddr_to_netaddr sa)\<lparr>na_port := of_int port\<rparr>)))"

definition net_host_lookup ::
  "(bytes \<Rightarrow> bool option \<Rightarrow> sockaddr option) \<Rightarrow> bytes \<Rightarrow> netaddr \<Rightarrow> 32 word \<Rightarrow> netaddr option" where
  "net_host_lookup getaddrinfo hostname a types =
     (let plain = types AND NOT (NETTYPE_WEBSOCKET_IPV4 OR NETTYPE_WEBSOCKET_IPV6) in
      case str_startswith hostname (lit ''ws://'') of
        Some ws_hostname \<Rightarrow>
          if types AND (NETTYPE_WEBSOCKET_IPV4 OR NETTYPE_WEBSOCKET_IPV6) = 0 then None
          else
            (case net_host_lookup_impl getaddrinfo ws_hostname a plain of None \<Rightarrow> None
             | Some r \<Rightarrow>
                 Some (if na_type r = NETTYPE_IPV4 then r\<lparr>na_type := NETTYPE_WEBSOCKET_IPV4\<rparr>
                       else if na_type r = NETTYPE_IPV6 then r\<lparr>na_type := NETTYPE_WEBSOCKET_IPV6\<rparr>
                       else r))
      | None \<Rightarrow> net_host_lookup_impl getaddrinfo hostname a plain)"

subsection \<open>The textual form of an IPv4 address\<close>

lemma str_copy_ascii:
  assumes "length (s @ [c]) < n" "0 < c" "c < 0x80"
  shows "str_copy (s @ [c]) n = s @ [c]"
proof -
  have c: "0 < uint c" "uint c < 128" using assms(2,3) by (simp_all add: word_less_def)
  then have "str_utf8_encode (uint c) = [c]" "scalar_value (uint c)"
    by (simp_all add: str_utf8_encode_def scalar_value_def)
  with fix_truncation_complete [of "uint c" s] assms(1) show ?thesis
    by (simp add: str_copy_def)
qed

lemma dec_snoc: "\<exists>s k. k < 10 \<and> dec n = s @ [0x30 + of_nat k]"
  by (subst dec.simps) (auto intro: exI [of _ "n mod 10"])

lemma lt_ten: "(k :: nat) < 10 \<Longrightarrow> k = 0 \<or> k = 1 \<or> k = 2 \<or> k = 3 \<or> k = 4 \<or> k = 5 \<or> k = 6 \<or> k = 7 \<or> k = 8 \<or> k = 9"
  by presburger

lemma unat_byte: "unat (b :: byte) < 256"
  using uint_lt2p [of b] by (simp flip: nat_uint_eq add: nat_less_iff)

lemma unat_port: "unat (p :: 16 word) < 65536"
  using uint_lt2p [of p] by (simp flip: nat_uint_eq add: nat_less_iff)

lemma digit_ascii: "k < 10 \<Longrightarrow> (0 :: byte) < 0x30 + of_nat k \<and> (0x30 + of_nat k :: byte) < 0x80"
  by (drule lt_ten) (elim disjE; simp)

lemma str_copy_dec:
  assumes "length (s @ dec k) < n"
  shows "str_copy (s @ dec k) n = s @ dec k"
proof -
  obtain t d where t: "d < 10" "dec k = t @ [0x30 + of_nat d]" using dec_snoc by metis
  with assms digit_ascii [OF t(1)] show ?thesis
    using str_copy_ascii [of "s @ t" "0x30 + of_nat d" n] by simp
qed

lemma dec_length: "n < 10 ^ k \<Longrightarrow> 0 < k \<Longrightarrow> length (dec n) \<le> k"
proof (induction n arbitrary: k rule: dec.induct)
  case (1 n)
  show ?case
  proof (cases "n < 10")
    case True
    with 1 show ?thesis by (subst dec.simps) simp
  next
    case False
    with 1 have "k \<noteq> 0" "k \<noteq> 1" by auto
    then obtain j where k: "k = Suc j" "0 < j" by (metis One_nat_def gr0_conv_Suc not_gr_zero)
    have "length (dec (n div 10)) \<le> j"
      by (rule "1.IH" [OF False]) (use 1 k in auto)
    with False k show ?thesis by (subst dec.simps) simp
  qed
qed

lemma digit_value: "k < 10 \<Longrightarrow> str_isnum (0x30 + of_nat k) \<and> uint (0x30 + of_nat k :: byte) = 0x30 + int k"
  by (drule lt_ten) (elim disjE; simp add: str_isnum_def)

lemma parse_int_dec:
  "n < 2147483648 \<Longrightarrow> parse_int (dec n @ s) = Some (parse_int_loop (int n) s)"
proof (induction n arbitrary: s rule: dec.induct)
  case (1 n)
  show ?case
  proof (cases "n < 10")
    case True
    then show ?thesis using digit_value [of n]
      by (subst dec.simps) (simp add: parse_int_def c_at_def)
  next
    case False
    let ?d = "0x30 + of_nat (n mod 10) :: byte"
    have "parse_int (dec (n div 10) @ ?d # s) = Some (parse_int_loop (int (n div 10)) (?d # s))"
      by (rule "1.IH" [OF False]) (use 1 in auto)
    moreover have "int (n div 10) * 10 + int (n mod 10) = int n"
      by (metis div_mult_mod_eq of_nat_add of_nat_mult of_nat_numeral)
    moreover have "in_i32 (int n)" using 1 by (simp add: in_i32_def)
    ultimately show ?thesis using digit_value [of "n mod 10"] False
      by (subst dec.simps) simp
  qed
qed

lemma parse_int_loop_stop: "\<not> str_isnum (c_at s) \<or> s = [] \<Longrightarrow> parse_int_loop i s = (i, s)"
  by (cases s) (simp_all add: c_at_def)

lemma parse_int_number:
  "n < 2147483648 \<Longrightarrow> \<not> str_isnum (c_at s) \<Longrightarrow> parse_int (dec n @ s) = Some (int n, s)"
  by (simp add: parse_int_dec parse_int_loop_stop)

lemma parse_uint8_number:
  "\<not> str_isnum (c_at s) \<Longrightarrow> parse_uint8 (dec (unat b) @ s) = Some (b, s)"
proof -
  assume "\<not> str_isnum (c_at s)"
  moreover have "\<not> 255 < uint b" using uint_byte_bounds(2) [of b] by linarith
  ultimately show ?thesis using unat_byte [of b] parse_int_number [of "unat b" s]
    by (simp add: parse_uint8_def)
qed

lemma parse_uint16_number:
  "\<not> str_isnum (c_at s) \<Longrightarrow> parse_uint16 (dec (unat p) @ s) = Some (p, s)"
  using unat_port [of p] uint_lt2p [of p] parse_int_number [of "unat p" s]
  by (simp add: parse_uint16_def)

lemma not_isnum [simp]: "\<not> str_isnum 0" "\<not> str_isnum 0x2E" "\<not> str_isnum 0x3A"
  by (simp_all add: str_isnum_def)

lemma c_at_simps [simp]: "c_at [] = 0" "c_at (c # s) = c"
  by (simp_all add: c_at_def)

lemma lit_simps [simp]: "lit ''.'' = [0x2E]" "lit '':'' = [0x3A]" "lit ''::'' = [0x3A, 0x3A]"
  "lit ''['' = [0x5B]" "lit '']'' = [0x5D]"
  by (simp_all add: lit_def)

definition quad_text :: "byte \<Rightarrow> byte \<Rightarrow> byte \<Rightarrow> byte \<Rightarrow> bytes" where
  "quad_text a b c d = dec (unat a) @ [0x2E] @ dec (unat b) @ [0x2E] @ dec (unat c) @ [0x2E] @ dec (unat d)"

lemma parse_quad_text: "\<not> str_isnum (c_at s) \<Longrightarrow> parse_quad (quad_text a b c d @ s) = Some ([a, b, c, d], s)"
  by (simp add: quad_text_def parse_quad_def parse_uint8_number parse_char_def)

lemma dec_length_byte: "length (dec (unat (b :: byte))) \<le> 3"
  using unat_byte [of b] by (intro dec_length) simp_all

lemma dec_length_port: "length (dec (unat (p :: 16 word))) \<le> 5"
  using unat_port [of p] by (intro dec_length) simp_all

lemma quad_text_length: "length (quad_text a b c d) \<le> 15"
  using dec_length_byte [of a] dec_length_byte [of b] dec_length_byte [of c] dec_length_byte [of d]
  by (simp add: quad_text_def)

lemma dec_head: "c_at (dec n @ s) \<noteq> 0x5B"
proof (induction n arbitrary: s rule: dec.induct)
  case (1 n)
  show ?case
  proof (cases "n < 10")
    case True
    then show ?thesis
      by (subst dec.simps) (drule lt_ten, elim disjE; simp add: c_at_def)
  next
    case False
    have "dec n @ s = dec (n div 10) @ (0x30 + of_nat (n mod 10)) # s"
      using False by (subst dec.simps) simp
    with "1.IH" [OF False] show ?thesis by metis
  qed
qed

text \<open>An address that is an IPv4 address and nothing else.\<close>

definition plain_v4 :: "netaddr \<Rightarrow> bool" where
  "plain_v4 a \<longleftrightarrow> na_type a = NETTYPE_IPV4 \<and> length (na_ip a) = 16 \<and> drop 4 (na_ip a) = replicate 12 0"

lemma plain_v4_cases:
  assumes "plain_v4 a"
  obtains w x y z where "na_ip a = [w, x, y, z] @ replicate 12 0"
proof -
  have "take 4 (na_ip a) = [na_ip a ! 0, na_ip a ! 1, na_ip a ! 2, na_ip a ! 3]"
    using assms by (intro nth_equalityI) (auto simp: plain_v4_def less_Suc_eq numeral_eq_Suc)
  with assms that show thesis by (metis append_take_drop_id plain_v4_def)
qed

lemma v4_text:
  assumes "na_type a = NETTYPE_IPV4" "na_ip a = [w, x, y, z] @ r"
  shows "net_addr_str a NETADDR_MAXSTRSIZE add_port =
    Inr (quad_text w x y z @ (if add_port then 0x3A # dec (unat (na_port a)) else []))"
proof -
  let ?q = "quad_text w x y z" and ?p = "unat (na_port a)" and ?n = NETADDR_MAXSTRSIZE
  have l: "length (?q @ [0x3A] @ dec ?p) < ?n"
    using quad_text_length [of w x y z] dec_length_port [of "na_port a"]
    by (simp add: NETADDR_MAXSTRSIZE_def)
  have long: "str_copy (?q @ 0x3A # dec ?p) ?n = ?q @ 0x3A # dec ?p"
    using l str_copy_dec [of "?q @ [0x3A]" ?p ?n] by simp
  obtain q where q: "?q = q @ dec (unat z)" by (simp add: quad_text_def)
  have short: "str_copy ?q ?n = ?q"
    unfolding q using l q by (intro str_copy_dec) simp
  show ?thesis
    using long short by (simp add: net_addr_str_def assms nettypes quad_text_def)
qed

lemma quad_text_head: "c_at (quad_text w x y z @ s) \<noteq> 0x5B"
  by (simp add: quad_text_def dec_head)

lemma parse_v4_text:
  "net_addr_from_str P (quad_text w x y z @ 0x3A # dec (unat p)) =
     Inr \<lparr>na_type = NETTYPE_IPV4, na_ip = [w, x, y, z] @ replicate 12 0, na_port = p\<rparr>"
  "net_addr_from_str P (quad_text w x y z) =
     Inr \<lparr>na_type = NETTYPE_IPV4, na_ip = [w, x, y, z] @ replicate 12 0, na_port = 0\<rparr>"
  using parse_quad_text [of "0x3A # dec (unat p)" w x y z] parse_quad_text [of "[]" w x y z]
    parse_uint16_number [of "[]" p] quad_text_head [of w x y z "0x3A # dec (unat p)"]
    quad_text_head [of w x y z "[]"]
  by (simp_all add: net_addr_from_str_def parse_port_def)

subsection \<open>The longest run of zeros\<close>

definition zrun :: "nat list \<Rightarrow> nat \<Rightarrow> nat \<Rightarrow> bool" where
  "zrun ip a n \<longleftrightarrow> (\<forall>k < n. ip ! (a + k) = 0)"

text \<open>\<open>(ls, ll)\<close> is the leftmost longest run of zeros before position \<open>e\<close>.\<close>

definition best_run :: "nat list \<Rightarrow> nat \<Rightarrow> int \<Rightarrow> nat \<Rightarrow> bool" where
  "best_run ip e ls ll \<longleftrightarrow>
     (if ll = 0 then ls = - 1 else \<exists>a. ls = int a \<and> zrun ip a ll \<and> a + ll \<le> e \<and>
        (\<forall>b. zrun ip b ll \<and> b + ll \<le> e \<longrightarrow> a \<le> b)) \<and>
     (\<forall>b n. zrun ip b n \<and> b + n \<le> e \<longrightarrow> n \<le> ll)"

lemma zrun_at: "zrun ip b n \<Longrightarrow> b \<le> i \<Longrightarrow> i < b + n \<Longrightarrow> ip ! i = 0"
  unfolding zrun_def by (metis le_Suc_ex nat_add_left_cancel_less)

lemma zrun_extend: "zrun ip p (i - p) \<Longrightarrow> p \<le> i \<Longrightarrow> ip ! i = 0 \<Longrightarrow> zrun ip p (Suc i - p)"
  by (auto simp: zrun_def Suc_diff_le less_Suc_eq)

lemma best_run_same:
  assumes "best_run ip e ls ll" "e \<le> e'" "\<And>b n. zrun ip b n \<Longrightarrow> b + n \<le> e' \<Longrightarrow> 0 < n \<Longrightarrow> b + n \<le> e"
  shows "best_run ip e' ls ll"
proof -
  have n: "n \<le> ll" if "zrun ip b n" "b + n \<le> e'" for b n
  proof (cases "n = 0")
    case False
    with assms(3) [OF that] have "b + n \<le> e" by simp
    with assms(1) that(1) show ?thesis by (simp add: best_run_def)
  qed simp
  show ?thesis
  proof (cases "ll = 0")
    case True
    then show ?thesis using assms(1) n by (auto simp: best_run_def)
  next
    case False
    then obtain a where a: "ls = int a" "zrun ip a ll" "a + ll \<le> e"
      "\<forall>b. zrun ip b ll \<and> b + ll \<le> e \<longrightarrow> a \<le> b" using assms(1) by (auto simp: best_run_def)
    with assms(2,3) n False show ?thesis by (auto simp: best_run_def intro!: exI [of _ a])
  qed
qed

lemma best_run_close:
  assumes "best_run ip p ls ll" "zrun ip p (i - p)" "p < i" "p = 0 \<or> ip ! (p - 1) \<noteq> 0"
  shows "best_run ip i (if ll < i - p then int p else ls) (if ll < i - p then i - p else ll)"
proof -
  have split: "b + n \<le> p \<or> p \<le> b" if "zrun ip b n" for b n
  proof (rule ccontr)
    assume "\<not> (b + n \<le> p \<or> p \<le> b)"
    then have "b \<le> p - 1" "p - 1 < b + n" "p \<noteq> 0" by auto
    moreover from zrun_at [OF that this(1,2)] assms(4) have "p = 0" by auto
    ultimately show False by simp
  qed
  have old: "n \<le> ll" if "zrun ip b n" "b + n \<le> p" for b n
    using assms(1) that by (simp add: best_run_def)
  show ?thesis
  proof (cases "ll < i - p")
    case True
    have "n \<le> i - p \<and> (n = i - p \<longrightarrow> p \<le> b)" if "zrun ip b n" "b + n \<le> i" for b n
      using split [OF that(1)] old [OF that(1)] that True by auto
    with True assms(2,3) show ?thesis by (auto simp: best_run_def intro!: exI [of _ p])
  next
    case False
    have n: "n \<le> ll" if "zrun ip b n" "b + n \<le> i" for b n
      using split [OF that(1)] old [OF that(1)] that False by auto
    have "ll \<noteq> 0" using False assms(3) by simp
    then obtain a where a: "ls = int a" "zrun ip a ll" "a + ll \<le> p"
      "\<forall>b. zrun ip b ll \<and> b + ll \<le> p \<longrightarrow> a \<le> b" using assms(1) by (auto simp: best_run_def)
    have "a \<le> b" if "zrun ip b ll" "b + ll \<le> i" for b
      using split [OF that(1)] a(3,4) that by auto
    with a n False assms(3) show ?thesis by (auto simp: best_run_def intro!: exI [of _ a])
  qed
qed

text \<open>The state before round \<open>i\<close>.\<close>

definition zero_inv :: "nat list \<Rightarrow> nat \<Rightarrow> int \<times> nat \<times> int \<times> nat \<Rightarrow> bool" where
  "zero_inv ip i = (\<lambda>(seq_start, seq_len, ls, ll).
     if seq_start = - 1 then seq_len = 0 \<and> best_run ip i ls ll \<and> (i = 0 \<or> ip ! (i - 1) \<noteq> 0)
     else \<exists>p < i. seq_start = int p \<and> seq_len = i - p \<and> zrun ip p (i - p) \<and>
       (p = 0 \<or> ip ! (p - 1) \<noteq> 0) \<and> best_run ip p ls ll)"

lemma zero_inv_step:
  assumes "zero_inv ip i st" "i < 8"
  shows "zero_inv ip (Suc i) (zero_step ip st i)"
proof -
  obtain ss sl ls ll where st: "st = (ss, sl, ls, ll)" by (cases st)
  have skip: "best_run ip (Suc i) ls' ll'" if b: "best_run ip i ls' ll'" "ip ! i \<noteq> 0" for ls' ll'
  proof (rule best_run_same [OF b(1)])
    fix a n assume r: "zrun ip a n" "a + n \<le> Suc i" "0 < n"
    show "a + n \<le> i"
    proof (rule ccontr)
      assume "\<not> a + n \<le> i"
      with r have "a \<le> i" "i < a + n" by auto
      from zrun_at [OF r(1) this] b(2) show False by simp
    qed
  qed simp
  show ?thesis
  proof (cases "ss = - 1")
    case True
    show ?thesis
    proof (cases "ip ! i = 0")
      case z: True
      then have "zrun ip i 1" by (simp add: zrun_def)
      with z True assms show ?thesis
        by (auto simp: zero_inv_def st zero_step_def intro!: exI [of _ i])
    next
      case False
      with True assms skip show ?thesis by (auto simp: zero_inv_def st zero_step_def)
    qed
  next
    case False
    with assms obtain p where p: "p < i" "ss = int p" "sl = i - p" "zrun ip p (i - p)"
      "p = 0 \<or> ip ! (p - 1) \<noteq> 0" "best_run ip p ls ll" by (auto simp: zero_inv_def st)
    show ?thesis
    proof (cases "ip ! i = 0")
      case True
      with p zrun_extend [of ip p i] assms(2) show ?thesis
        by (auto simp: zero_inv_def st zero_step_def intro!: exI [of _ p])
    next
      case nz: False
      from skip [OF best_run_close [OF p(6,4,1,5)] nz] p nz show ?thesis
        by (auto simp: zero_inv_def st zero_step_def split: if_splits)
    qed
  qed
qed

lemma zero_inv_fold: "i \<le> 8 \<Longrightarrow> zero_inv ip i (foldl (zero_step ip) (- 1, 0, - 1, 0) [0..<i])"
proof (induction i)
  case 0
  then show ?case by (auto simp: zero_inv_def best_run_def zrun_def)
next
  case (Suc i)
  then show ?case using zero_inv_step [of ip i] by simp
qed

lemma longest_zeros_best:
  "\<exists>ls ll. best_run ip 8 ls ll \<and> longest_zeros ip = (if ll \<le> 1 then (- 1, 0) else (ls, ll))"
proof -
  obtain ss sl ls ll where st: "foldl (zero_step ip) (- 1, 0, - 1, 0) [0..<8] = (ss, sl, ls, ll)"
    by (metis prod.exhaust)
  have inv: "zero_inv ip 8 (ss, sl, ls, ll)" using zero_inv_fold [of 8 ip] st by simp
  have all: "longest_zeros ip = (case zero_step ip (ss, sl, ls, ll) 8 of (_, _, a, n) \<Rightarrow>
      if n \<le> 1 then (- 1, 0) else (a, n))"
  proof -
    have "[0..<9] = [0..<8] @ [8]" by (simp add: upt_rec)
    then show ?thesis by (simp only: longest_zeros_def st foldl_append foldl.simps Let_def)
  qed
  show ?thesis
  proof (cases "ss = - 1")
    case True
    with inv have "best_run ip 8 ls ll" by (simp add: zero_inv_def)
    moreover have "longest_zeros ip = (if ll \<le> 1 then (- 1, 0) else (ls, ll))"
      using True by (simp add: all zero_step_def)
    ultimately show ?thesis by blast
  next
    case False
    with inv obtain p where p: "p < 8" "ss = int p" "sl = 8 - p" "zrun ip p (8 - p)"
      "p = 0 \<or> ip ! (p - 1) \<noteq> 0" "best_run ip p ls ll" by (auto simp: zero_inv_def)
    from best_run_close [OF p(6,4,1,5)] have
      "best_run ip 8 (if ll < 8 - p then int p else ls) (if ll < 8 - p then 8 - p else ll)" .
    moreover have "longest_zeros ip = (if (if ll < 8 - p then 8 - p else ll) \<le> 1 then (- 1, 0)
        else (if ll < 8 - p then int p else ls, if ll < 8 - p then 8 - p else ll))"
      using p by (simp add: all zero_step_def)
    ultimately show ?thesis by blast
  qed
qed

subsection \<open>The order on addresses\<close>

definition wf_addr :: "netaddr \<Rightarrow> bool" where
  "wf_addr a \<longleftrightarrow> length (na_ip a) = 16 \<and> uint (na_type a) < 2147483648"

lemma c_compare_lex:
  "length a = n \<Longrightarrow> length b = n \<Longrightarrow>
   (c_compare uint n a b = 0 \<longleftrightarrow> a = b) \<and>
   (c_compare uint n a b < 0 \<longleftrightarrow> ord_class.lexordp (map uint a) (map uint b))"
proof (induction n arbitrary: a b)
  case (Suc n)
  then obtain x a' y b' where "a = x # a'" "b = y # b'" "length a' = n" "length b' = n"
    by (metis length_Suc_conv)
  with Suc.IH [of a' b'] show ?case by (auto simp: byte_eq_iff)
qed simp

lemma sint_diff:
  fixes s t :: "32 word"
  assumes "uint s < 2147483648" "uint t < 2147483648"
  shows "sint (s - t) = uint s - uint t"
proof -
  have "sint (s - t) = signed_take_bit 31 (uint s - uint t)"
    by (subst word_sub_wi, subst signed_of_int) simp
  moreover have "- 2147483648 \<le> uint s - uint t \<and> uint s - uint t < 2147483648"
    using assms uint_ge_0 [of s] uint_ge_0 [of t] by linarith
  ultimately show ?thesis by (simp add: signed_take_bit_int_eq_self_iff)
qed

definition addr_key :: "netaddr \<Rightarrow> int list" where
  "addr_key a = uint (na_type a) # map uint (na_ip a) @ [uint (na_port a)]"

lemma lexordp_append_right:
  "length xs = length ys \<Longrightarrow>
   ord_class.lexordp (xs @ us) (ys @ vs) \<longleftrightarrow>
     ord_class.lexordp xs ys \<or> xs = ys \<and> ord_class.lexordp us (vs :: int list)"
  by (induction xs ys rule: list_induct2) auto

lemma net_addr_comp_key:
  assumes "wf_addr a" "wf_addr b"
  shows "net_addr_comp a b < 0 \<longleftrightarrow> ord_class.lexordp (addr_key a) (addr_key b)"
    and "net_addr_comp a b = 0 \<longleftrightarrow> addr_key a = addr_key b"
proof -
  have d: "sint (na_type a - na_type b) = uint (na_type a) - uint (na_type b)"
    using assms by (intro sint_diff) (auto simp: wf_addr_def)
  have c: "c_compare uint 16 (na_ip a) (na_ip b) = 0 \<longleftrightarrow> na_ip a = na_ip b"
    "c_compare uint 16 (na_ip a) (na_ip b) < 0 \<longleftrightarrow> ord_class.lexordp (map uint (na_ip a)) (map uint (na_ip b))"
    using c_compare_lex [of "na_ip a" 16 "na_ip b"] assms by (auto simp: wf_addr_def)
  have l: "length (map uint (na_ip a)) = length (map uint (na_ip b))"
    using assms by (simp add: wf_addr_def)
  have i: "map uint (na_ip a) = map uint (na_ip b) \<longleftrightarrow> na_ip a = na_ip b"
    by (rule inj_map_eq_map) (simp add: inj_def word_uint_eq_iff)
  show "net_addr_comp a b < 0 \<longleftrightarrow> ord_class.lexordp (addr_key a) (addr_key b)"
    using lexordp_append_right [OF l] c
    by (auto simp: net_addr_comp_def d addr_key_def i)
  show "net_addr_comp a b = 0 \<longleftrightarrow> addr_key a = addr_key b"
    using c i by (auto simp: net_addr_comp_def d addr_key_def)
qed

lemma addr_key_inj: "addr_key a = addr_key b \<longleftrightarrow> a = b"
proof
  assume k: "addr_key a = addr_key b"
  then have "map uint (na_ip a) = map uint (na_ip b)" by (simp add: addr_key_def)
  then have "na_ip a = na_ip b" by (rule inj_map_eq_map [THEN iffD1, rotated]) (simp add: inj_def word_uint_eq_iff)
  with k show "a = b" by (cases a; cases b) (simp add: addr_key_def word_uint_eq_iff)
qed simp

text \<open>The text of an IPv4 address fits the buffer for address strings, and parsing it gives the
  address back (with port zero when the port is left out).\<close>

theorem ipv4_text_roundtrip:
  assumes "plain_v4 a"
  shows "\<exists>s. net_addr_str a NETADDR_MAXSTRSIZE add_port = Inr s \<and> length s < NETADDR_MAXSTRSIZE \<and>
    net_addr_from_str inet_pton s = Inr (if add_port then a else a\<lparr>na_port := 0\<rparr>)"
proof -
  obtain w x y z where ip: "na_ip a = [w, x, y, z] @ replicate 12 0" using plain_v4_cases [OF assms] .
  have t: "na_type a = NETTYPE_IPV4" using assms by (simp add: plain_v4_def)
  then have a: "\<lparr>na_type = NETTYPE_IPV4, na_ip = [w, x, y, z] @ replicate 12 0, na_port = na_port a\<rparr> = a"
    using ip by (cases a) simp
  have "length (quad_text w x y z @ 0x3A # dec (unat (na_port a))) < NETADDR_MAXSTRSIZE"
    using quad_text_length [of w x y z] dec_length_port [of "na_port a"]
    by (simp add: NETADDR_MAXSTRSIZE_def)
  then show ?thesis
    using v4_text [OF t ip, of add_port] parse_v4_text(1) [of inet_pton w x y z "na_port a"]
      parse_v4_text(2) [of inet_pton w x y z] a t ip
    by (cases add_port) auto
qed

theorem ipv4_text_roundtrip_witness:
  "\<exists>s. net_addr_str \<lparr>na_type = 1, na_ip = [127, 0, 0, 1] @ replicate 12 0, na_port = 8303\<rparr> NETADDR_MAXSTRSIZE True = Inr s \<and>
    length s < NETADDR_MAXSTRSIZE \<and>
    net_addr_from_str (\<lambda>_. None) s = Inr \<lparr>na_type = 1, na_ip = [127, 0, 0, 1] @ replicate 12 0, na_port = 8303\<rparr>"
  using ipv4_text_roundtrip [of "\<lparr>na_type = 1, na_ip = [127, 0, 0, 1] @ replicate 12 0, na_port = 8303\<rparr>" True]
  by (simp add: plain_v4_def nettypes)

text \<open>\<open>operator==\<close> is equality and \<open>operator<\<close> is a strict total order on addresses whose
  type is below \<open>2^31\<close>, so ordered containers keyed by addresses are well defined.\<close>

theorem netaddr_total_order:
  assumes "wf_addr a" "wf_addr b" "wf_addr c"
  shows "(netaddr_eq a b \<longleftrightarrow> a = b) \<and> \<not> netaddr_less a a \<and>
    (netaddr_less a b \<and> netaddr_less b c \<longrightarrow> netaddr_less a c) \<and>
    (netaddr_less a b \<or> a = b \<or> netaddr_less b a)"
  using assms lexordp_trans [of "addr_key a" "addr_key b" "addr_key c"]
    lexordp_linear [of "addr_key a" "addr_key b"]
  by (auto simp: netaddr_eq_def netaddr_less_def net_addr_comp_key addr_key_inj lexordp_irreflexive')

theorem netaddr_total_order_witness:
  "\<not> netaddr_less (NETADDR_ZEROED\<lparr>na_type := 1\<rparr>) (NETADDR_ZEROED\<lparr>na_type := 1\<rparr>)"
  using netaddr_total_order [of "NETADDR_ZEROED\<lparr>na_type := 1\<rparr>" "NETADDR_ZEROED\<lparr>na_type := 1\<rparr>" "NETADDR_ZEROED\<lparr>na_type := 1\<rparr>"]
  by (simp add: wf_addr_def NETADDR_ZEROED_def)

text \<open>the search in \<open>net_addr_str_v6\<close> finds the leftmost of the longest runs of zero groups,
  and reports none when no two neighbouring groups are zero.\<close>

theorem longest_zeros_correct:
  "case longest_zeros ip of (ls, ll) \<Rightarrow>
     if \<exists>b. b + 2 \<le> 8 \<and> zrun ip b 2
     then \<exists>a. ls = int a \<and> 2 \<le> ll \<and> a + ll \<le> 8 \<and> zrun ip a ll \<and>
       (\<forall>b n. zrun ip b n \<and> b + n \<le> 8 \<longrightarrow> n \<le> ll \<and> (n = ll \<longrightarrow> a \<le> b))
     else ls = - 1 \<and> ll = 0"
proof -
  obtain ls ll where b: "best_run ip 8 ls ll"
    and l: "longest_zeros ip = (if ll \<le> 1 then (- 1, 0) else (ls, ll))"
    using longest_zeros_best by blast
  show ?thesis
  proof (cases "ll \<le> 1")
    case True
    then show ?thesis using b l by (fastforce simp: best_run_def)
  next
    case False
    then obtain a where a: "ls = int a" "zrun ip a ll" "a + ll \<le> 8" using b by (auto simp: best_run_def)
    then have "zrun ip a 2" using False by (auto simp: zrun_def)
    with a b l False show ?thesis by (auto simp: best_run_def intro!: exI [of _ a])
  qed
qed

theorem longest_zeros_correct_witness: "longest_zeros [1, 0, 0, 2, 0, 0, 0, 3] = (4, 3)"
proof -
  let ?ip = "[1, 0, 0, 2, 0, 0, 0, 3] :: nat list"
  have n: "?ip ! 4 = 0" "?ip ! 5 = 0" "?ip ! 6 = 0" "?ip ! 0 \<noteq> 0" "?ip ! 3 \<noteq> 0" "?ip ! 7 \<noteq> 0" by simp_all
  have z: "zrun ?ip 4 2" "zrun ?ip 4 3" by (auto simp: zrun_def less_Suc_eq numeral_eq_Suc)
  obtain ls ll where l: "longest_zeros ?ip = (ls, ll)" by (cases "longest_zeros ?ip")
  have ex: "\<exists>b. b + 2 \<le> 8 \<and> zrun ?ip b 2" using z(1) by (intro exI [of _ 4]) simp
  from longest_zeros_correct [of ?ip, unfolded l prod.case if_P [OF ex]] obtain a where a: "ls = int a" "a + ll \<le> 8" "zrun ?ip a ll"
    "\<forall>b n. zrun ?ip b n \<and> b + n \<le> 8 \<longrightarrow> n \<le> ll \<and> (n = ll \<longrightarrow> a \<le> b)"
    by (elim exE conjE)
  have three: "3 \<le> ll" "ll = 3 \<longrightarrow> a \<le> 4" using a(4) z(2) by force+
  have no: "\<not> (a \<le> k \<and> k < a + ll)" if "k \<in> {0, 3, 7}" for k
    using zrun_at [OF a(3), of k] n that by auto
  from no [of 0] no [of 3] no [of 7] three a(2) have "a = 4 \<and> ll = 3" by auto
  with a(1) l show ?thesis by simp
qed

text \<open>\<open>parse_int\<close> does not check for overflow: an octet of ten digits that wraps around to a
  small number is accepted.\<close>

theorem address_octet_wraps:
  "net_addr_from_str inet_pton (lit ''4294967297.0.0.1'') =
     Inr \<lparr>na_type = NETTYPE_IPV4, na_ip = [1, 0, 0, 1] @ replicate 12 0, na_port = 0\<rparr>"
  by (simp add: net_addr_from_str_def parse_quad_def parse_uint8_def parse_int_def parse_char_def
      parse_port_def c_at_def str_isnum_def lit_def to_i32_def)

end
