(* ===== verification/Codec.thy ===== *)
theory Codec
  imports Prelude
begin

text \<open>
  The interface of a wire format whose values are written one behind the other: \<open>enc\<close> gives the
  bytes of a value that is \<open>ok\<close>, and \<open>dec\<close> reads one value from the front of the bytes. From the
  law for one value follows what a receiver needs for a sequence of them.
\<close>

fun decode_n :: "(bytes \<Rightarrow> ('a \<times> bytes) option) \<Rightarrow> nat \<Rightarrow> bytes \<Rightarrow> ('a list \<times> bytes) option" where
  "decode_n dec 0 bs = Some ([], bs)"
| "decode_n dec (Suc n) bs =
     (case dec bs of None \<Rightarrow> None
      | Some (x, r) \<Rightarrow> (case decode_n dec n r of None \<Rightarrow> None | Some (xs, r') \<Rightarrow> Some (x # xs, r')))"

locale stream_codec =
  fixes ok :: "'a \<Rightarrow> bool"
    and enc :: "'a \<Rightarrow> bytes"
    and dec :: "bytes \<Rightarrow> ('a \<times> bytes) option"
  assumes dec_enc: "ok x \<Longrightarrow> dec (enc x @ r) = Some (x, r)"
begin

lemma enc_unique:
  assumes "ok x" "ok y" "enc x @ r = enc y @ s"
  shows "x = y \<and> r = s"
proof -
  have "Some (x, r) = Some (y, s)"
    using dec_enc [OF assms(1), of r] dec_enc [OF assms(2), of s] unfolding assms(3) by (rule trans [OF sym])
  then show ?thesis by simp
qed

lemma decode_stream:
  "\<forall>x \<in> set xs. ok x \<Longrightarrow> decode_n dec (length xs) (concat (map enc xs) @ r) = Some (xs, r)"
  by (induction xs) (simp_all add: dec_enc)

text \<open>The bytes and the number of values determine the values.\<close>

lemma stream_unique:
  assumes "\<forall>x \<in> set xs. ok x" "\<forall>y \<in> set ys. ok y" "length xs = length ys"
    and "concat (map enc xs) = concat (map enc ys)"
  shows "xs = ys"
proof -
  have "Some (xs, []) = decode_n dec (length xs) (concat (map enc xs) @ [])"
    by (rule decode_stream [OF assms(1), symmetric])
  also have "\<dots> = decode_n dec (length ys) (concat (map enc ys) @ [])"
    by (simp only: assms(3,4))
  also have "\<dots> = Some (ys, [])" by (rule decode_stream [OF assms(2)])
  finally show ?thesis by simp
qed

end

end
