(* ===== verification/NetProtocol.thy ===== *)
theory NetProtocol
  imports Prelude Codec Packer Huffman NetAddr
begin

text \<open>
  The packet layer (src/src/engine/shared/network.cpp, network.h, protocolglue.cpp): chunk
  headers, the ack window, packet headers with their flags, the token at the end of a packet, and
  compression. A packet under construction is the record of \<open>CNetPacketConstruct\<close>: its chunk data
  is the whole array, of which the first \<open>pk_DataSize\<close> bytes are valid. Sending gives the bytes
  handed to \<open>net_udp_send\<close>; a copy that would leave an array is \<open>OutOfBounds\<close>.
\<close>

subsection \<open>Constants\<close>

type_synonym token = "32 word"

definition NET_MAX_PACKETSIZE :: nat where "NET_MAX_PACKETSIZE = 1400"
definition NET_MAX_CHUNK_SIZE :: nat where "NET_MAX_CHUNK_SIZE = 1023"
definition NET_MAX_CHUNKHEADERSIZE :: nat where "NET_MAX_CHUNKHEADERSIZE = 3"
definition NET_PACKETHEADERSIZE :: nat where "NET_PACKETHEADERSIZE = 3"
definition NET_CONNLESS_EXTRA_SIZE :: nat where "NET_CONNLESS_EXTRA_SIZE = 4"
definition NET_MAX_SEQUENCE :: int where "NET_MAX_SEQUENCE = 1024"
definition NET_MAX_PACKET_CHUNKS :: nat where "NET_MAX_PACKET_CHUNKS = 255"

definition NET_PACKETFLAG_UNUSED :: int where "NET_PACKETFLAG_UNUSED = 1"
definition NET_PACKETFLAG_CONTROL :: int where "NET_PACKETFLAG_CONTROL = 4"
definition NET_PACKETFLAG_CONNLESS :: int where "NET_PACKETFLAG_CONNLESS = 8"
definition NET_PACKETFLAG_RESEND :: int where "NET_PACKETFLAG_RESEND = 16"
definition NET_PACKETFLAG_COMPRESSION :: int where "NET_PACKETFLAG_COMPRESSION = 32"
definition NET_PACKETFLAG_EXTENDED :: int where "NET_PACKETFLAG_EXTENDED = 64"

definition NET_CHUNKFLAG_VITAL :: int where "NET_CHUNKFLAG_VITAL = 1"
definition NET_CHUNKFLAG_RESEND :: int where "NET_CHUNKFLAG_RESEND = 2"

definition NET_CTRLMSG_KEEPALIVE :: byte where "NET_CTRLMSG_KEEPALIVE = 0"
definition NET_CTRLMSG_CONNECT :: byte where "NET_CTRLMSG_CONNECT = 1"
definition NET_CTRLMSG_CONNECTACCEPT :: byte where "NET_CTRLMSG_CONNECTACCEPT = 2"
definition NET_CTRLMSG_ACCEPT :: byte where "NET_CTRLMSG_ACCEPT = 3"
definition NET_CTRLMSG_CLOSE :: byte where "NET_CTRLMSG_CLOSE = 4"
definition NET_CTRLMSG_TOKEN :: byte where "NET_CTRLMSG_TOKEN = 5"

definition NET_SECURITY_TOKEN_UNKNOWN :: token where "NET_SECURITY_TOKEN_UNKNOWN = - 1"
definition NET_SECURITY_TOKEN_UNSUPPORTED :: token where "NET_SECURITY_TOKEN_UNSUPPORTED = 0"
definition NET_TOKEN_NONE :: token where "NET_TOKEN_NONE = 0xffffffff"
definition NET_TOKENREQUEST_DATASIZE :: nat where "NET_TOKENREQUEST_DATASIZE = 512"

definition SECURITY_TOKEN_MAGIC :: bytes where "SECURITY_TOKEN_MAGIC = lit ''TKEN''"
definition NET_HEADER_EXTENDED :: bytes where "NET_HEADER_EXTENDED = lit ''xe''"

text \<open>The flags of 0.7 (\<open>protocolglue.cpp\<close>).\<close>

definition SEVEN_CONTROL :: int where "SEVEN_CONTROL = 1"
definition SEVEN_RESEND :: int where "SEVEN_RESEND = 2"
definition SEVEN_COMPRESSION :: int where "SEVEN_COMPRESSION = 4"

lemmas packet_consts = NET_MAX_PACKETSIZE_def NET_MAX_CHUNK_SIZE_def NET_MAX_CHUNKHEADERSIZE_def
  NET_PACKETHEADERSIZE_def NET_CONNLESS_EXTRA_SIZE_def NET_MAX_SEQUENCE_def NET_MAX_PACKET_CHUNKS_def
  NET_TOKENREQUEST_DATASIZE_def

lemmas packet_flags = NET_PACKETFLAG_UNUSED_def NET_PACKETFLAG_CONTROL_def NET_PACKETFLAG_CONNLESS_def
  NET_PACKETFLAG_RESEND_def NET_PACKETFLAG_COMPRESSION_def NET_PACKETFLAG_EXTENDED_def
  SEVEN_CONTROL_def SEVEN_RESEND_def SEVEN_COMPRESSION_def

subsection \<open>Memory\<close>

text \<open>\<open>mem_copy(buf + off, src, n)\<close>.\<close>

definition mem_write :: "bytes \<Rightarrow> nat \<Rightarrow> bytes \<Rightarrow> bytes result" where
  "mem_write buf off src =
     (if off + length src \<le> length buf
      then Inr (take off buf @ src @ drop (off + length src) buf) else Inl OutOfBounds)"

definition ToSecurityToken :: "bytes \<Rightarrow> token" where
  "ToSecurityToken pData = bytes_be_to_uint pData"

definition WriteSecurityToken :: "token \<Rightarrow> bytes" where
  "WriteSecurityToken t = uint_to_bytes_be t"

subsection \<open>Chunk headers\<close>

record chunk_header =
  ch_Flags :: int
  ch_Size :: int
  ch_Sequence :: int

definition chunk_Pack :: "chunk_header \<Rightarrow> nat \<Rightarrow> bytes result" where
  "chunk_Pack h Split =
     (let low = 2 ^ Split - 1 in
      if \<not> (ch_Size h \<ge> 0 \<and> ch_Size h < 2 ^ (Split + 6)) then Inl AssertFailed
      else
        let b0 = of_int (push_bit 6 (ch_Flags h AND 3) OR (drop_bit Split (ch_Size h) AND 0x3f));
            b1 = of_int (ch_Size h AND low)
        in if ch_Flags h AND NET_CHUNKFLAG_VITAL \<noteq> 0
           then Inr [b0, b1 OR of_int (drop_bit 2 (ch_Sequence h) AND NOT low), of_int (ch_Sequence h AND 0xff)]
           else Inr [b0, b1])"

text \<open>The header and the number of bytes it takes.\<close>

definition chunk_Unpack :: "bytes \<Rightarrow> nat \<Rightarrow> chunk_header \<times> nat" where
  "chunk_Unpack pData Split =
     (let low = 2 ^ Split - 1;
          flags = drop_bit 6 (uint (pData ! 0)) AND 3;
          size = push_bit Split (uint (pData ! 0) AND 0x3f) OR (uint (pData ! 1) AND low)
      in if flags AND NET_CHUNKFLAG_VITAL \<noteq> 0
         then (\<lparr>ch_Flags = flags, ch_Size = size,
                ch_Sequence = push_bit 2 (uint (pData ! 1) AND NOT low) OR uint (pData ! 2)\<rparr>, 3)
         else (\<lparr>ch_Flags = flags, ch_Size = size, ch_Sequence = - 1\<rparr>, 2))"

definition IsSeqInBackroom :: "int \<Rightarrow> int \<Rightarrow> bool" where
  "IsSeqInBackroom Seq Ack =
     (let Bottom = Ack - NET_MAX_SEQUENCE div 2 in
      if Bottom < 0 then (if Seq \<le> Ack then True else if Seq \<ge> Bottom + NET_MAX_SEQUENCE then True else False)
      else (if Seq \<le> Ack \<and> Seq \<ge> Bottom then True else False))"

subsection \<open>Packets\<close>

record net_packet =
  pk_Flags :: int
  pk_Ack :: nat
  pk_NumChunks :: nat
  pk_DataSize :: nat
  pk_ChunkData :: bytes
  pk_ExtraData :: bytes

definition zero_packet :: net_packet where
  "zero_packet = \<lparr>pk_Flags = 0, pk_Ack = 0, pk_NumChunks = 0, pk_DataSize = 0,
     pk_ChunkData = replicate (NET_MAX_PACKETSIZE - NET_PACKETHEADERSIZE) 0,
     pk_ExtraData = replicate NET_CONNLESS_EXTRA_SIZE 0\<rparr>"

definition pk_data :: "net_packet \<Rightarrow> bytes" where
  "pk_data p = take (pk_DataSize p) (pk_ChunkData p)"

definition PacketFlags_SixToSeven :: "int \<Rightarrow> int" where
  "PacketFlags_SixToSeven Flags =
     (let s0 = 0;
          s1 = (if Flags AND NET_PACKETFLAG_CONTROL \<noteq> 0 then s0 OR SEVEN_CONTROL else s0);
          s2 = (if Flags AND NET_PACKETFLAG_RESEND \<noteq> 0 then s1 OR SEVEN_RESEND else s1)
      in if Flags AND NET_PACKETFLAG_COMPRESSION \<noteq> 0 then s2 OR SEVEN_COMPRESSION else s2)"

definition PacketFlags_SevenToSix :: "int \<Rightarrow> int" where
  "PacketFlags_SevenToSix Flags =
     (let s0 = 0;
          s1 = (if Flags AND SEVEN_CONTROL \<noteq> 0 then s0 OR NET_PACKETFLAG_CONTROL else s0);
          s2 = (if Flags AND SEVEN_RESEND \<noteq> 0 then s1 OR NET_PACKETFLAG_RESEND else s1)
      in if Flags AND SEVEN_COMPRESSION \<noteq> 0 then s2 OR NET_PACKETFLAG_COMPRESSION else s2)"

definition IsValidConnectionOrientedPacket :: "net_packet \<Rightarrow> bool" where
  "IsValidConnectionOrientedPacket p =
     (if pk_Flags p AND NOT (NET_PACKETFLAG_CONTROL OR NET_PACKETFLAG_RESEND OR NET_PACKETFLAG_COMPRESSION) \<noteq> 0
      then False
      else if pk_Flags p AND NET_PACKETFLAG_CONTROL \<noteq> 0
      then pk_NumChunks p = 0 \<and> pk_DataSize p > 0 \<and> pk_Flags p AND NET_PACKETFLAG_COMPRESSION = 0
      else
        let MinChunks = (if pk_Flags p AND NET_PACKETFLAG_RESEND \<noteq> 0 then 0 else 1)
        in pk_NumChunks p \<ge> MinChunks \<and> pk_NumChunks p \<le> NET_MAX_PACKET_CHUNKS)"

subsection \<open>Sending\<close>

definition SendPacketConnless :: "bytes \<Rightarrow> bool \<Rightarrow> bytes \<Rightarrow> bytes result" where
  "SendPacketConnless data Extended aExtra =
     (let DATA_OFFSET = length NET_HEADER_EXTENDED + NET_CONNLESS_EXTRA_SIZE in
      if length data > NET_MAX_PACKETSIZE - DATA_OFFSET then Inl AssertFailed
      else Inr ((if Extended then NET_HEADER_EXTENDED @ take NET_CONNLESS_EXTRA_SIZE aExtra
                 else replicate DATA_OFFSET 0xFF) @ data))"

definition SendPacketConnlessWithToken7 :: "bytes \<Rightarrow> token \<Rightarrow> token \<Rightarrow> bytes result" where
  "SendPacketConnlessWithToken7 data Token ResponseToken =
     (let DATA_OFFSET = 1 + 2 * 4 in
      if length data > NET_MAX_PACKETSIZE - DATA_OFFSET then Inl AssertFailed
      else Inr ([of_int (push_bit 2 NET_PACKETFLAG_CONNLESS OR 1)] @ WriteSecurityToken Token @
                WriteSecurityToken ResponseToken @ data))"

text \<open>The token goes into the header (0.7) or behind the chunk data (0.6).\<close>

definition append_token :: "net_packet \<Rightarrow> token \<Rightarrow> bool \<Rightarrow> net_packet result" where
  "append_token p SecurityToken Sixup =
     (if Sixup then Inr p
      else if SecurityToken \<noteq> NET_SECURITY_TOKEN_UNSUPPORTED then
        (case mem_write (pk_ChunkData p) (pk_DataSize p) (WriteSecurityToken SecurityToken) of
           Inl e \<Rightarrow> Inl e
         | Inr d \<Rightarrow> Inr (p\<lparr>pk_ChunkData := d, pk_DataSize := pk_DataSize p + 4\<rparr>))
      else Inr p)"

text \<open>The compressed data, when compressing was enabled, successful and good enough.\<close>

definition try_compress :: "huffman \<Rightarrow> net_packet \<Rightarrow> nat \<Rightarrow> bytes option" where
  "try_compress h p HeaderSize =
     (if pk_Flags p AND NET_PACKETFLAG_CONTROL = 0 then
        (case huffman_Compress h (pk_data p) (NET_MAX_PACKETSIZE - HeaderSize) of
           Inl e \<Rightarrow> None
         | Inr out \<Rightarrow> if length out > 0 \<and> length out < pk_DataSize p then Some out else None)
      else None)"

definition packet_header :: "net_packet \<Rightarrow> bytes" where
  "packet_header p =
     [of_int ((push_bit 2 (pk_Flags p) AND 0xfc) OR (drop_bit 8 (int (pk_Ack p)) AND 3)),
      of_int (int (pk_Ack p) AND 0xff), of_nat (pk_NumChunks p)]"

text \<open>The packet on the wire, and the packet construct as \<open>SendPacket\<close> leaves it.\<close>

definition SendPacket :: "huffman \<Rightarrow> net_packet \<Rightarrow> token \<Rightarrow> bool \<Rightarrow> (bytes \<times> net_packet) result" where
  "SendPacket h p SecurityToken Sixup =
     (if \<not> IsValidConnectionOrientedPacket p then Inl AssertFailed
      else if pk_Flags p AND NET_PACKETFLAG_COMPRESSION \<noteq> 0 then Inl AssertFailed
      else
        let HeaderSize = (if Sixup then NET_PACKETHEADERSIZE + 4 else NET_PACKETHEADERSIZE) in
        case append_token p SecurityToken Sixup of Inl e \<Rightarrow> Inl e
        | Inr p1 \<Rightarrow>
            let (payload, p2) =
              (case try_compress h p1 HeaderSize of
                 Some out \<Rightarrow> (out, p1\<lparr>pk_Flags := pk_Flags p1 OR NET_PACKETFLAG_COMPRESSION\<rparr>)
               | None \<Rightarrow> (pk_data p1, p1));
                p3 = (if Sixup then p2\<lparr>pk_Flags := PacketFlags_SixToSeven (pk_Flags p2)\<rparr> else p2)
            in if HeaderSize + length payload > NET_MAX_PACKETSIZE then Inl OutOfBounds
               else Inr (packet_header p3 @ (if Sixup then WriteSecurityToken SecurityToken else []) @ payload, p3))"

definition SendControlMsg :: "huffman \<Rightarrow> nat \<Rightarrow> byte \<Rightarrow> bytes \<Rightarrow> token \<Rightarrow> bool \<Rightarrow> bytes result" where
  "SendControlMsg h Ack ControlMsg extra SecurityToken Sixup =
     (case mem_write (pk_ChunkData zero_packet) 0 (ControlMsg # extra) of Inl e \<Rightarrow> Inl e
      | Inr d \<Rightarrow>
          map_sum id fst
            (SendPacket h (zero_packet\<lparr>pk_Flags := NET_PACKETFLAG_CONTROL, pk_Ack := Ack, pk_NumChunks := 0,
                             pk_DataSize := 1 + length extra, pk_ChunkData := d\<rparr>) SecurityToken Sixup))"

definition SendControlMsgWithToken7 :: "huffman \<Rightarrow> token \<Rightarrow> nat \<Rightarrow> byte \<Rightarrow> token \<Rightarrow> bool \<Rightarrow> bytes result" where
  "SendControlMsgWithToken7 h Token Ack ControlMsg MyToken Extended =
     (let aRequestTokenBuf = [ucast (drop_bit 24 MyToken), ucast (drop_bit 16 MyToken),
                              ucast (drop_bit 8 MyToken), ucast MyToken] @ replicate (NET_TOKENREQUEST_DATASIZE - 4) 0;
          Size = (if Extended then NET_TOKENREQUEST_DATASIZE else 4)
      in SendControlMsg h Ack ControlMsg (take Size aRequestTokenBuf) Token True)"

subsection \<open>Receiving\<close>

definition UnpackPacketFlags :: "bytes \<Rightarrow> int option" where
  "UnpackPacketFlags pBuffer =
     (if length pBuffer < NET_PACKETHEADERSIZE \<or> length pBuffer > NET_MAX_PACKETSIZE then None
      else Some (drop_bit 2 (uint (pBuffer ! 0))))"

record unpacked =
  u_Packet :: net_packet
  u_Sixup :: bool
  u_SecurityToken :: "token option"
  u_ResponseToken :: "token option"

text \<open>A packet without connection: \<open>HasTok\<close> and \<open>HasResp\<close> say whether the caller wants the tokens.\<close>

definition unpack_connless :: "bytes \<Rightarrow> net_packet \<Rightarrow> bool \<Rightarrow> bool \<Rightarrow> unpacked result" where
  "unpack_connless pBuffer p HasTok HasResp =
     (let Sixup = (uint (pBuffer ! 0) AND 3 = 1);
          Offset = (if Sixup then 9 else 6) in
      if Sixup \<and> (\<not> HasTok \<or> \<not> HasResp) then Inl (ErrCode (-1))
      else if length pBuffer < Offset then Inl (ErrCode (-1))
      else
        case mem_write (pk_ChunkData p) 0 (drop Offset pBuffer) of Inl e \<Rightarrow> Inl AssertFailed
        | Inr d \<Rightarrow>
            let p1 = p\<lparr>pk_Flags := NET_PACKETFLAG_CONNLESS, pk_Ack := 0, pk_NumChunks := 0,
                       pk_DataSize := length pBuffer - Offset, pk_ChunkData := d\<rparr>;
                p2 = (if \<not> Sixup \<and> take (length NET_HEADER_EXTENDED) pBuffer = NET_HEADER_EXTENDED
                      then p1\<lparr>pk_Flags := pk_Flags p1 OR NET_PACKETFLAG_EXTENDED,
                              pk_ExtraData := take NET_CONNLESS_EXTRA_SIZE (drop (length NET_HEADER_EXTENDED) pBuffer)\<rparr>
                      else p1)
            in Inr \<lparr>u_Packet = p2, u_Sixup = Sixup,
                    u_SecurityToken = (if Sixup then Some (ToSecurityToken (drop 1 pBuffer)) else None),
                    u_ResponseToken = (if Sixup then Some (ToSecurityToken (drop 5 pBuffer))
                                       else if HasResp then Some NET_SECURITY_TOKEN_UNKNOWN else None)\<rparr>)"

text \<open>The chunk data of a packet of a connection; the first component says whether decompression was
  attempted.\<close>

definition unpack_data :: "huffman \<Rightarrow> bool \<Rightarrow> bytes \<Rightarrow> net_packet \<Rightarrow> bool \<times> net_packet result" where
  "unpack_data h AllowDecompression payload p =
     (if pk_Flags p AND NET_PACKETFLAG_COMPRESSION \<noteq> 0 then
        (if \<not> AllowDecompression then (False, Inl (ErrCode (-1)))
         else (True,
           case huffman_Decompress h payload (length (pk_ChunkData p)) of Inl e \<Rightarrow> Inl (ErrCode (-1))
           | Inr out \<Rightarrow>
               (case mem_write (pk_ChunkData p) 0 out of Inl e \<Rightarrow> Inl e
                | Inr d \<Rightarrow> Inr (p\<lparr>pk_ChunkData := d, pk_DataSize := length out\<rparr>))))
      else (False,
        case mem_write (pk_ChunkData p) 0 payload of Inl e \<Rightarrow> Inl AssertFailed
        | Inr d \<Rightarrow> Inr (p\<lparr>pk_ChunkData := d, pk_DataSize := length payload\<rparr>)))"

definition response_token :: "net_packet \<Rightarrow> bool \<Rightarrow> bool \<Rightarrow> token option result" where
  "response_token p Sixup HasResp =
     (if pk_Flags p AND NET_PACKETFLAG_CONTROL \<noteq> 0 \<and> pk_DataSize p \<ge> 1 + 4 \<and>
         (pk_ChunkData p ! 0 = NET_CTRLMSG_CONNECT \<or> (Sixup \<and> pk_ChunkData p ! 0 = NET_CTRLMSG_TOKEN))
      then (if HasResp then Inr (Some (ToSecurityToken (drop 1 (pk_ChunkData p)))) else Inl OutOfBounds)
      else Inr (if HasResp then Some NET_SECURITY_TOKEN_UNKNOWN else None))"

definition unpack_connected ::
  "huffman \<Rightarrow> bytes \<Rightarrow> int \<Rightarrow> net_packet \<Rightarrow> bool \<Rightarrow> bool \<Rightarrow> bool \<Rightarrow> bool \<Rightarrow> bool \<times> unpacked result" where
  "unpack_connected h pBuffer Flags p Sixup0 AllowDecompression HasTok HasResp =
     (let Sixup = (Flags AND NET_PACKETFLAG_UNUSED \<noteq> 0 \<or> Sixup0);
          DataStart = (if Sixup then 7 else NET_PACKETHEADERSIZE) in
      if Sixup \<and> \<not> HasTok then (False, Inl (ErrCode (-1)))
      else if length pBuffer < DataStart then (False, Inl (ErrCode (-1)))
      else
        let p1 = p\<lparr>pk_Flags := (if Sixup then PacketFlags_SevenToSix Flags else Flags),
                   pk_Ack := nat (push_bit 8 (uint (pBuffer ! 0) AND 3) OR uint (pBuffer ! 1)),
                   pk_NumChunks := unat (pBuffer ! 2), pk_DataSize := length pBuffer - DataStart\<rparr> in
        if \<not> IsValidConnectionOrientedPacket p1 then (False, Inl (ErrCode (-1)))
        else
          let (dec, r) = unpack_data h AllowDecompression (drop DataStart pBuffer) p1 in
          (dec, case r of Inl e \<Rightarrow> Inl e
                | Inr p2 \<Rightarrow>
                    (case response_token p2 Sixup HasResp of Inl e \<Rightarrow> Inl e
                     | Inr resp \<Rightarrow> Inr \<lparr>u_Packet = p2, u_Sixup = Sixup,
                         u_SecurityToken = (if Sixup then Some (ToSecurityToken (drop 3 pBuffer)) else None),
                         u_ResponseToken = resp\<rparr>)))"

text \<open>\<open>*pDecompressed\<close>, and the error or what is unpacked.\<close>

definition UnpackPacket ::
  "huffman \<Rightarrow> bytes \<Rightarrow> net_packet \<Rightarrow> bool \<Rightarrow> bool \<Rightarrow> bool \<Rightarrow> bool \<Rightarrow> bool \<times> unpacked result" where
  "UnpackPacket h pBuffer p Sixup AllowDecompression HasTok HasResp =
     (case UnpackPacketFlags pBuffer of None \<Rightarrow> (False, Inl (ErrCode (-1)))
      | Some Flags \<Rightarrow>
          if Flags AND NET_PACKETFLAG_CONNLESS \<noteq> 0
          then (False, unpack_connless pBuffer p HasTok HasResp)
          else unpack_connected h pBuffer Flags p Sixup AllowDecompression HasTok HasResp)"

subsection \<open>Chunk headers survive the wire\<close>

lemma masks: "(63 :: int) = mask 6" "(255 :: int) = mask 8" "(3 :: int) = mask 2" "2 ^ n - 1 = (mask n :: int)"
  by (simp_all add: mask_eq_exp_minus_1)

lemma bit_small: "0 \<le> (i :: int) \<Longrightarrow> i < 2 ^ n \<Longrightarrow> bit i k \<Longrightarrow> k < n"
  by (metis bit_take_bit_iff take_bit_int_eq_self)

lemma byte_bit: "bit (of_int i :: byte) k \<longleftrightarrow> k < 8 \<and> bit i k"
  by (simp add: bit_simps)

definition wf_header :: "nat \<Rightarrow> chunk_header \<Rightarrow> bool" where
  "wf_header Split h \<longleftrightarrow> 0 \<le> ch_Flags h \<and> ch_Flags h < 4 \<and> 0 \<le> ch_Size h \<and> ch_Size h < 2 ^ (Split + 6) \<and>
     (if ch_Flags h AND NET_CHUNKFLAG_VITAL \<noteq> 0 then 0 \<le> ch_Sequence h \<and> ch_Sequence h < NET_MAX_SEQUENCE
      else ch_Sequence h = - 1)"

lemma header_size_bits:
  assumes "0 \<le> s" "s < 2 ^ (Split + 6)" "Split \<le> 8"
    and "\<And>k. bit (b0 :: byte) k \<Longrightarrow> k < 6 \<Longrightarrow> bit s (k + Split)" "\<And>k. k < 6 \<Longrightarrow> bit s (k + Split) \<Longrightarrow> bit b0 k"
    and "\<And>k. k < Split \<Longrightarrow> bit (b1 :: byte) k \<longleftrightarrow> bit s k"
  shows "push_bit Split (uint b0 AND 0x3f) OR (uint b1 AND (2 ^ Split - 1)) = s"
proof (rule bit_eqI)
  fix k
  have "k < Split + 6" if "bit s k" using bit_small [OF assms(1,2) that] .
  then show "bit (push_bit Split (uint b0 AND 0x3f) OR (uint b1 AND (2 ^ Split - 1))) k = bit s k"
    using assms(4) [of "k - Split"] assms(5) [of "k - Split"] assms(6) [of k]
    by (cases "k < Split") (auto simp: masks bit_simps)
qed

lemma chunk_Unpack_Pack:
  assumes "wf_header Split h" "chunk_Pack h Split = Inr bs" "2 \<le> Split" "Split \<le> 6"
  shows "chunk_Unpack (bs @ r) Split = (h, length bs)"
proof -
  let ?f = "ch_Flags h" and ?s = "ch_Size h" and ?q = "ch_Sequence h"
  have f: "0 \<le> ?f" "?f < 2 ^ 2" and s: "0 \<le> ?s" "?s < 2 ^ (Split + 6)"
    using assms(1) by (auto simp: wf_header_def)
  define b0 :: byte where "b0 = of_int (push_bit 6 (?f AND 3) OR (drop_bit Split ?s AND 0x3f))"
  define b1 :: byte where "b1 = of_int (?s AND (2 ^ Split - 1))"
  define b1' :: byte where "b1' = b1 OR of_int (drop_bit 2 ?q AND NOT (2 ^ Split - 1))"
  define b2 :: byte where "b2 = of_int (?q AND 0xff)"
  have F: "drop_bit 6 (uint b0) AND 3 = ?f"
  proof (rule bit_eqI)
    fix k
    show "bit (drop_bit 6 (uint b0) AND 3) k = bit ?f k"
      using bit_small [OF f, of k] by (auto simp: b0_def masks bit_simps)
  qed
  have S: "push_bit Split (uint b0 AND 0x3f) OR (uint b1 AND (2 ^ Split - 1)) = ?s"
    by (rule header_size_bits [OF s]) (use assms(4) in \<open>auto simp: b0_def b1_def masks bit_simps add.commute\<close>)
  have S': "push_bit Split (uint b0 AND 0x3f) OR (uint b1' AND (2 ^ Split - 1)) = ?s"
    by (rule header_size_bits [OF s]) (use assms(4) in \<open>auto simp: b0_def b1_def b1'_def masks bit_simps add.commute\<close>)
  show ?thesis
  proof (cases "?f AND NET_CHUNKFLAG_VITAL = 0")
    case True
    with assms(1) have "?q = - 1" by (simp add: wf_header_def)
    moreover have "bs = [b0, b1]" using assms(2) s True by (simp add: chunk_Pack_def Let_def b0_def b1_def)
    ultimately show ?thesis using F S True by (simp add: chunk_Unpack_def Let_def)
  next
    case False
    with assms(1) have q: "0 \<le> ?q" "?q < 2 ^ 10" by (auto simp: wf_header_def NET_MAX_SEQUENCE_def)
    have b: "bs = [b0, b1', b2]"
      using assms(2) s False by (simp add: chunk_Pack_def Let_def b0_def b1_def b1'_def b2_def)
    have Q: "push_bit 2 (uint b1' AND NOT (2 ^ Split - 1)) OR uint b2 = ?q"
    proof (rule bit_eqI)
      fix k
      have *: "k < 10" if "bit ?q k" using bit_small [OF q that] .
      show "bit (push_bit 2 (uint b1' AND NOT (2 ^ Split - 1)) OR uint b2) k = bit ?q k"
      proof (cases "k < 8")
        case True
        have "Suc (Suc (k - 2)) = k" if "2 \<le> k" using that by simp
        with True show ?thesis by (auto simp: b1_def b1'_def b2_def masks bit_simps)
      next
        case False
        then obtain j where "k = j + 2" "6 \<le> j"
          by (atomize_elim, intro exI [of _ "k - 2"]) linarith
        then show ?thesis using * assms(3,4) by (auto simp: b1_def b1'_def b2_def masks bit_simps)
      qed
    qed
    show ?thesis using F S' Q False b by (simp add: chunk_Unpack_def Let_def)
  qed
qed

subsection \<open>Chunks as a stream\<close>

text \<open>A chunk: its header (with sequence number \<open>-1\<close> when it is not vital) and its data.\<close>

definition ok_chunk :: "nat \<Rightarrow> chunk_header \<times> bytes \<Rightarrow> bool" where
  "ok_chunk Split x \<longleftrightarrow> wf_header Split (fst x) \<and> ch_Size (fst x) = int (length (snd x))"

definition enc_chunk :: "nat \<Rightarrow> chunk_header \<times> bytes \<Rightarrow> bytes" where
  "enc_chunk Split x = (case chunk_Pack (fst x) Split of Inl e \<Rightarrow> [] | Inr hdr \<Rightarrow> hdr @ snd x)"

definition dec_chunk :: "nat \<Rightarrow> bytes \<Rightarrow> ((chunk_header \<times> bytes) \<times> bytes) option" where
  "dec_chunk Split bs =
     (let (h, n) = chunk_Unpack bs Split in
      if length bs < n + nat (ch_Size h) then None
      else Some ((h, take (nat (ch_Size h)) (drop n bs)), drop (n + nat (ch_Size h)) bs))"

lemma chunk_Pack_ok: "wf_header Split h \<Longrightarrow> \<exists>hdr. chunk_Pack h Split = Inr hdr \<and> 2 \<le> length hdr \<and> length hdr \<le> 3"
  by (auto simp: chunk_Pack_def wf_header_def Let_def)

lemma dec_enc_chunk:
  assumes "ok_chunk Split x" "2 \<le> Split" "Split \<le> 6"
  shows "dec_chunk Split (enc_chunk Split x @ r) = Some (x, r)"
proof -
  obtain h d where x: "x = (h, d)" by (cases x)
  with assms(1) have w: "wf_header Split h" "ch_Size h = int (length d)" by (simp_all add: ok_chunk_def)
  obtain hdr where p: "chunk_Pack h Split = Inr hdr" using chunk_Pack_ok [OF w(1)] by blast
  from chunk_Unpack_Pack [OF w(1) p assms(2,3), of "d @ r"] show ?thesis
    by (simp add: dec_chunk_def enc_chunk_def x p w(2))
qed

interpretation chunks4: stream_codec "ok_chunk 4" "enc_chunk 4" "dec_chunk 4"
  by unfold_locales (simp add: dec_enc_chunk)

interpretation chunks6: stream_codec "ok_chunk 6" "enc_chunk 6" "dec_chunk 6"
  by unfold_locales (simp add: dec_enc_chunk)

subsection \<open>Packet headers\<close>

lemma token_roundtrip: "ToSecurityToken (WriteSecurityToken t @ r) = t"
proof (rule bit_word_eqI)
  fix k assume "k < LENGTH(32)"
  then have "k < 32" by simp
  then have "k < 8 \<or> (\<exists>j < 8. k = 8 + j) \<or> (\<exists>j < 8. k = 16 + j) \<or> (\<exists>j < 8. k = 24 + j)"
    by presburger
  then show "bit (ToSecurityToken (WriteSecurityToken t @ r)) k = bit t k"
    by (elim disjE exE conjE) (auto simp: ToSecurityToken_def WriteSecurityToken_def bytes_be_to_uint_def uint_to_bytes_be_def bit_simps
        dest: bit_imp_le_length)
qed

lemma WriteSecurityToken_length [simp]: "length (WriteSecurityToken t) = 4"
  by (simp add: WriteSecurityToken_def uint_to_bytes_be_def)

lemma mem_write_ok: "off + length src \<le> length buf \<Longrightarrow>
    mem_write buf off src = Inr (take off buf @ src @ drop (off + length src) buf)"
  by (simp add: mem_write_def)

lemma header_flags:
  assumes "0 \<le> f" "f < 64"
  shows "drop_bit 2 (uint (of_int ((push_bit 2 f AND 0xfc) OR (drop_bit 8 a AND 3)) :: byte)) = f"
proof (rule bit_eqI)
  fix k
  have m: "bit (0xfc :: int) (k + 2) \<longleftrightarrow> k < 6"
  proof -
    have "(0xfc :: int) = push_bit 2 (mask 6)" by (simp add: mask_eq_exp_minus_1 push_bit_eq_mult)
    then show ?thesis by (simp only: bit_push_bit_iff_int bit_mask_iff) simp
  qed
  have "bit f k \<Longrightarrow> k < 6" using bit_small [of f 6 k] assms by simp
  then show "bit (drop_bit 2 (uint (of_int ((push_bit 2 f AND 0xfc) OR (drop_bit 8 a AND 3)) :: byte))) k = bit f k"
    using m by (auto simp: masks bit_simps add.commute)
qed

lemma header_ack:
  assumes "0 \<le> a" "a < 1024"
  shows "push_bit 8 (uint (of_int ((push_bit 2 f AND 0xfc) OR (drop_bit 8 a AND 3)) :: byte) AND 3) OR
    uint (of_int (a AND 0xff) :: byte) = a"
proof (rule bit_eqI)
  fix k
  have m: "\<not> bit (0xfc :: int) j" if "j < 2" for j
  proof -
    have "(0xfc :: int) = push_bit 2 (mask 6)" by (simp add: mask_eq_exp_minus_1 push_bit_eq_mult)
    with that show ?thesis by (simp only: bit_push_bit_iff_int bit_mask_iff) simp
  qed
  have "bit a k \<Longrightarrow> k < 10" using bit_small [of a 10 k] assms by simp
  then show "bit (push_bit 8 (uint (of_int ((push_bit 2 f AND 0xfc) OR (drop_bit 8 a AND 3)) :: byte) AND 3) OR
      uint (of_int (a AND 0xff) :: byte)) k = bit a k"
    using m [of "k - 8"] by (cases "k < 8") (auto simp: masks bit_simps)
qed

lemma list_flags:
  "list_all (\<lambda>f. f AND NOT (NET_PACKETFLAG_CONTROL OR NET_PACKETFLAG_RESEND OR NET_PACKETFLAG_COMPRESSION) = 0
     \<longrightarrow> f \<in> {0, 4, 16, 20, 32, 36, 48, 52}) [0..52]"
  by code_simp

lemma valid_flags:
  assumes "IsValidConnectionOrientedPacket p"
  shows "pk_Flags p \<in> {0, 4, 16, 20, 32, 48}"
proof -
  let ?f = "pk_Flags p" and ?m = "NET_PACKETFLAG_CONTROL OR NET_PACKETFLAG_RESEND OR NET_PACKETFLAG_COMPRESSION"
  have z: "?f AND NOT ?m = 0" using assms by (auto simp: IsValidConnectionOrientedPacket_def split: if_splits)
  have m: "?m = 52" by (simp add: packet_flags)
  have "?f = (?f AND 52) OR (?f AND NOT 52)" by (simp flip: bit.conj_disj_distrib)
  then have f: "?f = ?f AND 52" using z unfolding m by simp
  have "0 \<le> ?f AND 52" "?f AND 52 \<le> 52" by (simp_all add: AND_upper2)
  then have "?f \<in> set [0..52]" using f by simp
  then have "?f \<in> {0, 4, 16, 20, 32, 36, 48, 52}" using list_flags z by (auto simp: list_all_iff)
  moreover have "?f \<noteq> 36" "?f \<noteq> 52"
    using assms by (auto simp: IsValidConnectionOrientedPacket_def packet_flags split: if_splits)
  ultimately show ?thesis by auto
qed

subsection \<open>From \<open>SendPacket\<close> to \<open>UnpackPacket\<close>\<close>

definition wf_packet :: "net_packet \<Rightarrow> bool" where
  "wf_packet p \<longleftrightarrow> length (pk_ChunkData p) = NET_MAX_PACKETSIZE - NET_PACKETHEADERSIZE \<and>
     length (pk_ExtraData p) = NET_CONNLESS_EXTRA_SIZE \<and>
     pk_DataSize p \<le> NET_MAX_PACKETSIZE - NET_PACKETHEADERSIZE \<and>
     pk_Ack p < 1024 \<and> pk_NumChunks p \<le> NET_MAX_PACKET_CHUNKS"

lemma length_pk_data: "wf_packet p \<Longrightarrow> length (pk_data p) = pk_DataSize p"
  by (simp add: wf_packet_def pk_data_def)

text \<open>What the token adds to the chunk data.\<close>

definition token_tail :: "token \<Rightarrow> bool \<Rightarrow> bytes" where
  "token_tail t Sixup = (if Sixup \<or> t = NET_SECURITY_TOKEN_UNSUPPORTED then [] else WriteSecurityToken t)"

lemma append_token_ok:
  assumes "wf_packet p" "pk_DataSize p + 4 \<le> NET_MAX_PACKETSIZE - NET_PACKETHEADERSIZE"
  shows "\<exists>p1. append_token p t Sixup = Inr p1 \<and> wf_packet p1 \<and> pk_data p1 = pk_data p @ token_tail t Sixup \<and>
    pk_Flags p1 = pk_Flags p \<and> pk_Ack p1 = pk_Ack p \<and> pk_NumChunks p1 = pk_NumChunks p \<and>
    pk_DataSize p1 = pk_DataSize p + length (token_tail t Sixup)"
proof -
  have "mem_write (pk_ChunkData p) (pk_DataSize p) (WriteSecurityToken t) =
      Inr (take (pk_DataSize p) (pk_ChunkData p) @ WriteSecurityToken t @ drop (pk_DataSize p + 4) (pk_ChunkData p))"
    using assms by (subst mem_write_ok) (auto simp: wf_packet_def)
  with assms show ?thesis
    by (auto simp: append_token_def token_tail_def wf_packet_def pk_data_def)
qed

text \<open>The flags after compression and, for 0.7, their translation.\<close>

lemma sent_flags:
  assumes "f \<in> {0, 4, 16, 20, 32, 48}"
  shows "PacketFlags_SevenToSix (PacketFlags_SixToSeven f) = f" "0 \<le> PacketFlags_SixToSeven f"
    "PacketFlags_SixToSeven f < 8" "f AND NET_PACKETFLAG_CONNLESS = 0" "f AND NET_PACKETFLAG_UNUSED = 0"
    "PacketFlags_SixToSeven f AND NET_PACKETFLAG_CONNLESS = 0" "0 \<le> f" "f < 64"
  using assms by (auto simp: PacketFlags_SevenToSix_def PacketFlags_SixToSeven_def packet_flags)

definition wire_flags :: "bool \<Rightarrow> int \<Rightarrow> int" where
  "wire_flags Sixup f = (if Sixup then PacketFlags_SixToSeven f else f)"

lemma wire_flags_facts:
  assumes "f \<in> {0, 4, 16, 20, 32, 48}"
  shows "0 \<le> wire_flags Sixup f" "wire_flags Sixup f < 64" "wire_flags Sixup f AND NET_PACKETFLAG_CONNLESS = 0"
    "(if wire_flags Sixup f AND NET_PACKETFLAG_UNUSED \<noteq> 0 \<or> Sixup then PacketFlags_SevenToSix (wire_flags Sixup f)
      else wire_flags Sixup f) = f"
    "(wire_flags Sixup f AND NET_PACKETFLAG_UNUSED \<noteq> 0 \<or> Sixup) = Sixup"
  using sent_flags [OF assms] by (auto simp: wire_flags_def)

lemma unpack_wire:
  assumes f: "f \<in> {0, 4, 16, 20, 32, 48}" and p: "pk_Flags p3 = wire_flags Sixup f" "pk_Ack p3 < 1024" "pk_NumChunks p3 \<le> 255"
    and tk: "length tk = (if Sixup then 4 else 0)" and len: "length tk + length payload + 3 \<le> NET_MAX_PACKETSIZE"
    and v: "IsValidConnectionOrientedPacket (q\<lparr>pk_Flags := f, pk_Ack := pk_Ack p3, pk_NumChunks := pk_NumChunks p3,
      pk_DataSize := length payload\<rparr>)"
    and u: "unpack_data h True payload (q\<lparr>pk_Flags := f, pk_Ack := pk_Ack p3, pk_NumChunks := pk_NumChunks p3,
      pk_DataSize := length payload\<rparr>) = (d, Inr p2)"
  shows "\<exists>resp. UnpackPacket h (packet_header p3 @ tk @ payload) q Sixup True True True = (d, Inr
    \<lparr>u_Packet = p2, u_Sixup = Sixup, u_SecurityToken = (if Sixup then Some (ToSecurityToken (tk @ payload)) else None),
     u_ResponseToken = resp\<rparr>)"
proof -
  let ?w = "wire_flags Sixup f"
  note wf = wire_flags_facts [OF f, of Sixup]
  obtain h0 h1 h2 where hd: "packet_header p3 = [h0, h1, h2]"
    and b: "h0 = of_int ((push_bit 2 ?w AND 0xfc) OR (drop_bit 8 (int (pk_Ack p3)) AND 3))"
      "h1 = of_int (int (pk_Ack p3) AND 0xff)" "h2 = of_nat (pk_NumChunks p3)"
    by (simp add: packet_header_def p(1))
  have flags: "drop_bit 2 (uint h0) = ?w" unfolding b using wf(1,2) by (rule header_flags)
  have ack: "nat (push_bit 8 (uint h0 AND 3) OR uint h1) = pk_Ack p3"
    unfolding b using header_ack [of "int (pk_Ack p3)" ?w] p(2) by simp
  have chunks: "unat h2 = pk_NumChunks p3"
    unfolding b using p(3) by (simp add: unat_of_nat)
  let ?buf = "packet_header p3 @ tk @ payload"
  have nth: "?buf ! 0 = h0" "?buf ! 1 = h1" "?buf ! 2 = h2" by (simp_all add: hd)
  have l: "length ?buf \<le> NET_MAX_PACKETSIZE" "3 \<le> length ?buf" using len by (simp_all add: hd)
  let ?start = "if Sixup then 7 else NET_PACKETHEADERSIZE"
  have dr: "drop ?start ?buf = payload" "length ?buf - ?start = length payload" "\<not> length ?buf < ?start"
    using tk by (auto simp: hd NET_PACKETHEADERSIZE_def)
  have tok: "drop 3 ?buf = tk @ payload" by (simp add: hd)
  obtain resp where resp: "response_token p2 Sixup True = Inr resp"
    by (cases "response_token p2 Sixup True") (auto simp: response_token_def split: if_splits)
  have uf: "UnpackPacketFlags ?buf = Some ?w"
    using l by (simp add: UnpackPacketFlags_def NET_PACKETHEADERSIZE_def nth(1) flags)
  have sel: "(if Sixup then PacketFlags_SevenToSix ?w else ?w) = f"
    using wf(4) unfolding wf(5) .
  have "unpack_connected h ?buf ?w q Sixup True True True = (d, Inr
    \<lparr>u_Packet = p2, u_Sixup = Sixup, u_SecurityToken = (if Sixup then Some (ToSecurityToken (tk @ payload)) else None),
     u_ResponseToken = resp\<rparr>)"
    unfolding unpack_connected_def Let_def wf(5) dr tok nth ack chunks sel
    using v u resp dr(3) by simp
  then show ?thesis unfolding UnpackPacket_def uf using wf(3) by simp
qed

lemma valid_unfold:
  assumes "pk_Flags p \<in> {0, 4, 16, 20, 32, 48}"
  shows "IsValidConnectionOrientedPacket p \<longleftrightarrow>
    (if pk_Flags p \<in> {4, 20} then pk_NumChunks p = 0 \<and> 0 < pk_DataSize p
     else (if pk_Flags p \<in> {16, 48} then 0 else 1) \<le> pk_NumChunks p \<and> pk_NumChunks p \<le> NET_MAX_PACKET_CHUNKS)"
  using assms by (auto simp: IsValidConnectionOrientedPacket_def packet_flags)

lemma compression_flag:
  assumes "f \<in> {0, 4, 16, 20, 32, 48}"
  shows "f AND NET_PACKETFLAG_COMPRESSION = 0 \<longleftrightarrow> f \<in> {0, 4, 16, 20}"
    "f AND NET_PACKETFLAG_CONTROL = 0 \<longleftrightarrow> f \<notin> {4, 20}"
  using assms by (auto simp: packet_flags)

lemma unpack_data_plain:
  assumes "pk_Flags q AND NET_PACKETFLAG_COMPRESSION = 0" "length payload \<le> length (pk_ChunkData q)"
  shows "unpack_data h True payload q = (False, Inr (q\<lparr>pk_ChunkData := payload @ drop (length payload) (pk_ChunkData q),
    pk_DataSize := length payload\<rparr>))"
  using assms by (simp add: unpack_data_def mem_write_ok)

lemma unpack_data_compressed:
  assumes "pk_Flags q AND NET_PACKETFLAG_COMPRESSION \<noteq> 0" "length payload \<le> length (pk_ChunkData q)"
    "huffman_Decompress h out (length (pk_ChunkData q)) = Inr payload"
  shows "unpack_data h True out q = (True, Inr (q\<lparr>pk_ChunkData := payload @ drop (length payload) (pk_ChunkData q),
    pk_DataSize := length payload\<rparr>))"
  using assms by (simp add: unpack_data_def mem_write_ok)

lemma huffman_Compress_length:
  assumes "huffman_tree h t" "huffman_Compress h bs n = Inr out"
  shows "length out \<le> n"
proof -
  have n: "0 < n" using assms(2) by (auto simp: huffman_Compress_def split: if_splits)
  from huffman_Compress_spec [OF assms(1) n, of bs] assms(2) show ?thesis by (auto split: if_splits)
qed

text \<open>The payload, the flags and the decompression of a sent packet.\<close>

lemma SendPacket_payload:
  assumes "huffman_tree h ht" "wf_packet p" "IsValidConnectionOrientedPacket p"
    "pk_Flags p AND NET_PACKETFLAG_COMPRESSION = 0" "pk_DataSize p + 4 \<le> NET_MAX_PACKETSIZE - NET_PACKETHEADERSIZE"
  shows "\<exists>p3 payload f. f \<in> {0, 4, 16, 20, 32, 48} \<and> f \<in> {pk_Flags p, pk_Flags p OR NET_PACKETFLAG_COMPRESSION} \<and>
    SendPacket h p t Sixup = Inr (packet_header p3 @ (if Sixup then WriteSecurityToken t else []) @ payload, p3) \<and>
    pk_Flags p3 = wire_flags Sixup f \<and> pk_Ack p3 = pk_Ack p \<and> pk_NumChunks p3 = pk_NumChunks p \<and>
    (if Sixup then 4 else 0) + length payload + 3 \<le> NET_MAX_PACKETSIZE \<and>
    (f \<in> {4, 20} \<longrightarrow> 0 < length payload) \<and> (f \<in> {0, 16} \<longleftrightarrow> pk_Flags p = f \<and> f \<notin> {4, 20}) \<and>
    (if f \<in> {32, 48} then huffman_Decompress h payload 1397 = Inr (pk_data p @ token_tail t Sixup)
     else payload = pk_data p @ token_tail t Sixup)"
proof -
  let ?H = "if Sixup then NET_PACKETHEADERSIZE + 4 else NET_PACKETHEADERSIZE"
  obtain p1 where p1: "append_token p t Sixup = Inr p1" "wf_packet p1" "pk_data p1 = pk_data p @ token_tail t Sixup"
    "pk_Flags p1 = pk_Flags p" "pk_Ack p1 = pk_Ack p" "pk_NumChunks p1 = pk_NumChunks p"
    "pk_DataSize p1 = pk_DataSize p + length (token_tail t Sixup)"
    using append_token_ok [OF assms(2,5)] by blast
  have f0: "pk_Flags p \<in> {0, 4, 16, 20}"
    using valid_flags [OF assms(3)] compression_flag(1) assms(4) by blast
  have d1: "length (pk_data p1) = pk_DataSize p1" using p1(2) by (rule length_pk_data)
  have id1: "p1\<lparr>pk_Flags := pk_Flags p\<rparr> = p1" using p1(4) by (cases p1) simp
  have small: "pk_DataSize p1 \<le> 1397" using p1(2) by (simp add: wf_packet_def packet_consts)
  have room: "?H + pk_DataSize p1 \<le> NET_MAX_PACKETSIZE"
    using assms(5) p1(7) by (auto simp: packet_consts token_tail_def)
  show ?thesis
  proof (cases "try_compress h p1 ?H")
    case None
    have "SendPacket h p t Sixup = Inr (packet_header (p1\<lparr>pk_Flags := wire_flags Sixup (pk_Flags p)\<rparr>) @
        (if Sixup then WriteSecurityToken t else []) @ pk_data p1, p1\<lparr>pk_Flags := wire_flags Sixup (pk_Flags p)\<rparr>)"
      using assms(3,4) room by (simp add: SendPacket_def Let_def p1(1,4) None d1 wire_flags_def id1 cong: if_cong)
    moreover have "0 < length (pk_data p1) \<and> 0 < pk_DataSize p1" if "pk_Flags p \<in> {4, 20}"
      using valid_unfold [of p] that assms(3) f0 d1 p1(7) by auto
    ultimately show ?thesis
      using f0 room d1 p1(3,5,6)
      by (intro exI [of _ "p1\<lparr>pk_Flags := wire_flags Sixup (pk_Flags p)\<rparr>"] exI [of _ "pk_data p1"] exI [of _ "pk_Flags p"])
        (auto simp: packet_consts)
  next
    case (Some out)
    let ?f = "pk_Flags p OR NET_PACKETFLAG_COMPRESSION"
    from Some have c: "pk_Flags p AND NET_PACKETFLAG_CONTROL = 0"
      "huffman_Compress h (pk_data p1) (NET_MAX_PACKETSIZE - ?H) = Inr out"
      by (auto simp: try_compress_def p1(4) split: if_splits sum.splits)
    from c(1) f0 have f: "pk_Flags p = 0 \<and> ?f = 32 \<or> pk_Flags p = 16 \<and> ?f = 48"
      by (auto simp: packet_flags)
    have lo: "?H + length out \<le> NET_MAX_PACKETSIZE"
      using huffman_Compress_length [OF assms(1) c(2)] by (auto simp: packet_consts split: if_splits)
    have "SendPacket h p t Sixup = Inr (packet_header (p1\<lparr>pk_Flags := wire_flags Sixup ?f\<rparr>) @
        (if Sixup then WriteSecurityToken t else []) @ out, p1\<lparr>pk_Flags := wire_flags Sixup ?f\<rparr>)"
      using assms(3,4) lo by (simp add: SendPacket_def Let_def p1(1,4) Some wire_flags_def cong: if_cong)
    moreover have "huffman_Decompress h out 1397 = Inr (pk_data p1)"
      by (rule huffman_inverse [OF assms(1) c(2)]) (use small d1 in auto)
    ultimately show ?thesis
      using f lo p1(3,5,6)
      by (intro exI [of _ "p1\<lparr>pk_Flags := wire_flags Sixup ?f\<rparr>"] exI [of _ out] exI [of _ ?f])
        (auto simp: packet_consts)
  qed
qed

subsection \<open>The ack window\<close>

lemma backroom_distance:
  assumes "0 \<le> Seq" "Seq < NET_MAX_SEQUENCE" "0 \<le> Ack" "Ack < NET_MAX_SEQUENCE"
  shows "IsSeqInBackroom Seq Ack \<longleftrightarrow> (Ack - Seq) mod NET_MAX_SEQUENCE \<le> NET_MAX_SEQUENCE div 2"
proof -
  have "(Ack - Seq) mod NET_MAX_SEQUENCE = (if Seq \<le> Ack then Ack - Seq else Ack - Seq + NET_MAX_SEQUENCE)"
  proof (cases "Seq \<le> Ack")
    case False
    then have "(Ack - Seq) mod NET_MAX_SEQUENCE = (Ack - Seq + NET_MAX_SEQUENCE) mod NET_MAX_SEQUENCE" by simp
    also have "\<dots> = Ack - Seq + NET_MAX_SEQUENCE" using assms False by (intro mod_pos_pos_trivial) auto
    finally show ?thesis using False by simp
  qed (use assms in simp)
  with assms show ?thesis by (auto simp: IsSeqInBackroom_def Let_def NET_MAX_SEQUENCE_def)
qed

subsection \<open>Arbitrary input\<close>

lemma mem_write_length: "mem_write buf off src = Inr d \<Longrightarrow> length d = length buf"
  by (auto simp: mem_write_def split: if_splits)

lemma unpack_connless_safe:
  assumes "wf_packet q" "3 \<le> length bs" "length bs \<le> 1400"
  shows "case unpack_connless bs q HasTok HasResp of Inl e \<Rightarrow> e = ErrCode (-1)
    | Inr u \<Rightarrow> wf_packet (u_Packet u) \<and>
        pk_Flags (u_Packet u) \<in> {NET_PACKETFLAG_CONNLESS, NET_PACKETFLAG_CONNLESS OR NET_PACKETFLAG_EXTENDED}"
proof -
  have w: "mem_write (pk_ChunkData q) 0 (drop k bs) = Inr (drop k bs @ drop (length bs - k) (pk_ChunkData q))"
    if "6 \<le> k" "k \<le> length bs" for k
    using assms that by (subst mem_write_ok) (auto simp: wf_packet_def packet_consts)
  have "length NET_HEADER_EXTENDED = 2" by (simp add: NET_HEADER_EXTENDED_def lit_def)
  then show ?thesis
    using assms w [of 6] w [of 9]
    by (auto simp: unpack_connless_def Let_def wf_packet_def packet_consts)
qed

lemma unpack_data_safe:
  assumes "length (pk_ChunkData p) = 1397" "length payload \<le> 1397"
  shows "case snd (unpack_data h A payload p) of Inl e \<Rightarrow> e = ErrCode (-1)
    | Inr p2 \<Rightarrow> \<exists>d n. p2 = p\<lparr>pk_ChunkData := d, pk_DataSize := n\<rparr> \<and> length d = 1397 \<and> n \<le> 1397 \<and>
        (pk_Flags p AND NET_PACKETFLAG_COMPRESSION = 0 \<longrightarrow> n = length payload)"
proof (cases "pk_Flags p AND NET_PACKETFLAG_COMPRESSION = 0")
  case True
  then show ?thesis using assms by (auto simp: unpack_data_def mem_write_ok)
next
  case False
  show ?thesis
  proof (cases "huffman_Decompress h payload (length (pk_ChunkData p))")
    case (Inl e)
    with False show ?thesis by (simp add: unpack_data_def)
  next
    case (Inr out)
    with huffman_Decompress_length [OF this] False assms show ?thesis
      by (auto simp: unpack_data_def mem_write_ok
          intro!: exI [of _ "out @ drop (length out) (pk_ChunkData p)"] exI [of _ "length out"])
  qed
qed

lemma unpack_ack_bound: "nat (push_bit 8 (uint (a :: byte) AND 3) OR uint (b :: byte)) < 1024"
proof -
  have "push_bit 8 (uint a AND 3) OR uint b = uint b + push_bit 8 (uint a AND 3)"
    using push_bit_or [of "uint b" 8 "uint a AND 3"] uint_byte_bounds [of b] by simp
  moreover have a: "uint a AND 3 \<le> 3" by (simp add: and_mask_3)
  have b: "uint b \<le> 255" using uint_byte_bounds(2) [of b] by linarith
  have "push_bit 8 (uint a AND 3) = 256 * (uint a AND 3)" by (simp add: push_bit_mult)
  with a b have "uint b + push_bit 8 (uint a AND 3) < 1024" by linarith
  ultimately show ?thesis by simp
qed

lemma unpack_connected_safe:
  assumes "wf_packet q" "3 \<le> length bs" "length bs \<le> 1400"
  shows "case snd (unpack_connected h bs Flags q Sixup A True True) of Inl e \<Rightarrow> e = ErrCode (-1)
    | Inr u \<Rightarrow> wf_packet (u_Packet u) \<and> IsValidConnectionOrientedPacket (u_Packet u)"
proof -
  define S where "S = (Flags AND NET_PACKETFLAG_UNUSED \<noteq> 0 \<or> Sixup)"
  define k where "k = (if S then 7 else NET_PACKETHEADERSIZE)"
  define p1 where "p1 = q\<lparr>pk_Flags := (if S then PacketFlags_SevenToSix Flags else Flags),
    pk_Ack := nat (push_bit 8 (uint (bs ! 0) AND 3) OR uint (bs ! 1)), pk_NumChunks := unat (bs ! 2),
    pk_DataSize := length bs - k\<rparr>"
  have u: "unpack_connected h bs Flags q Sixup A True True =
    (if length bs < k \<or> \<not> IsValidConnectionOrientedPacket p1 then (False, Inl (ErrCode (-1)))
     else let (dec, r) = unpack_data h A (drop k bs) p1 in
       (dec, case r of Inl e \<Rightarrow> Inl e | Inr p2 \<Rightarrow>
         (case response_token p2 S True of Inl e \<Rightarrow> Inl e
          | Inr resp \<Rightarrow> Inr \<lparr>u_Packet = p2, u_Sixup = S,
              u_SecurityToken = (if S then Some (ToSecurityToken (drop 3 bs)) else None), u_ResponseToken = resp\<rparr>)))"
    unfolding unpack_connected_def Let_def S_def [symmetric] k_def [symmetric] p1_def [symmetric] by auto
  show ?thesis
  proof (cases "length bs < k \<or> \<not> IsValidConnectionOrientedPacket p1")
    case True
    then show ?thesis by (simp add: u)
  next
    case False
    have c: "length (pk_ChunkData p1) = 1397" "length (drop k bs) \<le> 1397"
      using assms by (auto simp: p1_def k_def wf_packet_def packet_consts)
    obtain dec r where d: "unpack_data h A (drop k bs) p1 = (dec, r)" by (cases "unpack_data h A (drop k bs) p1")
    show ?thesis
    proof (cases r)
      case (Inl e)
      with unpack_data_safe [OF c, of h A] d False show ?thesis by (simp add: u)
    next
      case (Inr p2)
      with unpack_data_safe [OF c, of h A] d obtain dt n where
        p2: "p2 = p1\<lparr>pk_ChunkData := dt, pk_DataSize := n\<rparr>" "length dt = 1397" "n \<le> 1397"
          "pk_Flags p1 AND NET_PACKETFLAG_COMPRESSION = 0 \<longrightarrow> n = length (drop k bs)" by auto
      have "wf_packet p2"
        using assms(1) p2(2,3) unat_byte [of "bs ! 2"] unpack_ack_bound [of "bs ! 0" "bs ! 1"]
        by (simp add: p2(1) p1_def wf_packet_def packet_consts)
      moreover have "IsValidConnectionOrientedPacket p2"
        using False p2(4) by (auto simp: p2(1) p1_def IsValidConnectionOrientedPacket_def Let_def split: if_splits)
      moreover obtain resp where "response_token p2 S True = Inr resp"
        by (cases "response_token p2 S True") (auto simp: response_token_def split: if_splits)
      ultimately show ?thesis using False d Inr by (simp add: u)
    qed
  qed
qed

lemma send_unpack:
  assumes "huffman_Init = Some h" "wf_packet p" "IsValidConnectionOrientedPacket p"
    "pk_Flags p AND NET_PACKETFLAG_COMPRESSION = 0"
    "pk_DataSize p + 4 \<le> NET_MAX_PACKETSIZE - NET_PACKETHEADERSIZE" "wf_packet q"
  shows "\<exists>bs p' d u. SendPacket h p t Sixup = Inr (bs, p') \<and> length bs \<le> NET_MAX_PACKETSIZE \<and>
    UnpackPacket h bs q Sixup True True True = (d, Inr u) \<and>
    pk_data (u_Packet u) = pk_data p @ (if Sixup \<or> t = NET_SECURITY_TOKEN_UNSUPPORTED then [] else WriteSecurityToken t) \<and>
    pk_Flags (u_Packet u) \<in> {pk_Flags p, pk_Flags p OR NET_PACKETFLAG_COMPRESSION} \<and>
    pk_Ack (u_Packet u) = pk_Ack p \<and> pk_NumChunks (u_Packet u) = pk_NumChunks p \<and>
    u_Sixup u = Sixup \<and> (Sixup \<longrightarrow> u_SecurityToken u = Some t)"
proof -
  obtain h' ht where i: "huffman_Init = Some h'" and ht': "huffman_tree h' ht" using huffman_Init_tree by blast
  have "h' = h" using trans [OF sym [OF i] assms(1)] by simp
  with ht' have ht: "huffman_tree h ht" by simp
  from SendPacket_payload [OF ht assms(2-5), of t Sixup] obtain p3 payload f where
    f: "f \<in> {0, 4, 16, 20, 32, 48}" "f \<in> {pk_Flags p, pk_Flags p OR NET_PACKETFLAG_COMPRESSION}"
    and send: "SendPacket h p t Sixup = Inr (packet_header p3 @ (if Sixup then WriteSecurityToken t else []) @ payload, p3)"
    and p3: "pk_Flags p3 = wire_flags Sixup f" "pk_Ack p3 = pk_Ack p" "pk_NumChunks p3 = pk_NumChunks p"
    and len: "(if Sixup then 4 else 0) + length payload + 3 \<le> NET_MAX_PACKETSIZE"
    and pos: "f \<in> {4, 20} \<longrightarrow> 0 < length payload" and keep: "f \<in> {0, 16} \<longleftrightarrow> pk_Flags p = f \<and> f \<notin> {4, 20}"
    and pay: "if f \<in> {32, 48} then huffman_Decompress h payload 1397 = Inr (pk_data p @ token_tail t Sixup)
      else payload = pk_data p @ token_tail t Sixup"
    by blast
  let ?tk = "if Sixup then WriteSecurityToken t else []" and ?data = "pk_data p @ token_tail t Sixup"
  let ?q = "q\<lparr>pk_Flags := f, pk_Ack := pk_Ack p3, pk_NumChunks := pk_NumChunks p3, pk_DataSize := length payload\<rparr>"
  let ?r = "?q\<lparr>pk_ChunkData := ?data @ drop (length ?data) (pk_ChunkData q), pk_DataSize := length ?data\<rparr>"
  have f0: "pk_Flags p \<in> {0, 4, 16, 20}"
    using valid_flags [OF assms(3)] compression_flag(1) assms(4) by blast
  have wq: "length (pk_ChunkData q) = 1397" using assms(6) by (simp add: wf_packet_def packet_consts)
  have ld: "length ?data \<le> 1397"
    using assms(5) length_pk_data [OF assms(2)] by (auto simp: token_tail_def packet_consts)
  have fp: "f = pk_Flags p \<or> f = 32 \<and> pk_Flags p = 0 \<or> f = 48 \<and> pk_Flags p = 16"
    using f f0 by (auto simp: packet_flags)
  have f6: "pk_Flags p \<in> {0, 4, 16, 20, 32, 48}" "pk_Flags ?q \<in> {0, 4, 16, 20, 32, 48}" using f0 f(1) by auto
  have v: "IsValidConnectionOrientedPacket ?q"
    unfolding valid_unfold [OF f6(2)]
    using assms(3) [unfolded valid_unfold [OF f6(1)]] fp f0 pos p3(3) by (elim disjE) auto
  have u: "unpack_data h True payload ?q = (f \<in> {32, 48}, Inr ?r)"
  proof (cases "f \<in> {32, 48}")
    case True
    then have "pk_Flags ?q AND NET_PACKETFLAG_COMPRESSION \<noteq> 0" by (auto simp: packet_flags)
    from unpack_data_compressed [OF this, of ?data h payload] pay True wq ld show ?thesis by simp
  next
    case False
    then have "pk_Flags ?q AND NET_PACKETFLAG_COMPRESSION = 0" using f(1) by (auto simp: packet_flags)
    from unpack_data_plain [OF this, of payload h] pay False wq ld show ?thesis by simp
  qed
  have c: "pk_Ack p3 < 1024" "pk_NumChunks p3 \<le> 255" "length ?tk = (if Sixup then 4 else 0)"
    "length ?tk + length payload + 3 \<le> NET_MAX_PACKETSIZE"
    using assms(2) p3 len by (auto simp: wf_packet_def packet_consts)
  from unpack_wire [OF f(1) p3(1) c v u] obtain resp where
    w: "UnpackPacket h (packet_header p3 @ ?tk @ payload) q Sixup True True True = (f \<in> {32, 48}, Inr
      \<lparr>u_Packet = ?r, u_Sixup = Sixup,
       u_SecurityToken = (if Sixup then Some (ToSecurityToken (?tk @ payload)) else None), u_ResponseToken = resp\<rparr>)" ..
  have rd: "pk_data ?r = ?data" unfolding pk_data_def [of ?r] by simp
  show ?thesis
  proof (intro exI conjI)
    show "SendPacket h p t Sixup = Inr (packet_header p3 @ ?tk @ payload, p3)" by (rule send)
    show "length (packet_header p3 @ ?tk @ payload) \<le> NET_MAX_PACKETSIZE"
      using c(4) by (simp add: packet_header_def)
    let ?u = "\<lparr>u_Packet = ?r, u_Sixup = Sixup,
       u_SecurityToken = (if Sixup then Some (ToSecurityToken (?tk @ payload)) else None), u_ResponseToken = resp\<rparr>"
    show "UnpackPacket h (packet_header p3 @ ?tk @ payload) q Sixup True True True = (f \<in> {32, 48}, Inr ?u)"
      by (rule w)
    show "pk_data (u_Packet ?u) = pk_data p @
        (if Sixup \<or> t = NET_SECURITY_TOKEN_UNSUPPORTED then [] else WriteSecurityToken t)"
      using rd by (simp only: unpacked.simps token_tail_def)
  qed (use f(2) p3 token_roundtrip [of t payload] in auto)
qed

subsection \<open>Properties\<close>

text \<open>Chunk headers and data laid out one behind the other are read back unchanged, and the bytes
  with the number of chunks determine the chunks, in the 0.6 and in the 0.7 layout.\<close>

theorem chunk_stream_roundtrip:
  assumes "Split = 4 \<or> Split = 6" "\<forall>x \<in> set xs. ok_chunk Split x" "\<forall>y \<in> set ys. ok_chunk Split y"
  shows "decode_n (dec_chunk Split) (length xs) (concat (map (enc_chunk Split) xs) @ r) = Some (xs, r) \<and>
    (length xs = length ys \<and> concat (map (enc_chunk Split) xs) = concat (map (enc_chunk Split) ys) \<longrightarrow> xs = ys)"
  using assms chunks4.decode_stream [of xs r] chunks6.decode_stream [of xs r]
    chunks4.stream_unique [of xs ys] chunks6.stream_unique [of xs ys] by (elim disjE) simp_all

theorem chunk_stream_roundtrip_witness:
  "decode_n (dec_chunk 4) 1 (concat (map (enc_chunk 4) [(\<lparr>ch_Flags = 1, ch_Size = 2, ch_Sequence = 700\<rparr>, [7, 8])]) @ []) =
     Some ([(\<lparr>ch_Flags = 1, ch_Size = 2, ch_Sequence = 700\<rparr>, [7, 8])], [])"
  using chunk_stream_roundtrip [of 4 "[(\<lparr>ch_Flags = 1, ch_Size = 2, ch_Sequence = 700\<rparr>, [7, 8])]" "[]" "[]"]
  by (simp add: ok_chunk_def wf_header_def NET_CHUNKFLAG_VITAL_def NET_MAX_SEQUENCE_def)

text \<open>C31: a valid packet with room for the token is sent in at most 1400 bytes, and receiving these
  bytes gives the chunk data (followed by the token in 0.6), ack, number of chunks, flags up to
  the compression flag, and in 0.7 the token of the header; whether or not the packet was
  compressed.\<close>

theorem packet_roundtrip:
  assumes "huffman_Init = Some h" "wf_packet p" "IsValidConnectionOrientedPacket p"
    "pk_Flags p AND NET_PACKETFLAG_COMPRESSION = 0"
    "pk_DataSize p + 4 \<le> NET_MAX_PACKETSIZE - NET_PACKETHEADERSIZE" "wf_packet q"
  shows "\<exists>bs p' d u. SendPacket h p t Sixup = Inr (bs, p') \<and> length bs \<le> NET_MAX_PACKETSIZE \<and>
    UnpackPacket h bs q Sixup True True True = (d, Inr u) \<and>
    pk_data (u_Packet u) = pk_data p @ (if Sixup \<or> t = NET_SECURITY_TOKEN_UNSUPPORTED then [] else WriteSecurityToken t) \<and>
    pk_Flags (u_Packet u) \<in> {pk_Flags p, pk_Flags p OR NET_PACKETFLAG_COMPRESSION} \<and>
    pk_Ack (u_Packet u) = pk_Ack p \<and> pk_NumChunks (u_Packet u) = pk_NumChunks p \<and>
    u_Sixup u = Sixup \<and> (Sixup \<longrightarrow> u_SecurityToken u = Some t)"
  using assms by (rule send_unpack)

theorem packet_roundtrip_witness:
  "\<exists>h bs p' d u. huffman_Init = Some h \<and>
    SendPacket h (zero_packet\<lparr>pk_NumChunks := 1, pk_DataSize := 5\<rparr>) 7 False = Inr (bs, p') \<and>
    UnpackPacket h bs zero_packet False True True True = (d, Inr u) \<and>
    pk_data (u_Packet u) = replicate 5 0 @ WriteSecurityToken 7"
proof -
  obtain h t where h: "huffman_Init = Some h" using huffman_Init_tree by blast
  have z: "wf_packet zero_packet" "wf_packet (zero_packet\<lparr>pk_NumChunks := 1, pk_DataSize := 5\<rparr>)"
    "IsValidConnectionOrientedPacket (zero_packet\<lparr>pk_NumChunks := 1, pk_DataSize := 5\<rparr>)"
    "pk_Flags (zero_packet\<lparr>pk_NumChunks := 1, pk_DataSize := 5\<rparr>) AND NET_PACKETFLAG_COMPRESSION = 0"
    by (simp_all add: zero_packet_def wf_packet_def packet_consts IsValidConnectionOrientedPacket_def packet_flags)
  have d: "pk_data (zero_packet\<lparr>pk_NumChunks := 1, pk_DataSize := 5\<rparr>) = replicate 5 0"
    by (simp add: pk_data_def zero_packet_def packet_consts)
  have r: "pk_DataSize (zero_packet\<lparr>pk_NumChunks := 1, pk_DataSize := 5\<rparr>) + 4 \<le> NET_MAX_PACKETSIZE - NET_PACKETHEADERSIZE"
    by (simp add: packet_consts)
  from packet_roundtrip [OF h z(2-4) r z(1), of 7 False] show ?thesis
    by (elim exE conjE, intro exI conjI) (rule h, assumption, assumption,
      simp only: d NET_SECURITY_TOKEN_UNSUPPORTED_def, simp)
qed

lemma unpack_safe:
  assumes "wf_packet q"
  shows "case snd (UnpackPacket h bs q Sixup AllowDecompression True True) of
      Inl e \<Rightarrow> e = ErrCode (-1)
    | Inr u \<Rightarrow> wf_packet (u_Packet u) \<and>
        (pk_Flags (u_Packet u) \<in> {NET_PACKETFLAG_CONNLESS, NET_PACKETFLAG_CONNLESS OR NET_PACKETFLAG_EXTENDED} \<or>
         IsValidConnectionOrientedPacket (u_Packet u))"
proof (cases "UnpackPacketFlags bs")
  case None
  then show ?thesis by (simp add: UnpackPacket_def)
next
  case (Some Flags)
  then have l: "3 \<le> length bs" "length bs \<le> 1400"
    by (auto simp: UnpackPacketFlags_def packet_consts split: if_splits)
  show ?thesis
  proof (cases "Flags AND NET_PACKETFLAG_CONNLESS \<noteq> 0")
    case True
    with Some show ?thesis using unpack_connless_safe [OF assms l, of True True]
      by (auto simp: UnpackPacket_def split: sum.splits)
  next
    case False
    with Some show ?thesis
      using unpack_connected_safe [OF assms l, of h Flags Sixup AllowDecompression]
      by (auto simp: UnpackPacket_def split: sum.splits)
  qed
qed



text \<open>For sequence numbers in range, \<open>IsSeqInBackroom\<close> says that the number is at most half the
  sequence space behind the ack, counted around the circle.\<close>

theorem backroom_is_circular_window:
  assumes "0 \<le> Seq" "Seq < NET_MAX_SEQUENCE" "0 \<le> Ack" "Ack < NET_MAX_SEQUENCE"
  shows "IsSeqInBackroom Seq Ack \<longleftrightarrow> (Ack - Seq) mod NET_MAX_SEQUENCE \<le> NET_MAX_SEQUENCE div 2"
  using assms by (rule backroom_distance)

theorem backroom_is_circular_window_witness: "IsSeqInBackroom 1020 3 \<longleftrightarrow> (3 - 1020) mod 1024 \<le> (512 :: int)"
  using backroom_is_circular_window [of 1020 3] by (simp add: NET_MAX_SEQUENCE_def)

end
