(* ===== verification/NetConn.thy ===== *)
theory NetConn
  imports Prelude Str RingBuffer NetProtocol "HOL-Library.Monad_Syntax"
begin

text \<open>
  One connection (\<open>CNetConnection\<close> in src/src/engine/shared/network_conn.cpp and
  network_ddpp.cpp) and the chunk unpacker that feeds it (\<open>CPacketChunkUnpacker\<close> in
  network.cpp). The state is the record of the class; the resend buffer is the ring of
  \<open>RingBuffer\<close> with the \<open>CNetChunkResend\<close> objects it holds, by address. \<open>c_Sent\<close> is the log of the
  datagrams given to \<open>net_udp_send\<close>. The time, the settings and the random token an operation sees
  are in \<open>net_env\<close>; \<open>time_get\<close> is constant within a tick. An operation that trips an assertion or
  leaves an array has no result (\<open>None\<close>).
\<close>

subsection \<open>State\<close>

datatype estate = OFFLINE | WANT_TOKEN | CONNECT | PENDING | ONLINE | BOT | ERROR

record resend =
  rs_Flags :: int
  rs_Data :: bytes
  rs_Sequence :: int
  rs_LastSendTime :: int
  rs_FirstSendTime :: int

record net_env =
  e_Now :: int
  e_Freq :: int
  e_Huffman :: huffman
  e_ConnTimeout :: int
  e_ConnTimeoutProtection :: int
  e_ConnResendRequestsPerSecond :: int
  e_Random :: token

record conn =
  c_SecurityToken :: token
  c_Sequence :: nat
  c_Ack :: nat
  c_PeerAck :: nat
  c_State :: estate
  c_RemoteClosed :: bool
  c_BlockCloseMsg :: bool
  c_UnknownSeq :: bool
  c_Buffer :: ring
  c_Chunks :: "nat \<Rightarrow> resend"
  c_LastUpdateTime :: int
  c_LastRecvTime :: int
  c_LastSendTime :: int
  c_LastResendTime :: int
  c_ResendRequested :: bool
  c_ErrorString :: bytes
  c_Construct :: net_packet
  c_ConnectAddrs :: "netaddr list"
  c_NumConnectAddrs :: nat
  c_PeerAddr :: netaddr
  c_PeerAddrStr :: bytes
  c_PeerAddrStrNoPort :: bytes
  c_TimeoutProtected :: bool
  c_TimeoutSituation :: bool
  c_Sixup :: bool
  c_Token :: token
  c_Sent :: "(netaddr \<times> bytes) list"

definition NET_CONN_BUFFERSIZE :: nat where "NET_CONN_BUFFERSIZE = 1024 * 32"

text \<open>\<open>sizeof(CNetChunkResend)\<close> with 64-bit pointers, and the conversion to \<open>unsigned short\<close>.\<close>

definition SIZEOF_RESEND :: nat where "SIZEOF_RESEND = 40"

definition to_u16 :: "nat \<Rightarrow> nat" where "to_u16 n = n mod 65536"

definition run :: "'a result \<Rightarrow> 'a option" where
  "run r = (case r of Inl e \<Rightarrow> None | Inr x \<Rightarrow> Some x)"

subsection \<open>Addresses, reset, errors\<close>

definition IsPeerAddress :: "conn \<Rightarrow> netaddr \<Rightarrow> bool" where
  "IsPeerAddress c Addr =
     (if c_State c \<noteq> CONNECT then netaddr_eq (c_PeerAddr c) Addr
      else list_ex (\<lambda>a. netaddr_eq a Addr) (take (c_NumConnectAddrs c) (c_ConnectAddrs c)))"

definition SetPeerAddr :: "netaddr \<Rightarrow> conn \<Rightarrow> conn option" where
  "SetPeerAddr a c = do {
     s \<leftarrow> run (net_addr_str a NETADDR_MAXSTRSIZE True);
     t \<leftarrow> run (net_addr_str a NETADDR_MAXSTRSIZE False);
     Some (c\<lparr>c_PeerAddr := a, c_PeerAddrStr := s, c_PeerAddrStrNoPort := t\<rparr>) }"

definition ClearPeerAddr :: "conn \<Rightarrow> conn" where
  "ClearPeerAddr c = c\<lparr>c_PeerAddr := NETADDR_ZEROED, c_PeerAddrStr := [], c_PeerAddrStrNoPort := []\<rparr>"

definition ResetStats :: "conn \<Rightarrow> conn" where
  "ResetStats c = (ClearPeerAddr c)\<lparr>c_LastUpdateTime := 0\<rparr>"

definition conn_Reset :: "conn \<Rightarrow> conn" where
  "conn_Reset c = c\<lparr>
     c_Sequence := 0, c_Ack := 0, c_PeerAck := 0, c_RemoteClosed := False,
     c_TimeoutProtected := False, c_TimeoutSituation := False,
     c_State := OFFLINE, c_Token := - 1, c_SecurityToken := NET_SECURITY_TOKEN_UNKNOWN, c_Sixup := False,
     c_LastSendTime := 0, c_LastRecvTime := 0, c_LastResendTime := 0, c_ResendRequested := False,
     c_ConnectAddrs := replicate 16 NETADDR_ZEROED, c_NumConnectAddrs := 0, c_UnknownSeq := False,
     c_Buffer := ring_Init (c_Buffer c) NET_CONN_BUFFERSIZE False,
     c_Construct := zero_packet\<rparr>"

definition SetError :: "bytes \<Rightarrow> conn \<Rightarrow> conn" where
  "SetError s c = c\<lparr>c_ErrorString := str_copy s 256\<rparr>"

definition conn_Init :: "bool \<Rightarrow> conn \<Rightarrow> conn" where
  "conn_Init BlockCloseMsg c =
     (ResetStats (conn_Reset c))\<lparr>c_BlockCloseMsg := BlockCloseMsg, c_ErrorString := []\<rparr>"

subsection \<open>Sending\<close>

partial_function (option) AckChunks :: "int \<Rightarrow> conn \<Rightarrow> conn option" where
  "AckChunks Ack c =
     (case ring_First (c_Buffer c) of
        None \<Rightarrow> Some c
      | Some p \<Rightarrow>
          if IsSeqInBackroom (rs_Sequence (c_Chunks c p)) Ack
          then do { (ok, r) \<leftarrow> ring_PopFirst (c_Buffer c); AckChunks Ack (c\<lparr>c_Buffer := r\<rparr>) }
          else Some c)"

definition SignalResend :: "conn \<Rightarrow> conn" where
  "SignalResend c = c\<lparr>c_Construct := (c_Construct c)\<lparr>pk_Flags := pk_Flags (c_Construct c) OR NET_PACKETFLAG_RESEND\<rparr>\<rparr>"

definition Flush :: "net_env \<Rightarrow> conn \<Rightarrow> (nat \<times> conn) option" where
  "Flush E c =
     (let NumChunks = pk_NumChunks (c_Construct c) in
      if NumChunks = 0 \<and> pk_Flags (c_Construct c) AND NET_PACKETFLAG_RESEND = 0 then Some (0, c)
      else do {
        (bs, _) \<leftarrow> run (SendPacket (e_Huffman E) ((c_Construct c)\<lparr>pk_Ack := c_Ack c\<rparr>) (c_SecurityToken c) (c_Sixup c));
        Some (NumChunks, c\<lparr>c_Sent := c_Sent c @ [(c_PeerAddr c, bs)], c_LastSendTime := e_Now E,
                           c_Construct := zero_packet\<rparr>) })"

text \<open>The chunk is packed behind the chunks that are there.\<close>

definition pack_chunk :: "int \<Rightarrow> bytes \<Rightarrow> int \<Rightarrow> conn \<Rightarrow> conn option" where
  "pack_chunk Flags data Sequence c = do {
     hdr \<leftarrow> run (chunk_Pack \<lparr>ch_Flags = Flags, ch_Size = int (length data), ch_Sequence = Sequence\<rparr>
                  (if c_Sixup c then 6 else 4));
     d \<leftarrow> run (mem_write (pk_ChunkData (c_Construct c)) (pk_DataSize (c_Construct c)) (hdr @ data));
     Some (c\<lparr>c_Construct := (c_Construct c)\<lparr>
        pk_ChunkData := d, pk_NumChunks := pk_NumChunks (c_Construct c) + 1,
        pk_DataSize := pk_DataSize (c_Construct c) + length (hdr @ data)\<rparr>\<rparr>) }"

definition save_chunk :: "net_env \<Rightarrow> int \<Rightarrow> bytes \<Rightarrow> int \<Rightarrow> conn \<Rightarrow> (int \<times> conn) option" where
  "save_chunk E Flags data Sequence c = do {
     (res, r) \<leftarrow> ring_Allocate (c_Buffer c) (SIZEOF_RESEND + length data);
     case res of
       Some p \<Rightarrow> Some (0, c\<lparr>c_Buffer := r, c_Chunks := (c_Chunks c)(p := \<lparr>rs_Flags = Flags, rs_Data = data,
                    rs_Sequence = Sequence, rs_LastSendTime = e_Now E, rs_FirstSendTime = e_Now E\<rparr>)\<rparr>)
     | None \<Rightarrow> Some (- 1, c\<lparr>c_Buffer := r\<rparr>) }"

definition QueueChunkEx :: "net_env \<Rightarrow> int \<Rightarrow> bytes \<Rightarrow> int \<Rightarrow> conn \<Rightarrow> (int \<times> conn) option" where
  "QueueChunkEx E Flags data Sequence c =
     (if c_State c = OFFLINE \<or> c_State c = ERROR then Some (- 1, c)
      else do {
        c1 \<leftarrow> (if pk_DataSize (c_Construct c) + length data + NET_MAX_CHUNKHEADERSIZE >
                  length (pk_ChunkData (c_Construct c)) - 4 \<or>
                pk_NumChunks (c_Construct c) = NET_MAX_PACKET_CHUNKS
              then map_option snd (Flush E c) else Some c);
        c2 \<leftarrow> pack_chunk Flags data Sequence c1;
        if Flags AND NET_CHUNKFLAG_VITAL \<noteq> 0 \<and> \<not> Flags AND NET_CHUNKFLAG_RESEND \<noteq> 0
        then save_chunk E Flags data Sequence c2
        else Some (0, c2) })"

definition QueueChunk :: "net_env \<Rightarrow> int \<Rightarrow> bytes \<Rightarrow> conn \<Rightarrow> (int \<times> conn) option" where
  "QueueChunk E Flags data c =
     (let c1 = (if Flags AND NET_CHUNKFLAG_VITAL \<noteq> 0
                then c\<lparr>c_Sequence := (c_Sequence c + 1) mod nat NET_MAX_SEQUENCE\<rparr> else c)
      in QueueChunkEx E Flags data (int (c_Sequence c1)) c1)"

definition send_control_to :: "net_env \<Rightarrow> netaddr \<Rightarrow> byte \<Rightarrow> bytes \<Rightarrow> conn \<Rightarrow> conn option" where
  "send_control_to E a ControlMsg extra c = do {
     bs \<leftarrow> run (SendControlMsg (e_Huffman E) (c_Ack c) ControlMsg extra (c_SecurityToken c) (c_Sixup c));
     Some (c\<lparr>c_Sent := c_Sent c @ [(a, bs)]\<rparr>) }"

fun send_connects :: "net_env \<Rightarrow> netaddr list \<Rightarrow> conn \<Rightarrow> conn option" where
  "send_connects E [] c = Some c"
| "send_connects E (a # as) c =
     (case send_control_to E a NET_CTRLMSG_CONNECT SECURITY_TOKEN_MAGIC c of None \<Rightarrow> None
      | Some c1 \<Rightarrow> send_connects E as c1)"

definition SendConnect :: "net_env \<Rightarrow> conn \<Rightarrow> conn option" where
  "SendConnect E c =
     send_connects E (take (c_NumConnectAddrs c) (c_ConnectAddrs c)) (c\<lparr>c_LastSendTime := e_Now E\<rparr>)"

definition SendControl :: "net_env \<Rightarrow> byte \<Rightarrow> bytes \<Rightarrow> conn \<Rightarrow> conn option" where
  "SendControl E ControlMsg extra c =
     send_control_to E (c_PeerAddr c) ControlMsg extra (c\<lparr>c_LastSendTime := e_Now E\<rparr>)"

definition SendControlWithToken7 :: "net_env \<Rightarrow> byte \<Rightarrow> token \<Rightarrow> conn \<Rightarrow> conn option" where
  "SendControlWithToken7 E ControlMsg ResponseToken c = do {
     bs \<leftarrow> run (SendControlMsgWithToken7 (e_Huffman E) ResponseToken 0 ControlMsg (c_Token c) True);
     Some (c\<lparr>c_LastSendTime := e_Now E, c_Sent := c_Sent c @ [(c_PeerAddr c, bs)]\<rparr>) }"

definition ResendChunk :: "net_env \<Rightarrow> nat \<Rightarrow> conn \<Rightarrow> conn option" where
  "ResendChunk E p c =
     (let rs = c_Chunks c p in do {
        (_, c1) \<leftarrow> QueueChunkEx E (rs_Flags rs OR NET_CHUNKFLAG_RESEND) (rs_Data rs) (rs_Sequence rs) c;
        Some (c1\<lparr>c_Chunks := (c_Chunks c1)(p := (c_Chunks c1 p)\<lparr>rs_LastSendTime := e_Now E\<rparr>)\<rparr>) })"

partial_function (option) resend_loop :: "net_env \<Rightarrow> nat option \<Rightarrow> conn \<Rightarrow> conn option" where
  "resend_loop E p c =
     (case p of None \<Rightarrow> Some c
      | Some x \<Rightarrow> do {
          c1 \<leftarrow> ResendChunk E x c;
          p' \<leftarrow> ring_Next (c_Buffer c1) x;
          resend_loop E p' c1 })"

definition Resend :: "net_env \<Rightarrow> conn \<Rightarrow> conn option" where
  "Resend E c = resend_loop E (ring_First (c_Buffer c)) c"

definition AnswerResendRequest :: "net_env \<Rightarrow> conn \<Rightarrow> conn option" where
  "AnswerResendRequest E c =
     (if \<not> c_ResendRequested c then Some c
      else if e_ConnResendRequestsPerSecond E \<noteq> 0 \<and>
              e_Now E - c_LastResendTime c < c_div (e_Freq E) (e_ConnResendRequestsPerSecond E) then Some c
      else Resend E (c\<lparr>c_ResendRequested := False, c_LastResendTime := e_Now E\<rparr>))"

subsection \<open>Opening and closing\<close>

definition set_addrs :: "netaddr list \<Rightarrow> conn \<Rightarrow> conn" where
  "set_addrs addrs c =
     c\<lparr>c_ConnectAddrs := addrs @ drop (length addrs) (c_ConnectAddrs c), c_NumConnectAddrs := length addrs\<rparr>"

definition Connect :: "net_env \<Rightarrow> netaddr list \<Rightarrow> conn \<Rightarrow> (int \<times> conn) option" where
  "Connect E addrs c =
     (if c_State c \<noteq> OFFLINE then Some (- 1, c)
      else if length addrs > length (c_ConnectAddrs (conn_Reset c)) then None
      else do {
        c1 \<leftarrow> SendConnect E ((set_addrs addrs (ClearPeerAddr (conn_Reset c)))\<lparr>c_ErrorString := [], c_State := CONNECT\<rparr>);
        Some (0, c1) })"

definition SetToken7 :: "token \<Rightarrow> conn \<Rightarrow> conn" where
  "SetToken7 t c = (if c_State c \<noteq> OFFLINE then c else c\<lparr>c_Token := t\<rparr>)"

definition Connect7 :: "net_env \<Rightarrow> netaddr list \<Rightarrow> conn \<Rightarrow> (int \<times> conn) option" where
  "Connect7 E addrs c =
     (if c_State c \<noteq> OFFLINE then Some (- 1, c)
      else if addrs = [] \<or> length addrs > length (c_ConnectAddrs (conn_Reset c)) then None
      else do {
        c1 \<leftarrow> SetPeerAddr (hd addrs) ((set_addrs addrs (conn_Reset c))\<lparr>c_LastRecvTime := e_Now E\<rparr>);
        c2 \<leftarrow> SendControlWithToken7 E NET_CTRLMSG_TOKEN NET_TOKEN_NONE
                ((SetToken7 (e_Random E) c1)\<lparr>c_ErrorString := [], c_State := WANT_TOKEN\<rparr>);
        Some (0, c2\<lparr>c_Sixup := True\<rparr>) })"

text \<open>The reason given to \<open>Disconnect\<close>: none, the connection's own error string, or another text.\<close>

datatype reason = NoReason | OwnErrorString | Reason bytes

definition reason_text :: "reason \<Rightarrow> conn \<Rightarrow> bytes option" where
  "reason_text r c = (case r of NoReason \<Rightarrow> None | OwnErrorString \<Rightarrow> Some (c_ErrorString c) | Reason s \<Rightarrow> Some s)"

definition Disconnect :: "net_env \<Rightarrow> reason \<Rightarrow> conn \<Rightarrow> conn option" where
  "Disconnect E pReason c =
     (if c_State c = OFFLINE then Some c
      else if c_State c = BOT then Some ((conn_Reset c)\<lparr>c_ErrorString := []\<rparr>)
      else if \<not> c_RemoteClosed c then do {
        c1 \<leftarrow> (if \<not> c_TimeoutSituation c then
                 (case reason_text pReason c of
                    Some s \<Rightarrow> SendControl E NET_CTRLMSG_CLOSE (s @ [0]) c
                  | None \<Rightarrow> SendControl E NET_CTRLMSG_CLOSE [] c)
              else Some c);
        Some (conn_Reset (if pReason \<noteq> OwnErrorString
              then c1\<lparr>c_ErrorString := (case reason_text pReason c of None \<Rightarrow> [] | Some s \<Rightarrow> str_copy s 256)\<rparr>
              else c1)) }
      else Some (conn_Reset c))"

definition DirectInit :: "net_env \<Rightarrow> netaddr \<Rightarrow> token \<Rightarrow> token \<Rightarrow> bool \<Rightarrow> conn \<Rightarrow> conn option" where
  "DirectInit E Addr SecurityToken Token Sixup c = do {
     c1 \<leftarrow> SetPeerAddr Addr ((conn_Reset c)\<lparr>c_State := ONLINE\<rparr>);
     Some (c1\<lparr>c_ErrorString := [], c_LastSendTime := e_Now E, c_LastRecvTime := e_Now E,
              c_LastUpdateTime := e_Now E, c_SecurityToken := SecurityToken, c_Token := Token, c_Sixup := Sixup\<rparr>) }"

definition SetUnknownSeq :: "conn \<Rightarrow> conn" where
  "SetUnknownSeq c = c\<lparr>c_UnknownSeq := True\<rparr>"

definition SetSequence :: "nat \<Rightarrow> conn \<Rightarrow> conn" where
  "SetSequence Sequence c = c\<lparr>c_Sequence := to_u16 Sequence\<rparr>"

definition ResetErrorString :: "conn \<Rightarrow> conn" where
  "ResetErrorString c = c\<lparr>c_ErrorString := []\<rparr>"

definition BotConnect :: "conn \<Rightarrow> conn" where
  "BotConnect c = c\<lparr>c_State := BOT\<rparr>"

definition BotDrop :: "conn \<Rightarrow> conn" where
  "BotDrop c = c\<lparr>c_State := OFFLINE\<rparr>"

text \<open>The loop of \<open>ResumeConnection\<close> moves the blocks of the old resend buffer to the new one.\<close>

partial_function (option) resume_loop ::
  "ring \<Rightarrow> (nat \<Rightarrow> resend) \<Rightarrow> conn \<Rightarrow> (ring \<times> conn) option" where
  "resume_loop old chunks c =
     (case ring_First old of
        None \<Rightarrow> Some (old, c)
      | Some pFirst \<Rightarrow> do {
          (res, r) \<leftarrow> ring_Allocate (c_Buffer c) (SIZEOF_RESEND + length (rs_Data (chunks pFirst)));
          p \<leftarrow> res;
          (ok, old') \<leftarrow> ring_PopFirst old;
          resume_loop old' chunks (c\<lparr>c_Buffer := r, c_Chunks := (c_Chunks c)(p := chunks pFirst)\<rparr>) })"

definition ResumeConnection ::
  "net_env \<Rightarrow> netaddr \<Rightarrow> nat \<Rightarrow> nat \<Rightarrow> token \<Rightarrow> ring \<Rightarrow> (nat \<Rightarrow> resend) \<Rightarrow> bool \<Rightarrow> conn \<Rightarrow> (ring \<times> conn) option" where
  "ResumeConnection E a Sequence Ack SecurityToken old chunks Sixup c = do {
     c1 \<leftarrow> SetPeerAddr a (c\<lparr>c_Sequence := to_u16 Sequence, c_Ack := to_u16 Ack, c_RemoteClosed := False,
                            c_State := ONLINE\<rparr>);
     resume_loop old chunks (c1\<lparr>c_ErrorString := [], c_LastSendTime := e_Now E, c_LastRecvTime := e_Now E,
       c_LastUpdateTime := e_Now E, c_SecurityToken := SecurityToken, c_Sixup := Sixup,
       c_Buffer := ring_Init (c_Buffer c1) NET_CONN_BUFFERSIZE False\<rparr>) }"

subsection \<open>Receiving a packet\<close>

text \<open>The token check: whether the packet passes, and the packet without the token.\<close>

definition check_token :: "conn \<Rightarrow> net_packet \<Rightarrow> token \<Rightarrow> bool \<times> net_packet" where
  "check_token c p SecurityToken =
     (let (ok, p1) =
        (if \<not> c_Sixup c \<and> c_SecurityToken c \<noteq> NET_SECURITY_TOKEN_UNKNOWN \<and> c_SecurityToken c \<noteq> NET_SECURITY_TOKEN_UNSUPPORTED
         then (if pk_DataSize p < 4 then (False, p)
               else let p' = p\<lparr>pk_DataSize := pk_DataSize p - 4\<rparr>
                    in (c_SecurityToken c = ToSecurityToken (drop (pk_DataSize p') (pk_ChunkData p')), p'))
         else (True, p))
      in if \<not> ok then (False, p1)
         else if c_Sixup c \<and> SecurityToken \<noteq> c_Token c then (False, p1) else (True, p1))"

definition check_ack :: "conn \<Rightarrow> net_packet \<Rightarrow> bool" where
  "check_ack c p =
     (if c_Sequence c \<ge> c_PeerAck c
      then \<not> (pk_Ack p < c_PeerAck c \<or> pk_Ack p > c_Sequence c)
      else \<not> (pk_Ack p < c_PeerAck c \<and> pk_Ack p > c_Sequence c))"

text \<open>The reason of a close message.\<close>

definition close_reason :: "net_packet \<Rightarrow> bytes" where
  "close_reason p =
     (if pk_DataSize p > 1 then
        let s = str_sanitize_cc (str_copy (takeWhile (\<lambda>b. b \<noteq> 0) (drop 1 (pk_ChunkData p))) (min (pk_DataSize p) 256))
        in if \<not> str_utf8_check s then str_copy (lit ''(Invalid error message)'') 256 else s
      else [])"

definition feed_token7 :: "net_env \<Rightarrow> token \<Rightarrow> conn \<Rightarrow> conn option" where
  "feed_token7 E ResponseToken c =
     (if c_State c = WANT_TOKEN then
        SendControlWithToken7 E NET_CTRLMSG_CONNECT ResponseToken
          (c\<lparr>c_LastRecvTime := e_Now E, c_State := CONNECT, c_SecurityToken := ResponseToken\<rparr>)
      else Some c)"

definition feed_accept :: "net_env \<Rightarrow> net_packet \<Rightarrow> netaddr \<Rightarrow> conn \<Rightarrow> conn option" where
  "feed_accept E p pAddr c = do {
     c1 \<leftarrow> SetPeerAddr pAddr c;
     c2 \<leftarrow> Some
       (if c_SecurityToken c1 = NET_SECURITY_TOKEN_UNKNOWN \<and>
           pk_DataSize p \<ge> 1 + length SECURITY_TOKEN_MAGIC + 4 \<and>
           take (length SECURITY_TOKEN_MAGIC) (drop 1 (pk_ChunkData p)) = SECURITY_TOKEN_MAGIC
        then c1\<lparr>c_SecurityToken := ToSecurityToken (drop (1 + length SECURITY_TOKEN_MAGIC) (pk_ChunkData p))\<rparr>
        else if \<not> c_Sixup c1 then c1\<lparr>c_SecurityToken := NET_SECURITY_TOKEN_UNSUPPORTED\<rparr>
        else c1);
     c3 \<leftarrow> (if \<not> c_Sixup c2 then SendControl E NET_CTRLMSG_ACCEPT [] c2 else Some c2);
     Some (c3\<lparr>c_LastRecvTime := e_Now E, c_State := ONLINE\<rparr>) }"

text \<open>A control message that does not close the connection.\<close>

definition feed_control :: "net_env \<Rightarrow> net_packet \<Rightarrow> netaddr \<Rightarrow> token \<Rightarrow> conn \<Rightarrow> conn option" where
  "feed_control E p pAddr ResponseToken c =
     (let CtrlMsg = pk_ChunkData p ! 0 in
      if c_Sixup c \<and> CtrlMsg = NET_CTRLMSG_TOKEN then feed_token7 E ResponseToken c
      else if c_State c = CONNECT \<and> CtrlMsg = NET_CTRLMSG_CONNECTACCEPT then feed_accept E p pAddr c
      else Some c)"

definition feed_close :: "net_packet \<Rightarrow> conn \<Rightarrow> conn" where
  "feed_close p c =
     (let c1 = c\<lparr>c_State := ERROR, c_RemoteClosed := True\<rparr>
      in if \<not> c_BlockCloseMsg c1 then SetError (close_reason p) c1 else c1)"

text \<open>\<open>Feed\<close>: the value returned, the packet (the token at its end is cut off), the connection.\<close>

definition Feed :: "net_env \<Rightarrow> net_packet \<Rightarrow> netaddr \<Rightarrow> token \<Rightarrow> token \<Rightarrow> conn \<Rightarrow> (int \<times> net_packet \<times> conn) option" where
  "Feed E p pAddr SecurityToken ResponseToken c =
     (if c_State c = OFFLINE then None
      else if \<not> IsPeerAddress c pAddr then Some (0, p, c)
      else
        let (ok, p1) = check_token c p SecurityToken in
        if \<not> ok then Some (0, p1, c)
        else if \<not> check_ack c p1 then Some (0, p1, c)
        else do {
          c1 \<leftarrow> Some (c\<lparr>c_PeerAck := pk_Ack p1\<rparr>);
          c2 \<leftarrow> Some (if pk_Flags p1 AND NET_PACKETFLAG_RESEND \<noteq> 0 then c1\<lparr>c_ResendRequested := True\<rparr> else c1);
          c3 \<leftarrow> AnswerResendRequest E c2;
          if pk_Flags p1 AND NET_PACKETFLAG_CONTROL \<noteq> 0 \<and> pk_ChunkData p1 ! 0 = NET_CTRLMSG_CLOSE
          then Some (0, p1, feed_close p1 c3)
          else do {
            c4 \<leftarrow> (if pk_Flags p1 AND NET_PACKETFLAG_CONTROL \<noteq> 0 then feed_control E p1 pAddr ResponseToken c3
                   else if c_State c3 = PENDING then Some (c3\<lparr>c_LastRecvTime := e_Now E, c_State := ONLINE\<rparr>)
                   else Some c3);
            c5 \<leftarrow> (if c_State c4 = ONLINE then AckChunks (int (pk_Ack p1)) (c4\<lparr>c_LastRecvTime := e_Now E\<rparr>)
                   else Some c4);
            Some (1, p1, c5) } })"

subsection \<open>The regular update\<close>

definition int_text :: "int \<Rightarrow> bytes" where
  "int_text i = (if i < 0 then 0x2D # dec (nat (- i)) else dec (nat i))"

definition update_resends :: "net_env \<Rightarrow> conn \<Rightarrow> conn option" where
  "update_resends E c =
     (case ring_First (c_Buffer c) of None \<Rightarrow> Some c
      | Some p \<Rightarrow>
          if e_Now E - rs_FirstSendTime (c_Chunks c p) > e_Freq E * e_ConnTimeout E then
            Some ((SetError (str_copy (lit ''Too weak connection (not acked for '' @ int_text (e_ConnTimeout E) @ lit '' seconds)'') 128)
                     (c\<lparr>c_State := ERROR\<rparr>))\<lparr>c_TimeoutSituation := True\<rparr>)
          else if e_Now E - rs_LastSendTime (c_Chunks c p) > e_Freq E then ResendChunk E p c
          else Some c)"

definition update_keepalive :: "net_env \<Rightarrow> conn \<Rightarrow> conn option" where
  "update_keepalive E c =
     (if c_State c = ONLINE then do {
        c1 \<leftarrow> (if e_Now E - c_LastSendTime c > c_div (e_Freq E) 2 then map_option snd (Flush E c) else Some c);
        if e_Now E - c_LastSendTime c1 > e_Freq E then SendControl E NET_CTRLMSG_KEEPALIVE [] c1 else Some c1 }
      else if c_State c = CONNECT then
        (if e_Now E - c_LastSendTime c > c_div (e_Freq E) 2 then SendConnect E c else Some c)
      else if c_State c = PENDING then
        (if e_Now E - c_LastSendTime c > c_div (e_Freq E) 2
         then SendControl E NET_CTRLMSG_CONNECTACCEPT SECURITY_TOKEN_MAGIC c else Some c)
      else Some c)"

definition update_timeout :: "net_env \<Rightarrow> conn \<Rightarrow> conn" where
  "update_timeout E c =
     (if c_State c \<noteq> CONNECT \<and> c_State c \<noteq> BOT \<and> e_Now E - c_LastRecvTime c > e_Freq E * e_ConnTimeout E
      then (SetError (lit ''Timeout'') (c\<lparr>c_State := ERROR\<rparr>))\<lparr>c_TimeoutSituation := True\<rparr> else c)"

definition conn_Update :: "net_env \<Rightarrow> conn \<Rightarrow> conn option" where
  "conn_Update E c =
     (let c1 = (if c_State c = ERROR \<and> c_TimeoutSituation c \<and>
                   e_Now E - c_LastRecvTime c > e_Freq E * e_ConnTimeoutProtection E
                then SetError (lit ''Timeout Protection over'') (c\<lparr>c_TimeoutSituation := False\<rparr>) else c) in
      if c_State c1 = OFFLINE \<or> c_State c1 = ERROR then Some c1
      else do {
        c2 \<leftarrow> AnswerResendRequest E (c1\<lparr>c_TimeoutSituation := False\<rparr>);
        c3 \<leftarrow> update_resends E (update_timeout E c2);
        update_keepalive E c3 })"

subsection \<open>Unpacking the chunks of a packet\<close>

record chunk_unpacker =
  cu_Valid :: bool
  cu_Addr :: netaddr
  cu_CurrentChunk :: nat
  cu_CurrentOffset :: nat
  cu_ClientId :: int
  cu_Data :: net_packet

record net_chunk =
  nc_ClientId :: int
  nc_Address :: netaddr
  nc_Flags :: int
  nc_Data :: bytes

definition FeedPacket :: "netaddr \<Rightarrow> net_packet \<Rightarrow> int \<Rightarrow> chunk_unpacker \<Rightarrow> chunk_unpacker option" where
  "FeedPacket Addr Packet ClientId u =
     (if cu_Valid u then None
      else if \<not> (pk_Flags Packet AND (NET_PACKETFLAG_CONNLESS OR NET_PACKETFLAG_CONTROL) = 0 \<and>
                 pk_DataSize Packet > 0 \<and> pk_NumChunks Packet > 0) then None
      else Some \<lparr>cu_Valid = True, cu_Addr = Addr, cu_CurrentChunk = 0, cu_CurrentOffset = 0,
                 cu_ClientId = ClientId, cu_Data = Packet\<rparr>)"

text \<open>
  The header and the data of the next chunk and the offset behind it. The header of a vital chunk is
  read before its third byte is known to be inside the packet, so for a packet that fills
  \<open>m_aChunkData\<close> the byte behind the array is read, which is \<open>m_aExtraData[0]\<close>.
\<close>

definition next_chunk :: "bool \<Rightarrow> net_packet \<Rightarrow> nat \<Rightarrow> (chunk_header \<times> bytes \<times> nat) option" where
  "next_chunk Sixup p off =
     (if off + 2 > pk_DataSize p then None
      else
        let (h, n) = chunk_Unpack (drop off (pk_ChunkData p @ pk_ExtraData p)) (if Sixup then 6 else 4) in
        if off + n + nat (ch_Size h) > pk_DataSize p then None
        else Some (h, take (nat (ch_Size h)) (drop (off + n) (pk_ChunkData p)), off + n + nat (ch_Size h)))"

text \<open>The sequence check: accept, ignore as old, or ask for a resend.\<close>

datatype verdict = Accept | Ignore

definition check_sequence :: "chunk_header \<Rightarrow> conn \<Rightarrow> verdict \<times> conn" where
  "check_sequence h c =
     (if ch_Flags h AND NET_CHUNKFLAG_VITAL \<noteq> 0 then
        (if ch_Sequence h = (int (c_Ack c) + 1) mod NET_MAX_SEQUENCE \<or> c_UnknownSeq c
         then (Accept, c\<lparr>c_UnknownSeq := False, c_Ack := to_u16 (nat (ch_Sequence h))\<rparr>)
         else if IsSeqInBackroom (ch_Sequence h) (int (c_Ack c)) then (Ignore, c)
         else (Ignore, SignalResend c))
      else (Accept, c))"

function UnpackNextChunk :: "chunk_unpacker \<Rightarrow> conn \<Rightarrow> net_chunk option \<times> chunk_unpacker \<times> conn" where
  "UnpackNextChunk u c =
     (if \<not> cu_Valid u then (None, u, c)
      else if cu_CurrentChunk u \<ge> pk_NumChunks (cu_Data u) then (None, u\<lparr>cu_Valid := False\<rparr>, c)
      else
        case next_chunk (c_Sixup c) (cu_Data u) (cu_CurrentOffset u) of
          None \<Rightarrow> (None, u\<lparr>cu_Valid := False, cu_CurrentChunk := cu_CurrentChunk u +
                     (if cu_CurrentOffset u + 2 > pk_DataSize (cu_Data u) then 0 else 1)\<rparr>, c)
        | Some (h, data, off) \<Rightarrow>
            let u1 = u\<lparr>cu_CurrentChunk := cu_CurrentChunk u + 1, cu_CurrentOffset := off\<rparr> in
            (case check_sequence h c of
               (Accept, c1) \<Rightarrow> (Some \<lparr>nc_ClientId = cu_ClientId u, nc_Address = cu_Addr u,
                                  nc_Flags = ch_Flags h, nc_Data = data\<rparr>, u1, c1)
             | (Ignore, c1) \<Rightarrow> UnpackNextChunk u1 c1))"
  by pat_completeness auto
termination
  by (relation "measure (\<lambda>(u, c). pk_NumChunks (cu_Data u) - cu_CurrentChunk u)") auto

declare UnpackNextChunk.simps [simp del]

definition unpacker_Reset_chunks :: "chunk_unpacker \<Rightarrow> chunk_unpacker" where
  "unpacker_Reset_chunks u = u\<lparr>cu_Valid := False\<rparr>"

end
