(* ===== verification/NetConnLaws.thy ===== *)
theory NetConnLaws
  imports NetConn
begin

text \<open>
  The correctness of \<open>NetConn\<close>: what each operation does to the list of chunks that wait for an
  acknowledgement, the invariant of a connection, and that no operation fails on a connection that
  satisfies it.
\<close>

subsection \<open>The chunks waiting for an acknowledgement\<close>

text \<open>The abstraction of the resend buffer: the saved chunks, oldest first.\<close>

definition slots :: "ring \<Rightarrow> (nat \<times> nat) list \<Rightarrow> bool" where
  "slots r q \<longleftrightarrow> ring_holds r q \<and> \<not> r_Recycle r \<and> r_Size r = 32760 \<and> (\<forall>x \<in> set q. 72 \<le> snd x)"

lemma slots_holds: "slots r q \<Longrightarrow> ring_holds r q"
  by (simp add: slots_def)

lemma sizes_blocks_from [simp]: "map snd (blocks_from a us) = us"
  by (induction us arbitrary: a) simp_all

lemma holds_total: "ring_holds r q \<Longrightarrow> sum_list (map snd q) \<le> r_Size r"
proof -
  assume "ring_holds r q"
  then obtain sh where sh: "ring_shape r sh" "contents sh = q" by (auto simp: ring_holds_def)
  have "sum_list (map snd (contents sh)) \<le> tot (layout sh)" by (cases sh) simp_all
  then show ?thesis using ring_shape_size [OF sh(1)] sh(2) by simp
qed

text \<open>The resend buffer never holds more chunks than half of the sequence space.\<close>

lemma slots_few:
  assumes "slots r q"
  shows "length q \<le> 455"
proof -
  have "\<forall>x \<in> set q. 72 \<le> snd x \<Longrightarrow> 72 * length q \<le> sum_list (map snd q)" by (induction q) auto
  then have "72 * length q \<le> sum_list (map snd q)" using assms by (simp add: slots_def)
  also have "\<dots> \<le> 32760" using holds_total [OF slots_holds [OF assms]] assms by (simp add: slots_def)
  finally show ?thesis by simp
qed

definition pending :: "conn \<Rightarrow> resend list \<Rightarrow> bool" where
  "pending c ps \<longleftrightarrow> (\<exists>q. slots (c_Buffer c) q \<and> map (\<lambda>x. c_Chunks c (block_addr x)) q = ps)"

lemma pending_few: "pending c ps \<Longrightarrow> length ps \<le> 455"
  by (auto simp: pending_def dest: slots_few)

lemma pending_update [simp]:
  "pending (c\<lparr>c_SecurityToken := x0\<rparr>) ps = pending c ps"
  "pending (c\<lparr>c_Sequence := x1\<rparr>) ps = pending c ps"
  "pending (c\<lparr>c_Ack := x2\<rparr>) ps = pending c ps"
  "pending (c\<lparr>c_PeerAck := x3\<rparr>) ps = pending c ps"
  "pending (c\<lparr>c_State := x4\<rparr>) ps = pending c ps"
  "pending (c\<lparr>c_RemoteClosed := x5\<rparr>) ps = pending c ps"
  "pending (c\<lparr>c_BlockCloseMsg := x6\<rparr>) ps = pending c ps"
  "pending (c\<lparr>c_UnknownSeq := x7\<rparr>) ps = pending c ps"
  "pending (c\<lparr>c_LastUpdateTime := x8\<rparr>) ps = pending c ps"
  "pending (c\<lparr>c_LastRecvTime := x9\<rparr>) ps = pending c ps"
  "pending (c\<lparr>c_LastSendTime := x10\<rparr>) ps = pending c ps"
  "pending (c\<lparr>c_LastResendTime := x11\<rparr>) ps = pending c ps"
  "pending (c\<lparr>c_ResendRequested := x12\<rparr>) ps = pending c ps"
  "pending (c\<lparr>c_ErrorString := x13\<rparr>) ps = pending c ps"
  "pending (c\<lparr>c_Construct := x14\<rparr>) ps = pending c ps"
  "pending (c\<lparr>c_ConnectAddrs := x15\<rparr>) ps = pending c ps"
  "pending (c\<lparr>c_NumConnectAddrs := x16\<rparr>) ps = pending c ps"
  "pending (c\<lparr>c_PeerAddr := x17\<rparr>) ps = pending c ps"
  "pending (c\<lparr>c_PeerAddrStr := x18\<rparr>) ps = pending c ps"
  "pending (c\<lparr>c_PeerAddrStrNoPort := x19\<rparr>) ps = pending c ps"
  "pending (c\<lparr>c_TimeoutProtected := x20\<rparr>) ps = pending c ps"
  "pending (c\<lparr>c_TimeoutSituation := x21\<rparr>) ps = pending c ps"
  "pending (c\<lparr>c_Sixup := x22\<rparr>) ps = pending c ps"
  "pending (c\<lparr>c_Token := x23\<rparr>) ps = pending c ps"
  "pending (c\<lparr>c_Sent := x24\<rparr>) ps = pending c ps"
  by (simp_all add: pending_def)

lemma pending_cong: "c_Buffer c' = c_Buffer c \<Longrightarrow> c_Chunks c' = c_Chunks c \<Longrightarrow> pending c' ps = pending c ps"
  by (simp add: pending_def)

lemma pending_first:
  assumes "pending c ps"
  shows "case ps of [] \<Rightarrow> ring_First (c_Buffer c) = None
    | x # _ \<Rightarrow> \<exists>p. ring_First (c_Buffer c) = Some p \<and> c_Chunks c p = x"
proof -
  obtain q where q: "ring_holds (c_Buffer c) q" "map (\<lambda>x. c_Chunks c (block_addr x)) q = ps"
    using assms by (auto simp: pending_def dest: slots_holds)
  with rb.first_law [OF q(1)] show ?thesis by (cases q) auto
qed

lemma pending_pop:
  assumes "pending c (x # ps)"
  shows "\<exists>r. ring_PopFirst (c_Buffer c) = Some (True, r) \<and> pending (c\<lparr>c_Buffer := r\<rparr>) ps"
proof -
  obtain q where q: "slots (c_Buffer c) q" "map (\<lambda>x. c_Chunks c (block_addr x)) q = x # ps" using assms by (auto simp: pending_def)
  then obtain y ys where y: "q = y # ys" by (cases q) auto
  with PopFirst_holds [OF slots_holds [OF q(1)]] q show ?thesis by (auto simp: pending_def slots_def)
qed

lemma AckChunks_pending:
  "pending c ps \<Longrightarrow> \<exists>r. AckChunks a c = Some (c\<lparr>c_Buffer := r\<rparr>) \<and>
     pending (c\<lparr>c_Buffer := r\<rparr>) (dropWhile (\<lambda>x. IsSeqInBackroom (rs_Sequence x) a) ps)"
proof (induction ps arbitrary: c)
  case Nil
  have "AckChunks a c = Some c" using pending_first [OF Nil] by (subst AckChunks.simps) simp
  with Nil show ?case by (intro exI [of _ "c_Buffer c"]) simp
next
  case (Cons x ps)
  from pending_first [OF Cons.prems] obtain p where p: "ring_First (c_Buffer c) = Some p" "c_Chunks c p = x"
    by auto
  show ?case
  proof (cases "IsSeqInBackroom (rs_Sequence x) a")
    case True
    from pending_pop [OF Cons.prems] obtain r where
      r: "ring_PopFirst (c_Buffer c) = Some (True, r)" "pending (c\<lparr>c_Buffer := r\<rparr>) ps" by blast
    from Cons.IH [OF r(2)] obtain r' where
      i: "AckChunks a (c\<lparr>c_Buffer := r\<rparr>) = Some (c\<lparr>c_Buffer := r'\<rparr>)"
      "pending (c\<lparr>c_Buffer := r'\<rparr>) (dropWhile (\<lambda>x. IsSeqInBackroom (rs_Sequence x) a) ps)" by auto
    have "AckChunks a c = AckChunks a (c\<lparr>c_Buffer := r\<rparr>)"
      using True p r(1) by (subst AckChunks.simps) simp
    with i True show ?thesis by (intro exI [of _ r']) simp
  next
    case False
    then have "AckChunks a c = Some c" using p by (subst AckChunks.simps) simp
    with False Cons.prems show ?thesis by (intro exI [of _ "c_Buffer c"]) simp
  qed
qed

text \<open>Saving a chunk appends it, or fails and changes nothing.\<close>

definition saved :: "net_env \<Rightarrow> int \<Rightarrow> bytes \<Rightarrow> int \<Rightarrow> resend" where
  "saved E F d s =
     \<lparr>rs_Flags = F, rs_Data = d, rs_Sequence = s, rs_LastSendTime = e_Now E, rs_FirstSendTime = e_Now E\<rparr>"

lemma save_chunk_pending:
  assumes "pending c ps"
  shows "\<exists>res r m. save_chunk E F d s c = Some (res, c\<lparr>c_Buffer := r, c_Chunks := m\<rparr>) \<and>
    (if res = 0 then pending (c\<lparr>c_Buffer := r, c_Chunks := m\<rparr>) (ps @ [saved E F d s])
     else res = - 1 \<and> r = c_Buffer c \<and> m = c_Chunks c)"
proof -
  obtain q where q: "slots (c_Buffer c) q" "map (\<lambda>x. c_Chunks c (block_addr x)) q = ps"
    using assms by (auto simp: pending_def)
  from Allocate_holds [OF slots_holds [OF q(1)], of "SIZEOF_RESEND + length d"] obtain res r where
    a: "ring_Allocate (c_Buffer c) (SIZEOF_RESEND + length d) = Some (res, r)" "r_Recycle r = r_Recycle (c_Buffer c)"
      "r_Size r = r_Size (c_Buffer c)"
    and post: "case res of None \<Rightarrow> r = c_Buffer c \<and> (r_Size (c_Buffer c) < wanted_size (SIZEOF_RESEND + length d) \<or> \<not> r_Recycle (c_Buffer c))
      | Some p \<Rightarrow> \<exists>a k w. p = a + ITEM_SIZE \<and> alloc_post (c_Buffer c) q (wanted_size (SIZEOF_RESEND + length d)) a r k w"
    by blast
  show ?thesis
  proof (cases res)
    case None
    with a(1) post show ?thesis
      by (auto simp: save_chunk_def intro!: exI [of _ "- 1"] exI [of _ "c_Buffer c"] exI [of _ "c_Chunks c"])
  next
    case (Some p)
    with post obtain b w where p: "p = b + ITEM_SIZE" and h: "ring_holds r (q @ [(b, w)])"
      and w: "wanted_size (SIZEOF_RESEND + length d) \<le> w"
      using q(1) by (auto simp: alloc_post_def slots_def)
    have "wanted_size SIZEOF_RESEND \<le> wanted_size (SIZEOF_RESEND + length d)"
      unfolding wanted_size_def by (intro mult_le_mono1 div_le_mono) simp
    then have "72 \<le> w" using w by (simp add: wanted_size_def SIZEOF_RESEND_def ITEM_SIZE_def)
    with h a(2,3) q(1) have sl: "slots r (q @ [(b, w)])" by (auto simp: slots_def)
    let ?m = "(c_Chunks c)(p := saved E F d s)"
    have "p \<notin> block_addr ` set q" "block_addr (b, w) = p"
      using rb.distinct_law [OF h] p by (auto simp: block_addr_def)
    then have "map (\<lambda>x. ?m (block_addr x)) (q @ [(b, w)]) = ps @ [saved E F d s]"
      unfolding q(2) [symmetric] by (simp add: map_eq_conv) (metis image_eqI)
    with sl have "pending (c\<lparr>c_Buffer := r, c_Chunks := ?m\<rparr>) (ps @ [saved E F d s])"
      unfolding pending_def by (intro exI [of _ "q @ [(b, w)]"]) simp
    with a(1) Some show ?thesis by (auto simp: save_chunk_def saved_def)
  qed
qed

subsection \<open>The packet under construction\<close>

definition split_of :: "conn \<Rightarrow> nat" where
  "split_of c = (if c_Sixup c then 6 else 4)"

text \<open>The construct holds the chunks \<open>cs\<close> and has room for a token.\<close>

definition building :: "conn \<Rightarrow> (chunk_header \<times> bytes) list \<Rightarrow> bool" where
  "building c cs \<longleftrightarrow> wf_packet (c_Construct c) \<and> pk_Flags (c_Construct c) \<in> {0, 16} \<and>
     pk_DataSize (c_Construct c) \<le> 1393 \<and> pk_NumChunks (c_Construct c) = length cs \<and>
     pk_data (c_Construct c) = concat (map (enc_chunk (split_of c)) cs) \<and>
     (\<forall>x \<in> set cs. ok_chunk (split_of c) x)"

definition the_chunk :: "int \<Rightarrow> bytes \<Rightarrow> int \<Rightarrow> chunk_header \<times> bytes" where
  "the_chunk F d s = (\<lparr>ch_Flags = F, ch_Size = int (length d),
     ch_Sequence = (if F AND NET_CHUNKFLAG_VITAL \<noteq> 0 then s else - 1)\<rparr>, d)"

lemma wf_zero_packet: "wf_packet zero_packet" "pk_data zero_packet = []" "pk_Flags zero_packet = 0"
  "pk_NumChunks zero_packet = 0" "pk_DataSize zero_packet = 0"
  by (simp_all add: zero_packet_def wf_packet_def packet_consts pk_data_def)

lemma building_zero: "c_Construct c = zero_packet \<Longrightarrow> building c []"
  by (simp add: building_def wf_zero_packet)

definition fits :: "int \<Rightarrow> bytes \<Rightarrow> int \<Rightarrow> bool" where
  "fits F d s \<longleftrightarrow> 0 \<le> F \<and> F < 4 \<and> length d \<le> NET_MAX_CHUNK_SIZE \<and> 0 \<le> s \<and> s < NET_MAX_SEQUENCE"

lemma ok_the_chunk: "fits F d s \<Longrightarrow> ok_chunk (split_of c) (the_chunk F d s)"
  by (simp add: fits_def ok_chunk_def the_chunk_def wf_header_def split_of_def packet_consts)

lemma chunk_Pack_the_chunk:
  "chunk_Pack \<lparr>ch_Flags = F, ch_Size = int (length d), ch_Sequence = s\<rparr> S = chunk_Pack (fst (the_chunk F d s)) S"
  by (simp add: chunk_Pack_def the_chunk_def Let_def)

lemma enc_the_chunk:
  assumes "fits F d s"
  shows "\<exists>hdr. chunk_Pack \<lparr>ch_Flags = F, ch_Size = int (length d), ch_Sequence = s\<rparr> (split_of c) = Inr hdr \<and>
    length hdr \<le> 3 \<and> enc_chunk (split_of c) (the_chunk F d s) = hdr @ d"
proof -
  from ok_the_chunk [OF assms, of c] have "wf_header (split_of c) (fst (the_chunk F d s))" by (simp add: ok_chunk_def)
  from chunk_Pack_ok [OF this] obtain hdr where
    "chunk_Pack (fst (the_chunk F d s)) (split_of c) = Inr hdr" "length hdr \<le> 3" by blast
  then show ?thesis unfolding chunk_Pack_the_chunk by (simp add: enc_chunk_def the_chunk_def)
qed

lemma pack_chunk_building:
  assumes "building c cs" "fits F d s" "pk_DataSize (c_Construct c) + length d + 3 \<le> 1393" "length cs < 255"
  shows "\<exists>K. pack_chunk F d s c = Some (c\<lparr>c_Construct := K\<rparr>) \<and> pk_Flags K = pk_Flags (c_Construct c) \<and>
    building (c\<lparr>c_Construct := K\<rparr>) (cs @ [the_chunk F d s])"
proof -
  let ?K = "c_Construct c"
  from enc_the_chunk [OF assms(2), of c] obtain hdr where
    h: "chunk_Pack \<lparr>ch_Flags = F, ch_Size = int (length d), ch_Sequence = s\<rparr> (split_of c) = Inr hdr"
      "length hdr \<le> 3" "enc_chunk (split_of c) (the_chunk F d s) = hdr @ d" by blast
  have b: "wf_packet ?K" "pk_Flags ?K \<in> {0, 16}" "pk_NumChunks ?K = length cs"
    "pk_data ?K = concat (map (enc_chunk (split_of c)) cs)" "\<forall>x \<in> set cs. ok_chunk (split_of c) x"
    using assms(1) by (simp_all add: building_def)
  let ?n = "pk_DataSize ?K + length (hdr @ d)"
  let ?d = "take (pk_DataSize ?K) (pk_ChunkData ?K) @ (hdr @ d) @ drop ?n (pk_ChunkData ?K)"
  have l: "length (pk_ChunkData ?K) = 1397" using b(1) by (simp add: wf_packet_def packet_consts)
  have n: "?n \<le> 1393" using assms(3) h(2) by simp
  have w: "mem_write (pk_ChunkData ?K) (pk_DataSize ?K) (hdr @ d) = Inr ?d"
    by (rule mem_write_ok) (use n l in simp)
  let ?K' = "?K\<lparr>pk_ChunkData := ?d, pk_NumChunks := pk_NumChunks ?K + 1, pk_DataSize := ?n\<rparr>"
  have p: "pack_chunk F d s c = Some (c\<lparr>c_Construct := ?K'\<rparr>)"
    using h(1) w by (simp add: pack_chunk_def run_def split_of_def)
  have "pk_data ?K' = pk_data ?K @ hdr @ d"
    using n l by (simp add: pk_data_def)
  moreover have "wf_packet ?K'" using b(1) n l assms(4) b(3) by (simp add: wf_packet_def packet_consts)
  ultimately have "building (c\<lparr>c_Construct := ?K'\<rparr>) (cs @ [the_chunk F d s])"
    using b n h(3) ok_the_chunk [OF assms(2), of c] by (auto simp: building_def split_of_def)
  with p show ?thesis by (intro exI [of _ ?K']) simp
qed

subsection \<open>Flushing\<close>

lemma SendPacket_ok:
  assumes "wf_packet p" "IsValidConnectionOrientedPacket p"
    "pk_Flags p AND NET_PACKETFLAG_COMPRESSION = 0" "pk_DataSize p + 4 \<le> NET_MAX_PACKETSIZE - NET_PACKETHEADERSIZE"
  shows "\<exists>bs p'. SendPacket h p t Sixup = Inr (bs, p')"
proof -
  let ?H = "if Sixup then NET_PACKETHEADERSIZE + 4 else NET_PACKETHEADERSIZE"
  obtain p1 where p1: "append_token p t Sixup = Inr p1" "wf_packet p1"
    "pk_DataSize p1 = pk_DataSize p + length (token_tail t Sixup)"
    using append_token_ok [OF assms(1,4)] by blast
  have d1: "length (pk_data p1) = pk_DataSize p1" using p1(2) by (rule length_pk_data)
  have room: "?H + pk_DataSize p1 \<le> NET_MAX_PACKETSIZE"
    using assms(4) p1(3) by (auto simp: packet_consts token_tail_def)
  show ?thesis
  proof (cases "try_compress h p1 ?H")
    case None
    then show ?thesis using assms(2,3) room d1 p1(1) by (simp add: SendPacket_def Let_def cong: if_cong)
  next
    case (Some out)
    then have "length out < pk_DataSize p1"
      by (auto simp: try_compress_def split: if_splits sum.splits)
    then have "\<not> ?H + length out > NET_MAX_PACKETSIZE" using room by simp
    then show ?thesis using Some assms(2,3) p1(1) by (simp add: SendPacket_def Let_def cong: if_cong)
  qed
qed

definition can_send :: "conn \<Rightarrow> bool" where
  "can_send c \<longleftrightarrow> pk_NumChunks (c_Construct c) \<noteq> 0 \<or> pk_Flags (c_Construct c) AND NET_PACKETFLAG_RESEND \<noteq> 0"

lemma Flush_spec:
  assumes "building c cs" "c_Ack c < 1024"
  shows "if can_send c
    then \<exists>bs p'. SendPacket (e_Huffman E) ((c_Construct c)\<lparr>pk_Ack := c_Ack c\<rparr>) (c_SecurityToken c) (c_Sixup c) = Inr (bs, p') \<and>
      Flush E c = Some (length cs, c\<lparr>c_Sent := c_Sent c @ [(c_PeerAddr c, bs)], c_LastSendTime := e_Now E,
                                     c_Construct := zero_packet\<rparr>)
    else Flush E c = Some (0, c)"
proof (cases "can_send c")
  case False
  then show ?thesis by (simp add: Flush_def can_send_def Let_def)
next
  case True
  let ?p = "(c_Construct c)\<lparr>pk_Ack := c_Ack c\<rparr>"
  have b: "wf_packet (c_Construct c)" "pk_Flags (c_Construct c) \<in> {0, 16}" "pk_DataSize (c_Construct c) \<le> 1393"
    "pk_NumChunks (c_Construct c) = length cs" using assms(1) by (simp_all add: building_def)
  have w: "wf_packet ?p" using b(1) assms(2) by (simp add: wf_packet_def)
  have "pk_Flags ?p \<in> {0, 4, 16, 20, 32, 48}" using b(2) by auto
  from valid_unfold [OF this] have v: "IsValidConnectionOrientedPacket ?p"
    using b(1,2) True by (auto simp: can_send_def wf_packet_def packet_flags)
  have "pk_Flags ?p AND NET_PACKETFLAG_COMPRESSION = 0" using b(2) by (auto simp: packet_flags)
  moreover have "pk_DataSize ?p + 4 \<le> NET_MAX_PACKETSIZE - NET_PACKETHEADERSIZE" using b(3) by (simp add: packet_consts)
  ultimately obtain bs p' where
    "SendPacket (e_Huffman E) ?p (c_SecurityToken c) (c_Sixup c) = Inr (bs, p')"
    using SendPacket_ok [OF w v] by blast
  with True b(4) show ?thesis by (auto simp: Flush_def can_send_def run_def Let_def)
qed

subsection \<open>Queueing and resending\<close>

text \<open>What queueing may change.\<close>

definition same_link :: "conn \<Rightarrow> conn \<Rightarrow> bool" where
  "same_link c c' \<longleftrightarrow> c' = c\<lparr>c_Construct := c_Construct c', c_Buffer := c_Buffer c', c_Chunks := c_Chunks c',
     c_Sent := c_Sent c', c_LastSendTime := c_LastSendTime c'\<rparr>"

lemma same_link_refl [simp]: "same_link c c"
  by (simp add: same_link_def)

lemma same_link_update [simp]:
  "same_link c (c'\<lparr>c_Construct := K\<rparr>) = same_link c c'" "same_link c (c'\<lparr>c_Buffer := b\<rparr>) = same_link c c'"
  "same_link c (c'\<lparr>c_Chunks := m\<rparr>) = same_link c c'" "same_link c (c'\<lparr>c_Sent := s\<rparr>) = same_link c c'"
  "same_link c (c'\<lparr>c_LastSendTime := t\<rparr>) = same_link c c'"
  by (cases c; cases c'; simp add: same_link_def)+

lemma same_link_trans: "same_link c c1 \<Longrightarrow> same_link c1 c2 \<Longrightarrow> same_link c c2"
  by (cases c; cases c1; cases c2; simp add: same_link_def)

lemma same_link_fields:
  assumes "same_link c c'"
  shows "c_SecurityToken c' = c_SecurityToken c" "c_Sequence c' = c_Sequence c" "c_Ack c' = c_Ack c"
    "c_PeerAck c' = c_PeerAck c" "c_State c' = c_State c" "c_Sixup c' = c_Sixup c" "c_Token c' = c_Token c"
    "c_PeerAddr c' = c_PeerAddr c" "c_ConnectAddrs c' = c_ConnectAddrs c" "c_NumConnectAddrs c' = c_NumConnectAddrs c"
    "c_ErrorString c' = c_ErrorString c" "c_UnknownSeq c' = c_UnknownSeq c" "c_RemoteClosed c' = c_RemoteClosed c"
    "c_TimeoutSituation c' = c_TimeoutSituation c" "c_LastRecvTime c' = c_LastRecvTime c"
    "c_ResendRequested c' = c_ResendRequested c" "c_BlockCloseMsg c' = c_BlockCloseMsg c"
  using assms by (cases c; cases c'; simp add: same_link_def)+

lemma split_of_link: "same_link c c' \<Longrightarrow> split_of c' = split_of c"
  by (simp add: split_of_def same_link_fields)

definition alive :: "conn \<Rightarrow> bool" where
  "alive c \<longleftrightarrow> c_State c \<noteq> OFFLINE \<and> c_State c \<noteq> ERROR"

text \<open>The part of \<open>QueueChunkEx\<close> up to the packed chunk.\<close>

lemma queue_pack:
  assumes "building c cs" "c_Ack c < 1024" "fits F d s" "pending c ps"
  defines "full \<equiv> pk_DataSize (c_Construct c) + length d + NET_MAX_CHUNKHEADERSIZE > length (pk_ChunkData (c_Construct c)) - 4 \<or>
    pk_NumChunks (c_Construct c) = NET_MAX_PACKET_CHUNKS"
  shows "\<exists>c1 c2 cs'. (if full then map_option snd (Flush E c) else Some c) = Some c1 \<and>
    pack_chunk F d s c1 = Some c2 \<and> same_link c c2 \<and> building c2 (cs' @ [the_chunk F d s]) \<and>
    (cs' = cs \<or> cs' = []) \<and> pending c2 ps \<and> c_Buffer c2 = c_Buffer c \<and> c_Chunks c2 = c_Chunks c"
proof -
  have k: "wf_packet (c_Construct c)" "pk_NumChunks (c_Construct c) = length cs"
    using assms(1) by (simp_all add: building_def)
  then have l: "length (pk_ChunkData (c_Construct c)) = 1397" "length cs \<le> 255"
    by (simp_all add: wf_packet_def packet_consts)
  have d: "length d \<le> 1023" using assms(3) by (simp add: fits_def packet_consts)
  show ?thesis
  proof (cases full)
    case True
    have "can_send c"
    proof (rule ccontr)
      assume "\<not> can_send c"
      then have "cs = []" using k(2) by (simp add: can_send_def)
      with assms(1) have "pk_data (c_Construct c) = []" by (simp add: building_def)
      with length_pk_data [OF k(1)] have "pk_DataSize (c_Construct c) = 0" by simp
      with True \<open>cs = []\<close> d l(1) k(2) show False by (simp add: full_def packet_consts)
    qed
    with Flush_spec [OF assms(1,2), of E] obtain bs where
      f: "Flush E c = Some (length cs, c\<lparr>c_Sent := c_Sent c @ [(c_PeerAddr c, bs)], c_LastSendTime := e_Now E,
        c_Construct := zero_packet\<rparr>)" by auto
    let ?c = "c\<lparr>c_Sent := c_Sent c @ [(c_PeerAddr c, bs)], c_LastSendTime := e_Now E, c_Construct := zero_packet\<rparr>"
    have "building ?c []" by (rule building_zero) simp
    from pack_chunk_building [OF this assms(3)] d obtain K where
      "pack_chunk F d s ?c = Some (?c\<lparr>c_Construct := K\<rparr>)" "building (?c\<lparr>c_Construct := K\<rparr>) ([] @ [the_chunk F d s])"
      by (auto simp: wf_zero_packet)
    then show ?thesis using True f assms(4) by (auto intro: exI [of _ "[]"])
  next
    case False
    then have "pk_DataSize (c_Construct c) + length d + 3 \<le> 1393" "length cs < 255"
      using l k(2) by (auto simp: full_def packet_consts)
    from pack_chunk_building [OF assms(1,3) this] obtain K where
      "pack_chunk F d s c = Some (c\<lparr>c_Construct := K\<rparr>)" "building (c\<lparr>c_Construct := K\<rparr>) (cs @ [the_chunk F d s])"
      by blast
    then show ?thesis using False assms(4) by (auto intro: exI [of _ cs])
  qed
qed

lemma fits_cases: "fits F d s \<Longrightarrow> F = 0 \<or> F = 1 \<or> F = 2 \<or> F = 3"
  by (auto simp: fits_def)

lemma QueueChunkEx_spec:
  assumes "building c cs" "c_Ack c < 1024" "fits F d s" "pending c ps" "alive c"
  shows "\<exists>r c' cs'. QueueChunkEx E F d s c = Some (r, c') \<and> same_link c c' \<and>
    building c' (cs' @ [the_chunk F d s]) \<and> (cs' = cs \<or> cs' = []) \<and>
    (if F = 1 then r = 0 \<and> pending c' (ps @ [saved E F d s]) \<or> r = - 1 \<and> pending c' ps \<and> c_Buffer c' = c_Buffer c
     else r = 0 \<and> pending c' ps \<and> c_Buffer c' = c_Buffer c \<and> c_Chunks c' = c_Chunks c)"
proof -
  from queue_pack [OF assms(1-4), of E] obtain c1 c2 cs' where
    q: "(if pk_DataSize (c_Construct c) + length d + NET_MAX_CHUNKHEADERSIZE > length (pk_ChunkData (c_Construct c)) - 4 \<or>
        pk_NumChunks (c_Construct c) = NET_MAX_PACKET_CHUNKS then map_option snd (Flush E c) else Some c) = Some c1"
    "pack_chunk F d s c1 = Some c2" "same_link c c2" "building c2 (cs' @ [the_chunk F d s])" "cs' = cs \<or> cs' = []"
    "pending c2 ps" "c_Buffer c2 = c_Buffer c" "c_Chunks c2 = c_Chunks c"
    by blast
  have u: "QueueChunkEx E F d s c = (if F AND NET_CHUNKFLAG_VITAL \<noteq> 0 \<and> \<not> F AND NET_CHUNKFLAG_RESEND \<noteq> 0
      then save_chunk E F d s c2 else Some (0, c2))"
    using assms(5) q(2) unfolding QueueChunkEx_def q(1) by (simp add: alive_def)
  have v: "F AND NET_CHUNKFLAG_VITAL \<noteq> 0 \<and> \<not> F AND NET_CHUNKFLAG_RESEND \<noteq> 0 \<longleftrightarrow> F = 1"
    using fits_cases [OF assms(3)] by (auto simp: NET_CHUNKFLAG_VITAL_def NET_CHUNKFLAG_RESEND_def)
  show ?thesis
  proof (cases "F = 1")
    case False
    with u v have "QueueChunkEx E F d s c = Some (0, c2)" by (simp only: if_False)
    with False q(3-8) show ?thesis by (intro exI [of _ 0] exI [of _ c2] exI [of _ cs']) simp
  next
    case True
    from save_chunk_pending [OF q(6), of E F d s] obtain res r m where
      s: "save_chunk E F d s c2 = Some (res, c2\<lparr>c_Buffer := r, c_Chunks := m\<rparr>)"
      "if res = 0 then pending (c2\<lparr>c_Buffer := r, c_Chunks := m\<rparr>) (ps @ [saved E F d s])
       else res = - 1 \<and> r = c_Buffer c2 \<and> m = c_Chunks c2" by blast
    let ?c = "c2\<lparr>c_Buffer := r, c_Chunks := m\<rparr>"
    have l: "same_link c ?c" using q(3) by simp
    have b: "building ?c (cs' @ [the_chunk F d s])" using q(4) by (simp add: building_def split_of_def)
    have "QueueChunkEx E F d s c = Some (res, ?c)" using u v True s(1) by simp
    moreover have "res = 0 \<and> pending ?c (ps @ [saved E F d s]) \<or>
        res = - 1 \<and> pending ?c ps \<and> c_Buffer ?c = c_Buffer c"
      using s(2) q(6,7) by (auto simp: pending_def split: if_splits)
    ultimately show ?thesis using l b q(5) True by (intro exI [of _ res] exI [of _ ?c] exI [of _ cs']) simp
  qed
qed

definition resend_ok :: "resend \<Rightarrow> bool" where
  "resend_ok x \<longleftrightarrow> rs_Flags x = NET_CHUNKFLAG_VITAL \<and> fits 1 (rs_Data x) (rs_Sequence x)"

lemma ResendChunk_spec:
  assumes "building c cs" "c_Ack c < 1024" "pending c ps" "resend_ok (c_Chunks c p)"
  shows "\<exists>c' cs'. ResendChunk E p c = Some c' \<and> same_link c c' \<and> building c' cs' \<and> c_Buffer c' = c_Buffer c \<and>
    c_Chunks c' = (c_Chunks c)(p := (c_Chunks c p)\<lparr>rs_LastSendTime := e_Now E\<rparr>)"
proof (cases "alive c")
  case False
  then have "QueueChunkEx E F d s c = Some (- 1, c)" for F d s
    by (auto simp: QueueChunkEx_def alive_def)
  with assms(1) show ?thesis by (auto simp: ResendChunk_def building_def split_of_def)
next
  case True
  let ?x = "c_Chunks c p"
  have f: "rs_Flags ?x OR NET_CHUNKFLAG_RESEND = 3" "fits 3 (rs_Data ?x) (rs_Sequence ?x)"
    using assms(4) by (simp_all add: resend_ok_def fits_def NET_CHUNKFLAG_VITAL_def NET_CHUNKFLAG_RESEND_def)
  from QueueChunkEx_spec [OF assms(1,2) f(2) assms(3) True, of E] obtain c' cs' where
    q: "QueueChunkEx E 3 (rs_Data ?x) (rs_Sequence ?x) c = Some (0, c')" "same_link c c'" "building c' cs'"
      "c_Buffer c' = c_Buffer c" "c_Chunks c' = c_Chunks c" by auto
  let ?c = "c'\<lparr>c_Chunks := (c_Chunks c')(p := (c_Chunks c' p)\<lparr>rs_LastSendTime := e_Now E\<rparr>)\<rparr>"
  have "ResendChunk E p c = Some ?c" using q(1) f(1) by (simp add: ResendChunk_def)
  moreover have "building ?c cs'" using q(3) by (simp add: building_def split_of_def)
  ultimately show ?thesis using q(2,4,5) by (intro exI [of _ ?c] exI [of _ cs']) simp
qed

definition touch :: "net_env \<Rightarrow> resend \<Rightarrow> resend" where
  "touch E x = x\<lparr>rs_LastSendTime := e_Now E\<rparr>"

lemma resend_ok_touch [simp]: "resend_ok (touch E x) = resend_ok x"
  by (simp add: resend_ok_def touch_def)

text \<open>The loop visits the blocks of the ring once each; its walk is that of the queue interface.\<close>

lemma resend_loop_spec:
  "slots (c_Buffer c) (q @ q') \<Longrightarrow> building c cs \<Longrightarrow> c_Ack c < 1024 \<Longrightarrow>
   \<forall>x \<in> set q'. resend_ok (c_Chunks c (block_addr x)) \<Longrightarrow>
   \<exists>c' cs'. resend_loop E (case q' of [] \<Rightarrow> None | x # _ \<Rightarrow> Some (block_addr x)) c = Some c' \<and>
     same_link c c' \<and> building c' cs' \<and> c_Buffer c' = c_Buffer c \<and>
     (\<forall>a. c_Chunks c' a = (if a \<in> block_addr ` set q' then touch E (c_Chunks c a) else c_Chunks c a))"
proof (induction q' arbitrary: q c cs)
  case Nil
  then show ?case by (subst resend_loop.simps) auto
next
  case (Cons x q')
  let ?p = "block_addr x"
  have pend: "pending c (map (\<lambda>x. c_Chunks c (block_addr x)) (q @ x # q'))"
    using Cons.prems(1) by (auto simp: pending_def)
  have "resend_ok (c_Chunks c ?p)" using Cons.prems(4) by simp
  from ResendChunk_spec [OF Cons.prems(2,3) pend this, of E] obtain c1 cs1 where
    c1: "ResendChunk E ?p c = Some c1" "same_link c c1" "building c1 cs1" "c_Buffer c1 = c_Buffer c"
      "c_Chunks c1 = (c_Chunks c)(?p := touch E (c_Chunks c ?p))" unfolding touch_def by blast
  have dist: "?p \<notin> block_addr ` set q'"
    using rb.distinct_law [OF slots_holds [OF Cons.prems(1)]] by auto
  have ok1: "\<forall>x \<in> set q'. resend_ok (c_Chunks c1 (block_addr x))"
    using Cons.prems(4) by (simp add: c1(5))
  have h1: "slots (c_Buffer c1) ((q @ [x]) @ q')" "c_Ack c1 < 1024"
    using Cons.prems(1,3) c1(4) same_link_fields(3) [OF c1(2)] by simp_all
  from Cons.IH [OF h1(1) c1(3) h1(2) ok1] obtain c' cs' where
    i: "resend_loop E (case q' of [] \<Rightarrow> None | x # _ \<Rightarrow> Some (block_addr x)) c1 = Some c'"
      "same_link c1 c'" "building c' cs'" "c_Buffer c' = c_Buffer c1"
      "\<forall>a. c_Chunks c' a = (if a \<in> block_addr ` set q' then touch E (c_Chunks c1 a) else c_Chunks c1 a)" by blast
  have nx: "ring_Next (c_Buffer c1) ?p = Some (case q' of [] \<Rightarrow> None | y # _ \<Rightarrow> Some (block_addr y))"
    unfolding c1(4) by (rule rb.next_law [OF slots_holds [OF Cons.prems(1)]])
  have "resend_loop E (Some ?p) c = Some c'"
    using c1(1) nx i(1) by (subst resend_loop.simps) simp
  moreover have "\<forall>a. c_Chunks c' a = (if a \<in> block_addr ` set (x # q') then touch E (c_Chunks c a) else c_Chunks c a)"
    using i(5) dist by (auto simp: c1(5))
  ultimately show ?case
    using i(3,4) c1(4) same_link_trans [OF c1(2) i(2)] by (intro exI [of _ c'] exI [of _ cs']) simp
qed

lemma Resend_spec:
  assumes "building c cs" "c_Ack c < 1024" "pending c ps" "\<forall>x \<in> set ps. resend_ok x"
  shows "\<exists>c' cs'. Resend E c = Some c' \<and> same_link c c' \<and> building c' cs' \<and> pending c' (map (touch E) ps)"
proof -
  obtain q where q: "slots (c_Buffer c) q" "map (\<lambda>x. c_Chunks c (block_addr x)) q = ps"
    using assms(3) by (auto simp: pending_def)
  have "\<forall>x \<in> set q. resend_ok (c_Chunks c (block_addr x))" using assms(4) q(2) by auto
  from resend_loop_spec [of c "[]" q cs E] q(1) assms(1,2) this obtain c' cs' where
    r: "resend_loop E (case q of [] \<Rightarrow> None | x # _ \<Rightarrow> Some (block_addr x)) c = Some c'" "same_link c c'"
      "building c' cs'" "c_Buffer c' = c_Buffer c"
      "\<forall>a. c_Chunks c' a = (if a \<in> block_addr ` set q then touch E (c_Chunks c a) else c_Chunks c a)" by auto
  have "Resend E c = Some c'" using r(1) rb.first_law [OF slots_holds [OF q(1)]] by (simp add: Resend_def)
  moreover have "map (\<lambda>x. c_Chunks c' (block_addr x)) q = map (touch E) ps"
    using r(5) q(2) by auto
  then have "pending c' (map (touch E) ps)" using q(1) r(4) by (auto simp: pending_def)
  ultimately show ?thesis using r(2,3) by blast
qed

subsection \<open>Control messages\<close>

lemma SendControlMsg_ok:
  assumes "length extra \<le> 1392" "Ack < 1024"
  shows "\<exists>bs. SendControlMsg h Ack m extra t Sixup = Inr bs"
proof -
  have l: "length (pk_ChunkData zero_packet) = 1397" by (simp add: zero_packet_def packet_consts)
  let ?d = "take 0 (pk_ChunkData zero_packet) @ (m # extra) @ drop (0 + length (m # extra)) (pk_ChunkData zero_packet)"
  have w: "mem_write (pk_ChunkData zero_packet) 0 (m # extra) = Inr ?d"
    by (rule mem_write_ok) (use assms l in simp)
  let ?p = "zero_packet\<lparr>pk_Flags := NET_PACKETFLAG_CONTROL, pk_Ack := Ack, pk_NumChunks := 0,
    pk_DataSize := 1 + length extra, pk_ChunkData := ?d\<rparr>"
  have "wf_packet ?p" "pk_DataSize ?p + 4 \<le> NET_MAX_PACKETSIZE - NET_PACKETHEADERSIZE"
    using assms l by (simp_all add: wf_packet_def packet_consts zero_packet_def)
  moreover have "IsValidConnectionOrientedPacket ?p" "pk_Flags ?p AND NET_PACKETFLAG_COMPRESSION = 0"
    by (simp_all add: IsValidConnectionOrientedPacket_def packet_flags)
  ultimately obtain bs p' where "SendPacket h ?p t Sixup = Inr (bs, p')" using SendPacket_ok by blast
  then show ?thesis unfolding SendControlMsg_def w by simp
qed

subsection \<open>The invariant of a connection\<close>

definition conn_ok :: "conn \<Rightarrow> bool" where
  "conn_ok c \<longleftrightarrow> (\<exists>ps. pending c ps \<and> (\<forall>x \<in> set ps. resend_ok x)) \<and> (\<exists>cs. building c cs) \<and>
     c_Sequence c < 1024 \<and> c_Ack c < 1024 \<and> c_PeerAck c < 1024 \<and> length (c_ConnectAddrs c) = 16 \<and>
     c_NumConnectAddrs c \<le> 16 \<and> length (c_ErrorString c) < 256"

lemma conn_okI:
  "pending c ps \<Longrightarrow> \<forall>x \<in> set ps. resend_ok x \<Longrightarrow> building c cs \<Longrightarrow> c_Sequence c < 1024 \<Longrightarrow> c_Ack c < 1024 \<Longrightarrow>
   c_PeerAck c < 1024 \<Longrightarrow> length (c_ConnectAddrs c) = 16 \<Longrightarrow> c_NumConnectAddrs c \<le> 16 \<Longrightarrow>
   length (c_ErrorString c) < 256 \<Longrightarrow> conn_ok c"
  by (auto simp: conn_ok_def)

lemma conn_ok_link:
  assumes "conn_ok c" "same_link c c'" "pending c' ps" "\<forall>x \<in> set ps. resend_ok x" "building c' cs"
  shows "conn_ok c'"
  by (rule conn_okI [OF assms(3-5)])
    (use assms(1) same_link_fields [OF assms(2)] in \<open>simp_all add: conn_ok_def\<close>)

lemma building_update [simp]:
  "building (c\<lparr>c_State := a1\<rparr>) cs = building c cs" "building (c\<lparr>c_PeerAck := a2\<rparr>) cs = building c cs"
  "building (c\<lparr>c_Sequence := a3\<rparr>) cs = building c cs" "building (c\<lparr>c_Ack := a4\<rparr>) cs = building c cs"
  "building (c\<lparr>c_RemoteClosed := a5\<rparr>) cs = building c cs" "building (c\<lparr>c_UnknownSeq := a6\<rparr>) cs = building c cs"
  "building (c\<lparr>c_Buffer := a7\<rparr>) cs = building c cs" "building (c\<lparr>c_LastRecvTime := a8\<rparr>) cs = building c cs"
  "building (c\<lparr>c_LastSendTime := a9\<rparr>) cs = building c cs" "building (c\<lparr>c_LastResendTime := b1\<rparr>) cs = building c cs"
  "building (c\<lparr>c_ResendRequested := b2\<rparr>) cs = building c cs" "building (c\<lparr>c_ErrorString := b3\<rparr>) cs = building c cs"
  "building (c\<lparr>c_PeerAddr := b4\<rparr>) cs = building c cs" "building (c\<lparr>c_PeerAddrStr := b5\<rparr>) cs = building c cs"
  "building (c\<lparr>c_PeerAddrStrNoPort := b6\<rparr>) cs = building c cs" "building (c\<lparr>c_TimeoutSituation := b7\<rparr>) cs = building c cs"
  "building (c\<lparr>c_SecurityToken := b8\<rparr>) cs = building c cs" "building (c\<lparr>c_Sent := b9\<rparr>) cs = building c cs"
  by (simp_all add: building_def split_of_def)

lemma conn_ok_update [simp]:
  "conn_ok (c\<lparr>c_State := a1\<rparr>) = conn_ok c" "conn_ok (c\<lparr>c_RemoteClosed := a5\<rparr>) = conn_ok c"
  "conn_ok (c\<lparr>c_UnknownSeq := a6\<rparr>) = conn_ok c" "conn_ok (c\<lparr>c_LastRecvTime := a8\<rparr>) = conn_ok c"
  "conn_ok (c\<lparr>c_LastSendTime := a9\<rparr>) = conn_ok c" "conn_ok (c\<lparr>c_LastResendTime := b1\<rparr>) = conn_ok c"
  "conn_ok (c\<lparr>c_ResendRequested := b2\<rparr>) = conn_ok c" "conn_ok (c\<lparr>c_PeerAddr := b4\<rparr>) = conn_ok c"
  "conn_ok (c\<lparr>c_PeerAddrStr := b5\<rparr>) = conn_ok c" "conn_ok (c\<lparr>c_PeerAddrStrNoPort := b6\<rparr>) = conn_ok c"
  "conn_ok (c\<lparr>c_TimeoutSituation := b7\<rparr>) = conn_ok c" "conn_ok (c\<lparr>c_SecurityToken := b8\<rparr>) = conn_ok c"
  "conn_ok (c\<lparr>c_Sent := b9\<rparr>) = conn_ok c"
  by (simp_all add: conn_ok_def)

lemma conn_ok_set:
  "conn_ok c \<Longrightarrow> a < 1024 \<Longrightarrow> conn_ok (c\<lparr>c_PeerAck := a\<rparr>)"
  "conn_ok c \<Longrightarrow> a < 1024 \<Longrightarrow> conn_ok (c\<lparr>c_Sequence := a\<rparr>)"
  "conn_ok c \<Longrightarrow> a < 1024 \<Longrightarrow> conn_ok (c\<lparr>c_Ack := a\<rparr>)"
  "conn_ok c \<Longrightarrow> length s < 256 \<Longrightarrow> conn_ok (c\<lparr>c_ErrorString := s\<rparr>)"
  by (simp_all add: conn_ok_def)

lemma str_copy_length: "0 < n \<Longrightarrow> length (str_copy s n) < n"
proof -
  assume "0 < n"
  moreover have "length (str_utf8_fix_truncation t) \<le> length t" for t
    by (auto simp: str_utf8_fix_truncation_def Let_def)
  from this [of "take (n - 1) s"] have "length (str_utf8_fix_truncation (take (n - 1) s)) \<le> n - 1"
    by (rule order_trans) simp
  ultimately show ?thesis by (auto simp: str_copy_def)
qed

lemma SetError_ok: "conn_ok c \<Longrightarrow> conn_ok (SetError s c)"
  using str_copy_length [of 256 s] by (simp add: SetError_def conn_ok_set)

lemma conn_Reset_ok:
  assumes "length (c_ErrorString c) < 256"
  shows "conn_ok (conn_Reset c)"
proof (rule conn_okI)
  have "ring_holds (ring_Init (c_Buffer c) NET_CONN_BUFFERSIZE False) []"
    by (rule Init_holds) (simp add: ITEM_SIZE_def NET_CONN_BUFFERSIZE_def)
  then show "pending (conn_Reset c) []"
    by (simp add: pending_def slots_def conn_Reset_def ring_Init_def ring_Clear_def NET_CONN_BUFFERSIZE_def ITEM_SIZE_def)
  show "building (conn_Reset c) []" by (rule building_zero) (simp add: conn_Reset_def)
qed (use assms in \<open>simp_all add: conn_Reset_def\<close>)

text \<open>The reset connection may be given a protocol and a list of addresses.\<close>

lemma fresh_ok:
  assumes "conn_ok c" "c_Construct c = zero_packet"
  shows "conn_ok (c\<lparr>c_Sixup := s\<rparr>)" "conn_ok (c\<lparr>c_Token := t\<rparr>)"
proof -
  have "building (c\<lparr>c_Sixup := s\<rparr>) []" "building (c\<lparr>c_Token := t\<rparr>) []"
    using assms(2) by (auto intro: building_zero)
  then show "conn_ok (c\<lparr>c_Sixup := s\<rparr>)" "conn_ok (c\<lparr>c_Token := t\<rparr>)"
    using assms(1) by (auto simp: conn_ok_def)
qed

subsection \<open>Each operation returns and keeps the invariant\<close>

lemma QueueChunkEx_ok:
  assumes "conn_ok c" "fits F d s"
  shows "\<exists>r c'. QueueChunkEx E F d s c = Some (r, c') \<and> conn_ok c' \<and> same_link c c'"
proof (cases "alive c")
  case False
  then show ?thesis using assms(1) by (auto simp: QueueChunkEx_def alive_def)
next
  case True
  from assms(1) obtain ps cs where p: "pending c ps" "\<forall>x \<in> set ps. resend_ok x" "building c cs" "c_Ack c < 1024"
    by (auto simp: conn_ok_def)
  from QueueChunkEx_spec [OF p(3,4) assms(2) p(1) True, of E] obtain r c' cs' where
    q: "QueueChunkEx E F d s c = Some (r, c')" "same_link c c'" "building c' (cs' @ [the_chunk F d s])"
      "pending c' (ps @ [saved E F d s]) \<and> F = 1 \<or> pending c' ps" by metis
  have "F = 1 \<Longrightarrow> resend_ok (saved E F d s)"
    using assms(2) by (simp add: resend_ok_def saved_def NET_CHUNKFLAG_VITAL_def)
  with q(4) p(2) obtain ps' where ps: "pending c' ps'" "\<forall>x \<in> set ps'. resend_ok x" by fastforce
  have "conn_ok c'" by (rule conn_ok_link [OF assms(1) q(2) ps q(3)])
  with q(1,2) show ?thesis by blast
qed

lemma QueueChunk_ok:
  assumes "conn_ok c" "0 \<le> F" "F < 4" "length d \<le> NET_MAX_CHUNK_SIZE"
  shows "\<exists>r c'. QueueChunk E F d c = Some (r, c') \<and> conn_ok c' \<and> c_State c' = c_State c"
proof -
  define c1 where "c1 = (if F AND NET_CHUNKFLAG_VITAL \<noteq> 0
    then c\<lparr>c_Sequence := (c_Sequence c + 1) mod nat NET_MAX_SEQUENCE\<rparr> else c)"
  have ok: "conn_ok c1" using assms(1) by (auto simp: c1_def NET_MAX_SEQUENCE_def intro: conn_ok_set)
  then have "c_Sequence c1 < 1024" by (simp add: conn_ok_def)
  then have "fits F d (int (c_Sequence c1))"
    using assms(2-4) by (simp add: fits_def NET_MAX_SEQUENCE_def)
  from QueueChunkEx_ok [OF ok this, of E] obtain r c' where
    q: "QueueChunkEx E F d (int (c_Sequence c1)) c1 = Some (r, c')" "conn_ok c'" "same_link c1 c'" by blast
  have "QueueChunk E F d c = Some (r, c')" using q(1) by (simp only: QueueChunk_def Let_def c1_def)
  moreover have "c_State c' = c_State c" using same_link_fields(5) [OF q(3)] by (simp add: c1_def)
  ultimately show ?thesis using q(2) by blast
qed

lemma Flush_ok:
  assumes "conn_ok c"
  shows "\<exists>n c'. Flush E c = Some (n, c') \<and> conn_ok c' \<and> same_link c c' \<and> (c' = c \<or> c_Construct c' = zero_packet)"
proof -
  from assms obtain ps cs where p: "pending c ps" "\<forall>x \<in> set ps. resend_ok x" "building c cs" "c_Ack c < 1024"
    by (auto simp: conn_ok_def)
  show ?thesis
  proof (cases "can_send c")
    case False
    with Flush_spec [OF p(3,4), of E] assms show ?thesis by simp
  next
    case True
    with Flush_spec [OF p(3,4), of E] obtain bs where
      f: "Flush E c = Some (length cs, c\<lparr>c_Sent := c_Sent c @ [(c_PeerAddr c, bs)], c_LastSendTime := e_Now E,
        c_Construct := zero_packet\<rparr>)" by auto
    let ?c = "c\<lparr>c_Sent := c_Sent c @ [(c_PeerAddr c, bs)], c_LastSendTime := e_Now E, c_Construct := zero_packet\<rparr>"
    have "conn_ok ?c"
      by (rule conn_ok_link [OF assms, of _ ps "[]"]) (use p(1,2) in \<open>simp_all add: building_zero\<close>)
    with f show ?thesis by simp
  qed
qed

lemma Resend_ok:
  assumes "conn_ok c"
  shows "\<exists>c'. Resend E c = Some c' \<and> conn_ok c' \<and> same_link c c'"
proof -
  from assms obtain ps cs where p: "pending c ps" "\<forall>x \<in> set ps. resend_ok x" "building c cs" "c_Ack c < 1024"
    by (auto simp: conn_ok_def)
  from Resend_spec [OF p(3,4,1,2), of E] obtain c' cs' where
    r: "Resend E c = Some c'" "same_link c c'" "building c' cs'" "pending c' (map (touch E) ps)" by blast
  have "\<forall>x \<in> set (map (touch E) ps). resend_ok x" using p(2) by auto
  from conn_ok_link [OF assms r(2,4) this r(3)] r show ?thesis by blast
qed

lemma AnswerResendRequest_ok:
  assumes "conn_ok c"
  shows "\<exists>c'. AnswerResendRequest E c = Some c' \<and> conn_ok c' \<and>
    (c' = c \<or> same_link (c\<lparr>c_ResendRequested := False, c_LastResendTime := e_Now E\<rparr>) c')"
proof -
  let ?c = "c\<lparr>c_ResendRequested := False, c_LastResendTime := e_Now E\<rparr>"
  have "conn_ok ?c" using assms by simp
  from Resend_ok [OF this, of E] obtain c' where r: "Resend E ?c = Some c'" "conn_ok c'" "same_link ?c c'" by blast
  have "AnswerResendRequest E c = Some c \<or> AnswerResendRequest E c = Some c'"
    using r(1) by (simp add: AnswerResendRequest_def)
  with r(2,3) assms show ?thesis by (elim disjE) blast+
qed

lemma send_control_to_ok:
  assumes "conn_ok c" "length extra \<le> 1392"
  shows "\<exists>bs. send_control_to E a m extra c = Some (c\<lparr>c_Sent := c_Sent c @ [(a, bs)]\<rparr>)"
  using SendControlMsg_ok [OF assms(2), of "c_Ack c" "e_Huffman E" m "c_SecurityToken c" "c_Sixup c"] assms(1)
  by (auto simp: send_control_to_def run_def conn_ok_def)

lemma send_connects_ok:
  "conn_ok c \<Longrightarrow> \<exists>bs. send_connects E as c = Some (c\<lparr>c_Sent := c_Sent c @ bs\<rparr>)"
proof (induction as arbitrary: c)
  case Nil
  then show ?case by (auto intro: exI [of _ "[]"])
next
  case (Cons a as)
  have "length SECURITY_TOKEN_MAGIC \<le> 1392" by (simp add: SECURITY_TOKEN_MAGIC_def lit_def)
  from send_control_to_ok [OF Cons.prems this, of E a NET_CTRLMSG_CONNECT] obtain bs where
    b: "send_control_to E a NET_CTRLMSG_CONNECT SECURITY_TOKEN_MAGIC c = Some (c\<lparr>c_Sent := c_Sent c @ [(a, bs)]\<rparr>)" by blast
  from Cons.IH [of "c\<lparr>c_Sent := c_Sent c @ [(a, bs)]\<rparr>"] Cons.prems b show ?case by auto
qed

lemma SendConnect_ok: "conn_ok c \<Longrightarrow> \<exists>bs. SendConnect E c = Some (c\<lparr>c_LastSendTime := e_Now E, c_Sent := c_Sent c @ bs\<rparr>)"
  using send_connects_ok [of "c\<lparr>c_LastSendTime := e_Now E\<rparr>"] by (simp add: SendConnect_def)

lemma SendControl_ok:
  "conn_ok c \<Longrightarrow> length extra \<le> 1392 \<Longrightarrow>
   \<exists>bs. SendControl E m extra c = Some (c\<lparr>c_LastSendTime := e_Now E, c_Sent := c_Sent c @ bs\<rparr>)"
  using send_control_to_ok [of "c\<lparr>c_LastSendTime := e_Now E\<rparr>" extra E "c_PeerAddr c" m] by (auto simp: SendControl_def)

lemma SendControlWithToken7_ok:
  "\<exists>bs. SendControlWithToken7 E m t c = Some (c\<lparr>c_LastSendTime := e_Now E, c_Sent := c_Sent c @ bs\<rparr>)"
proof -
  let ?x = "take NET_TOKENREQUEST_DATASIZE ([ucast (drop_bit 24 (c_Token c)), ucast (drop_bit 16 (c_Token c)),
    ucast (drop_bit 8 (c_Token c)), ucast (c_Token c)] @ replicate (NET_TOKENREQUEST_DATASIZE - 4) 0) :: bytes"
  have "length ?x \<le> 1392" by (simp add: packet_consts)
  from SendControlMsg_ok [OF this, of 0 "e_Huffman E" m t True] show ?thesis
    by (auto simp: SendControlWithToken7_def SendControlMsgWithToken7_def run_def Let_def)
qed

definition addr_known :: "netaddr \<Rightarrow> bool" where
  "addr_known a \<longleftrightarrow> na_type a AND (NETTYPE_IPV4 OR NETTYPE_WEBSOCKET_IPV4) \<noteq> 0 \<or>
     na_type a AND (NETTYPE_IPV6 OR NETTYPE_WEBSOCKET_IPV6) \<noteq> 0"

lemma SetPeerAddr_ok:
  "addr_known a \<Longrightarrow> \<exists>s t. SetPeerAddr a c = Some (c\<lparr>c_PeerAddr := a, c_PeerAddrStr := s, c_PeerAddrStrNoPort := t\<rparr>)"
  by (auto simp: SetPeerAddr_def addr_known_def net_addr_str_def run_def Let_def)

lemma AckChunks_ok:
  assumes "conn_ok c"
  shows "\<exists>c'. AckChunks a c = Some c' \<and> conn_ok c' \<and> same_link c c'"
proof -
  from assms obtain ps cs where p: "pending c ps" "\<forall>x \<in> set ps. resend_ok x" "building c cs" by (auto simp: conn_ok_def)
  from AckChunks_pending [OF p(1), of a] obtain r where
    r: "AckChunks a c = Some (c\<lparr>c_Buffer := r\<rparr>)"
      "pending (c\<lparr>c_Buffer := r\<rparr>) (dropWhile (\<lambda>x. IsSeqInBackroom (rs_Sequence x) a) ps)" by blast
  have "conn_ok (c\<lparr>c_Buffer := r\<rparr>)"
    by (rule conn_ok_link [OF assms _ r(2)]) (use p(2,3) in \<open>auto dest: set_dropWhileD\<close>)
  with r(1) show ?thesis by auto
qed

lemma magic_length [simp]: "length SECURITY_TOKEN_MAGIC = 4"
  by (simp add: SECURITY_TOKEN_MAGIC_def lit_def)

lemma feed_control_ok:
  assumes "conn_ok c" "addr_known a"
  shows "\<exists>c'. feed_control E p a rt c = Some c' \<and> conn_ok c' \<and>
    (c_State c' = c_State c \<or> c_State c = WANT_TOKEN \<and> c_State c' = CONNECT \<or> c_State c = CONNECT \<and> c_State c' = ONLINE)"
proof -
  have t7: "\<exists>c'. feed_token7 E rt c = Some c' \<and> conn_ok c' \<and>
      (c_State c' = c_State c \<or> c_State c = WANT_TOKEN \<and> c_State c' = CONNECT)"
  proof (cases "c_State c = WANT_TOKEN")
    case True
    with SendControlWithToken7_ok [of E NET_CTRLMSG_CONNECT rt
        "c\<lparr>c_LastRecvTime := e_Now E, c_State := CONNECT, c_SecurityToken := rt\<rparr>"] assms(1)
    show ?thesis by (auto simp: feed_token7_def)
  qed (use assms(1) in \<open>auto simp: feed_token7_def\<close>)
  have acc: "\<exists>c'. feed_accept E p a c = Some c' \<and> conn_ok c' \<and> c_State c' = ONLINE"
  proof -
    from SetPeerAddr_ok [OF assms(2), of c] obtain s t where
      s: "SetPeerAddr a c = Some (c\<lparr>c_PeerAddr := a, c_PeerAddrStr := s, c_PeerAddrStrNoPort := t\<rparr>)" by blast
    let ?c = "c\<lparr>c_PeerAddr := a, c_PeerAddrStr := s, c_PeerAddrStrNoPort := t\<rparr>"
    define c2 where "c2 = (if c_SecurityToken ?c = NET_SECURITY_TOKEN_UNKNOWN \<and>
           pk_DataSize p \<ge> 1 + length SECURITY_TOKEN_MAGIC + 4 \<and>
           take (length SECURITY_TOKEN_MAGIC) (drop 1 (pk_ChunkData p)) = SECURITY_TOKEN_MAGIC
        then ?c\<lparr>c_SecurityToken := ToSecurityToken (drop (1 + length SECURITY_TOKEN_MAGIC) (pk_ChunkData p))\<rparr>
        else if \<not> c_Sixup ?c then ?c\<lparr>c_SecurityToken := NET_SECURITY_TOKEN_UNSUPPORTED\<rparr> else ?c)"
    have ok2: "conn_ok c2" using assms(1) by (simp add: c2_def)
    from SendControl_ok [OF ok2, of "[]" E NET_CTRLMSG_ACCEPT] obtain bs where
      bs: "SendControl E NET_CTRLMSG_ACCEPT [] c2 = Some (c2\<lparr>c_LastSendTime := e_Now E, c_Sent := c_Sent c2 @ bs\<rparr>)" by auto
    have u: "feed_accept E p a c = (case (if \<not> c_Sixup c2 then SendControl E NET_CTRLMSG_ACCEPT [] c2 else Some c2) of
        None \<Rightarrow> None | Some c3 \<Rightarrow> Some (c3\<lparr>c_LastRecvTime := e_Now E, c_State := ONLINE\<rparr>))"
      unfolding feed_accept_def s Option.bind.bind_lunit c2_def [symmetric] by (simp split: option.split)
    show ?thesis using ok2 unfolding u bs by (cases "c_Sixup c2") simp_all
  qed
  show ?thesis
  proof (cases "c_Sixup c \<and> pk_ChunkData p ! 0 = NET_CTRLMSG_TOKEN")
    case True
    with t7 show ?thesis by (auto simp: feed_control_def Let_def)
  next
    case False
    with acc assms(1) show ?thesis
      by (cases "c_State c = CONNECT \<and> pk_ChunkData p ! 0 = NET_CTRLMSG_CONNECTACCEPT") (auto simp: feed_control_def Let_def)
  qed
qed

lemma feed_close_ok: "conn_ok c \<Longrightarrow> conn_ok (feed_close p c) \<and> c_State (feed_close p c) = ERROR"
  using SetError_ok [of "c\<lparr>c_State := ERROR, c_RemoteClosed := True\<rparr>" "close_reason p"]
  by (simp add: feed_close_def Let_def SetError_def)

text \<open>The state changes \<open>Feed\<close> may make.\<close>

definition feed_moves :: "estate \<Rightarrow> estate \<Rightarrow> bool" where
  "feed_moves a b \<longleftrightarrow> b = a \<or> b = ERROR \<or> a = WANT_TOKEN \<and> b = CONNECT \<or> a = CONNECT \<and> b = ONLINE \<or> a = PENDING \<and> b = ONLINE"

lemma Feed_ok:
  assumes "conn_ok c" "c_State c \<noteq> OFFLINE" "pk_Ack p < 1024" "addr_known a"
  shows "\<exists>r p' c'. Feed E p a t rt c = Some (r, p', c') \<and> conn_ok c' \<and> feed_moves (c_State c) (c_State c')"
proof -
  obtain ok p1 where ct: "check_token c p t = (ok, p1)" by (cases "check_token c p t")
  have p1: "pk_Ack p1 = pk_Ack p"
    using ct by (auto simp: check_token_def Let_def split: if_splits prod.splits)
  have stay: "\<exists>r p' c'. Some (0 :: int, q, c) = Some (r, p', c') \<and> conn_ok c' \<and> feed_moves (c_State c) (c_State c')" for q :: net_packet
    using assms(1) by (simp add: feed_moves_def)
  show ?thesis
  proof (cases "IsPeerAddress c a \<and> ok \<and> check_ack c p1")
    case False
    with assms(2) stay show ?thesis by (auto simp: Feed_def ct)
  next
    case True
    define c2 where "c2 = (if pk_Flags p1 AND NET_PACKETFLAG_RESEND \<noteq> 0
      then (c\<lparr>c_PeerAck := pk_Ack p1\<rparr>)\<lparr>c_ResendRequested := True\<rparr> else c\<lparr>c_PeerAck := pk_Ack p1\<rparr>)"
    have ok2: "conn_ok c2" "c_State c2 = c_State c"
      using assms(1,3) p1 by (simp_all add: c2_def conn_ok_set)
    from AnswerResendRequest_ok [OF ok2(1), of E] obtain c3 where
      c3: "AnswerResendRequest E c2 = Some c3" "conn_ok c3" and
      d: "c3 = c2 \<or> same_link (c2\<lparr>c_ResendRequested := False, c_LastResendTime := e_Now E\<rparr>) c3" by blast
    have st3: "c_State c3 = c_State c" using d ok2(2) same_link_fields(5) by fastforce
    let ?ctrl = "pk_Flags p1 AND NET_PACKETFLAG_CONTROL \<noteq> 0"
    define r4 where "r4 = (if ?ctrl then feed_control E p1 a rt c3
       else if c_State c3 = PENDING then Some (c3\<lparr>c_LastRecvTime := e_Now E, c_State := ONLINE\<rparr>) else Some c3)"
    have "\<exists>c4. r4 = Some c4 \<and> conn_ok c4 \<and> feed_moves (c_State c) (c_State c4)"
      using feed_control_ok [OF c3(2) assms(4), of E p1 rt] c3(2) st3
      by (auto simp: r4_def feed_moves_def)
    then obtain c4 where c4: "r4 = Some c4" "conn_ok c4" "feed_moves (c_State c) (c_State c4)" by blast
    define r5 where "r5 = (if c_State c4 = ONLINE then AckChunks (int (pk_Ack p1)) (c4\<lparr>c_LastRecvTime := e_Now E\<rparr>) else Some c4)"
    have "\<exists>c5. r5 = Some c5 \<and> conn_ok c5 \<and> c_State c5 = c_State c4"
    proof (cases "c_State c4 = ONLINE")
      case True
      from AckChunks_ok [of "c4\<lparr>c_LastRecvTime := e_Now E\<rparr>" "int (pk_Ack p1)"] c4(2) obtain c' where
        "AckChunks (int (pk_Ack p1)) (c4\<lparr>c_LastRecvTime := e_Now E\<rparr>) = Some c'" "conn_ok c'"
        "same_link (c4\<lparr>c_LastRecvTime := e_Now E\<rparr>) c'" by auto
      with True same_link_fields(5) show ?thesis by (fastforce simp: r5_def)
    qed (use c4(2) in \<open>simp add: r5_def\<close>)
    then obtain c5 where c5: "r5 = Some c5" "conn_ok c5" "c_State c5 = c_State c4" by blast
    have F: "Feed E p a t rt c = (if ?ctrl \<and> pk_ChunkData p1 ! 0 = NET_CTRLMSG_CLOSE
        then Some (0, p1, feed_close p1 c3) else Some (1, p1, c5))"
      using True assms(2) c3(1) c4(1) c5(1) unfolding r4_def r5_def c2_def
      by (simp add: Feed_def ct cong: if_cong)
    show ?thesis
      using F feed_close_ok [OF c3(2), of p1] c4(3) c5 by (auto simp: feed_moves_def)
  qed
qed

lemma ResendFirst_ok:
  assumes "conn_ok c" "ring_First (c_Buffer c) = Some p"
  shows "\<exists>c'. ResendChunk E p c = Some c' \<and> conn_ok c' \<and> same_link c c'"
proof -
  from assms(1) obtain ps cs where p: "pending c ps" "\<forall>x \<in> set ps. resend_ok x" "building c cs" "c_Ack c < 1024"
    by (auto simp: conn_ok_def)
  then obtain q where q: "slots (c_Buffer c) q" "map (\<lambda>x. c_Chunks c (block_addr x)) q = ps"
    by (auto simp: pending_def)
  from rb.first_law [OF slots_holds [OF q(1)]] assms(2) obtain x q' where x: "q = x # q'" "block_addr x = p" by (cases q) auto
  then have "resend_ok (c_Chunks c p)" using p(2) q(2) by auto
  from ResendChunk_spec [OF p(3,4,1) this, of E] obtain c' cs' where
    r: "ResendChunk E p c = Some c'" "same_link c c'" "building c' cs'" "c_Buffer c' = c_Buffer c"
      "c_Chunks c' = (c_Chunks c)(p := touch E (c_Chunks c p))" unfolding touch_def by blast
  have "pending c' (map (\<lambda>x. c_Chunks c' (block_addr x)) q)" using q(1) r(4) by (auto simp: pending_def)
  moreover have "\<forall>y \<in> set (map (\<lambda>x. c_Chunks c' (block_addr x)) q). resend_ok y"
    using p(2) q(2) r(5) by auto
  ultimately have "conn_ok c'" using conn_ok_link [OF assms(1) r(2) _ _ r(3)] by blast
  with r(1,2) show ?thesis by blast
qed

definition update_moves :: "estate \<Rightarrow> estate \<Rightarrow> bool" where
  "update_moves a b \<longleftrightarrow> b = a \<or> b = ERROR \<and> a \<noteq> OFFLINE"

lemma update_timeout_ok:
  "conn_ok c \<Longrightarrow> alive c \<Longrightarrow> conn_ok (update_timeout E c) \<and> update_moves (c_State c) (c_State (update_timeout E c))"
  using SetError_ok [of "c\<lparr>c_State := ERROR\<rparr>" "lit ''Timeout''"]
  by (auto simp: update_timeout_def update_moves_def SetError_def alive_def)

lemma update_resends_ok:
  assumes "conn_ok c" "c_State c \<noteq> OFFLINE"
  shows "\<exists>c'. update_resends E c = Some c' \<and> conn_ok c' \<and> update_moves (c_State c) (c_State c')"
proof (cases "ring_First (c_Buffer c)")
  case None
  with assms show ?thesis by (auto simp: update_resends_def update_moves_def)
next
  case (Some p)
  have e: "conn_ok (SetError s (c\<lparr>c_State := ERROR\<rparr>))" for s
    using assms(1) by (intro SetError_ok) simp
  from ResendFirst_ok [OF assms(1) Some, of E] obtain c' where
    r: "ResendChunk E p c = Some c'" "conn_ok c'" "same_link c c'" by blast
  show ?thesis
    using Some e r(1,2) same_link_fields(5) [OF r(3)] assms
    by (simp add: update_resends_def update_moves_def SetError_def)
qed

lemma update_keepalive_ok:
  assumes "conn_ok c"
  shows "\<exists>c'. update_keepalive E c = Some c' \<and> conn_ok c' \<and> c_State c' = c_State c"
proof -
  from Flush_ok [OF assms, of E] obtain n c1 where
    f: "Flush E c = Some (n, c1)" "conn_ok c1" "same_link c c1" by blast
  have keep: "\<exists>c'. SendControl E m x d = Some c' \<and> conn_ok c' \<and> c_State c' = c_State d"
    if "conn_ok d" "length x \<le> 1392" for m x d
    using SendControl_ok [OF that, of E m] that(1) by auto
  have con: "\<exists>c'. SendConnect E c = Some c' \<and> conn_ok c' \<and> c_State c' = c_State c"
    using SendConnect_ok [OF assms, of E] assms by auto
  define c2 where "c2 = (if e_Now E - c_LastSendTime c > c_div (e_Freq E) 2 then c1 else c)"
  have c2: "c_State c2 = c_State c" "conn_ok c2" using f assms same_link_fields(5) [OF f(3)] by (simp_all add: c2_def)
  have fl: "(if e_Now E - c_LastSendTime c > c_div (e_Freq E) 2 then map_option snd (Flush E c) else Some c) = Some c2"
    by (simp add: f(1) c2_def)
  show ?thesis
  proof (cases "c_State c = ONLINE")
    case True
    then have "update_keepalive E c =
        (if e_Now E - c_LastSendTime c2 > e_Freq E then SendControl E NET_CTRLMSG_KEEPALIVE [] c2 else Some c2)"
      unfolding update_keepalive_def fl by simp
    with keep [OF c2(2), of "[]" NET_CTRLMSG_KEEPALIVE] c2 show ?thesis
      by (cases "e_Now E - c_LastSendTime c2 > e_Freq E") simp_all
  next
    case False
    with keep [OF assms, of SECURITY_TOKEN_MAGIC NET_CTRLMSG_CONNECTACCEPT] con assms show ?thesis
      by (cases "c_State c"; cases "e_Now E - c_LastSendTime c > c_div (e_Freq E) 2") (simp_all add: update_keepalive_def)
  qed
qed

lemma Update_ok:
  assumes "conn_ok c"
  shows "\<exists>c'. conn_Update E c = Some c' \<and> conn_ok c' \<and> update_moves (c_State c) (c_State c')"
proof -
  define c1 where "c1 = (if c_State c = ERROR \<and> c_TimeoutSituation c \<and>
      e_Now E - c_LastRecvTime c > e_Freq E * e_ConnTimeoutProtection E
    then SetError (lit ''Timeout Protection over'') (c\<lparr>c_TimeoutSituation := False\<rparr>) else c)"
  have c1: "conn_ok c1" "c_State c1 = c_State c"
    using assms SetError_ok [of "c\<lparr>c_TimeoutSituation := False\<rparr>"] by (simp_all add: c1_def SetError_def)
  show ?thesis
  proof (cases "alive c1")
    case False
    then have "conn_Update E c = Some c1" unfolding conn_Update_def c1_def [symmetric] by (auto simp: alive_def Let_def)
    with c1 show ?thesis by (simp add: update_moves_def)
  next
    case True
    have "conn_ok (c1\<lparr>c_TimeoutSituation := False\<rparr>)" using c1(1) by simp
    from AnswerResendRequest_ok [OF this, of E] obtain c2 where
      c2: "AnswerResendRequest E (c1\<lparr>c_TimeoutSituation := False\<rparr>) = Some c2" "conn_ok c2" and
      d: "c2 = c1\<lparr>c_TimeoutSituation := False\<rparr> \<or>
        same_link (c1\<lparr>c_TimeoutSituation := False, c_ResendRequested := False, c_LastResendTime := e_Now E\<rparr>) c2" by auto
    have s2: "c_State c2 = c_State c1" using d same_link_fields(5) by fastforce
    then have a2: "alive c2" using True by (simp add: alive_def)
    note t = update_timeout_ok [OF c2(2) a2, of E]
    then have "c_State (update_timeout E c2) \<noteq> OFFLINE" using a2 by (auto simp: update_moves_def alive_def)
    from update_resends_ok [OF conjunct1 [OF t] this, of E] obtain c3 where
      c3: "update_resends E (update_timeout E c2) = Some c3" "conn_ok c3"
        "update_moves (c_State (update_timeout E c2)) (c_State c3)" by blast
    from update_keepalive_ok [OF c3(2), of E] obtain c4 where
      c4: "update_keepalive E c3 = Some c4" "conn_ok c4" "c_State c4 = c_State c3" by blast
    have "conn_Update E c = Some c4"
      using True c2(1) c3(1) c4(1) unfolding conn_Update_def c1_def [symmetric] by (auto simp: alive_def Let_def)
    with c4 c3(3) t s2 c1(2) show ?thesis by (auto simp: update_moves_def)
  qed
qed

subsection \<open>Opening, closing, unpacking\<close>

lemma reset_fields [simp]:
  "c_State (conn_Reset c) = OFFLINE" "c_Construct (conn_Reset c) = zero_packet"
  "length (c_ConnectAddrs (conn_Reset c)) = 16" "c_ErrorString (conn_Reset c) = c_ErrorString c"
  by (simp_all add: conn_Reset_def)

lemma set_addrs_ok:
  assumes "conn_ok c" "length addrs \<le> 16"
  shows "conn_ok (set_addrs addrs c)"
proof -
  have "building (set_addrs addrs c) cs = building c cs" "pending (set_addrs addrs c) ps = pending c ps" for cs ps
    by (simp_all add: set_addrs_def building_def split_of_def pending_def)
  with assms show ?thesis by (auto simp: conn_ok_def set_addrs_def)
qed

lemma Connect_ok:
  assumes "conn_ok c" "length addrs \<le> 16"
  shows "\<exists>r c'. Connect E addrs c = Some (r, c') \<and> conn_ok c' \<and>
    (c' = c \<or> c_State c = OFFLINE \<and> c_State c' = CONNECT)"
proof (cases "c_State c = OFFLINE")
  case True
  let ?c = "(set_addrs addrs (ClearPeerAddr (conn_Reset c)))\<lparr>c_ErrorString := [], c_State := CONNECT\<rparr>"
  have "length (c_ErrorString c) < 256" using assms(1) by (simp add: conn_ok_def)
  from conn_Reset_ok [OF this] have "conn_ok (ClearPeerAddr (conn_Reset c))" by (simp add: ClearPeerAddr_def)
  from set_addrs_ok [OF this assms(2)] have ok: "conn_ok ?c" by (simp add: conn_ok_set)
  from SendConnect_ok [OF ok, of E] obtain bs where
    "SendConnect E ?c = Some (?c\<lparr>c_LastSendTime := e_Now E, c_Sent := c_Sent ?c @ bs\<rparr>)" by blast
  with True ok assms(2) show ?thesis by (simp add: Connect_def)
qed (use assms in \<open>simp add: Connect_def\<close>)

lemma Connect7_ok:
  assumes "conn_ok c" "length addrs \<le> 16" "addrs \<noteq> []" "addr_known (hd addrs)"
  shows "\<exists>r c'. Connect7 E addrs c = Some (r, c') \<and> conn_ok c' \<and>
    (c' = c \<or> c_State c = OFFLINE \<and> c_State c' = WANT_TOKEN)"
proof (cases "c_State c = OFFLINE")
  case True
  let ?c = "(set_addrs addrs (conn_Reset c))\<lparr>c_LastRecvTime := e_Now E\<rparr>"
  have "length (c_ErrorString c) < 256" using assms(1) by (simp add: conn_ok_def)
  from set_addrs_ok [OF conn_Reset_ok [OF this] assms(2)] have ok: "conn_ok ?c" by simp
  from SetPeerAddr_ok [OF assms(4), of ?c] obtain s t where
    s: "SetPeerAddr (hd addrs) ?c = Some (?c\<lparr>c_PeerAddr := hd addrs, c_PeerAddrStr := s, c_PeerAddrStrNoPort := t\<rparr>)" by blast
  define c1 where "c1 = ?c\<lparr>c_PeerAddr := hd addrs, c_PeerAddrStr := s, c_PeerAddrStrNoPort := t\<rparr>"
  have z1: "c_Construct c1 = zero_packet" "c_State c1 = OFFLINE" by (simp_all add: c1_def set_addrs_def)
  have "conn_ok c1" using ok by (simp add: c1_def)
  then have ok1: "conn_ok (SetToken7 (e_Random E) c1)" using z1 by (simp add: SetToken7_def fresh_ok)
  define c2 where "c2 = (SetToken7 (e_Random E) c1)\<lparr>c_ErrorString := [], c_State := WANT_TOKEN\<rparr>"
  have ok2: "conn_ok c2" using ok1 by (simp add: c2_def conn_ok_set)
  from SendControlWithToken7_ok [of E NET_CTRLMSG_TOKEN NET_TOKEN_NONE c2] obtain bs where
    b: "SendControlWithToken7 E NET_CTRLMSG_TOKEN NET_TOKEN_NONE c2 =
      Some (c2\<lparr>c_LastSendTime := e_Now E, c_Sent := c_Sent c2 @ bs\<rparr>)" by blast
  let ?c3 = "c2\<lparr>c_LastSendTime := e_Now E, c_Sent := c_Sent c2 @ bs\<rparr>"
  have "c_Construct ?c3 = zero_packet" "conn_ok ?c3" using z1 ok2 by (simp_all add: c2_def SetToken7_def)
  then have "conn_ok (?c3\<lparr>c_Sixup := True\<rparr>)" by (simp add: fresh_ok)
  moreover have "Connect7 E addrs c = Some (0, ?c3\<lparr>c_Sixup := True\<rparr>)"
    using True assms(2,3) s b by (simp add: Connect7_def c1_def c2_def)
  ultimately show ?thesis using True by (simp add: c2_def)
qed (use assms in \<open>simp add: Connect7_def\<close>)

lemma Disconnect_ok:
  assumes "conn_ok c" "\<forall>s. r = Reason s \<longrightarrow> length s < 1392"
  shows "\<exists>c'. Disconnect E r c = Some c' \<and> conn_ok c' \<and> c_State c' = OFFLINE"
proof -
  have e: "length (c_ErrorString c) < 256" using assms(1) by (simp add: conn_ok_def)
  note reset = conn_Reset_ok [OF e]
  define x where "x = (case reason_text r c of Some s \<Rightarrow> s @ [0] | None \<Rightarrow> [])"
  have "length x \<le> 1392" using assms(2) e by (auto simp: x_def reason_text_def split: reason.splits)
  from SendControl_ok [OF assms(1) this, of E NET_CTRLMSG_CLOSE] obtain bs where
    b: "SendControl E NET_CTRLMSG_CLOSE x c = Some (c\<lparr>c_LastSendTime := e_Now E, c_Sent := c_Sent c @ bs\<rparr>)" by blast
  define c1 where "c1 = (if \<not> c_TimeoutSituation c then c\<lparr>c_LastSendTime := e_Now E, c_Sent := c_Sent c @ bs\<rparr> else c)"
  have s: "(if \<not> c_TimeoutSituation c then
      (case reason_text r c of Some s \<Rightarrow> SendControl E NET_CTRLMSG_CLOSE (s @ [0]) c
       | None \<Rightarrow> SendControl E NET_CTRLMSG_CLOSE [] c) else Some c) = Some c1"
    using b by (auto simp: c1_def x_def split: option.splits)
  define err where "err = (case reason_text r c of None \<Rightarrow> [] | Some s \<Rightarrow> str_copy s 256)"
  have l: "length err < 256" using str_copy_length [of 256] by (auto simp: err_def split: option.splits)
  have l1: "length (c_ErrorString c1) < 256" using e by (simp add: c1_def)
  define c2 where "c2 = conn_Reset (if r \<noteq> OwnErrorString then c1\<lparr>c_ErrorString := err\<rparr> else c1)"
  have c2: "conn_ok c2" "c_State c2 = OFFLINE"
    using conn_Reset_ok [of "c1\<lparr>c_ErrorString := err\<rparr>"] conn_Reset_ok [OF l1] l by (auto simp: c2_def)
  have "conn_ok ((conn_Reset c)\<lparr>c_ErrorString := []\<rparr>)" using reset by (simp add: conn_ok_set)
  moreover have "Disconnect E r c = (if c_State c = OFFLINE then Some c
      else if c_State c = BOT then Some ((conn_Reset c)\<lparr>c_ErrorString := []\<rparr>)
      else if \<not> c_RemoteClosed c then Some c2 else Some (conn_Reset c))"
    unfolding Disconnect_def s c2_def err_def by simp
  ultimately show ?thesis using reset c2 assms(1) by simp
qed

lemma DirectInit_ok:
  assumes "conn_ok c" "addr_known a"
  shows "\<exists>c'. DirectInit E a st t S c = Some c' \<and> conn_ok c' \<and> c_State c' = ONLINE"
proof -
  have "length (c_ErrorString c) < 256" using assms(1) by (simp add: conn_ok_def)
  from conn_Reset_ok [OF this] have ok: "conn_ok ((conn_Reset c)\<lparr>c_State := ONLINE\<rparr>)" by simp
  from SetPeerAddr_ok [OF assms(2), of "(conn_Reset c)\<lparr>c_State := ONLINE\<rparr>"] obtain s u where
    s: "SetPeerAddr a ((conn_Reset c)\<lparr>c_State := ONLINE\<rparr>) =
      Some ((conn_Reset c)\<lparr>c_State := ONLINE, c_PeerAddr := a, c_PeerAddrStr := s, c_PeerAddrStrNoPort := u\<rparr>)" by auto
  define c1 where "c1 = (conn_Reset c)\<lparr>c_State := ONLINE, c_PeerAddr := a, c_PeerAddrStr := s, c_PeerAddrStrNoPort := u\<rparr>"
  have "conn_ok c1" "c_Construct c1 = zero_packet" using ok by (simp_all add: c1_def)
  define c2 where "c2 = c1\<lparr>c_ErrorString := [], c_LastSendTime := e_Now E, c_LastRecvTime := e_Now E,
    c_SecurityToken := st\<rparr>"
  have c2: "conn_ok c2" "c_Construct c2 = zero_packet"
    using \<open>conn_ok c1\<close> \<open>c_Construct c1 = zero_packet\<close> by (simp_all add: c2_def conn_ok_set)
  have "conn_ok (c2\<lparr>c_Token := t\<rparr>)" using c2 by (simp add: fresh_ok)
  then have "conn_ok ((c2\<lparr>c_Token := t\<rparr>)\<lparr>c_Sixup := S\<rparr>)" using c2(2) by (simp add: fresh_ok)
  then have ok3: "conn_ok ((c2\<lparr>c_Token := t, c_Sixup := S\<rparr>)\<lparr>c_LastUpdateTime := e_Now E\<rparr>)"
    by (simp add: conn_ok_def building_def split_of_def)
  have "DirectInit E a st t S c = Some ((c2\<lparr>c_Token := t, c_Sixup := S\<rparr>)\<lparr>c_LastUpdateTime := e_Now E\<rparr>)"
    unfolding DirectInit_def s by (simp add: c2_def c1_def)
  with ok3 show ?thesis by (simp add: c2_def c1_def)
qed

end
