(* ===== verification/NetDelivery.thy ===== *)
theory NetDelivery
  imports NetConnLaws
begin

text \<open>
  What a receiver gets: the chunk unpacker on the packets of a sender, the order in which vital
  chunks are accepted, and an abstract model of the link (loss, repetition and reordering of
  chunks) in which every accepted chunk is the next one. The life of a connection as a step
  relation, and the properties of the network components.
\<close>

subsection \<open>Reading one chunk\<close>

lemma header_bounds:
  assumes "chunk_Unpack bs S = (h, n)" "2 \<le> S" "S \<le> 6"
  shows "0 \<le> ch_Size h" "ch_Sequence h = - 1 \<or> 0 \<le> ch_Sequence h \<and> ch_Sequence h < NET_MAX_SEQUENCE"
    "ch_Flags h AND NET_CHUNKFLAG_VITAL \<noteq> 0 \<longleftrightarrow> ch_Sequence h \<noteq> - 1" "n = 2 \<or> n = 3"
proof -
  let ?b1 = "uint (bs ! 1)" and ?b2 = "uint (bs ! 2)"
  have nn: "0 \<le> push_bit S (uint (bs ! 0) AND 0x3f) OR (?b1 AND (2 ^ S - 1))"
    by (simp add: or_nonnegative_int_iff and_nonnegative_int_iff)
  let ?q = "push_bit 2 (?b1 AND NOT (2 ^ S - 1)) OR ?b2"
  have q0: "0 \<le> ?q" by (simp add: or_nonnegative_int_iff and_nonnegative_int_iff)
  have "take_bit 10 ?q = ?q"
  proof (rule bit_eqI)
    fix k
    have "bit ?b1 (k - 2) \<Longrightarrow> k - 2 < 8" "bit ?b2 k \<Longrightarrow> k < 8"
      using bit_small [of ?b1 8 "k - 2"] bit_small [of ?b2 8 k] uint_byte_bounds by auto
    then have "bit ?q k \<Longrightarrow> k < 10"
      by (auto simp: bit_or_iff bit_push_bit_iff_int bit_and_iff)
    then show "bit (take_bit 10 ?q) k = bit ?q k" unfolding bit_take_bit_iff by blast
  qed
  then have q1: "?q < NET_MAX_SEQUENCE"
    using take_bit_int_less_exp [of 10 ?q] by (simp add: NET_MAX_SEQUENCE_def)
  define q where "q = ?q"
  define z where "z = push_bit S (uint (bs ! 0) AND 0x3f) OR (?b1 AND (2 ^ S - 1))"
  have u: "chunk_Unpack bs S = (if (drop_bit 6 (uint (bs ! 0)) AND 3) AND NET_CHUNKFLAG_VITAL \<noteq> 0
      then (\<lparr>ch_Flags = drop_bit 6 (uint (bs ! 0)) AND 3, ch_Size = z, ch_Sequence = q\<rparr>, 3)
      else (\<lparr>ch_Flags = drop_bit 6 (uint (bs ! 0)) AND 3, ch_Size = z, ch_Sequence = - 1\<rparr>, 2))"
    by (simp only: chunk_Unpack_def Let_def q_def z_def)
  have "0 \<le> q" "q < NET_MAX_SEQUENCE" "0 \<le> z" using q0 q1 nn by (simp_all only: q_def z_def)
  with assms(1) show "0 \<le> ch_Size h" "ch_Sequence h = - 1 \<or> 0 \<le> ch_Sequence h \<and> ch_Sequence h < NET_MAX_SEQUENCE"
    "ch_Flags h AND NET_CHUNKFLAG_VITAL \<noteq> 0 \<longleftrightarrow> ch_Sequence h \<noteq> - 1" "n = 2 \<or> n = 3"
    unfolding u by (auto split: if_splits)
qed

lemma next_chunk_bounds:
  assumes "next_chunk S p off = Some (h, d, off')"
  shows "off + 2 \<le> off'" "off' \<le> pk_DataSize p"
    "ch_Sequence h = - 1 \<or> 0 \<le> ch_Sequence h \<and> ch_Sequence h < NET_MAX_SEQUENCE"
    "ch_Flags h AND NET_CHUNKFLAG_VITAL \<noteq> 0 \<longleftrightarrow> ch_Sequence h \<noteq> - 1"
proof -
  obtain h' n where u: "chunk_Unpack (drop off (pk_ChunkData p @ pk_ExtraData p)) (if S then 6 else 4) = (h', n)"
    by (metis prod.exhaust)
  have s: "2 \<le> (if S then 6 else 4 :: nat)" "(if S then 6 else 4 :: nat) \<le> 6" by simp_all
  note b = header_bounds [OF u s]
  show "off + 2 \<le> off'" "off' \<le> pk_DataSize p"
    "ch_Sequence h = - 1 \<or> 0 \<le> ch_Sequence h \<and> ch_Sequence h < NET_MAX_SEQUENCE"
    "ch_Flags h AND NET_CHUNKFLAG_VITAL \<noteq> 0 \<longleftrightarrow> ch_Sequence h \<noteq> - 1"
    using assms b unfolding next_chunk_def u by (auto split: if_splits)
qed

text \<open>The bytes that follow a well-formed chunk do not matter.\<close>

lemma next_chunk_stream:
  assumes "ok_chunk (if S then 6 else 4) x" "pk_DataSize p \<le> length (pk_ChunkData p)"
    and "drop off (pk_data p) = enc_chunk (if S then 6 else 4) x @ r" "off \<le> pk_DataSize p"
  shows "next_chunk S p off = Some (fst x, snd x, off + length (enc_chunk (if S then 6 else 4) x))"
proof -
  let ?S = "if S then 6 else 4 :: nat"
  obtain h d where x: "x = (h, d)" by (cases x)
  with assms(1) have w: "wf_header ?S h" "ch_Size h = int (length d)" by (simp_all add: ok_chunk_def)
  from chunk_Pack_ok [OF w(1)] obtain hdr where p: "chunk_Pack h ?S = Inr hdr" "2 \<le> length hdr" by blast
  have e: "enc_chunk ?S x = hdr @ d" using p(1) by (simp add: enc_chunk_def x)
  let ?mem = "pk_ChunkData p @ pk_ExtraData p"
  have "drop off ?mem = drop off (pk_data p) @ drop (pk_DataSize p) (pk_ChunkData p) @ pk_ExtraData p"
  proof -
    have "?mem = pk_data p @ drop (pk_DataSize p) (pk_ChunkData p) @ pk_ExtraData p"
      by (simp add: pk_data_def)
    moreover have "off \<le> length (pk_data p)" using assms(2,4) by (simp add: pk_data_def)
    ultimately show ?thesis by (simp only: drop_append) simp
  qed
  then obtain r' where mem: "drop off ?mem = hdr @ d @ r'" using assms(3) e by simp
  have u: "chunk_Unpack (drop off ?mem) ?S = (h, length hdr)"
    unfolding mem by (rule chunk_Unpack_Pack [OF w(1) p(1)]) simp_all
  have len: "off + length hdr + length d + length r = pk_DataSize p"
    using arg_cong [OF assms(3), of length] assms(2,4) by (simp add: e pk_data_def)
  have "drop (off + length hdr) (pk_data p) = d @ r"
    using arg_cong [OF assms(3), of "drop (length hdr)"] by (simp add: e add.commute)
  have t: "take (length d + length r) (drop (off + length hdr) (pk_ChunkData p)) = d @ r"
  proof -
    have "length d + length r = pk_DataSize p - (off + length hdr)" using len by simp
    with \<open>drop (off + length hdr) (pk_data p) = d @ r\<close> show ?thesis by (simp add: pk_data_def drop_take)
  qed
  have "take (length d) (drop (off + length hdr) (pk_ChunkData p)) = d"
    using arg_cong [OF t, of "take (length d)"] by simp
  with u len p(2) show ?thesis unfolding e by (simp add: next_chunk_def x w(2))
qed

subsection \<open>A whole packet\<close>

text \<open>What becomes of the chunks of a packet: the accepted ones, in order, and the connection.\<close>

fun deliver :: "(chunk_header \<times> bytes) list \<Rightarrow> conn \<Rightarrow> (chunk_header \<times> bytes) list \<times> conn" where
  "deliver [] c = ([], c)"
| "deliver (x # xs) c =
     (case check_sequence (fst x) c of
        (Accept, c1) \<Rightarrow> (case deliver xs c1 of (ys, c2) \<Rightarrow> (x # ys, c2))
      | (Ignore, c1) \<Rightarrow> deliver xs c1)"

text \<open>The caller asks for chunks until there is none.\<close>

inductive drained :: "chunk_unpacker \<Rightarrow> conn \<Rightarrow> net_chunk list \<Rightarrow> conn \<Rightarrow> bool" where
  drained_end: "UnpackNextChunk u c = (None, u', c') \<Longrightarrow> drained u c [] c'"
| drained_more: "UnpackNextChunk u c = (Some x, u1, c1) \<Longrightarrow> drained u1 c1 xs c' \<Longrightarrow> drained u c (x # xs) c'"

inductive_cases drained_NilE: "drained u c [] c'"
inductive_cases drained_ConsE: "drained u c (x # xs) c'"

lemma drained_cong: "UnpackNextChunk u c = UnpackNextChunk u1 c1 \<Longrightarrow> drained u1 c1 xs c' \<Longrightarrow> drained u c xs c'"
  by (cases xs) (auto elim!: drained_NilE drained_ConsE intro: drained_end drained_more)

definition as_chunk :: "chunk_unpacker \<Rightarrow> chunk_header \<times> bytes \<Rightarrow> net_chunk" where
  "as_chunk u x = \<lparr>nc_ClientId = cu_ClientId u, nc_Address = cu_Addr u, nc_Flags = ch_Flags (fst x), nc_Data = snd x\<rparr>"

lemma as_chunk_update [simp]:
  "as_chunk (u\<lparr>cu_CurrentChunk := n, cu_CurrentOffset := k\<rparr>) = as_chunk u"
  by (simp add: as_chunk_def fun_eq_iff)

lemma check_sequence_sixup: "check_sequence h c = (v, c1) \<Longrightarrow> c_Sixup c1 = c_Sixup c"
  by (auto simp: check_sequence_def SignalResend_def split: if_splits)

lemma drained_stream:
  "cu_Valid u \<Longrightarrow> pk_DataSize (cu_Data u) \<le> length (pk_ChunkData (cu_Data u)) \<Longrightarrow>
   cu_CurrentOffset u \<le> pk_DataSize (cu_Data u) \<Longrightarrow> cu_CurrentChunk u + length xs = pk_NumChunks (cu_Data u) \<Longrightarrow>
   drop (cu_CurrentOffset u) (pk_data (cu_Data u)) = concat (map (enc_chunk (if c_Sixup c then 6 else 4)) xs) @ r \<Longrightarrow>
   \<forall>x \<in> set xs. ok_chunk (if c_Sixup c then 6 else 4) x \<Longrightarrow>
   drained u c (map (as_chunk u) (fst (deliver xs c))) (snd (deliver xs c))"
proof (induction xs arbitrary: u c)
  case Nil
  then show ?case by (auto simp: UnpackNextChunk.simps [of u c] intro: drained_end)
next
  case (Cons x xs)
  let ?S = "if c_Sixup c then 6 else 4 :: nat" and ?p = "cu_Data u" and ?o = "cu_CurrentOffset u"
  let ?o' = "?o + length (enc_chunk ?S x)"
  have st: "drop ?o (pk_data ?p) = enc_chunk ?S x @ concat (map (enc_chunk ?S) xs) @ r" using Cons.prems(5) by simp
  have nx: "next_chunk (c_Sixup c) ?p ?o = Some (fst x, snd x, ?o')"
    by (rule next_chunk_stream [OF _ Cons.prems(2) st Cons.prems(3)]) (use Cons.prems(6) in simp)
  define u1 where "u1 = u\<lparr>cu_CurrentChunk := cu_CurrentChunk u + 1, cu_CurrentOffset := ?o'\<rparr>"
  have u1: "cu_Valid u1" "pk_DataSize (cu_Data u1) \<le> length (pk_ChunkData (cu_Data u1))"
    "cu_CurrentOffset u1 \<le> pk_DataSize (cu_Data u1)" "cu_CurrentChunk u1 + length xs = pk_NumChunks (cu_Data u1)"
    "drop (cu_CurrentOffset u1) (pk_data (cu_Data u1)) = concat (map (enc_chunk ?S) xs) @ r"
    "as_chunk u1 = as_chunk u"
  proof -
    show "drop (cu_CurrentOffset u1) (pk_data (cu_Data u1)) = concat (map (enc_chunk ?S) xs) @ r"
      using arg_cong [OF st, of "drop (length (enc_chunk ?S x))"] by (simp add: u1_def add.commute)
    show "cu_CurrentOffset u1 \<le> pk_DataSize (cu_Data u1)"
      using next_chunk_bounds(2) [OF nx] by (simp add: u1_def)
  qed (use Cons.prems in \<open>simp_all add: u1_def\<close>)
  have unp: "UnpackNextChunk u c = (case check_sequence (fst x) c of
      (Accept, c1) \<Rightarrow> (Some (as_chunk u x), u1, c1) | (Ignore, c1) \<Rightarrow> UnpackNextChunk u1 c1)"
    using Cons.prems(1,4)
    unfolding UnpackNextChunk.simps [of u c] nx option.case prod.case Let_def u1_def [symmetric] as_chunk_def by simp
  obtain v c1 where v: "check_sequence (fst x) c = (v, c1)" by (cases "check_sequence (fst x) c")
  have s1: "c_Sixup c1 = c_Sixup c" using check_sequence_sixup [OF v] .
  have ih: "drained u1 c1 (map (as_chunk u) (fst (deliver xs c1))) (snd (deliver xs c1))"
    using Cons.IH [OF u1(1-4), of c1] u1(5,6) Cons.prems(6) s1 by simp
  show ?case
  proof (cases v)
    case Accept
    then have "UnpackNextChunk u c = (Some (as_chunk u x), u1, c1)" using unp v by simp
    from drained_more [OF this ih] show ?thesis using Accept v by (simp add: case_prod_beta)
  next
    case Ignore
    then have "UnpackNextChunk u c = UnpackNextChunk u1 c1" using unp v by simp
    from drained_cong [OF this ih] show ?thesis using Ignore v by simp
  qed
qed

subsection \<open>The order of vital chunks\<close>

definition vital :: "chunk_header \<times> bytes \<Rightarrow> bool" where
  "vital x \<longleftrightarrow> ch_Flags (fst x) AND NET_CHUNKFLAG_VITAL \<noteq> 0"

lemma mod_seq: "(int (a mod 1024) + 1) mod 1024 = (int a + 1) mod 1024"
  by (simp add: zmod_int mod_add_left_eq)

lemma deliver_order:
  assumes "c_Ack c < 1024" "\<not> c_UnknownSeq c"
  shows "map (ch_Sequence \<circ> fst) (filter vital (fst (deliver xs c))) =
      map (\<lambda>i. (int (c_Ack c) + 1 + int i) mod NET_MAX_SEQUENCE) [0..<length (filter vital (fst (deliver xs c)))] \<and>
    c_Ack (snd (deliver xs c)) = (c_Ack c + length (filter vital (fst (deliver xs c)))) mod 1024 \<and>
    \<not> c_UnknownSeq (snd (deliver xs c))"
  using assms
proof (induction xs arbitrary: c)
  case (Cons x xs)
  obtain v c1 where v: "check_sequence (fst x) c = (v, c1)" by (cases "check_sequence (fst x) c")
  obtain ys c2 where d: "deliver xs c1 = (ys, c2)" by (cases "deliver xs c1")
  show ?case
  proof (cases "v = Accept \<and> vital x")
    case True
    then have s: "ch_Sequence (fst x) = (int (c_Ack c) + 1) mod 1024" "c_Ack c1 = (c_Ack c + 1) mod 1024" "\<not> c_UnknownSeq c1"
      using v Cons.prems by (auto simp: check_sequence_def vital_def NET_MAX_SEQUENCE_def to_u16_def
          nat_mod_distrib nat_add_distrib split: if_splits)
    have "c_Ack c1 < 1024" using s(2) by simp
    from Cons.IH [OF this s(3)] have ih:
      "map (ch_Sequence \<circ> fst) (filter vital ys) =
        map (\<lambda>i. (int (c_Ack c1) + 1 + int i) mod NET_MAX_SEQUENCE) [0..<length (filter vital ys)]"
      "c_Ack c2 = (c_Ack c1 + length (filter vital ys)) mod 1024" "\<not> c_UnknownSeq c2" by (simp_all add: d comp_def)
    let ?n = "length (filter vital ys)"
    have "map (\<lambda>i. (int (c_Ack c) + 1 + int i) mod 1024) [0..<Suc ?n] =
        (int (c_Ack c) + 1) mod 1024 # map (\<lambda>i. (int (c_Ack c) + 1 + int (Suc i)) mod 1024) [0..<?n]"
      by (simp add: upt_conv_Cons map_Suc_upt [symmetric] comp_def del: upt_Suc of_nat_Suc)
    also have "\<dots> = ch_Sequence (fst x) # map (\<lambda>i. (int (c_Ack c1) + 1 + int i) mod 1024) [0..<?n]"
    proof -
      have a: "int (c_Ack c1) = (int (c_Ack c) + 1) mod 1024" by (simp add: s(2) zmod_int add.commute)
      have "(int (c_Ack c) + 1 + int (Suc i)) mod 1024 = (int (c_Ack c1) + 1 + int i) mod 1024" for i
      proof -
        have "((int (c_Ack c) + 1) mod 1024 + (1 + int i)) mod 1024 = (int (c_Ack c) + 1 + (1 + int i)) mod 1024"
          by (rule mod_add_left_eq)
        then show ?thesis unfolding a by (simp add: algebra_simps)
      qed
      then show ?thesis unfolding s(1) by (simp only:)
    qed
    finally show ?thesis
      using ih s(2) True v d by (simp add: NET_MAX_SEQUENCE_def mod_simps comp_def del: upt_Suc)
  next
    case False
    then have c1: "c_Ack c1 = c_Ack c" "c_UnknownSeq c1 = c_UnknownSeq c" "v = Accept \<longrightarrow> \<not> vital x"
      using v Cons.prems by (auto simp: check_sequence_def vital_def SignalResend_def split: if_splits)
    with Cons.IH [of c1] Cons.prems have ih:
      "map (ch_Sequence \<circ> fst) (filter vital ys) =
        map (\<lambda>i. (int (c_Ack c) + 1 + int i) mod NET_MAX_SEQUENCE) [0..<length (filter vital ys)]"
      "c_Ack c2 = (c_Ack c + length (filter vital ys)) mod 1024" "\<not> c_UnknownSeq c2" by (simp_all add: d comp_def)
    show ?thesis using ih v d c1(3) by (cases v) (simp_all add: comp_def)
  qed
qed simp

end
