(* ===== verification/NetLink.thy ===== *)
theory NetLink
  imports NetDelivery
begin

text \<open>
  The life of a connection as a step relation over the operations of \<open>CNetConnection\<close>: reachable
  connections keep the invariant, no operation gets stuck, and the state machine makes only the
  moves of the protocol. The window of sequence numbers between two connections. The properties of
  the connection, the packets and the chunks of a link.
\<close>

subsection \<open>The sequence check keeps the invariant\<close>

lemma SignalResend_ok: "conn_ok c \<Longrightarrow> conn_ok (SignalResend c)"
proof -
  assume ok: "conn_ok c"
  then obtain ps cs where p: "pending c ps" "\<forall>x \<in> set ps. resend_ok x" "building c cs" by (auto simp: conn_ok_def)
  have "pending (SignalResend c) ps" using p(1) by (simp add: SignalResend_def)
  moreover have "building (SignalResend c) cs"
    using p(3) by (auto simp: building_def SignalResend_def split_of_def wf_packet_def pk_data_def packet_flags)
  moreover have "same_link c (SignalResend c)" by (simp add: SignalResend_def)
  ultimately show ?thesis using conn_ok_link [OF ok _ _ p(2)] by blast
qed

lemma check_sequence_ok:
  assumes "conn_ok c" "check_sequence h c = (v, c')"
    and "ch_Flags h AND NET_CHUNKFLAG_VITAL \<noteq> 0 \<Longrightarrow> 0 \<le> ch_Sequence h \<and> ch_Sequence h < NET_MAX_SEQUENCE"
  shows "conn_ok c' \<and> c_State c' = c_State c"
proof -
  have acc: "conn_ok (c\<lparr>c_UnknownSeq := False, c_Ack := to_u16 (nat (ch_Sequence h))\<rparr>)"
    if "ch_Flags h AND NET_CHUNKFLAG_VITAL \<noteq> 0"
  proof -
    have "to_u16 (nat (ch_Sequence h)) < 1024" using assms(3) [OF that] by (auto simp: to_u16_def NET_MAX_SEQUENCE_def intro!: le_less_trans [OF mod_less_eq_dividend])
    with conn_ok_set(3) [of "c\<lparr>c_UnknownSeq := False\<rparr>"] assms(1) show ?thesis by simp
  qed
  moreover have "c_State (SignalResend c) = c_State c" by (simp add: SignalResend_def)
  ultimately show ?thesis
    using assms(1,2) SignalResend_ok [OF assms(1)] by (auto simp: check_sequence_def split: if_splits)
qed

lemma Unpack_ok:
  "conn_ok c \<Longrightarrow> UnpackNextChunk u c = (x, u', c') \<Longrightarrow> conn_ok c' \<and> c_State c' = c_State c"
proof (induction u c rule: UnpackNextChunk.induct)
  case (1 u c)
  show ?case
  proof (cases "cu_Valid u \<and> cu_CurrentChunk u < pk_NumChunks (cu_Data u)")
    case False
    with 1(2,3) show ?thesis unfolding UnpackNextChunk.simps [of u c] by (auto split: if_splits)
  next
    case True
    show ?thesis
    proof (cases "next_chunk (c_Sixup c) (cu_Data u) (cu_CurrentOffset u)")
      case None
      with 1(2,3) True show ?thesis unfolding UnpackNextChunk.simps [of u c] by auto
    next
      case (Some y)
      obtain h d off where y: "y = (h, d, off)" by (cases y)
      obtain v c1 where v: "check_sequence h c = (v, c1)" by (cases "check_sequence h c")
      have ok: "conn_ok c1 \<and> c_State c1 = c_State c"
        using check_sequence_ok [OF 1(2) v] next_chunk_bounds(3,4) [OF Some [unfolded y]] by auto
      show ?thesis
      proof (cases v)
        case Accept
        with 1(3) True Some y v ok show ?thesis unfolding UnpackNextChunk.simps [of u c] by (auto simp: Let_def)
      next
        case Ignore
        have n: "\<not> \<not> cu_Valid u" "\<not> pk_NumChunks (cu_Data u) \<le> cu_CurrentChunk u" using True by auto
        let ?u1 = "u\<lparr>cu_CurrentChunk := cu_CurrentChunk u + 1, cu_CurrentOffset := off\<rparr>"
        have "UnpackNextChunk ?u1 c1 = (x, u', c')"
          using 1(3) True Some y v Ignore unfolding UnpackNextChunk.simps [of u c] by (simp add: Let_def)
        moreover note 1(1) [OF n Some [unfolded y] refl refl refl v [symmetric] Ignore]
        ultimately show ?thesis using ok by auto
      qed
    qed
  qed
qed

lemma conn_Init_ok: "conn_ok (conn_Init b c)"
proof -
  have "conn_ok (conn_Reset (c\<lparr>c_ErrorString := []\<rparr>))" by (rule conn_Reset_ok) simp
  moreover have "conn_Init b c = (conn_Reset (c\<lparr>c_ErrorString := []\<rparr>))\<lparr>c_PeerAddr := NETADDR_ZEROED,
      c_PeerAddrStr := [], c_PeerAddrStrNoPort := [], c_LastUpdateTime := 0, c_BlockCloseMsg := b\<rparr>"
    by (simp add: conn_Init_def ResetStats_def ClearPeerAddr_def conn_Reset_def)
  moreover have "conn_ok (d\<lparr>c_LastUpdateTime := 0, c_BlockCloseMsg := b\<rparr>) = conn_ok d" for d
    by (simp add: conn_ok_def building_def split_of_def)
  ultimately show ?thesis by simp
qed

subsection \<open>The life of a connection\<close>

text \<open>The steps are the calls the engine makes, with the arguments it may pass.\<close>

inductive conn_step :: "conn \<Rightarrow> conn \<Rightarrow> bool" where
  step_Connect: "length addrs \<le> 16 \<Longrightarrow> Connect E addrs c = Some (r, c') \<Longrightarrow> conn_step c c'"
| step_Connect7: "length addrs \<le> 16 \<Longrightarrow> addrs \<noteq> [] \<Longrightarrow> addr_known (hd addrs) \<Longrightarrow>
    Connect7 E addrs c = Some (r, c') \<Longrightarrow> conn_step c c'"
| step_DirectInit: "addr_known a \<Longrightarrow> DirectInit E a st t S c = Some c' \<Longrightarrow> conn_step c c'"
| step_QueueChunk: "0 \<le> F \<Longrightarrow> F < 4 \<Longrightarrow> length d \<le> NET_MAX_CHUNK_SIZE \<Longrightarrow>
    QueueChunk E F d c = Some (r, c') \<Longrightarrow> conn_step c c'"
| step_Flush: "Flush E c = Some (n, c') \<Longrightarrow> conn_step c c'"
| step_Feed: "c_State c \<noteq> OFFLINE \<Longrightarrow> pk_Ack p < 1024 \<Longrightarrow> addr_known a \<Longrightarrow>
    Feed E p a st rt c = Some (r, p', c') \<Longrightarrow> conn_step c c'"
| step_Unpack: "UnpackNextChunk u c = (x, u', c') \<Longrightarrow> conn_step c c'"
| step_Update: "conn_Update E c = Some c' \<Longrightarrow> conn_step c c'"
| step_Disconnect: "(\<And>s. why = Reason s \<Longrightarrow> length s < 1392) \<Longrightarrow> Disconnect E why c = Some c' \<Longrightarrow> conn_step c c'"
| step_SetUnknownSeq: "conn_step c (SetUnknownSeq c)"
| step_SetSequence: "n < 1024 \<Longrightarrow> conn_step c (SetSequence n c)"
| step_ResetErrorString: "conn_step c (ResetErrorString c)"
| step_BotConnect: "conn_step c (BotConnect c)"
| step_BotDrop: "conn_step c (BotDrop c)"

inductive conn_reachable :: "conn \<Rightarrow> bool" where
  reach_Init: "conn_reachable (conn_Init b c)"
| reach_step: "conn_reachable c \<Longrightarrow> conn_step c c' \<Longrightarrow> conn_reachable c'"

text \<open>The moves of the state machine, whatever the operation.\<close>

definition conn_moves :: "estate \<Rightarrow> estate \<Rightarrow> bool" where
  "conn_moves a b \<longleftrightarrow> b = a \<or> b = OFFLINE \<or> b = ONLINE \<or> b = BOT \<or> (b = ERROR \<and> a \<noteq> OFFLINE) \<or>
     (b = CONNECT \<and> (a = OFFLINE \<or> a = WANT_TOKEN)) \<or> (b = WANT_TOKEN \<and> a = OFFLINE)"

lemma step_keeps:
  assumes "conn_step c c'" "conn_ok c"
  shows "conn_ok c' \<and> conn_moves (c_State c) (c_State c')"
  using assms
proof (induction rule: conn_step.induct)
  case (step_Connect addrs E c r c')
  with Connect_ok [of c addrs E] show ?case by (auto simp: conn_moves_def)
next
  case (step_Connect7 addrs E c r c')
  with Connect7_ok [of c addrs E] show ?case by (auto simp: conn_moves_def)
next
  case (step_DirectInit a E st t S c c')
  with DirectInit_ok [of c a E st t S] show ?case by (auto simp: conn_moves_def)
next
  case (step_QueueChunk F d E c r c')
  with QueueChunk_ok [of c F d E] show ?case by (auto simp: conn_moves_def)
next
  case (step_Flush E c n c')
  with Flush_ok [of c E] show ?case using same_link_fields(5) [of c c'] by (auto simp: conn_moves_def)
next
  case (step_Feed c p a E st rt r p' c')
  with Feed_ok [of c p a E st rt] show ?case by (auto simp: conn_moves_def feed_moves_def)
next
  case (step_Unpack u c x u' c')
  with Unpack_ok [of c u x u' c'] show ?case by (simp add: conn_moves_def)
next
  case (step_Update E c c')
  with Update_ok [of c E] show ?case by (auto simp: conn_moves_def update_moves_def)
next
  case (step_Disconnect why E c c')
  with Disconnect_ok [of c why E] show ?case by (auto simp: conn_moves_def)
next
  case (step_SetUnknownSeq c)
  then show ?case by (simp add: SetUnknownSeq_def conn_moves_def)
next
  case (step_SetSequence n c)
  then show ?case using conn_ok_set(2) [of c n] by (simp add: SetSequence_def conn_moves_def to_u16_def)
next
  case (step_ResetErrorString c)
  then show ?case using conn_ok_set(4) [of c "[]"] by (simp add: ResetErrorString_def conn_moves_def)
qed (simp_all add: BotConnect_def BotDrop_def conn_moves_def)

lemma reachable_ok: "conn_reachable c \<Longrightarrow> conn_ok c"
  by (induction rule: conn_reachable.induct) (auto simp: conn_Init_ok dest: step_keeps)

lemma reachable_not_pending: "conn_reachable c \<Longrightarrow> c_State c \<noteq> PENDING"
proof (induction rule: conn_reachable.induct)
  case (reach_Init b c)
  then show ?case by (simp add: conn_Init_def ResetStats_def ClearPeerAddr_def)
next
  case (reach_step c c')
  with step_keeps [OF reach_step(2) reachable_ok [OF reach_step(1)]] show ?case by (auto simp: conn_moves_def)
qed

subsection \<open>Acknowledgements\<close>

lemma check_ack_circular:
  assumes "c_PeerAck c < 1024" "c_Sequence c < 1024" "pk_Ack p < 1024"
  shows "check_ack c p \<longleftrightarrow> (int (pk_Ack p) - int (c_PeerAck c)) mod 1024 \<le> (int (c_Sequence c) - int (c_PeerAck c)) mod 1024"
proof -
  have m: "(x - y) mod 1024 = (if y \<le> x then x - y else x - y + 1024)" if "0 \<le> x" "x < 1024" "0 \<le> y" "y < 1024" for x y :: int
    using that mod_pos_pos_trivial [of "x - y" 1024] mod_pos_pos_trivial [of "x - y + 1024" 1024] by auto
  show ?thesis using assms by (auto simp: check_ack_def m)
qed

lemma dropWhile_eq_dropI:
  "m \<le> length xs \<Longrightarrow> (\<And>i. i < m \<Longrightarrow> P (xs ! i)) \<Longrightarrow> (m < length xs \<Longrightarrow> \<not> P (xs ! m)) \<Longrightarrow> dropWhile P xs = drop m xs"
proof (induction m arbitrary: xs)
  case 0
  then show ?case by (cases xs) auto
next
  case (Suc m)
  then obtain x ys where xs: "xs = x # ys" by (cases xs) auto
  have "P x" using Suc.prems(2) [of 0] xs by simp
  moreover have "P (ys ! i)" if "i < m" for i using Suc.prems(2) [of "Suc i"] xs that by simp
  then have "dropWhile P ys = drop m ys" using Suc.prems(1,3) xs by (intro Suc.IH) simp_all
  ultimately show ?case using xs by simp
qed

text \<open>The waiting chunks are the last ones that were numbered.\<close>

definition numbered :: "conn \<Rightarrow> resend list \<Rightarrow> bool" where
  "numbered c ps \<longleftrightarrow> (\<forall>i < length ps. rs_Sequence (ps ! i) = (int (c_Sequence c) + 1 + int i - int (length ps)) mod 1024)"

lemma ack_keeps:
  assumes "length ps \<le> 455" "numbered c ps" "k \<le> length ps"
    and a: "a = (int (c_Sequence c) - int k) mod 1024"
  shows "dropWhile (\<lambda>x. IsSeqInBackroom (rs_Sequence x) a) ps = drop (length ps - k) ps"
proof (rule dropWhile_eq_dropI)
  let ?S = "int (c_Sequence c)" and ?n = "int (length ps)"
  have a0: "0 \<le> a" "a < 1024" by (simp_all add: a)
  have dist: "IsSeqInBackroom (rs_Sequence (ps ! i)) a \<longleftrightarrow> (?n - int k - 1 - int i) mod 1024 \<le> 512" if "i < length ps" for i
  proof -
    let ?s = "?S + 1 + int i - ?n"
    have s: "rs_Sequence (ps ! i) = ?s mod 1024" using assms(2) that by (simp add: numbered_def)
    have "((?S - int k) mod 1024 - ?s mod 1024) mod 1024 = (?S - int k - ?s) mod 1024" by (rule mod_diff_eq)
    also have "?S - int k - ?s = ?n - int k - 1 - int i" by simp
    finally show ?thesis
      using backroom_distance [of "rs_Sequence (ps ! i)" a] a0 unfolding s a by (simp add: NET_MAX_SEQUENCE_def)
  qed
  show "IsSeqInBackroom (rs_Sequence (ps ! i)) a" if "i < length ps - k" for i
  proof -
    have "0 \<le> ?n - int k - 1 - int i" "?n - int k - 1 - int i \<le> 455" using that assms(1) by linarith+
    then show ?thesis using dist [of i] that by simp
  qed
  show "\<not> IsSeqInBackroom (rs_Sequence (ps ! (length ps - k))) a" if "length ps - k < length ps"
  proof -
    have "?n - int k - 1 - int (length ps - k) = - 1" using assms(3) by simp
    then show ?thesis using dist [OF that] by simp
  qed
qed simp

lemma AckChunks_numbered:
  assumes "pending c ps" "numbered c ps" "k \<le> length ps"
  shows "\<exists>r. AckChunks ((int (c_Sequence c) - int k) mod 1024) c = Some (c\<lparr>c_Buffer := r\<rparr>) \<and>
    pending (c\<lparr>c_Buffer := r\<rparr>) (drop (length ps - k) ps) \<and> numbered (c\<lparr>c_Buffer := r\<rparr>) (drop (length ps - k) ps)"
proof -
  have "numbered (c\<lparr>c_Buffer := r\<rparr>) (drop (length ps - k) ps)" for r
    using assms(2,3) by (auto simp: numbered_def algebra_simps)
  with AckChunks_pending [OF assms(1), of "(int (c_Sequence c) - int k) mod 1024"]
    ack_keeps [OF pending_few [OF assms(1)] assms(2,3) refl] show ?thesis by auto
qed

lemma QueueChunk_vital:
  assumes "conn_ok c" "alive c" "pending c ps" "numbered c ps" "building c cs" "length d \<le> NET_MAX_CHUNK_SIZE"
  shows "\<exists>r c' cs' s. QueueChunk E 1 d c = Some (r, c') \<and> s = (c_Sequence c + 1) mod 1024 \<and> c_Sequence c' = s \<and>
    building c' (cs' @ [the_chunk 1 d (int s)]) \<and> (cs' = cs \<or> cs' = []) \<and>
    (r = 0 \<and> pending c' (ps @ [saved E 1 d (int s)]) \<and> numbered c' (ps @ [saved E 1 d (int s)]) \<or>
     r = - 1 \<and> pending c' ps)"
proof -
  define s where "s = (c_Sequence c + 1) mod 1024"
  let ?c = "c\<lparr>c_Sequence := s\<rparr>"
  have f: "fits 1 d (int s)" using assms(6) by (simp add: fits_def s_def NET_MAX_SEQUENCE_def)
  have q: "QueueChunk E 1 d c = QueueChunkEx E 1 d (int s) ?c"
    by (simp add: QueueChunk_def s_def NET_CHUNKFLAG_VITAL_def NET_MAX_SEQUENCE_def)
  have "c_Ack ?c < 1024" "alive ?c" using assms(1,2) by (simp_all add: conn_ok_def alive_def)
  from QueueChunkEx_spec [of ?c cs 1 d "int s" ps E] this f assms(3,5) obtain r c' cs' where
    r: "QueueChunkEx E 1 d (int s) ?c = Some (r, c')" "same_link ?c c'" "building c' (cs' @ [the_chunk 1 d (int s)])"
      "cs' = cs \<or> cs' = []" "r = 0 \<and> pending c' (ps @ [saved E 1 d (int s)]) \<or> r = - 1 \<and> pending c' ps" by auto
  have s': "c_Sequence c' = s" using same_link_fields(2) [OF r(2)] by simp
  have "numbered c' (ps @ [saved E 1 d (int s)])"
  proof -
    have i: "int s = (int (c_Sequence c) + 1) mod 1024" by (simp add: s_def zmod_int add.commute)
    have "(int (c_Sequence c) + 1 + int j - int n) mod 1024 = (int s + 1 + int j - int (Suc n)) mod 1024" for j n
    proof -
      have "((int (c_Sequence c) + 1) mod 1024 + (int j - int n)) mod 1024 = (int (c_Sequence c) + 1 + (int j - int n)) mod 1024"
        by (rule mod_add_left_eq)
      then show ?thesis unfolding i by (simp add: algebra_simps)
    qed
    moreover have "int s mod 1024 = int s" by (simp add: i)
    ultimately show ?thesis using assms(4) s'
      by (auto simp: numbered_def nth_append saved_def less_Suc_eq)
  qed
  then show ?thesis using q r s' by (auto simp: s_def)
qed

subsection \<open>From one connection to the other\<close>

text \<open>The tokens of the two ends agree.\<close>

definition tokens_agree :: "conn \<Rightarrow> conn \<Rightarrow> bool" where
  "tokens_agree c d \<longleftrightarrow> c_Sixup d = c_Sixup c \<and>
     (if c_Sixup c then c_Token d = c_SecurityToken c else c_SecurityToken d = c_SecurityToken c)"

definition idle_unpacker :: "chunk_unpacker \<Rightarrow> bool" where
  "idle_unpacker u \<longleftrightarrow> \<not> cu_Valid u"

lemma check_token_sent:
  assumes "tokens_agree c d" "wf_packet p" "c_Sixup c \<longrightarrow> st = c_SecurityToken c"
    and "pk_data p = bs @ (if c_Sixup c \<or> c_SecurityToken c = NET_SECURITY_TOKEN_UNSUPPORTED then []
      else WriteSecurityToken (c_SecurityToken c))"
  shows "\<exists>p' r. check_token d p st = (True, p') \<and> pk_data p' = bs @ r \<and> pk_Flags p' = pk_Flags p \<and>
    pk_Ack p' = pk_Ack p \<and> pk_NumChunks p' = pk_NumChunks p \<and> pk_DataSize p' \<le> length (pk_ChunkData p') \<and>
    pk_DataSize p' = length bs + length r"
proof (cases "c_Sixup c \<or> c_SecurityToken c = NET_SECURITY_TOKEN_UNKNOWN \<or> c_SecurityToken c = NET_SECURITY_TOKEN_UNSUPPORTED")
  case True
  have n: "pk_DataSize p = length (pk_data p)" "pk_DataSize p \<le> length (pk_ChunkData p)"
    using assms(2) by (auto simp: wf_packet_def pk_data_def)
  have "check_token d p st = (True, p)"
    using True assms(1,3) by (auto simp: check_token_def tokens_agree_def split: if_splits)
  with n assms(4) show ?thesis by (intro exI [of _ p]) auto
next
  case False
  then have t: "c_SecurityToken d = c_SecurityToken c" "\<not> c_Sixup d" "\<not> c_Sixup c"
    using assms(1) by (auto simp: tokens_agree_def)
  have l: "length (WriteSecurityToken t) = 4" for t
    by (simp add: WriteSecurityToken_def uint_to_bytes_be_def)
  have d: "pk_data p = bs @ WriteSecurityToken (c_SecurityToken c)" using assms(4) False by simp
  have n: "pk_DataSize p = length bs + 4" "pk_DataSize p \<le> length (pk_ChunkData p)"
    using assms(2) arg_cong [OF d, of length] by (auto simp: wf_packet_def pk_data_def l)
  let ?p = "p\<lparr>pk_DataSize := pk_DataSize p - 4\<rparr>"
  have s: "pk_ChunkData p = bs @ WriteSecurityToken (c_SecurityToken c) @ drop (pk_DataSize p) (pk_ChunkData p)"
    using d append_take_drop_id [of "pk_DataSize p" "pk_ChunkData p"] by (simp add: pk_data_def)
  have "drop (length bs) (pk_ChunkData p) = WriteSecurityToken (c_SecurityToken c) @ drop (pk_DataSize p) (pk_ChunkData p)"
    using arg_cong [OF s, of "drop (length bs)"] by simp
  then have "ToSecurityToken (drop (length bs) (pk_ChunkData p)) = c_SecurityToken c" by (simp add: token_roundtrip)
  then have "check_token d p st = (True, ?p)" using False t n by (simp add: check_token_def Let_def)
  moreover have "pk_data ?p = bs" using arg_cong [OF s, of "take (length bs)"] n by (simp add: pk_data_def)
  ultimately show ?thesis using n by (intro exI [of _ ?p] exI [of _ "[]"]) simp
qed

lemma compressed_flag: "f \<in> {0, 16} \<Longrightarrow> g \<in> {f, f OR NET_PACKETFLAG_COMPRESSION} \<Longrightarrow>
  g AND (NET_PACKETFLAG_CONNLESS OR NET_PACKETFLAG_CONTROL) = 0"
  by (auto simp: packet_flags)

lemma flush_delivers:
  assumes h: "huffman_Init = Some (e_Huffman E)" and b: "building c cs" "cs \<noteq> []" "c_Ack c < 1024"
    and t: "tokens_agree c d" and q: "wf_packet q" "idle_unpacker v"
  shows "\<exists>bs c' w u p st v'. Flush E c = Some (length cs, c') \<and> c_Sent c' = c_Sent c @ [(c_PeerAddr c, bs)] \<and>
    c_Construct c' = zero_packet \<and> length bs \<le> NET_MAX_PACKETSIZE \<and>
    UnpackPacket (e_Huffman E) bs q (c_Sixup c) True True True = (w, Inr u) \<and>
    (c_Sixup c \<longrightarrow> u_SecurityToken u = Some st) \<and> check_token d (u_Packet u) st = (True, p) \<and> pk_Ack p = c_Ack c \<and>
    FeedPacket a p cid v = Some v' \<and> drained v' d (map (as_chunk v') (fst (deliver cs d))) (snd (deliver cs d))"
proof -
  let ?p = "(c_Construct c)\<lparr>pk_Ack := c_Ack c\<rparr>"
  have k: "wf_packet (c_Construct c)" "pk_Flags (c_Construct c) \<in> {0, 16}" "pk_DataSize (c_Construct c) \<le> 1393"
    "pk_NumChunks (c_Construct c) = length cs" "pk_data (c_Construct c) = concat (map (enc_chunk (split_of c)) cs)"
    "\<forall>x \<in> set cs. ok_chunk (split_of c) x"
    using b(1) by (simp_all add: building_def)
  have cs: "can_send c" using b(2) k(4) by (simp add: can_send_def)
  with Flush_spec [OF b(1,3), of E] obtain bs p' where
    s: "SendPacket (e_Huffman E) ?p (c_SecurityToken c) (c_Sixup c) = Inr (bs, p')"
    and f: "Flush E c = Some (length cs, c\<lparr>c_Sent := c_Sent c @ [(c_PeerAddr c, bs)], c_LastSendTime := e_Now E,
                                     c_Construct := zero_packet\<rparr>)" by auto
  have ok: "wf_packet ?p" "IsValidConnectionOrientedPacket ?p" "pk_Flags ?p AND NET_PACKETFLAG_COMPRESSION = 0"
    "pk_DataSize ?p + 4 \<le> NET_MAX_PACKETSIZE - NET_PACKETHEADERSIZE"
    using k b(2,3) by (auto simp: wf_packet_def IsValidConnectionOrientedPacket_def packet_flags packet_consts Suc_le_eq)
  from send_unpack [OF h ok q(1), of "c_SecurityToken c" "c_Sixup c"] s obtain w u where
    u: "length bs \<le> NET_MAX_PACKETSIZE" "UnpackPacket (e_Huffman E) bs q (c_Sixup c) True True True = (w, Inr u)"
      "pk_data (u_Packet u) = pk_data ?p @ (if c_Sixup c \<or> c_SecurityToken c = NET_SECURITY_TOKEN_UNSUPPORTED then []
         else WriteSecurityToken (c_SecurityToken c))"
      "pk_Flags (u_Packet u) \<in> {pk_Flags ?p, pk_Flags ?p OR NET_PACKETFLAG_COMPRESSION}"
      "pk_Ack (u_Packet u) = pk_Ack ?p" "pk_NumChunks (u_Packet u) = pk_NumChunks ?p"
      "c_Sixup c \<longrightarrow> u_SecurityToken u = Some (c_SecurityToken c)" by auto
  have wu: "wf_packet (u_Packet u)"
    using unpack_safe [OF q(1), of "e_Huffman E" bs "c_Sixup c" True] u(2) by simp
  have "pk_data ?p = pk_data (c_Construct c)" by (simp add: pk_data_def)
  with check_token_sent [OF t wu _ u(3), of "c_SecurityToken c"] obtain p r where
    p: "check_token d (u_Packet u) (c_SecurityToken c) = (True, p)" "pk_data p = pk_data (c_Construct c) @ r"
      "pk_Flags p = pk_Flags (u_Packet u)" "pk_Ack p = c_Ack c" "pk_NumChunks p = length cs"
      "pk_DataSize p \<le> length (pk_ChunkData p)" "pk_DataSize p = length (pk_data (c_Construct c)) + length r"
    using u(5,6) k(4) by auto
  have c0: "pk_Flags p AND (NET_PACKETFLAG_CONNLESS OR NET_PACKETFLAG_CONTROL) = 0"
    using compressed_flag [OF k(2)] u(4) p(3) by simp
  have pos: "0 < pk_DataSize p"
  proof -
    obtain x xs where x: "cs = x # xs" using b(2) by (cases cs) auto
    with k(6) have "ok_chunk (split_of c) x" by simp
    then obtain hd dt where "x = (hd, dt)" "wf_header (split_of c) hd" by (cases x) (auto simp: ok_chunk_def)
    with chunk_Pack_ok [of "split_of c" hd] have "0 < length (enc_chunk (split_of c) x)" by (auto simp: enc_chunk_def)
    with p(7) k(5) x show ?thesis by simp
  qed
  define v' where "v' = \<lparr>cu_Valid = True, cu_Addr = a, cu_CurrentChunk = 0, cu_CurrentOffset = 0, cu_ClientId = cid, cu_Data = p\<rparr>"
  have v': "FeedPacket a p cid v = Some v'"
    using q(2) c0 pos p(5) b(2) by (simp add: FeedPacket_def v'_def idle_unpacker_def)
  have S: "split_of c = (if c_Sixup d then 6 else 4)" using t by (simp add: split_of_def tokens_agree_def)
  have "drained v' d (map (as_chunk v') (fst (deliver cs d))) (snd (deliver cs d))"
    by (rule drained_stream [where r = r]) (use p k S in \<open>simp_all add: v'_def\<close>)
  with f u(1,2,7) p(1,4) v' show ?thesis by (intro exI conjI) (assumption | simp)+
qed

subsection \<open>A lossy link\<close>

text \<open>
  Vital chunks from one connection to another over a link that loses, repeats and reorders them. The
  wire holds every chunk ever packed, in the order of their numbers; any of them may arrive, with or
  without the resend flag, if it is not older than the sequence space. The sender keeps less than
  \<open>NET_MAX_SEQUENCE\<close> chunks between itself and the receiver (its resend buffer holds at most 455).
  The other operations of the two ends leave the counters alone.
\<close>

record link =
  l_Sender :: conn
  l_Receiver :: conn
  l_Wire :: "(chunk_header \<times> bytes) list"
  l_Got :: "bytes list"

inductive link_step :: "link \<Rightarrow> link \<Rightarrow> bool" where
  link_send: "QueueChunk E NET_CHUNKFLAG_VITAL d (l_Sender l) = Some (r, c') \<Longrightarrow> alive (l_Sender l) \<Longrightarrow>
    length (l_Wire l) < length (l_Got l) + 1023 \<Longrightarrow>
    link_step l (l\<lparr>l_Sender := c', l_Wire := l_Wire l @ [the_chunk NET_CHUNKFLAG_VITAL d (int (c_Sequence c'))]\<rparr>)"
| link_arrive: "i < length (l_Wire l) \<Longrightarrow> length (l_Got l) < i + 1024 \<Longrightarrow>
    ch_Flags h AND NET_CHUNKFLAG_VITAL \<noteq> 0 \<Longrightarrow> ch_Sequence h = ch_Sequence (fst (l_Wire l ! i)) \<Longrightarrow>
    check_sequence h (l_Receiver l) = (v, d') \<Longrightarrow>
    link_step l (l\<lparr>l_Receiver := d', l_Got := (if v = Accept then l_Got l @ [snd (l_Wire l ! i)] else l_Got l)\<rparr>)"
| link_sender: "c_Sequence c' = c_Sequence (l_Sender l) \<Longrightarrow> link_step l (l\<lparr>l_Sender := c'\<rparr>)"
| link_receiver: "c_Ack d' = c_Ack (l_Receiver l) \<Longrightarrow> c_UnknownSeq d' = c_UnknownSeq (l_Receiver l) \<Longrightarrow>
    link_step l (l\<lparr>l_Receiver := d'\<rparr>)"

inductive link_run :: "link \<Rightarrow> bool" where
  link_start: "c_Sequence c = 0 \<Longrightarrow> c_Ack d = 0 \<Longrightarrow> \<not> c_UnknownSeq d \<Longrightarrow>
    link_run \<lparr>l_Sender = c, l_Receiver = d, l_Wire = [], l_Got = []\<rparr>"
| link_more: "link_run l \<Longrightarrow> link_step l l' \<Longrightarrow> link_run l'"

definition link_inv :: "link \<Rightarrow> bool" where
  "link_inv l \<longleftrightarrow> c_Sequence (l_Sender l) = length (l_Wire l) mod 1024 \<and>
     (\<forall>i < length (l_Wire l). ch_Sequence (fst (l_Wire l ! i)) = (int i + 1) mod 1024) \<and>
     l_Got l = map snd (take (length (l_Got l)) (l_Wire l)) \<and> length (l_Got l) \<le> length (l_Wire l) \<and>
     length (l_Wire l) \<le> length (l_Got l) + 1023 \<and>
     c_Ack (l_Receiver l) = length (l_Got l) mod 1024 \<and> \<not> c_UnknownSeq (l_Receiver l)"

text \<open>Two positions less than a sequence space apart have the same number only if they are the same.\<close>

lemma same_number:
  assumes "int i mod 1024 = int j mod 1024" "j < i + 1024" "i < j + 1024"
  shows "i = j"
proof -
  have "(1024 :: int) dvd (int i - int j)" using assms(1) by (simp add: mod_eq_dvd_iff)
  then obtain k where k: "int i - int j = 1024 * k" by (auto elim: dvdE)
  then have "k = 0" using assms(2,3) by linarith
  with k show ?thesis by simp
qed

lemma QueueChunk_sequence:
  assumes "QueueChunk E F d c = Some (r, c')" "F AND NET_CHUNKFLAG_VITAL \<noteq> 0"
  shows "c_Sequence c' = (c_Sequence c + 1) mod 1024"
proof -
  have f: "c_Sequence c2 = c_Sequence c1" if "Flush E c1 = Some (n, c2)" for c1 c2 n
    using that by (auto simp: Flush_def Let_def split: if_splits prod.splits Option.bind_splits)
  have p: "c_Sequence c2 = c_Sequence c1" if "pack_chunk F d s c1 = Some c2" for c1 c2 s
    using that by (auto simp: pack_chunk_def split: Option.bind_splits)
  have s: "c_Sequence c2 = c_Sequence c1" if "save_chunk E F d s c1 = Some (r, c2)" for c1 c2 s r
    using that by (auto simp: save_chunk_def split: Option.bind_splits option.splits)
  let ?c = "c\<lparr>c_Sequence := (c_Sequence c + 1) mod nat NET_MAX_SEQUENCE\<rparr>"
  have "QueueChunkEx E F d (int (c_Sequence ?c)) ?c = Some (r, c')"
    using assms by (simp add: QueueChunk_def Let_def)
  then have "c_Sequence c' = c_Sequence ?c"
    unfolding QueueChunkEx_def
    by (auto split: if_splits Option.bind_splits dest!: f p s)
  then show ?thesis by (simp add: NET_MAX_SEQUENCE_def)
qed

lemma link_step_inv:
  assumes "link_step l l'" "link_inv l"
  shows "link_inv l'"
  using assms
proof (cases rule: link_step.cases)
  case (link_send E d r c')
  have v: "(1 :: int) AND NET_CHUNKFLAG_VITAL \<noteq> 0" by (simp add: NET_CHUNKFLAG_VITAL_def)
  have s: "c_Sequence c' = Suc (length (l_Wire l)) mod 1024"
    using QueueChunk_sequence [OF link_send(2)] assms(2) by (simp add: NET_CHUNKFLAG_VITAL_def link_inv_def mod_Suc_eq)
  have n: "int (c_Sequence c') = (int (length (l_Wire l)) + 1) mod 1024" by (simp add: s zmod_int add.commute)
  show ?thesis
    using assms(2) link_send(1,4) s n
    by (auto simp: link_inv_def nth_append the_chunk_def NET_CHUNKFLAG_VITAL_def less_Suc_eq)
next
  case (link_arrive i h v d')
  let ?g = "length (l_Got l)"
  have inv: "c_Ack (l_Receiver l) = ?g mod 1024" "\<not> c_UnknownSeq (l_Receiver l)" "length (l_Wire l) \<le> ?g + 1023"
    "ch_Sequence h = (int i + 1) mod 1024" "l_Got l = map snd (take ?g (l_Wire l))" "?g \<le> length (l_Wire l)"
    using assms(2) link_arrive(2,5) by (auto simp: link_inv_def)
  show ?thesis
  proof (cases v)
    case Ignore
    then have "c_Ack d' = c_Ack (l_Receiver l)" "c_UnknownSeq d' = c_UnknownSeq (l_Receiver l)"
      using link_arrive(6) by (auto simp: check_sequence_def SignalResend_def split: if_splits)
    with Ignore link_arrive(1) assms(2) show ?thesis by (simp add: link_inv_def)
  next
    case Accept
    then have eq: "ch_Sequence h = (int (c_Ack (l_Receiver l)) + 1) mod 1024"
      and d': "d' = (l_Receiver l)\<lparr>c_UnknownSeq := False, c_Ack := to_u16 (nat (ch_Sequence h))\<rparr>"
      using link_arrive(4,6) inv(2) by (auto simp: check_sequence_def NET_MAX_SEQUENCE_def split: if_splits)
    have "(int i + 1) mod 1024 = (int ?g + 1) mod 1024"
      using eq inv(1,4) by (simp add: zmod_int mod_add_left_eq)
    then have "int (Suc i) mod 1024 = int (Suc ?g) mod 1024" by (simp add: add.commute)
    then have i: "i = ?g" using same_number [of "Suc i" "Suc ?g"] link_arrive(2,3) inv(3) by simp
    have a: "c_Ack d' = Suc ?g mod 1024" "\<not> c_UnknownSeq d'"
      using inv(4) by (simp_all add: d' i to_u16_def nat_mod_distrib nat_add_distrib)
    have "l_Got l @ [snd (l_Wire l ! i)] = map snd (take (Suc ?g) (l_Wire l))"
      using inv(5) link_arrive(2) by (simp add: i take_Suc_conv_app_nth)
    with Accept link_arrive(1,2) assms(2) a i show ?thesis by (simp add: link_inv_def)
  qed
qed (simp_all add: link_inv_def)

lemma link_run_inv: "link_run l \<Longrightarrow> link_inv l"
  by (induction rule: link_run.induct) (auto simp: link_inv_def [of "\<lparr>l_Sender = _, l_Receiver = _, l_Wire = _, l_Got = _\<rparr>"] intro: link_step_inv)

text \<open>What a chunk that is not the next one does: an old one is dropped, a later one asks for a resend.\<close>

lemma link_verdict:
  assumes "link_inv l" "i < length (l_Wire l)" "length (l_Got l) < i + 512" "i < length (l_Got l) + 511"
    "ch_Flags h AND NET_CHUNKFLAG_VITAL \<noteq> 0" "ch_Sequence h = ch_Sequence (fst (l_Wire l ! i))"
  shows "check_sequence h (l_Receiver l) =
    (if i = length (l_Got l) then (Accept, (l_Receiver l)\<lparr>c_UnknownSeq := False, c_Ack := Suc i mod 1024\<rparr>)
     else if i < length (l_Got l) then (Ignore, l_Receiver l) else (Ignore, SignalResend (l_Receiver l)))"
proof -
  let ?g = "length (l_Got l)" and ?a = "int (c_Ack (l_Receiver l))"
  have a: "?a = int ?g mod 1024" "\<not> c_UnknownSeq (l_Receiver l)" "ch_Sequence h = (int i + 1) mod 1024"
    using assms(1,2,6) by (auto simp: link_inv_def zmod_int)
  have next_eq: "ch_Sequence h = (?a + 1) mod 1024 \<longleftrightarrow> i = ?g"
  proof
    assume "ch_Sequence h = (?a + 1) mod 1024"
    then have "int (Suc i) mod 1024 = int (Suc ?g) mod 1024" using a by (simp add: mod_add_left_eq mod_add_right_eq add.commute)
    then show "i = ?g" using same_number [of "Suc i" "Suc ?g"] assms(3,4) by simp
  qed (simp add: a mod_add_left_eq mod_add_right_eq)
  have "(?a - ch_Sequence h) mod 1024 = (int ?g - (int i + 1)) mod 1024" unfolding a by (rule mod_diff_eq)
  moreover have "0 \<le> ch_Sequence h" "ch_Sequence h < 1024" "0 \<le> ?a" "?a < 1024" by (simp_all add: a)
  ultimately have b: "IsSeqInBackroom (ch_Sequence h) ?a \<longleftrightarrow> (int ?g - (int i + 1)) mod 1024 \<le> 512"
    using backroom_distance [of "ch_Sequence h" ?a] by (simp add: NET_MAX_SEQUENCE_def)
  have room: "IsSeqInBackroom (ch_Sequence h) ?a \<longleftrightarrow> i < ?g" if "i \<noteq> ?g"
  proof (cases "i < ?g")
    case True
    then have "(int ?g - (int i + 1)) mod 1024 = int ?g - (int i + 1)" using assms(3) by simp
    with True assms(3) b show ?thesis by simp
  next
    case False
    then have "(int ?g - (int i + 1)) mod 1024 = int ?g - (int i + 1) + 1024"
      using assms(4) mod_add_self2 [of "int ?g - (int i + 1)" 1024] by (simp add: mod_pos_pos_trivial)
    with False assms(4) b show ?thesis by simp
  qed
  have "to_u16 (nat ((int i + 1) mod 1024)) = Suc i mod 1024"
    by (simp add: to_u16_def nat_mod_distrib nat_add_distrib)
  with next_eq room a assms(5) show ?thesis by (auto simp: check_sequence_def NET_MAX_SEQUENCE_def)
qed

subsection \<open>Examples\<close>

text \<open>A connection object before \<open>Init\<close>, an online connection, and an environment.\<close>

definition blank_conn :: conn where
  "blank_conn = \<lparr>c_SecurityToken = 0, c_Sequence = 0, c_Ack = 0, c_PeerAck = 0, c_State = OFFLINE,
     c_RemoteClosed = False, c_BlockCloseMsg = False, c_UnknownSeq = False, c_Buffer = blank_ring,
     c_Chunks = (\<lambda>_. \<lparr>rs_Flags = 0, rs_Data = [], rs_Sequence = 0, rs_LastSendTime = 0, rs_FirstSendTime = 0\<rparr>),
     c_LastUpdateTime = 0, c_LastRecvTime = 0, c_LastSendTime = 0, c_LastResendTime = 0, c_ResendRequested = False,
     c_ErrorString = [], c_Construct = zero_packet, c_ConnectAddrs = [], c_NumConnectAddrs = 0,
     c_PeerAddr = NETADDR_ZEROED, c_PeerAddrStr = [], c_PeerAddrStrNoPort = [], c_TimeoutProtected = False,
     c_TimeoutSituation = False, c_Sixup = False, c_Token = 0, c_Sent = []\<rparr>"

definition fresh_conn :: conn where
  "fresh_conn = conn_Init False blank_conn"

definition online_conn :: conn where
  "online_conn = fresh_conn\<lparr>c_State := ONLINE, c_SecurityToken := 7\<rparr>"

definition some_env :: "huffman \<Rightarrow> net_env" where
  "some_env h = \<lparr>e_Now = 0, e_Freq = 1000, e_Huffman = h, e_ConnTimeout = 100, e_ConnTimeoutProtection = 100,
     e_ConnResendRequestsPerSecond = 0, e_Random = 1\<rparr>"

lemma fresh_reachable: "conn_reachable fresh_conn"
  unfolding fresh_conn_def by (rule reach_Init)

lemma fresh_fields [simp]:
  "c_State fresh_conn = OFFLINE" "c_Sequence fresh_conn = 0" "c_Ack fresh_conn = 0" "c_PeerAck fresh_conn = 0"
  "\<not> c_UnknownSeq fresh_conn" "c_Construct fresh_conn = zero_packet" "\<not> c_Sixup fresh_conn"
  "c_PeerAddr fresh_conn = NETADDR_ZEROED" "c_NumConnectAddrs fresh_conn = 0"
  by (simp_all add: fresh_conn_def conn_Init_def ResetStats_def ClearPeerAddr_def conn_Reset_def)

lemma online_fields [simp]:
  "c_State online_conn = ONLINE" "c_Sequence online_conn = 0" "c_Ack online_conn = 0" "c_PeerAck online_conn = 0"
  "\<not> c_UnknownSeq online_conn" "c_Construct online_conn = zero_packet" "\<not> c_Sixup online_conn"
  "c_SecurityToken online_conn = 7" "c_PeerAddr online_conn = NETADDR_ZEROED"
  by (simp_all add: online_conn_def)

lemma online_ok: "conn_ok online_conn"
  using reachable_ok [OF fresh_reachable] by (simp add: online_conn_def)

lemma online_pending: "pending online_conn [] \<and> numbered online_conn [] \<and> building online_conn [] \<and> alive online_conn"
proof (intro conjI)
  have "ring_holds (ring_Init blank_ring NET_CONN_BUFFERSIZE False) []"
    by (rule Init_holds) (simp add: ITEM_SIZE_def NET_CONN_BUFFERSIZE_def)
  then show "pending online_conn []"
    by (simp add: pending_def slots_def online_conn_def fresh_conn_def conn_Init_def ResetStats_def ClearPeerAddr_def
        conn_Reset_def blank_conn_def ring_Init_def ring_Clear_def NET_CONN_BUFFERSIZE_def ITEM_SIZE_def)
  show "building online_conn []" by (rule building_zero) simp
qed (simp_all add: numbered_def alive_def)

lemma fresh_room:
  "\<exists>r p. ring_Allocate (ring_Init blank_ring NET_CONN_BUFFERSIZE False) (SIZEOF_RESEND + 1) = Some (Some p, r)"
  by (simp add: ring_Allocate_def alloc_loop.simps find_block_def ring_Init_def ring_Clear_def blank_ring_def
      NET_CONN_BUFFERSIZE_def ITEM_SIZE_def SIZEOF_RESEND_def wanted_size_def Let_def)

text \<open>An online connection with one vital chunk queued.\<close>

lemma one_queued:
  "\<exists>c. QueueChunk E 1 [5] online_conn = Some (0, c) \<and> building c [the_chunk 1 [5] 1] \<and> c_Sequence c = 1 \<and>
     pending c [saved E 1 [5] 1] \<and> numbered c [saved E 1 [5] 1] \<and> same_link (online_conn\<lparr>c_Sequence := 1\<rparr>) c"
proof -
  let ?c = "online_conn\<lparr>c_Sequence := 1\<rparr>"
  have f: "fits 1 [5] 1" by (simp add: fits_def NET_MAX_SEQUENCE_def NET_MAX_CHUNK_SIZE_def)
  have q: "QueueChunk E 1 [5] online_conn = QueueChunkEx E 1 [5] 1 ?c"
    by (simp add: QueueChunk_def NET_CHUNKFLAG_VITAL_def NET_MAX_SEQUENCE_def)
  have p: "building ?c []" "c_Ack ?c < 1024" "pending ?c []" "alive ?c"
    using online_pending by (simp_all add: alive_def)
  from QueueChunkEx_spec [OF p(1,2) f p(3,4), of E] obtain r c' where
    r: "QueueChunkEx E 1 [5] 1 ?c = Some (r, c')" "same_link ?c c'" "building c' [the_chunk 1 [5] 1]"
      "r = 0 \<and> pending c' [saved E 1 [5] 1] \<or> r = - 1" by auto
  have b: "c_Buffer online_conn = ring_Init blank_ring NET_CONN_BUFFERSIZE False"
    by (simp add: online_conn_def fresh_conn_def conn_Init_def ResetStats_def ClearPeerAddr_def conn_Reset_def blank_conn_def)
  from queue_pack [OF p(1,2) f p(3), of E] obtain c1 c2 where
    g: "(if pk_DataSize (c_Construct ?c) + length [5 :: byte] + NET_MAX_CHUNKHEADERSIZE > length (pk_ChunkData (c_Construct ?c)) - 4 \<or>
        pk_NumChunks (c_Construct ?c) = NET_MAX_PACKET_CHUNKS then map_option snd (Flush E ?c) else Some ?c) = Some c1"
      "pack_chunk 1 [5] 1 c1 = Some c2" "c_Buffer c2 = c_Buffer ?c" by blast
  have x: "QueueChunkEx E 1 [5] 1 ?c = save_chunk E 1 [5] 1 c2"
    unfolding QueueChunkEx_def g(1) using g(2) by (simp add: NET_CHUNKFLAG_VITAL_def NET_CHUNKFLAG_RESEND_def)
  have "r \<noteq> - 1" using r(1) fresh_room unfolding x by (auto simp: save_chunk_def g(3) b)
  have "c_Sequence c' = 1" using same_link_fields(2) [OF r(2)] by simp
  then show ?thesis using r q \<open>r \<noteq> - 1\<close> by (auto simp: numbered_def saved_def)
qed

subsection \<open>Properties\<close>


lemma one_delivered:
  "\<exists>l. link_run l \<and> l_Got l = [[5]] \<and> l_Wire l = [the_chunk 1 [5] 1]"
proof -
  obtain h t where "huffman_Init = Some h" using huffman_Init_tree by blast
  from one_queued [of "some_env h"] obtain c where
    c: "QueueChunk (some_env h) 1 [5] online_conn = Some (0, c)" "c_Sequence c = 1" by blast
  let ?l0 = "\<lparr>l_Sender = online_conn, l_Receiver = online_conn, l_Wire = [], l_Got = []\<rparr>"
  let ?l1 = "\<lparr>l_Sender = c, l_Receiver = online_conn, l_Wire = [the_chunk 1 [5] 1], l_Got = []\<rparr>"
  have r0: "link_run ?l0" by (rule link_start) simp_all
  have "link_step ?l0 ?l1"
    using link_send [of _ "[5]" ?l0 0 c] c online_pending by (simp add: NET_CHUNKFLAG_VITAL_def)
  with r0 have r1: "link_run ?l1" by (rule link_more)
  let ?h = "fst (the_chunk 1 [5] 1)"
  obtain d where d: "check_sequence ?h online_conn = (Accept, d)"
    by (simp add: check_sequence_def the_chunk_def NET_CHUNKFLAG_VITAL_def NET_MAX_SEQUENCE_def)
  have "link_step ?l1 (?l1\<lparr>l_Receiver := d, l_Got := (if Accept = Accept then l_Got ?l1 @ [snd (l_Wire ?l1 ! 0)] else l_Got ?l1)\<rparr>)"
    by (rule link_arrive [where h = ?h]) (use d in \<open>simp_all add: the_chunk_def NET_CHUNKFLAG_VITAL_def\<close>)
  with r1 have "link_run (?l1\<lparr>l_Receiver := d, l_Got := [[5]]\<rparr>)" by (auto intro: link_more simp: the_chunk_def)
  then show ?thesis by fastforce
qed


text \<open>A vital chunk that arrives within half of the sequence space is accepted if it is the next
  one, dropped without an effect if it is an old one, and makes the receiver ask for a resend if one
  before it is missing.\<close>

theorem link_progress:
  assumes "link_run l" "i < length (l_Wire l)" "length (l_Got l) < i + 512" "i < length (l_Got l) + 511"
    "ch_Flags h AND NET_CHUNKFLAG_VITAL \<noteq> 0" "ch_Sequence h = ch_Sequence (fst (l_Wire l ! i))"
  shows "check_sequence h (l_Receiver l) =
    (if i = length (l_Got l) then (Accept, (l_Receiver l)\<lparr>c_UnknownSeq := False, c_Ack := Suc i mod 1024\<rparr>)
     else if i < length (l_Got l) then (Ignore, l_Receiver l) else (Ignore, SignalResend (l_Receiver l)))"
  by (rule link_verdict [OF link_run_inv [OF assms(1)] assms(2-6)])

theorem link_progress_witness:
  "\<exists>l. link_run l \<and> l_Got l = [[5]] \<and> check_sequence (fst (the_chunk 1 [5] 1)) (l_Receiver l) = (Ignore, l_Receiver l)"
proof -
  obtain l where l: "link_run l" "l_Got l = [[5]]" "l_Wire l = [the_chunk 1 [5] 1]" using one_delivered by blast
  have "ch_Flags (fst (the_chunk 1 [5] 1)) AND NET_CHUNKFLAG_VITAL \<noteq> 0"
    by (simp add: the_chunk_def NET_CHUNKFLAG_VITAL_def)
  from link_progress [OF l(1) _ _ _ this, of 0] l show ?thesis by (intro exI [of _ l]) simp
qed

text \<open>C1: what one connection flushes, the other end reads: the datagram fits, it unpacks, the token
  check passes, and the chunk unpacker returns the accepted chunks of the construct in order.\<close>

theorem packet_delivery:
  assumes "huffman_Init = Some (e_Huffman E)" "building c cs" "cs \<noteq> []" "c_Ack c < 1024"
    "tokens_agree c d" "wf_packet q" "idle_unpacker v"
  shows "\<exists>bs c' w u p st v'. Flush E c = Some (length cs, c') \<and> c_Sent c' = c_Sent c @ [(c_PeerAddr c, bs)] \<and>
    c_Construct c' = zero_packet \<and> length bs \<le> NET_MAX_PACKETSIZE \<and>
    UnpackPacket (e_Huffman E) bs q (c_Sixup c) True True True = (w, Inr u) \<and>
    (c_Sixup c \<longrightarrow> u_SecurityToken u = Some st) \<and> check_token d (u_Packet u) st = (True, p) \<and> pk_Ack p = c_Ack c \<and>
    FeedPacket a p cid v = Some v' \<and> drained v' d (map (as_chunk v') (fst (deliver cs d))) (snd (deliver cs d))"
  using assms by (rule flush_delivers)

theorem packet_delivery_witness:
  "\<exists>h bs w u p st v c c'. huffman_Init = Some h \<and> Flush (some_env h) c = Some (1, c') \<and>
     UnpackPacket h bs zero_packet False True True True = (w, Inr u) \<and>
     check_token online_conn (u_Packet u) st = (True, p) \<and> (\<exists>d. drained v online_conn [as_chunk v (the_chunk 1 [5] 1)] d)"
proof -
  obtain h t where h: "huffman_Init = Some h" using huffman_Init_tree by blast
  let ?E = "some_env h"
  from one_queued [of ?E] obtain c where c: "building c [the_chunk 1 [5] 1]" "same_link (online_conn\<lparr>c_Sequence := 1\<rparr>) c"
    by blast
  define u :: chunk_unpacker where "u = \<lparr>cu_Valid = False, cu_Addr = NETADDR_ZEROED, cu_CurrentChunk = 0, cu_CurrentOffset = 0, cu_ClientId = 0,
    cu_Data = zero_packet\<rparr>"
  have u: "idle_unpacker u" by (simp add: idle_unpacker_def u_def)
  have t: "tokens_agree c online_conn" "c_Ack c < 1024" "c_Sixup c = False"
    using same_link_fields [OF c(2)] by (simp_all add: tokens_agree_def)
  have e: "huffman_Init = Some (e_Huffman ?E)" using h by (simp add: some_env_def)
  have d: "fst (deliver [the_chunk 1 [5] 1] online_conn) = [the_chunk 1 [5] 1]"
    by (simp add: check_sequence_def the_chunk_def NET_CHUNKFLAG_VITAL_def NET_MAX_SEQUENCE_def)
  have "[the_chunk 1 [5] 1] \<noteq> []" by simp
  from packet_delivery [OF e c(1) this t(2,1) wf_zero_packet(1) u, of NETADDR_ZEROED 0] h
  show ?thesis unfolding d t(3) by (simp add: some_env_def) blast
qed

text \<open>the receiver accepts the vital chunks of any sequence of chunks in the order of their numbers,
  without a gap, from the one after its ack; the ack ends at the last one accepted.\<close>

theorem vital_chunks_in_order:
  assumes "c_Ack c < 1024" "\<not> c_UnknownSeq c"
  shows "map (ch_Sequence \<circ> fst) (filter vital (fst (deliver xs c))) =
      map (\<lambda>i. (int (c_Ack c) + 1 + int i) mod NET_MAX_SEQUENCE) [0..<length (filter vital (fst (deliver xs c)))] \<and>
    c_Ack (snd (deliver xs c)) = (c_Ack c + length (filter vital (fst (deliver xs c)))) mod 1024 \<and>
    \<not> c_UnknownSeq (snd (deliver xs c))"
  by (rule deliver_order [OF assms])

theorem vital_chunks_in_order_witness:
  "c_Ack (snd (deliver [the_chunk 1 [5] 1, the_chunk 1 [6] 3] online_conn)) = 1"
  using vital_chunks_in_order [of online_conn "[the_chunk 1 [5] 1, the_chunk 1 [6] 3]"]
  by (simp add: check_sequence_def the_chunk_def NET_CHUNKFLAG_VITAL_def NET_MAX_SEQUENCE_def vital_def IsSeqInBackroom_def
      SignalResend_def to_u16_def)

text \<open>A vital chunk that is queued gets the next sequence number, goes behind the chunks of the
  construct (an empty one if the old one had to be flushed) and is saved for a resend, unless the
  resend buffer is full; then the call reports it.\<close>

theorem queue_vital_chunk:
  assumes "conn_ok c" "alive c" "pending c ps" "numbered c ps" "building c cs" "length d \<le> NET_MAX_CHUNK_SIZE"
  shows "\<exists>r c' cs' s. QueueChunk E 1 d c = Some (r, c') \<and> s = (c_Sequence c + 1) mod 1024 \<and> c_Sequence c' = s \<and>
    building c' (cs' @ [the_chunk 1 d (int s)]) \<and> (cs' = cs \<or> cs' = []) \<and>
    (r = 0 \<and> pending c' (ps @ [saved E 1 d (int s)]) \<and> numbered c' (ps @ [saved E 1 d (int s)]) \<or>
     r = - 1 \<and> pending c' ps)"
  by (rule QueueChunk_vital [OF assms])

theorem queue_vital_chunk_witness:
  "\<exists>E r c' cs'. QueueChunk E 1 [5] online_conn = Some (r, c') \<and> building c' (cs' @ [the_chunk 1 [5] 1])"
proof -
  have n: "length [5 :: byte] \<le> NET_MAX_CHUNK_SIZE" by (simp add: NET_MAX_CHUNK_SIZE_def)
  have p: "alive online_conn" "pending online_conn []" "numbered online_conn []" "building online_conn []"
    using online_pending by blast+
  have "\<exists>r c' cs' s. QueueChunk E 1 [5] online_conn = Some (r, c') \<and> s = 1 \<and> building c' (cs' @ [the_chunk 1 [5] (int s)])" for E
    using queue_vital_chunk [OF online_ok p n, of E] by (elim exE conjE) (intro exI conjI, assumption, simp, assumption)
  then show ?thesis by (metis of_nat_1)
qed







text \<open>The state of a connection moves only along the protocol: into \<open>CONNECT\<close> from an offline
  connection or with the token of a 0.7 server, into \<open>WANT_TOKEN\<close> from an offline connection, never
  into an error from an offline connection, never into \<open>PENDING\<close>.\<close>

theorem connection_moves:
  assumes "conn_reachable c" "conn_step c c'"
  shows "c_State c' = c_State c \<or> c_State c' \<in> {OFFLINE, ONLINE, BOT} \<or>
    (c_State c' = ERROR \<and> c_State c \<noteq> OFFLINE) \<or> (c_State c' = CONNECT \<and> c_State c \<in> {OFFLINE, WANT_TOKEN}) \<or>
    (c_State c' = WANT_TOKEN \<and> c_State c = OFFLINE)"
  using step_keeps [OF assms(2) reachable_ok [OF assms(1)]] by (auto simp: conn_moves_def)

theorem connection_moves_witness:
  "c_State (BotConnect fresh_conn) = c_State fresh_conn \<or> c_State (BotConnect fresh_conn) \<in> {OFFLINE, ONLINE, BOT}"
  using connection_moves [OF fresh_reachable step_BotConnect] by (simp add: BotConnect_def)

text \<open>\<open>Feed\<close> leaves the connection unchanged and reports it when the packet comes from a foreign
  address, does not carry the token of the connection, or acknowledges a chunk outside the
  interval from the last acknowledged to the last sent one, around the circle.\<close>

theorem feed_rejects:
  assumes "conn_reachable c" "c_State c \<noteq> OFFLINE" "pk_Ack p < 1024"
    and "\<not> IsPeerAddress c a \<or>
      (if c_Sixup c then st \<noteq> c_Token c
       else c_SecurityToken c \<noteq> NET_SECURITY_TOKEN_UNKNOWN \<and> c_SecurityToken c \<noteq> NET_SECURITY_TOKEN_UNSUPPORTED \<and>
         (pk_DataSize p < 4 \<or> ToSecurityToken (drop (pk_DataSize p - 4) (pk_ChunkData p)) \<noteq> c_SecurityToken c)) \<or>
      (int (c_Sequence c) - int (c_PeerAck c)) mod 1024 < (int (pk_Ack p) - int (c_PeerAck c)) mod 1024"
  shows "\<exists>p'. Feed E p a st rt c = Some (0, p', c)"
proof -
  have ok: "c_PeerAck c < 1024" "c_Sequence c < 1024" using reachable_ok [OF assms(1)] by (simp_all add: conn_ok_def)
  obtain b p1 where t: "check_token c p st = (b, p1)" by (cases "check_token c p st")
  then have a1: "pk_Ack p1 = pk_Ack p" by (auto simp: check_token_def Let_def split: if_splits)
  have "\<not> IsPeerAddress c a \<or> \<not> b \<or> \<not> check_ack c p1"
    using assms(4)
  proof (elim disjE)
    assume "if c_Sixup c then st \<noteq> c_Token c
      else c_SecurityToken c \<noteq> NET_SECURITY_TOKEN_UNKNOWN \<and> c_SecurityToken c \<noteq> NET_SECURITY_TOKEN_UNSUPPORTED \<and>
        (pk_DataSize p < 4 \<or> ToSecurityToken (drop (pk_DataSize p - 4) (pk_ChunkData p)) \<noteq> c_SecurityToken c)"
    then show ?thesis using t by (auto simp: check_token_def Let_def split: if_splits)
  next
    assume "(int (c_Sequence c) - int (c_PeerAck c)) mod 1024 < (int (pk_Ack p) - int (c_PeerAck c)) mod 1024"
    then show ?thesis using check_ack_circular [OF ok, of p1] assms(3) a1 by simp
  qed simp
  then show ?thesis using assms(2) t by (auto simp: Feed_def)
qed

lemma connected_reachable: "conn_reachable (BotConnect fresh_conn)"
  by (rule reach_step [OF fresh_reachable step_BotConnect])

theorem feed_rejects_witness:
  "\<exists>E p'. Feed E (zero_packet\<lparr>pk_Ack := 5\<rparr>) NETADDR_ZEROED 0 0 (BotConnect fresh_conn) = Some (0, p', BotConnect fresh_conn)"
proof -
  have "\<exists>p'. Feed E (zero_packet\<lparr>pk_Ack := 5\<rparr>) NETADDR_ZEROED 0 0 (BotConnect fresh_conn) = Some (0, p', BotConnect fresh_conn)" for E
    by (rule feed_rejects [OF connected_reachable]) (simp_all add: BotConnect_def zero_packet_def)
  then show ?thesis by blast
qed

end
