(* ===== verification/Uuid.thy ===== *)
theory Uuid
  imports Prelude Str StrCodec Packer NetAddr
begin

text \<open>
  UUIDs and the manager that numbers the extended message and object types
  (src/src/engine/shared/uuid_manager.cpp). A UUID is the list of its 16 bytes. MD5, which is vendored
  code, and the random bytes are parameters. \<open>std::lower_bound\<close> and \<open>std::equal_range\<close> on the sorted
  vector are the prefixes they are specified to find.
\<close>

type_synonym uuid = bytes

definition UUID_MAXSTRSIZE :: nat where "UUID_MAXSTRSIZE = 37"
definition UUID_INVALID :: int where "UUID_INVALID = - 2"
definition UUID_UNKNOWN :: int where "UUID_UNKNOWN = - 1"
definition UUID_INT_SIZE :: nat where "UUID_INT_SIZE = 4"
definition OFFSET_UUID :: int where "OFFSET_UUID = push_bit 16 1"

definition TEEWORLDS_NAMESPACE :: uuid where
  "TEEWORLDS_NAMESPACE = [0xe0, 0x5d, 0xda, 0xaa, 0xc4, 0xe6, 0x4c, 0xfb,
     0xb6, 0x42, 0x5d, 0x48, 0xe8, 0x0c, 0x00, 0x29]"

definition set_version :: "byte \<Rightarrow> uuid \<Rightarrow> uuid" where
  "set_version v u = u[6 := (u ! 6 AND 0x0f) OR v, 8 := (u ! 8 AND 0x3f) OR 0x80]"

definition RandomUuid :: "bytes \<Rightarrow> uuid" where
  "RandomUuid random = set_version 0x40 random"

definition CalculateUuid :: "(bytes \<Rightarrow> bytes) \<Rightarrow> bytes \<Rightarrow> uuid" where
  "CalculateUuid md5 pName = set_version 0x30 (take 16 (md5 (TEEWORLDS_NAMESPACE @ pName)))"

subsection \<open>Text\<close>

definition hex2 :: "byte \<Rightarrow> bytes" where
  "hex2 b = (let d = (\<lambda>n. if n < 10 then of_nat (48 + n) else of_nat (87 + n)) in [d (unat b div 16), d (unat b mod 16)])"

definition FormatUuid :: "uuid \<Rightarrow> nat \<Rightarrow> bytes" where
  "FormatUuid p BufferLength =
     (let h = (\<lambda>i n. concat (map hex2 (take n (drop i p)))) in
      str_copy (h 0 4 @ [0x2D] @ h 4 2 @ [0x2D] @ h 6 2 @ [0x2D] @ h 8 2 @ [0x2D] @ h 10 6) BufferLength)"

text \<open>The code and the bytes of the result when it is 0; \<open>str_hex_decode\<close> gets each part of the copy,
  whose dashes are zeros.\<close>

definition ParseUuid :: "bytes \<Rightarrow> int \<times> uuid" where
  "ParseUuid pBuffer =
     (if str_length pBuffer + 1 \<noteq> UUID_MAXSTRSIZE then (2, [])
      else
        let aCopy = str_copy pBuffer UUID_MAXSTRSIZE in
        if aCopy ! 8 \<noteq> 0x2D \<or> aCopy ! 13 \<noteq> 0x2D \<or> aCopy ! 18 \<noteq> 0x2D \<or> aCopy ! 23 \<noteq> 0x2D then (1, [])
        else
          let parts = [str_hex_decode 4 (take 8 aCopy), str_hex_decode 2 (take 4 (drop 9 aCopy)),
            str_hex_decode 2 (take 4 (drop 14 aCopy)), str_hex_decode 2 (take 4 (drop 19 aCopy)),
            str_hex_decode 6 (drop 24 aCopy)] in
          if \<exists>r \<in> set parts. fst r \<noteq> 0 then (1, []) else (0, concat (map snd parts)))"

subsection \<open>Ints\<close>

definition UuidToInts :: "uuid \<Rightarrow> int list" where
  "UuidToInts u = map (\<lambda>i. to_i32 (uint (bytes_be_to_uint (drop (i * 4) u)))) [0..<UUID_INT_SIZE]"

definition UuidFromInts :: "int list \<Rightarrow> uuid" where
  "UuidFromInts ints = concat (map (\<lambda>i. uint_to_bytes_be (of_int (ints ! i))) [0..<UUID_INT_SIZE])"

subsection \<open>The manager\<close>

definition uuid_eq :: "uuid \<Rightarrow> uuid \<Rightarrow> bool" where
  "uuid_eq a b \<longleftrightarrow> c_compare uint 16 a b = 0"

definition uuid_less :: "uuid \<Rightarrow> uuid \<Rightarrow> bool" where
  "uuid_less a b \<longleftrightarrow> c_compare uint 16 a b < 0"

record uuid_manager =
  um_Names :: "(uuid \<times> bytes) list"
  um_NamesSorted :: "(uuid \<times> int) list"

definition GetIndex :: "int \<Rightarrow> int" where "GetIndex NameId = NameId - OFFSET_UUID"
definition GetId :: "int \<Rightarrow> int" where "GetId Index = Index + OFFSET_UUID"

definition LookupUuid :: "uuid_manager \<Rightarrow> uuid \<Rightarrow> int" where
  "LookupUuid m u =
     (let first = length (takeWhile (\<lambda>x. uuid_less (fst x) u) (um_NamesSorted m));
          last = length (takeWhile (\<lambda>x. \<not> uuid_less u (fst x)) (um_NamesSorted m))
      in if last - first = 1 then GetId (snd (um_NamesSorted m ! first)) else UUID_UNKNOWN)"

definition lower_bound_insert :: "uuid \<times> int \<Rightarrow> (uuid \<times> int) list \<Rightarrow> (uuid \<times> int) list" where
  "lower_bound_insert x xs =
     (let P = (\<lambda>y. uuid_less (fst y) (fst x)) in takeWhile P xs @ x # dropWhile P xs)"

definition RegisterName :: "(bytes \<Rightarrow> bytes) \<Rightarrow> int \<Rightarrow> bytes \<Rightarrow> uuid_manager \<Rightarrow> uuid_manager result" where
  "RegisterName md5 NameId pName m =
     (let u = CalculateUuid md5 pName in
      if GetIndex NameId \<noteq> int (length (um_Names m)) then Inl AssertFailed
      else if LookupUuid m u \<noteq> UUID_UNKNOWN then Inl AssertFailed
      else Inr (m\<lparr>um_Names := um_Names m @ [(u, pName)],
                  um_NamesSorted := lower_bound_insert (u, GetIndex NameId) (um_NamesSorted m)\<rparr>))"

definition GetUuid :: "uuid_manager \<Rightarrow> int \<Rightarrow> uuid option" where
  "GetUuid m NameId = (if 0 \<le> GetIndex NameId \<and> GetIndex NameId < int (length (um_Names m))
     then Some (fst (um_Names m ! nat (GetIndex NameId))) else None)"

definition GetName :: "uuid_manager \<Rightarrow> int \<Rightarrow> bytes option" where
  "GetName m NameId = (if 0 \<le> GetIndex NameId \<and> GetIndex NameId < int (length (um_Names m))
     then Some (snd (um_Names m ! nat (GetIndex NameId))) else None)"

definition NumUuids :: "uuid_manager \<Rightarrow> nat" where
  "NumUuids m = length (um_Names m)"

definition UnpackUuid :: "uuid_manager \<Rightarrow> unpacker \<Rightarrow> int \<times> uuid option \<times> unpacker" where
  "UnpackUuid m u =
     (case GetRaw u 16 of
        (None, u') \<Rightarrow> (UUID_INVALID, None, u')
      | (Some x, u') \<Rightarrow> (LookupUuid m x, Some x, u'))"

definition PackUuid :: "uuid_manager \<Rightarrow> int \<Rightarrow> packer \<Rightarrow> packer option" where
  "PackUuid m NameId p = map_option (AddRaw p) (GetUuid m NameId)"

subsection \<open>The order of UUIDs\<close>

abbreviation wf_uuid :: "uuid \<Rightarrow> bool" where "wf_uuid u \<equiv> length u = 16"

lemma uuid_less_key: "wf_uuid a \<Longrightarrow> wf_uuid b \<Longrightarrow> uuid_less a b \<longleftrightarrow> ord_class.lexordp (map uint a) (map uint b)"
  using c_compare_lex [of a 16 b] by (simp add: uuid_less_def)

lemma map_uint_eq: "map uint (a :: bytes) = map uint b \<longleftrightarrow> a = b"
  by (rule inj_map_eq_map) (simp add: inj_def word_uint_eq_iff)

lemma uuid_less_linear: "wf_uuid a \<Longrightarrow> wf_uuid b \<Longrightarrow> uuid_less a b \<or> a = b \<or> uuid_less b a"
  using lexordp_linear [of "map uint a" "map uint b"] by (auto simp: uuid_less_key map_uint_eq)

lemma uuid_less_irrefl: "wf_uuid a \<Longrightarrow> \<not> uuid_less a a"
  by (simp add: uuid_less_key lexordp_irreflexive')

lemma uuid_less_trans: "wf_uuid a \<Longrightarrow> wf_uuid b \<Longrightarrow> wf_uuid c \<Longrightarrow> uuid_less a b \<Longrightarrow> uuid_less b c \<Longrightarrow> uuid_less a c"
  using lexordp_trans [of "map uint a" "map uint b" "map uint c"] by (simp add: uuid_less_key)

subsection \<open>The invariant of the manager\<close>

definition um_ok :: "uuid_manager \<Rightarrow> bool" where
  "um_ok m \<longleftrightarrow> (\<forall>x \<in> set (um_Names m). wf_uuid (fst x)) \<and> distinct (map fst (um_Names m)) \<and>
     set (um_NamesSorted m) = (\<lambda>i. (fst (um_Names m ! i), int i)) ` {..<length (um_Names m)} \<and>
     sorted_wrt (\<lambda>x y. uuid_less (fst x) (fst y)) (um_NamesSorted m)"

lemma um_ok_sorted:
  assumes "um_ok m" "(u, i) \<in> set (um_NamesSorted m)"
  shows "wf_uuid u \<and> 0 \<le> i \<and> nat i < length (um_Names m) \<and> u = fst (um_Names m ! nat i)"
  using assms by (auto simp: um_ok_def)

text \<open>Around a UUID a sorted list splits into the smaller ones, the equal one and the greater ones.\<close>

lemma sorted_split:
  assumes "sorted_wrt (\<lambda>x y. uuid_less (fst x) (fst y)) xs" "\<forall>x \<in> set xs. wf_uuid (fst x)" "wf_uuid u"
  shows "\<exists>ls ms rs. xs = ls @ ms @ rs \<and> (\<forall>x \<in> set ls. uuid_less (fst x) u) \<and> (\<forall>x \<in> set rs. uuid_less u (fst x)) \<and>
    (ms = [] \<or> (\<exists>i. ms = [(u, i)]))"
  using assms
proof (induction xs)
  case (Cons x xs)
  then obtain ls ms rs where i: "xs = ls @ ms @ rs" "\<forall>x \<in> set ls. uuid_less (fst x) u" "\<forall>x \<in> set rs. uuid_less u (fst x)"
    "ms = [] \<or> (\<exists>i. ms = [(u, i)])" by auto
  have wx: "wf_uuid (fst x)" using Cons.prems(2) by simp
  have gt: "uuid_less u (fst y)" if "\<not> uuid_less (fst x) u" "y \<in> set xs" for y
  proof -
    have xy: "uuid_less (fst x) (fst y)" "wf_uuid (fst y)" using Cons.prems(1,2) that(2) by auto
    with uuid_less_linear [OF wx Cons.prems(3)] that(1) show ?thesis
      using uuid_less_trans [OF Cons.prems(3) wx xy(2)] by auto
  qed
  show ?case
  proof (cases "uuid_less (fst x) u")
    case True
    with i show ?thesis by (intro exI [of _ "x # ls"] exI [of _ ms] exI [of _ rs]) auto
  next
    case False
    show ?thesis
    proof (cases "fst x = u")
      case True
      with gt [OF False] show ?thesis
        by (intro exI [of _ "[]"] exI [of _ "[x]"] exI [of _ xs]) (cases x, auto)
    next
      case neq: False
      then have "uuid_less u (fst x)" using False uuid_less_linear [OF wx Cons.prems(3)] by auto
      with gt [OF False] show ?thesis by (intro exI [of _ "[]"] exI [of _ "[]"] exI [of _ "x # xs"]) auto
    qed
  qed
qed simp

lemma takeWhile_all_append: "\<forall>x \<in> set ls. P x \<Longrightarrow> (ys = [] \<or> \<not> P (hd ys)) \<Longrightarrow> takeWhile P (ls @ ys) = ls"
  by (cases ys) (auto simp: takeWhile_append2)

lemma dropWhile_all_append: "\<forall>x \<in> set ls. P x \<Longrightarrow> (ys = [] \<or> \<not> P (hd ys)) \<Longrightarrow> dropWhile P (ls @ ys) = ys"
  by (cases ys) (auto simp: dropWhile_append2)

lemma lookup_split:
  assumes "um_NamesSorted m = ls @ ms @ rs" "\<forall>x \<in> set ls. uuid_less (fst x) u" "\<forall>x \<in> set rs. uuid_less u (fst x)"
    and "ms = [] \<or> (\<exists>i. ms = [(u, i)])" "\<forall>x \<in> set (um_NamesSorted m). wf_uuid (fst x)" "wf_uuid u"
  shows "LookupUuid m u = (case ms of [] \<Rightarrow> UUID_UNKNOWN | x # _ \<Rightarrow> GetId (snd x))"
    "lower_bound_insert (u, i) (um_NamesSorted m) = ls @ (u, i) # ms @ rs"
proof -
  have asym: "\<not> uuid_less (fst x) u" if "uuid_less u (fst x)" "x \<in> set (um_NamesSorted m)" for x
    using that assms(5,6) uuid_less_trans [of u "fst x" u] uuid_less_irrefl [of u] by auto
  have asym': "\<not> uuid_less u (fst x)" if "uuid_less (fst x) u" "x \<in> set (um_NamesSorted m)" for x
    using that assms(5,6) uuid_less_trans [of u "fst x" u] uuid_less_irrefl [of u] by auto
  have end1: "ms @ rs = [] \<or> \<not> uuid_less (fst (hd (ms @ rs))) u"
  proof (cases ms)
    case Nil
    show ?thesis
    proof (cases rs)
      case (Cons x xs)
      then have "x \<in> set (um_NamesSorted m)" "uuid_less u (fst x)" using assms(1,3) by auto
      with asym Nil Cons show ?thesis by simp
    qed (use Nil in simp)
  qed (use assms(4) uuid_less_irrefl [OF assms(6)] in auto)
  have end2: "rs = [] \<or> \<not> \<not> uuid_less u (fst (hd rs))" using assms(3) by (cases rs) auto
  have t1: "takeWhile (\<lambda>x. uuid_less (fst x) u) (um_NamesSorted m) = ls"
    unfolding assms(1) by (rule takeWhile_all_append [OF assms(2) end1])
  have "\<forall>x \<in> set (ls @ ms). \<not> uuid_less u (fst x)"
    using assms(1,2,4) asym' uuid_less_irrefl [OF assms(6)] by auto
  from takeWhile_all_append [OF this end2] have t2: "takeWhile (\<lambda>x. \<not> uuid_less u (fst x)) (um_NamesSorted m) = ls @ ms"
    by (simp add: assms(1))
  show "LookupUuid m u = (case ms of [] \<Rightarrow> UUID_UNKNOWN | x # _ \<Rightarrow> GetId (snd x))"
    unfolding LookupUuid_def t1 t2 using assms(1,4) by (auto simp: nth_append)
  have "dropWhile (\<lambda>x. uuid_less (fst x) u) (um_NamesSorted m) = ms @ rs"
    unfolding assms(1) by (rule dropWhile_all_append [OF assms(2) end1])
  with t1 show "lower_bound_insert (u, i) (um_NamesSorted m) = ls @ (u, i) # ms @ rs"
    by (simp add: lower_bound_insert_def)
qed

lemma um_split:
  assumes "um_ok m" "wf_uuid u"
  shows "\<exists>ls ms rs. um_NamesSorted m = ls @ ms @ rs \<and> (\<forall>x \<in> set ls. uuid_less (fst x) u) \<and>
    (\<forall>x \<in> set rs. uuid_less u (fst x)) \<and> (ms = [] \<or> (\<exists>i. ms = [(u, i)])) \<and>
    (\<forall>x \<in> set (um_NamesSorted m). wf_uuid (fst x))"
proof -
  have w: "\<forall>x \<in> set (um_NamesSorted m). wf_uuid (fst x)" using um_ok_sorted [OF assms(1)] by (metis prod.collapse)
  have "sorted_wrt (\<lambda>x y. uuid_less (fst x) (fst y)) (um_NamesSorted m)" using assms(1) by (simp add: um_ok_def)
  from sorted_split [OF this w assms(2)] w show ?thesis
    by (elim exE conjE) (intro exI conjI, assumption+)
qed

text \<open>The lookup is the inverse of the numbering.\<close>

lemma LookupUuid_spec:
  assumes "um_ok m" "wf_uuid u"
  shows "LookupUuid m u = (if u \<in> set (map fst (um_Names m)) then LookupUuid m u else UUID_UNKNOWN) \<and>
    (\<forall>i < length (um_Names m). fst (um_Names m ! i) = u \<longrightarrow> LookupUuid m u = GetId (int i))"
proof -
  from um_split [OF assms] obtain ls ms rs where s: "um_NamesSorted m = ls @ ms @ rs"
    "\<forall>x \<in> set ls. uuid_less (fst x) u" "\<forall>x \<in> set rs. uuid_less u (fst x)" "ms = [] \<or> (\<exists>i. ms = [(u, i)])"
    "\<forall>x \<in> set (um_NamesSorted m). wf_uuid (fst x)" by blast
  note l = lookup_split(1) [OF s assms(2)]
  have mem: "(u, i) \<in> set (um_NamesSorted m) \<longleftrightarrow> (u, i) \<in> set ms" for i
    using s(1-3) uuid_less_irrefl [OF assms(2)] by auto
  have "ms = []" if "u \<notin> set (map fst (um_Names m))"
  proof (rule ccontr)
    assume "ms \<noteq> []"
    then obtain i where "ms = [(u, i)]" using s(4) by auto
    then have "(u, i) \<in> set (um_NamesSorted m)" using s(1) by simp
    from um_ok_sorted [OF assms(1) this] that show False by auto
  qed
  moreover have "LookupUuid m u = GetId (int i)" if "i < length (um_Names m)" "fst (um_Names m ! i) = u" for i
  proof -
    have "(u, int i) \<in> set (um_NamesSorted m)" using assms(1) that by (auto simp: um_ok_def)
    then have "(u, int i) \<in> set ms" using mem by simp
    with s(4) l show ?thesis by auto
  qed
  ultimately show ?thesis using l by auto
qed

lemma RegisterName_ok:
  assumes "um_ok m" "\<And>x. length (md5 x) = 16" "RegisterName md5 NameId pName m = Inr m'"
  shows "um_ok m' \<and> um_Names m' = um_Names m @ [(CalculateUuid md5 pName, pName)] \<and> NameId = GetId (int (length (um_Names m)))"
proof -
  let ?u = "CalculateUuid md5 pName" and ?n = "length (um_Names m)"
  have wu: "wf_uuid ?u" by (simp add: CalculateUuid_def set_version_def assms(2))
  have r: "GetIndex NameId = int ?n" "LookupUuid m ?u = UUID_UNKNOWN"
    "m' = m\<lparr>um_Names := um_Names m @ [(?u, pName)], um_NamesSorted := lower_bound_insert (?u, GetIndex NameId) (um_NamesSorted m)\<rparr>"
    using assms(3) by (auto simp: RegisterName_def Let_def split: if_splits)
  from um_split [OF assms(1) wu] obtain ls ms rs where s: "um_NamesSorted m = ls @ ms @ rs"
    "\<forall>x \<in> set ls. uuid_less (fst x) ?u" "\<forall>x \<in> set rs. uuid_less ?u (fst x)" "ms = [] \<or> (\<exists>i. ms = [(?u, i)])"
    "\<forall>x \<in> set (um_NamesSorted m). wf_uuid (fst x)" by blast
  have ms: "ms = []"
  proof (rule ccontr)
    assume "ms \<noteq> []"
    then obtain i where i: "ms = [(?u, i)]" using s(4) by auto
    then have "0 \<le> i" using um_ok_sorted [OF assms(1), of ?u i] s(1) by simp
    with i lookup_split(1) [OF s wu] r(2) show False by (simp add: GetId_def UUID_UNKNOWN_def OFFSET_UUID_def)
  qed
  have new: "?u \<notin> set (map fst (um_Names m))"
  proof
    assume "?u \<in> set (map fst (um_Names m))"
    then obtain i where "i < ?n" "fst (um_Names m ! i) = ?u" by (auto simp: in_set_conv_nth)
    with LookupUuid_spec [OF assms(1) wu] r(2) show False by (auto simp: GetId_def UUID_UNKNOWN_def OFFSET_UUID_def)
  qed
  have ins: "um_NamesSorted m' = ls @ (?u, int ?n) # rs"
    using lookup_split(2) [OF s wu] ms r(1,3) by simp
  have "sorted_wrt (\<lambda>x y. uuid_less (fst x) (fst y)) (ls @ (?u, int ?n) # rs)"
  proof -
    have "sorted_wrt (\<lambda>x y. uuid_less (fst x) (fst y)) (ls @ rs)" using assms(1) s(1) ms by (simp add: um_ok_def)
    then show ?thesis using s(2,3) by (auto simp: sorted_wrt_append)
  qed
  moreover have "set (um_NamesSorted m') = (\<lambda>i. (fst (um_Names m' ! i), int i)) ` {..<length (um_Names m')}"
  proof -
    have "set (um_NamesSorted m') = insert (?u, int ?n) (set (um_NamesSorted m))" using ins s(1) ms by auto
    also have "\<dots> = insert (?u, int ?n) ((\<lambda>i. (fst (um_Names m ! i), int i)) ` {..<?n})"
      using assms(1) by (simp add: um_ok_def)
    also have "\<dots> = (\<lambda>i. (fst (um_Names m' ! i), int i)) ` {..<Suc ?n}"
      by (auto simp: r(3) lessThan_Suc nth_append)
    finally show ?thesis by (simp add: r(3))
  qed
  ultimately have "um_ok m'" using assms(1) new wu ins by (auto simp: um_ok_def r(3))
  then show ?thesis using r(1,3) by (simp add: GetIndex_def GetId_def)
qed

lemma lookup_other:
  assumes "um_ok m" "wf_uuid u" "um_ok m'" "um_Names m' = um_Names m @ [(v, n)]" "u \<noteq> v"
  shows "LookupUuid m' u = LookupUuid m u"
proof (cases "u \<in> set (map fst (um_Names m))")
  case True
  then obtain i where i: "i < length (um_Names m)" "fst (um_Names m ! i) = u" by (auto simp: in_set_conv_nth)
  then have "i < length (um_Names m') \<and> fst (um_Names m' ! i) = u" by (simp add: assms(4) nth_append)
  with i LookupUuid_spec [OF assms(1,2)] LookupUuid_spec [OF assms(3,2)] show ?thesis by metis
next
  case False
  then have "u \<notin> set (map fst (um_Names m'))" using assms(4,5) by simp
  with False LookupUuid_spec [OF assms(1,2)] LookupUuid_spec [OF assms(3,2)] show ?thesis by metis
qed

lemma um_empty_ok: "um_ok \<lparr>um_Names = [], um_NamesSorted = []\<rparr>"
  by (simp add: um_ok_def)

subsection \<open>The text of a UUID\<close>

lemma digit_facts:
  "list_all (\<lambda>n. let d = if n < 10 then of_nat (48 + n) else of_nat (87 + n) in
     hexval d = int n \<and> 0 < (d :: byte) \<and> d < 0x80) [0..<16]"
  by code_simp

lemma hexval_digit: "n < 16 \<Longrightarrow> hexval (if n < 10 then of_nat (48 + n) else of_nat (87 + n)) = int n"
  using digit_facts by (simp add: list_all_iff Let_def)

lemma byteval_hex2: "\<exists>x y. hex2 b = [x, y] \<and> byteval x y = Some b"
proof -
  let ?d = "\<lambda>n. if n < 10 then of_nat (48 + n) else of_nat (87 + n) :: byte"
  have n: "unat b < 256" using unsigned_less [of b, where 'a = nat] by simp
  then have h: "hexval (?d (unat b div 16)) = int (unat b div 16)" "hexval (?d (unat b mod 16)) = int (unat b mod 16)"
    by (intro hexval_digit; simp)+
  have "unat b div 16 * 16 + unat b mod 16 = unat b" by simp
  then have "int (unat b div 16) * 16 + int (unat b mod 16) = int (unat b)"
    by (metis of_nat_add of_nat_mult of_nat_numeral)
  then have "of_int (int (unat b div 16) * 16 + int (unat b mod 16)) = b" by simp
  with h have "byteval (?d (unat b div 16)) (?d (unat b mod 16)) = Some b"
    unfolding byteval_def Let_def h by simp
  then show ?thesis unfolding hex2_def Let_def by blast
qed

lemma length_hex2 [simp]: "length (hex2 b) = 2"
  by (simp add: hex2_def Let_def)

lemma length_hex2s [simp]: "length (concat (map hex2 bs)) = 2 * length bs"
  by (induction bs) simp_all

lemma hex_decode_hex2: "hex_decode_loop (concat (map hex2 bs)) dst = (0, dst @ bs)"
proof (induction bs arbitrary: dst)
  case (Cons b bs)
  obtain x y where "hex2 b = [x, y]" "byteval x y = Some b" using byteval_hex2 [of b] by blast
  with Cons show ?case by simp
qed simp

lemma str_hex_decode_hex2: "length bs = n \<Longrightarrow> str_hex_decode n (concat (map hex2 bs)) = (0, bs)"
  by (simp add: str_hex_decode_def str_length_def hex_decode_hex2)

lemma digit_printable:
  "n < 16 \<Longrightarrow> 0 < (if n < 10 then of_nat (48 + n) else of_nat (87 + n) :: byte) \<and>
    (if n < 10 then of_nat (48 + n) else of_nat (87 + n) :: byte) < 0x80"
  using digit_facts by (simp add: list_all_iff Let_def)

lemma hex2_last: "\<exists>x y. hex2 b = [x, y] \<and> 0 < y \<and> y < 0x80"
proof -
  have "unat b mod 16 < 16" by simp
  from digit_printable [OF this] show ?thesis unfolding hex2_def Let_def by (intro exI conjI) (rule refl, simp_all only:)
qed

lemma ParseUuid_FormatUuid:
  assumes "wf_uuid u"
  shows "length (FormatUuid u UUID_MAXSTRSIZE) = 36 \<and> ParseUuid (FormatUuid u UUID_MAXSTRSIZE) = (0, u)"
proof -
  let ?h = "\<lambda>i n. concat (map hex2 (take n (drop i u)))"
  define t where "t = ?h 0 4 @ [0x2D] @ ?h 4 2 @ [0x2D] @ ?h 6 2 @ [0x2D] @ ?h 8 2 @ [0x2D] @ ?h 10 6"
  have len: "length (?h 0 4) = 8" "length (?h 4 2) = 4" "length (?h 6 2) = 4" "length (?h 8 2) = 4" "length (?h 10 6) = 12"
    using assms by simp_all
  have l: "length t = 36" unfolding t_def by (simp only: length_append len list.size)
  have "\<exists>s c. t = s @ [c] \<and> 0 < c \<and> c < 0x80"
  proof -
    have "take 6 (drop 10 u) = take 5 (drop 10 u) @ [u ! 15]"
      using take_Suc_conv_app_nth [of 5 "drop 10 u"] assms by simp
    then have "?h 10 6 = ?h 10 5 @ hex2 (u ! 15)" by simp
    moreover obtain x y where "hex2 (u ! 15) = [x, y]" "0 < y" "y < 0x80" using hex2_last by blast
    ultimately show ?thesis unfolding t_def
      by (intro exI [of _ "?h 0 4 @ [0x2D] @ ?h 4 2 @ [0x2D] @ ?h 6 2 @ [0x2D] @ ?h 8 2 @ [0x2D] @ ?h 10 5 @ [x]"] exI [of _ y]) simp
  qed
  then have copy: "str_copy t UUID_MAXSTRSIZE = t"
    using str_copy_ascii [of _ _ UUID_MAXSTRSIZE] l by (auto simp: UUID_MAXSTRSIZE_def)
  then have f: "FormatUuid u UUID_MAXSTRSIZE = t" by (simp add: FormatUuid_def t_def Let_def)
  have at: "t ! 8 = 0x2D" "t ! 13 = 0x2D" "t ! 18 = 0x2D" "t ! 23 = 0x2D"
    unfolding t_def by (simp_all only: nth_append len list.size length_append) (simp_all add: nth_Cons')
  have parts: "take 8 t = ?h 0 4" "take 4 (drop 9 t) = ?h 4 2" "take 4 (drop 14 t) = ?h 6 2" "take 4 (drop 19 t) = ?h 8 2"
    "drop 24 t = ?h 10 6"
    unfolding t_def by (simp_all only: take_append drop_append len list.size length_append) (simp_all add: assms)
  have dec: "str_hex_decode n (?h i n) = (0, take n (drop i u))" if "i + n \<le> 16" for i n
    using that assms by (intro str_hex_decode_hex2) simp
  have whole: "take 4 (drop 0 u) @ take 2 (drop 4 u) @ take 2 (drop 6 u) @ take 2 (drop 8 u) @ take 6 (drop 10 u) = u"
  proof -
    have s: "take n (drop i u) @ drop (n + i) u = drop i u" for n i
      using append_take_drop_id [of n "drop i u"] by simp
    have "take 6 (drop 10 u) = drop 10 u" using assms by simp
    with s [of 2 8] s [of 2 6] s [of 2 4] s [of 4 0] show ?thesis by simp
  qed
  have "ParseUuid t = (0, u)"
    unfolding ParseUuid_def Let_def copy at parts using dec [of 0 4] dec [of 4 2] dec [of 6 2] dec [of 8 2] dec [of 10 6] l whole
    by (simp add: str_length_def UUID_MAXSTRSIZE_def)
  with f l show ?thesis by simp
qed

lemma uuid_ints_bytes: "uint_to_bytes_be (of_int (to_i32 (uint w))) = uint_to_bytes_be w"
proof -
  have "(of_int (to_i32 (uint w)) :: 32 word) = w"
  proof (rule word_uint_eqI)
    have "to_i32 (uint w) mod 4294967296 = uint w mod 4294967296"
      using to_i32_eq_iff [of "to_i32 (uint w)" "uint w"] by simp
    also have "\<dots> = uint w" using uint_lt2p [of w] by (simp add: mod_pos_pos_trivial)
    finally show "uint (of_int (to_i32 (uint w)) :: 32 word) = uint w" by (simp add: uint_word_of_int)
  qed
  then show ?thesis by simp
qed

text \<open>After a name was registered, its number and its UUID are found from each other, every other
  UUID is looked up as before, and the manager keeps its invariant.\<close>

theorem uuid_lookup_inverse:
  assumes "um_ok m" "\<And>x. length (md5 x) = 16" "RegisterName md5 NameId pName m = Inr m'"
  shows "um_ok m' \<and> GetUuid m' NameId = Some (CalculateUuid md5 pName) \<and> GetName m' NameId = Some pName \<and>
    LookupUuid m' (CalculateUuid md5 pName) = NameId \<and>
    (\<forall>u. wf_uuid u \<and> u \<noteq> CalculateUuid md5 pName \<longrightarrow> LookupUuid m' u = LookupUuid m u)"
proof -
  note r = RegisterName_ok [OF assms]
  have w: "wf_uuid (CalculateUuid md5 pName)" by (simp add: CalculateUuid_def set_version_def assms(2))
  have "LookupUuid m' (CalculateUuid md5 pName) = NameId"
    using LookupUuid_spec [OF _ w, of m'] r by (auto simp: nth_append)
  then show ?thesis
    using r lookup_other [OF assms(1)] by (auto simp: GetUuid_def GetName_def GetIndex_def GetId_def nth_append)
qed

theorem uuid_lookup_inverse_witness:
  "\<exists>m. RegisterName (\<lambda>x. replicate 16 7) 65536 [0x61] \<lparr>um_Names = [], um_NamesSorted = []\<rparr> = Inr m \<and>
    LookupUuid m (CalculateUuid (\<lambda>x. replicate 16 7) [0x61]) = 65536"
proof -
  obtain m where m: "RegisterName (\<lambda>x. replicate 16 7) 65536 [0x61] \<lparr>um_Names = [], um_NamesSorted = []\<rparr> = Inr m"
    by (simp add: RegisterName_def GetIndex_def OFFSET_UUID_def LookupUuid_def UUID_UNKNOWN_def Let_def)
  from uuid_lookup_inverse [OF um_empty_ok _ m] m show ?thesis by (intro exI [of _ m]) simp
qed

lemma bytes_be_inverse: "uint_to_bytes_be (bytes_be_to_uint (a # b # c # d # r)) = [a, b, c, d]"
  unfolding bytes_be_to_uint_def uint_to_bytes_be_def
  by (simp, intro conjI bit_word_eqI) (auto simp: bit_simps dest: bit_imp_le_length)

lemma uuid_ints_step: "uint_to_bytes_be (of_int (to_i32 (uint (bytes_be_to_uint (a # b # c # d # r))))) = [a, b, c, d]"
  by (simp only: uuid_ints_bytes bytes_be_inverse)

lemma UuidFromInts_ToInts:
  assumes "wf_uuid u"
  shows "UuidFromInts (UuidToInts u) = u"
proof -
  obtain a0 a1 a2 a3 a4 a5 a6 a7 a8 a9 b0 b1 b2 b3 b4 b5 where
    u: "u = [a0, a1, a2, a3, a4, a5, a6, a7, a8, a9, b0, b1, b2, b3, b4, b5]"
  proof -
    have "u = map ((!) u) [0..<16]" using map_nth [of u] assms by (simp only:)
    then have "u = [u ! 0, u ! 1, u ! 2, u ! 3, u ! 4, u ! 5, u ! 6, u ! 7, u ! 8, u ! 9, u ! 10, u ! 11, u ! 12, u ! 13, u ! 14, u ! 15]"
      by (simp add: upt_rec numeral_eq_Suc)
    then show ?thesis by (rule that)
  qed
  show ?thesis
    unfolding UuidFromInts_def UuidToInts_def UUID_INT_SIZE_def u by (simp add: upt_rec uuid_ints_step)
qed

text \<open>The text of a UUID fits its buffer and parses back, and its four ints convert back.\<close>

theorem uuid_roundtrip:
  assumes "wf_uuid u"
  shows "length (FormatUuid u UUID_MAXSTRSIZE) < UUID_MAXSTRSIZE \<and> ParseUuid (FormatUuid u UUID_MAXSTRSIZE) = (0, u) \<and>
    length (UuidToInts u) = UUID_INT_SIZE \<and> UuidFromInts (UuidToInts u) = u"
  using ParseUuid_FormatUuid [OF assms] UuidFromInts_ToInts [OF assms]
  by (simp add: UUID_MAXSTRSIZE_def UuidToInts_def)

theorem uuid_roundtrip_witness:
  "ParseUuid (FormatUuid TEEWORLDS_NAMESPACE UUID_MAXSTRSIZE) = (0, TEEWORLDS_NAMESPACE)"
  using uuid_roundtrip [of TEEWORLDS_NAMESPACE] by (simp add: TEEWORLDS_NAMESPACE_def)

end
