(* ===== verification/Snapshot.thy ===== *)
theory Snapshot
  imports Prelude VarInt Uuid
begin

text \<open>
  Snapshots of the game world (src/src/engine/shared/snapshot.h, snapshot.cpp,
  sixup_translate_snapshot.cpp): the flat snapshot, the builder, the delta between two snapshots and
  the storage of the recent ones. Memory is in units of one int: \<open>sn_Words\<close> is what follows the two
  header ints (the offsets, then the items), \<open>dl_Data\<close> what follows the three header ints of a delta.
  Offsets and sizes are in bytes, as in the code. The number 1 in \<open>Data()\<close> is the key before the
  data of an item.
\<close>

subsection \<open>The flat snapshot\<close>

definition OFFSET_UUID_TYPE :: int where "OFFSET_UUID_TYPE = 0x4000"
definition MAX_TYPE :: int where "MAX_TYPE = 0x7fff"
definition MAX_ID :: int where "MAX_ID = 0xffff"
definition MAX_ITEMS :: int where "MAX_ITEMS = 1024"
definition SNAP_MAX_SIZE :: int where "SNAP_MAX_SIZE = 64 * 1024"

record snapshot =
  sn_DataSize :: int
  sn_NumItems :: int
  sn_Words :: "int list"

definition EmptySnapshot :: snapshot where
  "EmptySnapshot = \<lparr>sn_DataSize = 0, sn_NumItems = 0, sn_Words = []\<rparr>"

definition key_InternalType :: "int \<Rightarrow> int" where "key_InternalType k = drop_bit 16 k"
definition key_Id :: "int \<Rightarrow> int" where "key_Id k = k AND 0xffff"

definition Offset :: "snapshot \<Rightarrow> nat \<Rightarrow> int" where
  "Offset s i = sn_Words s ! i"

definition GetItem :: "snapshot \<Rightarrow> nat \<Rightarrow> nat" where
  "GetItem s i = nat (sn_NumItems s) + nat (Offset s i) div 4"

definition Key :: "snapshot \<Rightarrow> nat \<Rightarrow> int" where
  "Key s i = sn_Words s ! GetItem s i"

definition ItemData :: "snapshot \<Rightarrow> nat \<Rightarrow> int list" where
  "ItemData s i = drop (GetItem s i + 1) (sn_Words s)"

definition GetItemSize :: "snapshot \<Rightarrow> nat \<Rightarrow> int" where
  "GetItemSize s i =
     (if int i = sn_NumItems s - 1 then to_i32 (sn_DataSize s - Offset s i - 4)
      else to_i32 (Offset s (i + 1) - Offset s i - 4))"

definition OffsetSize :: "snapshot \<Rightarrow> int" where "OffsetSize s = 4 * sn_NumItems s"
definition TotalSize :: "snapshot \<Rightarrow> int" where "TotalSize s = 8 + OffsetSize s + sn_DataSize s"

definition indices :: "snapshot \<Rightarrow> nat list" where
  "indices s = [0..<nat (sn_NumItems s)]"

definition GetItemIndex :: "snapshot \<Rightarrow> int \<Rightarrow> nat option" where
  "GetItemIndex s k = find (\<lambda>i. Key s i = k) (indices s)"

definition InvalidateItem :: "nat \<Rightarrow> snapshot \<Rightarrow> snapshot" where
  "InvalidateItem i s = s\<lparr>sn_Words := (sn_Words s)[GetItem s i := - 1]\<rparr>"

definition GetExternalItemType :: "uuid_manager \<Rightarrow> snapshot \<Rightarrow> int \<Rightarrow> int" where
  "GetExternalItemType um s InternalType =
     (if InternalType < OFFSET_UUID_TYPE then InternalType
      else case GetItemIndex s InternalType of
        None \<Rightarrow> - 1
      | Some i \<Rightarrow> if GetItemSize s i < 16 then - 1
          else LookupUuid um (UuidFromInts (ItemData s i)))"

definition GetItemType :: "uuid_manager \<Rightarrow> snapshot \<Rightarrow> nat \<Rightarrow> int" where
  "GetItemType um s i = GetExternalItemType um s (key_InternalType (Key s i))"

text \<open>The item that declares an extended type is found by its UUID: 16 bytes are compared.\<close>

fun find_type_item :: "snapshot \<Rightarrow> int list \<Rightarrow> nat list \<Rightarrow> nat option result" where
  "find_type_item s ints [] = Inr None"
| "find_type_item s ints (i # is) =
     (if key_InternalType (Key s i) = 0 \<and> key_Id (Key s i) \<ge> OFFSET_UUID_TYPE then
        (if length (ItemData s i) < UUID_INT_SIZE then Inl OutOfBounds
         else if take UUID_INT_SIZE (ItemData s i) = ints then Inr (Some i)
         else find_type_item s ints is)
      else find_type_item s ints is)"

definition find_by_key :: "snapshot \<Rightarrow> int \<Rightarrow> int \<Rightarrow> nat option" where
  "find_by_key s InternalType ItemId = GetItemIndex s (to_i32 (push_bit 16 InternalType OR ItemId))"

definition FindItem :: "uuid_manager \<Rightarrow> snapshot \<Rightarrow> int \<Rightarrow> int \<Rightarrow> nat option result" where
  "FindItem um s Type ItemId =
     (if Type \<ge> OFFSET_UUID then
        (case GetUuid um Type of
           None \<Rightarrow> Inl OutOfBounds
         | Some u \<Rightarrow>
             (case find_type_item s (UuidToInts u) (indices s) of
                Inl e \<Rightarrow> Inl e
              | Inr None \<Rightarrow> Inr None
              | Inr (Some i) \<Rightarrow> Inr (find_by_key s (key_Id (Key s i)) ItemId)))
      else Inr (find_by_key s Type ItemId))"

definition snap_Crc :: "snapshot \<Rightarrow> int" where
  "snap_Crc s =
     foldl (\<lambda>Crc i. foldl (\<lambda>c b. (c + b) mod 4294967296) Crc (take (nat (GetItemSize s i) div 4) (ItemData s i)))
       0 (indices s)"

definition IsValid :: "snapshot \<Rightarrow> int \<Rightarrow> bool" where
  "IsValid s ActualSize \<longleftrightarrow>
     (if ActualSize < 8 \<or> ActualSize > SNAP_MAX_SIZE \<or> sn_NumItems s < 0 \<or> sn_NumItems s > MAX_ITEMS \<or>
         sn_DataSize s < 0 \<or> ActualSize \<noteq> TotalSize s then False
      else if list_ex (\<lambda>i. Offset s i < 0 \<or> Offset s i > sn_DataSize s \<or> Offset s i mod 4 \<noteq> 0) (indices s) then False
      else \<not> list_ex (\<lambda>i. GetItemSize s i < 0 \<or> GetItemSize s i mod 4 \<noteq> 0) (indices s))"

subsection \<open>The builder\<close>

record builder =
  sb_Data :: "int list"
  sb_Offsets :: "int list"
  sb_ExtendedItemTypes :: "int list"
  sb_Building :: bool
  sb_HasDroppedItem :: bool
  sb_Sixup :: bool

definition MAX_EXTENDED_ITEM_TYPES :: nat where "MAX_EXTENDED_ITEM_TYPES = 64"

definition sb_DataSize :: "builder \<Rightarrow> int" where "sb_DataSize b = 4 * int (length (sb_Data b))"
definition sb_NumItems :: "builder \<Rightarrow> nat" where "sb_NumItems b = length (sb_Offsets b)"

text \<open>What \<open>NewItemRaw\<close> returns: no pointer, one to memory behind the data that no item owns (an item
  that does not exist in 0.7), or one to the data of a new item.\<close>

datatype slot = NoSlot | Scratch | Slot nat

definition create_item :: "int \<Rightarrow> int \<Rightarrow> int \<Rightarrow> builder \<Rightarrow> slot \<times> builder" where
  "create_item Type ItemId Size b =
     (Slot (sb_NumItems b),
      b\<lparr>sb_Offsets := sb_Offsets b @ [sb_DataSize b],
        sb_Data := sb_Data b @ to_i32 (push_bit 16 Type OR ItemId) # replicate (nat Size div 4) 0\<rparr>)"

text \<open>The part of \<open>NewItemRaw\<close> after extended types were resolved; \<open>six\<close> is \<open>Obj_SixToSeven\<close>, which is
  generated.\<close>

definition place_item :: "(int \<Rightarrow> int) \<Rightarrow> bool \<Rightarrow> int \<Rightarrow> int \<Rightarrow> int \<Rightarrow> builder \<Rightarrow> slot \<times> builder" where
  "place_item six Extended Type ItemId Size b =
     (if int (sb_NumItems b) \<ge> MAX_ITEMS then (NoSlot, b)
      else if 8 + (int (sb_NumItems b) + 1) * 4 + sb_DataSize b + (4 + Size) > SNAP_MAX_SIZE then (NoSlot, b)
      else if sb_Sixup b \<and> \<not> Extended then
        (let T = (if Type \<ge> 0 then six Type else - Type) in
         if T < 0 then (Scratch, b) else create_item T ItemId Size b)
      else if Type < 0 then (NoSlot, b)
      else create_item Type ItemId Size b)"

definition item_asserts :: "int \<Rightarrow> int \<Rightarrow> int \<Rightarrow> builder \<Rightarrow> bool" where
  "item_asserts Type ItemId Size b \<longleftrightarrow> sb_Building b \<and>
     (0 \<le> Type \<and> Type \<le> MAX_TYPE \<or> Type \<ge> OFFSET_UUID \<or> sb_Sixup b \<and> - MAX_TYPE \<le> Type \<and> Type < 0) \<and>
     0 \<le> ItemId \<and> ItemId \<le> MAX_ID \<and> 0 \<le> Size \<and> Size \<le> SNAP_MAX_SIZE - 8 - 4 - 4 \<and> Size mod 4 = 0"

text \<open>Writing \<open>xs\<close> to the data of an item, whose place follows from its offset.\<close>

definition write_item :: "nat \<Rightarrow> int list \<Rightarrow> builder \<Rightarrow> builder" where
  "write_item i xs b =
     (let p = nat (sb_Offsets b ! i) div 4 + 1 in
      b\<lparr>sb_Data := take p (sb_Data b) @ xs @ drop (p + length xs) (sb_Data b)\<rparr>)"

definition write_slot :: "slot \<Rightarrow> int list \<Rightarrow> builder \<Rightarrow> builder" where
  "write_slot s xs b = (case s of Slot i \<Rightarrow> write_item i xs b | _ \<Rightarrow> b)"

definition GetTypeFromIndex :: "nat \<Rightarrow> int" where
  "GetTypeFromIndex Index = MAX_TYPE - int Index"

definition AddExtendedItemType :: "uuid_manager \<Rightarrow> (int \<Rightarrow> int) \<Rightarrow> nat \<Rightarrow> builder \<Rightarrow> (bool \<times> builder) result" where
  "AddExtendedItemType um six Index b =
     (if \<not> sb_Building b \<or> Index \<ge> length (sb_ExtendedItemTypes b) \<or> \<not> item_asserts 0 (GetTypeFromIndex Index) 16 b
      then Inl AssertFailed
      else case place_item six False 0 (GetTypeFromIndex Index) 16 b of
        (NoSlot, b1) \<Rightarrow> Inr (False, b1)
      | (s, b1) \<Rightarrow>
          (case GetUuid um (sb_ExtendedItemTypes b1 ! Index) of
             None \<Rightarrow> Inl OutOfBounds
           | Some u \<Rightarrow> Inr (True, write_slot s (UuidToInts u) b1)))"

definition GetExtendedItemTypeIndex :: "uuid_manager \<Rightarrow> (int \<Rightarrow> int) \<Rightarrow> int \<Rightarrow> builder \<Rightarrow> (nat option \<times> builder) result" where
  "GetExtendedItemTypeIndex um six TypeId b =
     (case find (\<lambda>i. sb_ExtendedItemTypes b ! i = TypeId) [0..<length (sb_ExtendedItemTypes b)] of
        Some i \<Rightarrow> Inr (Some i, b)
      | None \<Rightarrow>
          if length (sb_ExtendedItemTypes b) \<ge> MAX_EXTENDED_ITEM_TYPES then Inl AssertFailed
          else
            let Index = length (sb_ExtendedItemTypes b) in
            case AddExtendedItemType um six Index (b\<lparr>sb_ExtendedItemTypes := sb_ExtendedItemTypes b @ [TypeId]\<rparr>) of
              Inl e \<Rightarrow> Inl e
            | Inr (True, b1) \<Rightarrow> Inr (Some Index, b1)
            | Inr (False, b1) \<Rightarrow> Inr (None, b1\<lparr>sb_ExtendedItemTypes := butlast (sb_ExtendedItemTypes b1)\<rparr>))"

definition NewItemRaw :: "uuid_manager \<Rightarrow> (int \<Rightarrow> int) \<Rightarrow> int \<Rightarrow> int \<Rightarrow> int \<Rightarrow> builder \<Rightarrow> (slot \<times> builder) result" where
  "NewItemRaw um six Type ItemId Size b =
     (if \<not> item_asserts Type ItemId Size b then Inl AssertFailed
      else if Type \<ge> OFFSET_UUID then
        (case GetExtendedItemTypeIndex um six Type b of
           Inl e \<Rightarrow> Inl e
         | Inr (None, b1) \<Rightarrow> Inr (NoSlot, b1)
         | Inr (Some i, b1) \<Rightarrow> Inr (place_item six True (GetTypeFromIndex i) ItemId Size b1))
      else Inr (place_item six False Type ItemId Size b))"

definition NewItem :: "uuid_manager \<Rightarrow> (int \<Rightarrow> int) \<Rightarrow> int \<Rightarrow> int \<Rightarrow> int list \<Rightarrow> int \<Rightarrow> builder \<Rightarrow> (bool \<times> builder) result" where
  "NewItem um six Type ItemId pData Size b =
     (if \<not> sb_Building b then Inl AssertFailed
      else if sb_HasDroppedItem b then Inr (False, b)
      else case NewItemRaw um six Type ItemId Size b of
        Inl e \<Rightarrow> Inl e
      | Inr (NoSlot, b1) \<Rightarrow> Inr (False, b1\<lparr>sb_HasDroppedItem := True\<rparr>)
      | Inr (s, b1) \<Rightarrow>
          if length pData < nat Size div 4 then Inl OutOfBounds
          else Inr (True, write_slot s (take (nat Size div 4) pData) b1))"

fun add_extended_types :: "uuid_manager \<Rightarrow> (int \<Rightarrow> int) \<Rightarrow> nat list \<Rightarrow> builder \<Rightarrow> builder result" where
  "add_extended_types um six [] b = Inr b"
| "add_extended_types um six (i # is) b =
     (case AddExtendedItemType um six i b of Inl e \<Rightarrow> Inl e | Inr (_, b1) \<Rightarrow> add_extended_types um six is b1)"

definition builder_Init :: "uuid_manager \<Rightarrow> (int \<Rightarrow> int) \<Rightarrow> bool \<Rightarrow> builder \<Rightarrow> builder result" where
  "builder_Init um six Sixup b =
     (if sb_Building b then Inl AssertFailed
      else add_extended_types um six [0..<length (sb_ExtendedItemTypes b)]
        (b\<lparr>sb_Data := [], sb_Offsets := [], sb_Building := True, sb_HasDroppedItem := False, sb_Sixup := Sixup\<rparr>))"

definition builder_Init7 :: "snapshot \<Rightarrow> builder \<Rightarrow> builder result" where
  "builder_Init7 s b =
     (if sb_Building b then Inl AssertFailed
      else if length (sn_Words s) < nat (sn_NumItems s) + nat (sn_DataSize s) div 4 then Inl OutOfBounds
      else Inr (b\<lparr>sb_Building := True, sb_HasDroppedItem := False, sb_Sixup := False,
        sb_Offsets := take (nat (sn_NumItems s)) (sn_Words s),
        sb_Data := take (nat (sn_DataSize s) div 4) (drop (nat (sn_NumItems s)) (sn_Words s))\<rparr>))"

definition builder_GetItem :: "builder \<Rightarrow> nat \<Rightarrow> nat result" where
  "builder_GetItem b i = (if i < sb_NumItems b then Inr (nat (sb_Offsets b ! i) div 4) else Inl AssertFailed)"

definition builder_GetItemSize :: "builder \<Rightarrow> nat \<Rightarrow> int result" where
  "builder_GetItemSize b i =
     (if i < sb_NumItems b
      then Inr (to_i32 ((if i + 1 < sb_NumItems b then sb_Offsets b ! (i + 1) else sb_DataSize b) - sb_Offsets b ! i - 4))
      else Inl AssertFailed)"

definition FindItemIndexByKey :: "builder \<Rightarrow> int \<Rightarrow> nat option" where
  "FindItemIndexByKey b k = find (\<lambda>i. sb_Data b ! (nat (sb_Offsets b ! i) div 4) = k) [0..<sb_NumItems b]"

definition builder_Finish :: "builder \<Rightarrow> (int \<times> snapshot \<times> builder) result" where
  "builder_Finish b =
     (let s = \<lparr>sn_DataSize = sb_DataSize b, sn_NumItems = int (sb_NumItems b), sn_Words = sb_Offsets b @ sb_Data b\<rparr> in
      if \<not> sb_Building b \<or> int (sb_NumItems b) > MAX_ITEMS \<or> TotalSize s > SNAP_MAX_SIZE then Inl AssertFailed
      else Inr (TotalSize s, s, b\<lparr>sb_Building := False\<rparr>))"

definition FinishIfNoDroppedItems :: "builder \<Rightarrow> (int \<times> snapshot option \<times> builder) result" where
  "FinishIfNoDroppedItems b =
     (if \<not> sb_Building b then Inl AssertFailed
      else if sb_HasDroppedItem b then Inr (- 1, None, b\<lparr>sb_Building := False\<rparr>)
      else case builder_Finish b of Inl e \<Rightarrow> Inl e | Inr (n, s, b1) \<Rightarrow> Inr (n, Some s, b1))"

definition blank_builder :: builder where
  "blank_builder = \<lparr>sb_Data = [], sb_Offsets = [], sb_ExtendedItemTypes = [], sb_Building = False,
     sb_HasDroppedItem = False, sb_Sixup = False\<rparr>"

subsection \<open>The hash list\<close>

definition HASHLIST_SIZE :: nat where "HASHLIST_SIZE = 256"
definition HASHLIST_BUCKET_SIZE :: nat where "HASHLIST_BUCKET_SIZE = 64"

definition hash_step :: "int \<Rightarrow> nat \<Rightarrow> 32 word \<Rightarrow> 32 word" where
  "hash_step k Shift Hash = (push_bit 5 Hash + Hash) + of_int (drop_bit (Shift * 8) k AND 0xFF)"

definition CalcHashId :: "int \<Rightarrow> nat" where
  "CalcHashId k = unat (fold (hash_step k) [0..<4] 5381) mod HASHLIST_SIZE"

type_synonym hashlist = "nat \<Rightarrow> (int \<times> nat) list"

definition hash_add :: "snapshot \<Rightarrow> hashlist \<Rightarrow> nat \<Rightarrow> hashlist" where
  "hash_add s h i =
     (let k = Key s i; n = CalcHashId k in
      if length (h n) < HASHLIST_BUCKET_SIZE then h(n := h n @ [(k, i)]) else h)"

definition GenerateHash :: "snapshot \<Rightarrow> hashlist" where
  "GenerateHash s = foldl (hash_add s) (\<lambda>_. []) (indices s)"

definition GetItemIndexHashed :: "int \<Rightarrow> hashlist \<Rightarrow> nat option" where
  "GetItemIndexHashed k h = map_of (h (CalcHashId k)) k"

subsection \<open>Deltas\<close>

definition MAX_NETOBJSIZES :: int where "MAX_NETOBJSIZES = 64"
definition DELTA_MAX_SIZE :: int where "DELTA_MAX_SIZE = 2 * SNAP_MAX_SIZE"

record delta =
  dl_NumDeletedItems :: int
  dl_NumUpdateItems :: int
  dl_NumTempItems :: int
  dl_Data :: "int list"

record snap_delta =
  sd_ItemSizes :: "int list"
  sd_DataRate :: "nat \<Rightarrow> nat"
  sd_DataUpdates :: "nat \<Rightarrow> nat"

definition EmptyDelta :: delta where
  "EmptyDelta = \<lparr>dl_NumDeletedItems = 0, dl_NumUpdateItems = 0, dl_NumTempItems = 0, dl_Data = []\<rparr>"

definition fresh_delta :: snap_delta where
  "fresh_delta = \<lparr>sd_ItemSizes = replicate 64 0, sd_DataRate = (\<lambda>_. 0), sd_DataUpdates = (\<lambda>_. 0)\<rparr>"

definition SetStaticsize :: "int \<Rightarrow> nat \<Rightarrow> snap_delta \<Rightarrow> snap_delta result" where
  "SetStaticsize ItemType Size d =
     (if 0 \<le> ItemType \<and> ItemType < MAX_NETOBJSIZES \<and> Size \<le> 32767
      then Inr (d\<lparr>sd_ItemSizes := (sd_ItemSizes d)[nat ItemType := int Size]\<rparr>) else Inl AssertFailed)"

text \<open>The differences and \<open>Needed\<close>, the OR of them; \<open>None\<close> when the past item's memory ends first.\<close>

fun DiffItem :: "int list \<Rightarrow> int list \<Rightarrow> nat \<Rightarrow> (int list \<times> int) option" where
  "DiffItem past cur 0 = Some ([], 0)"
| "DiffItem (p # past) (c # cur) (Suc n) =
     (case DiffItem past cur n of None \<Rightarrow> None
      | Some (out, needed) \<Rightarrow> Some (to_i32 (c - p) # out, to_i32 (c - p) OR needed))"
| "DiffItem past cur (Suc n) = None"

definition rate_of :: "int \<Rightarrow> nat" where
  "rate_of d = (if d = 0 then 1 else case Pack d (int MAX_BYTES_PACKED) of None \<Rightarrow> 0 | Some bs \<Rightarrow> 8 * length bs)"

fun UndiffItem :: "int list \<Rightarrow> int list \<Rightarrow> nat \<Rightarrow> nat \<Rightarrow> (int list \<times> nat) option" where
  "UndiffItem past dif 0 rate = Some ([], rate)"
| "UndiffItem (p # past) (d # dif) (Suc n) rate =
     (case UndiffItem past dif n ((rate + rate_of d) mod 2 ^ 64) of None \<Rightarrow> None
      | Some (out, rate') \<Rightarrow> Some (to_i32 (p + d) # out, rate'))"
| "UndiffItem past dif (Suc n) rate = None"

definition include_size :: "snap_delta \<Rightarrow> int \<Rightarrow> bool" where
  "include_size d Type \<longleftrightarrow> Type \<ge> MAX_NETOBJSIZES \<or> sd_ItemSizes d ! nat Type = 0"

text \<open>One item of the new snapshot: nothing when it did not change, else its header and its
  differences or data; \<open>None\<close> outside the item sizes, an item or the delta buffer, of which \<open>used\<close>
  ints are taken.\<close>

definition update_item :: "snap_delta \<Rightarrow> snapshot \<Rightarrow> snapshot \<Rightarrow> nat option \<Rightarrow> nat \<Rightarrow> nat \<Rightarrow> int list option option" where
  "update_item d pFrom pTo past used i =
     (let Type = key_InternalType (Key pTo i); n = nat (GetItemSize pTo i) div 4;
          hdr = [Type, key_Id (Key pTo i)] @ (if include_size d Type then [int n] else []) in
      if Type < 0 \<or> GetItemSize pTo i < 0 \<or> length (ItemData pTo i) < n \<or>
         12 + 4 * int (used + length hdr + n) > DELTA_MAX_SIZE then None
      else case past of
        Some j \<Rightarrow> (case DiffItem (ItemData pFrom j) (ItemData pTo i) n of
            None \<Rightarrow> None
          | Some (out, needed) \<Rightarrow> Some (if needed \<noteq> 0 then Some (hdr @ out) else None))
      | None \<Rightarrow> Some (Some (hdr @ take n (ItemData pTo i))))"

fun create_updates :: "snap_delta \<Rightarrow> snapshot \<Rightarrow> snapshot \<Rightarrow> hashlist \<Rightarrow> nat list \<Rightarrow> int list \<Rightarrow> int \<Rightarrow> (int list \<times> int) option" where
  "create_updates d pFrom pTo h [] out num = Some (out, num)"
| "create_updates d pFrom pTo h (i # is) out num =
     (case update_item d pFrom pTo (GetItemIndexHashed (Key pTo i) h) (length out) i of
        None \<Rightarrow> None
      | Some None \<Rightarrow> create_updates d pFrom pTo h is out num
      | Some (Some xs) \<Rightarrow> create_updates d pFrom pTo h is (out @ xs) (num + 1))"

definition CreateDelta :: "snap_delta \<Rightarrow> snapshot \<Rightarrow> snapshot \<Rightarrow> (int \<times> delta) option" where
  "CreateDelta d pFrom pTo =
     (let toHash = GenerateHash pTo;
          deleted = map (Key pFrom) (filter (\<lambda>i. GetItemIndexHashed (Key pFrom i) toHash = None) (indices pFrom)) in
      if 12 + 4 * int (length deleted) > DELTA_MAX_SIZE then None
      else case create_updates d pFrom pTo (GenerateHash pFrom) (indices pTo) deleted 0 of
        None \<Rightarrow> None
      | Some (out, num) \<Rightarrow>
          Some (if length deleted = 0 \<and> num = 0 then 0 else 12 + 4 * int (length out),
                \<lparr>dl_NumDeletedItems = int (length deleted), dl_NumUpdateItems = num, dl_NumTempItems = 0, dl_Data = out\<rparr>))"

subsection \<open>Applying a delta\<close>

fun keep_items :: "uuid_manager \<Rightarrow> (int \<Rightarrow> int) \<Rightarrow> snapshot \<Rightarrow> int list \<Rightarrow> nat list \<Rightarrow> builder \<Rightarrow> builder result" where
  "keep_items um six pFrom deleted [] b = Inr b"
| "keep_items um six pFrom deleted (i # is) b =
     (if Key pFrom i \<in> set deleted then keep_items um six pFrom deleted is b
      else case NewItem um six (key_InternalType (Key pFrom i)) (key_Id (Key pFrom i)) (ItemData pFrom i) (GetItemSize pFrom i) b of
        Inl e \<Rightarrow> Inl e
      | Inr (False, b1) \<Rightarrow> Inl (ErrCode (- 301))
      | Inr (True, b1) \<Rightarrow> keep_items um six pFrom deleted is b1)"

text \<open>The size of the item, in bytes, and the data behind it.\<close>

definition read_size :: "snap_delta \<Rightarrow> int \<Rightarrow> int list \<Rightarrow> (int \<times> int list) result" where
  "read_size d Type data =
     (if Type < MAX_NETOBJSIZES \<and> sd_ItemSizes d ! nat Type \<noteq> 0 then Inr (sd_ItemSizes d ! nat Type, data)
      else case data of
        [] \<Rightarrow> Inl (ErrCode (- 103))
      | n # rest \<Rightarrow> if n < 0 \<or> n > 2147483647 div 4 then Inl (ErrCode (- 204)) else Inr (n * 4, rest))"

text \<open>The item of the builder with the key, which is created if there is none.\<close>

definition locate_item :: "uuid_manager \<Rightarrow> (int \<Rightarrow> int) \<Rightarrow> int \<Rightarrow> int \<Rightarrow> int \<Rightarrow> builder \<Rightarrow> (slot \<times> builder) result" where
  "locate_item um six Type ItemId ItemSize b =
     (case FindItemIndexByKey b (push_bit 16 Type OR ItemId) of
        Some i \<Rightarrow>
          (case builder_GetItemSize b i of
             Inl e \<Rightarrow> Inl e
           | Inr n \<Rightarrow> if ItemSize \<noteq> n then Inl (ErrCode (- 206)) else Inr (Slot i, b))
      | None \<Rightarrow>
          (case NewItemRaw um six Type ItemId ItemSize b of
             Inl e \<Rightarrow> Inl e
           | Inr (NoSlot, b1) \<Rightarrow> Inl (ErrCode (- 302))
           | Inr (s, b1) \<Rightarrow> Inr (s, b1)))"

definition count_update :: "int \<Rightarrow> nat \<Rightarrow> snap_delta \<Rightarrow> snap_delta" where
  "count_update Type rate d =
     d\<lparr>sd_DataRate := (sd_DataRate d)(nat Type := rate),
       sd_DataUpdates := (sd_DataUpdates d)(nat Type := (sd_DataUpdates d (nat Type) + 1) mod 2 ^ 64)\<rparr>"

definition apply_item :: "snapshot \<Rightarrow> int \<Rightarrow> int \<Rightarrow> int \<Rightarrow> int list \<Rightarrow> snap_delta \<Rightarrow> (int list \<times> snap_delta) result" where
  "apply_item pFrom Type ItemId ItemSize data d =
     (let n = nat ItemSize div 4; rate = sd_DataRate d (nat Type) in
      case GetItemIndex pFrom (push_bit 16 Type OR ItemId) of
        Some j \<Rightarrow>
          if GetItemSize pFrom j \<noteq> ItemSize then Inl (ErrCode (- 207))
          else (case UndiffItem (ItemData pFrom j) data n rate of
                  None \<Rightarrow> Inl OutOfBounds
                | Some (out, rate') \<Rightarrow> Inr (out, count_update Type rate' d))
      | None \<Rightarrow> Inr (take n data, count_update Type ((rate + nat ItemSize * 8) mod 2 ^ 64) d))"

definition unpack_item :: "uuid_manager \<Rightarrow> (int \<Rightarrow> int) \<Rightarrow> snapshot \<Rightarrow> int list \<Rightarrow> builder \<Rightarrow> snap_delta \<Rightarrow>
    (int list \<times> builder \<times> snap_delta) result" where
  "unpack_item um six pFrom data b d =
     (if length data < 2 then Inl (ErrCode (- 102))
      else
        let Type = data ! 0; ItemId = data ! 1 in
        if Type < 0 \<or> Type > MAX_TYPE then Inl (ErrCode (- 202))
        else if ItemId < 0 \<or> ItemId > MAX_ID then Inl (ErrCode (- 203))
        else case read_size d Type (drop 2 data) of
          Inl e \<Rightarrow> Inl e
        | Inr (ItemSize, rest) \<Rightarrow>
            if ItemSize < 0 \<or> 4 * int (length rest) < ItemSize then Inl (ErrCode (- 205))
            else case locate_item um six Type ItemId ItemSize b of
              Inl e \<Rightarrow> Inl e
            | Inr (s, b1) \<Rightarrow>
                (case apply_item pFrom Type ItemId ItemSize rest d of
                   Inl e \<Rightarrow> Inl e
                 | Inr (xs, d1) \<Rightarrow> Inr (drop (nat ItemSize div 4) rest, write_slot s xs b1, d1)))"

text \<open>The loop; the counters of the items before an error stay counted.\<close>

fun unpack_updates :: "uuid_manager \<Rightarrow> (int \<Rightarrow> int) \<Rightarrow> snapshot \<Rightarrow> nat \<Rightarrow> int list \<Rightarrow> builder \<Rightarrow> snap_delta \<Rightarrow> builder result \<times> snap_delta" where
  "unpack_updates um six pFrom 0 data b d = (Inr b, d)"
| "unpack_updates um six pFrom (Suc n) data b d =
     (case unpack_item um six pFrom data b d of
        Inl e \<Rightarrow> (Inl e, d)
      | Inr (data', b1, d1) \<Rightarrow> unpack_updates um six pFrom n data' b1 d1)"

definition UnpackDelta :: "uuid_manager \<Rightarrow> (int \<Rightarrow> int) \<Rightarrow> snap_delta \<Rightarrow> snapshot \<Rightarrow> delta \<Rightarrow> (int \<times> snapshot) result \<times> snap_delta" where
  "UnpackDelta um six d pFrom dl =
     (case builder_Init um six False blank_builder of
        Inl e \<Rightarrow> (Inl e, d)
      | Inr b0 \<Rightarrow>
          if dl_NumDeletedItems dl < 0 then (Inl (ErrCode (- 201)), d)
          else if dl_NumDeletedItems dl > int (length (dl_Data dl)) then (Inl (ErrCode (- 101)), d)
          else
            let nd = nat (dl_NumDeletedItems dl) in
            case keep_items um six pFrom (take nd (dl_Data dl)) (indices pFrom) b0 of
              Inl e \<Rightarrow> (Inl e, d)
            | Inr b1 \<Rightarrow>
                (case unpack_updates um six pFrom (nat (dl_NumUpdateItems dl)) (drop nd (dl_Data dl)) b1 d of
                   (Inl e, d1) \<Rightarrow> (Inl e, d1)
                 | (Inr b2, d1) \<Rightarrow>
                     (case builder_Finish b2 of Inl e \<Rightarrow> (Inl e, d1) | Inr (n, s, _) \<Rightarrow> (Inr (n, s), d1))))"

subsection \<open>The storage\<close>

text \<open>The linked holders, the oldest first.\<close>

record holder =
  ho_Tick :: int
  ho_Tagtime :: int
  ho_SnapSize :: int
  ho_Snap :: bytes
  ho_AltSnap :: "bytes option"

definition storage_Init :: "holder list" where "storage_Init = []"

definition PurgeAll :: "holder list \<Rightarrow> holder list" where "PurgeAll hs = []"

fun PurgeUntil :: "int \<Rightarrow> holder list \<Rightarrow> holder list" where
  "PurgeUntil Tick [] = []"
| "PurgeUntil Tick (h # hs) = (if ho_Tick h \<ge> Tick then h # hs else PurgeUntil Tick hs)"

definition storage_Add :: "int \<Rightarrow> int \<Rightarrow> bytes \<Rightarrow> bytes \<Rightarrow> holder list \<Rightarrow> holder list result" where
  "storage_Add Tick Tagtime data alt hs =
     (if int (length data) > SNAP_MAX_SIZE \<or> int (length alt) > SNAP_MAX_SIZE then Inl AssertFailed
      else if hs \<noteq> [] \<and> \<not> ho_Tick (last hs) < Tick then Inl AssertFailed
      else Inr (hs @ [\<lparr>ho_Tick = Tick, ho_Tagtime = Tagtime, ho_SnapSize = int (length data), ho_Snap = data,
                       ho_AltSnap = (if alt = [] then None else Some alt)\<rparr>]))"

fun storage_search :: "int \<Rightarrow> holder list \<Rightarrow> holder option" where
  "storage_search Tick [] = None"
| "storage_search Tick (h # older) =
     (if ho_Tick h = Tick then Some h else if ho_Tick h < Tick then None else storage_search Tick older)"

definition storage_Get :: "int \<Rightarrow> holder list \<Rightarrow> holder option" where
  "storage_Get Tick hs = storage_search Tick (rev hs)"

end
