(* ===== verification/SnapItems.thy ===== *)
theory SnapItems
  imports Snapshot
begin

text \<open>
  Snapshots as lists of items, each a key with its data: what the flat layout of Snapshot and its
  builder are on that view. Every valid snapshot has such a view, the operations of the builder
  act on it as appending and overwriting, and what the builder finishes is a valid snapshot.
\<close>

type_synonym items = "(int \<times> int list) list"

subsection \<open>Keys\<close>

lemma and_FFFF: "(i :: int) AND 65535 = i mod 65536"
  using take_bit_eq_mask [of 16 i] by (simp add: take_bit_eq_mod mask_eq_exp_minus_1)

lemma make_key: "0 \<le> t \<Longrightarrow> 0 \<le> d \<Longrightarrow> d < 65536 \<Longrightarrow> push_bit 16 t OR d = t * 65536 + (d :: int)"
  using push_bit_or [of d 16 t] push_bit_mult [of 16 t] by (simp only: power_numeral) simp

lemma key_parts:
  assumes "0 \<le> k" "k < 2147483648"
  shows "0 \<le> key_InternalType k" "key_InternalType k \<le> MAX_TYPE" "0 \<le> key_Id k" "key_Id k \<le> MAX_ID"
    "push_bit 16 (key_InternalType k) OR key_Id k = k"
proof -
  have t: "key_InternalType k = k div 65536" by (simp add: key_InternalType_def drop_bit_div)
  have i: "key_Id k = k mod 65536" by (simp add: key_Id_def and_FFFF)
  show "0 \<le> key_InternalType k" "key_InternalType k \<le> MAX_TYPE" using assms unfolding t MAX_TYPE_def by linarith+
  show "0 \<le> key_Id k" "key_Id k \<le> MAX_ID" unfolding i MAX_ID_def by simp_all
  show "push_bit 16 (key_InternalType k) OR key_Id k = k"
    unfolding t i using assms by (subst make_key) (simp_all add: pos_imp_zdiv_nonneg_iff)
qed

lemma key_range: "0 \<le> t \<Longrightarrow> t \<le> MAX_TYPE \<Longrightarrow> 0 \<le> d \<Longrightarrow> d \<le> MAX_ID \<Longrightarrow>
  in_i32 (push_bit 16 t OR d) \<and> 0 \<le> push_bit 16 t OR d"
  by (subst (1 2) make_key) (auto simp: MAX_TYPE_def MAX_ID_def in_i32_def)

definition key_index :: "items \<Rightarrow> int \<Rightarrow> nat option" where
  "key_index its k = find (\<lambda>i. fst (its ! i) = k) [0..<length its]"

lemma find_cong: "xs = ys \<Longrightarrow> (\<And>x. x \<in> set ys \<Longrightarrow> P x = Q x) \<Longrightarrow> find P xs = find Q ys"
  by (induction ys arbitrary: xs) auto

lemma key_index_None: "key_index its k = None \<longleftrightarrow> k \<notin> fst ` set its"
proof -
  have "set its = (\<lambda>i. its ! i) ` {..<length its}" by (auto simp: set_conv_nth)
  then have "fst ` set its = (\<lambda>i. fst (its ! i)) ` {..<length its}" by (simp only: image_image)
  then show ?thesis unfolding key_index_def find_None_iff by auto
qed

lemma key_index_Some: "key_index its k = Some i \<Longrightarrow> i < length its \<and> fst (its ! i) = k"
  by (auto simp: key_index_def find_Some_iff)

lemma key_index_map_of: "distinct (map fst its) \<Longrightarrow> key_index its k = Some i \<Longrightarrow> map_of its k = Some (snd (its ! i))"
  using key_index_Some [of its k i] by (metis map_of_eq_Some_iff nth_mem prod.collapse)

subsection \<open>The flat layout\<close>

definition flat :: "items \<Rightarrow> int list" where
  "flat its = concat (map (\<lambda>x. fst x # snd x) its)"

fun offs_from :: "int \<Rightarrow> items \<Rightarrow> int list" where
  "offs_from a [] = []"
| "offs_from a (x # xs) = a # offs_from (a + 4 + 4 * int (length (snd x))) xs"

lemma flat_simps [simp]: "flat [] = []" "flat (x # xs) = fst x # snd x @ flat xs" "flat (xs @ ys) = flat xs @ flat ys"
  by (simp_all add: flat_def)

lemma length_offs [simp]: "length (offs_from a its) = length its"
  by (induction its arbitrary: a) auto

lemma offs_append: "offs_from a (xs @ ys) = offs_from a xs @ offs_from (a + 4 * int (length (flat xs))) ys"
  by (induction xs arbitrary: a) (auto simp: algebra_simps)

lemma offs_nth: "i < length its \<Longrightarrow> offs_from a its ! i = a + 4 * int (length (flat (take i its)))"
proof (induction its arbitrary: a i)
  case (Cons x its)
  then show ?case by (cases i) (auto simp: algebra_simps)
qed simp

lemma flat_split: "i < length its \<Longrightarrow> flat its = flat (take i its) @ fst (its ! i) # snd (its ! i) @ flat (drop (i + 1) its)"
  by (metis flat_simps(2,3) id_take_nth_drop Suc_eq_plus1)

definition snap_total :: "items \<Rightarrow> int" where
  "snap_total its = 8 + 4 * int (length its) + 4 * int (length (flat its))"

lemma snap_total_simps [simp]: "snap_total [] = 8" "snap_total (xs @ ys) = snap_total xs + snap_total ys - 8"
  "snap_total (x # xs) = 8 + 4 * int (length (snd x)) + snap_total xs"
  by (simp_all add: snap_total_def)

lemma snap_total_sum: "snap_total its = 8 + (\<Sum>x\<leftarrow>its. 8 + 4 * int (length (snd x)))"
  by (induction its) simp_all

lemma snap_total_item: "x \<in> set its \<Longrightarrow> 16 + 4 * int (length (snd x)) \<le> snap_total its"
proof (induction its)
  case (Cons y its)
  moreover have "8 \<le> snap_total its" by (simp add: snap_total_def)
  ultimately show ?case by auto
qed simp

subsection \<open>A snapshot as a list of items\<close>

definition sn_items :: "snapshot \<Rightarrow> items" where
  "sn_items s = map (\<lambda>i. (Key s i, take (nat (GetItemSize s i) div 4) (ItemData s i))) (indices s)"

definition snap_view :: "snapshot \<Rightarrow> items \<Rightarrow> bool" where
  "snap_view s its \<longleftrightarrow> sn_NumItems s = int (length its) \<and> length its \<le> 1024 \<and> snap_total its \<le> 65536 \<and>
     (\<forall>i < length its. Key s i = fst (its ! i) \<and> GetItemSize s i = 4 * int (length (snd (its ! i))) \<and>
        take (length (snd (its ! i))) (ItemData s i) = snd (its ! i))"

lemma view_indices: "snap_view s its \<Longrightarrow> indices s = [0..<length its]"
  by (simp add: snap_view_def indices_def)

lemma view_index: "snap_view s its \<Longrightarrow> GetItemIndex s k = key_index its k"
  unfolding GetItemIndex_def key_index_def
  by (rule find_cong) (auto simp: view_indices snap_view_def)

lemma view_items: "snap_view s its \<Longrightarrow> sn_items s = its"
  unfolding sn_items_def view_indices
  by (rule nth_equalityI) (auto simp: snap_view_def nat_mult_distrib)

lemma view_data: "snap_view s its \<Longrightarrow> i < length its \<Longrightarrow> \<exists>r. ItemData s i = snd (its ! i) @ r"
  unfolding snap_view_def by (metis append_take_drop_id)

lemma view_size: "snap_view s its \<Longrightarrow> i < length its \<Longrightarrow> GetItemSize s i = 4 * int (length (snd (its ! i)))"
  by (simp add: snap_view_def)

lemma view_key: "snap_view s its \<Longrightarrow> i < length its \<Longrightarrow> Key s i = fst (its ! i)"
  by (simp add: snap_view_def)

text \<open>A valid snapshot that has its memory is such a list.\<close>

definition next_offset :: "snapshot \<Rightarrow> nat \<Rightarrow> int" where
  "next_offset s i = (if int i = sn_NumItems s - 1 then sn_DataSize s else Offset s (i + 1))"

lemma valid_offsets:
  assumes "IsValid s sz" "int i < sn_NumItems s"
  shows "0 \<le> Offset s i" "Offset s i mod 4 = 0" "Offset s i + 4 \<le> next_offset s i" "next_offset s i \<le> sn_DataSize s"
    "GetItemSize s i = next_offset s i - Offset s i - 4" "GetItemSize s i mod 4 = 0"
proof -
  have s: "sn_DataSize s \<le> 65536" "0 \<le> sn_NumItems s" "0 \<le> sn_DataSize s"
    using assms(1) by (auto simp: IsValid_def TotalSize_def OffsetSize_def SNAP_MAX_SIZE_def split: if_splits)
  have o: "0 \<le> Offset s j \<and> Offset s j \<le> sn_DataSize s \<and> Offset s j mod 4 = 0" if "int j < sn_NumItems s" for j
  proof -
    have "j \<in> set (indices s)" using that by (simp add: indices_def)
    then show ?thesis using assms(1) unfolding IsValid_def list_ex_iff by (auto split: if_splits)
  qed
  have z: "0 \<le> GetItemSize s i \<and> GetItemSize s i mod 4 = 0"
  proof -
    have "i \<in> set (indices s)" using assms(2) by (simp add: indices_def)
    then show ?thesis using assms(1) unfolding IsValid_def list_ex_iff by (auto split: if_splits)
  qed
  have n: "0 \<le> next_offset s i \<and> next_offset s i \<le> sn_DataSize s"
    using o [of "i + 1"] assms(2) s by (auto simp: next_offset_def)
  then have "in_i32 (next_offset s i - Offset s i - 4)" using o [OF assms(2)] s by (auto simp: in_i32_def)
  then have g: "GetItemSize s i = next_offset s i - Offset s i - 4"
    by (auto simp: GetItemSize_def next_offset_def)
  show "0 \<le> Offset s i" "Offset s i mod 4 = 0" "Offset s i + 4 \<le> next_offset s i" "next_offset s i \<le> sn_DataSize s"
    "GetItemSize s i = next_offset s i - Offset s i - 4" "GetItemSize s i mod 4 = 0"
    using o [OF assms(2)] n z g by auto
qed

definition in_memory :: "snapshot \<Rightarrow> bool" where
  "in_memory s \<longleftrightarrow> TotalSize s \<le> 8 + 4 * int (length (sn_Words s))"

lemma valid_in_bounds:
  assumes "IsValid s sz" "in_memory s" "int i < sn_NumItems s"
  shows "int (GetItem s i) + 1 + GetItemSize s i div 4 \<le> int (length (sn_Words s))" "0 \<le> GetItemSize s i"
    "int (GetItem s i) = sn_NumItems s + Offset s i div 4"
proof -
  note o = valid_offsets [OF assms(1,3)]
  have n: "0 \<le> sn_NumItems s" using assms(3) by simp
  have g: "int (GetItem s i) = sn_NumItems s + Offset s i div 4"
    using o(1) n by (simp add: GetItem_def zdiv_int)
  have "Offset s i div 4 + 1 + GetItemSize s i div 4 \<le> sn_DataSize s div 4"
    using o by presburger
  moreover have "sn_NumItems s + sn_DataSize s div 4 \<le> int (length (sn_Words s))"
    using assms(2) by (simp add: in_memory_def TotalSize_def OffsetSize_def)
  ultimately show "int (GetItem s i) + 1 + GetItemSize s i div 4 \<le> int (length (sn_Words s))" using g by linarith
  show "0 \<le> GetItemSize s i" using o(3,5) by simp
  show "int (GetItem s i) = sn_NumItems s + Offset s i div 4" by (rule g)
qed

lemma view_of_valid:
  assumes "IsValid s sz" "in_memory s"
  shows "snap_view s (sn_items s)"
proof -
  let ?n = "nat (sn_NumItems s)" and ?its = "sn_items s"
  have c: "0 \<le> sn_NumItems s" "sn_NumItems s \<le> 1024" "TotalSize s \<le> 65536" "0 \<le> sn_DataSize s"
    using assms(1) by (auto simp: IsValid_def MAX_ITEMS_def SNAP_MAX_SIZE_def split: if_splits)
  have len: "length ?its = ?n" by (simp add: sn_items_def indices_def)
  have it: "?its ! i = (Key s i, take (nat (GetItemSize s i) div 4) (ItemData s i))" if "i < ?n" for i
    using that by (simp add: sn_items_def indices_def)
  have ln: "nat (GetItemSize s i) div 4 \<le> length (ItemData s i)" if "i < ?n" for i
  proof -
    from that c(1) have i: "int i < sn_NumItems s" by simp
    show ?thesis using valid_in_bounds(1,2) [OF assms i] by (simp add: ItemData_def)
  qed
  have sz: "GetItemSize s i = 4 * int (length (snd (?its ! i)))" if "i < ?n" for i
  proof -
    from that c(1) have i: "int i < sn_NumItems s" by simp
    note b = valid_in_bounds [OF assms i] and o = valid_offsets [OF assms(1) i]
    have "length (snd (?its ! i)) = nat (GetItemSize s i) div 4" using it [OF that] ln [OF that] by simp
    then show ?thesis using b(2) o(6) by (simp add: zdiv_int) presburger
  qed
  have sum: "4 * int (length (flat (take m ?its))) = (if m < ?n then Offset s m else sn_DataSize s) - Offset s 0"
    if "m \<le> ?n" "0 < ?n" for m
    using that
  proof (induction m)
    case 0
    then show ?case by simp
  next
    case (Suc m)
    then have m: "m < ?n" "int m < sn_NumItems s" by auto
    have "4 * int (length (flat (take (Suc m) ?its))) = 4 * int (length (flat (take m ?its))) + 4 + GetItemSize s m"
      using m sz [OF m(1)] by (simp add: take_Suc_conv_app_nth len)
    also have "\<dots> = next_offset s m - Offset s 0" using Suc m valid_offsets(5) [OF assms(1) m(2)] by simp
    also have "next_offset s m = (if Suc m < ?n then Offset s (Suc m) else sn_DataSize s)"
      using Suc.prems m c(1) by (auto simp: next_offset_def)
    finally show ?case .
  qed
  have tot: "snap_total ?its \<le> 65536"
  proof (cases "0 < ?n")
    case True
    then have "4 * int (length (flat ?its)) = sn_DataSize s - Offset s 0" using sum [of ?n] by (simp add: len)
    moreover have "0 \<le> Offset s 0" using valid_offsets(1) [OF assms(1), of 0] True by simp
    ultimately show ?thesis using c by (simp add: snap_total_def len TotalSize_def OffsetSize_def)
  next
    case False
    then have "?its = []" using len by simp
    then show ?thesis by simp
  qed
  have tk: "take (length (snd (?its ! i))) (ItemData s i) = snd (?its ! i)" if "i < ?n" for i
    using it [OF that] ln [OF that] by simp
  have ky: "Key s i = fst (?its ! i)" if "i < ?n" for i using it [OF that] by simp
  have nn: "sn_NumItems s = int (length ?its)" "length ?its \<le> 1024" using c(1,2) len by simp_all
  show ?thesis unfolding snap_view_def
    by (intro conjI allI impI nn tot) (simp_all only: len ky sz tk)
qed

lemma Crc_of_view:
  assumes "snap_view s its"
  shows "snap_Crc s = sum_list (concat (map snd its)) mod 4294967296"
proof -
  have inner: "foldl (\<lambda>c b. (c + b) mod 4294967296) a xs mod 4294967296 = (a + sum_list xs) mod (4294967296 :: int)" for a xs
    by (induction xs arbitrary: a) (simp_all add: mod_add_left_eq add.assoc)
  have range: "foldl (\<lambda>c b. (c + b) mod 4294967296) a xs = (a + sum_list xs) mod (4294967296 :: int)"
    if "0 \<le> a" "a < 4294967296" for a xs
  proof -
    have "0 \<le> foldl (\<lambda>c b. (c + b) mod 4294967296) a xs \<and> foldl (\<lambda>c b. (c + b) mod 4294967296) a xs < (4294967296 :: int)"
      using that by (induction xs arbitrary: a) auto
    with inner [of a xs] show ?thesis by simp
  qed
  have outer: "foldl (\<lambda>Crc i. foldl (\<lambda>c b. (c + b) mod 4294967296) Crc (f i)) a is = (a + sum_list (concat (map f is))) mod (4294967296 :: int)"
    if "0 \<le> a" "a < 4294967296" for a "is" and f :: "nat \<Rightarrow> int list"
    using that by (induction "is" arbitrary: a) (simp_all add: range mod_add_left_eq add.assoc)
  have "map (\<lambda>i. take (nat (GetItemSize s i) div 4) (ItemData s i)) [0..<length its] = map snd its"
    by (rule nth_equalityI) (use assms in \<open>auto simp: snap_view_def nat_mult_distrib\<close>)
  then show ?thesis unfolding snap_Crc_def view_indices [OF assms] by (subst outer) simp_all
qed

subsection \<open>The builder as a list of items\<close>

definition builder_rep :: "builder \<Rightarrow> items \<Rightarrow> bool" where
  "builder_rep b its \<longleftrightarrow> sb_Data b = flat its \<and> sb_Offsets b = offs_from 0 its"

definition builder_ok :: "builder \<Rightarrow> items \<Rightarrow> bool" where
  "builder_ok b its \<longleftrightarrow> builder_rep b its \<and> sb_Building b \<and> \<not> sb_HasDroppedItem b \<and> \<not> sb_Sixup b \<and>
     length its \<le> 1024 \<and> snap_total its \<le> 65536"

lemma rep_pos:
  assumes "builder_rep b its" "i < length its"
  shows "nat (sb_Offsets b ! i) div 4 = length (flat (take i its))" "sb_Offsets b ! i = 4 * int (length (flat (take i its)))"
  using assms offs_nth [OF assms(2), of 0] by (simp_all add: builder_rep_def nat_mult_distrib)

lemma rep_NumItems: "builder_rep b its \<Longrightarrow> sb_NumItems b = length its"
  by (simp add: builder_rep_def sb_NumItems_def)

lemma rep_DataSize: "builder_rep b its \<Longrightarrow> sb_DataSize b = 4 * int (length (flat its))"
  by (simp add: builder_rep_def sb_DataSize_def)

lemma rep_index: "builder_rep b its \<Longrightarrow> FindItemIndexByKey b k = key_index its k"
  unfolding FindItemIndexByKey_def key_index_def
proof (rule find_cong)
  fix i assume r: "builder_rep b its" and "i \<in> set [0..<length its]"
  then have i: "i < length its" by simp
  have "sb_Data b ! (nat (sb_Offsets b ! i) div 4) = fst (its ! i)"
    unfolding rep_pos(1) [OF r i] using r flat_split [OF i] by (simp add: builder_rep_def)
  then show "(sb_Data b ! (nat (sb_Offsets b ! i) div 4) = k) = (fst (its ! i) = k)" by simp
qed (simp add: rep_NumItems)

lemma flat_take_le: "length (flat (take i its)) \<le> length (flat its)"
  by (metis append_take_drop_id flat_simps(3) le_add1 length_append)

lemma rep_size:
  assumes "builder_rep b its" "i < length its" "snap_total its \<le> 65536"
  shows "builder_GetItemSize b i = Inr (4 * int (length (snd (its ! i))))"
proof -
  let ?e = "if i + 1 < sb_NumItems b then sb_Offsets b ! (i + 1) else sb_DataSize b"
  have e: "?e = 4 * int (length (flat (take (i + 1) its)))"
    using rep_pos(2) [OF assms(1), of "i + 1"] rep_DataSize [OF assms(1)] rep_NumItems [OF assms(1)] assms(2) by auto
  have s: "flat (take (i + 1) its) = flat (take i its) @ fst (its ! i) # snd (its ! i)"
    using assms(2) by (simp add: take_Suc_conv_app_nth)
  have "length (flat (take (i + 1) its)) \<le> length (flat its)" by (rule flat_take_le)
  then have "4 * int (length (snd (its ! i))) \<le> 65536" using assms(3) s by (simp add: snap_total_def)
  then have "in_i32 (4 * int (length (snd (its ! i))))" by (simp add: in_i32_def)
  then show ?thesis
    unfolding builder_GetItemSize_def e using rep_pos(2) [OF assms(1,2)] rep_NumItems [OF assms(1)] assms(2) s
    by simp
qed

lemma rep_write:
  assumes "builder_rep b its" "i < length its" "length xs = length (snd (its ! i))"
  shows "builder_rep (write_item i xs b) (its[i := (fst (its ! i), xs)])"
proof -
  let ?p = "length (flat (take i its))"
  have f: "flat its = flat (take i its) @ fst (its ! i) # snd (its ! i) @ flat (drop (i + 1) its)"
    by (rule flat_split [OF assms(2)])
  have u: "its[i := (fst (its ! i), xs)] = take i its @ (fst (its ! i), xs) # drop (i + 1) its"
    using assms(2) by (simp add: upd_conv_take_nth_drop)
  have "sb_Data (write_item i xs b) = take (?p + 1) (flat its) @ xs @ drop (?p + 1 + length xs) (flat its)"
    using assms(1) rep_pos(1) [OF assms(1,2)] by (simp add: write_item_def builder_rep_def)
  also have "\<dots> = flat (its[i := (fst (its ! i), xs)])"
    unfolding f u using assms(3) by simp
  finally have "sb_Data (write_item i xs b) = flat (its[i := (fst (its ! i), xs)])" .
  moreover have "offs_from a (its[i := (fst (its ! i), xs)]) = offs_from a its" for a
    using assms(2,3)
  proof (induction its arbitrary: a i)
    case (Cons y its)
    then show ?case by (cases i) auto
  qed simp
  ultimately show ?thesis using assms(1) by (simp add: builder_rep_def write_item_def)
qed

lemma write_flags [simp]:
  "sb_Building (write_item i xs b) = sb_Building b" "sb_HasDroppedItem (write_item i xs b) = sb_HasDroppedItem b"
  "sb_Sixup (write_item i xs b) = sb_Sixup b"
  by (simp_all add: write_item_def)

lemma total_update: "i < length its \<Longrightarrow> length xs = length (snd (its ! i)) \<Longrightarrow>
  snap_total (its[i := (k, xs)]) = snap_total its"
proof (induction its arbitrary: i)
  case (Cons y its)
  then show ?case by (cases i) auto
qed simp

lemma ok_write:
  assumes "builder_ok b its" "i < length its" "length xs = length (snd (its ! i))"
  shows "builder_ok (write_item i xs b) (its[i := (fst (its ! i), xs)])"
  using assms rep_write [OF _ assms(2,3)] total_update [OF assms(2,3)] by (simp add: builder_ok_def)

text \<open>A new item fits, or the builder is unchanged.\<close>

definition fits_in :: "items \<Rightarrow> nat \<Rightarrow> bool" where
  "fits_in its n \<longleftrightarrow> length its < 1024 \<and> snap_total its + 8 + 4 * int n \<le> 65536"

lemma place_spec:
  assumes "builder_ok b its" "0 \<le> t" "t \<le> MAX_TYPE" "0 \<le> k" "k \<le> MAX_ID" "0 \<le> Size" "Size mod 4 = 0"
  shows "place_item six False t k Size b =
    (if fits_in its (nat Size div 4) then create_item t k Size b else (NoSlot, b))"
    "fits_in its (nat Size div 4) \<Longrightarrow>
       builder_ok (snd (create_item t k Size b)) (its @ [(push_bit 16 t OR k, replicate (nat Size div 4) 0)]) \<and>
       fst (create_item t k Size b) = Slot (length its)"
proof -
  have r: "builder_rep b its" "\<not> sb_Sixup b" using assms(1) by (simp_all add: builder_ok_def)
  have s: "Size = 4 * int (nat Size div 4)" using assms(6,7) by (simp add: zdiv_int) presburger
  show "place_item six False t k Size b = (if fits_in its (nat Size div 4) then create_item t k Size b else (NoSlot, b))"
    using r assms(2) s unfolding place_item_def fits_in_def
    by (auto simp: rep_NumItems [OF r(1)] rep_DataSize [OF r(1)] snap_total_def SNAP_MAX_SIZE_def MAX_ITEMS_def)
  assume f: "fits_in its (nat Size div 4)"
  have "to_i32 (push_bit 16 t OR k) = push_bit 16 t OR k" using key_range [OF assms(2-5)] by simp
  then show "builder_ok (snd (create_item t k Size b)) (its @ [(push_bit 16 t OR k, replicate (nat Size div 4) 0)]) \<and>
       fst (create_item t k Size b) = Slot (length its)"
    using assms(1) f unfolding builder_ok_def builder_rep_def create_item_def fits_in_def
    by (simp add: offs_append sb_DataSize_def sb_NumItems_def)
qed

lemma NewItemRaw_spec:
  assumes "builder_ok b its" "0 \<le> t" "t \<le> MAX_TYPE" "0 \<le> k" "k \<le> MAX_ID" "0 \<le> Size" "Size mod 4 = 0"
  shows "NewItemRaw um six t k Size b =
    (if Size > 65520 then Inl AssertFailed
     else if fits_in its (nat Size div 4) then Inr (create_item t k Size b) else Inr (NoSlot, b))"
proof -
  have a: "item_asserts t k Size b \<longleftrightarrow> Size \<le> 65520"
    using assms by (simp add: item_asserts_def builder_ok_def SNAP_MAX_SIZE_def)
  have "\<not> t \<ge> OFFSET_UUID" using assms(3) by (simp add: OFFSET_UUID_def MAX_TYPE_def)
  then show ?thesis using a place_spec(1) [OF assms] by (auto simp: NewItemRaw_def)
qed

lemma NewItem_fits:
  assumes "builder_ok b its" "0 \<le> k" "k < 2147483648" "fits_in its (length xs)" "4 * int (length xs) \<le> 65520"
  shows "\<exists>b'. NewItem um six (key_InternalType k) (key_Id k) (xs @ r) (4 * int (length xs)) b = Inr (True, b') \<and>
    builder_ok b' (its @ [(k, xs)])"
proof -
  note p = key_parts [OF assms(2,3)]
  have z: "0 \<le> 4 * int (length xs)" "4 * int (length xs) mod 4 = 0" "nat (4 * int (length xs)) div 4 = length xs"
    by (simp_all add: nat_mult_distrib)
  let ?c = "create_item (key_InternalType k) (key_Id k) (4 * int (length xs)) b"
  let ?its = "its @ [(k, replicate (length xs) 0)]"
  have c: "builder_ok (snd ?c) ?its" "fst ?c = Slot (length its)"
    using place_spec(2) [OF assms(1) p(1-4) z(1,2)] assms(4) unfolding z(3) p(5) by auto
  have n: "NewItemRaw um six (key_InternalType k) (key_Id k) (4 * int (length xs)) b = Inr (Slot (length its), snd ?c)"
    using NewItemRaw_spec [OF assms(1) p(1-4) z(1,2), of um six] assms(4,5) c(2) unfolding z(3)
    by (metis linorder_not_less prod.collapse)
  have "builder_ok (write_item (length its) xs (snd ?c)) (?its[length its := (fst (?its ! length its), xs)])"
    by (rule ok_write [OF c(1)]) simp_all
  then have w: "builder_ok (write_item (length its) xs (snd ?c)) (its @ [(k, xs)])" by simp
  have bb: "sb_Building b" "\<not> sb_HasDroppedItem b" using assms(1) by (simp_all add: builder_ok_def)
  have "NewItem um six (key_InternalType k) (key_Id k) (xs @ r) (4 * int (length xs)) b =
      Inr (True, write_item (length its) xs (snd ?c))"
    using bb n by (simp add: NewItem_def write_slot_def z(3))
  with w show ?thesis by blast
qed

lemma blank_ok: "\<exists>b. builder_Init um six False blank_builder = Inr b \<and> builder_ok b []"
  by (simp add: builder_Init_def blank_builder_def builder_ok_def builder_rep_def)

text \<open>What \<open>Finish\<close> makes is a valid snapshot with the items of the builder.\<close>

lemma finish_spec:
  assumes "builder_ok b its"
  shows "\<exists>s b'. builder_Finish b = Inr (snap_total its, s, b') \<and> TotalSize s = snap_total its \<and> snap_view s its \<and>
    IsValid s (snap_total its) \<and> in_memory s"
proof -
  have r: "builder_rep b its" "sb_Building b" "length its \<le> 1024" "snap_total its \<le> 65536"
    using assms by (simp_all add: builder_ok_def)
  let ?s = "\<lparr>sn_DataSize = sb_DataSize b, sn_NumItems = int (sb_NumItems b), sn_Words = sb_Offsets b @ sb_Data b\<rparr>"
  have w: "?s = \<lparr>sn_DataSize = 4 * int (length (flat its)), sn_NumItems = int (length its), sn_Words = offs_from 0 its @ flat its\<rparr>"
    using r(1) by (simp add: builder_rep_def sb_DataSize_def sb_NumItems_def)
  define s where "s = ?s"
  have t: "TotalSize s = snap_total its" by (simp add: s_def w TotalSize_def OffsetSize_def snap_total_def)
  have f: "builder_Finish b = Inr (snap_total its, s, b\<lparr>sb_Building := False\<rparr>)"
    using r t unfolding builder_Finish_def Let_def s_def [symmetric]
    by (simp add: MAX_ITEMS_def SNAP_MAX_SIZE_def rep_NumItems [OF r(1)])
  have off: "Offset s i = 4 * int (length (flat (take i its)))" if "i < length its" for i
    using that offs_nth [OF that, of 0] by (simp add: Offset_def s_def w nth_append)
  have le: "4 * int (length (flat (take i its))) \<le> 4 * int (length (flat its))" for i using flat_take_le [of i its] by simp
  have small: "4 * int (length (flat its)) \<le> 65536" using r(4) by (simp add: snap_total_def)
  have at: "GetItem s i = length its + length (flat (take i its))" if "i < length its" for i
    using off [OF that] by (simp add: GetItem_def s_def w nat_mult_distrib)
  have key: "Key s i = fst (its ! i)" "ItemData s i = snd (its ! i) @ flat (drop (i + 1) its)" if "i < length its" for i
    unfolding Key_def ItemData_def at [OF that] using flat_split [OF that] by (simp_all add: s_def w nth_append)
  have size: "GetItemSize s i = 4 * int (length (snd (its ! i)))" if i: "i < length its" for i
  proof -
    have st: "flat (take (i + 1) its) = flat (take i its) @ fst (its ! i) # snd (its ! i)"
      using i by (simp add: take_Suc_conv_app_nth)
    have "4 * int (length (snd (its ! i))) \<le> 65536" using le [of "i + 1"] st small by simp
    then have i32: "to_i32 (4 * int (length (snd (its ! i)))) = 4 * int (length (snd (its ! i)))"
      by (intro to_i32_id) (simp add: in_i32_def)
    show ?thesis
    proof (cases "i + 1 < length its")
      case True
      then have "GetItemSize s i = to_i32 (Offset s (i + 1) - Offset s i - 4)" by (simp add: GetItemSize_def s_def w)
      also have "Offset s (i + 1) - Offset s i - 4 = 4 * int (length (snd (its ! i)))" using off [OF True] off [OF i] st by simp
      finally show ?thesis using i32 by simp
    next
      case False
      then have "take (i + 1) its = its" using i by simp
      then have d: "sn_DataSize s - Offset s i - 4 = 4 * int (length (snd (its ! i)))"
        using off [OF i] st by (simp add: s_def w)
      have "int i = sn_NumItems s - 1" using False i by (simp add: s_def w)
      then show ?thesis unfolding GetItemSize_def d using i32 by simp
    qed
  qed
  have n: "sn_NumItems s = int (length its)" by (simp add: s_def w)
  have ds: "sn_DataSize s = 4 * int (length (flat its))" by (simp add: s_def w)
  have view: "snap_view s its" unfolding snap_view_def using n r(3,4) key size by simp
  have ind: "indices s = [0..<length its]" by (simp add: indices_def n)
  have "IsValid s (snap_total its)"
  proof -
    have "\<not> (snap_total its < 8 \<or> snap_total its > SNAP_MAX_SIZE \<or> sn_NumItems s < 0 \<or> sn_NumItems s > MAX_ITEMS \<or>
        sn_DataSize s < 0 \<or> snap_total its \<noteq> TotalSize s)"
      using r(3,4) t n by (simp add: SNAP_MAX_SIZE_def MAX_ITEMS_def s_def w snap_total_def)
    moreover have "\<not> list_ex (\<lambda>i. Offset s i < 0 \<or> Offset s i > sn_DataSize s \<or> Offset s i mod 4 \<noteq> 0) (indices s)"
      unfolding ind list_ex_iff
    proof (rule notI, elim bexE)
      fix i assume "i \<in> set [0..<length its]"
      then have i: "i < length its" by simp
      assume "Offset s i < 0 \<or> Offset s i > sn_DataSize s \<or> Offset s i mod 4 \<noteq> 0"
      then show False unfolding off [OF i] ds using le [of i] by simp
    qed
    moreover have "\<not> list_ex (\<lambda>i. GetItemSize s i < 0 \<or> GetItemSize s i mod 4 \<noteq> 0) (indices s)"
      unfolding ind list_ex_iff using size by auto
    ultimately show ?thesis unfolding IsValid_def by (simp only: if_False simp_thms)
  qed
  moreover have "in_memory s" unfolding in_memory_def t by (simp add: s_def w snap_total_def)
  ultimately show ?thesis using f t view by blast
qed

text \<open>What \<open>IsValid\<close> accepts can be read. If it accepts a snapshot of the size its memory has, every
  item starts behind the offsets, its size is a whole number of ints, its data ends in that memory, and
  each item ends where the next one starts.\<close>

theorem valid_snapshot_in_bounds:
  assumes "IsValid s ActualSize" "ActualSize \<le> 8 + 4 * int (length (sn_Words s))" "i < nat (sn_NumItems s)"
  shows "nat (sn_NumItems s) \<le> GetItem s i \<and> 0 \<le> GetItemSize s i \<and> GetItemSize s i mod 4 = 0 \<and>
    int (GetItem s i) + 1 + GetItemSize s i div 4 \<le> int (length (sn_Words s)) \<and>
    (i + 1 < nat (sn_NumItems s) \<longrightarrow> int (GetItem s (i + 1)) = int (GetItem s i) + 1 + GetItemSize s i div 4)"
proof -
  have i: "int i < sn_NumItems s" using assms(3) by simp
  have "ActualSize = TotalSize s" using assms(1) by (simp add: IsValid_def split: if_splits)
  then have m: "in_memory s" using assms(2) by (simp add: in_memory_def)
  note b = valid_in_bounds [OF assms(1) m] and o = valid_offsets [OF assms(1)]
  have "int (GetItem s (i + 1)) = int (GetItem s i) + 1 + GetItemSize s i div 4" if "i + 1 < nat (sn_NumItems s)"
  proof -
    have j: "int (i + 1) < sn_NumItems s" using that by simp
    then have "next_offset s i = Offset s (i + 1)" by (simp add: next_offset_def)
    then show ?thesis using b(3) [OF i] b(3) [OF j] o(2,5) [OF i] o(2) [OF j] by presburger
  qed
  moreover have "nat (sn_NumItems s) \<le> GetItem s i" by (simp add: GetItem_def)
  ultimately show ?thesis using b(1,2) [OF i] o(6) [OF i] by blast
qed

theorem valid_snapshot_in_bounds_witness:
  "let s = \<lparr>sn_DataSize = 20, sn_NumItems = 2, sn_Words = [0, 12, 262145, 5, 7, 327682, 1]\<rparr> in
   IsValid s 36 \<and> int (GetItem s 1) = int (GetItem s 0) + 1 + GetItemSize s 0 div 4 \<and> GetItemSize s 1 = 4"
proof -
  define s where "s = \<lparr>sn_DataSize = 20, sn_NumItems = 2, sn_Words = [0, 12, 262145, 5, 7, 327682, 1]\<rparr>"
  have v: "IsValid s 36" "36 \<le> 8 + 4 * int (length (sn_Words s))" "0 < nat (sn_NumItems s)" "0 + 1 < nat (sn_NumItems s)" "GetItemSize s 1 = 4"
    unfolding s_def by code_simp+
  have "int (GetItem s (0 + 1)) = int (GetItem s 0) + 1 + GetItemSize s 0 div 4"
    using valid_snapshot_in_bounds [OF v(1-3)] v(4) by blast
  then show ?thesis using v(1,5) unfolding Let_def s_def [symmetric] by simp
qed

subsection \<open>Building a snapshot\<close>

text \<open>The use of a builder: \<open>Init\<close>, items, \<open>FinishIfNoDroppedItems\<close>.\<close>

fun add_items :: "uuid_manager \<Rightarrow> (int \<Rightarrow> int) \<Rightarrow> items \<Rightarrow> builder \<Rightarrow> builder result" where
  "add_items um six [] b = Inr b"
| "add_items um six (x # xs) b =
     (case NewItem um six (key_InternalType (fst x)) (key_Id (fst x)) (snd x) (4 * int (length (snd x))) b of
        Inl e \<Rightarrow> Inl e | Inr (_, b1) \<Rightarrow> add_items um six xs b1)"

definition build_snapshot :: "uuid_manager \<Rightarrow> (int \<Rightarrow> int) \<Rightarrow> items \<Rightarrow> (int \<times> snapshot option \<times> builder) result" where
  "build_snapshot um six xs =
     (case builder_Init um six False blank_builder of
        Inl e \<Rightarrow> Inl e
      | Inr b \<Rightarrow> (case add_items um six xs b of Inl e \<Rightarrow> Inl e | Inr b1 \<Rightarrow> FinishIfNoDroppedItems b1))"

definition items_fit :: "items \<Rightarrow> bool" where
  "items_fit xs \<longleftrightarrow> length xs \<le> 1024 \<and> snap_total xs \<le> 65536"

definition item_args_ok :: "items \<Rightarrow> bool" where
  "item_args_ok xs \<longleftrightarrow> list_all (\<lambda>x. 0 \<le> fst x \<and> fst x < 2147483648 \<and> 4 * int (length (snd x)) \<le> 65520) xs"

lemma dropped_stays: "sb_Building b \<Longrightarrow> sb_HasDroppedItem b \<Longrightarrow> add_items um six xs b = Inr b"
  by (induction xs) (simp_all add: NewItem_def)

lemma NewItem_drops:
  assumes "builder_ok b its" "0 \<le> k" "k < 2147483648" "\<not> fits_in its (length xs)" "4 * int (length xs) \<le> 65520"
  shows "NewItem um six (key_InternalType k) (key_Id k) xs (4 * int (length xs)) b = Inr (False, b\<lparr>sb_HasDroppedItem := True\<rparr>)"
proof -
  note p = key_parts [OF assms(2,3)]
  have z: "0 \<le> 4 * int (length xs)" "4 * int (length xs) mod 4 = 0" "nat (4 * int (length xs)) div 4 = length xs"
    by (simp_all add: nat_mult_distrib)
  have "NewItemRaw um six (key_InternalType k) (key_Id k) (4 * int (length xs)) b = Inr (NoSlot, b)"
    using NewItemRaw_spec [OF assms(1) p(1-4) z(1,2), of um six] assms(4,5) unfolding z(3) by simp
  then show ?thesis using assms(1) by (simp add: NewItem_def builder_ok_def)
qed

lemma add_items_spec:
  "builder_ok b its \<Longrightarrow> item_args_ok xs \<Longrightarrow> items_fit its \<Longrightarrow>
   \<exists>b'. add_items um six xs b = Inr b' \<and>
     (if items_fit (its @ xs) then builder_ok b' (its @ xs) else sb_Building b' \<and> sb_HasDroppedItem b')"
proof (induction xs arbitrary: b its)
  case (Cons x xs)
  have k: "0 \<le> fst x" "fst x < 2147483648" "4 * int (length (snd x)) \<le> 65520" using Cons.prems(2) by (simp_all add: item_args_ok_def)
  have total: "8 \<le> snap_total xs" by (simp add: snap_total_def)
  have bb: "sb_Building b" using Cons.prems(1) by (simp add: builder_ok_def)
  show ?case
  proof (cases "fits_in its (length (snd x))")
    case True
    obtain b' where n: "NewItem um six (key_InternalType (fst x)) (key_Id (fst x)) (snd x) (4 * int (length (snd x))) b = Inr (True, b')"
        "builder_ok b' (its @ [x])"
      using NewItem_fits [OF Cons.prems(1) k(1,2) True k(3), of um six "[]"] by auto
    have "items_fit (its @ [x])" using True by (simp add: fits_in_def items_fit_def)
    moreover have "item_args_ok xs" using Cons.prems(2) by (simp add: item_args_ok_def)
    ultimately obtain b2 where "add_items um six xs b' = Inr b2"
        "if items_fit (its @ x # xs) then builder_ok b2 (its @ x # xs) else sb_Building b2 \<and> sb_HasDroppedItem b2"
      using Cons.IH [OF n(2)] unfolding append_assoc append_Cons append_Nil by blast
    then show ?thesis using n(1) by simp
  next
    case False
    have "\<not> items_fit (its @ x # xs)" using False total by (auto simp: fits_in_def items_fit_def)
    then show ?thesis using NewItem_drops [OF Cons.prems(1) k(1,2) False k(3)] bb by (simp add: dropped_stays)
  qed
qed simp



subsection \<open>The storage\<close>

definition storage_ok :: "holder list \<Rightarrow> bool" where
  "storage_ok hs \<longleftrightarrow> sorted_wrt (<) (map ho_Tick hs)"

lemma search_sorted: "sorted_wrt (>) (map ho_Tick hs) \<Longrightarrow> storage_search t hs = find (\<lambda>h. ho_Tick h = t) hs"
proof (induction hs)
  case (Cons h hs)
  have "find (\<lambda>h. ho_Tick h = t) hs = None" if "ho_Tick h < t" using Cons.prems that by (auto simp: find_None_iff)
  then show ?case using Cons by auto
qed simp

lemma Get_iff:
  assumes "storage_ok hs"
  shows "storage_Get t hs = Some h \<longleftrightarrow> h \<in> set hs \<and> ho_Tick h = t"
proof -
  have s: "sorted_wrt (>) (map ho_Tick (rev hs))"
    using assms unfolding storage_ok_def rev_map [symmetric] by (simp add: sorted_wrt_rev)
  have u: "h = h'" if "h \<in> set hs" "h' \<in> set hs" "ho_Tick h = ho_Tick h'" for h h'
    using assms that unfolding storage_ok_def by (metis distinct_map inj_onD strict_sorted_iff)
  have "find (\<lambda>h. ho_Tick h = t) (rev hs) = Some h \<longleftrightarrow> h \<in> set hs \<and> ho_Tick h = t"
  proof
    assume "find (\<lambda>h. ho_Tick h = t) (rev hs) = Some h"
    then show "h \<in> set hs \<and> ho_Tick h = t" by (auto simp: find_Some_iff rev_nth)
  next
    assume h: "h \<in> set hs \<and> ho_Tick h = t"
    then have "find (\<lambda>h. ho_Tick h = t) (rev hs) \<noteq> None" by (auto simp: find_None_iff)
    then obtain h' where h': "find (\<lambda>h. ho_Tick h = t) (rev hs) = Some h'" by blast
    then have "h' \<in> set hs \<and> ho_Tick h' = t" by (auto simp: find_Some_iff rev_nth)
    then show "find (\<lambda>h. ho_Tick h = t) (rev hs) = Some h" using u h h' by metis
  qed
  then show ?thesis unfolding storage_Get_def search_sorted [OF s] .
qed

lemma some_eqI: "(\<And>x. a = Some x \<longleftrightarrow> b = Some x) \<Longrightarrow> a = b"
  by (cases a) (metis option.exhaust)+

lemma PurgeUntil_filter: "storage_ok hs \<Longrightarrow> PurgeUntil u hs = filter (\<lambda>h. u \<le> ho_Tick h) hs"
proof (induction hs)
  case (Cons h hs)
  have "filter (\<lambda>h. u \<le> ho_Tick h) hs = hs" if "u \<le> ho_Tick h" using Cons.prems that by (force simp: storage_ok_def filter_id_conv)
  then show ?case using Cons by (auto simp: storage_ok_def)
qed simp

lemma storage_ok_append: "storage_ok (hs @ [h]) \<longleftrightarrow> storage_ok hs \<and> (\<forall>g\<in>set hs. ho_Tick g < ho_Tick h)"
  by (auto simp: storage_ok_def sorted_wrt_append)

lemma storage_ok_last: "storage_ok hs \<Longrightarrow> g \<in> set hs \<Longrightarrow> ho_Tick g \<le> ho_Tick (last hs)"
proof (cases hs rule: rev_cases)
  case (snoc gs h)
  then show "storage_ok hs \<Longrightarrow> g \<in> set hs \<Longrightarrow> ho_Tick g \<le> ho_Tick (last hs)"
    by (auto simp: storage_ok_append less_imp_le)
qed simp

text \<open>C28: the storage of recent snapshots is a map from ticks. After adding a snapshot for a later tick
  the ticks stay strictly increasing, \<open>Get\<close> finds the new snapshot under its tick and every other
  tick as before, and purging up to a tick drops exactly the snapshots before it.\<close>

theorem storage_is_a_map:
  assumes "storage_ok hs" "storage_Add Tick Tagtime data alt hs = Inr hs'"
  shows "storage_ok hs' \<and> storage_ok (PurgeUntil u hs') \<and>
    (\<exists>h. storage_Get Tick hs' = Some h \<and> ho_Tagtime h = Tagtime \<and> ho_Snap h = data \<and> ho_SnapSize h = int (length data)) \<and>
    (t \<noteq> Tick \<longrightarrow> storage_Get t hs' = storage_Get t hs) \<and>
    storage_Get t (PurgeUntil u hs') = (if u \<le> t then storage_Get t hs' else None)"
proof -
  define h where "h = \<lparr>ho_Tick = Tick, ho_Tagtime = Tagtime, ho_SnapSize = int (length data), ho_Snap = data,
                       ho_AltSnap = (if alt = [] then None else Some alt)\<rparr>"
  have hs': "hs' = hs @ [h]" and later: "hs \<noteq> [] \<Longrightarrow> ho_Tick (last hs) < Tick"
    using assms(2) by (auto simp: storage_Add_def h_def split: if_splits)
  have "ho_Tick g < ho_Tick h" if "g \<in> set hs" for g
    using storage_ok_last [OF assms(1) that] later that by (force simp: h_def)
  then have ok: "storage_ok hs'" using assms(1) by (simp add: hs' storage_ok_append)
  have p: "PurgeUntil u hs' = filter (\<lambda>h. u \<le> ho_Tick h) hs'" by (rule PurgeUntil_filter [OF ok])
  have okp: "storage_ok (PurgeUntil u hs')" using ok unfolding p storage_ok_def sorted_wrt_map by (rule sorted_wrt_filter)
  have set_hs': "set hs' = insert h (set hs)" and tick: "ho_Tick h = Tick" by (simp_all add: hs' h_def)
  have "storage_Get Tick hs' = Some h" unfolding Get_iff [OF ok] by (simp add: hs' h_def)
  moreover have "storage_Get t hs' = storage_Get t hs" if "t \<noteq> Tick"
    by (rule some_eqI) (use that tick in \<open>auto simp only: Get_iff [OF ok] Get_iff [OF assms(1)] set_hs'\<close>)
  moreover have "storage_Get t (PurgeUntil u hs') = (if u \<le> t then storage_Get t hs' else None)"
  proof (rule some_eqI)
    fix x
    have "storage_Get t (PurgeUntil u hs') = Some x \<longleftrightarrow> x \<in> set hs' \<and> u \<le> ho_Tick x \<and> ho_Tick x = t"
      unfolding Get_iff [OF okp] unfolding p by auto
    then show "storage_Get t (PurgeUntil u hs') = Some x \<longleftrightarrow> (if u \<le> t then storage_Get t hs' else None) = Some x"
      using Get_iff [OF ok, of t x] by auto
  qed
  ultimately show ?thesis using ok okp by (auto simp: h_def)
qed

theorem storage_is_a_map_witness:
  "\<exists>hs1 hs2. storage_Add 10 100 [1, 2] [] storage_Init = Inr hs1 \<and> storage_Add 12 101 [3] [] hs1 = Inr hs2 \<and>
     storage_Get 10 hs2 = storage_Get 10 hs1 \<and> storage_Get 10 (PurgeUntil 11 hs2) = None"
proof -
  obtain hs1 where a: "storage_Add 10 100 [1, 2] [] storage_Init = Inr hs1" by (simp add: storage_Add_def storage_Init_def SNAP_MAX_SIZE_def)
  have o0: "storage_ok storage_Init" by (simp add: storage_ok_def storage_Init_def)
  have hs1: "hs1 \<noteq> [] \<and> ho_Tick (last hs1) = 10" using a by (auto simp: storage_Add_def storage_Init_def SNAP_MAX_SIZE_def)
  obtain hs2 where b: "storage_Add 12 101 [3] [] hs1 = Inr hs2" using hs1 by (simp add: storage_Add_def SNAP_MAX_SIZE_def)
  have "storage_ok hs1" using storage_is_a_map [OF o0 a] by blast
  then show ?thesis using a b storage_is_a_map [OF _ b, of 11 10] by (intro exI [of _ hs1] exI [of _ hs2]) auto
qed

end
