(* ===== verification/SnapDelta.thy ===== *)
theory SnapDelta
  imports SnapItems
begin

text \<open>
  The delta between two snapshots, on their views as lists of items: what \<open>CreateDelta\<close> writes, that
  \<open>UnpackDelta\<close> rebuilds the new snapshot from it, and that no delta, however malformed, leads
  outside an object or to a snapshot that is not well formed.
\<close>

subsection \<open>The hash list\<close>

text \<open>No bucket of the hash list overflows.\<close>

definition buckets_fit :: "items \<Rightarrow> bool" where
  "buckets_fit its \<longleftrightarrow>
     (\<forall>x\<in>set its. length (filter (\<lambda>y. CalcHashId (fst y) = CalcHashId (fst x)) its) \<le> HASHLIST_BUCKET_SIZE)"

definition bucket :: "items \<Rightarrow> nat \<Rightarrow> nat \<Rightarrow> (int \<times> nat) list" where
  "bucket its n b = map (\<lambda>i. (fst (its ! i), i)) (filter (\<lambda>i. CalcHashId (fst (its ! i)) = b) [0..<n])"

lemma bucket_length: "n \<le> length its \<Longrightarrow>
  length (bucket its n b) = length (filter (\<lambda>y. CalcHashId (fst y) = b) (take n its))"
proof (induction n)
  case (Suc n)
  then show ?case by (simp add: bucket_def take_Suc_conv_app_nth)
qed (simp add: bucket_def)

lemma bucket_bound:
  assumes "buckets_fit its" "n < length its"
  shows "length (bucket its n (CalcHashId (fst (its ! n)))) < HASHLIST_BUCKET_SIZE"
proof -
  let ?P = "\<lambda>y. CalcHashId (fst y) = CalcHashId (fst (its ! n))"
  have "length (filter ?P its) \<le> HASHLIST_BUCKET_SIZE"
    by (rule bspec [OF assms(1) [unfolded buckets_fit_def] nth_mem [OF assms(2)]])
  moreover have "filter ?P its = filter ?P (take n its) @ its ! n # filter ?P (drop (Suc n) its)"
    using id_take_nth_drop [OF assms(2)] by (metis (mono_tags, lifting) filter.simps(2) filter_append)
  ultimately show ?thesis using bucket_length [of n its] assms(2) by simp
qed

lemma hash_buckets:
  assumes "snap_view s its" "buckets_fit its" "n \<le> length its"
  shows "foldl (hash_add s) (\<lambda>_. []) [0..<n] = bucket its n"
  using assms(3)
proof (induction n)
  case 0
  show ?case by (rule ext) (simp add: bucket_def)
next
  case (Suc n)
  then have n: "n < length its" by simp
  have k: "Key s n = fst (its ! n)" by (rule view_key [OF assms(1) n])
  show ?case
    using Suc bucket_bound [OF assms(2) n]
    by (auto simp: hash_add_def k Let_def bucket_def fun_eq_iff)
qed

lemma map_of_index: "map_of (map (\<lambda>i. (f i, i)) xs) k = find (\<lambda>i. f i = k) xs"
  by (induction xs) auto

lemma find_filter: "find P (filter Q xs) = find (\<lambda>x. Q x \<and> P x) xs"
  by (induction xs) auto

lemma hash_lookup:
  assumes "snap_view s its" "buckets_fit its"
  shows "GetItemIndexHashed k (GenerateHash s) = key_index its k"
proof -
  have "GenerateHash s = bucket its (length its)"
    unfolding GenerateHash_def view_indices [OF assms(1)] by (rule hash_buckets [OF assms]) simp
  then show ?thesis
    unfolding GetItemIndexHashed_def key_index_def
    by (simp add: bucket_def map_of_index find_filter) (rule find_cong, auto)
qed

subsection \<open>Well-formed snapshots\<close>

definition wf_items :: "items \<Rightarrow> bool" where
  "wf_items its \<longleftrightarrow> distinct (map fst its) \<and>
     (\<forall>x\<in>set its. 0 \<le> fst x \<and> fst x < 2147483648 \<and> list_all in_i32 (snd x))"

definition wf_snapshot :: "snapshot \<Rightarrow> bool" where
  "wf_snapshot s \<longleftrightarrow> IsValid s (TotalSize s) \<and> in_memory s \<and> wf_items (sn_items s)"

lemma wf_view: "wf_snapshot s \<Longrightarrow> snap_view s (sn_items s)"
  unfolding wf_snapshot_def using view_of_valid by blast

lemma view_total: "snap_view s its \<Longrightarrow> length its \<le> 1024 \<and> snap_total its \<le> 65536"
  by (simp add: snap_view_def)

lemma wf_key: "wf_items its \<Longrightarrow> x \<in> set its \<Longrightarrow> 0 \<le> fst x \<and> fst x < 2147483648"
  by (simp add: wf_items_def)

lemma total_subset:
  assumes "distinct (map fst B)" "distinct (map fst T)" "fst ` set B \<subseteq> fst ` set T"
    "\<And>k p c. map_of B k = Some p \<Longrightarrow> map_of T k = Some c \<Longrightarrow> length p = length c"
  shows "length B \<le> length T" "snap_total B \<le> snap_total T"
proof -
  have sum: "(\<Sum>x\<leftarrow>its. 8 + 4 * int (length (snd x))) = (\<Sum>k\<in>fst ` set its. 8 + 4 * int (length (the (map_of its k))))"
    if "distinct (map fst its)" for its :: items
  proof -
    have "(\<Sum>x\<leftarrow>its. 8 + 4 * int (length (snd x))) = (\<Sum>x\<in>set its. 8 + 4 * int (length (snd x)))"
      using that by (simp add: distinct_map sum_list_distinct_conv_sum_set)
    also have "\<dots> = (\<Sum>x\<in>set its. 8 + 4 * int (length (the (map_of its (fst x)))))"
      using that by (intro sum.cong) auto
    also have "\<dots> = (\<Sum>k\<in>fst ` set its. 8 + 4 * int (length (the (map_of its k))))"
      using that by (subst sum.reindex) (auto simp: distinct_map)
    finally show ?thesis .
  qed
  have c: "card (fst ` set its) = length its" if "distinct (map fst its)" for its :: items
    using distinct_card [OF that] by simp
  show "length B \<le> length T" using card_mono [OF _ assms(3)] c [OF assms(1)] c [OF assms(2)] by simp
  have "(\<Sum>k\<in>fst ` set B. 8 + 4 * int (length (the (map_of B k)))) =
      (\<Sum>k\<in>fst ` set B. 8 + 4 * int (length (the (map_of T k))))"
  proof (rule sum.cong)
    fix k assume k: "k \<in> fst ` set B"
    then obtain p where p: "map_of B k = Some p" by (metis map_of_eq_None_iff not_None_eq)
    from k assms(3) obtain c where t: "map_of T k = Some c" by (metis map_of_eq_None_iff not_None_eq subsetD)
    show "8 + 4 * int (length (the (map_of B k))) = 8 + 4 * int (length (the (map_of T k)))"
      using assms(4) [OF p t] p t by simp
  qed simp
  also have "\<dots> \<le> (\<Sum>k\<in>fst ` set T. 8 + 4 * int (length (the (map_of T k))))"
    by (rule sum_mono2) (use assms(3) in auto)
  finally show "snap_total B \<le> snap_total T" unfolding snap_total_sum sum [OF assms(1)] sum [OF assms(2)] by simp
qed

lemma crc_set:
  assumes "distinct B" "distinct T" "set B = set (T :: items)"
  shows "sum_list (concat (map snd B)) = sum_list (concat (map snd T))" "length B = length T" "snap_total B = snap_total T"
proof -
  have c: "sum_list (concat (map snd its)) = (\<Sum>x\<in>set its. sum_list (snd x))" if "distinct its" for its :: items
  proof -
    have "sum_list (concat (map snd its)) = (\<Sum>x\<leftarrow>its. sum_list (snd x))" by (induction its) simp_all
    then show ?thesis using that by (simp add: sum_list_distinct_conv_sum_set)
  qed
  show "sum_list (concat (map snd B)) = sum_list (concat (map snd T))" using c assms by simp
  show "length B = length T" using assms by (metis distinct_card)
  show "snap_total B = snap_total T" unfolding snap_total_sum using assms by (simp add: sum_list_distinct_conv_sum_set)
qed

subsection \<open>What \<open>CreateDelta\<close> writes\<close>

definition diffs :: "int list \<Rightarrow> int list \<Rightarrow> int list" where
  "diffs p c = map2 (\<lambda>a b. to_i32 (b - a)) p c"

lemma length_diffs [simp]: "length (diffs p c) = min (length p) (length c)"
  by (simp add: diffs_def)

lemma DiffItem_diffs:
  assumes "length p = length c" "list_all in_i32 p" "list_all in_i32 c"
  shows "\<exists>needed. DiffItem (p @ r) (c @ r') (length c) = Some (diffs p c, needed) \<and> (needed = 0 \<longleftrightarrow> p = c)"
  using assms
proof (induction p c rule: list_induct2)
  case (Cons a p b c)
  then obtain needed where n: "DiffItem (p @ r) (c @ r') (length c) = Some (diffs p c, needed)" "needed = 0 \<longleftrightarrow> p = c" by auto
  have "to_i32 (b - a) = 0 \<longleftrightarrow> a = b"
  proof
    assume "to_i32 (b - a) = 0"
    then have "to_i32 (a + to_i32 (b - a)) = to_i32 a" by simp
    then show "a = b" using Cons.prems by simp
  qed (simp add: to_i32_def)
  then show ?case using n by (simp add: diffs_def or_eq_0_iff)
qed (simp add: diffs_def)

lemma UndiffItem_diffs:
  assumes "length p = length c" "list_all in_i32 c"
  shows "\<exists>rate'. UndiffItem (p @ r) (diffs p c @ r') (length c) rate = Some (c, rate')"
  using assms
proof (induction p c arbitrary: rate rule: list_induct2)
  case (Cons a p b c)
  then obtain rate' where "UndiffItem (p @ r) (diffs p c @ r') (length c) ((rate + rate_of (to_i32 (b - a))) mod 2 ^ 64) = Some (c, rate')"
    by auto
  then show ?case using Cons.prems by (simp add: diffs_def)
qed (simp add: diffs_def)

text \<open>An item of the new snapshot in a delta, and the items that are written.\<close>

definition payload :: "items \<Rightarrow> int \<times> int list \<Rightarrow> int list" where
  "payload F x = (case map_of F (fst x) of None \<Rightarrow> snd x | Some p \<Rightarrow> diffs p (snd x))"

definition encode_item :: "snap_delta \<Rightarrow> items \<Rightarrow> int \<times> int list \<Rightarrow> int list" where
  "encode_item d F x = [key_InternalType (fst x), key_Id (fst x)] @
     (if include_size d (key_InternalType (fst x)) then [int (length (snd x))] else []) @ payload F x"

definition changed :: "items \<Rightarrow> int \<times> int list \<Rightarrow> bool" where
  "changed F x \<longleftrightarrow> map_of F (fst x) \<noteq> Some (snd x)"

definition removed :: "items \<Rightarrow> items \<Rightarrow> int list" where
  "removed F T = map fst (filter (\<lambda>x. fst x \<notin> fst ` set T) F)"

text \<open>The items that both snapshots have are of one size.\<close>

definition same_sizes :: "items \<Rightarrow> items \<Rightarrow> bool" where
  "same_sizes F T \<longleftrightarrow> list_all (\<lambda>x. case map_of F (fst x) of None \<Rightarrow> True | Some p \<Rightarrow> length p = length (snd x)) T"

lemma length_payload: "same_sizes F T \<Longrightarrow> x \<in> set T \<Longrightarrow> length (payload F x) = length (snd x)"
  by (auto simp: same_sizes_def payload_def list_all_iff split: option.splits)

lemma map_of_index_Some: "distinct (map fst its) \<Longrightarrow> i < length its \<Longrightarrow> map_of its (fst (its ! i)) = Some (snd (its ! i))"
  by (metis map_of_eq_Some_iff nth_mem prod.collapse)

lemma view_split: "snap_view s its \<Longrightarrow> i < length its \<Longrightarrow>
  \<exists>r. ItemData s i = snd (its ! i) @ r \<and> GetItemSize s i = 4 * int (length (snd (its ! i))) \<and> Key s i = fst (its ! i)"
  using view_data view_size view_key by metis

lemma update_item_spec:
  assumes f: "snap_view pFrom F" "wf_items F" and t: "snap_view pTo T" "wf_items T" and sz: "same_sizes F T"
    and i: "i < length T" and u: "used + 3 + length (snd (T ! i)) \<le> 32765"
  shows "update_item d pFrom pTo (key_index F (Key pTo i)) used i =
    Some (if changed F (T ! i) then Some (encode_item d F (T ! i)) else None)"
proof -
  define x where "x = T ! i"
  define n where "n = length (snd x)"
  define hdr where "hdr = [key_InternalType (fst x), key_Id (fst x)] @ (if include_size d (key_InternalType (fst x)) then [int n] else [])"
  have x: "x \<in> set T" using i by (simp add: x_def)
  obtain r where r: "ItemData pTo i = snd x @ r" and g: "GetItemSize pTo i = 4 * int n" and k: "Key pTo i = fst x"
    using view_split [OF t(1) i] unfolding x_def n_def by blast
  have nn: "nat (GetItemSize pTo i) div 4 = n" unfolding g by (simp add: nat_mult_distrib)
  have k0: "0 \<le> key_InternalType (fst x)" using key_parts(1) wf_key [OF t(2) x] by blast
  have "length hdr \<le> 3" by (simp add: hdr_def)
  then have room: "\<not> 12 + 4 * int (used + length hdr + n) > DELTA_MAX_SIZE"
    using u unfolding x_def [symmetric] n_def [symmetric] by (simp add: DELTA_MAX_SIZE_def SNAP_MAX_SIZE_def)
  have guard: "\<not> (key_InternalType (fst x) < 0 \<or> GetItemSize pTo i < 0 \<or> length (ItemData pTo i) < n \<or>
      12 + 4 * int (used + length hdr + n) > DELTA_MAX_SIZE)"
    using k0 room by (simp add: g r n_def)
  have e: "update_item d pFrom pTo past used i =
    (case past of
        Some j \<Rightarrow> (case DiffItem (ItemData pFrom j) (ItemData pTo i) n of
            None \<Rightarrow> None
          | Some (out, needed) \<Rightarrow> Some (if needed \<noteq> 0 then Some (hdr @ out) else None))
      | None \<Rightarrow> Some (Some (hdr @ take n (ItemData pTo i))))" for past
    unfolding update_item_def Let_def nn k hdr_def [symmetric] by (simp only: guard if_False)
  have enc: "encode_item d F x = hdr @ payload F x" by (simp add: encode_item_def hdr_def n_def)
  show ?thesis
  proof (cases "key_index F (fst x)")
    case None
    then have "map_of F (fst x) = None" by (simp add: key_index_None map_of_eq_None_iff)
    then show ?thesis
      unfolding e k None x_def [symmetric] enc by (simp add: changed_def payload_def r n_def)
  next
    case (Some j)
    then have j: "j < length F" and p: "map_of F (fst x) = Some (snd (F ! j))"
      using key_index_Some key_index_map_of f(2) unfolding wf_items_def by blast+
    define p where "p = snd (F ! j)"
    have len: "length p = length (snd x)" using sz x p unfolding same_sizes_def list_all_iff p_def by fastforce
    obtain r' where r': "ItemData pFrom j = p @ r'" using view_split [OF f(1) j] p_def by blast
    have i32: "list_all in_i32 p" "list_all in_i32 (snd x)" using f(2) t(2) x j unfolding wf_items_def p_def by auto
    obtain needed where nd: "DiffItem (ItemData pFrom j) (ItemData pTo i) n = Some (diffs p (snd x), needed)"
        "needed = 0 \<longleftrightarrow> p = snd x"
      using DiffItem_diffs [OF len i32, of r' r] unfolding r r' n_def by blast
    show ?thesis
      unfolding e k Some x_def [symmetric] enc option.case nd(1) prod.case
      using nd(2) p unfolding changed_def payload_def p_def [symmetric] by simp
  qed
qed

definition updates_size :: "items \<Rightarrow> nat" where
  "updates_size T = (\<Sum>x\<leftarrow>T. 3 + length (snd x))"

lemma create_updates_spec:
  assumes f: "snap_view pFrom F" "wf_items F" "buckets_fit F" and t: "snap_view pTo T" "wf_items T" and sz: "same_sizes F T"
    and "\<forall>i\<in>set is. i < length T" "length out + updates_size (map ((!) T) is) \<le> 32765"
  shows "create_updates d pFrom pTo (GenerateHash pFrom) is out num =
    Some (out @ concat (map (encode_item d F) (filter (changed F) (map ((!) T) is))),
          num + int (length (filter (changed F) (map ((!) T) is))))"
  using assms(7,8)
proof (induction "is" arbitrary: out num)
  case (Cons i "is")
  have i: "i < length T" using Cons.prems by simp
  have u: "length out + 3 + length (snd (T ! i)) \<le> 32765" using Cons.prems(2) by (simp add: updates_size_def)
  note s = update_item_spec [OF f(1,2) t sz i u, of d]
  have l: "length (encode_item d F (T ! i)) \<le> 3 + length (snd (T ! i))"
    using length_payload [OF sz, of "T ! i"] i by (simp add: encode_item_def)
  show ?case
  proof (cases "changed F (T ! i)")
    case True
    have "length (out @ encode_item d F (T ! i)) + updates_size (map ((!) T) is) \<le> 32765"
      using Cons.prems(2) l by (simp add: updates_size_def)
    then show ?thesis using Cons.IH Cons.prems(1) s True by (simp add: hash_lookup [OF f(1,3)])
  next
    case False
    then show ?thesis using Cons.IH Cons.prems s by (simp add: hash_lookup [OF f(1,3)] updates_size_def)
  qed
qed simp

lemma updates_size_total: "4 * int (updates_size T) + 8 = snap_total T + 4 * int (length T)"
  unfolding snap_total_sum updates_size_def by (induction T) simp_all

lemma CreateDelta_spec:
  assumes f: "snap_view pFrom F" "wf_items F" "buckets_fit F" and t: "snap_view pTo T" "wf_items T" "buckets_fit T"
    and sz: "same_sizes F T"
  shows "\<exists>n. CreateDelta d pFrom pTo = Some (n,
      \<lparr>dl_NumDeletedItems = int (length (removed F T)), dl_NumUpdateItems = int (length (filter (changed F) T)),
       dl_NumTempItems = 0, dl_Data = removed F T @ concat (map (encode_item d F) (filter (changed F) T))\<rparr>) \<and>
    (n = 0 \<longleftrightarrow> set F = set T) \<and> 0 \<le> n \<and> n \<le> DELTA_MAX_SIZE"
proof -
  define toHash where "toHash = GenerateHash pTo"
  define U where "U = concat (map (encode_item d F) (filter (changed F) T))"
  have del: "map (Key pFrom) (filter (\<lambda>i. GetItemIndexHashed (Key pFrom i) toHash = None) (indices pFrom)) = removed F T"
  proof -
    have "map (Key pFrom) (filter (\<lambda>i. GetItemIndexHashed (Key pFrom i) toHash = None) (indices pFrom)) =
        filter (\<lambda>k. k \<notin> fst ` set T) (map (Key pFrom) [0..<length F])"
      unfolding view_indices [OF f(1)] toHash_def hash_lookup [OF t(1,3)] key_index_None
      by (simp add: filter_map o_def)
    also have "map (Key pFrom) [0..<length F] = map fst F"
      by (rule nth_equalityI) (simp_all add: view_key [OF f(1)])
    finally show ?thesis by (simp add: removed_def filter_map o_def)
  qed
  have small: "length F \<le> 1024" "length T \<le> 1024" "snap_total T \<le> 65536"
    using view_total f(1) t(1) by blast+
  have r: "length (removed F T) \<le> 1024"
    using small(1) length_filter_le [of "\<lambda>x. fst x \<notin> fst ` set T" F] unfolding removed_def length_map by linarith
  have us: "int (updates_size T) \<le> 17408" using updates_size_total [of T] small by linarith
  have room: "length (removed F T) + updates_size (map ((!) T) (indices pTo)) \<le> 32765"
    using r us unfolding view_indices [OF t(1)] map_nth by linarith
  have ind: "\<forall>i\<in>set (indices pTo). i < length T" by (simp add: view_indices [OF t(1)])
  have up: "create_updates d pFrom pTo (GenerateHash pFrom) (indices pTo) (removed F T) 0 =
      Some (removed F T @ U, int (length (filter (changed F) T)))"
    using create_updates_spec [OF f t(1,2) sz ind room, of d 0]
    unfolding view_indices [OF t(1)] map_nth U_def by simp
  define n where "n = (if length (removed F T) = 0 \<and> int (length (filter (changed F) T)) = 0 then 0
      else 12 + 4 * int (length (removed F T @ U)))"
  have "\<not> 12 + 4 * int (length (removed F T)) > DELTA_MAX_SIZE" using r by (simp add: DELTA_MAX_SIZE_def SNAP_MAX_SIZE_def)
  then have c: "CreateDelta d pFrom pTo = Some (n,
      \<lparr>dl_NumDeletedItems = int (length (removed F T)), dl_NumUpdateItems = int (length (filter (changed F) T)),
       dl_NumTempItems = 0, dl_Data = removed F T @ U\<rparr>)"
    unfolding CreateDelta_def Let_def toHash_def [symmetric] del up option.case prod.case n_def [symmetric]
    by (simp only: if_False)
  have "length U \<le> updates_size T"
  proof -
    have "length (concat (map (encode_item d F) (filter (changed F) T'))) \<le> updates_size T'" if "set T' \<subseteq> set T" for T'
      using that
    proof (induction T')
      case (Cons x T')
      have "length (encode_item d F x) \<le> 3 + length (snd x)"
        using length_payload [OF sz, of x] Cons.prems by (simp add: encode_item_def)
      then show ?case using Cons by (simp add: updates_size_def)
    qed (simp add: updates_size_def)
    then show ?thesis unfolding U_def by blast
  qed
  then have nb: "0 \<le> n \<and> n \<le> DELTA_MAX_SIZE"
    using r us unfolding n_def DELTA_MAX_SIZE_def SNAP_MAX_SIZE_def by auto
  have "n = 0 \<longleftrightarrow> fst ` set F \<subseteq> fst ` set T \<and> (\<forall>x\<in>set T. map_of F (fst x) = Some (snd x))"
    by (auto simp: n_def removed_def filter_empty_conv changed_def)
  also have "\<dots> \<longleftrightarrow> set F = set T"
  proof
    assume a: "fst ` set F \<subseteq> fst ` set T \<and> (\<forall>x\<in>set T. map_of F (fst x) = Some (snd x))"
    then have ts: "set T \<subseteq> set F" by (metis map_of_SomeD prod.collapse subsetI)
    have "x \<in> set T" if x: "x \<in> set F" for x
    proof -
      from x a obtain y where y: "y \<in> set T" "fst y = fst x" by fastforce
      then have "map_of F (fst x) = Some (snd y)" using a by metis
      moreover have "map_of F (fst x) = Some (snd x)" using x f(2) unfolding wf_items_def by (metis map_of_eq_Some_iff prod.collapse)
      ultimately have "snd x = snd y" by simp
      with y have "x = y" by (metis prod_eqI)
      with y show ?thesis by simp
    qed
    with ts show "set F = set T" by blast
  next
    assume a: "set F = set T"
    then show "fst ` set F \<subseteq> fst ` set T \<and> (\<forall>x\<in>set T. map_of F (fst x) = Some (snd x))"
      using f(2) unfolding wf_items_def by (metis map_of_eq_Some_iff prod.collapse subset_refl)
  qed
  finally show ?thesis using c nb unfolding U_def by blast
qed

subsection \<open>The steps of \<open>UnpackDelta\<close>\<close>

lemma keep_items_spec:
  assumes f: "snap_view pFrom F" "wf_items F" and "builder_ok b B" "\<forall>i\<in>set is. i < length F"
    "length B + length is \<le> 1024" "snap_total (B @ map ((!) F) is) \<le> 65536"
  shows "\<exists>b'. keep_items um six pFrom deleted is b = Inr b' \<and>
    builder_ok b' (B @ filter (\<lambda>x. fst x \<notin> set deleted) (map ((!) F) is))"
  using assms(3-6)
proof (induction "is" arbitrary: b B)
  case (Cons i "is")
  then have i: "i < length F" by simp
  define x where "x = F ! i"
  have x: "x \<in> set F" using i by (simp add: x_def)
  note k = wf_key [OF f(2) x]
  obtain r where r: "ItemData pFrom i = snd x @ r" and g: "GetItemSize pFrom i = 4 * int (length (snd x))" and key: "Key pFrom i = fst x"
    using view_split [OF f(1) i] unfolding x_def by blast
  have m: "map ((!) F) (i # is) = x # map ((!) F) is" by (simp add: x_def)
  have rest: "8 \<le> snap_total (map ((!) F) is)" by (simp add: snap_total_def)
  show ?case
  proof (cases "fst x \<in> set deleted")
    case True
    have "snap_total (B @ map ((!) F) is) \<le> 65536" using Cons.prems(4) unfolding m by simp
    then obtain b' where "keep_items um six pFrom deleted is b = Inr b'"
        "builder_ok b' (B @ filter (\<lambda>x. fst x \<notin> set deleted) (map ((!) F) is))"
      using Cons.IH [OF Cons.prems(1)] Cons.prems(2,3) by auto
    then show ?thesis unfolding m using True key by simp
  next
    case False
    have t: "snap_total (B @ [x]) + snap_total (map ((!) F) is) - 8 \<le> 65536" using Cons.prems(4) unfolding m by simp
    then have fits: "fits_in B (length (snd x))" using Cons.prems(3) rest by (simp add: fits_in_def)
    have "4 * int (length (snd x)) \<le> 65520" using snap_total_item [OF x] view_total [OF f(1)] by linarith
    then obtain b1 where n: "NewItem um six (key_InternalType (fst x)) (key_Id (fst x)) (snd x @ r) (4 * int (length (snd x))) b = Inr (True, b1)"
        and b1: "builder_ok b1 (B @ [(fst x, snd x)])"
      using NewItem_fits [OF Cons.prems(1) _ _ fits] k by blast
    obtain b' where "keep_items um six pFrom deleted is b1 = Inr b'"
        "builder_ok b' ((B @ [x]) @ filter (\<lambda>x. fst x \<notin> set deleted) (map ((!) F) is))"
      using Cons.IH [of b1 "B @ [x]"] b1 Cons.prems(2,3) t by auto
    then show ?thesis unfolding m using False by (simp add: key r g n)
  qed
qed simp

text \<open>Setting the data of a key.\<close>

definition put :: "items \<Rightarrow> int \<Rightarrow> int list \<Rightarrow> items" where
  "put B k c = (case key_index B k of Some i \<Rightarrow> B[i := (k, c)] | None \<Rightarrow> B @ [(k, c)])"

lemma put_spec:
  assumes "distinct (map fst B)"
  shows "map_of (put B k c) = (map_of B)(k \<mapsto> c)" "distinct (map fst (put B k c))"
    "fst ` set (put B k c) = insert k (fst ` set B)" "set (put B k c) \<subseteq> insert (k, c) (set B)"
proof -
  have all: "map_of (put B k c) = (map_of B)(k \<mapsto> c) \<and> distinct (map fst (put B k c)) \<and>
    set (map fst (put B k c)) = insert k (set (map fst B)) \<and> set (put B k c) \<subseteq> insert (k, c) (set B)"
  proof (cases "key_index B k")
    case None
    then have k: "k \<notin> fst ` set B" by (simp add: key_index_None)
    then have "map_of B k = None" by (simp add: map_of_eq_None_iff)
    then have "map_of (B @ [(k, c)]) = (map_of B)(k \<mapsto> c)" by (auto simp: map_add_def fun_eq_iff split: option.splits)
    then show ?thesis unfolding put_def None option.case using assms k by auto
  next
    case (Some i)
    then have i: "i < length B" "fst (B ! i) = k" using key_index_Some by blast+
    have p: "put B k c = B[i := (k, c)]" by (simp add: put_def Some)
    have m: "map fst (put B k c) = map fst B"
      unfolding p by (rule nth_equalityI) (use i in \<open>auto simp: nth_list_update\<close>)
    have d: "distinct B" using assms by (simp add: distinct_map)
    have s: "set (put B k c) = insert (k, c) (set B - {B ! i})"
      unfolding p by (rule set_update_distinct [OF d i(1)])
    have "map_of (put B k c) x = ((map_of B)(k \<mapsto> c)) x" for x
    proof (cases "x = k")
      case True
      have "(k, c) \<in> set (put B k c)" using s by simp
      then show ?thesis using True m assms by (metis fun_upd_same map_of_is_SomeI)
    next
      case False
      have "map_of (put B k c) x = Some v \<longleftrightarrow> map_of B x = Some v" for v
      proof -
        have "(x, v) \<noteq> B ! i" using False i(2) by (metis fst_conv)
        then have "(x, v) \<in> set (put B k c) \<longleftrightarrow> (x, v) \<in> set B" unfolding s using False by simp
        then show ?thesis using m assms by (metis map_of_eq_Some_iff)
      qed
      then have "map_of (put B k c) x = map_of B x" by (metis option.exhaust)
      then show ?thesis using False by simp
    qed
    moreover have "k \<in> set (map fst B)" using i by (metis length_map nth_map nth_mem)
    ultimately show ?thesis using m s assms by (auto simp: fun_eq_iff)
  qed
  then show "map_of (put B k c) = (map_of B)(k \<mapsto> c)" "distinct (map fst (put B k c))"
    "set (put B k c) \<subseteq> insert (k, c) (set B)" by blast+
  from all show "fst ` set (put B k c) = insert k (fst ` set B)" by (simp only: set_map)
qed

lemma locate_item_spec:
  assumes "builder_ok b B" "0 \<le> t" "t \<le> MAX_TYPE" "0 \<le> d" "d \<le> MAX_ID" "0 \<le> Size" "Size mod 4 = 0"
  shows "locate_item um six t d Size b =
    (case key_index B (push_bit 16 t OR d) of
       Some j \<Rightarrow> if Size \<noteq> 4 * int (length (snd (B ! j))) then Inl (ErrCode (- 206)) else Inr (Slot j, b)
     | None \<Rightarrow> if Size > 65520 then Inl AssertFailed
         else if fits_in B (nat Size div 4) then Inr (create_item t d Size b) else Inl (ErrCode (- 302)))"
proof -
  have r: "builder_rep b B" "snap_total B \<le> 65536" using assms(1) by (simp_all add: builder_ok_def)
  have c: "create_item t d Size b = (Slot (sb_NumItems b), snd (create_item t d Size b))" by (simp add: create_item_def)
  show ?thesis
  proof (cases "key_index B (push_bit 16 t OR d)")
    case None
    then show ?thesis
      unfolding locate_item_def rep_index [OF r(1)] NewItemRaw_spec [OF assms]
      by (simp split: prod.splits slot.splits) (metis c prod.inject slot.distinct(2,4))
  next
    case (Some j)
    then have j: "j < length B" using key_index_Some by blast
    show ?thesis unfolding locate_item_def rep_index [OF r(1)] Some option.case rep_size [OF r(1) j r(2)] by simp
  qed
qed

lemma locate_write:
  assumes "builder_ok b B" "0 \<le> t" "t \<le> MAX_TYPE" "0 \<le> d" "d \<le> MAX_ID" "0 \<le> Size" "Size mod 4 = 0"
    and l: "locate_item um six t d Size b = Inr (s, b1)" and xs: "length xs = nat Size div 4"
  shows "builder_ok (write_slot s xs b1) (put B (push_bit 16 t OR d) xs)"
proof (cases "key_index B (push_bit 16 t OR d)")
  case None
  then have f: "fits_in B (nat Size div 4)" and c: "(s, b1) = create_item t d Size b"
    using l unfolding locate_item_spec [OF assms(1-7)] by (auto split: if_splits)
  let ?its = "B @ [(push_bit 16 t OR d, replicate (nat Size div 4) 0)]"
  have o: "builder_ok b1 ?its" and s: "s = Slot (length B)"
    using place_spec(2) [OF assms(1-7) f] unfolding c [symmetric] by simp_all
  have "builder_ok (write_item (length B) xs b1) (?its[length B := (fst (?its ! length B), xs)])"
    by (rule ok_write [OF o]) (simp_all add: xs)
  then have "builder_ok (write_slot s xs b1) (?its[length B := (fst (?its ! length B), xs)])"
    by (simp only: s write_slot_def slot.case)
  then show ?thesis unfolding put_def None by simp
next
  case (Some j)
  then have "j < length B" "fst (B ! j) = push_bit 16 t OR d" using key_index_Some by blast+
  moreover have "Size = 4 * int (length (snd (B ! j)))" "s = Slot j" "b1 = b"
    using l unfolding locate_item_spec [OF assms(1-7)] Some by (auto split: if_splits)
  moreover have "nat (4 * int m) div 4 = m" for m by (simp add: nat_mult_distrib)
  ultimately show ?thesis
    using ok_write [OF assms(1), of j xs] xs unfolding put_def Some write_slot_def by simp
qed

lemma UndiffItem_total: "n \<le> length p \<Longrightarrow> n \<le> length dif \<Longrightarrow>
  \<exists>out r. UndiffItem p dif n rate = Some (out, r) \<and> length out = n \<and> list_all in_i32 out"
proof (induction p dif n rate rule: UndiffItem.induct)
  case (2 p past d dif n rate)
  then obtain out r where "UndiffItem past dif n ((rate + rate_of d) mod 2 ^ 64) = Some (out, r)" "length out = n" "list_all in_i32 out"
    by auto
  then show ?case by simp
qed simp_all

lemma apply_item_safe:
  assumes "snap_view pFrom F" "0 \<le> Size" "Size mod 4 = 0" "Size \<le> 4 * int (length data)"
  shows "apply_item pFrom t i Size data d = Inl (ErrCode (- 207)) \<or>
    (\<exists>xs d'. apply_item pFrom t i Size data d = Inr (xs, d') \<and> length xs = nat Size div 4 \<and>
       sd_ItemSizes d' = sd_ItemSizes d \<and> (list_all in_i32 data \<longrightarrow> list_all in_i32 xs))"
proof -
  have n: "nat Size div 4 \<le> length data" using assms(4) by linarith
  show ?thesis
  proof (cases "key_index F (push_bit 16 t OR i)")
    case None
    have "list_all in_i32 data \<longrightarrow> list_all in_i32 (take (nat Size div 4) data)"
      by (auto simp: list_all_iff dest: in_set_takeD)
    then show ?thesis unfolding apply_item_def Let_def view_index [OF assms(1)] None using n by (simp add: count_update_def)
  next
    case (Some j)
    then have j: "j < length F" using key_index_Some by blast
    obtain r where r: "ItemData pFrom j = snd (F ! j) @ r" and g: "GetItemSize pFrom j = 4 * int (length (snd (F ! j)))"
      using view_split [OF assms(1) j] by blast
    show ?thesis
    proof (cases "GetItemSize pFrom j = Size")
      case True
      then have "nat Size div 4 \<le> length (ItemData pFrom j)" unfolding r using g by (simp add: nat_mult_distrib)
      then obtain out r' where "UndiffItem (ItemData pFrom j) data (nat Size div 4) (sd_DataRate d (nat t)) = Some (out, r')"
          "length out = nat Size div 4" "list_all in_i32 out"
        using UndiffItem_total n by blast
      then show ?thesis unfolding apply_item_def Let_def view_index [OF assms(1)] Some using True by (simp add: count_update_def)
    next
      case False
      then show ?thesis unfolding apply_item_def Let_def view_index [OF assms(1)] Some by simp
    qed
  qed
qed

text \<open>The sizes that are known to both sides are sizes of objects made of ints.\<close>

definition statics_ok :: "snap_delta \<Rightarrow> bool" where
  "statics_ok d \<longleftrightarrow> length (sd_ItemSizes d) = 64 \<and> list_all (\<lambda>n. 0 \<le> n \<and> n \<le> 32767 \<and> n mod 4 = 0) (sd_ItemSizes d)"

lemma read_size_spec:
  assumes "statics_ok d" "0 \<le> t" "read_size d t data = Inr (Size, rest)"
  shows "0 \<le> Size" "Size mod 4 = 0" "length rest \<le> length data" "Size > 32767 \<longrightarrow> length data = Suc (length rest)"
    "list_all in_i32 data \<longrightarrow> list_all in_i32 rest"
proof -
  have all: "0 \<le> Size \<and> Size mod 4 = 0 \<and> length rest \<le> length data \<and> (Size > 32767 \<longrightarrow> length data = Suc (length rest)) \<and>
    (list_all in_i32 data \<longrightarrow> list_all in_i32 rest)"
  proof (cases "t < MAX_NETOBJSIZES \<and> sd_ItemSizes d ! nat t \<noteq> 0")
    case True
    then have "sd_ItemSizes d ! nat t \<in> set (sd_ItemSizes d)" using assms(1,2) unfolding statics_ok_def MAX_NETOBJSIZES_def by (intro nth_mem) auto
    then show ?thesis using assms(1,3) True by (auto simp: read_size_def statics_ok_def list_all_iff)
  next
    case False
    then show ?thesis using assms(3) by (cases data) (auto simp: read_size_def split: if_splits)
  qed
  then show "0 \<le> Size" "Size mod 4 = 0" "length rest \<le> length data" "Size > 32767 \<longrightarrow> length data = Suc (length rest)"
    "list_all in_i32 data \<longrightarrow> list_all in_i32 rest" by blast+
qed

lemma read_size_error: "read_size d t data = Inl e \<Longrightarrow> \<exists>c. e = ErrCode c"
  by (auto simp: read_size_def split: if_splits list.splits)

text \<open>What one update item does to the builder, whatever its data.\<close>

lemma unpack_item_safe:
  assumes f: "snap_view pFrom F" and b: "builder_ok b B" and d: "statics_ok d" and l: "length data \<le> 16383"
  shows "(\<exists>c. unpack_item um six pFrom data b d = Inl (ErrCode c)) \<or>
    (\<exists>k xs data' b' d'. unpack_item um six pFrom data b d = Inr (data', b', d') \<and> builder_ok b' (put B k xs) \<and>
       0 \<le> k \<and> k < 2147483648 \<and> length data' \<le> length data \<and> sd_ItemSizes d' = sd_ItemSizes d \<and>
       (list_all in_i32 data \<longrightarrow> list_all in_i32 xs \<and> list_all in_i32 data'))"
proof (cases "\<exists>c. unpack_item um six pFrom data b d = Inl (ErrCode c)")
  case False
  define t i where "t = data ! 0" and "i = data ! 1"
  from False have g: "2 \<le> length data" "0 \<le> t" "t \<le> MAX_TYPE" "0 \<le> i" "i \<le> MAX_ID"
    unfolding unpack_item_def Let_def t_def [symmetric] i_def [symmetric] by (force split: if_splits)+
  then have u: "unpack_item um six pFrom data b d =
      (case read_size d t (drop 2 data) of
          Inl e \<Rightarrow> Inl e
        | Inr (ItemSize, rest) \<Rightarrow>
            if ItemSize < 0 \<or> 4 * int (length rest) < ItemSize then Inl (ErrCode (- 205))
            else case locate_item um six t i ItemSize b of
              Inl e \<Rightarrow> Inl e
            | Inr (s, b1) \<Rightarrow>
                (case apply_item pFrom t i ItemSize rest d of
                   Inl e \<Rightarrow> Inl e
                 | Inr (xs, d1) \<Rightarrow> Inr (drop (nat ItemSize div 4) rest, write_slot s xs b1, d1)))"
    unfolding unpack_item_def Let_def t_def [symmetric] i_def [symmetric] by simp
  obtain Size rest where rs: "read_size d t (drop 2 data) = Inr (Size, rest)"
  proof (cases "read_size d t (drop 2 data)")
    case (Inl e)
    then obtain c where "e = ErrCode c" using read_size_error by blast
    then have "unpack_item um six pFrom data b d = Inl (ErrCode c)" unfolding u Inl by simp
    then show ?thesis using False by blast
  next
    case (Inr x)
    then show ?thesis using that by (cases x) blast
  qed
  note z = read_size_spec [OF d g(2) rs]
  have room: "Size \<le> 4 * int (length rest)" using False rs z(1) unfolding u by (auto split: if_splits)
  have small: "\<not> Size > 65520"
  proof
    assume "Size > 65520"
    with room z(4) l g(1) show False by auto
  qed
  have u2: "unpack_item um six pFrom data b d =
      (case locate_item um six t i Size b of
              Inl e \<Rightarrow> Inl e
            | Inr (s, b1) \<Rightarrow>
                (case apply_item pFrom t i Size rest d of
                   Inl e \<Rightarrow> Inl e
                 | Inr (xs, d1) \<Rightarrow> Inr (drop (nat Size div 4) rest, write_slot s xs b1, d1)))"
    unfolding u rs using room z(1) by simp
  obtain s b1 where lo: "locate_item um six t i Size b = Inr (s, b1)"
    using False small unfolding u2 locate_item_spec [OF b g(2-5) z(1,2)]
    by (auto simp: create_item_def split: option.splits if_splits)
  obtain xs d1 where ap: "apply_item pFrom t i Size rest d = Inr (xs, d1)" "length xs = nat Size div 4"
      "sd_ItemSizes d1 = sd_ItemSizes d" "list_all in_i32 rest \<longrightarrow> list_all in_i32 xs"
    using False apply_item_safe [OF f z(1,2) room, of t i d] unfolding u2 lo by auto
  have w: "builder_ok (write_slot s xs b1) (put B (push_bit 16 t OR i) xs)"
    by (rule locate_write [OF b g(2-5) z(1,2) lo ap(2)])
  have i32: "list_all in_i32 data \<longrightarrow> list_all in_i32 xs \<and> list_all in_i32 (drop (nat Size div 4) rest)"
  proof
    assume "list_all in_i32 data"
    then have "list_all in_i32 (drop 2 data)" by (auto simp: list_all_iff dest: in_set_dropD)
    then have "list_all in_i32 rest" using z(5) by blast
    then show "list_all in_i32 xs \<and> list_all in_i32 (drop (nat Size div 4) rest)"
      using ap(4) by (auto simp: list_all_iff dest: in_set_dropD)
  qed
  have "unpack_item um six pFrom data b d = Inr (drop (nat Size div 4) rest, write_slot s xs b1, d1)"
    unfolding u2 lo ap(1) by simp
  moreover have "length (drop (nat Size div 4) rest) \<le> length data" using z(3) by simp
  moreover have "0 \<le> push_bit 16 t OR i" "push_bit 16 t OR i < 2147483648"
    using key_range [OF g(2-5)] by (auto simp: in_i32_def)
  ultimately show ?thesis using w ap(3) i32 by blast
qed blast

lemma wf_put: "wf_items B \<Longrightarrow> 0 \<le> k \<Longrightarrow> k < 2147483648 \<Longrightarrow> list_all in_i32 c \<Longrightarrow> wf_items (put B k c)"
  unfolding wf_items_def using put_spec(2,4) [of B k c] by fastforce

lemma unpack_updates_safe:
  assumes "snap_view pFrom F" "builder_ok b B" "wf_items B" "statics_ok d" "length data \<le> 16383" "list_all in_i32 data"
  shows "sd_ItemSizes (snd (unpack_updates um six pFrom n data b d)) = sd_ItemSizes d \<and>
    ((\<exists>c. fst (unpack_updates um six pFrom n data b d) = Inl (ErrCode c)) \<or>
     (\<exists>b' B'. fst (unpack_updates um six pFrom n data b d) = Inr b' \<and> builder_ok b' B' \<and> wf_items B'))"
  using assms(2-)
proof (induction n arbitrary: data b B d)
  case (Suc n)
  note c = unpack_item_safe [OF assms(1) Suc.prems(1,3,4), of um six]
  then show ?case
  proof (elim disjE exE conjE)
    fix c assume "unpack_item um six pFrom data b d = Inl (ErrCode c)"
    then show ?thesis by simp
  next
    fix k xs data' b' d'
    assume u: "unpack_item um six pFrom data b d = Inr (data', b', d')" and b': "builder_ok b' (put B k xs)"
      and k: "0 \<le> k" "k < 2147483648" and l: "length data' \<le> length data" and d': "sd_ItemSizes d' = sd_ItemSizes d"
      and i: "list_all in_i32 data \<longrightarrow> list_all in_i32 xs \<and> list_all in_i32 data'"
    have "wf_items (put B k xs)" using wf_put Suc.prems(2,5) k i by blast
    moreover have "statics_ok d'" using Suc.prems(3) d' by (simp add: statics_ok_def)
    ultimately show ?thesis using Suc.IH [OF b'] Suc.prems(4,5) l i d' by (simp add: u)
  qed
qed auto

lemma filter_wf: "wf_items F \<Longrightarrow> wf_items (filter P F)"
  unfolding wf_items_def by (auto simp: distinct_map inj_on_def)

lemma finish_wf:
  assumes "builder_ok b B" "wf_items B"
  shows "\<exists>s b'. builder_Finish b = Inr (TotalSize s, s, b') \<and> TotalSize s = snap_total B \<and> wf_snapshot s \<and> sn_items s = B \<and>
    snap_view s B \<and> TotalSize s \<le> SNAP_MAX_SIZE"
proof -
  obtain s b' where s: "builder_Finish b = Inr (snap_total B, s, b')" "TotalSize s = snap_total B" "snap_view s B"
    "IsValid s (snap_total B)" "in_memory s" using finish_spec [OF assms(1)] by blast
  have i: "sn_items s = B" by (rule view_items [OF s(3)])
  have "wf_snapshot s" unfolding wf_snapshot_def i using s(2,4,5) assms(2) by simp
  moreover have "TotalSize s \<le> SNAP_MAX_SIZE" using assms(1) s(2) by (simp add: builder_ok_def SNAP_MAX_SIZE_def)
  ultimately show ?thesis using s i by metis
qed

lemma start_unpack:
  assumes "snap_view pFrom F" "wf_items F" "0 \<le> dl_NumDeletedItems dl" "nat (dl_NumDeletedItems dl) \<le> length (dl_Data dl)"
  shows "\<exists>b1. builder_ok b1 (filter (\<lambda>x. fst x \<notin> set (take (nat (dl_NumDeletedItems dl)) (dl_Data dl))) F) \<and>
    UnpackDelta um six d pFrom dl =
      (case unpack_updates um six pFrom (nat (dl_NumUpdateItems dl)) (drop (nat (dl_NumDeletedItems dl)) (dl_Data dl)) b1 d of
         (Inl e, d1) \<Rightarrow> (Inl e, d1)
       | (Inr b2, d1) \<Rightarrow> (case builder_Finish b2 of Inl e \<Rightarrow> (Inl e, d1) | Inr (n, s, _) \<Rightarrow> (Inr (n, s), d1)))"
proof -
  define nd where "nd = nat (dl_NumDeletedItems dl)"
  obtain b0 where b0: "builder_Init um six False blank_builder = Inr b0" "builder_ok b0 []" using blank_ok by blast
  have small: "length F \<le> 1024" "snap_total F \<le> 65536" using view_total [OF assms(1)] by blast+
  have i: "indices pFrom = [0..<length F]" by (rule view_indices [OF assms(1)])
  have m: "map ((!) F) [0..<length F] = F" by (rule map_nth)
  obtain b1 where b1: "keep_items um six pFrom (take nd (dl_Data dl)) [0..<length F] b0 = Inr b1"
      "builder_ok b1 ([] @ filter (\<lambda>x. fst x \<notin> set (take nd (dl_Data dl))) F)"
    using keep_items_spec [OF assms(1,2) b0(2), of "[0..<length F]" um six "take nd (dl_Data dl)"] small unfolding m by auto
  have "UnpackDelta um six d pFrom dl =
      (case unpack_updates um six pFrom (nat (dl_NumUpdateItems dl)) (drop nd (dl_Data dl)) b1 d of
         (Inl e, d1) \<Rightarrow> (Inl e, d1)
       | (Inr b2, d1) \<Rightarrow> (case builder_Finish b2 of Inl e \<Rightarrow> (Inl e, d1) | Inr (n, s, _) \<Rightarrow> (Inr (n, s), d1)))"
  proof -
    have "\<not> dl_NumDeletedItems dl > int (length (dl_Data dl))" "\<not> dl_NumDeletedItems dl < 0" using assms(3,4) by linarith+
    then show ?thesis unfolding UnpackDelta_def b0(1) Let_def nd_def [symmetric] i by (simp add: b1(1))
  qed
  then show ?thesis using b1(2) unfolding nd_def by auto
qed


subsection \<open>Applying the delta that was made\<close>

text \<open>Both sides know the size of every item whose type has a static size.\<close>

definition sizes_agree :: "snap_delta \<Rightarrow> items \<Rightarrow> bool" where
  "sizes_agree d T \<longleftrightarrow>
     list_all (\<lambda>x. include_size d (key_InternalType (fst x)) \<or>
       sd_ItemSizes d ! nat (key_InternalType (fst x)) = 4 * int (length (snd x))) T"

lemma read_size_encoded:
  assumes "sizes_agree d T" "x \<in> set T" "4 * int (length (snd x)) \<le> 65520"
  shows "read_size d (key_InternalType (fst x))
      ((if include_size d (key_InternalType (fst x)) then [int (length (snd x))] else []) @ rest) =
    Inr (4 * int (length (snd x)), rest)"
  using assms unfolding sizes_agree_def list_all_iff read_size_def
  by (fastforce simp: include_size_def not_le)

lemma unpack_item_encoded:
  assumes f: "snap_view pFrom F" "wf_items F" and t: "wf_items T" "snap_total T \<le> 65536" and sz: "same_sizes F T"
    and a: "sizes_agree d T" and x: "x \<in> set T" and b: "builder_ok b B"
    and lo: "case key_index B (fst x) of Some j \<Rightarrow> length (snd (B ! j)) = length (snd x) | None \<Rightarrow> fits_in B (length (snd x))"
  shows "\<exists>b' d'. unpack_item um six pFrom (encode_item d F x @ rest) b d = Inr (rest, b', d') \<and>
    builder_ok b' (put B (fst x) (snd x)) \<and> sd_ItemSizes d' = sd_ItemSizes d"
proof -
  define t i n where "t = key_InternalType (fst x)" and "i = key_Id (fst x)" and "n = length (snd x)"
  have k: "0 \<le> t" "t \<le> MAX_TYPE" "0 \<le> i" "i \<le> MAX_ID" "push_bit 16 t OR i = fst x"
    using key_parts wf_key [OF t(1) x] unfolding t_def i_def by blast+
  have n: "4 * int n \<le> 65520" using snap_total_item [OF x] t(2) unfolding n_def by linarith
  have z: "0 \<le> 4 * int n" "4 * int n mod 4 = 0" "nat (4 * int n) div 4 = n" by (simp_all add: nat_mult_distrib)
  have len: "length (payload F x) = n" unfolding n_def by (rule length_payload [OF sz x])
  define sx where "sx = (if include_size d t then [int n] else [])"
  have e: "encode_item d F x @ rest = t # i # sx @ payload F x @ rest"
    by (simp add: encode_item_def t_def i_def n_def sx_def)
  have rs: "read_size d t (sx @ payload F x @ rest) = Inr (4 * int n, payload F x @ rest)"
    using read_size_encoded [OF a x] n unfolding t_def n_def sx_def by blast
  obtain s b1 where l: "locate_item um six t i (4 * int n) b = Inr (s, b1)"
  proof (cases "key_index B (fst x)")
    case None
    then have "locate_item um six t i (4 * int n) b = Inr (create_item t i (4 * int n) b)"
      using lo n unfolding locate_item_spec [OF b k(1-4) z(1,2)] k(5) z(3) n_def [symmetric] by simp
    then show ?thesis using that by (cases "create_item t i (4 * int n) b") simp
  next
    case (Some j)
    then have "locate_item um six t i (4 * int n) b = Inr (Slot j, b)"
      using lo unfolding locate_item_spec [OF b k(1-4) z(1,2)] k(5) by (simp add: n_def)
    then show ?thesis using that by blast
  qed
  have i32: "list_all in_i32 (snd x)" using t(1) x unfolding wf_items_def by blast
  obtain d' where ap: "apply_item pFrom t i (4 * int n) (payload F x @ rest) d = Inr (snd x, d')" "sd_ItemSizes d' = sd_ItemSizes d"
  proof (cases "key_index F (fst x)")
    case None
    then have "map_of F (fst x) = None" by (simp add: key_index_None map_of_eq_None_iff)
    then have "payload F x = snd x" by (simp add: payload_def)
    then have "apply_item pFrom t i (4 * int n) (payload F x @ rest) d =
        Inr (snd x, count_update t ((sd_DataRate d (nat t) + nat (4 * int n) * 8) mod 2 ^ 64) d)"
      unfolding apply_item_def Let_def view_index [OF f(1)] k(5) None z(3) by (simp add: n_def)
    then show ?thesis using that by (simp add: count_update_def)
  next
    case (Some j)
    then have j: "j < length F" and m: "map_of F (fst x) = Some (snd (F ! j))"
      using key_index_Some key_index_map_of f(2) unfolding wf_items_def by blast+
    have len: "length (snd (F ! j)) = length (snd x)" using sz x m unfolding same_sizes_def list_all_iff by fastforce
    obtain r where r: "ItemData pFrom j = snd (F ! j) @ r" and g: "GetItemSize pFrom j = 4 * int n"
      using view_split [OF f(1) j] len n_def by metis
    have p: "payload F x = diffs (snd (F ! j)) (snd x)" by (simp add: payload_def m)
    obtain rate' where "UndiffItem (ItemData pFrom j) (payload F x @ rest) n (sd_DataRate d (nat t)) = Some (snd x, rate')"
      using UndiffItem_diffs [OF len i32] unfolding r p n_def by blast
    then have "apply_item pFrom t i (4 * int n) (payload F x @ rest) d = Inr (snd x, count_update t rate' d)"
      unfolding apply_item_def Let_def view_index [OF f(1)] k(5) Some z(3) by (simp add: g)
    then show ?thesis using that by (simp add: count_update_def)
  qed
  have w: "builder_ok (write_slot s (snd x) b1) (put B (fst x) (snd x))"
    using locate_write [OF b k(1-4) z(1,2) l, of "snd x"] unfolding k(5) z(3) n_def by simp
  have "unpack_item um six pFrom (encode_item d F x @ rest) b d = Inr (rest, write_slot s (snd x) b1, d')"
    using k(1-4) unfolding unpack_item_def e Let_def
    by (simp add: rs l ap(1) len z(3) nat_mult_distrib)
  then show ?thesis using w ap(2) by blast
qed

lemma put_room:
  assumes t: "distinct (map fst T)" "length T \<le> 1024" "snap_total T \<le> 65536" and x: "x \<in> set T"
    and B: "distinct (map fst B)" "fst ` set B \<subseteq> fst ` set T"
      "\<forall>k p c. map_of B k = Some p \<longrightarrow> map_of T k = Some c \<longrightarrow> length p = length c"
  shows "case key_index B (fst x) of Some j \<Rightarrow> length (snd (B ! j)) = length (snd x) | None \<Rightarrow> fits_in B (length (snd x))"
proof (cases "key_index B (fst x)")
  case None
  have mx: "map_of T (fst x) = Some (snd x)" using t(1) x by (metis map_of_eq_Some_iff prod.collapse)
  have nx: "fst x \<notin> fst ` set B" using None by (simp add: key_index_None)
  have d: "distinct (map fst (x # B))" using nx B(1) by simp
  have sub: "fst ` set (x # B) \<subseteq> fst ` set T" using B(2) x by simp
  have l: "length p = length c" if "map_of (x # B) k = Some p" "map_of T k = Some c" for k p c
    using that B(3) mx by (cases x) (auto split: if_splits)
  have "length (x # B) \<le> length T" by (rule total_subset(1) [OF d t(1) sub]) (rule l)
  moreover have "snap_total (x # B) \<le> snap_total T" by (rule total_subset(2) [OF d t(1) sub]) (rule l)
  ultimately have "fits_in B (length (snd x))" using t(2,3) by (simp add: fits_in_def)
  then show ?thesis unfolding None by simp
next
  case (Some j)
  then have "map_of B (fst x) = Some (snd (B ! j))" using key_index_map_of B(1) by blast
  moreover have "map_of T (fst x) = Some (snd x)" using t(1) x by (metis map_of_eq_Some_iff prod.collapse)
  ultimately show ?thesis unfolding Some using B(3) by auto
qed

lemma unpack_updates_encoded:
  assumes f: "snap_view pFrom F" "wf_items F" and t: "wf_items T" "length T \<le> 1024" "snap_total T \<le> 65536"
    and sz: "same_sizes F T"
    and "sizes_agree d T" "set xs \<subseteq> set T" "builder_ok b B" "distinct (map fst B)" "fst ` set B \<subseteq> fst ` set T"
      "\<forall>k p c. map_of B k = Some p \<longrightarrow> map_of T k = Some c \<longrightarrow> length p = length c" "sd_ItemSizes d = sd_ItemSizes d0"
  shows "\<exists>b' B' d'. unpack_updates um six pFrom (length xs) (concat (map (encode_item d0 F) xs) @ rest) b d = (Inr b', d') \<and>
      builder_ok b' B' \<and> distinct (map fst B') \<and> fst ` set B' = fst ` set B \<union> fst ` set xs \<and>
      (\<forall>k. map_of B' k = (if k \<in> fst ` set xs then map_of T k else map_of B k))"
  using assms(7-)
proof (induction xs arbitrary: b B d)
  case Nil
  then show ?case by auto
next
  case (Cons x xs)
  have dt: "distinct (map fst T)" using t(1) by (simp add: wf_items_def)
  have x: "x \<in> set T" using Cons.prems(2) by simp
  have mx: "map_of T (fst x) = Some (snd x)" using dt x by (metis map_of_eq_Some_iff prod.collapse)
  have enc: "encode_item d0 F = encode_item d F"
    using Cons.prems(7) by (simp add: encode_item_def include_size_def fun_eq_iff)
  note room = put_room [OF dt t(2,3) x Cons.prems(4,5,6)]
  obtain b1 d1 where u: "unpack_item um six pFrom (encode_item d F x @ concat (map (encode_item d0 F) xs) @ rest) b d =
      Inr (concat (map (encode_item d0 F) xs) @ rest, b1, d1)"
    and b1: "builder_ok b1 (put B (fst x) (snd x))" and d1: "sd_ItemSizes d1 = sd_ItemSizes d"
    using unpack_item_encoded [OF f t(1,3) sz Cons.prems(1) x Cons.prems(3) room] by blast
  note p = put_spec [OF Cons.prems(4), of "fst x" "snd x"]
  have s1: "sizes_agree d1 T" using Cons.prems(1) d1 by (simp add: sizes_agree_def include_size_def)
  have s2: "fst ` set (put B (fst x) (snd x)) \<subseteq> fst ` set T" using p(3) Cons.prems(5) x by auto
  have s3: "\<forall>k p c. map_of (put B (fst x) (snd x)) k = Some p \<longrightarrow> map_of T k = Some c \<longrightarrow> length p = length c"
    using Cons.prems(6) mx unfolding p(1) by auto
  obtain b' B' d' where r: "unpack_updates um six pFrom (length xs) (concat (map (encode_item d0 F) xs) @ rest) b1 d1 = (Inr b', d')"
      "builder_ok b' B'" "distinct (map fst B')" "fst ` set B' = fst ` set (put B (fst x) (snd x)) \<union> fst ` set xs"
      "\<forall>k. map_of B' k = (if k \<in> fst ` set xs then map_of T k else map_of (put B (fst x) (snd x)) k)"
    using Cons.IH [OF s1 _ b1 p(2) s2 s3] Cons.prems(2,7) d1 by auto
  have "unpack_updates um six pFrom (length (x # xs)) (concat (map (encode_item d0 F) (x # xs)) @ rest) b d = (Inr b', d')"
    using u r(1) by (simp add: enc)
  moreover have "\<forall>k. map_of B' k = (if k \<in> fst ` set (x # xs) then map_of T k else map_of B k)"
    using r(5) mx unfolding p(1) by auto
  moreover have "fst ` set B' = fst ` set B \<union> fst ` set (x # xs)" using r(4) p(3) by auto
  ultimately show ?case using r(2,3) by blast
qed

lemma map_of_filter_key: "map_of (filter (\<lambda>x. P (fst x)) xs) k = (if P k then map_of xs k else None)"
  by (induction xs) auto

text \<open>C25: deltas are correct. From the delta that \<open>CreateDelta\<close> makes of two well-formed snapshots whose
  common items have one size, \<open>UnpackDelta\<close> on the other side, with the same static sizes and the old
  snapshot, rebuilds a valid snapshot with exactly the items of the new one, and so with its checksum
  and number of items; the delta always fits its buffer, and its size is 0 exactly when the snapshots
  hold the same items. (No bucket of the hash lists overflows, which the code silently requires.)\<close>

theorem snapshot_delta_roundtrip:
  assumes "wf_snapshot pFrom" "wf_snapshot pTo" "buckets_fit (sn_items pFrom)" "buckets_fit (sn_items pTo)"
    "same_sizes (sn_items pFrom) (sn_items pTo)" "sizes_agree d (sn_items pTo)" "sd_ItemSizes d' = sd_ItemSizes d"
  shows "\<exists>n dl s d''. CreateDelta d pFrom pTo = Some (n, dl) \<and> 0 \<le> n \<and> n \<le> DELTA_MAX_SIZE \<and>
    (n = 0 \<longleftrightarrow> set (sn_items pFrom) = set (sn_items pTo)) \<and>
    UnpackDelta um six d' pFrom dl = (Inr (TotalSize s, s), d'') \<and> wf_snapshot s \<and>
    set (sn_items s) = set (sn_items pTo) \<and> sn_NumItems s = sn_NumItems pTo \<and> snap_Crc s = snap_Crc pTo"
proof -
  define F T where "F = sn_items pFrom" and "T = sn_items pTo"
  have f: "snap_view pFrom F" "wf_items F" and t: "snap_view pTo T" "wf_items T"
    using assms(1,2) wf_view unfolding F_def T_def wf_snapshot_def by blast+
  have sz: "same_sizes F T" and ag: "sizes_agree d' T"
    using assms(5-7) by (simp_all add: F_def T_def sizes_agree_def include_size_def)
  have dF: "distinct (map fst F)" and dT: "distinct (map fst T)" using f(2) t(2) by (simp_all add: wf_items_def)
  define U where "U = filter (changed F) T"
  define dl where "dl = \<lparr>dl_NumDeletedItems = int (length (removed F T)), dl_NumUpdateItems = int (length U),
       dl_NumTempItems = 0, dl_Data = removed F T @ concat (map (encode_item d F) U)\<rparr>"
  obtain n where n: "CreateDelta d pFrom pTo = Some (n, dl)" "n = 0 \<longleftrightarrow> set F = set T" "0 \<le> n" "n \<le> DELTA_MAX_SIZE"
    using CreateDelta_spec [OF f _ t _ sz, of d] assms(3,4) unfolding F_def [symmetric] T_def [symmetric] dl_def U_def by blast
  define B where "B = filter (\<lambda>x. fst x \<notin> set (removed F T)) F"
  have B_key: "fst x \<notin> set (removed F T) \<longleftrightarrow> fst x \<in> fst ` set T" if "x \<in> set F" for x
  proof -
    have "set (removed F T) = {k \<in> fst ` set F. k \<notin> fst ` set T}" by (auto simp: removed_def)
    then show ?thesis using imageI [OF that, of fst] by simp
  qed
  have B2: "B = filter (\<lambda>x. fst x \<in> fst ` set T) F" unfolding B_def by (rule filter_cong) (simp_all add: B_key)
  have mB: "map_of B k = (if k \<in> fst ` set T then map_of F k else None)" for k
    unfolding B2 by (rule map_of_filter_key)
  have dl': "0 \<le> dl_NumDeletedItems dl" "nat (dl_NumDeletedItems dl) \<le> length (dl_Data dl)" by (simp_all add: dl_def)
  obtain b1 where b1: "builder_ok b1 B" and u: "UnpackDelta um six d' pFrom dl =
      (case unpack_updates um six pFrom (length U) (concat (map (encode_item d F) U)) b1 d' of
         (Inl e, d1) \<Rightarrow> (Inl e, d1)
       | (Inr b2, d1) \<Rightarrow> (case builder_Finish b2 of Inl e \<Rightarrow> (Inl e, d1) | Inr (n, s, _) \<Rightarrow> (Inr (n, s), d1)))"
    using start_unpack [OF f dl', of um six d'] unfolding B_def by (auto simp: dl_def)
  have dB: "distinct (map fst B)" using filter_wf [OF f(2)] unfolding B_def wf_items_def by blast
  have sB: "fst ` set B \<subseteq> fst ` set T" unfolding B2 by auto
  have lB: "\<forall>k p c. map_of B k = Some p \<longrightarrow> map_of T k = Some c \<longrightarrow> length p = length c"
  proof (intro allI impI)
    fix k p c assume p: "map_of B k = Some p" and c: "map_of T k = Some c"
    from p have "map_of F k = Some p" by (simp add: mB split: if_splits)
    moreover have "(k, c) \<in> set T" using c by (rule map_of_SomeD)
    ultimately show "length p = length c" using sz unfolding same_sizes_def list_all_iff by fastforce
  qed
  have UT: "set U \<subseteq> set T" by (auto simp: U_def)
  have small: "length T \<le> 1024" "snap_total T \<le> 65536" using view_total [OF t(1)] by blast+
  obtain b2 C d1 where c: "unpack_updates um six pFrom (length U) (concat (map (encode_item d F) U)) b1 d' = (Inr b2, d1)"
      "builder_ok b2 C" "distinct (map fst C)" "fst ` set C = fst ` set B \<union> fst ` set U"
      "\<forall>k. map_of C k = (if k \<in> fst ` set U then map_of T k else map_of B k)"
    using unpack_updates_encoded [OF f t(2) small sz ag UT b1 dB sB lB assms(7), of um six "[]"] by auto
  have "map_of C k = map_of T k" for k
  proof (cases "k \<in> fst ` set U")
    case False
    have "map_of B k = map_of T k"
    proof (cases "map_of T k")
      case None
      then have "k \<notin> fst ` set T" by (simp only: map_of_eq_None_iff not_False_eq_True)
      then show ?thesis using None by (simp add: mB)
    next
      case (Some c)
      then have x: "(k, c) \<in> set T" by (rule map_of_SomeD)
      with False have "\<not> changed F (k, c)" unfolding U_def by force
      then show ?thesis using Some x by (force simp: mB changed_def)
    qed
    then show ?thesis using c(5) False by simp
  qed (use c(5) in simp)
  then have set: "set C = set T" using c(3) dT by (metis map_of_eq_Some_iff subrelI subset_antisym)
  then have "wf_items C" using t(2) c(3) by (simp add: wf_items_def)
  then obtain s b' where s: "builder_Finish b2 = Inr (TotalSize s, s, b')" "wf_snapshot s" "sn_items s = C" "snap_view s C"
    using finish_wf [OF c(2)] by blast
  have dd: "distinct C" "distinct T" using c(3) dT by (simp_all add: distinct_map)
  note cs = crc_set [OF dd set]
  have "UnpackDelta um six d' pFrom dl = (Inr (TotalSize s, s), d1)" by (simp add: u c(1) s(1))
  moreover have "snap_Crc s = snap_Crc pTo" using cs(1) Crc_of_view [OF s(4)] Crc_of_view [OF t(1)] by simp
  moreover have "sn_NumItems s = sn_NumItems pTo" using cs(2) s(4) t(1) by (simp add: snap_view_def)
  moreover have "set (sn_items s) = set T" using s(3) set by simp
  ultimately show ?thesis using n s(2) unfolding F_def T_def by blast
qed

definition old_snapshot :: snapshot where
  "old_snapshot = \<lparr>sn_DataSize = 20, sn_NumItems = 2, sn_Words = [0, 12, 262145, 5, 7, 327682, 1]\<rparr>"

definition new_snapshot :: snapshot where
  "new_snapshot = \<lparr>sn_DataSize = 24, sn_NumItems = 2, sn_Words = [0, 12, 262145, 5, 9, 4194307, 8, - 3]\<rparr>"

definition example_sizes :: snap_delta where
  "example_sizes = fresh_delta\<lparr>sd_ItemSizes := (replicate 64 0)[4 := 8]\<rparr>"

lemma few_fit: "length its \<le> 64 \<Longrightarrow> buckets_fit its"
  unfolding buckets_fit_def HASHLIST_BUCKET_SIZE_def by (meson length_filter_le order_trans)

lemma examples_wf: "wf_snapshot old_snapshot" "wf_snapshot new_snapshot" "statics_ok example_sizes"
  "sn_items old_snapshot = [(262145, [5, 7]), (327682, [1])]"
  "sn_items new_snapshot = [(262145, [5, 9]), (4194307, [8, - 3])]"
  by code_simp+

theorem snapshot_delta_roundtrip_witness:
  "\<forall>um six. \<exists>n dl s d''. CreateDelta example_sizes old_snapshot new_snapshot = Some (n, dl) \<and> n > 0 \<and>
    UnpackDelta um six example_sizes old_snapshot dl = (Inr (TotalSize s, s), d'') \<and>
    set (sn_items s) = {(262145, [5, 9]), (4194307, [8, - 3])}"
proof (intro allI)
  fix um six
  have same: "same_sizes (sn_items old_snapshot) (sn_items new_snapshot)" by code_simp
  have agree: "sizes_agree example_sizes (sn_items new_snapshot)" by code_simp
  have b: "buckets_fit (sn_items old_snapshot)" "buckets_fit (sn_items new_snapshot)"
    by (rule few_fit, simp add: examples_wf(4,5))+
  obtain n dl s d'' where c: "CreateDelta example_sizes old_snapshot new_snapshot = Some (n, dl)" "0 \<le> n"
      "n = 0 \<longleftrightarrow> set (sn_items old_snapshot) = set (sn_items new_snapshot)"
      "UnpackDelta um six example_sizes old_snapshot dl = (Inr (TotalSize s, s), d'')"
      "set (sn_items s) = set (sn_items new_snapshot)"
    using snapshot_delta_roundtrip [OF examples_wf(1,2) b same agree refl, of um six] by blast
  have "(262145, [5, 9]) \<notin> set (sn_items old_snapshot)" "(262145, [5, 9]) \<in> set (sn_items new_snapshot)"
    by (simp_all add: examples_wf(4,5))
  then have "n \<noteq> 0" using c(3) by metis
  with c show "\<exists>n dl s d''. CreateDelta example_sizes old_snapshot new_snapshot = Some (n, dl) \<and> n > 0 \<and>
    UnpackDelta um six example_sizes old_snapshot dl = (Inr (TotalSize s, s), d'') \<and>
    set (sn_items s) = {(262145, [5, 9]), (4194307, [8, - 3])}"
    by (intro exI [of _ n] exI [of _ dl] exI [of _ s] exI [of _ d'']) (simp add: examples_wf(5))
qed


end
