(* ===== verification/NetServer.thy ===== *)
theory NetServer
  imports NetLink
begin

text \<open>
  The server side of the network engine (\<open>CNetServer\<close> in src/src/engine/shared/network_server.cpp,
  network_ddpp.cpp and network.h): 128 slots with a connection each, the handshakes of DDNet, of
  vanilla 0.6 and of 0.7, the limits against floods, and the receive loop. The ban list is the
  parameter \<open>se_IsBanned\<close>, SHA-256 is \<open>se_Sha256\<close>. The callbacks of the engine are \<open>se_Callback\<close>: what
  they do to the network server is the list of chunks they send. \<open>ns_Sent\<close> is the log of the
  datagrams that are sent outside a connection, \<open>ns_Events\<close> that of the callbacks. The datagrams that
  wait in the socket are an argument of \<open>Recv\<close>.
\<close>

subsection \<open>State\<close>

definition NETSENDFLAG_VITAL :: int where "NETSENDFLAG_VITAL = 1"
definition NETSENDFLAG_CONNLESS :: int where "NETSENDFLAG_CONNLESS = 2"
definition NETSENDFLAG_FLUSH :: int where "NETSENDFLAG_FLUSH = 4"
definition NETSENDFLAG_EXTENDED :: int where "NETSENDFLAG_EXTENDED = 8"
definition NET_MAX_CONNLESS_PAYLOAD :: nat where "NET_MAX_CONNLESS_PAYLOAD = NET_MAX_PACKETSIZE - 6"
definition NET_MAX_CLIENTS :: nat where "NET_MAX_CLIENTS = 128"
definition NET_CONNLIMIT_IPS :: nat where "NET_CONNLIMIT_IPS = 256"

definition NETMSG_MAP_CHANGE :: int where "NETMSG_MAP_CHANGE = 2"
definition NETMSG_MAP_DATA :: int where "NETMSG_MAP_DATA = 3"
definition NETMSG_CON_READY :: int where "NETMSG_CON_READY = 4"
definition NETMSG_SNAPEMPTY :: int where "NETMSG_SNAPEMPTY = 6"
definition NETMSG_INPUT :: int where "NETMSG_INPUT = 16"

lemmas server_consts = NETSENDFLAG_VITAL_def NETSENDFLAG_CONNLESS_def NETSENDFLAG_FLUSH_def
  NETSENDFLAG_EXTENDED_def NET_MAX_CONNLESS_PAYLOAD_def NET_MAX_CLIENTS_def NET_CONNLIMIT_IPS_def

record srv_chunk = net_chunk +
  nc_ExtraData :: bytes

record spam_conn =
  sc_Addr :: netaddr
  sc_Time :: int
  sc_LastSeen :: int
  sc_Conns :: int

datatype srv_event = NewClient nat bool | NewClientNoAuth nat | ClientRejoin nat bool bool | DelClient nat reason

record net_server =
  ns_Slots :: "conn list"
  ns_MaxClients :: nat
  ns_MaxClientsPerIp :: int
  ns_FlushBatch :: bool
  ns_FlushPending :: "bool list"
  ns_NewClient :: bool
  ns_NewClientNoAuth :: bool
  ns_DelClient :: bool
  ns_ClientRejoin :: bool
  ns_SecurityTokenSeed :: bytes
  ns_VConnFirst :: int
  ns_VConnNum :: int
  ns_NumRecvPackets :: int
  ns_BudgetStart :: int
  ns_NumPreConnDecompress :: int
  ns_NumBanReplies :: int
  ns_SpamConns :: "spam_conn list"
  ns_Unpacker :: chunk_unpacker
  ns_RecvBuffer :: net_packet
  ns_Sent :: "(netaddr \<times> bytes) list"
  ns_Events :: "srv_event list"

record srv_env =
  se_Net :: net_env
  se_Sha256 :: "bytes \<Rightarrow> bytes"
  se_IsBanned :: "netaddr \<Rightarrow> bytes option"
  se_Callback :: "srv_event \<Rightarrow> net_server \<Rightarrow> srv_chunk list"
  se_SvSixup :: bool
  se_SvConnlimit :: int
  se_SvConnlimitTime :: int
  se_SvVanillaAntiSpoof :: bool
  se_Password :: bytes
  se_SvVanConnPerSecond :: int
  se_SvVanConnRepliesPerSecond :: int
  se_SvMaxPacketsPerRecv :: int
  se_SvBanRepliesPerSecond :: int
  se_SvPreConnDecompressPerSecond :: int

definition slot_state :: "net_server \<Rightarrow> nat \<Rightarrow> estate" where
  "slot_state s i = c_State (ns_Slots s ! i)"

definition set_slot :: "nat \<Rightarrow> conn \<Rightarrow> net_server \<Rightarrow> net_server" where
  "set_slot i c s = s\<lparr>ns_Slots := (ns_Slots s)[i := c]\<rparr>"

text \<open>An array access: \<open>None\<close> outside of \<open>m_aSlots\<close>.\<close>

definition slot_at :: "nat \<Rightarrow> net_server \<Rightarrow> conn option" where
  "slot_at i s = (if i < length (ns_Slots s) then Some (ns_Slots s ! i) else None)"

definition ids :: "net_server \<Rightarrow> nat list" where
  "ids s = [0..<ns_MaxClients s]"

definition srv_Open :: "bytes \<Rightarrow> int \<Rightarrow> int \<Rightarrow> net_server" where
  "srv_Open seed MaxClients MaxClientsPerIp =
     \<lparr>ns_Slots = replicate NET_MAX_CLIENTS (conn_Init True blank_conn),
      ns_MaxClients = nat (max 1 (min MaxClients (int NET_MAX_CLIENTS))), ns_MaxClientsPerIp = MaxClientsPerIp,
      ns_FlushBatch = False, ns_FlushPending = replicate NET_MAX_CLIENTS False,
      ns_NewClient = False, ns_NewClientNoAuth = False, ns_DelClient = False, ns_ClientRejoin = False,
      ns_SecurityTokenSeed = seed, ns_VConnFirst = 0, ns_VConnNum = 0,
      ns_NumRecvPackets = 0, ns_BudgetStart = 0, ns_NumPreConnDecompress = 0, ns_NumBanReplies = 0,
      ns_SpamConns = replicate NET_CONNLIMIT_IPS \<lparr>sc_Addr = NETADDR_ZEROED, sc_Time = 0, sc_LastSeen = 0, sc_Conns = 0\<rparr>,
      ns_Unpacker = \<lparr>cu_Valid = False, cu_Addr = NETADDR_ZEROED, cu_CurrentChunk = 0, cu_CurrentOffset = 0,
                     cu_ClientId = 0, cu_Data = zero_packet\<rparr>,
      ns_RecvBuffer = zero_packet, ns_Sent = [], ns_Events = []\<rparr>"

definition SetCallbacks :: "net_server \<Rightarrow> net_server" where
  "SetCallbacks s = s\<lparr>ns_NewClient := True, ns_DelClient := True\<rparr>"

definition SetCallbacksFull :: "net_server \<Rightarrow> net_server" where
  "SetCallbacksFull s = s\<lparr>ns_NewClient := True, ns_NewClientNoAuth := True, ns_ClientRejoin := True, ns_DelClient := True\<rparr>"

definition SetMaxClientsPerIp :: "int \<Rightarrow> net_server \<Rightarrow> net_server" where
  "SetMaxClientsPerIp MaxClients s = s\<lparr>ns_MaxClientsPerIp := max 1 (min MaxClients (int NET_MAX_CLIENTS))\<rparr>"

subsection \<open>Sending\<close>

definition srv_control :: "srv_env \<Rightarrow> netaddr \<Rightarrow> byte \<Rightarrow> bytes \<Rightarrow> token \<Rightarrow> bool \<Rightarrow> net_server \<Rightarrow> net_server option" where
  "srv_control E Addr ControlMsg extra SecurityToken Sixup s = do {
     bs \<leftarrow> run (SendControlMsg (e_Huffman (se_Net E)) 0 ControlMsg extra SecurityToken Sixup);
     Some (s\<lparr>ns_Sent := ns_Sent s @ [(Addr, bs)]\<rparr>) }"

definition srv_SendControl :: "srv_env \<Rightarrow> netaddr \<Rightarrow> byte \<Rightarrow> bytes \<Rightarrow> token \<Rightarrow> net_server \<Rightarrow> net_server option" where
  "srv_SendControl E Addr ControlMsg extra SecurityToken s = srv_control E Addr ControlMsg extra SecurityToken False s"

definition AssertSizeSanity :: "srv_chunk \<Rightarrow> bool" where
  "AssertSizeSanity ch \<longleftrightarrow>
     (if nc_Flags ch AND NETSENDFLAG_CONNLESS \<noteq> 0 then length (nc_Data ch) \<le> NET_MAX_CONNLESS_PAYLOAD
      else length (nc_Data ch) \<le> NET_MAX_CHUNK_SIZE)"

definition srv_Send :: "srv_env \<Rightarrow> srv_chunk \<Rightarrow> net_server \<Rightarrow> (int \<times> net_server) option" where
  "srv_Send E ch s =
     (if \<not> AssertSizeSanity ch then None
      else if nc_Flags ch AND NETSENDFLAG_CONNLESS \<noteq> 0 then do {
        bs \<leftarrow> run (SendPacketConnless (nc_Data ch) (nc_Flags ch AND NETSENDFLAG_EXTENDED \<noteq> 0) (nc_ExtraData ch));
        Some (0, s\<lparr>ns_Sent := ns_Sent s @ [(nc_Address ch, bs)]\<rparr>) }
      else if nc_ClientId ch < 0 \<or> nc_ClientId ch \<ge> int (length (ns_Slots s)) then None
      else
        let i = nat (nc_ClientId ch) in
        if slot_state s i = BOT then Some (- 1, s)
        else if nc_ClientId ch \<ge> int (ns_MaxClients s) then None
        else do {
          (r, c) \<leftarrow> QueueChunk (se_Net E) (if nc_Flags ch AND NETSENDFLAG_VITAL \<noteq> 0 then NET_CHUNKFLAG_VITAL else 0)
                      (nc_Data ch) (ns_Slots s ! i);
          if r = 0 \<and> nc_Flags ch AND NETSENDFLAG_FLUSH \<noteq> 0 then
            (if ns_FlushBatch s then Some (0, (set_slot i c s)\<lparr>ns_FlushPending := (ns_FlushPending s)[i := True]\<rparr>)
             else do { (n, c1) \<leftarrow> Flush (se_Net E) c; Some (0, set_slot i c1 s) })
          else Some (0, set_slot i c s) })"

fun send_all :: "srv_env \<Rightarrow> srv_chunk list \<Rightarrow> net_server \<Rightarrow> net_server option" where
  "send_all E [] s = Some s"
| "send_all E (ch # chs) s = (case srv_Send E ch s of None \<Rightarrow> None | Some (r, s1) \<Rightarrow> send_all E chs s1)"

definition callback :: "srv_env \<Rightarrow> srv_event \<Rightarrow> net_server \<Rightarrow> net_server option" where
  "callback E ev s = send_all E (se_Callback E ev s) (s\<lparr>ns_Events := ns_Events s @ [ev]\<rparr>)"

subsection \<open>Dropping, updating, flushing\<close>

definition srv_Drop :: "srv_env \<Rightarrow> nat \<Rightarrow> reason \<Rightarrow> net_server \<Rightarrow> net_server option" where
  "srv_Drop E ClientId pReason s = do {
     s1 \<leftarrow> (if ns_DelClient s then callback E (DelClient ClientId pReason) s else Some s);
     c \<leftarrow> slot_at ClientId s1;
     c1 \<leftarrow> Disconnect (se_Net E) pReason c;
     Some (set_slot ClientId c1 s1) }"

text \<open>A slot whose connection is broken for good.\<close>

definition gone :: "conn \<Rightarrow> bool" where
  "gone c \<longleftrightarrow> c_State c = ERROR \<and> (\<not> c_TimeoutProtected c \<or> \<not> c_TimeoutSituation c)"

fun update_slots :: "srv_env \<Rightarrow> nat list \<Rightarrow> net_server \<Rightarrow> net_server option" where
  "update_slots E [] s = Some s"
| "update_slots E (i # is) s =
     (case slot_at i s of None \<Rightarrow> None
      | Some c \<Rightarrow>
         (case conn_Update (se_Net E) c of None \<Rightarrow> None
          | Some c1 \<Rightarrow>
             (case (if gone c1 then srv_Drop E i OwnErrorString (set_slot i c1 s) else Some (set_slot i c1 s)) of
                None \<Rightarrow> None | Some s1 \<Rightarrow> update_slots E is s1)))"

definition srv_Update :: "srv_env \<Rightarrow> net_server \<Rightarrow> net_server option" where
  "srv_Update E s =
     (let Now = e_Now (se_Net E);
          s1 = s\<lparr>ns_NumRecvPackets := 0\<rparr>;
          s2 = (if Now > ns_BudgetStart s + e_Freq (se_Net E)
                then s1\<lparr>ns_BudgetStart := Now, ns_NumPreConnDecompress := 0, ns_NumBanReplies := 0\<rparr> else s1)
      in update_slots E (ids s2) s2)"

definition BeginFlushBatch :: "net_server \<Rightarrow> net_server" where
  "BeginFlushBatch s = s\<lparr>ns_FlushBatch := True\<rparr>"

fun flush_slots :: "srv_env \<Rightarrow> nat list \<Rightarrow> net_server \<Rightarrow> net_server option" where
  "flush_slots E [] s = Some s"
| "flush_slots E (i # is) s =
     (if \<not> ns_FlushPending s ! i then flush_slots E is s
      else
        let s1 = s\<lparr>ns_FlushPending := (ns_FlushPending s)[i := False]\<rparr> in
        case slot_at i s1 of None \<Rightarrow> None
        | Some c \<Rightarrow>
            if c_State c = ONLINE then
              (case Flush (se_Net E) c of None \<Rightarrow> None | Some (n, c1) \<Rightarrow> flush_slots E is (set_slot i c1 s1))
            else flush_slots E is s1)"

definition EndFlushBatch :: "srv_env \<Rightarrow> net_server \<Rightarrow> net_server option" where
  "EndFlushBatch E s = flush_slots E (ids s) (s\<lparr>ns_FlushBatch := False\<rparr>)"

subsection \<open>Tokens\<close>

text \<open>The first twenty bytes of a \<open>NETADDR\<close> in memory, on a little-endian machine.\<close>

definition addr_bytes :: "netaddr \<Rightarrow> bytes" where
  "addr_bytes a = map (\<lambda>i. ucast (drop_bit (8 * i) (na_type a))) [0..<4] @ na_ip a"

definition srv_GetToken :: "srv_env \<Rightarrow> net_server \<Rightarrow> netaddr \<Rightarrow> token" where
  "srv_GetToken E s Addr =
     (let SecurityToken = ToSecurityToken (se_Sha256 E (ns_SecurityTokenSeed s @ addr_bytes Addr)) in
      if SecurityToken = NET_SECURITY_TOKEN_UNKNOWN \<or> SecurityToken = NET_SECURITY_TOKEN_UNSUPPORTED then 1
      else SecurityToken)"

definition GetGlobalToken :: "srv_env \<Rightarrow> net_server \<Rightarrow> token" where
  "GetGlobalToken E s = srv_GetToken E s NETADDR_ZEROED"

definition GetVanillaToken :: "srv_env \<Rightarrow> net_server \<Rightarrow> netaddr \<Rightarrow> token" where
  "GetVanillaToken E s Addr = (let t = srv_GetToken E s Addr in if sint t < 0 then - t else t)"

definition SendTokenSixup :: "srv_env \<Rightarrow> netaddr \<Rightarrow> token \<Rightarrow> net_server \<Rightarrow> net_server option" where
  "SendTokenSixup E Addr Token s =
     (let aRequestTokenBuf = WriteSecurityToken (srv_GetToken E s Addr) @ replicate (NET_TOKENREQUEST_DATASIZE - 4) 0;
          Size = (if Token = NET_SECURITY_TOKEN_UNKNOWN then NET_TOKENREQUEST_DATASIZE else 4)
      in srv_control E Addr NET_CTRLMSG_TOKEN (take Size aRequestTokenBuf) Token True s)"

subsection \<open>Accepting clients\<close>

definition NumClientsWithAddr :: "netaddr \<Rightarrow> net_server \<Rightarrow> nat" where
  "NumClientsWithAddr Addr s =
     length (filter (\<lambda>i. \<not> (slot_state s i = OFFLINE \<or> gone (ns_Slots s ! i)) \<and>
       net_addr_comp_noport Addr (c_PeerAddr (ns_Slots s ! i)) = 0) (ids s))"

fun connlimit_loop :: "srv_env \<Rightarrow> netaddr \<Rightarrow> nat list \<Rightarrow> nat \<Rightarrow> spam_conn list \<Rightarrow> bool \<times> spam_conn list" where
  "connlimit_loop E Addr [] Oldest sp =
     (False, sp[Oldest := \<lparr>sc_Addr = Addr, sc_Time = e_Now (se_Net E), sc_LastSeen = e_Now (se_Net E), sc_Conns = 1\<rparr>])"
| "connlimit_loop E Addr (i # is) Oldest sp =
     (if net_addr_comp_noport (sc_Addr (sp ! i)) Addr = 0 then
        (let Now = e_Now (se_Net E); x = (sp ! i)\<lparr>sc_LastSeen := Now\<rparr> in
         if sc_Time x > Now - e_Freq (se_Net E) * se_SvConnlimitTime E then
           (if sc_Conns x \<ge> se_SvConnlimit E then (True, sp[i := x])
            else (False, sp[i := x\<lparr>sc_Conns := sc_Conns x + 1\<rparr>]))
         else (False, sp[i := x\<lparr>sc_Time := Now, sc_Conns := 0 + 1\<rparr>]))
      else connlimit_loop E Addr is (if sc_LastSeen (sp ! i) < sc_LastSeen (sp ! Oldest) then i else Oldest) sp)"

definition Connlimit :: "srv_env \<Rightarrow> netaddr \<Rightarrow> net_server \<Rightarrow> bool \<times> net_server" where
  "Connlimit E Addr s =
     (let (limited, sp) = connlimit_loop E Addr [0..<NET_CONNLIMIT_IPS] 0 (ns_SpamConns s)
      in (limited, s\<lparr>ns_SpamConns := sp\<rparr>))"

definition free_slot :: "net_server \<Rightarrow> nat option" where
  "free_slot s = find (\<lambda>i. slot_state s i = OFFLINE) (ids s)"

text \<open>The connection slot is set up and the engine is told.\<close>

definition init_slot :: "srv_env \<Rightarrow> netaddr \<Rightarrow> token \<Rightarrow> nat \<Rightarrow> bool \<Rightarrow> bool \<Rightarrow> bool \<Rightarrow> token \<Rightarrow> net_server \<Rightarrow> net_server option" where
  "init_slot E Addr SecurityToken Slot Reconnect VanillaAuth Sixup Token s = do {
     c \<leftarrow> slot_at Slot s;
     c1 \<leftarrow> DirectInit (se_Net E) Addr SecurityToken Token Sixup c;
     s1 \<leftarrow> Some (set_slot Slot (if VanillaAuth then SetSequence 6 (SetUnknownSeq c1) else c1) s);
     if Reconnect then (if ns_ClientRejoin s1 then callback E (ClientRejoin Slot Sixup VanillaAuth) s1 else None)
     else if VanillaAuth then (if ns_NewClientNoAuth s1 then callback E (NewClientNoAuth Slot) s1 else None)
     else (if ns_NewClient s1 then callback E (NewClient Slot Sixup) s1 else None) }"

definition TryAcceptClient :: "srv_env \<Rightarrow> netaddr \<Rightarrow> token \<Rightarrow> nat option \<Rightarrow> bool \<Rightarrow> bool \<Rightarrow> token \<Rightarrow> net_server \<Rightarrow> net_server option" where
  "TryAcceptClient E Addr SecurityToken Slot VanillaAuth Sixup Token s =
     (if Sixup \<and> \<not> se_SvSixup E then
        srv_control E Addr NET_CTRLMSG_CLOSE (lit ''0.7 connections are not accepted at this time'' @ [0]) SecurityToken Sixup s
      else
        let (limited, s1) = Connlimit E Addr s in
        if limited then
          (if Slot = None then
             srv_control E Addr NET_CTRLMSG_CLOSE (lit ''Too many connections in a short time'' @ [0]) SecurityToken Sixup s1
           else Some s1)
        else
          case Slot of
            Some i \<Rightarrow> init_slot E Addr SecurityToken i True VanillaAuth Sixup Token s1
          | None \<Rightarrow>
              if int (NumClientsWithAddr Addr s1) + 1 > ns_MaxClientsPerIp s1 then
                srv_control E Addr NET_CTRLMSG_CLOSE
                  (str_copy (lit ''Only '' @ int_text (ns_MaxClientsPerIp s1) @ lit '' players with the same IP are allowed'') 128 @ [0])
                  SecurityToken Sixup s1
              else
                (case free_slot s1 of
                   None \<Rightarrow> srv_control E Addr NET_CTRLMSG_CLOSE (lit ''This server is full'' @ [0]) SecurityToken Sixup s1
                 | Some i \<Rightarrow> init_slot E Addr SecurityToken i False VanillaAuth Sixup Token s1))"

subsection \<open>The vanilla handshake\<close>

definition g_DummyMapCrc :: int where "g_DummyMapCrc = 0x6AF73DAF"

definition g_aDummyMapData :: bytes where
  "g_aDummyMapData = [68, 65, 84, 65, 4, 0, 0, 0, 16, 1, 0, 0, 244, 0, 0, 0, 2, 0, 0, 0, 3, 0, 0, 0, 2, 0, 0, 0, 172, 0, 0,
   0, 28, 0, 0, 0, 4, 0, 0, 0, 0, 0, 0, 0, 1, 0, 0, 0, 5, 0, 0, 0, 1, 0, 0, 0, 2, 0, 0, 0, 0, 0, 0, 0,
   36, 0, 0, 0, 104, 0, 0, 0, 0, 0, 0, 0, 14, 0, 0, 0, 16, 0, 0, 0, 16, 0, 0, 0, 0, 0, 4, 0, 28, 0, 0,
   0, 1, 0, 0, 0, 0, 0, 0, 0, 0, 0, 0, 0, 0, 0, 0, 0, 0, 0, 0, 0, 0, 0, 0, 0, 2, 0, 0, 0, 0, 0, 5, 0,
   60, 0, 0, 0, 0, 0, 0, 0, 2, 0, 0, 0, 0, 0, 0, 0, 2, 0, 0, 0, 2, 0, 0, 0, 2, 0, 0, 0, 1, 0, 0, 0, 255,
   0, 0, 0, 255, 0, 0, 0, 255, 0, 0, 0, 255, 0, 0, 0, 255, 255, 255, 255, 0, 0, 0, 0, 255, 255, 255,
   255, 0, 0, 0, 0, 1, 0, 5, 0, 60, 0, 0, 0, 0, 0, 0, 0, 2, 0, 0, 0, 0, 0, 0, 0, 2, 0, 0, 0, 2, 0, 0, 0,
   2, 0, 0, 0, 0, 0, 0, 0, 255, 0, 0, 0, 255, 0, 0, 0, 255, 0, 0, 0, 255, 0, 0, 0, 255, 255, 255, 255,
   0, 0, 0, 0, 255, 255, 255, 255, 1, 0, 0, 0, 120, 156, 99, 100, 96, 96, 96, 68, 194, 0, 0, 56, 0, 5,
   120, 156, 99, 100, 96, 96, 96, 68, 194, 0, 0, 56, 0, 5]"

fun pack_msgs :: "int \<Rightarrow> bytes list \<Rightarrow> net_packet \<Rightarrow> net_packet option" where
  "pack_msgs Sequence [] p = Some p"
| "pack_msgs Sequence (m # ms) p =
     (case chunk_Pack \<lparr>ch_Flags = NET_CHUNKFLAG_VITAL, ch_Size = int (length m), ch_Sequence = Sequence\<rparr> 4 of
        Inl e \<Rightarrow> None
      | Inr hdr \<Rightarrow>
          (case mem_write (pk_ChunkData p) (pk_DataSize p) (hdr @ m) of Inl e \<Rightarrow> None
           | Inr d \<Rightarrow> pack_msgs (Sequence + 1) ms
               (p\<lparr>pk_ChunkData := d, pk_DataSize := pk_DataSize p + length (hdr @ m), pk_NumChunks := pk_NumChunks p + 1\<rparr>)))"

definition SendMsgs :: "srv_env \<Rightarrow> netaddr \<Rightarrow> bytes list \<Rightarrow> net_server \<Rightarrow> net_server option" where
  "SendMsgs E Addr msgs s =
     (if msgs = [] \<or> length msgs > NET_MAX_PACKET_CHUNKS then None
      else do {
        p \<leftarrow> pack_msgs 1 msgs zero_packet;
        (bs, _) \<leftarrow> run (SendPacket (e_Huffman (se_Net E)) p NET_SECURITY_TOKEN_UNSUPPORTED False);
        Some (s\<lparr>ns_Sent := ns_Sent s @ [(Addr, bs)]\<rparr>) })"

definition packed :: "(packer \<Rightarrow> packer) \<Rightarrow> bytes" where
  "packed f = m_Packed (f \<lparr>m_BufferSize = PACKER_BUFFER_SIZE, m_Packed = [], m_PackError = False\<rparr>)"

definition MapChangeMsg :: "bool \<Rightarrow> bytes" where
  "MapChangeMsg Flooding = packed (\<lambda>p.
     let p1 = AddInt p (NETMSG_MAP_CHANGE * 2 + 1) in
     if Flooding then AddInt (AddInt (AddString p1 (lit ''dm1'') 0 True) (to_i32 0xf2159e6e)) 5805
     else AddInt (AddInt (AddString p1 (lit ''dummy'') 0 True) g_DummyMapCrc) (int (length g_aDummyMapData)))"

definition MapDataMsg :: "bool \<Rightarrow> bytes" where
  "MapDataMsg Flooding = packed (\<lambda>p.
     let p1 = AddInt p (NETMSG_MAP_DATA * 2 + 1) in
     if Flooding then AddInt (AddInt (AddInt (AddInt p1 1) 0) 0) 0
     else AddRaw (AddInt (AddInt (AddInt (AddInt p1 1) g_DummyMapCrc) 0) (int (length g_aDummyMapData))) g_aDummyMapData)"

definition ConReadyMsg :: bytes where
  "ConReadyMsg = packed (\<lambda>p. AddInt p (NETMSG_CON_READY * 2 + 1))"

definition SnapEmptyMsg :: "token \<Rightarrow> bytes" where
  "SnapEmptyMsg SecurityToken = packed (\<lambda>p.
     AddInt (AddInt (AddInt p (NETMSG_SNAPEMPTY * 2 + 1)) (sint SecurityToken)) (to_i32 (sint SecurityToken + 1)))"

definition anti_spoof :: "srv_env \<Rightarrow> bool" where
  "anti_spoof E \<longleftrightarrow> se_SvVanillaAntiSpoof E \<and> se_Password E = []"

text \<open>The answer to a connect without token: the map and the token in the tick of an empty snapshot.\<close>

definition vanilla_connect :: "srv_env \<Rightarrow> netaddr \<Rightarrow> nat option \<Rightarrow> net_server \<Rightarrow> net_server option" where
  "vanilla_connect E Addr Slot s =
     (let Now = e_Now (se_Net E);
          s1 = (if Now > ns_VConnFirst s + e_Freq (se_Net E) then s\<lparr>ns_VConnFirst := Now, ns_VConnNum := 0\<rparr> else s);
          s2 = s1\<lparr>ns_VConnNum := ns_VConnNum s1 + 1\<rparr> in
      if se_SvVanConnRepliesPerSecond E \<noteq> 0 \<and> ns_VConnNum s2 > se_SvVanConnRepliesPerSecond E then Some s2
      else
        let Flooding = (se_SvVanConnPerSecond E \<noteq> 0 \<and> ns_VConnNum s2 > se_SvVanConnPerSecond E);
            s3 = (case Slot of None \<Rightarrow> s2
                  | Some i \<Rightarrow> set_slot i ((ns_Slots s2 ! i)\<lparr>c_SecurityToken := NET_SECURITY_TOKEN_UNKNOWN\<rparr>) s2) in
        do {
          s4 \<leftarrow> srv_SendControl E Addr NET_CTRLMSG_CONNECTACCEPT [] NET_SECURITY_TOKEN_UNSUPPORTED s3;
          let snap = SnapEmptyMsg (GetVanillaToken E s4 Addr);
          SendMsgs E Addr [MapChangeMsg Flooding, MapDataMsg Flooding, ConReadyMsg, snap, snap, snap] s4 })"

text \<open>A chunk that is not a control message from an address that is not verified yet.\<close>

definition vanilla_input :: "srv_env \<Rightarrow> netaddr \<Rightarrow> net_packet \<Rightarrow> nat option \<Rightarrow> net_server \<Rightarrow> net_server option" where
  "vanilla_input E Addr Packet Slot s =
     (if pk_DataSize Packet < 2 then Some s
      else
        let (Header, n) = chunk_Unpack (pk_ChunkData Packet) 4;
            Remaining = int (pk_DataSize Packet) - int n in
        if Remaining < 0 then Some s
        else
          let u = unpacker_Reset (take (nat (min (ch_Size Header) Remaining)) (drop n (pk_ChunkData Packet)));
              (m, u1) = GetInt u;
              Msg = drop_bit 1 m in
          if Msg = NETMSG_INPUT then
            (let (SecurityToken, u2) = GetInt u1 in
             if SecurityToken = sint (GetVanillaToken E s Addr)
             then TryAcceptClient E Addr NET_SECURITY_TOKEN_UNSUPPORTED Slot True False 0 s
             else Some s)
          else Some s)"

definition OnPreConnMsg :: "srv_env \<Rightarrow> netaddr \<Rightarrow> net_packet \<Rightarrow> nat option \<Rightarrow> net_server \<Rightarrow> net_server option" where
  "OnPreConnMsg E Addr Packet Slot s =
     (let IsCtrl = (pk_Flags Packet AND NET_PACKETFLAG_CONTROL \<noteq> 0);
          CtrlMsg = pk_ChunkData Packet ! 0;
          NewAuthOrRejoin = (case Slot of None \<Rightarrow> True
            | Some i \<Rightarrow> c_SecurityToken (ns_Slots s ! i) = NET_SECURITY_TOKEN_UNKNOWN \<or>
                 (IsCtrl \<and> c_SecurityToken (ns_Slots s ! i) = NET_SECURITY_TOKEN_UNSUPPORTED)) in
      if \<not> NewAuthOrRejoin then Some s
      else if IsCtrl \<and> CtrlMsg = NET_CTRLMSG_CONNECT then
        (if anti_spoof E then vanilla_connect E Addr Slot s
         else do {
           s1 \<leftarrow> srv_SendControl E Addr NET_CTRLMSG_CONNECTACCEPT [] NET_SECURITY_TOKEN_UNSUPPORTED s;
           TryAcceptClient E Addr NET_SECURITY_TOKEN_UNSUPPORTED Slot False False 0 s1 })
      else if \<not> IsCtrl \<and> anti_spoof E then vanilla_input E Addr Packet Slot s
      else Some s)"

subsection \<open>The handshakes with tokens\<close>

definition OnTokenCtrlMsg :: "srv_env \<Rightarrow> netaddr \<Rightarrow> byte \<Rightarrow> net_packet \<Rightarrow> nat option \<Rightarrow> net_server \<Rightarrow> net_server option" where
  "OnTokenCtrlMsg E Addr ControlMsg Packet Slot s =
     (if ControlMsg = NET_CTRLMSG_CONNECT then
        srv_SendControl E Addr NET_CTRLMSG_CONNECTACCEPT SECURITY_TOKEN_MAGIC (srv_GetToken E s Addr) s
      else if ControlMsg = NET_CTRLMSG_ACCEPT then
        (let Token = ToSecurityToken (drop 1 (pk_ChunkData Packet)) in
         if Token = srv_GetToken E s Addr then TryAcceptClient E Addr Token Slot False False 0 s else Some s)
      else Some s)"

text \<open>The value returned, the response token and the server; 1 hands the packet to the caller.\<close>

definition OnSixupCtrlMsg :: "srv_env \<Rightarrow> netaddr \<Rightarrow> byte \<Rightarrow> net_packet \<Rightarrow> token \<Rightarrow> token \<Rightarrow> nat option \<Rightarrow> net_server \<Rightarrow>
    (int \<times> token \<times> net_server) option" where
  "OnSixupCtrlMsg E Addr ControlMsg Packet ResponseToken Token Slot s =
     (if pk_DataSize Packet < 1 + 4 then Some (0, ResponseToken, s)
      else
        let Resp = ToSecurityToken (drop 1 (pk_ChunkData Packet)) in
        if ControlMsg = NET_CTRLMSG_TOKEN then
          (if pk_DataSize Packet \<ge> NET_TOKENREQUEST_DATASIZE then do {
             s1 \<leftarrow> SendTokenSixup E Addr Resp s; Some (0, Resp, s1) }
           else Some (1, Resp, s))
        else if ControlMsg = NET_CTRLMSG_CONNECT then
          (let MyToken = srv_GetToken E s Addr in do {
             s1 \<leftarrow> srv_control E Addr NET_CTRLMSG_CONNECTACCEPT (rev (WriteSecurityToken MyToken)) Resp True s;
             s2 \<leftarrow> (if Token = MyToken then TryAcceptClient E Addr Resp Slot False True Token s1 else Some s1);
             Some (0, Resp, s2) })
        else Some (0, Resp, s))"

definition GetClientSlot :: "netaddr \<Rightarrow> net_server \<Rightarrow> nat option" where
  "GetClientSlot Addr s =
     find (\<lambda>i. slot_state s i \<noteq> OFFLINE \<and> slot_state s i \<noteq> ERROR \<and> net_addr_comp (c_PeerAddr (ns_Slots s ! i)) Addr = 0) (ids s)"

definition IsDDNetControlMsg :: "net_packet \<Rightarrow> bool" where
  "IsDDNetControlMsg p \<longleftrightarrow>
     pk_Flags p AND NET_PACKETFLAG_CONTROL \<noteq> 0 \<and> \<not> pk_DataSize p < 1 \<and>
     (pk_ChunkData p ! 0 = NET_CTRLMSG_CONNECT \<and> pk_DataSize p \<ge> 1 + length SECURITY_TOKEN_MAGIC + 4 \<and>
        take (length SECURITY_TOKEN_MAGIC) (drop 1 (pk_ChunkData p)) = SECURITY_TOKEN_MAGIC \<or>
      pk_ChunkData p ! 0 = NET_CTRLMSG_ACCEPT \<and> pk_DataSize p \<ge> 1 + 4)"

subsection \<open>Receiving\<close>

text \<open>The next chunk of the packet that is stored, if the client is still there.\<close>

definition stored_chunk :: "net_server \<Rightarrow> (srv_chunk option \<times> net_server) option" where
  "stored_chunk s =
     (if \<not> cu_Valid (ns_Unpacker s) then Some (None, s)
      else do {
        c \<leftarrow> slot_at (nat (cu_ClientId (ns_Unpacker s))) s;
        let (x, u, c1) = UnpackNextChunk (ns_Unpacker s) c;
        let s1 = set_slot (nat (cu_ClientId (ns_Unpacker s))) c1 (s\<lparr>ns_Unpacker := u\<rparr>);
        case x of
          None \<Rightarrow> Some (None, s1)
        | Some ch \<Rightarrow>
            if c_State c1 \<noteq> OFFLINE
            then Some (Some \<lparr>nc_ClientId = nc_ClientId ch, nc_Address = nc_Address ch, nc_Flags = nc_Flags ch,
                        nc_Data = nc_Data ch, nc_ExtraData = []\<rparr>, s1)
            else Some (None, s1\<lparr>ns_Unpacker := unpacker_Reset_chunks u\<rparr>) })"

definition allow_decompression :: "srv_env \<Rightarrow> bytes \<Rightarrow> nat option \<Rightarrow> net_server \<Rightarrow> bool" where
  "allow_decompression E data Slot s =
     (case Slot of
        None \<Rightarrow> anti_spoof E \<and> (se_SvPreConnDecompressPerSecond E = 0 \<or> ns_NumPreConnDecompress s < se_SvPreConnDecompressPerSecond E)
      | Some i \<Rightarrow>
          if c_Sixup (ns_Slots s ! i)
          then length data \<ge> NET_PACKETHEADERSIZE + 4 \<and>
               ToSecurityToken (drop NET_PACKETHEADERSIZE data) = c_Token (ns_Slots s ! i)
          else True)"

text \<open>A packet without connection is handed to the caller.\<close>

definition connless_chunk :: "netaddr \<Rightarrow> net_packet \<Rightarrow> srv_chunk" where
  "connless_chunk Addr p =
     (let ext = (pk_Flags p AND NET_PACKETFLAG_EXTENDED \<noteq> 0) in
      \<lparr>nc_ClientId = - 1, nc_Address = Addr, nc_Flags = (if ext then NETSENDFLAG_CONNLESS OR NETSENDFLAG_EXTENDED else NETSENDFLAG_CONNLESS),
       nc_Data = pk_data p, nc_ExtraData = (if ext then pk_ExtraData p else [])\<rparr>)"

text \<open>The end of the handling of a packet of a connection.\<close>

definition feed_slot :: "srv_env \<Rightarrow> netaddr \<Rightarrow> nat option \<Rightarrow> bool \<Rightarrow> token \<Rightarrow> token \<Rightarrow> net_server \<Rightarrow> net_server option" where
  "feed_slot E Addr Slot Control Token ResponseToken s =
     (case Slot of None \<Rightarrow> Some s
      | Some i \<Rightarrow> do {
          c \<leftarrow> slot_at i s;
          (r, p, c1) \<leftarrow> Feed (se_Net E) (ns_RecvBuffer s) Addr Token ResponseToken c;
          let s1 = (set_slot i c1 s)\<lparr>ns_RecvBuffer := p\<rparr>;
          if r \<noteq> 0 \<and> \<not> Control \<and> pk_DataSize p > 0 \<and> pk_NumChunks p > 0 then do {
            u \<leftarrow> FeedPacket Addr p (int i) (ns_Unpacker s1);
            Some (s1\<lparr>ns_Unpacker := u\<rparr>) }
          else Some s1 })"

text \<open>One datagram: the chunk for the caller, the response token, the server. What a packet that
  \<open>UnpackPacket\<close> rejects leaves in \<open>m_RecvBuffer\<close> is not modelled, since it is overwritten before it is read.\<close>

definition srv_packet :: "srv_env \<Rightarrow> netaddr \<Rightarrow> bytes \<Rightarrow> token \<Rightarrow> net_server \<Rightarrow> (srv_chunk option \<times> token \<times> net_server) option" where
  "srv_packet E Addr data rt s =
     (case se_IsBanned E Addr of
        Some msg \<Rightarrow>
          if se_SvBanRepliesPerSecond E = 0 \<or> ns_NumBanReplies s < se_SvBanRepliesPerSecond E then do {
            s1 \<leftarrow> srv_control E Addr NET_CTRLMSG_CLOSE (msg @ [0]) NET_SECURITY_TOKEN_UNSUPPORTED False
                    (s\<lparr>ns_NumBanReplies := ns_NumBanReplies s + 1\<rparr>);
            Some (None, rt, s1) }
          else Some (None, rt, s)
      | None \<Rightarrow>
          case UnpackPacketFlags data of None \<Rightarrow> Some (None, rt, s)
          | Some Flags \<Rightarrow>
              let Slot = (if Flags AND NET_PACKETFLAG_CONNLESS = 0 then GetClientSlot Addr s else None);
                  Sixup0 = (case Slot of None \<Rightarrow> False | Some i \<Rightarrow> c_Sixup (ns_Slots s ! i));
                  (Decompressed, res) = UnpackPacket (e_Huffman (se_Net E)) data (ns_RecvBuffer s) Sixup0
                    (allow_decompression E data Slot s) True True;
                  s1 = (if Slot = None \<and> Decompressed then s\<lparr>ns_NumPreConnDecompress := ns_NumPreConnDecompress s + 1\<rparr> else s) in
              case res of Inl e \<Rightarrow> Some (None, rt, s1)
              | Inr un \<Rightarrow>
                  let p = u_Packet un; Sixup = u_Sixup un;
                      Token = (case u_SecurityToken un of Some t \<Rightarrow> t | None \<Rightarrow> 0);
                      rt1 = (case u_ResponseToken un of Some t \<Rightarrow> t | None \<Rightarrow> rt);
                      s2 = s1\<lparr>ns_RecvBuffer := p\<rparr> in
                  if pk_Flags p AND NET_PACKETFLAG_CONNLESS \<noteq> 0 then
                    (if Sixup \<and> Token \<noteq> srv_GetToken E s2 Addr \<and> Token \<noteq> GetGlobalToken E s2 then Some (None, rt1, s2)
                     else Some (Some (connless_chunk Addr p), rt1, s2))
                  else
                    let Control = (pk_Flags p AND NET_PACKETFLAG_CONTROL \<noteq> 0) in
                    do {
                      (r, rt2, s3) \<leftarrow>
                        (if Sixup \<and> Control then OnSixupCtrlMsg E Addr (pk_ChunkData p ! 0) p rt1 Token Slot s2
                         else map_option (\<lambda>s'. (0, rt1, s'))
                           (if IsDDNetControlMsg p \<and> Control then OnTokenCtrlMsg E Addr (pk_ChunkData p ! 0) p Slot s2
                            else OnPreConnMsg E Addr p Slot s2));
                      if r = 1 then Some (Some \<lparr>nc_ClientId = - 1, nc_Address = Addr, nc_Flags = 0, nc_Data = [], nc_ExtraData = []\<rparr>, rt2, s3)
                      else do {
                        s4 \<leftarrow> feed_slot E Addr Slot Control Token rt2 s3;
                        Some (None, rt2, s4) } })"

text \<open>The receive loop, over the datagrams that wait in the socket; the rest is returned. A datagram
  without a byte ends the loop as if there were no more.\<close>

fun srv_Recv :: "srv_env \<Rightarrow> (netaddr \<times> bytes) list \<Rightarrow> token \<Rightarrow> net_server \<Rightarrow>
    (srv_chunk option \<times> token \<times> (netaddr \<times> bytes) list \<times> net_server) option" where
  "srv_Recv E [] rt s =
     (case stored_chunk s of None \<Rightarrow> None | Some (x, s1) \<Rightarrow> Some (x, rt, [], s1))"
| "srv_Recv E ((Addr, data) # rest) rt s =
     (case stored_chunk s of None \<Rightarrow> None
      | Some (Some ch, s1) \<Rightarrow> Some (Some ch, rt, (Addr, data) # rest, s1)
      | Some (None, s1) \<Rightarrow>
          if se_SvMaxPacketsPerRecv E \<noteq> 0 \<and> ns_NumRecvPackets s1 \<ge> se_SvMaxPacketsPerRecv E
          then Some (None, rt, (Addr, data) # rest, s1)
          else if data = [] then Some (None, rt, rest, s1)
          else
            (case srv_packet E Addr data rt (s1\<lparr>ns_NumRecvPackets := ns_NumRecvPackets s1 + 1\<rparr>) of
               None \<Rightarrow> None
             | Some (Some ch, rt1, s2) \<Rightarrow> Some (Some ch, rt1, rest, s2)
             | Some (None, rt1, s2) \<Rightarrow> srv_Recv E rest rt1 s2))"

subsection \<open>Slots from outside\<close>

definition HasErrored :: "nat \<Rightarrow> net_server \<Rightarrow> bool" where
  "HasErrored ClientId s \<longleftrightarrow> slot_state s ClientId = ERROR"

definition IgnoreTimeouts :: "nat \<Rightarrow> net_server \<Rightarrow> net_server" where
  "IgnoreTimeouts ClientId s = set_slot ClientId ((ns_Slots s ! ClientId)\<lparr>c_TimeoutProtected := True\<rparr>) s"

definition srv_ResetErrorString :: "nat \<Rightarrow> net_server \<Rightarrow> net_server" where
  "srv_ResetErrorString ClientId s = set_slot ClientId (ResetErrorString (ns_Slots s ! ClientId)) s"

definition srv_ErrorString :: "nat \<Rightarrow> net_server \<Rightarrow> bytes" where
  "srv_ErrorString ClientId s = c_ErrorString (ns_Slots s ! ClientId)"

definition ResumeOldConnection :: "srv_env \<Rightarrow> nat \<Rightarrow> nat \<Rightarrow> net_server \<Rightarrow> net_server option" where
  "ResumeOldConnection E ClientId OrigId s = do {
     c \<leftarrow> slot_at ClientId s;
     old \<leftarrow> slot_at OrigId s;
     (r, c1) \<leftarrow> ResumeConnection (se_Net E) (c_PeerAddr old) (c_Sequence old) (c_Ack old) (c_SecurityToken old)
                  (c_Buffer old) (c_Chunks old) (c_Sixup old) c;
     let s1 = set_slot ClientId c1 s;
     Some (set_slot OrigId (conn_Reset ((ns_Slots s1 ! OrigId)\<lparr>c_Buffer := r\<rparr>)) s1) }"

definition BotInit :: "nat \<Rightarrow> net_server \<Rightarrow> net_server" where
  "BotInit BotId s = set_slot BotId (BotConnect (ns_Slots s ! BotId)) s"

definition BotDelete :: "nat \<Rightarrow> net_server \<Rightarrow> net_server" where
  "BotDelete BotId s = set_slot BotId (BotDrop (ns_Slots s ! BotId)) s"

end
