(* ===== verification/NetServerLaws.thy ===== *)
theory NetServerLaws
  imports NetServer
begin

text \<open>
  The laws of the operations of \<open>CNetServer\<close>: each of them returns on a well-formed server and keeps it
  well formed, and what it may change of the slots: nothing but the traffic of a connection (\<open>quiet\<close>),
  one slot that is given to a client (\<open>becomes\<close>), or one slot that is fed, updated or dropped.
\<close>

subsection \<open>What an operation leaves alone\<close>

definition same_peer :: "conn \<Rightarrow> conn \<Rightarrow> bool" where
  "same_peer c c' \<longleftrightarrow> c_State c' = c_State c \<and> c_PeerAddr c' = c_PeerAddr c \<and>
     c_TimeoutProtected c' = c_TimeoutProtected c \<and> c_TimeoutSituation c' = c_TimeoutSituation c"

lemma same_peer_refl [simp]: "same_peer c c"
  by (simp add: same_peer_def)

lemma same_peer_trans: "same_peer c c1 \<Longrightarrow> same_peer c1 c2 \<Longrightarrow> same_peer c c2"
  by (simp add: same_peer_def)

lemma same_peer_link: "same_link c c' \<Longrightarrow> same_peer c c'"
  using same_link_fields [of c c'] by (cases c; cases c'; simp add: same_peer_def same_link_def)

definition same_frame :: "net_server \<Rightarrow> net_server \<Rightarrow> bool" where
  "same_frame s s' \<longleftrightarrow> length (ns_Slots s') = length (ns_Slots s) \<and> ns_MaxClients s' = ns_MaxClients s \<and>
     ns_MaxClientsPerIp s' = ns_MaxClientsPerIp s \<and> ns_SecurityTokenSeed s' = ns_SecurityTokenSeed s \<and>
     ns_NewClient s' = ns_NewClient s \<and> ns_NewClientNoAuth s' = ns_NewClientNoAuth s \<and>
     ns_DelClient s' = ns_DelClient s \<and> ns_ClientRejoin s' = ns_ClientRejoin s \<and>
     ns_Unpacker s' = ns_Unpacker s \<and> ns_RecvBuffer s' = ns_RecvBuffer s"

lemma same_frame_refl [simp]: "same_frame s s"
  by (simp add: same_frame_def)

lemma same_frame_trans: "same_frame s s1 \<Longrightarrow> same_frame s1 s2 \<Longrightarrow> same_frame s s2"
  by (simp add: same_frame_def)

definition quiet :: "net_server \<Rightarrow> net_server \<Rightarrow> bool" where
  "quiet s s' \<longleftrightarrow> same_frame s s' \<and> (\<forall>i < length (ns_Slots s). same_peer (ns_Slots s ! i) (ns_Slots s' ! i))"

lemma quiet_refl [simp]: "quiet s s"
  by (simp add: quiet_def)

lemma quiet_trans: "quiet s s1 \<Longrightarrow> quiet s1 s2 \<Longrightarrow> quiet s s2"
proof -
  assume a: "quiet s s1" and b: "quiet s1 s2"
  have "length (ns_Slots s1) = length (ns_Slots s)" using a by (simp add: quiet_def same_frame_def)
  then have "same_peer (ns_Slots s ! i) (ns_Slots s2 ! i)" if "i < length (ns_Slots s)" for i
    using a b that same_peer_trans unfolding quiet_def by metis
  then show "quiet s s2" using a b same_frame_trans unfolding quiet_def by blast
qed

lemma quiet_set_slot: "same_peer (ns_Slots s ! i) c \<Longrightarrow> quiet s (set_slot i c s)"
proof -
  assume p: "same_peer (ns_Slots s ! i) c"
  have "same_peer (ns_Slots s ! j) ((ns_Slots s)[i := c] ! j)" if "j < length (ns_Slots s)" for j
    using p that by (cases "i = j") simp_all
  then show ?thesis by (simp add: quiet_def same_frame_def set_slot_def)
qed

lemma quiet_fields [simp]:
  "quiet s (s'\<lparr>ns_Sent := x1\<rparr>) = quiet s s'" "quiet s (s'\<lparr>ns_Events := x2\<rparr>) = quiet s s'"
  "quiet s (s'\<lparr>ns_FlushPending := x3\<rparr>) = quiet s s'" "quiet s (s'\<lparr>ns_VConnFirst := x4\<rparr>) = quiet s s'"
  "quiet s (s'\<lparr>ns_VConnNum := x5\<rparr>) = quiet s s'" "quiet s (s'\<lparr>ns_SpamConns := x6\<rparr>) = quiet s s'"
  "quiet s (s'\<lparr>ns_NumRecvPackets := x7\<rparr>) = quiet s s'" "quiet s (s'\<lparr>ns_NumBanReplies := x8\<rparr>) = quiet s s'"
  "quiet s (s'\<lparr>ns_NumPreConnDecompress := x9\<rparr>) = quiet s s'" "quiet s (s'\<lparr>ns_FlushBatch := x10\<rparr>) = quiet s s'"
  "quiet s (s'\<lparr>ns_BudgetStart := x11\<rparr>) = quiet s s'"
  by (simp_all add: quiet_def same_frame_def)

text \<open>Slot \<open>i\<close> is given to the client at an address.\<close>

definition becomes :: "nat \<Rightarrow> netaddr \<Rightarrow> net_server \<Rightarrow> net_server \<Rightarrow> bool" where
  "becomes i Addr s s' \<longleftrightarrow> i < length (ns_Slots s) \<and> same_frame s s' \<and>
     c_State (ns_Slots s' ! i) = ONLINE \<and> c_PeerAddr (ns_Slots s' ! i) = Addr \<and>
     (\<forall>j < length (ns_Slots s). j \<noteq> i \<longrightarrow> same_peer (ns_Slots s ! j) (ns_Slots s' ! j))"

lemma becomes_quiet: "becomes i a s s1 \<Longrightarrow> quiet s1 s2 \<Longrightarrow> becomes i a s s2"
  unfolding becomes_def quiet_def using same_frame_trans same_peer_trans by (auto simp: same_frame_def same_peer_def)

lemma quiet_becomes: "quiet s s1 \<Longrightarrow> becomes i a s1 s2 \<Longrightarrow> becomes i a s s2"
  unfolding becomes_def quiet_def using same_frame_trans same_peer_trans by (auto simp: same_frame_def same_peer_def)

subsection \<open>Well-formed servers\<close>

definition server_states :: "estate set" where
  "server_states = {OFFLINE, ONLINE, BOT, ERROR}"

definition slot_ok :: "conn \<Rightarrow> bool" where
  "slot_ok c \<longleftrightarrow> conn_ok c \<and> c_State c \<in> server_states"

definition server_ok :: "net_server \<Rightarrow> bool" where
  "server_ok s \<longleftrightarrow> length (ns_Slots s) = NET_MAX_CLIENTS \<and> 1 \<le> ns_MaxClients s \<and> ns_MaxClients s \<le> NET_MAX_CLIENTS \<and>
     length (ns_FlushPending s) = NET_MAX_CLIENTS \<and> length (ns_SpamConns s) = NET_CONNLIMIT_IPS \<and>
     (\<forall>c \<in> set (ns_Slots s). slot_ok c) \<and> wf_packet (ns_RecvBuffer s) \<and>
     (cu_Valid (ns_Unpacker s) \<longrightarrow> 0 \<le> cu_ClientId (ns_Unpacker s) \<and> cu_ClientId (ns_Unpacker s) < int NET_MAX_CLIENTS)"

lemma server_ok_fields [simp]:
  "server_ok (s\<lparr>ns_Sent := x1\<rparr>) = server_ok s" "server_ok (s\<lparr>ns_Events := x2\<rparr>) = server_ok s"
  "server_ok (s\<lparr>ns_VConnFirst := x4\<rparr>) = server_ok s" "server_ok (s\<lparr>ns_VConnNum := x5\<rparr>) = server_ok s"
  "server_ok (s\<lparr>ns_NumRecvPackets := x7\<rparr>) = server_ok s" "server_ok (s\<lparr>ns_NumBanReplies := x8\<rparr>) = server_ok s"
  "server_ok (s\<lparr>ns_NumPreConnDecompress := x9\<rparr>) = server_ok s" "server_ok (s\<lparr>ns_FlushBatch := x10\<rparr>) = server_ok s"
  "server_ok (s\<lparr>ns_BudgetStart := x11\<rparr>) = server_ok s" "server_ok (s\<lparr>ns_MaxClientsPerIp := x12\<rparr>) = server_ok s"
  "server_ok (s\<lparr>ns_NewClient := b1\<rparr>) = server_ok s" "server_ok (s\<lparr>ns_NewClientNoAuth := b2\<rparr>) = server_ok s"
  "server_ok (s\<lparr>ns_DelClient := b3\<rparr>) = server_ok s" "server_ok (s\<lparr>ns_ClientRejoin := b4\<rparr>) = server_ok s"
  by (simp_all add: server_ok_def)

lemma server_ok_pending [simp]: "server_ok (s\<lparr>ns_FlushPending := (ns_FlushPending s)[i := b]\<rparr>) = server_ok s"
  by (simp add: server_ok_def)

lemma slot_ok_nth: "server_ok s \<Longrightarrow> i < NET_MAX_CLIENTS \<Longrightarrow> slot_ok (ns_Slots s ! i) \<and> slot_at i s = Some (ns_Slots s ! i)"
  by (simp add: server_ok_def slot_at_def)

lemma server_ok_set: "server_ok s \<Longrightarrow> slot_ok c \<Longrightarrow> server_ok (set_slot i c s)"
  by (auto simp: server_ok_def set_slot_def dest!: subsetD [OF set_update_subset_insert])

lemma length_slots: "server_ok s \<Longrightarrow> length (ns_Slots s) = NET_MAX_CLIENTS"
  by (simp add: server_ok_def)

lemma ids_bound: "server_ok s \<Longrightarrow> i \<in> set (ids s) \<Longrightarrow> i < NET_MAX_CLIENTS"
  by (auto simp: server_ok_def ids_def)

lemma set_slot_fields [simp]:
  "ns_Events (set_slot i c s) = ns_Events s" "ns_MaxClients (set_slot i c s) = ns_MaxClients s"
  "ns_FlushPending (set_slot i c s) = ns_FlushPending s" "ns_DelClient (set_slot i c s) = ns_DelClient s"
  "ns_ClientRejoin (set_slot i c s) = ns_ClientRejoin s" "ns_NewClient (set_slot i c s) = ns_NewClient s"
  "ns_NewClientNoAuth (set_slot i c s) = ns_NewClientNoAuth s" "ns_Unpacker (set_slot i c s) = ns_Unpacker s"
  "ns_RecvBuffer (set_slot i c s) = ns_RecvBuffer s" "length (ns_Slots (set_slot i c s)) = length (ns_Slots s)"
  "ns_SecurityTokenSeed (set_slot i c s) = ns_SecurityTokenSeed s"
  by (simp_all add: set_slot_def)

subsection \<open>Sending\<close>

lemma srv_control_ok:
  assumes "length extra \<le> 1392"
  shows "\<exists>bs. srv_control E a m extra t S s = Some (s\<lparr>ns_Sent := ns_Sent s @ [(a, bs)]\<rparr>)"
  using SendControlMsg_ok [OF assms, of 0 "e_Huffman (se_Net E)" m t S] by (auto simp: srv_control_def run_def)

text \<open>The chunks that may be sent.\<close>

definition chunk_ok :: "nat \<Rightarrow> srv_chunk \<Rightarrow> bool" where
  "chunk_ok n ch \<longleftrightarrow> AssertSizeSanity ch \<and>
     (nc_Flags ch AND NETSENDFLAG_CONNLESS = 0 \<longrightarrow> 0 \<le> nc_ClientId ch \<and> nc_ClientId ch < int n)"

definition env_ok :: "srv_env \<Rightarrow> bool" where
  "env_ok E \<longleftrightarrow> (\<forall>ev s. \<forall>ch \<in> set (se_Callback E ev s). chunk_ok (ns_MaxClients s) ch) \<and>
     (\<forall>a m. se_IsBanned E a = Some m \<longrightarrow> length m < 128)"

lemma QueueChunk_peer:
  assumes "conn_ok c" "0 \<le> F" "F < 4" "length d \<le> NET_MAX_CHUNK_SIZE"
  shows "\<exists>r c'. QueueChunk E F d c = Some (r, c') \<and> conn_ok c' \<and> same_peer c c'"
proof -
  define c1 where "c1 = (if F AND NET_CHUNKFLAG_VITAL \<noteq> 0
    then c\<lparr>c_Sequence := (c_Sequence c + 1) mod nat NET_MAX_SEQUENCE\<rparr> else c)"
  have ok: "conn_ok c1" using assms(1) by (auto simp: c1_def NET_MAX_SEQUENCE_def intro: conn_ok_set)
  then have "c_Sequence c1 < 1024" by (simp add: conn_ok_def)
  then have "fits F d (int (c_Sequence c1))" using assms(2-4) by (simp add: fits_def NET_MAX_SEQUENCE_def)
  from QueueChunkEx_ok [OF ok this, of E] obtain r c' where
    q: "QueueChunkEx E F d (int (c_Sequence c1)) c1 = Some (r, c')" "conn_ok c'" "same_link c1 c'" by blast
  have "QueueChunk E F d c = Some (r, c')" using q(1) by (simp only: QueueChunk_def Let_def c1_def)
  moreover have "same_peer c c1" by (simp add: c1_def same_peer_def)
  ultimately show ?thesis using q(2) same_peer_trans same_peer_link [OF q(3)] by blast
qed

lemma srv_Send_ok:
  assumes s: "server_ok s" and ch: "chunk_ok (ns_MaxClients s) ch"
  shows "\<exists>r s'. srv_Send E ch s = Some (r, s') \<and> server_ok s' \<and> quiet s s' \<and> ns_Events s' = ns_Events s"
proof (cases "nc_Flags ch AND NETSENDFLAG_CONNLESS = 0")
  case False
  then have "length (nc_Data ch) \<le> NET_MAX_CONNLESS_PAYLOAD" using ch by (simp add: chunk_ok_def AssertSizeSanity_def)
  then have "\<exists>bs. run (SendPacketConnless (nc_Data ch) b x) = Some bs" for b x
    by (simp add: SendPacketConnless_def run_def packet_consts server_consts NET_HEADER_EXTENDED_def lit_def Let_def)
  then obtain bs where "run (SendPacketConnless (nc_Data ch) (nc_Flags ch AND NETSENDFLAG_EXTENDED \<noteq> 0) (nc_ExtraData ch)) = Some bs"
    by blast
  then have "srv_Send E ch s = Some (0, s\<lparr>ns_Sent := ns_Sent s @ [(nc_Address ch, bs)]\<rparr>)"
    using False ch by (simp add: srv_Send_def chunk_ok_def)
  then show ?thesis using s by simp
next
  case True
  define i where "i = nat (nc_ClientId ch)"
  have id: "0 \<le> nc_ClientId ch" "nc_ClientId ch < int (ns_MaxClients s)" "AssertSizeSanity ch" using ch True by (simp_all add: chunk_ok_def)
  then have i: "i < NET_MAX_CLIENTS" "i < length (ns_Slots s)" using s by (auto simp: i_def server_ok_def)
  have c: "slot_ok (ns_Slots s ! i)" using slot_ok_nth [OF s i(1)] by blast
  define F where "F = (if nc_Flags ch AND NETSENDFLAG_VITAL \<noteq> 0 then NET_CHUNKFLAG_VITAL else 0)"
  have F: "0 \<le> F" "F < 4" by (simp_all add: F_def NET_CHUNKFLAG_VITAL_def)
  have len: "length (nc_Data ch) \<le> NET_MAX_CHUNK_SIZE" using id(3) True by (simp add: AssertSizeSanity_def)
  obtain r c1 where q: "QueueChunk (se_Net E) F (nc_Data ch) (ns_Slots s ! i) = Some (r, c1)" "conn_ok c1" "same_peer (ns_Slots s ! i) c1"
    using QueueChunk_peer [OF _ F len, of "ns_Slots s ! i" "se_Net E"] c unfolding slot_ok_def by blast
  obtain n c2 where f: "Flush (se_Net E) c1 = Some (n, c2)" "conn_ok c2" "same_link c1 c2" using Flush_ok [OF q(2)] by blast
  have ok1: "slot_ok c1" "slot_ok c2" and p2: "same_peer (ns_Slots s ! i) c2"
    using q(2,3) f c same_peer_link [OF f(3)] by (simp_all add: slot_ok_def same_peer_def)
  have sd: "srv_Send E ch s =
      (if slot_state s i = BOT then Some (- 1, s)
       else if r = 0 \<and> nc_Flags ch AND NETSENDFLAG_FLUSH \<noteq> 0 then
         (if ns_FlushBatch s then Some (0, (set_slot i c1 s)\<lparr>ns_FlushPending := (ns_FlushPending s)[i := True]\<rparr>)
          else Some (0, set_slot i c2 s))
       else Some (0, set_slot i c1 s))"
  proof -
    have g: "\<not> (nc_ClientId ch < 0 \<or> nc_ClientId ch \<ge> int (length (ns_Slots s)))" "\<not> nc_ClientId ch \<ge> int (ns_MaxClients s)"
      using id(1,2) i(2) by (auto simp: i_def)
    show ?thesis
      unfolding srv_Send_def Let_def F_def [symmetric] i_def [symmetric] q(1)
      using True id(3) g by (simp add: f(1))
  qed
  have "server_ok ((set_slot i c1 s)\<lparr>ns_FlushPending := (ns_FlushPending s)[i := True]\<rparr>)"
    using server_ok_set [OF s ok1(1), of i] by (simp add: server_ok_def)
  then show ?thesis
    unfolding sd using s server_ok_set [OF s ok1(1), of i] server_ok_set [OF s ok1(2), of i]
      quiet_set_slot [OF q(3)] quiet_set_slot [OF p2] by simp
qed

lemma send_all_ok:
  "server_ok s \<Longrightarrow> \<forall>ch \<in> set chs. chunk_ok (ns_MaxClients s) ch \<Longrightarrow>
   \<exists>s'. send_all E chs s = Some s' \<and> server_ok s' \<and> quiet s s' \<and> ns_Events s' = ns_Events s"
proof (induction chs arbitrary: s)
  case (Cons ch chs)
  obtain r s1 where s1: "srv_Send E ch s = Some (r, s1)" "server_ok s1" "quiet s s1" "ns_Events s1 = ns_Events s"
    using srv_Send_ok [OF Cons.prems(1)] Cons.prems(2) by (metis list.set_intros(1))
  have "ns_MaxClients s1 = ns_MaxClients s" using s1(3) by (simp add: quiet_def same_frame_def)
  then obtain s2 where "send_all E chs s1 = Some s2" "server_ok s2" "quiet s1 s2" "ns_Events s2 = ns_Events s1"
    using Cons.IH [OF s1(2)] Cons.prems(2) by auto
  then show ?case using s1 quiet_trans by auto
qed simp

lemma callback_ok:
  assumes "server_ok s" "env_ok E"
  shows "\<exists>s'. callback E ev s = Some s' \<and> server_ok s' \<and> quiet s s' \<and> ns_Events s' = ns_Events s @ [ev]"
proof -
  have c: "\<forall>ch \<in> set (se_Callback E ev s). chunk_ok (ns_MaxClients s) ch" using assms(2) unfolding env_ok_def by blast
  obtain s' where s': "send_all E (se_Callback E ev s) (s\<lparr>ns_Events := ns_Events s @ [ev]\<rparr>) = Some s'" "server_ok s'"
      "quiet (s\<lparr>ns_Events := ns_Events s @ [ev]\<rparr>) s'" "ns_Events s' = ns_Events s @ [ev]"
    using send_all_ok [of "s\<lparr>ns_Events := ns_Events s @ [ev]\<rparr>" "se_Callback E ev s" E] assms(1) c by auto
  have "quiet s s'" using quiet_trans [OF _ s'(3)] by simp
  then show ?thesis using s' unfolding callback_def by blast
qed

subsection \<open>Feeding, updating and dropping a connection\<close>

definition live :: "conn \<Rightarrow> bool" where
  "live c \<longleftrightarrow> c_State c \<noteq> OFFLINE \<and> c_State c \<noteq> ERROR"

definition counted :: "conn \<Rightarrow> bool" where
  "counted c \<longleftrightarrow> c_State c \<noteq> OFFLINE \<and> \<not> gone c"

text \<open>A connection keeps its peer and can only end.\<close>

definition fades :: "conn \<Rightarrow> conn \<Rightarrow> bool" where
  "fades c c' \<longleftrightarrow> c_PeerAddr c' = c_PeerAddr c \<and> (live c' \<longrightarrow> live c) \<and> (counted c' \<longrightarrow> counted c)"

lemma same_peer_fades: "same_peer c c' \<Longrightarrow> fades c c'"
  by (simp add: same_peer_def fades_def live_def counted_def gone_def)

lemma fades_trans: "fades c c1 \<Longrightarrow> fades c1 c2 \<Longrightarrow> fades c c2"
  by (simp add: fades_def)

lemma Feed_slot:
  assumes "slot_ok c" "live c" "pk_Ack p < 1024" "addr_known a" "Feed E p a t rt c = Some (r, p', c')"
  shows "slot_ok c' \<and> fades c c' \<and> (c_State c' = c_State c \<or> c_State c' = ERROR) \<and> (wf_packet p \<longrightarrow> wf_packet p')"
proof -
  have st: "c_State c = ONLINE \<or> c_State c = BOT" and ok: "conn_ok c"
    using assms(1,2) by (auto simp: slot_ok_def server_states_def live_def)
  then have "c_State c \<noteq> OFFLINE" by auto
  from Feed_ok [OF ok this assms(3,4), of E t rt] assms(5) have f: "conn_ok c'" "feed_moves (c_State c) (c_State c')" by auto
  have st': "c_State c' = c_State c \<or> c_State c' = ERROR" using f(2) st by (auto simp: feed_moves_def)
  obtain b p1 where ct: "check_token c p t = (b, p1)" by (cases "check_token c p t")
  have p1: "wf_packet p \<longrightarrow> wf_packet p1" using ct by (auto simp: check_token_def wf_packet_def Let_def split: if_splits)
  have pa: "c_PeerAddr c' = c_PeerAddr c" and p': "p' = p \<or> p' = p1"
  proof -
    define c2 where "c2 = (if pk_Flags p1 AND NET_PACKETFLAG_RESEND \<noteq> 0
      then (c\<lparr>c_PeerAck := pk_Ack p1\<rparr>)\<lparr>c_ResendRequested := True\<rparr> else c\<lparr>c_PeerAck := pk_Ack p1\<rparr>)"
    have a1: "pk_Ack p1 = pk_Ack p" using ct by (auto simp: check_token_def Let_def split: if_splits)
    have ok2: "conn_ok c2" "c_PeerAddr c2 = c_PeerAddr c" "c_State c2 = c_State c"
      using ok assms(3) a1 by (simp_all add: c2_def conn_ok_set)
    from AnswerResendRequest_ok [OF ok2(1), of E] obtain c3 where
      c3: "AnswerResendRequest E c2 = Some c3" "conn_ok c3" and
      d: "c3 = c2 \<or> same_link (c2\<lparr>c_ResendRequested := False, c_LastResendTime := e_Now E\<rparr>) c3" by blast
    have s3: "c_PeerAddr c3 = c_PeerAddr c" "c_State c3 = c_State c"
      using d ok2(2,3) same_link_fields(5,8) [of "c2\<lparr>c_ResendRequested := False, c_LastResendTime := e_Now E\<rparr>" c3] by auto
    have fc: "feed_control E p1 a rt c3 = Some c3"
      using st s3(2) by (auto simp: feed_control_def feed_token7_def Let_def)
    have pen: "c_State c3 \<noteq> PENDING" using st s3(2) by auto
    obtain c4 where c4: "AckChunks (int (pk_Ack p1)) (c3\<lparr>c_LastRecvTime := e_Now E\<rparr>) = Some c4" "same_link (c3\<lparr>c_LastRecvTime := e_Now E\<rparr>) c4"
      using AckChunks_ok [of "c3\<lparr>c_LastRecvTime := e_Now E\<rparr>"] c3(2) by auto
    have s4: "c_PeerAddr c4 = c_PeerAddr c" using same_link_fields(8) [OF c4(2)] s3(1) by simp
    have cl: "c_PeerAddr (feed_close p1 c3) = c_PeerAddr c" using s3(1) by (simp add: feed_close_def Let_def SetError_def)
    have "(r, p', c') \<in> {(0, p, c), (0, p1, c), (0, p1, feed_close p1 c3), (1, p1, c4), (1, p1, c3)}"
      using assms(5) c3(1) c4(1) fc pen unfolding Feed_def c2_def
      by (auto simp: ct split: if_splits)
    then show "c_PeerAddr c' = c_PeerAddr c" "p' = p \<or> p' = p1" using s3 s4 cl by auto
  qed
  have "slot_ok c'" using f(1) st st' by (auto simp: slot_ok_def server_states_def)
  moreover have "fades c c'" using pa st st' by (auto simp: fades_def live_def counted_def gone_def)
  ultimately show ?thesis using p1 p' st' by auto
qed

lemma Feed_returns:
  assumes "slot_ok c" "live c" "pk_Ack p < 1024" "addr_known a"
  shows "\<exists>r p' c'. Feed E p a t rt c = Some (r, p', c')"
  using Feed_ok [of c p a E t rt] assms by (auto simp: slot_ok_def live_def)

lemma Update_slot:
  assumes "slot_ok c"
  shows "\<exists>c'. conn_Update E c = Some c' \<and> slot_ok c' \<and> fades c c'"
proof -
  have ok: "conn_ok c" using assms by (simp add: slot_ok_def)
  obtain c' where u: "conn_Update E c = Some c'" "conn_ok c'" "update_moves (c_State c) (c_State c')"
    using Update_ok [OF ok] by blast
  have ok': "slot_ok c'" using u(2,3) assms by (auto simp: slot_ok_def update_moves_def server_states_def)
  define c1 where "c1 = (if c_State c = ERROR \<and> c_TimeoutSituation c \<and>
      e_Now E - c_LastRecvTime c > e_Freq E * e_ConnTimeoutProtection E
    then SetError (lit ''Timeout Protection over'') (c\<lparr>c_TimeoutSituation := False\<rparr>) else c)"
  have c1: "conn_ok c1" "c_State c1 = c_State c" "c_PeerAddr c1 = c_PeerAddr c" "counted c1 \<longrightarrow> counted c"
    using ok SetError_ok [of "c\<lparr>c_TimeoutSituation := False\<rparr>"] by (auto simp: c1_def SetError_def counted_def gone_def)
  have pa: "c_PeerAddr c' = c_PeerAddr c \<and> (c' = c1 \<or> live c)"
  proof (cases "alive c1")
    case False
    then have "conn_Update E c = Some c1" unfolding conn_Update_def c1_def [symmetric] by (auto simp: alive_def Let_def)
    then show ?thesis using u(1) c1 by simp
  next
    case True
    have "conn_ok (c1\<lparr>c_TimeoutSituation := False\<rparr>)" using c1(1) by simp
    from AnswerResendRequest_ok [OF this, of E] obtain c2 where
      c2: "AnswerResendRequest E (c1\<lparr>c_TimeoutSituation := False\<rparr>) = Some c2" "conn_ok c2" and
      d: "c2 = c1\<lparr>c_TimeoutSituation := False\<rparr> \<or>
        same_link (c1\<lparr>c_TimeoutSituation := False, c_ResendRequested := False, c_LastResendTime := e_Now E\<rparr>) c2" by auto
    have s2: "c_State c2 = c_State c1" "c_PeerAddr c2 = c_PeerAddr c"
      using d c1(3) same_link_fields(5,8) [of "c1\<lparr>c_TimeoutSituation := False, c_ResendRequested := False, c_LastResendTime := e_Now E\<rparr>" c2] by auto
    then have a2: "alive c2" using True by (simp add: alive_def)
    define ct where "ct = update_timeout E c2"
    have ct: "conn_ok ct" "c_PeerAddr ct = c_PeerAddr c" "c_State ct \<noteq> OFFLINE"
      using update_timeout_ok [OF c2(2) a2, of E] s2(2) a2
      by (auto simp: ct_def update_timeout_def SetError_def update_moves_def alive_def)
    have "\<exists>c3. update_resends E ct = Some c3 \<and> conn_ok c3 \<and> c_PeerAddr c3 = c_PeerAddr c"
    proof (cases "ring_First (c_Buffer ct)")
      case None
      then show ?thesis using ct by (simp add: update_resends_def)
    next
      case (Some q)
      obtain cx where "ResendChunk E q ct = Some cx" "conn_ok cx" "same_link ct cx" using ResendFirst_ok [OF ct(1) Some] by blast
      moreover have "conn_ok (SetError s (ct\<lparr>c_State := ERROR\<rparr>))" for s using ct(1) by (intro SetError_ok) simp
      ultimately show ?thesis using Some ct(1,2) same_link_fields(8) [of ct cx] by (simp add: update_resends_def SetError_def)
    qed
    then obtain c3 where c3: "update_resends E ct = Some c3" "conn_ok c3" "c_PeerAddr c3 = c_PeerAddr c" by blast
    have "\<exists>c4. update_keepalive E c3 = Some c4 \<and> c_PeerAddr c4 = c_PeerAddr c"
    proof -
      obtain n cf where f: "Flush E c3 = Some (n, cf)" "conn_ok cf" "same_link c3 cf" using Flush_ok [OF c3(2)] by blast
      have pf: "c_PeerAddr cf = c_PeerAddr c" using same_link_fields(8) [OF f(3)] c3(3) by simp
      have sc: "\<exists>bs. SendControl E m [] x = Some (x\<lparr>c_LastSendTime := e_Now E, c_Sent := c_Sent x @ bs\<rparr>)" if "conn_ok x" for m x
        using SendControl_ok [OF that, of "[]"] by simp
      have sm: "\<exists>bs. SendControl E m SECURITY_TOKEN_MAGIC c3 = Some (c3\<lparr>c_LastSendTime := e_Now E, c_Sent := c_Sent c3 @ bs\<rparr>)" for m
        using SendControl_ok [OF c3(2), of SECURITY_TOKEN_MAGIC] by simp
      obtain b1 b2 b3 b4 where "SendControl E NET_CTRLMSG_KEEPALIVE [] c3 = Some (c3\<lparr>c_LastSendTime := e_Now E, c_Sent := c_Sent c3 @ b1\<rparr>)"
          "SendControl E NET_CTRLMSG_KEEPALIVE [] cf = Some (cf\<lparr>c_LastSendTime := e_Now E, c_Sent := c_Sent cf @ b2\<rparr>)"
          "SendControl E NET_CTRLMSG_CONNECTACCEPT SECURITY_TOKEN_MAGIC c3 = Some (c3\<lparr>c_LastSendTime := e_Now E, c_Sent := c_Sent c3 @ b3\<rparr>)"
          "SendConnect E c3 = Some (c3\<lparr>c_LastSendTime := e_Now E, c_Sent := c_Sent c3 @ b4\<rparr>)"
        using sc [OF c3(2)] sc [OF f(2)] sm SendConnect_ok [OF c3(2)] by metis
      then show ?thesis using f(1) pf c3(3) by (simp add: update_keepalive_def)
    qed
    then obtain c4 where c4: "update_keepalive E c3 = Some c4" "c_PeerAddr c4 = c_PeerAddr c" by blast
    have "conn_Update E c = Some c4"
      using True c2(1) c3(1) c4(1) unfolding conn_Update_def c1_def [symmetric] ct_def by (auto simp: alive_def Let_def)
    then show ?thesis using u(1) c4(2) True c1(2) by (simp add: alive_def live_def)
  qed
  have "live c' \<longrightarrow> live c" using u(3) by (auto simp: live_def update_moves_def)
  moreover have "counted c' \<longrightarrow> counted c" using pa c1(4) by (auto simp: live_def counted_def gone_def)
  ultimately have "fades c c'" using pa by (simp add: fades_def)
  then show ?thesis using u(1) ok' by blast
qed

subsection \<open>Dropping and updating clients\<close>

definition fading :: "net_server \<Rightarrow> net_server \<Rightarrow> bool" where
  "fading s s' \<longleftrightarrow> same_frame s s' \<and> (\<forall>i < length (ns_Slots s). fades (ns_Slots s ! i) (ns_Slots s' ! i))"

lemma quiet_fading: "quiet s s' \<Longrightarrow> fading s s'"
  by (auto simp: quiet_def fading_def same_peer_fades)

lemma fading_trans:
  assumes "fading s s1" "fading s1 s2"
  shows "fading s s2"
proof -
  have "length (ns_Slots s1) = length (ns_Slots s)" using assms(1) by (simp add: fading_def same_frame_def)
  then have "fades (ns_Slots s ! i) (ns_Slots s2 ! i)" if "i < length (ns_Slots s)" for i
    using assms that fades_trans unfolding fading_def by metis
  then show ?thesis using assms same_frame_trans unfolding fading_def by blast
qed

lemma fading_set_slot:
  assumes "fades (ns_Slots s ! i) c"
  shows "fading s (set_slot i c s)"
proof -
  have "fades (ns_Slots s ! j) ((ns_Slots s)[i := c] ! j)" if "j < length (ns_Slots s)" for j
    using assms that by (cases "i = j") (simp_all add: fades_def)
  then show ?thesis by (simp add: fading_def same_frame_def set_slot_def)
qed

lemma Reset_peer [simp]: "c_PeerAddr (conn_Reset c) = c_PeerAddr c"
  by (simp add: conn_Reset_def)

lemma Disconnect_slot:
  assumes "slot_ok c" "\<forall>s. r = Reason s \<longrightarrow> length s < 1392"
  shows "\<exists>c'. Disconnect E r c = Some c' \<and> slot_ok c' \<and> c_State c' = OFFLINE \<and> fades c c'"
proof -
  obtain c' where d: "Disconnect E r c = Some c'" "conn_ok c'" "c_State c' = OFFLINE"
    using Disconnect_ok [of c r E] assms by (auto simp: slot_ok_def)
  have ctl: "c_PeerAddr y = c_PeerAddr c" if "SendControl E m x c = Some y" for m x y
    using that by (auto simp: SendControl_def send_control_to_def run_def split: sum.splits Option.bind_splits)
  have "c_PeerAddr c' = c_PeerAddr c"
    using d(1) by (auto simp: Disconnect_def ctl split: if_splits option.splits Option.bind_splits)
  then show ?thesis using d by (auto simp: slot_ok_def server_states_def fades_def live_def counted_def)
qed

lemma Drop_ok:
  assumes s: "server_ok s" and E: "env_ok E" and i: "i < NET_MAX_CLIENTS" and r: "\<forall>x. r = Reason x \<longrightarrow> length x < 1392"
  shows "\<exists>s'. srv_Drop E i r s = Some s' \<and> server_ok s' \<and> fading s s' \<and> c_State (ns_Slots s' ! i) = OFFLINE"
proof -
  have "\<exists>s1. (if ns_DelClient s then callback E (DelClient i r) s else Some s) = Some s1 \<and> server_ok s1 \<and> quiet s s1"
    using callback_ok [OF s E, of "DelClient i r"] s by auto
  then obtain s1 where s1: "(if ns_DelClient s then callback E (DelClient i r) s else Some s) = Some s1" "server_ok s1" "quiet s s1"
    by blast
  note c = slot_ok_nth [OF s1(2) i]
  obtain c' where d: "Disconnect (se_Net E) r (ns_Slots s1 ! i) = Some c'" "slot_ok c'" "c_State c' = OFFLINE" "fades (ns_Slots s1 ! i) c'"
    using Disconnect_slot [OF conjunct1 [OF c] r] by blast
  have "srv_Drop E i r s = Some (set_slot i c' s1)" using c by (simp add: srv_Drop_def s1(1) d(1))
  moreover have "i < length (ns_Slots s1)" using s1(2) i by (simp add: server_ok_def)
  then have "ns_Slots (set_slot i c' s1) ! i = c'" by (simp add: set_slot_def)
  ultimately show ?thesis
    using server_ok_set [OF s1(2) d(2)] fading_trans [OF quiet_fading [OF s1(3)] fading_set_slot [OF d(4)]] d(3) by simp
qed

lemma update_slots_ok:
  assumes "env_ok E"
  shows "server_ok s \<Longrightarrow> \<forall>i \<in> set is. i < NET_MAX_CLIENTS \<Longrightarrow>
    \<exists>s'. update_slots E is s = Some s' \<and> server_ok s' \<and> fading s s'"
proof (induction "is" arbitrary: s)
  case Nil
  then show ?case by (simp add: quiet_fading)
next
  case (Cons i "is")
  then have i: "i < NET_MAX_CLIENTS" by simp
  note c = slot_ok_nth [OF Cons.prems(1) i]
  obtain c1 where u: "conn_Update (se_Net E) (ns_Slots s ! i) = Some c1" "slot_ok c1" "fades (ns_Slots s ! i) c1"
    using Update_slot c by blast
  have ok1: "server_ok (set_slot i c1 s)" and f1: "fading s (set_slot i c1 s)"
    using server_ok_set [OF Cons.prems(1) u(2)] fading_set_slot [OF u(3)] by blast+
  obtain sd where sd: "srv_Drop E i OwnErrorString (set_slot i c1 s) = Some sd" "server_ok sd" "fading (set_slot i c1 s) sd"
    using Drop_ok [OF ok1 assms i, of OwnErrorString] by auto
  define s1 where "s1 = (if gone c1 then sd else set_slot i c1 s)"
  have s1: "server_ok s1" "fading s s1" using ok1 f1 sd fading_trans by (auto simp: s1_def)
  obtain s2 where s2: "update_slots E is s1 = Some s2" "server_ok s2" "fading s1 s2" using Cons.IH [OF s1(1)] Cons.prems(2) by auto
  have "update_slots E (i # is) s = Some s2"
    using c u(1) s2(1) sd(1) unfolding s1_def by (cases "gone c1") simp_all
  then show ?case using s2(2) fading_trans [OF s1(2) s2(3)] by blast
qed

lemma srv_Update_ok:
  assumes "server_ok s" "env_ok E"
  shows "\<exists>s'. srv_Update E s = Some s' \<and> server_ok s' \<and> fading s s'"
proof -
  define s2 where "s2 = (if e_Now (se_Net E) > ns_BudgetStart s + e_Freq (se_Net E)
      then s\<lparr>ns_NumRecvPackets := 0, ns_BudgetStart := e_Now (se_Net E), ns_NumPreConnDecompress := 0, ns_NumBanReplies := 0\<rparr>
      else s\<lparr>ns_NumRecvPackets := 0\<rparr>)"
  have s2: "server_ok s2" "fading s s2" using assms(1) by (auto simp: s2_def intro: quiet_fading)
  obtain s' where "update_slots E (ids s2) s2 = Some s'" "server_ok s'" "fading s2 s'"
    using update_slots_ok [OF assms(2) s2(1), of "ids s2"] ids_bound [OF s2(1)] by blast
  moreover have "srv_Update E s = update_slots E (ids s2) s2" by (simp add: srv_Update_def s2_def Let_def)
  ultimately show ?thesis using fading_trans [OF s2(2)] by auto
qed

lemma flush_slots_ok:
  "server_ok s \<Longrightarrow> \<forall>i \<in> set is. i < NET_MAX_CLIENTS \<Longrightarrow>
    \<exists>s'. flush_slots E is s = Some s' \<and> server_ok s' \<and> quiet s s' \<and> ns_Events s' = ns_Events s"
proof (induction "is" arbitrary: s)
  case (Cons i "is")
  then have i: "i < NET_MAX_CLIENTS" by simp
  define s1 where "s1 = s\<lparr>ns_FlushPending := (ns_FlushPending s)[i := False]\<rparr>"
  have s1: "server_ok s1" "quiet s s1" "ns_Events s1 = ns_Events s" using Cons.prems(1) by (simp_all add: s1_def)
  note c = slot_ok_nth [OF s1(1) i]
  have okc: "conn_ok (ns_Slots s1 ! i)" using c by (simp add: slot_ok_def)
  obtain n c1 where f: "Flush (se_Net E) (ns_Slots s1 ! i) = Some (n, c1)" "conn_ok c1" "same_link (ns_Slots s1 ! i) c1"
    using Flush_ok [OF okc] by blast
  have p: "same_peer (ns_Slots s1 ! i) c1" by (rule same_peer_link [OF f(3)])
  then have ok1: "slot_ok c1" using f(2) c by (simp add: slot_ok_def same_peer_def)
  define s2 where "s2 = (if \<not> ns_FlushPending s ! i then s else if c_State (ns_Slots s1 ! i) = ONLINE then set_slot i c1 s1 else s1)"
  have s2: "server_ok s2" "quiet s s2" "ns_Events s2 = ns_Events s"
    using s1 Cons.prems(1) server_ok_set [OF s1(1) ok1] quiet_trans [OF s1(2) quiet_set_slot [OF p]] by (auto simp: s2_def)
  obtain s3 where "flush_slots E is s2 = Some s3" "server_ok s3" "quiet s2 s3" "ns_Events s3 = ns_Events s2"
    using Cons.IH [OF s2(1)] Cons.prems(2) by auto
  moreover have "flush_slots E (i # is) s = flush_slots E is s2"
  proof -
    have "flush_slots E (i # is) s = (if \<not> ns_FlushPending s ! i then flush_slots E is s
        else if c_State (ns_Slots s1 ! i) = ONLINE then flush_slots E is (set_slot i c1 s1) else flush_slots E is s1)"
      unfolding flush_slots.simps Let_def s1_def [symmetric] conjunct2 [OF c] option.case f(1) prod.case ..
    then show ?thesis by (simp add: s2_def)
  qed
  ultimately show ?case using quiet_trans [OF s2(2)] s2(3) by auto
qed simp

lemma EndFlushBatch_ok:
  assumes "server_ok s"
  shows "\<exists>s'. EndFlushBatch E s = Some s' \<and> server_ok s' \<and> quiet s s' \<and> ns_Events s' = ns_Events s"
proof -
  have s1: "server_ok (s\<lparr>ns_FlushBatch := False\<rparr>)" using assms by simp
  obtain s' where "flush_slots E (ids s) (s\<lparr>ns_FlushBatch := False\<rparr>) = Some s'" "server_ok s'"
      "quiet (s\<lparr>ns_FlushBatch := False\<rparr>) s'" "ns_Events s' = ns_Events s"
    using flush_slots_ok [OF s1, of "ids s" E] ids_bound [OF assms] by auto
  moreover have "quiet s (s\<lparr>ns_FlushBatch := False\<rparr>)" by simp
  ultimately show ?thesis using quiet_trans unfolding EndFlushBatch_def by blast
qed

subsection \<open>Accepting clients\<close>

lemma connlimit_length: "length (snd (connlimit_loop E a is o' sp)) = length sp"
  by (induction E a "is" o' sp rule: connlimit_loop.induct) (simp_all add: Let_def)

lemma Connlimit_ok:
  assumes "server_ok s"
  shows "\<exists>b s'. Connlimit E a s = (b, s') \<and> server_ok s' \<and> quiet s s' \<and> ns_Slots s' = ns_Slots s \<and> ns_Events s' = ns_Events s"
proof -
  obtain b sp where c: "connlimit_loop E a [0..<NET_CONNLIMIT_IPS] 0 (ns_SpamConns s) = (b, sp)" by fastforce
  then have "length sp = length (ns_SpamConns s)" using connlimit_length by (metis snd_conv)
  then have "server_ok (s\<lparr>ns_SpamConns := sp\<rparr>)" using assms by (simp add: server_ok_def)
  then show ?thesis by (simp add: Connlimit_def c)
qed

definition callbacks_set :: "net_server \<Rightarrow> bool" where
  "callbacks_set s \<longleftrightarrow> ns_NewClient s \<and> ns_NewClientNoAuth s \<and> ns_DelClient s \<and> ns_ClientRejoin s"

lemma init_slot_ok:
  assumes s: "server_ok s" and E: "env_ok E" and cb: "callbacks_set s" and i: "i < NET_MAX_CLIENTS" and a: "addr_known a"
  shows "\<exists>s'. init_slot E a st i R V S t s = Some s' \<and> server_ok s' \<and> becomes i a s s' \<and>
    ns_Events s' = ns_Events s @ [if R then ClientRejoin i S V else if V then NewClientNoAuth i else NewClient i S]"
proof -
  note c = slot_ok_nth [OF s i]
  have il: "i < length (ns_Slots s)" using s i by (simp add: server_ok_def)
  obtain c1 where d: "DirectInit (se_Net E) a st t S (ns_Slots s ! i) = Some c1" "conn_ok c1" "c_State c1 = ONLINE"
    using DirectInit_ok [of "ns_Slots s ! i" a "se_Net E" st t S] a c unfolding slot_ok_def by blast
  have pa: "c_PeerAddr c1 = a"
    using d(1) by (auto simp: DirectInit_def SetPeerAddr_def run_def split: sum.splits Option.bind_splits)
  define c2 where "c2 = (if V then SetSequence 6 (SetUnknownSeq c1) else c1)"
  have "conn_ok (SetSequence 6 (SetUnknownSeq c1))"
    using d(2) conn_ok_set(2) [of "SetUnknownSeq c1" 6] by (simp add: SetSequence_def SetUnknownSeq_def to_u16_def)
  then have c2: "slot_ok c2" "c_State c2 = ONLINE" "c_PeerAddr c2 = a"
    using d(2,3) pa by (auto simp: c2_def slot_ok_def server_states_def SetSequence_def SetUnknownSeq_def)
  define s1 where "s1 = set_slot i c2 s"
  have s1: "server_ok s1" "callbacks_set s1" "ns_Events s1 = ns_Events s"
    using server_ok_set [OF s c2(1)] cb by (simp_all add: s1_def callbacks_set_def)
  have b1: "becomes i a s s1"
    using il c2(2,3) by (auto simp: s1_def becomes_def same_frame_def set_slot_def)
  define ev where "ev = (if R then ClientRejoin i S V else if V then NewClientNoAuth i else NewClient i S)"
  have cbs: "ns_ClientRejoin s1" "ns_NewClientNoAuth s1" "ns_NewClient s1" using s1(2) by (simp_all add: callbacks_set_def)
  obtain s' where s': "callback E ev s1 = Some s'" "server_ok s'" "quiet s1 s'" "ns_Events s' = ns_Events s1 @ [ev]"
    using callback_ok [OF s1(1) E] by blast
  have "init_slot E a st i R V S t s = callback E ev s1"
    using conjunct2 [OF c] d(1) cbs unfolding init_slot_def s1_def c2_def ev_def by (simp split: if_splits)
  then show ?thesis using s' becomes_quiet [OF b1 s'(3)] s1(3) unfolding ev_def by auto
qed

end
