(* ===== verification/NetServerInv.thy ===== *)
theory NetServerInv
  imports NetServerLaws
begin

text \<open>
  The handlers of \<open>CNetServer\<close> that accept clients and the receive loop: they return on every datagram,
  keep the server well formed, and accept at most one client per datagram.
\<close>

subsection \<open>The messages of the vanilla handshake\<close>

lemma AddInt_length: "in_i32 i \<Longrightarrow> length (m_Packed (AddInt p i)) \<le> length (m_Packed p) + 5"
proof -
  assume "in_i32 i"
  then obtain bs where "length bs \<le> MAX_BYTES_PACKED" "\<And>sz. Pack i sz = (if int (length bs) \<le> sz then Some bs else None)"
    using Pack_total by blast
  then show ?thesis by (simp add: AddInt_def MAX_BYTES_PACKED_def)
qed

lemma in_i32_sint: "in_i32 (sint (t :: token))"
  using sint_greater_eq [of t] sint_less [of t] by (simp add: in_i32_def)

lemma AddRaw_length: "length (m_Packed (AddRaw p r)) \<le> length (m_Packed p) + length r"
  by (simp add: AddRaw_def)

lemma dummy_map_length: "length g_aDummyMapData = 288"
  by code_simp

lemma add_string_loop_length: "add_string_loop n b str limit out = Some out' \<Longrightarrow> length out' \<le> length out + 4 * length str"
proof (induction "length str" arbitrary: str limit out rule: less_induct)
  case less
  show ?case
  proof (cases "str = []")
    case True
    then show ?thesis using less.prems by (simp add: add_string_loop.simps)
  next
    case False
    obtain cp r where d: "str_utf8_decode str = (cp, r)" by fastforce
    define e where "e = str_utf8_encode (if cp = - 1 then 0xFFFD else cp)"
    have e: "length e \<le> 4" by (simp add: e_def str_utf8_encode_def)
    have r: "length r < length str" using decode_rest_less [OF False d [symmetric]] .
    have "out' = out \<or> add_string_loop n b r (limit - int (length e)) (out @ e) = Some out'"
      using less.prems False d by (subst (asm) add_string_loop.simps) (auto simp: Let_def e_def [symmetric] split: if_splits)
    then show ?thesis using less.hyps [OF r, of "limit - int (length e)" "out @ e"] e r by auto
  qed
qed

lemma AddString_length: "length (m_Packed (AddString p str L T)) \<le> length (m_Packed p) + 4 * length str + 1"
  by (auto simp: AddString_def Let_def split: option.split dest!: add_string_loop_length)

lemma MapChangeMsg_length: "length (MapChangeMsg b) \<le> 40"
proof -
  define p0 where "p0 = \<lparr>m_BufferSize = PACKER_BUFFER_SIZE, m_Packed = [], m_PackError = False\<rparr>"
  define p1 where "p1 = AddInt p0 (NETMSG_MAP_CHANGE * 2 + 1)"
  define p2 where "p2 = AddString p1 (if b then lit ''dm1'' else lit ''dummy'') 0 True"
  define p3 where "p3 = AddInt p2 (if b then to_i32 0xf2159e6e else g_DummyMapCrc)"
  define p4 where "p4 = AddInt p3 (if b then 5805 else int (length g_aDummyMapData))"
  have "in_i32 (NETMSG_MAP_CHANGE * 2 + 1)" "in_i32 (if b then to_i32 0xf2159e6e else g_DummyMapCrc)"
      "in_i32 (if b then 5805 else int (length g_aDummyMapData))"
    by (simp_all add: NETMSG_MAP_CHANGE_def g_DummyMapCrc_def dummy_map_length) (simp_all add: in_i32_def)
  then have "length (m_Packed p1) \<le> 5" "length (m_Packed p3) \<le> length (m_Packed p2) + 5" "length (m_Packed p4) \<le> length (m_Packed p3) + 5"
    using AddInt_length [of _ p0] AddInt_length by (simp_all add: p0_def p1_def p3_def p4_def)
  moreover have "length (m_Packed p2) \<le> length (m_Packed p1) + 21"
    using AddString_length [of p1 "if b then lit ''dm1'' else lit ''dummy''" 0 True] by (simp add: p2_def lit_def split: if_splits)
  moreover have "MapChangeMsg b = m_Packed p4"
    by (simp add: MapChangeMsg_def packed_def Let_def p0_def p1_def p2_def p3_def p4_def)
  ultimately show ?thesis by simp
qed

lemma ConReadyMsg_length: "length ConReadyMsg \<le> 20"
  using AddInt_length [of 9 "\<lparr>m_BufferSize = PACKER_BUFFER_SIZE, m_Packed = [], m_PackError = False\<rparr>"]
  by (simp add: ConReadyMsg_def packed_def NETMSG_CON_READY_def in_i32_def)

lemma MapDataMsg_length: "length (MapDataMsg b) \<le> 400"
proof -
  define p0 where "p0 = \<lparr>m_BufferSize = PACKER_BUFFER_SIZE, m_Packed = [], m_PackError = False\<rparr>"
  define p1 where "p1 = AddInt p0 (NETMSG_MAP_DATA * 2 + 1)"
  define p2 where "p2 = AddInt p1 1"
  define p3 where "p3 = AddInt p2 (if b then 0 else g_DummyMapCrc)"
  define p4 where "p4 = AddInt p3 0"
  define p5 where "p5 = AddInt p4 (if b then 0 else int (length g_aDummyMapData))"
  have "in_i32 (NETMSG_MAP_DATA * 2 + 1)" "in_i32 1" "in_i32 (if b then 0 else g_DummyMapCrc)" "in_i32 0"
      "in_i32 (if b then 0 else int (length g_aDummyMapData))"
    by (simp_all add: in_i32_def NETMSG_MAP_DATA_def g_DummyMapCrc_def dummy_map_length)
  then have "length (m_Packed p1) \<le> 5" "length (m_Packed p2) \<le> length (m_Packed p1) + 5" "length (m_Packed p3) \<le> length (m_Packed p2) + 5"
    "length (m_Packed p4) \<le> length (m_Packed p3) + 5" "length (m_Packed p5) \<le> length (m_Packed p4) + 5"
    using AddInt_length [of _ p0] AddInt_length by (simp_all add: p0_def p1_def p2_def p3_def p4_def p5_def)
  moreover have "MapDataMsg b = m_Packed (if b then p5 else AddRaw p5 g_aDummyMapData)"
    by (simp add: MapDataMsg_def packed_def Let_def p0_def p1_def p2_def p3_def p4_def p5_def)
  ultimately show ?thesis using AddRaw_length [of p5 g_aDummyMapData] dummy_map_length by simp
qed

lemma SnapEmptyMsg_length: "length (SnapEmptyMsg t) \<le> 20"
proof -
  define p0 where "p0 = \<lparr>m_BufferSize = PACKER_BUFFER_SIZE, m_Packed = [], m_PackError = False\<rparr>"
  define p1 where "p1 = AddInt p0 (NETMSG_SNAPEMPTY * 2 + 1)"
  define p2 where "p2 = AddInt p1 (sint t)"
  have "in_i32 (NETMSG_SNAPEMPTY * 2 + 1)" "in_i32 (sint t)" "in_i32 (to_i32 (sint t + 1))"
    by (simp_all add: NETMSG_SNAPEMPTY_def in_i32_sint in_i32_to_i32) (simp add: in_i32_def)
  then have "length (m_Packed p1) \<le> 5" "length (m_Packed p2) \<le> length (m_Packed p1) + 5"
    "length (m_Packed (AddInt p2 (to_i32 (sint t + 1)))) \<le> length (m_Packed p2) + 5"
    using AddInt_length [of _ p0] AddInt_length by (simp_all add: p0_def p1_def p2_def)
  moreover have "SnapEmptyMsg t = m_Packed (AddInt p2 (to_i32 (sint t + 1)))"
    by (simp add: SnapEmptyMsg_def packed_def p0_def p1_def p2_def)
  ultimately show ?thesis by simp
qed

lemma pack_msgs_ok:
  "wf_packet p \<Longrightarrow> pk_DataSize p + sum_list (map (\<lambda>m. length m + 3) ms) \<le> 1393 \<Longrightarrow> pk_NumChunks p + length ms \<le> 255 \<Longrightarrow>
   0 \<le> q \<Longrightarrow> q + int (length ms) \<le> 1024 \<Longrightarrow> \<forall>m \<in> set ms. length m < 1024 \<Longrightarrow>
   \<exists>p'. pack_msgs q ms p = Some p' \<and> wf_packet p' \<and> pk_Flags p' = pk_Flags p \<and>
     pk_NumChunks p' = pk_NumChunks p + length ms \<and> pk_DataSize p' \<le> 1393"
proof (induction ms arbitrary: q p)
  case (Cons m ms)
  have "wf_header 4 \<lparr>ch_Flags = NET_CHUNKFLAG_VITAL, ch_Size = int (length m), ch_Sequence = q\<rparr>"
    using Cons.prems by (simp add: wf_header_def NET_CHUNKFLAG_VITAL_def NET_MAX_SEQUENCE_def)
  then obtain hdr where h: "chunk_Pack \<lparr>ch_Flags = NET_CHUNKFLAG_VITAL, ch_Size = int (length m), ch_Sequence = q\<rparr> 4 = Inr hdr"
      "length hdr \<le> 3" using chunk_Pack_ok by blast
  have l: "length (pk_ChunkData p) = 1397" using Cons.prems(1) by (simp add: wf_packet_def packet_consts)
  have n: "pk_DataSize p + length (hdr @ m) \<le> 1393" using Cons.prems(2) h(2) by simp
  define d where "d = take (pk_DataSize p) (pk_ChunkData p) @ (hdr @ m) @ drop (pk_DataSize p + length (hdr @ m)) (pk_ChunkData p)"
  have w: "mem_write (pk_ChunkData p) (pk_DataSize p) (hdr @ m) = Inr d"
    unfolding d_def by (rule mem_write_ok) (use n l in simp)
  have ld: "length d = 1397" using n l by (simp add: d_def)
  define p1 where "p1 = p\<lparr>pk_ChunkData := d, pk_DataSize := pk_DataSize p + length (hdr @ m), pk_NumChunks := pk_NumChunks p + 1\<rparr>"
  have p1: "wf_packet p1" "pk_Flags p1 = pk_Flags p" "pk_NumChunks p1 = pk_NumChunks p + 1" "pk_DataSize p1 = pk_DataSize p + length (hdr @ m)"
    using Cons.prems(1,3) n ld by (simp_all add: p1_def wf_packet_def packet_consts)
  have "pk_DataSize p1 + sum_list (map (\<lambda>m. length m + 3) ms) \<le> 1393" using Cons.prems(2) h(2) p1(4) by simp
  moreover have "pk_NumChunks p1 + length ms \<le> 255" using Cons.prems(3) p1(3) by simp
  moreover have "0 \<le> q + 1" "q + 1 + int (length ms) \<le> 1024" "\<forall>m \<in> set ms. length m < 1024" using Cons.prems(4-6) by simp_all
  ultimately obtain p' where p': "pack_msgs (q + 1) ms p1 = Some p'" "wf_packet p'" "pk_Flags p' = pk_Flags p1"
      "pk_NumChunks p' = pk_NumChunks p1 + length ms" "pk_DataSize p' \<le> 1393"
    using Cons.IH [OF p1(1)] by blast
  have "pack_msgs q (m # ms) p = pack_msgs (q + 1) ms p1"
    unfolding pack_msgs.simps h(1) sum.case w p1_def ..
  then show ?case using p' p1 by auto
qed auto

lemma SendMsgs_ok:
  assumes "ms \<noteq> []" "length ms \<le> 255" "sum_list (map (\<lambda>m. length m + 3) ms) \<le> 1393" "\<forall>m \<in> set ms. length m < 1024"
  shows "\<exists>bs. SendMsgs E a ms s = Some (s\<lparr>ns_Sent := ns_Sent s @ [(a, bs)]\<rparr>)"
proof -
  from pack_msgs_ok [OF wf_zero_packet(1), of ms 1] obtain p where
    p: "pack_msgs 1 ms zero_packet = Some p" "wf_packet p" "pk_Flags p = 0" "pk_NumChunks p = length ms" "pk_DataSize p \<le> 1393"
    using assms wf_zero_packet by auto
  have "IsValidConnectionOrientedPacket p"
    using p(3,4) assms(1,2) by (simp add: IsValidConnectionOrientedPacket_def packet_consts packet_flags Suc_le_eq)
  then obtain bs p' where "SendPacket (e_Huffman (se_Net E)) p NET_SECURITY_TOKEN_UNSUPPORTED False = Inr (bs, p')"
    using SendPacket_ok [OF p(2), of "e_Huffman (se_Net E)" NET_SECURITY_TOKEN_UNSUPPORTED False] p(3,5) by (auto simp: packet_consts)
  then show ?thesis using assms(1,2) p(1) by (intro exI [of _ bs]) (simp add: SendMsgs_def run_def packet_consts)
qed

lemma handshake_msgs_ok:
  "\<exists>bs. SendMsgs E a [MapChangeMsg F, MapDataMsg F, ConReadyMsg, SnapEmptyMsg t, SnapEmptyMsg t, SnapEmptyMsg t] s =
     Some (s\<lparr>ns_Sent := ns_Sent s @ [(a, bs)]\<rparr>)"
proof (rule SendMsgs_ok)
  show "sum_list (map (\<lambda>m. length m + 3) [MapChangeMsg F, MapDataMsg F, ConReadyMsg, SnapEmptyMsg t, SnapEmptyMsg t, SnapEmptyMsg t]) \<le> 1393"
    using MapChangeMsg_length [of F] MapDataMsg_length [of F] ConReadyMsg_length SnapEmptyMsg_length [of t] by simp
  show "\<forall>m \<in> set [MapChangeMsg F, MapDataMsg F, ConReadyMsg, SnapEmptyMsg t, SnapEmptyMsg t, SnapEmptyMsg t]. length m < 1024"
    using MapChangeMsg_length [of F] MapDataMsg_length [of F] ConReadyMsg_length SnapEmptyMsg_length [of t] by simp
qed simp_all


subsection \<open>At most one client per datagram\<close>

definition slot_arg :: "nat option \<Rightarrow> bool" where
  "slot_arg Slot \<longleftrightarrow> (case Slot of None \<Rightarrow> True | Some i \<Rightarrow> i < NET_MAX_CLIENTS)"

text \<open>Nothing, or slot \<open>i\<close> is given to the address: the slot the caller found, or a free one if the
  address has not as many clients as it may have.\<close>

definition admits :: "netaddr \<Rightarrow> nat option \<Rightarrow> net_server \<Rightarrow> net_server \<Rightarrow> bool" where
  "admits a Slot s s' \<longleftrightarrow> (\<exists>i ev. becomes i a s s' \<and> ns_Events s' = ns_Events s @ [ev] \<and>
     (case Slot of Some j \<Rightarrow> i = j
      | None \<Rightarrow> c_State (ns_Slots s ! i) = OFFLINE \<and> int (NumClientsWithAddr a s) + 1 \<le> ns_MaxClientsPerIp s))"

definition at_most_one :: "netaddr \<Rightarrow> nat option \<Rightarrow> net_server \<Rightarrow> net_server \<Rightarrow> bool" where
  "at_most_one a Slot s s' \<longleftrightarrow> quiet s s' \<and> ns_Events s' = ns_Events s \<or> admits a Slot s s'"

lemma quiet_clients: "quiet s s1 \<Longrightarrow> server_ok s \<Longrightarrow> NumClientsWithAddr a s1 = NumClientsWithAddr a s"
proof -
  assume q: "quiet s s1" and ok: "server_ok s"
  have "ids s1 = ids s" using q by (simp add: quiet_def same_frame_def ids_def)
  moreover have "same_peer (ns_Slots s ! i) (ns_Slots s1 ! i)" if "i \<in> set (ids s)" for i
    using q ids_bound [OF ok that] ok by (simp add: quiet_def server_ok_def)
  ultimately show ?thesis unfolding NumClientsWithAddr_def
    by (intro arg_cong [of _ _ length] filter_cong) (auto simp: slot_state_def same_peer_def gone_def)
qed

lemma admits_after:
  assumes "quiet s s1" "ns_Events s1 = ns_Events s" "server_ok s" "admits a Slot s1 s2"
  shows "admits a Slot s s2"
proof -
  obtain i ev where b: "becomes i a s1 s2" "ns_Events s2 = ns_Events s1 @ [ev]"
    "case Slot of Some j \<Rightarrow> i = j
      | None \<Rightarrow> c_State (ns_Slots s1 ! i) = OFFLINE \<and> int (NumClientsWithAddr a s1) + 1 \<le> ns_MaxClientsPerIp s1"
    using assms(4) unfolding admits_def by blast
  have "ns_MaxClientsPerIp s1 = ns_MaxClientsPerIp s" "length (ns_Slots s1) = length (ns_Slots s)"
    using assms(1) by (simp_all add: quiet_def same_frame_def)
  moreover have "i < length (ns_Slots s1)" using b(1) by (simp add: becomes_def)
  ultimately have "case Slot of Some j \<Rightarrow> i = j
      | None \<Rightarrow> c_State (ns_Slots s ! i) = OFFLINE \<and> int (NumClientsWithAddr a s) + 1 \<le> ns_MaxClientsPerIp s"
    using b(3) quiet_clients [OF assms(1,3), of a] assms(1) by (auto simp: quiet_def same_peer_def split: option.splits)
  then show ?thesis unfolding admits_def using quiet_becomes [OF assms(1) b(1)] b(2) assms(2) by metis
qed

lemma at_most_one_after:
  assumes "quiet s s1" "ns_Events s1 = ns_Events s" "server_ok s" "at_most_one a Slot s1 s2"
  shows "at_most_one a Slot s s2"
  using assms admits_after [OF assms(1-3)] quiet_trans [OF assms(1)] unfolding at_most_one_def by auto

lemma at_most_one_quiet: "quiet s s' \<Longrightarrow> ns_Events s' = ns_Events s \<Longrightarrow> at_most_one a Slot s s'"
  by (simp add: at_most_one_def)

text \<open>What each handler does with a server: it returns one that is well formed and admits at most one client.\<close>

definition served :: "netaddr \<Rightarrow> nat option \<Rightarrow> net_server \<Rightarrow> net_server option \<Rightarrow> bool" where
  "served a Slot s r \<longleftrightarrow> (\<exists>s'. r = Some s' \<and> server_ok s' \<and> at_most_one a Slot s s')"

lemma served_same: "server_ok s \<Longrightarrow> quiet s s' \<Longrightarrow> ns_Events s' = ns_Events s \<Longrightarrow> server_ok s' \<Longrightarrow> served a Slot s (Some s')"
  by (simp add: served_def at_most_one_def)

lemma served_control:
  assumes "server_ok s" "length extra \<le> 1392"
  shows "served a Slot s (srv_control E b m extra t S s)"
  using srv_control_ok [OF assms(2), of E b m t S s] assms(1) by (auto simp: served_def at_most_one_def)

lemma served_after:
  assumes "quiet s s1" "ns_Events s1 = ns_Events s" "server_ok s" "served a Slot s1 r"
  shows "served a Slot s r"
  using assms(4) at_most_one_after [OF assms(1-3)] unfolding served_def by blast

lemma close_texts:
  "length (lit ''0.7 connections are not accepted at this time'' @ [0]) \<le> 1392"
  "length (lit ''Too many connections in a short time'' @ [0]) \<le> 1392"
  "length (lit ''This server is full'' @ [0]) \<le> 1392"
  "length (str_copy x 128 @ [0]) \<le> 1392"
  using str_copy_length [of 128 x] by (simp_all add: lit_def)

lemma TryAcceptClient_ok:
  assumes s: "server_ok s" and E: "env_ok E" and cb: "callbacks_set s" and a: "addr_known a" and i: "slot_arg Slot"
  shows "served a Slot s (TryAcceptClient E a st Slot V S t s)"
proof -
  obtain b s1 where c: "Connlimit E a s = (b, s1)" "server_ok s1" "quiet s s1" "ns_Events s1 = ns_Events s"
    using Connlimit_ok [OF s] by blast
  have cb1: "callbacks_set s1" using c(3) cb by (simp add: callbacks_set_def quiet_def same_frame_def)
  have init: "served a Slot s1 (init_slot E a st j R V S t s1)"
    if "j < NET_MAX_CLIENTS" "case Slot of Some k \<Rightarrow> j = k
      | None \<Rightarrow> c_State (ns_Slots s1 ! j) = OFFLINE \<and> int (NumClientsWithAddr a s1) + 1 \<le> ns_MaxClientsPerIp s1" for j R
    using init_slot_ok [OF c(2) E cb1 that(1) a, of st R V S t] that(2)
    unfolding served_def at_most_one_def admits_def by blast
  have sub: "served a Slot s1 (srv_control E b m x t' S' s1)" if "length x \<le> 1392" for b m x t' S'
    by (rule served_control [OF c(2) that])
  show ?thesis
  proof (cases "S \<and> \<not> se_SvSixup E")
    case True
    then show ?thesis using served_control [OF s close_texts(1)] unfolding TryAcceptClient_def by simp
  next
    case False
    have "served a Slot s1 (TryAcceptClient E a st Slot V S t s)"
    proof (cases b)
      case True
      have "served a Slot s1 (Some s1)" using c(2) by (simp add: served_same)
      then show ?thesis using False True sub [OF close_texts(2)] by (cases Slot) (auto simp: TryAcceptClient_def c(1))
    next
      case nb: False
      show ?thesis
      proof (cases Slot)
        case (Some j)
        then show ?thesis using init [of j True] i False nb by (auto simp: TryAcceptClient_def c(1) slot_arg_def)
      next
        case None
        show ?thesis
        proof (cases "int (NumClientsWithAddr a s1) + 1 > ns_MaxClientsPerIp s1")
          case True
          then show ?thesis using False nb None sub [OF close_texts(4)] by (auto simp: TryAcceptClient_def c(1))
        next
          case room: False
          show ?thesis
          proof (cases "free_slot s1")
            case None
            then show ?thesis using False nb \<open>Slot = None\<close> room sub [OF close_texts(3)] by (auto simp: TryAcceptClient_def c(1))
          next
            case (Some j)
            then have "j \<in> set (ids s1)" "slot_state s1 j = OFFLINE"
              by (auto simp: free_slot_def find_Some_iff)
            then have "served a Slot s1 (init_slot E a st j False V S t s1)"
              using init [of j False] ids_bound [OF c(2)] room None by (simp add: slot_state_def)
            then show ?thesis using False nb \<open>Slot = None\<close> room Some by (auto simp: TryAcceptClient_def c(1))
          qed
        qed
      qed
    qed
    then show ?thesis using served_after [OF c(3,4) s] by blast
  qed
qed


subsection \<open>The handlers\<close>

lemma slot_arg_Some: "server_ok s \<Longrightarrow> slot_arg (Some i) \<Longrightarrow> slot_ok (ns_Slots s ! i)"
  using slot_ok_nth by (simp add: slot_arg_def)

lemma vanilla_connect_ok:
  assumes s: "server_ok s" and i: "slot_arg Slot"
  shows "served a Slot s (vanilla_connect E a Slot s)"
proof -
  define s1 where "s1 = (if e_Now (se_Net E) > ns_VConnFirst s + e_Freq (se_Net E)
    then s\<lparr>ns_VConnFirst := e_Now (se_Net E), ns_VConnNum := 0\<rparr> else s)"
  define s2 where "s2 = s1\<lparr>ns_VConnNum := ns_VConnNum s1 + 1\<rparr>"
  have s2: "server_ok s2" "quiet s s2" "ns_Events s2 = ns_Events s" using s by (simp_all add: s2_def s1_def)
  define s3 where "s3 = (case Slot of None \<Rightarrow> s2
    | Some i \<Rightarrow> set_slot i ((ns_Slots s2 ! i)\<lparr>c_SecurityToken := NET_SECURITY_TOKEN_UNKNOWN\<rparr>) s2)"
  have s3: "server_ok s3 \<and> quiet s2 s3 \<and> ns_Events s3 = ns_Events s2"
  proof (cases Slot)
    case None
    then show ?thesis using s2(1) by (simp add: s3_def)
  next
    case (Some j)
    have "slot_ok ((ns_Slots s2 ! j)\<lparr>c_SecurityToken := NET_SECURITY_TOKEN_UNKNOWN\<rparr>)"
      using slot_arg_Some [OF s2(1)] i Some by (simp add: slot_ok_def conn_ok_def building_def split_of_def)
    moreover have "quiet s2 (set_slot j ((ns_Slots s2 ! j)\<lparr>c_SecurityToken := NET_SECURITY_TOKEN_UNKNOWN\<rparr>) s2)"
      by (rule quiet_set_slot) (simp add: same_peer_def)
    ultimately show ?thesis using server_ok_set [OF s2(1)] Some by (simp add: s3_def)
  qed
  obtain bs where c: "srv_SendControl E a NET_CTRLMSG_CONNECTACCEPT [] NET_SECURITY_TOKEN_UNSUPPORTED s3 =
      Some (s3\<lparr>ns_Sent := ns_Sent s3 @ [(a, bs)]\<rparr>)"
    using srv_control_ok [of "[]"] unfolding srv_SendControl_def by fastforce
  define s4 where "s4 = s3\<lparr>ns_Sent := ns_Sent s3 @ [(a, bs)]\<rparr>"
  define F where "F = (se_SvVanConnPerSecond E \<noteq> 0 \<and> ns_VConnNum s2 > se_SvVanConnPerSecond E)"
  obtain bs' where m: "SendMsgs E a [MapChangeMsg F, MapDataMsg F, ConReadyMsg, SnapEmptyMsg (GetVanillaToken E s4 a),
      SnapEmptyMsg (GetVanillaToken E s4 a), SnapEmptyMsg (GetVanillaToken E s4 a)] s4 = Some (s4\<lparr>ns_Sent := ns_Sent s4 @ [(a, bs')]\<rparr>)"
    using handshake_msgs_ok by blast
  have "vanilla_connect E a Slot s =
    (if se_SvVanConnRepliesPerSecond E \<noteq> 0 \<and> ns_VConnNum s2 > se_SvVanConnRepliesPerSecond E then Some s2
     else Some (s4\<lparr>ns_Sent := ns_Sent s4 @ [(a, bs')]\<rparr>))"
    unfolding vanilla_connect_def Let_def s1_def [symmetric] s2_def [symmetric] s3_def [symmetric] F_def [symmetric] c
      bind.bind_lunit s4_def [symmetric] m ..
  moreover have "served a Slot s (Some s2)" using s s2 by (simp add: served_same)
  moreover have "served a Slot s (Some (s4\<lparr>ns_Sent := ns_Sent s4 @ [(a, bs')]\<rparr>))"
    using s s2 s3 quiet_trans [OF s2(2)] by (simp add: served_same s4_def)
  ultimately show ?thesis by simp
qed

lemma vanilla_input_ok:
  assumes "server_ok s" "env_ok E" "callbacks_set s" "addr_known a" "slot_arg Slot"
  shows "served a Slot s (vanilla_input E a p Slot s)"
proof -
  have "served a Slot s (Some s)" using assms(1) by (simp add: served_same)
  then show ?thesis unfolding vanilla_input_def Let_def
    using TryAcceptClient_ok [OF assms] by (simp split: prod.split)
qed

lemma OnPreConnMsg_ok:
  assumes "server_ok s" "env_ok E" "callbacks_set s" "addr_known a" "slot_arg Slot"
  shows "served a Slot s (OnPreConnMsg E a p Slot s)"
proof -
  have same: "served a Slot s (Some s)" using assms(1) by (simp add: served_same)
  obtain bs where c: "srv_SendControl E a NET_CTRLMSG_CONNECTACCEPT [] NET_SECURITY_TOKEN_UNSUPPORTED s =
      Some (s\<lparr>ns_Sent := ns_Sent s @ [(a, bs)]\<rparr>)"
    using srv_control_ok [of "[]"] unfolding srv_SendControl_def by fastforce
  have "served a Slot (s\<lparr>ns_Sent := ns_Sent s @ [(a, bs)]\<rparr>)
      (TryAcceptClient E a NET_SECURITY_TOKEN_UNSUPPORTED Slot False False 0 (s\<lparr>ns_Sent := ns_Sent s @ [(a, bs)]\<rparr>))"
    using assms by (intro TryAcceptClient_ok) (simp_all add: callbacks_set_def)
  then have t: "served a Slot s (TryAcceptClient E a NET_SECURITY_TOKEN_UNSUPPORTED Slot False False 0 (s\<lparr>ns_Sent := ns_Sent s @ [(a, bs)]\<rparr>))"
    by (rule served_after [rotated 3]) (use assms(1) in simp_all)
  show ?thesis unfolding OnPreConnMsg_def Let_def c bind.bind_lunit
    using same t vanilla_connect_ok [OF assms(1,5), of a E] vanilla_input_ok [OF assms, of p]
    by (simp only: if_split) blast
qed

lemma OnTokenCtrlMsg_ok:
  assumes "server_ok s" "env_ok E" "callbacks_set s" "addr_known a" "slot_arg Slot"
  shows "served a Slot s (OnTokenCtrlMsg E a m p Slot s)"
proof -
  have same: "served a Slot s (Some s)" using assms(1) by (simp add: served_same)
  have c: "served a Slot s (srv_SendControl E a NET_CTRLMSG_CONNECTACCEPT SECURITY_TOKEN_MAGIC t s)" for t
    unfolding srv_SendControl_def by (rule served_control [OF assms(1)]) (simp add: SECURITY_TOKEN_MAGIC_def lit_def)
  show ?thesis unfolding OnTokenCtrlMsg_def Let_def
    using same c TryAcceptClient_ok [OF assms] by (simp only: if_split) blast
qed

lemma OnSixupCtrlMsg_ok:
  assumes "server_ok s" "env_ok E" "callbacks_set s" "addr_known a" "slot_arg Slot"
  shows "\<exists>r rt' s'. OnSixupCtrlMsg E a m p rt t Slot s = Some (r, rt', s') \<and> served a Slot s (Some s')"
proof -
  have same: "served a Slot s (Some s)" using assms(1) by (simp add: served_same)
  define Resp where "Resp = ToSecurityToken (drop 1 (pk_ChunkData p))"
  define My where "My = srv_GetToken E s a"
  have "length (take n (WriteSecurityToken My @ replicate (NET_TOKENREQUEST_DATASIZE - 4) 0)) \<le> 1392" for n
    by (simp add: NET_TOKENREQUEST_DATASIZE_def)
  then have "served a Slot s (SendTokenSixup E a Resp s)"
    unfolding SendTokenSixup_def Let_def My_def using served_control [OF assms(1)] by blast
  then obtain s1 where s1: "SendTokenSixup E a Resp s = Some s1" "served a Slot s (Some s1)" by (auto simp: served_def)
  have "length (rev (WriteSecurityToken My)) \<le> 1392" by simp
  then obtain bs where c: "srv_control E a NET_CTRLMSG_CONNECTACCEPT (rev (WriteSecurityToken My)) Resp True s =
      Some (s\<lparr>ns_Sent := ns_Sent s @ [(a, bs)]\<rparr>)" using srv_control_ok by blast
  define s2 where "s2 = s\<lparr>ns_Sent := ns_Sent s @ [(a, bs)]\<rparr>"
  have "served a Slot s2 (TryAcceptClient E a Resp Slot False True t s2)"
    using assms by (intro TryAcceptClient_ok) (simp_all add: callbacks_set_def s2_def)
  then have "served a Slot s (TryAcceptClient E a Resp Slot False True t s2)"
    by (rule served_after [rotated 3]) (use assms(1) in \<open>simp_all add: s2_def\<close>)
  then obtain s3 where s3: "TryAcceptClient E a Resp Slot False True t s2 = Some s3" "served a Slot s (Some s3)" by (auto simp: served_def)
  have s2': "served a Slot s (Some s2)" using assms(1) by (simp add: served_same s2_def)
  have "OnSixupCtrlMsg E a m p rt t Slot s \<in>
      {Some (0, rt, s), Some (0, Resp, s1), Some (1, Resp, s), Some (0, Resp, s3), Some (0, Resp, s2), Some (0, Resp, s)}"
    unfolding OnSixupCtrlMsg_def Let_def Resp_def [symmetric] My_def [symmetric] c s1(1) bind.bind_lunit s2_def [symmetric]
    using s3(1) by auto
  then show ?thesis using same s1(2) s3(2) s2' by blast
qed


subsection \<open>The chunks of a packet that is stored\<close>

lemma check_sequence_peer: "check_sequence h c = (v, c') \<Longrightarrow> same_peer c c'"
  by (auto simp: check_sequence_def same_peer_def SignalResend_def split: if_splits)

lemma Unpack_peer:
  "UnpackNextChunk u c = (x, u', c') \<Longrightarrow>
     same_peer c c' \<and> cu_ClientId u' = cu_ClientId u \<and> (cu_Valid u' \<longrightarrow> cu_Valid u) \<and> (x = None \<longrightarrow> \<not> cu_Valid u')"
proof (induction u c rule: UnpackNextChunk.induct)
  case (1 u c)
  show ?case
  proof (cases "cu_Valid u \<and> cu_CurrentChunk u < pk_NumChunks (cu_Data u)")
    case False
    with 1(2) show ?thesis unfolding UnpackNextChunk.simps [of u c] by (auto split: if_splits)
  next
    case True
    show ?thesis
    proof (cases "next_chunk (c_Sixup c) (cu_Data u) (cu_CurrentOffset u)")
      case None
      with 1(2) True show ?thesis unfolding UnpackNextChunk.simps [of u c] by auto
    next
      case (Some y)
      obtain h d off where y: "y = (h, d, off)" by (cases y)
      obtain v c1 where v: "check_sequence h c = (v, c1)" by (cases "check_sequence h c")
      show ?thesis
      proof (cases v)
        case Accept
        with 1(2) True Some y v check_sequence_peer [OF v] show ?thesis
          unfolding UnpackNextChunk.simps [of u c] by (auto simp: Let_def)
      next
        case Ignore
        have n: "\<not> \<not> cu_Valid u" "\<not> pk_NumChunks (cu_Data u) \<le> cu_CurrentChunk u" using True by auto
        have "UnpackNextChunk (u\<lparr>cu_CurrentChunk := cu_CurrentChunk u + 1, cu_CurrentOffset := off\<rparr>) c1 = (x, u', c')"
          using 1(2) True Some y v Ignore unfolding UnpackNextChunk.simps [of u c] by (simp add: Let_def)
        moreover note 1(1) [OF n Some [unfolded y] refl refl refl v [symmetric] Ignore]
        ultimately show ?thesis using same_peer_trans [OF check_sequence_peer [OF v]] n by auto
      qed
    qed
  qed
qed

text \<open>The slots after a step, whatever the step does to the receive buffer and the unpacker.\<close>

definition settings :: "net_server \<Rightarrow> nat \<times> int \<times> bool \<times> bytes" where
  "settings s = (ns_MaxClients s, ns_MaxClientsPerIp s, callbacks_set s, ns_SecurityTokenSeed s)"

definition slots_fade :: "net_server \<Rightarrow> net_server \<Rightarrow> bool" where
  "slots_fade s s' \<longleftrightarrow> settings s' = settings s \<and> length (ns_Slots s') = length (ns_Slots s) \<and>
     (\<forall>i < length (ns_Slots s). fades (ns_Slots s ! i) (ns_Slots s' ! i))"

lemma slots_fade_refl [simp]: "slots_fade s s"
  by (simp add: slots_fade_def fades_def)

lemma fading_slots: "fading s s' \<Longrightarrow> slots_fade s s'"
  by (simp add: fading_def slots_fade_def settings_def same_frame_def callbacks_set_def)

lemma slots_fade_trans:
  assumes "slots_fade s s1" "slots_fade s1 s2"
  shows "slots_fade s s2"
proof -
  have "fades (ns_Slots s ! i) (ns_Slots s2 ! i)" if "i < length (ns_Slots s)" for i
  proof -
    have "fades (ns_Slots s ! i) (ns_Slots s1 ! i)" "fades (ns_Slots s1 ! i) (ns_Slots s2 ! i)"
      using assms that by (simp_all add: slots_fade_def)
    then show ?thesis by (rule fades_trans)
  qed
  then show ?thesis using assms by (simp add: slots_fade_def)
qed

lemma slots_fade_fields [simp]:
  "slots_fade s (s'\<lparr>ns_Unpacker := u\<rparr>) = slots_fade s s'" "slots_fade s (s'\<lparr>ns_RecvBuffer := b\<rparr>) = slots_fade s s'"
  "slots_fade s (s'\<lparr>ns_NumRecvPackets := x7\<rparr>) = slots_fade s s'"
  by (simp_all add: slots_fade_def settings_def callbacks_set_def)

lemma slots_fade_set: "same_peer (ns_Slots s ! i) c \<Longrightarrow> slots_fade s (set_slot i c s)"
  using fading_slots [OF fading_set_slot [OF same_peer_fades]] .

lemma set_slot_unpacker: "set_slot i c (s\<lparr>ns_Unpacker := u\<rparr>) = (set_slot i c s)\<lparr>ns_Unpacker := u\<rparr>"
  by (simp add: set_slot_def)

lemma stored_chunk_ok:
  assumes s: "server_ok s"
  shows "\<exists>x s'. stored_chunk s = Some (x, s') \<and> server_ok s' \<and> slots_fade s s' \<and> ns_Events s' = ns_Events s \<and>
    ns_RecvBuffer s' = ns_RecvBuffer s \<and> (x = None \<longrightarrow> \<not> cu_Valid (ns_Unpacker s'))"
proof (cases "cu_Valid (ns_Unpacker s)")
  case False
  then show ?thesis using s by (simp add: stored_chunk_def)
next
  case True
  define i where "i = nat (cu_ClientId (ns_Unpacker s))"
  have i: "i < NET_MAX_CLIENTS" "int i = cu_ClientId (ns_Unpacker s)" using s True by (auto simp: i_def server_ok_def)
  note c = slot_ok_nth [OF s i(1)]
  obtain x u c1 where u: "UnpackNextChunk (ns_Unpacker s) (ns_Slots s ! i) = (x, u, c1)" by (metis prod_cases3)
  note p = Unpack_peer [OF u]
  have c1: "slot_ok c1" using Unpack_ok [OF _ u] c by (simp add: slot_ok_def)
  define s1 where "s1 = (set_slot i c1 s)\<lparr>ns_Unpacker := u\<rparr>"
  have s1: "server_ok s1" "slots_fade s s1" "ns_Events s1 = ns_Events s" "ns_RecvBuffer s1 = ns_RecvBuffer s" "ns_Unpacker s1 = u"
    using server_ok_set [OF s c1, of i] p slots_fade_set [of s i c1] i
    by (auto simp: s1_def server_ok_def)
  have s2: "server_ok (s1\<lparr>ns_Unpacker := unpacker_Reset_chunks u\<rparr>)" using s1(1) by (simp add: server_ok_def unpacker_Reset_chunks_def)
  have "stored_chunk s = (case x of None \<Rightarrow> Some (None, s1)
      | Some ch \<Rightarrow> if c_State c1 \<noteq> OFFLINE
          then Some (Some \<lparr>nc_ClientId = nc_ClientId ch, nc_Address = nc_Address ch, nc_Flags = nc_Flags ch,
                        nc_Data = nc_Data ch, nc_ExtraData = []\<rparr>, s1)
          else Some (None, s1\<lparr>ns_Unpacker := unpacker_Reset_chunks u\<rparr>))"
    unfolding stored_chunk_def i_def [symmetric] conjunct2 [OF c] bind.bind_lunit u prod.case Let_def set_slot_unpacker s1_def [symmetric]
    using True by simp
  then show ?thesis using p s1 s2 by (auto split: option.split simp: unpacker_Reset_chunks_def)
qed

subsection \<open>Datagrams\<close>

lemma Feed_packet:
  "Feed E p a t rt c = Some (r, p', c') \<Longrightarrow> pk_Flags p' = pk_Flags p"
  by (auto simp: Feed_def check_token_def Let_def split: if_splits Option.bind_splits)

lemma feed_slot_ok:
  assumes s: "server_ok s" and i: "slot_arg Slot" and a: "addr_known a" and v: "\<not> cu_Valid (ns_Unpacker s)"
    and l: "\<forall>i. Slot = Some i \<longrightarrow> live (ns_Slots s ! i)"
    and f: "C \<or> pk_Flags (ns_RecvBuffer s) AND (NET_PACKETFLAG_CONNLESS OR NET_PACKETFLAG_CONTROL) = 0"
  shows "\<exists>s'. feed_slot E a Slot C t rt s = Some s' \<and> server_ok s' \<and> slots_fade s s' \<and> ns_Events s' = ns_Events s"
proof (cases Slot)
  case None
  then show ?thesis using s by (simp add: feed_slot_def)
next
  case (Some j)
  then have j: "j < NET_MAX_CLIENTS" using i by (simp add: slot_arg_def)
  note c = slot_ok_nth [OF s j]
  have p: "wf_packet (ns_RecvBuffer s)" using s by (simp add: server_ok_def)
  then have ack: "pk_Ack (ns_RecvBuffer s) < 1024" by (simp add: wf_packet_def)
  have lv: "live (ns_Slots s ! j)" using l Some by simp
  obtain r p' c' where fd: "Feed (se_Net E) (ns_RecvBuffer s) a t rt (ns_Slots s ! j) = Some (r, p', c')"
    using Feed_returns [OF conjunct1 [OF c] lv ack a] by blast
  have f1: "slot_ok c'" "fades (ns_Slots s ! j) c'" "wf_packet p'"
    using Feed_slot [OF conjunct1 [OF c] lv ack a fd] p by blast+
  define s1 where "s1 = (set_slot j c' s)\<lparr>ns_RecvBuffer := p'\<rparr>"
  have s1: "server_ok s1" "slots_fade s s1" "ns_Events s1 = ns_Events s" "ns_Unpacker s1 = ns_Unpacker s"
    using server_ok_set [OF s f1(1), of j] f1(3) fading_slots [OF fading_set_slot [OF f1(2)]] by (simp_all add: s1_def server_ok_def)
  show ?thesis
  proof (cases "r \<noteq> 0 \<and> \<not> C \<and> pk_DataSize p' > 0 \<and> pk_NumChunks p' > 0")
    case False
    then have "feed_slot E a Slot C t rt s = Some s1"
      unfolding feed_slot_def Some option.case conjunct2 [OF c] bind.bind_lunit fd prod.case Let_def s1_def [symmetric]
      by (simp only: if_False)
    then show ?thesis using s1 by blast
  next
    case True
    have "FeedPacket a p' (int j) (ns_Unpacker s1) = Some \<lparr>cu_Valid = True, cu_Addr = a, cu_CurrentChunk = 0, cu_CurrentOffset = 0,
        cu_ClientId = int j, cu_Data = p'\<rparr>"
      using True v f s1(4) Feed_packet [OF fd] by (simp add: FeedPacket_def)
    then have "feed_slot E a Slot C t rt s = Some (s1\<lparr>ns_Unpacker := \<lparr>cu_Valid = True, cu_Addr = a, cu_CurrentChunk = 0, cu_CurrentOffset = 0,
        cu_ClientId = int j, cu_Data = p'\<rparr>\<rparr>)"
      unfolding feed_slot_def Some option.case conjunct2 [OF c] bind.bind_lunit fd prod.case Let_def s1_def [symmetric]
      using True by simp
    moreover have "server_ok (s1\<lparr>ns_Unpacker := \<lparr>cu_Valid = True, cu_Addr = a, cu_CurrentChunk = 0, cu_CurrentOffset = 0,
        cu_ClientId = int j, cu_Data = p'\<rparr>\<rparr>)"
      using s1(1) j by (simp add: server_ok_def)
    ultimately show ?thesis using s1(2,3) by simp
  qed
qed


lemma unpack_flags:
  assumes "UnpackPacketFlags bs = Some F" "F AND NET_PACKETFLAG_CONNLESS \<noteq> 0" "snd (UnpackPacket h bs q S A True True) = Inr un"
  shows "pk_Flags (u_Packet un) AND NET_PACKETFLAG_CONNLESS \<noteq> 0"
  using assms by (auto simp: UnpackPacket_def unpack_connless_def Let_def packet_flags split: if_splits sum.splits)

text \<open>What one datagram of an address does to the slots: at most one of them is given to the address.\<close>

definition effect :: "netaddr \<Rightarrow> net_server \<Rightarrow> net_server \<Rightarrow> bool" where
  "effect a s s' \<longleftrightarrow> slots_fade s s' \<and> ns_Events s' = ns_Events s \<or>
     (\<exists>i ev. i < length (ns_Slots s) \<and> settings s' = settings s \<and> length (ns_Slots s') = length (ns_Slots s) \<and>
        c_PeerAddr (ns_Slots s' ! i) = a \<and> (\<forall>j < length (ns_Slots s). j \<noteq> i \<longrightarrow> fades (ns_Slots s ! j) (ns_Slots s' ! j)) \<and>
        ns_Events s' = ns_Events s @ [ev] \<and>
        (case GetClientSlot a s of Some j \<Rightarrow> i = j
         | None \<Rightarrow> c_State (ns_Slots s ! i) = OFFLINE \<and> int (NumClientsWithAddr a s) + 1 \<le> ns_MaxClientsPerIp s))"

lemma GetClientSlot_Some:
  "GetClientSlot a s = Some i \<Longrightarrow> i \<in> set (ids s) \<and> live (ns_Slots s ! i) \<and> net_addr_comp (c_PeerAddr (ns_Slots s ! i)) a = 0"
  by (auto simp: GetClientSlot_def find_Some_iff live_def slot_state_def)

lemma at_most_one_live:
  assumes "at_most_one a Slot s s'" "server_ok s" "slot_arg Slot" "Slot = Some i" "live (ns_Slots s ! i)"
  shows "live (ns_Slots s' ! i)"
proof -
  have i: "i < length (ns_Slots s)" using assms(2-4) by (simp add: slot_arg_def server_ok_def)
  consider "quiet s s'" | "becomes i a s s'" using assms(1,4) by (auto simp: at_most_one_def admits_def)
  then show ?thesis
  proof cases
    case 1
    then show ?thesis using assms(5) i by (simp add: quiet_def same_peer_def live_def)
  next
    case 2
    then show ?thesis by (simp add: becomes_def live_def)
  qed
qed

lemma at_most_one_frame: "at_most_one a Slot s s' \<Longrightarrow> same_frame s s'"
  by (auto simp: at_most_one_def admits_def quiet_def becomes_def)

lemma effect_at_most_one:
  assumes s: "ns_Slots s1 = ns_Slots s" "settings s1 = settings s" "ns_Events s1 = ns_Events s"
    and a: "at_most_one a (GetClientSlot a s) s1 s2" and f: "slots_fade s2 s3" "ns_Events s3 = ns_Events s2"
  shows "effect a s s3"
proof -
  have m: "ids s1 = ids s" "ns_MaxClientsPerIp s1 = ns_MaxClientsPerIp s" using s(2) by (simp_all add: settings_def ids_def)
  then have n: "NumClientsWithAddr a s1 = NumClientsWithAddr a s" using s(1) by (simp add: NumClientsWithAddr_def slot_state_def)
  have set12: "settings s2 = settings s1" "length (ns_Slots s2) = length (ns_Slots s1)"
    using at_most_one_frame [OF a] by (auto simp: settings_def same_frame_def callbacks_set_def)
  consider "quiet s1 s2" "ns_Events s2 = ns_Events s1" | "admits a (GetClientSlot a s) s1 s2" using a by (auto simp: at_most_one_def)
  then show ?thesis
  proof cases
    case 1
    have "slots_fade s1 s3" using slots_fade_trans [OF fading_slots [OF quiet_fading [OF 1(1)]] f(1)] .
    then have "slots_fade s s3" using s by (simp add: slots_fade_def)
    then show ?thesis using 1(2) f(2) s(3) by (simp add: effect_def)
  next
    case 2
    then obtain i ev where b: "becomes i a s1 s2" "ns_Events s2 = ns_Events s1 @ [ev]"
      "case GetClientSlot a s of Some j \<Rightarrow> i = j
        | None \<Rightarrow> c_State (ns_Slots s1 ! i) = OFFLINE \<and> int (NumClientsWithAddr a s1) + 1 \<le> ns_MaxClientsPerIp s1"
      unfolding admits_def by blast
    have il: "i < length (ns_Slots s)" using b(1) s(1) by (simp add: becomes_def)
    have st: "settings s3 = settings s" "length (ns_Slots s3) = length (ns_Slots s)"
      using f(1) set12 s(1,2) by (simp_all add: slots_fade_def)
    have f3: "fades (ns_Slots s2 ! j) (ns_Slots s3 ! j)" if "j < length (ns_Slots s)" for j
      using f(1) set12(2) s(1) that by (simp add: slots_fade_def)
    have pa: "c_PeerAddr (ns_Slots s3 ! i) = a" using b(1) f3 [OF il] by (simp add: becomes_def fades_def)
    have "fades (ns_Slots s ! j) (ns_Slots s2 ! j)" if "j < length (ns_Slots s)" "j \<noteq> i" for j
      using b(1) that s(1) by (simp add: becomes_def same_peer_fades)
    then have others: "\<forall>j < length (ns_Slots s). j \<noteq> i \<longrightarrow> fades (ns_Slots s ! j) (ns_Slots s3 ! j)"
      using f3 fades_trans by blast
    have ev: "ns_Events s3 = ns_Events s @ [ev]" using b(2) f(2) s(3) by simp
    show ?thesis unfolding effect_def
      by (rule disjI2, rule exI [of _ i], rule exI [of _ ev])
        (use il st pa others ev b(3) s(1) n m(2) in \<open>simp only: simp_thms\<close>)
  qed
qed

lemma connected_flags:
  "f AND NET_PACKETFLAG_CONNLESS = 0 \<Longrightarrow> f AND NET_PACKETFLAG_CONTROL = 0 \<Longrightarrow>
   f AND (NET_PACKETFLAG_CONNLESS OR NET_PACKETFLAG_CONTROL) = 0"
  by (simp add: bit.conj_disj_distrib)

text \<open>The state in which the handlers of a datagram run: counters and the receive buffer are written.\<close>

definition received :: "net_server \<Rightarrow> int \<Rightarrow> net_packet \<Rightarrow> net_server" where
  "received s n p = s\<lparr>ns_NumPreConnDecompress := n, ns_RecvBuffer := p\<rparr>"

definition handle :: "srv_env \<Rightarrow> netaddr \<Rightarrow> unpacked \<Rightarrow> token \<Rightarrow> token \<Rightarrow> nat option \<Rightarrow> net_server \<Rightarrow> (int \<times> token \<times> net_server) option" where
  "handle E a un t rt Slot s =
     (let p = u_Packet un; Control = (pk_Flags p AND NET_PACKETFLAG_CONTROL \<noteq> 0) in
      if u_Sixup un \<and> Control then OnSixupCtrlMsg E a (pk_ChunkData p ! 0) p rt t Slot s
      else map_option (\<lambda>s'. (0, rt, s'))
        (if IsDDNetControlMsg p \<and> Control then OnTokenCtrlMsg E a (pk_ChunkData p ! 0) p Slot s
         else OnPreConnMsg E a p Slot s))"

lemma handle_ok:
  assumes "server_ok s" "env_ok E" "callbacks_set s" "addr_known a" "slot_arg Slot"
  shows "\<exists>r rt' s'. handle E a un t rt Slot s = Some (r, rt', s') \<and> served a Slot s (Some s')"
proof -
  let ?p = "u_Packet un" and ?m = "pk_ChunkData (u_Packet un) ! 0"
  obtain s1 s2 where "OnTokenCtrlMsg E a ?m ?p Slot s = Some s1" "served a Slot s (Some s1)"
      "OnPreConnMsg E a ?p Slot s = Some s2" "served a Slot s (Some s2)"
    using OnTokenCtrlMsg_ok [OF assms, of ?m ?p] OnPreConnMsg_ok [OF assms, of ?p] by (auto simp: served_def)
  then show ?thesis using OnSixupCtrlMsg_ok [OF assms, of ?m ?p rt t] unfolding handle_def Let_def by auto
qed

lemma srv_packet_handle:
  assumes b: "se_IsBanned E a = None" and F: "UnpackPacketFlags data = Some Flags"
    and Slot: "Slot = (if Flags AND NET_PACKETFLAG_CONNLESS = 0 then GetClientSlot a s else None)"
    and up: "UnpackPacket (e_Huffman (se_Net E)) data (ns_RecvBuffer s) (case Slot of None \<Rightarrow> False | Some i \<Rightarrow> c_Sixup (ns_Slots s ! i))
                (allow_decompression E data Slot s) True True = (d, Inr un)"
    and c: "pk_Flags (u_Packet un) AND NET_PACKETFLAG_CONNLESS = 0"
    and t: "t = (case u_SecurityToken un of Some t \<Rightarrow> t | None \<Rightarrow> 0)" and rt1: "rt1 = (case u_ResponseToken un of Some t \<Rightarrow> t | None \<Rightarrow> rt)"
    and n: "n = (if Slot = None \<and> d then ns_NumPreConnDecompress s + 1 else ns_NumPreConnDecompress s)"
  shows "srv_packet E a data rt s =
    (case handle E a un t rt1 Slot (received s n (u_Packet un)) of None \<Rightarrow> None
     | Some (r, rt2, s3) \<Rightarrow>
        if r = 1 then Some (Some \<lparr>nc_ClientId = - 1, nc_Address = a, nc_Flags = 0, nc_Data = [], nc_ExtraData = []\<rparr>, rt2, s3)
        else (case feed_slot E a Slot (pk_Flags (u_Packet un) AND NET_PACKETFLAG_CONTROL \<noteq> 0) t rt2 s3 of None \<Rightarrow> None
              | Some s4 \<Rightarrow> Some (None, rt2, s4)))"
proof -
  have r: "(if Slot = None \<and> d then s\<lparr>ns_NumPreConnDecompress := ns_NumPreConnDecompress s + 1\<rparr> else s)\<lparr>ns_RecvBuffer := u_Packet un\<rparr> =
      received s n (u_Packet un)"
    by (simp add: received_def n)
  have bind: "Option.bind x (\<lambda>(r, rt2, s3). f r rt2 s3) = (case x of None \<Rightarrow> None | Some (r, rt2, s3) \<Rightarrow> f r rt2 s3)"
    for x :: "(int \<times> token \<times> net_server) option" and f :: "int \<Rightarrow> token \<Rightarrow> net_server \<Rightarrow> (srv_chunk option \<times> token \<times> net_server) option"
    by (cases x) auto
  have bind1: "Option.bind x f = (case x of None \<Rightarrow> None | Some s4 \<Rightarrow> f s4)"
    for x :: "net_server option" and f :: "net_server \<Rightarrow> (srv_chunk option \<times> token \<times> net_server) option"
    by (cases x) auto
  show ?thesis
    unfolding srv_packet_def b F option.case Let_def Slot [symmetric] up prod.case sum.case t [symmetric] rt1 [symmetric] r bind bind1
      handle_def
    using c by (simp only: not_not if_False simp_thms)
qed

lemma srv_packet_ok:
  assumes s: "server_ok s" and E: "env_ok E" and cb: "callbacks_set s" and a: "addr_known a" and v: "\<not> cu_Valid (ns_Unpacker s)"
  shows "\<exists>x rt' s'. srv_packet E a data rt s = Some (x, rt', s') \<and> server_ok s' \<and> effect a s s' \<and>
    (x = None \<or> \<not> cu_Valid (ns_Unpacker s'))"
proof (cases "se_IsBanned E a")
  case (Some msg)
  have "length (msg @ [0]) \<le> 1392" using E Some by (fastforce simp: env_ok_def)
  from srv_control_ok [OF this, of E a NET_CTRLMSG_CLOSE NET_SECURITY_TOKEN_UNSUPPORTED False "s\<lparr>ns_NumBanReplies := ns_NumBanReplies s + 1\<rparr>"]
  obtain bs where
    "srv_control E a NET_CTRLMSG_CLOSE (msg @ [0]) NET_SECURITY_TOKEN_UNSUPPORTED False (s\<lparr>ns_NumBanReplies := ns_NumBanReplies s + 1\<rparr>) =
      Some (s\<lparr>ns_NumBanReplies := ns_NumBanReplies s + 1, ns_Sent := ns_Sent s @ [(a, bs)]\<rparr>)" by auto
  moreover have "slots_fade s (s\<lparr>ns_NumBanReplies := n, ns_Sent := x\<rparr>)" for n x
    by (rule fading_slots [OF quiet_fading]) simp
  ultimately show ?thesis using Some s by (simp add: srv_packet_def effect_def)
next
  case None
  note ban = None
  show ?thesis
  proof (cases "UnpackPacketFlags data")
    case None
    then show ?thesis using ban s by (simp add: srv_packet_def effect_def)
  next
    case (Some Flags)
    define Slot where "Slot = (if Flags AND NET_PACKETFLAG_CONNLESS = 0 then GetClientSlot a s else None)"
    define Sixup0 where "Sixup0 = (case Slot of None \<Rightarrow> False | Some i \<Rightarrow> c_Sixup (ns_Slots s ! i))"
    obtain d res where up: "UnpackPacket (e_Huffman (se_Net E)) data (ns_RecvBuffer s) Sixup0 (allow_decompression E data Slot s) True True = (d, res)"
      by fastforce
    define n where "n = (if Slot = None \<and> d then ns_NumPreConnDecompress s + 1 else ns_NumPreConnDecompress s)"
    define s1 where "s1 = (if Slot = None \<and> d then s\<lparr>ns_NumPreConnDecompress := ns_NumPreConnDecompress s + 1\<rparr> else s)"
    have s1: "server_ok s1" "slots_fade s s1" "ns_Events s1 = ns_Events s" "ns_Unpacker s1 = ns_Unpacker s"
      using s fading_slots [OF quiet_fading, of s "s\<lparr>ns_NumPreConnDecompress := ns_NumPreConnDecompress s + 1\<rparr>"] by (simp_all add: s1_def)
    have wf: "wf_packet (ns_RecvBuffer s)" using s by (simp add: server_ok_def)
    note safe = unpack_safe [OF wf, of "e_Huffman (se_Net E)" data Sixup0 "allow_decompression E data Slot s", unfolded up snd_conv]
    have sl: "slot_arg Slot" "\<And>i. Slot = Some i \<Longrightarrow> live (ns_Slots s ! i)"
      using GetClientSlot_Some [of a s] ids_bound [OF s] by (auto simp: Slot_def slot_arg_def split: option.split if_splits)
    show ?thesis
    proof (cases res)
      case (Inl e)
      have "srv_packet E a data rt s = Some (None, rt, s1)"
        unfolding srv_packet_def ban Some option.case Let_def Slot_def [symmetric] Sixup0_def [symmetric] up prod.case Inl sum.case
          s1_def [symmetric] ..
      then show ?thesis using s1 by (simp add: effect_def)
    next
      case (Inr un)
      define p where "p = u_Packet un"
      have p: "wf_packet p" using safe Inr by (simp add: p_def)
      define s2 where "s2 = received s n p"
      have s2: "server_ok s2" "ns_Slots s2 = ns_Slots s" "settings s2 = settings s" "ns_Events s2 = ns_Events s"
          "ns_RecvBuffer s2 = p" "ns_Unpacker s2 = ns_Unpacker s" "callbacks_set s2" "slots_fade s s2"
        using s p cb by (simp_all add: s2_def received_def settings_def callbacks_set_def server_ok_def slots_fade_def fades_def)
      have s12: "s1\<lparr>ns_RecvBuffer := p\<rparr> = s2" by (simp add: s1_def s2_def received_def n_def)
      show ?thesis
      proof (cases "pk_Flags p AND NET_PACKETFLAG_CONNLESS = 0")
        case False
        define t where "t = (case u_SecurityToken un of Some t \<Rightarrow> t | None \<Rightarrow> 0)"
        define rt1 where "rt1 = (case u_ResponseToken un of Some t \<Rightarrow> t | None \<Rightarrow> rt)"
        have "srv_packet E a data rt s =
            (if u_Sixup un \<and> t \<noteq> srv_GetToken E s2 a \<and> t \<noteq> GetGlobalToken E s2 then Some (None, rt1, s2)
             else Some (Some (connless_chunk a p), rt1, s2))"
          unfolding srv_packet_def ban Some option.case Let_def Slot_def [symmetric] Sixup0_def [symmetric] up prod.case Inr sum.case
            s1_def [symmetric] p_def [symmetric] s12 t_def [symmetric] rt1_def [symmetric]
          using False by simp
        then show ?thesis using s2 v by (simp add: effect_def)
      next
        case True
        have Slot: "Slot = GetClientSlot a s"
        proof (cases "Flags AND NET_PACKETFLAG_CONNLESS = 0")
          case False
          then show ?thesis using unpack_flags [OF Some, of "e_Huffman (se_Net E)" "ns_RecvBuffer s" Sixup0 "allow_decompression E data Slot s" un]
            up Inr True by (simp add: p_def)
        qed (simp add: Slot_def)
        obtain r rt2 s3 where h: "handle E a un (case u_SecurityToken un of Some t \<Rightarrow> t | None \<Rightarrow> 0)
            (case u_ResponseToken un of Some t \<Rightarrow> t | None \<Rightarrow> rt) Slot s2 = Some (r, rt2, s3)" "served a Slot s2 (Some s3)"
          using handle_ok [OF s2(1) E s2(7) a sl(1)] by blast
        have s3: "server_ok s3" "at_most_one a Slot s2 s3" using h(2) by (simp_all add: served_def)
        have fr: "ns_RecvBuffer s3 = p" "ns_Unpacker s3 = ns_Unpacker s"
          using at_most_one_frame [OF s3(2)] s2(5,6) by (simp_all add: same_frame_def)
        have lv: "\<forall>i. Slot = Some i \<longrightarrow> live (ns_Slots s3 ! i)"
          using at_most_one_live [OF s3(2) s2(1) sl(1)] sl(2) s2(2) by simp
        have feed: "pk_Flags p AND NET_PACKETFLAG_CONTROL \<noteq> 0 \<or>
            pk_Flags (ns_RecvBuffer s3) AND (NET_PACKETFLAG_CONNLESS OR NET_PACKETFLAG_CONTROL) = 0"
          using connected_flags [OF True] fr(1) by blast
        obtain s4 where f: "feed_slot E a Slot (pk_Flags p AND NET_PACKETFLAG_CONTROL \<noteq> 0)
            (case u_SecurityToken un of Some t \<Rightarrow> t | None \<Rightarrow> 0) rt2 s3 = Some s4" "server_ok s4" "slots_fade s3 s4" "ns_Events s4 = ns_Events s3"
          using feed_slot_ok [OF s3(1) sl(1) a _ lv feed, of E] v fr(2) by auto
        note e = effect_at_most_one [OF s2(2-4)]
        have e4: "effect a s s4" "effect a s s3" using e [OF _ f(3,4)] e [OF _ slots_fade_refl refl] s3(2) Slot by blast+
        have "srv_packet E a data rt s =
            (if r = 1 then Some (Some \<lparr>nc_ClientId = - 1, nc_Address = a, nc_Flags = 0, nc_Data = [], nc_ExtraData = []\<rparr>, rt2, s3)
             else Some (None, rt2, s4))"
          using srv_packet_handle [OF ban Some Slot_def up [unfolded Sixup0_def Inr] _ refl refl n_def, of rt] True h(1) f(1)
          by (simp add: p_def [symmetric] s2_def [symmetric])
        then show ?thesis using s3(1) f(2) e4 v fr(2) by simp
      qed
    qed
  qed
qed

text \<open>The receive loop, for a property of the slots that every datagram keeps.\<close>

lemma settings_callbacks: "settings s' = settings s \<Longrightarrow> callbacks_set s' = callbacks_set s"
  by (simp add: settings_def)

lemma effect_settings: "effect a s s' \<Longrightarrow> settings s' = settings s"
  by (auto simp: effect_def slots_fade_def)

lemma srv_Recv_ok:
  assumes E: "env_ok E" and fade: "\<And>s s'. server_ok s \<Longrightarrow> P s \<Longrightarrow> slots_fade s s' \<Longrightarrow> P s'"
    and eff: "\<And>a s s'. server_ok s \<Longrightarrow> P s \<Longrightarrow> Q a \<Longrightarrow> effect a s s' \<Longrightarrow> P s'"
  shows "server_ok s \<Longrightarrow> callbacks_set s \<Longrightarrow> P s \<Longrightarrow> \<forall>(a, d) \<in> set ins. addr_known a \<and> Q a \<Longrightarrow>
    \<exists>x rt' rest s'. srv_Recv E ins rt s = Some (x, rt', rest, s') \<and> server_ok s' \<and> callbacks_set s' \<and> P s' \<and> settings s' = settings s"
proof (induction ins arbitrary: s rt)
  case Nil
  obtain x s' where "stored_chunk s = Some (x, s')" "server_ok s'" "slots_fade s s'" using stored_chunk_ok [OF Nil.prems(1)] by blast
  moreover have "P s'" by (rule fade [OF Nil.prems(1,3) calculation(3)])
  moreover have "settings s' = settings s" using calculation(3) by (simp add: slots_fade_def)
  ultimately show ?case using Nil.prems(2) settings_callbacks [of s' s] by simp
next
  case (Cons i ins)
  obtain a d where i: "i = (a, d)" by (cases i)
  have a: "addr_known a" "Q a" using Cons.prems(4) i by auto
  obtain x s1 where s1: "stored_chunk s = Some (x, s1)" "server_ok s1" "slots_fade s s1" "x = None \<longrightarrow> \<not> cu_Valid (ns_Unpacker s1)"
    using stored_chunk_ok [OF Cons.prems(1)] by blast
  have P1: "P s1" "callbacks_set s1" "settings s1 = settings s"
    using fade [OF Cons.prems(1,3) s1(3)] s1(3) Cons.prems(2) settings_callbacks [of s1 s] by (simp_all add: slots_fade_def)
  show ?case
  proof (cases "x \<noteq> None \<or> se_SvMaxPacketsPerRecv E \<noteq> 0 \<and> ns_NumRecvPackets s1 \<ge> se_SvMaxPacketsPerRecv E \<or> d = []")
    case True
    then show ?thesis using s1 P1 by (cases x) (auto simp: i)
  next
    case False
    define s2 where "s2 = s1\<lparr>ns_NumRecvPackets := ns_NumRecvPackets s1 + 1\<rparr>"
    have f2: "slots_fade s1 s2" by (simp add: s2_def)
    have s2: "server_ok s2" "callbacks_set s2" "\<not> cu_Valid (ns_Unpacker s2)" "settings s2 = settings s"
      using s1 P1 False by (simp_all add: s2_def callbacks_set_def settings_def)
    obtain y rt1 s3 where s3: "srv_packet E a d rt s2 = Some (y, rt1, s3)" "server_ok s3" "effect a s2 s3"
      using srv_packet_ok [OF s2(1) E s2(2) a(1) s2(3)] by blast
    have P3: "P s3" "callbacks_set s3" "settings s3 = settings s"
      using eff [OF s2(1) fade [OF s1(2) P1(1) f2] a(2) s3(3)] effect_settings [OF s3(3)] s2(2,4) settings_callbacks [of s3 s2] by simp_all
    have eq: "srv_Recv E (i # ins) rt s = (case y of None \<Rightarrow> srv_Recv E ins rt1 s3 | Some ch \<Rightarrow> Some (Some ch, rt1, ins, s3))"
      using s1(1) s3(1) False unfolding s2_def by (cases y) (auto simp: i)
    show ?thesis
    proof (cases y)
      case None
      then show ?thesis using eq Cons.IH [OF s3(2) P3(2,1)] Cons.prems(4) P3(3) by simp
    next
      case (Some ch)
      then show ?thesis using eq s3(2) P3 by simp
    qed
  qed
qed

end
