(* ===== verification/NetServerProps.thy ===== *)
theory NetServerProps
  imports NetServerInv
begin

text \<open>
  Runs of \<open>CNetServer\<close>: any interleaving of the calls the engine makes, from \<open>Open\<close> on. No run trips an
  assertion or leaves an array, no two clients share an address, and an address has never more clients
  than it may have. A client is accepted only for a packet that shows the token of its address. The
  exception is a slot that is given to a bot: it keeps the address of its last client.
\<close>

subsection \<open>Runs\<close>

datatype srv_cmd = RecvCmd "(netaddr \<times> bytes) list" token | SendCmd srv_chunk | UpdateCmd | DropCmd nat reason
  | BeginFlushCmd | EndFlushCmd | LimitCmd int | IgnoreTimeoutsCmd nat | ResetErrorCmd nat | BotInitCmd nat | BotDeleteCmd nat

fun run_cmd :: "srv_env \<Rightarrow> srv_cmd \<Rightarrow> net_server \<Rightarrow> net_server option" where
  "run_cmd E (RecvCmd ins rt) s = (case srv_Recv E ins rt s of None \<Rightarrow> None | Some (x, rt', rest, s') \<Rightarrow> Some s')"
| "run_cmd E (SendCmd ch) s = (case srv_Send E ch s of None \<Rightarrow> None | Some (r, s') \<Rightarrow> Some s')"
| "run_cmd E UpdateCmd s = srv_Update E s"
| "run_cmd E (DropCmd i r) s = srv_Drop E i r s"
| "run_cmd E BeginFlushCmd s = Some (BeginFlushBatch s)"
| "run_cmd E EndFlushCmd s = EndFlushBatch E s"
| "run_cmd E (LimitCmd k) s = Some (SetMaxClientsPerIp k s)"
| "run_cmd E (IgnoreTimeoutsCmd i) s = Some (IgnoreTimeouts i s)"
| "run_cmd E (ResetErrorCmd i) s = Some (srv_ResetErrorString i s)"
| "run_cmd E (BotInitCmd i) s = Some (BotInit i s)"
| "run_cmd E (BotDeleteCmd i) s = Some (BotDelete i s)"

fun run_cmds :: "(srv_env \<times> srv_cmd) list \<Rightarrow> net_server \<Rightarrow> net_server option" where
  "run_cmds [] s = Some s"
| "run_cmds (x # xs) s = (case run_cmd (fst x) (snd x) s of None \<Rightarrow> None | Some s1 \<Rightarrow> run_cmds xs s1)"

text \<open>The calls that keep to the contract: addresses of a family that is known, slots and chunks in range.\<close>

fun cmd_ok :: "nat \<Rightarrow> srv_cmd \<Rightarrow> bool" where
  "cmd_ok n (RecvCmd ins rt) = (\<forall>(a, d) \<in> set ins. addr_known a \<and> wf_addr a)"
| "cmd_ok n (SendCmd ch) = chunk_ok n ch"
| "cmd_ok n (DropCmd i r) = (i < NET_MAX_CLIENTS \<and> (case r of Reason x \<Rightarrow> length x < 1392 | _ \<Rightarrow> True))"
| "cmd_ok n (IgnoreTimeoutsCmd i) = (i < NET_MAX_CLIENTS)"
| "cmd_ok n (ResetErrorCmd i) = (i < NET_MAX_CLIENTS)"
| "cmd_ok n (BotInitCmd i) = (i < NET_MAX_CLIENTS)"
| "cmd_ok n (BotDeleteCmd i) = (i < NET_MAX_CLIENTS)"
| "cmd_ok n _ = True"

fun no_bots :: "srv_cmd \<Rightarrow> bool" where
  "no_bots (BotInitCmd i) = False" | "no_bots _ = True"

fun no_limit :: "srv_cmd \<Rightarrow> bool" where
  "no_limit (LimitCmd k) = False" | "no_limit _ = True"

subsection \<open>Every step returns\<close>

lemma slot_ok_upd:
  "slot_ok c \<Longrightarrow> slot_ok (c\<lparr>c_TimeoutProtected := True\<rparr>)" "slot_ok c \<Longrightarrow> slot_ok (ResetErrorString c)"
  "slot_ok c \<Longrightarrow> slot_ok (BotConnect c)" "slot_ok c \<Longrightarrow> slot_ok (BotDrop c)"
  by (simp_all add: slot_ok_def ResetErrorString_def BotConnect_def BotDrop_def server_states_def)
    (auto simp: conn_ok_def building_def split_of_def)

text \<open>A property of servers that a step may change only by a datagram, by a new limit or by a bot.\<close>

lemma run_cmd_ok:
  assumes s: "server_ok s" and cb: "callbacks_set s" and E: "env_ok E" and c: "cmd_ok (ns_MaxClients s) c"
    and fade: "\<And>s s'. server_ok s \<Longrightarrow> P s \<Longrightarrow> slots_fade s s' \<Longrightarrow> P s'"
    and eff: "\<And>a s s'. server_ok s \<Longrightarrow> P s \<Longrightarrow> wf_addr a \<Longrightarrow> effect a s s' \<Longrightarrow> P s'"
    and lim: "\<And>s k. c = LimitCmd k \<Longrightarrow> P s \<Longrightarrow> P (SetMaxClientsPerIp k s)"
    and ign: "\<And>s i. P s \<Longrightarrow> P (IgnoreTimeouts i s)"
    and bot: "\<And>s i. c = BotInitCmd i \<Longrightarrow> P s \<Longrightarrow> P (BotInit i s)"
    and P: "P s"
  shows "\<exists>s'. run_cmd E c s = Some s' \<and> server_ok s' \<and> callbacks_set s' \<and> ns_MaxClients s' = ns_MaxClients s \<and> P s'"
proof -
  have fin: ?thesis if "run_cmd E c s = Some s'" "server_ok s'" "slots_fade s s'" for s'
    using that fade [OF s P that(3)] cb settings_callbacks [of s' s] by (auto simp: slots_fade_def settings_def)
  have slot: ?thesis if "run_cmd E c s = Some (set_slot i x s)" "slot_ok x" "fades (ns_Slots s ! i) x" for i x
    by (rule fin [OF that(1) server_ok_set [OF s that(2)] fading_slots [OF fading_set_slot [OF that(3)]]])
  show ?thesis
  proof (cases c)
    case (RecvCmd ins rt)
    have ins: "\<forall>(a, d) \<in> set ins. addr_known a \<and> wf_addr a" using c RecvCmd by simp
    have "\<exists>x rt' rest s'. srv_Recv E ins rt s = Some (x, rt', rest, s') \<and> server_ok s' \<and> callbacks_set s' \<and> P s' \<and> settings s' = settings s"
    proof (rule srv_Recv_ok [where P = P and Q = wf_addr, OF E _ _ s cb P ins])
      show "P s2" if "server_ok s1" "P s1" "slots_fade s1 s2" for s1 s2 by (rule fade [OF that])
      show "P s2" if "server_ok s1" "P s1" "wf_addr a" "effect a s1 s2" for a s1 s2 by (rule eff [OF that])
    qed
    then show ?thesis using RecvCmd by (auto simp: settings_def)
  next
    case (SendCmd ch)
    then obtain r s' where s': "srv_Send E ch s = Some (r, s')" "server_ok s'" "quiet s s'"
      using srv_Send_ok [OF s, of ch E] c by auto
    show ?thesis by (rule fin [OF _ s'(2) fading_slots [OF quiet_fading [OF s'(3)]]]) (simp add: SendCmd s'(1))
  next
    case UpdateCmd
    then obtain s' where s': "srv_Update E s = Some s'" "server_ok s'" "fading s s'" using srv_Update_ok [OF s E] by blast
    show ?thesis by (rule fin [OF _ s'(2) fading_slots [OF s'(3)]]) (simp add: UpdateCmd s'(1))
  next
    case (DropCmd i r)
    then have i: "i < NET_MAX_CLIENTS" "\<forall>x. r = Reason x \<longrightarrow> length x < 1392" using c by auto
    obtain s' where s': "srv_Drop E i r s = Some s'" "server_ok s'" "fading s s'" using Drop_ok [OF s E i] by blast
    show ?thesis by (rule fin [OF _ s'(2) fading_slots [OF s'(3)]]) (simp add: DropCmd s'(1))
  next
    case BeginFlushCmd
    show ?thesis by (rule fin [of "BeginFlushBatch s"])
      (use s in \<open>simp_all add: BeginFlushCmd BeginFlushBatch_def fading_slots [OF quiet_fading]\<close>)
  next
    case EndFlushCmd
    obtain s' where s': "EndFlushBatch E s = Some s'" "server_ok s'" "quiet s s'" using EndFlushBatch_ok [OF s] by blast
    show ?thesis by (rule fin [OF _ s'(2) fading_slots [OF quiet_fading [OF s'(3)]]]) (simp add: EndFlushCmd s'(1))
  next
    case (LimitCmd k)
    have "callbacks_set (SetMaxClientsPerIp k s)" using cb by (simp add: callbacks_set_def SetMaxClientsPerIp_def)
    then show ?thesis using lim [OF LimitCmd P] s by (simp add: LimitCmd) (simp add: SetMaxClientsPerIp_def)
  next
    case (IgnoreTimeoutsCmd i)
    have i: "i < NET_MAX_CLIENTS" using c IgnoreTimeoutsCmd by simp
    have "slot_ok (ns_Slots s ! i)" using slot_ok_nth [OF s i] by blast
    then have "server_ok (IgnoreTimeouts i s)" unfolding IgnoreTimeouts_def by (intro server_ok_set [OF s] slot_ok_upd)
    then show ?thesis using ign [OF P] cb by (simp add: IgnoreTimeoutsCmd) (simp add: IgnoreTimeouts_def callbacks_set_def)
  next
    case (ResetErrorCmd i)
    have i: "i < NET_MAX_CLIENTS" using c ResetErrorCmd by simp
    have "slot_ok (ns_Slots s ! i)" using slot_ok_nth [OF s i] by blast
    then show ?thesis
      by (intro slot [of i "ResetErrorString (ns_Slots s ! i)"])
        (simp_all add: ResetErrorCmd srv_ResetErrorString_def slot_ok_upd, simp add: fades_def live_def counted_def gone_def ResetErrorString_def)
  next
    case (BotInitCmd i)
    have i: "i < NET_MAX_CLIENTS" using c BotInitCmd by simp
    have "slot_ok (ns_Slots s ! i)" using slot_ok_nth [OF s i] by blast
    then have "server_ok (BotInit i s)" unfolding BotInit_def by (intro server_ok_set [OF s] slot_ok_upd)
    then show ?thesis using bot [OF BotInitCmd P] cb by (simp add: BotInitCmd) (simp add: BotInit_def callbacks_set_def)
  next
    case (BotDeleteCmd i)
    have i: "i < NET_MAX_CLIENTS" using c BotDeleteCmd by simp
    have "slot_ok (ns_Slots s ! i)" using slot_ok_nth [OF s i] by blast
    then show ?thesis
      by (intro slot [of i "BotDrop (ns_Slots s ! i)"])
        (simp_all add: BotDeleteCmd BotDelete_def slot_ok_upd, simp add: fades_def live_def counted_def BotDrop_def)
  qed
qed

lemma run_cmds_ok:
  assumes fade: "\<And>s s'. server_ok s \<Longrightarrow> P s \<Longrightarrow> slots_fade s s' \<Longrightarrow> P s'"
    and eff: "\<And>a s s'. server_ok s \<Longrightarrow> P s \<Longrightarrow> wf_addr a \<Longrightarrow> effect a s s' \<Longrightarrow> P s'"
    and lim: "\<And>s k. A (LimitCmd k) \<Longrightarrow> P s \<Longrightarrow> P (SetMaxClientsPerIp k s)"
    and ign: "\<And>s i. P s \<Longrightarrow> P (IgnoreTimeouts i s)"
    and bot: "\<And>s i. A (BotInitCmd i) \<Longrightarrow> P s \<Longrightarrow> P (BotInit i s)"
  shows "server_ok s \<Longrightarrow> callbacks_set s \<Longrightarrow> P s \<Longrightarrow>
    \<forall>(E, c) \<in> set xs. env_ok E \<and> cmd_ok (ns_MaxClients s) c \<and> A c \<Longrightarrow>
    \<exists>s'. run_cmds xs s = Some s' \<and> server_ok s' \<and> callbacks_set s' \<and> ns_MaxClients s' = ns_MaxClients s \<and> P s'"
proof (induction xs arbitrary: s)
  case (Cons x xs)
  obtain E c where x: "x = (E, c)" by (cases x)
  have ok: "env_ok E" "cmd_ok (ns_MaxClients s) c" "A c" using Cons.prems(4) x by auto
  have "\<exists>s1. run_cmd E c s = Some s1 \<and> server_ok s1 \<and> callbacks_set s1 \<and> ns_MaxClients s1 = ns_MaxClients s \<and> P s1"
  proof (rule run_cmd_ok [where P = P, OF Cons.prems(1,2) ok(1,2) _ _ _ _ _ Cons.prems(3)])
    show "P s2" if "server_ok s1" "P s1" "slots_fade s1 s2" for s1 s2 by (rule fade [OF that])
    show "P s2" if "server_ok s1" "P s1" "wf_addr a" "effect a s1 s2" for a s1 s2 by (rule eff [OF that])
    show "P (SetMaxClientsPerIp k s1)" if "c = LimitCmd k" "P s1" for s1 k using lim [of k s1] ok(3) that by simp
    show "P (IgnoreTimeouts i s1)" if "P s1" for s1 i by (rule ign [OF that])
    show "P (BotInit i s1)" if "c = BotInitCmd i" "P s1" for s1 i using bot [of i s1] ok(3) that by simp
  qed
  then obtain s1 where s1: "run_cmd E c s = Some s1" "server_ok s1" "callbacks_set s1" "ns_MaxClients s1 = ns_MaxClients s" "P s1"
    by blast
  have "\<forall>(E, c) \<in> set xs. env_ok E \<and> cmd_ok (ns_MaxClients s1) c \<and> A c" using Cons.prems(4) s1(4) by simp
  from Cons.IH [OF s1(2,3,5) this] show ?case using s1(1,4) by (simp add: x)
qed simp

text \<open>The state after \<open>Open\<close> and \<open>SetCallbacks\<close>.\<close>

definition opened :: "bytes \<Rightarrow> int \<Rightarrow> int \<Rightarrow> net_server" where
  "opened seed n k = SetCallbacksFull (srv_Open seed n k)"

lemma opened_slot: "i < NET_MAX_CLIENTS \<Longrightarrow> ns_Slots (opened seed n k) ! i = conn_Init True blank_conn"
  by (simp add: opened_def SetCallbacksFull_def srv_Open_def)

lemma opened_ok: "server_ok (opened seed n k)" "callbacks_set (opened seed n k)"
proof -
  have "conn_ok (conn_Init True blank_conn)" by (rule conn_Init_ok)
  then have "slot_ok (conn_Init True blank_conn)"
    by (simp add: slot_ok_def server_states_def) (simp add: conn_Init_def ResetStats_def ClearPeerAddr_def conn_Reset_def)
  then show "server_ok (opened seed n k)"
    by (auto simp: opened_def SetCallbacksFull_def srv_Open_def server_ok_def wf_zero_packet NET_MAX_CLIENTS_def)
  show "callbacks_set (opened seed n k)" by (simp add: opened_def SetCallbacksFull_def callbacks_set_def)
qed

subsection \<open>One client per address\<close>

text \<open>The clients in the slots that are open have pairwise different addresses.\<close>

definition unique_addrs :: "net_server \<Rightarrow> bool" where
  "unique_addrs s \<longleftrightarrow> (\<forall>i < ns_MaxClients s. \<forall>j < ns_MaxClients s. live (ns_Slots s ! i) \<and> live (ns_Slots s ! j) \<and>
     c_PeerAddr (ns_Slots s ! i) = c_PeerAddr (ns_Slots s ! j) \<longrightarrow> i = j)"

definition wf_slots :: "net_server \<Rightarrow> bool" where
  "wf_slots s \<longleftrightarrow> (\<forall>i < length (ns_Slots s). wf_addr (c_PeerAddr (ns_Slots s ! i)))"

lemma comp_eq: "wf_addr a \<Longrightarrow> wf_addr b \<Longrightarrow> net_addr_comp a b = 0 \<longleftrightarrow> a = b"
  using net_addr_comp_key(2) addr_key_inj by blast

lemma GetClientSlot_None:
  assumes "GetClientSlot a s = None" "i < ns_MaxClients s" "live (ns_Slots s ! i)"
  shows "net_addr_comp (c_PeerAddr (ns_Slots s ! i)) a \<noteq> 0"
proof -
  have "i \<in> set (ids s)" using assms(2) by (simp add: ids_def)
  then show ?thesis using assms(1,3) by (auto simp: GetClientSlot_def find_None_iff live_def slot_state_def)
qed

lemma wf_slots_fade: "wf_slots s \<Longrightarrow> slots_fade s s' \<Longrightarrow> wf_slots s'"
  by (simp add: wf_slots_def slots_fade_def fades_def)

lemma wf_slots_effect:
  assumes "wf_slots s" "wf_addr a" "effect a s s'"
  shows "wf_slots s'"
proof -
  have "wf_addr (c_PeerAddr (ns_Slots s' ! j))" if "j < length (ns_Slots s')" for j
    using assms that unfolding effect_def slots_fade_def wf_slots_def fades_def by (elim disjE exE conjE) metis+
  then show ?thesis by (simp add: wf_slots_def)
qed

lemma unique_fade:
  assumes "server_ok s" "unique_addrs s" "slots_fade s s'"
  shows "unique_addrs s'"
proof -
  have n: "ns_MaxClients s' = ns_MaxClients s" "ns_MaxClients s \<le> length (ns_Slots s)"
    using assms(1,3) by (simp_all add: slots_fade_def settings_def server_ok_def)
  have f: "fades (ns_Slots s ! i) (ns_Slots s' ! i)" if "i < ns_MaxClients s" for i
    using assms(3) n(2) that by (simp add: slots_fade_def)
  show ?thesis unfolding unique_addrs_def n(1)
    using assms(2) f unfolding unique_addrs_def fades_def by metis
qed

lemma unique_effect:
  assumes ok: "server_ok s" and u: "unique_addrs s" and w: "wf_slots s" and a: "wf_addr a" and e: "effect a s s'"
  shows "unique_addrs s'"
proof (cases "slots_fade s s'")
  case True
  then show ?thesis by (rule unique_fade [OF ok u])
next
  case False
  then obtain i where i: "i < length (ns_Slots s)" "settings s' = settings s" "c_PeerAddr (ns_Slots s' ! i) = a"
      "\<forall>j < length (ns_Slots s). j \<noteq> i \<longrightarrow> fades (ns_Slots s ! j) (ns_Slots s' ! j)"
      "case GetClientSlot a s of Some j \<Rightarrow> i = j | None \<Rightarrow> True"
    using e False unfolding effect_def by (cases "GetClientSlot a s") (simp; blast)+
  have n: "ns_MaxClients s' = ns_MaxClients s" "ns_MaxClients s \<le> length (ns_Slots s)"
    using i(2) ok by (simp_all add: settings_def server_ok_def)
  have no: "c_PeerAddr (ns_Slots s ! j) \<noteq> a" if j: "j < ns_MaxClients s" "live (ns_Slots s ! j)" "j \<noteq> i" for j
  proof (cases "GetClientSlot a s")
    case None
    then have "net_addr_comp (c_PeerAddr (ns_Slots s ! j)) a \<noteq> 0" using GetClientSlot_None j by blast
    then show ?thesis using comp_eq [of "c_PeerAddr (ns_Slots s ! j)" a] w a j(1) n(2) by (auto simp: wf_slots_def)
  next
    case (Some k)
    have g: "i < ns_MaxClients s" "live (ns_Slots s ! i)" "net_addr_comp (c_PeerAddr (ns_Slots s ! i)) a = 0"
      using GetClientSlot_Some [OF Some] i(5) Some by (auto simp: ids_def)
    then have "c_PeerAddr (ns_Slots s ! i) = a" using comp_eq w a i(1) by (simp add: wf_slots_def)
    then show ?thesis using u g(1,2) j unfolding unique_addrs_def by metis
  qed
  have f: "c_PeerAddr (ns_Slots s' ! j) = c_PeerAddr (ns_Slots s ! j) \<and> (live (ns_Slots s' ! j) \<longrightarrow> live (ns_Slots s ! j))"
    if "j < ns_MaxClients s" "j \<noteq> i" for j
    using i(4) n(2) that by (auto simp: fades_def)
  have "j1 = j2" if j: "j1 < ns_MaxClients s" "j2 < ns_MaxClients s" "live (ns_Slots s' ! j1)" "live (ns_Slots s' ! j2)"
      "c_PeerAddr (ns_Slots s' ! j1) = c_PeerAddr (ns_Slots s' ! j2)" for j1 j2
  proof (rule ccontr)
    assume d: "j1 \<noteq> j2"
    consider "j1 = i" | "j2 = i" | "j1 \<noteq> i" "j2 \<noteq> i" by blast
    then show False
    proof cases
      case 1
      then show False using f [of j2] no [of j2] j d i(3) by auto
    next
      case 2
      then show False using f [of j1] no [of j1] j d i(3) by auto
    next
      case 3
      then show False using f [of j1] f [of j2] j d u unfolding unique_addrs_def by metis
    qed
  qed
  then show ?thesis unfolding unique_addrs_def n(1) by blast
qed

lemma IgnoreTimeouts_slots:
  "length (ns_Slots (IgnoreTimeouts i s)) = length (ns_Slots s)" "ns_MaxClients (IgnoreTimeouts i s) = ns_MaxClients s"
  "ns_MaxClientsPerIp (IgnoreTimeouts i s) = ns_MaxClientsPerIp s"
  "live (ns_Slots (IgnoreTimeouts i s) ! j) = live (ns_Slots s ! j)"
  "c_PeerAddr (ns_Slots (IgnoreTimeouts i s) ! j) = c_PeerAddr (ns_Slots s ! j)"
proof -
  have "live ((ns_Slots s)[i := (ns_Slots s ! i)\<lparr>c_TimeoutProtected := True\<rparr>] ! j) = live (ns_Slots s ! j) \<and>
      c_PeerAddr ((ns_Slots s)[i := (ns_Slots s ! i)\<lparr>c_TimeoutProtected := True\<rparr>] ! j) = c_PeerAddr (ns_Slots s ! j)"
    by (cases "j < length (ns_Slots s)"; cases "i = j") (simp_all add: live_def not_less list_update_beyond)
  then show "live (ns_Slots (IgnoreTimeouts i s) ! j) = live (ns_Slots s ! j)"
    "c_PeerAddr (ns_Slots (IgnoreTimeouts i s) ! j) = c_PeerAddr (ns_Slots s ! j)"
    by (simp_all add: IgnoreTimeouts_def set_slot_def)
qed (simp_all add: IgnoreTimeouts_def set_slot_def)

lemma opened_addrs: "wf_slots (opened seed n k)" "unique_addrs (opened seed n k)"
proof -
  have sl: "c_PeerAddr (conn_Init True blank_conn) = NETADDR_ZEROED" "c_State (conn_Init True blank_conn) = OFFLINE"
    by (simp_all add: conn_Init_def ResetStats_def ClearPeerAddr_def conn_Reset_def)
  have "wf_addr NETADDR_ZEROED" by (simp add: wf_addr_def NETADDR_ZEROED_def)
  then show "wf_slots (opened seed n k)" using sl opened_slot length_slots [OF opened_ok(1)] by (simp add: wf_slots_def)
  have "ns_MaxClients (opened seed n k) \<le> NET_MAX_CLIENTS" using opened_ok(1) by (simp add: server_ok_def)
  then show "unique_addrs (opened seed n k)" using sl by (simp add: unique_addrs_def opened_slot live_def)
qed

subsection \<open>The limit of clients per address\<close>

definition clients_of :: "netaddr \<Rightarrow> net_server \<Rightarrow> nat set" where
  "clients_of b s = {i. i < ns_MaxClients s \<and> live (ns_Slots s ! i) \<and> net_addr_comp_noport b (c_PeerAddr (ns_Slots s ! i)) = 0}"

definition within_limit :: "net_server \<Rightarrow> bool" where
  "within_limit s \<longleftrightarrow> (\<forall>b. wf_addr b \<longrightarrow> int (card (clients_of b s)) \<le> max 0 (ns_MaxClientsPerIp s))"

lemma clients_counted: "card (clients_of b s) \<le> NumClientsWithAddr b s"
proof -
  have e: "{i \<in> set (ids s). Q i} = {i. i < ns_MaxClients s \<and> Q i}" for Q by (auto simp: ids_def)
  have "clients_of b s \<subseteq> {i. i < ns_MaxClients s \<and> \<not> (slot_state s i = OFFLINE \<or> gone (ns_Slots s ! i)) \<and>
       net_addr_comp_noport b (c_PeerAddr (ns_Slots s ! i)) = 0}"
    by (auto simp: clients_of_def live_def slot_state_def gone_def)
  from card_mono [OF _ this] show ?thesis unfolding NumClientsWithAddr_def
    by (simp add: distinct_length_filter ids_def Int_def conj_comms)
qed

lemma clients_of_fade:
  assumes "server_ok s" "slots_fade s s'"
  shows "clients_of b s' \<subseteq> clients_of b s"
proof -
  have "ns_MaxClients s' = ns_MaxClients s" "ns_MaxClients s \<le> length (ns_Slots s)"
    using assms by (simp_all add: slots_fade_def settings_def server_ok_def)
  then show ?thesis using assms(2) by (auto simp: clients_of_def slots_fade_def fades_def)
qed

lemma finite_clients: "finite (clients_of b s)"
  by (simp add: clients_of_def)

lemma noport_eq:
  assumes "wf_addr a" "wf_addr c"
  shows "net_addr_comp_noport a c = 0 \<longleftrightarrow> na_type a = na_type c \<and> na_ip a = na_ip c"
proof -
  have d: "sint (na_type a - na_type c) = uint (na_type a) - uint (na_type c)"
    using assms by (intro sint_diff) (auto simp: wf_addr_def)
  have i: "c_compare uint 16 (na_ip a) (na_ip c) = 0 \<longleftrightarrow> na_ip a = na_ip c"
    using c_compare_lex [of "na_ip a" 16 "na_ip c"] assms by (auto simp: wf_addr_def)
  then show ?thesis by (auto simp: net_addr_comp_noport_def d Let_def word_uint_eq_iff)
qed

lemma limit_fade:
  assumes ok: "server_ok s" and l: "within_limit s" and f: "slots_fade s s'"
  shows "within_limit s'"
proof -
  have "int (card (clients_of b s')) \<le> max 0 (ns_MaxClientsPerIp s')" if "wf_addr b" for b
    using card_mono [OF finite_clients clients_of_fade [OF ok f], of b] l f that
    by (force simp: within_limit_def slots_fade_def settings_def)
  then show ?thesis by (simp add: within_limit_def)
qed

lemma limit_effect:
  assumes ok: "server_ok s" and l: "within_limit s" and w: "wf_slots s" and a: "wf_addr a" and e: "effect a s s'"
  shows "within_limit s'"
proof (cases "slots_fade s s'")
  case True
  then show ?thesis by (rule limit_fade [OF ok l])
next
  case False
  then obtain i where i: "i < length (ns_Slots s)" "settings s' = settings s" "c_PeerAddr (ns_Slots s' ! i) = a"
      "\<forall>j < length (ns_Slots s). j \<noteq> i \<longrightarrow> fades (ns_Slots s ! j) (ns_Slots s' ! j)"
      "case GetClientSlot a s of Some j \<Rightarrow> i = j
       | None \<Rightarrow> c_State (ns_Slots s ! i) = OFFLINE \<and> int (NumClientsWithAddr a s) + 1 \<le> ns_MaxClientsPerIp s"
    using e unfolding effect_def by blast
  have n: "ns_MaxClients s' = ns_MaxClients s" "ns_MaxClients s \<le> length (ns_Slots s)" "ns_MaxClientsPerIp s' = ns_MaxClientsPerIp s"
    using i(2) ok by (simp_all add: settings_def server_ok_def)
  have sub: "clients_of b s' \<subseteq> insert i (clients_of b s)" for b
    using i(4) n by (auto simp: clients_of_def fades_def)
  have "int (card (clients_of b s')) \<le> max 0 (ns_MaxClientsPerIp s)" if b: "wf_addr b" for b
  proof (cases "i \<in> clients_of b s' \<and> i \<notin> clients_of b s")
    case False
    then have "clients_of b s' \<subseteq> clients_of b s" using sub [of b] by blast
    from card_mono [OF finite_clients this] show ?thesis using l b by (force simp: within_limit_def)
  next
    case True
    then have ba: "net_addr_comp_noport b a = 0" using i(3) by (simp add: clients_of_def)
    show ?thesis
    proof (cases "GetClientSlot a s")
      case (Some j)
      then have g: "i < ns_MaxClients s" "live (ns_Slots s ! i)" "net_addr_comp (c_PeerAddr (ns_Slots s ! i)) a = 0"
        using GetClientSlot_Some [OF Some] i(5) by (auto simp: ids_def)
      then have "c_PeerAddr (ns_Slots s ! i) = a" using comp_eq w a i(1) by (simp add: wf_slots_def)
      then have "i \<in> clients_of b s" using g ba by (simp add: clients_of_def)
      then show ?thesis using True by blast
    next
      case None
      then have lim: "int (NumClientsWithAddr a s) + 1 \<le> ns_MaxClientsPerIp s" using i(5) by simp
      have same: "clients_of b s = clients_of a s"
      proof -
        have "net_addr_comp_noport b x = 0 \<longleftrightarrow> net_addr_comp_noport a x = 0" if "wf_addr x" for x
          using ba noport_eq [OF b a] noport_eq [OF b that] noport_eq [OF a that] by simp
        then show ?thesis using w n(2) by (auto simp: clients_of_def wf_slots_def)
      qed
      have "card (clients_of b s') \<le> card (insert i (clients_of b s))" using sub [of b] finite_clients by (intro card_mono) auto
      also have "\<dots> \<le> card (clients_of a s) + 1" unfolding same using finite_clients by (simp add: card_insert_if)
      also have "\<dots> \<le> NumClientsWithAddr a s + 1" using clients_counted by simp
      finally show ?thesis using lim by simp
    qed
  qed
  then show ?thesis by (simp add: within_limit_def n(3))
qed

subsection \<open>No client without its token\<close>

text \<open>What a packet must show: the token of the address as the security token of a 0.7 control message,
  behind an accept, or, for a client without tokens, as the tick of an input.\<close>

definition shows_token :: "srv_env \<Rightarrow> net_server \<Rightarrow> netaddr \<Rightarrow> unpacked \<Rightarrow> bool" where
  "shows_token E s a un =
     (let p = u_Packet un; (h, n) = chunk_Unpack (pk_ChunkData p) 4;
          u = unpacker_Reset (take (nat (min (ch_Size h) (int (pk_DataSize p) - int n))) (drop n (pk_ChunkData p))) in
      if pk_Flags p AND NET_PACKETFLAG_CONTROL \<noteq> 0 then
        u_Sixup un \<and> pk_ChunkData p ! 0 = NET_CTRLMSG_CONNECT \<and> u_SecurityToken un = Some (srv_GetToken E s a) \<or>
        \<not> u_Sixup un \<and> IsDDNetControlMsg p \<and> pk_ChunkData p ! 0 = NET_CTRLMSG_ACCEPT \<and> ToSecurityToken (drop 1 (pk_ChunkData p)) = srv_GetToken E s a
      else drop_bit 1 (fst (GetInt u)) = NETMSG_INPUT \<and> fst (GetInt (snd (GetInt u))) = sint (GetVanillaToken E s a))"

lemma GetToken_nonzero: "srv_GetToken E s a \<noteq> 0"
  by (auto simp: srv_GetToken_def Let_def NET_SECURITY_TOKEN_UNSUPPORTED_def)

lemma GetToken_seed:
  "ns_SecurityTokenSeed s1 = ns_SecurityTokenSeed s \<Longrightarrow> srv_GetToken E s1 a = srv_GetToken E s a"
  "ns_SecurityTokenSeed s1 = ns_SecurityTokenSeed s \<Longrightarrow> GetVanillaToken E s1 a = GetVanillaToken E s a"
  by (simp_all add: srv_GetToken_def GetVanillaToken_def)

lemma srv_control_events: "srv_control E a m x t S s = Some s' \<Longrightarrow> ns_Events s' = ns_Events s"
  by (auto simp: srv_control_def split: Option.bind_splits)

lemma SendMsgs_events: "SendMsgs E a ms s = Some s' \<Longrightarrow> ns_Events s' = ns_Events s"
  by (auto simp: SendMsgs_def split: if_splits Option.bind_splits)

lemma feed_slot_events: "feed_slot E a Slot C t rt s = Some s' \<Longrightarrow> ns_Events s' = ns_Events s"
  by (auto simp: feed_slot_def Let_def split: if_splits option.splits Option.bind_splits)

lemma vanilla_connect_events: "vanilla_connect E a Slot s = Some s' \<Longrightarrow> ns_Events s' = ns_Events s"
  unfolding vanilla_connect_def Let_def srv_SendControl_def
  by (auto split: if_splits option.splits Option.bind_splits dest!: srv_control_events SendMsgs_events)

lemma handle_token:
  assumes h: "handle E a un t rt Slot s = Some (r, rt', s')" and ev: "ns_Events s' \<noteq> ns_Events s" and anti: "anti_spoof E"
    and t: "t = (case u_SecurityToken un of Some t \<Rightarrow> t | None \<Rightarrow> 0)"
  shows "shows_token E s a un"
proof -
  define p where "p = u_Packet un"
  define C where "C \<longleftrightarrow> pk_Flags p AND NET_PACKETFLAG_CONTROL \<noteq> 0"
  consider (six) "u_Sixup un" "C" "OnSixupCtrlMsg E a (pk_ChunkData p ! 0) p rt t Slot s = Some (r, rt', s')"
    | (tok) "\<not> u_Sixup un" "C" "IsDDNetControlMsg p" "OnTokenCtrlMsg E a (pk_ChunkData p ! 0) p Slot s = Some s'"
    | (pre) "OnPreConnMsg E a p Slot s = Some s'"
    using h unfolding handle_def Let_def p_def [symmetric] C_def [symmetric] by (auto split: if_splits)
  then show ?thesis
  proof cases
    case six
    have "t = srv_GetToken E s a" "pk_ChunkData p ! 0 = NET_CTRLMSG_CONNECT"
      using six(3) ev by (auto simp: OnSixupCtrlMsg_def SendTokenSixup_def Let_def split: if_splits Option.bind_splits dest!: srv_control_events)
    then have "u_SecurityToken un = Some (srv_GetToken E s a)" using t GetToken_nonzero [of E s a] by (auto split: option.splits)
    then show ?thesis using six(1,2) \<open>pk_ChunkData p ! 0 = NET_CTRLMSG_CONNECT\<close> by (simp add: shows_token_def C_def p_def split_beta Let_def)
  next
    case tok
    have "ToSecurityToken (drop 1 (pk_ChunkData p)) = srv_GetToken E s a \<and> pk_ChunkData p ! 0 = NET_CTRLMSG_ACCEPT"
      using tok(4) ev by (auto simp: OnTokenCtrlMsg_def srv_SendControl_def Let_def split: if_splits dest!: srv_control_events)
    then show ?thesis using tok(1-3) by (simp add: shows_token_def C_def p_def split_beta Let_def)
  next
    case pre
    have "\<not> C" "vanilla_input E a p Slot s = Some s'"
      using pre ev anti by (auto simp: OnPreConnMsg_def Let_def C_def split: if_splits dest!: vanilla_connect_events)
    moreover define u where "u = unpacker_Reset (take (nat (min (ch_Size (fst (chunk_Unpack (pk_ChunkData p) 4)))
        (int (pk_DataSize p) - int (snd (chunk_Unpack (pk_ChunkData p) 4))))) (drop (snd (chunk_Unpack (pk_ChunkData p) 4)) (pk_ChunkData p)))"
    moreover from calculation(2) ev have "drop_bit 1 (fst (GetInt u)) = NETMSG_INPUT \<and> fst (GetInt (snd (GetInt u))) = sint (GetVanillaToken E s a)"
      unfolding vanilla_input_def Let_def split_beta u_def [symmetric] by (simp split: if_splits)
    ultimately show ?thesis by (simp add: shows_token_def C_def p_def split_beta Let_def)
  qed
qed

lemma packet_token:
  assumes anti: "anti_spoof E" and pk: "srv_packet E a data rt s = Some (x, rt', s')" and ev: "ns_Events s' \<noteq> ns_Events s"
  shows "\<exists>Six Al d un. UnpackPacket (e_Huffman (se_Net E)) data (ns_RecvBuffer s) Six Al True True = (d, Inr un) \<and>
    shows_token E s a un"
proof -
  have ban: "se_IsBanned E a = None"
    using pk ev by (auto simp: srv_packet_def split: option.splits if_splits Option.bind_splits dest!: srv_control_events)
  obtain Flags where F: "UnpackPacketFlags data = Some Flags"
    using pk ev ban by (cases "UnpackPacketFlags data") (auto simp: srv_packet_def)
  define Slot where "Slot = (if Flags AND NET_PACKETFLAG_CONNLESS = 0 then GetClientSlot a s else None)"
  define Six where "Six = (case Slot of None \<Rightarrow> False | Some i \<Rightarrow> c_Sixup (ns_Slots s ! i))"
  obtain d res where up: "UnpackPacket (e_Huffman (se_Net E)) data (ns_RecvBuffer s) Six (allow_decompression E data Slot s) True True = (d, res)"
    by fastforce
  note raw = pk [unfolded srv_packet_def ban F option.case Let_def Slot_def [symmetric] Six_def [symmetric] up prod.case]
  obtain un where un: "res = Inr un" using raw ev by (cases res) (auto split: if_splits)
  have c: "pk_Flags (u_Packet un) AND NET_PACKETFLAG_CONNLESS = 0"
    using raw ev unfolding un sum.case by (auto split: if_splits)
  define n where "n = (if Slot = None \<and> d then ns_NumPreConnDecompress s + 1 else ns_NumPreConnDecompress s)"
  note eq = srv_packet_handle [OF ban F Slot_def up [unfolded Six_def un] c refl refl n_def, of rt]
  obtain r rt2 s3 where h: "handle E a un (case u_SecurityToken un of Some t \<Rightarrow> t | None \<Rightarrow> 0)
      (case u_ResponseToken un of Some t \<Rightarrow> t | None \<Rightarrow> rt) Slot (received s n (u_Packet un)) = Some (r, rt2, s3)"
    "ns_Events s' = ns_Events s3"
    using pk unfolding eq by (auto split: option.splits if_splits dest!: feed_slot_events)
  have "ns_Events s3 \<noteq> ns_Events (received s n (u_Packet un))" using h(2) ev by (simp add: received_def)
  from handle_token [OF h(1) this anti refl] have "shows_token E (received s n (u_Packet un)) a un" .
  moreover have "srv_GetToken E (received s n (u_Packet un)) a = srv_GetToken E s a"
      "GetVanillaToken E (received s n (u_Packet un)) a = GetVanillaToken E s a"
    by (rule GetToken_seed; simp add: received_def)+
  ultimately have "shows_token E s a un" by (simp only: shows_token_def)
  then show ?thesis using up un by blast
qed

subsection \<open>The handshake\<close>

text \<open>The datagram of a client that answers with the token.\<close>

definition accept_datagram :: "token \<Rightarrow> bytes" where
  "accept_datagram t = [16, 0, 0, NET_CTRLMSG_ACCEPT] @ WriteSecurityToken t"

lemma token_four: "\<exists>a b c d. WriteSecurityToken t = [a, b, c, d]"
  by (simp add: WriteSecurityToken_def uint_to_bytes_be_def)

lemma accept_datagram_sent:
  assumes "t \<noteq> NET_SECURITY_TOKEN_UNSUPPORTED"
  shows "SendControlMsg h 0 NET_CTRLMSG_ACCEPT [] t False = Inr (accept_datagram t)"
proof -
  obtain a b c d where w: "WriteSecurityToken t = [a, b, c, d]" using token_four by blast
  show ?thesis using assms
    by (simp add: SendControlMsg_def SendPacket_def accept_datagram_def append_token_def mem_write_def try_compress_def packet_header_def
        IsValidConnectionOrientedPacket_def zero_packet_def pk_data_def packet_consts packet_flags w Let_def)
qed

lemma accept_datagram_unpack:
  assumes "length (pk_ChunkData q) = 1397"
  shows "\<exists>p. UnpackPacket h (accept_datagram t) q False al True True =
      (False, Inr \<lparr>u_Packet = p, u_Sixup = False, u_SecurityToken = None, u_ResponseToken = Some NET_SECURITY_TOKEN_UNKNOWN\<rparr>) \<and>
    pk_Flags p = NET_PACKETFLAG_CONTROL \<and> pk_DataSize p = 5 \<and>
    pk_ChunkData p = NET_CTRLMSG_ACCEPT # WriteSecurityToken t @ drop 5 (pk_ChunkData q)"
proof -
  obtain a b c d where w: "WriteSecurityToken t = [a, b, c, d]" using token_four by blast
  have five: "Suc (Suc (Suc (Suc (Suc 0)))) = 5" by simp
  show ?thesis using assms
    by (simp add: UnpackPacket_def UnpackPacketFlags_def unpack_connected_def accept_datagram_def w packet_consts packet_flags Let_def
       IsValidConnectionOrientedPacket_def unpack_data_def mem_write_def response_token_def NET_CTRLMSG_ACCEPT_def NET_CTRLMSG_CONNECT_def five)
qed

text \<open>Such a datagram goes to the acceptance of clients, and then to the connection, if there is one.\<close>

lemma accept_datagram_accepted:
  assumes s: "server_ok s" and ban: "se_IsBanned E a = None"
    and six: "\<forall>i. GetClientSlot a s = Some i \<longrightarrow> \<not> c_Sixup (ns_Slots s ! i)"
  shows "\<exists>n p. srv_packet E a (accept_datagram (srv_GetToken E s a)) rt s =
    (case TryAcceptClient E a (srv_GetToken E s a) (GetClientSlot a s) False False 0 (received s n p) of None \<Rightarrow> None
     | Some s3 \<Rightarrow> (case feed_slot E a (GetClientSlot a s) True 0 NET_SECURITY_TOKEN_UNKNOWN s3 of None \<Rightarrow> None
        | Some s4 \<Rightarrow> Some (None, NET_SECURITY_TOKEN_UNKNOWN, s4))) \<and> wf_packet p \<and> n = ns_NumPreConnDecompress s"
proof -
  define t where "t = srv_GetToken E s a"
  have wf: "wf_packet (ns_RecvBuffer s)" using s by (simp add: server_ok_def)
  then have l: "length (pk_ChunkData (ns_RecvBuffer s)) = 1397" by (simp add: wf_packet_def packet_consts)
  obtain b c d e where w: "WriteSecurityToken t = [b, c, d, e]" using token_four by blast
  have F: "UnpackPacketFlags (accept_datagram t) = Some 4"
    by (simp add: UnpackPacketFlags_def accept_datagram_def w packet_consts)
  have conn: "(4 :: int) AND NET_PACKETFLAG_CONNLESS = 0" by (simp add: packet_flags)
  have no6: "(case GetClientSlot a s of None \<Rightarrow> False | Some i \<Rightarrow> c_Sixup (ns_Slots s ! i)) = False"
    using six by (auto split: option.split)
  obtain p where up: "UnpackPacket (e_Huffman (se_Net E)) (accept_datagram t) (ns_RecvBuffer s) False
      (allow_decompression E (accept_datagram t) (GetClientSlot a s) s) True True =
      (False, Inr \<lparr>u_Packet = p, u_Sixup = False, u_SecurityToken = None, u_ResponseToken = Some NET_SECURITY_TOKEN_UNKNOWN\<rparr>)"
    and p: "pk_Flags p = NET_PACKETFLAG_CONTROL" "pk_DataSize p = 5"
      "pk_ChunkData p = NET_CTRLMSG_ACCEPT # WriteSecurityToken t @ drop 5 (pk_ChunkData (ns_RecvBuffer s))"
    using accept_datagram_unpack [OF l] by blast
  have wp: "wf_packet p" using unpack_safe [OF wf, of "e_Huffman (se_Net E)" "accept_datagram t" False
      "allow_decompression E (accept_datagram t) (GetClientSlot a s) s"] by (simp add: up)
  have c0: "pk_Flags p AND NET_PACKETFLAG_CONNLESS = 0" "pk_Flags p AND NET_PACKETFLAG_CONTROL \<noteq> 0"
    using p(1) by (simp_all add: packet_flags)
  have dd: "IsDDNetControlMsg p" using c0(2) p by (simp add: IsDDNetControlMsg_def)
  have tok: "ToSecurityToken (drop 1 (pk_ChunkData p)) = t" using p(3) token_roundtrip by simp
  have gt: "srv_GetToken E (received s (ns_NumPreConnDecompress s) p) a = t"
    unfolding t_def by (rule GetToken_seed) (simp add: received_def)
  have ne: "NET_CTRLMSG_ACCEPT \<noteq> NET_CTRLMSG_CONNECT" by (simp add: NET_CTRLMSG_ACCEPT_def NET_CTRLMSG_CONNECT_def)
  define s2 where "s2 = received s (ns_NumPreConnDecompress s) p"
  define un where "un = \<lparr>u_Packet = p, u_Sixup = False, u_SecurityToken = None, u_ResponseToken = Some NET_SECURITY_TOKEN_UNKNOWN\<rparr>"
  have un: "u_Packet un = p" "u_Sixup un = False" "u_SecurityToken un = None" "u_ResponseToken un = Some NET_SECURITY_TOKEN_UNKNOWN"
    by (simp_all add: un_def)
  have h: "handle E a un 0 NET_SECURITY_TOKEN_UNKNOWN (GetClientSlot a s) s2 =
      map_option (\<lambda>s'. (0, NET_SECURITY_TOKEN_UNKNOWN, s')) (TryAcceptClient E a t (GetClientSlot a s) False False 0 s2)"
    using c0(2) dd tok gt ne p(3) unfolding handle_def OnTokenCtrlMsg_def Let_def un s2_def [symmetric] by simp
  have Slot: "GetClientSlot a s = (if (4 :: int) AND NET_PACKETFLAG_CONNLESS = 0 then GetClientSlot a s else None)" using conn by simp
  have c0': "pk_Flags (u_Packet un) AND NET_PACKETFLAG_CONNLESS = 0" using c0(1) by (simp add: un_def)
  have "srv_packet E a (accept_datagram t) rt s =
    (case handle E a un 0 NET_SECURITY_TOKEN_UNKNOWN (GetClientSlot a s) s2 of None \<Rightarrow> None
     | Some (r, rt2, s3) \<Rightarrow>
        if r = 1 then Some (Some \<lparr>nc_ClientId = - 1, nc_Address = a, nc_Flags = 0, nc_Data = [], nc_ExtraData = []\<rparr>, rt2, s3)
        else (case feed_slot E a (GetClientSlot a s) (pk_Flags p AND NET_PACKETFLAG_CONTROL \<noteq> 0) 0 rt2 s3 of None \<Rightarrow> None
              | Some s4 \<Rightarrow> Some (None, rt2, s4)))"
    unfolding s2_def
    using srv_packet_handle [OF ban F Slot, unfolded no6, OF up [folded un_def] c0' refl refl refl, of rt, unfolded un option.case]
    by (simp only: simp_thms if_False)
  also have "\<dots> = (case TryAcceptClient E a t (GetClientSlot a s) False False 0 s2 of None \<Rightarrow> None
     | Some s3 \<Rightarrow> (case feed_slot E a (GetClientSlot a s) True 0 NET_SECURITY_TOKEN_UNKNOWN s3 of None \<Rightarrow> None
        | Some s4 \<Rightarrow> Some (None, NET_SECURITY_TOKEN_UNKNOWN, s4)))"
    unfolding h using c0(2) by (simp split: option.split)
  finally show ?thesis using wp unfolding t_def s2_def by blast
qed

lemma not_limited:
  assumes "server_ok s" "wf_packet p" "\<not> fst (Connlimit E a s)" "callbacks_set s"
  shows "\<exists>s1. Connlimit E a (received s n p) = (False, s1) \<and> server_ok s1 \<and> callbacks_set s1 \<and> ns_Slots s1 = ns_Slots s \<and>
    ns_Events s1 = ns_Events s \<and> settings s1 = settings s"
proof -
  have ok: "server_ok (received s n p)" using assms(1,2) by (simp add: received_def server_ok_def)
  obtain b s1 where c: "Connlimit E a (received s n p) = (b, s1)" "server_ok s1" "quiet (received s n p) s1"
      "ns_Slots s1 = ns_Slots (received s n p)" "ns_Events s1 = ns_Events (received s n p)"
    using Connlimit_ok [OF ok] by blast
  have "settings s1 = settings s" using c(3) by (simp add: quiet_def same_frame_def settings_def callbacks_set_def received_def)
  moreover have "\<not> b" using assms(3) c(1) by (auto simp: Connlimit_def received_def split_beta)
  ultimately show ?thesis using c assms(4) settings_callbacks [of s1 s] by (simp add: received_def)
qed

lemma handshake_admits:
  assumes s: "server_ok s" and E: "env_ok E" and cb: "callbacks_set s" and a: "addr_known a"
    and ban: "se_IsBanned E a = None" and lim: "\<not> fst (Connlimit E a s)"
    and new: "GetClientSlot a s = None" and room: "int (NumClientsWithAddr a s) + 1 \<le> ns_MaxClientsPerIp s"
    and free: "free_slot s = Some i"
  shows "\<exists>rt' s'. srv_packet E a (accept_datagram (srv_GetToken E s a)) rt s = Some (None, rt', s') \<and>
    c_State (ns_Slots s' ! i) = ONLINE \<and> c_PeerAddr (ns_Slots s' ! i) = a \<and>
    ns_Events s' = ns_Events s @ [NewClient i False]"
proof -
  obtain n p where pk: "srv_packet E a (accept_datagram (srv_GetToken E s a)) rt s =
    (case TryAcceptClient E a (srv_GetToken E s a) None False False 0 (received s n p) of None \<Rightarrow> None
     | Some s3 \<Rightarrow> (case feed_slot E a None True 0 NET_SECURITY_TOKEN_UNKNOWN s3 of None \<Rightarrow> None
        | Some s4 \<Rightarrow> Some (None, NET_SECURITY_TOKEN_UNKNOWN, s4)))" "wf_packet p"
    using accept_datagram_accepted [OF s ban, of rt, unfolded new] by auto
  obtain s1 where s1: "Connlimit E a (received s n p) = (False, s1)" "server_ok s1" "callbacks_set s1" "ns_Slots s1 = ns_Slots s"
      "ns_Events s1 = ns_Events s" "settings s1 = settings s"
    using not_limited [OF s pk(2) lim cb] by blast
  have ids: "ids s1 = ids s" "ns_MaxClientsPerIp s1 = ns_MaxClientsPerIp s" using s1(6) by (simp_all add: settings_def ids_def)
  have eqs: "NumClientsWithAddr a s1 = NumClientsWithAddr a s" "free_slot s1 = Some i"
    using free s1(4) ids by (simp_all add: NumClientsWithAddr_def free_slot_def slot_state_def)
  have i: "i < NET_MAX_CLIENTS" using free ids_bound [OF s] by (auto simp: free_slot_def find_Some_iff)
  obtain s3 where s3: "init_slot E a (srv_GetToken E s a) i False False False 0 s1 = Some s3" "becomes i a s1 s3"
      "ns_Events s3 = ns_Events s1 @ [NewClient i False]"
    using init_slot_ok [OF s1(2) E s1(3) i a, of "srv_GetToken E s a" False False False 0] by auto
  have "TryAcceptClient E a (srv_GetToken E s a) None False False 0 (received s n p) = Some s3"
    using room eqs ids(2) s3(1) by (simp add: TryAcceptClient_def s1(1))
  then have "srv_packet E a (accept_datagram (srv_GetToken E s a)) rt s = Some (None, NET_SECURITY_TOKEN_UNKNOWN, s3)"
    using pk(1) by (simp add: feed_slot_def)
  then show ?thesis using s3(2,3) s1(5) by (simp add: becomes_def)
qed

subsection \<open>An example\<close>

definition no_codes :: huffman where
  "no_codes = \<lparr>h_Nodes = [], h_DecodeLut = [], h_StartNode = 0, h_NumNodes = 0\<rparr>"

definition some_srv :: srv_env where
  "some_srv = \<lparr>se_Net = some_env no_codes, se_Sha256 = (\<lambda>_. replicate 32 1), se_IsBanned = (\<lambda>_. None), se_Callback = (\<lambda>_ _. []),
     se_SvSixup = True, se_SvConnlimit = 4, se_SvConnlimitTime = 20, se_SvVanillaAntiSpoof = True, se_Password = [],
     se_SvVanConnPerSecond = 10, se_SvVanConnRepliesPerSecond = 0, se_SvMaxPacketsPerRecv = 0, se_SvBanRepliesPerSecond = 0,
     se_SvPreConnDecompressPerSecond = 0\<rparr>"

definition some_addr :: netaddr where
  "some_addr = \<lparr>na_type = NETTYPE_IPV4, na_ip = [10, 0, 0, 1] @ replicate 12 0, na_port = 8303\<rparr>"

lemma some_srv_ok: "env_ok some_srv" "anti_spoof some_srv" "se_IsBanned some_srv a = None"
  by (simp_all add: env_ok_def some_srv_def anti_spoof_def)

lemma some_addr_ok: "addr_known some_addr" "wf_addr some_addr"
  by (simp_all add: some_addr_def addr_known_def wf_addr_def NETTYPE_IPV4_def NETTYPE_WEBSOCKET_IPV4_def)

lemma connlimit_unseen:
  "\<forall>i \<in> set is. net_addr_comp_noport (sc_Addr (sp ! i)) a \<noteq> 0 \<Longrightarrow> \<not> fst (connlimit_loop E a is o' sp)"
  by (induction "is" arbitrary: o') auto

text \<open>A server of sixteen slots where the first slot was left by a client.\<close>

definition left_server :: net_server where
  "left_server = set_slot 0 ((conn_Init True blank_conn)\<lparr>c_PeerAddr := some_addr\<rparr>) (opened [] 16 4)"

lemma opened_fields:
  "ns_MaxClients (opened [] 16 4) = 16" "ns_MaxClientsPerIp (opened [] 16 4) = 4"
  "ns_SpamConns (opened [] 16 4) = replicate 256 \<lparr>sc_Addr = NETADDR_ZEROED, sc_Time = 0, sc_LastSeen = 0, sc_Conns = 0\<rparr>"
  "ns_Events (opened [] 16 4) = []"
  by (simp_all add: opened_def SetCallbacksFull_def srv_Open_def server_consts)

lemma init_conn: "c_State (conn_Init True blank_conn) = OFFLINE" "c_PeerAddr (conn_Init True blank_conn) = NETADDR_ZEROED"
  "\<not> c_Sixup (conn_Init True blank_conn)"
  by (simp_all add: conn_Init_def ResetStats_def ClearPeerAddr_def conn_Reset_def)

lemma left_slot: "i < 16 \<Longrightarrow> ns_Slots left_server ! i = (if i = 0 then (conn_Init True blank_conn)\<lparr>c_PeerAddr := some_addr\<rparr> else conn_Init True blank_conn)"
  using length_slots [OF opened_ok(1), of "[]" 16 4] opened_slot [of i "[]" 16 4]
  by (auto simp: left_server_def set_slot_def NET_MAX_CLIENTS_def)

lemma left_server_ok:
  "server_ok left_server" "callbacks_set left_server" "wf_slots left_server" "\<not> fst (Connlimit some_srv some_addr left_server)"
  "ns_MaxClients left_server = 16" "ns_MaxClientsPerIp left_server = 4" "ns_Events left_server = []"
proof -
  have "conn_ok ((conn_Init True blank_conn)\<lparr>c_PeerAddr := some_addr\<rparr>)"
    using conn_Init_ok [of True blank_conn] by (auto simp: conn_ok_def building_def split_of_def)
  then have "slot_ok ((conn_Init True blank_conn)\<lparr>c_PeerAddr := some_addr\<rparr>)" by (simp add: slot_ok_def server_states_def init_conn)
  then show "server_ok left_server" unfolding left_server_def by (rule server_ok_set [OF opened_ok(1)])
  show "callbacks_set left_server" using opened_ok(2) [of "[]" 16 4] by (simp add: left_server_def callbacks_set_def)
  have "wf_addr (c_PeerAddr ((ns_Slots (opened [] 16 4))[0 := (conn_Init True blank_conn)\<lparr>c_PeerAddr := some_addr\<rparr>] ! i))"
    if "i < length (ns_Slots (opened [] 16 4))" for i
    using opened_addrs(1) [of "[]" 16 4] that some_addr_ok(2) by (cases i) (simp_all add: wf_slots_def)
  then show "wf_slots left_server" by (simp add: left_server_def wf_slots_def set_slot_def)
  have sp: "ns_SpamConns left_server = replicate 256 \<lparr>sc_Addr = NETADDR_ZEROED, sc_Time = 0, sc_LastSeen = 0, sc_Conns = 0\<rparr>"
    using opened_fields(3) by (simp add: left_server_def set_slot_def)
  have "\<not> fst (connlimit_loop some_srv some_addr [0..<NET_CONNLIMIT_IPS] 0 (ns_SpamConns left_server))"
    by (rule connlimit_unseen)
      (simp add: sp NET_CONNLIMIT_IPS_def net_addr_comp_noport_def NETADDR_ZEROED_def some_addr_def NETTYPE_IPV4_def Let_def)
  then show "\<not> fst (Connlimit some_srv some_addr left_server)" by (simp add: Connlimit_def split_beta)
  show "ns_MaxClients left_server = 16" "ns_MaxClientsPerIp left_server = 4" "ns_Events left_server = []"
    using opened_fields by (simp_all add: left_server_def) (simp add: set_slot_def)
qed

lemma left_server_free:
  "GetClientSlot some_addr left_server = None" "NumClientsWithAddr some_addr left_server = 0" "free_slot left_server = Some 0"
proof -
  have off: "slot_state left_server i = OFFLINE" if "i \<in> set (ids left_server)" for i
    using that left_slot [of i] init_conn(1) by (simp add: slot_state_def ids_def left_server_ok(5))
  show "GetClientSlot some_addr left_server = None" using off by (auto simp: GetClientSlot_def find_None_iff)
  show "NumClientsWithAddr some_addr left_server = 0" using off by (auto simp: NumClientsWithAddr_def filter_empty_conv)
  have "ids left_server = 0 # [1..<16]" by (simp add: ids_def left_server_ok(5) upt_rec)
  then show "free_slot left_server = Some 0" using off by (simp add: free_slot_def)
qed

text \<open>Traffic, a bot, an update and a drop.\<close>

definition some_run :: "(srv_env \<times> srv_cmd) list" where
  "some_run = [(some_srv, RecvCmd [(some_addr, accept_datagram 5)] 0), (some_srv, IgnoreTimeoutsCmd 0), (some_srv, UpdateCmd),
     (some_srv, BeginFlushCmd), (some_srv, EndFlushCmd), (some_srv, DropCmd 0 (Reason (lit ''bye'')))]"

lemma some_run_ok: "\<forall>(E, c) \<in> set some_run. env_ok E \<and> cmd_ok m c \<and> no_bots c \<and> no_limit c"
  by (simp add: some_run_def some_srv_ok some_addr_ok server_consts lit_def)

subsection \<open>Properties\<close>



text \<open>As long as no slot is given to a bot, no two clients have the same address and port, so that a
  packet belongs to at most one client.\<close>

theorem server_addresses_unique:
  assumes "\<forall>(E, c) \<in> set xs. env_ok E \<and> cmd_ok (ns_MaxClients (opened seed n k)) c \<and> no_bots c"
  shows "\<exists>s'. run_cmds xs (opened seed n k) = Some s' \<and> unique_addrs s'"
proof -
  have "\<exists>s'. run_cmds xs (opened seed n k) = Some s' \<and> server_ok s' \<and> callbacks_set s' \<and>
      ns_MaxClients s' = ns_MaxClients (opened seed n k) \<and> (unique_addrs s' \<and> wf_slots s')"
  proof (rule run_cmds_ok [where P = "\<lambda>s. unique_addrs s \<and> wf_slots s" and A = no_bots, OF _ _ _ _ _ opened_ok _ assms])
    show "unique_addrs s2 \<and> wf_slots s2" if "server_ok s1" "unique_addrs s1 \<and> wf_slots s1" "slots_fade s1 s2" for s1 s2
      using unique_fade wf_slots_fade that by blast
    show "unique_addrs s2 \<and> wf_slots s2" if "server_ok s1" "unique_addrs s1 \<and> wf_slots s1" "wf_addr a" "effect a s1 s2" for a s1 s2
      using unique_effect wf_slots_effect that by blast
    show "unique_addrs (opened seed n k) \<and> wf_slots (opened seed n k)" using opened_addrs by blast
    show "unique_addrs (IgnoreTimeouts i s1) \<and> wf_slots (IgnoreTimeouts i s1)" if "unique_addrs s1 \<and> wf_slots s1" for s1 i
      using that by (simp add: unique_addrs_def wf_slots_def IgnoreTimeouts_slots)
  qed (simp_all add: unique_addrs_def wf_slots_def SetMaxClientsPerIp_def)
  then show ?thesis by blast
qed

theorem server_addresses_unique_witness:
  "\<exists>s'. run_cmds some_run (opened [] 16 4) = Some s' \<and> unique_addrs s'"
  by (rule server_addresses_unique) (use some_run_ok in auto)



text \<open>C4: with the spoof protection on, the engine is told of a client only for a datagram that shows the
  token that belongs to the address it came from, so that a sender who cannot read the answers to that
  address cannot open a connection from it.\<close>

theorem accept_needs_token:
  assumes "anti_spoof E" "srv_packet E a data rt s = Some (x, rt', s')" "ns_Events s' \<noteq> ns_Events s"
  shows "\<exists>Six Al d un. UnpackPacket (e_Huffman (se_Net E)) data (ns_RecvBuffer s) Six Al True True = (d, Inr un) \<and>
    shows_token E s a un"
  using assms by (rule packet_token)

theorem accept_needs_token_witness:
  "\<exists>rt' s'. srv_packet some_srv some_addr (accept_datagram (srv_GetToken some_srv left_server some_addr)) 0 left_server = Some (None, rt', s') \<and>
    (\<exists>Six Al d un. UnpackPacket (e_Huffman (se_Net some_srv)) (accept_datagram (srv_GetToken some_srv left_server some_addr))
       (ns_RecvBuffer left_server) Six Al True True = (d, Inr un) \<and> shows_token some_srv left_server some_addr un)"
proof -
  have "int (NumClientsWithAddr some_addr left_server) + 1 \<le> ns_MaxClientsPerIp left_server"
    by (simp add: left_server_free left_server_ok)
  from handshake_admits [OF left_server_ok(1) some_srv_ok(1) left_server_ok(2) some_addr_ok(1) some_srv_ok(3) left_server_ok(4)
      left_server_free(1) this left_server_free(3), of 0]
  obtain rt' s' where h: "srv_packet some_srv some_addr (accept_datagram (srv_GetToken some_srv left_server some_addr)) 0 left_server =
      Some (None, rt', s')" "ns_Events s' = ns_Events left_server @ [NewClient 0 False]" by blast
  have "ns_Events s' \<noteq> ns_Events left_server" using h(2) by simp
  from accept_needs_token [OF some_srv_ok(2) h(1) this] h(1) show ?thesis by blast
qed

text \<open>C6: a client that answers with the token it was sent is accepted: if the address is not banned, not
  limited and has no slot yet, a slot is free and the limit per address is not reached, then the datagram
  that carries the token opens the first free slot for the address, and the engine is told so.\<close>

theorem token_handshake_admits:
  assumes s: "server_ok s" and E: "env_ok E" and cb: "callbacks_set s" and a: "addr_known a"
    and ban: "se_IsBanned E a = None" and lim: "\<not> fst (Connlimit E a s)"
    and new: "GetClientSlot a s = None" and room: "int (NumClientsWithAddr a s) + 1 \<le> ns_MaxClientsPerIp s"
    and free: "free_slot s = Some i"
  shows "\<exists>rt' s'. srv_packet E a (accept_datagram (srv_GetToken E s a)) rt s = Some (None, rt', s') \<and>
    c_State (ns_Slots s' ! i) = ONLINE \<and> c_PeerAddr (ns_Slots s' ! i) = a \<and>
    ns_Events s' = ns_Events s @ [NewClient i False]"
  by (rule handshake_admits [OF s E cb a ban lim new room free])

theorem token_handshake_admits_witness:
  "\<exists>rt' s'. srv_packet some_srv some_addr (accept_datagram (srv_GetToken some_srv left_server some_addr)) 0 left_server = Some (None, rt', s') \<and>
    c_State (ns_Slots s' ! 0) = ONLINE \<and> c_PeerAddr (ns_Slots s' ! 0) = some_addr \<and>
    ns_Events s' = ns_Events left_server @ [NewClient 0 False]"
proof (rule token_handshake_admits)
  show "int (NumClientsWithAddr some_addr left_server) + 1 \<le> ns_MaxClientsPerIp left_server"
    by (simp add: left_server_free left_server_ok)
qed (simp_all only: left_server_ok left_server_free some_srv_ok some_addr_ok not_False_eq_True)

text \<open>C7: \<open>BotInit\<close> keeps the address of the last client of the slot, so the slot still answers to that
  address: when the client comes back with its token, the server takes it for a client that rejoins and
  opens the bot's slot for it, and the bot is gone from the network layer.\<close>

theorem bot_slot_taken_over:
  assumes s: "server_ok s" and E: "env_ok E" and cb: "callbacks_set s" and a: "addr_known a" "wf_addr a" and w: "wf_slots s"
    and ban: "se_IsBanned E a = None" and lim: "\<not> fst (Connlimit E a s)"
    and i: "i < ns_MaxClients s" and last: "c_PeerAddr (ns_Slots s ! i) = a" "\<not> c_Sixup (ns_Slots s ! i)"
    and alone: "\<forall>j < ns_MaxClients s. live (ns_Slots s ! j) \<longrightarrow> c_PeerAddr (ns_Slots s ! j) \<noteq> a"
  shows "\<exists>rt' s'. srv_packet E a (accept_datagram (srv_GetToken E s a)) rt (BotInit i s) = Some (None, rt', s') \<and>
    c_State (ns_Slots (BotInit i s) ! i) = BOT \<and> c_State (ns_Slots s' ! i) \<noteq> BOT \<and> c_PeerAddr (ns_Slots s' ! i) = a \<and>
    ns_Events s' = ns_Events s @ [ClientRejoin i False False]"
proof -
  define b where "b = BotInit i s"
  have il: "i < length (ns_Slots s)" "i < NET_MAX_CLIENTS" using i s by (simp_all add: server_ok_def)
  have bsl: "ns_Slots b = (ns_Slots s)[i := BotConnect (ns_Slots s ! i)]" by (simp add: b_def BotInit_def set_slot_def)
  have bi: "ns_Slots b ! i = BotConnect (ns_Slots s ! i)" using il by (simp add: bsl)
  have "slot_ok (ns_Slots s ! i)" using slot_ok_nth [OF s il(2)] by blast
  then have ok: "server_ok b" unfolding b_def BotInit_def by (intro server_ok_set [OF s] slot_ok_upd)
  have same: "settings b = settings s" "callbacks_set b" "ns_Events b = ns_Events s" "ns_SpamConns b = ns_SpamConns s"
      "ns_SecurityTokenSeed b = ns_SecurityTokenSeed s" "ns_MaxClients b = ns_MaxClients s"
    using cb by (simp_all add: b_def BotInit_def settings_def callbacks_set_def) (simp_all add: set_slot_def)
  have bot: "c_State (ns_Slots b ! i) = BOT" "c_PeerAddr (ns_Slots b ! i) = a" "\<not> c_Sixup (ns_Slots b ! i)"
    using last by (simp_all add: bi BotConnect_def)
  have comp: "net_addr_comp (c_PeerAddr (ns_Slots s ! j)) a = 0 \<longleftrightarrow> c_PeerAddr (ns_Slots s ! j) = a" if "j < ns_MaxClients s" for j
    using comp_eq [OF _ a(2)] w that s by (simp add: wf_slots_def server_ok_def)
  have slot: "GetClientSlot a b = Some i"
  proof -
    define Q where "Q = (\<lambda>j. slot_state b j \<noteq> OFFLINE \<and> slot_state b j \<noteq> ERROR \<and> net_addr_comp (c_PeerAddr (ns_Slots b ! j)) a = 0)"
    have Qi: "Q i" using bot comp_eq [OF a(2) a(2)] by (simp add: Q_def slot_state_def)
    have Qj: "\<not> Q j" if "j < i" for j
    proof -
      have "ns_Slots b ! j = ns_Slots s ! j" "j < ns_MaxClients s" using that i by (simp_all add: bsl)
      then show ?thesis using alone comp [of j] by (auto simp: Q_def slot_state_def live_def)
    qed
    have "find Q (ids b) = Some i"
      unfolding find_Some_iff using Qi Qj i same(6) by (intro exI [of _ i]) (simp add: ids_def)
    then show ?thesis by (simp add: GetClientSlot_def Q_def)
  qed
  have tok: "srv_GetToken E b a = srv_GetToken E s a" by (rule GetToken_seed) (rule same(5))
  have lim': "\<not> fst (Connlimit E a b)" using lim same(4) by (simp add: Connlimit_def split_beta)
  obtain n p where pk: "srv_packet E a (accept_datagram (srv_GetToken E s a)) rt b =
    (case TryAcceptClient E a (srv_GetToken E s a) (Some i) False False 0 (received b n p) of None \<Rightarrow> None
     | Some s3 \<Rightarrow> (case feed_slot E a (Some i) True 0 NET_SECURITY_TOKEN_UNKNOWN s3 of None \<Rightarrow> None
        | Some s4 \<Rightarrow> Some (None, NET_SECURITY_TOKEN_UNKNOWN, s4)))" "wf_packet p"
    using accept_datagram_accepted [OF ok ban, of rt, unfolded slot tok] bot(3) by auto
  obtain s1 where s1: "Connlimit E a (received b n p) = (False, s1)" "server_ok s1" "callbacks_set s1" "ns_Slots s1 = ns_Slots b"
      "ns_Events s1 = ns_Events b" "settings s1 = settings b"
    using not_limited [OF ok pk(2) lim' same(2)] by blast
  obtain s3 where s3: "init_slot E a (srv_GetToken E s a) i True False False 0 s1 = Some s3" "server_ok s3" "becomes i a s1 s3"
      "ns_Events s3 = ns_Events s1 @ [ClientRejoin i False False]"
    using init_slot_ok [OF s1(2) E s1(3) il(2) a(1), of "srv_GetToken E s a" True False False 0] by auto
  have acc: "TryAcceptClient E a (srv_GetToken E s a) (Some i) False False 0 (received b n p) = Some s3"
    using s3(1) by (simp add: TryAcceptClient_def s1(1))
  have on: "c_State (ns_Slots s3 ! i) = ONLINE" "c_PeerAddr (ns_Slots s3 ! i) = a" "i < length (ns_Slots s3)"
    using s3(3) il(1) s3(2) by (auto simp: becomes_def server_ok_def il)
  note c3 = slot_ok_nth [OF s3(2) il(2)]
  have ack: "pk_Ack (ns_RecvBuffer s3) < 1024" using s3(2) by (simp add: server_ok_def wf_packet_def)
  have lv: "live (ns_Slots s3 ! i)" using on(1) by (simp add: live_def)
  obtain r q c' where fd: "Feed (se_Net E) (ns_RecvBuffer s3) a 0 NET_SECURITY_TOKEN_UNKNOWN (ns_Slots s3 ! i) = Some (r, q, c')"
    using Feed_returns [OF conjunct1 [OF c3] lv ack a(1)] by blast
  have c': "fades (ns_Slots s3 ! i) c'" "c_State c' = ONLINE \<or> c_State c' = ERROR"
    using Feed_slot [OF conjunct1 [OF c3] lv ack a(1) fd] on(1) by auto
  have "feed_slot E a (Some i) True 0 NET_SECURITY_TOKEN_UNKNOWN s3 = Some ((set_slot i c' s3)\<lparr>ns_RecvBuffer := q\<rparr>)"
    unfolding feed_slot_def option.case conjunct2 [OF c3] bind.bind_lunit fd prod.case Let_def by simp
  then have "srv_packet E a (accept_datagram (srv_GetToken E s a)) rt b =
      Some (None, NET_SECURITY_TOKEN_UNKNOWN, (set_slot i c' s3)\<lparr>ns_RecvBuffer := q\<rparr>)"
    using pk(1) acc by simp
  moreover have "ns_Slots ((set_slot i c' s3)\<lparr>ns_RecvBuffer := q\<rparr>) ! i = c'" using on(3) by (simp add: set_slot_def)
  ultimately show ?thesis using bot(1) c' on(2) s3(4) s1(5) same(3) unfolding b_def [symmetric] by (auto simp: fades_def)
qed

theorem bot_slot_taken_over_witness:
  "\<exists>rt' s'. srv_packet some_srv some_addr (accept_datagram (srv_GetToken some_srv left_server some_addr)) 0 (BotInit 0 left_server) =
      Some (None, rt', s') \<and>
    c_State (ns_Slots (BotInit 0 left_server) ! 0) = BOT \<and> c_State (ns_Slots s' ! 0) \<noteq> BOT \<and> c_PeerAddr (ns_Slots s' ! 0) = some_addr \<and>
    ns_Events s' = ns_Events left_server @ [ClientRejoin 0 False False]"
proof (rule bot_slot_taken_over)
  show "\<forall>j < ns_MaxClients left_server. live (ns_Slots left_server ! j) \<longrightarrow> c_PeerAddr (ns_Slots left_server ! j) \<noteq> some_addr"
    by (simp add: left_server_ok left_slot live_def init_conn)
qed (simp_all add: left_server_ok some_srv_ok some_addr_ok left_slot init_conn)

end
