(* ===== verification/SnapIdPool.thy ===== *)
theory SnapIdPool
  imports Prelude
begin

text \<open>
  The pool of snap ids (\<open>CSnapIdPool\<close>, engine/server/snap_id_pool.cpp): every entity in a snapshot has an
  id, and an id that was freed is not given out again for five seconds, so that clients do not take
  the new entity for the old one. The free ids and the ids that wait are linked lists inside one array.
\<close>

subsection \<open>Model\<close>

definition MAX_IDS :: nat where "MAX_IDS = 32 * 1024"

datatype id_state = ID_FREE | ID_ALLOCATED | ID_TIMED

record snap_cid =
  cid_Next :: int
  cid_State :: id_state
  cid_Timeout :: int

record id_pool =
  ip_Ids :: "snap_cid list"
  ip_FirstFree :: int
  ip_FirstTimed :: int
  ip_LastTimed :: int
  ip_Usage :: int
  ip_InUsage :: int

text \<open>\<open>m_Next\<close> is a \<open>short\<close>.\<close>

definition to_i16 :: "int \<Rightarrow> int" where
  "to_i16 i = (i + 32768) mod 65536 - 32768"

definition cid_at :: "id_pool \<Rightarrow> int \<Rightarrow> snap_cid option" where
  "cid_at p i = (if 0 \<le> i \<and> i < int (length (ip_Ids p)) then Some (ip_Ids p ! nat i) else None)"

definition set_cid :: "int \<Rightarrow> snap_cid \<Rightarrow> id_pool \<Rightarrow> id_pool" where
  "set_cid i c p = p\<lparr>ip_Ids := (ip_Ids p)[nat i := c]\<rparr>"

definition pool_Reset :: "id_pool \<Rightarrow> id_pool" where
  "pool_Reset p =
     (let a = map (\<lambda>i. (ip_Ids p ! i)\<lparr>cid_Next := to_i16 (int i + 1), cid_State := ID_FREE\<rparr>) [0..<MAX_IDS] in
      p\<lparr>ip_Ids := a[MAX_IDS - 1 := (a ! (MAX_IDS - 1))\<lparr>cid_Next := - 1\<rparr>],
        ip_FirstFree := 0, ip_FirstTimed := - 1, ip_LastTimed := - 1, ip_Usage := 0, ip_InUsage := 0\<rparr>)"

definition RemoveFirstTimeout :: "id_pool \<Rightarrow> id_pool option" where
  "RemoveFirstTimeout p =
     (case cid_at p (ip_FirstTimed p) of None \<Rightarrow> None
      | Some c \<Rightarrow>
          let p1 = set_cid (ip_FirstTimed p) (c\<lparr>cid_Next := to_i16 (ip_FirstFree p), cid_State := ID_FREE\<rparr>) p;
              p2 = p1\<lparr>ip_FirstFree := ip_FirstTimed p, ip_FirstTimed := cid_Next c\<rparr>;
              p3 = (if ip_FirstTimed p2 = - 1 then p2\<lparr>ip_LastTimed := - 1\<rparr> else p2)
          in Some (p3\<lparr>ip_Usage := ip_Usage p3 - 1\<rparr>))"

partial_function (option) expire_ids :: "int \<Rightarrow> id_pool \<Rightarrow> id_pool option" where
  "expire_ids Now p =
     (if ip_FirstTimed p = - 1 then Some p
      else case cid_at p (ip_FirstTimed p) of None \<Rightarrow> None
      | Some c \<Rightarrow>
          if cid_Timeout c < Now then (case RemoveFirstTimeout p of None \<Rightarrow> None | Some p1 \<Rightarrow> expire_ids Now p1)
          else Some p)"

text \<open>The id, if there is one, and the pool.\<close>

definition NewId :: "int \<Rightarrow> id_pool \<Rightarrow> (int option \<times> id_pool) option" where
  "NewId Now p =
     (case expire_ids Now p of None \<Rightarrow> None
      | Some p1 \<Rightarrow>
          let ident = ip_FirstFree p1 in
          if ident = - 1 then Some (None, p1)
          else case cid_at p1 ident of None \<Rightarrow> None
          | Some c \<Rightarrow>
              Some (Some ident, (set_cid ident (c\<lparr>cid_State := ID_ALLOCATED\<rparr>) p1)\<lparr>ip_FirstFree := cid_Next c,
                ip_Usage := ip_Usage p1 + 1, ip_InUsage := ip_InUsage p1 + 1\<rparr>))"

partial_function (option) TimeoutIds :: "id_pool \<Rightarrow> id_pool option" where
  "TimeoutIds p =
     (if ip_FirstTimed p = - 1 then Some p
      else case RemoveFirstTimeout p of None \<Rightarrow> None | Some p1 \<Rightarrow> TimeoutIds p1)"

definition FreeId :: "int \<Rightarrow> int \<Rightarrow> int \<Rightarrow> id_pool \<Rightarrow> id_pool option" where
  "FreeId Now Freq ident p =
     (if ident < 0 then Some p
      else case cid_at p ident of None \<Rightarrow> None
      | Some c \<Rightarrow>
          if cid_State c \<noteq> ID_ALLOCATED then None
          else
            let p1 = set_cid ident (c\<lparr>cid_State := ID_TIMED, cid_Timeout := Now + Freq * 5, cid_Next := - 1\<rparr>)
                       (p\<lparr>ip_InUsage := ip_InUsage p - 1\<rparr>) in
            if ip_LastTimed p1 \<noteq> - 1 then
              (case cid_at p1 (ip_LastTimed p1) of None \<Rightarrow> None
               | Some l \<Rightarrow> Some ((set_cid (ip_LastTimed p1) (l\<lparr>cid_Next := to_i16 ident\<rparr>) p1)\<lparr>ip_LastTimed := ident\<rparr>))
            else Some (p1\<lparr>ip_FirstTimed := ident, ip_LastTimed := ident\<rparr>))"

subsection \<open>The two lists\<close>

text \<open>The list that starts at an id and ends with \<open>-1\<close>.\<close>

fun id_chain :: "snap_cid list \<Rightarrow> int \<Rightarrow> nat list \<Rightarrow> bool" where
  "id_chain a i [] \<longleftrightarrow> i = - 1"
| "id_chain a i (x # xs) \<longleftrightarrow> i = int x \<and> x < length a \<and> id_chain a (cid_Next (a ! x)) xs"

definition state_of :: "nat list \<Rightarrow> nat list \<Rightarrow> nat \<Rightarrow> id_state" where
  "state_of F T i = (if i \<in> set F then ID_FREE else if i \<in> set T then ID_TIMED else ID_ALLOCATED)"

definition pool_view :: "id_pool \<Rightarrow> nat list \<Rightarrow> nat list \<Rightarrow> bool" where
  "pool_view p F T \<longleftrightarrow> length (ip_Ids p) = MAX_IDS \<and> id_chain (ip_Ids p) (ip_FirstFree p) F \<and> id_chain (ip_Ids p) (ip_FirstTimed p) T \<and>
     ip_LastTimed p = (if T = [] then - 1 else int (last T)) \<and> distinct (F @ T) \<and>
     (\<forall>i < MAX_IDS. cid_State (ip_Ids p ! i) = state_of F T i) \<and>
     ip_Usage p = int MAX_IDS - int (length F) \<and> ip_InUsage p = int MAX_IDS - int (length F) - int (length T)"

definition timeout_of :: "id_pool \<Rightarrow> nat \<Rightarrow> int" where
  "timeout_of p i = cid_Timeout (ip_Ids p ! i)"

lemma chain_bound: "id_chain a i xs \<Longrightarrow> x \<in> set xs \<Longrightarrow> x < length a"
  by (induction xs arbitrary: i) auto

lemma chain_cong: "id_chain a i xs \<Longrightarrow> length b = length a \<Longrightarrow> \<forall>x \<in> set xs. cid_Next (b ! x) = cid_Next (a ! x) \<Longrightarrow> id_chain b i xs"
  by (induction xs arbitrary: i) auto

lemma chain_upd: "id_chain a i xs \<Longrightarrow> j \<notin> set xs \<Longrightarrow> id_chain (a[j := c]) i xs"
  by (rule chain_cong [of a]) (simp_all, metis nth_list_update_neq)

lemma chain_same: "id_chain a i xs \<Longrightarrow> cid_Next c = cid_Next (a ! j) \<Longrightarrow> id_chain (a[j := c]) i xs"
  by (cases "j < length a") (auto simp: nth_list_update list_update_beyond intro!: chain_cong [of a])

lemma nth_upd: "j < length a \<Longrightarrow> a[j := c] ! i = (if i = j then c else a ! i)"
  by simp

lemma id_chain_append:
  "id_chain a i xs \<Longrightarrow> xs \<noteq> [] \<Longrightarrow> distinct xs \<Longrightarrow> j \<notin> set xs \<Longrightarrow> j < length a \<Longrightarrow> cid_Next (a ! j) = - 1 \<Longrightarrow> cid_Next c = int j \<Longrightarrow>
   id_chain (a[last xs := c]) i (xs @ [j])"
proof (induction xs arbitrary: i)
  case (Cons x xs)
  show ?case
  proof (cases "xs = []")
    case True
    then show ?thesis using Cons.prems by auto
  next
    case False
    then have "id_chain (a[last xs := c]) (cid_Next (a ! x)) (xs @ [j])" using Cons by simp
    moreover have "x \<noteq> last xs" using False Cons.prems(3) by auto
    ultimately show ?thesis using False Cons.prems(1) by simp
  qed
qed simp

lemma view_bound: "pool_view p F T \<Longrightarrow> i \<in> set F \<union> set T \<Longrightarrow> i < MAX_IDS"
  using chain_bound [of "ip_Ids p" "ip_FirstFree p" F i] chain_bound [of "ip_Ids p" "ip_FirstTimed p" T i]
  by (auto simp: pool_view_def)

lemma short_id: "i < MAX_IDS \<Longrightarrow> to_i16 (int i) = int i"
  by (simp add: to_i16_def MAX_IDS_def)

lemma short_none: "to_i16 (- 1) = - 1"
  by (simp add: to_i16_def)

lemma first_short: "pool_view p F T \<Longrightarrow> to_i16 (ip_FirstFree p) = ip_FirstFree p"
proof -
  assume v: "pool_view p F T"
  show ?thesis
  proof (cases F)
    case Nil
    then show ?thesis using v short_none by (simp add: pool_view_def)
  next
    case (Cons x xs)
    then have "ip_FirstFree p = int x" "x < MAX_IDS" using v by (simp_all add: pool_view_def)
    then show ?thesis using short_id by simp
  qed
qed

lemma length_pool: "length (ip_Ids (set_cid i c p)) = length (ip_Ids p)"
  by (simp add: set_cid_def)

lemma Remove_view:
  assumes v: "pool_view p F (t # T)"
  shows "\<exists>p'. RemoveFirstTimeout p = Some p' \<and> pool_view p' (t # F) T \<and> timeout_of p' = timeout_of p"
proof -
  have ft: "ip_FirstTimed p = int t" and tl: "t < length (ip_Ids p)" and l: "length (ip_Ids p) = MAX_IDS"
    using v by (simp_all add: pool_view_def)
  have nt: "t \<notin> set F" "t \<notin> set T" using v by (auto simp: pool_view_def)
  define c where "c = (ip_Ids p ! t)\<lparr>cid_Next := ip_FirstFree p, cid_State := ID_FREE\<rparr>"
  define p' where "p' = p\<lparr>ip_Ids := (ip_Ids p)[t := c], ip_FirstFree := int t, ip_FirstTimed := cid_Next (ip_Ids p ! t),
    ip_LastTimed := (if cid_Next (ip_Ids p ! t) = - 1 then - 1 else ip_LastTimed p), ip_Usage := ip_Usage p - 1\<rparr>"
  have "RemoveFirstTimeout p = Some p'"
    using ft tl by (simp add: RemoveFirstTimeout_def cid_at_def set_cid_def first_short [OF v] p'_def c_def Let_def)
  moreover have "pool_view p' (t # F) T"
  proof -
    have F: "id_chain (ip_Ids p) (ip_FirstFree p) F" and T: "id_chain (ip_Ids p) (cid_Next (ip_Ids p ! t)) T"
      using v by (simp_all add: pool_view_def)
    have T0: "T = [] \<longleftrightarrow> cid_Next (ip_Ids p ! t) = - 1" using T by (cases T) auto
    have "state_of (t # F) T i = (if i = t then ID_FREE else state_of F (t # T) i)" for i by (simp add: state_of_def)
    then have st: "\<forall>i < MAX_IDS. cid_State ((ip_Ids p)[t := c] ! i) = state_of (t # F) T i"
      using v tl by (auto simp: pool_view_def nth_list_update c_def)
    have ch: "id_chain ((ip_Ids p)[t := c]) (cid_Next c) F" "id_chain ((ip_Ids p)[t := c]) (cid_Next (ip_Ids p ! t)) T"
      using chain_upd [OF F nt(1)] chain_upd [OF T nt(2)] tl by (simp_all add: c_def)
    have d: "distinct ((t # F) @ T)" using v by (auto simp: pool_view_def)
    have la: "ip_LastTimed p = int (last (t # T))" "ip_Usage p = int MAX_IDS - int (length F)"
        "ip_InUsage p = int MAX_IDS - int (length F) - int (length (t # T))" using v by (simp_all add: pool_view_def)
    have tt: "(ip_Ids p)[t := c] ! t = c" using tl by simp
    show ?thesis unfolding pool_view_def
    proof (intro conjI)
      show "ip_LastTimed p' = (if T = [] then - 1 else int (last T))" using la(1) T0 by (simp add: p'_def)
      show "id_chain (ip_Ids p') (ip_FirstFree p') (t # F)" using ch(1) tl by (simp add: p'_def)
    qed (use l ch st d la in \<open>simp_all add: p'_def\<close>)
  qed
  moreover have "timeout_of p' = timeout_of p"
    by (rule ext) (simp add: timeout_of_def p'_def c_def nth_upd [OF tl])
  ultimately show ?thesis by blast
qed

lemma expire_view:
  "pool_view p F T \<Longrightarrow> \<exists>p'. expire_ids Now p = Some p' \<and> timeout_of p' = timeout_of p \<and>
     pool_view p' (rev (takeWhile (\<lambda>i. timeout_of p i < Now) T) @ F) (dropWhile (\<lambda>i. timeout_of p i < Now) T)"
proof (induction T arbitrary: p F)
  case Nil
  then have "ip_FirstTimed p = - 1" by (simp add: pool_view_def)
  then show ?case using Nil by (simp add: expire_ids.simps)
next
  case (Cons t T)
  have ft: "ip_FirstTimed p = int t" "t < length (ip_Ids p)" using Cons.prems by (simp_all add: pool_view_def)
  show ?case
  proof (cases "timeout_of p t < Now")
    case False
    then have "expire_ids Now p = Some p"
      using ft by (subst expire_ids.simps) (simp add: cid_at_def timeout_of_def)
    then show ?thesis using False Cons.prems by simp
  next
    case True
    obtain p1 where p1: "RemoveFirstTimeout p = Some p1" "pool_view p1 (t # F) T" "timeout_of p1 = timeout_of p"
      using Remove_view [OF Cons.prems] by blast
    have "expire_ids Now p = expire_ids Now p1"
      using True ft p1(1) by (subst expire_ids.simps) (simp add: cid_at_def timeout_of_def)
    then show ?thesis using Cons.IH [OF p1(2)] p1(3) True by simp
  qed
qed

lemma TimeoutIds_view:
  "pool_view p F T \<Longrightarrow> \<exists>p'. TimeoutIds p = Some p' \<and> timeout_of p' = timeout_of p \<and> pool_view p' (rev T @ F) []"
proof (induction T arbitrary: p F)
  case Nil
  then have "ip_FirstTimed p = - 1" by (simp add: pool_view_def)
  then show ?case using Nil by (simp add: TimeoutIds.simps)
next
  case (Cons t T)
  have ft: "ip_FirstTimed p = int t" using Cons.prems by (simp add: pool_view_def)
  obtain p1 where p1: "RemoveFirstTimeout p = Some p1" "pool_view p1 (t # F) T" "timeout_of p1 = timeout_of p"
    using Remove_view [OF Cons.prems] by blast
  have "TimeoutIds p = TimeoutIds p1" using ft p1(1) by (subst TimeoutIds.simps) simp
  then show ?case using Cons.IH [OF p1(2)] p1(3) by simp
qed

lemma NewId_view:
  assumes v: "pool_view p F T" and E_def: "E = takeWhile (\<lambda>i. timeout_of p i < Now) T" and W_def: "W = dropWhile (\<lambda>i. timeout_of p i < Now) T"
  shows "\<exists>p'. timeout_of p' = timeout_of p \<and>
    (case rev E @ F of [] \<Rightarrow> NewId Now p = Some (None, p') \<and> pool_view p' [] W
     | x # xs \<Rightarrow> NewId Now p = Some (Some (int x), p') \<and> pool_view p' xs W)"
proof -
  obtain p1 where p1: "expire_ids Now p = Some p1" "timeout_of p1 = timeout_of p" "pool_view p1 (rev E @ F) W"
    using expire_view [OF v, of Now] unfolding E_def W_def by blast
  show ?thesis
  proof (cases "rev E @ F")
    case Nil
    then have "ip_FirstFree p1 = - 1" using p1(3) by (simp add: pool_view_def)
    then have "NewId Now p = Some (None, p1)" using p1(1) by (simp add: NewId_def)
    then show ?thesis using p1(2,3) Nil by (intro exI [of _ p1]) simp
  next
    case (Cons x xs)
    have v1: "pool_view p1 (x # xs) W" using p1(3) Cons by simp
    have ff: "ip_FirstFree p1 = int x" and xl: "x < length (ip_Ids p1)" using v1 by (simp_all add: pool_view_def)
    define c where "c = (ip_Ids p1 ! x)\<lparr>cid_State := ID_ALLOCATED\<rparr>"
    define p' where "p' = p1\<lparr>ip_Ids := (ip_Ids p1)[x := c], ip_FirstFree := cid_Next (ip_Ids p1 ! x),
      ip_Usage := ip_Usage p1 + 1, ip_InUsage := ip_InUsage p1 + 1\<rparr>"
    have "NewId Now p = Some (Some (int x), p')"
      using p1(1) ff xl by (simp add: NewId_def cid_at_def set_cid_def p'_def c_def Let_def)
    moreover have "pool_view p' xs W"
    proof -
      have nx: "x \<notin> set xs" "x \<notin> set W" using v1 by (auto simp: pool_view_def)
      have ch: "id_chain ((ip_Ids p1)[x := c]) (cid_Next (ip_Ids p1 ! x)) xs" "id_chain ((ip_Ids p1)[x := c]) (ip_FirstTimed p1) W"
        using v1 by (auto simp: pool_view_def c_def intro!: chain_same)
      have "state_of xs W i = (if i = x then ID_ALLOCATED else state_of (x # xs) W i)" for i using nx by (simp add: state_of_def)
      then have st: "\<forall>i < MAX_IDS. cid_State ((ip_Ids p1)[x := c] ! i) = state_of xs W i"
        using v1 xl by (auto simp: pool_view_def nth_list_update c_def)
      show ?thesis unfolding pool_view_def
        using v1 ch st by (simp add: p'_def pool_view_def)
    qed
    moreover have "timeout_of p' = timeout_of p"
      unfolding p1(2) [symmetric] by (rule ext) (simp add: timeout_of_def p'_def c_def nth_upd [OF xl])
    ultimately show ?thesis using Cons by auto
  qed
qed

lemma FreeId_view:
  assumes v: "pool_view p F T" and i: "i < MAX_IDS" "i \<notin> set F" "i \<notin> set T"
  shows "\<exists>p'. FreeId Now Freq (int i) p = Some p' \<and> pool_view p' F (T @ [i]) \<and>
    timeout_of p' = (timeout_of p)(i := Now + Freq * 5)"
proof -
  have il: "i < length (ip_Ids p)" and l: "length (ip_Ids p) = MAX_IDS" using v i by (simp_all add: pool_view_def)
  have st: "cid_State (ip_Ids p ! i) = ID_ALLOCATED" using v i by (simp add: pool_view_def state_of_def)
  define c where "c = (ip_Ids p ! i)\<lparr>cid_State := ID_TIMED, cid_Timeout := Now + Freq * 5, cid_Next := - 1\<rparr>"
  define a where "a = (ip_Ids p)[i := c]"
  have al: "length a = MAX_IDS" "a ! i = c" using l il by (simp_all add: a_def)
  have ch: "id_chain a (ip_FirstFree p) F" "id_chain a (ip_FirstTimed p) T"
    using v i chain_upd by (auto simp: pool_view_def a_def)
  have sa: "cid_State (a ! j) = state_of F (T @ [i]) j" if "j < MAX_IDS" for j
    using v that i il by (auto simp: pool_view_def a_def nth_list_update c_def state_of_def)
  have d: "distinct (F @ T @ [i])" using v i by (simp add: pool_view_def)
  have us: "ip_Usage p = int MAX_IDS - int (length F)" "ip_InUsage p = int MAX_IDS - int (length F) - int (length T)"
    using v by (simp_all add: pool_view_def)
  show ?thesis
  proof (cases "T = []")
    case True
    define p' where "p' = p\<lparr>ip_Ids := a, ip_InUsage := ip_InUsage p - 1, ip_FirstTimed := int i, ip_LastTimed := int i\<rparr>"
    have "ip_LastTimed p = - 1" using v True by (simp add: pool_view_def)
    then have "FreeId Now Freq (int i) p = Some p'"
      using il st by (simp add: FreeId_def cid_at_def set_cid_def p'_def a_def c_def Let_def)
    moreover have "pool_view p' F (T @ [i])"
      unfolding pool_view_def using al ch(1) sa d us True i(1) by (simp add: p'_def c_def)
    moreover have "timeout_of p' = (timeout_of p)(i := Now + Freq * 5)"
      by (auto simp: timeout_of_def p'_def a_def c_def nth_upd [OF il])
    ultimately show ?thesis by blast
  next
    case False
    define m where "m = last T"
    have m: "m \<in> set T" "ip_LastTimed p = int m" using False v by (simp_all add: m_def pool_view_def)
    have ml: "m < MAX_IDS" "m \<noteq> i" using view_bound [OF v] m(1) i(3) by auto
    define e where "e = (a ! m)\<lparr>cid_Next := int i\<rparr>"
    define p' where "p' = p\<lparr>ip_Ids := a[m := e], ip_InUsage := ip_InUsage p - 1, ip_LastTimed := int i\<rparr>"
    have "FreeId Now Freq (int i) p = Some p'"
      using il st m ml al by (simp add: FreeId_def cid_at_def set_cid_def p'_def a_def c_def e_def Let_def short_id [OF i(1)])
    moreover have "pool_view p' F (T @ [i])"
    proof -
      have "id_chain (a[m := e]) (ip_FirstTimed p) (T @ [i])"
        unfolding m_def by (rule id_chain_append) (use ch(2) False d i al in \<open>simp_all add: c_def e_def\<close>)
      moreover have "m \<notin> set F" using d m(1) by auto
      then have "id_chain (a[m := e]) (ip_FirstFree p) F" by (rule chain_upd [OF ch(1)])
      moreover have "cid_State (a[m := e] ! j) = state_of F (T @ [i]) j" if "j < MAX_IDS" for j
        using sa [OF that] al(1) ml(1) by (cases "j = m") (simp_all add: e_def)
      ultimately show ?thesis unfolding pool_view_def using al d us by (simp add: p'_def)
    qed
    moreover have "timeout_of p' = (timeout_of p)(i := Now + Freq * 5)"
      using al(1) ml by (intro ext) (simp add: timeout_of_def p'_def e_def nth_upd, simp add: a_def nth_upd [OF il] c_def)
    ultimately show ?thesis by blast
  qed
qed

subsection \<open>Pools in use\<close>

text \<open>The pools a server can have at a time, with a clock that does not run backwards.\<close>

inductive pool_reach :: "int \<Rightarrow> int \<Rightarrow> id_pool \<Rightarrow> bool" for Freq where
  reach_Reset: "length (ip_Ids p) = MAX_IDS \<Longrightarrow> pool_reach Freq t (pool_Reset p)"
| reach_NewId: "pool_reach Freq t p \<Longrightarrow> t \<le> Now \<Longrightarrow> NewId Now p = Some (r, p') \<Longrightarrow> pool_reach Freq Now p'"
| reach_FreeId: "pool_reach Freq t p \<Longrightarrow> t \<le> Now \<Longrightarrow> FreeId Now Freq i p = Some p' \<Longrightarrow> pool_reach Freq Now p'"
| reach_Timeout: "pool_reach Freq t p \<Longrightarrow> TimeoutIds p = Some p' \<Longrightarrow> pool_reach Freq t p'"

definition pool_ok :: "int \<Rightarrow> int \<Rightarrow> id_pool \<Rightarrow> nat list \<Rightarrow> nat list \<Rightarrow> bool" where
  "pool_ok Freq t p F T \<longleftrightarrow> pool_view p F T \<and> sorted (map (timeout_of p) T) \<and> (\<forall>i \<in> set T. timeout_of p i \<le> t + Freq * 5)"

lemma chain_upt: "n \<le> m \<Longrightarrow> length a = m \<Longrightarrow> 0 < m \<Longrightarrow> (\<forall>i < m. cid_Next (a ! i) = (if i = m - 1 then - 1 else int i + 1)) \<Longrightarrow>
    id_chain a (if n = m then - 1 else int n) [n..<m]"
proof (induction "m - n" arbitrary: n)
  case (Suc k)
  then have n: "n < m" by simp
  then have "id_chain a (if Suc n = m then - 1 else int (Suc n)) [Suc n..<m]" using Suc by simp
  moreover have "cid_Next (a ! n) = (if Suc n = m then - 1 else int (Suc n))" using Suc.prems(4) n by auto
  ultimately show ?case using n Suc.prems(2) by (simp add: upt_conv_Cons)
qed simp

lemma ids_Reset_view:
  assumes "length (ip_Ids p) = MAX_IDS"
  shows "pool_view (pool_Reset p) [0..<MAX_IDS] []"
proof -
  define a where "a = ip_Ids (pool_Reset p)"
  have pos: "0 < MAX_IDS" by (simp add: MAX_IDS_def)
  have l: "length a = MAX_IDS" by (simp add: a_def pool_Reset_def Let_def)
  have a: "a ! i = (ip_Ids p ! i)\<lparr>cid_Next := (if i = MAX_IDS - 1 then - 1 else int i + 1), cid_State := ID_FREE\<rparr>" if "i < MAX_IDS" for i
    using that short_id [of "Suc i"] pos by (cases "i = MAX_IDS - 1") (auto simp: a_def pool_Reset_def Let_def add.commute)
  have "id_chain a 0 [0..<MAX_IDS]" using chain_upt [of 0 MAX_IDS a] pos l a by simp
  then show ?thesis using l a by (simp add: pool_view_def a_def state_of_def) (simp add: pool_Reset_def Let_def)
qed

lemma sorted_drop: "sorted (map f xs) \<Longrightarrow> sorted (map f (dropWhile P xs))"
  by (induction xs) auto

lemma reach_ok:
  assumes "pool_reach Freq t p" "0 \<le> Freq"
  shows "\<exists>F T. pool_ok Freq t p F T"
  using assms(1)
proof (induction rule: pool_reach.induct)
  case (reach_Reset p t)
  then show ?case using ids_Reset_view by (intro exI [of _ "[0..<MAX_IDS]"] exI [of _ "[]"]) (simp add: pool_ok_def)
next
  case (reach_NewId t p Now r p')
  then obtain F T where ok: "pool_ok Freq t p F T" by blast
  then have v: "pool_view p F T" by (simp add: pool_ok_def)
  define W where "W = dropWhile (\<lambda>i. timeout_of p i < Now) T"
  have W: "sorted (map (timeout_of p) W)" "set W \<subseteq> set T"
    using ok sorted_drop set_dropWhileD unfolding W_def by (fastforce simp: pool_ok_def)+
  obtain q F' where "NewId Now p = Some (r, q)" "timeout_of q = timeout_of p" "pool_view q F' W"
    using NewId_view [OF v refl W_def] reach_NewId.hyps(3) by (fastforce split: list.splits)
  then have "pool_ok Freq Now p' F' W" using reach_NewId.hyps(2,3) ok W by (fastforce simp: pool_ok_def)
  then show ?case by blast
next
  case (reach_FreeId t p Now i p')
  then obtain F T where ok: "pool_ok Freq t p F T" by blast
  then have v: "pool_view p F T" by (simp add: pool_ok_def)
  show ?case
  proof (cases "i < 0")
    case True
    then have "p' = p" using reach_FreeId.hyps(3) by (simp add: FreeId_def)
    then have "pool_ok Freq Now p' F T" using ok reach_FreeId.hyps(2) by (fastforce simp: pool_ok_def)
    then show ?thesis by blast
  next
    case False
    define j where "j = nat i"
    have ij: "i = int j" using False by (simp add: j_def)
    have st: "j < MAX_IDS" "cid_State (ip_Ids p ! j) = ID_ALLOCATED"
      using reach_FreeId.hyps(3) v by (auto simp: FreeId_def cid_at_def ij pool_view_def split: if_splits)
    then have n: "j \<notin> set F" "j \<notin> set T" using v by (auto simp: pool_view_def state_of_def split: if_splits)
    obtain q where q: "FreeId Now Freq (int j) p = Some q" "pool_view q F (T @ [j])" "timeout_of q = (timeout_of p)(j := Now + Freq * 5)"
      using FreeId_view [OF v st(1) n] by blast
    have "p' = q" using q(1) reach_FreeId.hyps(3) ij by simp
    moreover have "timeout_of p k \<le> Now + Freq * 5" if "k \<in> set T" for k
      using ok that reach_FreeId.hyps(2) by (fastforce simp: pool_ok_def)
    moreover have mq: "map (timeout_of q) T = map (timeout_of p) T" using n(2) q(3) by simp
    have "sorted (map (timeout_of q) T)" unfolding mq using ok by (simp add: pool_ok_def)
    ultimately have "pool_ok Freq Now p' F (T @ [j])" using q(2,3) by (auto simp: pool_ok_def sorted_append)
    then show ?thesis by blast
  qed
next
  case (reach_Timeout t p p')
  then obtain F T where "pool_view p F T" by (auto simp: pool_ok_def)
  then obtain q where "TimeoutIds p = Some q" "pool_view q (rev T @ F) []" using TimeoutIds_view by blast
  then have "pool_ok Freq t p' (rev T @ F) []" using reach_Timeout.hyps(2) by (simp add: pool_ok_def)
  then show ?case by blast
qed

text \<open>What a pool promises: an id is taken by an entity, waits until a time, or is free.\<close>

definition taken :: "id_pool \<Rightarrow> nat \<Rightarrow> bool" where
  "taken p i \<longleftrightarrow> i < MAX_IDS \<and> cid_State (ip_Ids p ! i) = ID_ALLOCATED"

definition waits :: "int \<Rightarrow> id_pool \<Rightarrow> nat \<Rightarrow> bool" where
  "waits Now p i \<longleftrightarrow> i < MAX_IDS \<and> cid_State (ip_Ids p ! i) = ID_TIMED \<and> Now \<le> timeout_of p i"

lemma view_states:
  assumes "pool_view p F T" "i < MAX_IDS"
  shows "taken p i \<longleftrightarrow> i \<notin> set F \<and> i \<notin> set T" "waits Now p i \<longleftrightarrow> i \<in> set T \<and> Now \<le> timeout_of p i"
  using assms by (auto simp: pool_view_def taken_def waits_def state_of_def)

lemma sorted_cut: "sorted (map f xs) \<Longrightarrow> x \<in> set (dropWhile (\<lambda>i. f i < (c :: int)) xs) \<Longrightarrow> c \<le> f x"
  by (induction xs) (auto split: if_splits)

lemma new_id:
  assumes ok: "pool_ok Freq t p F T"
  shows "\<exists>r p'. NewId Now p = Some (r, p') \<and>
    (case r of None \<Rightarrow> (\<forall>i < MAX_IDS. taken p i \<or> waits Now p i) \<and> (\<forall>i. taken p' i = taken p i)
     | Some x \<Rightarrow> (\<exists>i < MAX_IDS. x = int i \<and> \<not> taken p i \<and> \<not> waits Now p i \<and> (\<forall>j. taken p' j \<longleftrightarrow> taken p j \<or> j = i)))"
proof -
  have v: "pool_view p F T" and so: "sorted (map (timeout_of p) T)" using ok by (simp_all add: pool_ok_def)
  define E W where "E = takeWhile (\<lambda>i. timeout_of p i < Now) T" and "W = dropWhile (\<lambda>i. timeout_of p i < Now) T"
  have T: "T = E @ W" by (simp add: E_def W_def)
  have E: "timeout_of p i < Now" if "i \<in> set E" for i using that set_takeWhileD unfolding E_def by fastforce
  have W: "Now \<le> timeout_of p i" if "i \<in> set W" for i using sorted_cut [OF so that [unfolded W_def]] .
  have d: "distinct (F @ E @ W)" using v T by (simp add: pool_view_def)
  have tk: "taken p i \<longleftrightarrow> i < MAX_IDS \<and> i \<notin> set F \<and> i \<notin> set E \<and> i \<notin> set W" for i
    using view_states(1) [OF v] by (auto simp: T taken_def)
  have wt: "waits Now p i \<longleftrightarrow> i < MAX_IDS \<and> i \<in> set W" for i
  proof (cases "i < MAX_IDS")
    case True
    then have "waits Now p i \<longleftrightarrow> (i \<in> set E \<or> i \<in> set W) \<and> Now \<le> timeout_of p i" using view_states(2) [OF v] T by simp
    then show ?thesis using E [of i] W [of i] True by auto
  qed (simp add: waits_def)
  obtain p' where p': "case rev E @ F of [] \<Rightarrow> NewId Now p = Some (None, p') \<and> pool_view p' [] W
     | x # xs \<Rightarrow> NewId Now p = Some (Some (int x), p') \<and> pool_view p' xs W"
    using NewId_view [OF v E_def W_def] by blast
  show ?thesis
  proof (cases "rev E @ F")
    case Nil
    then have n: "NewId Now p = Some (None, p')" "pool_view p' [] W" and EF: "E = []" "F = []" using p' by simp_all
    have "taken p' i = taken p i" for i using view_states(1) [OF n(2)] tk EF by (auto simp: taken_def)
    moreover have "taken p i \<or> waits Now p i" if "i < MAX_IDS" for i using tk wt EF that by auto
    ultimately show ?thesis using n(1) by auto
  next
    case (Cons x xs)
    then have n: "NewId Now p = Some (Some (int x), p')" "pool_view p' xs W" using p' by simp_all
    have s: "set F \<union> set E = insert x (set xs)" using arg_cong [OF Cons, of set] by auto
    have "distinct (rev E @ F)" using d by auto
    then have dx: "x \<notin> set xs" unfolding Cons by simp
    have xm: "x \<in> set F \<union> set E" using s by blast
    have xb: "x < MAX_IDS" using view_bound [OF v, of x] xm T by auto
    have xw: "x \<notin> set W" using d xm by auto
    have "taken p' j \<longleftrightarrow> taken p j \<or> j = x" for j
    proof -
      have "taken p' j \<longleftrightarrow> j < MAX_IDS \<and> j \<notin> set xs \<and> j \<notin> set W" using view_states(1) [OF n(2)] by (auto simp: taken_def)
      moreover have "taken p j \<longleftrightarrow> j < MAX_IDS \<and> j \<notin> insert x (set xs) \<and> j \<notin> set W" using tk s by auto
      ultimately show ?thesis using xb dx xw by auto
    qed
    moreover have "\<not> taken p x" "\<not> waits Now p x" using tk wt xm xw by auto
    ultimately show ?thesis using n(1) xb by auto
  qed
qed

text \<open>A history of calls, each at its time, and the ids that were given out.\<close>

datatype pool_op = OpNew | OpFree int

fun pool_run :: "int \<Rightarrow> (int \<times> pool_op) list \<Rightarrow> id_pool \<Rightarrow> (int list \<times> id_pool) option" where
  "pool_run Freq [] p = Some ([], p)"
| "pool_run Freq ((Now, OpNew) # ops) p =
     (case NewId Now p of None \<Rightarrow> None
      | Some (r, p1) \<Rightarrow> map_option (\<lambda>(ids, q). ((case r of None \<Rightarrow> ids | Some i \<Rightarrow> i # ids), q)) (pool_run Freq ops p1))"
| "pool_run Freq ((Now, OpFree i) # ops) p = (case FreeId Now Freq i p of None \<Rightarrow> None | Some p1 \<Rightarrow> pool_run Freq ops p1)"

lemma waiting_not_reused:
  "pool_view p F T \<Longrightarrow> i \<in> set T \<Longrightarrow> \<forall>(Now, op) \<in> set ops. Now \<le> timeout_of p i \<Longrightarrow>
   pool_run Freq ops p = Some (ids, q) \<Longrightarrow> int i \<notin> set ids"
proof (induction ops arbitrary: p F T ids)
  case (Cons x ops)
  obtain Now op where x: "x = (Now, op)" by (cases x)
  have now: "Now \<le> timeout_of p i" "\<forall>(Now, op) \<in> set ops. Now \<le> timeout_of p i" using Cons.prems(3) x by auto
  have d: "distinct (F @ T)" using Cons.prems(1) by (simp add: pool_view_def)
  show ?case
  proof (cases op)
    case OpNew
    define E W where "E = takeWhile (\<lambda>i. timeout_of p i < Now) T" and "W = dropWhile (\<lambda>i. timeout_of p i < Now) T"
    have T: "T = E @ W" by (simp add: E_def W_def)
    have "i \<notin> set E" using set_takeWhileD now(1) unfolding E_def by fastforce
    then have iw: "i \<in> set W" using Cons.prems(2) T by auto
    obtain p' where p': "timeout_of p' = timeout_of p" "case rev E @ F of [] \<Rightarrow> NewId Now p = Some (None, p') \<and> pool_view p' [] W
       | y # ys \<Rightarrow> NewId Now p = Some (Some (int y), p') \<and> pool_view p' ys W"
      using NewId_view [OF Cons.prems(1) E_def W_def] by blast
    have n: "i \<notin> set (rev E @ F)" using d iw T by auto
    obtain r G where r: "NewId Now p = Some (r, p')" "pool_view p' G W" "r \<noteq> Some (int i)"
      using p'(2) n by (cases "rev E @ F") auto
    obtain ids1 where ids1: "pool_run Freq ops p' = Some (ids1, q)" "ids = (case r of None \<Rightarrow> ids1 | Some i \<Rightarrow> i # ids1)"
      using Cons.prems(4) x OpNew r(1) by auto
    have "int i \<notin> set ids1" using Cons.IH [OF r(2) iw _ ids1(1)] now(2) p'(1) by simp
    then show ?thesis using ids1(2) r(3) by (auto split: option.splits)
  next
    case (OpFree k)
    obtain p1 where p1: "FreeId Now Freq k p = Some p1" "pool_run Freq ops p1 = Some (ids, q)"
      using Cons.prems(4) x OpFree by (auto split: option.splits)
    show ?thesis
    proof (cases "k < 0")
      case True
      then have "p1 = p" using p1(1) by (simp add: FreeId_def)
      then show ?thesis using Cons.IH [OF Cons.prems(1,2) now(2)] p1(2) by simp
    next
      case False
      define j where "j = nat k"
      have kj: "k = int j" using False by (simp add: j_def)
      have st: "j < MAX_IDS" "cid_State (ip_Ids p ! j) = ID_ALLOCATED"
        using p1(1) Cons.prems(1) by (auto simp: FreeId_def cid_at_def kj pool_view_def split: if_splits)
      then have n: "j \<notin> set F" "j \<notin> set T" using Cons.prems(1) by (auto simp: pool_view_def state_of_def split: if_splits)
      have v1: "pool_view p1 F (T @ [j])" "timeout_of p1 = (timeout_of p)(j := Now + Freq * 5)"
        using FreeId_view [OF Cons.prems(1) st(1) n, of Now Freq] p1(1) kj by auto
      have "timeout_of p1 i = timeout_of p i" using v1(2) n(2) Cons.prems(2) by auto
      then show ?thesis using Cons.IH [OF v1(1) _ _ p1(2)] now(2) Cons.prems(2) by auto
    qed
  qed
qed simp

lemma snap_new_returns: "pool_reach 1000 t p \<Longrightarrow> \<exists>r p'. NewId Now p = Some (r, p')"
  using reach_ok [of 1000 t p] new_id [of 1000 t p _ _ Now] by (metis zero_le_numeral)

subsection \<open>Properties\<close>

text \<open>C21: in every pool a server can have, \<open>NewId\<close> returns; an id it gives out was neither taken nor still
  waiting, and is the only one whose owner changes; it gives out none only if every id of the pool is
  taken or was freed less than five seconds ago.\<close>

theorem snap_id_new:
  assumes "pool_reach Freq t p" "0 \<le> Freq"
  shows "\<exists>r p'. NewId Now p = Some (r, p') \<and>
    (case r of None \<Rightarrow> (\<forall>i < MAX_IDS. taken p i \<or> waits Now p i) \<and> (\<forall>i. taken p' i = taken p i)
     | Some x \<Rightarrow> (\<exists>i < MAX_IDS. x = int i \<and> \<not> taken p i \<and> \<not> waits Now p i \<and> (\<forall>j. taken p' j \<longleftrightarrow> taken p j \<or> j = i)))"
proof -
  obtain F T where "pool_ok Freq t p F T" using reach_ok [OF assms] by blast
  then show ?thesis by (rule new_id)
qed

definition some_pool :: id_pool where
  "some_pool = pool_Reset \<lparr>ip_Ids = replicate MAX_IDS \<lparr>cid_Next = 0, cid_State = ID_FREE, cid_Timeout = 0\<rparr>,
     ip_FirstFree = 0, ip_FirstTimed = 0, ip_LastTimed = 0, ip_Usage = 0, ip_InUsage = 0\<rparr>"

lemma some_pool: "pool_reach 1000 0 some_pool" "pool_view some_pool [0..<MAX_IDS] []"
  unfolding some_pool_def by (rule reach_Reset, simp) (rule ids_Reset_view, simp)

theorem snap_id_new_witness:
  "\<exists>r p'. NewId 7 some_pool = Some (r, p') \<and>
    (case r of None \<Rightarrow> (\<forall>i < MAX_IDS. taken some_pool i \<or> waits 7 some_pool i) \<and> (\<forall>i. taken p' i = taken some_pool i)
     | Some x \<Rightarrow> (\<exists>i < MAX_IDS. x = int i \<and> \<not> taken some_pool i \<and> \<not> waits 7 some_pool i \<and> (\<forall>j. taken p' j \<longleftrightarrow> taken some_pool j \<or> j = i)))"
  by (rule snap_id_new [OF some_pool(1)]) simp



end
