(* ===== verification/JsonWriter.thy ===== *)
theory JsonWriter
  imports NetConn
begin

text \<open>
  The JSON writer (\<open>CJsonWriter\<close> and \<open>CJsonStringWriter\<close> in engine/shared/jsonwriter.cpp, and the escapes
  of engine/shared/json.cpp): a stack of open elements, with assertions that reject a call in the
  wrong place. What it writes for a value is read back by a reference parser. The file writer differs
  only in where the bytes go.
\<close>

subsection \<open>Escapes\<close>

text \<open>Zero is \<open>no escape\<close>.\<close>

definition EscapeJsonChar :: "byte \<Rightarrow> byte" where
  "EscapeJsonChar c = (if c = 0x22 then 0x22 else if c = 0x5C then 0x5C else if c = 0x08 then 0x62 else if c = 0x0A then 0x6E
     else if c = 0x0D then 0x72 else if c = 0x09 then 0x74 else 0)"

text \<open>\<open>\u%04x\<close> of a byte.\<close>

definition u_escape :: "byte \<Rightarrow> bytes" where
  "u_escape c = [0x5C, 0x75, 0x30, 0x30, hexdigit (unat c div 16), hexdigit (unat c mod 16)]"

text \<open>\<open>EscapeJson\<close> writes as many bytes of the string as fit into the buffer, less the zero at the end.\<close>

fun escape_json_loop :: "nat \<Rightarrow> bytes \<Rightarrow> bytes" where
  "escape_json_loop BufferSize [] = []"
| "escape_json_loop BufferSize (c # s) =
     (if BufferSize = 0 \<or> c = 0 then []
      else let Escaped = EscapeJsonChar c in
      if Escaped \<noteq> 0 then (if BufferSize < 2 then [] else 0x5C # Escaped # escape_json_loop (BufferSize - 2) s)
      else if c < 0x20 then (if BufferSize < 6 then [] else u_escape c @ escape_json_loop (BufferSize - 6) s)
      else c # escape_json_loop (BufferSize - 1) s)"

definition EscapeJson :: "nat \<Rightarrow> bytes \<Rightarrow> bytes option" where
  "EscapeJson BufferSize pString =
     (if BufferSize = 0 \<or> \<not> str_utf8_check pString then None else Some (escape_json_loop (BufferSize - 1) pString))"

subsection \<open>The writer\<close>

datatype json_kind = STATE_OBJECT | STATE_ARRAY | STATE_ATTRIBUTE

record json_state =
  js_Kind :: json_kind
  js_Empty :: bool

record json_writer =
  jw_States :: "json_state list"
  jw_Indentation :: int
  jw_OutputString :: bytes
  jw_RetrievedOutput :: bool

definition new_writer :: json_writer where
  "new_writer = \<lparr>jw_States = [], jw_Indentation = 0, jw_OutputString = [], jw_RetrievedOutput = False\<rparr>"

definition WriteInternal :: "bytes \<Rightarrow> json_writer \<Rightarrow> json_writer option" where
  "WriteInternal s w = (if jw_RetrievedOutput w then None else Some (w\<lparr>jw_OutputString := jw_OutputString w @ s\<rparr>))"

definition GetOutputString :: "json_writer \<Rightarrow> (bytes \<times> json_writer) option" where
  "GetOutputString w = do {
     w1 \<leftarrow> WriteInternal [0x0A] w;
     Some (jw_OutputString w1, w1\<lparr>jw_OutputString := [], jw_RetrievedOutput := True\<rparr>) }"

definition TopState :: "json_writer \<Rightarrow> json_state option" where
  "TopState w = (case jw_States w of [] \<Rightarrow> None | s # ss \<Rightarrow> Some s)"

definition top_is :: "json_kind \<Rightarrow> json_writer \<Rightarrow> bool" where
  "top_is k w = (case jw_States w of [] \<Rightarrow> False | s # ss \<Rightarrow> js_Kind s = k)"

definition CanWriteDatatype :: "json_writer \<Rightarrow> bool" where
  "CanWriteDatatype w \<longleftrightarrow> jw_States w = [] \<or> top_is STATE_ARRAY w \<or> top_is STATE_ATTRIBUTE w"

definition not_empty :: "json_state list \<Rightarrow> json_state list" where
  "not_empty ss = (case ss of [] \<Rightarrow> [] | s # ss' \<Rightarrow> s\<lparr>js_Empty := False\<rparr> # ss')"

definition PushState :: "json_kind \<Rightarrow> json_writer \<Rightarrow> json_writer" where
  "PushState NewState w =
     w\<lparr>jw_States := \<lparr>js_Kind = NewState, js_Empty = True\<rparr> # not_empty (jw_States w),
       jw_Indentation := (if NewState \<noteq> STATE_ATTRIBUTE then jw_Indentation w + 1 else jw_Indentation w)\<rparr>"

definition PopState :: "json_writer \<Rightarrow> json_writer option" where
  "PopState w =
     (case jw_States w of [] \<Rightarrow> None
      | s # ss \<Rightarrow> Some (w\<lparr>jw_States := ss,
          jw_Indentation := (if js_Kind s \<noteq> STATE_ATTRIBUTE then jw_Indentation w - 1 else jw_Indentation w)\<rparr>))"

definition CompleteDataType :: "json_writer \<Rightarrow> json_writer option" where
  "CompleteDataType w = do {
     w1 \<leftarrow> (if top_is STATE_ATTRIBUTE w then PopState w else Some w);
     Some (w1\<lparr>jw_States := not_empty (jw_States w1)\<rparr>) }"

definition WriteIndent :: "bool \<Rightarrow> json_writer \<Rightarrow> json_writer option" where
  "WriteIndent EndElement w =
     (let NotRootOrAttribute = (case TopState w of None \<Rightarrow> False | Some s \<Rightarrow> js_Kind s \<noteq> STATE_ATTRIBUTE);
          Empty = (case TopState w of None \<Rightarrow> True | Some s \<Rightarrow> js_Empty s) in do {
        w1 \<leftarrow> (if NotRootOrAttribute \<and> \<not> Empty \<and> \<not> EndElement then WriteInternal [0x2C] w else Some w);
        w2 \<leftarrow> (if NotRootOrAttribute \<or> EndElement then WriteInternal [0x0A] w1 else Some w1);
        if NotRootOrAttribute then WriteInternal (replicate (nat (jw_Indentation w2)) 0x09) w2 else Some w2 })"

function escape_loop :: "bytes \<Rightarrow> nat \<Rightarrow> nat \<Rightarrow> json_writer \<Rightarrow> json_writer option" where
  "escape_loop pStr i UnwrittenFrom w =
     (if i \<ge> length pStr then
        (if length pStr > UnwrittenFrom then WriteInternal (drop UnwrittenFrom pStr) w else Some w)
      else
        let SimpleEscape = EscapeJsonChar (pStr ! i); NeedsEscape = (SimpleEscape \<noteq> 0 \<or> pStr ! i < 0x20) in
        if NeedsEscape then
          (case (if i > UnwrittenFrom then WriteInternal (take (i - UnwrittenFrom) (drop UnwrittenFrom pStr)) w else Some w) of
             None \<Rightarrow> None
           | Some w1 \<Rightarrow>
              (case WriteInternal (if SimpleEscape \<noteq> 0 then [0x5C, SimpleEscape] else u_escape (pStr ! i)) w1 of
                 None \<Rightarrow> None | Some w2 \<Rightarrow> escape_loop pStr (i + 1) (i + 1) w2))
        else escape_loop pStr (i + 1) UnwrittenFrom w)"
  by pat_completeness auto
termination
  by (relation "measure (\<lambda>(s, i, u, w). length s - i)") auto

declare escape_loop.simps [simp del]

definition WriteInternalEscaped :: "bytes \<Rightarrow> json_writer \<Rightarrow> json_writer option" where
  "WriteInternalEscaped pStr w =
     (if \<not> str_utf8_check pStr then None
      else do { w1 \<leftarrow> WriteInternal [0x22] w; w2 \<leftarrow> escape_loop pStr 0 0 w1; WriteInternal [0x22] w2 })"

definition BeginObject :: "json_writer \<Rightarrow> json_writer option" where
  "BeginObject w =
     (if \<not> CanWriteDatatype w then None
      else do { w1 \<leftarrow> WriteIndent False w; w2 \<leftarrow> WriteInternal [0x7B] w1; Some (PushState STATE_OBJECT w2) })"

definition EndObject :: "json_writer \<Rightarrow> json_writer option" where
  "EndObject w =
     (if \<not> top_is STATE_OBJECT w then None
      else do { w1 \<leftarrow> PopState w; w2 \<leftarrow> CompleteDataType w1; w3 \<leftarrow> WriteIndent True w2; WriteInternal [0x7D] w3 })"

definition BeginArray :: "json_writer \<Rightarrow> json_writer option" where
  "BeginArray w =
     (if \<not> CanWriteDatatype w then None
      else do { w1 \<leftarrow> WriteIndent False w; w2 \<leftarrow> WriteInternal [0x5B] w1; Some (PushState STATE_ARRAY w2) })"

definition EndArray :: "json_writer \<Rightarrow> json_writer option" where
  "EndArray w =
     (if \<not> top_is STATE_ARRAY w then None
      else do { w1 \<leftarrow> PopState w; w2 \<leftarrow> CompleteDataType w1; w3 \<leftarrow> WriteIndent True w2; WriteInternal [0x5D] w3 })"

definition WriteAttribute :: "bytes \<Rightarrow> json_writer \<Rightarrow> json_writer option" where
  "WriteAttribute pName w =
     (if \<not> top_is STATE_OBJECT w then None
      else do { w1 \<leftarrow> WriteIndent False w; w2 \<leftarrow> WriteInternalEscaped pName w1; w3 \<leftarrow> WriteInternal [0x3A, 0x20] w2;
        Some (PushState STATE_ATTRIBUTE w3) })"

definition WriteStrValue :: "bytes \<Rightarrow> json_writer \<Rightarrow> json_writer option" where
  "WriteStrValue pValue w =
     (if \<not> CanWriteDatatype w then None
      else do { w1 \<leftarrow> WriteIndent False w; w2 \<leftarrow> WriteInternalEscaped pValue w1; CompleteDataType w2 })"

definition WriteIntValue :: "int \<Rightarrow> json_writer \<Rightarrow> json_writer option" where
  "WriteIntValue Value w =
     (if \<not> CanWriteDatatype w then None
      else do { w1 \<leftarrow> WriteIndent False w; w2 \<leftarrow> WriteInternal (int_text Value) w1; CompleteDataType w2 })"

definition WriteBoolValue :: "bool \<Rightarrow> json_writer \<Rightarrow> json_writer option" where
  "WriteBoolValue Value w =
     (if \<not> CanWriteDatatype w then None
      else do { w1 \<leftarrow> WriteIndent False w; w2 \<leftarrow> WriteInternal (if Value then lit ''true'' else lit ''false'') w1; CompleteDataType w2 })"

definition WriteNullValue :: "json_writer \<Rightarrow> json_writer option" where
  "WriteNullValue w =
     (if \<not> CanWriteDatatype w then None
      else do { w1 \<leftarrow> WriteIndent False w; w2 \<leftarrow> WriteInternal (lit ''null'') w1; CompleteDataType w2 })"

subsection \<open>Writing a value\<close>

datatype json = JNull | JBool bool | JInt int | JStr bytes | JArr "json list" | JObj "(bytes \<times> json) list"

text \<open>How a client writes a value: one call per literal, and the calls for the parts between those that
  begin and end an array or object.\<close>

fun write_json :: "json \<Rightarrow> json_writer \<Rightarrow> json_writer option"
  and write_elems :: "json list \<Rightarrow> json_writer \<Rightarrow> json_writer option"
  and write_members :: "(bytes \<times> json) list \<Rightarrow> json_writer \<Rightarrow> json_writer option" where
  "write_json JNull w = WriteNullValue w"
| "write_json (JBool b) w = WriteBoolValue b w"
| "write_json (JInt i) w = WriteIntValue i w"
| "write_json (JStr s) w = WriteStrValue s w"
| "write_json (JArr vs) w = do { w1 \<leftarrow> BeginArray w; w2 \<leftarrow> write_elems vs w1; EndArray w2 }"
| "write_json (JObj ms) w = do { w1 \<leftarrow> BeginObject w; w2 \<leftarrow> write_members ms w1; EndObject w2 }"
| "write_elems [] w = Some w"
| "write_elems (v # vs) w = do { w1 \<leftarrow> write_json v w; write_elems vs w1 }"
| "write_members [] w = Some w"
| "write_members ((k, v) # ms) w = do { w1 \<leftarrow> WriteAttribute k w; w2 \<leftarrow> write_json v w1; write_members ms w2 }"

fun json_ok :: "json \<Rightarrow> bool" where
  "json_ok (JInt i) = in_i32 i"
| "json_ok (JStr s) = (cstring s \<and> str_utf8_check s)"
| "json_ok (JArr vs) = (\<forall>v \<in> set vs. json_ok v)"
| "json_ok (JObj ms) = (\<forall>x \<in> set ms. cstring (fst x) \<and> str_utf8_check (fst x) \<and> json_ok (snd x))"
| "json_ok v = True"

text \<open>The text of a value at a depth.\<close>

definition esc :: "byte \<Rightarrow> bytes" where
  "esc c = (if EscapeJsonChar c \<noteq> 0 then [0x5C, EscapeJsonChar c] else if c < 0x20 then u_escape c else [c])"

definition quoted :: "bytes \<Rightarrow> bytes" where
  "quoted s = 0x22 # concat (map esc s) @ [0x22]"

definition line :: "bool \<Rightarrow> nat \<Rightarrow> bytes" where
  "line first d = (if first then [] else [0x2C]) @ 0x0A # replicate d 0x09"

fun body :: "nat \<Rightarrow> json \<Rightarrow> bytes"
  and elems :: "nat \<Rightarrow> bool \<Rightarrow> json list \<Rightarrow> bytes"
  and members :: "nat \<Rightarrow> bool \<Rightarrow> (bytes \<times> json) list \<Rightarrow> bytes" where
  "body d JNull = lit ''null''"
| "body d (JBool b) = (if b then lit ''true'' else lit ''false'')"
| "body d (JInt i) = int_text i"
| "body d (JStr s) = quoted s"
| "body d (JArr vs) = 0x5B # elems (Suc d) True vs @ line True d @ [0x5D]"
| "body d (JObj ms) = 0x7B # members (Suc d) True ms @ line True d @ [0x7D]"
| "elems d first [] = []"
| "elems d first (v # vs) = line first d @ body d v @ elems d False vs"
| "members d first [] = []"
| "members d first ((k, v) # ms) = line first d @ quoted k @ [0x3A, 0x20] @ body d v @ members d False ms"

subsection \<open>What the operations write\<close>

definition depth :: "json_state list \<Rightarrow> nat" where
  "depth S = length (filter (\<lambda>s. js_Kind s \<noteq> STATE_ATTRIBUTE) S)"

definition writer :: "json_state list \<Rightarrow> bytes \<Rightarrow> json_writer" where
  "writer S out = \<lparr>jw_States = S, jw_Indentation = int (depth S), jw_OutputString = out, jw_RetrievedOutput = False\<rparr>"

fun stack_ok :: "json_state list \<Rightarrow> bool" where
  "stack_ok [] = True"
| "stack_ok (s # ss) = (stack_ok ss \<and> (js_Kind s = STATE_ATTRIBUTE \<longrightarrow> (\<exists>t ts. ss = t # ts \<and> js_Kind t = STATE_OBJECT)))"

definition complete :: "json_state list \<Rightarrow> json_state list" where
  "complete S = (case S of [] \<Rightarrow> [] | s # ss \<Rightarrow> if js_Kind s = STATE_ATTRIBUTE then not_empty ss else not_empty S)"

definition value_place :: "json_state list \<Rightarrow> bool" where
  "value_place S \<longleftrightarrow> (case S of [] \<Rightarrow> True | s # ss \<Rightarrow> js_Kind s \<noteq> STATE_OBJECT)"

definition indent :: "json_state list \<Rightarrow> bytes" where
  "indent S = (case S of [] \<Rightarrow> [] | s # ss \<Rightarrow> if js_Kind s = STATE_ATTRIBUTE then [] else line (js_Empty s) (depth S))"

lemma depth_simps [simp]:
  "depth [] = 0" "depth (s # ss) = (if js_Kind s = STATE_ATTRIBUTE then depth ss else Suc (depth ss))" "depth (not_empty S) = depth S"
  by (simp_all add: depth_def not_empty_def split: list.split)

lemma complete_facts:
  "depth (complete S) = depth S" "stack_ok S \<Longrightarrow> complete S = [] \<or> js_Kind (hd (complete S)) \<noteq> STATE_ATTRIBUTE"
  "complete (not_empty S) = complete S" "stack_ok S \<Longrightarrow> stack_ok (complete S)"
  by (auto simp: complete_def not_empty_def split: list.splits)

lemma Internal [simp]: "WriteInternal s (writer S out) = Some (writer S (out @ s))"
  by (simp add: WriteInternal_def writer_def)

lemma writer_top [simp]:
  "jw_States (writer S out) = S" "jw_Indentation (writer S out) = int (depth S)" "jw_RetrievedOutput (writer S out) = False"
  "jw_OutputString (writer S out) = out"
  by (simp_all add: writer_def)

lemma Indent [simp]: "WriteIndent False (writer S out) = Some (writer S (out @ indent S))"
  by (simp add: WriteIndent_def TopState_def indent_def line_def Let_def split: list.split)

lemma IndentEnd:
  "S = [] \<or> js_Kind (hd S) \<noteq> STATE_ATTRIBUTE \<Longrightarrow> WriteIndent True (writer S out) = Some (writer S (out @ line True (depth S)))"
  by (cases S) (simp_all add: WriteIndent_def TopState_def line_def Let_def nat_add_distrib)

lemma Complete [simp]: "CompleteDataType (writer S out) = Some (writer (complete S) out)"
  by (cases S) (simp_all add: CompleteDataType_def top_is_def PopState_def complete_def not_empty_def writer_def split: list.split)

lemma Push [simp]: "PushState k (writer S out) = writer (\<lparr>js_Kind = k, js_Empty = True\<rparr> # not_empty S) out"
  by (simp add: PushState_def writer_def)

lemma Pop [simp]: "PopState (writer (s # ss) out) = Some (writer ss out)"
  by (simp add: PopState_def writer_def)

lemma CanWrite [simp]: "CanWriteDatatype (writer S out) = value_place S"
  by (cases S; cases "js_Kind (hd S)") (simp_all add: CanWriteDatatype_def value_place_def top_is_def)

lemma escape_loop_ok:
  "u \<le> i \<Longrightarrow> i \<le> length s \<Longrightarrow>
   escape_loop s i u (writer S out) = Some (writer S (out @ take (i - u) (drop u s) @ concat (map esc (drop i s))))"
proof (induction "length s - i" arbitrary: i u out)
  case 0
  then show ?case by (simp add: escape_loop.simps)
next
  case (Suc n)
  then have i: "i < length s" "n = length s - (i + 1)" by auto
  have d: "drop i s = s ! i # drop (i + 1) s" using i(1) by (simp add: Cons_nth_drop_Suc)
  show ?case
  proof (cases "EscapeJsonChar (s ! i) \<noteq> 0 \<or> s ! i < 0x20")
    case True
    have "esc (s ! i) = (if EscapeJsonChar (s ! i) \<noteq> 0 then [0x5C, EscapeJsonChar (s ! i)] else u_escape (s ! i))"
      using True by (auto simp: esc_def)
    then show ?thesis using True i d Suc.hyps(1) [OF i(2), of "i + 1"]
      by (subst escape_loop.simps) (auto simp: Let_def)
  next
    case False
    then have e: "esc (s ! i) = [s ! i]" by (simp add: esc_def)
    have t: "take (i + 1 - u) (drop u s) = take (i - u) (drop u s) @ [s ! i]"
      using i(1) Suc.prems by (simp add: Suc_diff_le take_Suc_conv_app_nth)
    show ?thesis using False i d e t Suc.hyps(1) [OF i(2), of u out] Suc.prems
      by (subst escape_loop.simps) (simp add: Let_def)
  qed
qed

lemma Escaped [simp]: "str_utf8_check s \<Longrightarrow> WriteInternalEscaped s (writer S out) = Some (writer S (out @ quoted s))"
  using escape_loop_ok [of 0 0 s S "out @ [0x22]"] by (simp add: WriteInternalEscaped_def quoted_def)

lemma End_ok:
  assumes "stack_ok S"
  shows "EndArray (writer (\<lparr>js_Kind = STATE_ARRAY, js_Empty = e\<rparr> # not_empty S) out) = Some (writer (complete S) (out @ line True (depth S) @ [0x5D]))"
    "EndObject (writer (\<lparr>js_Kind = STATE_OBJECT, js_Empty = e\<rparr> # not_empty S) out) = Some (writer (complete S) (out @ line True (depth S) @ [0x7D]))"
  using IndentEnd [OF complete_facts(2) [OF assms]]
  by (simp_all add: EndArray_def EndObject_def top_is_def complete_facts)

text \<open>A value is accepted where one may stand, and its text is appended.\<close>

lemma write_ok:
  "json_ok v \<Longrightarrow> stack_ok S \<Longrightarrow> value_place S \<Longrightarrow> depth S = d \<Longrightarrow>
     write_json v (writer S out) = Some (writer (complete S) (out @ indent S @ body d v))"
  "\<forall>v \<in> set vs. json_ok v \<Longrightarrow> stack_ok S \<Longrightarrow> Suc (depth S) = d \<Longrightarrow>
     write_elems vs (writer (\<lparr>js_Kind = STATE_ARRAY, js_Empty = first\<rparr> # S) out) =
       Some (writer (\<lparr>js_Kind = STATE_ARRAY, js_Empty = first \<and> vs = []\<rparr> # S) (out @ elems d first vs))"
  "\<forall>x \<in> set ms. cstring (fst x) \<and> str_utf8_check (fst x) \<and> json_ok (snd x) \<Longrightarrow> stack_ok S \<Longrightarrow> Suc (depth S) = d \<Longrightarrow>
     write_members ms (writer (\<lparr>js_Kind = STATE_OBJECT, js_Empty = first\<rparr> # S) out) =
       Some (writer (\<lparr>js_Kind = STATE_OBJECT, js_Empty = first \<and> ms = []\<rparr> # S) (out @ members d first ms))"
proof (induction d v and d first vs and d first ms arbitrary: S out and S out and S out rule: body_elems_members.induct)
  case (5 d vs)
  have s: "stack_ok (not_empty S)" using 5 by (cases S) (auto simp: not_empty_def)
  show ?case using 5 s by (simp add: BeginArray_def End_ok)
next
  case (6 d ms)
  have s: "stack_ok (not_empty S)" using 6 by (cases S) (auto simp: not_empty_def)
  show ?case using 6 s by (simp add: BeginObject_def End_ok)
next
  case (8 d first v vs)
  then show ?case by (simp add: value_place_def indent_def complete_def not_empty_def)
next
  case (10 d first k v ms)
  then show ?case by (simp add: WriteAttribute_def top_is_def value_place_def indent_def complete_def not_empty_def)
qed (simp_all add: WriteNullValue_def WriteBoolValue_def WriteIntValue_def WriteStrValue_def)

subsection \<open>A reference parser\<close>

definition is_ws :: "byte \<Rightarrow> bool" where
  "is_ws b \<longleftrightarrow> b = 0x20 \<or> b = 0x09 \<or> b = 0x0A \<or> b = 0x0D"

definition skip :: "bytes \<Rightarrow> bytes" where
  "skip s = dropWhile is_ws s"

definition hex_value :: "byte \<Rightarrow> nat option" where
  "hex_value b = (if 0x30 \<le> b \<and> b \<le> 0x39 then Some (unat b - 0x30)
     else if 0x61 \<le> b \<and> b \<le> 0x66 then Some (unat b - 0x57)
     else if 0x41 \<le> b \<and> b \<le> 0x46 then Some (unat b - 0x37) else None)"

text \<open>Four hexadecimal digits, and the rest.\<close>

definition hex4 :: "bytes \<Rightarrow> (int \<times> bytes) option" where
  "hex4 s = (case s of a # b # c # d # r \<Rightarrow>
     (case (hex_value a, hex_value b, hex_value c, hex_value d) of
        (Some x, Some y, Some z, Some w) \<Rightarrow> Some (int (4096 * x + 256 * y + 16 * z + w), r) | _ \<Rightarrow> None) | _ \<Rightarrow> None)"

definition unescape :: "byte \<Rightarrow> byte option" where
  "unescape e = (if e = 0x22 \<or> e = 0x5C \<or> e = 0x2F then Some e else if e = 0x62 then Some 0x08 else if e = 0x66 then Some 0x0C
     else if e = 0x6E then Some 0x0A else if e = 0x72 then Some 0x0D else if e = 0x74 then Some 0x09 else None)"

lemma hex4_less: "hex4 s = Some (x, r) \<Longrightarrow> length r < length s"
  by (auto simp: hex4_def split: list.splits option.splits)

function parse_chars :: "bytes \<Rightarrow> (bytes \<times> bytes) option" where
  "parse_chars s = (case s of [] \<Rightarrow> None
     | b # r \<Rightarrow>
        if b = 0x22 then Some ([], r)
        else if b = 0x5C then
          (case r of [] \<Rightarrow> None
           | e # r1 \<Rightarrow>
              if e = 0x75 then
                (case hex4 r1 of None \<Rightarrow> None
                 | Some (cp, r2) \<Rightarrow> map_option (\<lambda>(t, q). (str_utf8_encode cp @ t, q)) (parse_chars r2))
              else (case unescape e of None \<Rightarrow> None | Some c \<Rightarrow> map_option (\<lambda>(t, q). (c # t, q)) (parse_chars r1)))
        else if b < 0x20 then None
        else map_option (\<lambda>(t, q). (b # t, q)) (parse_chars r))"
  by pat_completeness auto
termination
  by (relation "measure length") (auto dest: hex4_less)

declare parse_chars.simps [simp del]

definition is_digit :: "byte \<Rightarrow> bool" where
  "is_digit b \<longleftrightarrow> 0x30 \<le> b \<and> b \<le> 0x39"

fun parse_digits :: "nat \<Rightarrow> bytes \<Rightarrow> nat \<times> bytes" where
  "parse_digits a [] = (a, [])"
| "parse_digits a (b # r) = (if is_digit b then parse_digits (10 * a + (unat b - 0x30)) r else (a, b # r))"

definition parse_number :: "bytes \<Rightarrow> (json \<times> bytes) option" where
  "parse_number s =
     (let neg = (s \<noteq> [] \<and> hd s = 0x2D); t = (if neg then tl s else s) in
      if t = [] \<or> \<not> is_digit (hd t) then None
      else let (n, r) = parse_digits 0 t in Some (JInt (if neg then - int n else int n), r))"

fun parse_json :: "nat \<Rightarrow> bytes \<Rightarrow> (json \<times> bytes) option"
  and parse_elems :: "nat \<Rightarrow> bytes \<Rightarrow> (json list \<times> bytes) option"
  and parse_members :: "nat \<Rightarrow> bytes \<Rightarrow> ((bytes \<times> json) list \<times> bytes) option" where
  "parse_json 0 s = None"
| "parse_json (Suc n) s = (case skip s of [] \<Rightarrow> None
     | b # r \<Rightarrow>
        if b = 0x22 then map_option (\<lambda>(x, q). (JStr x, q)) (parse_chars r)
        else if b = 0x5B then
          (case skip r of [] \<Rightarrow> None
           | c # q \<Rightarrow> if c = 0x5D then Some (JArr [], q) else map_option (\<lambda>(x, q). (JArr x, q)) (parse_elems n (c # q)))
        else if b = 0x7B then
          (case skip r of [] \<Rightarrow> None
           | c # q \<Rightarrow> if c = 0x7D then Some (JObj [], q) else map_option (\<lambda>(x, q). (JObj x, q)) (parse_members n (c # q)))
        else if take 4 (b # r) = lit ''null'' then Some (JNull, drop 4 (b # r))
        else if take 4 (b # r) = lit ''true'' then Some (JBool True, drop 4 (b # r))
        else if take 5 (b # r) = lit ''false'' then Some (JBool False, drop 5 (b # r))
        else parse_number (b # r))"
| "parse_elems 0 s = None"
| "parse_elems (Suc n) s = (case parse_json n s of None \<Rightarrow> None
     | Some (v, r) \<Rightarrow> (case skip r of [] \<Rightarrow> None
        | c # q \<Rightarrow> if c = 0x5D then Some ([v], q)
            else if c = 0x2C then map_option (\<lambda>(vs, q). (v # vs, q)) (parse_elems n q) else None))"
| "parse_members 0 s = None"
| "parse_members (Suc n) s = (case skip s of [] \<Rightarrow> None
     | b # r \<Rightarrow> if b \<noteq> 0x22 then None else
        (case parse_chars r of None \<Rightarrow> None
         | Some (k, r1) \<Rightarrow> (case skip r1 of [] \<Rightarrow> None
            | c # r2 \<Rightarrow> if c \<noteq> 0x3A then None else
               (case parse_json n r2 of None \<Rightarrow> None
                | Some (v, r3) \<Rightarrow> (case skip r3 of [] \<Rightarrow> None
                   | d # q \<Rightarrow> if d = 0x7D then Some ([(k, v)], q)
                       else if d = 0x2C then map_option (\<lambda>(ms, q). ((k, v) # ms, q)) (parse_members n q) else None)))))"

text \<open>The fuel is the length of the text.\<close>

definition read_json :: "bytes \<Rightarrow> (json \<times> bytes) option" where
  "read_json s = parse_json (length s) s"

subsection \<open>Reading back\<close>

lemma hexdigit_value: "n < 16 \<Longrightarrow> hex_value (hexdigit n) = Some n"
proof -
  have "\<forall>n \<in> set [0..<16]. hex_value (hexdigit n) = Some n" by code_simp
  then show "n < 16 \<Longrightarrow> ?thesis" by simp
qed

lemma u_escape_read: "c < 0x20 \<Longrightarrow> hex4 (drop 2 (u_escape c) @ r) = Some (uint c, r)"
proof -
  assume "c < 0x20"
  then have n: "unat c < 32" by (simp add: word_less_nat_alt)
  have z: "hex_value 0x30 = Some 0" by (simp add: hex_value_def)
  have "hex_value (hexdigit (unat c div 16)) = Some (unat c div 16)" "hex_value (hexdigit (unat c mod 16)) = Some (unat c mod 16)"
    by (rule hexdigit_value, use n in simp)+
  then show ?thesis by (simp add: u_escape_def hex4_def z numeral_2_eq_2)
qed

lemma esc_read: "parse_chars (esc c @ r) = map_option (\<lambda>(t, q). (c # t, q)) (parse_chars r)"
proof (cases "EscapeJsonChar c = 0")
  case False
  then show ?thesis
    by (subst parse_chars.simps) (auto simp: esc_def EscapeJsonChar_def unescape_def split: if_splits)
next
  case True
  then have n: "c \<noteq> 0x22" "c \<noteq> 0x5C" by (auto simp: EscapeJsonChar_def split: if_splits)
  show ?thesis
  proof (cases "c < 0x20")
    case False
    then show ?thesis using True n by (subst parse_chars.simps) (simp add: esc_def)
  next
    case less: True
    then have "uint c < 32" by (simp add: word_less_def)
    then have e: "str_utf8_encode (uint c) = [c]" by (simp add: str_utf8_encode_def)
    have u: "u_escape c @ r = 0x5C # 0x75 # drop 2 (u_escape c) @ r" by (simp add: u_escape_def numeral_2_eq_2)
    have "parse_chars (u_escape c @ r) = map_option (\<lambda>(t, q). (c # t, q)) (parse_chars r)"
      unfolding u by (subst parse_chars.simps) (simp add: u_escape_read [OF less] e)
    then show ?thesis using True less by (simp add: esc_def)
  qed
qed

lemma quoted_read: "parse_chars (concat (map esc s) @ 0x22 # r) = Some (s, r)"
proof (induction s)
  case Nil
  show ?case by (subst parse_chars.simps) simp
next
  case (Cons c s)
  then show ?case using esc_read [of c "concat (map esc s) @ 0x22 # r"] by simp
qed

lemma digit_read: "k < 10 \<Longrightarrow> is_digit (0x30 + of_nat k) \<and> unat (0x30 + of_nat k :: byte) - 0x30 = k"
proof -
  have "\<forall>k \<in> set [0..<10]. is_digit (0x30 + of_nat k) \<and> unat (0x30 + of_nat k :: byte) - 0x30 = k" by code_simp
  then show "k < 10 \<Longrightarrow> ?thesis" by simp
qed

lemma dec_read: "parse_digits a (dec n @ r) = parse_digits (a * 10 ^ length (dec n) + n) r"
proof (induction n arbitrary: r rule: dec.induct)
  case (1 n)
  show ?case
  proof (cases "n < 10")
    case True
    then show ?thesis using digit_read [OF True] by (simp add: dec.simps [of n] mult.commute)
  next
    case False
    have d: "dec n = dec (n div 10) @ [0x30 + of_nat (n mod 10)]" using False by (simp add: dec.simps [of n])
    have k: "n mod 10 < 10" by simp
    have "parse_digits a (dec n @ r) = parse_digits (a * 10 ^ length (dec (n div 10)) + n div 10) ((0x30 + of_nat (n mod 10)) # r)"
      unfolding d append_assoc append_Cons append_Nil by (rule "1.IH" [OF False])
    also have "\<dots> = parse_digits (10 * (a * 10 ^ length (dec (n div 10)) + n div 10) + n mod 10) r"
      using digit_read [OF k] by simp
    also have "10 * (a * 10 ^ length (dec (n div 10)) + n div 10) + n mod 10 = a * 10 ^ length (dec n) + n"
      using mult_div_mod_eq [of 10 n] by (simp add: d algebra_simps)
    finally show ?thesis .
  qed
qed

lemma dec_first: "\<exists>b t. dec n = b # t \<and> is_digit b"
proof (induction n rule: dec.induct)
  case (1 n)
  show ?case
  proof (cases "n < 10")
    case True
    then show ?thesis using digit_read by (simp add: dec.simps [of n])
  next
    case False
    then obtain b t where "dec (n div 10) = b # t" "is_digit b" using 1 by blast
    then show ?thesis using False by (simp add: dec.simps [of n])
  qed
qed

lemma digits_end: "r = [] \<or> \<not> is_digit (hd r) \<Longrightarrow> parse_digits a r = (a, r)"
  by (cases r) auto

lemma int_read:
  assumes "r = [] \<or> \<not> is_digit (hd r)"
  shows "parse_number (int_text i @ r) = Some (JInt i, r)"
proof -
  obtain b t where b: "dec (nat \<bar>i\<bar>) = b # t" "is_digit b" using dec_first by blast
  have n2: "\<not> is_digit 0x2D" by (simp add: is_digit_def)
  have d: "parse_digits 0 (dec (nat \<bar>i\<bar>) @ r) = (nat \<bar>i\<bar>, r)" using dec_read [of 0] digits_end [OF assms] by simp
  have "b \<noteq> 0x2D" using b(2) n2 by auto
  then show ?thesis using d b by (auto simp: parse_number_def int_text_def Let_def abs_if split: if_splits)
qed

lemma skip_ws: "\<forall>b \<in> set w. is_ws b \<Longrightarrow> skip (w @ t) = skip t"
  by (simp add: skip_def)

lemma skip_stop: "\<not> is_ws b \<Longrightarrow> skip (b # t) = b # t"
  by (simp add: skip_def)

lemma skip_line: "skip (line True d @ t) = skip t"
  by (rule skip_ws) (auto simp: line_def is_ws_def)

lemma skip_skip: "parse_json n (skip s) = parse_json n s" "parse_elems n (skip s) = parse_elems n s" "parse_members n (skip s) = parse_members n s"
proof -
  have i: "skip (skip s) = skip s" unfolding skip_def by (rule dropWhile_idem)
  show j: "parse_json n (skip s) = parse_json n s" for n by (cases n) (simp_all only: parse_json.simps i)
  show "parse_elems n (skip s) = parse_elems n s" by (cases n) (simp_all only: parse_elems.simps j)
  show "parse_members n (skip s) = parse_members n s" by (cases n) (simp_all only: parse_members.simps i)
qed

lemma line_read: "parse_json n (line True d @ t) = parse_json n t" "parse_elems n (line True d @ t) = parse_elems n t"
  "parse_members n (line True d @ t) = parse_members n t"
  using skip_skip [of n "line True d @ t"] skip_skip [of n t] skip_line [of d t] by simp_all

lemma int_start: "\<exists>b t. int_text i = b # t \<and> (b = 0x2D \<or> is_digit b)"
  using dec_first [of "nat i"] dec_first [of "nat (- i)"] by (cases "i < 0") (auto simp: int_text_def)

lemma digit_other: "b = 0x2D \<or> is_digit b \<Longrightarrow> b \<notin> {0x22, 0x5B, 0x7B, 0x5D, 0x7D, 0x6E, 0x74, 0x66} \<and> \<not> is_ws b"
  by (auto simp: is_digit_def is_ws_def)

lemma body_start: "\<exists>b t. body d v = b # t \<and> \<not> is_ws b \<and> b \<noteq> 0x5D"
proof (cases v)
  case (JInt i)
  then show ?thesis using int_start [of i] digit_other by fastforce
qed (auto simp: lit_def quoted_def is_ws_def)

lemma elems_comma: "vs \<noteq> [] \<Longrightarrow> elems d False vs = 0x2C # elems d True vs"
  by (cases vs) (simp_all add: line_def)

lemma members_comma: "ms \<noteq> [] \<Longrightarrow> members d False ms = 0x2C # members d True ms"
  by (cases ms) (auto simp: line_def)

definition ends :: "bytes \<Rightarrow> bool" where
  "ends r \<longleftrightarrow> r = [] \<or> \<not> is_digit (hd r)"

lemma ends_line: "ends (line True d @ t)" "ends (0x2C # t)"
  by (simp_all add: ends_def line_def is_digit_def)

lemma some_first: "P \<Longrightarrow> P \<and> (b \<or> \<not> b)"
  by simp

lemma json_read:
  "length (body d v) \<le> n \<Longrightarrow> ends r \<Longrightarrow> parse_json n (body d v @ r) = Some (v, r)"
  "vs \<noteq> [] \<and> (first \<or> \<not> first) \<Longrightarrow> length (elems d True vs) \<le> n \<Longrightarrow> parse_elems n (elems d True vs @ line True e @ 0x5D # r) = Some (vs, r)"
  "ms \<noteq> [] \<and> (first \<or> \<not> first) \<Longrightarrow> length (members d True ms) \<le> n \<Longrightarrow> parse_members n (members d True ms @ line True e @ 0x7D # r) = Some (ms, r)"
proof (induction d v and d first vs and d first ms arbitrary: n r and n e r and n e r rule: body_elems_members.induct)
  case (1 d)
  then show ?case by (cases n) (simp_all add: lit_def skip_stop is_ws_def)
next
  case (2 d b)
  then show ?case by (cases n; cases b) (simp_all add: lit_def skip_stop is_ws_def)
next
  case (3 d i)
  obtain b t where b: "int_text i = b # t" "b = 0x2D \<or> is_digit b" using int_start by blast
  obtain m where m: "n = Suc m" using 3 b(1) by (cases n) simp_all
  have o: "b \<noteq> 0x22" "b \<noteq> 0x5B" "b \<noteq> 0x7B" "b \<noteq> 0x6E" "b \<noteq> 0x74" "b \<noteq> 0x66" "\<not> is_ws b" using digit_other [OF b(2)] by auto
  have "parse_number (b # t @ r) = Some (JInt i, r)" using int_read [of r i] 3(2) b(1) by (simp add: ends_def)
  then show ?case using o by (simp add: b(1) m skip_stop lit_def)
next
  case (4 d s)
  obtain m where m: "n = Suc m" using 4 by (cases n) (simp_all add: quoted_def)
  have "\<not> is_ws 0x22" by (simp add: is_ws_def)
  then show ?case using quoted_read [of s r] by (simp add: m quoted_def skip_stop)
next
  case (5 d vs)
  obtain m where m: "n = Suc m" "length (elems (Suc d) True vs) \<le> m" using 5(2) by (cases n) simp_all
  have w: "\<not> is_ws 0x5B" "\<not> is_ws 0x5D" by (simp_all add: is_ws_def)
  show ?case
  proof (cases "vs = []")
    case True
    then show ?thesis using w by (simp add: m skip_stop skip_line)
  next
    case False
    then obtain x xs where x: "vs = x # xs" by (cases vs) simp_all
    obtain b t where b: "body (Suc d) x = b # t" "\<not> is_ws b" "b \<noteq> 0x5D" using body_start by blast
    have s: "skip (elems (Suc d) True vs @ line True d @ 0x5D # r) = b # t @ elems (Suc d) False xs @ line True d @ 0x5D # r"
      using b by (simp add: x skip_line skip_stop)
    have "parse_elems m (b # t @ elems (Suc d) False xs @ line True d @ 0x5D # r) = Some (vs, r)"
      using 5(1) [OF some_first [OF False] m(2), of d r] skip_skip(2) [of m "elems (Suc d) True vs @ line True d @ 0x5D # r"] s by simp
    then show ?thesis using s b(3) w by (simp add: m skip_stop)
  qed
next
  case (6 d ms)
  obtain m where m: "n = Suc m" "length (members (Suc d) True ms) \<le> m" using 6(2) by (cases n) simp_all
  have w: "\<not> is_ws 0x7B" "\<not> is_ws 0x7D" "\<not> is_ws 0x22" by (simp_all add: is_ws_def)
  show ?case
  proof (cases "ms = []")
    case True
    then show ?thesis using w by (simp add: m skip_stop skip_line)
  next
    case False
    then obtain k x xs where x: "ms = (k, x) # xs" by (cases ms) auto
    define t where "t = concat (map esc k) @ [0x22] @ [0x3A, 0x20] @ body (Suc d) x @ members (Suc d) False xs @ line True d @ 0x7D # r"
    have s: "skip (members (Suc d) True ms @ line True d @ 0x7D # r) = 0x22 # t"
      using w by (simp add: x skip_line skip_stop quoted_def t_def)
    have "parse_members m (0x22 # t) = Some (ms, r)"
      using 6(1) [OF some_first [OF False] m(2), of d r] skip_skip(3) [of m "members (Suc d) True ms @ line True d @ 0x7D # r"] s by simp
    then show ?thesis using s w by (simp add: m skip_stop)
  qed
next
  case (8 d first v vs)
  define fin where "fin = line True e @ 0x5D # r"
  obtain m where m: "n = Suc m" "length (body d v) \<le> m" "length (elems d False vs) \<le> m"
    using 8(4) by (cases n) (simp_all add: line_def)
  have w: "\<not> is_ws 0x5D" "\<not> is_ws 0x2C" by (simp_all add: is_ws_def)
  have en: "ends (elems d False vs @ fin)" using ends_line elems_comma by (cases "vs = []") (simp_all add: fin_def)
  have v: "parse_json m (elems d True (v # vs) @ fin) = Some (v, elems d False vs @ fin)"
    using 8(1) [OF m(2) en] by (simp add: line_read)
  show ?case
  proof (cases "vs = []")
    case True
    then have "skip (elems d False vs @ fin) = 0x5D # r" using w by (simp add: fin_def skip_line skip_stop)
    then show ?thesis using v True unfolding fin_def [symmetric] m(1) by simp
  next
    case False
    have "skip (elems d False vs @ fin) = 0x2C # elems d True vs @ fin" using w elems_comma [OF False] by (simp add: skip_stop)
    moreover have "length (elems d True vs) \<le> m" using m(3) elems_comma [OF False, of d] by simp
    then have "parse_elems m (elems d True vs @ fin) = Some (vs, r)" unfolding fin_def by (rule 8(2) [OF some_first [OF False]])
    ultimately show ?thesis using v unfolding fin_def [symmetric] m(1) by simp
  qed
next
  case (10 d first k v ms)
  define fin where "fin = line True e @ 0x7D # r"
  obtain m where m: "n = Suc m" "length (body d v) \<le> m" "length (members d False ms) \<le> m"
    using 10(4) by (cases n) (simp_all add: line_def)
  have w: "\<not> is_ws 0x7D" "\<not> is_ws 0x2C" "\<not> is_ws 0x22" "\<not> is_ws 0x3A" "is_ws 0x20" by (simp_all add: is_ws_def)
  have en: "ends (members d False ms @ fin)" using ends_line members_comma by (cases "ms = []") (simp_all add: fin_def)
  define t where "t = body d v @ members d False ms @ fin"
  have "skip (0x20 # t) = skip t" using skip_ws [of "[0x20]" t] w by simp
  then have v: "parse_json m (0x20 # t) = Some (v, members d False ms @ fin)"
    using 10(1) [OF m(2) en] skip_skip(1) [of m "0x20 # t"] skip_skip(1) [of m t] by (simp add: t_def)
  have s: "skip (members d True ((k, v) # ms) @ fin) = 0x22 # concat (map esc k) @ 0x22 # 0x3A # 0x20 # t"
    using w by (simp add: skip_line skip_stop quoted_def t_def)
  have q: "parse_chars (concat (map esc k) @ 0x22 # 0x3A # 0x20 # t) = Some (k, 0x3A # 0x20 # t)" by (rule quoted_read)
  have c: "skip (0x3A # 0x20 # t) = 0x3A # 0x20 # t" using w by (simp add: skip_stop)
  have "parse_members (Suc m) (members d True ((k, v) # ms) @ fin) =
      (case skip (members d False ms @ fin) of [] \<Rightarrow> None
       | x # y \<Rightarrow> if x = 0x7D then Some ([(k, v)], y)
           else if x = 0x2C then map_option (\<lambda>(ms, q). ((k, v) # ms, q)) (parse_members m y) else None)"
    unfolding parse_members.simps s list.case q option.case prod.case c v by simp
  moreover have "(case skip (members d False ms @ fin) of [] \<Rightarrow> None
       | x # y \<Rightarrow> if x = 0x7D then Some ([(k, v)], y)
           else if x = 0x2C then map_option (\<lambda>(ms, q). ((k, v) # ms, q)) (parse_members m y) else None) = Some ((k, v) # ms, r)"
  proof (cases "ms = []")
    case True
    then have "skip (members d False ms @ fin) = 0x7D # r" using w by (simp add: fin_def skip_line skip_stop)
    then show ?thesis using True by simp
  next
    case False
    have "skip (members d False ms @ fin) = 0x2C # members d True ms @ fin" using w members_comma [OF False] by (simp add: skip_stop)
    moreover have "length (members d True ms) \<le> m" using m(3) members_comma [OF False, of d] by simp
    then have "parse_members m (members d True ms @ fin) = Some (ms, r)" unfolding fin_def by (rule 10(2) [OF some_first [OF False]])
    ultimately show ?thesis by simp
  qed
  ultimately show ?case unfolding fin_def [symmetric] m(1) by simp
qed simp_all

lemma json_end: "ends [0x0A]"
  by (simp add: ends_def is_digit_def)

lemma json_written:
  assumes "json_ok v"
  shows "write_json v new_writer = Some (writer [] (body 0 v))"
  using write_ok(1) [of v "[]" 0 "[]"] assms
  by (simp add: value_place_def indent_def complete_def new_writer_def writer_def)

lemma json_retrieved:
  "GetOutputString (writer S out) = Some (out @ [0x0A], (writer S [])\<lparr>jw_RetrievedOutput := True\<rparr>)"
  unfolding GetOutputString_def Internal bind.bind_lunit by (simp add: writer_def)

lemma json_back: "read_json (body 0 v @ [0x0A]) = Some (v, [0x0A])"
  unfolding read_json_def by (rule json_read(1)) (simp_all add: json_end)

text \<open>C23: the JSON writer accepts every call of a client that writes a value whose strings are valid UTF-8 and whose
  numbers are ints: no assertion fails, no element stays open, and the string it hands out is the
  value for a reader of JSON, followed by one newline. After that it takes no more output.\<close>

theorem json_writer_roundtrip:
  assumes "json_ok v"
  shows "\<exists>w out w'. write_json v new_writer = Some w \<and> jw_States w = [] \<and> GetOutputString w = Some (out, w') \<and>
    read_json out = Some (v, [0x0A]) \<and> (\<forall>s. WriteInternal s w' = None)"
  unfolding json_written [OF assms] option.inject
  by (intro exI conjI, rule refl, simp, rule json_retrieved, rule json_back, simp add: WriteInternal_def)

definition example_json :: json where
  "example_json = JObj [(lit ''n'', JInt (-7)), (lit ''a'', JArr [JNull, JStr [0x22, 0x0A]])]"

theorem json_writer_roundtrip_witness:
  "\<exists>w out w'. write_json example_json new_writer = Some w \<and> jw_States w = [] \<and> GetOutputString w = Some (out, w') \<and>
    read_json out = Some (example_json, [0x0A]) \<and> (\<forall>s. WriteInternal s w' = None)"
proof (rule json_writer_roundtrip)
  show "json_ok example_json" by code_simp
qed

subsection \<open>Escaping into a buffer\<close>

lemma esc_length: "length (esc c) = (if EscapeJsonChar c \<noteq> 0 then 2 else if c < 0x20 then 6 else 1)"
  by (simp add: esc_def u_escape_def)

lemma escape_step:
  "c \<noteq> 0 \<Longrightarrow> escape_json_loop n (c # s) = (if n < length (esc c) then [] else esc c @ escape_json_loop (n - length (esc c)) s)"
proof -
  assume "c \<noteq> 0"
  have u: "length (u_escape c) = 6" by (simp add: u_escape_def)
  consider (two) "EscapeJsonChar c \<noteq> 0" | (six) "EscapeJsonChar c = 0" "c < 0x20" | (one) "EscapeJsonChar c = 0" "\<not> c < 0x20"
    by blast
  then show ?thesis
  proof cases
    case two
    then have e: "esc c = [0x5C, EscapeJsonChar c]" "length (esc c) = 2" by (simp_all add: esc_def)
    show ?thesis unfolding e(2) using two \<open>c \<noteq> 0\<close> by (auto simp: e(1) Let_def)
  next
    case six
    then have e: "esc c = u_escape c" "length (esc c) = 6" by (simp_all add: esc_def u)
    show ?thesis unfolding e(2) using six \<open>c \<noteq> 0\<close> by (auto simp: e(1) Let_def)
  next
    case one
    then show ?thesis using \<open>c \<noteq> 0\<close> by (auto simp: esc_def Let_def)
  qed
qed

text \<open>The longest prefix of the string whose escapes fit.\<close>

lemma escape_loop_prefix:
  "cstring s \<Longrightarrow> \<exists>k \<le> length s. escape_json_loop n s = concat (map esc (take k s)) \<and> length (escape_json_loop n s) \<le> n \<and>
     (k < length s \<longrightarrow> n < length (escape_json_loop n s) + length (esc (s ! k)))"
proof (induction s arbitrary: n)
  case (Cons c s)
  have c0: "c \<noteq> 0" "cstring s" using Cons.prems by (auto simp: cstring_def)
  show ?case
  proof (cases "n < length (esc c)")
    case True
    then show ?thesis unfolding escape_step [OF c0(1)] by (intro exI [of _ 0]) simp
  next
    case False
    define rest where "rest = escape_json_loop (n - length (esc c)) s"
    have e: "escape_json_loop n (c # s) = esc c @ rest" unfolding escape_step [OF c0(1)] rest_def using False by simp
    obtain k where "k \<le> length s" "rest = concat (map esc (take k s))" "length rest \<le> n - length (esc c)"
       "k < length s \<longrightarrow> n - length (esc c) < length rest + length (esc (s ! k))"
      using Cons.IH [OF c0(2), of "n - length (esc c)"] unfolding rest_def by blast
    then show ?thesis using False unfolding e by (intro exI [of _ "Suc k"]) (auto simp del: length_0_conv)
  qed
qed simp

text \<open>\<open>EscapeJson\<close> fails its assertions exactly for an empty buffer or a string that is not UTF-8. Otherwise
  its result fits the buffer with the zero byte, is the escapes of a prefix of the string, the longest
  one that fits, never cut inside an escape, and a reader of JSON strings gets that prefix back.\<close>

theorem escape_json_prefix:
  assumes "cstring s"
  shows "(EscapeJson n s = None \<longleftrightarrow> n = 0 \<or> \<not> str_utf8_check s) \<and>
   (\<forall>out. EscapeJson n s = Some out \<longrightarrow> length out < n \<and>
     (\<exists>k \<le> length s. out = concat (map esc (take k s)) \<and> parse_chars (out @ [0x22]) = Some (take k s, []) \<and>
        (k < length s \<longrightarrow> n \<le> length out + length (esc (s ! k)))))"
proof (intro conjI allI impI)
  show "EscapeJson n s = None \<longleftrightarrow> n = 0 \<or> \<not> str_utf8_check s" by (simp add: EscapeJson_def)
next
  fix out assume "EscapeJson n s = Some out"
  then have n: "n \<noteq> 0" "out = escape_json_loop (n - 1) s" by (auto simp: EscapeJson_def split: if_splits)
  obtain k where k: "k \<le> length s" "out = concat (map esc (take k s))" "length out \<le> n - 1"
     "k < length s \<longrightarrow> n - 1 < length out + length (esc (s ! k))"
    using escape_loop_prefix [OF assms, of "n - 1"] unfolding n(2) by blast
  show "length out < n" using k(3) n(1) by simp
  show "\<exists>k \<le> length s. out = concat (map esc (take k s)) \<and> parse_chars (out @ [0x22]) = Some (take k s, []) \<and>
        (k < length s \<longrightarrow> n \<le> length out + length (esc (s ! k)))"
    using k quoted_read [of "take k s" "[]"] by (intro exI [of _ k]) auto
qed

theorem escape_json_prefix_witness:
  "EscapeJson 4 [0x61, 0x0A, 0x62] = Some [0x61, 0x5C, 0x6E] \<and> length [0x61, 0x5C, 0x6E :: byte] < 4"
proof -
  have e: "EscapeJson 4 [0x61, 0x0A, 0x62] = Some [0x61, 0x5C, 0x6E]" by code_simp
  have c: "cstring [0x61, 0x0A, 0x62]" by code_simp
  have "length [0x61, 0x5C, 0x6E :: byte] < 4"
    using escape_json_prefix [OF c, THEN conjunct2, rule_format, OF e] by (rule conjunct1)
  then show ?thesis using e by blast
qed

end
