(* ===== verification/BanPool.thy ===== *)
theory BanPool
  imports NetConn
begin

text \<open>
  The pool of bans (\<open>CNetBan::CBanPool\<close> in engine/shared/netban.h and netban.cpp): an array of 2048
  nodes with two pairs of links. One pair chains the free nodes and the bans in use, which are sorted
  by the time they expire; the other chains the bans of a hash bucket_list. The array of structs is a map
  from index to value per member and a pointer to a node is its index, \<open>None\<close> for \<open>nullptr\<close>. The
  template parameter is the type of the data and its comparison, \<open>NetComp\<close>.
  The pool is shown to implement a sorted list of bans.
\<close>

subsection \<open>Doubly linked lists\<close>

type_synonym links = "nat \<Rightarrow> nat option"

text \<open>How a node is taken out of its list: its neighbours, or the head of the list, skip it.\<close>

definition unlink :: "nat \<Rightarrow> links \<times> links \<times> nat option \<Rightarrow> links \<times> links \<times> nat option" where
  "unlink b l = (case l of (nx, pv, first) \<Rightarrow>
     let pv1 = (case nx b of None \<Rightarrow> pv | Some n \<Rightarrow> pv(n := pv b)) in
     (case pv1 b of None \<Rightarrow> (nx, pv1, nx b) | Some q \<Rightarrow> (nx(q := nx b), pv1, first)))"

text \<open>How a node is put in front of a list.\<close>

definition push_front :: "nat \<Rightarrow> links \<times> links \<times> nat option \<Rightarrow> links \<times> links \<times> nat option" where
  "push_front b l = (case l of (nx, pv, first) \<Rightarrow>
     (nx(b := first), (case first of None \<Rightarrow> pv | Some f \<Rightarrow> pv(f := Some b))(b := None), Some b))"

text \<open>The nodes from \<open>f\<close>, which follows \<open>p\<close>, to the one before \<open>q\<close>.\<close>

fun seg :: "links \<Rightarrow> links \<Rightarrow> nat option \<Rightarrow> nat option \<Rightarrow> nat list \<Rightarrow> nat option \<Rightarrow> bool" where
  "seg nx pv f p [] q \<longleftrightarrow> f = q"
| "seg nx pv f p (x # xs) q \<longleftrightarrow> f = Some x \<and> pv x = p \<and> seg nx pv (nx x) (Some x) xs q"

definition dll :: "links \<times> links \<times> nat option \<Rightarrow> nat list \<Rightarrow> bool" where
  "dll l xs = (case l of (nx, pv, first) \<Rightarrow> seg nx pv first None xs None)"

definition head :: "nat list \<Rightarrow> nat option \<Rightarrow> nat option" where
  "head xs q = (case xs of [] \<Rightarrow> q | x # _ \<Rightarrow> Some x)"

definition tail_end :: "nat option \<Rightarrow> nat list \<Rightarrow> nat option" where
  "tail_end p xs = (if xs = [] then p else Some (last xs))"

lemma head_simps [simp]: "head [] q = q" "head (x # xs) q = Some x"
  by (simp_all add: head_def)

lemma tail_end_simps [simp]:
  "tail_end p [] = p" "tail_end p (x # xs) = tail_end (Some x) xs" "tail_end p (xs @ [x]) = Some x"
  by (simp_all add: tail_end_def)

lemma seg_cong:
  "(\<And>x. x \<in> set xs \<Longrightarrow> nx x = nx' x \<and> pv x = pv' x) \<Longrightarrow> seg nx pv f p xs q = seg nx' pv' f p xs q"
  by (induction xs arbitrary: f p) auto

lemma seg_append:
  "seg nx pv f p (xs @ ys) q \<longleftrightarrow> seg nx pv f p xs (head ys q) \<and> seg nx pv (head ys q) (tail_end p xs) ys q"
  by (induction xs arbitrary: f p) (cases ys; auto)+

lemma seg_head: "seg nx pv f p xs q \<Longrightarrow> f = head xs q"
  by (cases xs) auto

lemma seg_prev: "seg nx pv f p xs q \<Longrightarrow> xs \<noteq> [] \<Longrightarrow> pv (hd xs) = p"
  by (cases xs) auto

lemma seg_next: "seg nx pv f p xs q \<Longrightarrow> xs \<noteq> [] \<Longrightarrow> nx (last xs) = q"
  by (induction xs arbitrary: f p) (auto split: if_splits)

lemma seg_set_next:
  "seg nx pv f p xs q \<Longrightarrow> distinct xs \<Longrightarrow> xs \<noteq> [] \<Longrightarrow> seg (nx(last xs := q')) pv f p xs q'"
proof (induction xs arbitrary: f p)
  case (Cons x xs)
  show ?case
  proof (cases "xs = []")
    case True
    then show ?thesis using Cons.prems by simp
  next
    case False
    then have "x \<noteq> last xs" using Cons.prems by auto
    then show ?thesis using Cons False by simp
  qed
qed simp

lemma seg_set_prev:
  "seg nx pv f p xs q \<Longrightarrow> distinct xs \<Longrightarrow> xs \<noteq> [] \<Longrightarrow> seg nx (pv(hd xs := p')) f p' xs q"
proof (cases xs)
  case (Cons x ys)
  moreover assume "seg nx pv f p xs q" "distinct xs"
  moreover from this Cons have "seg nx (pv(x := p')) (nx x) (Some x) ys q \<longleftrightarrow> seg nx pv (nx x) (Some x) ys q"
    by (intro seg_cong) auto
  ultimately show ?thesis by simp
qed simp

lemma seg_frame:
  "z \<notin> set xs \<Longrightarrow> seg (nx(z := a)) pv f p xs q = seg nx pv f p xs q"
  "z \<notin> set xs \<Longrightarrow> seg nx (pv(z := a)) f p xs q = seg nx pv f p xs q"
  by ((rule seg_cong, fastforce)[1])+

text \<open>A node leaves its list; the links of nodes of other lists stay.\<close>

lemma unlink_dll:
  assumes "dll l (xs @ b # ys)" "distinct (xs @ b # ys)"
  shows "dll (unlink b l) (xs @ ys)"
    and "\<And>z. z \<notin> set xs \<Longrightarrow> z \<notin> set ys \<Longrightarrow> fst (unlink b l) z = fst l z \<and> fst (snd (unlink b l)) z = fst (snd l) z"
proof -
  obtain nx pv first where l: "l = (nx, pv, first)" by (cases l)
  have s: "seg nx pv first None xs (Some b)" "pv b = tail_end None xs" "seg nx pv (nx b) (Some b) ys None"
    using assms(1) by (simp_all add: l dll_def seg_append)
  have d: "distinct xs" "distinct ys" "b \<notin> set xs" "b \<notin> set ys" "set xs \<inter> set ys = {}" using assms(2) by auto
  define pv1 where "pv1 = (case nx b of None \<Rightarrow> pv | Some n \<Rightarrow> pv(n := pv b))"
  have n: "nx b = head ys None" using seg_head [OF s(3)] .
  have b1: "pv1 b = tail_end None xs" using s(2) d(4) n by (cases ys) (auto simp: pv1_def)
  have y1: "seg nx pv1 (nx b) (tail_end None xs) ys None"
  proof (cases ys)
    case (Cons y t)
    have "pv1 = pv(hd ys := tail_end None xs)" using n s(2) by (simp add: pv1_def Cons)
    then show ?thesis using seg_set_prev [OF s(3) d(2)] Cons by simp
  qed (use n in simp)
  have x1: "seg nx pv1 first None xs (Some b)"
    using s(1) d(5) n by (cases ys) (auto simp: pv1_def seg_frame)
  have u: "unlink b l = (if xs = [] then (nx, pv1, nx b) else (nx(last xs := nx b), pv1, first))"
    using b1 by (simp add: unlink_def l pv1_def Let_def tail_end_def)
  show "dll (unlink b l) (xs @ ys)"
  proof (cases "xs = []")
    case True
    then show ?thesis using y1 unfolding u by (simp add: dll_def)
  next
    case False
    have last: "last xs \<notin> set ys" using d(5) last_in_set [OF False] by blast
    have "seg (nx(last xs := nx b)) pv1 first None xs (nx b)" by (rule seg_set_next [OF x1 d(1) False])
    moreover have "seg (nx(last xs := nx b)) pv1 (nx b) (tail_end None xs) ys None"
      using y1 False last by (simp add: seg_frame tail_end_def)
    ultimately show ?thesis using False unfolding u by (simp add: dll_def seg_append n)
  qed
  fix z assume "z \<notin> set xs" "z \<notin> set ys"
  then show "fst (unlink b l) z = fst l z \<and> fst (snd (unlink b l)) z = fst (snd l) z"
    unfolding u using n by (cases ys) (auto simp: l pv1_def)
qed

lemma push_front_dll:
  assumes "dll l xs" "b \<notin> set xs" "distinct xs"
  shows "dll (push_front b l) (b # xs)"
    and "\<And>z. z \<notin> set xs \<Longrightarrow> z \<noteq> b \<Longrightarrow> fst (push_front b l) z = fst l z \<and> fst (snd (push_front b l)) z = fst (snd l) z"
proof -
  obtain nx pv first where l: "l = (nx, pv, first)" by (cases l)
  have s: "seg nx pv first None xs None" using assms(1) by (simp add: l dll_def)
  have f: "first = head xs None" using seg_head [OF s] .
  define pv1 where "pv1 = (case first of None \<Rightarrow> pv | Some f \<Rightarrow> pv(f := Some b))"
  have "seg nx pv1 first (Some b) xs None"
  proof (cases xs)
    case (Cons x t)
    then show ?thesis using seg_set_prev [OF s assms(3), of "Some b"] f by (simp add: pv1_def)
  qed (use f in simp)
  then have "seg (nx(b := first)) (pv1(b := None)) first (Some b) xs None" using assms(2) by (simp add: seg_frame)
  then show "dll (push_front b l) (b # xs)" by (simp add: push_front_def l dll_def pv1_def)
  fix z assume "z \<notin> set xs" "z \<noteq> b"
  then show "fst (push_front b l) z = fst l z \<and> fst (snd (push_front b l)) z = fst (snd l) z"
    using f by (cases xs) (auto simp: push_front_def l)
qed

subsection \<open>The pool\<close>

definition EXPIRES_NEVER :: int where "EXPIRES_NEVER = - 1"
definition REASON_LENGTH :: nat where "REASON_LENGTH = 128"
definition MAX_BANS :: nat where "MAX_BANS = 2048"

record ban_info =
  bi_Expires :: int
  bi_aReason :: bytes
  bi_VerbatimReason :: bool

record net_hash =
  nh_Hash :: nat
  nh_HashIndex :: nat

record 'a ban_pool =
  bp_Data :: "nat \<Rightarrow> 'a"
  bp_Info :: "nat \<Rightarrow> ban_info"
  bp_NetHash :: "nat \<Rightarrow> net_hash"
  bp_pHashNext :: links
  bp_pHashPrev :: links
  bp_pNext :: links
  bp_pPrev :: links
  bp_HashList :: "net_hash \<Rightarrow> nat option"
  bp_pFirstFree :: "nat option"
  bp_pFirstUsed :: "nat option"
  bp_CountUsed :: int

text \<open>The three lists of a pool as links with a head.\<close>

definition used_list :: "'a ban_pool \<Rightarrow> links \<times> links \<times> nat option" where
  "used_list P = (bp_pNext P, bp_pPrev P, bp_pFirstUsed P)"

definition set_used :: "links \<times> links \<times> nat option \<Rightarrow> 'a ban_pool \<Rightarrow> 'a ban_pool" where
  "set_used l P = P\<lparr>bp_pNext := fst l, bp_pPrev := fst (snd l), bp_pFirstUsed := snd (snd l)\<rparr>"

definition free_list :: "'a ban_pool \<Rightarrow> links \<times> links \<times> nat option" where
  "free_list P = (bp_pNext P, bp_pPrev P, bp_pFirstFree P)"

definition set_free :: "links \<times> links \<times> nat option \<Rightarrow> 'a ban_pool \<Rightarrow> 'a ban_pool" where
  "set_free l P = P\<lparr>bp_pNext := fst l, bp_pPrev := fst (snd l), bp_pFirstFree := snd (snd l)\<rparr>"

definition bucket_list :: "net_hash \<Rightarrow> 'a ban_pool \<Rightarrow> links \<times> links \<times> nat option" where
  "bucket_list h P = (bp_pHashNext P, bp_pHashPrev P, bp_HashList P h)"

definition set_bucket :: "net_hash \<Rightarrow> links \<times> links \<times> nat option \<Rightarrow> 'a ban_pool \<Rightarrow> 'a ban_pool" where
  "set_bucket h l P = P\<lparr>bp_pHashNext := fst l, bp_pHashPrev := fst (snd l), bp_HashList := (bp_HashList P)(h := snd (snd l))\<rparr>"

text \<open>Whether a ban is put in front of another one.\<close>

definition goes_before :: "int \<Rightarrow> int \<Rightarrow> bool" where
  "goes_before e f \<longleftrightarrow> f = EXPIRES_NEVER \<or> e \<noteq> EXPIRES_NEVER \<and> e \<le> f"

partial_function (option) insert_loop ::
  "(nat \<Rightarrow> int) \<Rightarrow> nat \<Rightarrow> nat \<Rightarrow> links \<times> links \<times> nat option \<Rightarrow> (links \<times> links \<times> nat option) option" where
  "insert_loop ex b p l = (case l of (nx, pv, first) \<Rightarrow>
     if goes_before (ex b) (ex p) then
       (let nx1 = nx(b := Some p); pv1 = pv(b := pv p) in
        (case pv1 p of Some q \<Rightarrow> Some (nx1(q := Some b), pv1(p := Some b), first)
         | None \<Rightarrow> Some (nx1, pv1(p := Some b), Some b)))
     else (case nx p of None \<Rightarrow> Some (nx(p := Some b, b := None), pv(b := Some p), first)
       | Some n \<Rightarrow> insert_loop ex b n l))"

definition InsertUsed :: "nat \<Rightarrow> 'a ban_pool \<Rightarrow> 'a ban_pool option" where
  "InsertUsed b P =
     (case bp_pFirstUsed P of
        Some p \<Rightarrow> map_option (\<lambda>l. set_used l P) (insert_loop (\<lambda>i. bi_Expires (bp_Info P i)) b p (used_list P))
      | None \<Rightarrow> Some (set_used ((bp_pNext P)(b := None), (bp_pPrev P)(b := None), Some b) P))"

definition pool_Add :: "'a \<Rightarrow> ban_info \<Rightarrow> net_hash \<Rightarrow> 'a ban_pool \<Rightarrow> (nat option \<times> 'a ban_pool) option" where
  "pool_Add d info h P =
     (case bp_pFirstFree P of None \<Rightarrow> Some (None, P)
      | Some b \<Rightarrow>
          let P1 = P\<lparr>bp_Data := (bp_Data P)(b := d), bp_Info := (bp_Info P)(b := info), bp_NetHash := (bp_NetHash P)(b := h)\<rparr>;
              P2 = set_free (unlink b (free_list P1)) P1;
              P3 = set_bucket h (push_front b (bucket_list h P2)) P2 in do {
          P4 \<leftarrow> InsertUsed b P3;
          Some (Some b, P4\<lparr>bp_CountUsed := bp_CountUsed P4 + 1\<rparr>) })"

definition pool_Remove :: "nat option \<Rightarrow> 'a ban_pool \<Rightarrow> int \<times> 'a ban_pool" where
  "pool_Remove pBan P =
     (case pBan of None \<Rightarrow> (- 1, P)
      | Some b \<Rightarrow>
          let h = bp_NetHash P b;
              P1 = set_bucket h (unlink b (bucket_list h P)) P;
              P2 = P1\<lparr>bp_pHashNext := (bp_pHashNext P1)(b := None), bp_pHashPrev := (bp_pHashPrev P1)(b := None)\<rparr>;
              P3 = set_used (unlink b (used_list P2)) P2;
              P4 = set_free (push_front b (free_list P3)) P3
          in (0, P4\<lparr>bp_CountUsed := bp_CountUsed P4 - 1\<rparr>))"

definition pool_Update :: "nat \<Rightarrow> ban_info \<Rightarrow> 'a ban_pool \<Rightarrow> 'a ban_pool option" where
  "pool_Update b info P =
     (let P1 = P\<lparr>bp_Info := (bp_Info P)(b := info)\<rparr> in InsertUsed b (set_used (unlink b (used_list P1)) P1))"

text \<open>\<open>z\<close> is a struct of zero bytes.\<close>

definition bans_Reset :: "'a \<Rightarrow> 'a ban_pool" where
  "bans_Reset z =
     \<lparr>bp_Data = (\<lambda>i. z), bp_Info = (\<lambda>i. \<lparr>bi_Expires = 0, bi_aReason = [], bi_VerbatimReason = False\<rparr>),
      bp_NetHash = (\<lambda>i. \<lparr>nh_Hash = 0, nh_HashIndex = 0\<rparr>), bp_pHashNext = (\<lambda>i. None), bp_pHashPrev = (\<lambda>i. None),
      bp_pNext = (\<lambda>i. if i < MAX_BANS - 1 then Some (i + 1) else None),
      bp_pPrev = (\<lambda>i. if 0 < i \<and> i < MAX_BANS then Some (i - 1) else None),
      bp_HashList = (\<lambda>h. None), bp_pFirstFree = Some 0, bp_pFirstUsed = None, bp_CountUsed = 0\<rparr>"

text \<open>Walks along a list: the first node with a property, if the list ends.\<close>

partial_function (option) find_node :: "(nat \<Rightarrow> bool) \<Rightarrow> links \<Rightarrow> nat option \<Rightarrow> nat option option" where
  "find_node Q nx p = (case p of None \<Rightarrow> Some None | Some b \<Rightarrow> if Q b then Some (Some b) else find_node Q nx (nx b))"

definition pool_Find :: "('a \<Rightarrow> 'a \<Rightarrow> int) \<Rightarrow> 'a \<Rightarrow> net_hash \<Rightarrow> 'a ban_pool \<Rightarrow> nat option option" where
  "pool_Find NetComp d h P = find_node (\<lambda>b. NetComp (bp_Data P b) d = 0) (bp_pHashNext P) (bp_HashList P h)"

partial_function (option) get_loop :: "links \<Rightarrow> nat option \<Rightarrow> int \<Rightarrow> nat option option" where
  "get_loop nx p Index = (case p of None \<Rightarrow> Some None
     | Some b \<Rightarrow> if Index = 0 then Some (Some b) else get_loop nx (nx b) (Index - 1))"

definition pool_Get :: "int \<Rightarrow> 'a ban_pool \<Rightarrow> nat option option" where
  "pool_Get Index P = (if Index < 0 \<or> Index \<ge> bp_CountUsed P then Some None else get_loop (bp_pNext P) (bp_pFirstUsed P) Index)"

declare find_node.simps [code] get_loop.simps [code]

subsection \<open>What the pool stands for\<close>

definition expires :: "'a ban_pool \<Rightarrow> nat \<Rightarrow> int" where
  "expires P i = bi_Expires (bp_Info P i)"

text \<open>The lists of a pool: the bans in use from the first to expire, the free nodes, and the buckets.\<close>

definition ban_view :: "'a ban_pool \<Rightarrow> nat list \<Rightarrow> nat list \<Rightarrow> (net_hash \<Rightarrow> nat list) \<Rightarrow> bool" where
  "ban_view P us fs hs \<longleftrightarrow>
     dll (used_list P) us \<and> dll (free_list P) fs \<and> distinct (us @ fs) \<and> set (us @ fs) = {..<MAX_BANS} \<and> bp_CountUsed P = int (length us) \<and>
     (\<forall>h. dll (bucket_list h P) (hs h) \<and> distinct (hs h) \<and> set (hs h) = {i \<in> set us. bp_NetHash P i = h})"

text \<open>A new ban in a sorted list.\<close>

definition put_before :: "('b \<Rightarrow> int) \<Rightarrow> 'b \<Rightarrow> 'b list \<Rightarrow> 'b list" where
  "put_before e x xs = takeWhile (\<lambda>y. \<not> goes_before (e x) (e y)) xs @ x # dropWhile (\<lambda>y. \<not> goes_before (e x) (e y)) xs"

definition by_expiry :: "('b \<Rightarrow> int) \<Rightarrow> 'b list \<Rightarrow> bool" where
  "by_expiry e xs = sorted_wrt (\<lambda>x y. goes_before (e x) (e y)) xs"

lemma goes_before_trans: "goes_before a b \<Longrightarrow> goes_before b c \<Longrightarrow> goes_before a c"
  by (auto simp: goes_before_def)

lemma goes_before_total: "\<not> goes_before a b \<Longrightarrow> goes_before b a"
  by (auto simp: goes_before_def)

lemma set_put_before [simp]: "set (put_before e x xs) = insert x (set xs)"
  by (metis Un_insert_right list.simps(15) put_before_def set_append takeWhile_dropWhile_id)

lemma length_put_before [simp]: "length (put_before e x xs) = Suc (length xs)"
proof -
  have "length (takeWhile Q xs) + length (dropWhile Q xs) = length xs" for Q
    using length_append [of "takeWhile Q xs" "dropWhile Q xs"] by simp
  then show ?thesis by (simp add: put_before_def)
qed

lemma put_before_sorted: "by_expiry e xs \<Longrightarrow> by_expiry e (put_before e x xs)"
proof (induction xs)
  case (Cons y ys)
  then have IH: "by_expiry e (put_before e x ys)" by (simp add: by_expiry_def)
  show ?case
  proof (cases "goes_before (e x) (e y)")
    case True
    then show ?thesis using Cons.prems by (auto simp: put_before_def by_expiry_def intro: goes_before_trans)
  next
    case False
    have "put_before e x (y # ys) = y # put_before e x ys" using False by (simp add: put_before_def)
    then show ?thesis using IH Cons.prems goes_before_total [OF False] by (auto simp: by_expiry_def)
  qed
qed (simp add: put_before_def by_expiry_def)

lemma put_before_map: "put_before e (g x) (map g xs) = map g (put_before (e \<circ> g) x xs)"
  by (simp add: put_before_def takeWhile_map dropWhile_map comp_def)

lemma put_before_distinct: "distinct (put_before e x xs) \<longleftrightarrow> x \<notin> set xs \<and> distinct xs"
proof -
  have d: "distinct (ys @ x # zs) \<longleftrightarrow> x \<notin> set (ys @ zs) \<and> distinct (ys @ zs)" for ys zs by auto
  show ?thesis unfolding put_before_def d takeWhile_dropWhile_id ..
qed

lemma put_before_cong: "(\<And>y. y \<in> insert x (set xs) \<Longrightarrow> e y = e' y) \<Longrightarrow> put_before e x xs = put_before e' x xs"
  unfolding put_before_def by (auto cong: takeWhile_cong dropWhile_cong)

subsection \<open>The operations keep the lists\<close>

definition same_links :: "nat set \<Rightarrow> links \<times> links \<times> nat option \<Rightarrow> links \<times> links \<times> nat option \<Rightarrow> bool" where
  "same_links A l l' \<longleftrightarrow> (\<forall>z \<in> A. fst l' z = fst l z \<and> fst (snd l') z = fst (snd l) z)"

lemma dll_same: "dll l xs \<Longrightarrow> same_links (set xs) l l' \<Longrightarrow> snd (snd l') = snd (snd l) \<Longrightarrow> dll l' xs"
proof -
  assume d: "dll l xs" and s: "same_links (set xs) l l'" and f: "snd (snd l') = snd (snd l)"
  obtain nx pv first nx' pv' where l: "l = (nx, pv, first)" "l' = (nx', pv', first)" using f by (cases l; cases l') auto
  have "seg nx pv first None xs None = seg nx' pv' first None xs None"
    using s by (intro seg_cong) (simp add: same_links_def l)
  then show ?thesis using d by (simp add: dll_def l)
qed

lemma put_before_Cons:
  "put_before e x [] = [x]"
  "put_before e x (y # ys) = (if goes_before (e x) (e y) then x # y # ys else y # put_before e x ys)"
  by (simp_all add: put_before_def)

lemma insert_front_dll:
  assumes "dll l (ls @ p # rs)" "distinct (ls @ p # rs)" "b \<notin> set (ls @ p # rs)" "goes_before (ex b) (ex p)"
  shows "\<exists>l'. insert_loop ex b p l = Some l' \<and> dll l' (ls @ put_before ex b (p # rs)) \<and> same_links (- insert b (set (ls @ p # rs))) l l'"
proof -
  obtain nx pv first where l: "l = (nx, pv, first)" by (cases l)
  have s: "seg nx pv first None ls (Some p)" "pv p = tail_end None ls" "seg nx pv (nx p) (Some p) rs None"
    using assms(1) by (simp_all add: l dll_def seg_append)
  have n: "b \<noteq> p" "b \<notin> set ls" "b \<notin> set rs" "p \<notin> set ls" "p \<notin> set rs" "distinct ls" "set ls \<inter> set rs = {}"
    using assms(2,3) by auto
  define pv1 where "pv1 = pv(b := pv p, p := Some b)"
  have r: "seg (nx(b := Some p)) pv1 (nx p) (Some p) rs None" using s(3) n by (simp add: pv1_def seg_frame)
  show ?thesis
  proof (cases "ls = []")
    case True
    have "insert_loop ex b p l = Some (nx(b := Some p), pv1, Some b)"
      using assms(4) s(2) n True by (simp add: insert_loop.simps l pv1_def Let_def)
    moreover have "dll (nx(b := Some p), pv1, Some b) (b # p # rs)"
      using r s(2) n True by (auto simp: dll_def pv1_def)
    ultimately show ?thesis using True assms(4) by (auto simp: put_before_Cons same_links_def l pv1_def)
  next
    case False
    have la: "last ls \<notin> set rs" "last ls \<noteq> p" "last ls \<noteq> b" using n last_in_set [OF False] by auto
    have "insert_loop ex b p l = Some (nx(b := Some p, last ls := Some b), pv1, first)"
      using assms(4) s(2) n False by (simp add: insert_loop.simps l pv1_def Let_def tail_end_def)
    moreover have "seg (nx(b := Some p, last ls := Some b)) pv1 first None ls (Some b)"
      by (rule seg_set_next [OF _ n(6) False]) (use s(1) n in \<open>simp add: pv1_def seg_frame\<close>)
    moreover have "seg (nx(b := Some p, last ls := Some b)) pv1 (nx p) (Some p) rs None"
      using r la by (simp add: seg_frame)
    ultimately show ?thesis using la n s(2) assms(4) False
      by (auto simp: put_before_Cons same_links_def l pv1_def dll_def seg_append)
  qed
qed

lemma insert_loop_dll:
  assumes "dll l (ls @ p # rs)" "distinct (ls @ p # rs)" "b \<notin> set (ls @ p # rs)"
  shows "\<exists>l'. insert_loop ex b p l = Some l' \<and> dll l' (ls @ put_before ex b (p # rs)) \<and> same_links (- insert b (set (ls @ p # rs))) l l'"
  using assms
proof (induction rs arbitrary: ls p)
  case (Nil ls p)
  show ?case
  proof (cases "goes_before (ex b) (ex p)")
    case True
    then show ?thesis using insert_front_dll [OF Nil True] by blast
  next
    case False
    obtain nx pv first where l: "l = (nx, pv, first)" by (cases l)
    have s: "seg nx pv first None ls (Some p)" "pv p = tail_end None ls" "nx p = None"
      using Nil(1) by (simp_all add: l dll_def seg_append)
    have "insert_loop ex b p l = Some (nx(p := Some b, b := None), pv(b := Some p), first)"
      using False s(3) by (simp add: insert_loop.simps l)
    moreover have "dll (nx(p := Some b, b := None), pv(b := Some p), first) (ls @ [p, b])"
      using s Nil(2,3) by (auto simp: dll_def seg_append seg_frame)
    ultimately show ?thesis using False by (auto simp: put_before_Cons same_links_def l)
  qed
next
  case (Cons n rs ls p)
  show ?case
  proof (cases "goes_before (ex b) (ex p)")
    case True
    then show ?thesis using insert_front_dll [OF Cons.prems True] by blast
  next
    case False
    obtain nx pv first where l: "l = (nx, pv, first)" by (cases l)
    have n: "nx p = Some n" using Cons.prems(1) by (simp add: l dll_def seg_append)
    have "insert_loop ex b p l = insert_loop ex b n l"
      using False n by (subst insert_loop.simps) (simp add: l)
    moreover have "\<exists>l'. insert_loop ex b n l = Some l' \<and> dll l' ((ls @ [p]) @ put_before ex b (n # rs)) \<and>
        same_links (- insert b (set ((ls @ [p]) @ n # rs))) l l'"
      by (rule Cons.IH) (use Cons.prems in auto)
    ultimately show ?thesis using False by (simp add: put_before_Cons)
  qed
qed

lemma InsertUsed_ok:
  assumes "dll (used_list P) us" "distinct us" "b \<notin> set us"
  shows "\<exists>l. InsertUsed b P = Some (set_used l P) \<and> dll l (put_before (expires P) b us) \<and> same_links (- insert b (set us)) (used_list P) l"
proof (cases us)
  case Nil
  then have f: "bp_pFirstUsed P = None" using assms(1) by (simp add: dll_def used_list_def)
  define l where "l = ((bp_pNext P)(b := None), (bp_pPrev P)(b := None), Some b)"
  have "InsertUsed b P = Some (set_used l P)" by (simp add: InsertUsed_def f l_def)
  moreover have "dll l (put_before (expires P) b us)" by (simp add: Nil put_before_Cons l_def dll_def)
  moreover have "same_links (- insert b (set us)) (used_list P) l" by (simp add: same_links_def l_def used_list_def)
  ultimately show ?thesis by blast
next
  case (Cons p rs)
  then have f: "bp_pFirstUsed P = Some p" using assms(1) by (simp add: dll_def used_list_def)
  have e: "(\<lambda>i. bi_Expires (bp_Info P i)) = expires P" by (simp add: fun_eq_iff expires_def)
  obtain l where l: "insert_loop (expires P) b p (used_list P) = Some l" "dll l ([] @ put_before (expires P) b (p # rs))"
      "same_links (- insert b (set ([] @ p # rs))) (used_list P) l"
    using insert_loop_dll [of "used_list P" "[]" p rs b "expires P"] assms Cons by auto
  show ?thesis by (rule exI [of _ l]) (use l in \<open>simp add: InsertUsed_def f e Cons\<close>)
qed

lemma set_list_simps [simp]:
  "used_list (set_used l P) = l" "free_list (set_free l P) = l" "bucket_list h (set_bucket h l P) = l"
  "free_list (set_used l P) = (fst l, fst (snd l), bp_pFirstFree P)" "used_list (set_free l P) = (fst l, fst (snd l), bp_pFirstUsed P)"
  "bucket_list h (set_used l P) = bucket_list h P" "bucket_list h (set_free l P) = bucket_list h P"
  "h \<noteq> k \<Longrightarrow> bucket_list h (set_bucket k l P) = (fst l, fst (snd l), bp_HashList P h)"
  "used_list (set_bucket k l P) = used_list P" "free_list (set_bucket k l P) = free_list P"
  by (simp_all add: used_list_def set_used_def free_list_def set_free_def bucket_list_def set_bucket_def)

lemma set_list_fields [simp]:
  "bp_Data (set_used l P) = bp_Data P" "bp_Info (set_used l P) = bp_Info P" "bp_NetHash (set_used l P) = bp_NetHash P"
  "bp_CountUsed (set_used l P) = bp_CountUsed P" "bp_pFirstFree (set_used l P) = bp_pFirstFree P"
  "bp_Data (set_free l P) = bp_Data P" "bp_Info (set_free l P) = bp_Info P" "bp_NetHash (set_free l P) = bp_NetHash P"
  "bp_CountUsed (set_free l P) = bp_CountUsed P" "bp_pFirstUsed (set_free l P) = bp_pFirstUsed P"
  "bp_Data (set_bucket h l P) = bp_Data P" "bp_Info (set_bucket h l P) = bp_Info P" "bp_NetHash (set_bucket h l P) = bp_NetHash P"
  "bp_CountUsed (set_bucket h l P) = bp_CountUsed P" "bp_pFirstUsed (set_bucket h l P) = bp_pFirstUsed P"
  "bp_pFirstFree (set_bucket h l P) = bp_pFirstFree P" "bp_HashList (set_used l P) = bp_HashList P" "bp_HashList (set_free l P) = bp_HashList P"
  by (simp_all add: set_used_def set_free_def set_bucket_def)

lemma list_updates [simp]:
  "used_list (P\<lparr>bp_Data := a, bp_Info := b, bp_NetHash := c\<rparr>) = used_list P" "free_list (P\<lparr>bp_Data := a, bp_Info := b, bp_NetHash := c\<rparr>) = free_list P"
  "bucket_list h (P\<lparr>bp_Data := a, bp_Info := b, bp_NetHash := c\<rparr>) = bucket_list h P"
  "used_list (P\<lparr>bp_Info := b\<rparr>) = used_list P" "free_list (P\<lparr>bp_Info := b\<rparr>) = free_list P" "bucket_list h (P\<lparr>bp_Info := b\<rparr>) = bucket_list h P"
  "used_list (P\<lparr>bp_CountUsed := n\<rparr>) = used_list P" "free_list (P\<lparr>bp_CountUsed := n\<rparr>) = free_list P" "bucket_list h (P\<lparr>bp_CountUsed := n\<rparr>) = bucket_list h P"
  "used_list (P\<lparr>bp_pHashNext := x, bp_pHashPrev := y\<rparr>) = used_list P" "free_list (P\<lparr>bp_pHashNext := x, bp_pHashPrev := y\<rparr>) = free_list P"
  "bucket_list h (P\<lparr>bp_pHashNext := x, bp_pHashPrev := y\<rparr>) = (x, y, bp_HashList P h)"
  by (simp_all add: used_list_def free_list_def bucket_list_def)

lemma list_heads:
  "snd (snd (used_list P)) = bp_pFirstUsed P" "snd (snd (free_list P)) = bp_pFirstFree P" "snd (snd (bucket_list h P)) = bp_HashList P h"
  by (simp_all add: used_list_def free_list_def bucket_list_def)

lemma unlink_ok:
  assumes "dll l xs" "distinct xs" "b \<in> set xs"
  shows "dll (unlink b l) (remove1 b xs)" "same_links (- set (remove1 b xs)) l (unlink b l)"
proof -
  obtain ys zs where xs: "xs = ys @ b # zs" using split_list [OF assms(3)] by blast
  have r: "remove1 b xs = ys @ zs" using assms(2) by (simp add: xs remove1_append)
  show "dll (unlink b l) (remove1 b xs)" "same_links (- set (remove1 b xs)) l (unlink b l)"
    using unlink_dll [OF assms(1) [unfolded xs] assms(2) [unfolded xs]] by (simp_all add: r same_links_def)
qed

lemma push_front_ok:
  assumes "dll l xs" "b \<notin> set xs" "distinct xs"
  shows "dll (push_front b l) (b # xs)" "same_links (- insert b (set xs)) l (push_front b l)"
  using push_front_dll [OF assms] by (simp_all add: same_links_def)

text \<open>Another list over the same links is not touched.\<close>

lemma dll_apart:
  assumes "dll (fst l, fst (snd l), h) xs" "same_links (- A) l l'" "set xs \<inter> A = {}"
  shows "dll (fst l', fst (snd l'), h) xs"
  by (rule dll_same [OF assms(1)]) (use assms(2,3) in \<open>auto simp: same_links_def\<close>)

lemma ban_view_split:
  assumes "ban_view P us fs hs"
  shows "dll (used_list P) us" "dll (free_list P) fs" "distinct us" "distinct fs" "set us \<inter> set fs = {}"
    "dll (bucket_list h P) (hs h)" "distinct (hs h)" "set (hs h) = {i \<in> set us. bp_NetHash P i = h}"
  using assms by (simp_all add: ban_view_def)

lemma pool_Add_full: "ban_view P us [] hs \<Longrightarrow> pool_Add d info h P = Some (None, P)"
  by (simp add: ban_view_def pool_Add_def free_list_def dll_def)

text \<open>A new ban takes the first free node.\<close>

lemma pool_Add_view:
  assumes v: "ban_view P us (b # fs) hs"
  shows "\<exists>P'. pool_Add d info h P = Some (Some b, P') \<and> bp_Data P' = (bp_Data P)(b := d) \<and> bp_Info P' = (bp_Info P)(b := info) \<and>
     bp_NetHash P' = (bp_NetHash P)(b := h) \<and> ban_view P' (put_before (expires P') b us) fs (hs(h := b # hs h))"
proof -
  note w = ban_view_split [OF v]
  have f: "bp_pFirstFree P = Some b" using w(2) by (simp add: free_list_def dll_def)
  have b: "b \<notin> set us" "b \<notin> set fs" using w(4,5) by auto
  have bh: "b \<notin> set (hs k)" for k using w(8) [of k] b by simp
  define P1 where "P1 = P\<lparr>bp_Data := (bp_Data P)(b := d), bp_Info := (bp_Info P)(b := info), bp_NetHash := (bp_NetHash P)(b := h)\<rparr>"
  define P2 where "P2 = set_free (unlink b (free_list P1)) P1"
  define P3 where "P3 = set_bucket h (push_front b (bucket_list h P2)) P2"
  have l1: "used_list P1 = used_list P" "free_list P1 = free_list P" "bucket_list k P1 = bucket_list k P" for k by (simp_all add: P1_def)
  have fr: "dll (unlink b (free_list P)) fs" "same_links (- set fs) (free_list P) (unlink b (free_list P))"
    using unlink_ok [OF w(2,4), of b] by simp_all
  have ul: "used_list P2 = (fst (unlink b (free_list P)), fst (snd (unlink b (free_list P))), bp_pFirstUsed P)"
    by (simp add: P2_def l1) (simp add: P1_def)
  have u2: "dll (used_list P2) us"
    unfolding ul by (rule dll_apart [OF _ fr(2)]) (use w(1,5) in \<open>auto simp: used_list_def free_list_def\<close>)
  have u3: "used_list P3 = used_list P2" "free_list P3 = unlink b (free_list P)" by (simp_all add: P3_def P2_def l1)
  obtain l where l: "InsertUsed b P3 = Some (set_used l P3)" "dll l (put_before (expires P3) b us)" "same_links (- insert b (set us)) (used_list P3) l"
    using InsertUsed_ok [of P3 us b] u2 w(3) b(1) unfolding u3(1) by blast
  define P' where "P' = (set_used l P3)\<lparr>bp_CountUsed := bp_CountUsed (set_used l P3) + 1\<rparr>"
  have e: "pool_Add d info h P = Some (Some b, P')"
    unfolding pool_Add_def f option.case Let_def P1_def [symmetric] P2_def [symmetric] P3_def [symmetric] l(1) by (simp add: P'_def)
  have fields: "bp_Data P' = (bp_Data P)(b := d)" "bp_Info P' = (bp_Info P)(b := info)" "bp_NetHash P' = (bp_NetHash P)(b := h)"
    "bp_CountUsed P' = bp_CountUsed P + 1" "expires P' = expires P3"
    by (simp_all add: P'_def P3_def P2_def P1_def fun_eq_iff expires_def)
  have f4: "free_list P' = (fst l, fst (snd l), snd (snd (unlink b (free_list P))))"
    by (simp add: P'_def) (simp add: list_heads(2) [symmetric] u3(2))
  have fs': "dll (free_list P') fs"
    unfolding f4
  proof (rule dll_apart [OF _ l(3)])
    have "used_list P3 = (fst (unlink b (free_list P)), fst (snd (unlink b (free_list P))), bp_pFirstUsed P3)"
      by (simp add: u3(1) P2_def l1) (simp add: P3_def P2_def)
    then show "dll (fst (used_list P3), fst (snd (used_list P3)), snd (snd (unlink b (free_list P)))) fs" using fr(1) by simp
  qed (use b w(5) in auto)
  have pb: "dll (push_front b (bucket_list h P)) (b # hs h)" "same_links (- insert b (set (hs h))) (bucket_list h P) (push_front b (bucket_list h P))"
    using push_front_ok [OF w(6) bh w(7)] by simp_all
  have b2: "bucket_list k P2 = bucket_list k P" for k by (simp add: P2_def l1)
  have hs': "dll (bucket_list k P') ((hs(h := b # hs h)) k) \<and> distinct ((hs(h := b # hs h)) k) \<and>
      set ((hs(h := b # hs h)) k) = {i \<in> set (put_before (expires P') b us). bp_NetHash P' i = k}" for k
  proof (cases "k = h")
    case True
    have "bucket_list h P' = push_front b (bucket_list h P)" by (simp add: P'_def P3_def b2)
    then show ?thesis using True pb(1) bh w(7,8) [of h] b by (auto simp: fields)
  next
    case False
    have bl: "bucket_list k P' = (fst (push_front b (bucket_list h P)), fst (snd (push_front b (bucket_list h P))), bp_HashList P k)"
      using False by (simp add: P'_def P3_def b2) (simp add: P2_def P1_def)
    have d: "set (hs k) \<inter> insert b (set (hs h)) = {}" using False bh w(8) [of k] w(8) [of h] by auto
    have "dll (bucket_list k P') (hs k)"
      unfolding bl by (rule dll_apart [OF _ pb(2) d]) (use w(6) [of k] in \<open>simp add: bucket_list_def\<close>)
    then show ?thesis using False w(7,8) [of k] b by (auto simp: fields)
  qed
  have u4: "used_list P' = l" by (simp add: P'_def)
  have "ban_view P' (put_before (expires P') b us) fs (hs(h := b # hs h))"
    using l(2) fs' hs' b v by (auto simp: ban_view_def fields put_before_distinct u4)
  then show ?thesis using e fields by blast
qed

text \<open>A removed ban becomes the first free node.\<close>

lemma pool_Remove_view:
  assumes v: "ban_view P us fs hs" and b: "b \<in> set us"
  shows "\<exists>P'. pool_Remove (Some b) P = (0, P') \<and> bp_Data P' = bp_Data P \<and> bp_Info P' = bp_Info P \<and> bp_NetHash P' = bp_NetHash P \<and>
     ban_view P' (remove1 b us) (b # fs) (hs(bp_NetHash P b := remove1 b (hs (bp_NetHash P b))))"
proof -
  note w = ban_view_split [OF v]
  define h where "h = bp_NetHash P b"
  have bh: "b \<in> set (hs h)" using w(8) [of h] b by (simp add: h_def)
  have r: "set (remove1 b us) = set us - {b}" "set (remove1 b (hs h)) = set (hs h) - {b}" "b \<notin> set fs" "b \<notin> set (remove1 b us)"
    using w(3,5,7) b by (auto simp: set_remove1_eq)
  define U where "U = unlink b (bucket_list h P)"
  define P1 where "P1 = set_bucket h U P"
  define P2 where "P2 = P1\<lparr>bp_pHashNext := (bp_pHashNext P1)(b := None), bp_pHashPrev := (bp_pHashPrev P1)(b := None)\<rparr>"
  define V where "V = unlink b (used_list P)"
  define P3 where "P3 = set_used V P2"
  define F where "F = push_front b (free_list P3)"
  define P' where "P' = (set_free F P3)\<lparr>bp_CountUsed := bp_CountUsed (set_free F P3) - 1\<rparr>"
  have l1: "used_list P1 = used_list P" "free_list P1 = free_list P" by (simp_all add: P1_def)
  have l2: "used_list P2 = used_list P" "free_list P2 = free_list P" by (simp_all add: P2_def l1)
  have e: "pool_Remove (Some b) P = (0, P')"
    unfolding pool_Remove_def option.case Let_def h_def [symmetric] U_def [symmetric] P1_def [symmetric] P2_def [symmetric] l2
      V_def [symmetric] P3_def [symmetric] F_def [symmetric] P'_def ..
  have fields: "bp_Data P' = bp_Data P" "bp_Info P' = bp_Info P" "bp_NetHash P' = bp_NetHash P" "bp_CountUsed P' = bp_CountUsed P - 1"
    by (simp_all add: P'_def P3_def P2_def P1_def)
  have vv: "dll V (remove1 b us)" "same_links (- set (remove1 b us)) (used_list P) V"
    unfolding V_def by (rule unlink_ok [OF w(1,3) b])+
  have fl: "free_list P3 = (fst V, fst (snd V), bp_pFirstFree P)"
    by (simp add: P3_def) (metis l2(2) list_heads(2))
  have f3: "dll (free_list P3) fs"
    unfolding fl by (rule dll_apart [OF _ vv(2)]) (use w(2,5) r in \<open>auto simp: used_list_def free_list_def\<close>)
  have ff: "dll F (b # fs)" "same_links (- insert b (set fs)) (free_list P3) F"
    unfolding F_def by (rule push_front_ok [OF f3 r(3) w(4)])+
  have ul: "used_list P' = (fst F, fst (snd F), snd (snd V))"
    by (simp add: P'_def) (simp add: P3_def list_heads(1) [symmetric])
  have uu: "dll (used_list P') (remove1 b us)"
    unfolding ul by (rule dll_apart [OF _ ff(2)]) (use vv(1) fl r w(5) in auto)
  have fr: "free_list P' = F" by (simp add: P'_def)
  have ub: "dll U (remove1 b (hs h))" "same_links (- set (remove1 b (hs h))) (bucket_list h P) U"
    unfolding U_def by (rule unlink_ok [OF w(6,7) bh])+
  have bl: "bucket_list k P' = ((fst U)(b := None), (fst (snd U))(b := None), (if k = h then snd (snd U) else bp_HashList P k))" for k
    by (simp add: P'_def P3_def P2_def) (auto simp: P1_def set_bucket_def)
  have hs': "dll (bucket_list k P') ((hs(h := remove1 b (hs h))) k) \<and> distinct ((hs(h := remove1 b (hs h))) k) \<and>
      set ((hs(h := remove1 b (hs h))) k) = {i \<in> set (remove1 b us). bp_NetHash P' i = k}" for k
  proof (cases "k = h")
    case True
    have "dll (bucket_list h P') (remove1 b (hs h))"
      by (rule dll_same [OF ub(1)]) (use r(2) in \<open>auto simp: bl same_links_def\<close>)
    then show ?thesis using True w(7,8) [of h] r by (auto simp: fields)
  next
    case False
    have d: "set (hs k) \<inter> set (remove1 b (hs h)) = {}" "b \<notin> set (hs k)" using False r(2) w(8) [of k] w(8) [of h] h_def by auto
    have "dll (fst U, fst (snd U), bp_HashList P k) (hs k)"
      by (rule dll_apart [OF _ ub(2)]) (use w(6) [of k] d in \<open>auto simp: bucket_list_def\<close>)
    then have "dll (bucket_list k P') (hs k)"
      by (rule dll_same) (use d False in \<open>auto simp: bl same_links_def\<close>)
    then show ?thesis using False w(7,8) [of k] d r by (auto simp: fields)
  qed
  have len: "int (length (remove1 b us)) = int (length us) - 1"
    using b length_pos_if_in_set [OF b] by (simp add: length_remove1 Suc_le_eq of_nat_diff)
  have "ban_view P' (remove1 b us) (b # fs) (hs(h := remove1 b (hs h)))"
    using uu ff(1) hs' v r b len by (auto simp: ban_view_def fields fr)
  then show ?thesis using e fields unfolding h_def by blast
qed

text \<open>An updated ban moves to its new place.\<close>

lemma pool_Update_view:
  assumes v: "ban_view P us fs hs" and b: "b \<in> set us"
  shows "\<exists>P'. pool_Update b info P = Some P' \<and> bp_Data P' = bp_Data P \<and> bp_Info P' = (bp_Info P)(b := info) \<and> bp_NetHash P' = bp_NetHash P \<and>
     ban_view P' (put_before (expires P') b (remove1 b us)) fs hs"
proof -
  note w = ban_view_split [OF v]
  have r: "set (remove1 b us) = set us - {b}" "b \<notin> set fs" "distinct (remove1 b us)"
    using w(3,5) b by (auto simp: set_remove1_eq)
  define P1 where "P1 = P\<lparr>bp_Info := (bp_Info P)(b := info)\<rparr>"
  define V where "V = unlink b (used_list P)"
  define P2 where "P2 = set_used V P1"
  have vv: "dll V (remove1 b us)" "same_links (- set (remove1 b us)) (used_list P) V"
    unfolding V_def by (rule unlink_ok [OF w(1,3) b])+
  have u2: "used_list P2 = V" by (simp add: P2_def)
  obtain l where l: "InsertUsed b P2 = Some (set_used l P2)" "dll l (put_before (expires P2) b (remove1 b us))"
      "same_links (- insert b (set (remove1 b us))) V l"
    using InsertUsed_ok [of P2 "remove1 b us" b] vv(1) r unfolding u2 by auto
  define P' where "P' = set_used l P2"
  have e: "pool_Update b info P = Some P'"
    unfolding pool_Update_def Let_def P1_def [symmetric] P'_def using l(1) by (simp add: P2_def V_def P1_def)
  have fields: "bp_Data P' = bp_Data P" "bp_Info P' = (bp_Info P)(b := info)" "bp_NetHash P' = bp_NetHash P" "bp_CountUsed P' = bp_CountUsed P"
     "expires P' = expires P2" "used_list P' = l" "bucket_list h P' = bucket_list h P" for h
    by (simp_all add: P'_def P2_def P1_def fun_eq_iff expires_def)
  have fl: "free_list P' = (fst l, fst (snd l), bp_pFirstFree P)" by (simp add: P'_def P2_def P1_def)
  have f2: "dll (fst V, fst (snd V), bp_pFirstFree P) fs"
    by (rule dll_apart [OF _ vv(2)]) (use w(2,5) r in \<open>auto simp: used_list_def free_list_def\<close>)
  have ff: "dll (free_list P') fs"
    unfolding fl by (rule dll_apart [OF f2 l(3)]) (use r w(5) in auto)
  have len: "length us = Suc (length (remove1 b us))"
    using b length_pos_if_in_set [OF b] by (simp add: length_remove1)
  have s: "insert b (set us) = set us" using b by auto
  have "ban_view P' (put_before (expires P') b (remove1 b us)) fs hs"
    using l(2) ff v r b len s by (auto simp: ban_view_def fields put_before_distinct)
  then show ?thesis using e fields by blast
qed

lemma find_node_list: "seg nx pv f p xs None \<Longrightarrow> find_node Q nx f = Some (List.find Q xs)"
  by (induction xs arbitrary: f p) (simp_all add: find_node.simps)

lemma get_loop_list: "seg nx pv f p xs None \<Longrightarrow> get_loop nx f (int k) = Some (if k < length xs then Some (xs ! k) else None)"
proof (induction xs arbitrary: f p k)
  case (Cons x xs)
  show ?case
  proof (cases k)
    case (Suc n)
    have "get_loop nx (nx x) (int n) = Some (if n < length xs then Some (xs ! n) else None)"
      using Cons.prems by (intro Cons.IH [of "nx x" "Some x"]) simp
    then show ?thesis using Suc Cons.prems by (subst get_loop.simps) simp
  qed (use Cons in \<open>simp add: get_loop.simps\<close>)
qed (simp add: get_loop.simps)

lemma pool_Find_view: "ban_view P us fs hs \<Longrightarrow> pool_Find cmp d h P = Some (List.find (\<lambda>b. cmp (bp_Data P b) d = 0) (hs h))"
  using find_node_list by (force simp: ban_view_def pool_Find_def bucket_list_def dll_def)

lemma pool_Get_view:
  "ban_view P us fs hs \<Longrightarrow> pool_Get i P = Some (if 0 \<le> i \<and> i < int (length us) then Some (us ! nat i) else None)"
  using get_loop_list [of "bp_pNext P" "bp_pPrev P" "bp_pFirstUsed P" None us "nat i"]
  by (auto simp: ban_view_def pool_Get_def used_list_def dll_def)

lemma seg_upt:
  "m \<le> n \<Longrightarrow> (\<And>i. m \<le> i \<Longrightarrow> i < n \<Longrightarrow> nx i = (if i + 1 < n then Some (i + 1) else None)) \<Longrightarrow>
   (\<And>i. m \<le> i \<Longrightarrow> i < n \<Longrightarrow> pv i = (if 0 < i then Some (i - 1) else None)) \<Longrightarrow>
   seg nx pv (if m < n then Some m else None) (if 0 < m then Some (m - 1) else None) [m..<n] None"
proof (induction "n - m" arbitrary: m)
  case (Suc k)
  then have "[m..<n] = m # [Suc m..<n]" "m < n" "k = n - Suc m" by (auto simp: upt_conv_Cons)
  then show ?case using Suc.hyps(1) [of "Suc m"] Suc.prems by (cases "Suc m < n") simp_all
qed simp

lemma bans_Reset_view: "ban_view (bans_Reset z) [] [0..<MAX_BANS] (\<lambda>h. [])"
proof -
  define P where "P = bans_Reset z"
  have n: "0 < MAX_BANS" by (simp add: MAX_BANS_def)
  have "seg (bp_pNext P) (bp_pPrev P) (if 0 < MAX_BANS then Some 0 else None) (if (0::nat) < 0 then Some (0 - 1) else None) [0..<MAX_BANS] None"
    by (rule seg_upt) (auto simp: P_def bans_Reset_def)
  then have "dll (free_list P) [0..<MAX_BANS]" using n by (simp add: P_def dll_def free_list_def) (simp add: bans_Reset_def)
  then show ?thesis unfolding P_def by (auto simp: ban_view_def dll_def used_list_def bucket_list_def) (simp_all add: bans_Reset_def)
qed

end
