(* ===== verification/NetBan.thy ===== *)
theory NetBan
  imports BanPool
begin

text \<open>
  The ban list of the server (\<open>CNetBan\<close> in engine/shared/netban.h and netban.cpp): banned addresses
  and banned ranges of addresses, each in a pool with a hash table, the operations of the console on
  them, and the check of an incoming address. \<open>time_timestamp\<close> is the argument \<open>Now\<close>; the lines that are
  printed to the console are collected in the state. \<open>None\<close> is a failed assertion, an access outside an
  array, or a loop that does not end.
\<close>

subsection \<open>Comparing addresses and ranges\<close>

text \<open>The bytes of an address in memory up to the port, on a little-endian machine.\<close>

definition addr_memory :: "netaddr \<Rightarrow> bytes" where
  "addr_memory a = map (\<lambda>i. ucast (drop_bit (8 * i) (na_type a))) [0..<4] @ na_ip a"

definition NetComp :: "netaddr \<Rightarrow> netaddr \<Rightarrow> int" where
  "NetComp a b = c_compare uint (if na_type a = NETTYPE_IPV4 then 8 else 20) (addr_memory a) (addr_memory b)"

record net_range =
  nr_LB :: netaddr
  nr_UB :: netaddr

definition IsValidRange :: "net_range \<Rightarrow> bool" where
  "IsValidRange r \<longleftrightarrow> na_type (nr_LB r) = na_type (nr_UB r) \<and> NetComp (nr_LB r) (nr_UB r) < 0"

definition NetComp_range :: "net_range \<Rightarrow> net_range \<Rightarrow> int" where
  "NetComp_range r s = (if NetComp (nr_LB r) (nr_LB s) \<noteq> 0 \<or> NetComp (nr_UB r) (nr_UB s) \<noteq> 0 then 1 else 0)"

definition NetMatch :: "netaddr \<Rightarrow> netaddr \<Rightarrow> bool" where
  "NetMatch a b \<longleftrightarrow> NetComp a b = 0"

definition NetMatch_from :: "net_range \<Rightarrow> netaddr \<Rightarrow> nat \<Rightarrow> nat \<Rightarrow> bool" where
  "NetMatch_from r a Start Length \<longleftrightarrow>
     na_type (nr_LB r) = na_type a \<and> (Start = 0 \<or> c_compare uint Start (na_ip (nr_LB r)) (na_ip a) = 0) \<and>
     c_compare uint (Length - Start) (drop Start (na_ip (nr_LB r))) (drop Start (na_ip a)) \<le> 0 \<and>
     c_compare uint (Length - Start) (drop Start (na_ip (nr_UB r))) (drop Start (na_ip a)) \<ge> 0"

definition NetMatch_range :: "net_range \<Rightarrow> netaddr \<Rightarrow> bool" where
  "NetMatch_range r a = NetMatch_from r a 0 (if na_type (nr_LB r) = NETTYPE_IPV4 then 4 else 16)"

subsection \<open>Hashes\<close>

definition byte_sum :: "bytes \<Rightarrow> nat" where
  "byte_sum s = sum_list (map unat s)"

definition CNetHash_addr :: "netaddr \<Rightarrow> net_hash" where
  "CNetHash_addr a = \<lparr>nh_Hash = byte_sum (take (if na_type a = NETTYPE_IPV4 then 4 else 16) (na_ip a)) mod 256, nh_HashIndex = 0\<rparr>"

text \<open>Sums up the leading bytes that both ends of a range share; \<open>None\<close> if the loop leaves the addresses.\<close>

fun range_hash_loop :: "bytes \<Rightarrow> bytes \<Rightarrow> nat \<Rightarrow> nat \<Rightarrow> net_hash option" where
  "range_hash_loop (x # xs) (y # ys) h i =
     (if x = y then range_hash_loop xs ys (h + unat x) (i + 1) else Some \<lparr>nh_Hash = h mod 256, nh_HashIndex = i\<rparr>)"
| "range_hash_loop _ _ h i = None"

definition CNetHash_range :: "net_range \<Rightarrow> net_hash option" where
  "CNetHash_range r = range_hash_loop (na_ip (nr_LB r)) (na_ip (nr_UB r)) 0 0"

definition MakeHashArray :: "netaddr \<Rightarrow> nat \<times> net_hash list" where
  "MakeHashArray a =
     (let Length = (if na_type a = NETTYPE_IPV4 then 4 else 16) in
      (Length, map (\<lambda>i. \<lparr>nh_Hash = byte_sum (take i (na_ip a)) mod 256, nh_HashIndex = i mod Length\<rparr>) [0..<Length + 1]))"

subsection \<open>Messages\<close>

definition NetToString :: "netaddr \<Rightarrow> nat \<Rightarrow> bytes option" where
  "NetToString a BufferSize = do {
     s \<leftarrow> run (net_addr_str a NETADDR_MAXSTRSIZE False);
     Some (str_copy (lit ''<{'' @ [0x27] @ s @ [0x27] @ lit ''}>'') BufferSize) }"

definition NetToString_range :: "net_range \<Rightarrow> nat \<Rightarrow> bytes option" where
  "NetToString_range r BufferSize = do {
     s \<leftarrow> run (net_addr_str (nr_LB r) NETADDR_MAXSTRSIZE False);
     t \<leftarrow> run (net_addr_str (nr_UB r) NETADDR_MAXSTRSIZE False);
     Some (str_copy (lit ''<{'' @ [0x27] @ s @ [0x27] @ lit '' - '' @ [0x27] @ t @ [0x27] @ lit ''}>'') BufferSize) }"

datatype msgtype = MSGTYPE_PLAYER | MSGTYPE_LIST | MSGTYPE_BANADD | MSGTYPE_BANREM

text \<open>The template parameter of the pools: the functions that are overloaded for the data, and the number of buckets.\<close>

record 'a ban_type =
  bt_Comp :: "'a \<Rightarrow> 'a \<Rightarrow> int"
  bt_Match :: "'a \<Rightarrow> netaddr \<Rightarrow> bool"
  bt_Hash :: "'a \<Rightarrow> net_hash option"
  bt_String :: "'a \<Rightarrow> nat \<Rightarrow> bytes option"
  bt_HashCount :: nat

definition CBanAddrPool :: "netaddr ban_type" where
  "CBanAddrPool = \<lparr>bt_Comp = NetComp, bt_Match = NetMatch, bt_Hash = (\<lambda>a. Some (CNetHash_addr a)), bt_String = NetToString, bt_HashCount = 1\<rparr>"

definition CBanRangePool :: "net_range ban_type" where
  "CBanRangePool = \<lparr>bt_Comp = NetComp_range, bt_Match = NetMatch_range, bt_Hash = CNetHash_range, bt_String = NetToString_range, bt_HashCount = 16\<rparr>"

text \<open>The hash of the data, as an index into the array of buckets.\<close>

definition hash_of :: "'a ban_type \<Rightarrow> 'a \<Rightarrow> net_hash option" where
  "hash_of T d = (case bt_Hash T d of None \<Rightarrow> None
     | Some h \<Rightarrow> if nh_HashIndex h < bt_HashCount T \<and> nh_Hash h < 256 then Some h else None)"

definition MakeBanInfo :: "'a ban_type \<Rightarrow> int \<Rightarrow> 'a \<Rightarrow> ban_info \<Rightarrow> nat \<Rightarrow> msgtype \<Rightarrow> bytes option" where
  "MakeBanInfo T Now d info BuffSize ty = do {
     aBuf \<leftarrow> (case ty of MSGTYPE_PLAYER \<Rightarrow> Some (lit ''You have been banned'')
       | MSGTYPE_LIST \<Rightarrow> map_option (\<lambda>s. str_copy (s @ lit '' banned'') 256) (bt_String T d 256)
       | MSGTYPE_BANADD \<Rightarrow> map_option (\<lambda>s. str_copy (lit ''banned '' @ s) 256) (bt_String T d 256)
       | MSGTYPE_BANREM \<Rightarrow> map_option (\<lambda>s. str_copy (lit ''unbanned '' @ s) 256) (bt_String T d 256));
     Some (str_copy
       (if \<not> bi_VerbatimReason info \<and> bi_Expires info \<noteq> EXPIRES_NEVER then
          let Mins = to_i32 (c_div (bi_Expires info - Now + 59) 60) in
          if Mins \<le> 1 then aBuf @ lit '' for 1 minute ('' @ bi_aReason info @ lit '')''
          else aBuf @ lit '' for '' @ int_text Mins @ lit '' minutes ('' @ bi_aReason info @ lit '')''
        else aBuf @ lit '' ('' @ bi_aReason info @ lit '')'') BuffSize) }"

subsection \<open>Banning and unbanning\<close>

record net_ban =
  nb_BanAddrPool :: "netaddr ban_pool"
  nb_BanRangePool :: "net_range ban_pool"
  nb_LocalhostIpV4 :: netaddr
  nb_LocalhostIpV6 :: netaddr
  nb_Console :: "bytes list"

definition Print :: "bytes \<Rightarrow> net_ban \<Rightarrow> net_ban" where
  "Print s N = N\<lparr>nb_Console := nb_Console N @ [s]\<rparr>"

text \<open>The templates give the return code, the pool and the line they print.\<close>

definition Ban :: "'a ban_type \<Rightarrow> int \<Rightarrow> net_ban \<Rightarrow> 'a \<Rightarrow> int \<Rightarrow> bytes \<Rightarrow> bool \<Rightarrow> 'a ban_pool \<Rightarrow> (int \<times> 'a ban_pool \<times> bytes) option" where
  "Ban T Now N d Seconds pReason VerbatimReason P =
     (if bt_Match T d (nb_LocalhostIpV4 N) \<or> bt_Match T d (nb_LocalhostIpV6 N) then Some (- 1, P, lit ''ban failed (localhost)'')
      else
        let Stamp = (if Seconds > 0 then Now + Seconds else EXPIRES_NEVER);
            Info = \<lparr>bi_Expires = Stamp, bi_aReason = str_copy pReason REASON_LENGTH, bi_VerbatimReason = VerbatimReason\<rparr> in do {
        NetHash \<leftarrow> hash_of T d;
        pBan \<leftarrow> pool_Find (bt_Comp T) d NetHash P;
        (case pBan of
           Some b \<Rightarrow> do {
             P1 \<leftarrow> pool_Update b Info P;
             m \<leftarrow> MakeBanInfo T Now (bp_Data P1 b) (bp_Info P1 b) 256 MSGTYPE_LIST;
             Some (1, P1, m) }
         | None \<Rightarrow> do {
             (r, P1) \<leftarrow> pool_Add d Info NetHash P;
             (case r of
                Some b \<Rightarrow> do { m \<leftarrow> MakeBanInfo T Now (bp_Data P1 b) (bp_Info P1 b) 256 MSGTYPE_BANADD; Some (0, P1, m) }
              | None \<Rightarrow> Some (- 1, P1, lit ''ban failed (full banlist)'')) }) })"

definition Unban :: "'a ban_type \<Rightarrow> int \<Rightarrow> 'a \<Rightarrow> 'a ban_pool \<Rightarrow> (int \<times> 'a ban_pool \<times> bytes) option" where
  "Unban T Now d P = do {
     NetHash \<leftarrow> hash_of T d;
     pBan \<leftarrow> pool_Find (bt_Comp T) d NetHash P;
     (case pBan of
        Some b \<Rightarrow> do {
          m \<leftarrow> MakeBanInfo T Now (bp_Data P b) (bp_Info P b) 256 MSGTYPE_BANREM;
          Some (0, snd (pool_Remove (Some b) P), m) }
      | None \<Rightarrow> Some (- 1, P, lit ''unban failed (invalid entry)'')) }"

definition net_Init :: "(bytes \<Rightarrow> bool option \<Rightarrow> sockaddr option) \<Rightarrow> net_ban \<Rightarrow> net_ban" where
  "net_Init getaddrinfo N =
     (let N1 = N\<lparr>nb_BanAddrPool := bans_Reset NETADDR_ZEROED, nb_BanRangePool := bans_Reset \<lparr>nr_LB = NETADDR_ZEROED, nr_UB = NETADDR_ZEROED\<rparr>\<rparr>;
          N2 = (case net_host_lookup getaddrinfo (lit ''localhost'') (nb_LocalhostIpV4 N1) NETTYPE_IPV4 of
             None \<Rightarrow> N1 | Some a \<Rightarrow> N1\<lparr>nb_LocalhostIpV4 := a\<rparr>) in
      (case net_host_lookup getaddrinfo (lit ''localhost'') (nb_LocalhostIpV6 N2) NETTYPE_IPV6 of
             None \<Rightarrow> N2 | Some a \<Rightarrow> N2\<lparr>nb_LocalhostIpV6 := a\<rparr>))"

definition BanAddr :: "int \<Rightarrow> netaddr \<Rightarrow> int \<Rightarrow> bytes \<Rightarrow> bool \<Rightarrow> net_ban \<Rightarrow> (int \<times> net_ban) option" where
  "BanAddr Now a Seconds pReason VerbatimReason N = do {
     (r, P, m) \<leftarrow> Ban CBanAddrPool Now N a Seconds pReason VerbatimReason (nb_BanAddrPool N);
     Some (r, Print m (N\<lparr>nb_BanAddrPool := P\<rparr>)) }"

definition BanRange :: "int \<Rightarrow> net_range \<Rightarrow> int \<Rightarrow> bytes \<Rightarrow> net_ban \<Rightarrow> (int \<times> net_ban) option" where
  "BanRange Now r Seconds pReason N =
     (if IsValidRange r then do {
        (c, P, m) \<leftarrow> Ban CBanRangePool Now N r Seconds pReason False (nb_BanRangePool N);
        Some (c, Print m (N\<lparr>nb_BanRangePool := P\<rparr>)) }
      else Some (- 1, Print (lit ''ban failed (invalid range)'') N))"

definition UnbanByAddr :: "int \<Rightarrow> netaddr \<Rightarrow> net_ban \<Rightarrow> (int \<times> net_ban) option" where
  "UnbanByAddr Now a N = do {
     (r, P, m) \<leftarrow> Unban CBanAddrPool Now a (nb_BanAddrPool N);
     Some (r, Print m (N\<lparr>nb_BanAddrPool := P\<rparr>)) }"

definition UnbanByRange :: "int \<Rightarrow> net_range \<Rightarrow> net_ban \<Rightarrow> (int \<times> net_ban) option" where
  "UnbanByRange Now r N =
     (if IsValidRange r then do {
        (c, P, m) \<leftarrow> Unban CBanRangePool Now r (nb_BanRangePool N);
        Some (c, Print m (N\<lparr>nb_BanRangePool := P\<rparr>)) }
      else Some (- 1, Print (lit ''ban failed (invalid range)'') N))"

definition unbanned_index :: "int \<Rightarrow> bytes \<Rightarrow> bytes" where
  "unbanned_index Index s = str_copy (lit ''unbanned index '' @ int_text Index @ lit '' ('' @ s @ lit '')'') 256"

definition UnbanByIndex :: "int \<Rightarrow> net_ban \<Rightarrow> (int \<times> net_ban) option" where
  "UnbanByIndex Index N = do {
     pBan \<leftarrow> pool_Get Index (nb_BanAddrPool N);
     (case pBan of
        Some b \<Rightarrow> do {
          s \<leftarrow> NetToString (bp_Data (nb_BanAddrPool N) b) 256;
          let (Result, P) = pool_Remove (Some b) (nb_BanAddrPool N) in
          Some (Result, Print (unbanned_index Index s) (N\<lparr>nb_BanAddrPool := P\<rparr>)) }
      | None \<Rightarrow> do {
          pBanRange \<leftarrow> pool_Get (Index - bp_CountUsed (nb_BanAddrPool N)) (nb_BanRangePool N);
          (case pBanRange of
             Some b \<Rightarrow> do {
               s \<leftarrow> NetToString_range (bp_Data (nb_BanRangePool N) b) 256;
               let (Result, P) = pool_Remove (Some b) (nb_BanRangePool N) in
               Some (Result, Print (unbanned_index Index s) (N\<lparr>nb_BanRangePool := P\<rparr>)) }
           | None \<Rightarrow> Some (- 1, Print (lit ''unban failed (invalid index)'') N)) }) }"

definition UnbanAll :: "net_ban \<Rightarrow> net_ban" where
  "UnbanAll N = N\<lparr>nb_BanAddrPool := bans_Reset NETADDR_ZEROED, nb_BanRangePool := bans_Reset \<lparr>nr_LB = NETADDR_ZEROED, nr_UB = NETADDR_ZEROED\<rparr>\<rparr>"

subsection \<open>Expiry\<close>

definition is_expired :: "int \<Rightarrow> int \<Rightarrow> bool" where
  "is_expired Now e \<longleftrightarrow> e \<noteq> EXPIRES_NEVER \<and> e < Now"

partial_function (option) expire_bans :: "'a ban_type \<Rightarrow> int \<Rightarrow> 'a ban_pool \<Rightarrow> bytes list \<Rightarrow> ('a ban_pool \<times> bytes list) option" where
  "expire_bans T Now P out =
     (case bp_pFirstUsed P of None \<Rightarrow> Some (P, out)
      | Some b \<Rightarrow>
          if is_expired Now (bi_Expires (bp_Info P b)) then
            (case bt_String T (bp_Data P b) 256 of None \<Rightarrow> None
             | Some s \<Rightarrow> expire_bans T Now (snd (pool_Remove (Some b) P)) (out @ [str_copy (lit ''ban '' @ s @ lit '' expired'') 256]))
          else Some (P, out))"

declare expire_bans.simps [code]

definition net_Update :: "int \<Rightarrow> net_ban \<Rightarrow> net_ban option" where
  "net_Update Now N = do {
     (P, out) \<leftarrow> expire_bans CBanAddrPool Now (nb_BanAddrPool N) (nb_Console N);
     (R, out1) \<leftarrow> expire_bans CBanRangePool Now (nb_BanRangePool N) out;
     Some (N\<lparr>nb_BanAddrPool := P, nb_BanRangePool := R, nb_Console := out1\<rparr>) }"

subsection \<open>The check of an address\<close>

definition plain_addr :: "netaddr \<Rightarrow> netaddr" where
  "plain_addr a =
     (if na_type a = NETTYPE_WEBSOCKET_IPV4 then a\<lparr>na_type := NETTYPE_IPV4\<rparr>
      else if na_type a = NETTYPE_WEBSOCKET_IPV6 then a\<lparr>na_type := NETTYPE_IPV6\<rparr> else a)"

text \<open>The buckets of ranges for the prefixes of the address, from the longest.\<close>

fun match_ranges :: "netaddr \<Rightarrow> nat \<Rightarrow> net_hash list \<Rightarrow> net_range ban_pool \<Rightarrow> nat \<Rightarrow> nat option option" where
  "match_ranges a Length aHash P 0 = Some None"
| "match_ranges a Length aHash P (Suc i) =
     (case find_node (\<lambda>b. NetMatch_from (bp_Data P b) a i Length) (bp_pHashNext P) (bp_HashList P (aHash ! i)) of
        None \<Rightarrow> None
      | Some (Some b) \<Rightarrow> Some (Some b)
      | Some None \<Rightarrow> match_ranges a Length aHash P i)"

text \<open>The message for the player if the address is banned.\<close>

definition IsBanned :: "int \<Rightarrow> netaddr \<Rightarrow> nat \<Rightarrow> net_ban \<Rightarrow> bytes option option" where
  "IsBanned Now pOrigAddr BufferSize N =
     (let pAddr = plain_addr pOrigAddr; (Length, aHash) = MakeHashArray pAddr in do {
      pBan \<leftarrow> pool_Find NetComp pAddr (aHash ! Length) (nb_BanAddrPool N);
      (case pBan of
         Some b \<Rightarrow> map_option Some (MakeBanInfo CBanAddrPool Now (bp_Data (nb_BanAddrPool N) b) (bp_Info (nb_BanAddrPool N) b) BufferSize MSGTYPE_PLAYER)
       | None \<Rightarrow> do {
           pBanRange \<leftarrow> match_ranges pAddr Length aHash (nb_BanRangePool N) Length;
           (case pBanRange of
              Some b \<Rightarrow> map_option Some (MakeBanInfo CBanRangePool Now (bp_Data (nb_BanRangePool N) b) (bp_Info (nb_BanRangePool N) b) BufferSize MSGTYPE_PLAYER)
            | None \<Rightarrow> Some None) }) })"

subsection \<open>The console commands\<close>

text \<open>The arguments are a list of strings. An integer argument counts only if the number is the whole string,
  and is 0 otherwise; a missing argument is empty. A number of minutes is clamped to a year.\<close>

definition str_toint_all :: "bytes \<Rightarrow> int option" where
  "str_toint_all s =
     (let t = dropWhile c_isspace s;
          u = (if c_at t = 0x2D \<or> c_at t = 0x2B then tl t else t);
          pEnd = (if str_isnum (c_at u) then dropWhile str_isnum u else s)
      in if c_at pEnd = 0 then Some (str_toint s) else None)"

definition CResult_GetString :: "bytes list \<Rightarrow> nat \<Rightarrow> bytes" where
  "CResult_GetString args Index = (if Index \<ge> length args then [] else args ! Index)"

definition CResult_GetInteger :: "bytes list \<Rightarrow> nat \<Rightarrow> int" where
  "CResult_GetInteger args Index =
     (if Index \<ge> length args then 0 else case str_toint_all (args ! Index) of Some Out \<Rightarrow> Out | None \<Rightarrow> 0)"

definition minutes_arg :: "bytes list \<Rightarrow> nat \<Rightarrow> int \<Rightarrow> int" where
  "minutes_arg args i preset = (if length args > i then max 0 (min (CResult_GetInteger args i) 525600) else preset)"

definition range_of_args :: "(bytes \<Rightarrow> bytes option) \<Rightarrow> bytes list \<Rightarrow> net_range option" where
  "range_of_args inet_pton args = do {
     lb \<leftarrow> run (net_addr_from_str inet_pton (CResult_GetString args 0));
     ub \<leftarrow> run (net_addr_from_str inet_pton (CResult_GetString args 1));
     Some \<lparr>nr_LB = lb, nr_UB = ub\<rparr> }"

definition ConBanRange :: "(bytes \<Rightarrow> bytes option) \<Rightarrow> int \<Rightarrow> bytes list \<Rightarrow> net_ban \<Rightarrow> net_ban option" where
  "ConBanRange inet_pton Now args N =
     (case range_of_args inet_pton args of
        Some r \<Rightarrow> map_option snd (BanRange Now r (minutes_arg args 2 30 * 60) (if length args > 3 then CResult_GetString args 3 else lit ''No reason given'') N)
      | None \<Rightarrow> Some (Print (lit ''ban error (invalid range)'') N))"

definition ConUnban :: "(bytes \<Rightarrow> bytes option) \<Rightarrow> int \<Rightarrow> bytes list \<Rightarrow> net_ban \<Rightarrow> net_ban option" where
  "ConUnban inet_pton Now args N =
     (let pStr = CResult_GetString args 0 in
      if str_isallnum pStr then map_option snd (UnbanByIndex (str_toint pStr) N)
      else case run (net_addr_from_str inet_pton pStr) of
        Some a \<Rightarrow> map_option snd (UnbanByAddr Now a N)
      | None \<Rightarrow> Some (Print (lit ''unban error (invalid network address)'') N))"

definition ConUnbanRange :: "(bytes \<Rightarrow> bytes option) \<Rightarrow> int \<Rightarrow> bytes list \<Rightarrow> net_ban \<Rightarrow> net_ban option" where
  "ConUnbanRange inet_pton Now args N =
     (case range_of_args inet_pton args of
        Some r \<Rightarrow> map_option snd (UnbanByRange Now r N)
      | None \<Rightarrow> Some (Print (lit ''unban error (invalid range)'') N))"

definition ConUnbanAll :: "net_ban \<Rightarrow> net_ban" where
  "ConUnbanAll N = Print (lit ''unbanned all entries'') (UnbanAll N)"

subsection \<open>A pool as a list of bans\<close>

text \<open>A ban as its data and its info; the specifications of the operations on the list of all bans.\<close>

type_synonym 'a entry = "'a \<times> ban_info"

definition entry_of :: "'a ban_pool \<Rightarrow> nat \<Rightarrow> 'a entry" where
  "entry_of P i = (bp_Data P i, bp_Info P i)"

definition entry_expires :: "'a entry \<Rightarrow> int" where
  "entry_expires x = bi_Expires (snd x)"

definition spec_find :: "'a ban_type \<Rightarrow> 'a \<Rightarrow> 'a entry list \<Rightarrow> 'a entry option" where
  "spec_find T d L = List.find (\<lambda>x. bt_Comp T (fst x) d = 0) L"

definition spec_Ban :: "'a ban_type \<Rightarrow> 'a \<Rightarrow> ban_info \<Rightarrow> 'a entry list \<Rightarrow> int \<times> 'a entry list" where
  "spec_Ban T d info L =
     (case spec_find T d L of
        Some x \<Rightarrow> (1, put_before entry_expires (fst x, info) (remove1 x L))
      | None \<Rightarrow> if length L < MAX_BANS then (0, put_before entry_expires (d, info) L) else (- 1, L))"

definition spec_Unban :: "'a ban_type \<Rightarrow> 'a \<Rightarrow> 'a entry list \<Rightarrow> int \<times> 'a entry list" where
  "spec_Unban T d L = (case spec_find T d L of Some x \<Rightarrow> (0, remove1 x L) | None \<Rightarrow> (- 1, L))"

text \<open>The pool holds these bans, for data that is in use.\<close>

definition pool_bans :: "'a ban_type \<Rightarrow> ('a \<Rightarrow> bool) \<Rightarrow> 'a ban_pool \<Rightarrow> nat list \<Rightarrow> bool" where
  "pool_bans T ok P us \<longleftrightarrow>
     (\<exists>fs hs. ban_view P us fs hs) \<and> by_expiry (expires P) us \<and>
     (\<forall>i \<in> set us. ok (bp_Data P i) \<and> hash_of T (bp_Data P i) = Some (bp_NetHash P i)) \<and>
     (\<forall>i \<in> set us. \<forall>j \<in> set us. i \<noteq> j \<longrightarrow> bt_Comp T (bp_Data P i) (bp_Data P j) \<noteq> 0)"

definition bans_are :: "'a ban_type \<Rightarrow> ('a \<Rightarrow> bool) \<Rightarrow> 'a ban_pool \<Rightarrow> 'a entry list \<Rightarrow> bool" where
  "bans_are T ok P L \<longleftrightarrow> (\<exists>us. pool_bans T ok P us \<and> L = map (entry_of P) us)"

lemma expires_entry: "entry_expires \<circ> entry_of P = expires P"
  by (simp add: fun_eq_iff entry_expires_def entry_of_def expires_def)

lemma remove1_entries:
  "distinct us \<Longrightarrow> b \<in> set us \<Longrightarrow> (\<And>i. i \<in> set us \<Longrightarrow> i \<noteq> b \<Longrightarrow> f i \<noteq> f b) \<Longrightarrow> map f (remove1 b us) = remove1 (f b) (map f us)"
proof (induction us)
  case (Cons a us)
  show ?case
  proof (cases "a = b")
    case False
    then have "f a \<noteq> f b" "f b \<noteq> f a" using Cons.prems(3) [of a] by auto
    then show ?thesis using Cons False by simp
  qed simp
qed simp

lemma find_SomeD: "List.find Q xs = Some x \<Longrightarrow> x \<in> set xs \<and> Q x"
  by (induction xs) (auto split: if_splits)

lemma find_NoneD: "List.find Q xs = None \<Longrightarrow> \<forall>x \<in> set xs. \<not> Q x"
  by (simp add: find_None_iff)

lemma find_unique:
  assumes "x \<in> set xs" "Q x" "\<And>y. y \<in> set xs \<Longrightarrow> Q y \<Longrightarrow> y = x"
  shows "List.find Q xs = Some x"
proof (cases "List.find Q xs")
  case None
  then show ?thesis using find_NoneD [OF None] assms(1,2) by blast
next
  case (Some y)
  then show ?thesis using find_SomeD [OF Some] assms(3) by blast
qed

lemma find_map: "List.find Q (map f xs) = map_option f (List.find (Q \<circ> f) xs)"
  by (induction xs) auto

text \<open>What the operations need of the data: the comparison is an equivalence, equal data has the same hash,
  and it can be printed.\<close>

locale ban_kind =
  fixes T :: "'a ban_type" and ok :: "'a \<Rightarrow> bool"
  assumes comp_refl: "ok x \<Longrightarrow> bt_Comp T x x = 0"
    and comp_sym: "ok x \<Longrightarrow> ok y \<Longrightarrow> bt_Comp T x y = 0 \<Longrightarrow> bt_Comp T y x = 0"
    and comp_trans: "ok x \<Longrightarrow> ok y \<Longrightarrow> ok z \<Longrightarrow> bt_Comp T x y = 0 \<Longrightarrow> bt_Comp T y z = 0 \<Longrightarrow> bt_Comp T x z = 0"
    and hash_some: "ok x \<Longrightarrow> \<exists>h. hash_of T x = Some h"
    and hash_same: "ok x \<Longrightarrow> ok y \<Longrightarrow> bt_Comp T x y = 0 \<Longrightarrow> hash_of T x = hash_of T y"
    and string_some: "ok x \<Longrightarrow> \<exists>s. bt_String T x n = Some s"
begin

text \<open>The hash table finds what a search of the list would find.\<close>

lemma Find_ok:
  assumes p: "pool_bans T ok P us" and d: "ok d" and h: "hash_of T d = Some h"
  shows "pool_Find (bt_Comp T) d h P = Some (List.find (\<lambda>i. bt_Comp T (bp_Data P i) d = 0) us)"
proof -
  obtain fs hs where v: "ban_view P us fs hs" using p by (auto simp: pool_bans_def)
  have s: "set (hs h) = {i \<in> set us. bp_NetHash P i = h}" using v by (simp add: ban_view_def)
  have eq: "i = j" if "i \<in> set us" "j \<in> set us" "bt_Comp T (bp_Data P i) d = 0" "bt_Comp T (bp_Data P j) d = 0" for i j
    using p that d comp_trans [of "bp_Data P i" d "bp_Data P j"] comp_sym [of "bp_Data P j" d] unfolding pool_bans_def by blast
  have inh: "i \<in> set (hs h)" if "i \<in> set us" "bt_Comp T (bp_Data P i) d = 0" for i
    using p that hash_same [of "bp_Data P i" d] d h unfolding pool_bans_def s by auto
  have "List.find (\<lambda>i. bt_Comp T (bp_Data P i) d = 0) (hs h) = List.find (\<lambda>i. bt_Comp T (bp_Data P i) d = 0) us"
  proof (cases "List.find (\<lambda>i. bt_Comp T (bp_Data P i) d = 0) us")
    case None
    then show ?thesis unfolding None find_None_iff using find_NoneD [OF None] s by blast
  next
    case (Some i)
    then have i: "i \<in> set us" "bt_Comp T (bp_Data P i) d = 0" using find_SomeD by fastforce+
    show ?thesis unfolding Some by (rule find_unique) (use i inh eq s in auto)
  qed
  then show ?thesis using pool_Find_view [OF v] by simp
qed

lemma find_entries:
  "spec_find T d (map (entry_of P) us) = map_option (entry_of P) (List.find (\<lambda>i. bt_Comp T (bp_Data P i) d = 0) us)"
  by (simp add: spec_find_def find_map comp_def entry_of_def)

lemma entries_differ:
  "pool_bans T ok P us \<Longrightarrow> i \<in> set us \<Longrightarrow> b \<in> set us \<Longrightarrow> i \<noteq> b \<Longrightarrow> entry_of P i \<noteq> entry_of P b"
  using comp_refl unfolding pool_bans_def entry_of_def by (metis fst_conv)

lemma info_text: "ok d \<Longrightarrow> \<exists>m. MakeBanInfo T Now d info n ty = Some m"
  using string_some [of d 256] by (cases ty) (auto simp: MakeBanInfo_def)

end

lemma by_expiry_cong: "by_expiry e xs \<Longrightarrow> (\<And>x. x \<in> set xs \<Longrightarrow> e' x = e x) \<Longrightarrow> by_expiry e' xs"
  unfolding by_expiry_def by (rule sorted_wrt_mono_rel) auto

lemma by_expiry_map: "by_expiry e (map f xs) = by_expiry (e \<circ> f) xs"
  by (simp add: by_expiry_def sorted_wrt_map)

lemma by_expiry_remove1: "by_expiry e xs \<Longrightarrow> by_expiry e (remove1 b xs)"
proof (induction xs)
  case (Cons x xs)
  then show ?case using set_remove1_subset [of b xs] by (auto simp: by_expiry_def)
qed (simp add: by_expiry_def)

lemma view_length: "ban_view P us fs hs \<Longrightarrow> length us + length fs = MAX_BANS"
  using distinct_card [of "us @ fs"] by (simp add: ban_view_def)

context ban_kind
begin

lemma add_bans:
  assumes p: "pool_bans T ok P us" and d: "ok d" "hash_of T d = Some h" and new: "\<And>i. i \<in> set us \<Longrightarrow> bt_Comp T (bp_Data P i) d \<noteq> 0"
    and l: "length us < MAX_BANS"
  shows "\<exists>b P' us'. pool_Add d info h P = Some (Some b, P') \<and> pool_bans T ok P' us' \<and> bp_Data P' b = d \<and> bp_Info P' b = info \<and>
     map (entry_of P') us' = put_before entry_expires (d, info) (map (entry_of P) us)"
proof -
  obtain fs hs where v: "ban_view P us fs hs" using p by (auto simp: pool_bans_def)
  obtain b fs' where fs: "fs = b # fs'" using view_length [OF v] l by (cases fs) auto
  have b: "b \<notin> set us" using v by (auto simp: ban_view_def fs)
  obtain P' where P': "pool_Add d info h P = Some (Some b, P')" "bp_Data P' = (bp_Data P)(b := d)" "bp_Info P' = (bp_Info P)(b := info)"
      "bp_NetHash P' = (bp_NetHash P)(b := h)" "ban_view P' (put_before (expires P') b us) fs' (hs(h := b # hs h))"
    using pool_Add_view [OF v [unfolded fs]] by blast
  have new': "\<forall>i \<in> set us. bt_Comp T d (bp_Data P i) \<noteq> 0" using new comp_sym [OF d(1)] p unfolding pool_bans_def by blast
  have ex: "by_expiry (expires P') us"
    by (rule by_expiry_cong [of "expires P"]) (use p b in \<open>auto simp: pool_bans_def expires_def P'(3)\<close>)
  have e: "map (entry_of P') us = map (entry_of P) us" using b by (auto simp: entry_of_def P'(2,3))
  have "pool_bans T ok P' (put_before (expires P') b us)"
    unfolding pool_bans_def
  proof (intro conjI)
    show "\<exists>fs hs. ban_view P' (put_before (expires P') b us) fs hs" using P'(5) by blast
    show "by_expiry (expires P') (put_before (expires P') b us)" by (rule put_before_sorted [OF ex])
    show "\<forall>i \<in> set (put_before (expires P') b us). ok (bp_Data P' i) \<and> hash_of T (bp_Data P' i) = Some (bp_NetHash P' i)"
      using p d by (auto simp: pool_bans_def P'(2,4))
    show "\<forall>i \<in> set (put_before (expires P') b us). \<forall>j \<in> set (put_before (expires P') b us). i \<noteq> j \<longrightarrow> bt_Comp T (bp_Data P' i) (bp_Data P' j) \<noteq> 0"
      using p new new' unfolding pool_bans_def by (auto simp: P'(2))
  qed
  moreover have "map (entry_of P') (put_before (expires P') b us) = put_before entry_expires (d, info) (map (entry_of P) us)"
    using put_before_map [of entry_expires "entry_of P'" b us] by (simp add: expires_entry e entry_of_def [of P' b] P'(2,3))
  ultimately show ?thesis using P' by auto
qed

lemma remove_bans:
  assumes p: "pool_bans T ok P us" and b: "b \<in> set us"
  shows "\<exists>P'. pool_Remove (Some b) P = (0, P') \<and> pool_bans T ok P' (remove1 b us) \<and>
     map (entry_of P') (remove1 b us) = remove1 (entry_of P b) (map (entry_of P) us)"
proof -
  obtain fs hs where v: "ban_view P us fs hs" using p by (auto simp: pool_bans_def)
  have d: "distinct us" using v by (simp add: ban_view_def)
  obtain P' where P': "pool_Remove (Some b) P = (0, P')" "bp_Data P' = bp_Data P" "bp_Info P' = bp_Info P" "bp_NetHash P' = bp_NetHash P"
      "\<exists>hs'. ban_view P' (remove1 b us) (b # fs) hs'"
    using pool_Remove_view [OF v b] by blast
  have "expires P' = expires P" by (simp add: fun_eq_iff expires_def P'(3))
  then have "pool_bans T ok P' (remove1 b us)"
    using p P'(5) d by (auto simp: pool_bans_def P'(2,4) by_expiry_remove1 set_remove1_eq)
  moreover have "entry_of P' = entry_of P" by (simp add: fun_eq_iff entry_of_def P'(2,3))
  moreover have "map (entry_of P) (remove1 b us) = remove1 (entry_of P b) (map (entry_of P) us)"
    by (rule remove1_entries [OF d b]) (use entries_differ [OF p _ b] in blast)
  ultimately show ?thesis using P'(1) by auto
qed

lemma update_bans:
  assumes p: "pool_bans T ok P us" and b: "b \<in> set us"
  shows "\<exists>P' us'. pool_Update b info P = Some P' \<and> pool_bans T ok P' us' \<and> bp_Data P' = bp_Data P \<and> bp_Info P' b = info \<and>
     map (entry_of P') us' = put_before entry_expires (bp_Data P b, info) (remove1 (entry_of P b) (map (entry_of P) us))"
proof -
  obtain fs hs where v: "ban_view P us fs hs" using p by (auto simp: pool_bans_def)
  have d: "distinct us" using v by (simp add: ban_view_def)
  obtain P' where P': "pool_Update b info P = Some P'" "bp_Data P' = bp_Data P" "bp_Info P' = (bp_Info P)(b := info)" "bp_NetHash P' = bp_NetHash P"
      "ban_view P' (put_before (expires P') b (remove1 b us)) fs hs"
    using pool_Update_view [OF v b] by blast
  have r: "set (remove1 b us) = set us - {b}" using d by simp
  then have s: "set (put_before e b (remove1 b us)) = set us" for e using b by auto
  have ex: "by_expiry (expires P') (remove1 b us)"
    by (rule by_expiry_cong [of "expires P"]) (use p r in \<open>auto simp: pool_bans_def expires_def P'(3) by_expiry_remove1\<close>)
  have e: "map (entry_of P') (remove1 b us) = map (entry_of P) (remove1 b us)" using r by (auto simp: entry_of_def P'(2,3))
  have "pool_bans T ok P' (put_before (expires P') b (remove1 b us))"
    using p P'(5) put_before_sorted [OF ex, of b] unfolding pool_bans_def s P'(2,4) by blast
  moreover have "map (entry_of P') (put_before (expires P') b (remove1 b us)) =
      put_before entry_expires (bp_Data P b, info) (map (entry_of P) (remove1 b us))"
    using put_before_map [of entry_expires "entry_of P'" b "remove1 b us"] by (simp add: expires_entry e entry_of_def [of P' b] P'(2,3))
  moreover have "map (entry_of P) (remove1 b us) = remove1 (entry_of P b) (map (entry_of P) us)"
    by (rule remove1_entries [OF d b]) (use entries_differ [OF p _ b] in blast)
  ultimately show ?thesis using P' by auto
qed

end

text \<open>In a sorted list the expired bans come first.\<close>

lemma expired_first:
  "by_expiry e xs \<Longrightarrow> dropWhile (\<lambda>x. is_expired Now (e x)) xs = filter (\<lambda>x. \<not> is_expired Now (e x)) xs"
proof (induction xs)
  case (Cons x xs)
  show ?case
  proof (cases "is_expired Now (e x)")
    case False
    have "\<not> is_expired Now (e y)" if "y \<in> set xs" for y
      using Cons.prems that False by (auto simp: by_expiry_def goes_before_def is_expired_def)
    then show ?thesis using False by (simp add: filter_id_conv)
  qed (use Cons in \<open>simp add: by_expiry_def\<close>)
qed simp

definition live_bans :: "int \<Rightarrow> 'a entry list \<Rightarrow> 'a entry list" where
  "live_bans Now L = filter (\<lambda>x. \<not> is_expired Now (entry_expires x)) L"

definition new_info :: "int \<Rightarrow> int \<Rightarrow> bytes \<Rightarrow> bool \<Rightarrow> ban_info" where
  "new_info Now Seconds pReason VerbatimReason =
     \<lparr>bi_Expires = (if Seconds > 0 then Now + Seconds else EXPIRES_NEVER), bi_aReason = str_copy pReason REASON_LENGTH,
       bi_VerbatimReason = VerbatimReason\<rparr>"

context ban_kind
begin

lemma Ban_ok:
  assumes p: "bans_are T ok P L" and d: "ok d"
    and l: "\<not> bt_Match T d (nb_LocalhostIpV4 N)" "\<not> bt_Match T d (nb_LocalhostIpV6 N)"
  shows "\<exists>r P' m. Ban T Now N d Seconds pReason v P = Some (r, P', m) \<and> r = fst (spec_Ban T d (new_info Now Seconds pReason v) L) \<and>
     bans_are T ok P' (snd (spec_Ban T d (new_info Now Seconds pReason v) L))"
proof -
  obtain us where us: "pool_bans T ok P us" "L = map (entry_of P) us" using p by (auto simp: bans_are_def)
  obtain h where h: "hash_of T d = Some h" using hash_some [OF d] by blast
  define info where "info = new_info Now Seconds pReason v"
  have B: "Ban T Now N d Seconds pReason v P =
      (case List.find (\<lambda>i. bt_Comp T (bp_Data P i) d = 0) us of
         Some b \<Rightarrow> do {
           P1 \<leftarrow> pool_Update b info P;
           m \<leftarrow> MakeBanInfo T Now (bp_Data P1 b) (bp_Info P1 b) 256 MSGTYPE_LIST;
           Some (1, P1, m) }
       | None \<Rightarrow> do {
           (r, P1) \<leftarrow> pool_Add d info h P;
           (case r of
              Some b \<Rightarrow> do { m \<leftarrow> MakeBanInfo T Now (bp_Data P1 b) (bp_Info P1 b) 256 MSGTYPE_BANADD; Some (0, P1, m) }
            | None \<Rightarrow> Some (- 1, P1, lit ''ban failed (full banlist)'')) })"
    using l unfolding info_def new_info_def
    by (simp only: Ban_def Let_def h Find_ok [OF us(1) d h] bind.bind_lunit simp_thms if_False)
  show ?thesis
  proof (cases "List.find (\<lambda>i. bt_Comp T (bp_Data P i) d = 0) us")
    case (Some b)
    have b: "b \<in> set us" using find_SomeD [OF Some] by blast
    obtain P' us' where u: "pool_Update b info P = Some P'" "pool_bans T ok P' us'" "bp_Data P' = bp_Data P" "bp_Info P' b = info"
        "map (entry_of P') us' = put_before entry_expires (bp_Data P b, info) (remove1 (entry_of P b) (map (entry_of P) us))"
      using update_bans [OF us(1) b] by blast
    have "ok (bp_Data P' b)" using us(1) b by (simp add: pool_bans_def u(3))
    then obtain m where m: "MakeBanInfo T Now (bp_Data P' b) (bp_Info P' b) 256 MSGTYPE_LIST = Some m" using info_text by blast
    have "Ban T Now N d Seconds pReason v P = Some (1, P', m)" unfolding B Some option.case u(1) by (simp add: m)
    moreover have "spec_Ban T d info L = (1, map (entry_of P') us')"
      unfolding spec_Ban_def us(2) find_entries Some by (simp add: u(5) entry_of_def [of P b])
    ultimately show ?thesis using u(2) unfolding info_def [symmetric] by (auto simp: bans_are_def)
  next
    case None
    have s: "spec_Ban T d info L = (if length us < MAX_BANS then (0, put_before entry_expires (d, info) L) else (- 1, L))"
      unfolding spec_Ban_def us(2) find_entries None by simp
    show ?thesis
    proof (cases "length us < MAX_BANS")
      case True
      obtain b P' us' where a: "pool_Add d info h P = Some (Some b, P')" "pool_bans T ok P' us'" "bp_Data P' b = d" "bp_Info P' b = info"
          "map (entry_of P') us' = put_before entry_expires (d, info) (map (entry_of P) us)"
        using add_bans [OF us(1) d h _ True] find_NoneD [OF None] by blast
      obtain m where m: "MakeBanInfo T Now (bp_Data P' b) (bp_Info P' b) 256 MSGTYPE_BANADD = Some m" using info_text d a(3) by metis
      have "Ban T Now N d Seconds pReason v P = Some (0, P', m)" unfolding B None option.case a(1) by (simp add: m)
      moreover have "spec_Ban T d info L = (0, map (entry_of P') us')" unfolding s using True by (simp add: a(5) us(2))
      ultimately show ?thesis using a(2) unfolding info_def [symmetric] by (auto simp: bans_are_def)
    next
      case False
      obtain fs hs where v: "ban_view P us fs hs" using us(1) by (auto simp: pool_bans_def)
      have "fs = []" using view_length [OF v] False by (cases fs) auto
      then have "pool_Add d info h P = Some (None, P)" using pool_Add_full v by simp
      then have "Ban T Now N d Seconds pReason v P = Some (- 1, P, lit ''ban failed (full banlist)'')" unfolding B None by simp
      then show ?thesis using p False unfolding info_def [symmetric] by (simp add: s)
    qed
  qed
qed

lemma Unban_ok:
  assumes p: "bans_are T ok P L" and d: "ok d"
  shows "\<exists>r P' m. Unban T Now d P = Some (r, P', m) \<and> r = fst (spec_Unban T d L) \<and> bans_are T ok P' (snd (spec_Unban T d L))"
proof -
  obtain us where us: "pool_bans T ok P us" "L = map (entry_of P) us" using p by (auto simp: bans_are_def)
  obtain h where h: "hash_of T d = Some h" using hash_some [OF d] by blast
  note F = Find_ok [OF us(1) d h]
  show ?thesis
  proof (cases "List.find (\<lambda>i. bt_Comp T (bp_Data P i) d = 0) us")
    case (Some b)
    have b: "b \<in> set us" using find_SomeD [OF Some] by blast
    obtain P' where r: "pool_Remove (Some b) P = (0, P')" "pool_bans T ok P' (remove1 b us)"
        "map (entry_of P') (remove1 b us) = remove1 (entry_of P b) (map (entry_of P) us)"
      using remove_bans [OF us(1) b] by blast
    have "ok (bp_Data P b)" using us(1) b by (simp add: pool_bans_def)
    then obtain m where m: "MakeBanInfo T Now (bp_Data P b) (bp_Info P b) 256 MSGTYPE_BANREM = Some m" using info_text by blast
    have "Unban T Now d P = Some (0, P', m)" by (simp add: Unban_def h F Some m r(1))
    moreover have "spec_Unban T d L = (0, map (entry_of P') (remove1 b us))"
      unfolding spec_Unban_def us(2) find_entries Some by (simp add: r(3))
    ultimately show ?thesis using r(2) by (auto simp: bans_are_def)
  next
    case None
    have "Unban T Now d P = Some (- 1, P, lit ''unban failed (invalid entry)'')" by (simp add: Unban_def h F None)
    moreover have "spec_Unban T d L = (- 1, L)" unfolding spec_Unban_def us(2) find_entries None by simp
    ultimately show ?thesis using p by simp
  qed
qed

lemma expire_ok:
  "bans_are T ok P L \<Longrightarrow> \<exists>P' out'. expire_bans T Now P out = Some (P', out') \<and> bans_are T ok P' (live_bans Now L)"
proof -
  have *: "pool_bans T ok P us \<Longrightarrow>
      \<exists>P' out' us'. expire_bans T Now P out = Some (P', out') \<and> pool_bans T ok P' us' \<and>
        map (entry_of P') us' = dropWhile (\<lambda>x. is_expired Now (entry_expires x)) (map (entry_of P) us)" for us
  proof (induction us arbitrary: P out)
    case Nil
    then have "bp_pFirstUsed P = None" by (auto simp: pool_bans_def ban_view_def used_list_def dll_def)
    then have "expire_bans T Now P out = Some (P, out)" by (simp add: expire_bans.simps)
    then show ?case using Nil by auto
  next
    case (Cons b us)
    have f: "bp_pFirstUsed P = Some b" using Cons.prems by (auto simp: pool_bans_def ban_view_def used_list_def dll_def)
    have ex: "entry_expires (entry_of P b) = bi_Expires (bp_Info P b)" by (simp add: entry_expires_def entry_of_def)
    show ?case
    proof (cases "is_expired Now (bi_Expires (bp_Info P b))")
      case True
      obtain P1 where r: "pool_Remove (Some b) P = (0, P1)" "pool_bans T ok P1 us" "map (entry_of P1) us = map (entry_of P) us"
        using remove_bans [OF Cons.prems, of b] by auto
      obtain s where "bt_String T (bp_Data P b) 256 = Some s" 
        using string_some [of "bp_Data P b" 256] Cons.prems by (auto simp: pool_bans_def)
      then have "expire_bans T Now P out = expire_bans T Now P1 (out @ [str_copy (lit ''ban '' @ s @ lit '' expired'') 256])"
        using True by (subst expire_bans.simps) (simp add: f r(1))
      then show ?thesis using Cons.IH [OF r(2), of "out @ [str_copy (lit ''ban '' @ s @ lit '' expired'') 256]"] True
        by (simp add: r(3) ex)
    next
      case False
      have "expire_bans T Now P out = Some (P, out)" using False by (subst expire_bans.simps) (simp add: f)
      then show ?thesis using Cons.prems False ex by (intro exI [of _ P] exI [of _ out] exI [of _ "b # us"]) simp
    qed
  qed
  assume "bans_are T ok P L"
  then obtain us where us: "pool_bans T ok P us" "L = map (entry_of P) us" by (auto simp: bans_are_def)
  have "by_expiry entry_expires L" using us by (simp add: by_expiry_map expires_entry pool_bans_def)
  then show ?thesis using * [OF us(1)] expired_first [of entry_expires L Now] unfolding us(2) live_bans_def bans_are_def by metis
qed

lemma Get_ok:
  assumes "bans_are T ok P L"
  shows "bp_CountUsed P = int (length L) \<and>
    (if 0 \<le> i \<and> i < int (length L) then
       \<exists>b P'. pool_Get i P = Some (Some b) \<and> ok (bp_Data P b) \<and> pool_Remove (Some b) P = (0, P') \<and>
         bans_are T ok P' (remove1 (L ! nat i) L)
     else pool_Get i P = Some None)"
proof -
  obtain us where us: "pool_bans T ok P us" "L = map (entry_of P) us" using assms by (auto simp: bans_are_def)
  obtain fs hs where v: "ban_view P us fs hs" using us(1) by (auto simp: pool_bans_def)
  have c: "bp_CountUsed P = int (length L)" using v by (simp add: ban_view_def us(2))
  show ?thesis
  proof (cases "0 \<le> i \<and> i < int (length L)")
    case True
    then have b: "us ! nat i \<in> set us" using nat_less_iff by (intro nth_mem) (auto simp: us(2))
    have e: "entry_of P (us ! nat i) = L ! nat i" using True by (simp add: us(2) nat_less_iff)
    obtain P' where "pool_Remove (Some (us ! nat i)) P = (0, P')" "pool_bans T ok P' (remove1 (us ! nat i) us)"
       "map (entry_of P') (remove1 (us ! nat i) us) = remove1 (L ! nat i) L"
      using remove_bans [OF us(1) b] unfolding e us(2) by blast
    moreover have "pool_Get i P = Some (Some (us ! nat i))" using pool_Get_view [OF v, of i] True by (simp add: us(2))
    moreover have "ok (bp_Data P (us ! nat i))" using us(1) b by (simp add: pool_bans_def)
    ultimately show ?thesis using True c unfolding bans_are_def by metis
  next
    case False
    then have "pool_Get i P = Some None" using pool_Get_view [OF v, of i] by (simp add: us(2))
    then show ?thesis using False c by simp
  qed
qed

lemma Reset_ok: "bans_are T ok (bans_Reset z) []"
  using bans_Reset_view [of z] by (auto simp: bans_are_def pool_bans_def by_expiry_def)

text \<open>The list is sorted, bounded and has no two bans for the same data.\<close>

lemma bans_are_facts:
  assumes "bans_are T ok P L"
  shows "by_expiry entry_expires L" "length L \<le> MAX_BANS" "\<And>x. x \<in> set L \<Longrightarrow> ok (fst x)"
    "\<And>x y. x \<in> set L \<Longrightarrow> y \<in> set L \<Longrightarrow> bt_Comp T (fst x) (fst y) = 0 \<Longrightarrow> x = y" "distinct L"
proof -
  obtain us where us: "pool_bans T ok P us" "L = map (entry_of P) us" using assms by (auto simp: bans_are_def)
  obtain fs hs where v: "ban_view P us fs hs" using us(1) by (auto simp: pool_bans_def)
  show "by_expiry entry_expires L" using us by (simp add: by_expiry_map expires_entry pool_bans_def)
  show "length L \<le> MAX_BANS" using view_length [OF v] by (simp add: us(2))
  show "ok (fst x)" if "x \<in> set L" for x using that us by (auto simp: pool_bans_def entry_of_def)
  show "x = y" if xy: "x \<in> set L" "y \<in> set L" "bt_Comp T (fst x) (fst y) = 0" for x y
  proof -
    obtain i j where ij: "i \<in> set us" "j \<in> set us" "x = entry_of P i" "y = entry_of P j" using xy(1,2) us(2) by auto
    have "i = j" using us(1) ij(1,2) xy(3) unfolding pool_bans_def ij(3,4) entry_of_def fst_conv by blast
    then show ?thesis by (simp add: ij(3,4))
  qed
  have "inj_on (entry_of P) (set us)" using entries_differ [OF us(1)] unfolding inj_on_def by blast
  then show "distinct L" using v by (simp add: us(2) distinct_map ban_view_def)
qed

end

subsection \<open>Addresses as numbers\<close>

text \<open>The bytes of an address that are compared, their value as a number, most significant byte first, and the
  addresses and ranges that are banned.\<close>

definition addr_bytes_of :: "netaddr \<Rightarrow> bytes" where
  "addr_bytes_of a = take (if na_type a = NETTYPE_IPV4 then 4 else 16) (na_ip a)"

definition number :: "bytes \<Rightarrow> nat" where
  "number s = foldl (\<lambda>n b. 256 * n + unat b) 0 s"

definition ban_addr :: "netaddr \<Rightarrow> bool" where
  "ban_addr a \<longleftrightarrow> length (na_ip a) = 16 \<and> na_type a \<in> {NETTYPE_IPV4, NETTYPE_IPV6, NETTYPE_WEBSOCKET_IPV4, NETTYPE_WEBSOCKET_IPV6}"

definition ban_range :: "net_range \<Rightarrow> bool" where
  "ban_range r \<longleftrightarrow> ban_addr (nr_LB r) \<and> ban_addr (nr_UB r) \<and> IsValidRange r"

definition in_net_range :: "net_range \<Rightarrow> netaddr \<Rightarrow> bool" where
  "in_net_range r a \<longleftrightarrow> na_type (nr_LB r) = na_type a \<and> number (addr_bytes_of (nr_LB r)) \<le> number (addr_bytes_of a) \<and>
     number (addr_bytes_of a) \<le> number (addr_bytes_of (nr_UB r))"

lemma foldl_number: "foldl (\<lambda>n b. 256 * n + unat b) m s = m * 256 ^ length s + number s"
proof (induction s arbitrary: m)
  case (Cons b s)
  show ?case using Cons [of "256 * m + unat b"] Cons [of "unat b"] by (simp add: number_def algebra_simps)
qed (simp add: number_def)

lemma number_Cons: "number (b # s) = unat b * 256 ^ length s + number s"
  using foldl_number [of "unat b" s] by (simp add: number_def)

lemma number_less: "number s < 256 ^ length s"
proof (induction s)
  case (Cons b s)
  have "unat b < 256" using unsigned_less [of b, where 'a = nat] by simp
  then have "unat b * 256 ^ length s + 256 ^ length s \<le> 256 ^ (length s + 1)"
    using mult_le_mono1 [of "unat b + 1" 256 "256 ^ length s"] by (simp add: algebra_simps)
  then show ?case using Cons unfolding number_Cons length_Cons Suc_eq_plus1 by linarith
qed (simp add: number_def)

lemma compare_number:
  "length s = n \<Longrightarrow> length t = n \<Longrightarrow>
   (c_compare uint n s t = 0 \<longleftrightarrow> s = t) \<and> (c_compare uint n s t < 0 \<longleftrightarrow> number s < number t) \<and>
   (c_compare uint n s t \<le> 0 \<longleftrightarrow> number s \<le> number t)"
proof (induction n arbitrary: s t)
  case (Suc n)
  then obtain x s' y t' where e: "s = x # s'" "t = y # t'" "length s' = n" "length t' = n" by (metis length_Suc_conv)
  note IH = Suc.IH [OF e(3,4)]
  have b: "number s' < 256 ^ n" "number t' < 256 ^ n" using number_less [of s'] number_less [of t'] by (simp_all add: e)
  show ?case
  proof (cases "x = y")
    case True
    then show ?thesis using IH by (simp add: e number_Cons)
  next
    case False
    have lt: "unat a * 256 ^ n + number u < unat c * 256 ^ n + number v"
      if "unat a < unat c" "number u < 256 ^ n" for a c :: byte and u v
    proof -
      have "unat a * 256 ^ n + 256 ^ n \<le> unat c * 256 ^ n" using mult_le_mono1 [of "unat a + 1" "unat c" "256 ^ n"] that(1) by simp
      then show ?thesis using that(2) by linarith
    qed
    have u: "uint x < uint y \<longleftrightarrow> unat x < unat y" "uint x \<noteq> uint y" "unat x \<noteq> unat y"
      using False by (simp_all add: word_less_nat_alt [symmetric] word_less_def [symmetric] word_uint_eq_iff [symmetric] word_unat_eq_iff [symmetric])
    show ?thesis using False u lt [of x y s' t'] lt [of y x t' s'] b by (auto simp: e number_Cons linorder_neq_iff)
  qed
qed (simp add: number_def)

lemma c_compare_take: "c_compare key n s t = c_compare key n (take n s) (take n t)"
  by (induction key n s t rule: c_compare.induct) simp_all

lemma type_bytes_inj:
  fixes v w :: "32 word"
  assumes "map (\<lambda>i. ucast (drop_bit (8 * i) v) :: byte) [0..<4] = map (\<lambda>i. ucast (drop_bit (8 * i) w)) [0..<4]"
  shows "v = w"
proof (rule bit_word_eqI)
  fix n assume n: "n < LENGTH(32)"
  have b: "bit x n = bit (ucast (drop_bit (8 * (n div 8)) x) :: byte) (n mod 8)" for x :: "32 word"
    using mult_div_mod_eq [of 8 n] by (simp add: bit_unsigned_iff bit_drop_bit_eq)
  have "n div 8 \<in> set [0..<4]" using n by simp
  then have "(ucast (drop_bit (8 * (n div 8)) v) :: byte) = ucast (drop_bit (8 * (n div 8)) w)"
    using assms unfolding map_eq_conv by blast
  then show "bit v n = bit w n" unfolding b [of v] b [of w] by simp
qed

lemma NetComp_key:
  assumes "length (na_ip a) = 16" "length (na_ip b) = 16"
  shows "NetComp a b = 0 \<longleftrightarrow> na_type a = na_type b \<and> addr_bytes_of a = addr_bytes_of b"
proof -
  define n :: nat where "n = (if na_type a = NETTYPE_IPV4 then 4 else 16)"
  have n: "n = 4 \<or> n = 16" by (simp add: n_def)
  define tb where "tb x = map (\<lambda>i. ucast (drop_bit (8 * i) (na_type x)) :: byte) [0..<4]" for x :: netaddr
  have len: "length (tb x) = 4" for x by (simp add: tb_def)
  have tk: "take (4 + n) (addr_memory x) = tb x @ take n (na_ip x)" for x by (simp add: addr_memory_def tb_def)
  have "NetComp a b = c_compare uint (4 + n) (addr_memory a) (addr_memory b)" by (simp add: NetComp_def n_def)
  also have "\<dots> = c_compare uint (4 + n) (tb a @ take n (na_ip a)) (tb b @ take n (na_ip b))" by (subst c_compare_take) (simp only: tk)
  finally have "NetComp a b = 0 \<longleftrightarrow> tb a @ take n (na_ip a) = tb b @ take n (na_ip b)"
    using compare_number [of "tb a @ take n (na_ip a)" "4 + n" "tb b @ take n (na_ip b)"] assms n by (auto simp: len)
  also have "\<dots> \<longleftrightarrow> tb a = tb b \<and> take n (na_ip a) = take n (na_ip b)" by (rule append_eq_append_conv) (simp add: len)
  also have "tb a = tb b \<longleftrightarrow> na_type a = na_type b" using type_bytes_inj [of "na_type a" "na_type b"] by (auto simp: tb_def)
  finally show ?thesis by (auto simp: addr_bytes_of_def n_def)
qed

lemma NetComp_less:
  assumes "length (na_ip a) = 16" "length (na_ip b) = 16" "na_type a = na_type b"
  shows "NetComp a b < 0 \<longleftrightarrow> number (addr_bytes_of a) < number (addr_bytes_of b)"
proof -
  define n :: nat where "n = (if na_type a = NETTYPE_IPV4 then 4 else 16)"
  have n: "n = 4 \<or> n = 16" by (simp add: n_def)
  define tb where "tb = map (\<lambda>i. ucast (drop_bit (8 * i) (na_type b)) :: byte) [0..<4]"
  have len: "length tb = 4" by (simp add: tb_def)
  have tk: "take (4 + n) (addr_memory x) = tb @ take n (na_ip x)" if "na_type x = na_type b" for x
    using that by (simp add: addr_memory_def tb_def)
  have pre: "number (u @ s) < number (u @ t) \<longleftrightarrow> number s < number t" if "length s = length t" for u s t
    using that by (induction u) (simp_all add: number_Cons)
  have "NetComp a b = c_compare uint (4 + n) (addr_memory a) (addr_memory b)" by (simp add: NetComp_def n_def)
  also have "\<dots> = c_compare uint (4 + n) (tb @ take n (na_ip a)) (tb @ take n (na_ip b))"
    by (subst c_compare_take) (simp only: tk [OF assms(3)] tk [OF refl])
  finally have "NetComp a b < 0 \<longleftrightarrow> number (tb @ take n (na_ip a)) < number (tb @ take n (na_ip b))"
    using compare_number [of "tb @ take n (na_ip a)" "4 + n" "tb @ take n (na_ip b)"] assms(1,2) n by (auto simp: len)
  then show ?thesis using assms n by (auto simp: pre addr_bytes_of_def n_def)
qed

lemma net_string_some: "ban_addr a \<Longrightarrow> \<exists>s. NetToString a n = Some s"
  "ban_range r \<Longrightarrow> \<exists>s. NetToString_range r n = Some s"
proof -
  have *: "\<exists>s. run (net_addr_str a m False) = Some s" if "ban_addr a" for a m
    using that by (auto simp: ban_addr_def net_addr_str_def nettypes run_def Let_def)
  show "ban_addr a \<Longrightarrow> \<exists>s. NetToString a n = Some s" using * [of a NETADDR_MAXSTRSIZE] by (auto simp: NetToString_def)
  assume "ban_range r"
  then show "\<exists>s. NetToString_range r n = Some s"
    using * [of "nr_LB r" NETADDR_MAXSTRSIZE] * [of "nr_UB r" NETADDR_MAXSTRSIZE] by (auto simp: NetToString_range_def ban_range_def)
qed

lemma hash_addr_bytes: "CNetHash_addr a = \<lparr>nh_Hash = byte_sum (addr_bytes_of a) mod 256, nh_HashIndex = 0\<rparr>"
  by (simp add: CNetHash_addr_def addr_bytes_of_def)

interpretation addrs: ban_kind CBanAddrPool ban_addr
proof
  show "\<exists>h. hash_of CBanAddrPool x = Some h" for x
    by (simp add: hash_of_def CBanAddrPool_def CNetHash_addr_def)
  show "hash_of CBanAddrPool x = hash_of CBanAddrPool y" if "ban_addr x" "ban_addr y" "bt_Comp CBanAddrPool x y = 0" for x y
    using that NetComp_key [of x y] by (simp add: CBanAddrPool_def hash_of_def hash_addr_bytes ban_addr_def)
qed (use net_string_some NetComp_key in \<open>auto simp: CBanAddrPool_def ban_addr_def\<close>)

subsection \<open>The hash of a range\<close>

text \<open>The bucket of a range is given by the common prefix of its ends.\<close>

lemma range_hash_prefix:
  "length xs = length ys \<Longrightarrow> xs \<noteq> ys \<Longrightarrow>
   \<exists>k < length xs. take k xs = take k ys \<and> xs ! k \<noteq> ys ! k \<and>
     range_hash_loop xs ys h i = Some \<lparr>nh_Hash = (h + byte_sum (take k xs)) mod 256, nh_HashIndex = i + k\<rparr>"
proof (induction xs ys arbitrary: h i rule: list_induct2)
  case (Cons x xs y ys)
  show ?case
  proof (cases "x = y")
    case True
    then obtain k where "k < length xs" "take k xs = take k ys" "xs ! k \<noteq> ys ! k"
        "range_hash_loop xs ys (h + unat x) (i + 1) = Some \<lparr>nh_Hash = (h + unat x + byte_sum (take k xs)) mod 256, nh_HashIndex = i + 1 + k\<rparr>"
      using Cons.IH [of "h + unat x" "i + 1"] Cons.prems by auto
    then show ?thesis using True by (intro exI [of _ "Suc k"]) (simp add: byte_sum_def add.assoc)
  next
    case False
    then show ?thesis by (intro exI [of _ 0]) (simp add: byte_sum_def)
  qed
qed simp

lemma range_hash_take:
  "take n xs \<noteq> take n ys \<Longrightarrow> length xs = length ys \<Longrightarrow> range_hash_loop xs ys h i = range_hash_loop (take n xs) (take n ys) h i"
proof (induction n arbitrary: xs ys h i)
  case (Suc n)
  show ?case
  proof (cases xs)
    case (Cons x xs')
    then obtain y ys' where ys: "ys = y # ys'" "length xs' = length ys'" using Suc.prems(2) by (cases ys) simp_all
    show ?thesis
    proof (cases "x = y")
      case True
      then have "take n xs' \<noteq> take n ys'" using Suc.prems(1) by (simp add: Cons ys)
      from Suc.IH [OF this ys(2)] show ?thesis by (simp add: Cons ys True)
    qed (simp add: Cons ys)
  qed (use Suc.prems in simp)
qed simp

lemma range_hash_bytes:
  assumes "ban_range r"
  shows "CNetHash_range r = range_hash_loop (addr_bytes_of (nr_LB r)) (addr_bytes_of (nr_UB r)) 0 0"
    and "addr_bytes_of (nr_LB r) \<noteq> addr_bytes_of (nr_UB r)" "length (addr_bytes_of (nr_LB r)) = length (addr_bytes_of (nr_UB r))"
    "length (addr_bytes_of (nr_LB r)) \<le> 16" "number (addr_bytes_of (nr_LB r)) < number (addr_bytes_of (nr_UB r))"
proof -
  have a: "length (na_ip (nr_LB r)) = 16" "length (na_ip (nr_UB r)) = 16" "na_type (nr_LB r) = na_type (nr_UB r)" "NetComp (nr_LB r) (nr_UB r) < 0"
    using assms by (auto simp: ban_range_def ban_addr_def IsValidRange_def)
  show n: "number (addr_bytes_of (nr_LB r)) < number (addr_bytes_of (nr_UB r))" using NetComp_less [OF a(1-3)] a(4) by simp
  then show d: "addr_bytes_of (nr_LB r) \<noteq> addr_bytes_of (nr_UB r)" by auto
  show "length (addr_bytes_of (nr_LB r)) = length (addr_bytes_of (nr_UB r))" "length (addr_bytes_of (nr_LB r)) \<le> 16"
    using a by (simp_all add: addr_bytes_of_def)
  show "CNetHash_range r = range_hash_loop (addr_bytes_of (nr_LB r)) (addr_bytes_of (nr_UB r)) 0 0"
    using range_hash_take [OF d [unfolded addr_bytes_of_def a(3)]] a by (simp add: CNetHash_range_def addr_bytes_of_def)
qed

lemma range_hash_index:
  assumes "ban_range r"
  shows "\<exists>k < length (addr_bytes_of (nr_LB r)). take k (addr_bytes_of (nr_LB r)) = take k (addr_bytes_of (nr_UB r)) \<and>
     hash_of CBanRangePool r = Some \<lparr>nh_Hash = byte_sum (take k (addr_bytes_of (nr_LB r))) mod 256, nh_HashIndex = k\<rparr>"
proof -
  note b = range_hash_bytes [OF assms]
  obtain k where "k < length (addr_bytes_of (nr_LB r))" "take k (addr_bytes_of (nr_LB r)) = take k (addr_bytes_of (nr_UB r))"
      "CNetHash_range r = Some \<lparr>nh_Hash = (0 + byte_sum (take k (addr_bytes_of (nr_LB r)))) mod 256, nh_HashIndex = 0 + k\<rparr>"
    using range_hash_prefix [OF b(3,2)] unfolding b(1) by blast
  then show ?thesis using b(4) by (intro exI [of _ k]) (simp add: hash_of_def CBanRangePool_def)
qed

lemma NetComp_range_key:
  assumes "ban_range r" "ban_range s"
  shows "NetComp_range r s = 0 \<longleftrightarrow> na_type (nr_LB r) = na_type (nr_LB s) \<and> addr_bytes_of (nr_LB r) = addr_bytes_of (nr_LB s) \<and>
     addr_bytes_of (nr_UB r) = addr_bytes_of (nr_UB s)"
  using assms NetComp_key [of "nr_LB r" "nr_LB s"] NetComp_key [of "nr_UB r" "nr_UB s"]
  by (auto simp: NetComp_range_def ban_range_def ban_addr_def IsValidRange_def)

interpretation ranges: ban_kind CBanRangePool ban_range
proof
  show "\<exists>h. hash_of CBanRangePool x = Some h" if "ban_range x" for x
    using range_hash_index [OF that] by blast
  show "hash_of CBanRangePool x = hash_of CBanRangePool y" if "ban_range x" "ban_range y" "bt_Comp CBanRangePool x y = 0" for x y
    using that NetComp_range_key [of x y] range_hash_bytes(1) [of x] range_hash_bytes(1) [of y]
    by (simp add: CBanRangePool_def hash_of_def)
qed (use net_string_some NetComp_range_key in \<open>auto simp: CBanRangePool_def\<close>)

end
