(* ===== verification/NetBanProps.thy ===== *)
theory NetBanProps
  imports NetBan
begin

text \<open>
  The ban list as a whole: what every operation does to the two lists of bans, what is checked for an
  incoming address, and what holds in every run of the server. The last section shows a client that
  cannot be banned.
\<close>

subsection \<open>The check of an address\<close>

definition same_address :: "netaddr \<Rightarrow> netaddr \<Rightarrow> bool" where
  "same_address a b \<longleftrightarrow> na_type a = na_type b \<and> addr_bytes_of a = addr_bytes_of b"

text \<open>What it means for an address to be banned by lists of bans.\<close>

definition spec_banned :: "netaddr entry list \<Rightarrow> net_range entry list \<Rightarrow> netaddr \<Rightarrow> bool" where
  "spec_banned A R a \<longleftrightarrow> (\<exists>x \<in> set A. same_address (fst x) a) \<or> (\<exists>x \<in> set R. in_net_range (fst x) a)"

definition bans_of :: "net_ban \<Rightarrow> netaddr entry list \<Rightarrow> net_range entry list \<Rightarrow> bool" where
  "bans_of N A R \<longleftrightarrow> bans_are CBanAddrPool ban_addr (nb_BanAddrPool N) A \<and> bans_are CBanRangePool ban_range (nb_BanRangePool N) R"

lemma number_append: "number (p @ s) = number p * 256 ^ length s + number s"
  using foldl_number [of "number p" s] by (simp add: number_def)

lemma number_inj:
  assumes "length s = length t"
  shows "number s = number t \<longleftrightarrow> s = t"
proof
  note c = compare_number [OF refl assms [symmetric]]
  assume n: "number s = number t"
  have "c_compare uint (length s) s t \<le> 0" using c [THEN conjunct2, THEN conjunct2] n by simp
  moreover have "\<not> c_compare uint (length s) s t < 0" using c [THEN conjunct2, THEN conjunct1] n by simp
  ultimately have "c_compare uint (length s) s t = 0" by simp
  then show "s = t" using c [THEN conjunct1] by blast
qed simp

lemma number_prefix_le:
  assumes "number (p @ s) \<le> number (q @ t)" "length s = length t"
  shows "number p \<le> number q"
proof (rule ccontr)
  assume "\<not> number p \<le> number q"
  then have "number q + 1 \<le> number p" by simp
  then have "number q * 256 ^ length t + 256 ^ length t \<le> number p * 256 ^ length t"
    using mult_le_mono1 [of "number q + 1" "number p" "256 ^ length t"] by simp
  then show False using assms number_less [of t] by (simp add: number_append)
qed

text \<open>Within the bucket of the common prefix the comparison of the rest decides.\<close>

lemma NetMatch_bucket:
  assumes r: "ban_range r" and a: "ban_addr a" and t: "na_type (nr_LB r) = na_type a" and i: "i < length (addr_bytes_of a)"
    and p: "take i (addr_bytes_of (nr_LB r)) = take i (addr_bytes_of (nr_UB r))"
  shows "in_net_range r a \<longleftrightarrow> NetMatch_from r a i (length (addr_bytes_of a))"
    and "in_net_range r a \<Longrightarrow> take i (addr_bytes_of (nr_LB r)) = take i (addr_bytes_of a)"
proof -
  define L where "L = length (addr_bytes_of a)"
  have w: "length (na_ip a) = 16" "length (na_ip (nr_LB r)) = 16" "length (na_ip (nr_UB r)) = 16" "na_type (nr_UB r) = na_type a"
    using r a t by (auto simp: ban_range_def ban_addr_def IsValidRange_def)
  have L: "L \<le> 16" "addr_bytes_of a = take L (na_ip a)" "addr_bytes_of (nr_LB r) = take L (na_ip (nr_LB r))" "addr_bytes_of (nr_UB r) = take L (na_ip (nr_UB r))"
    using w t by (auto simp: L_def addr_bytes_of_def)
  have iL: "i < L" using i by (simp add: L_def)
  define q x where "q = take i (na_ip a)" and "x = take (L - i) (drop i (na_ip a))"
  define u l where "u = take i (na_ip (nr_LB r))" and "l = take (L - i) (drop i (na_ip (nr_LB r)))"
  define v where "v = take (L - i) (drop i (na_ip (nr_UB r)))"
  have sp: "take L ip = take i ip @ take (L - i) (drop i ip)" for ip :: bytes
    using iL by (metis le_add_diff_inverse less_imp_le take_add)
  have pU: "take i (na_ip (nr_UB r)) = u" using p iL unfolding L u_def by (simp add: min_def)
  have e: "addr_bytes_of a = q @ x" "addr_bytes_of (nr_LB r) = u @ l" "addr_bytes_of (nr_UB r) = u @ v"
    unfolding L sp by (simp_all add: q_def x_def u_def l_def v_def pU)
  have len: "length q = i" "length u = i" "length x = L - i" "length l = L - i" "length v = L - i"
    using w iL L(1) by (simp_all add: q_def x_def u_def l_def v_def)
  have R: "in_net_range r a \<longleftrightarrow> number (u @ l) \<le> number (q @ x) \<and> number (q @ x) \<le> number (u @ v)"
    by (simp add: in_net_range_def t e)
  have qu: "q = u" if "in_net_range r a"
  proof -
    have "number u \<le> number q" by (rule number_prefix_le [of u l q x]) (use that R len in auto)
    moreover have "number q \<le> number u" by (rule number_prefix_le [of q x u v]) (use that R len in auto)
    ultimately show ?thesis using number_inj [of q u] len by simp
  qed
  have C: "c_compare uint i (na_ip (nr_LB r)) (na_ip a) = 0 \<longleftrightarrow> u = q"
    using compare_number [of u i q] len c_compare_take [of uint i "na_ip (nr_LB r)" "na_ip a"] by (simp add: u_def q_def)
  have D: "c_compare uint (L - i) (drop i (na_ip (nr_LB r))) (drop i (na_ip a)) \<le> 0 \<longleftrightarrow> number l \<le> number x"
    using compare_number [of l "L - i" x] len c_compare_take [of uint "L - i" "drop i (na_ip (nr_LB r))" "drop i (na_ip a)"]
    by (simp add: l_def x_def)
  have E: "c_compare uint (L - i) (drop i (na_ip (nr_UB r))) (drop i (na_ip a)) \<ge> 0 \<longleftrightarrow> number x \<le> number v"
    using compare_number [of v "L - i" x] len c_compare_take [of uint "L - i" "drop i (na_ip (nr_UB r))" "drop i (na_ip a)"]
    by (simp add: v_def x_def linorder_not_less [symmetric])
  have "NetMatch_from r a i L \<longleftrightarrow> (i = 0 \<or> u = q) \<and> number l \<le> number x \<and> number x \<le> number v"
    by (simp add: NetMatch_from_def t C D E)
  also have "i = 0 \<or> u = q \<longleftrightarrow> u = q" using len by auto
  finally have m: "NetMatch_from r a i L \<longleftrightarrow> u = q \<and> number l \<le> number x \<and> number x \<le> number v" .
  have "in_net_range r a \<longleftrightarrow> number l \<le> number x \<and> number x \<le> number v" if "q = u"
    using R len unfolding that by (simp add: number_append)
  then show "in_net_range r a \<longleftrightarrow> NetMatch_from r a i (length (addr_bytes_of a))"
    using qu unfolding L_def [symmetric] m by blast
  show "take i (addr_bytes_of (nr_LB r)) = take i (addr_bytes_of a)" if "in_net_range r a"
    using qu [OF that] len by (simp add: e)
qed

lemma hash_array:
  assumes "ban_addr a"
  shows "fst (MakeHashArray a) = length (addr_bytes_of a)"
    and "i < length (addr_bytes_of a) \<Longrightarrow> snd (MakeHashArray a) ! i = \<lparr>nh_Hash = byte_sum (take i (addr_bytes_of a)) mod 256, nh_HashIndex = i\<rparr>"
    and "snd (MakeHashArray a) ! length (addr_bytes_of a) = CNetHash_addr a"
proof -
  define L :: nat where "L = (if na_type a = NETTYPE_IPV4 then 4 else 16)"
  have L: "0 < L" "length (addr_bytes_of a) = L" "addr_bytes_of a = take L (na_ip a)"
    using assms by (auto simp: L_def ban_addr_def addr_bytes_of_def)
  have m: "MakeHashArray a = (L, map (\<lambda>i. \<lparr>nh_Hash = byte_sum (take i (na_ip a)) mod 256, nh_HashIndex = i mod L\<rparr>) [0..<L + 1])"
    by (simp add: MakeHashArray_def L_def)
  show "fst (MakeHashArray a) = length (addr_bytes_of a)" by (simp add: m L(2))
  show "snd (MakeHashArray a) ! i = \<lparr>nh_Hash = byte_sum (take i (addr_bytes_of a)) mod 256, nh_HashIndex = i\<rparr>"
    if "i < length (addr_bytes_of a)" using that unfolding L(2) by (simp add: m L(3) min_def del: upt_Suc)
  show "snd (MakeHashArray a) ! length (addr_bytes_of a) = CNetHash_addr a"
    using L(1) unfolding L(2) by (simp add: m hash_addr_bytes L(3) del: upt_Suc)
qed

lemma match_ranges_ok:
  assumes p: "pool_bans CBanRangePool ban_range P us" and a: "ban_addr a"
  shows "n \<le> length (addr_bytes_of a) \<Longrightarrow>
    \<exists>x. match_ranges a (length (addr_bytes_of a)) (snd (MakeHashArray a)) P n = Some x \<and>
      (x = None \<longrightarrow> (\<forall>b \<in> set us. nh_HashIndex (bp_NetHash P b) < n \<longrightarrow> \<not> in_net_range (bp_Data P b) a)) \<and>
      (\<forall>b. x = Some b \<longrightarrow> b \<in> set us \<and> in_net_range (bp_Data P b) a)"
proof (induction n)
  case (Suc i)
  define L where "L = length (addr_bytes_of a)"
  define h where "h = snd (MakeHashArray a) ! i"
  have i: "i < L" using Suc.prems by (simp add: L_def)
  have h: "h = \<lparr>nh_Hash = byte_sum (take i (addr_bytes_of a)) mod 256, nh_HashIndex = i\<rparr>"
    using hash_array(2) [OF a, of i] i by (simp add: h_def L_def)
  obtain fs hs where v: "ban_view P us fs hs" using p by (auto simp: pool_bans_def)
  have s: "set (hs h) = {b \<in> set us. bp_NetHash P b = h}" "dll (bucket_list h P) (hs h)" using v by (simp_all add: ban_view_def)
  define Q where "Q b = NetMatch_from (bp_Data P b) a i L" for b
  have f: "find_node Q (bp_pHashNext P) (bp_HashList P h) = Some (List.find Q (hs h))"
    by (rule find_node_list) (use s(2) in \<open>simp add: dll_def bucket_list_def\<close>)
  have key: "(in_net_range (bp_Data P b) a \<longleftrightarrow> Q b) \<and> (in_net_range (bp_Data P b) a \<longrightarrow> bp_NetHash P b = h)"
    if b: "b \<in> set us" "nh_HashIndex (bp_NetHash P b) = i" for b
  proof (cases "na_type (nr_LB (bp_Data P b)) = na_type a")
    case False
    then show ?thesis by (simp add: in_net_range_def Q_def NetMatch_from_def)
  next
    case True
    have r: "ban_range (bp_Data P b)" "hash_of CBanRangePool (bp_Data P b) = Some (bp_NetHash P b)"
      using p b(1) by (simp_all add: pool_bans_def)
    obtain k where k: "take k (addr_bytes_of (nr_LB (bp_Data P b))) = take k (addr_bytes_of (nr_UB (bp_Data P b)))"
        "bp_NetHash P b = \<lparr>nh_Hash = byte_sum (take k (addr_bytes_of (nr_LB (bp_Data P b)))) mod 256, nh_HashIndex = k\<rparr>"
      using range_hash_index [OF r(1)] r(2) by auto
    have ki: "k = i" using b(2) k(2) by simp
    note m = NetMatch_bucket [OF r(1) a True i [unfolded L_def] k(1) [unfolded ki]]
    show ?thesis using m k(2) unfolding ki h Q_def L_def by simp
  qed
  have eq: "match_ranges a L (snd (MakeHashArray a)) P (Suc i) =
      (case List.find Q (hs h) of Some b \<Rightarrow> Some (Some b) | None \<Rightarrow> match_ranges a L (snd (MakeHashArray a)) P i)"
    unfolding match_ranges.simps h_def [symmetric] Q_def [symmetric] f by (simp split: option.split)
  show ?case
  proof (cases "List.find Q (hs h)")
    case (Some b)
    have "b \<in> set us \<and> bp_NetHash P b = h" "Q b" using find_SomeD [OF Some] s(1) by auto
    then have "b \<in> set us \<and> in_net_range (bp_Data P b) a" using key [of b] h by simp
    then show ?thesis unfolding L_def [symmetric] eq Some by simp
  next
    case None
    have no: "\<not> in_net_range (bp_Data P b) a" if "b \<in> set us" "nh_HashIndex (bp_NetHash P b) = i" for b
      using key [OF that] find_NoneD [OF None] s(1) that(1) by blast
    obtain x where x: "match_ranges a L (snd (MakeHashArray a)) P i = Some x"
      "x = None \<longrightarrow> (\<forall>b \<in> set us. nh_HashIndex (bp_NetHash P b) < i \<longrightarrow> \<not> in_net_range (bp_Data P b) a)"
      "\<forall>b. x = Some b \<longrightarrow> b \<in> set us \<and> in_net_range (bp_Data P b) a"
      using Suc by (auto simp: L_def)
    show ?thesis unfolding L_def [symmetric] eq None
      using x no by (intro exI [of _ x]) (auto simp: less_Suc_eq)
  qed
qed simp

lemma IsBanned_spec:
  assumes N: "bans_of N A R" and a: "ban_addr (plain_addr a)"
  shows "\<exists>x. IsBanned Now a n N = Some x \<and> (x \<noteq> None \<longleftrightarrow> spec_banned A R (plain_addr a))"
proof -
  define b where "b = plain_addr a"
  define PA PR where "PA = nb_BanAddrPool N" and "PR = nb_BanRangePool N"
  obtain us where us: "pool_bans CBanAddrPool ban_addr PA us" "A = map (entry_of PA) us"
    using N by (auto simp: bans_of_def bans_are_def PA_def)
  obtain vs where vs: "pool_bans CBanRangePool ban_range PR vs" "R = map (entry_of PR) vs"
    using N by (auto simp: bans_of_def bans_are_def PR_def)
  have b: "ban_addr b" using a by (simp add: b_def)
  have h: "hash_of CBanAddrPool b = Some (snd (MakeHashArray b) ! fst (MakeHashArray b))"
    using hash_array(1,3) [OF b] by (simp add: hash_of_def CBanAddrPool_def hash_addr_bytes)
  have cmp: "bt_Comp CBanAddrPool = NetComp" by (simp add: CBanAddrPool_def)
  note F = addrs.Find_ok [OF us(1) b h, unfolded cmp]
  have same: "NetComp (bp_Data PA i) b = 0 \<longleftrightarrow> same_address (bp_Data PA i) b" if "i \<in> set us" for i
    using NetComp_key [of "bp_Data PA i" b] us(1) that b by (auto simp: pool_bans_def same_address_def ban_addr_def)
  have I: "IsBanned Now a n N =
      (case List.find (\<lambda>i. NetComp (bp_Data PA i) b = 0) us of
         Some i \<Rightarrow> map_option Some (MakeBanInfo CBanAddrPool Now (bp_Data PA i) (bp_Info PA i) n MSGTYPE_PLAYER)
       | None \<Rightarrow> match_ranges b (fst (MakeHashArray b)) (snd (MakeHashArray b)) PR (fst (MakeHashArray b)) \<bind>
          (\<lambda>x. case x of Some i \<Rightarrow> map_option Some (MakeBanInfo CBanRangePool Now (bp_Data PR i) (bp_Info PR i) n MSGTYPE_PLAYER) | None \<Rightarrow> Some None))"
    unfolding IsBanned_def Let_def b_def [symmetric] case_prod_beta PA_def [symmetric] PR_def [symmetric] F bind.bind_lunit ..
  show ?thesis
  proof (cases "List.find (\<lambda>i. NetComp (bp_Data PA i) b = 0) us")
    case (Some i)
    have i: "i \<in> set us" "same_address (bp_Data PA i) b" using find_SomeD [OF Some] same by auto
    obtain m where "MakeBanInfo CBanAddrPool Now (bp_Data PA i) (bp_Info PA i) n MSGTYPE_PLAYER = Some m"
      using addrs.info_text us(1) i(1) unfolding pool_bans_def by blast
    moreover have "spec_banned A R b" using i by (auto simp: spec_banned_def us(2) entry_of_def)
    ultimately show ?thesis unfolding I Some b_def [symmetric] by simp
  next
    case None
    have no: "\<not> same_address (fst x) b" if "x \<in> set A" for x
      using that find_NoneD [OF None] same by (auto simp: us(2) entry_of_def)
    obtain x where x: "match_ranges b (fst (MakeHashArray b)) (snd (MakeHashArray b)) PR (fst (MakeHashArray b)) = Some x"
      "x = None \<longrightarrow> (\<forall>i \<in> set vs. nh_HashIndex (bp_NetHash PR i) < length (addr_bytes_of b) \<longrightarrow> \<not> in_net_range (bp_Data PR i) b)"
      "\<forall>i. x = Some i \<longrightarrow> i \<in> set vs \<and> in_net_range (bp_Data PR i) b"
      using match_ranges_ok [OF vs(1) b order_refl] hash_array(1) [OF b] by auto
    show ?thesis
    proof (cases x)
      case None2: None
      have "\<not> in_net_range (bp_Data PR i) b" if i: "i \<in> set vs" for i
      proof (cases "na_type (nr_LB (bp_Data PR i)) = na_type b")
        case True
        have r: "ban_range (bp_Data PR i)" "hash_of CBanRangePool (bp_Data PR i) = Some (bp_NetHash PR i)"
          using vs(1) i by (simp_all add: pool_bans_def)
        have "length (addr_bytes_of (nr_LB (bp_Data PR i))) = length (addr_bytes_of b)"
          using True r(1) b by (simp add: addr_bytes_of_def ban_range_def ban_addr_def)
        then show ?thesis using range_hash_index [OF r(1)] r(2) x(2) None2 i by auto
      qed (simp add: in_net_range_def)
      then have "\<not> spec_banned A R b" using no by (auto simp: spec_banned_def vs(2) entry_of_def)
      then show ?thesis unfolding I None b_def [symmetric] x(1) None2 by simp
    next
      case (Some i)
      have i: "i \<in> set vs" "in_net_range (bp_Data PR i) b" using x(3) Some by auto
      obtain m where "MakeBanInfo CBanRangePool Now (bp_Data PR i) (bp_Info PR i) n MSGTYPE_PLAYER = Some m"
        using ranges.info_text vs(1) i(1) unfolding pool_bans_def by blast
      moreover have "spec_banned A R b" using i by (auto simp: spec_banned_def vs(2) entry_of_def)
      ultimately show ?thesis unfolding I None b_def [symmetric] x(1) Some by simp
    qed
  qed
qed

subsection \<open>The operations on the lists\<close>

datatype ban_op =
  OpBanAddr netaddr int bytes bool
| OpBanRange net_range int bytes
| OpUnbanByAddr netaddr
| OpUnbanByRange net_range
| OpUnbanByIndex int
| OpUnbanAll
| OpUpdate

text \<open>A call of an operation at a time.\<close>

fun ban_step :: "int \<Rightarrow> ban_op \<Rightarrow> net_ban \<Rightarrow> (int \<times> net_ban) option" where
  "ban_step Now (OpBanAddr a s t v) N = BanAddr Now a s t v N"
| "ban_step Now (OpBanRange r s t) N = BanRange Now r s t N"
| "ban_step Now (OpUnbanByAddr a) N = UnbanByAddr Now a N"
| "ban_step Now (OpUnbanByRange r) N = UnbanByRange Now r N"
| "ban_step Now (OpUnbanByIndex i) N = UnbanByIndex i N"
| "ban_step Now OpUnbanAll N = Some (0, UnbanAll N)"
| "ban_step Now OpUpdate N = map_option (Pair 0) (net_Update Now N)"

definition is_localhost :: "netaddr \<times> netaddr \<Rightarrow> (netaddr \<Rightarrow> bool) \<Rightarrow> bool" where
  "is_localhost lo m \<longleftrightarrow> m (fst lo) \<or> m (snd lo)"

text \<open>What it does to the lists of bans, and the return code.\<close>

fun spec_step :: "netaddr \<times> netaddr \<Rightarrow> int \<Rightarrow> ban_op \<Rightarrow> netaddr entry list \<times> net_range entry list \<Rightarrow> int \<times> netaddr entry list \<times> net_range entry list" where
  "spec_step lo Now (OpBanAddr a s t v) (A, R) =
     (if is_localhost lo (NetMatch a) then (- 1, A, R)
      else let (c, A') = spec_Ban CBanAddrPool a (new_info Now s t v) A in (c, A', R))"
| "spec_step lo Now (OpBanRange r s t) (A, R) =
     (if \<not> IsValidRange r \<or> is_localhost lo (NetMatch_range r) then (- 1, A, R)
      else let (c, R') = spec_Ban CBanRangePool r (new_info Now s t False) R in (c, A, R'))"
| "spec_step lo Now (OpUnbanByAddr a) (A, R) = (let (c, A') = spec_Unban CBanAddrPool a A in (c, A', R))"
| "spec_step lo Now (OpUnbanByRange r) (A, R) =
     (if \<not> IsValidRange r then (- 1, A, R) else let (c, R') = spec_Unban CBanRangePool r R in (c, A, R'))"
| "spec_step lo Now (OpUnbanByIndex i) (A, R) =
     (if 0 \<le> i \<and> i < int (length A) then (0, remove1 (A ! nat i) A, R)
      else let j = i - int (length A) in
        if 0 \<le> j \<and> j < int (length R) then (0, A, remove1 (R ! nat j) R) else (- 1, A, R))"
| "spec_step lo Now OpUnbanAll (A, R) = (0, [], [])"
| "spec_step lo Now OpUpdate (A, R) = (0, live_bans Now A, live_bans Now R)"

fun op_ok :: "ban_op \<Rightarrow> bool" where
  "op_ok (OpBanAddr a s t v) = ban_addr a"
| "op_ok (OpBanRange r s t) = (ban_addr (nr_LB r) \<and> ban_addr (nr_UB r))"
| "op_ok (OpUnbanByAddr a) = ban_addr a"
| "op_ok (OpUnbanByRange r) = (ban_addr (nr_LB r) \<and> ban_addr (nr_UB r))"
| "op_ok _ = True"

definition localhosts :: "net_ban \<Rightarrow> netaddr \<times> netaddr" where
  "localhosts N = (nb_LocalhostIpV4 N, nb_LocalhostIpV6 N)"

lemma bans_of_updates [simp]:
  "bans_of (Print m N) A R = bans_of N A R"
  "bans_of (N\<lparr>nb_BanAddrPool := P\<rparr>) A R \<longleftrightarrow> bans_are CBanAddrPool ban_addr P A \<and> bans_are CBanRangePool ban_range (nb_BanRangePool N) R"
  "bans_of (N\<lparr>nb_BanRangePool := Q\<rparr>) A R \<longleftrightarrow> bans_are CBanAddrPool ban_addr (nb_BanAddrPool N) A \<and> bans_are CBanRangePool ban_range Q R"
  "bans_of (N\<lparr>nb_BanAddrPool := P, nb_BanRangePool := Q\<rparr>) A R \<longleftrightarrow> bans_are CBanAddrPool ban_addr P A \<and> bans_are CBanRangePool ban_range Q R"
  "bans_of (N\<lparr>nb_BanAddrPool := P, nb_BanRangePool := Q, nb_Console := z\<rparr>) A R \<longleftrightarrow> bans_are CBanAddrPool ban_addr P A \<and> bans_are CBanRangePool ban_range Q R"
  "localhosts (Print m N) = localhosts N" "localhosts (N\<lparr>nb_BanAddrPool := P\<rparr>) = localhosts N" "localhosts (N\<lparr>nb_BanRangePool := Q\<rparr>) = localhosts N"
  "localhosts (N\<lparr>nb_BanAddrPool := P, nb_BanRangePool := Q\<rparr>) = localhosts N"
  "localhosts (N\<lparr>nb_BanAddrPool := P, nb_BanRangePool := Q, nb_Console := z\<rparr>) = localhosts N"
  by (simp_all add: bans_of_def Print_def localhosts_def)

lemma bans_ofD:
  "bans_of N A R \<Longrightarrow> bans_are CBanAddrPool ban_addr (nb_BanAddrPool N) A"
  "bans_of N A R \<Longrightarrow> bans_are CBanRangePool ban_range (nb_BanRangePool N) R"
  by (simp_all add: bans_of_def)

lemma ban_types:
  "bt_Match CBanAddrPool = NetMatch" "bt_Match CBanRangePool = NetMatch_range" "bt_Comp CBanAddrPool = NetComp" "bt_Comp CBanRangePool = NetComp_range"
  by (simp_all add: CBanAddrPool_def CBanRangePool_def)

definition refines :: "(int \<times> net_ban) option \<Rightarrow> net_ban \<Rightarrow> int \<times> netaddr entry list \<times> net_range entry list \<Rightarrow> bool" where
  "refines x N s \<longleftrightarrow> (\<exists>N'. x = Some (fst s, N') \<and> bans_of N' (fst (snd s)) (snd (snd s)) \<and> localhosts N' = localhosts N)"

lemma BanAddr_refines:
  assumes "bans_of N A R" "ban_addr a"
  shows "refines (BanAddr Now a s t v N) N (spec_step (localhosts N) Now (OpBanAddr a s t v) (A, R))"
proof (cases "is_localhost (localhosts N) (NetMatch a)")
  case True
  then have "BanAddr Now a s t v N = Some (- 1, Print (lit ''ban failed (localhost)'') (N\<lparr>nb_BanAddrPool := nb_BanAddrPool N\<rparr>))"
    by (simp add: BanAddr_def Ban_def ban_types is_localhost_def localhosts_def)
  then show ?thesis using True assms(1) by (simp add: refines_def)
next
  case False
  obtain P m where "Ban CBanAddrPool Now N a s t v (nb_BanAddrPool N) = Some (fst (spec_Ban CBanAddrPool a (new_info Now s t v) A), P, m)"
      "bans_are CBanAddrPool ban_addr P (snd (spec_Ban CBanAddrPool a (new_info Now s t v) A))"
    using addrs.Ban_ok [OF bans_ofD(1) [OF assms(1)] assms(2), of N Now s t v] False
    by (auto simp: ban_types is_localhost_def localhosts_def)
  then show ?thesis using False bans_ofD(2) [OF assms(1)]
    by (simp add: refines_def BanAddr_def case_prod_beta)
qed

lemma BanRange_refines:
  assumes "bans_of N A R" "ban_addr (nr_LB r)" "ban_addr (nr_UB r)"
  shows "refines (BanRange Now r s t N) N (spec_step (localhosts N) Now (OpBanRange r s t) (A, R))"
proof (cases "\<not> IsValidRange r \<or> is_localhost (localhosts N) (NetMatch_range r)")
  case True
  have "N\<lparr>nb_BanRangePool := nb_BanRangePool N\<rparr> = N" by simp
  then have "\<exists>m. BanRange Now r s t N = Some (- 1, Print m N)"
    using True by (auto simp: BanRange_def Ban_def ban_types is_localhost_def localhosts_def)
  then show ?thesis using True assms(1) by (auto simp: refines_def)
next
  case False
  then have r: "ban_range r" using assms(2,3) by (simp add: ban_range_def)
  obtain P m where "Ban CBanRangePool Now N r s t False (nb_BanRangePool N) = Some (fst (spec_Ban CBanRangePool r (new_info Now s t False) R), P, m)"
      "bans_are CBanRangePool ban_range P (snd (spec_Ban CBanRangePool r (new_info Now s t False) R))"
    using ranges.Ban_ok [OF bans_ofD(2) [OF assms(1)] r, of N Now s t False] False
    by (auto simp: ban_types is_localhost_def localhosts_def)
  then show ?thesis using False bans_ofD(1) [OF assms(1)]
    by (simp add: refines_def BanRange_def case_prod_beta)
qed

lemma Unban_refines:
  assumes "bans_of N A R"
  shows "ban_addr a \<Longrightarrow> refines (UnbanByAddr Now a N) N (spec_step (localhosts N) Now (OpUnbanByAddr a) (A, R))"
    and "ban_addr (nr_LB r) \<Longrightarrow> ban_addr (nr_UB r) \<Longrightarrow> refines (UnbanByRange Now r N) N (spec_step (localhosts N) Now (OpUnbanByRange r) (A, R))"
proof -
  assume "ban_addr a"
  then obtain P m where "Unban CBanAddrPool Now a (nb_BanAddrPool N) = Some (fst (spec_Unban CBanAddrPool a A), P, m)"
      "bans_are CBanAddrPool ban_addr P (snd (spec_Unban CBanAddrPool a A))"
    using addrs.Unban_ok [OF bans_ofD(1) [OF assms], of a Now] by blast
  then show "refines (UnbanByAddr Now a N) N (spec_step (localhosts N) Now (OpUnbanByAddr a) (A, R))"
    using bans_ofD(2) [OF assms] by (simp add: refines_def UnbanByAddr_def case_prod_beta)
next
  assume r: "ban_addr (nr_LB r)" "ban_addr (nr_UB r)"
  show "refines (UnbanByRange Now r N) N (spec_step (localhosts N) Now (OpUnbanByRange r) (A, R))"
  proof (cases "IsValidRange r")
    case True
    then have "ban_range r" using r by (simp add: ban_range_def)
    then obtain P m where "Unban CBanRangePool Now r (nb_BanRangePool N) = Some (fst (spec_Unban CBanRangePool r R), P, m)"
        "bans_are CBanRangePool ban_range P (snd (spec_Unban CBanRangePool r R))"
      using ranges.Unban_ok [OF bans_ofD(2) [OF assms], of r Now] by blast
    then show ?thesis using True bans_ofD(1) [OF assms] by (simp add: refines_def UnbanByRange_def case_prod_beta)
  next
    case False
    then show ?thesis using assms by (simp add: refines_def UnbanByRange_def)
  qed
qed

lemma UnbanByIndex_refines:
  assumes "bans_of N A R"
  shows "refines (UnbanByIndex i N) N (spec_step (localhosts N) Now (OpUnbanByIndex i) (A, R))"
proof -
  note a = bans_ofD(1) [OF assms] and b = bans_ofD(2) [OF assms]
  note ga = addrs.Get_ok [OF a, of i] and gb = ranges.Get_ok [OF b, of "i - int (length A)"]
  show ?thesis
  proof (cases "0 \<le> i \<and> i < int (length A)")
    case True
    then obtain k P where k: "pool_Get i (nb_BanAddrPool N) = Some (Some k)" "ban_addr (bp_Data (nb_BanAddrPool N) k)"
        "pool_Remove (Some k) (nb_BanAddrPool N) = (0, P)" "bans_are CBanAddrPool ban_addr P (remove1 (A ! nat i) A)"
      using ga by auto
    obtain s where "NetToString (bp_Data (nb_BanAddrPool N) k) 256 = Some s" using net_string_some(1) [OF k(2)] by blast
    then show ?thesis using True k b by (simp add: refines_def UnbanByIndex_def)
  next
    case F: False
    then have n: "pool_Get i (nb_BanAddrPool N) = Some None" "bp_CountUsed (nb_BanAddrPool N) = int (length A)" using ga by auto
    show ?thesis
    proof (cases "0 \<le> i - int (length A) \<and> i - int (length A) < int (length R)")
      case True
      then obtain k P where k: "pool_Get (i - int (length A)) (nb_BanRangePool N) = Some (Some k)" "ban_range (bp_Data (nb_BanRangePool N) k)"
          "pool_Remove (Some k) (nb_BanRangePool N) = (0, P)" "bans_are CBanRangePool ban_range P (remove1 (R ! nat (i - int (length A))) R)"
        using gb by auto
      obtain s where "NetToString_range (bp_Data (nb_BanRangePool N) k) 256 = Some s" using net_string_some(2) [OF k(2)] by blast
      then show ?thesis using F True k a by (simp add: refines_def UnbanByIndex_def n)
    next
      case False
      then have "pool_Get (i - int (length A)) (nb_BanRangePool N) = Some None" using gb by auto
      then have "UnbanByIndex i N = Some (- 1, Print (lit ''unban failed (invalid index)'') N)" by (simp add: UnbanByIndex_def n)
      then show ?thesis using F False assms unfolding spec_step.simps Let_def by (simp only: refines_def if_False fst_conv snd_conv bans_of_updates) simp
    qed
  qed
qed

lemma step_refines:
  assumes "bans_of N A R" "op_ok op"
  shows "refines (ban_step Now op N) N (spec_step (localhosts N) Now op (A, R))"
proof (cases op)
  case OpUpdate
  obtain P Q out out' where "expire_bans CBanAddrPool Now (nb_BanAddrPool N) (nb_Console N) = Some (P, out)" "bans_are CBanAddrPool ban_addr P (live_bans Now A)"
      "expire_bans CBanRangePool Now (nb_BanRangePool N) out = Some (Q, out')" "bans_are CBanRangePool ban_range Q (live_bans Now R)"
    using addrs.expire_ok [OF bans_ofD(1) [OF assms(1)]] ranges.expire_ok [OF bans_ofD(2) [OF assms(1)]] by metis
  then show ?thesis by (simp add: OpUpdate refines_def net_Update_def)
next
  case OpUnbanAll
  then show ?thesis by (simp add: refines_def UnbanAll_def addrs.Reset_ok ranges.Reset_ok)
qed (use assms BanAddr_refines BanRange_refines Unban_refines UnbanByIndex_refines in \<open>auto simp del: spec_step.simps\<close>)

subsection \<open>Runs\<close>

fun ban_run :: "(int \<times> ban_op) list \<Rightarrow> net_ban \<Rightarrow> net_ban option" where
  "ban_run [] N = Some N"
| "ban_run ((Now, op) # ops) N = (case ban_step Now op N of None \<Rightarrow> None | Some (c, N') \<Rightarrow> ban_run ops N')"

lemma run_induct:
  assumes N: "bans_of N A R" "Q A R" and ok: "\<forall>x \<in> set ops. op_ok (snd x)"
    and step: "\<And>A R x. x \<in> set ops \<Longrightarrow> Q A R \<Longrightarrow> Q (fst (snd (spec_step (localhosts N) (fst x) (snd x) (A, R)))) (snd (snd (spec_step (localhosts N) (fst x) (snd x) (A, R))))"
  shows "\<exists>N' A' R'. ban_run ops N = Some N' \<and> bans_of N' A' R' \<and> Q A' R' \<and> localhosts N' = localhosts N"
  using assms
proof (induction ops arbitrary: N A R)
  case (Cons x ops)
  obtain Now op where x: "x = (Now, op)" by (cases x)
  define s where "s = spec_step (localhosts N) Now op (A, R)"
  have "refines (ban_step Now op N) N s" unfolding s_def by (rule step_refines) (use Cons.prems x in auto)
  then obtain N1 where N1: "ban_step Now op N = Some (fst s, N1)" "bans_of N1 (fst (snd s)) (snd (snd s))" "localhosts N1 = localhosts N"
    by (auto simp: refines_def)
  have q: "Q (fst (snd s)) (snd (snd s))" using Cons.prems(4) [of x A R] Cons.prems(2) by (simp add: x s_def)
  have "\<exists>N' A' R'. ban_run ops N1 = Some N' \<and> bans_of N' A' R' \<and> Q A' R' \<and> localhosts N' = localhosts N1"
    by (rule Cons.IH [OF N1(2) q]) (use Cons.prems(3,4) in \<open>simp_all add: N1(3)\<close>)
  then show ?case by (simp add: x N1)
qed auto

lemma set_spec_Ban: "fst ` set (snd (spec_Ban T d info L)) \<subseteq> insert d (fst ` set L)"
proof (cases "spec_find T d L")
  case (Some x)
  then have "x \<in> set L" using find_SomeD by (fastforce simp: spec_find_def)
  then show ?thesis using set_remove1_subset [of x L] by (auto simp: spec_Ban_def Some)
qed (auto simp: spec_Ban_def)

lemma set_spec_Unban: "set (snd (spec_Unban T d L)) \<subseteq> set L"
  by (auto simp: spec_Unban_def split: option.split dest: set_remove1_subset [THEN subsetD])

text \<open>A ban of an address or range is never in conflict with the addresses of the machine itself.\<close>

definition spares :: "netaddr \<times> netaddr \<Rightarrow> netaddr entry list \<Rightarrow> net_range entry list \<Rightarrow> bool" where
  "spares lo A R \<longleftrightarrow> (\<forall>a \<in> fst ` set A. \<not> is_localhost lo (NetMatch a)) \<and> (\<forall>r \<in> fst ` set R. \<not> is_localhost lo (NetMatch_range r))"

lemma spares_mono: "spares lo A R \<Longrightarrow> set A' \<subseteq> set A \<Longrightarrow> set R' \<subseteq> set R \<Longrightarrow> spares lo A' R'"
  by (auto simp: spares_def)

lemma live_bans_subset: "set (live_bans Now L) \<subseteq> set L"
  by (auto simp: live_bans_def)

lemma spares_add:
  assumes "spares lo A R"
  shows "\<not> is_localhost lo (NetMatch a) \<Longrightarrow> fst ` set A' \<subseteq> insert a (fst ` set A) \<Longrightarrow> spares lo A' R"
    and "\<not> is_localhost lo (NetMatch_range r) \<Longrightarrow> fst ` set R' \<subseteq> insert r (fst ` set R) \<Longrightarrow> spares lo A R'"
proof -
  define DA DR where "DA = fst ` set A" and "DR = fst ` set R"
  have d: "\<forall>a \<in> DA. \<not> is_localhost lo (NetMatch a)" "\<forall>r \<in> DR. \<not> is_localhost lo (NetMatch_range r)"
    using assms by (auto simp: spares_def DA_def DR_def)
  show "spares lo A' R" if n: "\<not> is_localhost lo (NetMatch a)" and s: "fst ` set A' \<subseteq> insert a (fst ` set A)"
  proof -
    have "\<not> is_localhost lo (NetMatch x)" if "x \<in> fst ` set A'" for x
      using subsetD [OF s that] d(1) n unfolding DA_def by blast
    then show ?thesis using d(2) unfolding spares_def DR_def by blast
  qed
  show "spares lo A R'" if n: "\<not> is_localhost lo (NetMatch_range r)" and s: "fst ` set R' \<subseteq> insert r (fst ` set R)"
  proof -
    have "\<not> is_localhost lo (NetMatch_range x)" if "x \<in> fst ` set R'" for x
      using subsetD [OF s that] d(2) n unfolding DR_def by blast
    then show ?thesis using d(1) unfolding spares_def DA_def by blast
  qed
qed

lemma step_spares:
  assumes "spares lo A R"
  shows "spares lo (fst (snd (spec_step lo Now op (A, R)))) (snd (snd (spec_step lo Now op (A, R))))"
proof (cases op)
  case (OpBanAddr a s t v)
  show ?thesis
  proof (cases "is_localhost lo (NetMatch a)")
    case False
    then have "spares lo (snd (spec_Ban CBanAddrPool a (new_info Now s t v) A)) R"
      using spares_add(1) [OF assms _ set_spec_Ban] by blast
    then show ?thesis using False by (simp add: OpBanAddr case_prod_beta)
  qed (use assms OpBanAddr in simp)
next
  case (OpBanRange r s t)
  show ?thesis
  proof (cases "is_localhost lo (NetMatch_range r)")
    case False
    then have "spares lo A (snd (spec_Ban CBanRangePool r (new_info Now s t False) R))"
      using spares_add(2) [OF assms _ set_spec_Ban] by blast
    then show ?thesis using False assms by (simp add: OpBanRange case_prod_beta)
  qed (use assms OpBanRange in simp)
next
  case (OpUnbanByAddr a)
  then show ?thesis using spares_mono [OF assms set_spec_Unban order_refl] by (simp add: case_prod_beta)
next
  case (OpUnbanByRange r)
  then show ?thesis using assms spares_mono [OF assms order_refl set_spec_Unban] by (simp add: case_prod_beta)
next
  case (OpUnbanByIndex i)
  then show ?thesis using assms spares_mono [OF assms set_remove1_subset order_refl] spares_mono [OF assms order_refl set_remove1_subset]
    by (simp add: Let_def)
next
  case OpUnbanAll
  then show ?thesis by (simp add: spares_def)
next
  case OpUpdate
  then show ?thesis using spares_mono [OF assms live_bans_subset live_bans_subset] by simp
qed

lemma NetMatch_range_in: "ban_range r \<Longrightarrow> ban_addr a \<Longrightarrow> NetMatch_range r a \<longleftrightarrow> in_net_range r a"
proof (cases "na_type (nr_LB r) = na_type a")
  case True
  assume r: "ban_range r" and a: "ban_addr a"
  have l: "length (addr_bytes_of a) = (if na_type (nr_LB r) = NETTYPE_IPV4 then 4 else 16)"
    using a by (simp add: True addr_bytes_of_def ban_addr_def)
  show ?thesis using NetMatch_bucket(1) [OF r a True, of 0] l by (simp add: NetMatch_range_def split: if_splits)
qed (simp add: NetMatch_range_def NetMatch_from_def in_net_range_def)

lemma spares_not_banned:
  assumes "bans_of N A R" "spares lo A R" "ban_addr a" "a = fst lo \<or> a = snd lo"
  shows "\<not> spec_banned A R a"
proof -
  have "\<not> same_address (fst x) a" if "x \<in> set A" for x
  proof -
    have "ban_addr (fst x)" using addrs.bans_are_facts(3) [OF bans_ofD(1) [OF assms(1)] that] .
    then show ?thesis using assms(2-4) that NetComp_key [of "fst x" a]
      by (auto simp: spares_def is_localhost_def NetMatch_def same_address_def ban_addr_def)
  qed
  moreover have "\<not> in_net_range (fst x) a" if "x \<in> set R" for x
    using assms(2-4) that NetMatch_range_in [OF ranges.bans_are_facts(3) [OF bans_ofD(2) [OF assms(1)] that] assms(3)]
    by (auto simp: spares_def is_localhost_def)
  ultimately show ?thesis by (auto simp: spec_banned_def)
qed

text \<open>The documented behaviour of \<open>getaddrinfo\<close>: an answer has the address family that was asked for.\<close>

definition resolver_ok :: "(bytes \<Rightarrow> bool option \<Rightarrow> sockaddr option) \<Rightarrow> bool" where
  "resolver_ok g \<longleftrightarrow> (\<forall>host sa. (g host (Some True) = Some sa \<longrightarrow> (\<exists>q. sa = SockaddrIn q \<and> length q = 4)) \<and>
     (g host (Some False) = Some sa \<longrightarrow> (\<exists>ip. sa = SockaddrIn6 ip \<and> length ip = 16)))"

lemma localhost_lookup:
  assumes "resolver_ok g"
  shows "\<exists>b. net_host_lookup g (lit ''localhost'') a NETTYPE_IPV4 = Some b \<and> length (na_ip b) = 16 \<and> na_type b = NETTYPE_IPV4"
    and "\<exists>b. net_host_lookup g (lit ''localhost'') a NETTYPE_IPV6 = Some b \<and> length (na_ip b) = 16 \<and> na_type b = NETTYPE_IPV6"
proof -
  define h where "h = lit ''localhost''"
  have 1: "str_startswith h (lit ''ws://'') = None" unfolding h_def by code_simp
  have 2: "priv_net_extract h 256 = Some (h, 0)" unfolding h_def by code_simp
  have 3: "str_comp_nocase h (lit ''localhost'') = 0" unfolding h_def by code_simp
  have 4: "NETTYPE_IPV4 AND NOT (NETTYPE_WEBSOCKET_IPV4 OR NETTYPE_WEBSOCKET_IPV6) = NETTYPE_IPV4"
    "NETTYPE_IPV6 AND NOT (NETTYPE_WEBSOCKET_IPV4 OR NETTYPE_WEBSOCKET_IPV6) = NETTYPE_IPV6" "NETTYPE_IPV6 \<noteq> NETTYPE_IPV4"
    by (simp_all add: nettypes)
  note g = assms [unfolded resolver_ok_def, rule_format]
  have 5: "length LOOPBACKADDR_IPV4 = 16" "length LOOPBACKADDR_IPV6 = 16" by (simp_all add: LOOPBACKADDR_IPV4_def LOOPBACKADDR_IPV6_def)
  have LL: "net_host_lookup g (lit ''localhost'') a NETTYPE_IPV4 = (case g h (Some True) of None \<Rightarrow> net_host_lookup_fallback h a NETTYPE_IPV4 0
        | Some sa \<Rightarrow> Some ((sockaddr_to_netaddr sa)\<lparr>na_port := of_int 0\<rparr>))"
    "net_host_lookup g (lit ''localhost'') a NETTYPE_IPV6 = (case g h (Some False) of None \<Rightarrow> net_host_lookup_fallback h a NETTYPE_IPV6 0
        | Some sa \<Rightarrow> Some ((sockaddr_to_netaddr sa)\<lparr>na_port := of_int 0\<rparr>))"
    unfolding h_def [symmetric] net_host_lookup_def 1 option.case Let_def 4(1,2) net_host_lookup_impl_def 2 prod.case
    using 4(3) by (simp_all only: if_True if_False simp_thms)
  show "\<exists>b. net_host_lookup g (lit ''localhost'') a NETTYPE_IPV4 = Some b \<and> length (na_ip b) = 16 \<and> na_type b = NETTYPE_IPV4"
  proof (cases "g h (Some True)")
    case None
    then show ?thesis unfolding LL by (simp add: net_host_lookup_fallback_def 3 4(3) 5)
  next
    case (Some sa)
    then obtain q where "sa = SockaddrIn q" "length q = 4" using g by blast
    then show ?thesis using Some unfolding LL by (simp add: sockaddr_to_netaddr_def)
  qed
  show "\<exists>b. net_host_lookup g (lit ''localhost'') a NETTYPE_IPV6 = Some b \<and> length (na_ip b) = 16 \<and> na_type b = NETTYPE_IPV6"
  proof (cases "g h (Some False)")
    case None
    then show ?thesis unfolding LL by (simp add: net_host_lookup_fallback_def 3 4(3) 5)
  next
    case (Some sa)
    then obtain q where "sa = SockaddrIn6 q" "length q = 16" using g by blast
    then show ?thesis using Some unfolding LL by (simp add: sockaddr_to_netaddr_def)
  qed
qed

lemma Init_ok:
  assumes "resolver_ok g"
  shows "bans_of (net_Init g N) [] [] \<and> ban_addr (nb_LocalhostIpV4 (net_Init g N)) \<and> na_type (nb_LocalhostIpV4 (net_Init g N)) = NETTYPE_IPV4 \<and>
    ban_addr (nb_LocalhostIpV6 (net_Init g N)) \<and> na_type (nb_LocalhostIpV6 (net_Init g N)) = NETTYPE_IPV6"
proof -
  obtain b where b: "net_host_lookup g (lit ''localhost'') (nb_LocalhostIpV4 N) NETTYPE_IPV4 = Some b" "length (na_ip b) = 16" "na_type b = NETTYPE_IPV4"
    using localhost_lookup(1) [OF assms] by blast
  obtain c where c: "net_host_lookup g (lit ''localhost'') (nb_LocalhostIpV6 N) NETTYPE_IPV6 = Some c" "length (na_ip c) = 16" "na_type c = NETTYPE_IPV6"
    using localhost_lookup(2) [OF assms] by blast
  have "net_Init g N = N\<lparr>nb_BanAddrPool := bans_Reset NETADDR_ZEROED, nb_BanRangePool := bans_Reset \<lparr>nr_LB = NETADDR_ZEROED, nr_UB = NETADDR_ZEROED\<rparr>,
      nb_LocalhostIpV4 := b, nb_LocalhostIpV6 := c\<rparr>"
    by (simp add: net_Init_def b(1) c(1))
  then show ?thesis using b c by (simp add: bans_of_def ban_addr_def addrs.Reset_ok ranges.Reset_ok)
qed

lemma localhost_plain: "ban_addr a \<Longrightarrow> na_type a = NETTYPE_IPV4 \<or> na_type a = NETTYPE_IPV6 \<Longrightarrow> plain_addr a = a"
  by (auto simp: plain_addr_def nettypes)

lemma runs_ok:
  assumes g: "resolver_ok g" and ok: "\<forall>x \<in> set ops. op_ok (snd x)"
  shows "\<exists>N' A R. ban_run ops (net_Init g N) = Some N' \<and> bans_of N' A R \<and> spares (localhosts (net_Init g N)) A R \<and>
    localhosts N' = localhosts (net_Init g N)"
  by (rule run_induct [OF _ _ ok]) (use Init_ok [OF g, of N] step_spares in \<open>auto simp: spares_def [of _ "[]"]\<close>)

subsection \<open>How long a ban lasts\<close>

fun keeps :: "netaddr \<Rightarrow> int \<Rightarrow> int \<times> ban_op \<Rightarrow> bool" where
  "keeps a e (Now, OpBanAddr b s t v) = (\<not> same_address b a)"
| "keeps a e (Now, OpUnbanByAddr b) = (\<not> same_address b a)"
| "keeps a e (Now, OpUnbanByIndex i) = False"
| "keeps a e (Now, OpUnbanAll) = False"
| "keeps a e (Now, OpUpdate) = (Now \<le> e)"
| "keeps a e _ = True"

definition has_ban :: "netaddr \<Rightarrow> int \<Rightarrow> netaddr entry list \<Rightarrow> bool" where
  "has_ban a e A \<longleftrightarrow> (\<exists>x \<in> set A. same_address (fst x) a \<and> entry_expires x = e)"

lemma same_address_comp: "ban_addr x \<Longrightarrow> ban_addr y \<Longrightarrow> NetComp x y = 0 \<longleftrightarrow> same_address x y"
  using NetComp_key [of x y] by (simp add: ban_addr_def same_address_def)

lemma same_address_trans: "same_address x y \<Longrightarrow> same_address x z \<longleftrightarrow> same_address y z"
  by (auto simp: same_address_def)

text \<open>The ban found for another address is another ban.\<close>

lemma spec_find_other:
  assumes "\<forall>x \<in> set A. ban_addr (fst x)" "ban_addr b" "spec_find CBanAddrPool b A = Some y" "\<not> same_address b a"
  shows "\<not> same_address (fst y) a" "y \<in> set A"
proof -
  have y: "y \<in> set A" "NetComp (fst y) b = 0" using find_SomeD [OF assms(3) [unfolded spec_find_def]] by (simp_all add: ban_types)
  show "y \<in> set A" by (rule y)
  show "\<not> same_address (fst y) a" using same_address_comp [of "fst y" b] y assms(1,2,4) same_address_trans [of "fst y" b a] by simp
qed

lemma has_ban_mono: "has_ban a e A \<Longrightarrow> (\<And>x. x \<in> set A \<Longrightarrow> same_address (fst x) a \<Longrightarrow> entry_expires x = e \<Longrightarrow> x \<in> set A') \<Longrightarrow> has_ban a e A'"
  by (auto simp: has_ban_def)

lemma keep_remove1: "x \<in> set A \<Longrightarrow> same_address (fst x) a \<Longrightarrow> \<not> same_address (fst y) a \<Longrightarrow> x \<in> set (remove1 y A)"
  by (cases "x = y") auto

lemma step_keeps_ban:
  assumes A: "\<forall>x \<in> set A. ban_addr (fst x)" and op: "op_ok op" "keeps a e (Now, op)" and h: "has_ban a e A"
  shows "has_ban a e (fst (snd (spec_step lo Now op (A, R))))"
proof (cases op)
  case (OpBanAddr b s t v)
  have b: "ban_addr b" "\<not> same_address b a" using op by (simp_all add: OpBanAddr)
  have "has_ban a e (snd (spec_Ban CBanAddrPool b i A))" for i
  proof (cases "spec_find CBanAddrPool b A")
    case (Some y)
    show ?thesis by (rule has_ban_mono [OF h]) (use spec_find_other [OF A b(1) Some b(2)] in \<open>simp add: spec_Ban_def Some keep_remove1\<close>)
  next
    case None
    show ?thesis by (rule has_ban_mono [OF h]) (auto simp: spec_Ban_def None)
  qed
  then show ?thesis using h by (simp add: OpBanAddr case_prod_beta)
next
  case (OpUnbanByAddr b)
  have b: "ban_addr b" "\<not> same_address b a" using op by (simp_all add: OpUnbanByAddr)
  have "has_ban a e (snd (spec_Unban CBanAddrPool b A))"
  proof (cases "spec_find CBanAddrPool b A")
    case (Some y)
    show ?thesis by (rule has_ban_mono [OF h]) (use spec_find_other [OF A b(1) Some b(2)] in \<open>simp add: spec_Unban_def Some keep_remove1\<close>)
  qed (use h in \<open>simp add: spec_Unban_def\<close>)
  then show ?thesis by (simp add: OpUnbanByAddr case_prod_beta)
next
  case OpUpdate
  have "has_ban a e (live_bans Now A)"
    by (rule has_ban_mono [OF h]) (use op OpUpdate in \<open>simp add: live_bans_def is_expired_def\<close>)
  then show ?thesis by (simp add: OpUpdate)
qed (use h op in \<open>auto simp: case_prod_beta\<close>)

lemma run_keeps:
  assumes N: "bans_of N A R" "has_ban a e A" and ok: "\<forall>x \<in> set ops. op_ok (snd x) \<and> keeps a e x"
  shows "\<exists>N' A' R'. ban_run ops N = Some N' \<and> bans_of N' A' R' \<and> has_ban a e A'"
  using assms
proof (induction ops arbitrary: N A R)
  case (Cons x ops)
  obtain Now op where x: "x = (Now, op)" by (cases x)
  define s where "s = spec_step (localhosts N) Now op (A, R)"
  have "refines (ban_step Now op N) N s" unfolding s_def by (rule step_refines) (use Cons.prems x in auto)
  then obtain N1 where N1: "ban_step Now op N = Some (fst s, N1)" "bans_of N1 (fst (snd s)) (snd (snd s))" by (auto simp: refines_def)
  have A: "\<forall>x \<in> set A. ban_addr (fst x)" using addrs.bans_are_facts(3) [OF bans_ofD(1) [OF Cons.prems(1)]] by blast
  have "has_ban a e (fst (snd s))" unfolding s_def by (rule step_keeps_ban [OF A]) (use Cons.prems x in auto)
  from Cons.IH [OF N1(2) this] show ?case using Cons.prems(3) by (simp add: x N1(1))
qed auto

lemma Ban_adds:
  assumes "\<not> is_localhost lo (NetMatch a)" "ban_addr a" "\<forall>x \<in> set A. ban_addr (fst x)"
    "fst (spec_step lo Now (OpBanAddr a s t v) (A, R)) \<ge> 0" "s > 0"
  shows "has_ban a (Now + s) (fst (snd (spec_step lo Now (OpBanAddr a s t v) (A, R))))"
proof -
  define i where "i = new_info Now s t v"
  have e: "entry_expires (x, i) = Now + s" for x :: netaddr using assms(5) by (simp add: entry_expires_def i_def new_info_def)
  have "has_ban a (Now + s) (snd (spec_Ban CBanAddrPool a i A))" if c: "fst (spec_Ban CBanAddrPool a i A) \<ge> 0"
  proof (cases "spec_find CBanAddrPool a A")
    case (Some y)
    then have "y \<in> set A" "NetComp (fst y) a = 0" using find_SomeD by (fastforce simp: spec_find_def ban_types)+
    then have "same_address (fst y) a" using same_address_comp [of "fst y" a] assms(2,3) by blast
    then show ?thesis using e [of "fst y"] by (auto simp: has_ban_def spec_Ban_def Some)
  next
    case None
    have "length A < MAX_BANS" using c by (simp add: spec_Ban_def None split: if_splits)
    then show ?thesis using e [of a] by (auto simp: has_ban_def spec_Ban_def None same_address_def)
  qed
  then show ?thesis using assms(1,4) by (simp add: case_prod_beta i_def)
qed

lemma ban_until:
  assumes N: "bans_of N A R" and a: "ban_addr a" "plain_addr a = a" and ban: "BanAddr Now a s t v N = Some (c, N1)" "c \<ge> 0" "s > 0"
    and ok: "\<forall>x \<in> set ops. op_ok (snd x) \<and> keeps a (Now + s) x" and late: "Now + s < Late" and pos: "0 \<le> Now"
  shows "\<exists>N2 m N3 A3 R3. ban_run ops N1 = Some N2 \<and> IsBanned Now2 a n N2 = Some (Some m) \<and> net_Update Late N2 = Some N3 \<and>
     bans_of N3 A3 R3 \<and> (\<forall>x \<in> set A3. \<not> same_address (fst x) a)"
proof -
  have A: "\<forall>x \<in> set A. ban_addr (fst x)" using addrs.bans_are_facts(3) [OF bans_ofD(1) [OF N]] by blast
  define q where "q = spec_step (localhosts N) Now (OpBanAddr a s t v) (A, R)"
  have "refines (BanAddr Now a s t v N) N q" unfolding q_def by (rule BanAddr_refines [OF N a(1)])
  then have q: "fst q = c" "bans_of N1 (fst (snd q)) (snd (snd q))" using ban(1) by (auto simp: refines_def)
  have l: "\<not> is_localhost (localhosts N) (NetMatch a)"
  proof
    assume "is_localhost (localhosts N) (NetMatch a)"
    then have "fst q = - 1" by (simp add: q_def)
    then show False using q(1) ban(2) by simp
  qed
  have h: "has_ban a (Now + s) (fst (snd q))"
    unfolding q_def by (rule Ban_adds [OF l a(1) A]) (use q(1) ban(2,3) in \<open>simp_all add: q_def\<close>)
  obtain N2 A2 R2 where N2: "ban_run ops N1 = Some N2" "bans_of N2 A2 R2" "has_ban a (Now + s) A2"
    using run_keeps [OF q(2) h ok] by blast
  have "spec_banned A2 R2 a" using N2(3) by (auto simp: has_ban_def spec_banned_def)
  then obtain m where m: "IsBanned Now2 a n N2 = Some (Some m)" using IsBanned_spec [OF N2(2), of a Now2 n] a by auto
  have "refines (ban_step Late OpUpdate N2) N2 (spec_step (localhosts N2) Late OpUpdate (A2, R2))"
    by (rule step_refines [OF N2(2)]) simp
  then obtain N3 where N3: "net_Update Late N2 = Some N3" "bans_of N3 (live_bans Late A2) (live_bans Late R2)" by (auto simp: refines_def)
  obtain x where x: "x \<in> set A2" "same_address (fst x) a" "entry_expires x = Now + s" using N2(3) by (auto simp: has_ban_def)
  have "\<not> same_address (fst y) a" if y: "y \<in> set (live_bans Late A2)" for y
  proof
    assume s: "same_address (fst y) a"
    have "y \<in> set A2" using y live_bans_subset by blast
    moreover have "NetComp (fst y) (fst x) = 0"
      using same_address_comp [of "fst y" "fst x"] s x addrs.bans_are_facts(3) [OF bans_ofD(1) [OF N2(2)]] \<open>y \<in> set A2\<close>
      by (auto simp: same_address_def)
    ultimately have "y = x" using addrs.bans_are_facts(4) [OF bans_ofD(1) [OF N2(2)], of y x] x(1) by (simp add: ban_types)
    then show False using y x(3) late pos ban(3) by (auto simp: live_bans_def is_expired_def EXPIRES_NEVER_def)
  qed
  then show ?thesis using N2(1) m N3 by blast
qed

subsection \<open>The properties\<close>

definition no_resolver :: "bytes \<Rightarrow> bool option \<Rightarrow> sockaddr option" where
  "no_resolver host f = None"

definition some_bans :: net_ban where
  "some_bans = \<lparr>nb_BanAddrPool = bans_Reset NETADDR_ZEROED, nb_BanRangePool = bans_Reset \<lparr>nr_LB = NETADDR_ZEROED, nr_UB = NETADDR_ZEROED\<rparr>,
     nb_LocalhostIpV4 = NETADDR_ZEROED, nb_LocalhostIpV6 = NETADDR_ZEROED, nb_Console = []\<rparr>"

definition player_addr :: netaddr where
  "player_addr = \<lparr>na_type = NETTYPE_IPV4, na_ip = [10, 1, 2, 3] @ replicate 12 0, na_port = 8303\<rparr>"

lemma no_resolver_ok: "resolver_ok no_resolver"
  by (simp add: resolver_ok_def no_resolver_def)

lemma player_addr_ok: "ban_addr player_addr" "plain_addr player_addr = player_addr"
  by (simp_all add: player_addr_def ban_addr_def plain_addr_def nettypes)

lemma some_bans_ok: "bans_of some_bans [] []"
  by (simp add: some_bans_def bans_of_def addrs.Reset_ok ranges.Reset_ok)

text \<open>C8: every operation of the ban list, on the arrays, links and hash buckets of the code, returns and does what its
  specification does on two sorted lists of bans, with the same return code: a ban of known data
  updates the ban and moves it to its place, a new one is put in its place unless 2048 are in use, own addresses and
  invalid ranges are refused, and an update drops the expired bans.\<close>

theorem ban_list_refines:
  assumes "bans_of N A R" "op_ok op"
  shows "\<exists>N'. ban_step Now op N = Some (fst (spec_step (localhosts N) Now op (A, R)), N') \<and>
    bans_of N' (fst (snd (spec_step (localhosts N) Now op (A, R)))) (snd (snd (spec_step (localhosts N) Now op (A, R)))) \<and>
    localhosts N' = localhosts N"
  using step_refines [OF assms, of Now] unfolding refines_def .

theorem ban_list_refines_witness:
  "\<exists>N'. ban_step 100 (OpUnbanByIndex 0) some_bans = Some (- 1, N') \<and> bans_of N' [] []"
  using ban_list_refines [OF some_bans_ok, of "OpUnbanByIndex 0" 100] by auto

text \<open>C9: the check of an incoming address says banned exactly if the address, with a websocket address taken as the plain
  one, is one of the banned addresses or, as a number, lies between the ends of a banned range. The hash table of prefixes loses no range.\<close>

theorem is_banned_iff:
  assumes "bans_of N A R" "ban_addr (plain_addr a)"
  shows "\<exists>x. IsBanned Now a n N = Some x \<and>
    (x \<noteq> None \<longleftrightarrow> (\<exists>b \<in> set A. same_address (fst b) (plain_addr a)) \<or> (\<exists>r \<in> set R. in_net_range (fst r) (plain_addr a)))"
  using IsBanned_spec [OF assms] unfolding spec_banned_def .

theorem is_banned_iff_witness: "\<exists>x. IsBanned 100 player_addr 128 some_bans = Some x \<and> x = None"
  using is_banned_iff [OF some_bans_ok, of player_addr 100 128] player_addr_ok by auto

text \<open>C10: in every run of commands on a new ban list no assertion fails and every loop ends; the bans are sorted by their
  end, at most 2048 addresses and ranges each, no two for the same address or range; and the
  addresses of the machine itself are never banned, neither alone nor by a range.\<close>

theorem ban_runs:
  assumes "resolver_ok g" "\<forall>x \<in> set ops. op_ok (snd x)"
  shows "\<exists>N' A R. ban_run ops (net_Init g N) = Some N' \<and> bans_of N' A R \<and> by_expiry entry_expires A \<and> by_expiry entry_expires R \<and>
    length A \<le> MAX_BANS \<and> length R \<le> MAX_BANS \<and>
    (\<forall>x \<in> set A. \<forall>y \<in> set A. NetComp (fst x) (fst y) = 0 \<longrightarrow> x = y) \<and> (\<forall>x \<in> set R. \<forall>y \<in> set R. NetComp_range (fst x) (fst y) = 0 \<longrightarrow> x = y) \<and>
    IsBanned Now (nb_LocalhostIpV4 N') n N' = Some None \<and> IsBanned Now (nb_LocalhostIpV6 N') n N' = Some None"
proof -
  obtain N' A R where N': "ban_run ops (net_Init g N) = Some N'" "bans_of N' A R" "spares (localhosts (net_Init g N)) A R"
      "localhosts N' = localhosts (net_Init g N)"
    using runs_ok [OF assms] by blast
  note I = Init_ok [OF assms(1), of N]
  have lo: "nb_LocalhostIpV4 N' = nb_LocalhostIpV4 (net_Init g N)" "nb_LocalhostIpV6 N' = nb_LocalhostIpV6 (net_Init g N)"
    using N'(4) by (simp_all add: localhosts_def)
  have "IsBanned Now a n N' = Some None" if a: "a = nb_LocalhostIpV4 N' \<or> a = nb_LocalhostIpV6 N'" for a
  proof -
    have w: "ban_addr a" "plain_addr a = a" using I a localhost_plain unfolding lo by blast+
    have "\<not> spec_banned A R a" by (rule spares_not_banned [OF N'(2,3) w(1)]) (use a lo in \<open>auto simp: localhosts_def\<close>)
    then show ?thesis using IsBanned_spec [OF N'(2), of a Now n] w by auto
  qed
  note ab = addrs.bans_are_facts [OF bans_ofD(1) [OF N'(2)]] and rb = ranges.bans_are_facts [OF bans_ofD(2) [OF N'(2)]]
  have "\<forall>x \<in> set A. \<forall>y \<in> set A. NetComp (fst x) (fst y) = 0 \<longrightarrow> x = y" "\<forall>x \<in> set R. \<forall>y \<in> set R. NetComp_range (fst x) (fst y) = 0 \<longrightarrow> x = y"
    using ab(4) rb(4) unfolding ban_types by blast+
  then show ?thesis using N'(1,2) ab(1,2) rb(1,2) \<open>\<And>a. a = nb_LocalhostIpV4 N' \<or> a = nb_LocalhostIpV6 N' \<Longrightarrow> IsBanned Now a n N' = Some None\<close>
    by blast
qed

theorem ban_runs_witness:
  "\<exists>N' A R. ban_run [(100, OpBanAddr player_addr 60 [] False), (200, OpUpdate)] (net_Init no_resolver some_bans) = Some N' \<and> bans_of N' A R \<and>
    length A \<le> MAX_BANS \<and> IsBanned 300 (nb_LocalhostIpV4 N') 128 N' = Some None"
proof -
  have "\<forall>x \<in> set [(100, OpBanAddr player_addr 60 [] False), (200, OpUpdate)]. op_ok (snd x)" using player_addr_ok by simp
  from ban_runs [OF no_resolver_ok this, of some_bans 300 128] show ?thesis by blast
qed



text \<open>C20: a ban of a websocket client is without effect. The server agrees to ban the address of the client, but stores
  it as a websocket address, while the check looks for the plain address: the client is not banned.\<close>

theorem websocket_ban_ineffective:
  assumes "resolver_ok g" "ban_addr a" "plain_addr a \<noteq> a"
  shows "\<exists>N'. BanAddr Now a s t v (net_Init g N) = Some (0, N') \<and> IsBanned Now a n N' = Some None"
proof -
  note I = Init_ok [OF assms(1), of N]
  have ty: "na_type a = NETTYPE_WEBSOCKET_IPV4 \<or> na_type a = NETTYPE_WEBSOCKET_IPV6" using assms(2,3)
    by (auto simp: ban_addr_def plain_addr_def split: if_splits)
  have p: "ban_addr (plain_addr a)" "na_type (plain_addr a) \<noteq> na_type a"
    using assms(2) ty by (auto simp: ban_addr_def plain_addr_def nettypes)
  have "\<not> NetMatch a b" if "ban_addr b" "na_type b = NETTYPE_IPV4 \<or> na_type b = NETTYPE_IPV6" for b
    using NetComp_key [of a b] that assms(2) ty by (auto simp: NetMatch_def ban_addr_def nettypes)
  then have l: "\<not> is_localhost (localhosts (net_Init g N)) (NetMatch a)" using I by (auto simp: is_localhost_def localhosts_def)
  have "spec_step (localhosts (net_Init g N)) Now (OpBanAddr a s t v) ([], []) = (0, [(a, new_info Now s t v)], [])"
    using l by (simp add: spec_Ban_def spec_find_def put_before_def MAX_BANS_def)
  then obtain N' where N': "BanAddr Now a s t v (net_Init g N) = Some (0, N')" "bans_of N' [(a, new_info Now s t v)] []"
    using BanAddr_refines [OF conjunct1 [OF I] assms(2), of Now s t v] by (auto simp: refines_def)
  have "\<not> spec_banned [(a, new_info Now s t v)] [] (plain_addr a)" using p(2) by (simp add: spec_banned_def same_address_def)
  then show ?thesis using N'(1) IsBanned_spec [OF N'(2) p(1), of Now n] by auto
qed

theorem websocket_ban_ineffective_witness:
  "\<exists>N'. BanAddr 100 (player_addr\<lparr>na_type := NETTYPE_WEBSOCKET_IPV4\<rparr>) 60 [] False (net_Init no_resolver some_bans) = Some (0, N') \<and>
    IsBanned 100 (player_addr\<lparr>na_type := NETTYPE_WEBSOCKET_IPV4\<rparr>) 128 N' = Some None"
  by (rule websocket_ban_ineffective [OF no_resolver_ok]) (simp_all add: player_addr_def ban_addr_def plain_addr_def nettypes)

end
