(* ===== verification/PlayerMap.thy ===== *)
theory PlayerMap
  imports NetConn
begin

text \<open>
  The player mapping (game/server/playermapping.cpp): a client that knows only 64 (or 16) players sees the
  128 players of the server through a table of slots, and the server keeps for every client that table and its
  inverse. The two tables belong to the client in the server (engine/server/server.cpp), the rest to
  \<open>CPlayerMap\<close>. An access outside an array and a failed assertion have no result. The messages that a client
  gets are a log. What the mapping asks the game for is the record \<open>pm_env\<close>; the squared distances are only compared,
  so that numbers in their order stand for them.
\<close>

subsection \<open>Arrays\<close>

definition arr_at :: "'a list \<Rightarrow> int \<Rightarrow> 'a option" where
  "arr_at xs i = (if 0 \<le> i \<and> i < int (length xs) then Some (xs ! nat i) else None)"

definition arr_upd :: "'a list \<Rightarrow> int \<Rightarrow> 'a \<Rightarrow> 'a list option" where
  "arr_upd xs i v = (if 0 \<le> i \<and> i < int (length xs) then Some (xs[nat i := v]) else None)"

subsection \<open>The game\<close>

definition SERVER_CLIENTS :: int where "SERVER_CLIENTS = 128"
definition LEGACY_MAX_CLIENTS :: int where "LEGACY_MAX_CLIENTS = 64"
definition VANILLA_MAX_CLIENTS :: int where "VANILLA_MAX_CLIENTS = 16"
definition VERSION_DDNET_OLD :: int where "VERSION_DDNET_OLD = 2"
definition VERSION_DDNET_128_PLAYERS :: int where "VERSION_DDNET_128_PLAYERS = 19000"

record pm_env =
  pe_HasPlayer :: "int \<Rightarrow> bool"
  pe_Ingame :: "int \<Rightarrow> bool"
  pe_HasChar :: "int \<Rightarrow> bool"
  pe_Idle :: "int \<Rightarrow> bool"
  pe_NetworkClipped :: "int \<Rightarrow> int \<Rightarrow> bool"
  pe_Distance :: "int \<Rightarrow> int \<Rightarrow> int"
  pe_Team :: "int \<Rightarrow> int"
  pe_Addr :: "int \<Rightarrow> netaddr"
  pe_Sixup :: "int \<Rightarrow> bool"
  pe_DDNetVersion :: "int \<Rightarrow> int"
  pe_MaxClients :: int
  pe_ClientCount :: int
  pe_Now :: int
  pe_TickSpeed :: int
  pe_MapUpdateRate :: int
  pe_SoloServer :: bool

definition GetMaxClients :: "pm_env \<Rightarrow> int \<Rightarrow> int" where
  "GetMaxClients E ClientId =
     (if pe_Sixup E ClientId then LEGACY_MAX_CLIENTS
      else if pe_DDNetVersion E ClientId \<ge> VERSION_DDNET_128_PLAYERS then SERVER_CLIENTS
      else if pe_DDNetVersion E ClientId \<ge> VERSION_DDNET_OLD then LEGACY_MAX_CLIENTS
      else VANILLA_MAX_CLIENTS)"

definition ClientSupportsServerMaxClients :: "pm_env \<Rightarrow> int \<Rightarrow> bool" where
  "ClientSupportsServerMaxClients E ClientId \<longleftrightarrow> GetMaxClients E ClientId \<ge> pe_MaxClients E \<and> \<not> pe_Sixup E ClientId"

definition SeeOthersId :: "pm_env \<Rightarrow> int \<Rightarrow> int" where
  "SeeOthersId E ClientId = GetMaxClients E ClientId - 2"

subsection \<open>State\<close>

text \<open>The messages for the client: a player in a slot, an empty slot, the two slots with a fake player, the teams.\<close>

datatype map_msg = SendConnect int int | SendDisconnect int | FakePlayer int bytes | FakeDrop int | SendTeamsState

record id_map =
  im_NumReserved :: int
  im_UpdateTeamsState :: bool
  im_aReserved :: "bool list"
  im_ResortReserved :: bool
  im_pMap :: "int list"
  im_pReverseMap :: "int list"
  im_SeeOthersPage :: int
  im_TotalOverhang :: int
  im_NumPages :: int
  im_NumSeeOthers :: int
  im_aWasSeeOthers :: "bool list"
  im_LastSeeOthersVoteTick :: int
  im_DoSeeOthersByVote :: bool
  im_Sent :: "map_msg list"

record team_info =
  tm_aTeamSizes :: "int list"
  tm_ReserveAnyTeamSlots :: bool

definition map_send :: "map_msg \<Rightarrow> id_map \<Rightarrow> id_map" where
  "map_send msg m = m\<lparr>im_Sent := im_Sent m @ [msg]\<rparr>"

definition MapSize :: "pm_env \<Rightarrow> int \<Rightarrow> id_map \<Rightarrow> int" where
  "MapSize E k m = GetMaxClients E k - im_NumReserved m"

definition ReserveTeamSlots :: "pm_env \<Rightarrow> team_info \<Rightarrow> int \<Rightarrow> int \<Rightarrow> bool option" where
  "ReserveTeamSlots E T DDTeam ClientId =
     (if pe_SoloServer E \<or> \<not> tm_ReserveAnyTeamSlots T \<or> DDTeam = 0 then Some False
      else do { n \<leftarrow> arr_at (tm_aTeamSizes T) DDTeam; Some (n \<le> 10 \<and> pe_DDNetVersion E ClientId \<ge> VERSION_DDNET_OLD) })"

subsection \<open>Slots\<close>

definition map_Remove :: "pm_env \<Rightarrow> int \<Rightarrow> int \<Rightarrow> id_map \<Rightarrow> (int \<times> id_map) option" where
  "map_Remove E k MapId m =
     (if \<not> pe_HasPlayer E k then None
      else if MapId = - 1 then Some (- 1, m)
      else do {
        ClientId \<leftarrow> arr_at (im_pMap m) MapId;
        if ClientId = - 1 then Some (- 1, m)
        else do {
          Reserved \<leftarrow> arr_at (im_aReserved m) ClientId;
          let m1 = m\<lparr>im_UpdateTeamsState := (im_UpdateTeamsState m \<or> pe_Team E ClientId > 0),
                im_ResortReserved := (im_ResortReserved m \<or> Reserved)\<rparr>;
              m2 = (if pe_Sixup E k then map_send (SendDisconnect MapId) m1 else m1) in do {
          rev \<leftarrow> arr_upd (im_pReverseMap m2) ClientId (- 1);
          mp \<leftarrow> arr_upd (im_pMap m2) MapId (- 1);
          Some (ClientId, m2\<lparr>im_pReverseMap := rev, im_pMap := mp\<rparr>) } } })"

definition map_Add :: "pm_env \<Rightarrow> int \<Rightarrow> int \<Rightarrow> int \<Rightarrow> id_map \<Rightarrow> id_map option" where
  "map_Add E k MapId ClientId m =
     (if \<not> pe_HasPlayer E k then None
      else if MapId = - 1 \<or> ClientId = - 1 then Some m
      else do {
        Old \<leftarrow> arr_at (im_pReverseMap m) ClientId;
        if Old = MapId then Some m
        else do {
          (_, m1) \<leftarrow> map_Remove E k Old m;
          (OldClientId, m2) \<leftarrow> map_Remove E k MapId m1;
          Reserved \<leftarrow> arr_at (im_aReserved m2) ClientId;
          mp \<leftarrow> arr_upd (im_pMap m2) MapId ClientId;
          rev \<leftarrow> arr_upd (im_pReverseMap m2) ClientId MapId;
          let m3 = m2\<lparr>im_UpdateTeamsState := (im_UpdateTeamsState m2 \<or> OldClientId = - 1 \<and> pe_Team E ClientId > 0 \<or>
                  OldClientId \<noteq> - 1 \<and> pe_Team E OldClientId \<noteq> pe_Team E ClientId),
                im_ResortReserved := (im_ResortReserved m2 \<or> Reserved), im_pMap := mp, im_pReverseMap := rev\<rparr>
          in Some (if pe_Sixup E k \<and> pe_HasPlayer E ClientId then map_send (SendConnect MapId ClientId) m3 else m3) } })"

text \<open>The first slot whose player passes a test.\<close>

fun first_slot :: "(int \<Rightarrow> bool option) \<Rightarrow> int list \<Rightarrow> int list \<Rightarrow> int option option" where
  "first_slot P mp [] = Some None"
| "first_slot P mp (j # js) = do { c \<leftarrow> arr_at mp j; b \<leftarrow> P c; if b then Some (Some j) else first_slot P mp js }"

definition slots_below :: "pm_env \<Rightarrow> int \<Rightarrow> id_map \<Rightarrow> int list" where
  "slots_below E k m = [0..MapSize E k m - im_NumSeeOthers m - 1]"

definition not_reserved :: "id_map \<Rightarrow> int \<Rightarrow> bool option" where
  "not_reserved m c = (if c = - 1 then Some True else map_option Not (arr_at (im_aReserved m) c))"

definition replaceable :: "pm_env \<Rightarrow> int \<Rightarrow> id_map \<Rightarrow> int \<Rightarrow> bool option" where
  "replaceable E k m c =
     (if c = - 1 then Some True
      else do { r \<leftarrow> arr_at (im_aReserved m) c; Some (\<not> r \<and> (\<not> pe_HasChar E c \<or> pe_NetworkClipped E c k)) })"

text \<open>The slot of the farthest player that is farther away than \<open>MaxDist\<close>, or \<open>-1\<close>.\<close>

fun farthest_slot :: "pm_env \<Rightarrow> int \<Rightarrow> id_map \<Rightarrow> int list \<Rightarrow> int \<Rightarrow> int \<Rightarrow> int option" where
  "farthest_slot E k m [] ReplaceIndex MaxDist = Some ReplaceIndex"
| "farthest_slot E k m (i # js) ReplaceIndex MaxDist = do {
     c \<leftarrow> arr_at (im_pMap m) i;
     free \<leftarrow> (if c = - 1 then Some False else map_option Not (arr_at (im_aReserved m) c));
     if free \<and> pe_HasChar E c \<and> pe_Distance E k c > MaxDist then farthest_slot E k m js i (pe_Distance E k c)
     else farthest_slot E k m js ReplaceIndex MaxDist }"

definition InsertNextEmptyOrReplace :: "pm_env \<Rightarrow> int \<Rightarrow> int \<Rightarrow> id_map \<Rightarrow> id_map option" where
  "InsertNextEmptyOrReplace E k ClientId m =
     (if ClientId = - 1 then Some m
      else do {
        s \<leftarrow> arr_at (im_pReverseMap m) ClientId;
        if s \<noteq> - 1 then Some m
        else do {
          free \<leftarrow> first_slot (replaceable E k m) (im_pMap m) (slots_below E k m);
          (case free of Some i \<Rightarrow> map_Add E k i ClientId m
           | None \<Rightarrow>
             if \<not> pe_HasChar E ClientId \<or> \<not> pe_HasPlayer E k then Some m
             else do {
               ReplaceIndex \<leftarrow> farthest_slot E k m (slots_below E k m) (- 1) (pe_Distance E k ClientId);
               if ReplaceIndex \<noteq> - 1 then map_Add E k ReplaceIndex ClientId m else Some m }) } })"

subsection \<open>See others\<close>

text \<open>The slots above the last reserved one.\<close>

fun free_tail :: "id_map \<Rightarrow> int list \<Rightarrow> int option" where
  "free_tail m [] = Some 0"
| "free_tail m (i # js) = do {
     c \<leftarrow> arr_at (im_pMap m) i;
     stop \<leftarrow> (if c = - 1 then Some False else arr_at (im_aReserved m) c);
     if stop then Some 0 else map_option (\<lambda>n. n + 1) (free_tail m js) }"

definition MaxNumSeeOthers :: "pm_env \<Rightarrow> int \<Rightarrow> id_map \<Rightarrow> int option" where
  "MaxNumSeeOthers E k m =
     (let Max' = (if GetMaxClients E k = VANILLA_MAX_CLIENTS then 13 else 34) in
      map_option (\<lambda>n. min Max' (min (MapSize E k m) n)) (free_tail m (rev [0..MapSize E k m - 1])))"

definition dot_text :: bytes where
  "dot_text = [0xE2, 0x8B, 0x85, 0x20]"

definition SeeOthersName :: "pm_env \<Rightarrow> int \<Rightarrow> id_map \<Rightarrow> bytes option" where
  "SeeOthersName E k m =
     (let Page = im_SeeOthersPage m + 1 in
      if im_NumPages m > 1 \<and> Page = im_NumPages m then
        Some (str_copy (dot_text @ int_text Page @ lit ''/'' @ int_text Page @ lit '' | Close'') 16)
      else if im_SeeOthersPage m \<noteq> - 1 then do {
        n \<leftarrow> MaxNumSeeOthers E k m;
        if im_TotalOverhang m > n then Some (str_copy (dot_text @ int_text Page @ lit ''/'' @ int_text (im_NumPages m)) 16)
        else Some (dot_text @ lit ''Close'') }
      else Some (str_copy (dot_text @ int_text (im_TotalOverhang m) @ lit '' others'') 16))"

definition UpdateSeeOthers :: "pm_env \<Rightarrow> int \<Rightarrow> id_map \<Rightarrow> id_map option" where
  "UpdateSeeOthers E k m =
     (if \<not> pe_Sixup E k then Some m
      else do {
        name \<leftarrow> SeeOthersName E k m;
        Some (map_send (FakePlayer (SeeOthersId E k) name) (map_send (FakeDrop (SeeOthersId E k)) m)) })"

definition ResetSeeOthers :: "pm_env \<Rightarrow> int \<Rightarrow> id_map \<Rightarrow> id_map option" where
  "ResetSeeOthers E k m =
     UpdateSeeOthers E k (m\<lparr>im_SeeOthersPage := - 1, im_NumSeeOthers := 0,
       im_aWasSeeOthers := map (\<lambda>b. False) (im_aWasSeeOthers m), im_UpdateTeamsState := True\<rparr>)"

text \<open>The players who are in the table have been seen.\<close>

fun mark_seen :: "int list \<Rightarrow> int list \<Rightarrow> bool list \<Rightarrow> bool list option" where
  "mark_seen mp [] was = Some was"
| "mark_seen mp (i # js) was = do {
     c \<leftarrow> arr_at mp i;
     was1 \<leftarrow> (if c \<noteq> - 1 then arr_upd was c True else Some was);
     mark_seen mp js was1 }"

fun cycle_loop :: "pm_env \<Rightarrow> int \<Rightarrow> int \<Rightarrow> int list \<Rightarrow> int \<Rightarrow> int \<Rightarrow> id_map \<Rightarrow> (int \<times> id_map) option" where
  "cycle_loop E k Size' [] Added MapId m = Some (Added, m)"
| "cycle_loop E k Size' (i # js) Added MapId m = do {
     was \<leftarrow> (if pe_HasPlayer E i then arr_at (im_aWasSeeOthers m) i else Some True);
     if was then cycle_loop E k Size' js Added MapId m
     else if Added \<ge> Size' then Some (Added, m)
     else do {
       m1 \<leftarrow> map_Add E k MapId i m;
       w \<leftarrow> arr_upd (im_aWasSeeOthers m1) i True;
       cycle_loop E k Size' js (Added + 1) (MapId - 1) (m1\<lparr>im_aWasSeeOthers := w\<rparr>) } }"

definition CycleSeeOthers :: "pm_env \<Rightarrow> int \<Rightarrow> id_map \<Rightarrow> id_map option" where
  "CycleSeeOthers E k m =
     (if im_TotalOverhang m \<le> 0 then Some m
      else do {
        was \<leftarrow> mark_seen (im_pMap m) [0..GetMaxClients E k - 1] (im_aWasSeeOthers m);
        let m1 = m\<lparr>im_aWasSeeOthers := was\<rparr> in do {
        n \<leftarrow> MaxNumSeeOthers E k m1;
        (Added, m2) \<leftarrow> cycle_loop E k (min (im_TotalOverhang m1) n) [0..SERVER_CLIENTS - 1] 0 (MapSize E k m1 - 1) m1;
        Some (m2\<lparr>im_NumSeeOthers := Added\<rparr>) } })"

subsection \<open>The regular update\<close>

text \<open>The slot for a player, \<open>-1\<close> if there is none, and the player's reservation.\<close>

definition slot_for :: "pm_env \<Rightarrow> int \<Rightarrow> bool \<Rightarrow> int \<Rightarrow> id_map \<Rightarrow> (int \<times> id_map) option" where
  "slot_for E k Team i m =
     (if Team then do {
        s \<leftarrow> first_slot (not_reserved m) (im_pMap m) (slots_below E k m);
        (case s of None \<Rightarrow> Some (- 1, m)
         | Some j \<Rightarrow> do { res \<leftarrow> arr_upd (im_aReserved m) i True; Some (j, m\<lparr>im_aReserved := res\<rparr>) }) }
      else do {
        r \<leftarrow> arr_at (im_pReverseMap m) i;
        if r \<noteq> - 1 then Some (r, m)
        else do {
          s \<leftarrow> first_slot (\<lambda>c. Some (c = - 1)) (im_pMap m) (slots_below E k m);
          Some (case s of None \<Rightarrow> - 1 | Some j \<Rightarrow> j, m) } })"

definition update_player :: "pm_env \<Rightarrow> team_info \<Rightarrow> int \<Rightarrow> bool \<Rightarrow> int \<Rightarrow> id_map \<Rightarrow> id_map option" where
  "update_player E T k Resort i m =
     (if i = k then Some m
      else if \<not> pe_Ingame E i \<or> \<not> pe_HasPlayer E i then do {
        r \<leftarrow> arr_at (im_pReverseMap m) i;
        (_, m1) \<leftarrow> map_Remove E k r m;
        res \<leftarrow> arr_upd (im_aReserved m1) i False;
        Some (m1\<lparr>im_aReserved := res\<rparr>) }
      else do {
        RTS \<leftarrow> ReserveTeamSlots E T (pe_Team E i) k;
        Reserved \<leftarrow> arr_at (im_aReserved m) i;
        if Reserved then
          (if net_addr_comp_noport (pe_Addr E k) (pe_Addr E i) \<noteq> 0 \<and> (Resort \<or> \<not> RTS) then do {
             res \<leftarrow> arr_upd (im_aReserved m) i False;
             Some (m\<lparr>im_aReserved := res, im_UpdateTeamsState := (im_UpdateTeamsState m \<or> pe_Team E i \<noteq> 0)\<rparr>) }
           else Some m)
        else if Resort then Some m
        else do {
          (Insert, m1) \<leftarrow> slot_for E k (pe_Team E i \<noteq> 0 \<and> RTS) i m;
          if Insert \<noteq> - 1 then map_Add E k Insert i m1
          else if pe_HasChar E i \<and> \<not> pe_NetworkClipped E i k then InsertNextEmptyOrReplace E k i m1
          else Some m1 } })"

fun update_players :: "pm_env \<Rightarrow> team_info \<Rightarrow> int \<Rightarrow> bool \<Rightarrow> int list \<Rightarrow> id_map \<Rightarrow> id_map option" where
  "update_players E T k Resort [] m = Some m"
| "update_players E T k Resort (i # js) m = do { m1 \<leftarrow> update_player E T k Resort i m; update_players E T k Resort js m1 }"

definition map_Update :: "pm_env \<Rightarrow> team_info \<Rightarrow> int \<Rightarrow> id_map \<Rightarrow> id_map option" where
  "map_Update E T k m =
     (if \<not> pe_Ingame E k \<or> \<not> pe_HasPlayer E k \<or> ClientSupportsServerMaxClients E k then Some m
      else do {
        m1 \<leftarrow> (if im_DoSeeOthersByVote m \<and> pe_HasChar E k \<and> \<not> pe_Idle E k
               then map_option (\<lambda>n. n\<lparr>im_DoSeeOthersByVote := False\<rparr>) (ResetSeeOthers E k m) else Some m);
        m2 \<leftarrow> update_players E T k (im_ResortReserved m1) [0..SERVER_CLIENTS - 1] (m1\<lparr>im_ResortReserved := False\<rparr>);
        Some (if im_UpdateTeamsState m2 then (map_send SendTeamsState m2)\<lparr>im_UpdateTeamsState := False\<rparr> else m2) })"

definition map_DoSeeOthers :: "pm_env \<Rightarrow> team_info \<Rightarrow> int \<Rightarrow> id_map \<Rightarrow> id_map option" where
  "map_DoSeeOthers E T k m =
     (if im_TotalOverhang m \<le> 0 then Some m
      else do {
        m1 \<leftarrow> UpdateSeeOthers E k (m\<lparr>im_SeeOthersPage := im_SeeOthersPage m + 1\<rparr>);
        m2 \<leftarrow> CycleSeeOthers E k m1;
        m3 \<leftarrow> (if im_NumSeeOthers m2 = 0 then do {
                 n \<leftarrow> CycleSeeOthers E k (m2\<lparr>im_aWasSeeOthers := map (\<lambda>b. False) (im_aWasSeeOthers m2)\<rparr>);
                 ResetSeeOthers E k n }
               else Some m2);
        map_Update E T k (m3\<lparr>im_UpdateTeamsState := True\<rparr>) })"

definition DoSeeOthers :: "pm_env \<Rightarrow> team_info \<Rightarrow> int \<Rightarrow> int \<Rightarrow> bool \<Rightarrow> id_map \<Rightarrow> (bool \<times> id_map) option" where
  "DoSeeOthers E T k SelectedId DoByVote m =
     (if ClientSupportsServerMaxClients E k then Some (False, m)
      else if SelectedId = SeeOthersId E k then
        (if DoByVote \<and> im_LastSeeOthersVoteTick m > pe_Now E - pe_TickSpeed E then Some (True, m)
         else let m1 = (if DoByVote then m\<lparr>im_LastSeeOthersVoteTick := pe_Now E, im_DoSeeOthersByVote := True\<rparr> else m)
              in map_option (Pair True) (map_DoSeeOthers E T k m1))
      else Some (False, m))"

subsection \<open>All clients\<close>

record player_mapping =
  pm_Teams :: team_info
  pm_aMap :: "id_map list"

definition on_map :: "int \<Rightarrow> (id_map \<Rightarrow> id_map option) \<Rightarrow> player_mapping \<Rightarrow> player_mapping option" where
  "on_map k f P = do {
     m \<leftarrow> arr_at (pm_aMap P) k;
     m1 \<leftarrow> f m;
     ms \<leftarrow> arr_upd (pm_aMap P) k m1;
     Some (P\<lparr>pm_aMap := ms\<rparr>) }"

fun on_maps :: "(int \<Rightarrow> id_map \<Rightarrow> id_map option) \<Rightarrow> int list \<Rightarrow> player_mapping \<Rightarrow> player_mapping option" where
  "on_maps f [] P = Some P"
| "on_maps f (k # ks) P = do { P1 \<leftarrow> on_map k (f k) P; on_maps f ks P1 }"

text \<open>The start of a map, with the tables of the client.\<close>

definition map_Init :: "pm_env \<Rightarrow> int \<Rightarrow> id_map \<Rightarrow> id_map option" where
  "map_Init E k m = ResetSeeOthers E k
     (m\<lparr>im_ResortReserved := False, im_aReserved := map (\<lambda>b. False) (im_aReserved m), im_NumPages := 0, im_TotalOverhang := 0,
       im_NumReserved := 0, im_LastSeeOthersVoteTick := 0, im_DoSeeOthersByVote := False\<rparr>)"

definition mapping_Init :: "pm_env \<Rightarrow> player_mapping \<Rightarrow> player_mapping option" where
  "mapping_Init E P = on_maps (map_Init E) [0..SERVER_CLIENTS - 1]
     (P\<lparr>pm_Teams := \<lparr>tm_aTeamSizes = map (\<lambda>n. 0) (tm_aTeamSizes (pm_Teams P)), tm_ReserveAnyTeamSlots = True\<rparr>\<rparr>)"

text \<open>The server forgets the tables of a client that is gone.\<close>

definition client_Reset :: "id_map \<Rightarrow> id_map" where
  "client_Reset m = m\<lparr>im_pMap := map (\<lambda>c. - 1) (im_pMap m), im_pReverseMap := map (\<lambda>c. - 1) (im_pReverseMap m)\<rparr>"

fun count_teams :: "pm_env \<Rightarrow> int list \<Rightarrow> int list \<Rightarrow> int list option" where
  "count_teams E [] sizes = Some sizes"
| "count_teams E (i # js) sizes =
     (if \<not> pe_HasPlayer E i then count_teams E js sizes
      else do { n \<leftarrow> arr_at sizes (pe_Team E i); sizes1 \<leftarrow> arr_upd sizes (pe_Team E i) (n + 1); count_teams E js sizes1 })"

definition count_all_teams :: "pm_env \<Rightarrow> team_info \<Rightarrow> team_info option" where
  "count_all_teams E T = do {
     sizes \<leftarrow> count_teams E [0..SERVER_CLIENTS - 1] (map (\<lambda>n. 0) (tm_aTeamSizes T));
     let NumReservable = sum_list (filter (\<lambda>n. n \<le> 10) (tl sizes)) in
     Some \<lparr>tm_aTeamSizes = sizes, tm_ReserveAnyTeamSlots = (pe_ClientCount E \<le> LEGACY_MAX_CLIENTS - 2 \<or> NumReservable \<le> 30)\<rparr> }"

definition update_map :: "pm_env \<Rightarrow> team_info \<Rightarrow> bool \<Rightarrow> int \<Rightarrow> id_map \<Rightarrow> id_map option" where
  "update_map E T Update k m =
     (if \<not> pe_HasPlayer E k \<or> ClientSupportsServerMaxClients E k then Some m
      else
        let Overhang = max 0 (pe_ClientCount E - MapSize E k m) in do {
        m1 \<leftarrow> (if Overhang \<noteq> im_TotalOverhang m then do {
                 n \<leftarrow> MaxNumSeeOthers E k m;
                 let m2 = m\<lparr>im_TotalOverhang := Overhang, im_NumPages := (if n > 0 then max 1 (c_div (Overhang + n - 1) n) else 1)\<rparr> in do {
                 m3 \<leftarrow> (if Overhang \<le> 0 \<and> im_SeeOthersPage m2 \<noteq> - 1 then ResetSeeOthers E k m2 else Some m2);
                 m4 \<leftarrow> UpdateSeeOthers E k m3;
                 Some (m4\<lparr>im_UpdateTeamsState := True\<rparr>) } }
               else Some m);
        if Update then map_Update E T k m1 else Some m1 })"

definition UpdatePlayerMaps :: "pm_env \<Rightarrow> player_mapping \<Rightarrow> player_mapping option" where
  "UpdatePlayerMaps E P =
     (let Update = (c_mod (pe_Now E) (pe_MapUpdateRate E) = 0) in do {
      T \<leftarrow> (if Update then count_all_teams E (pm_Teams P) else Some (pm_Teams P));
      on_maps (update_map E T Update) [0..SERVER_CLIENTS - 1] (P\<lparr>pm_Teams := T\<rparr>) })"

subsection \<open>A new client\<close>

text \<open>One pass over the players with the same address, and passes until a free slot is found: their numbers are below 64.\<close>

fun free_id_pass :: "pm_env \<Rightarrow> int \<Rightarrow> bool \<Rightarrow> player_mapping \<Rightarrow> int list \<Rightarrow> int \<Rightarrow> int option" where
  "free_id_pass E k Skip P [] NextFreeId = Some NextFreeId"
| "free_id_pass E k Skip P (i # js) NextFreeId =
     (if \<not> pe_HasPlayer E i \<or> net_addr_comp_noport (pe_Addr E k) (pe_Addr E i) \<noteq> 0 \<or> \<not> (i \<noteq> k \<or> Skip) then free_id_pass E k Skip P js NextFreeId
      else do {
        m \<leftarrow> arr_at (pm_aMap P) i;
        r \<leftarrow> arr_at (im_pReverseMap m) i;
        free_id_pass E k Skip P js (if r = NextFreeId then NextFreeId + 1 else NextFreeId) })"

partial_function (option) free_id_loop :: "pm_env \<Rightarrow> int \<Rightarrow> bool \<Rightarrow> player_mapping \<Rightarrow> int \<Rightarrow> int option" where
  "free_id_loop E k Skip P NextFreeId = do {
     n \<leftarrow> free_id_pass E k Skip P [0..SERVER_CLIENTS - 1] NextFreeId;
     if n = NextFreeId then Some n else free_id_loop E k Skip P n }"

declare free_id_loop.simps [code]

fun remove_slots :: "pm_env \<Rightarrow> int \<Rightarrow> int list \<Rightarrow> id_map \<Rightarrow> id_map option" where
  "remove_slots E k [] m = Some m"
| "remove_slots E k (i # js) m = do { (_, m1) \<leftarrow> map_Remove E k i m; remove_slots E k js m1 }"

text \<open>The own tables, before anybody is inserted.\<close>

definition clear_own :: "pm_env \<Rightarrow> int \<Rightarrow> bool \<Rightarrow> id_map \<Rightarrow> id_map option" where
  "clear_own E k ClearSlots m = do {
     m1 \<leftarrow> (if ClearSlots then remove_slots E k [0..LEGACY_MAX_CLIENTS - 1] (m\<lparr>im_UpdateTeamsState := True\<rparr>) else Some m);
     let m2 = m1\<lparr>im_pMap := map (\<lambda>c. - 1) (im_pMap m1), im_pReverseMap := map (\<lambda>c. - 1) (im_pReverseMap m1), im_NumReserved := 0\<rparr> in
     if ClientSupportsServerMaxClients E k then Some m2
     else do {
       mp1 \<leftarrow> arr_upd (im_pMap m2) (GetMaxClients E k - 1) (- 1);
       mp2 \<leftarrow> arr_upd mp1 (SeeOthersId E k) (- 1);
       let m3 = m2\<lparr>im_NumReserved := 2, im_pMap := mp2, im_TotalOverhang := 0\<rparr> in
       if pe_Sixup E k then UpdateSeeOthers E k (map_send (FakePlayer (GetMaxClients E k - 1) (lit '' '')) m3) else Some m3 } }"

definition reserve :: "int \<Rightarrow> id_map \<Rightarrow> id_map option" where
  "reserve i m = map_option (\<lambda>res. m\<lparr>im_aReserved := res\<rparr>) (arr_upd (im_aReserved m) i True)"

text \<open>Another player with the same address.\<close>

definition share_slots :: "pm_env \<Rightarrow> int \<Rightarrow> int \<Rightarrow> int \<Rightarrow> player_mapping \<Rightarrow> player_mapping option" where
  "share_slots E k NextFreeId i P =
     (if \<not> pe_HasPlayer E i \<or> i = k \<or> net_addr_comp_noport (pe_Addr E k) (pe_Addr E i) \<noteq> 0 then Some P
      else do {
        m \<leftarrow> arr_at (pm_aMap P) k;
        mi \<leftarrow> arr_at (pm_aMap P) i;
        r \<leftarrow> arr_at (im_pReverseMap mi) i;
        P1 \<leftarrow> (if \<not> ClientSupportsServerMaxClients E k \<and> r < MapSize E k m
               then on_map k (\<lambda>n. do { n1 \<leftarrow> reserve i n; map_Add E k r i n1 }) P else Some P);
        if NextFreeId < LEGACY_MAX_CLIENTS \<and> NextFreeId < MapSize E i mi
        then on_map i (\<lambda>n. do { n1 \<leftarrow> reserve k n; map_Add E i NextFreeId k n1 }) P1 else Some P1 })"

fun share_all :: "pm_env \<Rightarrow> int \<Rightarrow> int \<Rightarrow> int list \<Rightarrow> player_mapping \<Rightarrow> player_mapping option" where
  "share_all E k NextFreeId [] P = Some P"
| "share_all E k NextFreeId (i # js) P = do { P1 \<leftarrow> share_slots E k NextFreeId i P; share_all E k NextFreeId js P1 }"

definition InitPlayer :: "pm_env \<Rightarrow> int \<Rightarrow> bool \<Rightarrow> bool \<Rightarrow> player_mapping \<Rightarrow> player_mapping option" where
  "InitPlayer E k SkipTimeoutedId ClearSlots P = do {
     P1 \<leftarrow> on_map k (\<lambda>m. Some (m\<lparr>im_aReserved := map (\<lambda>b. False) (im_aReserved m)\<rparr>)) P;
     NextFreeId \<leftarrow> free_id_loop E k SkipTimeoutedId P1 0;
     P2 \<leftarrow> on_map k (clear_own E k ClearSlots) P1;
     m \<leftarrow> arr_at (pm_aMap P2) k;
     P3 \<leftarrow> (if NextFreeId < MapSize E k m \<and> NextFreeId < LEGACY_MAX_CLIENTS
            then on_map k (\<lambda>n. do { n1 \<leftarrow> reserve k n; map_Add E k NextFreeId k n1 }) P2 else Some P2);
     share_all E k NextFreeId [0..SERVER_CLIENTS - 1] P3 }"

subsection \<open>Translation of ids\<close>

text \<open>For a client \<open>k\<close> of the server: whether there is a translation, and the id.\<close>

definition Translate :: "pm_env \<Rightarrow> int \<Rightarrow> int \<Rightarrow> id_map \<Rightarrow> (bool \<times> int) option" where
  "Translate E k Target m =
     (if ClientSupportsServerMaxClients E k then Some (True, Target)
      else if Target < 0 \<or> Target \<ge> SERVER_CLIENTS then Some (False, Target)
      else map_option (\<lambda>t. if t = - 1 then (False, Target) else (True, t)) (arr_at (im_pReverseMap m) Target))"

definition ReverseTranslate :: "pm_env \<Rightarrow> int \<Rightarrow> int \<Rightarrow> id_map \<Rightarrow> (bool \<times> int) option" where
  "ReverseTranslate E k Target m =
     (if ClientSupportsServerMaxClients E k then Some (True, Target)
      else if Target < 0 \<or> Target \<ge> GetMaxClients E k then Some (False, Target)
      else map_option (\<lambda>t. if t = - 1 then (False, Target) else (True, t)) (arr_at (im_pMap m) Target))"

text \<open>What \<open>Tick\<close> writes to the strong-weak ids of client \<open>k\<close>, for the characters in the order of the world.\<close>

fun strong_weak_ids :: "pm_env \<Rightarrow> int \<Rightarrow> id_map \<Rightarrow> int list \<Rightarrow> int \<Rightarrow> (int \<times> int) list option" where
  "strong_weak_ids E k m [] StrongWeakId = Some []"
| "strong_weak_ids E k m (Id' # cs) StrongWeakId = do {
     (b, t) \<leftarrow> Translate E k Id' m;
     if b then map_option ((#) (Id', StrongWeakId)) (strong_weak_ids E k m cs (StrongWeakId + 1))
     else strong_weak_ids E k m cs StrongWeakId }"

datatype see_others_ind = IND_NONE | IND_PLAYER | IND_BUTTON

definition SeeOthersInd :: "pm_env \<Rightarrow> int \<Rightarrow> int \<Rightarrow> id_map \<Rightarrow> see_others_ind" where
  "SeeOthersInd E k MapId m =
     (if im_TotalOverhang m \<noteq> 0 \<and> MapId = SeeOthersId E k then IND_BUTTON
      else if im_NumSeeOthers m \<noteq> 0 \<and> MapId \<ge> MapSize E k m - im_NumSeeOthers m \<and> MapId < MapSize E k m then IND_PLAYER
      else IND_NONE)"

end
