(* ===== verification/PlayerMapLaws.thy ===== *)
theory PlayerMapLaws
  imports PlayerMap
begin

text \<open>
  The tables of the player mapping: every operation on the map of one client succeeds and keeps the two tables
  inverse to each other, the slots above the usable ones empty, and the table equal to what the client was told.
\<close>

subsection \<open>Arrays in range\<close>

lemma arr_at_Some: "arr_at xs i = Some x \<longleftrightarrow> 0 \<le> i \<and> i < int (length xs) \<and> x = xs ! nat i"
  by (auto simp: arr_at_def)

lemma arr_upd_Some: "arr_upd xs i v = Some ys \<longleftrightarrow> 0 \<le> i \<and> i < int (length xs) \<and> ys = xs[nat i := v]"
  by (auto simp: arr_upd_def)

lemma arr_at_ok: "0 \<le> i \<Longrightarrow> i < int (length xs) \<Longrightarrow> arr_at xs i = Some (xs ! nat i)"
  by (simp add: arr_at_def)

lemma arr_upd_ok: "0 \<le> i \<Longrightarrow> i < int (length xs) \<Longrightarrow> arr_upd xs i v = Some (xs[nat i := v])"
  by (simp add: arr_upd_def)

lemma nth_upd_int: "0 \<le> i \<Longrightarrow> 0 \<le> j \<Longrightarrow> j < int (length xs) \<Longrightarrow> xs[nat i := v] ! nat j = (if i = j then v else xs ! nat j)"
  by (auto simp: nth_list_update)

lemma upd_same: "xs ! i = v \<Longrightarrow> xs[i := v] = xs"
  by (metis list_update_id)

lemma upd_keeps: "xs ! i = v \<Longrightarrow> xs[j := v] ! i = v"
  by (metis list_update_id nth_list_update_neq list_update_beyond not_le nth_list_update_eq)

subsection \<open>The invariant of a map\<close>

text \<open>What the client has been told about its slots.\<close>

definition view_step :: "(int \<Rightarrow> int) \<Rightarrow> map_msg \<Rightarrow> int \<Rightarrow> int" where
  "view_step v msg = (case msg of SendConnect s c \<Rightarrow> v(s := c) | SendDisconnect s \<Rightarrow> v(s := - 1) | _ \<Rightarrow> v)"

definition client_view :: "map_msg list \<Rightarrow> int \<Rightarrow> int" where
  "client_view ms = foldl view_step (\<lambda>s. - 1) ms"

lemma client_view_send [simp]: "client_view (ms @ [msg]) = view_step (client_view ms) msg"
  by (simp add: client_view_def)

definition tables_ok :: "int list \<Rightarrow> int list \<Rightarrow> bool" where
  "tables_ok mp rv \<longleftrightarrow> length mp = 64 \<and> length rv = 128 \<and>
     (\<forall>s. 0 \<le> s \<and> s < 64 \<longrightarrow> mp ! nat s = - 1 \<or> 0 \<le> mp ! nat s \<and> mp ! nat s < 128 \<and> rv ! nat (mp ! nat s) = s) \<and>
     (\<forall>c. 0 \<le> c \<and> c < 128 \<longrightarrow> rv ! nat c = - 1 \<or> 0 \<le> rv ! nat c \<and> rv ! nat c < 64 \<and> mp ! nat (rv ! nat c) = c)"

lemma tables_slot: "tables_ok mp rv \<Longrightarrow> 0 \<le> s \<Longrightarrow> s < 64 \<Longrightarrow> mp ! nat s = - 1 \<or> 0 \<le> mp ! nat s \<and> mp ! nat s < 128 \<and> rv ! nat (mp ! nat s) = s"
  by (simp add: tables_ok_def)

lemma tables_player: "tables_ok mp rv \<Longrightarrow> 0 \<le> c \<Longrightarrow> c < 128 \<Longrightarrow> rv ! nat c = - 1 \<or> 0 \<le> rv ! nat c \<and> rv ! nat c < 64 \<and> mp ! nat (rv ! nat c) = c"
  by (simp add: tables_ok_def)

lemma tables_length: "tables_ok mp rv \<Longrightarrow> length mp = 64 \<and> length rv = 128"
  by (simp add: tables_ok_def)

lemma tables_remove:
  assumes t: "tables_ok mp rv" "0 \<le> s" "s < 64" "mp ! nat s = c" "c \<noteq> - 1"
  shows "tables_ok (mp[nat s := - 1]) (rv[nat c := - 1])"
proof -
  have c: "0 \<le> c" "c < 128" "rv ! nat c = s" using tables_slot [OF t(1-3)] t(4,5) by auto
  note l = tables_length [OF t(1)]
  have 1: "mp[nat s := - 1] ! nat r = - 1 \<or> 0 \<le> mp[nat s := - 1] ! nat r \<and> mp[nat s := - 1] ! nat r < 128 \<and>
      rv[nat c := - 1] ! nat (mp[nat s := - 1] ! nat r) = r" if "0 \<le> r" "r < 64" for r
    using tables_slot [OF t(1) that] tables_slot [OF t(1-3)] t(2-5) l that c by (auto simp: nth_upd_int)
  have 2: "rv[nat c := - 1] ! nat d = - 1 \<or> 0 \<le> rv[nat c := - 1] ! nat d \<and> rv[nat c := - 1] ! nat d < 64 \<and>
      mp[nat s := - 1] ! nat (rv[nat c := - 1] ! nat d) = d" if "0 \<le> d" "d < 128" for d
    using tables_player [OF t(1) that] t(2-5) l that c by (auto simp: nth_upd_int)
  show ?thesis unfolding tables_ok_def using 1 2 l by simp
qed

lemma tables_add:
  assumes t: "tables_ok mp rv" "0 \<le> s" "s < 64" "mp ! nat s = - 1" and c: "0 \<le> c" "c < 128" "rv ! nat c = - 1"
  shows "tables_ok (mp[nat s := c]) (rv[nat c := s])"
proof -
  note l = tables_length [OF t(1)]
  have 1: "mp[nat s := c] ! nat r = - 1 \<or> 0 \<le> mp[nat s := c] ! nat r \<and> mp[nat s := c] ! nat r < 128 \<and>
      rv[nat c := s] ! nat (mp[nat s := c] ! nat r) = r" if "0 \<le> r" "r < 64" for r
    using tables_slot [OF t(1) that] t(2-4) l that c by (auto simp: nth_upd_int)
  have 2: "rv[nat c := s] ! nat d = - 1 \<or> 0 \<le> rv[nat c := s] ! nat d \<and> rv[nat c := s] ! nat d < 64 \<and>
      mp[nat s := c] ! nat (rv[nat c := s] ! nat d) = d" if "0 \<le> d" "d < 128" for d
    using tables_player [OF t(1) that] t(2-4) l that c by (auto simp: nth_upd_int)
  show ?thesis unfolding tables_ok_def using 1 2 l by simp
qed

lemma tables_clear: "length mp = 64 \<Longrightarrow> length rv = 128 \<Longrightarrow> tables_ok (map (\<lambda>c. - 1) mp) (map (\<lambda>c. - 1) rv)"
  by (auto simp: tables_ok_def nat_less_iff)

definition base_ok :: "pm_env \<Rightarrow> int \<Rightarrow> id_map \<Rightarrow> bool" where
  "base_ok E k m \<longleftrightarrow> tables_ok (im_pMap m) (im_pReverseMap m) \<and> length (im_aReserved m) = 128 \<and> length (im_aWasSeeOthers m) = 128 \<and>
     0 \<le> im_NumSeeOthers m \<and> (pe_Sixup E k \<longrightarrow> (\<forall>s. 0 \<le> s \<and> s < 64 \<longrightarrow> client_view (im_Sent m) s = im_pMap m ! nat s))"

definition map_ok :: "pm_env \<Rightarrow> int \<Rightarrow> id_map \<Rightarrow> bool" where
  "map_ok E k m \<longleftrightarrow> tables_ok (im_pMap m) (im_pReverseMap m) \<and> length (im_aReserved m) = 128 \<and> length (im_aWasSeeOthers m) = 128 \<and>
     im_NumReserved m = (if ClientSupportsServerMaxClients E k then 0 else 2) \<and> 0 \<le> im_NumSeeOthers m \<and>
     (\<not> ClientSupportsServerMaxClients E k \<longrightarrow> (\<forall>s. GetMaxClients E k - 2 \<le> s \<and> s < 64 \<longrightarrow> im_pMap m ! nat s = - 1)) \<and>
     (pe_Sixup E k \<longrightarrow> (\<forall>s. 0 \<le> s \<and> s < 64 \<longrightarrow> client_view (im_Sent m) s = im_pMap m ! nat s))"

text \<open>What inserting and removing leave alone.\<close>

definition same_settings :: "id_map \<Rightarrow> id_map \<Rightarrow> bool" where
  "same_settings m n \<longleftrightarrow> im_NumReserved n = im_NumReserved m \<and> im_aReserved n = im_aReserved m \<and>
     im_SeeOthersPage n = im_SeeOthersPage m \<and> im_TotalOverhang n = im_TotalOverhang m \<and> im_NumPages n = im_NumPages m \<and>
     im_NumSeeOthers n = im_NumSeeOthers m \<and> im_aWasSeeOthers n = im_aWasSeeOthers m"

lemma same_settings_refl [simp]: "same_settings m m" by (simp add: same_settings_def)

lemma same_settings_trans: "same_settings m n \<Longrightarrow> same_settings n r \<Longrightarrow> same_settings m r"
  by (simp add: same_settings_def)

lemma map_ok_base: "map_ok E k m \<longleftrightarrow> base_ok E k m \<and>
     im_NumReserved m = (if ClientSupportsServerMaxClients E k then 0 else 2) \<and>
     (\<not> ClientSupportsServerMaxClients E k \<longrightarrow> (\<forall>s. GetMaxClients E k - 2 \<le> s \<and> s < 64 \<longrightarrow> im_pMap m ! nat s = - 1))"
  by (auto simp: map_ok_def base_ok_def)

lemma Remove_base:
  assumes ok: "base_ok E k m" and p: "pe_HasPlayer E k" and s: "s = - 1 \<or> 0 \<le> s \<and> s < 64"
  shows "\<exists>c n. map_Remove E k s m = Some (c, n) \<and> base_ok E k n \<and> same_settings m n \<and>
    (s \<noteq> - 1 \<longrightarrow> c = im_pMap m ! nat s) \<and>
    im_pMap n = (if s = - 1 then im_pMap m else (im_pMap m)[nat s := - 1]) \<and>
    im_pReverseMap n = (if s = - 1 \<or> im_pMap m ! nat s = - 1 then im_pReverseMap m else (im_pReverseMap m)[nat (im_pMap m ! nat s) := - 1])"
proof -
  have t: "tables_ok (im_pMap m) (im_pReverseMap m)" using ok by (simp add: base_ok_def)
  note l = tables_length [OF t]
  consider "s = - 1" | "0 \<le> s" "s < 64" "im_pMap m ! nat s = - 1" | "0 \<le> s" "s < 64" "im_pMap m ! nat s \<noteq> - 1"
    using s by blast
  then show ?thesis
  proof cases
    case 1
    then show ?thesis using ok p by (simp add: map_Remove_def)
  next
    case 2
    then show ?thesis using ok p l by (simp add: map_Remove_def arr_at_ok upd_same)
  next
    case 3
    define c where "c = im_pMap m ! nat s"
    have c: "0 \<le> c" "c < 128" "im_pReverseMap m ! nat c = s" using tables_slot [OF t 3(1,2)] 3(3) by (auto simp: c_def)
    have la: "length (im_aReserved m) = 128" using ok by (simp add: base_ok_def)
    define m2 where "m2 = (let m1 = m\<lparr>im_UpdateTeamsState := (im_UpdateTeamsState m \<or> pe_Team E c > 0),
          im_ResortReserved := (im_ResortReserved m \<or> im_aReserved m ! nat c)\<rparr>
        in if pe_Sixup E k then map_send (SendDisconnect s) m1 else m1)"
    have m2: "im_pMap m2 = im_pMap m" "im_pReverseMap m2 = im_pReverseMap m" "same_settings m m2"
      "im_Sent m2 = (if pe_Sixup E k then im_Sent m @ [SendDisconnect s] else im_Sent m)"
      by (auto simp: m2_def Let_def map_send_def same_settings_def)
    have r: "map_Remove E k s m = Some (c, m2\<lparr>im_pReverseMap := (im_pReverseMap m)[nat c := - 1], im_pMap := (im_pMap m)[nat s := - 1]\<rparr>)"
      using 3 c p l la by (simp add: map_Remove_def arr_at_ok arr_upd_ok c_def [symmetric] m2_def Let_def map_send_def)
    have "base_ok E k (m2\<lparr>im_pReverseMap := (im_pReverseMap m)[nat c := - 1], im_pMap := (im_pMap m)[nat s := - 1]\<rparr>)"
      using ok m2 tables_remove [OF t 3(1,2) c_def [symmetric]] 3 c_def l
      by (auto simp: base_ok_def same_settings_def view_step_def nth_list_update)
    then show ?thesis using r m2 3 by (simp add: c_def [symmetric] same_settings_def)
  qed
qed

lemma Remove_ok:
  assumes ok: "map_ok E k m" and p: "pe_HasPlayer E k" and s: "s = - 1 \<or> 0 \<le> s \<and> s < 64"
  shows "\<exists>c n. map_Remove E k s m = Some (c, n) \<and> map_ok E k n \<and> same_settings m n \<and>
    (s \<noteq> - 1 \<longrightarrow> c = im_pMap m ! nat s) \<and>
    im_pMap n = (if s = - 1 then im_pMap m else (im_pMap m)[nat s := - 1]) \<and>
    im_pReverseMap n = (if s = - 1 \<or> im_pMap m ! nat s = - 1 then im_pReverseMap m else (im_pReverseMap m)[nat (im_pMap m ! nat s) := - 1])"
proof -
  have "base_ok E k m" using ok by (simp add: map_ok_base)
  from Remove_base [OF this p s] obtain c n where n: "map_Remove E k s m = Some (c, n)" "base_ok E k n" "same_settings m n"
    "s \<noteq> - 1 \<longrightarrow> c = im_pMap m ! nat s" "im_pMap n = (if s = - 1 then im_pMap m else (im_pMap m)[nat s := - 1])"
    "im_pReverseMap n = (if s = - 1 \<or> im_pMap m ! nat s = - 1 then im_pReverseMap m else (im_pReverseMap m)[nat (im_pMap m ! nat s) := - 1])"
    by blast
  have "map_ok E k n"
    unfolding map_ok_base using ok n(2,3,5) by (auto simp: map_ok_base same_settings_def upd_keeps)
  then show ?thesis using n by blast
qed

text \<open>A slot that may be used.\<close>

definition usable :: "pm_env \<Rightarrow> int \<Rightarrow> int \<Rightarrow> bool" where
  "usable E k s \<longleftrightarrow> 0 \<le> s \<and> s < 64 \<and> (\<not> ClientSupportsServerMaxClients E k \<longrightarrow> s < GetMaxClients E k - 2)"

lemma Add_ok:
  assumes ok: "map_ok E k m" and p: "pe_HasPlayer E k" "pe_HasPlayer E c" and c: "0 \<le> c" "c < 128" and s: "usable E k s"
  shows "\<exists>n. map_Add E k s c m = Some n \<and> map_ok E k n \<and> same_settings m n \<and> im_pMap n ! nat s = c"
proof -
  have s': "0 \<le> s" "s < 64" using s by (auto simp: usable_def)
  have t: "tables_ok (im_pMap m) (im_pReverseMap m)" using ok by (simp add: map_ok_def)
  note l = tables_length [OF t]
  define old where "old = im_pReverseMap m ! nat c"
  have old: "old = - 1 \<or> 0 \<le> old \<and> old < 64 \<and> im_pMap m ! nat old = c" using tables_player [OF t c] by (auto simp: old_def)
  show ?thesis
  proof (cases "old = s")
    case True
    then have "map_Add E k s c m = Some m" using p c s' l by (simp add: map_Add_def arr_at_ok old_def)
    then show ?thesis using ok True old s' by simp
  next
    case False
    from old have "old = - 1 \<or> 0 \<le> old \<and> old < 64" by auto
    from Remove_ok [OF ok p(1) this] obtain x m1 where r1: "map_Remove E k old m = Some (x, m1)" "map_ok E k m1" "same_settings m m1"
      "im_pReverseMap m1 = (if old = - 1 \<or> im_pMap m ! nat old = - 1 then im_pReverseMap m else (im_pReverseMap m)[nat (im_pMap m ! nat old) := - 1])"
      by blast
    have rc: "im_pReverseMap m1 ! nat c = - 1"
      using r1(4) old c l by (auto simp: old_def [symmetric])
    have "s = - 1 \<or> 0 \<le> s \<and> s < 64" using s' by simp
    from Remove_ok [OF r1(2) p(1) this] obtain d m2 where r2: "map_Remove E k s m1 = Some (d, m2)" "map_ok E k m2" "same_settings m1 m2"
      "im_pMap m2 = (im_pMap m1)[nat s := - 1]"
      "im_pReverseMap m2 = (if s = - 1 \<or> im_pMap m1 ! nat s = - 1 then im_pReverseMap m1 else (im_pReverseMap m1)[nat (im_pMap m1 ! nat s) := - 1])"
      using s' by auto
    have t2: "tables_ok (im_pMap m2) (im_pReverseMap m2)" and l2: "length (im_aReserved m2) = 128" using r2(2) by (auto simp: map_ok_def)
    note lt = tables_length [OF t2]
    have e: "im_pMap m2 ! nat s = - 1" "im_pReverseMap m2 ! nat c = - 1"
      using r2(4,5) rc s' lt by (auto simp: upd_keeps)
    note t3 = tables_add [OF t2 s' e(1) c e(2)]
    define u where "u = (im_UpdateTeamsState m2 \<or> d = - 1 \<and> pe_Team E c > 0 \<or> d \<noteq> - 1 \<and> pe_Team E d \<noteq> pe_Team E c)"
    define m3 where "m3 = m2\<lparr>im_UpdateTeamsState := u, im_ResortReserved := (im_ResortReserved m2 \<or> im_aReserved m2 ! nat c),
        im_pMap := (im_pMap m2)[nat s := c], im_pReverseMap := (im_pReverseMap m2)[nat c := s]\<rparr>"
    define n where "n = (if pe_Sixup E k then map_send (SendConnect s c) m3 else m3)"
    have a: "map_Add E k s c m = Some n"
      using p c s' l lt l2 False r1(1) r2(1)
      by (simp add: map_Add_def arr_at_ok arr_upd_ok old_def [symmetric] n_def m3_def u_def Let_def)
    have nf: "im_pMap n = (im_pMap m2)[nat s := c]" "im_pReverseMap n = (im_pReverseMap m2)[nat c := s]" "same_settings m2 n"
      "im_Sent n = (if pe_Sixup E k then im_Sent m2 @ [SendConnect s c] else im_Sent m2)"
      by (auto simp: n_def m3_def map_send_def same_settings_def)
    have top: "im_pMap n ! nat r = - 1" if "\<not> ClientSupportsServerMaxClients E k" "GetMaxClients E k - 2 \<le> r" "r < 64" for r
    proof -
      have "nat r \<noteq> nat s" using that s by (auto simp: usable_def)
      then show ?thesis using r2(2) that nf(1) by (simp add: map_ok_def)
    qed
    have view: "client_view (im_Sent n) r = im_pMap n ! nat r" if "pe_Sixup E k" "0 \<le> r" "r < 64" for r
      using r2(2) that nf s' lt by (auto simp: map_ok_def view_step_def nth_list_update)
    have "map_ok E k n"
      using r2(2) t3 top view nf by (simp add: map_ok_def same_settings_def)
    moreover have "same_settings m n" using same_settings_trans [OF same_settings_trans [OF r1(3) r2(3)] nf(3)] .
    ultimately show ?thesis using a nf(1) s' lt by simp
  qed
qed

subsection \<open>Every operation on a map succeeds and keeps the invariant\<close>

definition pm_env_ok :: "pm_env \<Rightarrow> bool" where
  "pm_env_ok E \<longleftrightarrow> pe_MaxClients E \<le> 128 \<and> (\<forall>i. pe_HasPlayer E i \<longrightarrow> 0 \<le> i \<and> i < 128 \<and> 0 \<le> pe_Team E i \<and> pe_Team E i \<le> 128)"

lemma unsupported_size: "pm_env_ok E \<Longrightarrow> \<not> ClientSupportsServerMaxClients E k \<Longrightarrow> GetMaxClients E k = 16 \<or> GetMaxClients E k = 64"
  by (auto simp: pm_env_ok_def ClientSupportsServerMaxClients_def GetMaxClients_def SERVER_CLIENTS_def LEGACY_MAX_CLIENTS_def
      VANILLA_MAX_CLIENTS_def split: if_splits)

lemma map_ok_cong:
  assumes "map_ok E k m" "im_pMap n = im_pMap m" "im_pReverseMap n = im_pReverseMap m" "length (im_aReserved n) = length (im_aReserved m)"
    "length (im_aWasSeeOthers n) = length (im_aWasSeeOthers m)" "im_NumReserved n = im_NumReserved m" "0 \<le> im_NumSeeOthers n"
    "client_view (im_Sent n) = client_view (im_Sent m)"
  shows "map_ok E k n"
  using assms unfolding map_ok_def by simp

lemma ok_nonneg: "map_ok E k m \<Longrightarrow> 0 \<le> im_NumSeeOthers m" by (simp add: map_ok_def)

lemma ok_lengths: "map_ok E k m \<Longrightarrow> length (im_pMap m) = 64 \<and> length (im_pReverseMap m) = 128 \<and> length (im_aReserved m) = 128 \<and> length (im_aWasSeeOthers m) = 128"
  by (auto simp: map_ok_def tables_ok_def)

lemma ok_slot: "map_ok E k m \<Longrightarrow> 0 \<le> s \<Longrightarrow> s < 64 \<Longrightarrow> im_pMap m ! nat s = - 1 \<or> 0 \<le> im_pMap m ! nat s \<and> im_pMap m ! nat s < 128"
  using tables_slot [of "im_pMap m" "im_pReverseMap m" s] by (auto simp: map_ok_def)

lemma ok_player:
  assumes "map_ok E k m" "0 \<le> c" "c < 128" "im_pReverseMap m ! nat c \<noteq> - 1"
  shows "usable E k (im_pReverseMap m ! nat c)"
proof -
  let ?s = "im_pReverseMap m ! nat c"
  have s: "0 \<le> ?s" "?s < 64" "im_pMap m ! nat ?s = c"
    using tables_player [of "im_pMap m" "im_pReverseMap m" c] assms by (auto simp: map_ok_def)
  have "?s < GetMaxClients E k - 2" if "\<not> ClientSupportsServerMaxClients E k"
  proof (rule ccontr)
    assume "\<not> ?s < GetMaxClients E k - 2"
    then have "im_pMap m ! nat ?s = - 1" using assms(1) that s(2) by (simp add: map_ok_def)
    then show False using s(3) assms(2) by simp
  qed
  then show ?thesis using s by (simp add: usable_def)
qed

lemma first_slot_total:
  assumes "\<forall>j \<in> set js. 0 \<le> j \<and> j < int (length mp)" "\<forall>j \<in> set js. P (mp ! nat j) \<noteq> None"
  shows "\<exists>r. first_slot P mp js = Some r \<and> (\<forall>j. r = Some j \<longrightarrow> j \<in> set js)"
  using assms by (induction js) (auto simp: arr_at_ok split: bind_splits)

lemma farthest_slot_total:
  assumes "map_ok E k m" "\<forall>j \<in> set js. 0 \<le> j \<and> j < 64"
  shows "\<exists>r. farthest_slot E k m js a d = Some r \<and> (r = a \<or> r \<in> set js)"
  using assms(2)
proof (induction js arbitrary: a d)
  case (Cons i js)
  note l = ok_lengths [OF assms(1)]
  have i: "0 \<le> i" "i < 64" using Cons.prems by auto
  have s: "arr_at (im_pMap m) i = Some (im_pMap m ! nat i)" using i l by (simp add: arr_at_ok)
  have "(if im_pMap m ! nat i = - 1 then Some False else map_option Not (arr_at (im_aReserved m) (im_pMap m ! nat i))) \<noteq> None"
    using ok_slot [OF assms(1) i] l by (auto simp: arr_at_ok)
  then obtain free where f: "(if im_pMap m ! nat i = - 1 then Some False else map_option Not (arr_at (im_aReserved m) (im_pMap m ! nat i))) = Some free"
    unfolding not_None_eq by blast
  show ?case
    using Cons.IH [of i "pe_Distance E k (im_pMap m ! nat i)"] Cons.IH [of a d] Cons.prems s f by auto
qed simp

lemma slots_below_usable:
  assumes "map_ok E k m" "pm_env_ok E" "\<not> ClientSupportsServerMaxClients E k" "j \<in> set (slots_below E k m)"
  shows "usable E k j"
  using unsupported_size [OF assms(2,3)] assms(1,3,4) by (auto simp: slots_below_def usable_def MapSize_def map_ok_def)

lemma tests_total:
  assumes "map_ok E k m" "0 \<le> j" "j < 64"
  shows "not_reserved m (im_pMap m ! nat j) \<noteq> None" "replaceable E k m (im_pMap m ! nat j) \<noteq> None"
  using ok_slot [OF assms] ok_lengths [OF assms(1)] by (auto simp: not_reserved_def replaceable_def arr_at_ok)

lemma first_slot_usable:
  assumes "map_ok E k m" "pm_env_ok E" "\<not> ClientSupportsServerMaxClients E k" "\<And>j. 0 \<le> j \<Longrightarrow> j < 64 \<Longrightarrow> P (im_pMap m ! nat j) \<noteq> None"
  shows "\<exists>r. first_slot P (im_pMap m) (slots_below E k m) = Some r \<and> (\<forall>j. r = Some j \<longrightarrow> usable E k j)"
proof -
  note u = slots_below_usable [OF assms(1-3)]
  have 1: "\<forall>j \<in> set (slots_below E k m). 0 \<le> j \<and> j < int (length (im_pMap m))" using u ok_lengths [OF assms(1)] by (auto simp: usable_def)
  have 2: "\<forall>j \<in> set (slots_below E k m). P (im_pMap m ! nat j) \<noteq> None" using u assms(4) by (auto simp: usable_def)
  from first_slot_total [OF 1 2] show ?thesis using u by blast
qed

lemma usable_not_minus: "usable E k s \<Longrightarrow> s \<noteq> - 1"
  by (auto simp: usable_def)

lemma Insert_ok:
  assumes ok: "map_ok E k m" "pm_env_ok E" "\<not> ClientSupportsServerMaxClients E k" and p: "pe_HasPlayer E k"
    and c: "c = - 1 \<or> pe_HasPlayer E c"
  shows "\<exists>n. InsertNextEmptyOrReplace E k c m = Some n \<and> map_ok E k n \<and> same_settings m n"
proof (cases "c = - 1")
  case True
  then show ?thesis using ok by (simp add: InsertNextEmptyOrReplace_def)
next
  case False
  then have c': "pe_HasPlayer E c" "0 \<le> c" "c < 128" using c ok(2) by (auto simp: pm_env_ok_def)
  have l: "arr_at (im_pReverseMap m) c = Some (im_pReverseMap m ! nat c)" using c' ok_lengths [OF ok(1)] by (simp add: arr_at_ok)
  show ?thesis
  proof (cases "im_pReverseMap m ! nat c = - 1")
    case False
    then show ?thesis using \<open>c \<noteq> - 1\<close> l ok by (simp add: InsertNextEmptyOrReplace_def)
  next
    case True
    obtain r where r: "first_slot (replaceable E k m) (im_pMap m) (slots_below E k m) = Some r" "\<forall>j. r = Some j \<longrightarrow> usable E k j"
      using first_slot_usable [OF ok, of "replaceable E k m"] tests_total(2) [OF ok(1)] by blast
    show ?thesis
    proof (cases r)
      case (Some i)
      then have "InsertNextEmptyOrReplace E k c m = map_Add E k i c m"
        using \<open>c \<noteq> - 1\<close> l True r by (simp add: InsertNextEmptyOrReplace_def)
      then show ?thesis using Add_ok [OF ok(1) p c'(1-3), of i] r(2) Some by auto
    next
      case None
      have js: "\<forall>j \<in> set (slots_below E k m). 0 \<le> j \<and> j < 64" using slots_below_usable [OF ok] by (auto simp: usable_def)
      obtain f where f: "farthest_slot E k m (slots_below E k m) (- 1) (pe_Distance E k c) = Some f" "f = - 1 \<or> f \<in> set (slots_below E k m)"
        using farthest_slot_total [OF ok(1) js] by blast
      have e: "InsertNextEmptyOrReplace E k c m =
          (if \<not> pe_HasChar E c then Some m else if f \<noteq> - 1 then map_Add E k f c m else Some m)"
        using \<open>c \<noteq> - 1\<close> l True r None f p by (simp add: InsertNextEmptyOrReplace_def)
      show ?thesis
      proof (cases "pe_HasChar E c \<and> f \<noteq> - 1")
        case True
        then have "usable E k f" using slots_below_usable [OF ok] f(2) by auto
        then show ?thesis using Add_ok [OF ok(1) p c'(1-3), of f] True e by auto
      next
        case False
        then show ?thesis using e ok(1) by auto
      qed
    qed
  qed
qed

lemma free_tail_total:
  assumes "map_ok E k m" "\<forall>j \<in> set js. 0 \<le> j \<and> j < 64"
  shows "\<exists>n. free_tail m js = Some n \<and> 0 \<le> n \<and> n \<le> int (length js)"
  using assms(2)
proof (induction js)
  case (Cons i js)
  note l = ok_lengths [OF assms(1)]
  have i: "0 \<le> i" "i < 64" using Cons.prems by auto
  have s: "arr_at (im_pMap m) i = Some (im_pMap m ! nat i)" using i l by (simp add: arr_at_ok)
  have "(if im_pMap m ! nat i = - 1 then Some False else arr_at (im_aReserved m) (im_pMap m ! nat i)) \<noteq> None"
    using ok_slot [OF assms(1) i] l by (auto simp: arr_at_ok)
  then obtain stop where f: "(if im_pMap m ! nat i = - 1 then Some False else arr_at (im_aReserved m) (im_pMap m ! nat i)) = Some stop"
    unfolding not_None_eq by blast
  show ?case using Cons s f by auto
qed simp

lemma MaxNum_total:
  assumes "map_ok E k m" "pm_env_ok E" "\<not> ClientSupportsServerMaxClients E k"
  shows "\<exists>n. MaxNumSeeOthers E k m = Some n \<and> 0 \<le> n \<and> n \<le> MapSize E k m"
proof -
  have s: "MapSize E k m \<le> 62" "0 \<le> MapSize E k m" using unsupported_size [OF assms(2,3)] assms(1,3) by (auto simp: MapSize_def map_ok_def)
  have "\<forall>j \<in> set (rev [0..MapSize E k m - 1]). 0 \<le> j \<and> j < 64" using s by auto
  from free_tail_total [OF assms(1) this] obtain n where "free_tail m (rev [0..MapSize E k m - 1]) = Some n" "0 \<le> n" by blast
  then show ?thesis using s by (auto simp: MaxNumSeeOthers_def Let_def)
qed

lemma sixup_unsupported: "pe_Sixup E k \<Longrightarrow> \<not> ClientSupportsServerMaxClients E k"
  by (simp add: ClientSupportsServerMaxClients_def)

lemma UpdateSeeOthers_ok:
  assumes "map_ok E k m" "pm_env_ok E"
  shows "\<exists>n. UpdateSeeOthers E k m = Some n \<and> map_ok E k n \<and> same_settings m n"
proof (cases "pe_Sixup E k")
  case True
  have "SeeOthersName E k m \<noteq> None"
    using MaxNum_total [OF assms sixup_unsupported [OF True]] by (auto simp: SeeOthersName_def Let_def)
  then obtain name where "SeeOthersName E k m = Some name" by blast
  then have "UpdateSeeOthers E k m = Some (map_send (FakePlayer (SeeOthersId E k) name) (map_send (FakeDrop (SeeOthersId E k)) m))"
    using True by (simp add: UpdateSeeOthers_def)
  moreover have "map_ok E k (map_send (FakePlayer (SeeOthersId E k) name) (map_send (FakeDrop (SeeOthersId E k)) m))"
    by (rule map_ok_cong [OF assms(1)]) (use ok_nonneg [OF assms(1)] in \<open>auto simp: map_send_def client_view_def view_step_def\<close>)
  ultimately show ?thesis by (auto simp: map_send_def same_settings_def)
qed (use assms in \<open>simp add: UpdateSeeOthers_def\<close>)

lemma ResetSeeOthers_ok:
  assumes "map_ok E k m" "pm_env_ok E"
  shows "\<exists>n. ResetSeeOthers E k m = Some n \<and> map_ok E k n \<and> im_NumReserved n = im_NumReserved m"
proof -
  have "map_ok E k (m\<lparr>im_SeeOthersPage := - 1, im_NumSeeOthers := 0, im_aWasSeeOthers := map (\<lambda>b. False) (im_aWasSeeOthers m), im_UpdateTeamsState := True\<rparr>)"
    by (rule map_ok_cong [OF assms(1)]) auto
  from UpdateSeeOthers_ok [OF this assms(2)] show ?thesis by (auto simp: ResetSeeOthers_def same_settings_def)
qed

lemma mark_seen_total:
  assumes "\<forall>j \<in> set js. 0 \<le> j \<and> j < 64 \<and> j < int (length mp) \<and> (mp ! nat j = - 1 \<or> 0 \<le> mp ! nat j \<and> mp ! nat j < 128)" "length was = 128"
  shows "\<exists>w. mark_seen mp js was = Some w \<and> length w = 128"
  using assms by (induction js arbitrary: was) (auto simp: arr_at_ok arr_upd_ok)

lemma cycle_loop_ok:
  assumes "map_ok E k m" "pm_env_ok E" "\<not> ClientSupportsServerMaxClients E k" "pe_HasPlayer E k"
    and "\<forall>j \<in> set js. 0 \<le> j \<and> j < 128" "0 \<le> Added" "MapId = MapSize E k m - 1 - Added" "Size' \<le> MapSize E k m"
  shows "\<exists>a n. cycle_loop E k Size' js Added MapId m = Some (a, n) \<and> map_ok E k n \<and> 0 \<le> a"
  using assms
proof (induction js arbitrary: Added MapId m)
  case (Cons i js)
  have i: "0 \<le> i" "i < 128" using Cons.prems(5) by auto
  note l = ok_lengths [OF Cons.prems(1)]
  have "\<exists>was. (if pe_HasPlayer E i then arr_at (im_aWasSeeOthers m) i else Some True) = Some was"
    using i l by (cases "pe_HasPlayer E i") (auto simp: arr_at_ok intro: exI [of _ True])
  then obtain was where w: "(if pe_HasPlayer E i then arr_at (im_aWasSeeOthers m) i else Some True) = Some was" by blast
  show ?case
  proof (cases was)
    case True
    have "\<exists>a n. cycle_loop E k Size' js Added MapId m = Some (a, n) \<and> map_ok E k n \<and> 0 \<le> a"
      using Cons.prems by (intro Cons.IH) auto
    then show ?thesis using w True by auto
  next
    case False
    then have pi: "pe_HasPlayer E i" using w by (auto split: if_splits)
    show ?thesis
    proof (cases "Added \<ge> Size'")
      case True
      then show ?thesis using w False Cons.prems(1,6) by auto
    next
      case a: False
      have "usable E k MapId"
        using unsupported_size [OF Cons.prems(2,3)] Cons.prems(1,3,6,7,8) a by (auto simp: usable_def MapSize_def map_ok_def)
      from Add_ok [OF Cons.prems(1,4) pi i this] obtain m1 where m1: "map_Add E k MapId i m = Some m1" "map_ok E k m1" "same_settings m m1" by blast
      note l1 = ok_lengths [OF m1(2)]
      let ?m2 = "m1\<lparr>im_aWasSeeOthers := (im_aWasSeeOthers m1)[nat i := True]\<rparr>"
      have ok2: "map_ok E k ?m2" by (rule map_ok_cong [OF m1(2)]) (use ok_nonneg [OF m1(2)] in auto)
      have sz: "MapSize E k ?m2 = MapSize E k m" using m1(3) by (simp add: MapSize_def same_settings_def)
      have "\<exists>a n. cycle_loop E k Size' js (Added + 1) (MapId - 1) ?m2 = Some (a, n) \<and> map_ok E k n \<and> 0 \<le> a"
        using Cons.prems sz by (intro Cons.IH [OF ok2]) auto
      then show ?thesis using w False a m1(1) i l1 by (simp add: arr_upd_ok)
    qed
  qed
qed auto

lemma CycleSeeOthers_ok:
  assumes "map_ok E k m" "pm_env_ok E" "\<not> ClientSupportsServerMaxClients E k" "pe_HasPlayer E k"
  shows "\<exists>n. CycleSeeOthers E k m = Some n \<and> map_ok E k n"
proof (cases "im_TotalOverhang m \<le> 0")
  case False
  note l = ok_lengths [OF assms(1)]
  have "\<forall>j \<in> set [0..GetMaxClients E k - 1]. 0 \<le> j \<and> j < 64 \<and> j < int (length (im_pMap m)) \<and>
      (im_pMap m ! nat j = - 1 \<or> 0 \<le> im_pMap m ! nat j \<and> im_pMap m ! nat j < 128)"
  proof
    fix j assume "j \<in> set [0..GetMaxClients E k - 1]"
    then have j: "0 \<le> j" "j < 64" using unsupported_size [OF assms(2,3)] by auto
    then show "0 \<le> j \<and> j < 64 \<and> j < int (length (im_pMap m)) \<and>
      (im_pMap m ! nat j = - 1 \<or> 0 \<le> im_pMap m ! nat j \<and> im_pMap m ! nat j < 128)"
      using l ok_slot [OF assms(1) j] by simp
  qed
  moreover have "length (im_aWasSeeOthers m) = 128" using l by simp
  ultimately obtain was where w: "mark_seen (im_pMap m) [0..GetMaxClients E k - 1] (im_aWasSeeOthers m) = Some was" "length was = 128"
    using mark_seen_total by blast
  let ?m1 = "m\<lparr>im_aWasSeeOthers := was\<rparr>"
  have ok1: "map_ok E k ?m1" by (rule map_ok_cong [OF assms(1)]) (use w l ok_nonneg [OF assms(1)] in auto)
  obtain N where N: "MaxNumSeeOthers E k ?m1 = Some N" "N \<le> MapSize E k ?m1" using MaxNum_total [OF ok1 assms(2,3)] by blast
  have "\<forall>j \<in> set [0..SERVER_CLIENTS - 1]. 0 \<le> j \<and> j < 128" by (auto simp: SERVER_CLIENTS_def)
  then have "\<exists>a n. cycle_loop E k (min (im_TotalOverhang ?m1) N) [0..SERVER_CLIENTS - 1] 0 (MapSize E k ?m1 - 1) ?m1 = Some (a, n) \<and> map_ok E k n \<and> 0 \<le> a"
    using N(2) by (intro cycle_loop_ok [OF ok1 assms(2-4)]) simp_all
  then obtain a m2 where c: "cycle_loop E k (min (im_TotalOverhang ?m1) N) [0..SERVER_CLIENTS - 1] 0 (MapSize E k ?m1 - 1) ?m1 = Some (a, m2)"
    "map_ok E k m2" "0 \<le> a"
    by blast
  have "map_ok E k (m2\<lparr>im_NumSeeOthers := a\<rparr>)" by (rule map_ok_cong [OF c(2)]) (use c(3) in auto)
  then show ?thesis using False w(1) N(1) c(1) by (simp add: CycleSeeOthers_def Let_def)
qed (use assms in \<open>simp add: CycleSeeOthers_def\<close>)

definition team_ok :: "team_info \<Rightarrow> bool" where
  "team_ok T \<longleftrightarrow> length (tm_aTeamSizes T) = 129"

lemma ReserveTeamSlots_total: "team_ok T \<Longrightarrow> 0 \<le> t \<Longrightarrow> t \<le> 128 \<Longrightarrow> ReserveTeamSlots E T t k \<noteq> None"
  by (auto simp: ReserveTeamSlots_def team_ok_def arr_at_ok)

lemma slot_for_ok:
  assumes ok: "map_ok E k m" "pm_env_ok E" "\<not> ClientSupportsServerMaxClients E k" and i: "0 \<le> i" "i < 128"
  shows "\<exists>s n. slot_for E k tm i m = Some (s, n) \<and> map_ok E k n \<and> (s = - 1 \<or> usable E k s)"
proof -
  note l = ok_lengths [OF ok(1)]
  show ?thesis
  proof (cases tm)
    case True
    obtain r where r: "first_slot (not_reserved m) (im_pMap m) (slots_below E k m) = Some r" "\<forall>j. r = Some j \<longrightarrow> usable E k j"
      using first_slot_usable [OF ok, of "not_reserved m"] tests_total(1) [OF ok(1)] by blast
    have "map_ok E k (m\<lparr>im_aReserved := (im_aReserved m)[nat i := True]\<rparr>)"
      by (rule map_ok_cong [OF ok(1)]) (use ok_nonneg [OF ok(1)] in auto)
    then show ?thesis using True r ok(1) i l by (cases r) (simp_all add: slot_for_def arr_upd_ok)
  next
    case False
    show ?thesis
    proof (cases "im_pReverseMap m ! nat i = - 1")
      case True
      obtain r where r: "first_slot (\<lambda>c. Some (c = - 1)) (im_pMap m) (slots_below E k m) = Some r" "\<forall>j. r = Some j \<longrightarrow> usable E k j"
        using first_slot_usable [OF ok, of "\<lambda>c. Some (c = - 1)"] by blast
      then show ?thesis using True False ok(1) i l by (cases r) (simp_all add: slot_for_def arr_at_ok)
    next
      case n: False
      then show ?thesis using False ok_player [OF ok(1) i n] ok(1) i l by (simp add: slot_for_def arr_at_ok)
    qed
  qed
qed

lemma update_player_ok:
  assumes ok: "map_ok E k m" "pm_env_ok E" "\<not> ClientSupportsServerMaxClients E k" and p: "pe_HasPlayer E k" "team_ok T" and i: "0 \<le> i" "i < 128"
  shows "\<exists>n. update_player E T k Resort i m = Some n \<and> map_ok E k n"
proof -
  note l = ok_lengths [OF ok(1)]
  consider "i = k" | "i \<noteq> k" "\<not> pe_Ingame E i \<or> \<not> pe_HasPlayer E i" | "i \<noteq> k" "pe_Ingame E i" "pe_HasPlayer E i" by blast
  then show ?thesis
  proof cases
    case 1
    then show ?thesis using ok(1) by (simp add: update_player_def)
  next
    case 2
    define r where "r = im_pReverseMap m ! nat i"
    have "r = - 1 \<or> 0 \<le> r \<and> r < 64" using ok_player [OF ok(1) i] by (auto simp: r_def usable_def)
    from Remove_ok [OF ok(1) p(1) this] obtain c m1 where m1: "map_Remove E k r m = Some (c, m1)" "map_ok E k m1" by blast
    have "map_ok E k (m1\<lparr>im_aReserved := (im_aReserved m1)[nat i := False]\<rparr>)"
      by (rule map_ok_cong [OF m1(2)]) (use ok_nonneg [OF m1(2)] in auto)
    then show ?thesis using 2 i l m1(1) ok_lengths [OF m1(2)] by (simp add: update_player_def arr_at_ok arr_upd_ok r_def)
  next
    case 3
    have "0 \<le> pe_Team E i" "pe_Team E i \<le> 128" using ok(2) 3(3) by (auto simp: pm_env_ok_def)
    then obtain R where R: "ReserveTeamSlots E T (pe_Team E i) k = Some R" using ReserveTeamSlots_total [OF p(2)] by blast
    have a: "arr_at (im_aReserved m) i = Some (im_aReserved m ! nat i)" using i l by (simp add: arr_at_ok)
    show ?thesis
    proof (cases "im_aReserved m ! nat i \<or> Resort")
      case True
      have "map_ok E k (m\<lparr>im_aReserved := (im_aReserved m)[nat i := False], im_UpdateTeamsState := u\<rparr>)" for u
        by (rule map_ok_cong [OF ok(1)]) (use ok_nonneg [OF ok(1)] in auto)
      then show ?thesis using 3 R a True ok(1) i l by (auto simp: update_player_def arr_upd_ok)
    next
      case False
      obtain s n where s: "slot_for E k (pe_Team E i \<noteq> 0 \<and> R) i m = Some (s, n)" "map_ok E k n" "s = - 1 \<or> usable E k s"
        using slot_for_ok [OF ok i] by blast
      have e: "update_player E T k Resort i m =
          (if s \<noteq> - 1 then map_Add E k s i n
           else if pe_HasChar E i \<and> \<not> pe_NetworkClipped E i k then InsertNextEmptyOrReplace E k i n else Some n)"
        using 3 R a False s(1) by (simp add: update_player_def)
      show ?thesis
        using Add_ok [OF s(2) p(1) 3(3) i, of s] Insert_ok [OF s(2) ok(2,3) p(1), of i] s(2,3) 3(3) unfolding e by auto
    qed
  qed
qed

lemma update_players_ok:
  assumes "map_ok E k m" "pm_env_ok E" "\<not> ClientSupportsServerMaxClients E k" "pe_HasPlayer E k" "team_ok T" "\<forall>i \<in> set js. 0 \<le> i \<and> i < 128"
  shows "\<exists>n. update_players E T k Resort js m = Some n \<and> map_ok E k n"
  using assms
proof (induction js arbitrary: m)
  case (Cons i js)
  obtain m1 where m1: "update_player E T k Resort i m = Some m1" "map_ok E k m1"
    using update_player_ok [OF Cons.prems(1-5), of i Resort] Cons.prems(6) by auto
  have "\<exists>n. update_players E T k Resort js m1 = Some n \<and> map_ok E k n"
    using Cons.prems by (intro Cons.IH [OF m1(2)]) auto
  then show ?case using m1(1) by simp
qed simp

lemma map_Update_ok:
  assumes "map_ok E k m" "pm_env_ok E" "team_ok T"
  shows "\<exists>n. map_Update E T k m = Some n \<and> map_ok E k n"
proof (cases "\<not> pe_Ingame E k \<or> \<not> pe_HasPlayer E k \<or> ClientSupportsServerMaxClients E k")
  case True
  then show ?thesis using assms(1) unfolding map_Update_def by auto
next
  case False
  have "\<exists>m1. (if im_DoSeeOthersByVote m \<and> pe_HasChar E k \<and> \<not> pe_Idle E k
      then map_option (\<lambda>n. n\<lparr>im_DoSeeOthersByVote := False\<rparr>) (ResetSeeOthers E k m) else Some m) = Some m1 \<and> map_ok E k m1"
  proof -
    obtain n where n: "ResetSeeOthers E k m = Some n" "map_ok E k n" using ResetSeeOthers_ok [OF assms(1,2)] by blast
    have "map_ok E k (n\<lparr>im_DoSeeOthersByVote := False\<rparr>)" by (rule map_ok_cong [OF n(2)]) (use ok_nonneg [OF n(2)] in auto)
    then show ?thesis using n assms(1) by simp
  qed
  then obtain m1 where m1: "(if im_DoSeeOthersByVote m \<and> pe_HasChar E k \<and> \<not> pe_Idle E k
      then map_option (\<lambda>n. n\<lparr>im_DoSeeOthersByVote := False\<rparr>) (ResetSeeOthers E k m) else Some m) = Some m1" "map_ok E k m1" by blast
  have "map_ok E k (m1\<lparr>im_ResortReserved := False\<rparr>)" by (rule map_ok_cong [OF m1(2)]) (use ok_nonneg [OF m1(2)] in auto)
  moreover have "\<forall>i \<in> set [0..SERVER_CLIENTS - 1]. 0 \<le> i \<and> i < 128" by (auto simp: SERVER_CLIENTS_def)
  ultimately obtain m2 where m2: "update_players E T k (im_ResortReserved m1) [0..SERVER_CLIENTS - 1] (m1\<lparr>im_ResortReserved := False\<rparr>) = Some m2"
    "map_ok E k m2"
    using update_players_ok assms(2,3) False by blast
  have "map_ok E k ((map_send SendTeamsState m2)\<lparr>im_UpdateTeamsState := False\<rparr>)"
    by (rule map_ok_cong [OF m2(2)]) (use ok_nonneg [OF m2(2)] in \<open>auto simp: map_send_def client_view_def view_step_def\<close>)
  then show ?thesis using False m1(1) m2 unfolding map_Update_def by auto
qed

lemma map_DoSeeOthers_ok:
  assumes "map_ok E k m" "pm_env_ok E" "\<not> ClientSupportsServerMaxClients E k" "pe_HasPlayer E k" "team_ok T"
  shows "\<exists>n. map_DoSeeOthers E T k m = Some n \<and> map_ok E k n"
proof (cases "im_TotalOverhang m \<le> 0")
  case False
  have "map_ok E k (m\<lparr>im_SeeOthersPage := im_SeeOthersPage m + 1\<rparr>)"
    by (rule map_ok_cong [OF assms(1)]) (use ok_nonneg [OF assms(1)] in auto)
  from UpdateSeeOthers_ok [OF this assms(2)] obtain m1 where m1: "UpdateSeeOthers E k (m\<lparr>im_SeeOthersPage := im_SeeOthersPage m + 1\<rparr>) = Some m1" "map_ok E k m1" by blast
  from CycleSeeOthers_ok [OF m1(2) assms(2-4)] obtain m2 where m2: "CycleSeeOthers E k m1 = Some m2" "map_ok E k m2" by blast
  have "map_ok E k (m2\<lparr>im_aWasSeeOthers := map (\<lambda>b. False) (im_aWasSeeOthers m2)\<rparr>)"
    by (rule map_ok_cong [OF m2(2)]) (use ok_nonneg [OF m2(2)] in auto)
  from CycleSeeOthers_ok [OF this assms(2-4)] obtain n where n: "CycleSeeOthers E k (m2\<lparr>im_aWasSeeOthers := map (\<lambda>b. False) (im_aWasSeeOthers m2)\<rparr>) = Some n" "map_ok E k n" by blast
  obtain n' where n': "ResetSeeOthers E k n = Some n'" "map_ok E k n'" using ResetSeeOthers_ok [OF n(2) assms(2)] by blast
  obtain m3 where m3: "(if im_NumSeeOthers m2 = 0 then CycleSeeOthers E k (m2\<lparr>im_aWasSeeOthers := map (\<lambda>b. False) (im_aWasSeeOthers m2)\<rparr>) \<bind>
      ResetSeeOthers E k else Some m2) = Some m3" "map_ok E k m3"
    using n n' m2(2) by (cases "im_NumSeeOthers m2 = 0") auto
  have "map_ok E k (m3\<lparr>im_UpdateTeamsState := True\<rparr>)" by (rule map_ok_cong [OF m3(2)]) (use ok_nonneg [OF m3(2)] in auto)
  from map_Update_ok [OF this assms(2,5)] show ?thesis
    using False m1(1) m2(1) m3(1) unfolding map_DoSeeOthers_def by simp
qed (use assms in \<open>simp add: map_DoSeeOthers_def\<close>)

lemma DoSeeOthers_ok:
  assumes "map_ok E k m" "pm_env_ok E" "pe_HasPlayer E k" "team_ok T"
  shows "\<exists>b n. DoSeeOthers E T k Selected ByVote m = Some (b, n) \<and> map_ok E k n"
proof -
  define m1 where "m1 = (if ByVote then m\<lparr>im_LastSeeOthersVoteTick := pe_Now E, im_DoSeeOthersByVote := True\<rparr> else m)"
  have "map_ok E k m1" by (rule map_ok_cong [OF assms(1)]) (use ok_nonneg [OF assms(1)] in \<open>auto simp: m1_def\<close>)
  then have "\<not> ClientSupportsServerMaxClients E k \<Longrightarrow> \<exists>n. map_DoSeeOthers E T k m1 = Some n \<and> map_ok E k n"
    using map_DoSeeOthers_ok assms(2-4) by blast
  then show ?thesis using assms(1) unfolding DoSeeOthers_def Let_def m1_def [symmetric] by auto
qed

lemma update_map_ok:
  assumes "map_ok E k m" "pm_env_ok E" "team_ok T"
  shows "\<exists>n. update_map E T Update k m = Some n \<and> map_ok E k n"
proof (cases "\<not> pe_HasPlayer E k \<or> ClientSupportsServerMaxClients E k")
  case True
  then show ?thesis using assms(1) unfolding update_map_def by auto
next
  case False
  define Ov where "Ov = max 0 (pe_ClientCount E - MapSize E k m)"
  obtain N where N: "MaxNumSeeOthers E k m = Some N" using MaxNum_total [OF assms(1,2)] False by blast
  define m2 where "m2 = m\<lparr>im_TotalOverhang := Ov, im_NumPages := (if N > 0 then max 1 (c_div (Ov + N - 1) N) else 1)\<rparr>"
  have ok2: "map_ok E k m2" by (rule map_ok_cong [OF assms(1)]) (use ok_nonneg [OF assms(1)] in \<open>auto simp: m2_def\<close>)
  obtain m3 where m3: "(if Ov \<le> 0 \<and> im_SeeOthersPage m2 \<noteq> - 1 then ResetSeeOthers E k m2 else Some m2) = Some m3" "map_ok E k m3"
    using ResetSeeOthers_ok [OF ok2 assms(2)] ok2 by (cases "Ov \<le> 0 \<and> im_SeeOthersPage m2 \<noteq> - 1") auto
  obtain m4 where m4: "UpdateSeeOthers E k m3 = Some m4" "map_ok E k m4" using UpdateSeeOthers_ok [OF m3(2) assms(2)] by blast
  have ok5: "map_ok E k (m4\<lparr>im_UpdateTeamsState := True\<rparr>)" by (rule map_ok_cong [OF m4(2)]) (use ok_nonneg [OF m4(2)] in auto)
  define m1 where "m1 = (if Ov \<noteq> im_TotalOverhang m then m4\<lparr>im_UpdateTeamsState := True\<rparr> else m)"
  have ok1: "map_ok E k m1" using ok5 assms(1) by (simp add: m1_def)
  have "update_map E T Update k m = (if Update then map_Update E T k m1 else Some m1)"
    unfolding update_map_def Let_def Ov_def [symmetric] N bind.simps m2_def [symmetric] m3(1) m4(1)
    using False by (simp add: m1_def)
  then show ?thesis using map_Update_ok [OF ok1 assms(2,3)] ok1 by auto
qed

end
