(* ===== verification/PlayerMapProps.thy ===== *)
theory PlayerMapProps
  imports PlayerMapLaws
begin

text \<open>
  The player mapping as a whole: the initialisation of the map of a client, which also changes the maps of the players
  with the same address, and the runs of the server.
\<close>

subsection \<open>Operations on one of the maps\<close>

definition players_ok :: "pm_env \<Rightarrow> player_mapping \<Rightarrow> bool" where
  "players_ok E P \<longleftrightarrow> length (pm_aMap P) = 128 \<and> (\<forall>i. pe_HasPlayer E i \<longrightarrow> map_ok E i (pm_aMap P ! nat i))"

text \<open>Only maps of players change.\<close>

definition others_same :: "pm_env \<Rightarrow> player_mapping \<Rightarrow> player_mapping \<Rightarrow> bool" where
  "others_same E P Q \<longleftrightarrow> pm_Teams Q = pm_Teams P \<and> length (pm_aMap Q) = length (pm_aMap P) \<and>
     (\<forall>i. 0 \<le> i \<and> i < 128 \<and> \<not> pe_HasPlayer E i \<longrightarrow> pm_aMap Q ! nat i = pm_aMap P ! nat i)"

lemma others_same_refl [simp]: "others_same E P P" by (simp add: others_same_def)

lemma others_same_trans: "others_same E P Q \<Longrightarrow> others_same E Q R \<Longrightarrow> others_same E P R"
  by (simp add: others_same_def)

lemma on_map_eq:
  assumes "0 \<le> k" "k < 128" "length (pm_aMap P) = 128" "f (pm_aMap P ! nat k) = Some n"
  shows "on_map k f P = Some (P\<lparr>pm_aMap := (pm_aMap P)[nat k := n]\<rparr>)"
  using assms by (simp add: on_map_def arr_at_ok arr_upd_ok)

lemma on_map_ok:
  assumes P: "players_ok E P" "pm_env_ok E" and k: "pe_HasPlayer E k" and f: "\<exists>n. f (pm_aMap P ! nat k) = Some n \<and> map_ok E k n"
  shows "\<exists>Q. on_map k f P = Some Q \<and> players_ok E Q \<and> others_same E P Q"
proof -
  obtain n where n: "f (pm_aMap P ! nat k) = Some n" "map_ok E k n" using f by blast
  have k': "0 \<le> k" "k < 128" using P(2) k by (auto simp: pm_env_ok_def)
  have len: "length (pm_aMap P) = 128" using P(1) by (simp add: players_ok_def)
  have r: "0 \<le> i \<and> i < 128" if "pe_HasPlayer E i" for i using P(2) that by (auto simp: pm_env_ok_def)
  have "players_ok E (P\<lparr>pm_aMap := (pm_aMap P)[nat k := n]\<rparr>)"
    using P(1) n(2) k' len r by (auto simp: players_ok_def nth_upd_int)
  moreover have "others_same E P (P\<lparr>pm_aMap := (pm_aMap P)[nat k := n]\<rparr>)"
    using k k' len by (auto simp: others_same_def nth_upd_int)
  ultimately show ?thesis using on_map_eq [where f = f, OF k' len n(1)] by blast
qed

lemma on_maps_ok:
  assumes "players_ok E P" "pm_env_ok E" "\<forall>k \<in> set ks. 0 \<le> k \<and> k < 128"
    and f: "\<And>k m. map_ok E k m \<Longrightarrow> \<exists>n. f k m = Some n \<and> map_ok E k n" "\<And>k m. \<not> pe_HasPlayer E k \<Longrightarrow> f k m = Some m"
  shows "\<exists>Q. on_maps f ks P = Some Q \<and> players_ok E Q \<and> others_same E P Q"
  using assms(1,3)
proof (induction ks arbitrary: P)
  case (Cons k ks)
  have len: "length (pm_aMap P) = 128" using Cons.prems(1) by (simp add: players_ok_def)
  have "\<exists>Q. on_map k (f k) P = Some Q \<and> players_ok E Q \<and> others_same E P Q"
  proof (cases "pe_HasPlayer E k")
    case True
    then have "map_ok E k (pm_aMap P ! nat k)" using Cons.prems(1) by (simp add: players_ok_def)
    then show ?thesis using on_map_ok [OF Cons.prems(1) assms(2) True] f(1) by blast
  next
    case False
    have "on_map k (f k) P = Some (P\<lparr>pm_aMap := (pm_aMap P)[nat k := pm_aMap P ! nat k]\<rparr>)"
      by (rule on_map_eq) (use Cons.prems(2) len f(2) [OF False] in auto)
    then show ?thesis using Cons.prems(1) by simp
  qed
  then obtain Q where Q: "on_map k (f k) P = Some Q" "players_ok E Q" "others_same E P Q" by blast
  have "\<forall>k \<in> set ks. 0 \<le> k \<and> k < 128" using Cons.prems(2) by simp
  from Cons.IH [OF Q(2) this] Q show ?case by (auto intro: others_same_trans)
qed auto

lemma count_teams_total:
  assumes "pm_env_ok E" "length sizes = 129"
  shows "\<exists>s. count_teams E js sizes = Some s \<and> length s = 129"
  using assms(2)
proof (induction js arbitrary: sizes)
  case (Cons i js)
  have t: "pe_HasPlayer E i \<Longrightarrow> 0 \<le> pe_Team E i \<and> pe_Team E i \<le> 128" using assms(1) by (auto simp: pm_env_ok_def)
  show ?case using Cons t by (auto simp: arr_at_ok arr_upd_ok)
qed simp

lemma UpdatePlayerMaps_ok:
  assumes "players_ok E P" "pm_env_ok E" "team_ok (pm_Teams P)"
  shows "\<exists>Q T. UpdatePlayerMaps E P = Some Q \<and> players_ok E Q \<and> team_ok (pm_Teams Q) \<and> others_same E (P\<lparr>pm_Teams := T\<rparr>) Q"
proof -
  define Upd where "Upd = (c_mod (pe_Now E) (pe_MapUpdateRate E) = 0)"
  obtain s where s: "count_teams E [0..SERVER_CLIENTS - 1] (map (\<lambda>n. 0) (tm_aTeamSizes (pm_Teams P))) = Some s" "length s = 129"
    using count_teams_total [OF assms(2)] assms(3) by (metis length_map team_ok_def)
  obtain T where T: "(if Upd then count_all_teams E (pm_Teams P) else Some (pm_Teams P)) = Some T" "team_ok T"
    using s assms(3) by (cases Upd) (auto simp: count_all_teams_def team_ok_def Let_def)
  have P1: "players_ok E (P\<lparr>pm_Teams := T\<rparr>)" using assms(1) by (simp add: players_ok_def)
  have ks: "\<forall>k \<in> set [0..SERVER_CLIENTS - 1]. 0 \<le> k \<and> k < 128" by (auto simp: SERVER_CLIENTS_def)
  obtain Q where Q: "on_maps (update_map E T Upd) [0..SERVER_CLIENTS - 1] (P\<lparr>pm_Teams := T\<rparr>) = Some Q" "players_ok E Q"
    "others_same E (P\<lparr>pm_Teams := T\<rparr>) Q"
    using on_maps_ok [OF P1 assms(2) ks, of "update_map E T Upd"] update_map_ok [OF _ assms(2) T(2)]
    by (auto simp: update_map_def)
  have "UpdatePlayerMaps E P = Some Q"
    unfolding UpdatePlayerMaps_def Let_def Upd_def [symmetric] T(1) bind.simps Q(1) ..
  moreover have "team_ok (pm_Teams Q)" using Q(3) T(2) by (simp add: others_same_def)
  ultimately show ?thesis using Q by blast
qed

subsection \<open>The initialisation of a map\<close>

lemma free_id_pass_total:
  assumes "length (pm_aMap P) = 128" "\<forall>i \<in> set js. 0 \<le> i \<and> i < 128"
    and "\<And>i. pe_HasPlayer E i \<Longrightarrow> 0 \<le> i \<Longrightarrow> i < 128 \<Longrightarrow> length (im_pReverseMap (pm_aMap P ! nat i)) = 128 \<and> im_pReverseMap (pm_aMap P ! nat i) ! nat i < 64"
    and "0 \<le> n" "n \<le> 64"
  shows "\<exists>r. free_id_pass E k Skip P js n = Some r \<and> n \<le> r \<and> r \<le> 64"
  using assms(2,4,5)
proof (induction js arbitrary: n)
  case (Cons i js)
  have i: "0 \<le> i" "i < 128" using Cons.prems(1) by auto
  show ?case
  proof (cases "\<not> pe_HasPlayer E i \<or> net_addr_comp_noport (pe_Addr E k) (pe_Addr E i) \<noteq> 0 \<or> \<not> (i \<noteq> k \<or> Skip)")
    case True
    have "\<exists>r. free_id_pass E k Skip P js n = Some r \<and> n \<le> r \<and> r \<le> 64" using Cons.prems by (intro Cons.IH) auto
    then show ?thesis using True by auto
  next
    case False
    then have pi: "pe_HasPlayer E i" by blast
    define r where "r = im_pReverseMap (pm_aMap P ! nat i) ! nat i"
    have r: "arr_at (pm_aMap P) i = Some (pm_aMap P ! nat i)" "arr_at (im_pReverseMap (pm_aMap P ! nat i)) i = Some r" "r < 64"
      using assms(1) assms(3) [OF pi i] i by (simp_all add: arr_at_ok r_def)
    define n1 where "n1 = (if r = n then n + 1 else n)"
    have n1: "n \<le> n1" "n1 \<le> 64" "0 \<le> n1" using Cons.prems(2,3) r(3) by (auto simp: n1_def)
    have "\<exists>q. free_id_pass E k Skip P js n1 = Some q \<and> n1 \<le> q \<and> q \<le> 64" using Cons.prems(1) n1 by (intro Cons.IH) auto
    moreover have "free_id_pass E k Skip P (i # js) n = free_id_pass E k Skip P js n1"
      using False r(1,2) by (simp add: n1_def)
    ultimately show ?thesis using n1(1) by auto
  qed
qed simp

lemma free_id_loop_total:
  assumes "length (pm_aMap P) = 128"
    and "\<And>i. pe_HasPlayer E i \<Longrightarrow> 0 \<le> i \<Longrightarrow> i < 128 \<Longrightarrow> length (im_pReverseMap (pm_aMap P ! nat i)) = 128 \<and> im_pReverseMap (pm_aMap P ! nat i) ! nat i < 64"
    and "0 \<le> n" "n \<le> 64"
  shows "\<exists>r. free_id_loop E k Skip P n = Some r \<and> 0 \<le> r"
  using assms(3,4)
proof (induction "nat (64 - n)" arbitrary: n rule: less_induct)
  case less
  have js: "\<forall>i \<in> set [0..SERVER_CLIENTS - 1]. 0 \<le> i \<and> i < 128" by (auto simp: SERVER_CLIENTS_def)
  obtain r where r: "free_id_pass E k Skip P [0..SERVER_CLIENTS - 1] n = Some r" "n \<le> r" "r \<le> 64"
    using free_id_pass_total [OF assms(1) js assms(2) less.prems] by blast
  show ?case
  proof (cases "r = n")
    case True
    then show ?thesis using r(1) less.prems(1) by (subst free_id_loop.simps) simp
  next
    case False
    have "\<exists>q. free_id_loop E k Skip P r = Some q \<and> 0 \<le> q" using False r less.prems(1) by (intro less.hyps) auto
    then show ?thesis using r(1) False by (subst free_id_loop.simps) simp
  qed
qed

text \<open>The own tables are emptied: by removing every player, or because they are those of a new client.\<close>

definition table_empty :: "id_map \<Rightarrow> bool" where
  "table_empty m \<longleftrightarrow> (\<forall>s. 0 \<le> s \<and> s < 64 \<longrightarrow> im_pMap m ! nat s = - 1)"

lemma remove_slots_ok:
  assumes "base_ok E k m" "pe_HasPlayer E k" "\<forall>s \<in> set js. 0 \<le> s \<and> s < 64"
  shows "\<exists>n. remove_slots E k js m = Some n \<and> base_ok E k n \<and>
    (\<forall>s. 0 \<le> s \<and> s < 64 \<longrightarrow> im_pMap m ! nat s = - 1 \<or> s \<in> set js \<longrightarrow> im_pMap n ! nat s = - 1)"
  using assms(1,3)
proof (induction js arbitrary: m)
  case (Cons i js)
  have i: "0 \<le> i" "i < 64" using Cons.prems(2) by auto
  then have "i = - 1 \<or> 0 \<le> i \<and> i < 64" by simp
  from Remove_base [OF Cons.prems(1) assms(2) this] obtain c m1 where m1: "map_Remove E k i m = Some (c, m1)" "base_ok E k m1"
    "im_pMap m1 = (im_pMap m)[nat i := - 1]" using i by auto
  have l: "length (im_pMap m) = 64" using Cons.prems(1) by (simp add: base_ok_def tables_ok_def)
  have e: "im_pMap m1 ! nat s = - 1" if "0 \<le> s" "s < 64" "im_pMap m ! nat s = - 1 \<or> s = i" for s
    using that i l m1(3) by (auto simp: nth_upd_int)
  have js: "\<forall>s \<in> set js. 0 \<le> s \<and> s < 64" using Cons.prems(2) by simp
  obtain n where n: "remove_slots E k js m1 = Some n" "base_ok E k n"
    "\<forall>s. 0 \<le> s \<and> s < 64 \<longrightarrow> im_pMap m1 ! nat s = - 1 \<or> s \<in> set js \<longrightarrow> im_pMap n ! nat s = - 1"
    using Cons.IH [OF m1(2) js] by blast
  have "im_pMap n ! nat s = - 1" if "0 \<le> s" "s < 64" "im_pMap m ! nat s = - 1 \<or> s \<in> set (i # js)" for s
    using e n(3) that by auto
  then show ?case using m1(1) n(1,2) by auto
qed simp

lemma base_ok_cong:
  assumes "base_ok E k m" "im_pMap n = im_pMap m" "im_pReverseMap n = im_pReverseMap m" "length (im_aReserved n) = length (im_aReserved m)"
    "length (im_aWasSeeOthers n) = length (im_aWasSeeOthers m)" "0 \<le> im_NumSeeOthers n" "im_Sent n = im_Sent m"
  shows "base_ok E k n"
  using assms unfolding base_ok_def by simp

lemma empty_table_list: "length mp = 64 \<Longrightarrow> \<forall>s. 0 \<le> s \<and> s < 64 \<longrightarrow> mp ! nat s = - 1 \<Longrightarrow> map (\<lambda>c. - 1) mp = (mp :: int list)"
proof (rule nth_equalityI)
  fix i assume a: "length mp = 64" "\<forall>s. 0 \<le> s \<and> s < 64 \<longrightarrow> mp ! nat s = - 1" "i < length (map (\<lambda>c. - 1 :: int) mp)"
  then have "mp ! nat (int i) = - 1" by (intro a(2) [rule_format]) simp
  then show "map (\<lambda>c. - 1) mp ! i = mp ! i" using a(3) by simp
qed simp

lemma clear_own_ok:
  assumes m: "base_ok E k m" and E: "pm_env_ok E" "pe_HasPlayer E k" and c: "Clear \<or> table_empty m"
  shows "\<exists>n. clear_own E k Clear m = Some n \<and> map_ok E k n"
proof -
  have all: "\<forall>s \<in> set [0..LEGACY_MAX_CLIENTS - 1]. 0 \<le> s \<and> s < 64" "\<forall>s. 0 \<le> s \<and> s < 64 \<longrightarrow> s \<in> set [0..LEGACY_MAX_CLIENTS - 1]"
    by (auto simp: LEGACY_MAX_CLIENTS_def)
  have b: "base_ok E k (m\<lparr>im_UpdateTeamsState := True\<rparr>)" by (rule base_ok_cong [OF m]) (use m in \<open>auto simp: base_ok_def\<close>)
  obtain m1 where m1: "(if Clear then remove_slots E k [0..LEGACY_MAX_CLIENTS - 1] (m\<lparr>im_UpdateTeamsState := True\<rparr>) else Some m) = Some m1"
    "base_ok E k m1" "table_empty m1"
    using remove_slots_ok [OF b E(2) all(1)] all(2) m c by (cases Clear) (auto simp: table_empty_def)
  have l: "length (im_pMap m1) = 64" "length (im_pReverseMap m1) = 128" using m1(2) by (auto simp: base_ok_def tables_ok_def)
  have mp: "map (\<lambda>c. - 1) (im_pMap m1) = im_pMap m1" using empty_table_list [OF l(1)] m1(3) by (simp add: table_empty_def)
  define m2 where "m2 = m1\<lparr>im_pMap := map (\<lambda>c. - 1) (im_pMap m1), im_pReverseMap := map (\<lambda>c. - 1) (im_pReverseMap m1), im_NumReserved := 0\<rparr>"
  have f2: "im_pMap m2 = im_pMap m1" "im_pReverseMap m2 = map (\<lambda>c. - 1) (im_pReverseMap m1)" "im_NumReserved m2 = 0" "im_Sent m2 = im_Sent m1"
    by (simp_all add: m2_def mp)
  have b2: "base_ok E k m2"
    using m1(2) tables_clear [OF l] unfolding base_ok_def f2 by (simp add: mp) (simp add: m2_def)
  show ?thesis
  proof (cases "ClientSupportsServerMaxClients E k")
    case True
    then have "clear_own E k Clear m = Some m2" unfolding clear_own_def m1(1) by (simp add: m2_def)
    then show ?thesis using b2 True f2(3) by (simp add: map_ok_base)
  next
    case False
    have sz: "GetMaxClients E k = 16 \<or> GetMaxClients E k = 64" using unsupported_size [OF E(1) False] .
    have u: "(im_pMap m2)[nat s := - 1] = im_pMap m2" if "0 \<le> s" "s < 64" for s
      using m1(3) that f2(1) by (simp add: table_empty_def upd_same)
    have a: "arr_upd (im_pMap m2) s (- 1) = Some (im_pMap m2)" if "0 \<le> s" "s < 64" for s
      using u that l f2(1) by (simp add: arr_upd_ok)
    have r: "arr_upd (im_pMap m2) (GetMaxClients E k - 1) (- 1) = Some (im_pMap m2)" "arr_upd (im_pMap m2) (SeeOthersId E k) (- 1) = Some (im_pMap m2)"
      using sz by (auto intro!: a simp: SeeOthersId_def)
    define m3 where "m3 = m2\<lparr>im_NumReserved := 2, im_TotalOverhang := 0\<rparr>"
    have b3: "base_ok E k m3" by (rule base_ok_cong [OF b2]) (use b2 in \<open>auto simp: m3_def base_ok_def\<close>)
    have ok3: "map_ok E k m3" unfolding map_ok_base using b3 False m1(3) sz f2(1) by (auto simp: m3_def table_empty_def)
    have e: "clear_own E k Clear m = (if pe_Sixup E k then UpdateSeeOthers E k (map_send (FakePlayer (GetMaxClients E k - 1) (lit '' '')) m3) else Some m3)"
      unfolding clear_own_def m1(1) bind.simps Let_def m2_def [symmetric] using False r by (simp add: m3_def)
    have "map_ok E k (map_send (FakePlayer (GetMaxClients E k - 1) (lit '' '')) m3)"
      by (rule map_ok_cong [OF ok3]) (use ok_nonneg [OF ok3] in \<open>auto simp: map_send_def client_view_def view_step_def\<close>)
    then show ?thesis using e ok3 UpdateSeeOthers_ok [OF _ E(1)] by auto
  qed
qed

lemma reserve_ok:
  assumes "map_ok E k m" "0 \<le> i" "i < 128"
  shows "\<exists>n. reserve i m = Some n \<and> map_ok E k n"
proof -
  have "map_ok E k (m\<lparr>im_aReserved := (im_aReserved m)[nat i := True]\<rparr>)"
    by (rule map_ok_cong [OF assms(1)]) (use ok_nonneg [OF assms(1)] in auto)
  then show ?thesis using assms(2,3) ok_lengths [OF assms(1)] by (simp add: reserve_def arr_upd_ok)
qed

lemma reserve_Add_ok:
  assumes "map_ok E k m" "pm_env_ok E" "pe_HasPlayer E k" "pe_HasPlayer E i" "s = - 1 \<or> usable E k s"
  shows "\<exists>n. do { n1 \<leftarrow> reserve i m; map_Add E k s i n1 } = Some n \<and> map_ok E k n"
proof -
  have i: "0 \<le> i" "i < 128" using assms(2,4) by (auto simp: pm_env_ok_def)
  obtain n1 where n1: "reserve i m = Some n1" "map_ok E k n1" using reserve_ok [OF assms(1) i] by blast
  show ?thesis
  proof (cases "s = - 1")
    case True
    then show ?thesis using n1 assms(3) by (simp add: map_Add_def)
  next
    case False
    then show ?thesis using Add_ok [OF n1(2) assms(3,4) i, of s] assms(5) n1(1) by auto
  qed
qed

lemma share_slots_ok:
  assumes P: "players_ok E P" "pm_env_ok E" and k: "pe_HasPlayer E k" and n: "0 \<le> NextFreeId"
  shows "\<exists>Q. share_slots E k NextFreeId i P = Some Q \<and> players_ok E Q \<and> others_same E P Q"
proof (cases "\<not> pe_HasPlayer E i \<or> i = k \<or> net_addr_comp_noport (pe_Addr E k) (pe_Addr E i) \<noteq> 0")
  case True
  then show ?thesis using P(1) unfolding share_slots_def by auto
next
  case False
  then have pi: "pe_HasPlayer E i" by blast
  have r: "0 \<le> k" "k < 128" "0 \<le> i" "i < 128" using P(2) k pi by (auto simp: pm_env_ok_def)
  have len: "length (pm_aMap P) = 128" using P(1) by (simp add: players_ok_def)
  define mi where "mi = pm_aMap P ! nat i"
  define m where "m = pm_aMap P ! nat k"
  have mo: "map_ok E i mi" "map_ok E k m" using P(1) pi k by (auto simp: players_ok_def mi_def m_def)
  define r where "r = im_pReverseMap mi ! nat i"
  have at: "arr_at (pm_aMap P) k = Some m" "arr_at (pm_aMap P) i = Some mi" "arr_at (im_pReverseMap mi) i = Some r"
    using \<open>0 \<le> k\<close> \<open>k < 128\<close> \<open>0 \<le> i\<close> \<open>i < 128\<close> len ok_lengths [OF mo(1)] by (simp_all add: arr_at_ok mi_def m_def r_def)
  have r1: "r = - 1 \<or> 0 \<le> r \<and> r < 64" using ok_player [OF mo(1) \<open>0 \<le> i\<close> \<open>i < 128\<close>] by (auto simp: r_def usable_def)
  define c1 where "c1 = (\<not> ClientSupportsServerMaxClients E k \<and> r < MapSize E k m)"
  have u1: "r = - 1 \<or> usable E k r" if c1
    using that r1 mo(2) by (auto simp: c1_def usable_def MapSize_def map_ok_def)
  define f1 where "f1 = (\<lambda>n. do { n1 \<leftarrow> reserve i n; map_Add E k r i n1 })"
  obtain P1 where P1: "(if c1 then on_map k f1 P else Some P) = Some P1" "players_ok E P1" "others_same E P P1"
  proof (cases c1)
    case True
    have "\<exists>n. f1 (pm_aMap P ! nat k) = Some n \<and> map_ok E k n"
      using reserve_Add_ok [OF mo(2) P(2) k pi u1 [OF True]] by (simp add: f1_def m_def)
    from on_map_ok [where f = f1, OF P k this] show ?thesis using True that by auto
  next
    case False
    then show ?thesis using P(1) that by auto
  qed
  define c2 where "c2 = (NextFreeId < LEGACY_MAX_CLIENTS \<and> NextFreeId < MapSize E i mi)"
  define f2 where "f2 = (\<lambda>n. do { n1 \<leftarrow> reserve k n; map_Add E i NextFreeId k n1 })"
  have u2: "usable E i NextFreeId" if c2
    using that n mo(1) by (auto simp: c2_def usable_def MapSize_def map_ok_def LEGACY_MAX_CLIENTS_def)
  obtain Q where Q: "(if c2 then on_map i f2 P1 else Some P1) = Some Q" "players_ok E Q" "others_same E P1 Q"
  proof (cases c2)
    case True
    have "map_ok E i (pm_aMap P1 ! nat i)" using P1(2) pi by (simp add: players_ok_def)
    then have "\<exists>n. f2 (pm_aMap P1 ! nat i) = Some n \<and> map_ok E i n"
      using reserve_Add_ok [OF _ P(2) pi k, of _ NextFreeId] u2 [OF True] by (simp add: f2_def)
    from on_map_ok [where f = f2, OF P1(2) P(2) pi this] show ?thesis using True that by auto
  next
    case False
    then show ?thesis using P1(2) that by auto
  qed
  have "share_slots E k NextFreeId i P = Some Q"
    unfolding share_slots_def at bind.simps c1_def [symmetric] f1_def [symmetric] P1(1) c2_def [symmetric] f2_def [symmetric] Q(1)
    using False by simp
  then show ?thesis using Q P1(3) by (auto intro: others_same_trans)
qed

lemma share_all_ok:
  assumes "players_ok E P" "pm_env_ok E" "pe_HasPlayer E k" "0 \<le> NextFreeId"
  shows "\<exists>Q. share_all E k NextFreeId js P = Some Q \<and> players_ok E Q \<and> others_same E P Q"
  using assms(1)
proof (induction js arbitrary: P)
  case (Cons i js)
  obtain Q where Q: "share_slots E k NextFreeId i P = Some Q" "players_ok E Q" "others_same E P Q"
    using share_slots_ok [OF Cons.prems assms(2-4)] by blast
  from Cons.IH [OF Q(2)] Q show ?case by (auto intro: others_same_trans)
qed simp

lemma rev_below: "tables_ok mp rv \<Longrightarrow> 0 \<le> i \<Longrightarrow> i < 128 \<Longrightarrow> length rv = 128 \<and> rv ! nat i < 64"
  using tables_player [of mp rv i] by (auto simp: tables_ok_def)

lemma InitPlayer_ok:
  assumes P: "length (pm_aMap P) = 128" "\<And>i. pe_HasPlayer E i \<Longrightarrow> i \<noteq> k \<Longrightarrow> map_ok E i (pm_aMap P ! nat i)"
    and k: "pe_HasPlayer E k" "base_ok E k (pm_aMap P ! nat k)" "Clear \<or> table_empty (pm_aMap P ! nat k)" and E: "pm_env_ok E"
  shows "\<exists>Q. InitPlayer E k Skip Clear P = Some Q \<and> players_ok E Q \<and> others_same E P Q"
proof -
  have k': "0 \<le> k" "k < 128" using E k(1) by (auto simp: pm_env_ok_def)
  have r: "0 \<le> i \<and> i < 128" if "pe_HasPlayer E i" for i using E that by (auto simp: pm_env_ok_def)
  define m where "m = pm_aMap P ! nat k"
  define m1 where "m1 = m\<lparr>im_aReserved := map (\<lambda>b. False) (im_aReserved m)\<rparr>"
  define P1 where "P1 = P\<lparr>pm_aMap := (pm_aMap P)[nat k := m1]\<rparr>"
  have s1: "on_map k (\<lambda>m. Some (m\<lparr>im_aReserved := map (\<lambda>b. False) (im_aReserved m)\<rparr>)) P = Some P1"
    unfolding P1_def by (rule on_map_eq [OF k' P(1)]) (simp add: m1_def m_def)
  have at: "pm_aMap P1 ! nat i = (if i = k then m1 else pm_aMap P ! nat i)" if "0 \<le> i" "i < 128" for i
    using that k' P(1) by (simp add: P1_def nth_upd_int)
  have len1: "length (pm_aMap P1) = 128" using P(1) by (simp add: P1_def)
  have b1: "base_ok E k m1" by (rule base_ok_cong [OF k(2) [folded m_def]]) (use k(2) in \<open>auto simp: m1_def m_def base_ok_def\<close>)
  have c1: "Clear \<or> table_empty m1" using k(3) by (simp add: m1_def m_def table_empty_def)
  have t: "tables_ok (im_pMap (pm_aMap P1 ! nat i)) (im_pReverseMap (pm_aMap P1 ! nat i))" if "pe_HasPlayer E i" for i
    using at [of i] r [OF that] P(2) [OF that] b1 by (auto simp: map_ok_def base_ok_def)
  have "\<exists>n. free_id_loop E k Skip P1 0 = Some n \<and> 0 \<le> n"
    by (rule free_id_loop_total [OF len1]) (use rev_below [OF t] in auto)
  then obtain n where n: "free_id_loop E k Skip P1 0 = Some n" "0 \<le> n" by blast
  obtain m2 where m2: "clear_own E k Clear m1 = Some m2" "map_ok E k m2" using clear_own_ok [OF b1 E k(1) c1] by blast
  define P2 where "P2 = P1\<lparr>pm_aMap := (pm_aMap P1)[nat k := m2]\<rparr>"
  have s2: "on_map k (clear_own E k Clear) P1 = Some P2"
    unfolding P2_def by (rule on_map_eq [OF k' len1]) (simp add: m2(1) at [OF k'])
  have at2: "pm_aMap P2 ! nat i = (if i = k then m2 else pm_aMap P ! nat i)" if "0 \<le> i" "i < 128" for i
    using that k' len1 at by (simp add: P2_def nth_upd_int)
  have P2: "players_ok E P2" "others_same E P P2"
    using at2 P r k(1) m2(2) len1 by (auto simp: players_ok_def others_same_def P2_def P1_def)
  have am: "arr_at (pm_aMap P2) k = Some m2" using k' at2 [OF k'] P2(1) by (simp add: arr_at_ok players_ok_def)
  define f where "f = (\<lambda>q. do { n1 \<leftarrow> reserve k q; map_Add E k n k n1 })"
  obtain P3 where P3: "(if n < MapSize E k m2 \<and> n < LEGACY_MAX_CLIENTS then on_map k f P2 else Some P2) = Some P3"
    "players_ok E P3" "others_same E P2 P3"
  proof (cases "n < MapSize E k m2 \<and> n < LEGACY_MAX_CLIENTS")
    case True
    then have "usable E k n" using n(2) m2(2) by (auto simp: usable_def MapSize_def map_ok_def LEGACY_MAX_CLIENTS_def)
    then have "\<exists>q. f (pm_aMap P2 ! nat k) = Some q \<and> map_ok E k q"
      using reserve_Add_ok [OF m2(2) E k(1) k(1), of n] at2 [OF k'] by (simp add: f_def)
    from on_map_ok [where f = f, OF P2(1) E k(1) this] show ?thesis using True that by auto
  next
    case False
    then show ?thesis using P2(1) that by auto
  qed
  obtain Q where Q: "share_all E k n [0..SERVER_CLIENTS - 1] P3 = Some Q" "players_ok E Q" "others_same E P3 Q"
    using share_all_ok [OF P3(2) E k(1) n(2)] by blast
  have "InitPlayer E k Skip Clear P = Some Q"
    unfolding InitPlayer_def s1 bind.simps n(1) s2 am f_def [symmetric] P3(1) Q(1) ..
  then show ?thesis using Q others_same_trans [OF others_same_trans [OF P2(2) P3(3)] Q(3)] by blast
qed

subsection \<open>Runs of the server\<close>

text \<open>
  The calls of the game: the tick, a player that has to be visible, the choice of others, the teams, a client that
  enters, a client whose map is set up again (its version became known, or it came back), and a client that is gone.
\<close>

datatype pm_event = Tick pm_env | ForceInsert pm_env int int | SeeOthers pm_env int int bool | ResetOthers pm_env int
  | TeamsChanged int | Enter pm_env int | Again pm_env int bool | Leave int

definition leave_map :: "id_map \<Rightarrow> id_map" where
  "leave_map m = (client_Reset m)\<lparr>im_Sent := []\<rparr>"

fun pm_do :: "pm_event \<Rightarrow> player_mapping \<Rightarrow> player_mapping option" where
  "pm_do (Tick E) P = UpdatePlayerMaps E P"
| "pm_do (ForceInsert E Insert k) P = on_map k (InsertNextEmptyOrReplace E k Insert) P"
| "pm_do (SeeOthers E k SelectedId DoByVote) P = on_map k (\<lambda>m. map_option snd (DoSeeOthers E (pm_Teams P) k SelectedId DoByVote m)) P"
| "pm_do (ResetOthers E k) P = on_map k (ResetSeeOthers E k) P"
| "pm_do (TeamsChanged k) P = on_map k (\<lambda>m. Some (m\<lparr>im_UpdateTeamsState := True\<rparr>)) P"
| "pm_do (Enter E k) P = InitPlayer E k False False P"
| "pm_do (Again E k SkipTimeoutedId) P = InitPlayer E k SkipTimeoutedId True P"
| "pm_do (Leave k) P = on_map k (\<lambda>m. Some (leave_map m)) P"

fun pm_run :: "pm_event list \<Rightarrow> player_mapping \<Rightarrow> player_mapping option" where
  "pm_run [] P = Some P"
| "pm_run (e # es) P = (case pm_do e P of None \<Rightarrow> None | Some Q \<Rightarrow> pm_run es Q)"

text \<open>
  What the game keeps to: the number of slots of the server is \<open>M\<close>; a player is a client that has entered, and what it supports
  changes only when its map is set up again.
\<close>

type_synonym kinds = "int \<Rightarrow> (int \<times> bool) option"

definition kind_of :: "pm_env \<Rightarrow> int \<Rightarrow> int \<times> bool" where
  "kind_of E k = (GetMaxClients E k, pe_Sixup E k)"

definition game_ok :: "int \<Rightarrow> kinds \<Rightarrow> pm_env \<Rightarrow> bool" where
  "game_ok M K E \<longleftrightarrow> pm_env_ok E \<and> pe_MaxClients E = M \<and> (\<forall>i. pe_HasPlayer E i \<longrightarrow> K i = Some (kind_of E i))"

fun pm_allowed :: "int \<Rightarrow> kinds \<Rightarrow> pm_event \<Rightarrow> bool" where
  "pm_allowed M K (Tick E) = game_ok M K E"
| "pm_allowed M K (ForceInsert E Insert k) = (game_ok M K E \<and> pe_HasPlayer E k \<and> pe_Sixup E k \<and> (Insert = - 1 \<or> pe_HasPlayer E Insert))"
| "pm_allowed M K (SeeOthers E k SelectedId DoByVote) = (game_ok M K E \<and> pe_HasPlayer E k)"
| "pm_allowed M K (ResetOthers E k) = (0 \<le> k \<and> k < 128)"
| "pm_allowed M K (TeamsChanged k) = (0 \<le> k \<and> k < 128)"
| "pm_allowed M K (Enter E k) = (game_ok M (K(k \<mapsto> kind_of E k)) E \<and> pe_HasPlayer E k \<and> K k = None)"
| "pm_allowed M K (Again E k SkipTimeoutedId) =
     (game_ok M (K(k \<mapsto> kind_of E k)) E \<and> pe_HasPlayer E k \<and> map_option snd (K k) = Some (pe_Sixup E k))"
| "pm_allowed M K (Leave k) = (0 \<le> k \<and> k < 128)"

fun kinds_after :: "pm_event \<Rightarrow> kinds \<Rightarrow> kinds" where
  "kinds_after (Enter E k) K = K(k \<mapsto> kind_of E k)"
| "kinds_after (Again E k SkipTimeoutedId) K = K(k \<mapsto> kind_of E k)"
| "kinds_after (Leave k) K = K(k := None)"
| "kinds_after e K = K"

fun all_allowed :: "int \<Rightarrow> kinds \<Rightarrow> pm_event list \<Rightarrow> bool" where
  "all_allowed M K [] = True"
| "all_allowed M K (e # es) = (pm_allowed M K e \<and> all_allowed M (kinds_after e K) es)"

fun kinds_finally :: "pm_event list \<Rightarrow> kinds \<Rightarrow> kinds" where
  "kinds_finally [] K = K"
| "kinds_finally (e # es) K = kinds_finally es (kinds_after e K)"

subsection \<open>The invariant of the runs\<close>

text \<open>The invariant of a map by the kind of its client.\<close>

definition core_ok :: "bool \<Rightarrow> id_map \<Rightarrow> bool" where
  "core_ok six m \<longleftrightarrow> tables_ok (im_pMap m) (im_pReverseMap m) \<and> length (im_aReserved m) = 128 \<and> length (im_aWasSeeOthers m) = 128 \<and>
     0 \<le> im_NumSeeOthers m \<and> (six \<longrightarrow> (\<forall>s. 0 \<le> s \<and> s < 64 \<longrightarrow> client_view (im_Sent m) s = im_pMap m ! nat s))"

definition kind_ok :: "int \<Rightarrow> (int \<times> bool) option \<Rightarrow> id_map \<Rightarrow> bool" where
  "kind_ok M x m = (case x of
     None \<Rightarrow> core_ok True m \<and> table_empty m
   | Some (mx, six) \<Rightarrow> core_ok six m \<and>
       im_NumReserved m = (if mx \<ge> M \<and> \<not> six then 0 else 2) \<and>
       (\<not> (mx \<ge> M \<and> \<not> six) \<longrightarrow> (\<forall>s. mx - 2 \<le> s \<and> s < 64 \<longrightarrow> im_pMap m ! nat s = - 1)))"

lemma core_base: "core_ok (pe_Sixup E k) m \<longleftrightarrow> base_ok E k m"
  by (simp add: core_ok_def base_ok_def)

lemma kind_ok_map: "pe_MaxClients E = M \<Longrightarrow> kind_ok M (Some (kind_of E k)) m \<longleftrightarrow> map_ok E k m"
  by (simp add: kind_ok_def kind_of_def map_ok_base core_base ClientSupportsServerMaxClients_def)

definition pm_ok :: "int \<Rightarrow> kinds \<Rightarrow> player_mapping \<Rightarrow> bool" where
  "pm_ok M K P \<longleftrightarrow> length (pm_aMap P) = 128 \<and> team_ok (pm_Teams P) \<and> (\<forall>k. 0 \<le> k \<and> k < 128 \<longrightarrow> kind_ok M (K k) (pm_aMap P ! nat k))"

lemma pm_players:
  assumes "pm_ok M K P" "game_ok M K E"
  shows "players_ok E P" "pm_env_ok E" "team_ok (pm_Teams P)"
proof -
  show E: "pm_env_ok E" "team_ok (pm_Teams P)" using assms by (auto simp: game_ok_def pm_ok_def)
  have "map_ok E i (pm_aMap P ! nat i)" if "pe_HasPlayer E i" for i
  proof -
    have "0 \<le> i \<and> i < 128" using E(1) that by (auto simp: pm_env_ok_def)
    then have "kind_ok M (K i) (pm_aMap P ! nat i)" using assms(1) by (simp add: pm_ok_def)
    then show ?thesis using assms(2) that kind_ok_map [of E M i] by (simp add: game_ok_def)
  qed
  then show "players_ok E P" using assms(1) by (simp add: players_ok_def pm_ok_def)
qed

lemma pm_ok_after:
  assumes "pm_ok M K P" "game_ok M K' E" "players_ok E Q" "others_same E (P\<lparr>pm_Teams := T\<rparr>) Q" "team_ok (pm_Teams Q)"
    and "\<And>i. \<not> pe_HasPlayer E i \<Longrightarrow> K' i = K i"
  shows "pm_ok M K' Q"
proof -
  have "kind_ok M (K' k) (pm_aMap Q ! nat k)" if k: "0 \<le> k" "k < 128" for k
  proof (cases "pe_HasPlayer E k")
    case True
    then have "map_ok E k (pm_aMap Q ! nat k)" using assms(3) by (simp add: players_ok_def)
    then show ?thesis using assms(2) True kind_ok_map [of E M k] by (simp add: game_ok_def)
  next
    case False
    then show ?thesis using assms(1,4) assms(6) [OF False] k by (simp add: pm_ok_def others_same_def)
  qed
  then show ?thesis using assms(3,5) by (simp add: pm_ok_def players_ok_def)
qed

lemma pm_on_map:
  assumes P: "pm_ok M K P" "game_ok M K E" and k: "pe_HasPlayer E k"
    and f: "\<And>m. map_ok E k m \<Longrightarrow> \<exists>n. f m = Some n \<and> map_ok E k n"
  shows "\<exists>Q. on_map k f P = Some Q \<and> pm_ok M K Q"
proof -
  note p = pm_players [OF P]
  have "map_ok E k (pm_aMap P ! nat k)" using p(1) k by (simp add: players_ok_def)
  from on_map_ok [where f = f, OF p(1,2) k f [OF this]] obtain Q where Q: "on_map k f P = Some Q" "players_ok E Q" "others_same E P Q" by blast
  have "pm_ok M K Q"
    by (rule pm_ok_after [OF P Q(2), where T = "pm_Teams P"]) (use Q(3) p(3) in \<open>auto simp: others_same_def\<close>)
  then show ?thesis using Q(1) by blast
qed

lemma pm_on_any:
  assumes P: "pm_ok M K P" and k: "0 \<le> k" "k < 128" and f: "\<And>m. kind_ok M (K k) m \<Longrightarrow> kind_ok M x (g m)"
  shows "\<exists>Q. on_map k (\<lambda>m. Some (g m)) P = Some Q \<and> pm_ok M (K(k := x)) Q"
proof -
  have len: "length (pm_aMap P) = 128" using P by (simp add: pm_ok_def)
  have "on_map k (\<lambda>m. Some (g m)) P = Some (P\<lparr>pm_aMap := (pm_aMap P)[nat k := g (pm_aMap P ! nat k)]\<rparr>)"
    by (rule on_map_eq [OF k len]) simp
  moreover have "pm_ok M (K(k := x)) (P\<lparr>pm_aMap := (pm_aMap P)[nat k := g (pm_aMap P ! nat k)]\<rparr>)"
    using P f k by (auto simp: pm_ok_def nth_upd_int)
  ultimately show ?thesis by blast
qed

lemma pm_init:
  assumes P: "pm_ok M K P" and g: "game_ok M (K(k \<mapsto> kind_of E k)) E" and k: "pe_HasPlayer E k"
    and old: "K k = None \<or> Clear \<and> map_option snd (K k) = Some (pe_Sixup E k)"
  shows "\<exists>Q. InitPlayer E k Skip Clear P = Some Q \<and> pm_ok M (K(k \<mapsto> kind_of E k)) Q"
proof -
  have E: "pm_env_ok E" "pe_MaxClients E = M" using g by (auto simp: game_ok_def)
  have len: "length (pm_aMap P) = 128" using P by (simp add: pm_ok_def)
  have k': "0 \<le> k" "k < 128" using E(1) k by (auto simp: pm_env_ok_def)
  have o: "map_ok E i (pm_aMap P ! nat i)" if "pe_HasPlayer E i" "i \<noteq> k" for i
  proof -
    have i: "0 \<le> i \<and> i < 128" using E(1) that(1) by (auto simp: pm_env_ok_def)
    have "K i = Some (kind_of E i)" using g that by (auto simp: game_ok_def)
    then have "kind_ok M (Some (kind_of E i)) (pm_aMap P ! nat i)" using P i by (metis pm_ok_def)
    then show ?thesis using kind_ok_map [OF E(2)] by blast
  qed
  have ko: "kind_ok M (K k) (pm_aMap P ! nat k)" using P k' by (simp add: pm_ok_def)
  have b: "base_ok E k (pm_aMap P ! nat k)"
    using ko old unfolding core_base [symmetric] by (cases "K k") (auto simp: kind_ok_def core_ok_def)
  have c: "Clear \<or> table_empty (pm_aMap P ! nat k)" using ko old by (auto simp: kind_ok_def)
  from InitPlayer_ok [OF len o k b c E(1)] obtain Q where Q: "InitPlayer E k Skip Clear P = Some Q" "players_ok E Q" "others_same E P Q" by blast
  have "pm_ok M (K(k \<mapsto> kind_of E k)) Q"
    by (rule pm_ok_after [OF P g Q(2), where T = "pm_Teams P"]) (use Q(3) P k in \<open>auto simp: others_same_def pm_ok_def\<close>)
  then show ?thesis using Q(1) by blast
qed

lemma leave_ok: "kind_ok M x m \<Longrightarrow> kind_ok M None (leave_map m)"
proof -
  assume "kind_ok M x m"
  then have c: "tables_ok (im_pMap m) (im_pReverseMap m)" "length (im_aReserved m) = 128" "length (im_aWasSeeOthers m) = 128" "0 \<le> im_NumSeeOthers m"
    by (auto simp: kind_ok_def core_ok_def split: option.splits)
  have "tables_ok (im_pMap (leave_map m)) (im_pReverseMap (leave_map m))"
    using tables_clear [of "im_pMap m" "im_pReverseMap m"] tables_length [OF c(1)] by (simp add: leave_map_def client_Reset_def)
  then show ?thesis using c tables_length [OF c(1)]
    by (auto simp: kind_ok_def core_ok_def leave_map_def client_Reset_def table_empty_def client_view_def nat_less_iff)
qed

lemma teams_changed_ok: "kind_ok M x m \<Longrightarrow> kind_ok M x (m\<lparr>im_UpdateTeamsState := True\<rparr>)"
  by (auto simp: kind_ok_def core_ok_def table_empty_def split: option.splits)

text \<open>The constructor of a player calls \<open>ResetSeeOthers\<close> before the client has entered.\<close>

lemma ResetSeeOthers_any:
  assumes "kind_ok M x m"
  shows "\<exists>n. ResetSeeOthers E k m = Some n \<and> kind_ok M x n"
proof -
  define r where "r = m\<lparr>im_SeeOthersPage := - 1, im_NumSeeOthers := 0, im_aWasSeeOthers := map (\<lambda>b. False) (im_aWasSeeOthers m), im_UpdateTeamsState := True\<rparr>"
  have "kind_ok M x r" using assms by (auto simp: kind_ok_def core_ok_def r_def table_empty_def split: option.splits)
  moreover have "kind_ok M x (map_send (FakePlayer s t) (map_send (FakeDrop u) r))" if "kind_ok M x r" for s t u
    using that by (auto simp: kind_ok_def core_ok_def map_send_def client_view_def view_step_def table_empty_def split: option.splits)
  moreover have "\<exists>t. SeeOthersName E k r = Some t"
    by (cases "im_NumPages m > 1 \<and> 0 = im_NumPages m") (auto simp: SeeOthersName_def r_def Let_def)
  ultimately show ?thesis by (auto simp: ResetSeeOthers_def UpdateSeeOthers_def r_def [symmetric])
qed

lemma pm_on_option:
  assumes P: "pm_ok M K P" and k: "0 \<le> k" "k < 128" and f: "\<And>m. kind_ok M (K k) m \<Longrightarrow> \<exists>n. f m = Some n \<and> kind_ok M (K k) n"
  shows "\<exists>Q. on_map k f P = Some Q \<and> pm_ok M K Q"
proof -
  have len: "length (pm_aMap P) = 128" using P by (simp add: pm_ok_def)
  have "kind_ok M (K k) (pm_aMap P ! nat k)" using P k by (simp add: pm_ok_def)
  then obtain n where n: "f (pm_aMap P ! nat k) = Some n" "kind_ok M (K k) n" using f by blast
  have "pm_ok M K (P\<lparr>pm_aMap := (pm_aMap P)[nat k := n]\<rparr>)"
    using P n(2) k by (auto simp: pm_ok_def nth_upd_int)
  then show ?thesis using on_map_eq [where f = f, OF k len n(1)] by blast
qed

lemma pm_do_ok:
  assumes "pm_ok M K P" "pm_allowed M K e"
  shows "\<exists>Q. pm_do e P = Some Q \<and> pm_ok M (kinds_after e K) Q"
proof (cases e)
  case (Tick E)
  then have g: "game_ok M K E" using assms(2) by simp
  note p = pm_players [OF assms(1) g]
  obtain Q T where Q: "UpdatePlayerMaps E P = Some Q" "players_ok E Q" "team_ok (pm_Teams Q)" "others_same E (P\<lparr>pm_Teams := T\<rparr>) Q"
    using UpdatePlayerMaps_ok [OF p] by blast
  show ?thesis using Q(1) pm_ok_after [OF assms(1) g Q(2,4,3)] Tick by simp
next
  case (ForceInsert E c k)
  then have g: "game_ok M K E" "pe_HasPlayer E k" "pe_Sixup E k" "c = - 1 \<or> pe_HasPlayer E c" using assms(2) by auto
  have "\<exists>n. InsertNextEmptyOrReplace E k c m = Some n \<and> map_ok E k n" if "map_ok E k m" for m
    using Insert_ok [OF that _ sixup_unsupported [OF g(3)] g(2,4)] g(1) by (auto simp: game_ok_def)
  from pm_on_map [where f = "InsertNextEmptyOrReplace E k c", OF assms(1) g(1,2) this] show ?thesis using ForceInsert by simp
next
  case (SeeOthers E k s b)
  then have g: "game_ok M K E" "pe_HasPlayer E k" using assms(2) by auto
  have "\<exists>n. map_option snd (DoSeeOthers E (pm_Teams P) k s b m) = Some n \<and> map_ok E k n" if m: "map_ok E k m" for m
    using DoSeeOthers_ok [OF m pm_players(2) [OF assms(1) g(1)] g(2) pm_players(3) [OF assms(1) g(1)], of s b] by auto
  from pm_on_map [where f = "\<lambda>m. map_option snd (DoSeeOthers E (pm_Teams P) k s b m)", OF assms(1) g this] show ?thesis using SeeOthers by simp
next
  case (ResetOthers E k)
  then have k: "0 \<le> k" "k < 128" using assms(2) by auto
  from pm_on_option [where f = "ResetSeeOthers E k", OF assms(1) k ResetSeeOthers_any] show ?thesis using ResetOthers by simp
next
  case (TeamsChanged k)
  then have k: "0 \<le> k" "k < 128" using assms(2) by auto
  show ?thesis using pm_on_any [OF assms(1) k, of "K k" "\<lambda>m. m\<lparr>im_UpdateTeamsState := True\<rparr>"] teams_changed_ok TeamsChanged by simp
next
  case (Enter E k)
  then show ?thesis using pm_init [OF assms(1), of k E False False] assms(2) by simp
next
  case (Again E k s)
  then show ?thesis using pm_init [OF assms(1), of k E True s] assms(2) by simp
next
  case (Leave k)
  then have k: "0 \<le> k" "k < 128" using assms(2) by auto
  show ?thesis using pm_on_any [OF assms(1) k, of None leave_map] leave_ok Leave by simp
qed

lemma pm_run_ok:
  "pm_ok M K P \<Longrightarrow> all_allowed M K es \<Longrightarrow> \<exists>Q. pm_run es P = Some Q \<and> pm_ok M (kinds_finally es K) Q"
proof (induction es arbitrary: K P)
  case (Cons e es)
  obtain Q where Q: "pm_do e P = Some Q" "pm_ok M (kinds_after e K) Q" using pm_do_ok [OF Cons.prems(1)] Cons.prems(2) by auto
  then show ?case using Cons.IH [OF Q(2)] Cons.prems(2) by simp
qed simp

text \<open>A server that starts: no client, and the tables are those of \<open>CClient::Reset\<close>.\<close>

definition blank_map :: id_map where
  "blank_map =
     \<lparr>im_NumReserved = 0, im_UpdateTeamsState = False, im_aReserved = replicate 128 False, im_ResortReserved = False,
      im_pMap = replicate 64 (- 1), im_pReverseMap = replicate 128 (- 1), im_SeeOthersPage = 0, im_TotalOverhang = 0, im_NumPages = 0,
      im_NumSeeOthers = 0, im_aWasSeeOthers = replicate 128 False, im_LastSeeOthersVoteTick = 0, im_DoSeeOthersByVote = False, im_Sent = []\<rparr>"

definition blank_mapping :: player_mapping where
  "blank_mapping = \<lparr>pm_Teams = \<lparr>tm_aTeamSizes = replicate 129 0, tm_ReserveAnyTeamSlots = False\<rparr>, pm_aMap = replicate 128 blank_map\<rparr>"

definition initialised :: "id_map \<Rightarrow> id_map" where
  "initialised m = m\<lparr>im_ResortReserved := False, im_aReserved := map (\<lambda>b. False) (im_aReserved m), im_NumPages := 0, im_TotalOverhang := 0,
     im_NumReserved := 0, im_LastSeeOthersVoteTick := 0, im_DoSeeOthersByVote := False, im_SeeOthersPage := - 1, im_NumSeeOthers := 0,
     im_aWasSeeOthers := map (\<lambda>b. False) (im_aWasSeeOthers m), im_UpdateTeamsState := True\<rparr>"

lemma map_Init_eq: "\<not> pe_Sixup E k \<Longrightarrow> map_Init E k m = Some (initialised m)"
  by (simp add: map_Init_def ResetSeeOthers_def UpdateSeeOthers_def initialised_def)

lemma initialised_ok: "kind_ok M None m \<Longrightarrow> kind_ok M None (initialised m)"
  by (auto simp: kind_ok_def core_ok_def initialised_def table_empty_def)

lemma mapping_Init_loop:
  assumes "pm_ok M (\<lambda>k. None) P" "\<forall>k. \<not> pe_Sixup E k" "\<forall>k \<in> set ks. 0 \<le> k \<and> k < 128"
  shows "\<exists>Q. on_maps (map_Init E) ks P = Some Q \<and> pm_ok M (\<lambda>k. None) Q"
  using assms(1,3)
proof (induction ks arbitrary: P)
  case (Cons k ks)
  have k: "0 \<le> k" "k < 128" "\<forall>k \<in> set ks. 0 \<le> k \<and> k < 128" using Cons.prems(2) by auto
  have e: "map_Init E k = (\<lambda>m. Some (initialised m))" using map_Init_eq assms(2) by blast
  have "(\<lambda>k. None)(k := None) = (\<lambda>k. None)" by auto
  then obtain Q where Q: "on_map k (map_Init E k) P = Some Q" "pm_ok M (\<lambda>k. None) Q"
    using pm_on_any [OF Cons.prems(1) k(1,2), of None initialised] initialised_ok unfolding e by auto
  then show ?case using Cons.IH [OF Q(2) k(3)] by simp
qed simp

lemma mapping_Init_ok:
  assumes "\<forall>k. \<not> pe_Sixup E k"
  shows "\<exists>P. mapping_Init E blank_mapping = Some P \<and> pm_ok M (\<lambda>k. None) P"
proof -
  have b: "kind_ok M None blank_map"
    by (auto simp: kind_ok_def core_ok_def tables_ok_def table_empty_def blank_map_def client_view_def nat_less_iff)
  have "pm_ok M (\<lambda>k. None) (blank_mapping\<lparr>pm_Teams := \<lparr>tm_aTeamSizes = map (\<lambda>n. 0) (tm_aTeamSizes (pm_Teams blank_mapping)), tm_ReserveAnyTeamSlots = True\<rparr>\<rparr>)"
    using b by (auto simp: pm_ok_def blank_mapping_def team_ok_def nat_less_iff)
  from mapping_Init_loop [OF this assms, of "[0..SERVER_CLIENTS - 1]"] show ?thesis
    by (simp add: mapping_Init_def SERVER_CLIENTS_def)
qed

text \<open>A run from the start of the server.\<close>

definition server_run :: "pm_env \<Rightarrow> pm_event list \<Rightarrow> player_mapping option" where
  "server_run E es = do { P \<leftarrow> mapping_Init E blank_mapping; pm_run es P }"

lemma server_run_ok:
  assumes "\<forall>k. \<not> pe_Sixup E k" "all_allowed M (\<lambda>k. None) es"
  shows "\<exists>P. server_run E es = Some P \<and> pm_ok M (kinds_finally es (\<lambda>k. None)) P"
proof -
  obtain P0 where P0: "mapping_Init E blank_mapping = Some P0" "pm_ok M (\<lambda>k. None) P0" using mapping_Init_ok [OF assms(1)] by blast
  then show ?thesis using pm_run_ok [OF P0(2) assms(2)] by (simp add: server_run_def)
qed

subsection \<open>Properties\<close>




subsection \<open>A run\<close>

text \<open>Clients 0 and 5, both of version 0.7, enter from the same address; the map is updated and client 5 leaves.\<close>

definition pm_demo_env :: "int list \<Rightarrow> pm_env" where
  "pm_demo_env is =
     \<lparr>pe_HasPlayer = (\<lambda>i. i \<in> set is), pe_Ingame = (\<lambda>i. i \<in> set is), pe_HasChar = (\<lambda>i. True), pe_Idle = (\<lambda>i. False),
      pe_NetworkClipped = (\<lambda>i k. False), pe_Distance = (\<lambda>k i. i), pe_Team = (\<lambda>i. 0),
      pe_Addr = (\<lambda>i. \<lparr>na_type = 1, na_ip = replicate 16 0, na_port = 8303\<rparr>), pe_Sixup = (\<lambda>i. i \<in> set is),
      pe_DDNetVersion = (\<lambda>i. 0), pe_MaxClients = 128, pe_ClientCount = int (length is), pe_Now = 15, pe_TickSpeed = 50,
      pe_MapUpdateRate = 15, pe_SoloServer = False\<rparr>"

definition pm_demo :: "pm_event list" where
  "pm_demo = [Enter (pm_demo_env [0]) 0, Enter (pm_demo_env [0, 5]) 5, Tick (pm_demo_env [0, 5]), Leave 5]"

lemma pm_demo_allowed: "all_allowed 128 (\<lambda>k. None) pm_demo"
  by (auto simp: pm_demo_def pm_demo_env_def game_ok_def pm_env_ok_def kind_of_def GetMaxClients_def)

lemma pm_demo_kinds: "kinds_finally pm_demo (\<lambda>k. None) = [0 \<mapsto> (64, True)]"
  by (auto simp: pm_demo_def pm_demo_env_def kind_of_def GetMaxClients_def LEGACY_MAX_CLIENTS_def)

lemma pm_demo_start: "\<forall>k. \<not> pe_Sixup (pm_demo_env []) k"
  by (simp add: pm_demo_env_def)




end
