(* ===== verification/Account.thy ===== *)
theory Account
  imports NetConn
begin

text \<open>
  The accounts of DDNet++ (game/server/player_ddpp.cpp): money with its history of transactions, and
  experience and levels. The record of a player holds what these operations and the trades use; a
  message to the player is returned with the new state.
\<close>

subsection \<open>Players\<close>

definition NUM_WEAPONS :: nat where "NUM_WEAPONS = 6"
definition WEAPON_GUN :: int where "WEAPON_GUN = 1"
definition WEAPON_SHOTGUN :: nat where "WEAPON_SHOTGUN = 2"
definition WEAPON_GRENADE :: nat where "WEAPON_GRENADE = 3"
definition WEAPON_LASER :: nat where "WEAPON_LASER = 4"

text \<open>The character of a player: its weapons, and the games it takes part in.\<close>

record tee =
  ch_Got :: "bool list"
  ch_Ammo :: "int list"
  ch_ActiveWeapon :: int
  ch_aDecreaseAmmo :: "bool list"
  ch_IsBombing :: bool
  ch_IsPvpArenaing :: bool

record player =
  pl_AccId :: int
  pl_Level :: int
  pl_Money :: int
  pl_XP :: int
  pl_JailTime :: int
  pl_Neededxp :: int
  pl_MoneyTransaction :: "bytes list"
  pl_TradeMoney :: int
  pl_TradeItem :: int
  pl_TradeId :: int
  pl_TradeTick :: int
  pl_aTradeOffer :: bytes
  pl_SpookyGhostActive :: int
  pl_SpawnShotgunActive :: int
  pl_SpawnGrenadeActive :: int
  pl_SpawnRifleActive :: int
  pl_IsInstaArenaGdm :: bool
  pl_IsInstaArenaIdm :: bool
  pl_IsBalanceBatteling :: bool
  pl_IsSurvivaling :: bool
  pl_IsBlockWaving :: bool
  pl_IsBlockTourning :: bool
  pl_IsBlockDeathmatch :: bool
  pl_IsBlockOneVsOneing :: bool
  pl_Character :: "tee option"

definition ACC_MAX_LEVEL :: int where "ACC_MAX_LEVEL = 110"

definition IsMaxLevel :: "player \<Rightarrow> bool" where
  "IsMaxLevel p \<longleftrightarrow> pl_Level p \<ge> ACC_MAX_LEVEL"

definition IsLoggedIn :: "player \<Rightarrow> bool" where
  "IsLoggedIn p \<longleftrightarrow> pl_AccId p \<noteq> 0"

subsection \<open>Money\<close>

text \<open>The setters take an \<open>int\<close>, the fields are 64 bits wide.\<close>

definition SetMoney :: "int \<Rightarrow> player \<Rightarrow> player" where
  "SetMoney Money p = p\<lparr>pl_Money := to_i32 Money\<rparr>"

definition SetXP :: "int \<Rightarrow> player \<Rightarrow> player" where
  "SetXP Xp p = p\<lparr>pl_XP := to_i32 Xp\<rparr>"

definition SetLevel :: "int \<Rightarrow> player \<Rightarrow> player" where
  "SetLevel Level p = p\<lparr>pl_Level := to_i32 Level\<rparr>"

definition GiveXP :: "int \<Rightarrow> player \<Rightarrow> player" where
  "GiveXP Value p = (if IsMaxLevel p then p else p\<lparr>pl_XP := pl_XP p + Value\<rparr>)"

text \<open>The ten strings of the history, the latest first; the last three are copied onto themselves.\<close>

definition shift_history :: "bytes \<Rightarrow> bytes list \<Rightarrow> bytes list" where
  "shift_history aDesc h = map (\<lambda>s. str_copy s 512)
     [aDesc, h ! 0, h ! 1, h ! 2, h ! 3, h ! 4, h ! 5, h ! 7, h ! 8, h ! 9]"

definition MoneyTransaction :: "int \<Rightarrow> bytes \<Rightarrow> player \<Rightarrow> player" where
  "MoneyTransaction Amount Description p =
     (let p1 = SetMoney (pl_Money p + Amount) p in
      if str_comp Description [] = 0 then p1
      else
        let aDesc = str_copy ((if Amount > 0 then lit ''+'' else []) @ int_text Amount @ lit '' ('' @ Description @ lit '')'') 64 in
        p1\<lparr>pl_MoneyTransaction := shift_history aDesc (pl_MoneyTransaction p1)\<rparr>)"

subsection \<open>Levels\<close>

text \<open>The experience for the next level, by level.\<close>

definition level_xp :: "int list" where
  "level_xp =
    [5000, 15000, 25000, 35000, 50000, 65000, 80000, 100000, 120000, 130000,
     160000, 200000, 240000, 280000, 325000, 370000, 420000, 470000, 520000, 600000,
     680000, 760000, 850000, 950000, 1200000, 1400000, 1600000, 1800000, 2000000, 2210000,
     2430000, 2660000, 2900000, 3150000, 3500000, 3950000, 4500000, 5250000, 6100000, 7000000,
     8000000, 9000000, 10000000, 11000000, 12000000, 13000000, 14000000, 15000000, 16000000, 17000000,
     18000000, 19000000, 20000000, 21000000, 22000000, 23000000, 24000000, 25000000, 26000000, 27000000,
     28000000, 29000000, 30000000, 31000000, 32000000, 33000000, 34000000, 35000000, 36000000, 37000000,
     38000000, 39000000, 40000000, 41010000, 42020000, 43030000, 44040000, 45050000, 46060000, 47070000,
     48080000, 49090000, 50100000, 51110000, 52120000, 53130000, 54140000, 55150000, 56160000, 57170000,
     58180000, 59190000, 60200000, 61300000, 62400000, 63500000, 64600000, 65700000, 66800000, 67900000,
     80000000, 100000000, 120000000, 140000000, 160000000, 180000000, 200000000, 220000000, 240000000, 260000000]"

definition needed_xp :: "int \<Rightarrow> int" where
  "needed_xp Level = (if 0 \<le> Level \<and> Level < 110 then level_xp ! nat Level else 404000000000000)"

text \<open>The message and the new state.\<close>

definition CalcExp :: "player \<Rightarrow> bytes list \<times> player" where
  "CalcExp p =
     (let OldNeededXp = pl_Neededxp p; p1 = p\<lparr>pl_Neededxp := needed_xp (pl_Level p)\<rparr> in
      if IsMaxLevel p1 then ([lit ''[ACCOUNT] GRATULATIONS !!! you reached the maximum level.''], SetXP OldNeededXp p1)
      else ([], p1))"

definition CheckLevel :: "player \<Rightarrow> bytes list \<times> player" where
  "CheckLevel p =
     (if \<not> IsLoggedIn p \<or> IsMaxLevel p then ([], p)
      else
        let (m1, p1) = (if pl_Neededxp p \<le> 0 then CalcExp p else ([], p)) in
        if pl_XP p1 \<ge> pl_Neededxp p1 then
          let p2 = SetLevel (pl_Level p1 + 1) p1;
              m2 = lit ''You are now Level '' @ int_text (pl_Level p2) @ lit ''!   +50money'';
              p3 = MoneyTransaction 50 (lit ''level up'') p2;
              (m3, p4) = CalcExp p3
          in (m1 @ [m2] @ m3, p4)
        else (m1, p1))"

subsection \<open>Reaching a level\<close>

text \<open>A player of the server: what was calculated for the next level is up to date, or not calculated yet.\<close>

definition level_ok :: "player \<Rightarrow> bool" where
  "level_ok p \<longleftrightarrow> IsLoggedIn p \<and> 0 \<le> pl_Level p \<and> pl_Level p < 110 \<and>
     (pl_Neededxp p \<le> 0 \<or> pl_Neededxp p = needed_xp (pl_Level p))"

definition check_once :: "player \<Rightarrow> player" where
  "check_once p = snd (CheckLevel p)"

lemma MoneyTransaction_fields [simp]:
  "pl_Level (MoneyTransaction a d p) = pl_Level p" "pl_XP (MoneyTransaction a d p) = pl_XP p"
  "pl_AccId (MoneyTransaction a d p) = pl_AccId p" "pl_Neededxp (MoneyTransaction a d p) = pl_Neededxp p"
  "pl_Money (MoneyTransaction a d p) = to_i32 (pl_Money p + a)"
  by (simp_all add: MoneyTransaction_def SetMoney_def Let_def)

lemma to_i32_small: "- 2147483648 \<le> x \<Longrightarrow> x < 2147483648 \<Longrightarrow> to_i32 x = x"
  by (simp add: to_i32_def)

lemma check_once_stays:
  assumes "level_ok p" "pl_XP p < needed_xp (pl_Level p)"
  shows "check_once p = p\<lparr>pl_Neededxp := needed_xp (pl_Level p)\<rparr>"
proof (cases "pl_Neededxp p \<le> 0")
  case True
  then show ?thesis using assms
    by (simp add: check_once_def CheckLevel_def CalcExp_def IsMaxLevel_def ACC_MAX_LEVEL_def level_ok_def IsLoggedIn_def Let_def)
next
  case False
  then show ?thesis using assms
    by (simp add: check_once_def CheckLevel_def IsMaxLevel_def ACC_MAX_LEVEL_def level_ok_def IsLoggedIn_def)
qed

lemma needed_xp_109: "needed_xp 109 = 260000000"
  by (simp add: needed_xp_def level_xp_def)

lemma check_once_ups:
  assumes "level_ok p" "needed_xp (pl_Level p) \<le> pl_XP p"
  shows "pl_Level (check_once p) = pl_Level p + 1" "pl_Money (check_once p) = to_i32 (pl_Money p + 50)"
    "pl_AccId (check_once p) = pl_AccId p" "pl_Neededxp (check_once p) = needed_xp (pl_Level p + 1)"
    "pl_XP (check_once p) = (if pl_Level p + 1 = 110 then 260000000 else pl_XP p)"
proof -
  have l: "to_i32 (pl_Level p + 1) = pl_Level p + 1" "0 \<le> pl_Level p" "pl_Level p < 110"
    using assms(1) by (auto simp: level_ok_def to_i32_small)
  have m: "to_i32 (needed_xp (pl_Level p)) = 260000000" if "pl_Level p + 1 = 110"
    using needed_xp_109 that by (simp add: eq_diff_eq [symmetric] to_i32_small)
  let ?p1 = "p\<lparr>pl_Neededxp := needed_xp (pl_Level p)\<rparr>"
  have c: "CheckLevel p = CheckLevel ?p1"
  proof (cases "pl_Neededxp p \<le> 0")
    case True
    then show ?thesis using assms l
      by (simp add: CheckLevel_def CalcExp_def IsMaxLevel_def ACC_MAX_LEVEL_def level_ok_def IsLoggedIn_def Let_def)
  next
    case False
    then have "needed_xp (pl_Level p) = pl_Neededxp p" using assms(1) by (simp add: level_ok_def)
    then have "?p1 = p" by simp
    then show ?thesis by simp
  qed
  have lv: "IsLoggedIn ?p1" "\<not> IsMaxLevel ?p1" "pl_XP ?p1 \<ge> pl_Neededxp ?p1"
    using assms l by (simp_all add: IsLoggedIn_def level_ok_def IsMaxLevel_def ACC_MAX_LEVEL_def)
  have d: "check_once p = snd (CalcExp (MoneyTransaction 50 (lit ''level up'') (SetLevel (pl_Level p + 1) ?p1)))"
  proof -
    have m1: "(if pl_Neededxp ?p1 \<le> 0 then CalcExp ?p1 else ([], ?p1)) = ([], ?p1)"
      using lv(2) by (simp add: CalcExp_def Let_def IsMaxLevel_def)
    have "check_once p = snd (CheckLevel ?p1)" by (simp only: check_once_def c)
    also have "\<dots> = snd (CalcExp (MoneyTransaction 50 (lit ''level up'') (SetLevel (pl_Level ?p1 + 1) ?p1)))"
      unfolding CheckLevel_def Let_def m1 using lv by (simp del: player.simps add: split_def)
    finally show ?thesis by simp
  qed
  show "pl_Level (check_once p) = pl_Level p + 1" "pl_Money (check_once p) = to_i32 (pl_Money p + 50)"
    "pl_AccId (check_once p) = pl_AccId p" "pl_Neededxp (check_once p) = needed_xp (pl_Level p + 1)"
    "pl_XP (check_once p) = (if pl_Level p + 1 = 110 then 260000000 else pl_XP p)"
    using l m by (auto simp: d CalcExp_def SetLevel_def SetXP_def Let_def IsMaxLevel_def ACC_MAX_LEVEL_def)
qed

lemma check_once_max: "pl_Level p \<ge> 110 \<Longrightarrow> check_once p = p"
  by (simp add: check_once_def CheckLevel_def IsMaxLevel_def ACC_MAX_LEVEL_def)

lemma funpow_fixpoint: "f x = x \<Longrightarrow> (f ^^ n) x = x"
  by (induction n) auto

text \<open>What repeated calls reach from a player.\<close>

definition level_reached :: "player \<Rightarrow> player \<Rightarrow> bool" where
  "level_reached p q \<longleftrightarrow> pl_Level p \<le> pl_Level q \<and> pl_Level q \<le> 110 \<and>
     (\<forall>l. pl_Level p \<le> l \<and> l < pl_Level q \<longrightarrow> needed_xp l \<le> pl_XP p) \<and>
     (pl_Level q < 110 \<longrightarrow> pl_XP p < needed_xp (pl_Level q)) \<and>
     pl_XP q = (if pl_Level q = 110 then 260000000 else pl_XP p) \<and>
     pl_Money q = to_i32 (pl_Money p + 50 * (pl_Level q - pl_Level p)) \<and> pl_AccId q = pl_AccId p"

lemma level_reached_step:
  assumes u: "needed_xp (pl_Level p) \<le> pl_XP p" "pl_Level p1 = pl_Level p + 1" "pl_XP p1 = pl_XP p"
    and e: "pl_AccId p1 = pl_AccId p" "pl_Money p1 = to_i32 (pl_Money p + 50)" "level_reached p1 q"
  shows "level_reached p q"
proof -
  have "needed_xp l \<le> pl_XP p" if "pl_Level p \<le> l" "l < pl_Level q" for l
    using u e(3) that by (cases "l = pl_Level p") (auto simp: level_reached_def)
  moreover have "pl_Money q = to_i32 (pl_Money p + 50 * (pl_Level q - pl_Level p))"
  proof -
    have "pl_Money q = to_i32 (to_i32 (pl_Money p + 50) + 50 * (pl_Level q - pl_Level p1))"
      using e(2,3) unfolding level_reached_def by metis
    then have "pl_Money q = to_i32 (pl_Money p + 50 + 50 * (pl_Level q - pl_Level p1))"
      by (simp only: to_i32_add_left)
    moreover have "pl_Money p + 50 + 50 * (pl_Level q - pl_Level p1) = pl_Money p + 50 * (pl_Level q - pl_Level p)"
      using u(2) by simp
    ultimately show ?thesis by (simp only:)
  qed
  ultimately show ?thesis using e u by (simp add: level_reached_def)
qed

lemma check_levels:
  assumes "level_ok p" "in_i32 (pl_Money p)" "110 \<le> int n + pl_Level p"
  shows "level_reached p ((check_once ^^ n) p)"
  using assms
proof (induction n arbitrary: p)
  case 0
  then show ?case by (simp add: level_ok_def)
next
  case (Suc n)
  let ?p1 = "check_once p"
  have q: "(check_once ^^ Suc n) p = (check_once ^^ n) ?p1" by (simp add: funpow_swap1)
  show ?case
  proof (cases "pl_XP p < needed_xp (pl_Level p)")
    case True
    have s: "?p1 = p\<lparr>pl_Neededxp := needed_xp (pl_Level p)\<rparr>" using check_once_stays [OF Suc.prems(1) True] .
    have o: "level_ok ?p1" "pl_XP ?p1 < needed_xp (pl_Level ?p1)"
      using Suc.prems(1) True by (auto simp: s level_ok_def IsLoggedIn_def)
    have "check_once ?p1 = ?p1" using check_once_stays [OF o] by (simp add: s)
    then have "(check_once ^^ Suc n) p = ?p1" unfolding q by (rule funpow_fixpoint)
    then show ?thesis using Suc.prems True by (auto simp: level_reached_def s level_ok_def)
  next
    case False
    note u = check_once_ups [OF Suc.prems(1)]
    show ?thesis
    proof (cases "pl_Level p + 1 = 110")
      case True
      then have "check_once ?p1 = ?p1" using u(1) False by (intro check_once_max) simp
      then have "(check_once ^^ Suc n) p = ?p1" unfolding q by (rule funpow_fixpoint)
      moreover have "needed_xp l \<le> pl_XP p" if "pl_Level p \<le> l" "l < pl_Level p + 1" for l
        using that False by (cases "l = pl_Level p") auto
      ultimately show ?thesis using u True False by (simp add: level_reached_def)
    next
      case l: False
      have o: "level_ok ?p1" using u False l Suc.prems(1) by (auto simp: level_ok_def IsLoggedIn_def)
      have "level_reached ?p1 ((check_once ^^ n) ?p1)"
        using Suc.IH [OF o] u False Suc.prems(3) by simp
      then show ?thesis unfolding q using u False l by (intro level_reached_step [of p ?p1]) auto
    qed
  qed
qed

text \<open>C18: Level ups: a logged in player below level 110 reaches, after at most as many calls of
  \<open>CheckLevel\<close> as levels are missing, exactly the first level whose needed experience is more than what the
  player has (or level 110), and is paid 50 money for every level. The experience is kept, except that level
  110 resets it to the experience that level needed.\<close>

theorem level_up:
  assumes "level_ok p" "in_i32 (pl_Money p)" "110 \<le> int n + pl_Level p"
  shows "let q = ((\<lambda>r. snd (CheckLevel r)) ^^ n) p in
    pl_Level p \<le> pl_Level q \<and> pl_Level q \<le> 110 \<and>
    (\<forall>l. pl_Level p \<le> l \<and> l < pl_Level q \<longrightarrow> needed_xp l \<le> pl_XP p) \<and>
    (pl_Level q < 110 \<longrightarrow> pl_XP p < needed_xp (pl_Level q)) \<and>
    pl_XP q = (if pl_Level q = 110 then 260000000 else pl_XP p) \<and>
    pl_Money q = to_i32 (pl_Money p + 50 * (pl_Level q - pl_Level p))"
  using check_levels [OF assms] unfolding level_reached_def check_once_def [abs_def] Let_def by blast

definition blank_player :: player where
  "blank_player =
     \<lparr>pl_AccId = 0, pl_Level = 0, pl_Money = 0, pl_XP = 0, pl_JailTime = 0, pl_Neededxp = 0,
      pl_MoneyTransaction = replicate 10 [], pl_TradeMoney = - 1, pl_TradeItem = - 1, pl_TradeId = - 1,
      pl_TradeTick = 0, pl_aTradeOffer = [], pl_SpookyGhostActive = 0, pl_SpawnShotgunActive = 0,
      pl_SpawnGrenadeActive = 0, pl_SpawnRifleActive = 0, pl_IsInstaArenaGdm = False, pl_IsInstaArenaIdm = False,
      pl_IsBalanceBatteling = False, pl_IsSurvivaling = False, pl_IsBlockWaving = False, pl_IsBlockTourning = False,
      pl_IsBlockDeathmatch = False, pl_IsBlockOneVsOneing = False, pl_Character = None\<rparr>"

text \<open>With 30000 experience a new account reaches level 3 and gets 150 money.\<close>

theorem level_up_witness:
  "let q = ((\<lambda>r. snd (CheckLevel r)) ^^ 110) (blank_player\<lparr>pl_AccId := 7, pl_XP := 30000\<rparr>) in
     pl_Level q = 3 \<and> pl_Money q = 150 \<and> pl_XP q = 30000"
proof -
  define p where "p = blank_player\<lparr>pl_AccId := 7, pl_XP := 30000\<rparr>"
  define q where "q = ((\<lambda>r. snd (CheckLevel r)) ^^ 110) p"
  have p: "level_ok p" "in_i32 (pl_Money p)" "110 \<le> int 110 + pl_Level p" "pl_Level p = 0" "pl_XP p = 30000" "pl_Money p = 0"
    by (simp_all add: p_def blank_player_def level_ok_def IsLoggedIn_def in_i32_def)
  have n: "needed_xp 0 = 5000" "needed_xp 1 = 15000" "needed_xp 2 = 25000" "needed_xp 3 = 35000"
    by (simp_all add: needed_xp_def level_xp_def)
  note u = level_up [OF p(1-3), unfolded Let_def, folded q_def]
  have lo: "pl_Level p \<le> l \<and> l < pl_Level q \<longrightarrow> needed_xp l \<le> pl_XP p" for l using u by blast
  have hi: "pl_Level q < 110 \<longrightarrow> pl_XP p < needed_xp (pl_Level q)" "pl_Level p \<le> pl_Level q" using u by blast+
  have "\<not> 3 < pl_Level q" using lo [of 3] p n by simp
  moreover have "pl_Level q \<noteq> 0" "pl_Level q \<noteq> 1" "pl_Level q \<noteq> 2" using hi(1) n p by auto
  ultimately have "pl_Level q = 3" using hi(2) p by simp
  then show ?thesis using u p unfolding Let_def q_def [symmetric] p_def [symmetric] by (simp add: to_i32_small)
qed

end
