(* ===== verification/Trade.thy ===== *)
theory Trade
  imports Account NetBan
begin

text \<open>
  Trades between players (game/server/gamecontext_trades.cpp and the chat commands \<open>/trade\<close> and \<open>/tr\<close> in
  ddracechat_ddpp.cpp): a player offers weapons for money, to all players or to one, and another
  player accepts. The state is the array of players and the log of the chat; \<open>None\<close> is an access
  outside an array. The setting \<open>sv_freeze_kill_delay\<close> is 0, its default, so that \<open>Freeze(0)\<close> does nothing,
  and the players read English, the language in which the texts are not translated.
\<close>

subsection \<open>The game\<close>

text \<open>The tick, the setting, the names of the clients, and the ammunition limits of the generated game data.\<close>

record trade_env =
  te_Tick :: int
  te_TickSpeed :: int
  te_SvAllowTrade :: bool
  te_ClientName :: "int \<Rightarrow> bytes"
  te_Maxammo :: "nat \<Rightarrow> int"

record trade_game =
  tg_apPlayers :: "player option list"
  tg_Chat :: "(int \<times> bytes) list"

definition player_at :: "trade_game \<Rightarrow> int \<Rightarrow> player option" where
  "player_at g i = (if 0 \<le> i \<and> i < int (length (tg_apPlayers g)) then tg_apPlayers g ! nat i else None)"

definition set_player :: "int \<Rightarrow> player \<Rightarrow> trade_game \<Rightarrow> trade_game" where
  "set_player i p g = g\<lparr>tg_apPlayers := (tg_apPlayers g)[nat i := Some p]\<rparr>"

text \<open>A line for one client, and for all (\<open>-1\<close>).\<close>

definition SendChatTarget :: "int \<Rightarrow> bytes \<Rightarrow> trade_game \<Rightarrow> trade_game" where
  "SendChatTarget To pText g = g\<lparr>tg_Chat := tg_Chat g @ [(To, pText)]\<rparr>"

fun send_lines :: "int \<Rightarrow> bytes list \<Rightarrow> trade_game \<Rightarrow> trade_game" where
  "send_lines To [] g = g"
| "send_lines To (s # ss) g = send_lines To ss (SendChatTarget To s g)"

fun cid_by_name :: "(int \<Rightarrow> bytes) \<Rightarrow> bytes \<Rightarrow> player option list \<Rightarrow> int \<Rightarrow> int" where
  "cid_by_name name pName [] i = - 1"
| "cid_by_name name pName (p # ps) i =
     (if p \<noteq> None \<and> str_comp pName (name i) = 0 then i else cid_by_name name pName ps (i + 1))"

definition GetCidByName :: "trade_env \<Rightarrow> trade_game \<Rightarrow> bytes \<Rightarrow> int" where
  "GetCidByName E g pName = cid_by_name (te_ClientName E) pName (tg_apPlayers g) 0"

definition IsMinigame :: "player \<Rightarrow> int" where
  "IsMinigame p =
     (if pl_JailTime p \<noteq> 0 then - 1
      else if pl_IsInstaArenaGdm p then 1
      else if pl_IsInstaArenaIdm p then 2
      else if pl_IsBalanceBatteling p then 3
      else if pl_IsSurvivaling p then 4
      else if (case pl_Character p of None \<Rightarrow> False | Some c \<Rightarrow> ch_IsBombing c) then 5
      else if (case pl_Character p of None \<Rightarrow> False | Some c \<Rightarrow> ch_IsPvpArenaing c) then 6
      else if pl_IsBlockWaving p then 7
      else if pl_IsBlockTourning p then 8
      else if pl_IsBlockDeathmatch p then 9
      else if pl_IsBlockOneVsOneing p then 10
      else 0)"

subsection \<open>Weapons\<close>

definition HasWeapon :: "tee \<Rightarrow> int \<Rightarrow> bool option" where
  "HasWeapon c Weapon = (if 0 \<le> Weapon \<and> Weapon < int (length (ch_Got c)) then Some (ch_Got c ! nat Weapon) else None)"

definition SetActiveWeapon :: "int \<Rightarrow> tee \<Rightarrow> tee" where
  "SetActiveWeapon ActiveWeap c = c\<lparr>ch_ActiveWeapon := ActiveWeap\<rparr>"

definition SetWeaponGot :: "nat \<Rightarrow> bool \<Rightarrow> tee \<Rightarrow> tee" where
  "SetWeaponGot Type Value c = c\<lparr>ch_Got := (ch_Got c)[Type := Value]\<rparr>"

text \<open>For every weapon but the ninja.\<close>

definition GiveWeapon :: "trade_env \<Rightarrow> nat \<Rightarrow> bool \<Rightarrow> int \<Rightarrow> tee \<Rightarrow> tee" where
  "GiveWeapon E Weapon Remove Ammo c =
     (let c1 =
        (if Remove then (if ch_ActiveWeapon c = int Weapon then SetActiveWeapon WEAPON_GUN c else c)
         else if ch_Ammo c ! Weapon < te_Maxammo E Weapon \<or> \<not> ch_Got c ! Weapon then c\<lparr>ch_Ammo := (ch_Ammo c)[Weapon := Ammo]\<rparr>
         else c\<lparr>ch_Ammo := (ch_Ammo c)[Weapon := - 1]\<rparr>)
      in SetWeaponGot Weapon (\<not> Remove) c1)"

definition TradeItemToInt :: "bytes \<Rightarrow> int" where
  "TradeItemToInt pItemName =
     (if str_comp_nocase pItemName (lit ''shotgun'') = 0 then 2
      else if str_comp_nocase pItemName (lit ''grenade'') = 0 then 3
      else if str_comp_nocase pItemName (lit ''rifle'') = 0 then 4
      else if str_comp_nocase pItemName (lit ''all_weapons'') = 0 then 5 else - 1)"

definition TradeItemToStr :: "int \<Rightarrow> bytes" where
  "TradeItemToStr ItemId =
     (if ItemId = 2 then lit ''shotgun'' else if ItemId = 3 then lit ''grenade''
      else if ItemId = 4 then lit ''rifle'' else if ItemId = 5 then lit ''all_weapons'' else lit ''(null)'')"

definition all_three :: "tee \<Rightarrow> bool option" where
  "all_three c = do { a \<leftarrow> HasWeapon c 4; b \<leftarrow> HasWeapon c 3; d \<leftarrow> HasWeapon c 2; Some (a \<and> b \<and> d) }"

definition TradeHasItem :: "int \<Rightarrow> int \<Rightarrow> trade_game \<Rightarrow> int option" where
  "TradeHasItem ItemId ClientId g =
     (case player_at g ClientId of None \<Rightarrow> Some (- 1)
      | Some p \<Rightarrow> (case pl_Character p of None \<Rightarrow> Some (- 1)
        | Some c \<Rightarrow>
            if ItemId = 2 \<or> ItemId = 3 \<or> ItemId = 4 then map_option (\<lambda>h. if h then ItemId else - 1) (HasWeapon c ItemId)
            else if ItemId = 5 then map_option (\<lambda>h. if h then 5 else - 1) (all_three c)
            else Some (- 1)))"

subsection \<open>The checks before an offer\<close>

type_synonym answer = "(int \<times> trade_game) option"

definition refuse :: "int \<Rightarrow> bytes \<Rightarrow> trade_game \<Rightarrow> answer" where
  "refuse To pText g = Some (- 1, SendChatTarget To pText g)"

definition two_digits :: "int \<Rightarrow> bytes" where
  "two_digits n = (if 0 \<le> n \<and> n < 10 then 0x30 # int_text n else int_text n)"

definition TradeSellCheckUser :: "trade_env \<Rightarrow> bytes \<Rightarrow> int \<Rightarrow> trade_game \<Rightarrow> answer" where
  "TradeSellCheckUser E pToName FromId g =
     (let TradeId = GetCidByName E g pToName in
      if TradeId = - 1 then
        (if str_comp_nocase pToName [] = 0 then refuse FromId (lit ''[TRADE] Error: Missing username'') g
         else refuse FromId (str_copy (lit ''[TRADE] User '' @ [0x27] @ pToName @ [0x27] @ lit '' not online'') 128) g)
      else (case player_at g TradeId of None \<Rightarrow> None
        | Some p \<Rightarrow>
            if IsLoggedIn p then refuse FromId (str_copy (lit ''[TRADE] player '' @ [0x27] @ pToName @ [0x27] @ lit '' is not logged in.'') 128) g
            else Some (TradeId, g)))"

definition TradePrepareSell :: "trade_env \<Rightarrow> bytes \<Rightarrow> int \<Rightarrow> bytes \<Rightarrow> int \<Rightarrow> bool \<Rightarrow> trade_game \<Rightarrow> answer" where
  "TradePrepareSell E pToName FromId pItemName Price IsPublic g =
     (case player_at g FromId of None \<Rightarrow> Some (- 1, g)
      | Some p \<Rightarrow> (case pl_Character p of None \<Rightarrow> refuse FromId (lit ''[TRADE] you have to be alive to use this command.'') g
        | Some c \<Rightarrow>
          let Item = TradeItemToInt pItemName;
              Shotgun = (pl_SpawnShotgunActive p \<noteq> 0); Grenade = (pl_SpawnGrenadeActive p \<noteq> 0); Rifle = (pl_SpawnRifleActive p \<noteq> 0);
              ammo = (\<lambda>w. ch_aDecreaseAmmo c ! w) in
          if pl_TradeTick p > te_Tick E then
            let TimeLeft = to_i32 (c_div (pl_TradeTick p - te_Tick E) (te_TickSpeed E)) in
            refuse FromId (lit ''[TRADE] delay: '' @ two_digits (c_div TimeLeft 60) @ lit '':'' @ two_digits (c_mod TimeLeft 60)) g
          else if IsLoggedIn p then refuse FromId (lit ''[TRADE] you have to be logged in to use this command. Check '' @ [0x27] @ lit ''/accountinfo'' @ [0x27]) g
          else if Item = - 1 then
            refuse FromId (str_copy (lit ''[TRADE] unknown item '' @ [0x27] @ pItemName @ [0x27] @ lit '' check '' @ [0x27] @ lit ''/trade items'' @ [0x27] @ lit '' for a full list.'') 256) g
          else if Item = 2 \<and> Shotgun then refuse FromId (lit ''[TRADE] you can'' @ [0x27] @ lit ''t trade your spawn shotgun.'') g
          else if Item = 3 \<and> Grenade then refuse FromId (lit ''[TRADE] you can'' @ [0x27] @ lit ''t trade your spawn grenade.'') g
          else if Item = 4 \<and> Rifle then refuse FromId (lit ''[TRADE] you can'' @ [0x27] @ lit ''t trade your spawn rifle.'') g
          else if Item = 5 \<and> (Shotgun \<or> Grenade \<or> Rifle) then refuse FromId (lit ''[TRADE] you can'' @ [0x27] @ lit ''t trade your spawn weapons.'') g
          else if Item = 2 \<and> ammo WEAPON_SHOTGUN \<or> Item = 3 \<and> ammo WEAPON_GRENADE \<or> Item = 4 \<and> ammo WEAPON_LASER then
            refuse FromId (lit ''[TRADE] you can'' @ [0x27] @ lit ''t trade if your weapon doesn'' @ [0x27] @ lit ''t have infinite bullets.'') g
          else if Item = 5 \<and> (ammo WEAPON_SHOTGUN \<or> ammo WEAPON_GRENADE \<or> ammo WEAPON_LASER) then
            refuse FromId (lit ''[TRADE] you can'' @ [0x27] @ lit ''t trade if your weapons doesn'' @ [0x27] @ lit ''t have infinite bullets.'') g
          else do {
            HasItem \<leftarrow> TradeHasItem Item FromId g;
            if HasItem = - 1 then refuse FromId (str_copy (lit ''[TRADE] you don'' @ [0x27] @ lit ''t own the item [ '' @ pItemName @ lit '' ]'') 256) g
            else if Price < 1 then refuse FromId (lit ''[TRADE] the trade price has to be higher than zer0.'') g
            else if \<not> IsPublic then TradeSellCheckUser E pToName FromId g
            else Some (1, g) }))"

subsection \<open>The checks before a purchase\<close>

definition TradePrepareBuy :: "trade_env \<Rightarrow> int \<Rightarrow> bytes \<Rightarrow> int \<Rightarrow> trade_game \<Rightarrow> answer" where
  "TradePrepareBuy E BuyerId pSellerName ItemId g =
     (case player_at g BuyerId of None \<Rightarrow> Some (- 1, g)
      | Some b \<Rightarrow>
        let SellerId = GetCidByName E g pSellerName in
        if SellerId = - 1 then refuse BuyerId (str_copy (lit ''[TRADE] User '' @ [0x27] @ pSellerName @ [0x27] @ lit '' not online.'') 128) g
        else (case player_at g SellerId of None \<Rightarrow> Some (- 1, g)
          | Some s \<Rightarrow>
            if IsLoggedIn b then refuse BuyerId (lit ''[TRADE] you have to be logged in to use this command. Check '' @ [0x27] @ lit ''/accountinfo'' @ [0x27]) g
            else if IsLoggedIn s then refuse BuyerId (str_copy (lit ''[TRADE] player '' @ [0x27] @ pSellerName @ [0x27] @ lit '' is not logged in.'') 128) g
            else (case (pl_Character b, pl_Character s) of
              (Some bc, Some sc) \<Rightarrow>
                if BuyerId = SellerId then refuse BuyerId (lit ''[TRADE] you can'' @ [0x27] @ lit ''t trade alone, lol'') g
                else if pl_TradeMoney s > pl_Money b then
                  refuse BuyerId (str_copy (lit ''[TRADE] '' @ int_text (pl_Money b) @ lit ''/'' @ int_text (pl_TradeMoney s) @ lit '' money missing.'') 128) g
                else if pl_TradeId s \<noteq> - 1 \<and> pl_TradeId s \<noteq> BuyerId then refuse BuyerId (lit ''[TRADE] error, this trade is private.'') g
                else do {
                  one \<leftarrow> HasWeapon sc ItemId;
                  three \<leftarrow> (if \<not> one \<and> ItemId = 5 then all_three sc else Some False);
                  if \<not> (one \<or> three) then refuse BuyerId (lit ''[TRADE] the seller doesn'' @ [0x27] @ lit ''t own the item right now. try again later.'') g
                  else if IsMinigame s \<noteq> 0 then refuse BuyerId (lit ''[TRADE] trade failed because seller is in jail or minigame.'') g
                  else if IsMinigame b \<noteq> 0 then refuse BuyerId (lit ''[TRADE] trade failed because you are in jail or minigame.'') g
                  else if pl_SpawnShotgunActive s \<noteq> 0 \<and> ItemId = 2 \<or> pl_SpawnGrenadeActive s \<noteq> 0 \<and> ItemId = 3 \<or> pl_SpawnRifleActive s \<noteq> 0 \<and> ItemId = 4 then
                    refuse BuyerId (lit ''[TRADE] the wanted weapon is a spawn weapon and can'' @ [0x27] @ lit ''t be bought.'') g
                  else if ch_aDecreaseAmmo sc ! WEAPON_SHOTGUN \<and> ItemId = 2 \<or> ch_aDecreaseAmmo sc ! WEAPON_GRENADE \<and> ItemId = 3 \<or>
                      ch_aDecreaseAmmo sc ! WEAPON_LASER \<and> ItemId = 4 then
                    refuse BuyerId (lit ''[TRADE] the wanted weapon doesn'' @ [0x27] @ lit ''t have infinite bullets and can'' @ [0x27] @ lit ''t be bought.'') g
                  else Some (0, g) }
            | _ \<Rightarrow> refuse BuyerId (lit ''[TRADE] both players have to be alive.'') g)))"


subsection \<open>A completed trade\<close>

text \<open>What the buyer gets for an item: the weapons, which stop being spawn weapons and have infinite ammunition.\<close>

definition traded_weapon :: "trade_env \<Rightarrow> nat \<Rightarrow> tee \<Rightarrow> tee" where
  "traded_weapon E w c = (let c1 = GiveWeapon E w False (- 1) c in c1\<lparr>ch_aDecreaseAmmo := (ch_aDecreaseAmmo c1)[w := False]\<rparr>)"

definition buyer_item :: "trade_env \<Rightarrow> int \<Rightarrow> player \<Rightarrow> player" where
  "buyer_item E Weapon p =
     (case pl_Character p of None \<Rightarrow> p
      | Some c \<Rightarrow>
        if Weapon = 2 then p\<lparr>pl_SpawnShotgunActive := 0, pl_Character := Some (traded_weapon E WEAPON_SHOTGUN c)\<rparr>
        else if Weapon = 3 then p\<lparr>pl_SpawnGrenadeActive := 0, pl_Character := Some (traded_weapon E WEAPON_GRENADE c)\<rparr>
        else if Weapon = 4 then p\<lparr>pl_SpawnRifleActive := 0, pl_Character := Some (traded_weapon E WEAPON_LASER c)\<rparr>
        else if Weapon = 5 then
          p\<lparr>pl_SpawnShotgunActive := 0, pl_SpawnGrenadeActive := 0, pl_SpawnRifleActive := 0,
            pl_Character := Some (traded_weapon E WEAPON_LASER (traded_weapon E WEAPON_GRENADE (traded_weapon E WEAPON_SHOTGUN c)))\<rparr>
        else p)"

definition seller_item :: "int \<Rightarrow> player \<Rightarrow> player" where
  "seller_item Weapon p =
     (case pl_Character p of None \<Rightarrow> p
      | Some c \<Rightarrow>
        if Weapon = 2 \<or> Weapon = 3 \<or> Weapon = 4 then
          p\<lparr>pl_Character := Some (SetWeaponGot (nat Weapon) False (SetActiveWeapon WEAPON_GUN c))\<rparr>
        else if Weapon = 5 then
          p\<lparr>pl_Character := Some (SetWeaponGot 4 False (SetWeaponGot 3 False (SetWeaponGot 2 False (SetActiveWeapon WEAPON_GUN c))))\<rparr>
        else p)"

text \<open>The offer of a player is gone.\<close>

definition no_offer :: "player \<Rightarrow> player" where
  "no_offer p = p\<lparr>pl_TradeItem := - 1, pl_TradeMoney := - 1, pl_TradeId := - 1\<rparr>"

definition buyer_pays :: "trade_env \<Rightarrow> bytes \<Rightarrow> int \<Rightarrow> int \<Rightarrow> int \<Rightarrow> player \<Rightarrow> player" where
  "buyer_pays E Item TradeId Money Weapon p =
     buyer_item E Weapon
       ((no_offer (MoneyTransaction (- Money)
          (str_copy (lit ''trade ['' @ Item @ lit ''] from ['' @ te_ClientName E TradeId @ lit '']'') 256) p))\<lparr>pl_aTradeOffer := []\<rparr>)"

definition seller_is_paid :: "trade_env \<Rightarrow> bytes \<Rightarrow> int \<Rightarrow> int \<Rightarrow> int \<Rightarrow> player \<Rightarrow> player" where
  "seller_is_paid E Item BuyerId Money Weapon p =
     seller_item Weapon
       (no_offer (MoneyTransaction Money
          (str_copy (lit ''trade ['' @ Item @ lit ''] to ['' @ te_ClientName E BuyerId @ lit '']'') 256) p))"

definition complete_trade :: "trade_env \<Rightarrow> int \<Rightarrow> int \<Rightarrow> int \<Rightarrow> bytes \<Rightarrow> trade_game \<Rightarrow> trade_game option" where
  "complete_trade E ClientId TradeId Weapon Item g =
     do { b \<leftarrow> player_at g ClientId;
          s \<leftarrow> player_at g TradeId;
          let Money = pl_TradeMoney s;
              g1 = SendChatTarget ClientId (str_copy (lit ''[TRADE] you successfully bought [ '' @ Item @ lit '' ] for [ '' @ int_text Money @
                lit '' ] from player '' @ [0x27] @ te_ClientName E TradeId @ [0x27] @ lit ''.'') 256) g;
              g2 = set_player ClientId (buyer_pays E Item TradeId Money Weapon b) g1;
              g3 = SendChatTarget TradeId (str_copy (lit ''[TRADE] you successfully sold [ '' @ Item @ lit '' ] for [ '' @ int_text Money @
                lit '' ] to player '' @ [0x27] @ te_ClientName E ClientId @ [0x27] @ lit ''.'') 256) g2
          in Some (set_player TradeId (seller_is_paid E Item ClientId Money Weapon s) g3) }"

subsection \<open>The chat commands\<close>

definition MAX_CLIENTS :: int where "MAX_CLIENTS = 128"

definition CheckClientId :: "int \<Rightarrow> bool" where
  "CheckClientId ClientId \<longleftrightarrow> ClientId \<ge> 0 \<and> ClientId < MAX_CLIENTS"

text \<open>The common start of both commands: the player, or the state in which the handler returns.\<close>

definition trade_gate :: "trade_env \<Rightarrow> int \<Rightarrow> trade_game \<Rightarrow> trade_game + player" where
  "trade_gate E ClientId g =
     (if \<not> CheckClientId ClientId then Inl g
      else case player_at g ClientId of None \<Rightarrow> Inl g
      | Some p \<Rightarrow>
        if pl_Character p = None then Inl (SendChatTarget ClientId (lit ''[TRADE] you have to be alive to use this command.'') g)
        else if pl_SpookyGhostActive p \<noteq> 0 then Inl (SendChatTarget ClientId (lit ''[TRADE] you can'' @ [0x27] @ lit ''t trade as the spooky ghost.'') g)
        else if \<not> te_SvAllowTrade E then Inl (SendChatTarget ClientId (lit ''[TRADE] this command is deactivated by an administrator.'') g)
        else if IsMinigame p \<noteq> 0 then Inl (SendChatTarget ClientId (lit ''[TRADE] you can'' @ [0x27] @ lit ''t use this command in minigames or jail.'') g)
        else Inr p)"

definition latest_trade :: "player \<Rightarrow> bytes list" where
  "latest_trade p = (if str_comp_nocase (pl_aTradeOffer p) [] \<noteq> 0 then [lit ''=== latest trade ==='', pl_aTradeOffer p] else [])"

definition in_quotes :: "bytes \<Rightarrow> bytes" where
  "in_quotes s = [0x27] @ s @ [0x27]"

definition offer_text :: "trade_env \<Rightarrow> int \<Rightarrow> bytes \<Rightarrow> int \<Rightarrow> bytes" where
  "offer_text E ClientId aWeaponName Price =
     str_copy (lit ''[OPEN] '' @ in_quotes (lit ''/trade buy '' @ aWeaponName @ lit '' '' @ int_text Price @ lit '' '' @ te_ClientName E ClientId)) 256"

text \<open>The offer is noted for every other player.\<close>

fun offer_to_all :: "int \<Rightarrow> bytes \<Rightarrow> player option list \<Rightarrow> int \<Rightarrow> player option list" where
  "offer_to_all ClientId t [] i = []"
| "offer_to_all ClientId t (p # ps) i =
     (if i = ClientId then p else map_option (\<lambda>q. q\<lparr>pl_aTradeOffer := t\<rparr>) p) # offer_to_all ClientId t ps (i + 1)"

definition save_offer :: "trade_env \<Rightarrow> int \<Rightarrow> int \<Rightarrow> int \<Rightarrow> int \<Rightarrow> int \<Rightarrow> trade_game \<Rightarrow> trade_game option" where
  "save_offer E ClientId Weapon Price TradeId minutes g =
     map_option (\<lambda>p. set_player ClientId (p\<lparr>pl_TradeItem := Weapon, pl_TradeMoney := Price, pl_TradeId := TradeId,
       pl_TradeTick := te_Tick E + te_TickSpeed E * minutes * 60\<rparr>) g) (player_at g ClientId)"

definition trade_sell_public :: "trade_env \<Rightarrow> int \<Rightarrow> bytes list \<Rightarrow> trade_game \<Rightarrow> trade_game option" where
  "trade_sell_public E ClientId args g =
     (let Weapon = TradeItemToInt (CResult_GetString args 1); Price = CResult_GetInteger args 2; aWeaponName = str_copy (CResult_GetString args 1) 64 in
      case TradePrepareSell E (CResult_GetString args 3) ClientId aWeaponName Price True g of
        None \<Rightarrow> None
      | Some (TradeId, g1) \<Rightarrow>
          if TradeId = - 1 then Some g1
          else
            let g2 = SendChatTarget (- 1) (str_copy (lit ''[TRADE] '' @ in_quotes (te_ClientName E ClientId) @ lit '' created a public offer [ '' @ aWeaponName @
                  lit '' ] for [ '' @ int_text Price @ lit '' ] money (use '' @ in_quotes (lit ''/trade'') @ lit '' command to accept it)'') 256) g1;
                g3 = g2\<lparr>tg_apPlayers := offer_to_all ClientId (offer_text E ClientId aWeaponName Price) (tg_apPlayers g2) 0\<rparr>
            in save_offer E ClientId Weapon Price (- 1) 2 g3)"

definition trade_sell :: "trade_env \<Rightarrow> int \<Rightarrow> bytes list \<Rightarrow> trade_game \<Rightarrow> trade_game option" where
  "trade_sell E ClientId args g =
     (let Weapon = TradeItemToInt (CResult_GetString args 1); Price = CResult_GetInteger args 2; aWeaponName = str_copy (CResult_GetString args 1) 64 in
      case TradePrepareSell E (CResult_GetString args 3) ClientId aWeaponName Price False g of
        None \<Rightarrow> None
      | Some (TradeId, g1) \<Rightarrow>
          if TradeId = - 1 then Some g1
          else
            let g2 = SendChatTarget TradeId (str_copy (lit ''[TRADE] '' @ in_quotes (te_ClientName E ClientId) @ lit '' offered you [ '' @ aWeaponName @
                  lit '' ] for [ '' @ int_text Price @ lit '' ] money'') 256) g1
            in do {
              q \<leftarrow> player_at g2 TradeId;
              let g3 = set_player TradeId (q\<lparr>pl_aTradeOffer := offer_text E ClientId aWeaponName Price\<rparr>) g2;
                  g4 = SendChatTarget ClientId (str_copy (lit ''[TRADE] you offered '' @ in_quotes (CResult_GetString args 3) @ lit '' [ '' @ aWeaponName @
                    lit '' ] for [ '' @ int_text Price @ lit '' ] money'') 256) g3
              in save_offer E ClientId Weapon Price TradeId 1 g4 })"

definition trade_buy :: "trade_env \<Rightarrow> int \<Rightarrow> bytes list \<Rightarrow> trade_game \<Rightarrow> trade_game option" where
  "trade_buy E ClientId args g =
     (let TradeId = GetCidByName E g (CResult_GetString args 3); Weapon = TradeItemToInt (CResult_GetString args 1) in
      case TradePrepareBuy E ClientId (CResult_GetString args 3) Weapon g of
        None \<Rightarrow> None
      | Some (r, g1) \<Rightarrow>
          if r \<noteq> 0 then Some g1
          else do {
            s \<leftarrow> player_at g1 TradeId;
            if pl_TradeItem s \<noteq> Weapon \<or> pl_TradeMoney s \<noteq> CResult_GetInteger args 2 then
              Some (SendChatTarget ClientId (lit ''[TRADE] the trade you accepted doesn'' @ [0x27] @ lit ''t exist.'') g1)
            else complete_trade E ClientId TradeId Weapon (CResult_GetString args 1) g1 })"

definition trade_help :: "bytes list" where
  "trade_help = [lit ''=== TRADE ==='', lit ''Use this command to trade'', lit ''Weapons and items'',
     lit ''With other players on the server'', in_quotes (lit ''/trade cmdlist'') @ lit '' for all commands'']"

definition trade_cmdlist :: "bytes list" where
  "trade_cmdlist = [lit ''==== TRADE commands ===='',
     in_quotes (lit ''/trade sell <item> <price> <player>'') @ lit '' to send a player a trade offer'',
     in_quotes (lit ''/trade sell_public <item> <price>'') @ lit '' to create a public sell offer everybody could accept'',
     in_quotes (lit ''/trade buy <item> <price> <player>'') @ lit '' to accept a trade offer'',
     in_quotes (lit ''/tr <player>'') @ lit '' fast accept latest trade (WARNING YOU COULD BE SCAMMED!)'',
     in_quotes (lit ''/trade items'') @ lit '' for a full list of tradable items'',
     in_quotes (lit ''/trade cmdlist'') @ lit '' shows this list'']"

definition trade_items :: "bytes list" where
  "trade_items = [lit ''=== TRADE ITEMS ==='', lit ''shotgun'', lit ''grenade'', lit ''rifle'', lit ''all_weapons'']"

definition ConTrade :: "trade_env \<Rightarrow> int \<Rightarrow> bytes list \<Rightarrow> trade_game \<Rightarrow> trade_game option" where
  "ConTrade E ClientId args g =
     (case trade_gate E ClientId g of Inl g1 \<Rightarrow> Some g1
      | Inr p \<Rightarrow>
        let is = (\<lambda>s. str_comp_nocase (CResult_GetString args 0) (lit s) = 0) in
        if args = [] \<or> is ''help'' then Some (send_lines ClientId (trade_help @ latest_trade p) g)
        else if is ''cmdlist'' then Some (send_lines ClientId trade_cmdlist g)
        else if is ''items'' then Some (send_lines ClientId trade_items g)
        else if is ''sell_public'' then trade_sell_public E ClientId args g
        else if is ''sell'' then trade_sell E ClientId args g
        else if is ''buy'' then trade_buy E ClientId args g
        else Some (SendChatTarget ClientId (lit ''[TRADE] unknown command. try '' @ in_quotes (lit ''/trade cmdlist'') @ lit '' for more help.'') g))"

definition tr_help :: "bytes list" where
  "tr_help = [lit ''=== TRADE (UNSAFE VERSION) ==='', lit ''For information and the saver version'',
     lit ''use the '' @ in_quotes (lit ''/trade'') @ lit '' command'',
     in_quotes (lit ''/tr <player>'') @ lit '' to accept the latest offer from the player'',
     lit ''WARNING the player could send a new offer with higher costs!'']"

definition tr_accept :: "trade_env \<Rightarrow> int \<Rightarrow> bytes list \<Rightarrow> trade_game \<Rightarrow> trade_game option" where
  "tr_accept E ClientId args g =
     (let TradeId = GetCidByName E g (CResult_GetString args 0) in
      if TradeId = - 1 then
        Some (SendChatTarget ClientId (str_copy (lit ''[TRADE] player '' @ in_quotes (CResult_GetString args 0) @ lit '' is not online.'') 256) g)
      else
        let Weapon = (case player_at g TradeId of Some s \<Rightarrow> pl_TradeItem s | None \<Rightarrow> - 1);
            aWeaponName = str_copy (TradeItemToStr Weapon) 64 in
        case TradePrepareBuy E ClientId (CResult_GetString args 0) Weapon g of
          None \<Rightarrow> None
        | Some (r, g1) \<Rightarrow>
            if r \<noteq> 0 then Some g1
            else do {
              s \<leftarrow> player_at g1 TradeId;
              if pl_TradeMoney s > 5000 then
                Some (SendChatTarget ClientId (lit ''[TRADE] use the '' @ in_quotes (lit ''/trade'') @ lit '' command for trades with over 5000 money.'') g1)
              else complete_trade E ClientId TradeId Weapon aWeaponName g1 })"

definition ConTr :: "trade_env \<Rightarrow> int \<Rightarrow> bytes list \<Rightarrow> trade_game \<Rightarrow> trade_game option" where
  "ConTr E ClientId args g =
     (case trade_gate E ClientId g of Inl g1 \<Rightarrow> Some g1
      | Inr p \<Rightarrow>
        if length args = 0 then Some (send_lines ClientId (tr_help @ latest_trade p) g)
        else if length args = 1 then tr_accept E ClientId args g
        else Some (SendChatTarget ClientId (lit ''[TRADE] something really went wrong please contact an administrator.'') g))"

end
