(* ===== verification/TradeProps.thy ===== *)
theory TradeProps
  imports Trade
begin

text \<open>
  What the trade commands do to the players: the money and the characters stay well formed, money moves
  only by an accepted offer, who can trade, and when a purchase reads outside the weapons.
\<close>

subsection \<open>What the checks establish\<close>

text \<open>Answers and refusals only write to the chat.\<close>

lemma SendChatTarget_players [simp]: "tg_apPlayers (SendChatTarget To t g) = tg_apPlayers g"
  by (simp add: SendChatTarget_def)

lemma send_lines_players [simp]: "tg_apPlayers (send_lines To ts g) = tg_apPlayers g"
  by (induction ts arbitrary: g) simp_all

lemma player_at_chat [simp]: "player_at (SendChatTarget To t g) i = player_at g i"
  by (simp add: player_at_def)

lemma refuse_iff [simp]: "refuse To t g = Some (r, g1) \<longleftrightarrow> r = - 1 \<and> g1 = SendChatTarget To t g"
  by (auto simp: refuse_def)

lemma cid_by_name_range:
  "cid_by_name name n ps i = j \<Longrightarrow> j \<noteq> - 1 \<Longrightarrow> i \<le> j \<and> j < i + int (length ps) \<and> ps ! nat (j - i) \<noteq> None"
proof (induction ps arbitrary: i)
  case (Cons p ps)
  show ?case
  proof (cases "p \<noteq> None \<and> str_comp n (name i) = 0")
    case True
    then show ?thesis using Cons.prems by auto
  next
    case False
    then have e: "cid_by_name name n ps (i + 1) = j" using Cons.prems(1) by auto
    then have "i + 1 \<le> j" "j < i + 1 + int (length ps)" "ps ! nat (j - (i + 1)) \<noteq> None"
      using Cons.IH [OF e Cons.prems(2)] by auto
    moreover from this have "nat (j - i) = Suc (nat (j - (i + 1)))" by simp
    ultimately show ?thesis by simp
  qed
qed simp

lemma GetCidByName_player:
  assumes "GetCidByName E g n \<noteq> - 1"
  obtains p where "player_at g (GetCidByName E g n) = Some p"
  using cid_by_name_range [of "te_ClientName E" n "tg_apPlayers g" 0, OF refl] assms
  by (auto simp: GetCidByName_def player_at_def)

lemma prepare_buy_chat:
  "TradePrepareBuy E B n I g = Some (r, g1) \<Longrightarrow> tg_apPlayers g1 = tg_apPlayers g"
  by (auto simp: TradePrepareBuy_def Let_def split: if_splits option.splits bind_splits)

text \<open>A purchase that is let through.\<close>

definition may_buy :: "trade_game \<Rightarrow> int \<Rightarrow> int \<Rightarrow> int \<Rightarrow> player \<Rightarrow> player \<Rightarrow> bool" where
  "may_buy g B S I b s \<longleftrightarrow> player_at g B = Some b \<and> player_at g S = Some s \<and> B \<noteq> S \<and>
     \<not> IsLoggedIn b \<and> \<not> IsLoggedIn s \<and> pl_Character b \<noteq> None \<and> pl_Character s \<noteq> None \<and>
     pl_TradeMoney s \<le> pl_Money b \<and> (pl_TradeId s = - 1 \<or> pl_TradeId s = B) \<and>
     HasWeapon (the (pl_Character s)) I \<noteq> None"

lemma prepare_buy_ok:
  assumes "TradePrepareBuy E B n I g = Some (0, g1)"
  shows "\<exists>b s. g1 = g \<and> may_buy g B (GetCidByName E g n) I b s"
  using assms unfolding TradePrepareBuy_def Let_def may_buy_def
  by (auto split: if_splits option.splits bind_splits)

text \<open>An offer that is let through.\<close>

lemma item_range: "TradeItemToInt n = - 1 \<or> 2 \<le> TradeItemToInt n \<and> TradeItemToInt n \<le> 5"
  by (auto simp: TradeItemToInt_def split: if_splits)

lemma sell_check_chat:
  "TradeSellCheckUser E n F g = Some (r, g1) \<Longrightarrow>
     tg_apPlayers g1 = tg_apPlayers g \<and> (r = - 1 \<or> r = GetCidByName E g n \<and> (\<exists>q. player_at g r = Some q \<and> \<not> IsLoggedIn q))"
  by (auto simp: TradeSellCheckUser_def Let_def split: if_splits option.splits)

lemma prepare_sell_chat:
  assumes "TradePrepareSell E n F I Price pub g = Some (r, g1)"
  shows "tg_apPlayers g1 = tg_apPlayers g \<and>
     (r = - 1 \<or> TradeItemToInt I \<noteq> - 1 \<and> 1 \<le> Price \<and> (\<exists>p. player_at g F = Some p \<and> \<not> IsLoggedIn p) \<and>
        (if pub then r = 1 else \<exists>q. player_at g r = Some q \<and> \<not> IsLoggedIn q))"
proof -
  have "tg_apPlayers g1 = tg_apPlayers g \<and> r = - 1 \<or>
     TradeItemToInt I \<noteq> - 1 \<and> 1 \<le> Price \<and> (\<exists>p. player_at g F = Some p \<and> \<not> IsLoggedIn p) \<and>
     (if pub then Some (1, g) else TradeSellCheckUser E n F g) = Some (r, g1)"
    using assms unfolding TradePrepareSell_def Let_def by (auto split: if_splits option.splits bind_splits)
  then show ?thesis using sell_check_chat [of E n F g r g1] by (auto split: if_splits)
qed

subsection \<open>Money\<close>

definition money_of :: "player option \<Rightarrow> int" where
  "money_of p = (case p of None \<Rightarrow> 0 | Some q \<Rightarrow> pl_Money q)"

definition total_money :: "trade_game \<Rightarrow> int" where
  "total_money g = sum_list (map money_of (tg_apPlayers g))"

text \<open>The players of a server: the arrays of a character have their size, no account is in debt, and an
  offered item is one of the four, for a price of at least 1.\<close>

definition trader_ok :: "player \<Rightarrow> bool" where
  "trader_ok p \<longleftrightarrow> 0 \<le> pl_Money p \<and>
     (case pl_Character p of None \<Rightarrow> True
      | Some c \<Rightarrow> length (ch_Got c) = NUM_WEAPONS \<and> length (ch_Ammo c) = NUM_WEAPONS \<and> length (ch_aDecreaseAmmo c) = NUM_WEAPONS) \<and>
     (pl_TradeItem p = - 1 \<or> 2 \<le> pl_TradeItem p \<and> pl_TradeItem p \<le> 5 \<and> 1 \<le> pl_TradeMoney p)"

definition trade_ok :: "trade_game \<Rightarrow> bool" where
  "trade_ok g \<longleftrightarrow> length (tg_apPlayers g) = nat MAX_CLIENTS \<and> (\<forall>p. Some p \<in> set (tg_apPlayers g) \<longrightarrow> trader_ok p) \<and>
     total_money g < 2147483648"

text \<open>Changing one player.\<close>

lemma player_at_set:
  "player_at g i = Some p \<Longrightarrow> player_at (set_player i p' g) j = (if j = i then Some p' else player_at g j)"
  by (auto simp: player_at_def set_player_def nth_list_update split: if_splits)

lemma sum_list_replaced: "k < length xs \<Longrightarrow> sum_list (xs[k := x]) = sum_list xs + x - (xs ! k :: int)"
proof (induction xs arbitrary: k)
  case (Cons y ys)
  then show ?case by (cases k) auto
qed simp

lemma total_set_player:
  assumes "player_at g i = Some p"
  shows "total_money (set_player i p' g) = total_money g + pl_Money p' - pl_Money p"
proof -
  have "nat i < length (tg_apPlayers g)" "tg_apPlayers g ! nat i = Some p"
    using assms by (auto simp: player_at_def split: if_splits)
  then show ?thesis by (simp add: total_money_def set_player_def map_update sum_list_replaced money_of_def)
qed

lemma players_set_player: "Some q \<in> set (tg_apPlayers (set_player i p' g)) \<Longrightarrow> q = p' \<or> Some q \<in> set (tg_apPlayers g)"
  using set_update_subset_insert by (fastforce simp: set_player_def)

lemma player_at_mem: "player_at g i = Some p \<Longrightarrow> Some p \<in> set (tg_apPlayers g)"
  by (auto simp: player_at_def split: if_splits) (metis nth_mem nat_less_iff)

lemma money_le_total:
  assumes "\<forall>p. Some p \<in> set (tg_apPlayers g) \<longrightarrow> 0 \<le> pl_Money p" "player_at g i = Some p"
  shows "pl_Money p \<le> total_money g"
proof -
  have "money_of (Some p) \<in> set (map money_of (tg_apPlayers g))" using player_at_mem [OF assms(2)] by force
  moreover have "\<forall>x \<in> set (map money_of (tg_apPlayers g)). 0 \<le> x"
    using assms(1) by (auto simp: money_of_def split: option.splits)
  ultimately have "money_of (Some p) \<le> sum_list (map money_of (tg_apPlayers g))"
    using member_le_sum_list by blast
  then show ?thesis by (simp add: total_money_def money_of_def)
qed

lemma total_money_chat [simp]: "total_money (SendChatTarget To t g) = total_money g"
  "total_money (send_lines To ts g) = total_money g"
  by (simp_all add: total_money_def)

lemma trade_ok_players: "tg_apPlayers g1 = tg_apPlayers g \<Longrightarrow> trade_ok g1 = trade_ok g \<and> total_money g1 = total_money g"
  by (simp add: trade_ok_def total_money_def)

subsection \<open>What a completed trade does\<close>

lemma traded_weapon_arrays:
  assumes "length (ch_Got c) = NUM_WEAPONS" "length (ch_Ammo c) = NUM_WEAPONS" "length (ch_aDecreaseAmmo c) = NUM_WEAPONS"
  shows "length (ch_Got (traded_weapon E w c)) = NUM_WEAPONS" "length (ch_Ammo (traded_weapon E w c)) = NUM_WEAPONS"
    "length (ch_aDecreaseAmmo (traded_weapon E w c)) = NUM_WEAPONS"
  using assms by (simp_all add: traded_weapon_def GiveWeapon_def SetWeaponGot_def Let_def)

lemma traded_weapon_got: "ch_Got (traded_weapon E w c) = (ch_Got c)[w := True]"
  by (simp add: traded_weapon_def GiveWeapon_def SetWeaponGot_def Let_def)

lemma buyer_item_fields [simp]:
  "pl_Money (buyer_item E W p) = pl_Money p" "pl_TradeItem (buyer_item E W p) = pl_TradeItem p"
  "pl_TradeMoney (buyer_item E W p) = pl_TradeMoney p" "pl_TradeId (buyer_item E W p) = pl_TradeId p"
  "pl_AccId (buyer_item E W p) = pl_AccId p" "pl_aTradeOffer (buyer_item E W p) = pl_aTradeOffer p"
  by (simp_all add: buyer_item_def split: option.split)

lemma seller_item_fields [simp]:
  "pl_Money (seller_item W p) = pl_Money p" "pl_TradeItem (seller_item W p) = pl_TradeItem p"
  "pl_TradeMoney (seller_item W p) = pl_TradeMoney p" "pl_TradeId (seller_item W p) = pl_TradeId p"
  "pl_AccId (seller_item W p) = pl_AccId p"
  by (simp_all add: seller_item_def split: option.split)

lemma no_offer_fields [simp]:
  "pl_Money (no_offer p) = pl_Money p" "pl_TradeItem (no_offer p) = - 1" "pl_TradeMoney (no_offer p) = - 1"
  "pl_TradeId (no_offer p) = - 1" "pl_AccId (no_offer p) = pl_AccId p" "pl_Character (no_offer p) = pl_Character p"
  by (simp_all add: no_offer_def)

lemma MoneyTransaction_Character [simp]: "pl_Character (MoneyTransaction a d p) = pl_Character p"
  by (simp add: MoneyTransaction_def SetMoney_def Let_def)

definition char_ok :: "tee option \<Rightarrow> bool" where
  "char_ok x = (case x of None \<Rightarrow> True
     | Some c \<Rightarrow> length (ch_Got c) = NUM_WEAPONS \<and> length (ch_Ammo c) = NUM_WEAPONS \<and> length (ch_aDecreaseAmmo c) = NUM_WEAPONS)"

lemma trader_ok_char: "trader_ok p \<longleftrightarrow> 0 \<le> pl_Money p \<and> char_ok (pl_Character p) \<and>
     (pl_TradeItem p = - 1 \<or> 2 \<le> pl_TradeItem p \<and> pl_TradeItem p \<le> 5 \<and> 1 \<le> pl_TradeMoney p)"
  by (simp add: trader_ok_def char_ok_def)

lemma buyer_item_char: "char_ok (pl_Character p) \<Longrightarrow> char_ok (pl_Character (buyer_item E W p))"
  by (cases "pl_Character p") (simp_all add: buyer_item_def char_ok_def traded_weapon_arrays)

lemma seller_item_char: "char_ok (pl_Character p) \<Longrightarrow> char_ok (pl_Character (seller_item W p))"
  by (cases "pl_Character p") (simp_all add: seller_item_def char_ok_def SetWeaponGot_def SetActiveWeapon_def)

lemma buyer_pays_money:
  "0 \<le> pl_Money p - Money \<Longrightarrow> pl_Money p - Money < 2147483648 \<Longrightarrow> pl_Money (buyer_pays E I S Money W p) = pl_Money p - Money"
  by (simp add: buyer_pays_def to_i32_small)

lemma seller_is_paid_money:
  "0 \<le> pl_Money p + Money \<Longrightarrow> pl_Money p + Money < 2147483648 \<Longrightarrow> pl_Money (seller_is_paid E I B Money W p) = pl_Money p + Money"
  by (simp add: seller_is_paid_def to_i32_small)

lemma buyer_pays_ok:
  assumes "trader_ok p" "0 \<le> pl_Money p - Money" "pl_Money p - Money < 2147483648"
  shows "trader_ok (buyer_pays E I S Money W p)"
  using assms buyer_pays_money [OF assms(2,3)]
  by (simp add: trader_ok_char) (simp add: buyer_pays_def buyer_item_char)

lemma seller_is_paid_ok:
  assumes "trader_ok p" "0 \<le> pl_Money p + Money" "pl_Money p + Money < 2147483648"
  shows "trader_ok (seller_is_paid E I B Money W p)"
  using assms seller_is_paid_money [OF assms(2,3)]
  by (simp add: trader_ok_char) (simp add: seller_is_paid_def seller_item_char)

lemma complete_trade_at:
  assumes "may_buy g B S W b s" "complete_trade E B S W I g = Some g1"
  shows "player_at g1 j = (if j = S then Some (seller_is_paid E I B (pl_TradeMoney s) W s)
      else if j = B then Some (buyer_pays E I S (pl_TradeMoney s) W b) else player_at g j)"
    "total_money g1 = total_money g + (pl_Money (seller_is_paid E I B (pl_TradeMoney s) W s) - pl_Money s)
       + (pl_Money (buyer_pays E I S (pl_TradeMoney s) W b) - pl_Money b)"
    "length (tg_apPlayers g1) = length (tg_apPlayers g)"
    "Some q \<in> set (tg_apPlayers g1) \<Longrightarrow> q = buyer_pays E I S (pl_TradeMoney s) W b \<or>
       q = seller_is_paid E I B (pl_TradeMoney s) W s \<or> Some q \<in> set (tg_apPlayers g)"
proof -
  obtain t1 t2 where g1: "g1 = set_player S (seller_is_paid E I B (pl_TradeMoney s) W s) (SendChatTarget S t2
      (set_player B (buyer_pays E I S (pl_TradeMoney s) W b) (SendChatTarget B t1 g)))"
    using assms by (auto simp: complete_trade_def may_buy_def Let_def)
  let ?g2 = "set_player B (buyer_pays E I S (pl_TradeMoney s) W b) (SendChatTarget B t1 g)"
  have B: "player_at (SendChatTarget B t1 g) B = Some b" using assms(1) by (simp add: may_buy_def)
  have S: "player_at (SendChatTarget S t2 ?g2) S = Some s"
    using assms(1) by (simp add: player_at_set [OF B] may_buy_def)
  show "player_at g1 j = (if j = S then Some (seller_is_paid E I B (pl_TradeMoney s) W s)
      else if j = B then Some (buyer_pays E I S (pl_TradeMoney s) W b) else player_at g j)"
    by (simp add: g1 player_at_set [OF S] player_at_set [OF B])
  show "total_money g1 = total_money g + (pl_Money (seller_is_paid E I B (pl_TradeMoney s) W s) - pl_Money s)
       + (pl_Money (buyer_pays E I S (pl_TradeMoney s) W b) - pl_Money b)"
    by (simp add: g1 total_set_player [OF S] total_set_player [OF B])
  show "length (tg_apPlayers g1) = length (tg_apPlayers g)" by (simp add: g1 set_player_def)
  show "Some q \<in> set (tg_apPlayers g1) \<Longrightarrow> q = buyer_pays E I S (pl_TradeMoney s) W b \<or>
       q = seller_is_paid E I B (pl_TradeMoney s) W s \<or> Some q \<in> set (tg_apPlayers g)"
    by (auto simp: g1 dest!: players_set_player)
qed

text \<open>The money of two players is at most the money of all.\<close>

lemma two_le_total:
  assumes "\<forall>p. Some p \<in> set (tg_apPlayers g) \<longrightarrow> 0 \<le> pl_Money p" "player_at g i = Some p" "player_at g j = Some q" "i \<noteq> j"
  shows "pl_Money p + pl_Money q \<le> total_money g"
proof -
  let ?g = "set_player i (p\<lparr>pl_Money := 0\<rparr>) g"
  have "\<forall>r. Some r \<in> set (tg_apPlayers ?g) \<longrightarrow> 0 \<le> pl_Money r" using assms(1) by (auto dest: players_set_player)
  moreover have "player_at ?g j = Some q" using assms by (simp add: player_at_set [OF assms(2)])
  ultimately have "pl_Money q \<le> total_money ?g" by (rule money_le_total)
  then show ?thesis by (simp add: total_set_player [OF assms(2)])
qed

lemma complete_trade_keeps:
  assumes "trade_ok g" "may_buy g B S W b s" "pl_TradeItem s \<noteq> - 1" "complete_trade E B S W I g = Some g1"
  shows "trade_ok g1 \<and> total_money g1 = total_money g"
proof -
  have p: "player_at g B = Some b" "player_at g S = Some s" "B \<noteq> S" "pl_TradeMoney s \<le> pl_Money b"
    using assms(2) by (auto simp: may_buy_def)
  have ok: "trader_ok b" "trader_ok s" using assms(1) player_at_mem [OF p(1)] player_at_mem [OF p(2)] by (auto simp: trade_ok_def)
  have pos: "\<forall>p. Some p \<in> set (tg_apPlayers g) \<longrightarrow> 0 \<le> pl_Money p" using assms(1) by (simp add: trade_ok_def trader_ok_def)
  have M: "1 \<le> pl_TradeMoney s" using ok(2) assms(3) by (auto simp: trader_ok_def)
  have "pl_Money b + pl_Money s < 2147483648"
    using two_le_total [OF pos p(1-3)] assms(1) by (simp add: trade_ok_def)
  then have r: "0 \<le> pl_Money b - pl_TradeMoney s" "pl_Money b - pl_TradeMoney s < 2147483648"
    "0 \<le> pl_Money s + pl_TradeMoney s" "pl_Money s + pl_TradeMoney s < 2147483648"
    using p(4) M ok by (auto simp: trader_ok_def)
  note at = complete_trade_at [OF assms(2,4)]
  have t: "total_money g1 = total_money g"
    by (simp add: at(2) seller_is_paid_money [OF r(3,4)] buyer_pays_money [OF r(1,2)])
  have "trader_ok q" if "Some q \<in> set (tg_apPlayers g1)" for q
    using at(4) [OF that] buyer_pays_ok [OF ok(1) r(1,2)] seller_is_paid_ok [OF ok(2) r(3,4)] assms(1)
    by (auto simp: trade_ok_def)
  then show ?thesis using assms(1) t at(3) by (simp add: trade_ok_def)
qed

subsection \<open>The commands keep the money\<close>

definition money_kept :: "trade_game \<Rightarrow> trade_game \<Rightarrow> bool" where
  "money_kept g g1 \<longleftrightarrow> trade_ok g1 \<and> total_money g1 = total_money g"

lemma trade_ok_chat [simp]: "trade_ok (SendChatTarget To t g) = trade_ok g" "trade_ok (send_lines To ts g) = trade_ok g"
  by (simp_all add: trade_ok_def total_money_def)

lemma money_kept_chat [simp]: "trade_ok g \<Longrightarrow> money_kept g (SendChatTarget To t g)" "trade_ok g \<Longrightarrow> money_kept g (send_lines To ts g)"
  "trade_ok g \<Longrightarrow> money_kept g g"
  by (simp_all add: money_kept_def trade_ok_def total_money_def)

lemma money_kept_players: "tg_apPlayers g1 = tg_apPlayers g \<Longrightarrow> trade_ok g \<Longrightarrow> money_kept g g1"
  by (simp add: money_kept_def trade_ok_def total_money_def)

lemma money_kept_trans: "money_kept g g1 \<Longrightarrow> money_kept g1 g2 \<Longrightarrow> money_kept g g2"
  by (simp add: money_kept_def)

lemma money_kept_set:
  assumes "trade_ok g" "player_at g i = Some p" "trader_ok p'" "pl_Money p' = pl_Money p"
  shows "money_kept g (set_player i p' g)"
  using assms total_set_player [OF assms(2), of p'] players_set_player [of _ i p' g]
  by (auto simp: money_kept_def trade_ok_def set_player_def)

lemma money_kept_offer:
  assumes "trade_ok g" "player_at g i = Some p"
  shows "money_kept g (set_player i (p\<lparr>pl_aTradeOffer := t\<rparr>) g)"
  using assms player_at_mem [OF assms(2)] by (intro money_kept_set) (auto simp: trade_ok_def trader_ok_def)

lemma save_offer_kept:
  assumes "trade_ok g" "save_offer E i W Price T m g = Some g1" "W = - 1 \<or> 2 \<le> W \<and> W \<le> 5" "1 \<le> Price"
  shows "money_kept g g1"
proof -
  obtain p where p: "player_at g i = Some p"
    "g1 = set_player i (p\<lparr>pl_TradeItem := W, pl_TradeMoney := Price, pl_TradeId := T,
       pl_TradeTick := te_Tick E + te_TickSpeed E * m * 60\<rparr>) g"
    using assms(2) by (auto simp: save_offer_def)
  have "trader_ok p" using assms(1) player_at_mem [OF p(1)] by (auto simp: trade_ok_def)
  then show ?thesis unfolding p(2) using assms(3,4)
    by (intro money_kept_set [OF assms(1) p(1)]) (auto simp: trader_ok_def)
qed

lemma offer_to_all_map [simp]:
  "length (offer_to_all c t ps i) = length ps" "map money_of (offer_to_all c t ps i) = map money_of ps"
  by (induction ps arbitrary: i) (auto simp: money_of_def split: option.splits)

lemma offer_to_all_players:
  "Some q \<in> set (offer_to_all c t ps i) \<Longrightarrow> \<exists>p. Some p \<in> set ps \<and> (q = p \<or> q = p\<lparr>pl_aTradeOffer := t\<rparr>)"
proof (induction ps arbitrary: i)
  case (Cons a ps)
  then consider "Some q = (if i = c then a else map_option (\<lambda>q. q\<lparr>pl_aTradeOffer := t\<rparr>) a)" | "Some q \<in> set (offer_to_all c t ps (i + 1))"
    by auto
  then show ?case
  proof cases
    case 1
    then show ?thesis by (cases a) (auto split: if_splits)
  next
    case 2
    from Cons.IH [OF this] obtain p where "Some p \<in> set ps" "q = p \<or> q = p\<lparr>pl_aTradeOffer := t\<rparr>" by blast
    then show ?thesis by (intro exI [of _ p]) simp
  qed
qed simp

lemma offer_to_all_kept:
  assumes "trade_ok g"
  shows "money_kept g (g\<lparr>tg_apPlayers := offer_to_all c t (tg_apPlayers g) 0\<rparr>)"
proof -
  have "trader_ok q" if "Some q \<in> set (offer_to_all c t (tg_apPlayers g) 0)" for q
    using offer_to_all_players [OF that] assms by (auto simp: trade_ok_def trader_ok_def)
  then show ?thesis using assms by (simp add: money_kept_def trade_ok_def total_money_def)
qed

lemma trade_sell_public_kept:
  assumes "trade_ok g" "trade_sell_public E c args g = Some g1"
  shows "money_kept g g1"
proof -
  obtain r h where h: "TradePrepareSell E (CResult_GetString args 3) c (str_copy (CResult_GetString args 1) 64) (CResult_GetInteger args 2) True g = Some (r, h)"
    using assms(2) by (auto simp: trade_sell_public_def Let_def split: option.splits)
  have k: "money_kept g h" "r \<noteq> - 1 \<longrightarrow> 1 \<le> CResult_GetInteger args 2"
    using prepare_sell_chat [OF h] money_kept_players assms(1) by auto
  show ?thesis
  proof (cases "r = - 1")
    case True
    then show ?thesis using assms(2) h k by (simp add: trade_sell_public_def Let_def)
  next
    case False
    obtain t t' where s: "save_offer E c (TradeItemToInt (CResult_GetString args 1)) (CResult_GetInteger args 2) (- 1) 2
        ((SendChatTarget (- 1) t h)\<lparr>tg_apPlayers := offer_to_all c t' (tg_apPlayers (SendChatTarget (- 1) t h)) 0\<rparr>) = Some g1"
      using assms(2) h False unfolding trade_sell_public_def Let_def by auto
    have 1: "money_kept h (SendChatTarget (- 1) t h)" using k(1) by (simp add: money_kept_def)
    then have 2: "money_kept (SendChatTarget (- 1) t h)
        ((SendChatTarget (- 1) t h)\<lparr>tg_apPlayers := offer_to_all c t' (tg_apPlayers (SendChatTarget (- 1) t h)) 0\<rparr>)"
      by (intro offer_to_all_kept) (simp add: money_kept_def)
    then have 3: "money_kept ((SendChatTarget (- 1) t h)\<lparr>tg_apPlayers := offer_to_all c t' (tg_apPlayers (SendChatTarget (- 1) t h)) 0\<rparr>) g1"
      using k(2) False by (intro save_offer_kept [OF _ s item_range]) (auto simp: money_kept_def)
    from k(1) 1 2 3 show ?thesis by (metis money_kept_trans)
  qed
qed

lemma trade_sell_kept:
  assumes "trade_ok g" "trade_sell E c args g = Some g1"
  shows "money_kept g g1"
proof -
  obtain r h where h: "TradePrepareSell E (CResult_GetString args 3) c (str_copy (CResult_GetString args 1) 64) (CResult_GetInteger args 2) False g = Some (r, h)"
    using assms(2) by (auto simp: trade_sell_def Let_def split: option.splits)
  have k: "money_kept g h" "r \<noteq> - 1 \<longrightarrow> 1 \<le> CResult_GetInteger args 2"
    using prepare_sell_chat [OF h] money_kept_players assms(1) by auto
  show ?thesis
  proof (cases "r = - 1")
    case True
    then show ?thesis using assms(2) h k by (simp add: trade_sell_def Let_def)
  next
    case False
    then obtain t t' t'' q where q: "player_at (SendChatTarget r t h) r = Some q"
      and s: "save_offer E c (TradeItemToInt (CResult_GetString args 1)) (CResult_GetInteger args 2) r 1
        (SendChatTarget c t'' (set_player r (q\<lparr>pl_aTradeOffer := t'\<rparr>) (SendChatTarget r t h))) = Some g1"
      using assms(2) h unfolding trade_sell_def Let_def by (auto split: bind_splits)
    have 1: "money_kept h (SendChatTarget r t h)" using k(1) by (simp add: money_kept_def)
    then have 2: "money_kept (SendChatTarget r t h) (set_player r (q\<lparr>pl_aTradeOffer := t'\<rparr>) (SendChatTarget r t h))"
      by (intro money_kept_offer [OF _ q]) (simp add: money_kept_def)
    then have 3: "money_kept (SendChatTarget c t'' (set_player r (q\<lparr>pl_aTradeOffer := t'\<rparr>) (SendChatTarget r t h))) g1"
      using k(2) False by (intro save_offer_kept [OF _ s item_range]) (auto simp: money_kept_def)
    from k(1) 1 2 3 show ?thesis by (simp add: money_kept_def)
  qed
qed

lemma bought_item: "may_buy g B S I b s \<Longrightarrow> trade_ok g \<Longrightarrow> I \<noteq> - 1"
  by (auto simp: may_buy_def HasWeapon_def split: if_splits)

lemma trade_buy_kept:
  assumes "trade_ok g" "trade_buy E c args g = Some g1"
  shows "money_kept g g1"
proof -
  let ?S = "GetCidByName E g (CResult_GetString args 3)"
  let ?W = "TradeItemToInt (CResult_GetString args 1)"
  obtain r h where h: "TradePrepareBuy E c (CResult_GetString args 3) ?W g = Some (r, h)"
    using assms(2) by (auto simp: trade_buy_def Let_def split: option.splits)
  have k: "money_kept g h" using prepare_buy_chat [OF h] money_kept_players assms(1) by auto
  show ?thesis
  proof (cases "r = 0")
    case False
    then show ?thesis using assms(2) h k by (simp add: trade_buy_def Let_def)
  next
    case True
    then obtain b s where b: "h = g" "may_buy g c ?S ?W b s" using prepare_buy_ok h by blast
    then have s: "player_at g ?S = Some s" by (simp add: may_buy_def)
    show ?thesis
    proof (cases "pl_TradeItem s \<noteq> ?W \<or> pl_TradeMoney s \<noteq> CResult_GetInteger args 2")
      case True
      then show ?thesis using assms h \<open>r = 0\<close> b(1) s by (auto simp: trade_buy_def Let_def)
    next
      case False
      then have "complete_trade E c ?S ?W (CResult_GetString args 1) g = Some g1"
        using assms(2) h \<open>r = 0\<close> b(1) s by (simp add: trade_buy_def Let_def)
      then show ?thesis
        using complete_trade_keeps [OF assms(1) b(2)] bought_item [OF b(2) assms(1)] False by (simp add: money_kept_def)
    qed
  qed
qed

lemma tr_accept_kept:
  assumes "trade_ok g" "tr_accept E c args g = Some g1"
  shows "money_kept g g1"
proof (cases "GetCidByName E g (CResult_GetString args 0) = - 1")
  case True
  then show ?thesis using assms by (auto simp: tr_accept_def Let_def)
next
  case S: False
  let ?S = "GetCidByName E g (CResult_GetString args 0)"
  let ?W = "case player_at g ?S of Some s \<Rightarrow> pl_TradeItem s | None \<Rightarrow> - 1"
  obtain r h where h: "TradePrepareBuy E c (CResult_GetString args 0) ?W g = Some (r, h)"
    using assms(2) S by (auto simp: tr_accept_def Let_def split: option.splits)
  have k: "money_kept g h" using prepare_buy_chat [OF h] money_kept_players assms(1) by auto
  show ?thesis
  proof (cases "r = 0")
    case False
    then show ?thesis using assms(2) h k S by (simp add: tr_accept_def Let_def)
  next
    case True
    then obtain b s where b: "h = g" "may_buy g c ?S ?W b s" using prepare_buy_ok h by blast
    then have s: "player_at g ?S = Some s" by (simp add: may_buy_def)
    show ?thesis
    proof (cases "pl_TradeMoney s > 5000")
      case True
      then show ?thesis using assms h \<open>r = 0\<close> b(1) s S by (auto simp: tr_accept_def Let_def)
    next
      case False
      then have "complete_trade E c ?S ?W (str_copy (TradeItemToStr ?W) 64) g = Some g1"
        using assms(2) h \<open>r = 0\<close> b(1) s S by (simp add: tr_accept_def Let_def)
      then show ?thesis
        using complete_trade_keeps [OF assms(1) b(2)] bought_item [OF b(2) assms(1)] s by (simp add: money_kept_def)
    qed
  qed
qed

lemma trade_gate_kept: "trade_ok g \<Longrightarrow> trade_gate E c g = Inl g1 \<Longrightarrow> money_kept g g1"
  by (auto simp: trade_gate_def split: if_splits option.splits)

lemma ConTrade_kept: "trade_ok g \<Longrightarrow> ConTrade E c args g = Some g1 \<Longrightarrow> money_kept g g1"
  unfolding ConTrade_def Let_def
  by (auto split: sum.splits if_splits intro: trade_gate_kept trade_sell_public_kept trade_sell_kept trade_buy_kept)

lemma ConTr_kept: "trade_ok g \<Longrightarrow> ConTr E c args g = Some g1 \<Longrightarrow> money_kept g g1"
  unfolding ConTr_def by (auto split: sum.splits if_splits intro: trade_gate_kept tr_accept_kept)

subsection \<open>Sequences of commands\<close>

text \<open>\<open>/trade\<close> and \<open>/tr\<close> with their arguments.\<close>

datatype trade_cmd = CmdTrade "bytes list" | CmdTr "bytes list"

definition trade_do :: "trade_env \<Rightarrow> int \<Rightarrow> trade_cmd \<Rightarrow> trade_game \<Rightarrow> trade_game option" where
  "trade_do E ClientId cmd g = (case cmd of CmdTrade args \<Rightarrow> ConTrade E ClientId args g | CmdTr args \<Rightarrow> ConTr E ClientId args g)"

fun trade_run :: "(trade_env \<times> int \<times> trade_cmd) list \<Rightarrow> trade_game \<Rightarrow> trade_game option" where
  "trade_run [] g = Some g"
| "trade_run ((E, ClientId, cmd) # cs) g = (case trade_do E ClientId cmd g of None \<Rightarrow> None | Some g1 \<Rightarrow> trade_run cs g1)"

lemma trade_do_kept: "trade_ok g \<Longrightarrow> trade_do E c cmd g = Some g1 \<Longrightarrow> money_kept g g1"
  by (cases cmd) (auto simp: trade_do_def intro: ConTrade_kept ConTr_kept)

lemma trade_run_kept: "trade_ok g \<Longrightarrow> trade_run cs g = Some g1 \<Longrightarrow> money_kept g g1"
proof (induction cs arbitrary: g)
  case (Cons x cs)
  obtain E c cmd where x: "x = (E, c, cmd)" by (cases x)
  obtain h where h: "trade_do E c cmd g = Some h" "trade_run cs h = Some g1"
    using Cons.prems(2) by (auto simp: x split: option.splits)
  have "money_kept g h" using trade_do_kept [OF Cons.prems(1) h(1)] .
  then show ?case using Cons.IH [of h] h(2) by (simp add: money_kept_def)
qed simp

subsection \<open>Which player's money a command changes\<close>

definition same_money :: "trade_game \<Rightarrow> trade_game \<Rightarrow> bool" where
  "same_money g g1 \<longleftrightarrow> (\<forall>i. map_option pl_Money (player_at g1 i) = map_option pl_Money (player_at g i))"

lemma same_money_players: "tg_apPlayers g1 = tg_apPlayers g \<Longrightarrow> same_money g g1"
  by (simp add: same_money_def player_at_def)

lemma same_money_trans: "same_money g g1 \<Longrightarrow> same_money g1 g2 \<Longrightarrow> same_money g g2"
  by (simp add: same_money_def)

lemma same_money_set:
  "player_at g i = Some p \<Longrightarrow> pl_Money p' = pl_Money p \<Longrightarrow> same_money g (set_player i p' g)"
  by (auto simp: same_money_def player_at_set)

lemma save_offer_same: "save_offer E i W Price T m g = Some g1 \<Longrightarrow> same_money g g1"
  by (auto simp: save_offer_def intro!: same_money_set)

lemma offer_to_all_nth:
  "k < length ps \<Longrightarrow> map_option pl_Money (offer_to_all c t ps i ! k) = map_option pl_Money (ps ! k)"
proof (induction ps arbitrary: i k)
  case (Cons p ps)
  then show ?case by (cases k) (auto simp: option.map_comp comp_def)
qed simp

lemma offer_to_all_same: "same_money g (g\<lparr>tg_apPlayers := offer_to_all c t (tg_apPlayers g) 0\<rparr>)"
  by (auto simp: same_money_def player_at_def offer_to_all_nth)

lemma trade_sell_public_same:
  assumes "trade_sell_public E c args g = Some g1"
  shows "same_money g g1"
proof -
  obtain r h where h: "TradePrepareSell E (CResult_GetString args 3) c (str_copy (CResult_GetString args 1) 64) (CResult_GetInteger args 2) True g = Some (r, h)"
    using assms by (auto simp: trade_sell_public_def Let_def split: option.splits)
  have k: "same_money g h" using prepare_sell_chat [OF h] same_money_players by auto
  show ?thesis
  proof (cases "r = - 1")
    case True
    then show ?thesis using assms h k by (simp add: trade_sell_public_def Let_def)
  next
    case False
    obtain t t' where s: "save_offer E c (TradeItemToInt (CResult_GetString args 1)) (CResult_GetInteger args 2) (- 1) 2
        ((SendChatTarget (- 1) t h)\<lparr>tg_apPlayers := offer_to_all c t' (tg_apPlayers (SendChatTarget (- 1) t h)) 0\<rparr>) = Some g1"
      using assms h False unfolding trade_sell_public_def Let_def by auto
    have "same_money h (SendChatTarget (- 1) t h)" by (simp add: same_money_players)
    from k this offer_to_all_same save_offer_same [OF s] show ?thesis by (metis same_money_trans)
  qed
qed

lemma trade_sell_same:
  assumes "trade_sell E c args g = Some g1"
  shows "same_money g g1"
proof -
  obtain r h where h: "TradePrepareSell E (CResult_GetString args 3) c (str_copy (CResult_GetString args 1) 64) (CResult_GetInteger args 2) False g = Some (r, h)"
    using assms by (auto simp: trade_sell_def Let_def split: option.splits)
  have k: "same_money g h" using prepare_sell_chat [OF h] same_money_players by auto
  show ?thesis
  proof (cases "r = - 1")
    case True
    then show ?thesis using assms h k by (simp add: trade_sell_def Let_def)
  next
    case False
    then obtain t t' t'' q where q: "player_at (SendChatTarget r t h) r = Some q"
      and s: "save_offer E c (TradeItemToInt (CResult_GetString args 1)) (CResult_GetInteger args 2) r 1
        (SendChatTarget c t'' (set_player r (q\<lparr>pl_aTradeOffer := t'\<rparr>) (SendChatTarget r t h))) = Some g1"
      using assms h unfolding trade_sell_def Let_def by (auto split: bind_splits)
    let ?h = "set_player r (q\<lparr>pl_aTradeOffer := t'\<rparr>) (SendChatTarget r t h)"
    have 1: "same_money h (SendChatTarget r t h)" by (simp add: same_money_players)
    have 2: "same_money (SendChatTarget r t h) ?h" by (intro same_money_set [OF q]) simp
    have 3: "same_money ?h (SendChatTarget c t'' ?h)" by (simp add: same_money_players)
    from k 1 2 3 save_offer_same [OF s] show ?thesis by (metis same_money_trans)
  qed
qed

text \<open>The price and the item are the ones of the command; \<open>/tr\<close> has a limit instead.\<close>

definition agreed :: "trade_cmd \<Rightarrow> player \<Rightarrow> bool" where
  "agreed cmd s = (case cmd of
     CmdTrade args \<Rightarrow> TradeItemToInt (CResult_GetString args 1) = pl_TradeItem s \<and> CResult_GetInteger args 2 = pl_TradeMoney s
   | CmdTr args \<Rightarrow> pl_TradeMoney s \<le> 5000)"

definition completed :: "trade_env \<Rightarrow> int \<Rightarrow> trade_cmd \<Rightarrow> trade_game \<Rightarrow> trade_game \<Rightarrow> bool" where
  "completed E c cmd g g1 \<longleftrightarrow>
     (\<exists>S I b s. may_buy g c S (pl_TradeItem s) b s \<and> agreed cmd s \<and> complete_trade E c S (pl_TradeItem s) I g = Some g1)"

lemma completedI:
  "may_buy g c S (pl_TradeItem s) b s \<Longrightarrow> agreed cmd s \<Longrightarrow> complete_trade E c S (pl_TradeItem s) I g = Some g1 \<Longrightarrow>
     completed E c cmd g g1"
  unfolding completed_def by blast

lemma trade_buy_cases:
  assumes "trade_buy E c args g = Some g1"
  shows "tg_apPlayers g1 = tg_apPlayers g \<or> completed E c (CmdTrade args) g g1"
proof -
  let ?S = "GetCidByName E g (CResult_GetString args 3)"
  let ?W = "TradeItemToInt (CResult_GetString args 1)"
  obtain r h where h: "TradePrepareBuy E c (CResult_GetString args 3) ?W g = Some (r, h)"
    using assms by (auto simp: trade_buy_def Let_def split: option.splits)
  have k: "tg_apPlayers h = tg_apPlayers g" using prepare_buy_chat [OF h] .
  show ?thesis
  proof (cases "r = 0")
    case False
    then show ?thesis using assms h k by (simp add: trade_buy_def Let_def)
  next
    case True
    then obtain b s where b: "h = g" "may_buy g c ?S ?W b s" using prepare_buy_ok h by blast
    then have s: "player_at g ?S = Some s" by (simp add: may_buy_def)
    show ?thesis
    proof (cases "pl_TradeItem s = ?W \<and> pl_TradeMoney s = CResult_GetInteger args 2")
      case False
      then show ?thesis using assms h \<open>r = 0\<close> b(1) s by (auto simp: trade_buy_def Let_def)
    next
      case True
      then have "complete_trade E c ?S ?W (CResult_GetString args 1) g = Some g1"
        using assms h \<open>r = 0\<close> b(1) s by (simp add: trade_buy_def Let_def)
      then have "completed E c (CmdTrade args) g g1"
        using b(2) True by (intro completedI [of _ _ ?S s b]) (auto simp: agreed_def)
      then show ?thesis ..
    qed
  qed
qed

lemma tr_accept_cases:
  assumes "tr_accept E c args g = Some g1"
  shows "tg_apPlayers g1 = tg_apPlayers g \<or> completed E c (CmdTr args) g g1"
proof (cases "GetCidByName E g (CResult_GetString args 0) = - 1")
  case True
  then show ?thesis using assms by (auto simp: tr_accept_def Let_def)
next
  case S: False
  let ?S = "GetCidByName E g (CResult_GetString args 0)"
  let ?W = "case player_at g ?S of Some s \<Rightarrow> pl_TradeItem s | None \<Rightarrow> - 1"
  obtain r h where h: "TradePrepareBuy E c (CResult_GetString args 0) ?W g = Some (r, h)"
    using assms S by (auto simp: tr_accept_def Let_def split: option.splits)
  have k: "tg_apPlayers h = tg_apPlayers g" using prepare_buy_chat [OF h] .
  show ?thesis
  proof (cases "r = 0")
    case False
    then show ?thesis using assms h k S by (simp add: tr_accept_def Let_def)
  next
    case True
    then obtain b s where b: "h = g" "may_buy g c ?S ?W b s" using prepare_buy_ok h by blast
    then have s: "player_at g ?S = Some s" by (simp add: may_buy_def)
    show ?thesis
    proof (cases "pl_TradeMoney s > 5000")
      case True
      then show ?thesis using assms h \<open>r = 0\<close> b(1) s S by (auto simp: tr_accept_def Let_def)
    next
      case False
      then have "complete_trade E c ?S ?W (str_copy (TradeItemToStr ?W) 64) g = Some g1"
        using assms h \<open>r = 0\<close> b(1) s S by (simp add: tr_accept_def Let_def)
      then have "completed E c (CmdTr args) g g1"
        using b(2) s False by (intro completedI [of _ _ ?S s b]) (auto simp: agreed_def)
      then show ?thesis ..
    qed
  qed
qed

lemma trade_gate_players: "trade_gate E c g = Inl g1 \<Longrightarrow> tg_apPlayers g1 = tg_apPlayers g"
  by (auto simp: trade_gate_def split: if_splits option.splits)

lemma trade_do_cases:
  assumes "trade_do E c cmd g = Some g1"
  shows "same_money g g1 \<or> completed E c cmd g g1"
proof (cases cmd)
  case (CmdTrade args)
  have "same_money g g1 \<or> trade_buy E c args g = Some g1"
    using assms unfolding trade_do_def CmdTrade ConTrade_def Let_def
    by (auto split: sum.splits if_splits intro: same_money_players trade_gate_players trade_sell_public_same trade_sell_same)
  then show ?thesis using trade_buy_cases same_money_players unfolding CmdTrade by blast
next
  case (CmdTr args)
  have "same_money g g1 \<or> tr_accept E c args g = Some g1"
    using assms unfolding trade_do_def CmdTr ConTr_def
    by (auto split: sum.splits if_splits intro: same_money_players trade_gate_players)
  then show ?thesis using tr_accept_cases same_money_players unfolding CmdTr by blast
qed

subsection \<open>What an accepted offer does\<close>

definition weapons_of :: "player \<Rightarrow> bool list" where
  "weapons_of p = (case pl_Character p of None \<Rightarrow> [] | Some c \<Rightarrow> ch_Got c)"

text \<open>The weapon slots of an item.\<close>

definition item_slots :: "int \<Rightarrow> nat list" where
  "item_slots Item = (if Item = 5 then [2, 3, 4] else if 2 \<le> Item \<and> Item \<le> 4 then [nat Item] else [])"

lemma buyer_weapons:
  assumes "2 \<le> W \<and> W \<le> 5"
  shows "weapons_of (buyer_item E W p) = fold (\<lambda>w l. l[w := True]) (item_slots W) (weapons_of p)"
proof -
  have "W = 2 \<or> W = 3 \<or> W = 4 \<or> W = 5" using assms by auto
  then show ?thesis
    by (cases "pl_Character p")
      (auto simp: weapons_of_def buyer_item_def item_slots_def traded_weapon_got WEAPON_SHOTGUN_def WEAPON_GRENADE_def WEAPON_LASER_def)
qed

lemma seller_weapons:
  assumes "2 \<le> W \<and> W \<le> 5"
  shows "weapons_of (seller_item W p) = fold (\<lambda>w l. l[w := False]) (item_slots W) (weapons_of p)"
proof -
  have "W = 2 \<or> W = 3 \<or> W = 4 \<or> W = 5" using assms by auto
  then show ?thesis
    by (cases "pl_Character p")
      (auto simp: weapons_of_def seller_item_def item_slots_def SetWeaponGot_def SetActiveWeapon_def)
qed

lemma weapons_of_paid [simp]:
  "weapons_of ((no_offer p)\<lparr>pl_aTradeOffer := t\<rparr>) = weapons_of p" "weapons_of (no_offer p) = weapons_of p"
  "weapons_of (MoneyTransaction a d p) = weapons_of p"
  by (simp_all add: weapons_of_def)

lemma completed_sale:
  assumes ok: "trade_ok g" and c: "completed E c cmd g g1"
  shows "\<exists>S b s b1 s1. player_at g c = Some b \<and> player_at g S = Some s \<and> c \<noteq> S \<and> \<not> IsLoggedIn b \<and> \<not> IsLoggedIn s \<and>
     (pl_TradeId s = - 1 \<or> pl_TradeId s = c) \<and> agreed cmd s \<and> 1 \<le> pl_TradeMoney s \<and> pl_TradeMoney s \<le> pl_Money b \<and>
     player_at g1 c = Some b1 \<and> pl_Money b1 = pl_Money b - pl_TradeMoney s \<and>
     weapons_of b1 = fold (\<lambda>w l. l[w := True]) (item_slots (pl_TradeItem s)) (weapons_of b) \<and>
     player_at g1 S = Some s1 \<and> pl_Money s1 = pl_Money s + pl_TradeMoney s \<and> pl_TradeItem s1 = - 1 \<and>
     weapons_of s1 = fold (\<lambda>w l. l[w := False]) (item_slots (pl_TradeItem s)) (weapons_of s) \<and>
     (\<forall>i. i \<noteq> c \<and> i \<noteq> S \<longrightarrow> player_at g1 i = player_at g i)"
proof -
  obtain S I b s where m: "may_buy g c S (pl_TradeItem s) b s" "agreed cmd s"
    and t: "complete_trade E c S (pl_TradeItem s) I g = Some g1"
    using c by (auto simp: completed_def)
  let ?b1 = "buyer_pays E I S (pl_TradeMoney s) (pl_TradeItem s) b"
  let ?s1 = "seller_is_paid E I c (pl_TradeMoney s) (pl_TradeItem s) s"
  have p: "player_at g c = Some b" "player_at g S = Some s" "c \<noteq> S" "pl_TradeMoney s \<le> pl_Money b"
    "\<not> IsLoggedIn b" "\<not> IsLoggedIn s" "pl_TradeId s = - 1 \<or> pl_TradeId s = c"
    using m(1) by (auto simp: may_buy_def)
  have tr: "trader_ok b" "trader_ok s" using ok player_at_mem [OF p(1)] player_at_mem [OF p(2)] by (auto simp: trade_ok_def)
  have pos: "\<forall>p. Some p \<in> set (tg_apPlayers g) \<longrightarrow> 0 \<le> pl_Money p" using ok by (simp add: trade_ok_def trader_ok_def)
  have W: "2 \<le> pl_TradeItem s \<and> pl_TradeItem s \<le> 5" "1 \<le> pl_TradeMoney s"
    using tr(2) bought_item [OF m(1) ok] by (auto simp: trader_ok_def)
  have "pl_Money b + pl_Money s < 2147483648" using two_le_total [OF pos p(1-3)] ok by (simp add: trade_ok_def)
  then have r: "0 \<le> pl_Money b - pl_TradeMoney s" "pl_Money b - pl_TradeMoney s < 2147483648"
    "0 \<le> pl_Money s + pl_TradeMoney s" "pl_Money s + pl_TradeMoney s < 2147483648"
    using p(4) W(2) tr by (auto simp: trader_ok_def)
  note at = complete_trade_at(1) [OF m(1) t]
  have 1: "player_at g1 c = Some ?b1" "player_at g1 S = Some ?s1" "\<forall>i. i \<noteq> c \<and> i \<noteq> S \<longrightarrow> player_at g1 i = player_at g i"
    using at p(3) by auto
  have 2: "weapons_of ?b1 = fold (\<lambda>w l. l[w := True]) (item_slots (pl_TradeItem s)) (weapons_of b)"
    by (simp add: buyer_pays_def buyer_weapons [OF W(1)])
  have 3: "weapons_of ?s1 = fold (\<lambda>w l. l[w := False]) (item_slots (pl_TradeItem s)) (weapons_of s)"
    by (simp add: seller_is_paid_def seller_weapons [OF W(1)])
  have 4: "pl_TradeItem ?s1 = - 1" by (simp add: seller_is_paid_def)
  show ?thesis
    using p m(2) W(2) 1 2 3 4 buyer_pays_money [OF r(1,2)] seller_is_paid_money [OF r(3,4)]
    by (intro exI [of _ S] exI [of _ b] exI [of _ s] exI [of _ ?b1] exI [of _ ?s1]) simp
qed

subsection \<open>Accesses outside the weapons\<close>

text \<open>Everything that is checked before the seller's weapons.\<close>

definition weapons_are_checked :: "trade_game \<Rightarrow> int \<Rightarrow> int \<Rightarrow> player \<Rightarrow> player \<Rightarrow> bool" where
  "weapons_are_checked g B S b s \<longleftrightarrow> player_at g B = Some b \<and> player_at g S = Some s \<and> B \<noteq> S \<and>
     \<not> IsLoggedIn b \<and> \<not> IsLoggedIn s \<and> pl_Character b \<noteq> None \<and> pl_Character s \<noteq> None \<and>
     pl_TradeMoney s \<le> pl_Money b \<and> (pl_TradeId s = - 1 \<or> pl_TradeId s = B)"

lemma HasWeapon_ok: "trade_ok g \<Longrightarrow> player_at g S = Some s \<Longrightarrow> pl_Character s = Some c \<Longrightarrow> HasWeapon c I = None \<longleftrightarrow> I < 0 \<or> 6 \<le> I"
  by (auto dest!: player_at_mem simp: trade_ok_def trader_ok_def HasWeapon_def NUM_WEAPONS_def)

lemma prepare_buy_none:
  assumes "trade_ok g"
  shows "TradePrepareBuy E B n I g = None \<longleftrightarrow>
    GetCidByName E g n \<noteq> - 1 \<and> (I < 0 \<or> 6 \<le> I) \<and> (\<exists>b s. weapons_are_checked g B (GetCidByName E g n) b s)"
proof (cases "GetCidByName E g n = - 1")
  case True
  then show ?thesis by (auto simp: TradePrepareBuy_def refuse_def Let_def split: option.splits)
next
  case False
  then obtain s where s: "player_at g (GetCidByName E g n) = Some s" by (rule GetCidByName_player)
  note hw = HasWeapon_ok [OF assms s]
  show ?thesis
  proof (cases "player_at g B")
    case None
    then show ?thesis by (auto simp: TradePrepareBuy_def weapons_are_checked_def)
  next
    case (Some b)
    have three: "all_three c \<noteq> None" if "pl_Character s = Some c" for c
      using hw [OF that] by (auto simp: all_three_def split: bind_splits)
    show ?thesis
    proof (cases "\<exists>b s. weapons_are_checked g B (GetCidByName E g n) b s")
      case True
      then have w: "weapons_are_checked g B (GetCidByName E g n) b s" using Some s by (auto simp: weapons_are_checked_def)
      then obtain bc sc where c: "pl_Character b = Some bc" "pl_Character s = Some sc"
        by (auto simp: weapons_are_checked_def)
      have "TradePrepareBuy E B n I g = None \<longleftrightarrow> HasWeapon sc I = None"
      proof (cases "HasWeapon sc I")
        case None
        then show ?thesis using w Some s c False
          by (auto simp add: TradePrepareBuy_def weapons_are_checked_def Let_def)
      next
        case o: (Some one)
        obtain t where t: "(if \<not> one \<and> I = 5 then all_three sc else Some False) = Some t"
          using three [OF c(2)] by (cases "all_three sc"; cases "\<not> one \<and> I = 5") auto
        have "TradePrepareBuy E B n I g \<noteq> None"
          using w Some s c False by (simp add: TradePrepareBuy_def weapons_are_checked_def Let_def o t refuse_def)
        then show ?thesis using o by simp
      qed
      then show ?thesis using hw [OF c(2)] True False by simp
    next
      case F: False
      then have "\<not> weapons_are_checked g B (GetCidByName E g n) b s" by blast
      then consider "B = GetCidByName E g n" | "IsLoggedIn b" | "IsLoggedIn s" | "pl_Character b = None" | "pl_Character s = None"
        | "pl_TradeMoney s > pl_Money b" | "pl_TradeId s \<noteq> - 1 \<and> pl_TradeId s \<noteq> B"
        using Some s by (auto simp: weapons_are_checked_def)
      then have "TradePrepareBuy E B n I g \<noteq> None"
        by cases (use Some s False in \<open>simp_all add: TradePrepareBuy_def refuse_def Let_def split: option.split\<close>)
      then show ?thesis using F by simp
    qed
  qed
qed

lemma complete_trade_some:
  "player_at g B = Some b \<Longrightarrow> player_at g S = Some s \<Longrightarrow> \<exists>y. complete_trade E B S W I g = Some y"
  by (simp add: complete_trade_def Let_def)

lemma trade_buy_none:
  assumes "trade_ok g"
  shows "trade_buy E B args g = None \<longleftrightarrow>
    TradePrepareBuy E B (CResult_GetString args 3) (TradeItemToInt (CResult_GetString args 1)) g = None"
proof (cases "TradePrepareBuy E B (CResult_GetString args 3) (TradeItemToInt (CResult_GetString args 1)) g")
  case (Some x)
  obtain r h where x: "x = (r, h)" by (cases x)
  show ?thesis
  proof (cases "r = 0")
    case True
    then obtain b s where "h = g" "may_buy g B (GetCidByName E g (CResult_GetString args 3)) (TradeItemToInt (CResult_GetString args 1)) b s"
      using prepare_buy_ok Some x by blast
    then show ?thesis using Some x True by (simp add: trade_buy_def Let_def may_buy_def complete_trade_some)
  qed (use Some x in \<open>simp add: trade_buy_def Let_def\<close>)
qed (simp add: trade_buy_def Let_def)

lemma tr_accept_none:
  assumes "trade_ok g"
  shows "tr_accept E B args g = None \<longleftrightarrow> GetCidByName E g (CResult_GetString args 0) \<noteq> - 1 \<and>
    TradePrepareBuy E B (CResult_GetString args 0)
      (case player_at g (GetCidByName E g (CResult_GetString args 0)) of Some s \<Rightarrow> pl_TradeItem s | None \<Rightarrow> - 1) g = None"
proof (cases "GetCidByName E g (CResult_GetString args 0) = - 1")
  case False
  let ?W = "case player_at g (GetCidByName E g (CResult_GetString args 0)) of Some s \<Rightarrow> pl_TradeItem s | None \<Rightarrow> - 1"
  show ?thesis
  proof (cases "TradePrepareBuy E B (CResult_GetString args 0) ?W g")
    case (Some x)
    obtain r h where x: "x = (r, h)" by (cases x)
    show ?thesis
    proof (cases "r = 0")
      case True
      then obtain b s where "h = g" "may_buy g B (GetCidByName E g (CResult_GetString args 0)) ?W b s"
        using prepare_buy_ok Some x by blast
      then show ?thesis using Some x True False by (simp add: tr_accept_def Let_def may_buy_def complete_trade_some)
    qed (use Some x False in \<open>simp add: tr_accept_def Let_def\<close>)
  qed (use False in \<open>simp add: tr_accept_def Let_def\<close>)
qed (simp add: tr_accept_def)

subsection \<open>Properties\<close>



lemma trade_sell_logged_in:
  assumes "player_at g c = Some p" "IsLoggedIn p"
  shows "trade_sell_public E c args g = Some g1 \<Longrightarrow> tg_apPlayers g1 = tg_apPlayers g"
    "trade_sell E c args g = Some g1 \<Longrightarrow> tg_apPlayers g1 = tg_apPlayers g"
proof -
  assume a: "trade_sell_public E c args g = Some g1"
  obtain r h where h: "TradePrepareSell E (CResult_GetString args 3) c (str_copy (CResult_GetString args 1) 64) (CResult_GetInteger args 2) True g = Some (r, h)"
    using a by (auto simp: trade_sell_public_def Let_def split: option.splits)
  then have "r = - 1" "tg_apPlayers h = tg_apPlayers g" using prepare_sell_chat [OF h] assms by auto
  then show "tg_apPlayers g1 = tg_apPlayers g" using a h by (simp add: trade_sell_public_def Let_def)
next
  assume a: "trade_sell E c args g = Some g1"
  obtain r h where h: "TradePrepareSell E (CResult_GetString args 3) c (str_copy (CResult_GetString args 1) 64) (CResult_GetInteger args 2) False g = Some (r, h)"
    using a by (auto simp: trade_sell_def Let_def split: option.splits)
  then have "r = - 1" "tg_apPlayers h = tg_apPlayers g" using prepare_sell_chat [OF h] assms by auto
  then show "tg_apPlayers g1 = tg_apPlayers g" using a h by (simp add: trade_sell_def Let_def)
qed

text \<open>C16: The checks of the login are the wrong way round: no command of a player who is logged in changes
  any player, so the accounts that the money belongs to can neither offer nor buy.\<close>

theorem logged_in_players_cannot_trade:
  assumes "player_at g c = Some p" "IsLoggedIn p" "trade_do E c cmd g = Some g1"
  shows "tg_apPlayers g1 = tg_apPlayers g"
proof -
  have n: "\<not> completed E c cmd g g1" using assms(1,2) by (auto simp: completed_def may_buy_def)
  show ?thesis
  proof (cases cmd)
    case (CmdTrade args)
    have "tg_apPlayers g1 = tg_apPlayers g \<or> trade_buy E c args g = Some g1"
      using assms(3) unfolding trade_do_def CmdTrade ConTrade_def Let_def
      by (auto split: sum.splits if_splits intro: trade_gate_players trade_sell_logged_in [OF assms(1,2)])
    then show ?thesis using n trade_buy_cases unfolding CmdTrade by blast
  next
    case (CmdTr args)
    have "tg_apPlayers g1 = tg_apPlayers g \<or> tr_accept E c args g = Some g1"
      using assms(3) unfolding trade_do_def CmdTr ConTr_def
      by (auto split: sum.splits if_splits intro: trade_gate_players)
    then show ?thesis using n tr_accept_cases unfolding CmdTr by blast
  qed
qed

text \<open>C17: When a purchase reads outside the weapons of the seller: exactly if everything before that check
  is fine and the item is not one of the four, which is the case for \<open>/trade buy\<close> with an unknown item, and for
  \<open>/tr\<close> with a player who made no offer.\<close>

theorem purchase_reads_outside_weapons:
  assumes "trade_ok g"
  shows "(trade_buy E c args g = None \<longleftrightarrow>
      GetCidByName E g (CResult_GetString args 3) \<noteq> - 1 \<and> TradeItemToInt (CResult_GetString args 1) = - 1 \<and>
      (\<exists>b s. weapons_are_checked g c (GetCidByName E g (CResult_GetString args 3)) b s)) \<and>
    (tr_accept E c args g = None \<longleftrightarrow>
      GetCidByName E g (CResult_GetString args 0) \<noteq> - 1 \<and>
      (\<exists>b s. weapons_are_checked g c (GetCidByName E g (CResult_GetString args 0)) b s \<and> pl_TradeItem s = - 1))"
proof -
  have out: "I < 0 \<or> 6 \<le> I \<longleftrightarrow> I = - 1" if "I = - 1 \<or> 2 \<le> I \<and> I \<le> 5" for I :: int using that by auto
  have it: "pl_TradeItem s = - 1 \<or> 2 \<le> pl_TradeItem s \<and> pl_TradeItem s \<le> 5" if "player_at g i = Some s" for i s
    using player_at_mem [OF that] assms by (auto simp: trade_ok_def trader_ok_def)
  have 1: "trade_buy E c args g = None \<longleftrightarrow>
      GetCidByName E g (CResult_GetString args 3) \<noteq> - 1 \<and> TradeItemToInt (CResult_GetString args 1) = - 1 \<and>
      (\<exists>b s. weapons_are_checked g c (GetCidByName E g (CResult_GetString args 3)) b s)"
    unfolding trade_buy_none [OF assms] prepare_buy_none [OF assms] out [OF item_range] ..
  have 2: "tr_accept E c args g = None \<longleftrightarrow>
      GetCidByName E g (CResult_GetString args 0) \<noteq> - 1 \<and>
      (\<exists>b s. weapons_are_checked g c (GetCidByName E g (CResult_GetString args 0)) b s \<and> pl_TradeItem s = - 1)"
  proof (cases "player_at g (GetCidByName E g (CResult_GetString args 0))")
    case None
    then show ?thesis unfolding tr_accept_none [OF assms] prepare_buy_none [OF assms]
      by (auto simp: weapons_are_checked_def)
  next
    case (Some s)
    have w: "weapons_are_checked g c (GetCidByName E g (CResult_GetString args 0)) b s1 \<Longrightarrow> s1 = s" for b s1
      using Some by (simp add: weapons_are_checked_def)
    show ?thesis
      unfolding tr_accept_none [OF assms] prepare_buy_none [OF assms]
      using out [OF it [OF Some]] w Some by auto
  qed
  show ?thesis using 1 2 by blast
qed

subsection \<open>A trade\<close>

text \<open>Anna has 100 money and no weapons, Bob a shotgun; nobody is logged in.\<close>

definition armed :: "bool list \<Rightarrow> tee" where
  "armed got = \<lparr>ch_Got = got, ch_Ammo = [- 1, 10, - 1, - 1, - 1, - 1], ch_ActiveWeapon = 1, ch_aDecreaseAmmo = replicate 6 False,
     ch_IsBombing = False, ch_IsPvpArenaing = False\<rparr>"

definition trade_demo_env :: trade_env where
  "trade_demo_env = \<lparr>te_Tick = 1, te_TickSpeed = 50, te_SvAllowTrade = True,
     te_ClientName = (\<lambda>i. if i = 0 then lit ''anna'' else lit ''bob''), te_Maxammo = (\<lambda>w. 10)\<rparr>"

definition trade_demo :: trade_game where
  "trade_demo = \<lparr>tg_apPlayers =
     Some (blank_player\<lparr>pl_Money := 100, pl_Character := Some (armed [True, True, False, False, False, False])\<rparr>) #
     Some (blank_player\<lparr>pl_Money := 5, pl_Character := Some (armed [True, True, True, False, False, False])\<rparr>) # replicate 126 None,
     tg_Chat = []\<rparr>"

lemma trade_demo_ok: "trade_ok trade_demo"
  by (auto simp: trade_ok_def trade_demo_def MAX_CLIENTS_def trader_ok_def blank_player_def armed_def NUM_WEAPONS_def
      total_money_def money_of_def sum_list_replicate)

definition trade_demo_cmds :: "(trade_env \<times> int \<times> trade_cmd) list" where
  "trade_demo_cmds = [(trade_demo_env, 1, CmdTrade [lit ''sell_public'', lit ''shotgun'', lit ''30'']),
     (trade_demo_env, 0, CmdTrade [lit ''buy'', lit ''shotgun'', lit ''30'', lit ''bob''])]"

lemma trade_demo_run:
  "map_option (\<lambda>g1. (map money_of (take 2 (tg_apPlayers g1)), map_option weapons_of (tg_apPlayers g1 ! 0), map_option weapons_of (tg_apPlayers g1 ! 1)))
     (trade_run trade_demo_cmds trade_demo) =
   Some ([70, 35], Some [True, True, True, False, False, False], Some [True, True, False, False, False, False])"
  by code_simp

lemma trade_demo_offer:
  "map_option (\<lambda>g1. map money_of (take 2 (tg_apPlayers g1)))
     (trade_do trade_demo_env 1 (CmdTrade [lit ''sell_public'', lit ''shotgun'', lit ''30'']) trade_demo) = Some [100, 5]"
  by code_simp



text \<open>With an account Anna is told to log in.\<close>

theorem logged_in_players_cannot_trade_witness:
  "let g = set_player 0 (blank_player\<lparr>pl_AccId := 7, pl_Money := 100, pl_Character := Some (armed [True, True, False, False, False, False])\<rparr>) trade_demo in
     \<exists>g1. trade_do trade_demo_env 0 (CmdTrade [lit ''sell_public'', lit ''shotgun'', lit ''30'']) g = Some g1 \<and> tg_apPlayers g1 = tg_apPlayers g"
proof -
  define p where "p = blank_player\<lparr>pl_AccId := 7, pl_Money := 100, pl_Character := Some (armed [True, True, False, False, False, False])\<rparr>"
  define g where "g = set_player 0 p trade_demo"
  have "map_option (\<lambda>g1. 0) (trade_do trade_demo_env 0 (CmdTrade [lit ''sell_public'', lit ''shotgun'', lit ''30'']) g) = Some (0 :: int)"
    unfolding g_def p_def by code_simp
  then obtain g1 where g1: "trade_do trade_demo_env 0 (CmdTrade [lit ''sell_public'', lit ''shotgun'', lit ''30'']) g = Some g1" by blast
  have pl: "player_at g 0 = Some p" by (simp add: g_def set_player_def trade_demo_def player_at_def)
  have "IsLoggedIn p" by (simp add: p_def IsLoggedIn_def)
  from logged_in_players_cannot_trade [OF pl this g1] g1 show ?thesis
    unfolding p_def [symmetric] g_def [symmetric] Let_def by blast
qed

text \<open>Bob made no offer, and Anna types \<open>/tr bob\<close>.\<close>

theorem purchase_reads_outside_weapons_witness:
  "trade_ok trade_demo \<and> tr_accept trade_demo_env 0 [lit ''bob''] trade_demo = None"
proof -
  have i: "GetCidByName trade_demo_env trade_demo (CResult_GetString [lit ''bob''] 0) = 1" by code_simp
  obtain b s where "player_at trade_demo 0 = Some b" "player_at trade_demo 1 = Some s"
    and "weapons_are_checked trade_demo 0 1 b s" "pl_TradeItem s = - 1"
    by (simp add: trade_demo_def player_at_def weapons_are_checked_def IsLoggedIn_def blank_player_def)
  then show ?thesis
    using purchase_reads_outside_weapons [OF trade_demo_ok, of trade_demo_env 0 "[lit ''bob'']"] i trade_demo_ok by auto
qed

end
