(* ===== verification/Spec2Isabelle.thy ===== *)
theory Spec2Isabelle
  imports Prelude VarInt Utf8 Str StrCodec Utf8Text EditDist Packer Fifo RingBuffer
    HuffmanCode Huffman NetAddr Codec NetProtocol NetConn NetConnLaws NetDelivery NetLink
    Uuid Snapshot SnapItems SnapDelta NetServer NetServerLaws NetServerInv NetServerProps
    SnapIdPool JsonWriter BanPool NetBan NetBanProps
    PlayerMap PlayerMapLaws PlayerMapProps Account Trade TradeProps
begin

text \<open>
  A verification library for DDNet++ (a modification of the game DDNet), in src/. It models the
  base layer and the network engine: the code every server and client runs on the bytes it receives.
  Of the game it models the numbering of the players for clients with fewer slots, and what DDNet++ adds
  with the accounts of players: money, levels and trades.

  \<^bold>\<open>The program and its parts.\<close> A datagram that arrives is a header and, after the Huffman coder, a
  list of chunks (\<open>CNetBase::UnpackPacket\<close>). The connection of the sender's address checks token and
  ack (\<open>CNetConnection::Feed\<close>); the chunk unpacker hands out the chunks that are in sequence
  (\<open>CPacketChunkUnpacker\<close>); their bytes are messages, read field by field by \<open>CUnpacker\<close>, which uses
  the variable-length integers and the string operations. In the other direction \<open>CPacker\<close> builds a
  message, \<open>QueueChunk\<close> puts it into the packet under construction and, when it is vital, into the
  resend buffer (\<open>CRingBuffer\<close>), and \<open>Flush\<close> sends the packet.

  \<^bold>\<open>Theories.\<close> Paths are below src/src.
    \<^item> \<open>Prelude\<close>: bytes, the signed integer ranges, C division, lemmas on bits and byte lists.
    \<^item> \<open>VarInt\<close>: \<open>CVariableInt\<close> (engine/shared/compression.h, compression.cpp).
    \<^item> \<open>Utf8\<close>, \<open>Utf8Text\<close>, \<open>Str\<close>, \<open>StrCodec\<close>, \<open>EditDist\<close>: base/str.cpp: the UTF-8 coder and what is
      built on it, the operations on byte strings, hex, base64 and escapes, and the edit distance.
    \<^item> \<open>Packer\<close>: \<open>CAbstractPacker\<close> and \<open>CUnpacker\<close> (engine/shared/packer.cpp), base/bytes.cpp.
    \<^item> \<open>Fifo\<close>, \<open>RingBuffer\<close>: the locale of a queue in an arena, and engine/shared/ringbuffer.cpp, which
      is interpreted as one.
    \<^item> \<open>HuffmanCode\<close>, \<open>Huffman\<close>: engine/shared/huffman.cpp and its proofs.
    \<^item> \<open>NetAddr\<close>: addresses in base/net.cpp and base/types.h.
    \<^item> \<open>Codec\<close>, \<open>NetProtocol\<close>: the locale of a self-delimiting code, and the packets and chunk
      headers of engine/shared/network.cpp, network.h, protocolglue.cpp, protocol7.h.
    \<^item> \<open>NetConn\<close>: \<open>CNetConnection\<close> (network_conn.cpp, network_ddpp.cpp) and the chunk unpacker.
      \<open>NetConnLaws\<close>: one law per operation. \<open>NetDelivery\<close>: reading a packet. \<open>NetLink\<close>: the life of a
      connection, two connections, the properties.
    \<^item> \<open>Uuid\<close>: engine/shared/uuid_manager.cpp.
    \<^item> \<open>Snapshot\<close>, \<open>SnapItems\<close>, \<open>SnapDelta\<close>: engine/shared/snapshot.cpp, its view as a list of items, and
      the properties of deltas.
    \<^item> \<open>NetServer\<close>: \<open>CNetServer\<close> (network_server.cpp, network_ddpp.cpp). \<open>NetServerLaws\<close>: what its
      operations leave alone. \<open>NetServerInv\<close>: the handshakes and the receive loop. \<open>NetServerProps\<close>: its
      runs and their properties.
    \<^item> \<open>SnapIdPool\<close>: \<open>CSnapIdPool\<close> (engine/server/snap_id_pool.cpp). \<open>JsonWriter\<close>: \<open>CJsonStringWriter\<close>
      (engine/shared/jsonwriter.cpp) and the escapes of json.cpp, with a reference parser.
    \<^item> \<open>BanPool\<close>, \<open>NetBan\<close>, \<open>NetBanProps\<close>: the ban list, engine/shared/netban.cpp: the pools with their links,
      which implement sorted lists, the commands and the check of an address, and the properties of runs.
    \<^item> \<open>PlayerMap\<close>, \<open>PlayerMapLaws\<close>, \<open>PlayerMapProps\<close>: \<open>CPlayerMapping\<close> (game/server/playermapping.cpp): the slots in
      which a client of 64 or 16 players sees the 128 players of the server, one law per operation, and the runs.
    \<^item> \<open>Account\<close>: money and levels of a player (game/server/player_ddpp.cpp). \<open>Trade\<close>, \<open>TradeProps\<close>: the offers
      and purchases of weapons (game/server/gamecontext_trades.cpp and the chat commands \<open>/trade\<close> and \<open>/tr\<close>).


  \<^bold>\<open>State.\<close> An object is a record with the fields of the class. A buffer is the list of bytes in it,
  or the array with its fixed length; a C string is the list of its bytes before the zero. A byte is
  an \<open>8 word\<close>; an int is an \<open>int\<close> with a range lemma, and wraps by \<open>to_i32\<close> where the code can
  overflow; a token is a \<open>32 word\<close>. The ring buffer is a heap of block headers addressed by offset;
  the objects inside it are found by the same addresses. \<open>c_Sent\<close> is the log of the datagrams a
  connection gave to the socket. The time, the settings and the random token of one call are the
  record \<open>net_env\<close>; \<open>time_get\<close> is constant within a call. An operation that trips an assertion or
  leaves an array has no result: it is \<open>Inl\<close> of an error or \<open>None\<close>, and the properties show that
  this does not happen. A loop whose end is not structural is a \<open>partial_function\<close> in the option
  monad, and that it ends is part of the property of its operation.

  \<^bold>\<open>Lemmas.\<close> Each component has an abstract view and one lemma per operation in its terms: the ring
  buffer is a list of blocks (\<open>ring_holds\<close>), the resend buffer a list of chunks (\<open>pending\<close>), the
  construct a list of chunks (\<open>building\<close>), the Huffman tables a code tree (\<open>huffman_tree\<close>), text a list
  of scalar values (\<open>encode_all\<close>), a snapshot and its builder a list of items (\<open>snap_view\<close>, \<open>builder_ok\<close>).
  The operations of the network server are classified by what they do to its slots: only traffic
  (\<open>quiet\<close>), a slot that is given to an address (\<open>becomes\<close>), a connection that ends (\<open>fades\<close>). The
  linked lists of the pools of ids and bans are lists of indices (\<open>pool_view\<close>, \<open>ban_view\<close>), and a pool of bans is
  a sorted list (\<open>bans_are\<close>) by the laws of the locale \<open>ban_kind\<close>, which addresses and ranges interpret. The properties are the round trips of the codecs, the refinements
  of those views, the bounds of every write, and, for two connections over a link that loses,
  repeats and reorders, that the vital chunks arrive exactly once and in order.

  \<^bold>\<open>Bounds.\<close> \<open>SIZEOF_RESEND\<close> is 40 and a block header 24 bytes (64-bit pointers); the resend buffer
  then holds at most 455 chunks, fewer than half of the 1024 sequence numbers. The unpacking loop of
  \<open>CVariableInt\<close> has the fuel of its four iterations.

  \<^bold>\<open>Not modelled.\<close> The sockets, files, threads and the printf family are calls into the C library or
  the operating system. The packet logs write to files. The settings, console, storage, demo and map
  formats are tables and files. The physics of the game computes with floating-point numbers, for which
  the libraries used here have no model, and the commands, minigames and teams of the game server act on
  it and on the database. The client with its graphics and sound, the tools, the tests, the Rust bridge and
  the vendored libraries under engine/external are left out. The generated table of lower-case letters
  is a parameter.
\<close>

end
